(* ===== verification/Prelude.thy ===== *)
theory Prelude
  imports Main "HOL-Library.Word" "HOL-Library.Monad_Syntax"
begin

text \<open>
  Shared vocabulary of the development: the fixed-width integers of
  \<^verbatim>\<open>include/types.h\<close>, assertions and array accesses as partial operations, and the generic
  lemmas on the option monad, on lists and on words that the component theories use.

  A C function that can reach a failed \<open>assert\<close>, a dereference of \<open>NULL\<close> or an access
  outside an array is a function into \<^typ>\<open>'a option\<close>, and \<^term>\<open>None\<close> is that outcome.
  (\<^verbatim>\<open>env/lib/assert.c\<close> only prints the failed expression and returns; what the code does after
  a failed assertion is not described here. The theorems about such functions show that a
  well-formed state never gets there.)
\<close>

unbundle bit_operations_syntax

type_synonym u8 = "8 word"
type_synonym u16 = "16 word"
type_synonym u32 = "32 word"
type_synonym u64 = "64 word"

text \<open>A pointer is a 32-bit address; \<open>NULL\<close> is 0.\<close>

type_synonym ptr = "32 word"

abbreviation NULL :: ptr where "NULL \<equiv> 0"

text \<open>The size of the screen, \<^verbatim>\<open>env/include/drivers/s5p4418_drone2.h\<close>.\<close>

definition CFG_DISP_PRI_RESOL_WIDTH :: nat where "CFG_DISP_PRI_RESOL_WIDTH = 1280"
definition CFG_DISP_PRI_RESOL_HEIGHT :: nat where "CFG_DISP_PRI_RESOL_HEIGHT = 800"

named_theorems alloc_simps \<open>unfolding facts of the allocator\<close>
named_theorems sched_simps \<open>unfolding facts of the scheduler\<close>
named_theorems timer_simps \<open>unfolding facts of the kernel timers\<close>
named_theorems fat_simps \<open>unfolding facts of the FAT file system\<close>

section \<open>Assertions and arrays\<close>

definition assert :: "bool \<Rightarrow> unit option" where
  "assert b = (if b then Some () else None)"

lemma assert_simps [simp]:
  "assert True = Some ()" "assert False = None"
  by (simp_all add: assert_def)

lemma assert_eq_Some [simp]: "assert b = Some u \<longleftrightarrow> b"
  by (simp add: assert_def)

lemma assert_bind_eq_Some [simp]: "(assert b \<bind> f = Some r) \<longleftrightarrow> b \<and> f () = Some r"
  by (simp add: assert_def)

lemma assert_bindI: "b \<Longrightarrow> assert b \<bind> f = f ()"
  by (simp add: assert_def)

definition rd :: "'a list \<Rightarrow> nat \<Rightarrow> 'a option" where
  "rd xs i = (if i < length xs then Some (xs ! i) else None)"

definition wr :: "'a list \<Rightarrow> nat \<Rightarrow> 'a \<Rightarrow> 'a list option" where
  "wr xs i v = (if i < length xs then Some (xs[i := v]) else None)"

lemma rd_eq_Some [simp]: "rd xs i = Some x \<longleftrightarrow> i < length xs \<and> x = xs ! i"
  by (auto simp: rd_def)

lemma wr_eq_Some [simp]: "wr xs i v = Some ys \<longleftrightarrow> i < length xs \<and> ys = xs[i := v]"
  by (auto simp: wr_def)

lemma rd_in [simp]: "i < length xs \<Longrightarrow> rd xs i = Some (xs ! i)"
  by simp

lemma wr_in [simp]: "i < length xs \<Longrightarrow> wr xs i v = Some (xs[i := v])"
  by simp

section \<open>The option monad\<close>

lemmas bind_conv = bind_eq_Some_conv

lemma bind_Some_iff: "(m \<bind> f = Some r) \<longleftrightarrow> (\<exists>x. m = Some x \<and> f x = Some r)"
  by (cases m) auto

section \<open>Linked lists in a store\<close>

text \<open>
  \<open>linked nx p as\<close>: following \<open>nx\<close> from \<open>p\<close> visits the addresses \<open>as\<close> and ends in
  \<^term>\<open>NULL\<close>.
\<close>

primrec linked :: "(ptr \<Rightarrow> ptr) \<Rightarrow> ptr \<Rightarrow> ptr list \<Rightarrow> bool" where
  "linked nx p [] \<longleftrightarrow> p = NULL"
| "linked nx p (a # as) \<longleftrightarrow> p = a \<and> a \<noteq> NULL \<and> linked nx (nx a) as"

lemma linked_NULL [simp]: "linked nx NULL as \<longleftrightarrow> as = []"
  by (cases as) auto

lemma linked_nonnull: "p \<noteq> NULL \<Longrightarrow> linked nx p as \<longleftrightarrow> (\<exists>bs. as = p # bs \<and> linked nx (nx p) bs)"
  by (cases as) auto

lemma linked_cong: "(\<And>a. a \<in> set as \<Longrightarrow> nx a = ny a) \<Longrightarrow> linked nx p as \<longleftrightarrow> linked ny p as"
  by (induction as arbitrary: p) auto

lemma linked_upd [simp]: "a \<notin> set as \<Longrightarrow> linked (nx(a := q)) p as \<longleftrightarrow> linked nx p as"
  by (rule linked_cong) auto

lemma linked_unique: "linked nx p as \<Longrightarrow> linked nx p bs \<Longrightarrow> as = bs"
proof (induction as arbitrary: p bs)
  case Nil
  then show ?case by simp
next
  case (Cons a as)
  then show ?case by (cases bs) auto
qed

lemma linked_no_NULL: "linked nx p as \<Longrightarrow> NULL \<notin> set as"
  by (induction as arbitrary: p) auto

section \<open>Lists\<close>

lemma set_concat_update:
  assumes "i < length xss"
  shows "set (concat (xss[i := ys])) \<subseteq> set ys \<union> set (concat xss)"
  using assms set_update_subset_insert [of xss i ys] by auto

lemma mset_free_distinct_update:
  assumes "distinct (concat xss)" "i < length xss" "xss ! i = x # xs"
  shows "distinct (concat (xss[i := xs]))"
    and "set (concat (xss[i := xs])) = set (concat xss) - {x}"
proof -
  let ?pre = "take i xss" and ?suf = "drop (Suc i) xss"
  have dec: "xss = ?pre @ (x # xs) # ?suf"
    using assms(2,3) by (metis id_take_nth_drop)
  have upd: "xss[i := xs] = ?pre @ xs # ?suf"
    using assms(2) by (simp add: upd_conv_take_nth_drop)
  have c: "concat xss = concat ?pre @ x # xs @ concat ?suf"
    by (subst dec) simp
  show "distinct (concat (xss[i := xs]))"
    using assms(1) unfolding upd c by auto
  show "set (concat (xss[i := xs])) = set (concat xss) - {x}"
    using assms(1) unfolding upd c by auto
qed

lemma distinct_concat_push:
  assumes "distinct (concat xss)" "i < length xss" "x \<notin> set (concat xss)"
  shows "distinct (concat (xss[i := x # xss ! i]))"
    and "set (concat (xss[i := x # xss ! i])) = insert x (set (concat xss))"
proof -
  let ?pre = "take i xss" and ?suf = "drop (Suc i) xss"
  have dec: "xss = ?pre @ (xss ! i) # ?suf"
    using assms(2) by (metis id_take_nth_drop)
  have upd: "xss[i := x # xss ! i] = ?pre @ (x # xss ! i) # ?suf"
    using assms(2) by (simp add: upd_conv_take_nth_drop)
  have c: "concat xss = concat ?pre @ xss ! i @ concat ?suf"
    by (subst (1) dec) simp
  show "distinct (concat (xss[i := x # xss ! i]))"
    using assms(1,3) unfolding upd c by auto
  show "set (concat (xss[i := x # xss ! i])) = insert x (set (concat xss))"
    unfolding upd c by auto
qed

lemma distinct_drop_nth:
  assumes "distinct xs" "k < length xs"
  shows "distinct (take k xs @ drop (Suc k) xs) \<and> set (take k xs @ drop (Suc k) xs) = set xs - {xs ! k}"
proof -
  define ys x zs where "ys = take k xs" and "x = xs ! k" and "zs = drop (Suc k) xs"
  have "xs = ys @ x # zs"
    using assms(2) id_take_nth_drop unfolding ys_def x_def zs_def by blast
  then have "distinct (ys @ zs) \<and> set (ys @ zs) = set xs - {x}"
    using assms(1) by auto
  then show ?thesis by (simp only: ys_def x_def zs_def)
qed

section \<open>Aligned ranges\<close>

lemma aligned_ranges_disjoint:
  assumes "(a::nat) mod k = 0" "b mod k = 0" "a \<noteq> b"
  shows "{a ..< a + k} \<inter> {b ..< b + k} = {}"
proof -
  obtain i j where ij: "a = k * i" "b = k * j"
    using assms(1,2) by (meson dvd_def mod_0_imp_dvd)
  with assms(3) have "i < j \<or> j < i" by auto
  then have "k * Suc i \<le> k * j \<or> k * Suc j \<le> k * i"
    by (metis Suc_leI mult_le_mono2)
  then show ?thesis by (auto simp: ij)
qed

section \<open>Words\<close>

lemma unat_add_no_wrap:
  fixes a b :: "'a::len word"
  shows "unat a + unat b < 2 ^ LENGTH('a) \<Longrightarrow> unat (a + b) = unat a + unat b"
  by (simp add: unat_word_ariths)

lemma unat_u32_less: "unat (w::u32) < 2 ^ 32"
  using unsigned_less [of w] by simp

lemma unat_of_nat_small: "n < 2 ^ LENGTH('a) \<Longrightarrow> unat (of_nat n :: 'a::len word) = n"
  by (simp add: unat_of_nat take_bit_nat_eq_self)

lemma of_nat_0_iff_small: "n < 2 ^ LENGTH('a) \<Longrightarrow> (of_nat n :: 'a::len word) = 0 \<longleftrightarrow> n = 0"
  by (simp add: word_unat_eq_iff unat_of_nat_small)

lemma unat_sub_no_wrap:
  fixes a b :: "'a::len word"
  shows "unat b \<le> unat a \<Longrightarrow> unat (a - b) = unat a - unat b"
  by (simp add: unat_sub word_le_nat_alt)

lemma take_bit_small: "unat (e::'a::len word) < 2 ^ n \<Longrightarrow> take_bit n e = e"
  by (simp add: word_unat_eq_iff unsigned_take_bit_eq take_bit_nat_eq_self)

lemma unat_and_mask:
  fixes w :: "'a::len word"
  assumes "n < LENGTH('a)"
  shows "unat (w AND mask n) = unat w mod 2 ^ n"
  by (metis take_bit_eq_mask unsigned_take_bit_eq take_bit_nat_def)

lemma unat_and_not_mask:
  fixes w :: "'a::len word"
  assumes "n < LENGTH('a)"
  shows "unat (w AND NOT (mask n)) = unat w - unat w mod 2 ^ n"
proof -
  have "w AND NOT (mask n) = w AND NOT (w AND mask n)" by (simp add: bit_eq_iff bit_simps) blast
  also have "\<dots> = w - (w AND mask n)"
    by (rule disjunctive_diff_eq_and_not [symmetric]) (simp add: bit_eq_iff bit_simps)
  finally have "w AND NOT (mask n) = w - (w AND mask n)" .
  moreover have "unat (w AND mask n) \<le> unat w" by (simp add: unat_and_mask [OF assms])
  ultimately show ?thesis
    by (simp add: unat_sub word_le_nat_alt unat_and_mask [OF assms])
qed

text \<open>The value of a word read as a signed integer.\<close>

lemma sint_u32: "sint (x::u32) = (if uint x < 2 ^ 31 then uint x else uint x - 2 ^ 32)"
proof -
  have b: "uint x < 2 ^ 32" "0 \<le> uint x" using uint_lt2p [of x] by simp_all
  have s: "sint x = (uint x + 2 ^ 31) mod 2 ^ 32 - 2 ^ 31"
    using int_word_sint [where 'a = 32, of "uint x"] by simp
  have "(uint x + 2 ^ 31) mod 2 ^ 32 = uint x + 2 ^ 31" if "uint x < 2 ^ 31"
    using that b by (intro mod_pos_pos_trivial) simp_all
  moreover have "(uint x + 2 ^ 31) mod 2 ^ 32 = uint x - 2 ^ 31" if "\<not> uint x < 2 ^ 31"
  proof -
    have "(uint x + 2 ^ 31) mod 2 ^ 32 = (uint x - 2 ^ 31 + 2 ^ 32) mod 2 ^ 32" by (simp add: algebra_simps)
    also have "\<dots> = (uint x - 2 ^ 31) mod 2 ^ 32" by (simp only: mod_add_self2)
    also have "\<dots> = uint x - 2 ^ 31" using that b by (intro mod_pos_pos_trivial) simp_all
    finally show ?thesis .
  qed
  ultimately show ?thesis using s by simp
qed

lemma sint_le_0_iff: "sint (x::u32) \<le> 0 \<longleftrightarrow> unat x = 0 \<or> 2 ^ 31 \<le> unat x"
proof -
  define u where "u = uint x"
  have "u < 2 ^ 32" "0 \<le> u" "unat x = nat u" using uint_lt2p [of x] by (simp_all add: u_def)
  then show ?thesis unfolding sint_u32 u_def [symmetric] by auto
qed

lemma sint_less_0_iff: "sint (x::u32) < 0 \<longleftrightarrow> 2 ^ 31 \<le> unat x"
proof -
  define u where "u = uint x"
  have "u < 2 ^ 32" "0 \<le> u" "unat x = nat u" using uint_lt2p [of x] by (simp_all add: u_def)
  then show ?thesis unfolding sint_u32 u_def [symmetric] by auto
qed

lemma sint_diff_small:
  assumes "unat (a::u32) < 2 ^ 31" "k < 2 ^ 31"
  shows "sint (a - of_nat k) \<le> 0 \<longleftrightarrow> unat a \<le> k"
proof -
  have u: "unat (of_nat k :: u32) = k" using assms(2) by (intro unat_of_nat_small) simp
  have "unat (a - of_nat k) = (if k \<le> unat a then unat a - k else unat a + 2 ^ 32 - k)"
    by (simp add: unat_sub_if' u)
  then show ?thesis using assms unfolding sint_le_0_iff by auto
qed

end
