(* ===== verification/Alloc.thy ===== *)
theory Alloc
  imports Prelude
begin

text \<open>
  The memory allocator, \<^verbatim>\<open>env/lib/alloc.c\<close>: the bump allocator with segregated free lists
  behind \<open>malloc\<close>/\<open>free\<close> and \<open>dma_malloc\<close>/\<open>dma_free\<close>, the page allocator behind
  \<open>palloc\<close>/\<open>pfree\<close>, and \<open>mem_initial\<close>, which divides the memory between them.

  The headers the code writes in front of the blocks are stores from addresses to headers (one
  per header type). The sections between \<open>ENTER_CRITICAL\<close> and \<open>EXIT_CRITICAL\<close> are atomic
  steps; theory Synchronize shows what the brackets do.
\<close>

section \<open>Data\<close>

record TBlockHeader =
  nMagic :: u32
  nSize :: u32
  pNext :: ptr

definition BLOCK_MAGIC :: u32 where "BLOCK_MAGIC = 0x424C4D43"
definition BLOCK_DMA_MAGIC :: u32 where "BLOCK_DMA_MAGIC = 0x12ab78de"
definition FREEPAGE_MAGIC :: u32 where "FREEPAGE_MAGIC = 0x50474D43"

record TFreePage =
  fp_nMagic :: u32
  fp_pNext :: ptr

text \<open>A bucket is its block size and the head of its free list; size 0 ends the table.\<close>

type_synonym TBlockBucket = "u32 \<times> ptr"

record alloc_state =
  s_pNextBlock :: ptr
  s_pBlockLimit :: ptr
  s_pNextDMABlock :: ptr
  s_pDMABlockLimit :: ptr
  s_pNextPage :: ptr
  s_pPageLimit :: ptr
  s_BlockBucket :: "TBlockBucket list"
  s_DMABlockBucket :: "TBlockBucket list"
  s_PageBucket :: ptr
  heap_start :: u32
  heap_size :: u32
  blk :: "ptr \<Rightarrow> TBlockHeader"
  dmablk :: "ptr \<Rightarrow> TBlockHeader"
  pagehdr :: "ptr \<Rightarrow> TFreePage"

definition block_sizes :: "u32 list" where
  "block_sizes = [0x40, 0x400, 0x1000, 0x4000, 0x8000, 0x40000, 0x80000, 0x100000, 0x200000,
     0x400000, 0x800000, 0x1000000, 0x2000000, 0x4000000, 0]"

definition dma_block_sizes :: "u32 list" where
  "dma_block_sizes = [0x100000, 0x200000, 0x400000, 0x800000, 0x1000000, 0x2000000, 0x4000000,
     0x8000000, 0]"

definition MEM_HEAP_START :: u32 where "MEM_HEAP_START = 0x41c00000"
definition MAX_MEMORY :: u32 where "MAX_MEMORY = 0xC0000000"
definition PAGE_SIZE :: u32 where "PAGE_SIZE = 4096"
definition CONFIG_FB_ADDR :: u32 where "CONFIG_FB_ADDR = 0x46000000"
definition FB_END :: u32 where "FB_END = CONFIG_FB_ADDR + 4 * 1024 * 1024"

section \<open>Operations\<close>

definition mem_initial :: "u32 \<Rightarrow> u32 \<Rightarrow> u32 \<Rightarrow> u32 \<Rightarrow> alloc_state \<Rightarrow> alloc_state" where
  "mem_initial ulBase0 ulSize0 ulDMABase ulDMASize s =
     (let ulBase = (if ulBase0 < MEM_HEAP_START then MEM_HEAP_START else ulBase0);
          ulSize1 = (if ulBase + ulSize0 > MAX_MEMORY
                     then ulSize0 - (ulBase + ulSize0 - MAX_MEMORY) else ulSize0);
          ulLimit = ulBase + ulSize1;
          ulSize = ulLimit - ulBase;
          ulQuarterSize = (ulSize * 3) div 4
      in s\<lparr>heap_start := ulBase, heap_size := ulSize1,
           s_pNextBlock := ulBase,
           s_pBlockLimit := ulBase + ulQuarterSize,
           s_pNextPage := (ulBase + ulQuarterSize + PAGE_SIZE) AND NOT (PAGE_SIZE - 1),
           s_pPageLimit := ulLimit,
           s_pNextDMABlock := ulDMABase,
           s_pDMABlockLimit := ulDMABase + ulDMASize\<rparr>)"

text \<open>The loop that looks for the first bucket that is large enough; \<^term>\<open>None\<close> is the end mark.\<close>

primrec find_bucket :: "u32 \<Rightarrow> TBlockBucket list \<Rightarrow> nat option" where
  "find_bucket ulSize [] = None"
| "find_bucket ulSize (b # bs) =
     (if fst b = 0 then None
      else if ulSize \<le> fst b then Some 0
      else map_option Suc (find_bucket ulSize bs))"

text \<open>The loop of \<open>free\<close>: the first bucket of exactly this size.\<close>

primrec match_bucket :: "u32 \<Rightarrow> TBlockBucket list \<Rightarrow> nat option" where
  "match_bucket sz [] = None"
| "match_bucket sz (b # bs) =
     (if fst b = 0 then None
      else if sz = fst b then Some 0
      else map_option Suc (match_bucket sz bs))"

definition block_extent :: "u32 \<Rightarrow> u32" where
  "block_extent ulSize = (16 + ulSize + 16 - 1) AND NOT (16 - 1)"

definition malloc :: "u32 \<Rightarrow> alloc_state \<Rightarrow> ptr \<times> alloc_state" where
  "malloc ulSize s =
     (if s_pNextBlock s = 0 then (NULL, s)
      else case find_bucket ulSize (s_BlockBucket s) of
        None \<Rightarrow> (NULL, s)
      | Some i \<Rightarrow>
          (let (sz, pFreeList) = s_BlockBucket s ! i in
           if pFreeList \<noteq> NULL then
             let h = blk s pFreeList in
             (pFreeList + 16,
              s\<lparr>s_BlockBucket := (s_BlockBucket s)[i := (sz, pNext h)],
                blk := (blk s)(pFreeList := h\<lparr>nMagic := BLOCK_MAGIC, pNext := NULL\<rparr>)\<rparr>)
           else
             let p0 = s_pNextBlock s;
                 n0 = p0 + block_extent sz;
                 (p, n) = (if n0 > CONFIG_FB_ADDR \<and> n0 \<le> FB_END
                           then (let b = (FB_END + 16) AND NOT (16 - 1) in (b, b + block_extent sz))
                           else (p0, n0));
                 s1 = s\<lparr>s_pNextBlock := n\<rparr>
             in if n > s_pBlockLimit s then (NULL, s1)
                else (p + 16,
                      s1\<lparr>blk := (blk s)(p := (blk s p)\<lparr>nMagic := BLOCK_MAGIC, nSize := sz, pNext := NULL\<rparr>)\<rparr>)))"

definition free :: "ptr \<Rightarrow> alloc_state \<Rightarrow> alloc_state" where
  "free p s =
     (if p = NULL then s
      else let a = p - 16; h = blk s a in
        case match_bucket (nSize h) (s_BlockBucket s) of
          None \<Rightarrow> s
        | Some i \<Rightarrow>
            (let (sz, pFreeList) = s_BlockBucket s ! i in
             s\<lparr>blk := (blk s)(a := h\<lparr>nMagic := 0, pNext := pFreeList\<rparr>),
               s_BlockBucket := (s_BlockBucket s)[i := (sz, a)]\<rparr>))"

definition dma_malloc :: "u32 \<Rightarrow> alloc_state \<Rightarrow> ptr \<times> alloc_state" where
  "dma_malloc ulSize s =
     (if s_pNextDMABlock s = 0 then (NULL, s)
      else case find_bucket ulSize (s_DMABlockBucket s) of
        None \<Rightarrow> (NULL, s)
      | Some i \<Rightarrow>
          (let (sz, pFreeList) = s_DMABlockBucket s ! i in
           if pFreeList \<noteq> NULL then
             let h = dmablk s pFreeList in
             (pFreeList + 16,
              s\<lparr>s_DMABlockBucket := (s_DMABlockBucket s)[i := (sz, pNext h)],
                dmablk := (dmablk s)(pFreeList := h\<lparr>nMagic := BLOCK_DMA_MAGIC, pNext := NULL\<rparr>)\<rparr>)
           else
             let p = s_pNextDMABlock s;
                 n = p + block_extent sz;
                 s1 = s\<lparr>s_pNextDMABlock := n\<rparr>
             in if n > s_pDMABlockLimit s then (NULL, s1)
                else (p + 16,
                      s1\<lparr>dmablk := (dmablk s)(p := (dmablk s p)\<lparr>nMagic := BLOCK_DMA_MAGIC, nSize := sz, pNext := NULL\<rparr>)\<rparr>)))"

definition dma_free :: "ptr \<Rightarrow> alloc_state \<Rightarrow> alloc_state" where
  "dma_free p s =
     (if p = NULL then s
      else let a = p - 16; h = dmablk s a in
        case match_bucket (nSize h) (s_DMABlockBucket s) of
          None \<Rightarrow> s
        | Some i \<Rightarrow>
            (let (sz, pFreeList) = s_DMABlockBucket s ! i in
             s\<lparr>dmablk := (dmablk s)(a := h\<lparr>nMagic := 0, pNext := pFreeList\<rparr>),
               s_DMABlockBucket := (s_DMABlockBucket s)[i := (sz, a)]\<rparr>))"

definition palloc :: "alloc_state \<Rightarrow> ptr \<times> alloc_state" where
  "palloc s =
     (if s_PageBucket s \<noteq> NULL then
        let p = s_PageBucket s; h = pagehdr s p in
        (p, s\<lparr>s_PageBucket := fp_pNext h, pagehdr := (pagehdr s)(p := h\<lparr>fp_nMagic := 0\<rparr>)\<rparr>)
      else
        let p = s_pNextPage s; n = p + PAGE_SIZE; s1 = s\<lparr>s_pNextPage := n\<rparr> in
        if n > s_pPageLimit s then (NULL, s1) else (p, s1))"

definition pfree :: "ptr \<Rightarrow> alloc_state \<Rightarrow> alloc_state" where
  "pfree p s =
     (if p = NULL then s
      else s\<lparr>pagehdr := (pagehdr s)(p := (pagehdr s p)\<lparr>fp_nMagic := FREEPAGE_MAGIC, fp_pNext := s_PageBucket s\<rparr>),
             s_PageBucket := p\<rparr>)"

section \<open>The contract of an allocator\<close>

text \<open>
  What a client of an allocator relies on: \<open>inv L s\<close> says that \<open>L\<close> is the set of pointers
  that have been handed out and not returned, \<open>extent s p\<close> is the memory the client may use
  behind \<open>p\<close>.
\<close>

locale allocator =
  fixes alloc :: "u32 \<Rightarrow> 's \<Rightarrow> ptr \<times> 's"
    and dealloc :: "ptr \<Rightarrow> 's \<Rightarrow> 's"
    and inv :: "ptr set \<Rightarrow> 's \<Rightarrow> bool"
    and extent :: "'s \<Rightarrow> ptr \<Rightarrow> nat set"
    and maxreq :: nat
  assumes alloc_inv: "inv L s \<Longrightarrow> alloc n s = (p, s') \<Longrightarrow> p \<noteq> NULL \<Longrightarrow> inv (insert p L) s'"
    and alloc_fresh: "inv L s \<Longrightarrow> alloc n s = (p, s') \<Longrightarrow> p \<noteq> NULL \<Longrightarrow> p \<notin> L"
    and alloc_frame: "inv L s \<Longrightarrow> alloc n s = (p, s') \<Longrightarrow> p \<noteq> NULL \<Longrightarrow> q \<in> L \<Longrightarrow>
        extent s' q = extent s q"
    and alloc_size: "inv L s \<Longrightarrow> alloc n s = (p, s') \<Longrightarrow> p \<noteq> NULL \<Longrightarrow> unat n \<le> maxreq \<Longrightarrow>
        {unat p ..< unat p + unat n} \<subseteq> extent s' p"
    and dealloc_inv: "inv L s \<Longrightarrow> p \<in> L \<Longrightarrow> inv (L - {p}) (dealloc p s)"
    and dealloc_frame: "inv L s \<Longrightarrow> p \<in> L \<Longrightarrow> q \<in> L - {p} \<Longrightarrow>
        extent (dealloc p s) q = extent s q"
    and live_disjoint: "inv L s \<Longrightarrow> p \<in> L \<Longrightarrow> q \<in> L \<Longrightarrow> p \<noteq> q \<Longrightarrow>
        extent s p \<inter> extent s q = {}"
    and live_nonnull: "inv L s \<Longrightarrow> NULL \<notin> L"

text \<open>A client as a script: allocate, or return the \<open>k\<close>-th of the blocks it holds. It goes on when there is no memory, and
  when it holds no \<open>k\<close>-th block.\<close>

datatype request = Get u32 | Put nat

fun run_requests ::
  "(u32 \<Rightarrow> 's \<Rightarrow> ptr \<times> 's) \<Rightarrow> (ptr \<Rightarrow> 's \<Rightarrow> 's) \<Rightarrow> request list \<Rightarrow> ptr list \<Rightarrow> 's \<Rightarrow> ptr list \<times> 's" where
  "run_requests al de [] held s = (held, s)"
| "run_requests al de (Get n # rs) held s =
     (let (p, s') = al n s in run_requests al de rs (if p = NULL then held else held @ [p]) s')"
| "run_requests al de (Put k # rs) held s =
     (if k < length held
      then run_requests al de rs (take k held @ drop (Suc k) held) (de (held ! k) s)
      else run_requests al de rs held s)"

text \<open>What a script asks for in all, given what each request takes.\<close>

primrec demand :: "(u32 \<Rightarrow> nat) \<Rightarrow> request list \<Rightarrow> nat" where
  "demand cost [] = 0"
| "demand cost (r # rs) = (case r of Get n \<Rightarrow> cost n | Put k \<Rightarrow> 0) + demand cost rs"

context allocator
begin

lemma new_block_disjoint:
  assumes "inv L s" "alloc n s = (p, s')" "p \<noteq> NULL" "q \<in> L"
  shows "extent s' p \<inter> extent s q = {}"
proof -
  have "p \<noteq> q" using alloc_fresh [OF assms(1-3)] assms(4) by blast
  then have "extent s' p \<inter> extent s' q = {}"
    using live_disjoint [OF alloc_inv [OF assms(1-3)]] assms(4) by simp
  then show ?thesis by (simp add: alloc_frame [OF assms])
qed

end

text \<open>An allocator that goes on after a failure. A request that fails may leave a state \<open>s\<close> that is not consistent but behaves
  like a consistent one, \<open>core t s\<close>, as long as the address space lasts: \<open>reserve s\<close> is what is left of it, and \<open>cost n\<close>
  what a request uses up, whether it fails or not.\<close>

locale failing_allocator = allocator alloc dealloc inv extent maxreq
  for alloc :: "u32 \<Rightarrow> 's \<Rightarrow> ptr \<times> 's" and dealloc :: "ptr \<Rightarrow> 's \<Rightarrow> 's" and inv :: "ptr set \<Rightarrow> 's \<Rightarrow> bool"
    and extent :: "'s \<Rightarrow> ptr \<Rightarrow> nat set" and maxreq :: nat +
  fixes core :: "'s \<Rightarrow> 's \<Rightarrow> bool" and cost :: "u32 \<Rightarrow> nat" and reserve :: "'s \<Rightarrow> nat"
  assumes core_refl: "core s s"
    and fail: "inv L t \<Longrightarrow> core t s \<Longrightarrow> cost n < reserve s \<Longrightarrow> alloc n s = (NULL, s') \<Longrightarrow> core t s'"
    and succeed: "inv L t \<Longrightarrow> core t s \<Longrightarrow> cost n < reserve s \<Longrightarrow> alloc n s = (p, s') \<Longrightarrow> p \<noteq> NULL \<Longrightarrow> \<exists>t'. alloc n t = (p, t') \<and> core t' s'"
    and spend: "inv L t \<Longrightarrow> core t s \<Longrightarrow> cost n < reserve s \<Longrightarrow> alloc n s = (p, s') \<Longrightarrow> reserve s \<le> reserve s' + cost n"
    and core_dealloc: "inv L t \<Longrightarrow> core t s \<Longrightarrow> p \<in> L \<Longrightarrow> core (dealloc p t) (dealloc p s) \<and> reserve (dealloc p s) = reserve s"
begin

lemma run_requests_core:
  assumes "run_requests alloc dealloc rs held s = (held', s')" "inv (set held) t" "core t s" "distinct held" "demand cost rs < reserve s"
  shows "\<exists>t'. inv (set held') t' \<and> core t' s' \<and> distinct held'"
  using assms
proof (induction rs arbitrary: held s t)
  case Nil
  then show ?case by auto
next
  case (Cons r rs)
  show ?case
  proof (cases r)
    case (Get n)
    obtain p u where al: "alloc n s = (p, u)" by (cases "alloc n s")
    have c: "cost n < reserve s" using Cons.prems(5) Get by simp
    have b: "demand cost rs < reserve u" using spend [OF Cons.prems(2,3) c al] Cons.prems(5) Get by simp
    show ?thesis
    proof (cases "p = NULL")
      case True
      then have "core t u" using fail [OF Cons.prems(2,3) c] al by simp
      then show ?thesis using Cons.IH [of held u t] Cons.prems b al Get True by simp
    next
      case False
      obtain t' where t: "alloc n t = (p, t')" "core t' u" using succeed [OF Cons.prems(2,3) c al False] by blast
      have "inv (set (held @ [p])) t'" "distinct (held @ [p])"
        using alloc_inv [OF Cons.prems(2) t(1) False] alloc_fresh [OF Cons.prems(2) t(1) False] Cons.prems(4) by simp_all
      then show ?thesis using Cons.IH [of "held @ [p]" u t'] Cons.prems(1) b al Get False t(2) by simp
    qed
  next
    case (Put k)
    show ?thesis
    proof (cases "k < length held")
      case True
      have d: "core (dealloc (held ! k) t) (dealloc (held ! k) s)" "reserve (dealloc (held ! k) s) = reserve s"
        using core_dealloc [OF Cons.prems(2,3), of "held ! k"] True by simp_all
      have "inv (set (take k held @ drop (Suc k) held)) (dealloc (held ! k) t)"
        using dealloc_inv [OF Cons.prems(2), of "held ! k"] True Cons.prems(4) by (simp only: distinct_drop_nth nth_mem)
      then show ?thesis
        using Cons.IH [of "take k held @ drop (Suc k) held" "dealloc (held ! k) s" "dealloc (held ! k) t"] d True Put Cons.prems(1,4,5)
        by (simp only: distinct_drop_nth) simp
    next
      case False
      then show ?thesis using Cons.IH [of held s t] Cons.prems Put by simp
    qed
  qed
qed

end

section \<open>Blocks and free lists\<close>

text \<open>
  The invariant shared by the two block allocators. \<open>blocks_ok sz n A\<close>: the blocks with headers
  at \<open>A\<close> are 16-byte aligned, lie below the bump pointer \<open>n\<close> and do not overlap.
  \<open>pool_ok\<close>: the free lists \<open>fl\<close> hang off the buckets, hold blocks of their bucket's size and are
  disjoint from the live headers \<open>L\<close>.
\<close>

definition blocks_ok :: "(ptr \<Rightarrow> u32) \<Rightarrow> ptr \<Rightarrow> ptr set \<Rightarrow> bool" where
  "blocks_ok sz n A \<longleftrightarrow>
     (\<forall>a\<in>A. 0 < unat a \<and> unat a mod 16 = 0 \<and> unat a + 16 + unat (sz a) \<le> unat n) \<and>
     (\<forall>a\<in>A. \<forall>b\<in>A. a \<noteq> b \<longrightarrow>
        unat a + 16 + unat (sz a) \<le> unat b \<or> unat b + 16 + unat (sz b) \<le> unat a)"

definition pool_ok ::
  "u32 list \<Rightarrow> ptr \<Rightarrow> TBlockBucket list \<Rightarrow> (ptr \<Rightarrow> TBlockHeader) \<Rightarrow> ptr list list \<Rightarrow> ptr set \<Rightarrow> bool" where
  "pool_ok sizes n bks m fl L \<longleftrightarrow>
     map fst bks = sizes \<and> length fl = length bks \<and>
     (\<forall>i < length bks. linked (\<lambda>a. pNext (m a)) (snd (bks ! i)) (fl ! i)) \<and>
     (\<forall>i < length bks. \<forall>a \<in> set (fl ! i). nSize (m a) = sizes ! i) \<and>
     distinct (concat fl) \<and> set (concat fl) \<inter> L = {} \<and>
     (\<forall>a \<in> L. nSize (m a) \<in> set sizes - {0}) \<and>
     blocks_ok (\<lambda>a. nSize (m a)) n (L \<union> set (concat fl))"

lemma blocks_ok_cong: "(\<And>a. a \<in> A \<Longrightarrow> f a = g a) \<Longrightarrow> blocks_ok f n A \<longleftrightarrow> blocks_ok g n A"
  by (simp add: blocks_ok_def)

lemma linked_hdr_upd [simp]:
  "a \<notin> set as \<Longrightarrow>
     linked (\<lambda>b. pNext (if b = a then h else m b)) p as \<longleftrightarrow> linked (\<lambda>b. pNext (m b)) p as"
  by (rule linked_cong) auto

lemma in_concat_nth: "i < length xss \<Longrightarrow> a \<in> set (xss ! i) \<Longrightarrow> a \<in> set (concat xss)"
  by auto

lemma distinct_concat_index:
  assumes "distinct (concat xss)" "i < length xss" "j < length xss" "i \<noteq> j"
  shows "set (xss ! i) \<inter> set (xss ! j) = {}"
  using assms
proof (induction xss arbitrary: i j)
  case Nil
  then show ?case by simp
next
  case (Cons xs xss)
  then show ?case
    by (cases i; cases j) (force dest: nth_mem)+
qed

lemma blocks_okD:
  assumes "blocks_ok sz n A" "a \<in> A"
  shows "0 < unat a" "unat a mod 16 = 0" "unat a + 16 + unat (sz a) \<le> unat n"
  using assms by (simp_all add: blocks_ok_def)

lemma blocks_ok_hdr:
  "nSize h = nSize (m a) \<Longrightarrow>
     blocks_ok (\<lambda>b. nSize ((m(a := h)) b)) n A \<longleftrightarrow> blocks_ok (\<lambda>b. nSize (m b)) n A"
  by (rule blocks_ok_cong) simp

lemma pool_okD:
  assumes "pool_ok sizes n bks m fl L"
  shows "map fst bks = sizes" "length fl = length bks"
    and "\<And>i. i < length bks \<Longrightarrow> linked (\<lambda>a. pNext (m a)) (snd (bks ! i)) (fl ! i)"
    and "\<And>i a. i < length bks \<Longrightarrow> a \<in> set (fl ! i) \<Longrightarrow> nSize (m a) = sizes ! i"
    and "distinct (concat fl)" "set (concat fl) \<inter> L = {}"
    and "\<And>a. a \<in> L \<Longrightarrow> nSize (m a) \<in> set sizes - {0}"
    and "blocks_ok (\<lambda>a. nSize (m a)) n (L \<union> set (concat fl))"
  using assms by (simp_all add: pool_ok_def)

lemma pool_okI:
  assumes "map fst bks = sizes" "length fl = length bks"
    and "\<And>i. i < length bks \<Longrightarrow> linked (\<lambda>a. pNext (m a)) (snd (bks ! i)) (fl ! i)"
    and "\<And>i a. i < length bks \<Longrightarrow> a \<in> set (fl ! i) \<Longrightarrow> nSize (m a) = sizes ! i"
    and "distinct (concat fl)" "set (concat fl) \<inter> L = {}"
    and "\<And>a. a \<in> L \<Longrightarrow> nSize (m a) \<in> set sizes - {0}"
    and "blocks_ok (\<lambda>a. nSize (m a)) n (L \<union> set (concat fl))"
  shows "pool_ok sizes n bks m fl L"
  using assms by (simp add: pool_ok_def)

lemma map_fst_upd: "i < length bks \<Longrightarrow> map fst (bks[i := (fst (bks ! i), q)]) = map fst bks"
  by (metis fst_conv list_update_id map_update)

lemma pool_pop:
  assumes ok: "pool_ok sizes n bks m fl L" and i: "i < length bks"
    and a: "a = snd (bks ! i)" "a \<noteq> NULL"
    and sz: "sizes ! i \<noteq> 0"
    and h: "nSize h = nSize (m a)"
  shows "pool_ok sizes n (bks[i := (fst (bks ! i), pNext (m a))]) (m(a := h))
           (fl[i := tl (fl ! i)]) (insert a L)"
    and "a \<notin> L" "nSize (m a) = sizes ! i"
proof -
  note D = pool_okD [OF ok]
  obtain as where fi: "fl ! i = a # as" and las: "linked (\<lambda>a. pNext (m a)) (pNext (m a)) as"
    using D(3) [OF i] a by (auto simp: linked_nonnull)
  have i': "i < length fl" using i D(2) by simp
  note upd = mset_free_distinct_update [OF D(5) i' fi]
  have ain: "a \<in> set (concat fl)" using in_concat_nth [OF i', of a] fi by simp
  show notL: "a \<notin> L" using D(6) ain by blast
  show sa: "nSize (m a) = sizes ! i" using D(4) [OF i] fi by simp
  have notas: "a \<notin> set as"
    using D(5) i' fi by (metis distinct.simps(2) distinct_concat_iff nth_mem)
  have other: "a \<notin> set (fl ! j)" if "j < length bks" "j \<noteq> i" for j
    using distinct_concat_index [OF D(5) i', of j] that D(2) fi by auto
  have "pool_ok sizes n (bks[i := (fst (bks ! i), pNext (m a))]) (m(a := h)) (fl[i := as]) (insert a L)"
  proof (rule pool_okI)
    show "map fst (bks[i := (fst (bks ! i), pNext (m a))]) = sizes"
      using D(1) i by (simp only: map_fst_upd)
    show "length (fl[i := as]) = length (bks[i := (fst (bks ! i), pNext (m a))])" using D(2) by simp
  next
    fix j assume "j < length (bks[i := (fst (bks ! i), pNext (m a))])"
    then have j: "j < length bks" by simp
    show "linked (\<lambda>b. pNext ((m(a := h)) b)) (snd (bks[i := (fst (bks ! i), pNext (m a))] ! j)) (fl[i := as] ! j)"
      using las notas i i' j D(3) other by (cases "j = i") simp_all
    fix b assume "b \<in> set (fl[i := as] ! j)"
    then show "nSize ((m(a := h)) b) = sizes ! j"
      using D(4) [OF j] i i' h fi sa other [OF j] by (cases "j = i") auto
  next
    show "distinct (concat (fl[i := as]))" by (rule upd(1))
    show "set (concat (fl[i := as])) \<inter> insert a L = {}" using upd(2) D(6) by blast
  next
    fix b assume "b \<in> insert a L"
    moreover have "sizes ! i \<in> set sizes" using D(1) i by (metis length_map nth_mem)
    ultimately show "nSize ((m(a := h)) b) \<in> set sizes - {0}" using D(7) sz h sa by auto
  next
    have "insert a L \<union> set (concat (fl[i := as])) = L \<union> set (concat fl)" using upd(2) ain by blast
    then show "blocks_ok (\<lambda>b. nSize ((m(a := h)) b)) n (insert a L \<union> set (concat (fl[i := as])))"
      using D(8) by (simp only: blocks_ok_hdr [of h m a, OF h])
  qed
  then show "pool_ok sizes n (bks[i := (fst (bks ! i), pNext (m a))]) (m(a := h))
           (fl[i := tl (fl ! i)]) (insert a L)"
    by (simp add: fi)
qed

lemma pool_push:
  assumes ok: "pool_ok sizes n bks m fl L" and i: "i < length bks" and a: "a \<in> L"
    and sz: "nSize (m a) = sizes ! i"
    and h: "nSize h = nSize (m a)" "pNext h = snd (bks ! i)"
  shows "pool_ok sizes n (bks[i := (fst (bks ! i), a)]) (m(a := h)) (fl[i := a # fl ! i]) (L - {a})"
proof (rule pool_okI)
  note D = pool_okD [OF ok]
  have i': "i < length fl" using i D(2) by simp
  have fresh: "a \<notin> set (concat fl)" using a D(6) by blast
  note upd = distinct_concat_push [OF D(5) i' fresh]
  have a0: "a \<noteq> NULL" using blocks_okD(1) [OF D(8), of a] a by auto
  have nota: "a \<notin> set (fl ! j)" if "j < length bks" for j
    using fresh that D(2) in_concat_nth by metis
  show "map fst (bks[i := (fst (bks ! i), a)]) = sizes"
    using D(1) i by (simp only: map_fst_upd)
  show "length (fl[i := a # fl ! i]) = length (bks[i := (fst (bks ! i), a)])" using D(2) by simp
  show "linked (\<lambda>b. pNext ((m(a := h)) b)) (snd (bks[i := (fst (bks ! i), a)] ! j)) (fl[i := a # fl ! i] ! j)"
    if "j < length (bks[i := (fst (bks ! i), a)])" for j
    using that D(3) nota a0 h i i' by (cases "j = i") simp_all
  show "nSize ((m(a := h)) b) = sizes ! j"
    if "j < length (bks[i := (fst (bks ! i), a)])" "b \<in> set (fl[i := a # fl ! i] ! j)" for j b
    using that D(4) [of j] i i' h sz nota [of j] by (cases "j = i") auto
  show "distinct (concat (fl[i := a # fl ! i]))" by (rule upd(1))
  show "set (concat (fl[i := a # fl ! i])) \<inter> (L - {a}) = {}" using upd(2) D(6) by blast
  show "nSize ((m(a := h)) b) \<in> set sizes - {0}" if "b \<in> L - {a}" for b
    using that D(7) by simp
  have "(L - {a}) \<union> set (concat (fl[i := a # fl ! i])) = L \<union> set (concat fl)"
    unfolding upd(2) using a by auto
  moreover have "blocks_ok (\<lambda>b. nSize ((m(a := h)) b)) n (L \<union> set (concat fl))"
    using D(8) by (simp only: blocks_ok_hdr [of h m a, OF h(1)])
  ultimately show "blocks_ok (\<lambda>b. nSize ((m(a := h)) b)) n (L - {a} \<union> set (concat (fl[i := a # fl ! i])))"
    by (simp only:)
qed

lemma pool_carve:
  assumes ok: "pool_ok sizes n bks m fl L"
    and p: "unat n \<le> unat p" "0 < unat p" "unat p mod 16 = 0"
    and n': "unat p + 16 + unat (nSize h) = unat n'"
    and h: "nSize h \<in> set sizes - {0}"
  shows "pool_ok sizes n' bks (m(p := h)) fl (insert p L)" and "p \<notin> L \<union> set (concat fl)"
proof -
  note D = pool_okD [OF ok]
  let ?A = "L \<union> set (concat fl)" and ?m = "m(p := h)"
  have below: "unat a + 16 + unat (nSize (m a)) \<le> unat p" if "a \<in> ?A" for a
    using blocks_okD(3) [OF D(8) that] p(1) by linarith
  show fresh: "p \<notin> ?A" using below [of p] by auto
  have notp: "p \<notin> set (fl ! j)" if "j < length bks" for j
    using fresh that D(2) in_concat_nth [of j fl p] by auto
  have "blocks_ok (\<lambda>a. nSize (?m a)) n' (insert p ?A)"
    unfolding blocks_ok_def
  proof (intro conjI ballI impI)
    fix a assume a: "a \<in> insert p ?A"
    show "0 < unat a" "unat a mod 16 = 0"
      using a p(2,3) blocks_okD(1,2) [OF D(8), of a] by blast+
    show "unat a + 16 + unat (nSize (?m a)) \<le> unat n'"
      using a below [of a] n' by (cases "a = p") auto
    fix b assume b: "b \<in> insert p ?A" "a \<noteq> b"
    then show "unat a + 16 + unat (nSize (?m a)) \<le> unat b \<or> unat b + 16 + unat (nSize (?m b)) \<le> unat a"
      using a below [of a] below [of b] D(8) unfolding blocks_ok_def
      by (cases "a = p"; cases "b = p") auto
  qed
  then have bl: "blocks_ok (\<lambda>a. nSize (?m a)) n' (insert p L \<union> set (concat fl))"
    by (simp only: Un_insert_left)
  show "pool_ok sizes n' bks ?m fl (insert p L)"
  proof (rule pool_okI)
    show "linked (\<lambda>a. pNext (?m a)) (snd (bks ! i)) (fl ! i)" if "i < length bks" for i
      using D(3) that notp by simp
    show "nSize (?m a) = sizes ! i" if "i < length bks" "a \<in> set (fl ! i)" for i a
      using D(4) that notp [of i] by auto
    show "set (concat fl) \<inter> insert p L = {}" using D(6) fresh by blast
    show "nSize (?m a) \<in> set sizes - {0}" if "a \<in> insert p L" for a
      using D(7) h that by (cases "a = p") simp_all
  qed (fact D(1) D(2) D(5) bl)+
qed

section \<open>The heap\<close>

definition heap_inv :: "ptr set \<Rightarrow> alloc_state \<Rightarrow> bool" where
  "heap_inv L s \<longleftrightarrow>
     (\<exists>fl. pool_ok block_sizes (s_pNextBlock s) (s_BlockBucket s) (blk s) fl ((\<lambda>p. p - 16) ` L)) \<and>
     0 < unat (s_pNextBlock s) \<and> unat (s_pNextBlock s) mod 16 = 0 \<and>
     unat (s_pNextBlock s) \<le> unat (s_pBlockLimit s) \<and>
     unat (s_pBlockLimit s) \<le> unat MAX_MEMORY"

definition heap_extent :: "alloc_state \<Rightarrow> ptr \<Rightarrow> nat set" where
  "heap_extent s p = {unat p ..< unat p + unat (nSize (blk s (p - 16)))}"

lemma find_bucket_Some:
  "find_bucket n bks = Some i \<Longrightarrow> i < length bks \<and> fst (bks ! i) \<noteq> 0 \<and> n \<le> fst (bks ! i)"
  by (induction bks arbitrary: i) (auto split: if_splits)

lemma match_bucket_Some:
  "match_bucket sz bks = Some i \<Longrightarrow> i < length bks \<and> fst (bks ! i) = sz"
  by (induction bks arbitrary: i) (auto split: if_splits)

lemma match_bucket_nonzero: "match_bucket sz bks = Some i \<Longrightarrow> sz \<noteq> 0"
  by (induction bks arbitrary: i) (auto split: if_splits)

lemma match_bucket_member:
  "sz \<in> set (map fst bks) - {0} \<Longrightarrow> \<exists>bs. map fst bks = bs @ [0] \<and> 0 \<notin> set bs \<Longrightarrow>
     \<exists>i. match_bucket sz bks = Some i"
proof (induction bks)
  case Nil
  then show ?case by simp
next
  case (Cons b bks)
  then obtain bs where bs: "fst b # map fst bks = bs @ [0]" "0 \<notin> set bs" by auto
  then show ?case using Cons.prems(1)
  proof (cases bs)
    case Nil
    with bs Cons.prems(1) show ?thesis by auto
  next
    case (Cons c cs)
    with bs have "\<exists>i. match_bucket sz bks = Some i" if "sz \<noteq> fst b"
      using Cons.prems(1) Cons.IH that by auto
    with bs Cons Cons.prems(1) show ?thesis by auto
  qed
qed

lemma block_sizes_facts:
  assumes "sz \<in> set block_sizes - {0}"
  shows "unat (block_extent sz) = 16 + unat sz" "unat sz mod 16 = 0" "unat sz \<le> 0x4000000"
  using assms by (auto simp: block_sizes_def block_extent_def)

lemma dma_block_sizes_facts:
  assumes "sz \<in> set dma_block_sizes - {0}"
  shows "unat (block_extent sz) = 16 + unat sz" "unat sz mod 16 = 0" "unat sz \<le> 0x8000000"
  using assms by (auto simp: dma_block_sizes_def block_extent_def)

lemma block_sizes_end:
  "\<exists>bs. block_sizes = bs @ [0] \<and> 0 \<notin> set bs" "\<exists>bs. dma_block_sizes = bs @ [0] \<and> 0 \<notin> set bs"
proof -
  have "block_sizes = butlast block_sizes @ [0] \<and> 0 \<notin> set (butlast block_sizes)"
    by (simp add: block_sizes_def)
  then show "\<exists>bs. block_sizes = bs @ [0] \<and> 0 \<notin> set bs" by blast
  have "dma_block_sizes = butlast dma_block_sizes @ [0] \<and> 0 \<notin> set (butlast dma_block_sizes)"
    by (simp add: dma_block_sizes_def)
  then show "\<exists>bs. dma_block_sizes = bs @ [0] \<and> 0 \<notin> set bs" by blast
qed

lemma nSize_pNext_upd [simp]:
  "nSize (h\<lparr>nMagic := x, pNext := q\<rparr>) = nSize h"
  "pNext (h\<lparr>nMagic := x, pNext := q\<rparr>) = q"
  by simp_all

text \<open>What a successful \<open>malloc\<close> does, in terms of the header it hands out.\<close>

lemma malloc_cases:
  assumes inv: "heap_inv L s" and m: "malloc n s = (p, s')" and p: "p \<noteq> NULL"
  obtains i fl a sz where
    "find_bucket n (s_BlockBucket s) = Some i" "sz = fst (s_BlockBucket s ! i)"
    "n \<le> sz" "sz \<in> set block_sizes - {0}" "p = a + 16"
    "pool_ok block_sizes (s_pNextBlock s') (s_BlockBucket s') (blk s') fl (insert a ((\<lambda>p. p - 16) ` L))"
    "a \<notin> (\<lambda>p. p - 16) ` L" "nSize (blk s' a) = sz"
    "\<And>b. b \<noteq> a \<Longrightarrow> blk s' b = blk s b"
    "unat (s_pNextBlock s) \<le> unat (s_pNextBlock s')"
    "unat (s_pNextBlock s') mod 16 = 0"
    "unat (s_pNextBlock s') \<le> unat (s_pBlockLimit s)"
    "s_pBlockLimit s' = s_pBlockLimit s"
proof -
  let ?L = "(\<lambda>p. p - 16) ` L"
  obtain fl where ok: "pool_ok block_sizes (s_pNextBlock s) (s_BlockBucket s) (blk s) fl ?L"
    using inv by (auto simp: heap_inv_def)
  note D = pool_okD [OF ok]
  have nx: "0 < unat (s_pNextBlock s)" "unat (s_pNextBlock s) mod 16 = 0"
    "unat (s_pNextBlock s) \<le> unat (s_pBlockLimit s)" "unat (s_pBlockLimit s) \<le> 0xC0000000"
    using inv by (auto simp: heap_inv_def MAX_MEMORY_def)
  then have "s_pNextBlock s \<noteq> 0" by auto
  with m p obtain i where i: "find_bucket n (s_BlockBucket s) = Some i"
    by (auto simp: malloc_def split: option.splits)
  define sz where "sz = fst (s_BlockBucket s ! i)"
  have il: "i < length (s_BlockBucket s)" and sz0: "sz \<noteq> 0" and nsz: "n \<le> sz"
    using find_bucket_Some [OF i] by (auto simp: sz_def)
  have szi: "block_sizes ! i = sz" using D(1) il by (metis nth_map sz_def)
  have "sz \<in> set block_sizes" using szi D(1) il by (metis length_map nth_mem)
  then have szs: "sz \<in> set block_sizes - {0}" using sz0 by simp
  note F = block_sizes_facts [OF szs]
  show ?thesis
  proof (cases "snd (s_BlockBucket s ! i) = NULL")
    case False
    define a where "a = snd (s_BlockBucket s ! i)"
    have r: "p = a + 16" "s' = s\<lparr>s_BlockBucket := (s_BlockBucket s)[i := (sz, pNext (blk s a))],
                blk := (blk s)(a := (blk s a)\<lparr>nMagic := BLOCK_MAGIC, pNext := NULL\<rparr>)\<rparr>"
      using m False i \<open>s_pNextBlock s \<noteq> 0\<close>
      by (auto simp: malloc_def a_def sz_def Let_def split: prod.splits)
    note P = pool_pop [OF ok il a_def, of "(blk s a)\<lparr>nMagic := BLOCK_MAGIC, pNext := NULL\<rparr>"]
    show ?thesis
      by (rule that [of i sz a "fl[i := tl (fl ! i)]"])
        (use i nsz szs r P szi sz0 False nx in \<open>simp_all add: a_def sz_def\<close>)
  next
    case True
    define n0 where "n0 = s_pNextBlock s + block_extent sz"
    define b :: ptr where "b = 0x46400010"
    have n0: "unat n0 = unat (s_pNextBlock s) + 16 + unat sz"
      unfolding n0_def using nx F by (subst unat_add_no_wrap) simp_all
    have nb: "unat (b + block_extent sz) = unat b + 16 + unat sz"
      using F by (subst unat_add_no_wrap) (simp_all add: b_def)
    define q where "q = (if n0 > CONFIG_FB_ADDR \<and> n0 \<le> FB_END then b else s_pNextBlock s)"
    have bdef: "(FB_END + 16) AND NOT (16 - 1) = b"
      by (simp add: b_def FB_END_def CONFIG_FB_ADDR_def)
    have r: "p = q + 16" "q + block_extent sz \<le> s_pBlockLimit s"
      "s' = s\<lparr>s_pNextBlock := q + block_extent sz,
             blk := (blk s)(q := (blk s q)\<lparr>nMagic := BLOCK_MAGIC, nSize := sz, pNext := NULL\<rparr>)\<rparr>"
      using m True i p \<open>s_pNextBlock s \<noteq> 0\<close> bdef
      by (auto simp: malloc_def q_def n0_def sz_def Let_def split: prod.splits if_splits)
    have q: "unat (s_pNextBlock s) \<le> unat q" "unat q mod 16 = 0" "0 < unat q"
      "unat (q + block_extent sz) = unat q + 16 + unat sz"
    proof -
      have "unat (s_pNextBlock s) \<le> 0x46400000" if "n0 \<le> FB_END"
        using that n0 by (simp add: word_le_nat_alt FB_END_def CONFIG_FB_ADDR_def)
      then show "unat (s_pNextBlock s) \<le> unat q" by (auto simp: q_def b_def)
      show "unat q mod 16 = 0" "0 < unat q" using nx by (auto simp: q_def b_def)
      show "unat (q + block_extent sz) = unat q + 16 + unat sz"
        using n0 nb by (auto simp: q_def n0_def)
    qed
    let ?h = "(blk s q)\<lparr>nMagic := BLOCK_MAGIC, nSize := sz, pNext := NULL\<rparr>"
    have "pool_ok block_sizes (q + block_extent sz) (s_BlockBucket s) ((blk s)(q := ?h)) fl (insert q ?L)"
      and "q \<notin> ?L \<union> set (concat fl)"
      using pool_carve [OF ok q(1,3,2), of ?h "q + block_extent sz"] q(4) szs by simp_all
    moreover have "unat (q + block_extent sz) mod 16 = 0" using q F by presburger
    ultimately show ?thesis
      by (intro that [of i sz q fl])
        (use i nsz szs r q in \<open>simp_all add: sz_def word_le_nat_alt\<close>)
  qed
qed

lemma heap_inv_pool:
  assumes "heap_inv L s"
  obtains fl where "pool_ok block_sizes (s_pNextBlock s) (s_BlockBucket s) (blk s) fl ((\<lambda>p. p - 16) ` L)"
  using assms by (auto simp: heap_inv_def)

lemma heap_invI:
  assumes "heap_inv L s"
    and "pool_ok block_sizes (s_pNextBlock s') (s_BlockBucket s') (blk s') fl A" "A = (\<lambda>p. p - 16) ` L'"
    and "unat (s_pNextBlock s) \<le> unat (s_pNextBlock s')" "unat (s_pNextBlock s') mod 16 = 0"
    and "unat (s_pNextBlock s') \<le> unat (s_pBlockLimit s')" "s_pBlockLimit s' = s_pBlockLimit s"
  shows "heap_inv L' s'"
proof -
  have "0 < unat (s_pNextBlock s')" "unat (s_pBlockLimit s') \<le> unat MAX_MEMORY"
    using assms(1,4,7) by (auto simp: heap_inv_def)
  then show ?thesis
    unfolding heap_inv_def using assms(2,5,6) unfolding assms(3) by blast
qed

lemma heap_inv_buckets: "heap_inv L s \<Longrightarrow> map fst (s_BlockBucket s) = block_sizes"
  by (erule heap_inv_pool) (rule pool_okD(1))

lemma heap_inv_bounds:
  assumes "heap_inv L s"
  shows "0 < unat (s_pNextBlock s)" "unat (s_pNextBlock s) mod 16 = 0"
    "unat (s_pNextBlock s) \<le> unat (s_pBlockLimit s)" "unat (s_pBlockLimit s) \<le> 0xC0000000"
  using assms by (auto simp: heap_inv_def MAX_MEMORY_def)

lemma malloc_spec:
  assumes "heap_inv L s" "malloc n s = (p, s')" "p \<noteq> NULL"
  shows "heap_inv (insert p L) s'" "p \<notin> L" "n \<le> nSize (blk s' (p - 16))"
    and "q \<noteq> p \<Longrightarrow> blk s' (q - 16) = blk s (q - 16)"
proof -
  have key: "heap_inv (insert p L) s' \<and> p \<notin> L \<and> n \<le> nSize (blk s' (p - 16)) \<and>
     (q \<noteq> p \<longrightarrow> blk s' (q - 16) = blk s (q - 16))"
    using assms
  proof (rule malloc_cases)
    fix i fl a sz
    assume F: "n \<le> sz" "p = a + 16"
      "pool_ok block_sizes (s_pNextBlock s') (s_BlockBucket s') (blk s') fl (insert a ((\<lambda>p. p - 16) ` L))"
      "a \<notin> (\<lambda>p. p - 16) ` L" "nSize (blk s' a) = sz"
      "\<And>b. b \<noteq> a \<Longrightarrow> blk s' b = blk s b"
      "unat (s_pNextBlock s) \<le> unat (s_pNextBlock s')"
      "unat (s_pNextBlock s') mod 16 = 0"
      "unat (s_pNextBlock s') \<le> unat (s_pBlockLimit s)"
      "s_pBlockLimit s' = s_pBlockLimit s"
    have a: "a = p - 16" using F(2) by simp
    have "p \<notin> L" using F(4) unfolding a by blast
    moreover have "blk s' (q - 16) = blk s (q - 16)" if "q \<noteq> p"
      by (rule F(6)) (use that in \<open>simp add: a\<close>)
    moreover have "insert a ((\<lambda>p. p - 16) ` L) = (\<lambda>p. p - 16) ` insert p L" by (simp add: a)
    then have "heap_inv (insert p L) s'"
      using F(7-10) by (intro heap_invI [OF assms(1) F(3)]) simp_all
    moreover have "n \<le> nSize (blk s' (p - 16))" using F(1,5) unfolding a by simp
    ultimately show ?thesis by simp
  qed
  then show "heap_inv (insert p L) s'" "p \<notin> L" "n \<le> nSize (blk s' (p - 16))"
    and "q \<noteq> p \<Longrightarrow> blk s' (q - 16) = blk s (q - 16)"
    by simp_all
qed

lemma malloc_frame:
  assumes "heap_inv L s" "malloc n s = (p, s')" "p \<noteq> NULL" "q \<in> L"
  shows "heap_extent s' q = heap_extent s q"
proof -
  have "q \<noteq> p" using malloc_spec(2) [OF assms(1-3)] assms(4) by blast
  then show ?thesis using malloc_spec(4) [OF assms(1-3)] by (simp add: heap_extent_def)
qed

lemma malloc_size:
  assumes "heap_inv L s" "malloc n s = (p, s')" "p \<noteq> NULL"
  shows "{unat p ..< unat p + unat n} \<subseteq> heap_extent s' p"
  using malloc_spec(3) [OF assms] by (auto simp: heap_extent_def word_le_nat_alt)

lemma heap_inv_block:
  assumes "heap_inv L s" "p \<in> L"
  shows "unat p = unat (p - 16) + 16" "unat p mod 16 = 0" "0 < unat (p - 16)"
    "unat p + unat (nSize (blk s (p - 16))) \<le> unat (s_pNextBlock s)"
    "nSize (blk s (p - 16)) \<in> set block_sizes - {0}"
proof -
  obtain fl where ok: "pool_ok block_sizes (s_pNextBlock s) (s_BlockBucket s) (blk s) fl ((\<lambda>p. p - 16) ` L)"
    using assms(1) by (rule heap_inv_pool)
  have mem: "p - 16 \<in> (\<lambda>p. p - 16) ` L" using assms(2) by (rule imageI)
  then have mem': "p - 16 \<in> (\<lambda>p. p - 16) ` L \<union> set (concat fl)" by (rule UnI1)
  note B = blocks_okD [OF pool_okD(8) [OF ok] mem']
  have lim: "unat (s_pNextBlock s) \<le> 0xC0000000"
    using assms(1) by (auto simp: heap_inv_def MAX_MEMORY_def)
  then have "unat (p - 16 + 16) = unat (p - 16) + 16"
    using B(3) by (subst unat_add_no_wrap) simp_all
  then show u: "unat p = unat (p - 16) + 16" by simp
  with B show "unat p mod 16 = 0" "0 < unat (p - 16)"
    "unat p + unat (nSize (blk s (p - 16))) \<le> unat (s_pNextBlock s)" by simp_all
  show "nSize (blk s (p - 16)) \<in> set block_sizes - {0}" using pool_okD(7) [OF ok mem] .
qed

lemma heap_live_disjoint:
  assumes "heap_inv L s" "p \<in> L" "q \<in> L" "p \<noteq> q"
  shows "heap_extent s p \<inter> heap_extent s q = {}"
proof -
  obtain fl where ok: "pool_ok block_sizes (s_pNextBlock s) (s_BlockBucket s) (blk s) fl ((\<lambda>p. p - 16) ` L)"
    using assms(1) by (rule heap_inv_pool)
  have "p - 16 \<noteq> q - 16" using assms(4) by simp
  then have "unat (p - 16) + 16 + unat (nSize (blk s (p - 16))) \<le> unat (q - 16) \<or>
     unat (q - 16) + 16 + unat (nSize (blk s (q - 16))) \<le> unat (p - 16)"
    using pool_okD(8) [OF ok] assms(2,3) unfolding blocks_ok_def by blast
  then show ?thesis
    using heap_inv_block(1) [OF assms(1,2)] heap_inv_block(1) [OF assms(1,3)]
    by (auto simp: heap_extent_def)
qed

lemma free_cases:
  assumes "heap_inv L s" "p \<in> L"
  obtains i where "i < length (s_BlockBucket s)" "fst (s_BlockBucket s ! i) = nSize (blk s (p - 16))"
    "match_bucket (nSize (blk s (p - 16))) (s_BlockBucket s) = Some i"
    "free p s = s\<lparr>blk := (blk s)(p - 16 := (blk s (p - 16))\<lparr>nMagic := 0, pNext := snd (s_BlockBucket s ! i)\<rparr>),
        s_BlockBucket := (s_BlockBucket s)[i := (fst (s_BlockBucket s ! i), p - 16)]\<rparr>"
proof -
  obtain fl where ok: "pool_ok block_sizes (s_pNextBlock s) (s_BlockBucket s) (blk s) fl ((\<lambda>p. p - 16) ` L)"
    using assms(1) by (rule heap_inv_pool)
  have bks: "map fst (s_BlockBucket s) = block_sizes" using pool_okD(1) [OF ok] .
  obtain i where i: "match_bucket (nSize (blk s (p - 16))) (s_BlockBucket s) = Some i"
    using match_bucket_member [of _ "s_BlockBucket s"] heap_inv_block(5) [OF assms] block_sizes_end(1)
    by (metis bks)
  have "p \<noteq> NULL" using heap_inv_block(1) [OF assms] by auto
  with i match_bucket_Some [OF i] show ?thesis
    by (intro that [of i]) (auto simp: free_def Let_def split: prod.splits)
qed

lemma free_spec:
  assumes "heap_inv L s" "p \<in> L"
  shows "heap_inv (L - {p}) (free p s)"
    and "nSize (blk (free p s) a) = nSize (blk s a)"
proof -
  obtain i where i: "i < length (s_BlockBucket s)" "fst (s_BlockBucket s ! i) = nSize (blk s (p - 16))"
    and f: "free p s = s\<lparr>blk := (blk s)(p - 16 := (blk s (p - 16))\<lparr>nMagic := 0, pNext := snd (s_BlockBucket s ! i)\<rparr>),
        s_BlockBucket := (s_BlockBucket s)[i := (fst (s_BlockBucket s ! i), p - 16)]\<rparr>"
    using assms by (rule free_cases)
  obtain fl where ok: "pool_ok block_sizes (s_pNextBlock s) (s_BlockBucket s) (blk s) fl ((\<lambda>p. p - 16) ` L)"
    using assms(1) by (rule heap_inv_pool)
  have "block_sizes ! i = nSize (blk s (p - 16))" using pool_okD(1) [OF ok] i by (metis nth_map)
  then have "pool_ok block_sizes (s_pNextBlock s) ((s_BlockBucket s)[i := (fst (s_BlockBucket s ! i), p - 16)])
      ((blk s)(p - 16 := (blk s (p - 16))\<lparr>nMagic := 0, pNext := snd (s_BlockBucket s ! i)\<rparr>))
      (fl[i := (p - 16) # fl ! i]) ((\<lambda>p. p - 16) ` L - {p - 16})"
    using assms(2) by (intro pool_push [OF ok i(1)]) simp_all
  moreover have "(\<lambda>p. p - 16) ` L - {p - 16} = (\<lambda>p. p - 16) ` (L - {p})" by auto
  ultimately have "pool_ok block_sizes (s_pNextBlock (free p s)) (s_BlockBucket (free p s)) (blk (free p s))
      (fl[i := (p - 16) # fl ! i]) ((\<lambda>p. p - 16) ` (L - {p}))"
    by (simp only: f alloc_state.simps) simp
  then show "heap_inv (L - {p}) (free p s)"
    by (rule heap_invI [OF assms(1)]) (use heap_inv_bounds [OF assms(1)] in \<open>simp_all add: f\<close>)
  show "nSize (blk (free p s) a) = nSize (blk s a)" by (simp add: f)
qed

interpretation heap: allocator malloc free heap_inv heap_extent "0x4000000"
proof unfold_locales
  show "heap_inv (L - {p}) (free p s)" if "heap_inv L s" "p \<in> L" for L s p
    using that by (rule free_spec)
  show "heap_extent (free p s) q = heap_extent s q" if "heap_inv L s" "p \<in> L" "q \<in> L - {p}" for L s p q
    using free_spec(2) [OF that(1,2)] by (simp add: heap_extent_def)
  show "NULL \<notin> L" if "heap_inv L s" for L s
    using heap_inv_block(1) [OF that, of NULL] by auto
qed (erule malloc_spec(1) malloc_spec(2) malloc_frame malloc_size heap_live_disjoint; assumption)+

section \<open>The DMA pool\<close>

definition dma_inv :: "ptr set \<Rightarrow> alloc_state \<Rightarrow> bool" where
  "dma_inv L s \<longleftrightarrow>
     (\<exists>fl. pool_ok dma_block_sizes (s_pNextDMABlock s) (s_DMABlockBucket s) (dmablk s) fl ((\<lambda>p. p - 16) ` L)) \<and>
     0 < unat (s_pNextDMABlock s) \<and> unat (s_pNextDMABlock s) mod 16 = 0 \<and>
     unat (s_pNextDMABlock s) \<le> unat (s_pDMABlockLimit s) \<and>
     unat (s_pDMABlockLimit s) \<le> unat MAX_MEMORY"

definition dma_extent :: "alloc_state \<Rightarrow> ptr \<Rightarrow> nat set" where
  "dma_extent s p = {unat p ..< unat p + unat (nSize (dmablk s (p - 16)))}"

text \<open>What a successful \<open>dma_malloc\<close> does, in terms of the header it hands out.\<close>

lemma dma_malloc_cases:
  assumes inv: "dma_inv L s" and m: "dma_malloc n s = (p, s')" and p: "p \<noteq> NULL"
  obtains i fl a sz where
    "find_bucket n (s_DMABlockBucket s) = Some i" "sz = fst (s_DMABlockBucket s ! i)"
    "n \<le> sz" "sz \<in> set dma_block_sizes - {0}" "p = a + 16"
    "pool_ok dma_block_sizes (s_pNextDMABlock s') (s_DMABlockBucket s') (dmablk s') fl (insert a ((\<lambda>p. p - 16) ` L))"
    "a \<notin> (\<lambda>p. p - 16) ` L" "nSize (dmablk s' a) = sz"
    "\<And>b. b \<noteq> a \<Longrightarrow> dmablk s' b = dmablk s b"
    "unat (s_pNextDMABlock s) \<le> unat (s_pNextDMABlock s')"
    "unat (s_pNextDMABlock s') mod 16 = 0"
    "unat (s_pNextDMABlock s') \<le> unat (s_pDMABlockLimit s)"
    "s_pDMABlockLimit s' = s_pDMABlockLimit s"
proof -
  let ?L = "(\<lambda>p. p - 16) ` L"
  obtain fl where ok: "pool_ok dma_block_sizes (s_pNextDMABlock s) (s_DMABlockBucket s) (dmablk s) fl ?L"
    using inv by (auto simp: dma_inv_def)
  note D = pool_okD [OF ok]
  have nx: "0 < unat (s_pNextDMABlock s)" "unat (s_pNextDMABlock s) mod 16 = 0"
    "unat (s_pNextDMABlock s) \<le> unat (s_pDMABlockLimit s)" "unat (s_pDMABlockLimit s) \<le> 0xC0000000"
    using inv by (auto simp: dma_inv_def MAX_MEMORY_def)
  then have "s_pNextDMABlock s \<noteq> 0" by auto
  with m p obtain i where i: "find_bucket n (s_DMABlockBucket s) = Some i"
    by (auto simp: dma_malloc_def split: option.splits)
  define sz where "sz = fst (s_DMABlockBucket s ! i)"
  have il: "i < length (s_DMABlockBucket s)" and sz0: "sz \<noteq> 0" and nsz: "n \<le> sz"
    using find_bucket_Some [OF i] by (auto simp: sz_def)
  have szi: "dma_block_sizes ! i = sz" using D(1) il by (metis nth_map sz_def)
  have "sz \<in> set dma_block_sizes" using szi D(1) il by (metis length_map nth_mem)
  then have szs: "sz \<in> set dma_block_sizes - {0}" using sz0 by simp
  note F = dma_block_sizes_facts [OF szs]
  show ?thesis
  proof (cases "snd (s_DMABlockBucket s ! i) = NULL")
    case False
    define a where "a = snd (s_DMABlockBucket s ! i)"
    have r: "p = a + 16" "s' = s\<lparr>s_DMABlockBucket := (s_DMABlockBucket s)[i := (sz, pNext (dmablk s a))],
                dmablk := (dmablk s)(a := (dmablk s a)\<lparr>nMagic := BLOCK_DMA_MAGIC, pNext := NULL\<rparr>)\<rparr>"
      using m False i \<open>s_pNextDMABlock s \<noteq> 0\<close>
      by (auto simp: dma_malloc_def a_def sz_def Let_def split: prod.splits)
    note P = pool_pop [OF ok il a_def, of "(dmablk s a)\<lparr>nMagic := BLOCK_DMA_MAGIC, pNext := NULL\<rparr>"]
    show ?thesis
      by (rule that [of i sz a "fl[i := tl (fl ! i)]"])
        (use i nsz szs r P szi sz0 False nx in \<open>simp_all add: a_def sz_def\<close>)
  next
    case True
    define q where "q = s_pNextDMABlock s"
    have q: "unat (s_pNextDMABlock s) \<le> unat q" "unat q mod 16 = 0" "0 < unat q"
      "unat (q + block_extent sz) = unat q + 16 + unat sz"
      unfolding q_def using nx F by (simp_all add: unat_add_no_wrap)
    have r: "p = q + 16" "q + block_extent sz \<le> s_pDMABlockLimit s"
      "s' = s\<lparr>s_pNextDMABlock := q + block_extent sz,
             dmablk := (dmablk s)(q := (dmablk s q)\<lparr>nMagic := BLOCK_DMA_MAGIC, nSize := sz, pNext := NULL\<rparr>)\<rparr>"
      using m True i p \<open>s_pNextDMABlock s \<noteq> 0\<close>
      by (auto simp: dma_malloc_def q_def sz_def Let_def split: prod.splits if_splits)
    let ?h = "(dmablk s q)\<lparr>nMagic := BLOCK_DMA_MAGIC, nSize := sz, pNext := NULL\<rparr>"
    have "pool_ok dma_block_sizes (q + block_extent sz) (s_DMABlockBucket s) ((dmablk s)(q := ?h)) fl (insert q ?L)"
      and "q \<notin> ?L \<union> set (concat fl)"
      using pool_carve [OF ok q(1,3,2), of ?h "q + block_extent sz"] q(4) szs by simp_all
    moreover have "unat (q + block_extent sz) mod 16 = 0" using q F by presburger
    ultimately show ?thesis
      by (intro that [of i sz q fl])
        (use i nsz szs r q in \<open>simp_all add: sz_def word_le_nat_alt\<close>)
  qed
qed

lemma dma_inv_pool:
  assumes "dma_inv L s"
  obtains fl where "pool_ok dma_block_sizes (s_pNextDMABlock s) (s_DMABlockBucket s) (dmablk s) fl ((\<lambda>p. p - 16) ` L)"
  using assms by (auto simp: dma_inv_def)

lemma dma_invI:
  assumes "dma_inv L s"
    and "pool_ok dma_block_sizes (s_pNextDMABlock s') (s_DMABlockBucket s') (dmablk s') fl A" "A = (\<lambda>p. p - 16) ` L'"
    and "unat (s_pNextDMABlock s) \<le> unat (s_pNextDMABlock s')" "unat (s_pNextDMABlock s') mod 16 = 0"
    and "unat (s_pNextDMABlock s') \<le> unat (s_pDMABlockLimit s')" "s_pDMABlockLimit s' = s_pDMABlockLimit s"
  shows "dma_inv L' s'"
proof -
  have "0 < unat (s_pNextDMABlock s')" "unat (s_pDMABlockLimit s') \<le> unat MAX_MEMORY"
    using assms(1,4,7) by (auto simp: dma_inv_def)
  then show ?thesis
    unfolding dma_inv_def using assms(2,5,6) unfolding assms(3) by blast
qed

lemma dma_inv_bounds:
  assumes "dma_inv L s"
  shows "0 < unat (s_pNextDMABlock s)" "unat (s_pNextDMABlock s) mod 16 = 0"
    "unat (s_pNextDMABlock s) \<le> unat (s_pDMABlockLimit s)" "unat (s_pDMABlockLimit s) \<le> 0xC0000000"
  using assms by (auto simp: dma_inv_def MAX_MEMORY_def)

lemma dma_malloc_spec:
  assumes "dma_inv L s" "dma_malloc n s = (p, s')" "p \<noteq> NULL"
  shows "dma_inv (insert p L) s'" "p \<notin> L" "n \<le> nSize (dmablk s' (p - 16))"
    and "q \<noteq> p \<Longrightarrow> dmablk s' (q - 16) = dmablk s (q - 16)"
proof -
  have key: "dma_inv (insert p L) s' \<and> p \<notin> L \<and> n \<le> nSize (dmablk s' (p - 16)) \<and>
     (q \<noteq> p \<longrightarrow> dmablk s' (q - 16) = dmablk s (q - 16))"
    using assms
  proof (rule dma_malloc_cases)
    fix i fl a sz
    assume F: "n \<le> sz" "p = a + 16"
      "pool_ok dma_block_sizes (s_pNextDMABlock s') (s_DMABlockBucket s') (dmablk s') fl (insert a ((\<lambda>p. p - 16) ` L))"
      "a \<notin> (\<lambda>p. p - 16) ` L" "nSize (dmablk s' a) = sz"
      "\<And>b. b \<noteq> a \<Longrightarrow> dmablk s' b = dmablk s b"
      "unat (s_pNextDMABlock s) \<le> unat (s_pNextDMABlock s')"
      "unat (s_pNextDMABlock s') mod 16 = 0"
      "unat (s_pNextDMABlock s') \<le> unat (s_pDMABlockLimit s)"
      "s_pDMABlockLimit s' = s_pDMABlockLimit s"
    have a: "a = p - 16" using F(2) by simp
    have "p \<notin> L" using F(4) unfolding a by blast
    moreover have "dmablk s' (q - 16) = dmablk s (q - 16)" if "q \<noteq> p"
      by (rule F(6)) (use that in \<open>simp add: a\<close>)
    moreover have "insert a ((\<lambda>p. p - 16) ` L) = (\<lambda>p. p - 16) ` insert p L" by (simp add: a)
    then have "dma_inv (insert p L) s'"
      using F(7-10) by (intro dma_invI [OF assms(1) F(3)]) simp_all
    moreover have "n \<le> nSize (dmablk s' (p - 16))" using F(1,5) unfolding a by simp
    ultimately show ?thesis by simp
  qed
  then show "dma_inv (insert p L) s'" "p \<notin> L" "n \<le> nSize (dmablk s' (p - 16))"
    and "q \<noteq> p \<Longrightarrow> dmablk s' (q - 16) = dmablk s (q - 16)"
    by simp_all
qed

lemma dma_malloc_frame:
  assumes "dma_inv L s" "dma_malloc n s = (p, s')" "p \<noteq> NULL" "q \<in> L"
  shows "dma_extent s' q = dma_extent s q"
proof -
  have "q \<noteq> p" using dma_malloc_spec(2) [OF assms(1-3)] assms(4) by blast
  then show ?thesis using dma_malloc_spec(4) [OF assms(1-3)] by (simp add: dma_extent_def)
qed

lemma dma_malloc_size:
  assumes "dma_inv L s" "dma_malloc n s = (p, s')" "p \<noteq> NULL"
  shows "{unat p ..< unat p + unat n} \<subseteq> dma_extent s' p"
  using dma_malloc_spec(3) [OF assms] by (auto simp: dma_extent_def word_le_nat_alt)

lemma dma_inv_block:
  assumes "dma_inv L s" "p \<in> L"
  shows "unat p = unat (p - 16) + 16" "unat p mod 16 = 0" "0 < unat (p - 16)"
    "unat p + unat (nSize (dmablk s (p - 16))) \<le> unat (s_pNextDMABlock s)"
    "nSize (dmablk s (p - 16)) \<in> set dma_block_sizes - {0}"
proof -
  obtain fl where ok: "pool_ok dma_block_sizes (s_pNextDMABlock s) (s_DMABlockBucket s) (dmablk s) fl ((\<lambda>p. p - 16) ` L)"
    using assms(1) by (rule dma_inv_pool)
  have mem: "p - 16 \<in> (\<lambda>p. p - 16) ` L" using assms(2) by (rule imageI)
  then have mem': "p - 16 \<in> (\<lambda>p. p - 16) ` L \<union> set (concat fl)" by (rule UnI1)
  note B = blocks_okD [OF pool_okD(8) [OF ok] mem']
  have lim: "unat (s_pNextDMABlock s) \<le> 0xC0000000"
    using assms(1) by (auto simp: dma_inv_def MAX_MEMORY_def)
  then have "unat (p - 16 + 16) = unat (p - 16) + 16"
    using B(3) by (subst unat_add_no_wrap) simp_all
  then show u: "unat p = unat (p - 16) + 16" by simp
  with B show "unat p mod 16 = 0" "0 < unat (p - 16)"
    "unat p + unat (nSize (dmablk s (p - 16))) \<le> unat (s_pNextDMABlock s)" by simp_all
  show "nSize (dmablk s (p - 16)) \<in> set dma_block_sizes - {0}" using pool_okD(7) [OF ok mem] .
qed

lemma dma_live_disjoint:
  assumes "dma_inv L s" "p \<in> L" "q \<in> L" "p \<noteq> q"
  shows "dma_extent s p \<inter> dma_extent s q = {}"
proof -
  obtain fl where ok: "pool_ok dma_block_sizes (s_pNextDMABlock s) (s_DMABlockBucket s) (dmablk s) fl ((\<lambda>p. p - 16) ` L)"
    using assms(1) by (rule dma_inv_pool)
  have "p - 16 \<noteq> q - 16" using assms(4) by simp
  then have "unat (p - 16) + 16 + unat (nSize (dmablk s (p - 16))) \<le> unat (q - 16) \<or>
     unat (q - 16) + 16 + unat (nSize (dmablk s (q - 16))) \<le> unat (p - 16)"
    using pool_okD(8) [OF ok] assms(2,3) unfolding blocks_ok_def by blast
  then show ?thesis
    using dma_inv_block(1) [OF assms(1,2)] dma_inv_block(1) [OF assms(1,3)]
    by (auto simp: dma_extent_def)
qed

lemma dma_free_cases:
  assumes "dma_inv L s" "p \<in> L"
  obtains i where "i < length (s_DMABlockBucket s)" "fst (s_DMABlockBucket s ! i) = nSize (dmablk s (p - 16))"
    "dma_free p s = s\<lparr>dmablk := (dmablk s)(p - 16 := (dmablk s (p - 16))\<lparr>nMagic := 0, pNext := snd (s_DMABlockBucket s ! i)\<rparr>),
        s_DMABlockBucket := (s_DMABlockBucket s)[i := (fst (s_DMABlockBucket s ! i), p - 16)]\<rparr>"
proof -
  obtain fl where ok: "pool_ok dma_block_sizes (s_pNextDMABlock s) (s_DMABlockBucket s) (dmablk s) fl ((\<lambda>p. p - 16) ` L)"
    using assms(1) by (rule dma_inv_pool)
  have bks: "map fst (s_DMABlockBucket s) = dma_block_sizes" using pool_okD(1) [OF ok] .
  obtain i where i: "match_bucket (nSize (dmablk s (p - 16))) (s_DMABlockBucket s) = Some i"
    using match_bucket_member [of _ "s_DMABlockBucket s"] dma_inv_block(5) [OF assms] block_sizes_end(2)
    by (metis bks)
  have "p \<noteq> NULL" using dma_inv_block(1) [OF assms] by auto
  with i match_bucket_Some [OF i] show ?thesis
    by (intro that [of i]) (auto simp: dma_free_def Let_def split: prod.splits)
qed

lemma dma_free_spec:
  assumes "dma_inv L s" "p \<in> L"
  shows "dma_inv (L - {p}) (dma_free p s)"
    and "nSize (dmablk (dma_free p s) a) = nSize (dmablk s a)"
proof -
  obtain i where i: "i < length (s_DMABlockBucket s)" "fst (s_DMABlockBucket s ! i) = nSize (dmablk s (p - 16))"
    and f: "dma_free p s = s\<lparr>dmablk := (dmablk s)(p - 16 := (dmablk s (p - 16))\<lparr>nMagic := 0, pNext := snd (s_DMABlockBucket s ! i)\<rparr>),
        s_DMABlockBucket := (s_DMABlockBucket s)[i := (fst (s_DMABlockBucket s ! i), p - 16)]\<rparr>"
    using assms by (rule dma_free_cases)
  obtain fl where ok: "pool_ok dma_block_sizes (s_pNextDMABlock s) (s_DMABlockBucket s) (dmablk s) fl ((\<lambda>p. p - 16) ` L)"
    using assms(1) by (rule dma_inv_pool)
  have "dma_block_sizes ! i = nSize (dmablk s (p - 16))" using pool_okD(1) [OF ok] i by (metis nth_map)
  then have "pool_ok dma_block_sizes (s_pNextDMABlock s) ((s_DMABlockBucket s)[i := (fst (s_DMABlockBucket s ! i), p - 16)])
      ((dmablk s)(p - 16 := (dmablk s (p - 16))\<lparr>nMagic := 0, pNext := snd (s_DMABlockBucket s ! i)\<rparr>))
      (fl[i := (p - 16) # fl ! i]) ((\<lambda>p. p - 16) ` L - {p - 16})"
    using assms(2) by (intro pool_push [OF ok i(1)]) simp_all
  moreover have "(\<lambda>p. p - 16) ` L - {p - 16} = (\<lambda>p. p - 16) ` (L - {p})" by auto
  ultimately have "pool_ok dma_block_sizes (s_pNextDMABlock (dma_free p s)) (s_DMABlockBucket (dma_free p s)) (dmablk (dma_free p s))
      (fl[i := (p - 16) # fl ! i]) ((\<lambda>p. p - 16) ` (L - {p}))"
    by (simp only: f alloc_state.simps) simp
  then show "dma_inv (L - {p}) (dma_free p s)"
    by (rule dma_invI [OF assms(1)]) (use dma_inv_bounds [OF assms(1)] in \<open>simp_all add: f\<close>)
  show "nSize (dmablk (dma_free p s) a) = nSize (dmablk s a)" by (simp add: f)
qed

interpretation dma: allocator dma_malloc dma_free dma_inv dma_extent "0x8000000"
proof unfold_locales
  show "dma_inv (L - {p}) (dma_free p s)" if "dma_inv L s" "p \<in> L" for L s p
    using that by (rule dma_free_spec)
  show "dma_extent (dma_free p s) q = dma_extent s q" if "dma_inv L s" "p \<in> L" "q \<in> L - {p}" for L s p q
    using dma_free_spec(2) [OF that(1,2)] by (simp add: dma_extent_def)
  show "NULL \<notin> L" if "dma_inv L s" for L s
    using dma_inv_block(1) [OF that, of NULL] by auto
qed (erule dma_malloc_spec(1) dma_malloc_spec(2) dma_malloc_frame dma_malloc_size dma_live_disjoint; assumption)+


section \<open>The page allocator\<close>

definition page_inv :: "ptr set \<Rightarrow> alloc_state \<Rightarrow> bool" where
  "page_inv L s \<longleftrightarrow>
     (\<exists>fl. linked (\<lambda>a. fp_pNext (pagehdr s a)) (s_PageBucket s) fl \<and> distinct fl \<and> set fl \<inter> L = {} \<and>
        (\<forall>a \<in> L \<union> set fl. 0 < unat a \<and> unat a mod 4096 = 0 \<and> unat a + 4096 \<le> unat (s_pNextPage s))) \<and>
     0 < unat (s_pNextPage s) \<and> unat (s_pNextPage s) mod 4096 = 0 \<and>
     unat (s_pNextPage s) \<le> unat MAX_MEMORY + 4096 \<and> unat (s_pPageLimit s) \<le> unat MAX_MEMORY"

definition page_extent :: "alloc_state \<Rightarrow> ptr \<Rightarrow> nat set" where
  "page_extent s p = {unat p ..< unat p + 4096}"

lemma linked_page_upd [simp]:
  "a \<notin> set as \<Longrightarrow>
     linked (\<lambda>b. fp_pNext (if b = a then h else m b)) p as \<longleftrightarrow> linked (\<lambda>b. fp_pNext (m b)) p as"
  by (rule linked_cong) auto

lemma palloc_spec:
  assumes inv: "page_inv L s" and al: "palloc s = (p, s')" and p: "p \<noteq> NULL"
  shows "page_inv (insert p L) s' \<and> p \<notin> L"
proof -
  obtain fl where fl: "linked (\<lambda>a. fp_pNext (pagehdr s a)) (s_PageBucket s) fl" "distinct fl" "set fl \<inter> L = {}"
    and bl: "\<forall>a \<in> L \<union> set fl. 0 < unat a \<and> unat a mod 4096 = 0 \<and> unat a + 4096 \<le> unat (s_pNextPage s)"
    using inv by (auto simp: page_inv_def)
  have nx: "0 < unat (s_pNextPage s)" "unat (s_pNextPage s) mod 4096 = 0"
    "unat (s_pNextPage s) \<le> 0xC0001000" "unat (s_pPageLimit s) \<le> 0xC0000000"
    using inv by (auto simp: page_inv_def MAX_MEMORY_def)
  show ?thesis
  proof (cases "s_PageBucket s = NULL")
    case False
    then obtain as where as: "fl = s_PageBucket s # as"
      "linked (\<lambda>a. fp_pNext (pagehdr s a)) (fp_pNext (pagehdr s (s_PageBucket s))) as"
      using fl(1) by (auto simp: linked_nonnull)
    with al False have "p = s_PageBucket s"
      and s': "s' = s\<lparr>s_PageBucket := fp_pNext (pagehdr s p), pagehdr := (pagehdr s)(p := (pagehdr s p)\<lparr>fp_nMagic := 0\<rparr>)\<rparr>"
      by (auto simp: palloc_def Let_def)
    with as fl bl nx show ?thesis
      unfolding page_inv_def s'
      by (intro conjI exI [of _ as]) (auto simp: MAX_MEMORY_def)
  next
    case True
    have n: "unat (s_pNextPage s + 4096) = unat (s_pNextPage s) + 4096"
      using nx by (simp add: unat_add_no_wrap)
    have r: "p = s_pNextPage s" "s' = s\<lparr>s_pNextPage := s_pNextPage s + 4096\<rparr>"
      "unat (s_pNextPage s) + 4096 \<le> unat (s_pPageLimit s)"
      using al True p n by (auto simp: palloc_def Let_def PAGE_SIZE_def word_less_nat_alt split: if_splits)
    have fresh: "s_pNextPage s \<notin> L \<union> set fl" using bl by force
    have "\<forall>a \<in> insert p L \<union> set fl. 0 < unat a \<and> unat a mod 4096 = 0 \<and> unat a + 4096 \<le> unat (s_pNextPage s')"
      using bl nx n unfolding ball_Un by (force simp: r)
    moreover have "linked (\<lambda>a. fp_pNext (pagehdr s' a)) (s_PageBucket s') fl" using fl by (simp add: r)
    moreover have "set fl \<inter> insert p L = {}" using fl fresh by (auto simp: r)
    moreover have "unat (s_pNextPage s') mod 4096 = 0" "unat (s_pNextPage s') \<le> unat MAX_MEMORY + 4096"
      "0 < unat (s_pNextPage s')" "unat (s_pPageLimit s') \<le> unat MAX_MEMORY"
      using n nx r by (simp_all add: MAX_MEMORY_def)
    ultimately have "page_inv (insert p L) s'"
      unfolding page_inv_def using fl(2) by blast
    then show ?thesis using fresh r by simp
  qed
qed

lemma pfree_spec:
  assumes inv: "page_inv L s" and p: "p \<in> L"
  shows "page_inv (L - {p}) (pfree p s)"
proof -
  obtain fl where fl: "linked (\<lambda>a. fp_pNext (pagehdr s a)) (s_PageBucket s) fl" "distinct fl" "set fl \<inter> L = {}"
    and bl: "\<forall>a \<in> L \<union> set fl. 0 < unat a \<and> unat a mod 4096 = 0 \<and> unat a + 4096 \<le> unat (s_pNextPage s)"
    using inv by (auto simp: page_inv_def)
  have p0: "p \<noteq> NULL" using bl p by (metis UnI1 less_numeral_extra(3) unat_0)
  have notin: "p \<notin> set fl" using fl(3) p by blast
  let ?s = "pfree p s"
  have s': "?s = s\<lparr>pagehdr := (pagehdr s)(p := (pagehdr s p)\<lparr>fp_nMagic := FREEPAGE_MAGIC, fp_pNext := s_PageBucket s\<rparr>),
             s_PageBucket := p\<rparr>"
    using p0 by (simp add: pfree_def)
  have "linked (\<lambda>a. fp_pNext (pagehdr ?s a)) (s_PageBucket ?s) (p # fl)"
    using fl(1) p0 notin by (simp add: s')
  moreover have "distinct (p # fl)" "set (p # fl) \<inter> (L - {p}) = {}" using fl notin by auto
  moreover have "\<forall>a \<in> (L - {p}) \<union> set (p # fl). 0 < unat a \<and> unat a mod 4096 = 0 \<and> unat a + 4096 \<le> unat (s_pNextPage ?s)"
    using bl p by (auto simp: s')
  moreover have "s_pNextPage ?s = s_pNextPage s" "s_pPageLimit ?s = s_pPageLimit s" by (simp_all add: s')
  ultimately show ?thesis
    using inv unfolding page_inv_def by metis
qed

interpretation pages: allocator "\<lambda>_. palloc" pfree page_inv page_extent 4096
proof unfold_locales
  fix L s n p s' q
  assume inv: "page_inv L s"
  have bl: "0 < unat a \<and> unat a mod 4096 = 0" if "a \<in> L" for a
    using inv that unfolding page_inv_def ball_Un by blast
  show "NULL \<notin> L" using bl [of NULL] by auto
  show "page_extent s p \<inter> page_extent s q = {}" if "p \<in> L" "q \<in> L" "p \<noteq> q"
  proof -
    have "unat p mod 4096 = 0" "unat q mod 4096 = 0" "unat p \<noteq> unat q"
      using bl that(1,2) that(3) word_unat_eq_iff [of p q] by simp_all
    then show ?thesis unfolding page_extent_def by (rule aligned_ranges_disjoint)
  qed
  show "page_inv (L - {p}) (pfree p s)" if "p \<in> L" using inv that by (rule pfree_spec)
qed (auto dest: palloc_spec simp: page_extent_def)

section \<open>Boot\<close>

text \<open>The static data of the allocator before \<open>mem_initial\<close>; the memory itself is arbitrary.\<close>

definition alloc_static ::
  "(ptr \<Rightarrow> TBlockHeader) \<Rightarrow> (ptr \<Rightarrow> TBlockHeader) \<Rightarrow> (ptr \<Rightarrow> TFreePage) \<Rightarrow> alloc_state" where
  "alloc_static m dm pm = \<lparr>s_pNextBlock = 0, s_pBlockLimit = 0, s_pNextDMABlock = 0, s_pDMABlockLimit = 0,
     s_pNextPage = 0, s_pPageLimit = 0,
     s_BlockBucket = map (\<lambda>z. (z, NULL)) block_sizes,
     s_DMABlockBucket = map (\<lambda>z. (z, NULL)) dma_block_sizes,
     s_PageBucket = NULL, heap_start = 0, heap_size = 0, blk = m, dmablk = dm, pagehdr = pm\<rparr>"

lemma pool_ok_empty: "pool_ok sizes n (map (\<lambda>z. (z, NULL)) sizes) m (replicate (length sizes) []) {}"
  by (rule pool_okI) (auto simp: blocks_ok_def comp_def)

lemma unat_times_3_div_4:
  assumes "unat (z::u32) * 3 < 2 ^ 32"
  shows "unat (z * 3 div 4) = unat z * 3 div 4"
proof -
  have "unat (z * 3) = unat z * 3" using assms by (simp add: unat_word_ariths)
  then show ?thesis by (simp add: unat_div)
qed

lemma mem_initial_regions:
  assumes base: "unat MEM_HEAP_START \<le> unat base"
    and top: "unat base + unat sz \<le> unat MAX_MEMORY" and ov: "unat sz * 3 < 2 ^ 32"
    and s': "s' = mem_initial base sz db ds s"
  shows "s_pNextBlock s' = base" "unat (s_pBlockLimit s') = unat base + unat sz * 3 div 4"
    "unat (s_pPageLimit s') = unat base + unat sz"
    "unat (s_pNextPage s') mod 4096 = 0"
    "unat (s_pBlockLimit s') < unat (s_pNextPage s')"
    "unat (s_pNextPage s') \<le> unat (s_pBlockLimit s') + 4096"
proof -
  have c: "unat base + unat sz \<le> 0xC0000000" "0x41c00000 \<le> unat base"
    using base top by (simp_all add: MAX_MEMORY_def MEM_HEAP_START_def)
  have sum: "unat (base + sz) = unat base + unat sz" using c by (simp add: unat_add_no_wrap)
  have nb: "\<not> base < MEM_HEAP_START" using base by (simp add: word_less_nat_alt)
  have ns: "\<not> base + sz > MAX_MEMORY" using c sum by (simp add: word_less_nat_alt MAX_MEMORY_def)
  have q: "unat (base + sz * 3 div 4) = unat base + unat sz * 3 div 4"
    using c by (subst unat_add_no_wrap) (simp_all add: unat_times_3_div_4 [OF ov])
  define w where "w = base + sz * 3 div 4 + 4096"
  have w: "unat w = unat base + unat sz * 3 div 4 + 4096"
    unfolding w_def using c q by (subst unat_add_no_wrap) simp_all
  have e: "s_pNextBlock s' = base" "s_pBlockLimit s' = base + sz * 3 div 4"
    "s_pPageLimit s' = base + sz" "s_pNextPage s' = w AND NOT (mask 12)"
    using nb ns by (simp_all add: s' mem_initial_def Let_def w_def PAGE_SIZE_def mask_eq_exp_minus_1)
  have pg: "unat (s_pNextPage s') = unat w - unat w mod 4096"
    unfolding e by (simp add: unat_and_not_mask)
  show "s_pNextBlock s' = base" "unat (s_pPageLimit s') = unat base + unat sz"
    "unat (s_pBlockLimit s') = unat base + unat sz * 3 div 4"
    using e sum q by simp_all
  show "unat (s_pNextPage s') mod 4096 = 0" unfolding pg minus_mod_eq_mult_div by simp
  show "unat (s_pBlockLimit s') < unat (s_pNextPage s')"
  proof -
    have "unat w mod 4096 < 4096" "unat (s_pBlockLimit s') + 4096 = unat w" using w q e by simp_all
    then show ?thesis using pg by linarith
  qed
  show "unat (s_pNextPage s') \<le> unat (s_pBlockLimit s') + 4096"
    using pg w q e by simp
qed

lemma mem_initial_inv:
  assumes "unat MEM_HEAP_START \<le> unat base" "unat base mod 16 = 0"
    and "unat base + unat sz \<le> unat MAX_MEMORY" "unat sz * 3 < 2 ^ 32"
    and "s' = mem_initial base sz db ds (alloc_static m dm pm)"
  shows "heap_inv {} s'" "page_inv {} s'"
proof -
  note R = mem_initial_regions [OF assms(1,3,4,5)]
  have b: "s_BlockBucket s' = map (\<lambda>z. (z, NULL)) block_sizes" "s_PageBucket s' = NULL"
    by (simp_all add: assms(5) mem_initial_def Let_def alloc_static_def)
  have c: "unat base + unat sz \<le> 0xC0000000" "0x41c00000 \<le> unat base"
    using assms(1,3) by (simp_all add: MAX_MEMORY_def MEM_HEAP_START_def)
  have q: "unat sz * 3 div 4 \<le> unat sz" by simp
  show "heap_inv {} s'"
    unfolding heap_inv_def b(1) using R(1,2) c q assms(2) pool_ok_empty
    by (auto simp: MAX_MEMORY_def)
  show "page_inv {} s'"
    unfolding page_inv_def b(2) using R(2-6) c q by (auto simp: MAX_MEMORY_def)
qed

lemma dma_initial_inv:
  assumes "0 < unat db" "unat db mod 16 = 0" "unat db + unat ds \<le> unat MAX_MEMORY"
    and "s' = mem_initial base sz db ds (alloc_static m dm pm)"
  shows "dma_inv {} s'"
proof -
  have "unat (db + ds) = unat db + unat ds"
    using assms(3) by (simp add: unat_add_no_wrap MAX_MEMORY_def)
  then show ?thesis
    unfolding dma_inv_def using assms pool_ok_empty
    by (auto simp: mem_initial_def Let_def alloc_static_def)
qed

lemma find_bucket_upd:
  "i < length bks \<Longrightarrow> find_bucket n (bks[i := (fst (bks ! i), q)]) = find_bucket n bks"
  by (induction bks arbitrary: i) (auto split: nat.splits)

text \<open>The tables are sorted, so the bucket of a block's exact size is the first one large enough.\<close>

lemma find_bucket_exact:
  assumes "match_bucket z bks = Some i" "sorted_wrt (<) (map fst (filter (\<lambda>b. fst b \<noteq> 0) bks))"
  shows "find_bucket z bks = Some i"
  using assms
proof (induction bks arbitrary: i)
  case Nil
  then show ?case by simp
next
  case (Cons b bks)
  show ?case
  proof (cases "z = fst b \<or> fst b = 0")
    case True
    with Cons.prems show ?thesis by (auto split: if_splits)
  next
    case False
    with Cons.prems(1) obtain j where j: "match_bucket z bks = Some j" "i = Suc j"
      by (auto split: if_splits)
    have "z \<in> set (map fst (filter (\<lambda>b. fst b \<noteq> 0) bks))"
      using match_bucket_Some [OF j(1)] match_bucket_nonzero [OF j(1)] by (force simp: in_set_conv_nth)
    with Cons.prems(2) False have "fst b < z" by auto
    with False j Cons.IH [OF j(1)] Cons.prems(2) show ?thesis by (auto simp: not_le)
  qed
qed

lemma block_sizes_sorted:
  assumes "map fst bks = block_sizes"
  shows "sorted_wrt (<) (map fst (filter (\<lambda>b. fst b \<noteq> 0) bks))"
proof -
  have "map fst (filter (\<lambda>b. fst b \<noteq> 0) bks) = filter (\<lambda>z. z \<noteq> 0) block_sizes"
    by (simp add: assms [symmetric] filter_map comp_def)
  then show ?thesis by (simp add: block_sizes_def)
qed

section \<open>The heap after a failure\<close>

text \<open>The state of the heap but for the bump pointer.\<close>

definition heap_core :: "alloc_state \<Rightarrow> alloc_state \<Rightarrow> bool" where
  "heap_core t s \<longleftrightarrow> s = t \<or> s = t\<lparr>s_pNextBlock := s_pNextBlock s\<rparr> \<and> s_pBlockLimit s < s_pNextBlock s"

definition heap_cost :: "u32 \<Rightarrow> nat" where
  "heap_cost n = (case find_bucket n (map (\<lambda>z. (z, NULL)) block_sizes) of None \<Rightarrow> 0 | Some i \<Rightarrow> 16 + unat (block_sizes ! i))"

definition heap_reserve :: "alloc_state \<Rightarrow> nat" where
  "heap_reserve s = 2 ^ 32 - max (unat (s_pNextBlock s)) (unat FB_END + 16)"

lemma find_bucket_sizes: "map fst bks = map fst bks' \<Longrightarrow> find_bucket n bks = find_bucket n bks'"
proof (induction bks arbitrary: bks')
  case (Cons b bks)
  then obtain b' bs where "bks' = b' # bs" "fst b = fst b'" "map fst bks = map fst bs" by (cases bks') auto
  then show ?case using Cons.IH [of bs] by simp
qed simp

lemma block_extent_unat:
  assumes "sz \<in> set block_sizes"
  shows "unat (block_extent sz) = 16 + unat sz"
  using assms unfolding block_sizes_def by (auto simp: block_extent_def)

lemma heap_cost_found:
  assumes "heap_inv L t" "find_bucket n (s_BlockBucket t) = Some i"
  shows "heap_cost n = unat (block_extent (fst (s_BlockBucket t ! i)))"
proof -
  have f: "map fst (s_BlockBucket t) = block_sizes" by (rule heap_inv_buckets [OF assms(1)])
  have i: "i < length (s_BlockBucket t)" using find_bucket_Some [OF assms(2)] by simp
  have z: "block_sizes ! i = fst (s_BlockBucket t ! i)" unfolding f [symmetric] using i by simp
  have "find_bucket n (map (\<lambda>z. (z, NULL)) block_sizes) = Some i"
    using find_bucket_sizes [of "map (\<lambda>z. (z, NULL)) block_sizes" "s_BlockBucket t" n] f assms(2) by (simp add: comp_def)
  moreover have "fst (s_BlockBucket t ! i) \<in> set block_sizes" using i by (simp flip: f)
  ultimately show ?thesis by (simp add: heap_cost_def z block_extent_unat)
qed

lemma bump_end:
  assumes "unat e < heap_reserve s" "n0 = s_pNextBlock s + e"
    and "(p, n) = (if n0 > CONFIG_FB_ADDR \<and> n0 \<le> FB_END then (let b = (FB_END + 16) AND NOT (16 - 1) in (b, b + e)) else (s_pNextBlock s, n0))"
  shows "heap_reserve s \<le> heap_reserve (s'\<lparr>s_pNextBlock := n\<rparr>) + unat e" "unat (s_pNextBlock s) \<le> unat n" "16 \<le> unat e \<Longrightarrow> p + 16 \<noteq> NULL"
proof -
  let ?w = "s_pNextBlock s"
  have f: "(FB_END + 16) AND NOT (16 - 1) = FB_END + 16" "unat FB_END = 0x46400000" "unat (FB_END + 16) = 0x46400010"
    by (simp_all add: FB_END_def CONFIG_FB_ADDR_def)
  have lt: "max (unat ?w) (unat FB_END + 16) + unat e < 2 ^ 32" using assms(1) by (simp add: heap_reserve_def)
  have n0: "unat n0 = unat ?w + unat e" using lt by (simp add: assms(2) unat_add_no_wrap)
  have n1: "unat (FB_END + 16 + e) = unat FB_END + 16 + unat e" using lt f by (subst unat_add_no_wrap) simp_all
  have "n = (if n0 > CONFIG_FB_ADDR \<and> n0 \<le> FB_END then FB_END + 16 + e else n0)" using assms(3) unfolding f(1) by (auto simp: Let_def split: if_splits)
  then have n: "unat ?w \<le> unat n" "unat n \<le> max (unat ?w) (unat FB_END + 16) + unat e"
    using n0 n1 by (auto simp: word_le_nat_alt split: if_splits)
  then show "heap_reserve s \<le> heap_reserve (s'\<lparr>s_pNextBlock := n\<rparr>) + unat e" "unat ?w \<le> unat n"
    using lt by (simp_all add: heap_reserve_def)
  have "p = s_pNextBlock s \<or> p = FB_END + 16" using assms(3) unfolding f(1) by (auto simp: Let_def split: if_splits)
  then have "unat p + unat e < 2 ^ 32" using lt f by auto
  then have "unat (p + 16) = unat p + 16" if "16 \<le> unat e" using that by (subst unat_add_no_wrap) simp_all
  then show "p + 16 \<noteq> NULL" if "16 \<le> unat e" using that by fastforce
qed


text \<open>The three ways through \<open>malloc\<close> that are not those of an empty allocator.\<close>

lemma malloc_ways:
  assumes "s_pNextBlock s \<noteq> 0"
  obtains (unfit) "find_bucket n (s_BlockBucket s) = None" "malloc n s = (NULL, s)"
  | (reuse) i h where "find_bucket n (s_BlockBucket s) = Some i" "snd (s_BlockBucket s ! i) \<noteq> NULL" "h = snd (s_BlockBucket s ! i)"
      "malloc n s = (h + 16, s\<lparr>s_BlockBucket := (s_BlockBucket s)[i := (fst (s_BlockBucket s ! i), pNext (blk s h))],
         blk := (blk s)(h := (blk s h)\<lparr>nMagic := BLOCK_MAGIC, pNext := NULL\<rparr>)\<rparr>)"
  | (bump) i e p w where "find_bucket n (s_BlockBucket s) = Some i" "snd (s_BlockBucket s ! i) = NULL" "e = block_extent (fst (s_BlockBucket s ! i))"
      "(p, w) = (if s_pNextBlock s + e > CONFIG_FB_ADDR \<and> s_pNextBlock s + e \<le> FB_END
         then (let b = (FB_END + 16) AND NOT (16 - 1) in (b, b + e)) else (s_pNextBlock s, s_pNextBlock s + e))"
      "malloc n s = (if w > s_pBlockLimit s then (NULL, s\<lparr>s_pNextBlock := w\<rparr>)
         else (p + 16, s\<lparr>s_pNextBlock := w, blk := (blk s)(p := (blk s p)\<lparr>nMagic := BLOCK_MAGIC, nSize := fst (s_BlockBucket s ! i), pNext := NULL\<rparr>)\<rparr>))"
proof (cases "find_bucket n (s_BlockBucket s)")
  case None
  then show thesis using unfit by (simp add: malloc_def)
next
  case (Some i)
  obtain z q where b: "s_BlockBucket s ! i = (z, q)" by (cases "s_BlockBucket s ! i")
  show thesis
  proof (cases "q = NULL")
    case False
    have "malloc n s = (q + 16, s\<lparr>s_BlockBucket := (s_BlockBucket s)[i := (z, pNext (blk s q))],
         blk := (blk s)(q := (blk s q)\<lparr>nMagic := BLOCK_MAGIC, pNext := NULL\<rparr>)\<rparr>)"
      by (simp only: malloc_def Some b False assms if_False if_True option.case prod.case Let_def simp_thms alloc_state.simps not_False_eq_True)
    then show thesis by (intro reuse [of i q]) (simp_all add: Some b False)
  next
    case True
    define pw where "pw = (if s_pNextBlock s + block_extent z > CONFIG_FB_ADDR \<and> s_pNextBlock s + block_extent z \<le> FB_END
         then (let b = (FB_END + 16) AND NOT (16 - 1) in (b, b + block_extent z)) else (s_pNextBlock s, s_pNextBlock s + block_extent z))"
    obtain p w where pw: "pw = (p, w)" by (cases pw)
    have "malloc n s = (case pw of (p, w) \<Rightarrow> if w > s_pBlockLimit s then (NULL, s\<lparr>s_pNextBlock := w\<rparr>)
         else (p + 16, s\<lparr>s_pNextBlock := w, blk := (blk s)(p := (blk s p)\<lparr>nMagic := BLOCK_MAGIC, nSize := z, pNext := NULL\<rparr>)\<rparr>))"
      by (simp only: malloc_def Some b True assms if_False option.case prod.case Let_def pw_def simp_thms alloc_state.simps)
    then have "malloc n s = (if w > s_pBlockLimit s then (NULL, s\<lparr>s_pNextBlock := w\<rparr>)
         else (p + 16, s\<lparr>s_pNextBlock := w, blk := (blk s)(p := (blk s p)\<lparr>nMagic := BLOCK_MAGIC, nSize := z, pNext := NULL\<rparr>)\<rparr>))"
      by (simp only: pw prod.case)
    then show thesis using pw unfolding pw_def by (intro bump [of i "block_extent z" p w]) (simp_all only: Some b True fst_conv snd_conv)
  qed
qed

lemma free_head:
  assumes "heap_inv L t" "i < length (s_BlockBucket t)" "snd (s_BlockBucket t ! i) \<noteq> NULL"
  shows "snd (s_BlockBucket t ! i) + 16 \<noteq> NULL"
proof -
  let ?h = "snd (s_BlockBucket t ! i)"
  obtain fl where ok: "pool_ok block_sizes (s_pNextBlock t) (s_BlockBucket t) (blk t) fl ((\<lambda>p. p - 16) ` L)"
    using assms(1) by (rule heap_inv_pool)
  have l: "length fl = length (s_BlockBucket t)" "linked (\<lambda>a. pNext (blk t a)) ?h (fl ! i)" using ok assms(2) by (auto simp: pool_ok_def)
  then have "?h \<in> set (fl ! i)" using assms(3) by (cases "fl ! i") auto
  then have "?h \<in> set (concat fl)" using l(1) assms(2) by (intro in_concat_nth [of i]) simp_all
  then have "unat ?h + 16 + unat (nSize (blk t ?h)) \<le> unat (s_pNextBlock t)" using ok by (auto simp: pool_ok_def blocks_ok_def)
  then have "unat (?h + 16) = unat ?h + 16" using heap_inv_bounds(3,4) [OF assms(1)] by (subst unat_add_no_wrap) simp_all
  then show ?thesis by auto
qed

lemma heap_coreD:
  assumes "heap_inv L t" "heap_core t s"
  shows "s_pNextBlock s \<noteq> 0" "s_BlockBucket s = s_BlockBucket t" "blk s = blk t" "s_pBlockLimit s = s_pBlockLimit t"
    "s = t\<lparr>s_pNextBlock := s_pNextBlock s\<rparr>" "s \<noteq> t \<Longrightarrow> s_pBlockLimit s < s_pNextBlock s"
proof -
  have e: "s = t\<lparr>s_pNextBlock := s_pNextBlock s\<rparr>" using assms(2) by (auto simp: heap_core_def)
  then show "s = t\<lparr>s_pNextBlock := s_pNextBlock s\<rparr>" .
  from arg_cong [OF e, of s_BlockBucket] show "s_BlockBucket s = s_BlockBucket t" by simp
  from arg_cong [OF e, of blk] show "blk s = blk t" by simp
  from arg_cong [OF e, of s_pBlockLimit] show "s_pBlockLimit s = s_pBlockLimit t" by simp
  show "s_pNextBlock s \<noteq> 0" using assms(2) heap_inv_bounds(1) [OF assms(1)] by (auto simp: heap_core_def)
  show "s \<noteq> t \<Longrightarrow> s_pBlockLimit s < s_pNextBlock s" using assms(2) by (auto simp: heap_core_def)
qed

lemma heap_core_step:
  assumes "heap_inv L t" "heap_core t s" "heap_cost n < heap_reserve s" "malloc n s = (p, s')"
  shows "heap_reserve s \<le> heap_reserve s' + heap_cost n"
    "if p = NULL then heap_core t s' else \<exists>t'. malloc n t = (p, t') \<and> heap_core t' s'"
proof -
  note C = heap_coreD [OF assms(1,2)]
  have both: "heap_reserve s \<le> heap_reserve s' + heap_cost n \<and>
    (if p = NULL then heap_core t s' else \<exists>t'. malloc n t = (p, t') \<and> heap_core t' s')"
    using C(1)
  proof (cases rule: malloc_ways [where n = n])
    case unfit
    then show ?thesis using assms(2,4) by simp
  next
    case (reuse i h)
    have t0: "s_pNextBlock t \<noteq> 0" using heap_inv_bounds(1) [OF assms(1)] by auto
    have s': "p = h + 16" "s' = s\<lparr>s_BlockBucket := (s_BlockBucket t)[i := (fst (s_BlockBucket t ! i), pNext (blk t h))],
         blk := (blk t)(h := (blk t h)\<lparr>nMagic := BLOCK_MAGIC, pNext := NULL\<rparr>)\<rparr>"
      using reuse(4) assms(4) C(2,3) by simp_all
    define t' where "t' = t\<lparr>s_BlockBucket := (s_BlockBucket t)[i := (fst (s_BlockBucket t ! i), pNext (blk t h))],
         blk := (blk t)(h := (blk t h)\<lparr>nMagic := BLOCK_MAGIC, pNext := NULL\<rparr>)\<rparr>"
    have mt: "malloc n t = (p, t')"
      using t0 reuse(1-3) C(2) by (cases "s_BlockBucket t ! i") (simp add: malloc_def Let_def t'_def s'(1))
    have "heap_core t' s'"
    proof (cases "s = t")
      case False
      have "s' = t'\<lparr>s_pNextBlock := s_pNextBlock s\<rparr>" unfolding s'(2) t'_def by (subst C(5)) simp
      then show ?thesis using C(6) [OF False] unfolding heap_core_def by (simp add: C(4) t'_def)
    qed (simp add: heap_core_def s'(2) t'_def)
    moreover have "p \<noteq> NULL"
      using free_head [OF assms(1), of i] reuse(1-3) C(2) find_bucket_Some [OF reuse(1)] by (simp add: s'(1))
    ultimately show ?thesis using mt s'(2) by (auto simp: heap_reserve_def)
  next
    case (bump i e q w)
    have e: "unat e = heap_cost n" using heap_cost_found [OF assms(1)] bump(1,3) C(2) by simp
    note B = bump_end [of e s "s_pNextBlock s + e" q w, OF _ refl bump(4), unfolded e, OF assms(3)]
    show ?thesis
    proof (cases "w > s_pBlockLimit s")
      case True
      then have s': "p = NULL" "s' = s\<lparr>s_pNextBlock := w\<rparr>" using bump(5) assms(4) by simp_all
      have "s' = t\<lparr>s_pNextBlock := w\<rparr>" unfolding s'(2) by (subst C(5)) simp
      then have "heap_core t s'" using True C(4) by (simp add: heap_core_def)
      then show ?thesis using s' B(1) [of s] by simp
    next
      case False
      then have "s = t" using C(6) B(2) by (auto simp: word_less_nat_alt word_le_nat_alt)
      moreover have "heap_reserve s' = heap_reserve (s\<lparr>s_pNextBlock := w\<rparr>)" using False bump(5) assms(4) by (auto simp: heap_reserve_def)
      moreover have "fst (s_BlockBucket s ! i) \<in> set block_sizes"
        using find_bucket_Some [OF bump(1)] heap_inv_buckets [OF assms(1)] C(2) by (metis length_map nth_map nth_mem)
      then have "16 \<le> unat e" by (simp add: bump(3) block_extent_unat)
      then have "p \<noteq> NULL" using B(3) e False bump(5) assms(4) by auto
      ultimately show ?thesis using assms(4) B(1) [of s] by (auto simp: heap_core_def)
    qed
  qed
  show "heap_reserve s \<le> heap_reserve s' + heap_cost n" "if p = NULL then heap_core t s' else \<exists>t'. malloc n t = (p, t') \<and> heap_core t' s'"
    using both by blast+
qed

interpretation tired_heap: failing_allocator malloc free heap_inv heap_extent "0x4000000" heap_core heap_cost heap_reserve
proof unfold_locales
  fix L t s n p s'
  show "heap_core s s" for s by (simp add: heap_core_def)
  assume H: "heap_inv L t" "heap_core t s"
  show "heap_core (free p t) (free p s) \<and> heap_reserve (free p s) = heap_reserve s" if "p \<in> L"
  proof -
    note C = heap_coreD [OF H]
    have f: "free p s = (free p t)\<lparr>s_pNextBlock := s_pNextBlock s\<rparr>" "s_pBlockLimit (free p t) = s_pBlockLimit t"
      using free_cases [OF H(1) that] by (subst C(5)) (auto simp: free_def Let_def split: option.splits prod.splits)
    moreover have "s = t \<Longrightarrow> s_pNextBlock s = s_pNextBlock (free p t)" by (simp add: free_def Let_def split: option.splits prod.splits)
    ultimately show ?thesis using C(4,6) by (cases "s = t") (auto simp: heap_core_def heap_reserve_def)
  qed
  assume c: "heap_cost n < heap_reserve s"
  show "heap_core t s'" if "malloc n s = (NULL, s')" using heap_core_step(2) [OF H c that] by simp
  show "\<exists>t'. malloc n t = (p, t') \<and> heap_core t' s'" if "malloc n s = (p, s')" "p \<noteq> NULL"
    using heap_core_step(2) [OF H c that(1)] that(2) by simp
  show "heap_reserve s \<le> heap_reserve s' + heap_cost n" if "malloc n s = (p, s')" by (rule heap_core_step(1) [OF H c that])
qed

section \<open>Freeing twice\<close>

lemma malloc_head:
  assumes "s_pNextBlock s \<noteq> 0" "find_bucket n (s_BlockBucket s) = Some i" "s_BlockBucket s ! i = (z, h)" "h \<noteq> NULL"
  shows "malloc n s = (h + 16, s\<lparr>s_BlockBucket := (s_BlockBucket s)[i := (z, pNext (blk s h))], blk := (blk s)(h := (blk s h)\<lparr>nMagic := BLOCK_MAGIC, pNext := NULL\<rparr>)\<rparr>)"
  using assms by (simp only: malloc_def if_False if_True option.case prod.case Let_def not_False_eq_True simp_thms)

lemma match_bucket_sizes: "map fst bks = map fst bks' \<Longrightarrow> match_bucket n bks = match_bucket n bks'"
proof (induction bks arbitrary: bks')
  case (Cons b bks)
  then obtain b' bs where "bks' = b' # bs" "fst b = fst b'" "map fst bks = map fst bs" by (cases bks') auto
  then show ?case using Cons.IH [of bs] by simp
qed simp

lemma sizes_upd: "j < length bs \<Longrightarrow> fst (bs ! j) = z \<Longrightarrow> map fst (bs[j := (z, x)]) = map fst bs"
  by (auto intro!: nth_equalityI simp: nth_list_update)

text \<open>A free list that runs into a cycle of one block hands this block out twice.\<close>

lemma cyclic_list:
  assumes "s_pNextBlock H \<noteq> 0" "find_bucket n (s_BlockBucket H) = Some i" "a \<noteq> NULL" "b \<noteq> NULL" "a \<noteq> b" "pNext (blk H a) = a"
    and "s_BlockBucket H ! i = (z, a) \<or> s_BlockBucket H ! i = (z, b) \<and> pNext (blk H b) = a"
    and m: "malloc n H = (p1, h1)" "malloc n h1 = (p2, h2)" "malloc n h2 = (p3, h3)"
  shows "p1 = a + 16 \<and> p2 = a + 16 \<or> p2 = a + 16 \<and> p3 = a + 16"
proof -
  let ?B = "s_BlockBucket H"
  have i: "i < length ?B" using find_bucket_Some [OF assms(2)] by simp
  have f: "find_bucket n bs = Some i" if "map fst bs = map fst ?B" for bs using find_bucket_sizes [OF that] assms(2) by simp
  show ?thesis
  proof (cases "?B ! i = (z, a)")
    case True
    then have e: "?B[i := (z, a)] = ?B" using list_update_id [of ?B i] by simp
    have "p1 = a + 16" "h1 = H\<lparr>blk := (blk H)(a := (blk H a)\<lparr>nMagic := BLOCK_MAGIC, pNext := NULL\<rparr>)\<rparr>"
      using malloc_head [of H n i z a] m(1) assms(1-3,6) True e by simp_all
    moreover from this(2) have "p2 = a + 16" using malloc_head [of h1 n i z a] m(2) assms(1-3) True by simp
    ultimately show ?thesis by simp
  next
    case False
    then have b: "?B ! i = (z, b)" "pNext (blk H b) = a" using assms(7) by blast+
    let ?C = "?B[i := (z, a)]"
    have C: "?C ! i = (z, a)" "find_bucket n ?C = Some i" using i f sizes_upd [of i ?B z a] b(1) by simp_all
    have 1: "h1 = H\<lparr>s_BlockBucket := ?C, blk := (blk H)(b := (blk H b)\<lparr>nMagic := BLOCK_MAGIC, pNext := NULL\<rparr>)\<rparr>"
      using malloc_head [of H n i z b] m(1) assms(1,2,4) b by simp
    have 2: "p2 = a + 16" "h2 = h1\<lparr>s_BlockBucket := ?C, blk := (blk h1)(a := (blk h1 a)\<lparr>nMagic := BLOCK_MAGIC, pNext := NULL\<rparr>)\<rparr>"
      using malloc_head [of h1 n i z a] m(2) assms(1,3,5,6) C by (simp_all add: 1)
    have "p3 = a + 16" using malloc_head [of h2 n i z a] m(3) assms(1,3) C by (simp add: 2(2) 1)
    then show ?thesis using 2(1) by simp
  qed
qed

text \<open>Freeing a block twice makes a cycle of the free list: among the next blocks of its class it is handed out twice in a row.\<close>

lemma double_free:
  assumes "heap_inv L s" "p \<in> L" "q \<in> L" "p \<noteq> q" and H: "H = free q (free p (free p s))"
    and n: "find_bucket n (s_BlockBucket H) = find_bucket (nSize (blk H (p - 16))) (s_BlockBucket H)"
    and m: "malloc n H = (p1, h1)" "malloc n h1 = (p2, h2)" "malloc n h2 = (p3, h3)"
  shows "p1 = p \<and> p2 = p \<or> p2 = p \<and> p3 = p"
proof -
  let ?a = "p - 16" and ?b = "q - 16" and ?B = "s_BlockBucket s"
  obtain i where i: "i < length ?B" "fst (?B ! i) = nSize (blk s ?a)" "match_bucket (nSize (blk s ?a)) ?B = Some i"
    using assms(1,2) by (rule free_cases)
  obtain k where k: "k < length ?B" "fst (?B ! k) = nSize (blk s ?b)" "match_bucket (nSize (blk s ?b)) ?B = Some k"
    using assms(1,3) by (rule free_cases)
  have ne: "p \<noteq> NULL" "q \<noteq> NULL" "?a \<noteq> NULL" "?b \<noteq> NULL" "?a \<noteq> ?b"
    using heap.live_nonnull [OF assms(1)] assms(2-4) heap_inv_block(3) [OF assms(1,2)] heap_inv_block(3) [OF assms(1,3)]
    by (auto simp: unat_gt_0)
  let ?z = "fst (?B ! i)" and ?y = "fst (?B ! k)"
  let ?C = "?B[i := (?z, ?a)]"
  define D where "D = ?C[k := (?y, ?b)]"
  have ck: "fst (?C ! k) = ?y" using i(1) k(1) by (simp add: nth_list_update)
  have sz: "map fst ?C = map fst ?B" "map fst D = map fst ?B" using sizes_upd [of i ?B ?z ?a] sizes_upd [of k ?C ?y ?b] i(1) k(1) ck by (simp_all add: D_def)
  have f1: "free p s = s\<lparr>blk := (blk s)(?a := (blk s ?a)\<lparr>nMagic := 0, pNext := snd (?B ! i)\<rparr>), s_BlockBucket := ?C\<rparr>"
    using i(3) ne(1) by (simp add: free_def Let_def split: prod.split)
  have f2: "free p (free p s) = s\<lparr>blk := (blk s)(?a := (blk s ?a)\<lparr>nMagic := 0, pNext := ?a\<rparr>), s_BlockBucket := ?C\<rparr>"
    unfolding f1 using i ne(1) match_bucket_sizes [OF sz(1)] by (simp add: free_def Let_def)
  have H': "H = s\<lparr>blk := (blk s)(?a := (blk s ?a)\<lparr>nMagic := 0, pNext := ?a\<rparr>, ?b := (blk s ?b)\<lparr>nMagic := 0, pNext := snd (?C ! k)\<rparr>), s_BlockBucket := D\<rparr>"
    unfolding H f2 D_def using k(3) ne(2,5) match_bucket_sizes [OF sz(1)] ck by (cases "?C ! k") (simp add: free_def Let_def)
  have "find_bucket (nSize (blk s ?a)) ?B = Some i" by (rule find_bucket_exact [OF i(3) block_sizes_sorted [OF heap_inv_buckets [OF assms(1)]]])
  then have fi: "find_bucket n D = Some i" using n ne(5) find_bucket_sizes [OF sz(2)] by (simp add: H')
  have "D ! i = (?z, ?a) \<or> D ! i = (?z, ?b) \<and> snd (?C ! k) = ?a" using i(1) by (cases "k = i") (simp_all add: D_def)
  moreover have "s_pNextBlock s \<noteq> 0" using heap_inv_bounds(1) [OF assms(1)] by auto
  ultimately show ?thesis
    using cyclic_list [of H n i ?a ?b ?z, OF _ _ ne(3-5) _ _ m] fi ne(5) by (simp add: H')
qed

section \<open>Properties\<close>

text \<open>C1: \<open>malloc\<close> hands out fresh memory. From a state in which \<open>L\<close> are the pointers in use, a
  successful call returns a 16-byte aligned pointer that is not in use, whose block holds at least the
  requested size, ends below the block limit and overlaps no block in use; the allocator's
  invariant holds again.\<close>

theorem malloc_safe:
  assumes "heap_inv L s" "malloc n s = (p, s')" "p \<noteq> NULL"
  shows "heap_inv (insert p L) s' \<and> p \<notin> L \<and> unat p mod 16 = 0 \<and>
     {unat p ..< unat p + unat n} \<subseteq> heap_extent s' p \<and>
     heap_extent s' p \<subseteq> {0 ..< unat (s_pBlockLimit s)} \<and>
     (\<forall>q\<in>L. heap_extent s' q = heap_extent s q \<and> heap_extent s' p \<inter> heap_extent s' q = {})"
proof -
  note inv' = malloc_spec(1) [OF assms]
  have lim: "s_pBlockLimit s' = s_pBlockLimit s"
    using assms by (rule malloc_cases)
  have "heap_extent s' p \<subseteq> {0 ..< unat (s_pBlockLimit s)}"
    using heap_inv_block(4) [OF inv', of p] heap_inv_bounds(3) [OF inv'] lim
    by (auto simp: heap_extent_def)
  then show ?thesis
    using inv' malloc_spec(2) [OF assms] heap_inv_block(2) [OF inv', of p] malloc_size [OF assms]
      malloc_frame [OF assms] heap.new_block_disjoint [OF assms] by simp
qed

definition boot_heap :: alloc_state where
  "boot_heap = mem_initial 0x43000000 0x10000000 0xB0000000 0x10000000
     (alloc_static (\<lambda>_. \<lparr>nMagic = 0, nSize = 0, pNext = 0\<rparr>) (\<lambda>_. \<lparr>nMagic = 0, nSize = 0, pNext = 0\<rparr>)
        (\<lambda>_. \<lparr>fp_nMagic = 0, fp_pNext = 0\<rparr>))"

lemma boot_heap_inv: "heap_inv {} boot_heap" "page_inv {} boot_heap" "dma_inv {} boot_heap"
  unfolding boot_heap_def
  by (rule mem_initial_inv [OF _ _ _ _ refl] dma_initial_inv [OF _ _ _ refl];
      simp add: MEM_HEAP_START_def MAX_MEMORY_def)+

lemma boot_heap_simps:
  "s_pNextBlock boot_heap = 0x43000000" "s_pBlockLimit boot_heap = 0x4F000000"
  "s_BlockBucket boot_heap = map (\<lambda>z. (z, NULL)) block_sizes"
  by (simp_all add: boot_heap_def mem_initial_def alloc_static_def Let_def MEM_HEAP_START_def MAX_MEMORY_def)

lemma boot_malloc_100: "fst (malloc 100 boot_heap) = 0x43000010"
  by (simp add: malloc_def boot_heap_simps block_sizes_def block_extent_def Let_def
      CONFIG_FB_ADDR_def FB_END_def)

theorem malloc_safe_witness:
  "unat (fst (malloc 100 boot_heap)) mod 16 = 0 \<and>
   {0x43000010 ..< 0x43000010 + 100} \<subseteq> heap_extent (snd (malloc 100 boot_heap)) (fst (malloc 100 boot_heap))"
  using malloc_safe [OF boot_heap_inv(1) surjective_pairing [of "malloc 100 boot_heap"]]
  by (simp add: boot_malloc_100)

text \<open>C2: \<open>free\<close> takes a block in use out of use, keeps every other block, and makes the block the
  first of its size class: the next \<open>malloc\<close> of a size in that class returns the same pointer.\<close>

theorem free_then_malloc:
  assumes "heap_inv L s" "p \<in> L"
  shows "heap_inv (L - {p}) (free p s) \<and>
     (\<forall>q \<in> L - {p}. heap_extent (free p s) q = heap_extent s q) \<and>
     (\<forall>n. find_bucket n (s_BlockBucket s) = find_bucket (nSize (blk s (p - 16))) (s_BlockBucket s)
        \<longrightarrow> fst (malloc n (free p s)) = p)"
proof (intro conjI ballI allI impI)
  show inv': "heap_inv (L - {p}) (free p s)" using assms by (rule free_spec)
  show "heap_extent (free p s) q = heap_extent s q" if "q \<in> L - {p}" for q
    using heap.dealloc_frame [OF assms that] .
  fix n
  assume n: "find_bucket n (s_BlockBucket s) = find_bucket (nSize (blk s (p - 16))) (s_BlockBucket s)"
  obtain i where i: "i < length (s_BlockBucket s)" "fst (s_BlockBucket s ! i) = nSize (blk s (p - 16))"
    "match_bucket (nSize (blk s (p - 16))) (s_BlockBucket s) = Some i"
    and f: "free p s = s\<lparr>blk := (blk s)(p - 16 := (blk s (p - 16))\<lparr>nMagic := 0, pNext := snd (s_BlockBucket s ! i)\<rparr>),
        s_BlockBucket := (s_BlockBucket s)[i := (fst (s_BlockBucket s ! i), p - 16)]\<rparr>"
    using assms by (rule free_cases)
  have "map fst (s_BlockBucket s) = block_sizes"
    using assms(1) by (rule heap_inv_buckets)
  then have "find_bucket n (s_BlockBucket s) = Some i"
    using n find_bucket_exact [OF i(3) block_sizes_sorted] by simp
  then have "find_bucket n (s_BlockBucket (free p s)) = Some i"
    using find_bucket_upd [OF i(1)] by (simp add: f)
  moreover have "p - 16 \<noteq> NULL" using heap_inv_block(3) [OF assms] by auto
  moreover have "s_pNextBlock (free p s) \<noteq> 0" using heap_inv_bounds(1) [OF inv'] by auto
  ultimately show "fst (malloc n (free p s)) = p"
    using i(1) by (simp add: malloc_def Let_def f split: prod.splits)
qed

lemma boot_malloc_inv:
  "heap_inv {0x43000010} (snd (malloc 100 boot_heap))"
  using malloc_spec(1) [OF boot_heap_inv(1) surjective_pairing [of "malloc 100 boot_heap"]]
  by (simp add: boot_malloc_100)

lemma boot_malloc_state:
  "blk (snd (malloc 100 boot_heap)) 0x43000000 = \<lparr>nMagic = BLOCK_MAGIC, nSize = 0x400, pNext = NULL\<rparr>"
  "s_BlockBucket (snd (malloc 100 boot_heap)) = map (\<lambda>z. (z, NULL)) block_sizes"
  by (simp_all add: malloc_def boot_heap_simps block_sizes_def block_extent_def Let_def
      CONFIG_FB_ADDR_def FB_END_def)

theorem free_then_malloc_witness:
  "fst (malloc 200 (free 0x43000010 (snd (malloc 100 boot_heap)))) = 0x43000010"
proof -
  have "find_bucket 200 (s_BlockBucket (snd (malloc 100 boot_heap))) =
      find_bucket (nSize (blk (snd (malloc 100 boot_heap)) (0x43000010 - 16))) (s_BlockBucket (snd (malloc 100 boot_heap)))"
    by (simp add: boot_malloc_state block_sizes_def)
  then show ?thesis
    using free_then_malloc [OF boot_malloc_inv, of "0x43000010"] by blast
qed

text \<open>C3: A client that calls \<open>malloc\<close> and \<open>free\<close> in any order, frees only blocks it holds, and goes on after calls that fail, holds at
  every time distinct blocks of memory below the limit that do not overlap, and the heap is consistent but for the bump pointer. This holds
  as long as what it asks for in all, failed requests included and each rounded up to its class with its header, fits into the
  address space behind the bump pointer and the frame buffer: a failed \<open>malloc\<close> has
  moved the bump pointer, and when enough of them have wrapped it round, \<open>malloc\<close> hands out memory above the limit.\<close>

theorem heap_scripts_disjoint:
  assumes "heap_inv {} s" "max (unat (s_pNextBlock s)) (unat FB_END + 16) + demand heap_cost rs < 2 ^ 32"
    and "run_requests malloc free rs [] s = (held, s')"
  shows "distinct held \<and> NULL \<notin> set held \<and> (\<forall>p \<in> set held. heap_extent s' p \<subseteq> {0 ..< unat (s_pBlockLimit s')}) \<and>
     (\<forall>p \<in> set held. \<forall>q \<in> set held. p \<noteq> q \<longrightarrow> heap_extent s' p \<inter> heap_extent s' q = {}) \<and>
     (\<exists>t. heap_inv (set held) t \<and> s' = t\<lparr>s_pNextBlock := s_pNextBlock s'\<rparr>)"
proof -
  have "demand heap_cost rs < heap_reserve s" using assms(2) by (simp add: heap_reserve_def)
  then obtain t where t: "heap_inv (set held) t" "heap_core t s'" "distinct held"
    using tired_heap.run_requests_core [OF assms(3), of s] assms(1) tired_heap.core_refl by auto
  note C = heap_coreD [OF t(1,2)]
  have e: "heap_extent s' = heap_extent t" by (simp add: fun_eq_iff heap_extent_def C(3))
  have "heap_extent s' p \<subseteq> {0 ..< unat (s_pBlockLimit s')}" if "p \<in> set held" for p
    using heap_inv_block(4) [OF t(1) that] heap_inv_bounds(3) [OF t(1)] C(4) by (auto simp: e heap_extent_def)
  moreover have "NULL \<notin> set held" using heap.live_nonnull [OF t(1)] .
  ultimately show ?thesis using t(1,3) C(5) heap.live_disjoint [OF t(1)] unfolding e by blast
qed

theorem heap_scripts_disjoint_witness:
  "\<exists>held s'. run_requests malloc free [Get 0x4000000, Get 0x4000000, Get 0x4000000, Put 0, Get 100, Get 0x4000000] [] boot_heap = (held, s') \<and>
     held = [0x47000020, 0x43000010] \<and> heap_extent s' 0x47000020 \<inter> heap_extent s' 0x43000010 = {}"
proof -
  let ?rs = "[Get 0x4000000, Get 0x4000000, Get 0x4000000, Put 0, Get 100, Get 0x4000000]"
  have "fst (run_requests malloc free ?rs [] boot_heap) = [0x47000020, 0x43000010]"
    by (simp add: malloc_def free_def boot_heap_simps block_sizes_def block_extent_def Let_def CONFIG_FB_ADDR_def FB_END_def)
  then obtain s' where r: "run_requests malloc free ?rs [] boot_heap = ([0x47000020, 0x43000010], s')" by (metis prod.collapse)
  have "max (unat (s_pNextBlock boot_heap)) (unat FB_END + 16) + demand heap_cost ?rs < 2 ^ 32"
    by (simp add: heap_cost_def block_sizes_def boot_heap_simps FB_END_def CONFIG_FB_ADDR_def)
  from heap_scripts_disjoint [OF boot_heap_inv(1) this r] r show ?thesis by simp
qed

text \<open>\<open>mem_initial\<close> divides the memory \<open>[base, base + sz)\<close>: when \<open>3 * sz\<close> fits in 32 bits, the
  blocks get the first three quarters, the pages lie behind them up to the end of the memory, and
  all three allocators start in a consistent state with nothing allocated.\<close>

lemma mem_initial_layout:
  assumes "MEM_HEAP_START \<le> base" "unat base mod 16 = 0"
    and "unat base + unat sz \<le> unat MAX_MEMORY" "unat sz * 3 < 2 ^ 32"
    and "0 < db" "unat db mod 16 = 0" "unat db + unat ds \<le> unat MAX_MEMORY"
    and "s' = mem_initial base sz db ds (alloc_static m dm pm)"
  shows "heap_inv {} s' \<and> page_inv {} s' \<and> dma_inv {} s' \<and>
     unat (s_pBlockLimit s') = unat base + unat sz * 3 div 4 \<and>
     unat (s_pBlockLimit s') < unat (s_pNextPage s') \<and>
     unat (s_pPageLimit s') = unat base + unat sz"
proof -
  have b: "unat MEM_HEAP_START \<le> unat base" using assms(1) by (simp add: word_le_nat_alt)
  have d: "0 < unat db" using assms(5) by (simp add: word_less_nat_alt)
  show ?thesis
    using mem_initial_inv [OF b assms(2-4,8)] mem_initial_regions [OF b assms(3,4,8)]
      dma_initial_inv [OF d assms(6-8)] by simp
qed

text \<open>with the memory of the board the product \<open>ulSize * 3\<close> does not fit in 32 bits. The
  startup code passes the memory between the end of the program and the DMA region; for a heap at
  \<open>0x43000000\<close> these are 1744 MB, of which the block allocator gets 284 MB instead of the 1308 MB
  that are three quarters, and the rest goes to the page allocator.\<close>

lemma mem_initial_boot_overflow:
  "s_pBlockLimit (mem_initial 0x43000000 0x6D000000 0xB0000000 0x10000000 s) = 0x43000000 + 0x11C00000 \<and>
   0x11C00000 < (0x6D000000 :: nat) * 3 div 4 \<and>
   s_pNextPage (mem_initial 0x43000000 0x6D000000 0xB0000000 0x10000000 s) = 0x54C01000 \<and>
   s_pPageLimit (mem_initial 0x43000000 0x6D000000 0xB0000000 0x10000000 s) = 0xB0000000"
  by (simp add: mem_initial_def Let_def MEM_HEAP_START_def MAX_MEMORY_def PAGE_SIZE_def)

text \<open>The bump pointer of a block heap whose free lists are empty.\<close>

definition bump_only :: "alloc_state \<Rightarrow> ptr \<Rightarrow> ptr \<Rightarrow> bool" where
  "bump_only s lim nxt \<longleftrightarrow> s_BlockBucket s = map (\<lambda>z. (z, NULL)) block_sizes \<and>
     s_pBlockLimit s = lim \<and> s_pNextBlock s = nxt"

lemma malloc_64MB:
  assumes "bump_only s lim w" "w \<noteq> 0" "FB_END < w + 0x4000010 \<or> w + 0x4000010 \<le> CONFIG_FB_ADDR"
  shows "bump_only (snd (malloc 0x4000000 s)) lim (w + 0x4000010)"
    "fst (malloc 0x4000000 s) = (if lim < w + 0x4000010 then NULL else w + 16)"
proof -
  have "find_bucket 0x4000000 (s_BlockBucket s) = Some 13" "s_BlockBucket s ! 13 = (0x4000000, NULL)"
    using assms(1) by (simp_all add: bump_only_def block_sizes_def)
  moreover have "block_extent 0x4000000 = 0x4000010" by (simp add: block_extent_def)
  ultimately show "bump_only (snd (malloc 0x4000000 s)) lim (w + 0x4000010)"
    "fst (malloc 0x4000000 s) = (if lim < w + 0x4000010 then NULL else w + 16)"
    using assms by (auto simp: malloc_def bump_only_def Let_def not_less)
qed

text \<open>\<open>s\<close> after \<open>k\<close> requests for 64 MB, whatever they return.\<close>

primrec after_mallocs :: "nat \<Rightarrow> alloc_state \<Rightarrow> alloc_state" where
  "after_mallocs 0 s = s"
| "after_mallocs (Suc k) s = snd (malloc 0x4000000 (after_mallocs k s))"

lemma boot_after_mallocs:
  "k \<le> 47 \<Longrightarrow> bump_only (after_mallocs k boot_heap) 0x4F000000 (0x43000000 + of_nat k * 0x4000010)"
proof (induction k)
  case 0
  then show ?case by (simp add: bump_only_def boot_heap_simps)
next
  case (Suc k)
  let ?w = "0x43000000 + of_nat k * 0x4000010 :: ptr"
  have k: "k < 47" using Suc.prems by simp
  have "?w \<noteq> 0 \<and> (FB_END < ?w + 0x4000010 \<or> ?w + 0x4000010 \<le> CONFIG_FB_ADDR)"
  proof -
    have "unat (of_nat k * 0x4000010 :: ptr) = k * 0x4000010"
      using k by (simp add: unat_word_ariths unat_of_nat)
    then have "unat ?w = 0x43000000 + k * 0x4000010" using k by (subst unat_add_no_wrap) simp_all
    moreover from this have "unat (?w + 0x4000010) = 0x47000010 + k * 0x4000010"
      using k by (subst unat_add_no_wrap) simp_all
    ultimately show ?thesis
      by (auto simp: word_less_nat_alt FB_END_def CONFIG_FB_ADDR_def)
  qed
  then have "bump_only (snd (malloc 0x4000000 (after_mallocs k boot_heap))) 0x4F000000 (?w + 0x4000010)"
    using Suc.IH k by (intro malloc_64MB) simp_all
  moreover have "?w + 0x4000010 = 0x43000000 + of_nat (Suc k) * 0x4000010" by (simp add: algebra_simps)
  ultimately show ?case by (simp only: after_mallocs.simps)
qed

text \<open>a request that does not fit still moves the bump pointer (the limit is tested after the
  pointer has been advanced and a failure does not undo it), so that repeated failures walk it round the
  address space: after 47 requests for 64 MB on a 192 MB heap, all but the first two of which fail,
  the 48th succeeds and returns memory far above the block limit.\<close>

lemma malloc_exhaustion_wraps:
  "list_all (\<lambda>k. fst (malloc 0x4000000 (after_mallocs k boot_heap)) = NULL) [2..<47] \<and>
   fst (malloc 0x4000000 (after_mallocs 47 boot_heap)) = 0xFF000300 \<and>
   s_pBlockLimit (after_mallocs 47 boot_heap) = 0x4F000000"
  unfolding list_all_iff
proof (intro conjI ballI)
  fix k :: nat
  assume "k \<in> set [2..<47]"
  then have "k \<in> {2..<47}" by (simp only: set_upt)
  then have k: "2 \<le> k" "k < 47" by simp_all
  let ?w = "0x43000000 + of_nat k * 0x4000010 :: ptr"
  have "unat (of_nat k * 0x4000010 :: ptr) = k * 0x4000010"
    using k by (simp add: unat_word_ariths unat_of_nat)
  then have "unat ?w = 0x43000000 + k * 0x4000010" using k by (subst unat_add_no_wrap) simp_all
  moreover from this have "unat (?w + 0x4000010) = 0x47000010 + k * 0x4000010"
    using k by (subst unat_add_no_wrap) simp_all
  ultimately have "?w \<noteq> 0 \<and> FB_END < ?w + 0x4000010 \<and> 0x4F000000 < ?w + 0x4000010"
    using k by (auto simp: word_less_nat_alt FB_END_def CONFIG_FB_ADDR_def)
  then show "fst (malloc 0x4000000 (after_mallocs k boot_heap)) = NULL"
    using malloc_64MB(2) [OF boot_after_mallocs [of k]] k by simp
next
  have b: "bump_only (after_mallocs 47 boot_heap) 0x4F000000 0xFF0002F0"
    using boot_after_mallocs [of 47] by simp
  show "fst (malloc 0x4000000 (after_mallocs 47 boot_heap)) = 0xFF000300"
    using malloc_64MB(2) [OF b] by (simp add: FB_END_def CONFIG_FB_ADDR_def)
  show "s_pBlockLimit (after_mallocs 47 boot_heap) = 0x4F000000" using b by (simp add: bump_only_def)
qed

end
