(* ===== verification/Synchronize.thy ===== *)
theory Synchronize
  imports Prelude
begin

text \<open>
  Critical sections and cache maintenance, \<^verbatim>\<open>env/lib/synchronize.c\<close>. The interrupt mask is the
  only part of the processor state that \<open>EnterCritical\<close> and \<open>LeaveCritical\<close> use; it is one
  boolean per processor here. The maintenance operations are modelled by the sequence of operands they
  write to the coprocessor.
\<close>

section \<open>Critical sections\<close>

record sync_state =
  s_nCriticalLevel :: "u32 list"
  s_bWereEnabled :: "bool list"
  irq_enabled :: "bool list"

definition sync_static :: "bool list \<Rightarrow> sync_state" where
  "sync_static irqs = \<lparr>s_nCriticalLevel = [0, 0, 0, 0], s_bWereEnabled = [False, False, False, False],
     irq_enabled = irqs\<rparr>"

definition EnterCritical :: "nat \<Rightarrow> sync_state \<Rightarrow> sync_state option" where
  "EnterCritical cpuid s = do {
     assert (cpuid < 4);
     lvl \<leftarrow> rd (s_nCriticalLevel s) cpuid;
     s \<leftarrow> (if lvl = 0 then do {
            on \<leftarrow> rd (irq_enabled s) cpuid;
            we \<leftarrow> wr (s_bWereEnabled s) cpuid on;
            irq \<leftarrow> wr (irq_enabled s) cpuid False;
            Some (s\<lparr>s_bWereEnabled := we, irq_enabled := irq\<rparr>) }
          else Some s);
     ls \<leftarrow> wr (s_nCriticalLevel s) cpuid (lvl + 1);
     Some (s\<lparr>s_nCriticalLevel := ls\<rparr>) }"

definition LeaveCritical :: "nat \<Rightarrow> sync_state \<Rightarrow> sync_state option" where
  "LeaveCritical cpuid s = do {
     assert (cpuid < 4);
     lvl \<leftarrow> rd (s_nCriticalLevel s) cpuid;
     ls \<leftarrow> wr (s_nCriticalLevel s) cpuid (if lvl > 0 then lvl - 1 else lvl);
     s \<leftarrow> Some (s\<lparr>s_nCriticalLevel := ls\<rparr>);
     lvl' \<leftarrow> rd (s_nCriticalLevel s) cpuid;
     we \<leftarrow> rd (s_bWereEnabled s) cpuid;
     (if lvl' = 0 \<and> we then do {
        irq \<leftarrow> wr (irq_enabled s) cpuid True;
        Some (s\<lparr>irq_enabled := irq\<rparr>) }
      else Some s) }"

definition get_cpu_critical :: "sync_state \<Rightarrow> nat \<Rightarrow> u32 option" where
  "get_cpu_critical s cpu = rd (s_nCriticalLevel s) cpu"

definition get_cpu_enable :: "sync_state \<Rightarrow> nat \<Rightarrow> bool option" where
  "get_cpu_enable s cpu = rd (s_bWereEnabled s) cpu"

text \<open>Calls by the four processors in any order.\<close>

datatype crit_op = Enter | Leave

fun crit_step :: "nat \<times> crit_op \<Rightarrow> sync_state \<Rightarrow> sync_state option" where
  "crit_step (cpu, Enter) s = EnterCritical cpu s"
| "crit_step (cpu, Leave) s = LeaveCritical cpu s"

fun crit_run :: "(nat \<times> crit_op) list \<Rightarrow> sync_state \<Rightarrow> sync_state option" where
  "crit_run [] s = Some s"
| "crit_run (e # es) s = do { s \<leftarrow> crit_step e s; crit_run es s }"

text \<open>The nesting depth of each processor after the calls; \<^term>\<open>None\<close> when a processor leaves a
  section it has not entered.\<close>

fun depth :: "(nat \<times> crit_op) list \<Rightarrow> (nat \<Rightarrow> nat) \<Rightarrow> (nat \<Rightarrow> nat) option" where
  "depth [] d = Some d"
| "depth ((c, Enter) # es) d = depth es (d(c := d c + 1))"
| "depth ((c, Leave) # es) d = (if d c = 0 then None else depth es (d(c := d c - 1)))"

section \<open>Cache maintenance\<close>

definition SETWAY_LEVEL_SHIFT :: nat where "SETWAY_LEVEL_SHIFT = 1"
definition L1_DATA_CACHE_WAYS :: nat where "L1_DATA_CACHE_WAYS = 4"
definition L1_DATA_CACHE_SETS :: nat where "L1_DATA_CACHE_SETS = 128"
definition L1_SETWAY_WAY_SHIFT :: nat where "L1_SETWAY_WAY_SHIFT = 30"
definition L1_SETWAY_SET_SHIFT :: nat where "L1_SETWAY_SET_SHIFT = 6"
definition L2_CACHE_SETS :: nat where "L2_CACHE_SETS = 512"
definition L2_CACHE_WAYS :: nat where "L2_CACHE_WAYS = 16"
definition L2_SETWAY_WAY_SHIFT :: nat where "L2_SETWAY_WAY_SHIFT = 28"
definition L2_SETWAY_SET_SHIFT :: nat where "L2_SETWAY_SET_SHIFT = 6"
definition DATA_CACHE_LINE_LENGTH_MIN :: u32 where "DATA_CACHE_LINE_LENGTH_MIN = 64"

datatype cache_op = DCISW u32 | DCCSW u32 | DCIMVAC u32 | DCCMVAC u32 | DCCIMVAC u32

definition L1_setways :: "u32 list" where
  "L1_setways = [push_bit L1_SETWAY_WAY_SHIFT (of_nat nWay) OR push_bit L1_SETWAY_SET_SHIFT (of_nat nSet)
       OR push_bit SETWAY_LEVEL_SHIFT 0.
     nSet \<leftarrow> [0..<L1_DATA_CACHE_SETS], nWay \<leftarrow> [0..<L1_DATA_CACHE_WAYS]]"

definition L2_setways :: "u32 list" where
  "L2_setways = [push_bit L2_SETWAY_WAY_SHIFT (of_nat nWay) OR push_bit L2_SETWAY_SET_SHIFT (of_nat nSet)
       OR push_bit SETWAY_LEVEL_SHIFT 1.
     nSet \<leftarrow> [0..<L2_CACHE_SETS], nWay \<leftarrow> [0..<L2_CACHE_WAYS]]"

definition InvalidateDataCache :: "cache_op list" where
  "InvalidateDataCache = map DCISW L1_setways @ map DCISW L2_setways"

definition CleanDataCache :: "cache_op list" where
  "CleanDataCache = map DCCSW L1_setways @ map DCCSW L2_setways"

text \<open>The loop the three range operations share: one operation per line until the length is used up.\<close>

function cache_range_loop :: "u32 \<Rightarrow> u32 \<Rightarrow> u32 list" where
  "cache_range_loop nAddress nLength =
     nAddress # (if nLength < DATA_CACHE_LINE_LENGTH_MIN then []
                 else cache_range_loop (nAddress + DATA_CACHE_LINE_LENGTH_MIN)
                        (nLength - DATA_CACHE_LINE_LENGTH_MIN))"
  by auto
termination
  by (relation "measure (\<lambda>(a, n). unat n)")
    (auto simp: DATA_CACHE_LINE_LENGTH_MIN_def not_less unat_sub_no_wrap word_le_nat_alt)

declare cache_range_loop.simps [simp del]

definition InvalidateDataCacheRange :: "u32 \<Rightarrow> u32 \<Rightarrow> cache_op list" where
  "InvalidateDataCacheRange nAddress nLength =
     map DCIMVAC (cache_range_loop nAddress (nLength + DATA_CACHE_LINE_LENGTH_MIN))"

definition CleanDataCacheRange :: "u32 \<Rightarrow> u32 \<Rightarrow> cache_op list" where
  "CleanDataCacheRange nAddress nLength =
     map DCCMVAC (cache_range_loop nAddress (nLength + DATA_CACHE_LINE_LENGTH_MIN))"

definition CleanAndInvalidateDataCacheRange :: "u32 \<Rightarrow> u32 \<Rightarrow> cache_op list" where
  "CleanAndInvalidateDataCacheRange nAddress nLength =
     map DCCIMVAC (cache_range_loop nAddress (nLength + DATA_CACHE_LINE_LENGTH_MIN))"

section \<open>Lemmas\<close>

text \<open>\<open>crit_ok irqs d s\<close>: the state of the four processors whose interrupts were \<open>irqs\<close> outside
  critical sections and which are now nested \<open>d\<close> deep.\<close>

definition crit_ok :: "bool list \<Rightarrow> (nat \<Rightarrow> nat) \<Rightarrow> sync_state \<Rightarrow> bool" where
  "crit_ok irqs d s \<longleftrightarrow>
     length irqs = 4 \<and> length (s_nCriticalLevel s) = 4 \<and> length (s_bWereEnabled s) = 4 \<and>
     length (irq_enabled s) = 4 \<and>
     (\<forall>c<4. s_nCriticalLevel s ! c = of_nat (d c) \<and>
        (0 < d c \<longrightarrow> s_bWereEnabled s ! c = irqs ! c) \<and>
        irq_enabled s ! c = (irqs ! c \<and> d c = 0))"

lemma enter_ok:
  assumes "crit_ok irqs d s" "c < 4" "d c + 1 < 2 ^ 32"
  shows "\<exists>s'. EnterCritical c s = Some s' \<and> crit_ok irqs (d(c := d c + 1)) s'"
proof -
  have "s_nCriticalLevel s ! c = 0 \<longleftrightarrow> d c = 0"
    using assms of_nat_0_iff_small [where 'a = 32, of "d c"] by (simp add: crit_ok_def)
  then show ?thesis
    using assms by (auto simp: EnterCritical_def crit_ok_def nth_list_update algebra_simps)
qed

lemma leave_ok:
  assumes "crit_ok irqs d s" "c < 4" "0 < d c" "d c < 2 ^ 32"
  shows "\<exists>s'. LeaveCritical c s = Some s' \<and> crit_ok irqs (d(c := d c - 1)) s'"
proof -
  have l: "s_nCriticalLevel s ! c = of_nat (d c)" using assms by (simp add: crit_ok_def)
  have nz: "0 < s_nCriticalLevel s ! c"
    unfolding l using assms(3,4) of_nat_0_iff_small [where 'a = 32, of "d c"] by (simp add: word_gt_0)
  have sub: "s_nCriticalLevel s ! c - 1 = of_nat (d c - 1)" using l assms(3) by (simp add: of_nat_diff)
  have z: "(of_nat (d c - 1) :: u32) = 0 \<longleftrightarrow> d c = 1"
    using assms(3,4) of_nat_0_iff_small [where 'a = 32, of "d c - 1"] by auto
  show ?thesis
    using assms nz sub z by (auto simp: LeaveCritical_def crit_ok_def nth_list_update)
qed

lemma cache_range_loop_mem:
  assumes "64 * k \<le> unat n"
  shows "a + of_nat (64 * k) \<in> set (cache_range_loop a n)"
  using assms
proof (induction k arbitrary: a n)
  case 0
  then show ?case by (subst cache_range_loop.simps) simp
next
  case (Suc k)
  then have n: "64 \<le> unat n" "\<not> n < 64" by (simp_all add: word_less_nat_alt)
  then have "64 * k \<le> unat (n - 64)" using Suc.prems by (simp add: unat_sub_no_wrap)
  from Suc.IH [OF this, of "a + 64"] n show ?case
    by (subst cache_range_loop.simps) (simp add: DATA_CACHE_LINE_LENGTH_MIN_def algebra_simps)
qed

lemma crit_run_ok:
  assumes "depth es d = Some d'" "crit_ok irqs d s" "list_all (\<lambda>(c, _). c < 4) es"
    and "\<forall>c. d c + length es < 2 ^ 32"
  shows "\<exists>s'. crit_run es s = Some s' \<and> crit_ok irqs d' s'"
  using assms
proof (induction es arbitrary: d s)
  case Nil
  then show ?case by simp
next
  case (Cons e es)
  obtain c x where e: "e = (c, x)" by (cases e)
  have c: "c < 4" using Cons.prems(3) e by simp
  have bound: "d c + 1 < 2 ^ 32" "d c < 2 ^ 32" using Cons.prems(4) by (auto simp: dest: spec [of _ c])
  obtain d1 s1 where step: "crit_step e s = Some s1" "crit_ok irqs d1 s1" "depth es d1 = Some d'"
    and d1: "\<forall>k. d1 k \<le> d k + 1"
  proof (cases x)
    case Enter
    obtain s1 where "EnterCritical c s = Some s1" "crit_ok irqs (d(c := d c + 1)) s1"
      using enter_ok [OF Cons.prems(2) c bound(1)] by blast
    with that [of s1 "d(c := d c + 1)"] Cons.prems(1) show ?thesis by (simp add: e Enter)
  next
    case Leave
    with Cons.prems(1) have d0: "0 < d c" "depth es (d(c := d c - 1)) = Some d'"
      by (auto simp: e split: if_splits)
    obtain s1 where "LeaveCritical c s = Some s1" "crit_ok irqs (d(c := d c - 1)) s1"
      using leave_ok [OF Cons.prems(2) c d0(1) bound(2)] by blast
    with that [of s1 "d(c := d c - 1)"] d0 show ?thesis by (simp add: e Leave)
  qed
  have "\<forall>k. d1 k + length es < 2 ^ 32"
  proof
    fix k
    show "d1 k + length es < 2 ^ 32" using d1 [rule_format, of k] Cons.prems(4) [rule_format, of k] by simp
  qed
  then have "\<exists>s'. crit_run es s1 = Some s' \<and> crit_ok irqs d' s'"
    using Cons.IH [OF step(3,2)] Cons.prems(3) by simp
  with step(1) show ?case by simp
qed

section \<open>Properties\<close>

text \<open>C4: critical sections nest, on every processor and independently of the others. After any
  interleaving of calls in which no processor leaves a section it has not entered, no assertion
  fails, and a processor has its interrupts enabled exactly when it is outside all its sections and had
  them enabled before; in particular a balanced sequence restores every interrupt mask.\<close>

theorem critical_sections_nest:
  assumes "depth es (\<lambda>_. 0) = Some d" "list_all (\<lambda>(c, _). c < 4) es" "length es < 2 ^ 32"
    and "length irqs = 4"
  shows "\<exists>s'. crit_run es (sync_static irqs) = Some s' \<and>
     (\<forall>c<4. irq_enabled s' ! c = (irqs ! c \<and> d c = 0) \<and> get_cpu_critical s' c = Some (of_nat (d c)))"
proof -
  have four: "(\<forall>c<4. P c) \<longleftrightarrow> P 0 \<and> P 1 \<and> P 2 \<and> P (3::nat)" for P
    by (auto simp: numeral_eq_Suc less_Suc_eq)
  have "crit_ok irqs (\<lambda>_. 0) (sync_static irqs)"
    using assms(4) by (simp add: crit_ok_def sync_static_def four)
  moreover have "\<forall>c. (\<lambda>_. 0) c + length es < 2 ^ 32" using assms(3) by simp
  ultimately obtain s' where "crit_run es (sync_static irqs) = Some s'" "crit_ok irqs d s'"
    using crit_run_ok [OF assms(1) _ assms(2)] by blast
  then show ?thesis by (auto simp: crit_ok_def get_cpu_critical_def)
qed

theorem critical_sections_nest_witness:
  "\<exists>s'. crit_run [(0, Enter), (1, Enter), (0, Enter), (0, Leave), (1, Leave)]
      (sync_static [True, True, False, True]) = Some s' \<and>
     irq_enabled s' ! 0 = False \<and> irq_enabled s' ! 1 = True"
proof -
  let ?es = "[(0, Enter), (1, Enter), (0, Enter), (0, Leave), (1, Leave)]"
  obtain d where d: "depth ?es (\<lambda>_. 0) = Some d" "d 0 = 1" "d 1 = 0" by simp
  show ?thesis
    using critical_sections_nest [OF d(1), of "[True, True, False, True]"] d(2,3) by force
qed

text \<open>the range operations reach every cache line of the range: for each byte of
  \<open>[nAddress, nAddress + nLength)\<close> some operation is issued on an address in the byte's 64-byte line,
  also when the start or the end is not aligned.\<close>

lemma cache_range_covers:
  assumes "unat nAddress + unat nLength + 128 < 2 ^ 32" "i < unat nLength"
  shows "\<exists>a. DCCIMVAC a \<in> set (CleanAndInvalidateDataCacheRange nAddress nLength) \<and>
     unat a div 64 = (unat nAddress + i) div 64"
proof -
  define A where "A = unat nAddress"
  have split: "(A + i) div 64 = A div 64 + i div 64 + (A mod 64 + i mod 64) div 64"
    by (rule div_add1_eq)
  have "(A mod 64 + i mod 64) div 64 < 2" using mod_less_divisor [of 64 A] mod_less_divisor [of 64 i]
    by (simp add: div_less_iff_less_mult)
  then have carry: "(A mod 64 + i mod 64) div 64 \<le> 1" by simp
  define c where "c = (A mod 64 + i mod 64) div 64"
  have "64 * (i div 64) \<le> i" by simp
  moreover have "c \<le> 1" using carry by (simp only: c_def)
  ultimately have "64 * (i div 64 + c) \<le> unat nLength + 64"
    using assms(2) by (simp add: distrib_left)
  moreover have "(A + 64 * (i div 64 + c)) div 64 = (A + i) div 64" by (simp add: split c_def [symmetric])
  ultimately have "\<exists>k. 64 * k \<le> unat nLength + 64 \<and> (A + 64 * k) div 64 = (A + i) div 64" by blast
  then obtain k where k: "64 * k \<le> unat nLength + 64" "(A + 64 * k) div 64 = (A + i) div 64" by blast
  have len: "unat (nLength + 64) = unat nLength + 64" using assms(1) by (simp add: unat_add_no_wrap)
  let ?a = "nAddress + of_nat (64 * k)"
  have "unat (of_nat (64 * k) :: u32) = 64 * k" using k(1) assms(1) by (intro unat_of_nat_small) simp
  then have "unat ?a = A + 64 * k"
    unfolding A_def using k(1) assms(1) by (subst unat_add_no_wrap) simp_all
  moreover have "?a \<in> set (cache_range_loop nAddress (nLength + 64))"
    using k(1) len by (intro cache_range_loop_mem) simp
  ultimately show ?thesis
    using k(2) unfolding CleanAndInvalidateDataCacheRange_def DATA_CACHE_LINE_LENGTH_MIN_def A_def
    by (intro exI [of _ ?a]) simp
qed

end
