(* ===== verification/Timer.thy ===== *)
theory Timer
  imports Synchronize
begin

text \<open>
  The kernel timers, \<^verbatim>\<open>env/lib/timer.c\<close>, and the wrappers of \<^verbatim>\<open>env/lib/uspibind.c\<close>. A
  pointer to a \<open>TTimer\<close> is the index of its processor in \<open>s_Timer\<close>. A handler is code at an
  address; what a call of it does to the state is the parameter \<open>hnd\<close> of the operations that call
  handlers; the locale \<open>timer_handler\<close> states what a poll relies on. The counter \<open>jiffies\<close> does not change during a poll, which runs in the timer
  interrupt with interrupts disabled.
\<close>

section \<open>Data\<close>

definition HZ :: u32 where "HZ = 1000"
definition KERNEL_TIMERS :: nat where "KERNEL_TIMERS = 20"
definition CPU_MAX_NUM :: nat where "CPU_MAX_NUM = 4"
definition DO_TICK_CPU :: nat where "DO_TICK_CPU = 0"

record TKernelTimer =
  m_pHandler :: ptr
  m_nElapsesAt :: u32
  m_pParam :: ptr
  m_pContext :: ptr

record TTimer =
  m_nTicks :: u32
  m_nTime :: u32
  m_KernelTimer :: "TKernelTimer list"
  m_nMsDelay :: u32
  m_nusDelay :: u32

record timer_state =
  jiffies :: u32
  s_Timer :: "TTimer list"

type_synonym 'a handler = "ptr \<Rightarrow> u32 \<Rightarrow> ptr \<Rightarrow> ptr \<Rightarrow> 'a timer_state_scheme \<Rightarrow> 'a timer_state_scheme option"

definition kernel_timer_zero :: TKernelTimer where
  "kernel_timer_zero = \<lparr>m_pHandler = 0, m_nElapsesAt = 0, m_pParam = 0, m_pContext = 0\<rparr>"

definition timer_zero :: TTimer where
  "timer_zero = \<lparr>m_nTicks = 0, m_nTime = 0, m_KernelTimer = replicate KERNEL_TIMERS kernel_timer_zero,
     m_nMsDelay = 0, m_nusDelay = 0\<rparr>"

section \<open>Operations\<close>

definition TimerGet :: "nat \<Rightarrow> nat option" where
  "TimerGet cpu_id = do { assert (cpu_id < CPU_MAX_NUM); Some cpu_id }"

definition Timer :: "nat \<Rightarrow> 'a timer_state_scheme \<Rightarrow> 'a timer_state_scheme option" where
  "Timer cpu s = do {
     i \<leftarrow> TimerGet cpu;
     s \<leftarrow> Some (s\<lparr>s_Timer := replicate CPU_MAX_NUM timer_zero\<rparr>);
     t \<leftarrow> rd (s_Timer s) i;
     t \<leftarrow> Some (t\<lparr>m_nTicks := 0, m_nTime := 0, m_nMsDelay := 350000\<rparr>);
     t \<leftarrow> Some (t\<lparr>m_nusDelay := m_nMsDelay t div 1000\<rparr>);
     t \<leftarrow> Some (t\<lparr>m_KernelTimer := map (\<lambda>k. k\<lparr>m_pHandler := 0\<rparr>) (m_KernelTimer t)\<rparr>);
     ts \<leftarrow> wr (s_Timer s) i t;
     Some (s\<lparr>s_Timer := ts\<rparr>) }"

definition Timer_destroy :: "nat \<Rightarrow> 'a timer_state_scheme \<Rightarrow> 'a timer_state_scheme option" where
  "Timer_destroy cpu s = do {
     assert (cpu < CPU_MAX_NUM);
     ts \<leftarrow> wr (s_Timer s) cpu timer_zero;
     Some (s\<lparr>s_Timer := ts\<rparr>) }"

definition TimerGetTicks :: "'a timer_state_scheme \<Rightarrow> u32" where
  "TimerGetTicks s = jiffies s"

definition TimerGetTime :: "nat \<Rightarrow> 'a timer_state_scheme \<Rightarrow> u32 option" where
  "TimerGetTime this s = do { t \<leftarrow> rd (s_Timer s) this; Some (m_nTime t) }"

definition IsLeapYear :: "u32 \<Rightarrow> bool" where
  "IsLeapYear nYear = (if nYear mod 100 = 0 then nYear mod 400 = 0 else nYear mod 4 = 0)"

definition s_nDaysOfMonth :: "u32 list" where
  "s_nDaysOfMonth = [31, 28, 31, 30, 31, 30, 31, 31, 30, 31, 30, 31]"

definition GetDaysOfMonth :: "u32 \<Rightarrow> u32 \<Rightarrow> u32 option" where
  "GetDaysOfMonth nMonth nYear =
     (if nMonth = 1 \<and> IsLeapYear nYear then Some 29
      else do { assert (nMonth \<le> 11); rd s_nDaysOfMonth (unat nMonth) })"

text \<open>The first free entry of the table, \<open>KERNEL_TIMERS\<close> if there is none.\<close>

primrec free_slot :: "TKernelTimer list \<Rightarrow> nat" where
  "free_slot [] = 0"
| "free_slot (k # ks) = (if m_pHandler k = 0 then 0 else Suc (free_slot ks))"

definition TimerStartKernelTimer ::
  "nat \<Rightarrow> u32 \<Rightarrow> ptr \<Rightarrow> ptr \<Rightarrow> ptr \<Rightarrow> 'a timer_state_scheme \<Rightarrow> (u32 \<times> 'a timer_state_scheme) option" where
  "TimerStartKernelTimer this nDelay pHandler pParam pContext s = do {
     t \<leftarrow> rd (s_Timer s) this;
     hTimer \<leftarrow> Some (free_slot (m_KernelTimer t));
     (if hTimer \<ge> KERNEL_TIMERS then Some (0, s)
      else do {
        assert (pHandler \<noteq> NULL);
        ks \<leftarrow> wr (m_KernelTimer t) hTimer
               \<lparr>m_pHandler = pHandler, m_nElapsesAt = jiffies s + nDelay, m_pParam = pParam, m_pContext = pContext\<rparr>;
        ts \<leftarrow> wr (s_Timer s) this (t\<lparr>m_KernelTimer := ks\<rparr>);
        Some (of_nat hTimer + 1, s\<lparr>s_Timer := ts\<rparr>) }) }"

definition TimerCancelKernelTimer ::
  "nat \<Rightarrow> u32 \<Rightarrow> 'a timer_state_scheme \<Rightarrow> 'a timer_state_scheme option" where
  "TimerCancelKernelTimer this hTimer s = do {
     t \<leftarrow> rd (s_Timer s) this;
     assert (1 \<le> unat hTimer \<and> unat hTimer \<le> KERNEL_TIMERS);
     k \<leftarrow> rd (m_KernelTimer t) (unat (hTimer - 1));
     ks \<leftarrow> wr (m_KernelTimer t) (unat (hTimer - 1)) (k\<lparr>m_pHandler := 0\<rparr>);
     ts \<leftarrow> wr (s_Timer s) this (t\<lparr>m_KernelTimer := ks\<rparr>);
     Some (s\<lparr>s_Timer := ts\<rparr>) }"

definition TimerUpdateKernelTimer ::
  "nat \<Rightarrow> u32 \<Rightarrow> u32 \<Rightarrow> 'a timer_state_scheme \<Rightarrow> 'a timer_state_scheme option" where
  "TimerUpdateKernelTimer this hTimer nDelay s = do {
     t \<leftarrow> rd (s_Timer s) this;
     assert (1 \<le> unat hTimer \<and> unat hTimer \<le> KERNEL_TIMERS);
     k \<leftarrow> rd (m_KernelTimer t) (unat (hTimer - 1));
     ks \<leftarrow> wr (m_KernelTimer t) (unat (hTimer - 1)) (k\<lparr>m_nElapsesAt := jiffies s + nDelay\<rparr>);
     ts \<leftarrow> wr (s_Timer s) this (t\<lparr>m_KernelTimer := ks\<rparr>);
     Some (s\<lparr>s_Timer := ts\<rparr>) }"

text \<open>The wrappers that take the timer of the calling processor.\<close>

definition StartKernelTimer ::
  "nat \<Rightarrow> u32 \<Rightarrow> ptr \<Rightarrow> ptr \<Rightarrow> ptr \<Rightarrow> 'a timer_state_scheme \<Rightarrow> (u32 \<times> 'a timer_state_scheme) option" where
  "StartKernelTimer cpu nDelay pHandler pParam pContext s = do {
     this \<leftarrow> TimerGet cpu; TimerStartKernelTimer this nDelay pHandler pParam pContext s }"

definition CancelKernelTimer :: "nat \<Rightarrow> u32 \<Rightarrow> 'a timer_state_scheme \<Rightarrow> 'a timer_state_scheme option" where
  "CancelKernelTimer cpu hTimer s = do { this \<leftarrow> TimerGet cpu; TimerCancelKernelTimer this hTimer s }"

definition UpdateKernelTimer :: "nat \<Rightarrow> u32 \<Rightarrow> u32 \<Rightarrow> 'a timer_state_scheme \<Rightarrow> 'a timer_state_scheme option" where
  "UpdateKernelTimer cpu hTimer nDelay s = do { this \<leftarrow> TimerGet cpu; TimerUpdateKernelTimer this hTimer nDelay s }"

text \<open>The signed comparison \<open>(int) (m_nElapsesAt - jiffies) <= 0\<close>.\<close>

definition elapsed :: "u32 \<Rightarrow> TKernelTimer \<Rightarrow> bool" where
  "elapsed now k \<longleftrightarrow> sint (m_nElapsesAt k - now) \<le> 0"

definition poll_slot :: "'a handler \<Rightarrow> nat \<Rightarrow> nat \<Rightarrow> 'a timer_state_scheme \<Rightarrow> 'a timer_state_scheme option" where
  "poll_slot hnd this hTimer s = do {
     t \<leftarrow> rd (s_Timer s) this;
     k \<leftarrow> rd (m_KernelTimer t) hTimer;
     (if m_pHandler k \<noteq> NULL \<and> elapsed (jiffies s) k
      then do {
        ks \<leftarrow> wr (m_KernelTimer t) hTimer (k\<lparr>m_pHandler := 0\<rparr>);
        ts \<leftarrow> wr (s_Timer s) this (t\<lparr>m_KernelTimer := ks\<rparr>);
        hnd (m_pHandler k) (of_nat hTimer + 1) (m_pParam k) (m_pContext k) (s\<lparr>s_Timer := ts\<rparr>) }
      else Some s) }"

primrec poll_loop :: "'a handler \<Rightarrow> nat \<Rightarrow> nat list \<Rightarrow> 'a timer_state_scheme \<Rightarrow> 'a timer_state_scheme option" where
  "poll_loop hnd this [] s = Some s"
| "poll_loop hnd this (h # hs) s = do { s \<leftarrow> poll_slot hnd this h s; poll_loop hnd this hs s }"

definition TimerPollKernelTimers :: "'a handler \<Rightarrow> nat \<Rightarrow> 'a timer_state_scheme \<Rightarrow> 'a timer_state_scheme option" where
  "TimerPollKernelTimers hnd this s = poll_loop hnd this [0..<KERNEL_TIMERS] s"

definition TimerInterruptHandler ::
  "'a handler \<Rightarrow> nat \<Rightarrow> nat \<Rightarrow> 'a timer_state_scheme \<Rightarrow> 'a timer_state_scheme option" where
  "TimerInterruptHandler hnd cpu this s = do {
     s \<leftarrow> (if cpu = DO_TICK_CPU then do {
            s \<leftarrow> Some (s\<lparr>jiffies := jiffies s + 1\<rparr>);
            (if jiffies s mod HZ = 0 then do {
               t \<leftarrow> rd (s_Timer s) this;
               ts \<leftarrow> wr (s_Timer s) this (t\<lparr>m_nTime := m_nTime t + 1\<rparr>);
               Some (s\<lparr>s_Timer := ts\<rparr>) }
             else Some s) }
          else Some s);
     TimerPollKernelTimers hnd this s }"

definition get_system_hz :: u32 where "get_system_hz = HZ"

definition clock_gettime :: "'a timer_state_scheme \<Rightarrow> u64" where
  "clock_gettime s = (if get_system_hz > 0 then ucast (jiffies s) * 1000000 div ucast get_system_hz else 0)"

definition get_timer :: "u64 \<Rightarrow> u64" where
  "get_timer base = (ucast get_system_hz :: u64) div ucast HZ - base"

definition time_after :: "u32 \<Rightarrow> u32 \<Rightarrow> bool" where
  "time_after a b \<longleftrightarrow> sint (b - a) < 0"

definition time_before :: "u32 \<Rightarrow> u32 \<Rightarrow> bool" where
  "time_before a b = time_after b a"

text \<open>\<open>msleep\<close> spins on the counter; \<open>reading i\<close> is what the \<open>i\<close>-th load of \<open>jiffies\<close> returns. The
  result is the number of loads.\<close>

partial_function (option) msleep_loop :: "(nat \<Rightarrow> u32) \<Rightarrow> u32 \<Rightarrow> nat \<Rightarrow> nat option" where
  "msleep_loop reading timeout i =
     (if time_before (reading i) timeout then msleep_loop reading timeout (Suc i) else Some (Suc i))"

definition msleep :: "(nat \<Rightarrow> u32) \<Rightarrow> u32 \<Rightarrow> nat option" where
  "msleep reading msecond = msleep_loop reading (reading 0 + msecond) 1"

section \<open>Lemmas\<close>

definition timers_ok :: "'a timer_state_scheme \<Rightarrow> bool" where
  "timers_ok s \<longleftrightarrow> length (s_Timer s) = CPU_MAX_NUM \<and>
     (\<forall>t \<in> set (s_Timer s). length (m_KernelTimer t) = KERNEL_TIMERS)"

abbreviation due :: "u32 \<Rightarrow> TKernelTimer \<Rightarrow> bool" where
  "due now k \<equiv> m_pHandler k \<noteq> NULL \<and> elapsed now k"

text \<open>The handlers' calls are recorded in the extension of the state.\<close>

type_synonym call = "ptr \<times> u32 \<times> ptr \<times> ptr"

definition log_handler :: "call list handler" where
  "log_handler p h a c s = Some (s\<lparr>timer_state.more := timer_state.more s @ [(p, h, a, c)]\<rparr>)"

definition call_of :: "TKernelTimer list \<Rightarrow> nat \<Rightarrow> call" where
  "call_of ks h = (m_pHandler (ks ! h), of_nat h + 1, m_pParam (ks ! h), m_pContext (ks ! h))"

primrec clear_due :: "u32 \<Rightarrow> nat list \<Rightarrow> TKernelTimer list \<Rightarrow> TKernelTimer list" where
  "clear_due now [] ks = ks"
| "clear_due now (h # hs) ks =
     clear_due now hs (if due now (ks ! h) then ks[h := (ks ! h)\<lparr>m_pHandler := 0\<rparr>] else ks)"

lemma length_clear_due [simp]: "length (clear_due now hs ks) = length ks"
  by (induction hs arbitrary: ks) auto

lemma nth_clear_due:
  "distinct hs \<Longrightarrow> set hs \<subseteq> {..<length ks} \<Longrightarrow> i < length ks \<Longrightarrow>
     clear_due now hs ks ! i = (if i \<in> set hs \<and> due now (ks ! i) then (ks ! i)\<lparr>m_pHandler := 0\<rparr> else ks ! i)"
  by (induction hs arbitrary: ks) (auto simp: nth_list_update)

lemma clear_due_all:
  "clear_due now [0..<length ks] ks = map (\<lambda>k. if due now k then k\<lparr>m_pHandler := 0\<rparr> else k) ks"
  by (rule nth_equalityI) (simp_all add: nth_clear_due lessThan_atLeast0)

lemma calls_upd:
  "h \<notin> set hs \<Longrightarrow> map (call_of (ks[h := k])) (filter (\<lambda>i. due now (ks[h := k] ! i)) hs) =
     map (call_of ks) (filter (\<lambda>i. due now (ks ! i)) hs)"
  by (induction hs) (auto simp: call_of_def)

lemma poll_loop_log:
  assumes "this < length (s_Timer s)" "s_Timer s ! this = t" "m_KernelTimer t = ks"
    and "distinct hs" "set hs \<subseteq> {..<length ks}"
  shows "poll_loop log_handler this hs s =
     Some (s\<lparr>s_Timer := (s_Timer s)[this := t\<lparr>m_KernelTimer := clear_due (jiffies s) hs ks\<rparr>],
             timer_state.more := timer_state.more s @
               map (call_of ks) (filter (\<lambda>h. due (jiffies s) (ks ! h)) hs)\<rparr>)"
  using assms
proof (induction hs arbitrary: s t ks)
  case Nil
  then have "t\<lparr>m_KernelTimer := ks\<rparr> = t" "(s_Timer s)[this := t] = s_Timer s" by auto
  then show ?case by simp
next
  case (Cons h hs)
  have h: "h < length ks" "h \<notin> set hs" "distinct hs" "set hs \<subseteq> {..<length ks}" using Cons.prems by auto
  show ?case
  proof (cases "due (jiffies s) (ks ! h)")
    case False
    then have "poll_slot log_handler this h s = Some s" using Cons.prems h by (auto simp: poll_slot_def)
    with False Cons.IH [OF Cons.prems(1-3) h(3,4)] show ?thesis by auto
  next
    case True
    define ks' where "ks' = ks[h := (ks ! h)\<lparr>m_pHandler := 0\<rparr>]"
    define s' where "s' = s\<lparr>s_Timer := (s_Timer s)[this := t\<lparr>m_KernelTimer := ks'\<rparr>],
        timer_state.more := timer_state.more s @ [call_of ks h]\<rparr>"
    have step: "poll_slot log_handler this h s = Some s'"
      using Cons.prems h True by (simp add: poll_slot_def log_handler_def call_of_def s'_def ks'_def)
    have "poll_loop log_handler this hs s' =
       Some (s'\<lparr>s_Timer := (s_Timer s')[this := (t\<lparr>m_KernelTimer := ks'\<rparr>)\<lparr>m_KernelTimer := clear_due (jiffies s') hs ks'\<rparr>],
             timer_state.more := timer_state.more s' @
               map (call_of ks') (filter (\<lambda>h. due (jiffies s') (ks' ! h)) hs)\<rparr>)"
      by (rule Cons.IH) (use Cons.prems h in \<open>simp_all add: s'_def ks'_def\<close>)
    with step True h(2) show ?thesis by (simp add: s'_def ks'_def calls_upd)
  qed
qed

lemma free_slot_le: "free_slot ks \<le> length ks"
  by (induction ks) auto

lemma free_slot_free: "free_slot ks < length ks \<Longrightarrow> m_pHandler (ks ! free_slot ks) = 0"
  by (induction ks) auto

lemma free_slot_full: "free_slot ks = length ks \<longleftrightarrow> (\<forall>k \<in> set ks. m_pHandler k \<noteq> 0)"
  by (induction ks) auto

lemma free_slot_replicate [simp]: "free_slot (replicate n k) = (if m_pHandler k = 0 then 0 else n)"
  by (induction n) auto

lemma timers_okD:
  assumes "timers_ok s" "this < CPU_MAX_NUM"
  shows "this < length (s_Timer s)" "length (m_KernelTimer (s_Timer s ! this)) = KERNEL_TIMERS"
  using assms by (auto simp: timers_ok_def)

lemma timers_ok_upd:
  assumes "timers_ok s" "length (m_KernelTimer t) = KERNEL_TIMERS"
  shows "timers_ok (s\<lparr>s_Timer := (s_Timer s)[i := t]\<rparr>)"
  using assms by (auto simp: timers_ok_def dest!: subsetD [OF set_update_subset_insert])

lemma poll_slot_ok:
  assumes "timers_ok s" "this < CPU_MAX_NUM" "h < KERNEL_TIMERS"
    and hnd: "\<And>p h a c s. timers_ok s \<Longrightarrow> \<exists>s'. hnd p h a c s = Some s' \<and> timers_ok s'"
  shows "\<exists>s'. poll_slot hnd this h s = Some s' \<and> timers_ok s'"
  using assms(1-3) timers_okD [OF assms(1,2)]
  by (auto simp: poll_slot_def intro!: hnd timers_ok_upd)

lemma poll_loop_ok:
  assumes "timers_ok s" "this < CPU_MAX_NUM" "set hs \<subseteq> {..<KERNEL_TIMERS}"
    and hnd: "\<And>p h a c s. timers_ok s \<Longrightarrow> \<exists>s'. hnd p h a c s = Some s' \<and> timers_ok s'"
  shows "\<exists>s'. poll_loop hnd this hs s = Some s' \<and> timers_ok s'"
  using assms(1,3)
proof (induction hs arbitrary: s)
  case (Cons h hs)
  have "\<exists>s1. poll_slot hnd this h s = Some s1 \<and> timers_ok s1"
    by (rule poll_slot_ok [OF Cons.prems(1) assms(2) _ hnd]) (use Cons.prems(2) in auto)
  then obtain s1 where "poll_slot hnd this h s = Some s1" "timers_ok s1" by blast
  with Cons show ?case by auto
qed simp

lemma elapsed_iff:
  assumes "m_nElapsesAt k = j + d" "unat d < 2 ^ 31" "n < 2 ^ 31"
  shows "elapsed (j + of_nat n) k \<longleftrightarrow> unat d \<le> n"
  using sint_diff_small [OF assms(2,3)] by (simp add: elapsed_def assms(1))

text \<open>What a successful start does.\<close>

lemma start_cases:
  assumes "timers_ok s" "this < CPU_MAX_NUM" "pHandler \<noteq> NULL"
  obtains (full) "\<forall>k \<in> set (m_KernelTimer (s_Timer s ! this)). m_pHandler k \<noteq> NULL"
      "TimerStartKernelTimer this nDelay pHandler pParam pContext s = Some (0, s)"
    | (slot) i t where "i < KERNEL_TIMERS" "t = s_Timer s ! this" "m_pHandler (m_KernelTimer t ! i) = NULL"
      "TimerStartKernelTimer this nDelay pHandler pParam pContext s =
         Some (of_nat i + 1, s\<lparr>s_Timer := (s_Timer s)[this := t\<lparr>m_KernelTimer := (m_KernelTimer t)[i :=
            \<lparr>m_pHandler = pHandler, m_nElapsesAt = jiffies s + nDelay, m_pParam = pParam, m_pContext = pContext\<rparr>]\<rparr>]\<rparr>)"
proof -
  let ?t = "s_Timer s ! this"
  let ?ks = "m_KernelTimer ?t"
  note T = timers_okD [OF assms(1,2)]
  show thesis
  proof (cases "free_slot ?ks = length ?ks")
    case True
    then have "\<forall>k \<in> set ?ks. m_pHandler k \<noteq> NULL" by (simp only: free_slot_full)
    then show thesis using full T True by (simp add: TimerStartKernelTimer_def)
  next
    case False
    then have i: "free_slot ?ks < length ?ks" using free_slot_le [of ?ks] by simp
    then show thesis using slot [of "free_slot ?ks" ?t] free_slot_free [OF i] T assms(3)
      by (simp add: TimerStartKernelTimer_def)
  qed
qed

text \<open>A whole poll with handlers that only record their calls.\<close>

lemma poll_log_eq:
  assumes "timers_ok s" "this < CPU_MAX_NUM" "t = s_Timer s ! this"
  shows "TimerPollKernelTimers log_handler this s =
     Some (s\<lparr>s_Timer := (s_Timer s)[this := t\<lparr>m_KernelTimer :=
               map (\<lambda>k. if due (jiffies s) k then k\<lparr>m_pHandler := 0\<rparr> else k) (m_KernelTimer t)\<rparr>],
             timer_state.more := timer_state.more s @
               map (call_of (m_KernelTimer t)) (filter (\<lambda>h. due (jiffies s) (m_KernelTimer t ! h)) [0..<KERNEL_TIMERS])\<rparr>)"
proof -
  note T = timers_okD [OF assms(1,2)]
  have len: "[0..<KERNEL_TIMERS] = [0..<length (m_KernelTimer t)]" using T assms(3) by simp
  show ?thesis
    unfolding TimerPollKernelTimers_def len
    using poll_loop_log [OF T(1) assms(3) [symmetric] refl, of "[0..<length (m_KernelTimer t)]"]
    by (simp add: clear_due_all lessThan_atLeast0)
qed

lemma poll_log_frame:
  assumes "timers_ok s" "this < CPU_MAX_NUM"
  shows "\<exists>s'. TimerPollKernelTimers log_handler this s = Some s' \<and> timers_ok s' \<and> jiffies s' = jiffies s \<and>
     m_nTime (s_Timer s' ! this) = m_nTime (s_Timer s ! this)"
proof -
  note T = timers_okD [OF assms]
  let ?t = "s_Timer s ! this"
  let ?t' = "?t\<lparr>m_KernelTimer := map (\<lambda>k. if due (jiffies s) k then k\<lparr>m_pHandler := 0\<rparr> else k) (m_KernelTimer ?t)\<rparr>"
  have "timers_ok (s\<lparr>s_Timer := (s_Timer s)[this := ?t']\<rparr>)"
    using T by (intro timers_ok_upd [OF assms(1)]) simp
  then show ?thesis using poll_log_eq [OF assms refl] T(1) by (simp add: timers_ok_def)
qed

section \<open>Handlers that start timers\<close>

definition timer_entry :: "nat \<Rightarrow> nat \<Rightarrow> 'a timer_state_scheme \<Rightarrow> TKernelTimer" where
  "timer_entry this i s = m_KernelTimer (s_Timer s ! this) ! i"

definition free_entry :: "nat \<Rightarrow> nat \<Rightarrow> 'a timer_state_scheme \<Rightarrow> 'a timer_state_scheme" where
  "free_entry this i s = s\<lparr>s_Timer := (s_Timer s)[this := (s_Timer s ! this)\<lparr>m_KernelTimer :=
     (m_KernelTimer (s_Timer s ! this))[i := (timer_entry this i s)\<lparr>m_pHandler := 0\<rparr>]\<rparr>]\<rparr>"

lemma free_slot_first: "h < length ks \<Longrightarrow> m_pHandler (ks ! h) = 0 \<Longrightarrow> free_slot ks \<le> h"
proof (induction ks arbitrary: h)
  case (Cons k ks)
  then show ?case by (cases h) auto
qed simp

lemma start_first:
  assumes "timers_ok s" "this < CPU_MAX_NUM" "h < KERNEL_TIMERS" "m_pHandler (timer_entry this h s) = NULL" "p \<noteq> NULL"
  obtains i ts where "i \<le> h" "TimerStartKernelTimer this d p a c s = Some (of_nat i + 1, s\<lparr>s_Timer := ts\<rparr>)" "timers_ok (s\<lparr>s_Timer := ts\<rparr>)"
    "m_pHandler (timer_entry this i s) = NULL" "\<And>j. j \<noteq> i \<Longrightarrow> timer_entry this j (s\<lparr>s_Timer := ts\<rparr>) = timer_entry this j s"
    "timer_entry this i (s\<lparr>s_Timer := ts\<rparr>) = \<lparr>m_pHandler = p, m_nElapsesAt = jiffies s + d, m_pParam = a, m_pContext = c\<rparr>"
proof -
  note T = timers_okD [OF assms(1,2)]
  let ?t = "s_Timer s ! this"
  let ?i = "free_slot (m_KernelTimer ?t)"
  let ?k = "\<lparr>m_pHandler = p, m_nElapsesAt = jiffies s + d, m_pParam = a, m_pContext = c\<rparr>"
  let ?ts = "(s_Timer s)[this := ?t\<lparr>m_KernelTimer := (m_KernelTimer ?t)[?i := ?k]\<rparr>]"
  have i: "?i \<le> h" using free_slot_first [of h "m_KernelTimer ?t"] assms(3,4) T by (simp add: timer_entry_def)
  then have lt: "?i < length (m_KernelTimer ?t)" using assms(3) T by simp
  show thesis
  proof (rule that [of ?i ?ts])
    show "TimerStartKernelTimer this d p a c s = Some (of_nat ?i + 1, s\<lparr>s_Timer := ?ts\<rparr>)"
      using i lt T assms(3,5) by (simp add: TimerStartKernelTimer_def)
    show "timers_ok (s\<lparr>s_Timer := ?ts\<rparr>)" using T by (intro timers_ok_upd [OF assms(1)]) simp
  qed (use i lt T free_slot_free [OF lt] in \<open>simp_all add: timer_entry_def\<close>)
qed

text \<open>The calls of the timers \<open>hs\<close> of the table \<open>ks\<close>, one after the other, each with its entry freed.\<close>

primrec fire :: "'a handler \<Rightarrow> nat \<Rightarrow> TKernelTimer list \<Rightarrow> nat list \<Rightarrow> 'a timer_state_scheme \<Rightarrow> 'a timer_state_scheme option" where
  "fire hnd this ks [] s = Some s"
| "fire hnd this ks (h # hs) s = do {
     s \<leftarrow> hnd (m_pHandler (ks ! h)) (of_nat h + 1) (m_pParam (ks ! h)) (m_pContext (ks ! h)) (free_entry this h s);
     fire hnd this ks hs s }"

text \<open>What a poll relies on: a handler returns, does not advance the clock and leaves the timers that run alone. It may start timers;
  behind the entry that has fired only such as are not due yet.\<close>

definition entries_kept :: "nat \<Rightarrow> nat \<Rightarrow> 'a timer_state_scheme \<Rightarrow> 'a timer_state_scheme \<Rightarrow> bool" where
  "entries_kept this h s s' \<longleftrightarrow> (\<forall>i<KERNEL_TIMERS. if m_pHandler (timer_entry this i s) \<noteq> NULL then timer_entry this i s' = timer_entry this i s
     else h < i \<longrightarrow> \<not> due (jiffies s) (timer_entry this i s'))"

locale timer_handler =
  fixes hnd :: "'a handler" and this :: nat and good :: "'a timer_state_scheme \<Rightarrow> bool"
  assumes good_timers: "good s \<Longrightarrow> timers_ok s \<and> this < CPU_MAX_NUM"
    and good_free: "good s \<Longrightarrow> h < KERNEL_TIMERS \<Longrightarrow> good (free_entry this h s)"
    and call: "good s \<Longrightarrow> h < KERNEL_TIMERS \<Longrightarrow> m_pHandler (timer_entry this h s) = NULL \<Longrightarrow>
      \<exists>s'. hnd p (of_nat h + 1) a c s = Some s' \<and> good s' \<and> jiffies s' = jiffies s \<and> entries_kept this h s s'"
begin

lemma entry_free:
  assumes "good s" "h < KERNEL_TIMERS"
  shows "timer_entry this i (free_entry this h s) = (if i = h then (timer_entry this h s)\<lparr>m_pHandler := 0\<rparr> else timer_entry this i s)"
    "jiffies (free_entry this h s) = jiffies s"
proof -
  note T = timers_okD [of s this]
  show "timer_entry this i (free_entry this h s) = (if i = h then (timer_entry this h s)\<lparr>m_pHandler := 0\<rparr> else timer_entry this i s)"
    using T good_timers [OF assms(1)] assms(2) by (simp add: timer_entry_def free_entry_def nth_list_update)
  show "jiffies (free_entry this h s) = jiffies s" by (simp add: free_entry_def)
qed

lemma slot_fires:
  assumes "good s" "h < KERNEL_TIMERS"
  shows "poll_slot hnd this h s = (let k = timer_entry this h s in if due (jiffies s) k
     then hnd (m_pHandler k) (of_nat h + 1) (m_pParam k) (m_pContext k) (free_entry this h s) else Some s)"
  using timers_okD [of s this] good_timers [OF assms(1)] assms(2) by (simp add: poll_slot_def Let_def timer_entry_def free_entry_def)

lemma poll_loop_fires:
  assumes "good s" "sorted_wrt (<) hs" "set hs \<subseteq> {..<KERNEL_TIMERS}" "jiffies s = now"
    and "\<forall>i \<in> set hs. if due now (ks ! i) then timer_entry this i s = ks ! i else \<not> due now (timer_entry this i s)"
  shows "\<exists>s'. poll_loop hnd this hs s = Some s' \<and> fire hnd this ks (filter (\<lambda>h. due now (ks ! h)) hs) s = Some s' \<and> good s' \<and> jiffies s' = now \<and>
     (\<forall>i<KERNEL_TIMERS. m_pHandler (timer_entry this i s) \<noteq> NULL \<and> (i \<in> set hs \<longrightarrow> \<not> due now (ks ! i)) \<longrightarrow> timer_entry this i s' = timer_entry this i s)"
  using assms
proof (induction hs arbitrary: s)
  case Nil
  then show ?case by simp
next
  case (Cons h hs)
  have h: "h < KERNEL_TIMERS" "\<forall>i \<in> set hs. h < i" "sorted_wrt (<) hs" "set hs \<subseteq> {..<KERNEL_TIMERS}" using Cons.prems(2,3) by auto
  show ?case
  proof (cases "due now (ks ! h)")
    case False
    then have "poll_slot hnd this h s = Some s" using slot_fires [OF Cons.prems(1) h(1)] Cons.prems(4,5) by (auto simp: Let_def)
    then show ?thesis using Cons.IH [OF Cons.prems(1) h(3,4) Cons.prems(4)] Cons.prems(5) False by auto
  next
    case True
    let ?s0 = "free_entry this h s"
    have e: "timer_entry this h s = ks ! h" using Cons.prems(5) True by simp
    note E = entry_free [OF Cons.prems(1) h(1)]
    obtain s1 where c: "hnd (m_pHandler (ks ! h)) (of_nat h + 1) (m_pParam (ks ! h)) (m_pContext (ks ! h)) ?s0 = Some s1"
      "good s1" "jiffies s1 = now" "entries_kept this h ?s0 s1"
      using call [OF good_free [OF Cons.prems(1) h(1)] h(1), of "m_pHandler (ks ! h)" "m_pParam (ks ! h)" "m_pContext (ks ! h)"] E(1) [of h] E(2) Cons.prems(4)
      by auto
    have p: "poll_slot hnd this h s = Some s1"
      using slot_fires [OF Cons.prems(1) h(1)] True e c(1) Cons.prems(4) by (simp add: Let_def)
    have k: "timer_entry this i s1 = timer_entry this i s" if "i < KERNEL_TIMERS" "i \<noteq> h" "m_pHandler (timer_entry this i s) \<noteq> NULL" for i
      using c(4) that E(1) [of i] unfolding entries_kept_def by simp
    have n: "\<not> due now (timer_entry this i s1)" if "i < KERNEL_TIMERS" "h < i" "\<not> due now (timer_entry this i s)" for i
      using c(4) that E Cons.prems(4) unfolding entries_kept_def by (cases "m_pHandler (timer_entry this i s) = NULL") (auto dest!: spec [of _ i])
    have "if due now (ks ! i) then timer_entry this i s1 = ks ! i else \<not> due now (timer_entry this i s1)" if "i \<in> set hs" for i
    proof -
      have i: "i < KERNEL_TIMERS" "h < i" using that h by auto
      have "if due now (ks ! i) then timer_entry this i s = ks ! i else \<not> due now (timer_entry this i s)" using Cons.prems(5) that by simp
      then show ?thesis using k [of i] n [of i] i by (auto split: if_splits)
    qed
    then obtain s' where s': "poll_loop hnd this hs s1 = Some s'" "fire hnd this ks (filter (\<lambda>h. due now (ks ! h)) hs) s1 = Some s'" "good s'" "jiffies s' = now"
      "\<forall>i<KERNEL_TIMERS. m_pHandler (timer_entry this i s1) \<noteq> NULL \<and> (i \<in> set hs \<longrightarrow> \<not> due now (ks ! i)) \<longrightarrow> timer_entry this i s' = timer_entry this i s1"
      using Cons.IH [OF c(2) h(3,4) c(3)] by blast
    have "timer_entry this i s' = timer_entry this i s"
      if "i < KERNEL_TIMERS" "m_pHandler (timer_entry this i s) \<noteq> NULL" "i \<in> set (h # hs) \<longrightarrow> \<not> due now (ks ! i)" for i
    proof -
      have "i \<noteq> h" using that(3) True by auto
      then show ?thesis using k [OF that(1) _ that(2)] s'(5) that by auto
    qed
    then show ?thesis using p c(1) s'(1-4) True by auto
  qed
qed

lemma poll_fires:
  assumes "good s" "ks = m_KernelTimer (s_Timer s ! this)"
  shows "\<exists>s'. TimerPollKernelTimers hnd this s = Some s' \<and> fire hnd this ks (filter (\<lambda>h. due (jiffies s) (ks ! h)) [0..<KERNEL_TIMERS]) s = Some s' \<and>
     good s' \<and> jiffies s' = jiffies s \<and> (\<forall>i<KERNEL_TIMERS. m_pHandler (ks ! i) \<noteq> NULL \<and> \<not> due (jiffies s) (ks ! i) \<longrightarrow> timer_entry this i s' = ks ! i)"
proof -
  have e: "timer_entry this i s = ks ! i" for i by (simp add: timer_entry_def assms(2))
  have "set [0..<KERNEL_TIMERS] \<subseteq> {..<KERNEL_TIMERS}" by auto
  from poll_loop_fires [OF assms(1) _ this refl, of ks] show ?thesis
    unfolding TimerPollKernelTimers_def e by auto
qed

end

section \<open>Properties\<close>

definition timers_boot :: "call list timer_state_ext" where
  "timers_boot = \<lparr>jiffies = 0xFFFFFFF0, s_Timer = replicate CPU_MAX_NUM timer_zero, \<dots> = []\<rparr>"

lemma timers_boot_ok: "timers_ok timers_boot"
  by (simp add: timers_ok_def timers_boot_def timer_zero_def)

text \<open>C5: a timer fires on time, also across the wrap-around of the 32-bit counter. When starting a
  timer with a delay below \<open>2^31\<close> returns the handle \<open>h\<close>, a poll \<open>n < 2^31\<close> ticks later calls the handler
  with that handle exactly if \<open>n\<close> has reached the delay.\<close>

theorem timer_fires_on_time:
  assumes ok: "timers_ok s" and cpu: "this < CPU_MAX_NUM" and p: "p \<noteq> NULL"
    and st: "TimerStartKernelTimer this d p a c s = Some (h, s1)" "h \<noteq> 0"
    and d: "unat d < 2 ^ 31" and n: "n < 2 ^ 31" and log: "timer_state.more s = []"
  shows "\<exists>s2. TimerPollKernelTimers log_handler this (s1\<lparr>jiffies := jiffies s1 + of_nat n\<rparr>) = Some s2 \<and>
     ((\<exists>q a' c'. (q, h, a', c') \<in> set (timer_state.more s2)) \<longleftrightarrow> unat d \<le> n) \<and>
     (unat d \<le> n \<longrightarrow> (p, h, a, c) \<in> set (timer_state.more s2))"
proof -
  note T = timers_okD [OF ok cpu]
  from ok cpu p show ?thesis
  proof (cases rule: start_cases [where nDelay = d and pParam = a and pContext = c])
    case full
    with st show ?thesis by simp
  next
    case (slot i t)
    let ?new = "\<lparr>m_pHandler = p, m_nElapsesAt = jiffies s + d, m_pParam = a, m_pContext = c\<rparr>"
    define ks where "ks = (m_KernelTimer t)[i := ?new]"
    define s2 where "s2 = s1\<lparr>jiffies := jiffies s1 + of_nat n\<rparr>"
    have h: "h = of_nat i + 1" and s1: "s1 = s\<lparr>s_Timer := (s_Timer s)[this := t\<lparr>m_KernelTimer := ks\<rparr>]\<rparr>"
      using slot(4) st(1) by (simp_all add: ks_def)
    have len: "length ks = KERNEL_TIMERS" using T slot(2) by (simp add: ks_def)
    have ok2: "timers_ok s2"
      using timers_ok_upd [OF ok, of "t\<lparr>m_KernelTimer := ks\<rparr>" this] len by (simp add: s2_def s1 timers_ok_def)
    have tab: "m_KernelTimer (s_Timer s2 ! this) = ks" using T by (simp add: s2_def s1)
    let ?calls = "map (call_of ks) (filter (\<lambda>h. due (jiffies s2) (ks ! h)) [0..<KERNEL_TIMERS])"
    obtain s3 where s3: "TimerPollKernelTimers log_handler this s2 = Some s3" "timer_state.more s3 = ?calls"
      using poll_log_eq [OF ok2 cpu refl] log by (simp add: tab) (simp add: s2_def s1)
    have ki: "ks ! i = ?new" using slot(1) len by (simp add: ks_def)
    have "elapsed (jiffies s2) ?new \<longleftrightarrow> unat d \<le> n"
      using elapsed_iff [of ?new "jiffies s" d n] d n by (simp add: s2_def s1)
    then have fire: "due (jiffies s2) (ks ! i) \<longleftrightarrow> unat d \<le> n" using p ki by simp
    have "j = i" if "call_of ks j = (q, h, a', c')" "j < KERNEL_TIMERS" for j q a' c'
    proof -
      have "(of_nat j :: u32) = of_nat i" using that by (simp add: call_of_def h)
      then have "unat (of_nat j :: u32) = unat (of_nat i :: u32)" by simp
      then show "j = i" using that(2) slot(1) by (simp add: unat_of_nat_small KERNEL_TIMERS_def)
    qed
    then have "(\<exists>q a' c'. (q, h, a', c') \<in> set ?calls) \<longleftrightarrow> unat d \<le> n"
      using fire slot(1) h by (fastforce simp: call_of_def)
    moreover have "(p, h, a, c) \<in> set ?calls" if "unat d \<le> n"
      using that fire slot(1) h ki by (auto simp: call_of_def image_iff intro!: bexI [of _ i])
    ultimately show ?thesis
      unfolding s2_def [symmetric] using s3(1) by (intro exI [of _ s3] conjI impI) (simp_all only: s3(2))
  qed
qed

lemma timer_fires_boot_start:
  "\<exists>s1. TimerStartKernelTimer 2 100 0x8000 7 8 timers_boot = Some (1, s1)"
  by (simp add: TimerStartKernelTimer_def timers_boot_def CPU_MAX_NUM_def timer_zero_def kernel_timer_zero_def
      KERNEL_TIMERS_def)

theorem timer_fires_on_time_witness:
  "\<exists>s1. TimerStartKernelTimer 2 100 0x8000 7 8 timers_boot = Some (1, s1) \<and>
     (\<exists>s2. TimerPollKernelTimers log_handler 2 (s1\<lparr>jiffies := jiffies s1 + of_nat 100\<rparr>) = Some s2 \<and>
        (0x8000, 1, 7, 8) \<in> set (timer_state.more s2))"
proof -
  obtain s1 where s1: "TimerStartKernelTimer 2 100 0x8000 7 8 timers_boot = Some (1, s1)"
    using timer_fires_boot_start by blast
  have "2 < CPU_MAX_NUM" "timer_state.more timers_boot = []" by (simp_all add: CPU_MAX_NUM_def timers_boot_def)
  then show ?thesis
    using timer_fires_on_time [OF timers_boot_ok _ _ s1, of 100] s1 by auto
qed

text \<open>a start fails, returning 0 and changing nothing, only when all entries are in use;
  otherwise the returned handle is between 1 and \<open>KERNEL_TIMERS\<close>, names an entry that was free, and
  cancelling it gives back a table in which the same entries are in use as before.\<close>

lemma start_cancel_timer:
  assumes "timers_ok s" "this < CPU_MAX_NUM" "p \<noteq> NULL"
    and "TimerStartKernelTimer this d p a c s = Some (h, s1)"
  shows "if \<forall>k \<in> set (m_KernelTimer (s_Timer s ! this)). m_pHandler k \<noteq> NULL then h = 0 \<and> s1 = s
     else 1 \<le> unat h \<and> unat h \<le> KERNEL_TIMERS \<and>
       (\<exists>s2. TimerCancelKernelTimer this h s1 = Some s2 \<and>
          map m_pHandler (m_KernelTimer (s_Timer s2 ! this)) = map m_pHandler (m_KernelTimer (s_Timer s ! this)) \<and>
          (\<forall>o'. o' \<noteq> this \<longrightarrow> s_Timer s2 ! o' = s_Timer s ! o'))"
  using assms(1-3)
proof (cases rule: start_cases [where nDelay = d and pParam = a and pContext = c])
  case full
  with assms(4) show ?thesis by simp
next
  case (slot i t)
  note T = timers_okD [OF assms(1,2)]
  let ?ks = "m_KernelTimer t"
  have len: "length ?ks = KERNEL_TIMERS" using T slot(2) by simp
  then have not: "\<not> (\<forall>k \<in> set (m_KernelTimer (s_Timer s ! this)). m_pHandler k \<noteq> NULL)"
    using slot(1-3) by (metis nth_mem)
  have i20: "i < 20" using slot(1) by (simp add: KERNEL_TIMERS_def)
  have h: "h = of_nat i + 1" using slot(4) assms(4) by simp
  have ui: "unat (of_nat i :: u32) = i" using i20 by (simp add: unat_of_nat_small)
  have uh: "unat h = i + 1" "h - 1 = of_nat i"
    unfolding h using i20 ui by (simp_all add: unat_add_no_wrap)
  have m: "map m_pHandler (?ks[i := k]) = map m_pHandler ?ks" if "m_pHandler k = NULL" for k
    using slot(1,3) len that by (intro nth_equalityI) (auto simp: nth_list_update)
  have "\<exists>s2. TimerCancelKernelTimer this h s1 = Some s2 \<and>
          map m_pHandler (m_KernelTimer (s_Timer s2 ! this)) = map m_pHandler ?ks \<and>
          (\<forall>o'. o' \<noteq> this \<longrightarrow> s_Timer s2 ! o' = s_Timer s ! o')"
    using slot T uh ui len assms(4) m by (auto simp: TimerCancelKernelTimer_def)
  then show ?thesis using not slot(1,2) uh by auto
qed

text \<open>\<open>n\<close> timer interrupts in a row on processor 0.\<close>

primrec run_ticks :: "'a handler \<Rightarrow> nat \<Rightarrow> 'a timer_state_scheme \<Rightarrow> 'a timer_state_scheme option" where
  "run_ticks hnd 0 s = Some s"
| "run_ticks hnd (Suc n) s = do { s \<leftarrow> run_ticks hnd n s; TimerInterruptHandler hnd 0 0 s }"

lemma of_nat_mod_HZ:
  assumes "n < 2 ^ 32"
  shows "(of_nat n :: u32) mod HZ = 0 \<longleftrightarrow> n mod 1000 = 0"
  using assms by (simp add: word_unat_eq_iff unat_mod unat_of_nat_small HZ_def)

lemma div_1000_Suc: "Suc n div 1000 = (if Suc n mod 1000 = 0 then Suc (n div 1000) else n div 1000)"
  by (simp add: div_Suc)

text \<open>the clock counts seconds. After \<open>n < 2^32\<close> timer interrupts on the processor that keeps the
  time, \<open>jiffies\<close> is \<open>n\<close> and \<open>TimerGetTime\<close> returns \<open>n div 1000\<close> (with \<open>HZ = 1000\<close>).\<close>

lemma seconds_count:
  assumes "n < 2 ^ 32" "timers_ok s" "jiffies s = 0" "m_nTime (s_Timer s ! 0) = 0"
  shows "\<exists>s'. run_ticks log_handler n s = Some s' \<and> TimerGetTicks s' = of_nat n \<and>
     TimerGetTime 0 s' = Some (of_nat (n div 1000))"
proof -
  have cpu: "0 < CPU_MAX_NUM" by (simp add: CPU_MAX_NUM_def)
  have "\<exists>s'. run_ticks log_handler n s = Some s' \<and> timers_ok s' \<and> jiffies s' = of_nat n \<and>
     m_nTime (s_Timer s' ! 0) = of_nat (n div 1000)"
    using assms(1)
  proof (induction n)
    case 0
    then show ?case using assms by simp
  next
    case (Suc n)
    then obtain s1 where s1: "run_ticks log_handler n s = Some s1" "timers_ok s1" "jiffies s1 = of_nat n"
      "m_nTime (s_Timer s1 ! 0) = of_nat (n div 1000)" by auto
    note T = timers_okD [OF s1(2) cpu]
    define t where "t = s_Timer s1 ! 0"
    define s2 where "s2 = (if Suc n mod 1000 = 0
       then s1\<lparr>jiffies := of_nat (Suc n), s_Timer := (s_Timer s1)[0 := t\<lparr>m_nTime := m_nTime t + 1\<rparr>]\<rparr>
       else s1\<lparr>jiffies := of_nat (Suc n)\<rparr>)"
    have z: "(of_nat (Suc n) :: u32) mod HZ = 0 \<longleftrightarrow> Suc n mod 1000 = 0"
      using Suc.prems by (rule of_nat_mod_HZ)
    have j: "jiffies s1 + 1 = of_nat (Suc n)" using s1(3) by simp
    have step: "TimerInterruptHandler log_handler 0 0 s1 = TimerPollKernelTimers log_handler 0 s2"
      using T unfolding TimerInterruptHandler_def s2_def t_def
      by (simp add: DO_TICK_CPU_def j z del: of_nat_Suc)
    have s2: "timers_ok s2" "jiffies s2 = of_nat (Suc n)" "m_nTime (s_Timer s2 ! 0) = of_nat (Suc n div 1000)"
      using s1 T timers_ok_upd [OF s1(2), of "t\<lparr>m_nTime := m_nTime t + 1\<rparr>" 0]
      by (auto simp: s2_def t_def timers_ok_def div_1000_Suc simp del: of_nat_Suc) (simp_all add: add.commute)
    obtain s3 where "TimerPollKernelTimers log_handler 0 s2 = Some s3" "timers_ok s3" "jiffies s3 = jiffies s2"
      "m_nTime (s_Timer s3 ! 0) = m_nTime (s_Timer s2 ! 0)"
      using poll_log_frame [OF s2(1) cpu] by blast
    with s1(1) step s2 show ?case by (simp del: of_nat_Suc)
  qed
  then show ?thesis
    using cpu by (auto simp: TimerGetTicks_def TimerGetTime_def dest: timers_okD(1))
qed

definition timers_zero :: "call list timer_state_ext" where
  "timers_zero = \<lparr>jiffies = 0, s_Timer = replicate CPU_MAX_NUM timer_zero, \<dots> = []\<rparr>"

text \<open>constructing the timer of one processor wipes the timers of all of them: \<open>Timer\<close> clears the
  whole array before it sets up its own entry, so a timer that processor 0 has started is lost when
  processor 3 comes up.\<close>

lemma timer_init_clears_all:
  "\<exists>s'. Timer 3 s = Some s' \<and>
     s_Timer s' ! 0 = timer_zero \<and> s_Timer s' ! 1 = timer_zero \<and> s_Timer s' ! 2 = timer_zero"
  by (simp add: Timer_def TimerGet_def CPU_MAX_NUM_def)

text \<open>\<open>msleep\<close> returns, and not too early. When the readings of the counter are \<open>f 0 = 0, f 1, ...\<close>
  ticks after the call, all below \<open>2^31\<close>, it returns after the first reading that has reached the delay,
  also when the counter wraps round.\<close>

lemma msleep_returns:
  assumes "unat d < 2 ^ 31" "\<forall>k \<le> i. f k < (2::nat) ^ 31" "f 0 = 0"
    and "1 \<le> i" "unat d \<le> f i" "\<forall>k. 1 \<le> k \<and> k < i \<longrightarrow> f k < unat d"
  shows "msleep (\<lambda>k. j + of_nat (f k)) d = Some (Suc i)"
proof -
  have before: "time_before (j + of_nat (f k)) (j + d) \<longleftrightarrow> f k < unat d" if "k \<le> i" for k
  proof -
    have fk: "f k < 2 ^ 31" using assms(2) that by blast
    have u: "unat (of_nat (f k) :: u32) = f k" using fk by (intro unat_of_nat_small) simp
    have "unat (of_nat (f k) - d) = (if unat d \<le> f k then f k - unat d else f k + 2 ^ 32 - unat d)"
      by (simp add: unat_sub_if' u)
    then show ?thesis
      using fk assms(1) by (auto simp: time_before_def time_after_def sint_less_0_iff)
  qed
  have "msleep_loop (\<lambda>k. j + of_nat (f k)) (j + d) k = Some (Suc i)" if "1 \<le> k" "k \<le> i" for k
    using that
  proof (induction "i - k" arbitrary: k)
    case 0
    then show ?case using assms(5) before [of i] by (subst msleep_loop.simps) simp
  next
    case (Suc m)
    then have "msleep_loop (\<lambda>k. j + of_nat (f k)) (j + d) (Suc k) = Some (Suc i)" by simp
    moreover have "f k < unat d" using assms(6) Suc.hyps(2) Suc.prems by simp
    ultimately show ?case using before [of k] Suc.prems by (subst msleep_loop.simps) simp
  qed
  from this [of 1] assms(3,4) show ?thesis by (simp add: msleep_def)
qed

end
