(* ===== verification/Sched.thy ===== *)
theory Sched
  imports Alloc Timer
begin

text \<open>
  Tasks and their scheduling: \<^verbatim>\<open>env/lib/task.c\<close>, \<^verbatim>\<open>env/lib/scheduler.c\<close>,
  \<^verbatim>\<open>env/lib/taskswitchinterrupt.c\<close> and \<^verbatim>\<open>env/lib/timeslicetimerhandler.c\<close>. The state extends the
  timers by the heap and by stores for the \<open>TTask\<close> and \<open>TScheduler\<close> structures, which are reached by
  address. The processor that executes an operation is its argument \<open>cpu\<close>.

  What the sources do not determine is passed in: the address of \<open>TaskTaskEntry\<close> and the value of the
  status register (\<open>entry\<close>, \<open>cpsr\<close>), the effect of a derived class's \<open>delete\<close> (\<open>virt\<close>), and the
  readings of the tick counter, which another processor advances while this one looks for a task:
  \<open>now l\<close> is the reading at level \<open>l\<close> of one search.
\<close>

section \<open>Data\<close>

definition MAX_TASKS :: u32 where "MAX_TASKS = 20"
definition MAX_TASK_LEVELS :: u32 where "MAX_TASK_LEVELS = 10"
definition MAIN_TASK_LEVEL :: u32 where "MAIN_TASK_LEVEL = 8"
definition TASK_STACK_SIZE :: u32 where "TASK_STACK_SIZE = 0x4000"
definition MIN_STACK_SIZE :: u32 where "MIN_STACK_SIZE = 1024"
definition STACK_ALIGN_MASK :: u32 where "STACK_ALIGN_MASK = 3"
definition sizeof_TTask :: u32 where "sizeof_TTask = 144"
definition sizeof_TScheduler :: u32 where "sizeof_TScheduler = 892"

datatype TTaskState =
  TaskStateReady | TaskStateBlocked | TaskStateSleeping | TaskStateTerminated | TaskStateUnknown

record TTaskRegisters =
  r0 :: u32  r1 :: u32  r2 :: u32  r3 :: u32  r4 :: u32  r5 :: u32  r6 :: u32  r7 :: u32
  r8 :: u32  r9 :: u32  r10 :: u32  r11 :: u32  r12 :: u32
  pc :: u32  sp :: u32  lr :: u32  spsr :: u32

text \<open>The values of the function pointers of a task.\<close>

datatype task_fn = TaskRun_fn | delete_Task_fn | derived_fn nat

record TTask =
  m_derivedObj :: ptr
  Run :: task_fn
  delete :: task_fn
  m_State :: TTaskState
  m_nWakeTicks :: u32
  m_Regs :: TTaskRegisters
  m_nStackSize :: u32
  m_pStack :: ptr
  mPriority :: u32
  mLevel :: u32

record TScheduler =
  m_pTask :: "ptr list list"
  m_nTasks :: "u32 list"
  m_nLevelCurrent :: "u32 list"
  m_pCurrent :: ptr
  m_nCurrentLevel :: u32
  m_nCurrent :: u32

record kernel = timer_state +
  heap :: alloc_state
  task :: "ptr \<Rightarrow> TTask"
  sched :: "ptr \<Rightarrow> TScheduler"
  g_pScheduler :: "ptr list"
  g_nSchedulerTimer :: "u32 list"
  irq :: "bool list"

type_synonym virt_delete = "nat \<Rightarrow> ptr \<Rightarrow> kernel \<Rightarrow> kernel option"

definition kmalloc :: "u32 \<Rightarrow> kernel \<Rightarrow> ptr \<times> kernel" where
  "kmalloc n s = (let (p, h) = malloc n (heap s) in (p, s\<lparr>heap := h\<rparr>))"

definition kfree :: "ptr \<Rightarrow> kernel \<Rightarrow> kernel" where
  "kfree p s = s\<lparr>heap := free p (heap s)\<rparr>"

definition upd_task :: "ptr \<Rightarrow> (TTask \<Rightarrow> TTask) \<Rightarrow> kernel \<Rightarrow> kernel" where
  "upd_task p f s = s\<lparr>task := (task s)(p := f (task s p))\<rparr>"

definition upd_sched :: "ptr \<Rightarrow> (TScheduler \<Rightarrow> TScheduler) \<Rightarrow> kernel \<Rightarrow> kernel" where
  "upd_sched p f s = s\<lparr>sched := (sched s)(p := f (sched s p))\<rparr>"

section \<open>Task accessors\<close>

definition TaskGetState :: "ptr \<Rightarrow> kernel \<Rightarrow> TTaskState" where
  "TaskGetState p s = (if p = NULL then TaskStateUnknown else m_State (task s p))"

definition TaskSetState :: "ptr \<Rightarrow> TTaskState \<Rightarrow> kernel \<Rightarrow> kernel" where
  "TaskSetState p st s = (if p = NULL then s else upd_task p (m_State_update (\<lambda>_. st)) s)"

definition TaskGetWakeTicks :: "ptr \<Rightarrow> kernel \<Rightarrow> u32" where
  "TaskGetWakeTicks p s = (if p = NULL then 0 else m_nWakeTicks (task s p))"

definition TaskSetWakeTicks :: "ptr \<Rightarrow> u32 \<Rightarrow> kernel \<Rightarrow> kernel" where
  "TaskSetWakeTicks p n s = (if p = NULL then s else upd_task p (m_nWakeTicks_update (\<lambda>_. n)) s)"

text \<open>The address of a task's registers is the address of the task and \<^term>\<open>None\<close> is \<open>NULL\<close>.\<close>

definition TaskGetRegs :: "ptr \<Rightarrow> ptr option" where
  "TaskGetRegs p = (if p = NULL then None else Some p)"

section \<open>The scheduler's tables\<close>

definition ScheduerGet :: "nat \<Rightarrow> kernel \<Rightarrow> ptr option" where
  "ScheduerGet cpu s = do {
     assert (cpu \<le> CPU_MAX_NUM);
     p \<leftarrow> rd (g_pScheduler s) cpu;
     assert (p \<noteq> NULL);
     Some p }"

definition setSchedulerTimer :: "nat \<Rightarrow> u32 \<Rightarrow> kernel \<Rightarrow> kernel option" where
  "setSchedulerTimer cpu timer s = do {
     assert (cpu \<le> CPU_MAX_NUM);
     ts \<leftarrow> wr (g_nSchedulerTimer s) cpu timer;
     Some (s\<lparr>g_nSchedulerTimer := ts\<rparr>) }"

definition getSchedulerTimer :: "nat \<Rightarrow> kernel \<Rightarrow> u32 option" where
  "getSchedulerTimer cpu s = do {
     assert (cpu \<le> CPU_MAX_NUM);
     rd (g_nSchedulerTimer s) cpu }"

text \<open>The first index below \<open>n\<close> at which a row holds \<open>p\<close>.\<close>

fun find_entry :: "ptr \<Rightarrow> nat \<Rightarrow> ptr list \<Rightarrow> nat option" where
  "find_entry p 0 row = None"
| "find_entry p (Suc n) [] = None"
| "find_entry p (Suc n) (q # row) = (if q = p then Some 0 else map_option Suc (find_entry p n row))"

definition SchedulerAddTask :: "nat \<Rightarrow> ptr \<Rightarrow> kernel \<Rightarrow> kernel option" where
  "SchedulerAddTask cpu p s = do {
     assert (p \<noteq> NULL);
     l \<leftarrow> Some (mLevel (task s p));
     assert (l < MAX_TASK_LEVELS);
     ps \<leftarrow> ScheduerGet cpu s;
     sc \<leftarrow> Some (sched s ps);
     n \<leftarrow> rd (m_nTasks sc) (unat l);
     row \<leftarrow> rd (m_pTask sc) (unat l);
     (case find_entry NULL (unat n) row of
        Some i \<Rightarrow> do {
          row \<leftarrow> wr row i p;
          Some (upd_sched ps (\<lambda>sc. sc\<lparr>m_pTask := (m_pTask sc)[unat l := row]\<rparr>) s) }
      | None \<Rightarrow> do {
          row \<leftarrow> wr row (unat n) p;
          Some (upd_sched ps (\<lambda>sc. sc\<lparr>m_pTask := (m_pTask sc)[unat l := row],
                                     m_nTasks := (m_nTasks sc)[unat l := n + 1]\<rparr>) s) }) }"

definition SchedulerRemoveTask :: "nat \<Rightarrow> ptr \<Rightarrow> kernel \<Rightarrow> kernel option" where
  "SchedulerRemoveTask cpu p s = do {
     assert (p \<noteq> NULL);
     l \<leftarrow> Some (mLevel (task s p));
     assert (l < MAX_TASK_LEVELS);
     ps \<leftarrow> ScheduerGet cpu s;
     sc \<leftarrow> Some (sched s ps);
     n \<leftarrow> rd (m_nTasks sc) (unat l);
     row \<leftarrow> rd (m_pTask sc) (unat l);
     (case find_entry p (unat n) row of
        Some i \<Rightarrow> do {
          row \<leftarrow> wr row i NULL;
          ns \<leftarrow> Some (if of_nat i = n - 1 then (m_nTasks sc)[unat l := n - 1] else m_nTasks sc);
          Some (upd_sched ps (\<lambda>sc. sc\<lparr>m_pTask := (m_pTask sc)[unat l := row], m_nTasks := ns\<rparr>) s) }
      | None \<Rightarrow> None) }"

section \<open>Creating and deleting tasks\<close>

definition regs_zero :: TTaskRegisters where
  "regs_zero = \<lparr>r0 = 0, r1 = 0, r2 = 0, r3 = 0, r4 = 0, r5 = 0, r6 = 0, r7 = 0, r8 = 0, r9 = 0, r10 = 0,
     r11 = 0, r12 = 0, pc = 0, sp = 0, lr = 0, spsr = 0\<rparr>"

definition TaskInitializeRegs :: "u32 \<Rightarrow> u32 \<Rightarrow> ptr \<Rightarrow> kernel \<Rightarrow> kernel option" where
  "TaskInitializeRegs entry cpsr p s =
     (if p = NULL then Some s
      else do {
        t \<leftarrow> Some (task s p);
        assert (m_pStack t \<noteq> 0);
        Some (upd_task p (m_Regs_update (\<lambda>_. regs_zero\<lparr>r0 := p, sp := m_pStack t + m_nStackSize t,
                lr := entry, pc := entry, spsr := cpsr\<rparr>)) s) })"

definition new_Task :: "u32 \<Rightarrow> u32 \<Rightarrow> nat \<Rightarrow> u32 \<Rightarrow> u32 \<Rightarrow> kernel \<Rightarrow> (ptr \<times> kernel) option" where
  "new_Task entry cpsr cpu nStackSize nLevel s =
     (let (p, s) = kmalloc sizeof_TTask s in
      if p = NULL then Some (NULL, s)
      else do {
        s \<leftarrow> Some (upd_task p (\<lambda>t. t\<lparr>m_State := TaskStateReady, m_nStackSize := nStackSize, m_pStack := 0\<rparr>) s);
        r \<leftarrow> (if nStackSize \<noteq> 0 then do {
               assert (nStackSize \<ge> MIN_STACK_SIZE);
               assert (nStackSize AND STACK_ALIGN_MASK = 0);
               (let (st, s) = kmalloc nStackSize s in
                if st = NULL then Some (Inl (kfree p s))
                else map_option Inr (TaskInitializeRegs entry cpsr p
                       (upd_task p (m_pStack_update (\<lambda>_. st)) s))) }
             else Some (Inr s));
        (case r of
           Inl s \<Rightarrow> Some (NULL, s)
         | Inr s \<Rightarrow> do {
             s \<leftarrow> Some (upd_task p (\<lambda>t. t\<lparr>Run := TaskRun_fn, m_derivedObj := 0, delete := delete_Task_fn,
                     mPriority := 20, mLevel := nLevel\<rparr>) s);
             s \<leftarrow> SchedulerAddTask cpu p s;
             Some (p, s) }) })"

definition delete_Task :: "ptr \<Rightarrow> kernel \<Rightarrow> kernel option" where
  "delete_Task p s =
     (if p = NULL then Some s
      else do {
        assert (m_State (task s p) = TaskStateTerminated);
        s \<leftarrow> Some (upd_task p (m_State_update (\<lambda>_. TaskStateUnknown)) s);
        s \<leftarrow> Some (if m_pStack (task s p) \<noteq> NULL
                  then upd_task p (m_pStack_update (\<lambda>_. 0)) (kfree (m_pStack (task s p)) s) else s);
        Some (kfree p s) })"

text \<open>\<open>pTask->delete (pTask)\<close>.\<close>

definition call_delete :: "virt_delete \<Rightarrow> ptr \<Rightarrow> kernel \<Rightarrow> kernel option" where
  "call_delete virt p s =
     (case delete (task s p) of
        delete_Task_fn \<Rightarrow> delete_Task p s
      | derived_fn f \<Rightarrow> virt f p s
      | TaskRun_fn \<Rightarrow> None)"

section \<open>Choosing the next task\<close>

text \<open>The inner loop: \<open>k\<close> entries of the level are left to look at. The result is the value returned, or
  \<^term>\<open>None\<close> when the loop ends and the search goes on at the next level.\<close>

fun scan_level :: "virt_delete \<Rightarrow> nat \<Rightarrow> ptr \<Rightarrow> nat \<Rightarrow> u32 \<Rightarrow> nat \<Rightarrow> u32 \<Rightarrow> kernel \<Rightarrow> (u32 option \<times> kernel) option" where
  "scan_level virt cpu ps l nTicks 0 nTask s = Some (None, s)"
| "scan_level virt cpu ps l nTicks (Suc k) nTask0 s = do {
     n \<leftarrow> rd (m_nTasks (sched s ps)) l;
     nTask \<leftarrow> Some (if nTask0 + 1 \<ge> n then 0 else nTask0 + 1);
     row \<leftarrow> rd (m_pTask (sched s ps)) l;
     p \<leftarrow> rd row (unat nTask);
     (if p = NULL then scan_level virt cpu ps l nTicks k nTask s
      else case TaskGetState p s of
        TaskStateReady \<Rightarrow> Some (Some nTask, s)
      | TaskStateBlocked \<Rightarrow> scan_level virt cpu ps l nTicks k nTask s
      | TaskStateSleeping \<Rightarrow>
          (if sint (TaskGetWakeTicks p s - nTicks) > 0 then scan_level virt cpu ps l nTicks k nTask s
           else Some (Some nTask, TaskSetState p TaskStateReady s))
      | TaskStateTerminated \<Rightarrow> do {
          s \<leftarrow> SchedulerRemoveTask cpu p s;
          s \<leftarrow> call_delete virt p s;
          Some (Some MAX_TASKS, s) }
      | TaskStateUnknown \<Rightarrow> None) }"

text \<open>The outer loop over the levels that are left, highest first.\<close>

primrec scan_levels :: "virt_delete \<Rightarrow> (nat \<Rightarrow> u32) \<Rightarrow> nat \<Rightarrow> ptr \<Rightarrow> nat list \<Rightarrow> kernel \<Rightarrow> (u32 \<times> kernel) option" where
  "scan_levels virt now cpu ps [] s = Some (MAX_TASKS, s)"
| "scan_levels virt now cpu ps (l # ls) s = do {
     n \<leftarrow> rd (m_nTasks (sched s ps)) l;
     (if n = 0 then scan_levels virt now cpu ps ls s
      else do {
        s \<leftarrow> Some (upd_sched ps (m_nCurrentLevel_update (\<lambda>_. of_nat l)) s);
        c \<leftarrow> rd (m_nLevelCurrent (sched s ps)) l;
        nTask \<leftarrow> Some (if sint c < 20 then c else 0);
        (r, s) \<leftarrow> scan_level virt cpu ps l (now l * 1000) (unat n) nTask s;
        (case r of Some v \<Rightarrow> Some (v, s) | None \<Rightarrow> scan_levels virt now cpu ps ls s) }) }"

definition SchedulerGetNextTask :: "virt_delete \<Rightarrow> (nat \<Rightarrow> u32) \<Rightarrow> nat \<Rightarrow> kernel \<Rightarrow> (u32 \<times> kernel) option" where
  "SchedulerGetNextTask virt now cpu s = do {
     ps \<leftarrow> ScheduerGet cpu s;
     scan_levels virt now cpu ps (rev [0..<unat MAX_TASK_LEVELS]) s }"

section \<open>Switching\<close>

text \<open>The loop that waits for a task: \<open>now i\<close> are the readings of the \<open>i\<close>-th search.\<close>

partial_function (option) wait_ready ::
  "virt_delete \<Rightarrow> (nat \<Rightarrow> nat \<Rightarrow> u32) \<Rightarrow> nat \<Rightarrow> nat \<Rightarrow> kernel \<Rightarrow> kernel option" where
  "wait_ready virt now i cpu s = do {
     ps \<leftarrow> ScheduerGet cpu s;
     (n, s) \<leftarrow> SchedulerGetNextTask virt (now i) cpu s;
     s \<leftarrow> Some (upd_sched ps (m_nCurrent_update (\<lambda>_. n)) s);
     (if n = MAX_TASKS then do {
        c \<leftarrow> rd (m_nTasks (sched s ps)) (unat (m_nCurrentLevel (sched s ps)));
        assert (c > 0);
        wait_ready virt now (Suc i) cpu s }
      else Some s) }"

datatype switch = Stay | SwitchTo ptr ptr

text \<open>\<open>SchedulerYield\<close>: \<open>SwitchTo old new\<close> is the call of \<open>TaskSwitch\<close>, which leaves the function.\<close>

definition SchedulerYield ::
  "virt_delete \<Rightarrow> (nat \<Rightarrow> nat \<Rightarrow> u32) \<Rightarrow> nat \<Rightarrow> kernel \<Rightarrow> (switch \<times> kernel) option" where
  "SchedulerYield virt now cpu s = do {
     ps \<leftarrow> ScheduerGet cpu s;
     ir \<leftarrow> wr (irq s) cpu False;
     s \<leftarrow> wait_ready virt now 0 cpu (s\<lparr>irq := ir\<rparr>);
     sc \<leftarrow> Some (sched s ps);
     assert (m_nCurrentLevel sc < MAX_TASK_LEVELS);
     assert (m_nCurrent sc < MAX_TASKS);
     lc \<leftarrow> wr (m_nLevelCurrent sc) (unat (m_nCurrentLevel sc)) (m_nCurrent sc);
     s \<leftarrow> Some (upd_sched ps (m_nLevelCurrent_update (\<lambda>_. lc)) s);
     row \<leftarrow> rd (m_pTask sc) (unat (m_nCurrentLevel sc));
     pNext \<leftarrow> rd row (unat (m_nCurrent sc));
     (if pNext = NULL \<or> m_pCurrent sc = pNext then do {
        ir \<leftarrow> wr (irq s) cpu True;
        Some (Stay, s\<lparr>irq := ir\<rparr>) }
      else do {
        pOldRegs \<leftarrow> TaskGetRegs (m_pCurrent sc);
        s \<leftarrow> Some (upd_sched ps (m_pCurrent_update (\<lambda>_. pNext)) s);
        pNewRegs \<leftarrow> TaskGetRegs pNext;
        h \<leftarrow> getSchedulerTimer cpu s;
        s \<leftarrow> UpdateKernelTimer cpu h (mPriority (task s pNext) + 1) s;
        Some (SwitchTo pOldRegs pNewRegs, s) }) }"

text \<open>\<open>TaskSwitchInterrupt\<close>: the frame below the end \<open>e\<close> of the interrupt stack of the processor, where the
  interrupt entry has stored the registers, is saved in the old task and overwritten from the new one.\<close>

definition read_frame :: "ptr \<Rightarrow> (ptr \<Rightarrow> u32) \<Rightarrow> TTaskRegisters" where
  "read_frame e m = \<lparr>r0 = m (e - 56), r1 = m (e - 52), r2 = m (e - 48), r3 = m (e - 44), r4 = m (e - 40),
     r5 = m (e - 36), r6 = m (e - 32), r7 = m (e - 28), r8 = m (e - 24), r9 = m (e - 20), r10 = m (e - 16),
     r11 = m (e - 12), r12 = m (e - 8), pc = m (e - 4), sp = m (e - 64), lr = m (e - 60), spsr = m (e - 68)\<rparr>"

definition write_frame :: "ptr \<Rightarrow> TTaskRegisters \<Rightarrow> (ptr \<Rightarrow> u32) \<Rightarrow> (ptr \<Rightarrow> u32)" where
  "write_frame e new m =
     (let m = m(e - 4 := pc new, e - 8 := r12 new, e - 12 := r11 new, e - 16 := r10 new, e - 20 := r9 new,
            e - 24 := r8 new, e - 28 := r7 new, e - 32 := r6 new, e - 36 := r5 new, e - 40 := r4 new,
            e - 44 := r3 new, e - 48 := r2 new, e - 52 := r1 new, e - 56 := r0 new, e - 60 := lr new,
            e - 64 := sp new)
      in if 0 \<noteq> spsr new then m(e - 68 := spsr new) else m)"

definition TaskSwitchInterrupt :: "ptr \<Rightarrow> ptr \<Rightarrow> ptr \<Rightarrow> (ptr \<Rightarrow> u32) \<Rightarrow> kernel \<Rightarrow> (ptr \<Rightarrow> u32) \<times> kernel" where
  "TaskSwitchInterrupt e pOldRegs pNewRegs m s =
     (let s = upd_task pOldRegs (m_Regs_update (\<lambda>_. read_frame e m)) s
      in (write_frame e (m_Regs (task s pNewRegs)) m, s))"

definition SchedulerYieldInterrupt ::
  "virt_delete \<Rightarrow> (nat \<Rightarrow> nat \<Rightarrow> u32) \<Rightarrow> ptr \<Rightarrow> ptr \<Rightarrow> nat \<Rightarrow> (ptr \<Rightarrow> u32) \<Rightarrow> kernel \<Rightarrow> ((ptr \<Rightarrow> u32) \<times> kernel) option" where
  "SchedulerYieldInterrupt virt now handler e cpu m s = do {
     ps \<leftarrow> ScheduerGet cpu s;
     s \<leftarrow> wait_ready virt now 0 cpu s;
     sc \<leftarrow> Some (sched s ps);
     assert (m_nCurrentLevel sc < MAX_TASK_LEVELS);
     assert (m_nCurrent sc < MAX_TASKS);
     lc \<leftarrow> wr (m_nLevelCurrent sc) (unat (m_nCurrentLevel sc)) (m_nCurrent sc);
     s \<leftarrow> Some (upd_sched ps (m_nLevelCurrent_update (\<lambda>_. lc)) s);
     row \<leftarrow> rd (m_pTask sc) (unat (m_nCurrentLevel sc));
     pNext \<leftarrow> rd row (unat (m_nCurrent sc));
     assert (pNext \<noteq> NULL);
     (if m_pCurrent sc = pNext then do {
        (h, s) \<leftarrow> StartKernelTimer cpu 10 handler 0 0 s;
        s \<leftarrow> setSchedulerTimer cpu h s;
        Some (m, s) }
      else do {
        pOldRegs \<leftarrow> TaskGetRegs (m_pCurrent sc);
        s \<leftarrow> Some (upd_sched ps (m_pCurrent_update (\<lambda>_. pNext)) s);
        pNewRegs \<leftarrow> TaskGetRegs pNext;
        (let (m, s) = TaskSwitchInterrupt e pOldRegs pNewRegs m s in do {
          (h, s) \<leftarrow> StartKernelTimer cpu (mPriority (task s pNext)) handler 0 0 s;
          s \<leftarrow> setSchedulerTimer cpu h s;
          Some (m, s) }) }) }"

definition TimeSliceTimerHandler ::
  "virt_delete \<Rightarrow> (nat \<Rightarrow> nat \<Rightarrow> u32) \<Rightarrow> ptr \<Rightarrow> ptr \<Rightarrow> nat \<Rightarrow> (ptr \<Rightarrow> u32) \<Rightarrow> u32 \<Rightarrow> ptr \<Rightarrow> ptr \<Rightarrow> kernel \<Rightarrow>
     ((ptr \<Rightarrow> u32) \<times> kernel) option" where
  "TimeSliceTimerHandler virt now handler e cpu m hTimer pParam pContext s =
     SchedulerYieldInterrupt virt now handler e cpu m s"

section \<open>Sleeping, blocking and ending\<close>

definition SchedulerUsSleep ::
  "virt_delete \<Rightarrow> (nat \<Rightarrow> nat \<Rightarrow> u32) \<Rightarrow> nat \<Rightarrow> u32 \<Rightarrow> kernel \<Rightarrow> (switch \<times> kernel) option" where
  "SchedulerUsSleep virt now cpu nMicroSeconds s = do {
     ps \<leftarrow> ScheduerGet cpu s;
     (if nMicroSeconds > 0 then do {
        nTicks \<leftarrow> Some (nMicroSeconds * (1000000 div 1000000));
        nStartTicks \<leftarrow> Some (TimerGetTicks s * 1000);
        p \<leftarrow> Some (m_pCurrent (sched s ps));
        assert (p \<noteq> NULL);
        assert (TaskGetState p s = TaskStateReady);
        s \<leftarrow> Some (TaskSetWakeTicks p (nStartTicks + nTicks) s);
        s \<leftarrow> Some (TaskSetState p TaskStateSleeping s);
        SchedulerYield virt now cpu s }
      else Some (Stay, s)) }"

definition SchedulerMsSleep ::
  "virt_delete \<Rightarrow> (nat \<Rightarrow> nat \<Rightarrow> u32) \<Rightarrow> nat \<Rightarrow> u32 \<Rightarrow> kernel \<Rightarrow> (switch \<times> kernel) option" where
  "SchedulerMsSleep virt now cpu nMilliSeconds s =
     (if nMilliSeconds > 0 then SchedulerUsSleep virt now cpu (nMilliSeconds * 1000) s else Some (Stay, s))"

text \<open>The arguments of the calls of \<open>SchedulerUsSleep\<close> that \<open>SchedulerSleep\<close> makes one after the other.\<close>

function SchedulerSleep :: "u32 \<Rightarrow> u32 list" where
  "SchedulerSleep nSeconds =
     (if nSeconds > 1800 then (1800 * 1000000) # SchedulerSleep (nSeconds - 1800)
      else [nSeconds * 1000000])"
  by auto
termination
  by (relation "measure unat") (auto simp: unat_sub_no_wrap word_less_nat_alt)

declare SchedulerSleep.simps [simp del]

definition SchedulerKillSelfTask ::
  "virt_delete \<Rightarrow> (nat \<Rightarrow> nat \<Rightarrow> u32) \<Rightarrow> nat \<Rightarrow> ptr \<Rightarrow> kernel \<Rightarrow> (switch \<times> kernel) option" where
  "SchedulerKillSelfTask virt now cpu p s = do {
     ps \<leftarrow> ScheduerGet cpu s;
     assert (p \<noteq> NULL);
     assert (p = m_pCurrent (sched s ps));
     assert (TaskGetState p s = TaskStateReady);
     SchedulerYield virt now cpu (TaskSetState p TaskStateTerminated s) }"

text \<open>\<open>*ppTask\<close> is returned with the state.\<close>

definition SchedulerBlockTask ::
  "virt_delete \<Rightarrow> (nat \<Rightarrow> nat \<Rightarrow> u32) \<Rightarrow> nat \<Rightarrow> kernel \<Rightarrow> (ptr \<times> switch \<times> kernel) option" where
  "SchedulerBlockTask virt now cpu s = do {
     ps \<leftarrow> ScheduerGet cpu s;
     p \<leftarrow> Some (m_pCurrent (sched s ps));
     assert (p \<noteq> NULL);
     assert (TaskGetState p s = TaskStateReady);
     r \<leftarrow> SchedulerYield virt now cpu (TaskSetState p TaskStateBlocked s);
     Some (p, r) }"

definition SchedulerWakeTask :: "ptr \<Rightarrow> kernel \<Rightarrow> (ptr \<times> kernel) option" where
  "SchedulerWakeTask p s = do {
     assert (p \<noteq> NULL);
     assert (TaskGetState p s = TaskStateBlocked);
     Some (NULL, TaskSetState p TaskStateReady s) }"

text \<open>\<open>TaskTaskEntry\<close>, where \<open>run\<close> is the effect of the task's \<open>Run\<close>.\<close>

definition TaskTaskEntry ::
  "virt_delete \<Rightarrow> (nat \<Rightarrow> nat \<Rightarrow> u32) \<Rightarrow> nat \<Rightarrow> (task_fn \<Rightarrow> ptr \<Rightarrow> kernel \<Rightarrow> kernel option) \<Rightarrow> ptr \<Rightarrow> kernel \<Rightarrow>
     (switch \<times> kernel) option" where
  "TaskTaskEntry virt now cpu run p s =
     (if p = NULL then Some (Stay, s)
      else do {
        s \<leftarrow> run (Run (task s p)) p s;
        SchedulerYield virt now cpu (upd_task p (m_State_update (\<lambda>_. TaskStateTerminated)) s) })"

section \<open>Start and end\<close>

definition Scheduler :: "u32 \<Rightarrow> u32 \<Rightarrow> nat \<Rightarrow> kernel \<Rightarrow> kernel option" where
  "Scheduler entry cpsr cpu s = do {
     assert (cpu \<le> CPU_MAX_NUM);
     (let (p, s) = kmalloc sizeof_TScheduler s in do {
       gs \<leftarrow> wr (g_pScheduler s) cpu p;
       s \<leftarrow> Some (s\<lparr>g_pScheduler := gs\<rparr>);
       (if p = NULL then Some s
        else do {
          s \<leftarrow> Some (upd_sched p (\<lambda>_. \<lparr>m_pTask = replicate 10 (replicate 20 NULL), m_nTasks = replicate 10 0,
                  m_nLevelCurrent = replicate 10 (- 1), m_pCurrent = 0, m_nCurrentLevel = 0, m_nCurrent = 0\<rparr>) s);
          (t, s) \<leftarrow> new_Task entry cpsr cpu TASK_STACK_SIZE MAIN_TASK_LEVEL s;
          s \<leftarrow> Some (upd_sched p (\<lambda>sc. sc\<lparr>m_pCurrent := t, m_nCurrentLevel := MAIN_TASK_LEVEL\<rparr>) s);
          assert (t \<noteq> NULL);
          Some s }) }) }"

primrec Scheduler_destroy :: "nat \<Rightarrow> nat list \<Rightarrow> kernel \<Rightarrow> kernel option" where
  "Scheduler_destroy cpu [] s = Some s"
| "Scheduler_destroy cpu (i # is) s = do {
     ps \<leftarrow> rd (g_pScheduler s) i;
     assert (ps \<noteq> NULL);
     sc \<leftarrow> Some (sched s ps);
     assert (sum_list (m_nTasks sc) = 1);
     assert (MAIN_TASK_LEVEL = m_nCurrentLevel sc);
     assert (0 = m_nCurrent sc);
     row \<leftarrow> rd (m_pTask sc) (unat MAIN_TASK_LEVEL);
     p \<leftarrow> rd row 0;
     assert (p = m_pCurrent sc);
     s \<leftarrow> SchedulerRemoveTask cpu (m_pCurrent sc) s;
     s \<leftarrow> delete_Task (m_pCurrent sc) s;
     s \<leftarrow> Some (kfree ps (upd_sched ps (m_pCurrent_update (\<lambda>_. 0)) s));
     Scheduler_destroy cpu is s }"

end
