(* ===== verification/SchedProps.thy ===== *)
theory SchedProps
  imports Sched
begin

text \<open>
  The correctness of the scheduler of theory Sched: what a search for the next task returns (priority
  between levels, rotation within a level), the invariant of the tables and what the operations keep of
  it, context switches, sleeping, and the situations in which an assertion of the code fails.
\<close>

section \<open>What a search returns\<close>

text \<open>The index after \<open>t\<close> in a level of \<open>n\<close> entries, and the \<open>k\<close> indices after \<open>t\<close>.\<close>

definition next_index :: "u32 \<Rightarrow> u32 \<Rightarrow> u32" where
  "next_index n t = (if t + 1 \<ge> n then 0 else t + 1)"

primrec orbit :: "u32 \<Rightarrow> u32 \<Rightarrow> nat \<Rightarrow> u32 list" where
  "orbit n t 0 = []"
| "orbit n t (Suc k) = next_index n t # orbit n (next_index n t) k"

definition runnable :: "(ptr \<Rightarrow> TTask) \<Rightarrow> u32 \<Rightarrow> ptr \<Rightarrow> bool" where
  "runnable tk ticks p \<longleftrightarrow> p \<noteq> NULL \<and>
     (m_State (tk p) = TaskStateReady \<or>
      m_State (tk p) = TaskStateSleeping \<and> sint (m_nWakeTicks (tk p) - ticks) \<le> 0)"

definition live_state :: "TTaskState \<Rightarrow> bool" where
  "live_state st \<longleftrightarrow> st \<noteq> TaskStateTerminated \<and> st \<noteq> TaskStateUnknown"

text \<open>The table of one processor: the counts bound the used part of each level, entries hold tasks of
  their level, and no task is entered twice.\<close>

definition row_ok :: "(ptr \<Rightarrow> TTask) \<Rightarrow> nat \<Rightarrow> ptr list \<Rightarrow> u32 \<Rightarrow> u32 \<Rightarrow> bool" where
  "row_ok tk l row n c \<longleftrightarrow>
     length row = 20 \<and> unat n \<le> 20 \<and> (c = - 1 \<or> unat c < 20) \<and>
     (\<forall>i<20. \<forall>j<20. row ! i \<noteq> NULL \<longrightarrow> row ! i = row ! j \<longrightarrow> i = j) \<and>
     (\<forall>i<20. row ! i \<noteq> NULL \<longrightarrow>
        i < unat n \<and> mLevel (tk (row ! i)) = of_nat l \<and> m_State (tk (row ! i)) \<noteq> TaskStateUnknown)"

definition table_ok :: "TScheduler \<Rightarrow> (ptr \<Rightarrow> TTask) \<Rightarrow> bool" where
  "table_ok sc tk \<longleftrightarrow>
     length (m_pTask sc) = 10 \<and> length (m_nTasks sc) = 10 \<and> length (m_nLevelCurrent sc) = 10 \<and>
     (\<forall>l<10. row_ok tk l (m_pTask sc ! l) (m_nTasks sc ! l) (m_nLevelCurrent sc ! l))"

definition sched_ok :: "nat \<Rightarrow> kernel \<Rightarrow> bool" where
  "sched_ok cpu s \<longleftrightarrow> cpu < CPU_MAX_NUM \<and> length (g_pScheduler s) = CPU_MAX_NUM \<and>
     g_pScheduler s ! cpu \<noteq> NULL \<and> table_ok (sched s (g_pScheduler s ! cpu)) (task s)"

text \<open>No entry of the table has ended.\<close>

definition all_live :: "TScheduler \<Rightarrow> (ptr \<Rightarrow> TTask) \<Rightarrow> bool" where
  "all_live sc tk \<longleftrightarrow>
     (\<forall>l<10. \<forall>i<20. m_pTask sc ! l ! i \<noteq> NULL \<longrightarrow> live_state (m_State (tk (m_pTask sc ! l ! i))))"

text \<open>The choice a search has to make: on each level the first runnable entry after the one that
  ran last there, on the highest level that has one.\<close>

definition pick_level :: "TScheduler \<Rightarrow> (ptr \<Rightarrow> TTask) \<Rightarrow> (nat \<Rightarrow> u32) \<Rightarrow> nat \<Rightarrow> u32 option" where
  "pick_level sc tk now l = find (\<lambda>i. runnable tk (now l * 1000) (m_pTask sc ! l ! unat i))
     (orbit (m_nTasks sc ! l) (m_nLevelCurrent sc ! l) (unat (m_nTasks sc ! l)))"

primrec pick :: "TScheduler \<Rightarrow> (ptr \<Rightarrow> TTask) \<Rightarrow> (nat \<Rightarrow> u32) \<Rightarrow> nat list \<Rightarrow> (nat \<times> u32) option" where
  "pick sc tk now [] = None"
| "pick sc tk now (l # ls) = (case pick_level sc tk now l of Some i \<Rightarrow> Some (l, i) | None \<Rightarrow> pick sc tk now ls)"

section \<open>Lemmas\<close>

lemma table_okD:
  assumes "table_ok sc tk" "l < 10"
  shows "length (m_pTask sc) = 10" "length (m_nTasks sc) = 10" "length (m_nLevelCurrent sc) = 10"
    "length (m_pTask sc ! l) = 20" "unat (m_nTasks sc ! l) \<le> 20"
    "m_nLevelCurrent sc ! l = - 1 \<or> unat (m_nLevelCurrent sc ! l) < 20"
    "\<And>i j. i < 20 \<Longrightarrow> j < 20 \<Longrightarrow> m_pTask sc ! l ! i \<noteq> NULL \<Longrightarrow> m_pTask sc ! l ! i = m_pTask sc ! l ! j \<Longrightarrow> i = j"
    "\<And>i. i < 20 \<Longrightarrow> m_pTask sc ! l ! i \<noteq> NULL \<Longrightarrow>
       i < unat (m_nTasks sc ! l) \<and> mLevel (tk (m_pTask sc ! l ! i)) = of_nat l \<and>
       m_State (tk (m_pTask sc ! l ! i)) \<noteq> TaskStateUnknown"
  using assms unfolding table_ok_def row_ok_def by blast+

lemma row_ok_state:
  "row_ok tk l row n c \<Longrightarrow> st \<noteq> TaskStateUnknown \<Longrightarrow> row_ok (tk(p := (tk p)\<lparr>m_State := st\<rparr>)) l row n c"
  by (auto simp: row_ok_def)

lemma row_ok_current: "row_ok tk l row n c \<Longrightarrow> unat i < 20 \<Longrightarrow> row_ok tk l row n i"
  by (simp add: row_ok_def)

lemma next_index_less: "0 < n \<Longrightarrow> next_index n t < n"
  by (simp add: next_index_def word_gt_0 not_le)

lemma orbit_less: "0 < n \<Longrightarrow> i \<in> set (orbit n t k) \<Longrightarrow> i < n"
  by (induction k arbitrary: t) (auto simp: next_index_less)

lemma m_State_same: "m_State t = st \<Longrightarrow> t\<lparr>m_State := st\<rparr> = t"
  by (cases t) simp

lemma TaskSetState_Ready_same:
  "m_State (task s p) = TaskStateReady \<Longrightarrow> TaskSetState p TaskStateReady s = s"
  by (simp add: TaskSetState_def upd_task_def m_State_same)

lemma scan_level_eq:
  assumes "l < length (m_nTasks (sched s ps))" "m_nTasks (sched s ps) ! l = n" "0 < n" "unat n \<le> 20"
    and "l < length (m_pTask (sched s ps))" "m_pTask (sched s ps) ! l = row" "length row = 20"
    and "\<forall>i<20. row ! i \<noteq> NULL \<longrightarrow> live_state (m_State (task s (row ! i)))"
  shows "scan_level virt cpu ps l ticks k t s =
     Some (case find (\<lambda>i. runnable (task s) ticks (row ! unat i)) (orbit n t k) of
        None \<Rightarrow> (None, s)
      | Some i \<Rightarrow> (Some i, TaskSetState (row ! unat i) TaskStateReady s))"
proof (induction k arbitrary: t)
  case 0
  then show ?case by simp
next
  case (Suc k)
  let ?i = "next_index n t"
  let ?p = "row ! unat ?i"
  have i: "unat ?i < 20" using next_index_less [OF assms(3), of t] assms(4) by (simp add: word_less_nat_alt)
  have live: "live_state (m_State (task s ?p))" if "?p \<noteq> NULL" using assms(8) i that by blast
  have eq: "scan_level virt cpu ps l ticks (Suc k) t s =
     (if ?p = NULL then scan_level virt cpu ps l ticks k ?i s
      else case TaskGetState ?p s of
        TaskStateReady \<Rightarrow> Some (Some ?i, s)
      | TaskStateBlocked \<Rightarrow> scan_level virt cpu ps l ticks k ?i s
      | TaskStateSleeping \<Rightarrow>
          (if sint (TaskGetWakeTicks ?p s - ticks) > 0 then scan_level virt cpu ps l ticks k ?i s
           else Some (Some ?i, TaskSetState ?p TaskStateReady s))
      | TaskStateTerminated \<Rightarrow> do {
          s \<leftarrow> SchedulerRemoveTask cpu ?p s;
          s \<leftarrow> call_delete virt ?p s;
          Some (Some MAX_TASKS, s) }
      | TaskStateUnknown \<Rightarrow> None)"
    using assms(1,2,5,6,7) i by (simp add: scan_level.simps(2) [folded next_index_def] del: scan_level.simps)
  show ?case
    unfolding eq using Suc.IH [of ?i] live
    by (cases "m_State (task s ?p)")
      (auto simp: TaskGetState_def TaskGetWakeTicks_def runnable_def live_state_def TaskSetState_Ready_same)
qed

lemma next_index_unat:
  assumes "t < n" shows "unat (next_index n t) = Suc (unat t) mod unat n"
proof -
  have t: "unat t < unat n" using assms by (simp add: word_less_nat_alt)
  moreover have "unat n < 2 ^ 32" using unsigned_less [of n, where 'a = nat] by simp
  ultimately have s: "unat (t + 1) = Suc (unat t)" by (subst unat_add_no_wrap) simp_all
  show ?thesis using t s by (auto simp: next_index_def word_le_nat_alt mod_if not_le)
qed

lemma orbit_unat:
  assumes "0 < n"
  shows "map unat (orbit n t k) = map (\<lambda>j. (unat (next_index n t) + j) mod unat n) [0..<k]"
proof (induction k arbitrary: t)
  case 0
  then show ?case by simp
next
  case (Suc k)
  let ?f = "next_index n t"
  have f: "?f < n" using assms by (rule next_index_less)
  then have "unat ?f mod unat n = unat ?f" by (simp add: word_less_nat_alt)
  moreover have "map (\<lambda>j. (unat (next_index n ?f) + j) mod unat n) [0..<k] =
     map (\<lambda>j. (unat ?f + j) mod unat n) (map Suc [0..<k])"
    by (simp add: next_index_unat [OF f] mod_simps)
  moreover have "[0..<Suc k] = 0 # map Suc [0..<k]" by (simp add: upt_conv_Cons map_Suc_upt del: upt_Suc)
  ultimately show ?case by (simp add: Suc.IH [of ?f] del: upt_Suc)
qed

lemma orbit_covers:
  assumes "0 < n" "i < n"
  shows "i \<in> set (orbit n t (unat n))"
proof -
  let ?f = "unat (next_index n t)" and ?n = "unat n"
  have f: "?f < ?n" using next_index_less [OF assms(1), of t] by (simp add: word_less_nat_alt)
  have i: "unat i < ?n" using assms(2) by (simp add: word_less_nat_alt)
  have "\<exists>j<?n. unat i = (?f + j) mod ?n"
  proof (cases "?f \<le> unat i")
    case True
    then show ?thesis using i f by (intro exI [of _ "unat i - ?f"]) simp
  next
    case False
    then have "unat i = (?f + (?n - ?f + unat i)) mod ?n" using f i by simp
    then show ?thesis using False f i by (intro exI [of _ "?n - ?f + unat i"]) simp
  qed
  then have "unat i \<in> set (map unat (orbit n t ?n))" unfolding orbit_unat [OF assms(1)] by auto
  then obtain x where "x \<in> set (orbit n t ?n)" "unat i = unat x" by auto
  then show ?thesis using word_unat_eq_iff [of i x] by simp
qed

lemma pick_cur_level [simp]: "pick (sc\<lparr>m_nCurrentLevel := x\<rparr>) tk now ls = pick sc tk now ls"
  by (induction ls) (simp_all add: pick_level_def split: option.splits)

lemma upd_sched_simps [simp]:
  "sched (upd_sched ps f s) = (sched s)(ps := f (sched s ps))"
  "task (upd_sched ps f s) = task s" "heap (upd_sched ps f s) = heap s"
  "g_pScheduler (upd_sched ps f s) = g_pScheduler s"
  "g_nSchedulerTimer (upd_sched ps f s) = g_nSchedulerTimer s"
  "irq (upd_sched ps f s) = irq s" "jiffies (upd_sched ps f s) = jiffies s"
  "s_Timer (upd_sched ps f s) = s_Timer s"
  by (simp_all add: upd_sched_def)

lemma upd_task_simps [simp]:
  "task (upd_task p g s) = (task s)(p := g (task s p))"
  "sched (upd_task p g s) = sched s" "heap (upd_task p g s) = heap s"
  "g_pScheduler (upd_task p g s) = g_pScheduler s"
  "g_nSchedulerTimer (upd_task p g s) = g_nSchedulerTimer s"
  "irq (upd_task p g s) = irq s" "jiffies (upd_task p g s) = jiffies s"
  "s_Timer (upd_task p g s) = s_Timer s"
  by (simp_all add: upd_task_def)

lemma upd_sched_upd_sched [simp]: "upd_sched ps f (upd_sched ps g s) = upd_sched ps (\<lambda>sc. f (g sc)) s"
  by (simp add: upd_sched_def)

lemma cur_level_set:
  assumes "m_nLevelCurrent sc ! l = - 1 \<or> unat (m_nLevelCurrent sc ! l) < 20"
  shows "sint (m_nLevelCurrent sc ! l) < 20"
proof -
  have "sint c < 20" if "unat c < 20" for c :: u32
  proof -
    have "uint c < 20" using that by (metis of_nat_less_iff of_nat_numeral of_nat_unat)
    then show ?thesis by (simp add: sint_u32)
  qed
  then show ?thesis using assms by auto
qed

lemma scan_levels_eq:
  assumes "table_ok (sched s ps) (task s)" "all_live (sched s ps) (task s)" "set ls \<subseteq> {..<10}"
  shows "case pick (sched s ps) (task s) now ls of
      Some (l, i) \<Rightarrow> scan_levels virt now cpu ps ls s =
         Some (i, TaskSetState (m_pTask (sched s ps) ! l ! unat i) TaskStateReady
                    (upd_sched ps (m_nCurrentLevel_update (\<lambda>_. of_nat l)) s))
    | None \<Rightarrow> \<exists>L. scan_levels virt now cpu ps ls s = Some (MAX_TASKS, upd_sched ps (m_nCurrentLevel_update (\<lambda>_. L)) s) \<and>
         (L = m_nCurrentLevel (sched s ps) \<or> (\<exists>l<10. L = of_nat l \<and> m_nTasks (sched s ps) ! l \<noteq> 0))"
  using assms
proof (induction ls arbitrary: s)
  case Nil
  have "upd_sched ps (m_nCurrentLevel_update (\<lambda>_. m_nCurrentLevel (sched s ps))) s = s"
    by (cases "sched s ps") (simp add: upd_sched_def fun_upd_idem)
  then show ?case by simp (rule exI [of _ "m_nCurrentLevel (sched s ps)"], simp)
next
  case (Cons l ls)
  let ?sc = "sched s ps"
  have l: "l < 10" and ls: "set ls \<subseteq> {..<10}" using Cons.prems(3) by auto
  note D = table_okD [OF Cons.prems(1) l]
  show ?case
  proof (cases "m_nTasks ?sc ! l = 0")
    case True
    then have "scan_levels virt now cpu ps (l # ls) s = scan_levels virt now cpu ps ls s"
      using D l by simp
    moreover have "pick ?sc (task s) now (l # ls) = pick ?sc (task s) now ls"
      using True by (simp add: pick_level_def)
    ultimately show ?thesis using Cons.IH [OF Cons.prems(1,2) ls] by (simp only:)
  next
    case False
    define s1 where "s1 = upd_sched ps (m_nCurrentLevel_update (\<lambda>_. of_nat l)) s"
    let ?row = "m_pTask ?sc ! l" and ?n = "m_nTasks ?sc ! l" and ?c = "m_nLevelCurrent ?sc ! l"
    let ?f = "find (\<lambda>i. runnable (task s) (now l * 1000) (?row ! unat i)) (orbit ?n ?c (unat ?n))"
    have live: "\<forall>i<20. ?row ! i \<noteq> NULL \<longrightarrow> live_state (m_State (task s1 (?row ! i)))"
      using Cons.prems(2) l by (simp add: all_live_def s1_def)
    have sl: "scan_level virt cpu ps l (now l * 1000) (unat ?n) ?c s1 =
       Some (case ?f of None \<Rightarrow> (None, s1) | Some i \<Rightarrow> (Some i, TaskSetState (?row ! unat i) TaskStateReady s1))"
      using scan_level_eq [where s = s1 and ps = ps and l = l and n = ?n and row = ?row] False D l live
      by (simp add: s1_def word_gt_0)
    have lc: "m_nLevelCurrent (sched s1 ps) = m_nLevelCurrent ?sc" by (simp add: s1_def)
    have step: "scan_levels virt now cpu ps (l # ls) s =
       (case ?f of None \<Rightarrow> scan_levels virt now cpu ps ls s1
          | Some i \<Rightarrow> Some (i, TaskSetState (?row ! unat i) TaskStateReady s1))"
      using False D l sl cur_level_set [OF D(6)] by (simp add: s1_def [symmetric] lc split: option.splits)
    show ?thesis
    proof (cases ?f)
      case (Some i)
      then show ?thesis unfolding step by (simp add: pick_level_def s1_def)
    next
      case None
      have "table_ok (sched s1 ps) (task s1)" "all_live (sched s1 ps) (task s1)"
        using Cons.prems(1,2) by (simp_all add: s1_def table_ok_def all_live_def)
      from Cons.IH [OF this ls] show ?thesis
        unfolding step using None False l
        by (auto simp: pick_level_def s1_def split: option.splits)
    qed
  qed
qed

lemma pick_Some:
  "pick sc tk now ls = Some (l, i) \<Longrightarrow>
     \<exists>ls1 ls2. ls = ls1 @ l # ls2 \<and> pick_level sc tk now l = Some i \<and> (\<forall>l' \<in> set ls1. pick_level sc tk now l' = None)"
proof (induction ls)
  case (Cons k ls)
  show ?case
  proof (cases "pick_level sc tk now k")
    case None
    with Cons obtain ls1 ls2 where "ls = ls1 @ l # ls2" "pick_level sc tk now l = Some i"
      "\<forall>l' \<in> set ls1. pick_level sc tk now l' = None" by auto
    with None show ?thesis by (intro exI [of _ "k # ls1"] exI [of _ ls2]) simp
  next
    case (Some j)
    with Cons.prems show ?thesis by (intro exI [of _ "[]"] exI [of _ ls]) simp
  qed
qed simp

lemma pick_None: "pick sc tk now ls = None \<longleftrightarrow> (\<forall>l \<in> set ls. pick_level sc tk now l = None)"
  by (induction ls) (auto split: option.splits)

lemma pick_level_None:
  assumes "table_ok sc tk" "l < 10"
  shows "pick_level sc tk now l = None \<longleftrightarrow> (\<forall>i<20. \<not> runnable tk (now l * 1000) (m_pTask sc ! l ! i))"
proof -
  note D = table_okD [OF assms]
  let ?n = "m_nTasks sc ! l"
  have "(\<forall>i \<in> set (orbit ?n (m_nLevelCurrent sc ! l) (unat ?n)). \<not> runnable tk (now l * 1000) (m_pTask sc ! l ! unat i))
    \<longleftrightarrow> (\<forall>i<20. \<not> runnable tk (now l * 1000) (m_pTask sc ! l ! i))" (is "?L \<longleftrightarrow> ?R")
  proof
    assume L: ?L
    show ?R
    proof (intro allI impI notI)
      fix i :: nat
      assume i: "i < 20" and r: "runnable tk (now l * 1000) (m_pTask sc ! l ! i)"
      then have "i < unat ?n" using D(8) [of i] by (simp add: runnable_def)
      moreover have u: "unat (of_nat i :: u32) = i" using i by (simp add: unat_of_nat_small)
      ultimately have "of_nat i < ?n" by (simp add: word_less_nat_alt)
      moreover from this have "0 < ?n" using word_gt_0 by fastforce
      ultimately have "of_nat i \<in> set (orbit ?n (m_nLevelCurrent sc ! l) (unat ?n))" by (rule orbit_covers [rotated])
      with L r u show False by fastforce
    qed
  next
    assume R: ?R
    show ?L
    proof
      fix i assume i: "i \<in> set (orbit ?n (m_nLevelCurrent sc ! l) (unat ?n))"
      then have "0 < ?n" by (cases "?n = 0") (auto simp: word_gt_0)
      then have "unat i < unat ?n" using orbit_less [OF _ i] by (simp add: word_less_nat_alt)
      then show "\<not> runnable tk (now l * 1000) (m_pTask sc ! l ! unat i)" using R D(5) by simp
    qed
  qed
  then show ?thesis by (simp add: pick_level_def find_None_iff Ball_def)
qed

lemma find_first: "find P xs = Some x \<Longrightarrow> \<exists>ys zs. xs = ys @ x # zs \<and> P x \<and> (\<forall>y \<in> set ys. \<not> P y)"
proof (induction xs)
  case (Cons a xs)
  show ?case
  proof (cases "P a")
    case True
    with Cons.prems show ?thesis by (intro exI [of _ "[]"] exI [of _ xs]) simp
  next
    case False
    with Cons obtain ys zs where "xs = ys @ x # zs \<and> P x \<and> (\<forall>y \<in> set ys. \<not> P y)" by auto
    with False show ?thesis by (intro exI [of _ "a # ys"] exI [of _ zs]) simp
  qed
qed simp

lemma pick_level_Some:
  assumes "table_ok sc tk" "l < 10" "pick_level sc tk now l = Some i"
  shows "i < m_nTasks sc ! l" "unat i < 20" "runnable tk (now l * 1000) (m_pTask sc ! l ! unat i)"
    "\<exists>ys zs. orbit (m_nTasks sc ! l) (m_nLevelCurrent sc ! l) (unat (m_nTasks sc ! l)) = ys @ i # zs \<and>
       (\<forall>y \<in> set ys. \<not> runnable tk (now l * 1000) (m_pTask sc ! l ! unat y))"
proof -
  let ?n = "m_nTasks sc ! l"
  obtain ys zs where f: "orbit ?n (m_nLevelCurrent sc ! l) (unat ?n) = ys @ i # zs"
    "runnable tk (now l * 1000) (m_pTask sc ! l ! unat i)"
    "\<forall>y \<in> set ys. \<not> runnable tk (now l * 1000) (m_pTask sc ! l ! unat y)"
    using find_first [OF assms(3) [unfolded pick_level_def]] by blast
  then have i: "i \<in> set (orbit ?n (m_nLevelCurrent sc ! l) (unat ?n))" by simp
  then have "0 < ?n" by (cases "?n = 0") (auto simp: word_gt_0)
  then show "i < ?n" using i by (rule orbit_less)
  then show "unat i < 20" using table_okD(5) [OF assms(1,2)] by (simp add: word_less_nat_alt)
  show "runnable tk (now l * 1000) (m_pTask sc ! l ! unat i)" by (rule f(2))
  show "\<exists>ys zs. orbit (m_nTasks sc ! l) (m_nLevelCurrent sc ! l) (unat (m_nTasks sc ! l)) = ys @ i # zs \<and>
       (\<forall>y \<in> set ys. \<not> runnable tk (now l * 1000) (m_pTask sc ! l ! unat y))"
    using f by blast
qed

lemma TaskSetState_simps [simp]:
  "sched (TaskSetState p st s) = sched s" "heap (TaskSetState p st s) = heap s"
  "g_pScheduler (TaskSetState p st s) = g_pScheduler s"
  "g_nSchedulerTimer (TaskSetState p st s) = g_nSchedulerTimer s"
  "irq (TaskSetState p st s) = irq s" "jiffies (TaskSetState p st s) = jiffies s"
  "s_Timer (TaskSetState p st s) = s_Timer s"
  "task (TaskSetState p st s) = (if p = NULL then task s else (task s)(p := (task s p)\<lparr>m_State := st\<rparr>))"
  by (simp_all add: TaskSetState_def)

lemma table_ok_set_state:
  "table_ok sc tk \<Longrightarrow> st \<noteq> TaskStateUnknown \<Longrightarrow> table_ok sc (tk(p := (tk p)\<lparr>m_State := st\<rparr>))"
  by (simp add: table_ok_def row_ok_state)

lemma table_ok_cur_level [simp]:
  "table_ok (sc\<lparr>m_nCurrentLevel := x\<rparr>) tk \<longleftrightarrow> table_ok sc tk"
  "table_ok (sc\<lparr>m_nCurrent := y\<rparr>) tk \<longleftrightarrow> table_ok sc tk"
  "table_ok (sc\<lparr>m_pCurrent := p\<rparr>) tk \<longleftrightarrow> table_ok sc tk"
  by (simp_all add: table_ok_def)

lemma ScheduerGet_ok: "sched_ok cpu s \<Longrightarrow> ScheduerGet cpu s = Some (g_pScheduler s ! cpu)"
  by (simp add: ScheduerGet_def sched_ok_def)

abbreviation levels :: "nat list" where
  "levels \<equiv> rev [0..<unat MAX_TASK_LEVELS]"

lemma levels_set: "set levels = {..<10}"
  by (auto simp: MAX_TASK_LEVELS_def)

lemma sched_okD:
  assumes "sched_ok cpu s"
  shows "cpu < CPU_MAX_NUM" "length (g_pScheduler s) = CPU_MAX_NUM" "g_pScheduler s ! cpu \<noteq> NULL"
    "table_ok (sched s (g_pScheduler s ! cpu)) (task s)"
  using assms by (simp_all add: sched_ok_def)

lemma upd_sched_TaskSetState:
  "upd_sched ps f (TaskSetState p st s) = TaskSetState p st (upd_sched ps f s)"
  by (simp add: upd_sched_def TaskSetState_def upd_task_def)

lemma get_next_pick:
  assumes "sched_ok cpu s" "ps = g_pScheduler s ! cpu" "all_live (sched s ps) (task s)"
  shows "case pick (sched s ps) (task s) now levels of
      Some (l, i) \<Rightarrow> SchedulerGetNextTask virt now cpu s =
         Some (i, TaskSetState (m_pTask (sched s ps) ! l ! unat i) TaskStateReady
                    (upd_sched ps (m_nCurrentLevel_update (\<lambda>_. of_nat l)) s))
    | None \<Rightarrow> \<exists>L. SchedulerGetNextTask virt now cpu s = Some (MAX_TASKS, upd_sched ps (m_nCurrentLevel_update (\<lambda>_. L)) s) \<and>
         (L = m_nCurrentLevel (sched s ps) \<or> (\<exists>l<10. L = of_nat l \<and> m_nTasks (sched s ps) ! l \<noteq> 0))"
proof -
  have "SchedulerGetNextTask virt now cpu s = scan_levels virt now cpu ps levels s"
    using ScheduerGet_ok [OF assms(1)] assms(2) by (simp add: SchedulerGetNextTask_def)
  then show ?thesis
    using scan_levels_eq [OF _ assms(3), where ls = levels and now = now and virt = virt and cpu = cpu]
      sched_okD(4) [OF assms(1)] assms(2) by (simp only: levels_set)
qed

lemma pick_levels_Some:
  assumes "table_ok sc tk" "pick sc tk now levels = Some (l, i)"
  shows "l < 10" "pick_level sc tk now l = Some i"
    "\<And>l' i'. l < l' \<Longrightarrow> l' < 10 \<Longrightarrow> i' < 20 \<Longrightarrow> \<not> runnable tk (now l' * 1000) (m_pTask sc ! l' ! i')"
proof -
  obtain ls1 ls2 where P: "levels = ls1 @ l # ls2" "pick_level sc tk now l = Some i"
    "\<forall>l' \<in> set ls1. pick_level sc tk now l' = None"
    using pick_Some [OF assms(2)] by blast
  show l: "l < 10" using P(1) levels_set by (metis in_set_conv_decomp lessThan_iff)
  show "pick_level sc tk now l = Some i" by (rule P(2))
  have sorted: "sorted_wrt (>) levels" by (simp add: sorted_wrt_rev)
  show "\<not> runnable tk (now l' * 1000) (m_pTask sc ! l' ! i')" if "l < l'" "l' < 10" "i' < 20" for l' i'
  proof -
    have "l' \<in> set (ls1 @ l # ls2)" using that(2) levels_set P(1) by (metis lessThan_iff)
    moreover have "l' \<notin> set ls2" using sorted that(1) unfolding P(1) by (auto simp: sorted_wrt_append)
    ultimately have "l' \<in> set ls1" using that(1) by auto
    then show ?thesis using P(3) pick_level_None [OF assms(1) that(2)] that(3) by blast
  qed
qed

lemma sched_ok_ready:
  assumes "sched_ok cpu s"
  shows "sched_ok cpu (TaskSetState p TaskStateReady (upd_sched (g_pScheduler s ! cpu) (m_nCurrentLevel_update (\<lambda>_. L)) s))"
  using assms by (auto simp: sched_ok_def intro: table_ok_set_state)

lemma get_next_cases:
  assumes "sched_ok cpu s" "ps = g_pScheduler s ! cpu" "sc = sched s ps" "all_live sc (task s)"
  obtains (found) l i where "l < 10" "i < m_nTasks sc ! l" "unat i < 20"
      "runnable (task s) (now l * 1000) (m_pTask sc ! l ! unat i)"
      "pick_level sc (task s) now l = Some i"
      "\<And>l' i'. l < l' \<Longrightarrow> l' < 10 \<Longrightarrow> i' < 20 \<Longrightarrow> \<not> runnable (task s) (now l' * 1000) (m_pTask sc ! l' ! i')"
      "SchedulerGetNextTask virt now cpu s = Some (i, TaskSetState (m_pTask sc ! l ! unat i) TaskStateReady
                    (upd_sched ps (m_nCurrentLevel_update (\<lambda>_. of_nat l)) s))"
    | (none) L where "\<And>l i. l < 10 \<Longrightarrow> i < 20 \<Longrightarrow> \<not> runnable (task s) (now l * 1000) (m_pTask sc ! l ! i)"
      "SchedulerGetNextTask virt now cpu s = Some (MAX_TASKS, upd_sched ps (m_nCurrentLevel_update (\<lambda>_. L)) s)"
      "L = m_nCurrentLevel sc \<or> (\<exists>l<10. L = of_nat l \<and> m_nTasks sc ! l \<noteq> 0)"
proof -
  note G = get_next_pick [OF assms(1,2) assms(4) [unfolded assms(3)], where now = now and virt = virt, folded assms(3)]
  have tab: "table_ok sc (task s)" using sched_okD(4) [OF assms(1)] assms(2,3) by simp
  show thesis
  proof (cases "pick sc (task s) now levels")
    case None
    then have "\<forall>l \<in> {..<10}. pick_level sc (task s) now l = None" by (simp only: pick_None levels_set)
    then have no: "\<not> runnable (task s) (now l * 1000) (m_pTask sc ! l ! i)" if "l < 10" "i < 20" for l i
      using pick_level_None [OF tab that(1)] that by auto
    from G None obtain L where "SchedulerGetNextTask virt now cpu s = Some (MAX_TASKS, upd_sched ps (m_nCurrentLevel_update (\<lambda>_. L)) s)"
      "L = m_nCurrentLevel sc \<or> (\<exists>l<10. L = of_nat l \<and> m_nTasks sc ! l \<noteq> 0)" by auto
    with none no show thesis by blast
  next
    case (Some a)
    obtain l i where a: "a = (l, i)" by (cases a)
    note P = pick_levels_Some [OF tab Some [unfolded a]]
    note Q = pick_level_Some [OF tab P(1,2)]
    show thesis using found [OF P(1) Q(1,2,3) P(2,3)] G Some a by simp
  qed
qed

lemma table_ok_level_current:
  assumes "table_ok sc tk" "l < 10" "unat i < 20"
  shows "table_ok (sc\<lparr>m_nLevelCurrent := (m_nLevelCurrent sc)[l := i]\<rparr>) tk"
  using assms by (auto simp: table_ok_def nth_list_update intro: row_ok_current)

lemma unat_less_20: "unat (i::u32) < 20 \<Longrightarrow> i \<noteq> MAX_TASKS \<and> i < MAX_TASKS"
  by (auto simp: MAX_TASKS_def word_less_nat_alt)

lemma wait_ready_found:
  assumes "sched_ok cpu s" "ps = g_pScheduler s ! cpu" "unat i < 20"
    and "SchedulerGetNextTask virt (now k) cpu s = Some (i, TaskSetState p TaskStateReady
                    (upd_sched ps (m_nCurrentLevel_update (\<lambda>_. of_nat l)) s))"
  shows "wait_ready virt now k cpu s =
     Some (TaskSetState p TaskStateReady (upd_sched ps (\<lambda>sc. sc\<lparr>m_nCurrentLevel := of_nat l, m_nCurrent := i\<rparr>) s))"
  using ScheduerGet_ok [OF assms(1)] assms(2,4) unat_less_20 [OF assms(3)]
  by (subst wait_ready.simps) (simp add: upd_sched_TaskSetState)

text \<open>What the environment of a processor has to provide for a switch.\<close>

definition cpu_ok :: "nat \<Rightarrow> kernel \<Rightarrow> bool" where
  "cpu_ok cpu s \<longleftrightarrow> sched_ok cpu s \<and> timers_ok s \<and> length (irq s) = CPU_MAX_NUM \<and>
     length (g_nSchedulerTimer s) = CPU_MAX_NUM \<and>
     1 \<le> unat (g_nSchedulerTimer s ! cpu) \<and> unat (g_nSchedulerTimer s ! cpu) \<le> KERNEL_TIMERS \<and>
     m_pCurrent (sched s (g_pScheduler s ! cpu)) \<noteq> NULL"

lemma update_timer_ok:
  assumes "timers_ok s" "cpu < CPU_MAX_NUM" "1 \<le> unat h" "unat h \<le> KERNEL_TIMERS"
  shows "\<exists>ts. UpdateKernelTimer cpu h d s = Some (s\<lparr>s_Timer := ts\<rparr>) \<and> timers_ok (s\<lparr>s_Timer := ts\<rparr>)"
proof -
  note T = timers_okD [OF assms(1,2)]
  have u: "unat (h - 1) < KERNEL_TIMERS" using assms(3,4) by (simp add: unat_sub_no_wrap)
  let ?t = "(s_Timer s ! cpu)\<lparr>m_KernelTimer := (m_KernelTimer (s_Timer s ! cpu))[unat (h - 1) :=
      (m_KernelTimer (s_Timer s ! cpu) ! unat (h - 1))\<lparr>m_nElapsesAt := jiffies s + d\<rparr>]\<rparr>"
  have "timers_ok (s\<lparr>s_Timer := (s_Timer s)[cpu := ?t]\<rparr>)" using T by (intro timers_ok_upd [OF assms(1)]) simp
  moreover have "UpdateKernelTimer cpu h d s = Some (s\<lparr>s_Timer := (s_Timer s)[cpu := ?t]\<rparr>)"
    using T u assms(2-4) by (simp add: UpdateKernelTimer_def TimerGet_def TimerUpdateKernelTimer_def)
  ultimately show ?thesis by blast
qed

lemma yield_found:
  assumes ok: "cpu_ok cpu s" and ps: "ps = g_pScheduler s ! cpu" and sc: "sc = sched s ps"
    and l: "l < 10" and i: "unat i < 20" and p: "p = m_pTask sc ! l ! unat i" "p \<noteq> NULL"
    and g: "SchedulerGetNextTask virt (now 0) cpu (s\<lparr>irq := (irq s)[cpu := False]\<rparr>) =
        Some (i, TaskSetState p TaskStateReady (upd_sched ps (m_nCurrentLevel_update (\<lambda>_. of_nat l)) (s\<lparr>irq := (irq s)[cpu := False]\<rparr>)))"
  shows "\<exists>s'. SchedulerYield virt now cpu s = Some (if m_pCurrent sc = p then Stay else SwitchTo (m_pCurrent sc) p, s') \<and>
     sched s' = (sched s)(ps := sc\<lparr>m_nCurrentLevel := of_nat l, m_nCurrent := i, m_nLevelCurrent := (m_nLevelCurrent sc)[l := i], m_pCurrent := p\<rparr>) \<and>
     task s' = (task s)(p := (task s p)\<lparr>m_State := TaskStateReady\<rparr>) \<and> heap s' = heap s \<and>
     g_pScheduler s' = g_pScheduler s \<and> g_nSchedulerTimer s' = g_nSchedulerTimer s \<and>
     timers_ok s' \<and> length (irq s') = CPU_MAX_NUM \<and> irq s' ! cpu = (m_pCurrent sc = p)"
proof -
  note S = sched_okD [OF ok [unfolded cpu_ok_def, THEN conjunct1], folded ps]
  have C: "timers_ok s" "length (irq s) = CPU_MAX_NUM" "length (g_nSchedulerTimer s) = CPU_MAX_NUM"
    "1 \<le> unat (g_nSchedulerTimer s ! cpu)" "unat (g_nSchedulerTimer s ! cpu) \<le> KERNEL_TIMERS"
    "m_pCurrent sc \<noteq> NULL" using ok ps sc by (simp_all add: cpu_ok_def)
  note T = table_okD [OF S(4) [folded sc] l]
  define s1 where "s1 = s\<lparr>irq := (irq s)[cpu := False]\<rparr>"
  have s1ok: "sched_ok cpu s1" using ok by (simp add: s1_def cpu_ok_def sched_ok_def)
  have w: "wait_ready virt now 0 cpu s1 =
     Some (TaskSetState p TaskStateReady (upd_sched ps (\<lambda>sc. sc\<lparr>m_nCurrentLevel := of_nat l, m_nCurrent := i\<rparr>) s1))"
    using g ps by (intro wait_ready_found [OF s1ok _ i]) (simp_all add: s1_def)
  have ul: "unat (of_nat l :: u32) = l" using l by (simp add: unat_of_nat_small)
  have lt: "(of_nat l :: u32) < MAX_TASK_LEVELS" using l ul by (simp add: word_less_nat_alt MAX_TASK_LEVELS_def)
  have get: "ScheduerGet cpu s = Some ps" using ScheduerGet_ok [of cpu s] ok ps by (simp add: cpu_ok_def)
  define s2 where "s2 = TaskSetState p TaskStateReady (upd_sched ps (\<lambda>sc. sc\<lparr>m_nCurrentLevel := of_nat l, m_nCurrent := i\<rparr>) s1)"
  have F: "sched s2 = (sched s)(ps := sc\<lparr>m_nCurrentLevel := of_nat l, m_nCurrent := i\<rparr>)"
    "task s2 = (task s)(p := (task s p)\<lparr>m_State := TaskStateReady\<rparr>)" "heap s2 = heap s"
    "g_pScheduler s2 = g_pScheduler s" "g_nSchedulerTimer s2 = g_nSchedulerTimer s"
    "s_Timer s2 = s_Timer s" "irq s2 = (irq s)[cpu := False]"
    using p(2) by (simp_all add: s2_def s1_def sc)
  let ?lc = "(m_nLevelCurrent sc)[l := i]"
  show ?thesis
  proof (cases "m_pCurrent sc = p")
    case True
    have y: "SchedulerYield virt now cpu s = Some (Stay, (upd_sched ps (m_nLevelCurrent_update (\<lambda>_. ?lc)) s2)\<lparr>irq := (irq s)[cpu := True]\<rparr>)"
      using get w [folded s2_def] S C T l i p True ul lt unat_less_20 [OF i] F
      by (simp add: SchedulerYield_def s1_def [symmetric])
    have e: "sc\<lparr>m_nCurrentLevel := of_nat l, m_nCurrent := i, m_nLevelCurrent := ?lc, m_pCurrent := p\<rparr>
       = sc\<lparr>m_nCurrentLevel := of_nat l, m_nCurrent := i, m_nLevelCurrent := ?lc\<rparr>"
      using True by (cases sc) simp
    show ?thesis using y F True C S p(2) by (simp add: timers_ok_def) (simp only: e)
  next
    case False
    define s3 where "s3 = upd_sched ps (m_pCurrent_update (\<lambda>_. p)) (upd_sched ps (m_nLevelCurrent_update (\<lambda>_. ?lc)) s2)"
    have s3: "timers_ok s3" using C F by (simp add: s3_def timers_ok_def)
    obtain ts where ts: "UpdateKernelTimer cpu (g_nSchedulerTimer s ! cpu) (mPriority (task s3 p) + 1) s3 = Some (s3\<lparr>s_Timer := ts\<rparr>)"
      "timers_ok (s3\<lparr>s_Timer := ts\<rparr>)"
      using update_timer_ok [OF s3 S(1) C(4,5)] by blast
    have "SchedulerYield virt now cpu s = Some (SwitchTo (m_pCurrent sc) p, s3\<lparr>s_Timer := ts\<rparr>)"
      using get w [folded s2_def] S C T l i p False ul lt unat_less_20 [OF i] F ts(1)
      by (simp add: SchedulerYield_def s1_def [symmetric] TaskGetRegs_def getSchedulerTimer_def s3_def)
    then show ?thesis using F False C S p ts(2) by (simp add: s3_def)
  qed
qed

text \<open>Successive yields, seen from the scheduler.\<close>

primrec run_yields :: "virt_delete \<Rightarrow> (nat \<Rightarrow> nat \<Rightarrow> u32) \<Rightarrow> nat \<Rightarrow> nat \<Rightarrow> kernel \<Rightarrow> kernel option" where
  "run_yields virt now cpu 0 s = Some s"
| "run_yields virt now cpu (Suc k) s = do {
     s \<leftarrow> run_yields virt now cpu k s;
     (ev, s) \<leftarrow> SchedulerYield virt now cpu s;
     Some s }"

text \<open>Level \<open>l\<close> is full of ready tasks and everything above is blocked.\<close>

definition busy_level :: "TScheduler \<Rightarrow> (ptr \<Rightarrow> TTask) \<Rightarrow> nat \<Rightarrow> bool" where
  "busy_level sc tk l \<longleftrightarrow> l < 10 \<and> 0 < m_nTasks sc ! l \<and>
     (\<forall>i < unat (m_nTasks sc ! l). m_pTask sc ! l ! i \<noteq> NULL \<and> m_State (tk (m_pTask sc ! l ! i)) = TaskStateReady) \<and>
     (\<forall>k<10. l < k \<longrightarrow> (\<forall>i<20. m_pTask sc ! k ! i \<noteq> NULL \<longrightarrow> m_State (tk (m_pTask sc ! k ! i)) = TaskStateBlocked))"

lemma busy_pick:
  assumes tab: "table_ok sc tk" and busy: "busy_level sc tk l"
  shows "pick_level sc tk now l = Some (next_index (m_nTasks sc ! l) (m_nLevelCurrent sc ! l))"
    and "\<And>k i. l < k \<Longrightarrow> k < 10 \<Longrightarrow> i < 20 \<Longrightarrow> \<not> runnable tk (now k * 1000) (m_pTask sc ! k ! i)"
proof -
  let ?n = "m_nTasks sc ! l" and ?c = "m_nLevelCurrent sc ! l"
  have B: "l < 10" "0 < ?n" and r: "\<And>i. i < unat ?n \<Longrightarrow> m_pTask sc ! l ! i \<noteq> NULL \<and> m_State (tk (m_pTask sc ! l ! i)) = TaskStateReady"
    and h: "\<And>k i. l < k \<Longrightarrow> k < 10 \<Longrightarrow> i < 20 \<Longrightarrow> m_pTask sc ! k ! i \<noteq> NULL \<Longrightarrow> m_State (tk (m_pTask sc ! k ! i)) = TaskStateBlocked"
    using busy by (simp_all add: busy_level_def)
  have "unat (next_index ?n ?c) < unat ?n" using next_index_less [OF B(2)] by (simp add: word_less_nat_alt)
  then have run: "runnable tk (now l * 1000) (m_pTask sc ! l ! unat (next_index ?n ?c))"
    using r by (simp add: runnable_def)
  obtain m where m: "unat ?n = Suc m" using B(2) by (cases "unat ?n") (auto simp: unat_eq_0 word_gt_0)
  show "pick_level sc tk now l = Some (next_index ?n ?c)" using run by (simp add: pick_level_def m)
  show "\<not> runnable tk (now k * 1000) (m_pTask sc ! k ! i)" if "l < k" "k < 10" "i < 20" for k i
    using h [OF that] by (auto simp: runnable_def)
qed

lemma all_live_irq [simp]: "sched (s\<lparr>irq := x\<rparr>) = sched s" "task (s\<lparr>irq := x\<rparr>) = task s" by simp_all

lemma cpu_ok_sched: "cpu_ok cpu s \<Longrightarrow> sched_ok cpu s"
  by (simp add: cpu_ok_def)

lemma task_ready_same: "m_State (tk p) = TaskStateReady \<Longrightarrow> tk(p := (tk p)\<lparr>m_State := TaskStateReady\<rparr>) = tk"
  by (simp add: m_State_same)

lemma busy_next:
  assumes ok: "sched_ok cpu s" and ps: "ps = g_pScheduler s ! cpu" and sc: "sc = sched s ps"
    and live: "all_live sc (task s)" and busy: "busy_level sc (task s) l"
    and i: "i = next_index (m_nTasks sc ! l) (m_nLevelCurrent sc ! l)" and p: "p = m_pTask sc ! l ! unat i"
  shows "SchedulerGetNextTask virt nw cpu s = Some (i, TaskSetState p TaskStateReady (upd_sched ps (m_nCurrentLevel_update (\<lambda>_. of_nat l)) s))"
    "l < 10" "unat i < 20" "p \<noteq> NULL" "m_State (task s p) = TaskStateReady"
proof -
  have tab: "table_ok sc (task s)" using sched_okD(4) [OF ok] ps sc by simp
  show l: "l < 10" using busy by (simp add: busy_level_def)
  have n: "0 < m_nTasks sc ! l" using busy by (simp add: busy_level_def)
  have iu: "unat i < unat (m_nTasks sc ! l)" using next_index_less [OF n] i by (simp add: word_less_nat_alt)
  then show i20: "unat i < 20" using table_okD(5) [OF tab l] by simp
  show pr: "p \<noteq> NULL" "m_State (task s p) = TaskStateReady" using busy iu p by (simp_all add: busy_level_def)
  note B = busy_pick [OF tab busy]
  show "SchedulerGetNextTask virt nw cpu s = Some (i, TaskSetState p TaskStateReady (upd_sched ps (m_nCurrentLevel_update (\<lambda>_. of_nat l)) s))"
  proof (cases rule: get_next_cases [OF ok, of ps sc nw virt, case_names a b c found none])
    case (found l' i')
    have "l' = l"
    proof (rule ccontr)
      assume "l' \<noteq> l"
      then consider "l < l'" | "l' < l" by linarith
      then show False using found(1,3,4) found(6) [of l "unat i"] B(2) l i20 pr p by cases (auto simp: runnable_def)
    qed
    moreover from this have "i' = i" using found(5) B(1) i by simp
    ultimately show ?thesis using found(7) p by simp
  next
    case (none L)
    then show ?thesis using l i20 pr p by (auto simp: runnable_def)
  qed (use ps sc live in simp_all)
qed

lemma busy_yield:
  assumes ok: "cpu_ok cpu s" and ps: "ps = g_pScheduler s ! cpu" and sc: "sc = sched s ps"
    and live: "all_live sc (task s)" and busy: "busy_level sc (task s) l"
    and i: "i = next_index (m_nTasks sc ! l) (m_nLevelCurrent sc ! l)" and p: "p = m_pTask sc ! l ! unat i"
  shows "\<exists>s'. SchedulerYield virt now cpu s = Some (if m_pCurrent sc = p then Stay else SwitchTo (m_pCurrent sc) p, s') \<and>
     cpu_ok cpu s' \<and> g_pScheduler s' = g_pScheduler s \<and> task s' = task s \<and>
     sched s' ps = sc\<lparr>m_nCurrentLevel := of_nat l, m_nCurrent := i, m_nLevelCurrent := (m_nLevelCurrent sc)[l := i], m_pCurrent := p\<rparr>"
proof -
  define s1 where "s1 = s\<lparr>irq := (irq s)[cpu := False]\<rparr>"
  have tab: "table_ok sc (task s)" using sched_okD(4) [OF cpu_ok_sched [OF ok]] ps sc by simp
  have s1: "sched_ok cpu s1" "ps = g_pScheduler s1 ! cpu" "sc = sched s1 ps" "task s1 = task s"
    using cpu_ok_sched [OF ok] ps sc by (simp_all add: s1_def sched_ok_def)
  note N = busy_next [OF s1(1-3) _ _ i p, unfolded s1(4), OF live busy]
  note l = N(2) and i20 = N(3) and pr = N(4,5) and g = N(1)
  obtain s' where s': "SchedulerYield virt now cpu s = Some (if m_pCurrent sc = p then Stay else SwitchTo (m_pCurrent sc) p, s')"
     "sched s' = (sched s)(ps := sc\<lparr>m_nCurrentLevel := of_nat l, m_nCurrent := i, m_nLevelCurrent := (m_nLevelCurrent sc)[l := i], m_pCurrent := p\<rparr>)"
     "task s' = (task s)(p := (task s p)\<lparr>m_State := TaskStateReady\<rparr>)"
     "g_pScheduler s' = g_pScheduler s" "g_nSchedulerTimer s' = g_nSchedulerTimer s"
     "timers_ok s'" "length (irq s') = CPU_MAX_NUM"
    using yield_found [OF ok ps sc l i20 p pr(1), of virt now] g [unfolded s1_def] by blast
  have "task s' = task s" using s'(3) pr(2) by (simp add: task_ready_same)
  moreover have "table_ok (sc\<lparr>m_nCurrentLevel := of_nat l, m_nCurrent := i, m_nLevelCurrent := (m_nLevelCurrent sc)[l := i], m_pCurrent := p\<rparr>) (task s)"
    using table_ok_level_current [OF tab l i20] by (simp add: table_ok_def)
  ultimately have "cpu_ok cpu s'"
    using ok s' pr(1) ps by (simp add: cpu_ok_def sched_ok_def)
  then show ?thesis using s' \<open>task s' = task s\<close> by auto
qed

lemma orbit_nth: "j < k \<Longrightarrow> orbit n t k ! j = (next_index n ^^ Suc j) t"
proof (induction k arbitrary: t j)
  case (Suc k)
  then show ?case by (cases j) (simp_all add: funpow_swap1)
qed simp

lemma length_orbit [simp]: "length (orbit n t k) = k"
  by (induction k arbitrary: t) auto

lemma run_yields_busy:
  assumes ok: "cpu_ok cpu s" and ps: "ps = g_pScheduler s ! cpu" and sc: "sc = sched s ps"
    and live: "all_live sc (task s)" and busy: "busy_level sc (task s) l" and n: "n = m_nTasks sc ! l"
  shows "\<exists>s'. run_yields virt now cpu k s = Some s' \<and> cpu_ok cpu s' \<and> g_pScheduler s' = g_pScheduler s \<and>
     task s' = task s \<and> m_pTask (sched s' ps) = m_pTask sc \<and> m_nTasks (sched s' ps) = m_nTasks sc \<and>
     m_nLevelCurrent (sched s' ps) ! l = (next_index n ^^ k) (m_nLevelCurrent sc ! l) \<and>
     (0 < k \<longrightarrow> m_nCurrentLevel (sched s' ps) = of_nat l \<and>
        m_pCurrent (sched s' ps) = m_pTask sc ! l ! unat ((next_index n ^^ k) (m_nLevelCurrent sc ! l)))"
proof (induction k)
  case 0
  then show ?case using ok sc by simp
next
  case (Suc k)
  then obtain s1 where s1: "run_yields virt now cpu k s = Some s1" "cpu_ok cpu s1" "g_pScheduler s1 = g_pScheduler s"
    "task s1 = task s" "m_pTask (sched s1 ps) = m_pTask sc" "m_nTasks (sched s1 ps) = m_nTasks sc"
    "m_nLevelCurrent (sched s1 ps) ! l = (next_index n ^^ k) (m_nLevelCurrent sc ! l)" by blast
  have live1: "all_live (sched s1 ps) (task s1)" using live s1 by (simp add: all_live_def)
  have busy1: "busy_level (sched s1 ps) (task s1) l" using busy s1 by (simp add: busy_level_def)
  have ps1: "ps = g_pScheduler s1 ! cpu" using ps s1(3) by simp
  have l: "l < length (m_nLevelCurrent (sched s1 ps))"
    using table_okD(3) [OF sched_okD(4) [OF cpu_ok_sched [OF s1(2)]], of 0] busy ps1 by (simp add: busy_level_def)
  note Y = busy_yield [OF s1(2) ps1 refl live1 busy1 refl refl, of virt now]
  obtain ev s2 where s2: "SchedulerYield virt now cpu s1 = Some (ev, s2)" "cpu_ok cpu s2"
    "g_pScheduler s2 = g_pScheduler s1" "task s2 = task s1"
    "sched s2 ps = (sched s1 ps)\<lparr>m_nCurrentLevel := of_nat l,
        m_nCurrent := next_index (m_nTasks (sched s1 ps) ! l) (m_nLevelCurrent (sched s1 ps) ! l),
        m_nLevelCurrent := (m_nLevelCurrent (sched s1 ps))[l := next_index (m_nTasks (sched s1 ps) ! l) (m_nLevelCurrent (sched s1 ps) ! l)],
        m_pCurrent := m_pTask (sched s1 ps) ! l ! unat (next_index (m_nTasks (sched s1 ps) ! l) (m_nLevelCurrent (sched s1 ps) ! l))\<rparr>"
    using Y by blast
  then show ?case using s1 l n by simp
qed

section \<open>Properties\<close>

text \<open>C7: the search for the next task respects priorities and rotates within a level. On a well-formed
  table without ended tasks it always returns. If some task is runnable (ready, or asleep with its
  time reached), it returns an entry of the highest level that has a runnable task, the first
  runnable one after the entry that ran last on that level, and that task is ready afterwards;
  otherwise it returns \<open>MAX_TASKS\<close> and changes no task. The table stays well-formed.\<close>

theorem next_task_choice:
  assumes "sched_ok cpu s" "ps = g_pScheduler s ! cpu" "sc = sched s ps" "all_live sc (task s)"
  shows "\<exists>v s'. SchedulerGetNextTask virt now cpu s = Some (v, s') \<and> sched_ok cpu s' \<and>
     (if \<exists>l<10. \<exists>i<20. runnable (task s) (now l * 1000) (m_pTask sc ! l ! i)
      then \<exists>l<10. m_nCurrentLevel (sched s' ps) = of_nat l \<and> v < m_nTasks sc ! l \<and>
         runnable (task s) (now l * 1000) (m_pTask sc ! l ! unat v) \<and>
         m_State (task s' (m_pTask sc ! l ! unat v)) = TaskStateReady \<and>
         (\<forall>l'<10. l < l' \<longrightarrow> (\<forall>i<20. \<not> runnable (task s) (now l' * 1000) (m_pTask sc ! l' ! i))) \<and>
         (\<exists>ys zs. orbit (m_nTasks sc ! l) (m_nLevelCurrent sc ! l) (unat (m_nTasks sc ! l)) = ys @ v # zs \<and>
            (\<forall>y \<in> set ys. \<not> runnable (task s) (now l * 1000) (m_pTask sc ! l ! unat y)))
      else v = MAX_TASKS \<and> task s' = task s)"
proof (cases rule: get_next_cases [OF assms, where now = now and virt = virt, case_names found none])
  case (found l i)
  have tab: "table_ok sc (task s)" using sched_okD(4) [OF assms(1)] assms(2,3) by simp
  have ex: "\<exists>l<10. \<exists>i<20. runnable (task s) (now l * 1000) (m_pTask sc ! l ! i)" using found(1,3,4) by blast
  define s' where "s' = TaskSetState (m_pTask sc ! l ! unat i) TaskStateReady (upd_sched ps (m_nCurrentLevel_update (\<lambda>_. of_nat l)) s)"
  have ok': "sched_ok cpu s'" using sched_ok_ready [OF assms(1)] assms(2) by (simp add: s'_def)
  have rdy: "m_State (task s' (m_pTask sc ! l ! unat i)) = TaskStateReady"
    using found(4) by (simp add: runnable_def s'_def)
  have lev: "m_nCurrentLevel (sched s' ps) = of_nat l" by (simp add: s'_def)
  note first = pick_level_Some(4) [OF tab found(1,5)]
  show ?thesis
    unfolding if_P [OF ex]
  proof (intro exI [of _ i] exI [of _ s'] exI [of _ l] conjI allI impI)
    show "SchedulerGetNextTask virt now cpu s = Some (i, s')" using found(7) by (simp only: s'_def)
  qed (fact ok' found(1) lev found(2) found(4) rdy first | rule found(6); assumption)+
next
  case (none L)
  let ?s = "upd_sched ps (m_nCurrentLevel_update (\<lambda>_. L)) s"
  have "sched_ok cpu ?s" using assms(1,2) by (simp add: sched_ok_def)
  then show ?thesis using none by (intro exI [of _ MAX_TASKS] exI [of _ ?s]) auto
qed

text \<open>C8: no ready task starves within its level. When level \<open>l\<close> of a processor holds \<open>n\<close> ready
  tasks and all tasks of higher levels are blocked, every one of the \<open>n\<close> tasks is the current task after
  some number of yields between 1 and \<open>n\<close>.\<close>

theorem round_robin_fair:
  assumes "cpu_ok cpu s" "ps = g_pScheduler s ! cpu" "sc = sched s ps"
    and "all_live sc (task s)" "busy_level sc (task s) l" "i < unat (m_nTasks sc ! l)"
  shows "\<exists>k s'. 1 \<le> k \<and> k \<le> unat (m_nTasks sc ! l) \<and> run_yields virt now cpu k s = Some s' \<and>
     m_pCurrent (sched s' ps) = m_pTask sc ! l ! i"
proof -
  let ?n = "m_nTasks sc ! l" and ?c = "m_nLevelCurrent sc ! l"
  have n: "0 < ?n" using assms(5) by (simp add: busy_level_def)
  have "i < 2 ^ 32" using assms(6) unsigned_less [of ?n, where 'a = nat] by simp
  then have u: "unat (of_nat i :: u32) = i" by (simp add: unat_of_nat_small)
  then have "of_nat i \<in> set (orbit ?n ?c (unat ?n))"
    using assms(6) by (intro orbit_covers [OF n]) (simp add: word_less_nat_alt)
  then obtain j where j: "j < unat ?n" "(next_index ?n ^^ Suc j) ?c = of_nat i"
    by (metis in_set_conv_nth length_orbit orbit_nth)
  obtain s' where "run_yields virt now cpu (Suc j) s = Some s'"
    "m_pCurrent (sched s' ps) = m_pTask sc ! l ! unat ((next_index ?n ^^ Suc j) ?c)"
    using run_yields_busy [OF assms(1-5) refl, of virt now "Suc j"] by blast
  then show ?thesis using j u by (intro exI [of _ "Suc j"] exI [of _ s']) simp
qed

text \<open>A processor with two ready tasks on level 3.\<close>

definition demo_task :: TTask where
  "demo_task = \<lparr>m_derivedObj = 0, Run = TaskRun_fn, delete = delete_Task_fn, m_State = TaskStateReady,
     m_nWakeTicks = 0, m_Regs = regs_zero, m_nStackSize = 0, m_pStack = 0, mPriority = 20, mLevel = 3\<rparr>"

definition demo_sched :: TScheduler where
  "demo_sched = \<lparr>m_pTask = (replicate 10 (replicate 20 NULL))[3 := 0x1000 # 0x2000 # replicate 18 NULL],
     m_nTasks = (replicate 10 0)[3 := 2], m_nLevelCurrent = (replicate 10 (- 1))[3 := 0],
     m_pCurrent = 0x1000, m_nCurrentLevel = 3, m_nCurrent = 0\<rparr>"

definition demo_kernel :: kernel where
  "demo_kernel = \<lparr>jiffies = 0, s_Timer = replicate CPU_MAX_NUM timer_zero, heap = boot_heap,
     task = (\<lambda>_. demo_task), sched = (\<lambda>_. demo_sched), g_pScheduler = replicate CPU_MAX_NUM 0x9000,
     g_nSchedulerTimer = replicate CPU_MAX_NUM 1, irq = replicate CPU_MAX_NUM True\<rparr>"

lemma demo_row: "i < 20 \<Longrightarrow> ((0x1000::ptr) # 0x2000 # replicate 18 NULL) ! i = (if i = 0 then 0x1000 else if i = 1 then 0x2000 else NULL)"
  by (auto simp: nth_Cons split: nat.splits)

lemma demo_table: "table_ok demo_sched (\<lambda>_. demo_task)" "all_live demo_sched (\<lambda>_. demo_task)"
  "busy_level demo_sched (\<lambda>_. demo_task) 3"
proof -
  show "table_ok demo_sched (\<lambda>_. demo_task)"
    unfolding table_ok_def demo_sched_def
    by (auto simp: row_ok_def nth_list_update demo_row demo_task_def split: if_splits)
  show "all_live demo_sched (\<lambda>_. demo_task)" by (simp add: all_live_def live_state_def demo_task_def)
  have "i < 2 \<Longrightarrow> i = 0 \<or> i = 1" for i :: nat by auto
  then show "busy_level demo_sched (\<lambda>_. demo_task) 3"
    unfolding busy_level_def demo_sched_def
    by (auto simp: nth_list_update demo_task_def demo_row)
qed

lemma demo_ok: "cpu_ok 0 demo_kernel" "sched_ok 0 demo_kernel"
  using demo_table(1)
  by (simp_all add: cpu_ok_def sched_ok_def demo_kernel_def CPU_MAX_NUM_def timers_ok_def timer_zero_def KERNEL_TIMERS_def demo_sched_def)

lemma demo_fields:
  "g_pScheduler demo_kernel ! 0 = 0x9000" "sched demo_kernel = (\<lambda>_. demo_sched)" "task demo_kernel = (\<lambda>_. demo_task)"
  by (simp_all add: demo_kernel_def CPU_MAX_NUM_def)

theorem next_task_choice_witness:
  "\<exists>v s'. SchedulerGetNextTask (\<lambda>_ _. Some) (\<lambda>_. 0) 0 demo_kernel = Some (v, s') \<and> sched_ok 0 s'"
  using next_task_choice [OF demo_ok(2) refl refl, of "\<lambda>_ _. Some" "\<lambda>_. 0"] demo_table(2) by (auto simp: demo_fields)

theorem round_robin_fair_witness:
  "\<exists>k s'. 1 \<le> k \<and> k \<le> 2 \<and> run_yields (\<lambda>_ _. Some) (\<lambda>_ _. 0) 0 k demo_kernel = Some s' \<and> m_pCurrent (sched s' 0x9000) = 0x1000"
proof -
  have "unat (m_nTasks demo_sched ! 3) = 2" "m_pTask demo_sched ! 3 ! 0 = 0x1000" by (simp_all add: demo_sched_def)
  then show ?thesis
    using round_robin_fair [OF demo_ok(1) refl refl, of 3 0 "\<lambda>_ _. Some" "\<lambda>_ _. 0"] demo_table by (auto simp: demo_fields)
qed

section \<open>The end of a time slice\<close>

text \<open>The state in which a time slice ends: the tables are consistent, a level has tasks and all of them are ready, the levels
  above it are blocked.\<close>

definition slice_ok :: "ptr \<Rightarrow> nat \<Rightarrow> kernel \<Rightarrow> bool" where
  "slice_ok handler cpu s \<longleftrightarrow> handler \<noteq> NULL \<and> cpu_ok cpu s \<and>
     (let sc = sched s (g_pScheduler s ! cpu) in all_live sc (task s) \<and> (\<exists>l. busy_level sc (task s) l))"

text \<open>The handler of kernel timers: \<open>ms h\<close> is the frame of the interrupt when the timer \<open>h\<close> fires.\<close>

definition slice_handler ::
  "virt_delete \<Rightarrow> (nat \<Rightarrow> nat \<Rightarrow> u32) \<Rightarrow> ptr \<Rightarrow> ptr \<Rightarrow> nat \<Rightarrow> (u32 \<Rightarrow> ptr \<Rightarrow> u32) \<Rightarrow> ptr \<Rightarrow> u32 \<Rightarrow> ptr \<Rightarrow> ptr \<Rightarrow> kernel \<Rightarrow> kernel option" where
  "slice_handler virt now handler e cpu ms p hTimer pParam pContext s = do {
     (m, s) \<leftarrow> TimeSliceTimerHandler virt now handler e cpu (ms hTimer) hTimer pParam pContext s; Some s }"

lemma task_state_cong:
  assumes "\<And>q. m_State (tk' q) = m_State (tk q) \<and> mLevel (tk' q) = mLevel (tk q)"
  shows "table_ok sc tk' = table_ok sc tk" "all_live sc tk' = all_live sc tk" "busy_level sc tk' l = busy_level sc tk l"
  using assms by (simp_all add: table_ok_def row_ok_def all_live_def busy_level_def)

text \<open>The end of a time slice, up to the restart of the timer.\<close>

lemma slice_switch:
  assumes good: "slice_ok handler cpu s"
  obtains d m3 s3 where "SchedulerYieldInterrupt virt now handler e cpu m s = do {
      (h, s') \<leftarrow> StartKernelTimer cpu d handler 0 0 s3; s' \<leftarrow> setSchedulerTimer cpu h s'; Some (m3, s') }"
    "slice_ok handler cpu s3" "s_Timer s3 = s_Timer s" "jiffies s3 = jiffies s"
proof -
  define ps sc where "ps = g_pScheduler s ! cpu" and "sc = sched s ps"
  obtain l where G: "handler \<noteq> NULL" "cpu_ok cpu s" "all_live sc (task s)" "busy_level sc (task s) l"
    using good unfolding slice_ok_def Let_def ps_def sc_def by blast
  define i p where "i = next_index (m_nTasks sc ! l) (m_nLevelCurrent sc ! l)" and "p = m_pTask sc ! l ! unat i"
  have so: "sched_ok cpu s" by (rule cpu_ok_sched [OF G(2)])
  note N = busy_next [OF so ps_def sc_def G(3,4) i_def p_def] and S = sched_okD [OF so, folded ps_def sc_def]
  note T = table_okD [OF S(4) N(2)]
  have C: "m_pCurrent sc \<noteq> NULL" using G(2) by (simp add: cpu_ok_def ps_def sc_def)
  define s2 where "s2 = TaskSetState p TaskStateReady (upd_sched ps (\<lambda>sc. sc\<lparr>m_nCurrentLevel := of_nat l, m_nCurrent := i\<rparr>) s)"
  have w: "wait_ready virt now 0 cpu s = Some s2" unfolding s2_def by (rule wait_ready_found [OF so ps_def N(3,1)])
  have ul: "unat (of_nat l :: u32) = l" using N(2) by (simp add: unat_of_nat_small)
  have lt: "(of_nat l :: u32) < MAX_TASK_LEVELS" using N(2) ul by (simp add: word_less_nat_alt MAX_TASK_LEVELS_def)
  let ?lc = "(m_nLevelCurrent sc)[l := i]" and ?d = "if m_pCurrent sc = p then 10 else mPriority (task s p)"
  let ?sc = "sc\<lparr>m_nCurrentLevel := of_nat l, m_nCurrent := i, m_nLevelCurrent := ?lc, m_pCurrent := p\<rparr>"
  have F: "sched s2 = (sched s)(ps := sc\<lparr>m_nCurrentLevel := of_nat l, m_nCurrent := i\<rparr>)" "task s2 = task s"
    "g_pScheduler s2 = g_pScheduler s" "g_nSchedulerTimer s2 = g_nSchedulerTimer s" "s_Timer s2 = s_Timer s" "irq s2 = irq s" "jiffies s2 = jiffies s"
    using N(4,5) by (simp_all add: s2_def sc_def task_ready_same)
  obtain m3 s3 where s3: "(m3, s3) = (if m_pCurrent sc = p then (m, upd_sched ps (m_nLevelCurrent_update (\<lambda>_. ?lc)) s2)
      else TaskSwitchInterrupt e (m_pCurrent sc) p m (upd_sched ps (m_pCurrent_update (\<lambda>_. p)) (upd_sched ps (m_nLevelCurrent_update (\<lambda>_. ?lc)) s2)))"
    by (metis prod.exhaust)
  have run: "SchedulerYieldInterrupt virt now handler e cpu m s = do {
      (h, s') \<leftarrow> StartKernelTimer cpu ?d handler 0 0 s3; s' \<leftarrow> setSchedulerTimer cpu h s'; Some (m3, s') }"
    using s3 ScheduerGet_ok [OF so] w S C T N(2-4) ul lt unat_less_20 [OF N(3)] F p_def
    by (auto simp: SchedulerYieldInterrupt_def ps_def [symmetric] TaskGetRegs_def TaskSwitchInterrupt_def Let_def split: if_splits)
  have U: "sched s3 ps = ?sc" "g_pScheduler s3 = g_pScheduler s" "g_nSchedulerTimer s3 = g_nSchedulerTimer s" "s_Timer s3 = s_Timer s"
    "irq s3 = irq s" "jiffies s3 = jiffies s" "\<And>q. m_State (task s3 q) = m_State (task s q) \<and> mLevel (task s3 q) = mLevel (task s q)"
    using s3 F by (auto simp: TaskSwitchInterrupt_def Let_def upd_sched_def upd_task_def split: if_splits)
  note K = task_state_cong [of "task s3" "task s", OF U(7)]
  have "table_ok ?sc (task s)" using table_ok_level_current [OF S(4) N(2,3)] by (simp add: table_ok_def)
  then have "cpu_ok cpu s3"
    using G(2) N(4) U by (simp add: cpu_ok_def sched_ok_def ps_def timers_ok_def K)
  moreover have "all_live ?sc (task s)" "busy_level ?sc (task s) l" using G(3,4) by (simp_all add: all_live_def busy_level_def)
  ultimately have "slice_ok handler cpu s3" using G(1) U(1,2) by (auto simp: slice_ok_def K ps_def)
  then show thesis using that [OF run] U(4,6) by blast
qed

lemma slice_ends:
  assumes good: "slice_ok handler cpu s" and h: "h < KERNEL_TIMERS" "m_pHandler (timer_entry cpu h s) = NULL"
  shows "\<exists>m' s'. SchedulerYieldInterrupt virt now handler e cpu m s = Some (m', s') \<and> slice_ok handler cpu s' \<and> jiffies s' = jiffies s \<and>
     entries_kept cpu h s s'"
proof -
  obtain d m3 s3 where Y: "SchedulerYieldInterrupt virt now handler e cpu m s = do {
      (h, s') \<leftarrow> StartKernelTimer cpu d handler 0 0 s3; s' \<leftarrow> setSchedulerTimer cpu h s'; Some (m3, s') }"
    "slice_ok handler cpu s3" "s_Timer s3 = s_Timer s" "jiffies s3 = jiffies s" by (rule slice_switch [OF good])
  have G: "handler \<noteq> NULL" "cpu_ok cpu s3" "cpu < CPU_MAX_NUM" "timers_ok s3" "length (g_nSchedulerTimer s3) = CPU_MAX_NUM"
    using Y(2) by (simp_all add: slice_ok_def cpu_ok_def sched_ok_def)
  have e: "timer_entry cpu j s3 = timer_entry cpu j s" for j by (simp add: timer_entry_def Y(3))
  obtain j ts where J: "j \<le> h" "TimerStartKernelTimer cpu d handler 0 0 s3 = Some (of_nat j + 1, s3\<lparr>s_Timer := ts\<rparr>)"
    "timers_ok (s3\<lparr>s_Timer := ts\<rparr>)" "m_pHandler (timer_entry cpu j s3) = NULL"
    "\<And>k. k \<noteq> j \<Longrightarrow> timer_entry cpu k (s3\<lparr>s_Timer := ts\<rparr>) = timer_entry cpu k s3"
    by (rule start_first [OF G(4,3) h(1) h(2) [folded e] G(1)], rule that)
  define s4 where "s4 = s3\<lparr>s_Timer := ts, g_nSchedulerTimer := (g_nSchedulerTimer s3)[cpu := of_nat j + 1]\<rparr>"
  have "SchedulerYieldInterrupt virt now handler e cpu m s = Some (m3, s4)"
    using Y(1) J(2) G(3,5) by (simp add: StartKernelTimer_def TimerGet_def setSchedulerTimer_def s4_def)
  moreover have "entries_kept cpu h s s4"
    unfolding entries_kept_def
  proof (intro allI impI)
    fix k assume "k < KERNEL_TIMERS"
    have "timer_entry cpu k s4 = timer_entry cpu k (s3\<lparr>s_Timer := ts\<rparr>)" by (simp add: timer_entry_def s4_def)
    then show "if m_pHandler (timer_entry cpu k s) \<noteq> NULL then timer_entry cpu k s4 = timer_entry cpu k s
       else h < k \<longrightarrow> \<not> due (jiffies s) (timer_entry cpu k s4)"
      using J(1,4) J(5) [of k] by (cases "k = j") (auto simp: e)
  qed
  moreover have "unat (of_nat j + 1 :: u32) = j + 1" using J(1) h(1) by (subst unat_add_no_wrap) (simp_all add: unat_of_nat_small KERNEL_TIMERS_def)
  then have "slice_ok handler cpu s4"
    using Y(2) G(3,5) J(1,3) h(1) by (simp add: slice_ok_def cpu_ok_def sched_ok_def s4_def timers_ok_def)
  ultimately show ?thesis using Y(4) by (auto simp: s4_def)
qed

lemma slice_ok_free: "slice_ok handler cpu s \<Longrightarrow> slice_ok handler cpu (free_entry cpu h s)"
proof -
  assume A: "slice_ok handler cpu s"
  then have c: "timers_ok s" "cpu < CPU_MAX_NUM" by (simp_all add: slice_ok_def cpu_ok_def sched_ok_def)
  have "timers_ok (free_entry cpu h s)" unfolding free_entry_def using timers_okD(2) [OF c] by (intro timers_ok_upd [OF c(1)]) simp
  then show ?thesis using A by (simp add: slice_ok_def cpu_ok_def sched_ok_def free_entry_def)
qed

interpretation slice: timer_handler "slice_handler virt now handler e cpu ms" cpu "slice_ok handler cpu"
proof unfold_locales
  show "timers_ok s \<and> cpu < CPU_MAX_NUM" if "slice_ok handler cpu s" for s
    using that by (simp add: slice_ok_def cpu_ok_def sched_ok_def)
  show "slice_ok handler cpu (free_entry cpu h s)" if "slice_ok handler cpu s" for s h by (rule slice_ok_free [OF that])
  show "\<exists>s'. slice_handler virt now handler e cpu ms p (of_nat h + 1) a c s = Some s' \<and> slice_ok handler cpu s' \<and> jiffies s' = jiffies s \<and> entries_kept cpu h s s'"
    if "slice_ok handler cpu s" "h < KERNEL_TIMERS" "m_pHandler (timer_entry cpu h s) = NULL" for s h p a c
    using slice_ends [OF that, of virt now e "ms (of_nat h + 1)"] by (auto simp: slice_handler_def TimeSliceTimerHandler_def)
qed

text \<open>C6: A poll of the kernel timers with the handler that the kernel registers, \<open>TimeSliceTimerHandler\<close>, which switches tasks and starts
  its timer again while the poll is under way. The poll returns. It calls the handler of exactly those timers that are due when it begins, once
  each and in the order of the table, with their handles, parameters and contexts, and each with its entry freed; a timer that a handler starts is not
  called in the same poll; every other running timer keeps its entry. The condition is \<open>slice_ok\<close>, which the poll keeps: the tables are consistent, all
  tasks of some level are ready, those of the levels above are blocked, and no task has ended.\<close>

theorem poll_calls_due_timers:
  assumes "slice_ok handler cpu s" "ks = m_KernelTimer (s_Timer s ! cpu)"
  shows "\<exists>s'. TimerPollKernelTimers (slice_handler virt now handler e cpu ms) cpu s = Some s' \<and>
     fire (slice_handler virt now handler e cpu ms) cpu ks (filter (\<lambda>h. due (jiffies s) (ks ! h)) [0..<KERNEL_TIMERS]) s = Some s' \<and>
     slice_ok handler cpu s' \<and> jiffies s' = jiffies s \<and>
     (\<forall>i<KERNEL_TIMERS. m_pHandler (ks ! i) \<noteq> NULL \<and> \<not> due (jiffies s) (ks ! i) \<longrightarrow> timer_entry cpu i s' = ks ! i)"
  using assms by (rule slice.poll_fires)

definition slice_kernel :: kernel where
  "slice_kernel = demo_kernel\<lparr>s_Timer := replicate CPU_MAX_NUM (timer_zero\<lparr>m_KernelTimer := (m_KernelTimer timer_zero)
     [0 := \<lparr>m_pHandler = 0x8000, m_nElapsesAt = 0, m_pParam = 0, m_pContext = 0\<rparr>,
      1 := \<lparr>m_pHandler = 0x8000, m_nElapsesAt = 5, m_pParam = 0, m_pContext = 0\<rparr>]\<rparr>)\<rparr>"

theorem poll_calls_due_timers_witness:
  "\<exists>s'. TimerPollKernelTimers (slice_handler (\<lambda>_ _. Some) (\<lambda>_ _. 0) 0x8000 0x5000 0 (\<lambda>_ _. 1)) 0 slice_kernel = Some s' \<and>
     slice_handler (\<lambda>_ _. Some) (\<lambda>_ _. 0) 0x8000 0x5000 0 (\<lambda>_ _. 1) 0x8000 1 0 0 (free_entry 0 0 slice_kernel) = Some s' \<and>
     m_nElapsesAt (timer_entry 0 1 s') = 5"
proof -
  let ?ks = "m_KernelTimer (s_Timer slice_kernel ! 0)"
  have "slice_ok 0x8000 0 slice_kernel"
    using demo_ok(1) demo_table(2,3)
    by (auto simp: slice_ok_def slice_kernel_def cpu_ok_def sched_ok_def demo_fields timers_ok_def timer_zero_def CPU_MAX_NUM_def)
  moreover have k: "?ks = \<lparr>m_pHandler = 0x8000, m_nElapsesAt = 0, m_pParam = 0, m_pContext = 0\<rparr> #
     \<lparr>m_pHandler = 0x8000, m_nElapsesAt = 5, m_pParam = 0, m_pContext = 0\<rparr> # replicate 18 kernel_timer_zero"
    by (simp add: slice_kernel_def timer_zero_def CPU_MAX_NUM_def KERNEL_TIMERS_def) (simp add: numeral_eq_Suc)
  moreover have "jiffies slice_kernel = 0" by (simp add: slice_kernel_def demo_kernel_def)
  moreover have "[0..<KERNEL_TIMERS] = 0 # 1 # [2..<20]" by (simp add: KERNEL_TIMERS_def upt_rec)
  moreover have "filter (\<lambda>h. due 0 (?ks ! h)) [2..<20] = []"
    unfolding k by (auto simp: filter_empty_conv nth_Cons' kernel_timer_zero_def)
  ultimately show ?thesis
    using poll_calls_due_timers [of "0x8000" 0 slice_kernel ?ks "\<lambda>_ _. Some" "\<lambda>_ _. 0" "0x5000" "\<lambda>_ _. 1"]
    by (auto simp: elapsed_def k KERNEL_TIMERS_def split: bind_splits dest!: spec [of _ 1])
qed

text \<open>The words of the frame are at distinct addresses.\<close>

lemma read_write_frame:
  "read_frame e (write_frame e r m) = (if spsr r = 0 then r\<lparr>spsr := m (e - 68)\<rparr> else r)"
  by (cases r) (simp add: read_frame_def write_frame_def Let_def)

lemma write_read_frame:
  "write_frame e (read_frame e m) (write_frame e r m) a =
     (if a = e - 68 \<and> m (e - 68) = 0 \<and> spsr r \<noteq> 0 then spsr r else m a)"
  by (simp add: read_frame_def write_frame_def Let_def)

text \<open>an interrupt switch loses no register. When task \<open>a\<close> is interrupted, with its registers in the
  frame below \<open>e\<close> of the interrupt stack memory \<open>m\<close>, and the switch goes to \<open>b\<close>, the frame holds exactly
  the registers that were saved for \<open>b\<close>; when \<open>b\<close> is interrupted later, with any memory \<open>m2\<close>, and the
  switch goes back to \<open>a\<close>, the frame holds the registers of \<open>a\<close> again and those of \<open>b\<close> are saved
  (a saved status register is never 0).\<close>

lemma context_switch_roundtrip:
  assumes "a \<noteq> b" "m (e - 68) \<noteq> 0" "spsr (m_Regs (task s b)) \<noteq> 0"
    and "TaskSwitchInterrupt e a b m s = (m1, s1)" "TaskSwitchInterrupt e b a m2 s1 = (m3, s3)"
  shows "read_frame e m1 = m_Regs (task s b) \<and> read_frame e m3 = read_frame e m \<and>
     m_Regs (task s3 b) = read_frame e m2 \<and> (\<forall>p. p \<noteq> a \<and> p \<noteq> b \<longrightarrow> task s3 p = task s p)"
proof -
  have "spsr (read_frame e m) \<noteq> 0" using assms(2) by (simp add: read_frame_def)
  then show ?thesis using assms by (auto simp: TaskSwitchInterrupt_def Let_def read_write_frame)
qed

lemma find_entry_Some:
  "find_entry p n row = Some i \<Longrightarrow> i < n \<and> i < length row \<and> row ! i = p"
  by (induction p n row arbitrary: i rule: find_entry.induct) (auto split: if_splits)

lemma find_entry_None:
  "find_entry p n row = None \<Longrightarrow> i < n \<Longrightarrow> i < length row \<Longrightarrow> row ! i \<noteq> p"
  by (induction p n row arbitrary: i rule: find_entry.induct) (auto split: if_splits nat.splits simp: nth_Cons)

text \<open>The abstract state of a level: the set of its tasks.\<close>

definition tasks_of :: "TScheduler \<Rightarrow> nat \<Rightarrow> ptr set" where
  "tasks_of sc l = set (m_pTask sc ! l) - {NULL}"

lemma row_ok_store:
  assumes "row_ok tk l row n c" "i < 20" "p \<noteq> NULL" "p \<notin> set row" "row ! i = NULL"
    and "mLevel (tk p) = of_nat l" "m_State (tk p) \<noteq> TaskStateUnknown"
    and "i < unat n'" "unat n \<le> unat n'" "unat n' \<le> 20"
  shows "row_ok tk l (row[i := p]) n' c"
proof -
  have len: "length row = 20" using assms(1) by (simp add: row_ok_def)
  have np: "row ! j \<noteq> p" if "j < 20" for j using assms(4) len that by auto
  show ?thesis
    using assms(1,2,3,6-10) np len unfolding row_ok_def by (force simp: nth_list_update)
qed

lemma row_ok_clear:
  assumes "row_ok tk l row n c" "i < 20" "row ! i = p" "unat n' = (if i = unat n - 1 then unat n - 1 else unat n)"
  shows "row_ok tk l (row[i := NULL]) n' c"
proof -
  have len: "length row = 20" and n': "unat n' \<le> 20" using assms(1,4) by (auto simp: row_ok_def)
  have lt: "j < unat n'" if "j < 20" "row ! j \<noteq> NULL" "j \<noteq> i" for j
  proof -
    have "j < unat n" using assms(1) that by (simp add: row_ok_def)
    then show ?thesis using assms(4) that(3) by (cases "i = unat n - 1") auto
  qed
  show ?thesis
    using assms(1,2) n' lt len unfolding row_ok_def by (auto simp: nth_list_update)
qed

lemma table_ok_row:
  assumes "table_ok sc tk" "l < 10" "row_ok tk l row n (m_nLevelCurrent sc ! l)"
  shows "table_ok (sc\<lparr>m_pTask := (m_pTask sc)[l := row], m_nTasks := (m_nTasks sc)[l := n]\<rparr>) tk"
  using assms by (auto simp: table_ok_def nth_list_update)

lemma list_split_nth:
  assumes "i < length xs"
  obtains ys zs where "xs = ys @ xs ! i # zs" "\<And>x. xs[i := x] = ys @ x # zs"
  using assms that [of "take i xs" "drop (Suc i) xs"]
  by (metis id_take_nth_drop upd_conv_take_nth_drop)

lemma set_upd_hole:
  assumes "i < length row" "row ! i = NULL" "p \<noteq> NULL"
  shows "set (row[i := p]) - {NULL} = insert p (set row - {NULL})"
proof -
  obtain ys zs where r: "row = ys @ row ! i # zs" and u: "\<And>x. row[i := x] = ys @ x # zs"
    using list_split_nth [OF assms(1)] by blast
  have "set row = insert NULL (set ys \<union> set zs)" by (subst r) (simp add: assms(2))
  then show ?thesis using assms(3) by (auto simp: u)
qed

lemma set_upd_clear:
  assumes "row_ok tk l row n c" "i < 20" "row ! i = p" "p \<noteq> NULL"
  shows "set (row[i := NULL]) - {NULL} = set row - {NULL} - {p}"
proof -
  have len: "length row = 20" and inj: "\<And>j. j < 20 \<Longrightarrow> row ! j = p \<Longrightarrow> j = i"
    using assms by (auto simp: row_ok_def)
  have "set (row[i := NULL]) - {NULL} = {row ! j |j. j < 20 \<and> j \<noteq> i} - {NULL}"
  proof (rule set_eqI)
    fix x
    have "x \<in> set (row[i := NULL]) \<longleftrightarrow> (\<exists>j<20. x = row[i := NULL] ! j)" using len by (auto simp: in_set_conv_nth)
    then show "x \<in> set (row[i := NULL]) - {NULL} \<longleftrightarrow> x \<in> {row ! j |j. j < 20 \<and> j \<noteq> i} - {NULL}"
      using assms(2) len by (auto simp: nth_list_update)
  qed
  also have "{row ! j |j. j < 20 \<and> j \<noteq> i} = set row - {p}"
  proof (rule set_eqI)
    fix x
    have "x \<in> set row \<longleftrightarrow> (\<exists>j<20. x = row ! j)" using len by (auto simp: in_set_conv_nth)
    then show "x \<in> {row ! j |j. j < 20 \<and> j \<noteq> i} \<longleftrightarrow> x \<in> set row - {p}" using inj assms(2,3) by blast
  qed
  finally show ?thesis by auto
qed

lemma level_word: "unat (l::u32) < 10 \<Longrightarrow> l < MAX_TASK_LEVELS"
  by (simp add: MAX_TASK_LEVELS_def word_less_nat_alt)

text \<open>adding a task enters it in its level. When the level of the task has room, \<open>SchedulerAddTask\<close>
  fails no assertion, the set of tasks of that level gains exactly the new task, the other levels do not
  change, and the table stays well-formed.\<close>

lemma add_task_refines:
  assumes ok: "sched_ok cpu s" and ps: "ps = g_pScheduler s ! cpu" and sc: "sc = sched s ps"
    and p: "p \<noteq> NULL" "l = unat (mLevel (task s p))" "l < 10" "m_State (task s p) \<noteq> TaskStateUnknown"
    and new: "p \<notin> tasks_of sc l" and room: "NULL \<in> set (m_pTask sc ! l)"
  shows "\<exists>s'. SchedulerAddTask cpu p s = Some s' \<and> sched_ok cpu s' \<and>
     tasks_of (sched s' ps) l = insert p (tasks_of sc l) \<and>
     (\<forall>k. k \<noteq> l \<longrightarrow> tasks_of (sched s' ps) k = tasks_of sc k)"
proof -
  note S = sched_okD [OF ok, folded ps]
  have tab: "table_ok sc (task s)" using S(4) sc by simp
  note D = table_okD [OF tab p(3)]
  let ?row = "m_pTask sc ! l" and ?n = "m_nTasks sc ! l"
  have row: "row_ok (task s) l ?row ?n (m_nLevelCurrent sc ! l)" using tab p(3) by (simp add: table_ok_def)
  have np: "p \<notin> set ?row" using new p(1) by (simp add: tasks_of_def)
  have lev: "mLevel (task s p) = of_nat l" using p(2) by simp
  have lw: "mLevel (task s p) < MAX_TASK_LEVELS" using p(2,3) by (intro level_word) simp
  obtain i n' where i: "i < 20" "?row ! i = NULL" "i < unat n'" "unat ?n \<le> unat n'" "unat n' \<le> 20"
    and add: "SchedulerAddTask cpu p s = Some (upd_sched ps (\<lambda>sc. sc\<lparr>m_pTask := (m_pTask sc)[l := ?row[i := p]],
        m_nTasks := (m_nTasks sc)[l := n']\<rparr>) s)"
  proof (cases "find_entry NULL (unat ?n) ?row")
    case (Some i)
    have e: "sc\<lparr>m_pTask := (m_pTask sc)[l := r], m_nTasks := (m_nTasks sc)[l := ?n]\<rparr> = sc\<lparr>m_pTask := (m_pTask sc)[l := r]\<rparr>" for r
      by (cases sc) simp
    have "upd_sched ps (\<lambda>sc. sc\<lparr>m_pTask := (m_pTask sc)[l := r], m_nTasks := (m_nTasks sc)[l := ?n]\<rparr>) s
       = upd_sched ps (\<lambda>sc. sc\<lparr>m_pTask := (m_pTask sc)[l := r]\<rparr>) s" for r
      using e [of r] sc by (simp add: upd_sched_def)
    then show thesis
      using that [of i ?n] find_entry_Some [OF Some] Some D ScheduerGet_ok [OF ok] ps sc p lw
      by (simp add: SchedulerAddTask_def)
  next
    case None
    obtain k where k: "k < 20" "?row ! k = NULL" using room D(4) by (auto simp: in_set_conv_nth)
    have n20: "unat ?n < 20"
    proof (rule ccontr)
      assume "\<not> unat ?n < 20"
      then show False using find_entry_None [OF None, of k] k D(4) by simp
    qed
    have nn: "?row ! unat ?n = NULL" using D(8) [OF n20] by auto
    have n1: "unat (?n + 1) = unat ?n + 1" using n20 by (simp add: unat_add_no_wrap)
    show thesis
      using that [of "unat ?n" "?n + 1"] n20 nn n1 None D ScheduerGet_ok [OF ok] ps sc p lw
      by (simp add: SchedulerAddTask_def)
  qed
  have "row_ok (task s) l (?row[i := p]) n' (m_nLevelCurrent sc ! l)"
    using row_ok_store [OF row i(1) p(1) np i(2) lev p(4) i(3-5)] .
  then have "table_ok (sc\<lparr>m_pTask := (m_pTask sc)[l := ?row[i := p]], m_nTasks := (m_nTasks sc)[l := n']\<rparr>) (task s)"
    by (rule table_ok_row [OF tab p(3)])
  moreover have "set (?row[i := p]) - {NULL} = insert p (set ?row - {NULL})"
    using i D(4) p(1) by (intro set_upd_hole) simp_all
  ultimately show ?thesis
    using add S D p(3) ps sc by (simp add: sched_ok_def tasks_of_def nth_list_update)
qed

lemma demo_tasks: "tasks_of demo_sched 3 = {0x1000, 0x2000}"
  by (auto simp: tasks_of_def demo_sched_def)

text \<open>removing a task takes exactly that task out of its level. When the task is in the table of the
  processor, \<open>SchedulerRemoveTask\<close> fails no assertion and the table stays well-formed.\<close>

lemma remove_task_refines:
  assumes ok: "sched_ok cpu s" and ps: "ps = g_pScheduler s ! cpu" and sc: "sc = sched s ps"
    and l: "l < 10" and p: "p \<in> tasks_of sc l"
  shows "\<exists>s'. SchedulerRemoveTask cpu p s = Some s' \<and> sched_ok cpu s' \<and>
     tasks_of (sched s' ps) l = tasks_of sc l - {p} \<and>
     (\<forall>k. k \<noteq> l \<longrightarrow> tasks_of (sched s' ps) k = tasks_of sc k)"
proof -
  note S = sched_okD [OF ok, folded ps]
  have tab: "table_ok sc (task s)" using S(4) sc by simp
  note D = table_okD [OF tab l]
  let ?row = "m_pTask sc ! l" and ?n = "m_nTasks sc ! l"
  have row: "row_ok (task s) l ?row ?n (m_nLevelCurrent sc ! l)" using tab l by (simp add: table_ok_def)
  have p0: "p \<noteq> NULL" and "p \<in> set ?row" using p by (simp_all add: tasks_of_def)
  then obtain k where k: "k < 20" "?row ! k = p" using D(4) by (auto simp: in_set_conv_nth)
  have K: "k < unat ?n" "mLevel (task s p) = of_nat l" using D(8) [OF k(1)] k(2) p0 by auto
  have ul: "unat (of_nat l :: u32) = l" using l by (simp add: unat_of_nat_small)
  have lw: "mLevel (task s p) < MAX_TASK_LEVELS" using K(2) ul l by (intro level_word) simp
  obtain i where f: "find_entry p (unat ?n) ?row = Some i"
    using find_entry_None [of p "unat ?n" ?row k] K(1) k D(4) by (cases "find_entry p (unat ?n) ?row") auto
  note F = find_entry_Some [OF f]
  have i: "i < 20" using F D(4) by simp
  define n' where "n' = (if of_nat i = ?n - 1 then ?n - 1 else ?n)"
  have n1: "unat (?n - 1) = unat ?n - 1" using K(1) by (subst unat_sub_no_wrap) simp_all
  have "(of_nat i = ?n - 1) \<longleftrightarrow> i = unat ?n - 1"
    using i n1 by (auto simp: word_unat_eq_iff unat_of_nat_small)
  then have un': "unat n' = (if i = unat ?n - 1 then unat ?n - 1 else unat ?n)" using n1 by (simp add: n'_def)
  have get: "ScheduerGet cpu s = Some ps" using ScheduerGet_ok [OF ok] ps by simp
  have rem: "SchedulerRemoveTask cpu p s = Some (upd_sched ps (\<lambda>sc'. sc'\<lparr>m_pTask := (m_pTask sc')[l := ?row[i := NULL]],
        m_nTasks := (m_nTasks sc)[l := n']\<rparr>) s)"
    using f F D get p0 lw K(2) ul l
    by (simp add: SchedulerRemoveTask_def n'_def sc [symmetric])
  have "row_ok (task s) l (?row[i := NULL]) n' (m_nLevelCurrent sc ! l)"
    using row_ok_clear [OF row i _ un'] F by blast
  then have "table_ok (sc\<lparr>m_pTask := (m_pTask sc)[l := ?row[i := NULL]], m_nTasks := (m_nTasks sc)[l := n']\<rparr>) (task s)"
    by (rule table_ok_row [OF tab l])
  moreover have "set (?row[i := NULL]) - {NULL} = set ?row - {NULL} - {p}"
    using F by (intro set_upd_clear [OF row i _ p0]) simp
  ultimately show ?thesis
    using rem S D l ps sc by (simp add: sched_ok_def tasks_of_def nth_list_update)
qed

text \<open>adding a 21st task to a level stores outside the level's row: the test for the limit has an
  empty body, so when all 20 entries are in use the task is written at index 20 (the model has no
  result for an access outside an array).\<close>

lemma add_task_full_level:
  assumes ok: "sched_ok cpu s" and sc: "sc = sched s (g_pScheduler s ! cpu)"
    and l: "l = unat (mLevel (task s p))" "l < 10" and full: "NULL \<notin> set (m_pTask sc ! l)"
  shows "SchedulerAddTask cpu p s = None"
proof -
  have tab: "table_ok sc (task s)" using sched_okD(4) [OF ok] sc by simp
  note D = table_okD [OF tab l(2)]
  let ?row = "m_pTask sc ! l" and ?n = "m_nTasks sc ! l"
  have "?row ! 19 \<in> set ?row" using D(4) by simp
  then have "?row ! 19 \<noteq> NULL" using full by metis
  then have "unat ?n = 20" using D(8) [of 19] D(5) by simp
  moreover have "find_entry NULL (unat ?n) ?row = None"
    by (metis find_entry_Some full nth_mem not_None_eq)
  ultimately show ?thesis
    using D l ScheduerGet_ok [OF ok] sc by (auto simp: SchedulerAddTask_def assert_def wr_def)
qed

definition full_kernel :: kernel where
  "full_kernel = demo_kernel\<lparr>sched := (\<lambda>_. demo_sched\<lparr>
      m_pTask := (m_pTask demo_sched)[3 := map (\<lambda>i. of_nat i + 1) [0..<20]],
      m_nTasks := (m_nTasks demo_sched)[3 := 20]\<rparr>)\<rparr>"

lemma small_ptr: "i < 20 \<Longrightarrow> (of_nat i + 1 :: ptr) \<noteq> 0"
proof
  assume "i < 20" "(of_nat i + 1 :: ptr) = 0"
  moreover from this(1) have "unat (of_nat i + 1 :: ptr) = i + 1"
    by (subst unat_add_no_wrap) (simp_all add: unat_of_nat_small)
  ultimately show False by simp
qed

lemma full_kernel_ok: "sched_ok 0 full_kernel"
proof -
  have inj: "i = j" if "i < 20" "j < 20" "(of_nat i :: ptr) = of_nat j" for i j
    using arg_cong [OF that(3), of unat] that(1,2) by (simp add: unat_of_nat_small)
  have "row_ok (\<lambda>_. demo_task) 3 (map (\<lambda>i. of_nat i + 1) [0..<20]) 20 0"
    unfolding row_ok_def using small_ptr inj by (simp add: demo_task_def)
  then have "table_ok (demo_sched\<lparr>m_pTask := (m_pTask demo_sched)[3 := map (\<lambda>i. of_nat i + 1) [0..<20]],
      m_nTasks := (m_nTasks demo_sched)[3 := 20]\<rparr>) (\<lambda>_. demo_task)"
    by (intro table_ok_row [OF demo_table(1)]) (simp_all add: demo_sched_def)
  then show ?thesis by (simp add: sched_ok_def full_kernel_def demo_kernel_def CPU_MAX_NUM_def)
qed

text \<open>A processor whose main task is ready on level 8, while the only task of level 9 has ended.\<close>

definition ended_kernel :: kernel where
  "ended_kernel = demo_kernel\<lparr>
     task := (\<lambda>p. if p = 0x3000 then demo_task\<lparr>mLevel := 9, m_State := TaskStateTerminated\<rparr> else demo_task\<lparr>mLevel := 8\<rparr>),
     sched := (\<lambda>_. demo_sched\<lparr>
       m_pTask := (replicate 10 (replicate 20 NULL))[8 := 0x1000 # replicate 19 NULL, 9 := 0x3000 # replicate 19 NULL],
       m_nTasks := (replicate 10 0)[8 := 1, 9 := 1], m_nLevelCurrent := replicate 10 (- 1)\<rparr>)\<rparr>"

lemma levels_eval: "levels = [9, 8, 7, 6, 5, 4, 3, 2, 1, 0]"
  by (simp add: MAX_TASK_LEVELS_def upt_rec)

definition ended_kernel_off :: kernel where
  "ended_kernel_off = ended_kernel\<lparr>irq := (irq ended_kernel)[0 := False]\<rparr>"

lemma ended_get: "ScheduerGet 0 ended_kernel_off = Some 0x9000"
  by (simp add: ended_kernel_off_def ended_kernel_def demo_kernel_def ScheduerGet_def CPU_MAX_NUM_def)

lemma ended_scan:
  "\<exists>s. SchedulerGetNextTask virt now 0 ended_kernel_off = Some (MAX_TASKS, s) \<and>
     m_nCurrentLevel (sched s 0x9000) = 9 \<and> m_nTasks (sched s 0x9000) ! 9 = 0 \<and> length (m_nTasks (sched s 0x9000)) = 10"
  unfolding SchedulerGetNextTask_def ended_get levels_eval
  by (simp add: ended_kernel_off_def ended_kernel_def demo_kernel_def demo_sched_def demo_task_def ScheduerGet_def SchedulerRemoveTask_def
      CPU_MAX_NUM_def MAX_TASK_LEVELS_def TaskGetState_def call_delete_def delete_Task_def kfree_def)

text \<open>a yield fails its assertion when the task that has ended was the only one of its level: the
  search removes it and returns \<open>MAX_TASKS\<close>, and the assertion that the level still has tasks fails,
  although a task of another level is ready.\<close>

lemma yield_after_last_task_ended:
  "SchedulerYield virt now 0 ended_kernel = None \<and>
   runnable (task ended_kernel) ticks (m_pTask (sched ended_kernel (g_pScheduler ended_kernel ! 0)) ! 8 ! 0)"
proof (rule conjI)
  have "wait_ready virt now 0 0 ended_kernel_off = None"
    using ended_scan [of virt "now 0"] ended_get
    by (subst wait_ready.simps) (auto simp: assert_def)
  then show "SchedulerYield virt now 0 ended_kernel = None"
    by (simp add: SchedulerYield_def ended_kernel_off_def ScheduerGet_def ended_kernel_def demo_kernel_def)
      (simp add: CPU_MAX_NUM_def assert_def)
qed (simp add: ended_kernel_def demo_kernel_def demo_task_def runnable_def)

text \<open>a sleeping task wakes on time. \<open>SchedulerUsSleep\<close> with \<open>0 < d < 2^31\<close> microseconds puts the
  current task to sleep and yields; a search that reads the tick counter \<open>k\<close> ticks (milliseconds) after
  the call, for \<open>1000 * k < 2^31\<close>, considers the task runnable exactly if \<open>1000 * k\<close> has reached \<open>d\<close>. The
  32-bit microsecond time wraps round every 71 minutes, and the comparison is right across it.\<close>

lemma us_sleep_wakes:
  assumes ok: "sched_ok cpu s" and p: "p = m_pCurrent (sched s (g_pScheduler s ! cpu))" "p \<noteq> NULL"
    and r: "m_State (task s p) = TaskStateReady" and d: "0 < d" "unat d < 2 ^ 31"
  shows "\<exists>s1. SchedulerUsSleep virt now cpu d s = SchedulerYield virt now cpu s1 \<and>
     sched s1 = sched s \<and> (\<forall>q. q \<noteq> p \<longrightarrow> task s1 q = task s q) \<and>
     (\<forall>k. 1000 * k < 2 ^ 31 \<longrightarrow>
        (runnable (task s1) ((jiffies s + of_nat k) * 1000) p \<longleftrightarrow> unat d \<le> 1000 * k))"
proof -
  let ?s1 = "TaskSetState p TaskStateSleeping (TaskSetWakeTicks p (TimerGetTicks s * 1000 + d) s)"
  have y: "SchedulerUsSleep virt now cpu d s = SchedulerYield virt now cpu ?s1"
    using ScheduerGet_ok [OF ok] p r d(1) by (simp add: SchedulerUsSleep_def TaskGetState_def)
  have t: "task ?s1 p = (task s p)\<lparr>m_nWakeTicks := jiffies s * 1000 + d, m_State := TaskStateSleeping\<rparr>"
    using p(2) by (simp add: TaskSetWakeTicks_def TimerGetTicks_def)
  have "runnable (task ?s1) ((jiffies s + of_nat k) * 1000) p \<longleftrightarrow> unat d \<le> 1000 * k" if "1000 * k < 2 ^ 31" for k
  proof -
    have "jiffies s * 1000 + d - (jiffies s + of_nat k) * 1000 = d - of_nat (1000 * k)" by (simp add: algebra_simps)
    then show ?thesis
      using sint_diff_small [OF d(2) that] p(2) unfolding runnable_def t by (simp add: mult.commute)
  qed
  moreover have "sched ?s1 = sched s" "\<And>q. q \<noteq> p \<Longrightarrow> task ?s1 q = task s q"
    by (simp_all add: TaskSetWakeTicks_def)
  ultimately show ?thesis using y by (intro exI [of _ ?s1]) blast
qed

lemma sleep_chunks:
  "sum_list (map unat (SchedulerSleep n)) = unat n * 1000000 \<and> (\<forall>c \<in> set (SchedulerSleep n). unat c < 2 ^ 31)"
proof (induction n rule: SchedulerSleep.induct)
  case (1 n)
  show ?case
  proof (cases "n > 1800")
    case True
    then have n: "1800 < unat n" by (simp add: word_less_nat_alt)
    have u: "unat (n - 1800) = unat n - 1800" using n by (subst unat_sub_no_wrap) simp_all
    have s: "SchedulerSleep n = (1800 * 1000000) # SchedulerSleep (n - 1800)"
      using True by (subst SchedulerSleep.simps) simp
    have "unat n * 1000000 = 1800000000 + (unat n - 1800) * 1000000" using n by (simp add: diff_mult_distrib)
    then show ?thesis using 1 [OF True] by (simp add: s u)
  next
    case False
    then have n: "unat n \<le> 1800" by (simp add: word_less_nat_alt)
    have u: "unat (n * 1000000) = unat n * 1000000" using n by (simp add: unat_word_ariths)
    have "SchedulerSleep n = [n * 1000000]" using False by (subst SchedulerSleep.simps) simp
    then show ?thesis using n u by simp
  qed
qed

text \<open>\<open>SchedulerSleep\<close> sleeps for the requested number of seconds, for every 32-bit value: the
  microseconds of its calls of \<open>SchedulerUsSleep\<close> add up to the request and each call stays below \<open>2^31\<close>,
  where the signed comparison of the wake-up time is right.\<close>

lemma sleep_seconds_exact:
  "sum_list (map unat (SchedulerSleep n)) = unat n * 1000000 \<and> list_all (\<lambda>c. unat c < 2 ^ 31) (SchedulerSleep n)"
  using sleep_chunks [of n] by (simp add: list_all_iff)

text \<open>\<open>SchedulerMsSleep\<close> has no such protection: \<open>nMilliSeconds * 1000\<close> wraps round. A sleep of
  4294968 ms (72 minutes) is one of 704 microseconds.\<close>

lemma ms_sleep_overflow:
  "SchedulerMsSleep virt now cpu 4294968 s = SchedulerUsSleep virt now cpu 704 s"
proof -
  have "(4294968 :: u32) * 1000 = 704" by (simp add: word_unat_eq_iff)
  then show ?thesis unfolding SchedulerMsSleep_def by (simp only:) simp
qed

end
