(* ===== verification/Fifo.thy ===== *)
theory Fifo
  imports SchedProps
begin

text \<open>
  The ring buffers of \<^verbatim>\<open>env/lib/fifo.c\<close>, through which interrupt handlers pass data to tasks, and the
  interface they implement: a bounded queue. A pointer to a buffer is \<^term>\<open>None\<close> when it is \<open>NULL\<close>. The
  C \<open>int\<close> fields are integers; the invariant keeps them between 0 and the size.
\<close>

section \<open>Model\<close>

record FIFO32 =
  f_buf :: "int list"
  f_p :: int
  f_q :: int
  f_size :: int
  f_free :: int
  f_flags :: u32
  f_task :: ptr

definition FLAGS_OVERRUN :: u32 where "FLAGS_OVERRUN = 1"

definition fifo32_init :: "int \<Rightarrow> int list \<Rightarrow> ptr \<Rightarrow> FIFO32" where
  "fifo32_init sz bf tk = \<lparr>f_buf = bf, f_p = 0, f_q = 0, f_size = sz, f_free = sz, f_flags = 0, f_task = tk\<rparr>"

definition fifo32_put :: "FIFO32 option \<Rightarrow> int \<Rightarrow> kernel \<Rightarrow> (int \<times> FIFO32 option \<times> kernel) option" where
  "fifo32_put fifo data s = (case fifo of
     None \<Rightarrow> Some (- 1, None, s)
   | Some f \<Rightarrow>
       if f_free f = 0 then Some (- 1, Some (f\<lparr>f_flags := f_flags f OR FLAGS_OVERRUN\<rparr>), s)
       else do {
         assert (0 \<le> f_p f);
         b \<leftarrow> wr (f_buf f) (nat (f_p f)) data;
         f \<leftarrow> Some (f\<lparr>f_buf := b, f_p := f_p f + 1\<rparr>);
         f \<leftarrow> Some (if f_p f = f_size f then f\<lparr>f_p := 0\<rparr> else f);
         f \<leftarrow> Some (f\<lparr>f_free := f_free f - 1\<rparr>);
         s \<leftarrow> Some (if f_task f \<noteq> NULL \<and> TaskGetState (f_task f) s = TaskStateBlocked
                   then TaskSetState (f_task f) TaskStateReady s else s);
         Some (0, Some f, s) })"

definition fifo32_get :: "FIFO32 option \<Rightarrow> (int \<times> FIFO32) option" where
  "fifo32_get fifo = do {
     f \<leftarrow> fifo;
     (if f_free f = f_size f then Some (- 1, f)
      else do {
        assert (0 \<le> f_q f);
        data \<leftarrow> rd (f_buf f) (nat (f_q f));
        f \<leftarrow> Some (f\<lparr>f_q := f_q f + 1\<rparr>);
        f \<leftarrow> Some (if f_q f = f_size f then f\<lparr>f_q := 0\<rparr> else f);
        Some (data, f\<lparr>f_free := f_free f + 1\<rparr>) }) }"

definition fifo32_status :: "FIFO32 \<Rightarrow> int" where
  "fifo32_status f = f_size f - f_free f"

section \<open>The contract of a bounded queue\<close>

text \<open>\<open>put\<close> says whether the element was accepted; \<open>get\<close> on an empty queue returns \<open>none\<close>.\<close>

locale bounded_queue =
  fixes put :: "'a \<Rightarrow> 'q \<Rightarrow> (bool \<times> 'q) option"
    and get :: "'q \<Rightarrow> ('a \<times> 'q) option"
    and inv :: "'q \<Rightarrow> bool"
    and items :: "'q \<Rightarrow> 'a list"
    and capacity :: "'q \<Rightarrow> nat"
    and none :: 'a
  assumes put_room: "inv q \<Longrightarrow> length (items q) < capacity q \<Longrightarrow>
      \<exists>q'. put x q = Some (True, q') \<and> inv q' \<and> items q' = items q @ [x] \<and> capacity q' = capacity q"
    and put_full: "inv q \<Longrightarrow> length (items q) = capacity q \<Longrightarrow>
      \<exists>q'. put x q = Some (False, q') \<and> inv q' \<and> items q' = items q \<and> capacity q' = capacity q"
    and get_item: "inv q \<Longrightarrow> items q = x # xs \<Longrightarrow>
      \<exists>q'. get q = Some (x, q') \<and> inv q' \<and> items q' = xs \<and> capacity q' = capacity q"
    and get_empty: "inv q \<Longrightarrow> items q = [] \<Longrightarrow> get q = Some (none, q)"
    and items_bound: "inv q \<Longrightarrow> length (items q) \<le> capacity q"

text \<open>A run of puts and gets. The result lists the elements accepted and those got from a non-empty
  queue, which the caller tells apart by its own count.\<close>

datatype 'a qop = Put 'a | Take

fun run_queue ::
  "('a \<Rightarrow> 'q \<Rightarrow> (bool \<times> 'q) option) \<Rightarrow> ('q \<Rightarrow> ('a \<times> 'q) option) \<Rightarrow> nat \<Rightarrow> 'a qop list \<Rightarrow> 'q \<Rightarrow>
     ('a list \<times> 'a list \<times> 'q) option" where
  "run_queue pt gt n [] q = Some ([], [], q)"
| "run_queue pt gt n (Put x # os) q = do {
     (ok, q) \<leftarrow> pt x q;
     (ins, outs, q) \<leftarrow> run_queue pt gt (if ok then Suc n else n) os q;
     Some (if ok then x # ins else ins, outs, q) }"
| "run_queue pt gt n (Take # os) q = do {
     (x, q) \<leftarrow> gt q;
     (ins, outs, q) \<leftarrow> run_queue pt gt (n - 1) os q;
     Some (ins, if 0 < n then x # outs else outs, q) }"

context bounded_queue
begin

lemma run_queue_fifo:
  assumes "inv q" "n = length (items q)"
  shows "\<exists>ins outs q'. run_queue put get n os q = Some (ins, outs, q') \<and> inv q' \<and> capacity q' = capacity q \<and>
     items q @ ins = outs @ items q'"
  using assms
proof (induction os arbitrary: q n)
  case Nil
  then show ?case by simp
next
  case (Cons o' os)
  show ?case
  proof (cases o')
    case (Put x)
    show ?thesis
    proof (cases "length (items q) < capacity q")
      case True
      then obtain q1 where q1: "put x q = Some (True, q1)" "inv q1" "items q1 = items q @ [x]" "capacity q1 = capacity q"
        using put_room Cons.prems(1) by blast
      then show ?thesis using Cons.IH [of q1 "Suc n"] Cons.prems(2) Put by fastforce
    next
      case False
      then have "length (items q) = capacity q" using items_bound [OF Cons.prems(1)] by simp
      then obtain q1 where q1: "put x q = Some (False, q1)" "inv q1" "items q1 = items q" "capacity q1 = capacity q"
        using put_full Cons.prems(1) by blast
      then show ?thesis using Cons.IH [of q1 n] Cons.prems(2) Put by fastforce
    qed
  next
    case Take
    show ?thesis
    proof (cases "items q")
      case Nil
      then show ?thesis using get_empty [OF Cons.prems(1)] Cons.IH [of q 0] Cons.prems Take by fastforce
    next
      case (Cons x xs)
      then obtain q1 where q1: "get q = Some (x, q1)" "inv q1" "items q1 = xs" "capacity q1 = capacity q"
        using get_item Cons.prems(1) by blast
      then show ?thesis using Cons.IH [of q1 "n - 1"] Cons.prems(2) Take Cons by fastforce
    qed
  qed
qed

end

section \<open>The ring buffer is a bounded queue\<close>

definition fifo_inv :: "FIFO32 \<Rightarrow> bool" where
  "fifo_inv f \<longleftrightarrow> 0 < f_size f \<and> int (length (f_buf f)) = f_size f \<and> 0 \<le> f_q f \<and> f_q f < f_size f \<and>
     0 \<le> f_free f \<and> f_free f \<le> f_size f \<and> f_p f = (f_q f + (f_size f - f_free f)) mod f_size f"

text \<open>The stored elements, oldest first.\<close>

definition fifo_items :: "FIFO32 \<Rightarrow> int list" where
  "fifo_items f = map (\<lambda>j. f_buf f ! ((nat (f_q f) + j) mod length (f_buf f))) [0..<nat (f_size f - f_free f)]"

definition fifo_put :: "int \<Rightarrow> FIFO32 \<times> kernel \<Rightarrow> (bool \<times> FIFO32 \<times> kernel) option" where
  "fifo_put x q = do {
     (r, f, s) \<leftarrow> fifo32_put (Some (fst q)) x (snd q);
     f \<leftarrow> f;
     Some (r = 0, f, s) }"

definition fifo_get :: "FIFO32 \<times> kernel \<Rightarrow> (int \<times> FIFO32 \<times> kernel) option" where
  "fifo_get q = do { (x, f) \<leftarrow> fifo32_get (Some (fst q)); Some (x, f, snd q) }"

text \<open>The view of a buffer in natural numbers: \<open>n\<close> cells, the oldest element at \<open>a\<close>, \<open>k\<close> elements.\<close>

lemma fifo_view:
  assumes "fifo_inv f"
  obtains n a k where "0 < n" "length (f_buf f) = n" "f_size f = int n" "f_q f = int a" "a < n" "k \<le> n"
    "f_free f = int (n - k)" "f_p f = int ((a + k) mod n)"
    "fifo_items f = map (\<lambda>j. f_buf f ! ((a + j) mod n)) [0..<k]"
proof -
  define n a k where "n = nat (f_size f)" and "a = nat (f_q f)" and "k = nat (f_size f - f_free f)"
  have I: "0 < f_size f" "int (length (f_buf f)) = f_size f" "0 \<le> f_q f" "f_q f < f_size f"
    "0 \<le> f_free f" "f_free f \<le> f_size f" "f_p f = (f_q f + (f_size f - f_free f)) mod f_size f"
    using assms by (simp_all add: fifo_inv_def)
  have e: "f_size f = int n" "f_q f = int a" "f_size f - f_free f = int k" using I by (simp_all add: n_def a_def k_def)
  have l: "length (f_buf f) = n" using I(2) e(1) by simp
  have kn: "k \<le> n" using e(1,3) I(5) by linarith
  have "f_p f = (f_q f + int k) mod f_size f" using I(7) by (simp only: e(3))
  then have "f_p f = int ((a + k) mod n)" by (simp add: e(1,2) zmod_int)
  moreover have "f_free f = int (n - k)" using e kn by (simp add: of_nat_diff)
  moreover have "fifo_items f = map (\<lambda>j. f_buf f ! ((a + j) mod n)) [0..<k]"
    by (simp add: fifo_items_def l a_def k_def)
  ultimately show thesis using that [of n a k] e l kn I by simp
qed

lemma mod_shift_neq:
  assumes "j < k" "k < (n::nat)"
  shows "(a + j) mod n \<noteq> (a + k) mod n"
proof
  assume "(a + j) mod n = (a + k) mod n"
  then have "(a + k - (a + j)) mod n = 0" using assms by (metis mod_eq_dvd_iff_nat add_le_cancel_left less_imp_le dvd_imp_mod_0)
  then show False using assms by simp
qed

lemma suc_mod: "(n::nat) > 0 \<Longrightarrow> (if (b mod n) + 1 = n then 0 else b mod n + 1) = Suc b mod n"
  by (simp add: mod_Suc)

lemma fifo_put_room:
  assumes inv: "fifo_inv f" and room: "length (fifo_items f) < length (f_buf f)"
  shows "\<exists>f'. fifo32_put (Some f) x s = Some (0, Some f',
        if f_task f \<noteq> NULL \<and> TaskGetState (f_task f) s = TaskStateBlocked then TaskSetState (f_task f) TaskStateReady s else s) \<and>
     fifo_inv f' \<and> fifo_items f' = fifo_items f @ [x] \<and> length (f_buf f') = length (f_buf f)"
proof -
  obtain n a k where V: "0 < n" "length (f_buf f) = n" "f_size f = int n" "f_q f = int a" "a < n" "k \<le> n"
    "f_free f = int (n - k)" "f_p f = int ((a + k) mod n)"
    "fifo_items f = map (\<lambda>j. f_buf f ! ((a + j) mod n)) [0..<k]"
    using fifo_view [OF inv] by blast
  have k: "k < n" using room V by simp
  define f' where "f' = f\<lparr>f_buf := (f_buf f)[(a + k) mod n := x], f_p := int (Suc (a + k) mod n), f_free := int (n - Suc k)\<rparr>"
  have p1: "(if int ((a + k) mod n) + 1 = int n then 0 else int ((a + k) mod n) + 1) = int (Suc (a + k) mod n)"
    using suc_mod [OF V(1), of "a + k"] by (auto split: if_splits simp flip: of_nat_Suc)
  have run: "fifo32_put (Some f) x s = Some (0, Some f',
        if f_task f \<noteq> NULL \<and> TaskGetState (f_task f) s = TaskStateBlocked then TaskSetState (f_task f) TaskStateReady s else s)"
    using V k p1 by (auto simp: fifo32_put_def f'_def of_nat_diff)
  have it: "fifo_items f' = fifo_items f @ [x]"
  proof -
    have "fifo_items f' = map (\<lambda>j. (f_buf f)[(a + k) mod n := x] ! ((a + j) mod n)) [0..<Suc k]"
    proof -
      have "f_size f' - f_free f' = int (Suc k)" using V k by (simp add: f'_def of_nat_diff)
      then show ?thesis using V by (simp only: fifo_items_def nat_int) (simp add: f'_def del: upt_Suc)
    qed
    also have "\<dots> = map (\<lambda>j. f_buf f ! ((a + j) mod n)) [0..<k] @ [x]"
    proof -
      have "(f_buf f)[(a + k) mod n := x] ! ((a + j) mod n) = f_buf f ! ((a + j) mod n)" if "j < k" for j
        using mod_shift_neq [OF that k, of a] by (metis nth_list_update_neq)
      then show ?thesis using V(1,2) by simp
    qed
    finally show ?thesis using V by simp
  qed
  have "fifo_inv f'"
    using V k by (simp add: fifo_inv_def f'_def of_nat_diff zmod_int add.commute add.left_commute)
  with run it show ?thesis by (auto simp: f'_def)
qed

lemma fifo_put_full:
  assumes inv: "fifo_inv f" and full: "length (fifo_items f) = length (f_buf f)"
  shows "fifo32_put (Some f) x s = Some (- 1, Some (f\<lparr>f_flags := f_flags f OR FLAGS_OVERRUN\<rparr>), s)"
proof -
  obtain n k where "length (f_buf f) = n" "f_free f = int (n - k)" "length (fifo_items f) = k"
    using fifo_view [OF inv] by (metis length_map length_upt minus_nat.diff_0)
  then show ?thesis using full by (simp add: fifo32_put_def)
qed

lemma fifo_get_item:
  assumes inv: "fifo_inv f" and it: "fifo_items f = x # xs"
  shows "\<exists>f'. fifo32_get (Some f) = Some (x, f') \<and> fifo_inv f' \<and> fifo_items f' = xs \<and> length (f_buf f') = length (f_buf f)"
proof -
  obtain n a k where V: "0 < n" "length (f_buf f) = n" "f_size f = int n" "f_q f = int a" "a < n" "k \<le> n"
    "f_free f = int (n - k)" "f_p f = int ((a + k) mod n)"
    "fifo_items f = map (\<lambda>j. f_buf f ! ((a + j) mod n)) [0..<k]"
    using fifo_view [OF inv] by blast
  obtain k' where k: "k = Suc k'" using it V(9) by (cases k) auto
  have "map (\<lambda>j. f_buf f ! ((a + j) mod n)) [0..<Suc k'] =
     f_buf f ! (a mod n) # map (\<lambda>j. f_buf f ! ((Suc a + j) mod n)) [0..<k']"
    by (simp add: upt_conv_Cons map_Suc_upt [symmetric] del: upt_Suc)
  then have x: "x = f_buf f ! a" and xs: "xs = map (\<lambda>j. f_buf f ! ((Suc a + j) mod n)) [0..<k']"
    using it V k by simp_all
  define f' where "f' = f\<lparr>f_q := int (Suc a mod n), f_free := int (n - k')\<rparr>"
  have q1: "(if int a + 1 = int n then 0 else int a + 1) = int (Suc a mod n)"
    using suc_mod [OF V(1), of a] V(5) by (auto split: if_splits simp flip: of_nat_Suc)
  have ne: "f_free f \<noteq> f_size f" using V k by simp
  have "fifo32_get (Some f) = Some (x, f')"
    using V k ne x q1 by (auto simp: fifo32_get_def f'_def of_nat_diff)
  moreover have "fifo_items f' = xs"
  proof -
    have "f_size f' - f_free f' = int k'" using V k by (simp add: f'_def of_nat_diff)
    then show ?thesis using V xs by (simp only: fifo_items_def nat_int) (simp add: f'_def mod_simps)
  qed
  moreover have "fifo_inv f'"
  proof -
    have e: "f_size f' - f_free f' = int k'" using V k by (simp add: f'_def of_nat_diff)
    have "f_p f' = (f_q f' + int k') mod f_size f'"
      using V k by (simp add: f'_def zmod_int mod_simps add.commute add.left_commute)
    then show ?thesis using V k e by (simp add: fifo_inv_def f'_def)
  qed
  ultimately show ?thesis by (auto simp: f'_def)
qed

lemma fifo_get_empty:
  assumes inv: "fifo_inv f" and it: "fifo_items f = []"
  shows "fifo32_get (Some f) = Some (- 1, f)"
proof -
  obtain n k where "f_size f = int n" "f_free f = int (n - k)" "fifo_items f = map (\<lambda>j. f_buf f ! j) [] \<longrightarrow> k = 0"
    using fifo_view [OF inv] by (metis length_0_conv length_map length_upt minus_nat.diff_0 list.map(1))
  then show ?thesis using it by (simp add: fifo32_get_def)
qed

interpretation fifo: bounded_queue fifo_put fifo_get "\<lambda>q. fifo_inv (fst q)" "\<lambda>q. fifo_items (fst q)"
  "\<lambda>q. length (f_buf (fst q))" "- 1"
proof unfold_locales
  fix q :: "FIFO32 \<times> kernel" and x :: int and xs :: "int list"
  assume inv: "fifo_inv (fst q)"
  show "\<exists>q'. fifo_put x q = Some (True, q') \<and> fifo_inv (fst q') \<and> fifo_items (fst q') = fifo_items (fst q) @ [x] \<and>
      length (f_buf (fst q')) = length (f_buf (fst q))"
    if "length (fifo_items (fst q)) < length (f_buf (fst q))"
    using fifo_put_room [OF inv that, of x "snd q"] by (fastforce simp: fifo_put_def)
  show "\<exists>q'. fifo_put x q = Some (False, q') \<and> fifo_inv (fst q') \<and> fifo_items (fst q') = fifo_items (fst q) \<and>
      length (f_buf (fst q')) = length (f_buf (fst q))"
    if "length (fifo_items (fst q)) = length (f_buf (fst q))"
    using fifo_put_full [OF inv that, of x "snd q"] inv
    by (simp add: fifo_put_def fifo_inv_def fifo_items_def)
  show "\<exists>q'. fifo_get q = Some (x, q') \<and> fifo_inv (fst q') \<and> fifo_items (fst q') = xs \<and>
      length (f_buf (fst q')) = length (f_buf (fst q))"
    if "fifo_items (fst q) = x # xs"
    using fifo_get_item [OF inv that] by (auto simp: fifo_get_def)
  show "fifo_get q = Some (- 1, q)" if "fifo_items (fst q) = []"
    using fifo_get_empty [OF inv that] by (simp add: fifo_get_def)
  obtain n k where "length (f_buf (fst q)) = n" "k \<le> n" "length (fifo_items (fst q)) = k"
    using fifo_view [OF inv] by (metis length_map length_upt minus_nat.diff_0)
  then show "length (fifo_items (fst q)) \<le> length (f_buf (fst q))" by simp
qed

section \<open>Properties\<close>

text \<open>C9: a ring buffer delivers every accepted element exactly once and in order. For any sequence of
  \<open>fifo32_put\<close> and \<open>fifo32_get\<close> calls on a fresh buffer, no access is out of bounds, and the accepted
  elements are the elements got, followed by those still stored, whose number \<open>fifo32_status\<close> reports.\<close>

theorem fifo_delivers_in_order:
  assumes "0 < n" "length b = n"
  shows "\<exists>ins outs f s'. run_queue fifo_put fifo_get 0 os (fifo32_init (int n) b tk, s) = Some (ins, outs, f, s') \<and>
     ins = outs @ fifo_items f \<and> fifo32_status f = int (length (fifo_items f)) \<and> length (fifo_items f) \<le> n"
proof -
  let ?q = "(fifo32_init (int n) b tk, s)"
  have inv: "fifo_inv (fst ?q)" and em: "fifo_items (fst ?q) = []"
    using assms by (simp_all add: fifo_inv_def fifo32_init_def fifo_items_def)
  obtain ins outs q' where r: "run_queue fifo_put fifo_get 0 os ?q = Some (ins, outs, q')" "fifo_inv (fst q')"
    "length (f_buf (fst q')) = length (f_buf (fst ?q))" "ins = outs @ fifo_items (fst q')"
    using fifo.run_queue_fifo [of ?q 0 os] inv em by auto
  have "fifo32_status (fst q') = int (length (fifo_items (fst q')))"
    using r(2) by (simp add: fifo32_status_def fifo_items_def fifo_inv_def)
  moreover have "length (fifo_items (fst q')) \<le> n"
    using fifo.items_bound [of q'] r(2,3) assms by (simp add: fifo32_init_def)
  ultimately show ?thesis using r by (cases q') auto
qed

theorem fifo_delivers_in_order_witness:
  "\<exists>ins outs f s'. run_queue fifo_put fifo_get 0 [Put 5, Put 6, Put 7, Take, Put 8] (fifo32_init 2 [0, 0] 0, demo_kernel)
     = Some (ins, outs, f, s') \<and> ins = outs @ fifo_items f"
  using fifo_delivers_in_order [of 2 "[0, 0]" "[Put 5, Put 6, Put 7, Take, Put 8]" 0 demo_kernel] by auto

text \<open>data that arrives wakes the reader: an accepted \<open>fifo32_put\<close> makes the task of the buffer ready if
  it was blocked, and changes no other task; a rejected one changes no task and records the overrun.\<close>

lemma fifo_put_wakes:
  assumes "fifo_inv f" "f_task f = t" "t \<noteq> NULL"
  shows "\<exists>r f' s'. fifo32_put (Some f) x s = Some (r, Some f', s') \<and>
     (if length (fifo_items f) < length (f_buf f)
      then r = 0 \<and> m_State (task s' t) = (if m_State (task s t) = TaskStateBlocked then TaskStateReady else m_State (task s t)) \<and>
        (\<forall>u. u \<noteq> t \<longrightarrow> task s' u = task s u)
      else r = - 1 \<and> s' = s \<and> f_flags f' AND FLAGS_OVERRUN = FLAGS_OVERRUN)"
proof (cases "length (fifo_items f) < length (f_buf f)")
  case True
  define s' where "s' = (if m_State (task s t) = TaskStateBlocked then TaskSetState t TaskStateReady s else s)"
  obtain f' where r: "fifo32_put (Some f) x s = Some (0, Some f', s')"
    using fifo_put_room [OF assms(1) True, of x s] assms(2,3) by (auto simp: s'_def TaskGetState_def)
  have "m_State (task s' t) = (if m_State (task s t) = TaskStateBlocked then TaskStateReady else m_State (task s t)) \<and>
        (\<forall>u. u \<noteq> t \<longrightarrow> task s' u = task s u)" using assms(3) by (simp add: s'_def)
  then show ?thesis using r True by simp
next
  case False
  then have "length (fifo_items f) = length (f_buf f)" using fifo.items_bound [of "(f, s)"] assms(1) by simp
  moreover have "(w OR v) AND v = v" for w v :: u32 by (rule bit_eqI) (auto simp: bit_simps)
  ultimately show ?thesis using fifo_put_full [OF assms(1)] False by simp
qed

end
