(* ===== verification/MsgQueue.thy ===== *)
theory MsgQueue
  imports Fifo
begin

text \<open>
  The queues of timed messages, \<^verbatim>\<open>env/lib/input/messagequeue.c\<close>, which the gesture recogniser uses, and the
  event buffer of \<^verbatim>\<open>env/lib/input/motioneventfifo.c\<close>. A queue is a linked list of nodes on the heap behind
  a head node; the nodes and the list headers are stores from addresses. What the message handler does is
  the parameter \<open>hnd\<close>; the locale \<open>message_handler\<close> states what the delivery relies on. A loop over a list with a cycle does not return, which is \<^term>\<open>None\<close>.
\<close>

section \<open>Model\<close>

record TNode =
  n_when :: u64
  n_what :: u32
  n_pNext :: ptr

record TList =
  pHead :: ptr
  l_task :: ptr
  messageHandler :: ptr

record mq_state =
  ks :: kernel
  node :: "ptr \<Rightarrow> TNode"
  mlist :: "ptr \<Rightarrow> TList"

definition sizeof_TNode :: u32 where "sizeof_TNode = 16"
definition sizeof_TList :: u32 where "sizeof_TList = 12"

definition mq_malloc :: "u32 \<Rightarrow> 'a mq_state_scheme \<Rightarrow> ptr \<times> 'a mq_state_scheme" where
  "mq_malloc n s = (let (p, k) = kmalloc n (ks s) in (p, s\<lparr>ks := k\<rparr>))"

definition mq_free :: "ptr \<Rightarrow> 'a mq_state_scheme \<Rightarrow> 'a mq_state_scheme" where
  "mq_free p s = s\<lparr>ks := kfree p (ks s)\<rparr>"

definition set_next :: "ptr \<Rightarrow> ptr \<Rightarrow> 'a mq_state_scheme \<Rightarrow> 'a mq_state_scheme" where
  "set_next a q s = s\<lparr>node := (node s)(a := (node s a)\<lparr>n_pNext := q\<rparr>)\<rparr>"

definition createnode :: "u32 \<Rightarrow> u64 \<Rightarrow> 'a mq_state_scheme \<Rightarrow> ptr \<times> 'a mq_state_scheme" where
  "createnode wt wn s =
     (let (p, s) = mq_malloc sizeof_TNode s in
      if p = NULL then (NULL, s)
      else (p, s\<lparr>node := (node s)(p := \<lparr>n_when = wn, n_what = wt, n_pNext = 0\<rparr>)\<rparr>))"

definition initMessageQueue :: "ptr \<Rightarrow> ptr \<Rightarrow> 'a mq_state_scheme \<Rightarrow> ptr \<times> 'a mq_state_scheme" where
  "initMessageQueue tk handler s =
     (let (l, s) = mq_malloc sizeof_TList s in
      if l = NULL then (NULL, s)
      else let (h, s) = createnode 0xff 0 s in
        (l, s\<lparr>mlist := (mlist s)(l := \<lparr>pHead = h, l_task = tk, messageHandler = handler\<rparr>)\<rparr>))"

text \<open>The loop of \<open>enqueueMessage\<close> and the insertion behind it.\<close>

partial_function (option) enqueue_loop :: "u32 \<Rightarrow> u64 \<Rightarrow> ptr \<Rightarrow> ptr \<Rightarrow> 'a mq_state_scheme \<Rightarrow> 'a mq_state_scheme option" where
  "enqueue_loop wt wn pPrevious pCurrent s =
     (if pCurrent \<noteq> NULL then
        (if wn < n_when (node s pCurrent) then
           (let (pTmp, s) = createnode wt wn s in
            do { assert (pTmp \<noteq> NULL);
                 Some (set_next pTmp pCurrent (set_next pPrevious pTmp s)) })
         else enqueue_loop wt wn pCurrent (n_pNext (node s pCurrent)) s)
      else
        (let (pTmp, s) = createnode wt wn s in Some (set_next pPrevious pTmp s)))"

definition enqueueMessage :: "u32 \<Rightarrow> u64 \<Rightarrow> ptr \<Rightarrow> 'a mq_state_scheme \<Rightarrow> 'a mq_state_scheme option" where
  "enqueueMessage wt wn l s =
     (if l = NULL then Some s
      else let h = pHead (mlist s l) in
        if h = NULL then Some s
        else do {
          s \<leftarrow> enqueue_loop wt wn h (n_pNext (node s h)) s;
          t \<leftarrow> Some (l_task (mlist s l));
          Some (if t \<noteq> NULL \<and> TaskGetState t (ks s) = TaskStateBlocked
                then s\<lparr>ks := TaskSetState t TaskStateReady (ks s)\<rparr> else s) })"

partial_function (option) remove_loop :: "u32 \<Rightarrow> ptr \<Rightarrow> ptr \<Rightarrow> 'a mq_state_scheme \<Rightarrow> 'a mq_state_scheme option" where
  "remove_loop wt pPrevious pCurrent s =
     (if pCurrent = NULL then Some s
      else if n_what (node s pCurrent) = wt then
        (let s = mq_free pCurrent (set_next pPrevious (n_pNext (node s pCurrent)) s) in
         remove_loop wt pPrevious (n_pNext (node s pPrevious)) s)
      else remove_loop wt pCurrent (n_pNext (node s pCurrent)) s)"

definition removeMessages :: "u32 \<Rightarrow> ptr \<Rightarrow> 'a mq_state_scheme \<Rightarrow> 'a mq_state_scheme option" where
  "removeMessages wt l s =
     (if l = NULL then Some s
      else let h = pHead (mlist s l) in
        do { assert (h \<noteq> NULL); remove_loop wt h (n_pNext (node s h)) s })"

partial_function (option) has_loop :: "u32 \<Rightarrow> ptr \<Rightarrow> 'a mq_state_scheme \<Rightarrow> bool option" where
  "has_loop wt pCurrent s =
     (if pCurrent = NULL then Some False
      else if n_what (node s pCurrent) = wt then Some True
      else has_loop wt (n_pNext (node s pCurrent)) s)"

definition hasSpecificMessage :: "u32 \<Rightarrow> ptr \<Rightarrow> 'a mq_state_scheme \<Rightarrow> bool option" where
  "hasSpecificMessage wt l s =
     (if l = NULL then Some False
      else do { assert (pHead (mlist s l) \<noteq> NULL); has_loop wt (n_pNext (node s (pHead (mlist s l)))) s })"

definition hasMessage :: "ptr \<Rightarrow> 'a mq_state_scheme \<Rightarrow> bool option" where
  "hasMessage l s =
     (if l = NULL then Some False
      else do { assert (pHead (mlist s l) \<noteq> NULL); Some (n_pNext (node s (pHead (mlist s l))) \<noteq> NULL) })"

type_synonym 'a msg_handler = "ptr \<Rightarrow> u32 \<Rightarrow> 'a mq_state_scheme \<Rightarrow> 'a mq_state_scheme option"

text \<open>The loop of \<open>handleTimeoutMessage\<close> returns the node at which it stops.\<close>

partial_function (option) timeout_loop :: "'a msg_handler \<Rightarrow> u64 \<Rightarrow> ptr \<Rightarrow> ptr \<Rightarrow> 'a mq_state_scheme \<Rightarrow> (ptr \<times> 'a mq_state_scheme) option" where
  "timeout_loop hnd wn l pCurrent s =
     (if pCurrent = NULL then Some (pCurrent, s)
      else if wn \<ge> n_when (node s pCurrent) then
        (let pFreeNode = pCurrent; pCurrent = n_pNext (node s pCurrent) in
         do { s \<leftarrow> hnd (messageHandler (mlist s l)) (n_what (node s pFreeNode)) s;
              timeout_loop hnd wn l pCurrent (mq_free pFreeNode s) })
      else Some (pCurrent, s))"

definition handleTimeoutMessage :: "'a msg_handler \<Rightarrow> u64 \<Rightarrow> ptr \<Rightarrow> 'a mq_state_scheme \<Rightarrow> 'a mq_state_scheme option" where
  "handleTimeoutMessage hnd wn l s =
     (if l = NULL then Some s
      else do {
        assert (pHead (mlist s l) \<noteq> NULL);
        (c, s) \<leftarrow> timeout_loop hnd wn l (n_pNext (node s (pHead (mlist s l)))) s;
        Some (set_next (pHead (mlist s l)) c s) })"

section \<open>The motion event buffer\<close>

definition MAX_TFT5406BUFFER_FIFO_SIZE :: int where "MAX_TFT5406BUFFER_FIFO_SIZE = 1024"

definition initMotionEventFifo :: "int list \<Rightarrow> FIFO32" where
  "initMotionEventFifo bf = fifo32_init MAX_TFT5406BUFFER_FIFO_SIZE bf NULL"

definition putMotionEventFifo :: "int \<Rightarrow> FIFO32 \<Rightarrow> kernel \<Rightarrow> (int \<times> FIFO32 option \<times> kernel) option" where
  "putMotionEventFifo data f s = fifo32_put (Some f) data s"

definition getMotionEventFifo :: "FIFO32 \<Rightarrow> (int \<times> FIFO32) option" where
  "getMotionEventFifo f = do {
     (result, f) \<leftarrow> fifo32_get (Some f);
     Some (if result = - 1 then 0 else result, f) }"

definition getMotionEventStatus :: "FIFO32 \<Rightarrow> int" where
  "getMotionEventStatus f = fifo32_status f"

section \<open>Contents of a queue\<close>

type_synonym msg = "u64 \<times> u32"

definition msg_of :: "'a mq_state_scheme \<Rightarrow> ptr \<Rightarrow> msg" where
  "msg_of s a = (n_when (node s a), n_what (node s a))"

text \<open>\<open>queue_at L l as s\<close>: the list at \<open>l\<close> has a head node, its messages are in the nodes \<open>as\<close>, and all
  its nodes are live blocks of the heap, whose live blocks are \<open>L\<close>.\<close>

definition queue_at :: "ptr set \<Rightarrow> ptr \<Rightarrow> ptr list \<Rightarrow> 'a mq_state_scheme \<Rightarrow> bool" where
  "queue_at L l as s \<longleftrightarrow> l \<noteq> NULL \<and> heap_inv L (heap (ks s)) \<and>
     (let h = pHead (mlist s l) in h \<noteq> NULL \<and> h \<in> L \<and> h \<notin> set as \<and>
        linked (\<lambda>a. n_pNext (node s a)) (n_pNext (node s h)) as \<and> distinct as \<and> set as \<subseteq> L)"

definition messages :: "ptr list \<Rightarrow> 'a mq_state_scheme \<Rightarrow> msg list" where
  "messages as s = map (msg_of s) as"

text \<open>The specification: a list of messages in the order of their times, equal times in the order of arrival.\<close>

fun ins_msg :: "msg \<Rightarrow> msg list \<Rightarrow> msg list" where
  "ins_msg m [] = [m]"
| "ins_msg m (x # xs) = (if fst m < fst x then m # x # xs else x # ins_msg m xs)"

lemma linked_node_upd [simp]:
  "a \<notin> set as \<Longrightarrow> linked (\<lambda>b. n_pNext (if b = a then x else nd b)) p as \<longleftrightarrow> linked (\<lambda>b. n_pNext (nd b)) p as"
  by (rule linked_cong) auto

text \<open>Splicing a new cell \<open>t\<close> in after \<open>as1\<close>, in a list behind the cell \<open>h\<close>.\<close>

lemma linked_insert:
  assumes "linked nx (nx h) (as1 @ as2)" "distinct (h # as1 @ as2)" "t \<notin> set (h # as1 @ as2)" "t \<noteq> NULL" "h \<noteq> NULL"
    and "c = (case as2 of [] \<Rightarrow> NULL | b # _ \<Rightarrow> b)" "q = last (h # as1)"
    and "\<And>a. a \<noteq> t \<Longrightarrow> a \<noteq> q \<Longrightarrow> ny a = nx a" "ny t = c" "ny q = t"
  shows "linked ny (ny h) (as1 @ t # as2)"
  using assms
proof (induction as1 arbitrary: h)
  case Nil
  then have q: "q = h" by simp
  have "linked ny c as2"
  proof -
    have "nx h = c" using Nil.prems(1,6) by (cases as2) auto
    then have "linked nx c as2" using Nil.prems(1) by simp
    moreover have "linked nx c as2 = linked ny c as2"
    proof (rule linked_cong)
      fix a assume "a \<in> set as2"
      then have "a \<noteq> t" "a \<noteq> q" using Nil.prems(2,3) q by auto
      then show "nx a = ny a" using Nil.prems(8) by simp
    qed
    ultimately show ?thesis by simp
  qed
  then show ?case using Nil.prems q by simp
next
  case (Cons a as1)
  have "linked ny (ny a) (as1 @ t # as2)"
  proof (rule Cons.IH)
    show "linked nx (nx a) (as1 @ as2)" "a \<noteq> NULL" using Cons.prems(1) by simp_all
  qed (use Cons.prems in auto)
  moreover have "ny h = a"
  proof -
    have "h \<noteq> t" "h \<noteq> q" using Cons.prems(2,3,7) by (auto split: if_splits)
    then show ?thesis using Cons.prems(1,8) by simp
  qed
  ultimately show ?case using Cons.prems(1) by simp
qed

lemma takeWhile_ins:
  "ins_msg m xs = takeWhile (\<lambda>x. fst x \<le> fst m) xs @ m # dropWhile (\<lambda>x. fst x \<le> fst m) xs"
  by (induction xs) auto

lemma ins_msg_sorted: "sorted (map fst xs) \<Longrightarrow> sorted (map fst (ins_msg m xs))"
proof (induction xs)
  case (Cons x xs)
  have "set (ins_msg m xs) = insert m (set xs)" by (induction xs) auto
  with Cons show ?case by auto
qed simp

text \<open>The loop passes the nodes whose time is not later and inserts behind them.\<close>

lemma enqueue_loop_spec:
  assumes "linked (\<lambda>a. n_pNext (node s a)) cur as" "createnode wt wn s = (t, s1)" "t \<noteq> NULL"
    and "as1 = takeWhile (\<lambda>a. n_when (node s a) \<le> wn) as" "as2 = dropWhile (\<lambda>a. n_when (node s a) \<le> wn) as"
  shows "enqueue_loop wt wn prev cur s =
     Some (if as2 = [] then set_next (last (prev # as1)) t s1
           else set_next t (hd as2) (set_next (last (prev # as1)) t s1))"
  using assms
proof (induction as arbitrary: cur prev as1 as2)
  case Nil
  then show ?case by (subst enqueue_loop.simps) simp
next
  case (Cons a as)
  show ?case
  proof (cases "n_when (node s a) \<le> wn")
    case True
    have "enqueue_loop wt wn prev cur s = enqueue_loop wt wn a (n_pNext (node s a)) s"
      using Cons.prems(1) leD [OF True] by (subst enqueue_loop.simps) simp
    moreover have "enqueue_loop wt wn a (n_pNext (node s a)) s =
       Some (if as2 = [] then set_next (last (a # tl as1)) t s1
           else set_next t (hd as2) (set_next (last (a # tl as1)) t s1))"
      using Cons.prems True by (intro Cons.IH) auto
    moreover have "last (prev # as1) = last (a # tl as1)" using Cons.prems(4) True by simp
    ultimately show ?thesis by simp
  next
    case False
    then have "as1 = []" "as2 = a # as" using Cons.prems(4,5) by simp_all
    then show ?thesis using Cons.prems(1-3) False by (subst enqueue_loop.simps) (simp add: not_le)
  qed
qed

lemma createnode_spec:
  assumes inv: "heap_inv L (heap (ks s))" and c: "createnode wt wn s = (t, s1)" and t: "t \<noteq> NULL"
  shows "heap_inv (insert t L) (heap (ks s1))" "t \<notin> L" "mlist s1 = mlist s"
    "node s1 = (node s)(t := \<lparr>n_when = wn, n_what = wt, n_pNext = 0\<rparr>)"
    "task (ks s1) = task (ks s)"
proof -
  obtain p hp where m: "malloc sizeof_TNode (heap (ks s)) = (p, hp)" by (cases "malloc sizeof_TNode (heap (ks s))")
  then have r: "t = p" "s1 = s\<lparr>ks := (ks s)\<lparr>heap := hp\<rparr>, node := (node s)(p := \<lparr>n_when = wn, n_what = wt, n_pNext = 0\<rparr>)\<rparr>"
    using c t by (auto simp: createnode_def mq_malloc_def kmalloc_def split: if_splits)
  show "heap_inv (insert t L) (heap (ks s1))" "t \<notin> L"
    using heap.alloc_inv [OF inv m] heap.alloc_fresh [OF inv m] t r by simp_all
  show "mlist s1 = mlist s" "node s1 = (node s)(t := \<lparr>n_when = wn, n_what = wt, n_pNext = 0\<rparr>)"
    "task (ks s1) = task (ks s)" using r by simp_all
qed

lemma set_next_simps [simp]:
  "ks (set_next a q s) = ks s" "mlist (set_next a q s) = mlist s"
  "node (set_next a q s) = (node s)(a := (node s a)\<lparr>n_pNext := q\<rparr>)"
  by (simp_all add: set_next_def)

lemma mq_free_simps [simp]:
  "node (mq_free a s) = node s" "mlist (mq_free a s) = mlist s" "heap (ks (mq_free a s)) = free a (heap (ks s))"
  "task (ks (mq_free a s)) = task (ks s)"
  by (simp_all add: mq_free_def kfree_def)

lemma queue_atD:
  assumes "queue_at L l as s" "h = pHead (mlist s l)"
  shows "l \<noteq> NULL" "heap_inv L (heap (ks s))" "h \<noteq> NULL" "h \<in> L" "h \<notin> set as" "distinct as" "set as \<subseteq> L"
    "linked (\<lambda>a. n_pNext (node s a)) (n_pNext (node s h)) as"
  using assms by (simp_all add: queue_at_def Let_def)

lemma enqueue_spec:
  assumes q: "queue_at L l as s" and room: "fst (createnode wt wn s) \<noteq> NULL"
  shows "\<exists>s' t as'. enqueueMessage wt wn l s = Some s' \<and> queue_at (insert t L) l as' s' \<and> t \<notin> L \<and>
     messages as' s' = ins_msg (wn, wt) (messages as s) \<and> set as' = insert t (set as) \<and> mlist s' = mlist s \<and>
     heap (ks s') = heap (ks (snd (createnode wt wn s)))"
proof -
  define h where "h = pHead (mlist s l)"
  note D = queue_atD [OF q h_def]
  obtain t s1 where c: "createnode wt wn s = (t, s1)" by (cases "createnode wt wn s")
  then have t: "t \<noteq> NULL" using room by simp
  note C = createnode_spec [OF D(2) c t]
  define as1 as2 where "as1 = takeWhile (\<lambda>a. n_when (node s a) \<le> wn) as"
    and "as2 = dropWhile (\<lambda>a. n_when (node s a) \<le> wn) as"
  have as: "as = as1 @ as2" by (simp add: as1_def as2_def)
  let ?q = "last (h # as1)"
  let ?c = "case as2 of [] \<Rightarrow> NULL | b # _ \<Rightarrow> b"
  define s2 where "s2 = (if as2 = [] then set_next ?q t s1 else set_next t (hd as2) (set_next ?q t s1))"
  have e: "enqueue_loop wt wn h (n_pNext (node s h)) s = Some s2"
    unfolding s2_def by (rule enqueue_loop_spec [OF D(8) c t as1_def as2_def])
  have "?q \<in> set (h # as1)" by (rule last_in_set) simp
  then have tq: "t \<noteq> ?q" "t \<notin> set as" "t \<noteq> h" using C(2) D(4,7) as by auto
  have n2: "n_pNext (node s2 a) = (if a = t then ?c else if a = ?q then t else n_pNext (node s a))"
    "n_when (node s2 a) = (if a = t then wn else n_when (node s a))"
    "n_what (node s2 a) = (if a = t then wt else n_what (node s a))" for a
    using C(4) tq by (auto simp: s2_def neq_Nil_conv split: list.splits)
  have f2: "mlist s2 = mlist s" "heap (ks s2) = heap (ks s1)" using C by (simp_all add: s2_def)
  have link: "linked (\<lambda>a. n_pNext (node s2 a)) (n_pNext (node s2 h)) (as1 @ t # as2)"
    by (rule linked_insert [where nx = "\<lambda>a. n_pNext (node s a)" and q = ?q and c = ?c])
      (use D as t tq n2 in auto)
  define s3 where "s3 = (if l_task (mlist s2 l) \<noteq> NULL \<and> TaskGetState (l_task (mlist s2 l)) (ks s2) = TaskStateBlocked
                then s2\<lparr>ks := TaskSetState (l_task (mlist s2 l)) TaskStateReady (ks s2)\<rparr> else s2)"
  have f3: "node s3 = node s2" "mlist s3 = mlist s2" "heap (ks s3) = heap (ks s2)" by (simp_all add: s3_def)
  have "enqueueMessage wt wn l s = Some s3"
    using D(1,3) e by (simp add: enqueueMessage_def h_def [symmetric] s3_def)
  moreover have "queue_at (insert t L) l (as1 @ t # as2) s3"
    using D(1,3-7) C(1) as tq t link f2 f3 by (auto simp: queue_at_def Let_def h_def)
  moreover have "messages (as1 @ t # as2) s3 = ins_msg (wn, wt) (messages as s)"
  proof -
    have m: "msg_of s3 a = msg_of s a" if "a \<in> set as" for a using that tq(2) n2 f3 by (auto simp: msg_of_def)
    have "map (msg_of s3) as1 = map (msg_of s) as1" "map (msg_of s3) as2 = map (msg_of s) as2"
      using m as by auto
    moreover have "msg_of s3 t = (wn, wt)" using n2 f3 by (simp add: msg_of_def)
    moreover have "takeWhile (\<lambda>x. fst x \<le> wn) (map (msg_of s) as) = map (msg_of s) as1"
      "dropWhile (\<lambda>x. fst x \<le> wn) (map (msg_of s) as) = map (msg_of s) as2"
      by (simp_all add: takeWhile_map dropWhile_map comp_def as1_def as2_def msg_of_def)
    ultimately show ?thesis by (simp add: messages_def takeWhile_ins)
  qed
  moreover have "mlist s3 = mlist s" "set (as1 @ t # as2) = insert t (set as)" "heap (ks s3) = heap (ks (snd (createnode wt wn s)))"
    using f2 f3 as c by auto
  ultimately show ?thesis using C(2) by blast
qed

lemma remove_loop_spec:
  assumes "linked (\<lambda>a. n_pNext (node s a)) cur as" "n_pNext (node s prev) = cur" "prev \<notin> set as" "distinct as"
    and "set as \<subseteq> L" "heap_inv L (heap (ks s))"
  shows "\<exists>s'. remove_loop wt prev cur s = Some s' \<and> mlist s' = mlist s \<and>
     linked (\<lambda>a. n_pNext (node s' a)) (n_pNext (node s' prev)) (filter (\<lambda>a. n_what (node s a) \<noteq> wt) as) \<and>
     heap_inv (L - set (filter (\<lambda>a. n_what (node s a) = wt) as)) (heap (ks s')) \<and>
     (\<forall>a. a \<noteq> prev \<and> a \<notin> set as \<longrightarrow> node s' a = node s a) \<and> (\<forall>a. msg_of s' a = msg_of s a)"
  using assms
proof (induction as arbitrary: s cur prev L)
  case Nil
  then show ?case by (subst remove_loop.simps) simp
next
  case (Cons a as)
  have cur: "cur = a" "a \<noteq> NULL" "linked (\<lambda>a. n_pNext (node s a)) (n_pNext (node s a)) as"
    using Cons.prems(1) by simp_all
  show ?case
  proof (cases "n_what (node s a) = wt")
    case True
    define s1 where "s1 = mq_free a (set_next prev (n_pNext (node s a)) s)"
    have ap: "a \<noteq> prev" "prev \<notin> set as" "a \<notin> set as" using Cons.prems(3,4) by auto
    have inv1: "heap_inv (L - {a}) (heap (ks s1))"
      using heap.dealloc_inv [OF Cons.prems(6), of a] Cons.prems(5) by (simp add: s1_def)
    have w: "n_what (node s1 b) = n_what (node s b)" "msg_of s1 b = msg_of s b" for b
      by (simp_all add: s1_def msg_of_def)
    have step: "remove_loop wt prev cur s = remove_loop wt prev (n_pNext (node s1 prev)) s1"
      using cur True by (subst remove_loop.simps) (simp add: s1_def Let_def)
    have "\<exists>s'. remove_loop wt prev (n_pNext (node s1 prev)) s1 = Some s' \<and> mlist s' = mlist s1 \<and>
       linked (\<lambda>a. n_pNext (node s' a)) (n_pNext (node s' prev)) (filter (\<lambda>a. n_what (node s1 a) \<noteq> wt) as) \<and>
       heap_inv (L - {a} - set (filter (\<lambda>a. n_what (node s1 a) = wt) as)) (heap (ks s')) \<and>
       (\<forall>b. b \<noteq> prev \<and> b \<notin> set as \<longrightarrow> node s' b = node s1 b) \<and> (\<forall>b. msg_of s' b = msg_of s1 b)"
    proof (rule Cons.IH)
      show "linked (\<lambda>a. n_pNext (node s1 a)) (n_pNext (node s1 prev)) as"
        using cur(3) ap by (simp add: s1_def)
      show "set as \<subseteq> L - {a}" using Cons.prems(5) ap by auto
    qed (use ap Cons.prems(4) inv1 in auto)
    then obtain s' where s': "remove_loop wt prev (n_pNext (node s1 prev)) s1 = Some s'" "mlist s' = mlist s1"
       "linked (\<lambda>a. n_pNext (node s' a)) (n_pNext (node s' prev)) (filter (\<lambda>a. n_what (node s1 a) \<noteq> wt) as)"
       "heap_inv (L - {a} - set (filter (\<lambda>a. n_what (node s1 a) = wt) as)) (heap (ks s'))"
       "\<forall>b. b \<noteq> prev \<and> b \<notin> set as \<longrightarrow> node s' b = node s1 b" "\<forall>b. msg_of s' b = msg_of s1 b" by blast
    have "L - {a} - X = L - insert a X" for X by auto
    with s' step True w show ?thesis by (auto simp: s1_def)
  next
    case False
    have step: "remove_loop wt prev cur s = remove_loop wt a (n_pNext (node s a)) s"
      using cur False by (subst remove_loop.simps) simp
    obtain s' where s': "remove_loop wt a (n_pNext (node s a)) s = Some s'" "mlist s' = mlist s"
       "linked (\<lambda>a. n_pNext (node s' a)) (n_pNext (node s' a)) (filter (\<lambda>a. n_what (node s a) \<noteq> wt) as)"
       "heap_inv (L - set (filter (\<lambda>a. n_what (node s a) = wt) as)) (heap (ks s'))"
       "\<forall>b. b \<noteq> a \<and> b \<notin> set as \<longrightarrow> node s' b = node s b" "\<forall>b. msg_of s' b = msg_of s b"
      using Cons.IH [OF cur(3) refl, of L] Cons.prems(4-6) by auto
    have "n_pNext (node s' prev) = a" using s'(5) Cons.prems(2,3) cur(1) by auto
    with s' step False cur show ?thesis by auto
  qed
qed

lemma remove_spec:
  assumes q: "queue_at L l as s"
  shows "\<exists>s' as'. removeMessages wt l s = Some s' \<and> queue_at (L - (set as - set as')) l as' s' \<and>
     messages as' s' = filter (\<lambda>m. snd m \<noteq> wt) (messages as s) \<and> set as' \<subseteq> set as \<and> mlist s' = mlist s"
proof -
  define h where "h = pHead (mlist s l)"
  note D = queue_atD [OF q h_def]
  obtain s' where s': "remove_loop wt h (n_pNext (node s h)) s = Some s'" "mlist s' = mlist s"
     "linked (\<lambda>a. n_pNext (node s' a)) (n_pNext (node s' h)) (filter (\<lambda>a. n_what (node s a) \<noteq> wt) as)"
     "heap_inv (L - set (filter (\<lambda>a. n_what (node s a) = wt) as)) (heap (ks s'))"
     "\<forall>a. msg_of s' a = msg_of s a"
    using remove_loop_spec [OF D(8) refl D(5,6,7,2)] by blast
  let ?as = "filter (\<lambda>a. n_what (node s a) \<noteq> wt) as"
  have dif: "set as - set ?as = set (filter (\<lambda>a. n_what (node s a) = wt) as)" by auto
  have "queue_at (L - (set as - set ?as)) l ?as s'"
    unfolding dif using D s' by (auto simp: queue_at_def Let_def h_def)
  moreover have "messages ?as s' = filter (\<lambda>m. snd m \<noteq> wt) (messages as s)"
    using s'(5) by (simp add: messages_def filter_map comp_def msg_of_def)
  moreover have "removeMessages wt l s = Some s'"
    using D(1,3) s'(1) by (simp add: removeMessages_def h_def [symmetric] Let_def)
  moreover have "set ?as \<subseteq> set as" by auto
  ultimately show ?thesis using s'(2) by blast
qed

lemma sorted_split:
  "sorted (map fst xs) \<Longrightarrow> filter (\<lambda>m. fst m \<le> w) xs = takeWhile (\<lambda>m. fst m \<le> w) xs \<and>
     filter (\<lambda>m. w < fst m) xs = dropWhile (\<lambda>m. fst m \<le> w) xs"
proof (induction xs)
  case (Cons x xs)
  show ?case
  proof (cases "fst x \<le> w")
    case True
    with Cons show ?thesis by (simp add: leD)
  next
    case False
    then have "\<forall>y \<in> set (x # xs). w < fst y" using Cons.prems by force
    then show ?thesis using False by (auto simp: filter_empty_conv not_le filter_id_conv)
  qed
qed simp

section \<open>Delivery\<close>

text \<open>What the delivery of messages relies on. While a queue with the nodes \<open>as\<close> is traversed, the handler returns, \<open>eff w\<close> is what it does for a message
  \<open>w\<close>, and that does not touch the nodes, the lists and the heap; \<open>calm\<close> says for which messages, in a queue of which messages. The
  nodes that have been delivered are still linked, although they have been freed.\<close>

definition listed :: "ptr \<Rightarrow> ptr list \<Rightarrow> 'a mq_state_scheme \<Rightarrow> bool" where
  "listed l as s \<longleftrightarrow> l \<noteq> NULL \<and> pHead (mlist s l) \<noteq> NULL \<and> linked (\<lambda>a. n_pNext (node s a)) (n_pNext (node s (pHead (mlist s l)))) as"

definition same_lists :: "'a mq_state_scheme \<Rightarrow> 'a mq_state_scheme \<Rightarrow> bool" where
  "same_lists s s' \<longleftrightarrow> ks s' = ks s \<and> node s' = node s \<and> mlist s' = mlist s"

locale message_handler =
  fixes hnd :: "'a msg_handler" and eff :: "u32 \<Rightarrow> 'a mq_state_scheme \<Rightarrow> 'a mq_state_scheme"
    and calm :: "u32 \<Rightarrow> u32 set \<Rightarrow> bool" and good :: "ptr \<Rightarrow> 'a mq_state_scheme \<Rightarrow> bool"
  assumes handled: "good l s \<Longrightarrow> listed l as s \<Longrightarrow> calm w (n_what ` node s ` set as) \<Longrightarrow> hnd p w s = Some (eff w s)"
    and eff_lists: "same_lists s (eff w s)"
    and eff_good: "good l s \<Longrightarrow> good l (eff w s)"
    and eff_more: "mq_state.more s = mq_state.more s' \<Longrightarrow> mq_state.more (eff w s) = mq_state.more (eff w s')"
    and good_more: "mq_state.more s = mq_state.more s' \<Longrightarrow> good l s = good l s'"
begin

lemma fold_more:
  "mq_state.more s = mq_state.more s' \<Longrightarrow> mq_state.more (fold (\<lambda>m. eff (snd m)) ms s) = mq_state.more (fold (\<lambda>m. eff (snd m)) ms s')"
proof (induction ms arbitrary: s s')
  case (Cons m ms)
  show ?case using Cons.IH [OF eff_more [OF Cons.prems, of "snd m"]] by (simp only: fold_simps)
qed simp

lemma timeout_loop_delivers:
  assumes "good l s" "listed l (bs @ as) s" "linked (\<lambda>a. n_pNext (node s a)) cur as" "distinct as" "set as \<subseteq> L" "heap_inv L (heap (ks s))"
    and "dn = takeWhile (\<lambda>a. n_when (node s a) \<le> wn) as" "rs = dropWhile (\<lambda>a. n_when (node s a) \<le> wn) as"
    and "\<forall>a \<in> set dn. calm (n_what (node s a)) (n_what ` node s ` set (bs @ as))"
  shows "\<exists>c s'. timeout_loop hnd wn l cur s = Some (c, s') \<and> linked (\<lambda>a. n_pNext (node s a)) c rs \<and> node s' = node s \<and> mlist s' = mlist s \<and>
     heap_inv (L - set dn) (heap (ks s')) \<and> mq_state.more s' = mq_state.more (fold (\<lambda>m. eff (snd m)) (map (msg_of s) dn) s)"
  using assms
proof (induction as arbitrary: s cur L dn rs bs)
  case Nil
  then show ?case by (subst timeout_loop.simps) simp
next
  case (Cons a as)
  have cur: "cur = a" "a \<noteq> NULL" "linked (\<lambda>a. n_pNext (node s a)) (n_pNext (node s a)) as" using Cons.prems(3) by simp_all
  show ?case
  proof (cases "n_when (node s a) \<le> wn")
    case False
    then have "dn = []" "rs = a # as" using Cons.prems(7,8) by simp_all
    then show ?thesis using Cons.prems(3,6) cur False by (subst timeout_loop.simps) simp
  next
    case True
    let ?w = "n_what (node s a)"
    define dn' where "dn' = takeWhile (\<lambda>a. n_when (node s a) \<le> wn) as"
    have dn: "dn = a # dn'" "rs = dropWhile (\<lambda>a. n_when (node s a) \<le> wn) as" using Cons.prems(7,8) True by (simp_all add: dn'_def)
    define s1 where "s1 = mq_free a (eff ?w s)"
    have h: "hnd (messageHandler (mlist s l)) ?w s = Some (eff ?w s)"
      using handled [OF Cons.prems(1,2)] Cons.prems(9) dn(1) by simp
    have f: "node s1 = node s" "mlist s1 = mlist s" "heap (ks s1) = free a (heap (ks s))" "mq_state.more s1 = mq_state.more (eff ?w s)"
      using eff_lists [of s ?w] by (simp_all add: s1_def same_lists_def) (simp add: mq_free_def)
    have step: "timeout_loop hnd wn l cur s = timeout_loop hnd wn l (n_pNext (node s a)) s1"
      using cur True h by (subst timeout_loop.simps) (simp add: s1_def Let_def)
    have "heap_inv (L - {a}) (heap (ks s1))" using heap.dealloc_inv [OF Cons.prems(6), of a] Cons.prems(5) f by simp
    moreover have "good l s1" using eff_good [OF Cons.prems(1)] good_more [OF f(4)] by simp
    moreover have "listed l ((bs @ [a]) @ as) s1" using Cons.prems(2) f by (simp add: listed_def)
    ultimately obtain c s' where s': "timeout_loop hnd wn l (n_pNext (node s a)) s1 = Some (c, s')" "linked (\<lambda>a. n_pNext (node s1 a)) c rs"
      "node s' = node s1" "mlist s' = mlist s1" "heap_inv (L - {a} - set dn') (heap (ks s'))"
      "mq_state.more s' = mq_state.more (fold (\<lambda>m. eff (snd m)) (map (msg_of s1) dn') s1)"
      using Cons.IH [of s1 "bs @ [a]" "n_pNext (node s a)" "L - {a}" dn' rs] cur(3) Cons.prems(4,5,9) dn f by (auto simp: dn'_def)
    have m: "msg_of s1 = msg_of s" by (simp add: fun_eq_iff msg_of_def f)
    have "L - {a} - set dn' = L - set dn" using dn(1) by auto
    moreover have "mq_state.more s' = mq_state.more (fold (\<lambda>m. eff (snd m)) (map (msg_of s) dn) s)"
      using s'(6) fold_more [OF f(4)] by (simp add: dn(1) m) (simp add: msg_of_def)
    ultimately show ?thesis using s' step f by auto
  qed
qed

lemma timeout_delivers:
  assumes q: "queue_at L l as s" and g: "good l s" and sorted: "sorted (map fst (messages as s))"
    and calm: "\<forall>m \<in> set (messages as s). fst m \<le> wn \<longrightarrow> calm (snd m) (snd ` set (messages as s))"
  shows "\<exists>s' as'. handleTimeoutMessage hnd wn l s = Some s' \<and> queue_at (L - (set as - set as')) l as' s' \<and>
     messages as' s' = filter (\<lambda>m. wn < fst m) (messages as s) \<and>
     mq_state.more s' = mq_state.more (fold (\<lambda>m. eff (snd m)) (filter (\<lambda>m. fst m \<le> wn) (messages as s)) s)"
proof -
  define h where "h = pHead (mlist s l)"
  note D = queue_atD [OF q h_def]
  define dn rs where "dn = takeWhile (\<lambda>a. n_when (node s a) \<le> wn) as" and "rs = dropWhile (\<lambda>a. n_when (node s a) \<le> wn) as"
  have li: "listed l ([] @ as) s" using D by (simp add: listed_def h_def)
  have w: "n_what ` node s ` set as = snd ` set (messages as s)" by (force simp: messages_def msg_of_def)
  have "\<forall>a \<in> set dn. calm (n_what (node s a)) (n_what ` node s ` set ([] @ as))"
    using calm set_takeWhileD [of _ "\<lambda>a. n_when (node s a) \<le> wn" as] unfolding append_Nil w by (fastforce simp: dn_def messages_def msg_of_def)
  then obtain c s1 where s1: "timeout_loop hnd wn l (n_pNext (node s h)) s = Some (c, s1)" "linked (\<lambda>a. n_pNext (node s a)) c rs" "node s1 = node s"
     "mlist s1 = mlist s" "heap_inv (L - set dn) (heap (ks s1))" "mq_state.more s1 = mq_state.more (fold (\<lambda>m. eff (snd m)) (map (msg_of s) dn) s)"
    using timeout_loop_delivers [OF g li D(8,6,7,2) dn_def rs_def] by blast
  define s2 where "s2 = set_next h c s1"
  have as: "as = dn @ rs" by (simp add: dn_def rs_def)
  have dif: "set as - set rs = set dn" using D(6) as by auto
  have "handleTimeoutMessage hnd wn l s = Some s2"
    using D(1,3) s1 by (simp add: handleTimeoutMessage_def h_def [symmetric] s2_def)
  moreover have "queue_at (L - (set as - set rs)) l rs s2"
    unfolding dif using D s1 as by (auto simp: queue_at_def Let_def h_def s2_def)
  moreover have "filter (\<lambda>m. fst m \<le> wn) (map (msg_of s) as) = map (msg_of s) dn"
    "filter (\<lambda>m. wn < fst m) (map (msg_of s) as) = map (msg_of s) rs"
    using sorted_split [OF sorted [unfolded messages_def], of wn]
    by (simp_all add: dn_def rs_def takeWhile_map dropWhile_map comp_def msg_of_def)
  moreover have "map (msg_of s2) rs = map (msg_of s) rs" using s1(3) by (simp add: s2_def msg_of_def)
  moreover have "mq_state.more s2 = mq_state.more s1" by (simp add: s2_def set_next_def)
  ultimately show ?thesis using s1(6) by (auto simp: messages_def)
qed

end

section \<open>Properties\<close>

text \<open>C10: \<open>enqueueMessage\<close> keeps a queue in the order of the times. When the heap has room for a node, the
  message is inserted behind all messages that are not later and before all later ones; no other
  message is lost or changed, and the queue and the heap stay well-formed.\<close>

theorem enqueue_sorted:
  assumes "queue_at L l as s" "fst (createnode wt wn s) \<noteq> NULL" "sorted (map fst (messages as s))"
  shows "\<exists>s' t as'. enqueueMessage wt wn l s = Some s' \<and> queue_at (insert t L) l as' s' \<and>
     messages as' s' = ins_msg (wn, wt) (messages as s) \<and> sorted (map fst (messages as' s'))"
  using enqueue_spec [OF assms(1,2)] ins_msg_sorted [OF assms(3), of "(wn, wt)"] by metis

text \<open>\<open>removeMessages\<close> removes exactly the messages of the type, returns their nodes to the heap and keeps the
  order of the others.\<close>

lemma remove_exact:
  assumes "queue_at L l as s"
  shows "\<exists>s' as'. removeMessages wt l s = Some s' \<and> queue_at (L - (set as - set as')) l as' s' \<and>
     messages as' s' = filter (\<lambda>m. snd m \<noteq> wt) (messages as s)"
  using remove_spec [OF assms] by blast

lemma init_spec:
  assumes inv: "heap_inv L (heap (ks s))" and i: "initMessageQueue tk hn s = (l, s')"
    and ok: "l \<noteq> NULL" "pHead (mlist s' l) \<noteq> NULL"
  shows "queue_at (insert (pHead (mlist s' l)) (insert l L)) l [] s' \<and> messages [] s' = []"
proof -
  obtain p hp where m: "malloc sizeof_TList (heap (ks s)) = (p, hp)" by (cases "malloc sizeof_TList (heap (ks s))")
  define s1 where "s1 = s\<lparr>ks := (ks s)\<lparr>heap := hp\<rparr>\<rparr>"
  obtain h s2 where c: "createnode 0xff 0 s1 = (h, s2)" by (cases "createnode 0xff 0 s1")
  have mm: "mq_malloc sizeof_TList s = (p, s1)" using m by (simp add: mq_malloc_def kmalloc_def s1_def)
  have r: "l = p" "s' = s2\<lparr>mlist := (mlist s2)(p := \<lparr>pHead = h, l_task = tk, messageHandler = hn\<rparr>)\<rparr>"
    using i ok(1) c by (auto simp: initMessageQueue_def mm split: if_splits)
  have h: "h \<noteq> NULL" "pHead (mlist s' l) = h" using ok(2) r by simp_all
  have "heap_inv (insert l L) (heap (ks s1))" using heap.alloc_inv [OF inv m] ok(1) r by (simp add: s1_def)
  note C = createnode_spec [OF this c h(1)]
  show ?thesis
    using C ok(1) r h by (simp add: queue_at_def Let_def messages_def)
qed

text \<open>A queue on a fresh heap.\<close>

definition mq_boot :: mq_state where
  "mq_boot = \<lparr>ks = demo_kernel, node = (\<lambda>_. \<lparr>n_when = 0, n_what = 0, n_pNext = 0\<rparr>),
     mlist = (\<lambda>_. \<lparr>pHead = 0, l_task = 0, messageHandler = 0\<rparr>)\<rparr>"

definition mq_empty :: mq_state where
  "mq_empty = snd (initMessageQueue 0 0x7000 mq_boot)"

lemmas malloc_eval = malloc_def boot_heap_simps block_sizes_def block_extent_def Let_def CONFIG_FB_ADDR_def FB_END_def
  demo_kernel_def mq_malloc_def kmalloc_def createnode_def sizeof_TNode_def sizeof_TList_def

lemma mq_init: "initMessageQueue 0 0x7000 mq_boot = (0x43000010, mq_empty)" "pHead (mlist mq_empty 0x43000010) = 0x43000060"
proof -
  have "fst (initMessageQueue 0 0x7000 mq_boot) = 0x43000010"
    by (simp add: initMessageQueue_def mq_boot_def malloc_eval)
  then show "initMessageQueue 0 0x7000 mq_boot = (0x43000010, mq_empty)" by (simp add: mq_empty_def prod_eq_iff)
  show "pHead (mlist mq_empty 0x43000010) = 0x43000060"
    by (simp add: initMessageQueue_def mq_empty_def mq_boot_def malloc_eval)
qed

lemma mq_empty_queue: "queue_at {0x43000060, 0x43000010} 0x43000010 [] mq_empty" "messages [] mq_empty = []"
proof -
  have "heap_inv {} (heap (ks mq_boot))" using boot_heap_inv(1) by (simp add: mq_boot_def demo_kernel_def)
  from init_spec [OF this mq_init(1)]
  show "queue_at {0x43000060, 0x43000010} 0x43000010 [] mq_empty" "messages [] mq_empty = []" by (simp_all add: mq_init(2))
qed

lemma mq_empty_room: "fst (createnode wt wn mq_empty) \<noteq> NULL"
  by (simp add: initMessageQueue_def mq_empty_def mq_boot_def malloc_eval)

theorem enqueue_sorted_witness:
  "\<exists>s' t as'. enqueueMessage 2 6 0x43000010 mq_empty = Some s' \<and>
     queue_at (insert t {0x43000060, 0x43000010}) 0x43000010 as' s' \<and> messages as' s' = [(6, 2)]"
  using enqueue_sorted [OF mq_empty_queue(1) mq_empty_room [of 2 6]] by (auto simp: mq_empty_queue(2))

end
