(* ===== verification/Disk.thy ===== *)
theory Disk
  imports Prelude
begin

text \<open>
  The block device under the file system: the transfer functions of the SD/MMC driver
  (\<^verbatim>\<open>env/lib/drivers/mmc/mmc.c\<close>, \<^verbatim>\<open>mmc_write.c\<close>) and the partition window of
  \<^verbatim>\<open>env/lib/fs/partition.c\<close>.

  The card and its host controller are the environment. The \<open>n\<close>-th command sent to the card fails
  when \<open>cmd_err m n\<close> is not 0, its response word is \<open>response m n\<close>, and what a failed transfer leaves
  in the memory it should have written is \<open>garbage m n\<close>; the three are arbitrary functions. A card that
  is not of high capacity takes byte addresses, one of high capacity takes block numbers.
\<close>

section \<open>Model of the card\<close>

record mmc =
  blocks :: "nat \<Rightarrow> u8 list"
  lba :: u32
  b_max :: u32
  high_capacity :: bool
  ddr_52MHz :: bool
  present :: bool
  sent :: nat
  cmd_err :: "nat \<Rightarrow> u32"
  response :: "nat \<Rightarrow> u32"
  garbage :: "nat \<Rightarrow> u8 list"

definition MMC_MAX_BLOCK_LEN :: nat where "MMC_MAX_BLOCK_LEN = 512"

definition pad :: "nat \<Rightarrow> u8 list \<Rightarrow> u8 list" where
  "pad n xs = take n (xs @ replicate n 0)"

definition card_block :: "mmc \<Rightarrow> u32 \<Rightarrow> nat" where
  "card_block m arg = (if high_capacity m then unat arg else unat arg div MMC_MAX_BLOCK_LEN)"

definition card_read :: "mmc \<Rightarrow> nat \<Rightarrow> nat \<Rightarrow> u8 list" where
  "card_read m b n = concat (map (blocks m) [b ..< b + n])"

definition card_write :: "nat \<Rightarrow> nat \<Rightarrow> u8 list \<Rightarrow> mmc \<Rightarrow> mmc" where
  "card_write b n bs m = m\<lparr>blocks := (\<lambda>i. if b \<le> i \<and> i < b + n then take 512 (drop (512 * (i - b)) bs) else blocks m i)\<rparr>"

text \<open>\<open>mmc_send_cmd\<close> without its data stage: the error code, the response word and the card.\<close>

definition mmc_send_cmd :: "mmc \<Rightarrow> u32 \<times> u32 \<times> mmc" where
  "mmc_send_cmd m = (cmd_err m (sent m), response m (sent m), m\<lparr>sent := Suc (sent m)\<rparr>)"

section \<open>The driver\<close>

definition MMC_STATUS_RDY_FOR_DATA :: u32 where "MMC_STATUS_RDY_FOR_DATA = 0x100"
definition MMC_STATUS_CURR_STATE :: u32 where "MMC_STATUS_CURR_STATE = 0x1E00"
definition MMC_STATE_PRG :: u32 where "MMC_STATE_PRG = 0xE00"
definition MMC_STATUS_MASK :: u32 where "MMC_STATUS_MASK = NOT 0x0206BF7F"
definition MMC_STATUS_SWITCH_ERROR :: u32 where "MMC_STATUS_SWITCH_ERROR = 0x80"
definition COMM_ERR :: u32 where "COMM_ERR = - 18"
definition TIMEOUT :: u32 where "TIMEOUT = - 19"
definition SWITCH_ERR :: u32 where "SWITCH_ERR = - 21"

definition status_exit :: "bool \<Rightarrow> u32 \<Rightarrow> u32" where
  "status_exit timed_out r =
     (if timed_out then TIMEOUT else if r AND MMC_STATUS_SWITCH_ERROR \<noteq> 0 then SWITCH_ERR else 0)"

text \<open>The loop of \<open>mmc_send_status\<close>, with the timeout still to run and the retries left.\<close>

fun send_status_loop :: "nat \<Rightarrow> int \<Rightarrow> mmc \<Rightarrow> u32 \<times> mmc" where
  "send_status_loop timeout retries m =
     (let (err, r, m) = mmc_send_cmd m in
      if err = 0 then
        (if r AND MMC_STATUS_RDY_FOR_DATA \<noteq> 0 \<and> r AND MMC_STATUS_CURR_STATE \<noteq> MMC_STATE_PRG
         then (status_exit (timeout = 0) r, m)
         else if r AND MMC_STATUS_MASK \<noteq> 0 then (COMM_ERR, m)
         else (case timeout of 0 \<Rightarrow> (status_exit True r, m) | Suc t \<Rightarrow> send_status_loop t retries m))
      else if retries - 1 < 0 then (err, m)
      else (case timeout of 0 \<Rightarrow> (status_exit True r, m) | Suc t \<Rightarrow> send_status_loop t (retries - 1) m))"

declare send_status_loop.simps [simp del]

definition mmc_send_status :: "nat \<Rightarrow> mmc \<Rightarrow> u32 \<times> mmc" where
  "mmc_send_status timeout m = send_status_loop timeout 5 m"

definition mmc_set_blocklen :: "mmc \<Rightarrow> u32 \<times> mmc" where
  "mmc_set_blocklen m = (if ddr_52MHz m then (0, m) else let (err, _, m) = mmc_send_cmd m in (err, m))"

definition mmc_arg :: "mmc \<Rightarrow> u32 \<Rightarrow> u32" where
  "mmc_arg m start = (if high_capacity m then start else start * of_nat MMC_MAX_BLOCK_LEN)"

text \<open>The result, what is in the destination, and the card.\<close>

definition mmc_read_blocks :: "u32 \<Rightarrow> u32 \<Rightarrow> mmc \<Rightarrow> u32 \<times> u8 list \<times> mmc" where
  "mmc_read_blocks start blkcnt m =
     (let (err, _, m1) = mmc_send_cmd m;
          n = unat blkcnt
      in if err \<noteq> 0 then (0, pad (n * MMC_MAX_BLOCK_LEN) (garbage m (sent m)), m1)
      else let data = card_read m1 (card_block m (mmc_arg m start)) n in
        if blkcnt > 1 then
          (let (err, _, m2) = mmc_send_cmd m1 in
           if err \<noteq> 0 then (0, data, m2) else (blkcnt, data, m2))
        else (blkcnt, data, m1))"

definition mmc_write_blocks :: "u32 \<Rightarrow> u32 \<Rightarrow> u8 list \<Rightarrow> mmc \<Rightarrow> u32 \<times> mmc" where
  "mmc_write_blocks start blkcnt src m =
     (if start + blkcnt > lba m then (0, m)
      else if blkcnt = 0 then (0, m)
      else
        let n = unat blkcnt;
            b = card_block m (mmc_arg m start);
            (err, _, m1) = mmc_send_cmd m
        in if err \<noteq> 0 then (0, card_write b n (pad (n * MMC_MAX_BLOCK_LEN) (garbage m (sent m))) m1)
        else let m2 = card_write b n src m1;
               (err, m3) = (if blkcnt > 1 then (let (err, _, m3) = mmc_send_cmd m2 in (err, m3)) else (0, m2))
             in if err \<noteq> 0 then (0, m3)
             else let (err, m4) = mmc_send_status 1000 m3 in
               if err \<noteq> 0 then (0, m4) else (blkcnt, m4))"

definition next_chunk :: "mmc \<Rightarrow> u32 \<Rightarrow> u32" where
  "next_chunk m blocks_todo = (if blocks_todo > b_max m then b_max m else blocks_todo)"

text \<open>The loops of \<open>mmc_bread\<close> and \<open>mmc_bwrite\<close>. \<open>dst\<close> is the part of the destination that is still to be
  filled; the first component says whether every block was transferred.\<close>

partial_function (option) bread_loop ::
  "u32 \<Rightarrow> u32 \<Rightarrow> u8 list \<Rightarrow> mmc \<Rightarrow> (bool \<times> u8 list \<times> mmc) option" where
  "bread_loop start blocks_todo dst m =
     (let cur = next_chunk m blocks_todo;
          (r, chunk, m) = mmc_read_blocks start cur m;
          rest = drop (unat cur * MMC_MAX_BLOCK_LEN) dst
      in if r \<noteq> cur then Some (False, chunk @ rest, m)
      else if blocks_todo - cur > 0 then
        do { (ok, rest, m) \<leftarrow> bread_loop (start + cur) (blocks_todo - cur) rest m;
             Some (ok, chunk @ rest, m) }
      else Some (True, chunk @ rest, m))"

definition mmc_bread :: "u32 \<Rightarrow> u32 \<Rightarrow> u8 list \<Rightarrow> mmc \<Rightarrow> (u32 \<times> u8 list \<times> mmc) option" where
  "mmc_bread start blkcnt dst m =
     (if blkcnt = 0 then Some (0, dst, m)
      else if \<not> present m then Some (0, dst, m)
      else if start + blkcnt > lba m then Some (0, dst, m)
      else let (err, m) = mmc_set_blocklen m in
        if err \<noteq> 0 then Some (0, dst, m)
        else do { (ok, dst, m) \<leftarrow> bread_loop start blkcnt dst m;
                  Some (if ok then blkcnt else 0, dst, m) })"

partial_function (option) bwrite_loop :: "u32 \<Rightarrow> u32 \<Rightarrow> u8 list \<Rightarrow> mmc \<Rightarrow> (bool \<times> mmc) option" where
  "bwrite_loop start blocks_todo src m =
     (let cur = next_chunk m blocks_todo;
          (r, m) = mmc_write_blocks start cur src m
      in if r \<noteq> cur then Some (False, m)
      else if blocks_todo - cur > 0
      then bwrite_loop (start + cur) (blocks_todo - cur) (drop (unat cur * MMC_MAX_BLOCK_LEN) src) m
      else Some (True, m))"

definition mmc_bwrite :: "u32 \<Rightarrow> u32 \<Rightarrow> u8 list \<Rightarrow> mmc \<Rightarrow> (u32 \<times> mmc) option" where
  "mmc_bwrite start blkcnt src m =
     (if \<not> present m then Some (0, m)
      else let (err, m) = mmc_set_blocklen m in
        if err \<noteq> 0 then Some (0, m)
        else do { (ok, m) \<leftarrow> bwrite_loop start blkcnt src m; Some (if ok then blkcnt else 0, m) })"

section \<open>Partitions\<close>

record TPartition =
  m_pPartitionName :: "u8 list"
  m_nFirstSector :: u32
  m_nNumberOfSectors :: u32

text \<open>Both functions return \<open>-1\<close> for a transfer that ends behind the partition.\<close>

definition PartitionRead :: "TPartition \<Rightarrow> u8 list \<Rightarrow> u32 \<Rightarrow> u32 \<Rightarrow> mmc \<Rightarrow> (u32 \<times> u8 list \<times> mmc) option" where
  "PartitionRead p buf start sectorNum m =
     (let ullTransferEnd = start + sectorNum in
      if ullTransferEnd > m_nNumberOfSectors p then Some (- 1, buf, m)
      else mmc_bread (m_nFirstSector p + start) sectorNum buf m)"

definition PartitionWrite :: "TPartition \<Rightarrow> u32 \<Rightarrow> u32 \<Rightarrow> u8 list \<Rightarrow> mmc \<Rightarrow> (u32 \<times> mmc) option" where
  "PartitionWrite p start blkcnt src m =
     (let ullTransferEnd = (ucast (start + blkcnt) :: u64) in
      if ullTransferEnd > ucast (m_nNumberOfSectors p) then Some (- 1, m)
      else mmc_bwrite (m_nFirstSector p + start) blkcnt src m)"

section \<open>Transfers\<close>

definition card_ok :: "mmc \<Rightarrow> bool" where
  "card_ok m \<longleftrightarrow> 0 < b_max m \<and> present m \<and> (high_capacity m \<or> unat (lba m) \<le> 2 ^ 23) \<and> (\<forall>n. length (blocks m n) = 512)"

text \<open>Only the blocks and the command count of a card ever change.\<close>

definition same_card :: "mmc \<Rightarrow> mmc \<Rightarrow> bool" where
  "same_card m m' \<longleftrightarrow> lba m' = lba m \<and> b_max m' = b_max m \<and> high_capacity m' = high_capacity m \<and>
     ddr_52MHz m' = ddr_52MHz m \<and> present m' = present m \<and> cmd_err m' = cmd_err m \<and>
     response m' = response m \<and> garbage m' = garbage m"

definition card_healthy :: "mmc \<Rightarrow> bool" where
  "card_healthy m \<longleftrightarrow> (\<forall>n. cmd_err m n = 0 \<and> response m n AND MMC_STATUS_RDY_FOR_DATA \<noteq> 0 \<and>
     response m n AND MMC_STATUS_CURR_STATE \<noteq> MMC_STATE_PRG \<and> response m n AND MMC_STATUS_SWITCH_ERROR = 0)"

lemma same_card_refl [simp]: "same_card m m"
  by (simp add: same_card_def)

lemma same_card_upd [simp]: "same_card m (m'\<lparr>blocks := c\<rparr>) = same_card m m'" "same_card m (m'\<lparr>sent := k\<rparr>) = same_card m m'"
    "same_card (m\<lparr>blocks := c\<rparr>) m' = same_card m m'" "same_card (m\<lparr>sent := k\<rparr>) m' = same_card m m'"
  by (simp_all add: same_card_def)

lemma same_card_trans [trans]: "same_card m m' \<Longrightarrow> same_card m' m'' \<Longrightarrow> same_card m m''"
  by (simp add: same_card_def)

lemma same_card_healthy: "same_card m m' \<Longrightarrow> card_healthy m' \<longleftrightarrow> card_healthy m"
  by (simp add: same_card_def card_healthy_def)

lemma same_card_ok: "same_card m m' \<Longrightarrow> card_ok m \<Longrightarrow> (\<And>n. length (blocks m' n) = 512) \<Longrightarrow> card_ok m'"
  by (simp add: same_card_def card_ok_def)

lemma same_blocks_ok: "same_card m m' \<Longrightarrow> blocks m' = blocks m \<Longrightarrow> card_ok m \<Longrightarrow> card_ok m'"
  by (simp add: same_card_def card_ok_def)

lemma mmc_send_cmd_same:
  "mmc_send_cmd m = (e, r, m') \<Longrightarrow> same_card m m' \<and> blocks m' = blocks m \<and> e = cmd_err m (sent m) \<and> r = response m (sent m)"
  by (auto simp: mmc_send_cmd_def same_card_def)

lemma send_status_same: "send_status_loop t rt m = (e, m') \<Longrightarrow> same_card m m' \<and> blocks m' = blocks m"
proof (induction t arbitrary: rt m e m')
  case 0
  then show ?case
    by (subst (asm) send_status_loop.simps) (auto simp: mmc_send_cmd_def split: if_splits)
next
  case (Suc t)
  let ?m1 = "m\<lparr>sent := Suc (sent m)\<rparr>"
  have m1: "same_card m ?m1" "blocks ?m1 = blocks m" by simp_all
  have "same_card ?m1 m' \<and> blocks m' = blocks ?m1" if "send_status_loop t rt' ?m1 = (e, m')" for rt'
    using Suc.IH that .
  with Suc.prems m1 show ?case
    by (subst (asm) send_status_loop.simps)
      (auto simp: mmc_send_cmd_def split: if_splits intro: same_card_trans)
qed

lemma send_status_healthy:
  assumes "card_healthy m" "0 < t"
  shows "\<exists>m'. send_status_loop t rt m = (0, m')"
  using assms by (subst send_status_loop.simps)
    (simp add: mmc_send_cmd_def card_healthy_def status_exit_def)

lemma set_blocklen_same: "mmc_set_blocklen m = (e, m') \<Longrightarrow> same_card m m' \<and> blocks m' = blocks m"
  by (auto simp: mmc_set_blocklen_def same_card_def mmc_send_cmd_def split: if_splits)

lemma set_blocklen_healthy: "card_healthy m \<Longrightarrow> mmc_set_blocklen m = (e, m') \<Longrightarrow> e = 0"
  by (auto simp: mmc_set_blocklen_def mmc_send_cmd_def card_healthy_def split: if_splits)

lemma card_block_arg:
  assumes "card_ok m" "unat start < unat (lba m)"
  shows "card_block m (mmc_arg m start) = unat start"
proof (cases "high_capacity m")
  case True
  then show ?thesis by (simp add: card_block_def mmc_arg_def)
next
  case False
  with assms have "unat start < 2 ^ 23" by (simp add: card_ok_def)
  then have "unat start * 512 < 2 ^ 32" by simp
  then have "unat (start * 512) = unat start * 512" by (simp add: unat_word_ariths)
  with False show ?thesis by (simp add: card_block_def mmc_arg_def MMC_MAX_BLOCK_LEN_def)
qed

lemma length_pad [simp]: "length (pad n xs) = n"
  by (simp add: pad_def)

lemma length_card_read: "card_ok m \<Longrightarrow> length (card_read m b n) = 512 * n"
  by (induction n) (simp_all add: card_read_def card_ok_def)

lemma card_read_cong: "blocks m = blocks m' \<Longrightarrow> card_read m = card_read m'"
  by (intro ext) (simp add: card_read_def)

lemma card_read_add: "card_read m b (i + j) = card_read m b i @ card_read m (b + i) j"
proof -
  have "[b ..< b + (i + j)] = [b ..< b + i] @ [b + i ..< b + i + j]"
    using upt_add_eq_append [of b "b + i" j] by (simp add: add.assoc)
  then show ?thesis by (simp add: card_read_def)
qed

lemma mmc_read_blocks_spec:
  assumes "card_ok m" "unat start < unat (lba m)" "mmc_read_blocks start cnt m = (r, d, m')"
  shows "same_card m m' \<and> blocks m' = blocks m \<and> length d = 512 * unat cnt \<and>
     (r = cnt \<longrightarrow> 0 < cnt \<longrightarrow> d = card_read m (unat start) (unat cnt)) \<and> (card_healthy m \<longrightarrow> r = cnt)"
proof -
  obtain e w m1 where s: "mmc_send_cmd m = (e, w, m1)" by (cases "mmc_send_cmd m")
  obtain e2 w2 m2 where s2: "mmc_send_cmd m1 = (e2, w2, m2)" by (cases "mmc_send_cmd m1")
  note m1 = mmc_send_cmd_same [OF s] and m2 = mmc_send_cmd_same [OF s2]
  have c: "card_read m1 = card_read m" using m1 by (intro card_read_cong) simp
  have h: "e = 0 \<and> e2 = 0" if "card_healthy m"
    using that m1 m2 by (simp add: card_healthy_def same_card_def)
  show ?thesis
    using assms(3) m1 m2 h
    by (auto simp: mmc_read_blocks_def s s2 Let_def c card_block_arg [OF assms(1,2)] length_card_read [OF assms(1)]
        MMC_MAX_BLOCK_LEN_def split: if_splits intro: same_card_trans)
qed

lemma chunk_bounds:
  assumes "0 < b_max m" "0 < todo"
  shows "0 < next_chunk m todo" "next_chunk m todo \<le> todo" "unat (todo - next_chunk m todo) = unat todo - unat (next_chunk m todo)"
  using assms by (auto simp: next_chunk_def unat_sub word_le_nat_alt word_less_nat_alt)

lemma bread_loop_spec:
  assumes "card_ok m" "0 < todo" "unat start + unat todo \<le> unat (lba m)" "512 * unat todo \<le> length dst"
  shows "\<exists>ok d m'. bread_loop start todo dst m = Some (ok, d, m') \<and> same_card m m' \<and> blocks m' = blocks m \<and>
     length d = length dst \<and>
     (ok \<longrightarrow> d = card_read m (unat start) (unat todo) @ drop (512 * unat todo) dst) \<and> (card_healthy m \<longrightarrow> ok)"
  using assms
proof (induction "unat todo" arbitrary: todo start dst m rule: less_induct)
  case less
  define cur where "cur = next_chunk m todo"
  have bm: "0 < b_max m" using less.prems(1) by (simp add: card_ok_def)
  note cb = chunk_bounds [OF bm less.prems(2), folded cur_def]
  have cn: "0 < unat cur" "unat cur \<le> unat todo" using cb by (simp_all add: word_less_nat_alt word_le_nat_alt)
  obtain r ch m1 where rb: "mmc_read_blocks start cur m = (r, ch, m1)" by (cases "mmc_read_blocks start cur m")
  have "unat start < unat (lba m)" using less.prems(3) cn by simp
  note R = mmc_read_blocks_spec [OF less.prems(1) this rb]
  define rest where "rest = drop (unat cur * 512) dst"
  have lr: "length ch + length rest = length dst" using R cn less.prems(4) by (simp add: rest_def)
  have step: "bread_loop start todo dst m =
      (if r \<noteq> cur then Some (False, ch @ rest, m1)
       else if todo - cur > 0 then
         do { (ok, rest, m) \<leftarrow> bread_loop (start + cur) (todo - cur) rest m1; Some (ok, ch @ rest, m) }
       else Some (True, ch @ rest, m1))"
    by (subst bread_loop.simps) (simp add: cur_def [symmetric] rb rest_def MMC_MAX_BLOCK_LEN_def Let_def)
  show ?case
  proof (cases "r = cur")
    case False
    then show ?thesis using step R lr by auto
  next
    case r: True
    have ch: "ch = card_read m (unat start) (unat cur)" using R r cb(1) by simp
    show ?thesis
    proof (cases "todo - cur > 0")
      case False
      then have "todo = cur" by (simp add: word_gt_0)
      then show ?thesis using step r R lr ch by (auto simp: rest_def mult.commute)
    next
      case True
      have u: "unat (start + cur) = unat start + unat cur"
        using less.prems(3) cn unat_u32_less [of "lba m"] by (intro unat_add_no_wrap) simp
      have ok1: "card_ok m1" using R less.prems(1) by (auto intro: same_blocks_ok)
      have lb: "lba m1 = lba m" using R by (simp add: same_card_def)
      have "\<exists>ok d m'. bread_loop (start + cur) (todo - cur) rest m1 = Some (ok, d, m') \<and> same_card m1 m' \<and>
          blocks m' = blocks m1 \<and> length d = length rest \<and>
          (ok \<longrightarrow> d = card_read m1 (unat (start + cur)) (unat (todo - cur)) @ drop (512 * unat (todo - cur)) rest) \<and>
          (card_healthy m1 \<longrightarrow> ok)"
        using less.prems(3,4) True cn cb(3) u lb ok1
        by (intro less.hyps) (simp_all add: rest_def)
      then obtain ok d m' where L: "bread_loop (start + cur) (todo - cur) rest m1 = Some (ok, d, m')"
        "same_card m1 m'" "blocks m' = blocks m1" "length d = length rest"
        "ok \<Longrightarrow> d = card_read m1 (unat (start + cur)) (unat (todo - cur)) @ drop (512 * unat (todo - cur)) rest"
        "card_healthy m1 \<longrightarrow> ok" by blast
      have "ch @ d = card_read m (unat start) (unat todo) @ drop (512 * unat todo) dst" if ok
      proof -
        have "card_read m1 = card_read m" using R by (intro card_read_cong) simp
        moreover have "drop (512 * unat (todo - cur)) rest = drop (512 * unat todo) dst"
          using cn by (simp add: rest_def cb(3) algebra_simps diff_mult_distrib2)
        ultimately show ?thesis
          using L(5) [OF that] card_read_add [of m "unat start" "unat cur" "unat todo - unat cur"] cn
          by (simp add: u ch cb(3))
      qed
      then show ?thesis
        using step r True L R lr by (auto simp: same_card_healthy intro: same_card_trans)
    qed
  qed
qed


text \<open>The writing side. \<open>put_blocks b n bs\<close> is the medium with \<open>n\<close> blocks from \<open>b\<close> on replaced.\<close>

definition put_blocks :: "nat \<Rightarrow> nat \<Rightarrow> u8 list \<Rightarrow> (nat \<Rightarrow> u8 list) \<Rightarrow> nat \<Rightarrow> u8 list" where
  "put_blocks b n bs c i = (if b \<le> i \<and> i < b + n then take 512 (drop (512 * (i - b)) bs) else c i)"

lemma put_blocks_outside [simp]:
  "i < b \<Longrightarrow> put_blocks b n bs c i = c i" "b + n \<le> i \<Longrightarrow> put_blocks b n bs c i = c i"
  by (simp_all add: put_blocks_def)

lemma blocks_card_write [simp]: "blocks (card_write b n bs m) = put_blocks b n bs (blocks m)"
  by (simp add: card_write_def put_blocks_def fun_eq_iff)

lemma same_card_write [simp]: "same_card m (card_write b n bs m') = same_card m m'"
    "same_card (card_write b n bs m) m' = same_card m m'"
  by (simp_all add: card_write_def)

lemma length_put_blocks:
  assumes "\<And>i. length (c i) = 512" "512 * n \<le> length bs"
  shows "length (put_blocks b n bs c i) = 512"
proof -
  have "512 \<le> length bs - 512 * (i - b)" if "b \<le> i" "i < b + n"
  proof -
    have "512 * (i - b) + 512 \<le> 512 * n" using that by (simp add: less_iff_Suc_add) (auto simp: algebra_simps)
    then show ?thesis using assms(2) by simp
  qed
  then show ?thesis using assms(1) by (simp add: put_blocks_def)
qed

lemma put_blocks_add:
  "put_blocks (b + i) j (drop (512 * i) bs) (put_blocks b i bs c) = put_blocks b (i + j) bs c"
proof
  fix k
  have "512 * i + 512 * (k - (b + i)) = 512 * (k - b)" if "b + i \<le> k" using that by simp
  then show "put_blocks (b + i) j (drop (512 * i) bs) (put_blocks b i bs c) k = put_blocks b (i + j) bs c k"
    by (auto simp: put_blocks_def add.commute)
qed

lemma mmc_send_status_same: "mmc_send_status t m = (e, m') \<Longrightarrow> same_card m m' \<and> blocks m' = blocks m"
  by (simp add: mmc_send_status_def send_status_same)

lemma mmc_write_blocks_spec:
  assumes "card_ok m" "0 < cnt" "unat start + unat cnt \<le> unat (lba m)" "512 * unat cnt \<le> length src"
    and w: "mmc_write_blocks start cnt src m = (r, m')"
  shows "card_ok m' \<and> same_card m m' \<and> (\<forall>i. i < unat start \<or> unat start + unat cnt \<le> i \<longrightarrow> blocks m' i = blocks m i) \<and>
     (r = cnt \<longrightarrow> blocks m' = put_blocks (unat start) (unat cnt) src (blocks m)) \<and> (card_healthy m \<longrightarrow> r = cnt)"
proof -
  obtain e x m1 where s: "mmc_send_cmd m = (e, x, m1)" by (cases "mmc_send_cmd m")
  note m1 = mmc_send_cmd_same [OF s]
  have st: "unat start < unat (lba m)" using assms(2,3) by (simp add: word_less_nat_alt)
  have u: "unat (start + cnt) = unat start + unat cnt"
    using assms(3) unat_u32_less [of "lba m"] by (intro unat_add_no_wrap) simp
  have fits: "\<not> start + cnt > lba m" "cnt \<noteq> 0" using assms(2,3) u by (auto simp: word_less_nat_alt)
  let ?g = "card_write (unat start) (unat cnt) (pad (unat cnt * 512) (garbage m (sent m))) m1"
  let ?m2 = "card_write (unat start) (unat cnt) src m1"
  define q where "q = (if cnt > 1 then (let (err, _, m3) = mmc_send_cmd ?m2 in (err, m3)) else (0, ?m2))"
  obtain e3 m3 where q3: "q = (e3, m3)" by (cases q)
  obtain e4 m4 where s4: "mmc_send_status 1000 m3 = (e4, m4)" by (cases "mmc_send_status 1000 m3")
  have m3: "same_card ?m2 m3 \<and> blocks m3 = blocks ?m2"
    using q3 by (auto simp: q_def mmc_send_cmd_def split: if_splits)
  note m4 = mmc_send_status_same [OF s4]
  have same: "same_card m ?g" "same_card m m3" "same_card m m4"
    using m1 m3 m4 by (auto intro: same_card_trans)
  have bl: "blocks ?g = put_blocks (unat start) (unat cnt) (pad (unat cnt * 512) (garbage m (sent m))) (blocks m)"
    "blocks m3 = put_blocks (unat start) (unat cnt) src (blocks m)"
    "blocks m4 = put_blocks (unat start) (unat cnt) src (blocks m)"
    using m1 m3 m4 by simp_all
  have len: "\<And>i. length (blocks m i) = 512" using assms(1) by (simp add: card_ok_def)
  have ok: "card_ok ?g" "card_ok m3" "card_ok m4"
    using same len assms(4) bl by (auto intro!: same_card_ok [OF _ assms(1)] length_put_blocks)
  have h: "e = 0" "e3 = 0" "e4 = 0" if "card_healthy m"
  proof -
    show "e = 0" using that m1 by (simp add: card_healthy_def)
    show "e3 = 0" using that q3 m1 by (auto simp: q_def mmc_send_cmd_def card_healthy_def same_card_def card_write_def split: if_splits)
    have "card_healthy m3" using that same(2) by (simp add: same_card_healthy)
    then show "e4 = 0" using send_status_healthy [of m3 1000 5] s4 by (auto simp: mmc_send_status_def)
  qed
  have run: "(r, m') = (if e \<noteq> 0 then (0, ?g) else if e3 \<noteq> 0 then (0, m3) else if e4 \<noteq> 0 then (0, m4) else (cnt, m4))"
    using w fits by (simp add: mmc_write_blocks_def s card_block_arg [OF assms(1) st] Let_def
        MMC_MAX_BLOCK_LEN_def q_def [symmetric] q3 s4 split: if_splits)
  show ?thesis
    using run same ok h bl fits(2) by (auto simp: put_blocks_def split: if_splits)
qed

lemma bwrite_loop_spec:
  assumes "card_ok m" "0 < todo" "unat start + unat todo \<le> unat (lba m)" "512 * unat todo \<le> length src"
  shows "\<exists>ok m'. bwrite_loop start todo src m = Some (ok, m') \<and> card_ok m' \<and> same_card m m' \<and>
     (\<forall>i. i < unat start \<or> unat start + unat todo \<le> i \<longrightarrow> blocks m' i = blocks m i) \<and>
     (ok \<longrightarrow> blocks m' = put_blocks (unat start) (unat todo) src (blocks m)) \<and> (card_healthy m \<longrightarrow> ok)"
  using assms
proof (induction "unat todo" arbitrary: todo start src m rule: less_induct)
  case less
  define cur where "cur = next_chunk m todo"
  have bm: "0 < b_max m" using less.prems(1) by (simp add: card_ok_def)
  note cb = chunk_bounds [OF bm less.prems(2), folded cur_def]
  have cn: "0 < unat cur" "unat cur \<le> unat todo" using cb by (simp_all add: word_less_nat_alt word_le_nat_alt)
  obtain r m1 where rb: "mmc_write_blocks start cur src m = (r, m1)" by (cases "mmc_write_blocks start cur src m")
  have "unat start + unat cur \<le> unat (lba m)" "512 * unat cur \<le> length src" using less.prems(3,4) cn by simp_all
  note R = mmc_write_blocks_spec [OF less.prems(1) cb(1) this rb]
  define rest where "rest = drop (512 * unat cur) src"
  have step: "bwrite_loop start todo src m =
      (if r \<noteq> cur then Some (False, m1)
       else if todo - cur > 0 then bwrite_loop (start + cur) (todo - cur) rest m1 else Some (True, m1))"
    by (subst bwrite_loop.simps) (simp add: cur_def [symmetric] rb rest_def MMC_MAX_BLOCK_LEN_def Let_def mult.commute)
  show ?case
  proof (cases "r = cur")
    case False
    then show ?thesis using step R cn by auto
  next
    case r: True
    show ?thesis
    proof (cases "todo - cur > 0")
      case False
      then have "todo = cur" by (simp add: word_gt_0)
      moreover from this have "bwrite_loop start todo src m = Some (True, m1)" using step r by simp
      ultimately show ?thesis using r R by (intro exI [of _ True] exI [of _ m1]) simp
    next
      case True
      have u: "unat (start + cur) = unat start + unat cur"
        using less.prems(3) cn unat_u32_less [of "lba m"] by (intro unat_add_no_wrap) simp
      have lb: "lba m1 = lba m" using R by (simp add: same_card_def)
      have "\<exists>ok m'. bwrite_loop (start + cur) (todo - cur) rest m1 = Some (ok, m') \<and> card_ok m' \<and> same_card m1 m' \<and>
          (\<forall>i. i < unat (start + cur) \<or> unat (start + cur) + unat (todo - cur) \<le> i \<longrightarrow> blocks m' i = blocks m1 i) \<and>
          (ok \<longrightarrow> blocks m' = put_blocks (unat (start + cur)) (unat (todo - cur)) rest (blocks m1)) \<and>
          (card_healthy m1 \<longrightarrow> ok)"
        using less.prems(3,4) True cn cb(3) u lb R by (intro less.hyps) (simp_all add: rest_def)
      then obtain ok m' where L: "bwrite_loop (start + cur) (todo - cur) rest m1 = Some (ok, m')"
        "card_ok m'" "same_card m1 m'"
        "\<And>i. i < unat start + unat cur \<or> unat start + unat todo \<le> i \<Longrightarrow> blocks m' i = blocks m1 i"
        "ok \<Longrightarrow> blocks m' = put_blocks (unat (start + cur)) (unat (todo - cur)) rest (blocks m1)"
        "card_healthy m1 \<longrightarrow> ok" using cn by (auto simp: u cb(3))
      have "blocks m' = put_blocks (unat start) (unat todo) src (blocks m)" if ok
        using L(5) [OF that] R r put_blocks_add [of "unat start" "unat cur" "unat todo - unat cur" src] cn
        by (simp add: u cb(3) rest_def)
      moreover have "blocks m' i = blocks m i" if "i < unat start \<or> unat start + unat todo \<le> i" for i
        using L(4) [of i] R that cn by auto
      ultimately show ?thesis
        using step r True L(1,2,3,6) R by (auto simp: same_card_healthy intro: same_card_trans)
    qed
  qed
qed

section \<open>Partitions stay in their window\<close>

definition part_ok :: "TPartition \<Rightarrow> mmc \<Rightarrow> bool" where
  "part_ok p m \<longleftrightarrow> card_ok m \<and> unat (m_nFirstSector p) + unat (m_nNumberOfSectors p) \<le> unat (lba m)"

text \<open>The content of a run of sectors of a partition.\<close>

definition part_data :: "TPartition \<Rightarrow> mmc \<Rightarrow> nat \<Rightarrow> nat \<Rightarrow> u8 list" where
  "part_data p m start n = card_read m (unat (m_nFirstSector p) + start) n"

lemma part_ok_same: "part_ok p m \<Longrightarrow> same_card m m' \<Longrightarrow> card_ok m' \<Longrightarrow> part_ok p m'"
  by (simp add: part_ok_def same_card_def)

lemma part_first_add:
  assumes "part_ok p m" "unat start + unat n \<le> unat (m_nNumberOfSectors p)"
  shows "unat (m_nFirstSector p + start) = unat (m_nFirstSector p) + unat start"
    "unat (m_nFirstSector p) + unat start + unat n \<le> unat (lba m)" "unat (start + n) = unat start + unat n"
proof -
  show b: "unat (m_nFirstSector p) + unat start + unat n \<le> unat (lba m)" using assms by (simp add: part_ok_def)
  then show "unat (m_nFirstSector p + start) = unat (m_nFirstSector p) + unat start"
    "unat (start + n) = unat start + unat n"
    using unat_u32_less [of "lba m"] by (intro unat_add_no_wrap; simp)+
qed

lemma unat_ucast_u64: "unat (ucast (w::u32) :: u64) = unat w"
  using unat_u32_less [of w] by (simp add: unsigned_ucast_eq take_bit_nat_eq_self)

lemma PartitionRead_spec:
  assumes "part_ok p m" "0 < n" "unat start + unat n \<le> unat (m_nNumberOfSectors p)" "length buf = 512 * unat n"
  shows "\<exists>r d m'. PartitionRead p buf start n m = Some (r, d, m') \<and> same_card m m' \<and> blocks m' = blocks m \<and>
     length d = length buf \<and> (r = n \<longrightarrow> d = part_data p m (unat start) (unat n)) \<and> (card_healthy m \<longrightarrow> r = n)"
proof -
  note A = part_first_add [OF assms(1,3)]
  have ck: "card_ok m" using assms(1) by (simp add: part_ok_def)
  obtain e m1 where s: "mmc_set_blocklen m = (e, m1)" by (cases "mmc_set_blocklen m")
  note m1 = set_blocklen_same [OF s]
  have ok1: "card_ok m1" using ck m1 by (auto intro: same_blocks_ok)
  have lb: "lba m1 = lba m" using m1 by (simp add: same_card_def)
  have fit: "unat (m_nFirstSector p + start + n) = unat (m_nFirstSector p) + unat start + unat n"
    using A unat_u32_less [of "lba m"] by (subst unat_add_no_wrap) simp_all
  obtain ok d m' where L: "bread_loop (m_nFirstSector p + start) n buf m1 = Some (ok, d, m')" "same_card m1 m'"
    "blocks m' = blocks m1" "length d = length buf"
    "ok \<Longrightarrow> d = card_read m1 (unat (m_nFirstSector p + start)) (unat n) @ drop (512 * unat n) buf"
    "card_healthy m1 \<Longrightarrow> ok"
    using bread_loop_spec [OF ok1 assms(2), of "m_nFirstSector p + start" buf] A lb assms(4) by auto
  have d: "d = part_data p m (unat start) (unat n)" if ok
    using L(5) [OF that] assms(4) A(1) card_read_cong [of m1 m] m1 by (simp add: part_data_def)
  have run: "PartitionRead p buf start n m = (if e \<noteq> 0 then Some (0, buf, m1) else Some (if ok then n else 0, d, m'))"
    using assms(2,3) A ck fit
    by (auto simp: PartitionRead_def mmc_bread_def s L(1) word_less_nat_alt card_ok_def)
  show ?thesis
  proof (cases "e = 0")
    case True
    then show ?thesis using run L m1 d assms(2) by (auto simp: same_card_healthy intro: same_card_trans)
  next
    case False
    then show ?thesis using run m1 assms(2) set_blocklen_healthy [OF _ s] by auto
  qed
qed

lemma PartitionWrite_spec:
  assumes "part_ok p m" "0 < n" "unat start + unat n \<le> unat (m_nNumberOfSectors p)" "length src = 512 * unat n"
  shows "\<exists>r m'. PartitionWrite p start n src m = Some (r, m') \<and> part_ok p m' \<and> same_card m m' \<and>
     (\<forall>i. i < unat (m_nFirstSector p) + unat start \<or> unat (m_nFirstSector p) + unat start + unat n \<le> i \<longrightarrow> blocks m' i = blocks m i) \<and>
     (r = n \<longrightarrow> blocks m' = put_blocks (unat (m_nFirstSector p) + unat start) (unat n) src (blocks m)) \<and>
     (card_healthy m \<longrightarrow> r = n)"
proof -
  note A = part_first_add [OF assms(1,3)]
  have ck: "card_ok m" using assms(1) by (simp add: part_ok_def)
  obtain e m1 where s: "mmc_set_blocklen m = (e, m1)" by (cases "mmc_set_blocklen m")
  note m1 = set_blocklen_same [OF s]
  have ok1: "card_ok m1" using ck m1 by (auto intro: same_blocks_ok)
  have lb: "lba m1 = lba m" using m1 by (simp add: same_card_def)
  obtain ok m' where L: "bwrite_loop (m_nFirstSector p + start) n src m1 = Some (ok, m')" "card_ok m'" "same_card m1 m'"
    "\<And>i. i < unat (m_nFirstSector p) + unat start \<or> unat (m_nFirstSector p) + unat start + unat n \<le> i \<Longrightarrow> blocks m' i = blocks m1 i"
    "ok \<longrightarrow> blocks m' = put_blocks (unat (m_nFirstSector p + start)) (unat n) src (blocks m1)"
    "card_healthy m1 \<longrightarrow> ok"
    using bwrite_loop_spec [OF ok1 assms(2), of "m_nFirstSector p + start" src] A lb assms(4) by auto
  have uc: "(ucast (start + n) :: u64) > ucast (m_nNumberOfSectors p) \<longleftrightarrow> start + n > m_nNumberOfSectors p"
    by (simp add: word_less_nat_alt unat_ucast_u64)
  have run: "PartitionWrite p start n src m = (if e \<noteq> 0 then Some (0, m1) else Some (if ok then n else 0, m'))"
    using assms(2,3) A ck uc by (auto simp: PartitionWrite_def mmc_bwrite_def s L(1) word_less_nat_alt card_ok_def)
  have same: "same_card m m1" "same_card m m'" using m1 L(3) by (auto intro: same_card_trans)
  show ?thesis
  proof (cases "e = 0")
    case True
    then show ?thesis using run L m1 A(1) same assms(1,2) part_ok_same [OF assms(1) same(2) L(2)]
      by (auto simp: same_card_healthy)
  next
    case False
    then show ?thesis using run m1 assms(1,2) set_blocklen_healthy [OF _ s] part_ok_same [OF assms(1) same(1) ok1] by auto
  qed
qed

end
