(* ===== verification/FatCache.thy ===== *)
theory FatCache
  imports Alloc Disk
begin

text \<open>
  The buffer cache of the file system, \<^verbatim>\<open>env/lib/fs/fatcache.c\<close>. It keeps 100 sector buffers and 100
  cluster buffers, each kind in a doubly linked list in order of use. The source has the code twice,
  once for each kind, and the copies differ only in the transfer: here it is written once over the common
  fields, with the transfers as arguments, and the functions of the source are its two instances.
\<close>

section \<open>Buffers\<close>

text \<open>\<open>nKey\<close> is \<open>nSector\<close> or \<open>nCluster\<close>; \<open>Data\<close> of a cluster buffer is the memory at \<open>pBuf\<close>.\<close>

record TFATBuffer =
  bf_nMagic :: u32
  bf_pNext :: ptr
  bf_pPrev :: ptr
  nKey :: u32
  nUseCount :: u32
  bDirty :: bool
  Data :: "u8 list"

record TFATClusterBuffer = TFATBuffer +
  nSectorNumPerCluster :: u32
  cb_nFirstDataSector :: u32
  pBuf :: ptr

record 'b TFATBufferList =
  buf :: "ptr \<Rightarrow> 'b"
  pFirst :: ptr
  pLast :: ptr

type_synonym 'a blist = "'a TFATBuffer_scheme TFATBufferList"

record TFatCache =
  m_pPartition :: "TPartition option"
  m_pBufferMem :: ptr
  m_BufferList :: "TFATBuffer TFATBufferList"
  m_pClusterBufferMem :: ptr
  m_ClusterBufList :: "TFATClusterBuffer TFATBufferList"

record fat_state =
  m_Cache :: TFatCache
  mmc_dev :: mmc
  mem :: alloc_state

definition FAT_SECTOR_SIZE :: u32 where "FAT_SECTOR_SIZE = 512"
definition FAT_BUFFERS :: nat where "FAT_BUFFERS = 100"
definition FAT_CLUSER_BUFFERS :: nat where "FAT_CLUSER_BUFFERS = 100"
definition BUFFER_MAGIC :: u32 where "BUFFER_MAGIC = 0x4641544D"
definition BUFFER_NOSECTOR :: u32 where "BUFFER_NOSECTOR = 0xFFFFFFFF"
definition sizeof_TFATBuffer :: u32 where "sizeof_TFATBuffer = 536"
definition sizeof_TFATClusterBuffer :: u32 where "sizeof_TFATClusterBuffer = 36"
definition ENOMEM :: u32 where "ENOMEM = 12"

definition upd :: "ptr \<Rightarrow> ('b \<Rightarrow> 'b) \<Rightarrow> 'b TFATBufferList \<Rightarrow> 'b TFATBufferList" where
  "upd a f L = L\<lparr>buf := (buf L)(a := f (buf L a))\<rparr>"

section \<open>The list of buffers\<close>

definition move_first :: "ptr \<Rightarrow> 'a blist \<Rightarrow> 'a blist option" where
  "move_first b L =
     (if pFirst L \<noteq> b then
        (let pn = bf_pNext (buf L b); pp = bf_pPrev (buf L b) in
         do { assert (pp \<noteq> NULL);
              L \<leftarrow> Some (upd pp (\<lambda>x. x\<lparr>bf_pNext := pn\<rparr>) L);
              L \<leftarrow> Some (if pn \<noteq> NULL then upd pn (\<lambda>x. x\<lparr>bf_pPrev := pp\<rparr>) L else L\<lparr>pLast := pp\<rparr>);
              assert (pFirst L \<noteq> NULL);
              L \<leftarrow> Some (upd (pFirst L) (\<lambda>x. x\<lparr>bf_pPrev := b\<rparr>) L);
              L \<leftarrow> Some (upd b (\<lambda>x. x\<lparr>bf_pNext := pFirst L\<rparr>) L);
              Some (upd b (\<lambda>x. x\<lparr>bf_pPrev := NULL\<rparr>) (L\<lparr>pFirst := b\<rparr>)) })
      else Some L)"

definition move_last :: "ptr \<Rightarrow> 'a blist \<Rightarrow> 'a blist option" where
  "move_last b L =
     (if pLast L \<noteq> b then
        (let pn = bf_pNext (buf L b); pp = bf_pPrev (buf L b) in
         do { assert (pn \<noteq> NULL);
              L \<leftarrow> Some (upd pn (\<lambda>x. x\<lparr>bf_pPrev := pp\<rparr>) L);
              L \<leftarrow> Some (if pp \<noteq> NULL then upd pp (\<lambda>x. x\<lparr>bf_pNext := pn\<rparr>) L else L\<lparr>pFirst := pn\<rparr>);
              assert (pLast L \<noteq> NULL);
              L \<leftarrow> Some (upd (pLast L) (\<lambda>x. x\<lparr>bf_pNext := b\<rparr>) L);
              L \<leftarrow> Some (upd b (\<lambda>x. x\<lparr>bf_pPrev := pLast L\<rparr>) L);
              Some (upd b (\<lambda>x. x\<lparr>bf_pNext := NULL\<rparr>) (L\<lparr>pLast := b\<rparr>)) })
      else Some L)"

text \<open>The search loops: along \<open>pNext\<close> and along \<open>pPrev\<close>.\<close>

partial_function (option) scan_next :: "('a TFATBuffer_scheme \<Rightarrow> bool) \<Rightarrow> ptr \<Rightarrow> 'a blist \<Rightarrow> ptr option" where
  "scan_next P p L =
     (if p = NULL then Some NULL
      else do { assert (bf_nMagic (buf L p) = BUFFER_MAGIC);
                if P (buf L p) then Some p else scan_next P (bf_pNext (buf L p)) L })"

partial_function (option) scan_prev :: "('a TFATBuffer_scheme \<Rightarrow> bool) \<Rightarrow> ptr \<Rightarrow> 'a blist \<Rightarrow> ptr option" where
  "scan_prev P p L =
     (if p = NULL then Some NULL
      else do { assert (bf_nMagic (buf L p) = BUFFER_MAGIC);
                if P (buf L p) then Some p else scan_prev P (bf_pPrev (buf L p)) L })"

section \<open>Getting and releasing a buffer\<close>

text \<open>How a buffer is read from and written to the device.\<close>

type_synonym 'a loader = "'a TFATBuffer_scheme \<Rightarrow> mmc \<Rightarrow> (bool \<times> u8 list \<times> mmc) option"
type_synonym 'a storer = "'a TFATBuffer_scheme \<Rightarrow> mmc \<Rightarrow> (bool \<times> mmc) option"

text \<open>The end of \<open>FATCacheGetSector\<close>: the free buffer \<open>p\<close> is given to the key.\<close>

definition fill_buffer :: "'a loader \<Rightarrow> u32 \<Rightarrow> bool \<Rightarrow> ptr \<Rightarrow> 'a blist \<Rightarrow> mmc \<Rightarrow> (ptr \<times> 'a blist \<times> mmc) option" where
  "fill_buffer ld key bWriteOnly p L m = do {
     L \<leftarrow> Some (upd p (\<lambda>x. x\<lparr>nUseCount := 1\<rparr>) L);
     assert (nKey (buf L p) = BUFFER_NOSECTOR);
     L \<leftarrow> Some (upd p (\<lambda>x. x\<lparr>nKey := key, bDirty := False\<rparr>) L);
     if \<not> bWriteOnly then do {
       (ok, d, m) \<leftarrow> ld (buf L p) m;
       L \<leftarrow> Some (upd p (\<lambda>x. x\<lparr>Data := d\<rparr>) L);
       if \<not> ok
       then Some (NULL, upd p (\<lambda>x. x\<lparr>nUseCount := nUseCount x - 1, nKey := BUFFER_NOSECTOR\<rparr>) L, m)
       else do { L \<leftarrow> move_first p L; Some (p, L, m) } }
     else do { L \<leftarrow> move_first p L; Some (p, L, m) } }"

definition get_buffer ::
  "'a storer \<Rightarrow> 'a loader \<Rightarrow> u32 \<Rightarrow> bool \<Rightarrow> 'a blist \<Rightarrow> mmc \<Rightarrow> (ptr \<times> 'a blist \<times> mmc) option" where
  "get_buffer st ld key bWriteOnly L m = do {
     p \<leftarrow> scan_next (\<lambda>b. nKey b = key) (pFirst L) L;
     if p \<noteq> NULL then do {
       L \<leftarrow> move_first p L;
       Some (p, upd p (\<lambda>x. x\<lparr>nUseCount := nUseCount x + 1\<rparr>) L, m) }
     else do {
       p \<leftarrow> scan_prev (\<lambda>b. nKey b = BUFFER_NOSECTOR) (pLast L) L;
       if p \<noteq> NULL then fill_buffer ld key bWriteOnly p L m
       else do {
         p \<leftarrow> scan_prev (\<lambda>b. nUseCount b = 0) (pLast L) L;
         if p = NULL then Some (NULL, L, m)
         else do {
           (ok, m) \<leftarrow> (if bDirty (buf L p) then st (buf L p) m else Some (True, m));
           if \<not> ok then Some (NULL, L, m)
           else do {
             L \<leftarrow> Some (upd p (\<lambda>x. x\<lparr>nKey := BUFFER_NOSECTOR\<rparr>) L);
             assert (nUseCount (buf L p) = 0);
             fill_buffer ld key bWriteOnly p L m } } } } }"

definition free_buffer :: "ptr \<Rightarrow> bool \<Rightarrow> 'a blist \<Rightarrow> 'a blist option" where
  "free_buffer p bCritical L = do {
     assert (p \<noteq> NULL \<and> bf_nMagic (buf L p) = BUFFER_MAGIC);
     assert (nUseCount (buf L p) > 0);
     L \<leftarrow> Some (upd p (\<lambda>x. x\<lparr>nUseCount := nUseCount x - 1\<rparr>) L);
     if nUseCount (buf L p) > 0 then Some L
     else if bCritical then Some L
     else move_last p L }"

definition mark_dirty :: "ptr \<Rightarrow> 'a blist \<Rightarrow> 'a blist option" where
  "mark_dirty p L = do {
     assert (p \<noteq> NULL \<and> bf_nMagic (buf L p) = BUFFER_MAGIC);
     assert (nUseCount (buf L p) > 0);
     Some (upd p (\<lambda>x. x\<lparr>bDirty := True\<rparr>) L) }"

text \<open>The flush loop: a failed write is reported and the buffer is taken for clean all the same.\<close>

partial_function (option) flush_loop :: "'a storer \<Rightarrow> ptr \<Rightarrow> 'a blist \<Rightarrow> mmc \<Rightarrow> ('a blist \<times> mmc) option" where
  "flush_loop st p L m =
     (if p = NULL then Some (L, m)
      else do {
        assert (bf_nMagic (buf L p) = BUFFER_MAGIC);
        (if nKey (buf L p) \<noteq> BUFFER_NOSECTOR \<and> bDirty (buf L p) then do {
           (ok, m) \<leftarrow> st (buf L p) m;
           flush_loop st (bf_pNext (buf L p)) (upd p (\<lambda>x. x\<lparr>bDirty := False\<rparr>) L) m }
         else flush_loop st (bf_pNext (buf L p)) L m) })"

section \<open>The two caches\<close>

text \<open>A sector buffer is transferred as one sector of the partition.\<close>

definition sector_load :: "TPartition \<Rightarrow> unit loader" where
  "sector_load pt b m = do {
     (r, d, m) \<leftarrow> PartitionRead pt (Data b) (nKey b) 1 m; Some (r = 1, d, m) }"

definition sector_store :: "TPartition \<Rightarrow> unit storer" where
  "sector_store pt b m = do { (r, m) \<leftarrow> PartitionWrite pt (nKey b) 1 (Data b) m; Some (r = 1, m) }"

definition cluster_start :: "TFATClusterBuffer \<Rightarrow> u32" where
  "cluster_start b = cb_nFirstDataSector b + (nKey b - 2) * nSectorNumPerCluster b"

definition cluster_load :: "TPartition \<Rightarrow> TFATClusterBuffer \<Rightarrow> mmc \<Rightarrow> (bool \<times> u8 list \<times> mmc) option" where
  "cluster_load pt b m = do {
     assert (pBuf b \<noteq> NULL);
     (r, d, m) \<leftarrow> PartitionRead pt (Data b) (cluster_start b) (nSectorNumPerCluster b) m;
     Some (r = nSectorNumPerCluster b, d, m) }"

definition cluster_store :: "TPartition \<Rightarrow> TFATClusterBuffer \<Rightarrow> mmc \<Rightarrow> (bool \<times> mmc) option" where
  "cluster_store pt b m = do {
     assert (pBuf b \<noteq> NULL);
     (r, m) \<leftarrow> PartitionWrite pt (cluster_start b) (nSectorNumPerCluster b) (Data b) m;
     Some (r = nSectorNumPerCluster b, m) }"

abbreviation set_sectors :: "TFATBuffer TFATBufferList \<Rightarrow> mmc \<Rightarrow> 'a fat_state_scheme \<Rightarrow> 'a fat_state_scheme" where
  "set_sectors L m s \<equiv> s\<lparr>m_Cache := (m_Cache s)\<lparr>m_BufferList := L\<rparr>, mmc_dev := m\<rparr>"

abbreviation set_clusters :: "TFATClusterBuffer TFATBufferList \<Rightarrow> mmc \<Rightarrow> 'a fat_state_scheme \<Rightarrow> 'a fat_state_scheme" where
  "set_clusters L m s \<equiv> s\<lparr>m_Cache := (m_Cache s)\<lparr>m_ClusterBufList := L\<rparr>, mmc_dev := m\<rparr>"

definition FATCacheGetSector :: "u32 \<Rightarrow> bool \<Rightarrow> 'a fat_state_scheme \<Rightarrow> (ptr \<times> 'a fat_state_scheme) option" where
  "FATCacheGetSector nSector bWriteOnly s = do {
     pt \<leftarrow> m_pPartition (m_Cache s);
     (p, L, m) \<leftarrow> get_buffer (sector_store pt) (sector_load pt) nSector bWriteOnly (m_BufferList (m_Cache s)) (mmc_dev s);
     Some (p, set_sectors L m s) }"

definition FATCacheFreeSector :: "ptr \<Rightarrow> bool \<Rightarrow> 'a fat_state_scheme \<Rightarrow> 'a fat_state_scheme option" where
  "FATCacheFreeSector p bCritical s = do {
     L \<leftarrow> free_buffer p bCritical (m_BufferList (m_Cache s)); Some (set_sectors L (mmc_dev s) s) }"

definition FATCacheMarkDirty :: "ptr \<Rightarrow> 'a fat_state_scheme \<Rightarrow> 'a fat_state_scheme option" where
  "FATCacheMarkDirty p s = do {
     L \<leftarrow> mark_dirty p (m_BufferList (m_Cache s)); Some (set_sectors L (mmc_dev s) s) }"

definition FATCacheFlush :: "'a fat_state_scheme \<Rightarrow> 'a fat_state_scheme option" where
  "FATCacheFlush s = do {
     pt \<leftarrow> m_pPartition (m_Cache s);
     (L, m) \<leftarrow> flush_loop (sector_store pt) (pFirst (m_BufferList (m_Cache s))) (m_BufferList (m_Cache s)) (mmc_dev s);
     Some (set_sectors L m s) }"

definition FATCacheGetCluster :: "u32 \<Rightarrow> bool \<Rightarrow> 'a fat_state_scheme \<Rightarrow> (ptr \<times> 'a fat_state_scheme) option" where
  "FATCacheGetCluster nCluster bWriteOnly s = do {
     pt \<leftarrow> m_pPartition (m_Cache s);
     (p, L, m) \<leftarrow> get_buffer (cluster_store pt) (cluster_load pt) nCluster bWriteOnly (m_ClusterBufList (m_Cache s)) (mmc_dev s);
     Some (p, set_clusters L m s) }"

definition FATCacheFreeCluster :: "ptr \<Rightarrow> bool \<Rightarrow> 'a fat_state_scheme \<Rightarrow> 'a fat_state_scheme option" where
  "FATCacheFreeCluster p bCritical s = do {
     L \<leftarrow> free_buffer p bCritical (m_ClusterBufList (m_Cache s)); Some (set_clusters L (mmc_dev s) s) }"

definition FATCacheMarkClusterDirty :: "ptr \<Rightarrow> 'a fat_state_scheme \<Rightarrow> 'a fat_state_scheme option" where
  "FATCacheMarkClusterDirty p s = do {
     L \<leftarrow> mark_dirty p (m_ClusterBufList (m_Cache s)); Some (set_clusters L (mmc_dev s) s) }"

definition FATCacheClusterFlush :: "'a fat_state_scheme \<Rightarrow> 'a fat_state_scheme option" where
  "FATCacheClusterFlush s = do {
     pt \<leftarrow> m_pPartition (m_Cache s);
     (L, m) \<leftarrow> flush_loop (cluster_store pt) (pFirst (m_ClusterBufList (m_Cache s))) (m_ClusterBufList (m_Cache s)) (mmc_dev s);
     Some (set_clusters L m s) }"

section \<open>Opening and closing\<close>

definition CFATCache :: "TFatCache \<Rightarrow> TFatCache" where
  "CFATCache c = c\<lparr>m_pPartition := None, m_pBufferMem := 0, m_pClusterBufferMem := 0\<rparr>"

text \<open>The loops that link \<open>n\<close> buffers of \<open>sz\<close> bytes from \<open>base\<close> on; the other fields keep what the memory holds.\<close>

primrec link_buffers :: "(nat \<Rightarrow> ptr) \<Rightarrow> nat \<Rightarrow> nat \<Rightarrow> 'a blist \<Rightarrow> 'a blist" where
  "link_buffers at n 0 L = L"
| "link_buffers at n (Suc k) L =
     (let i = Suc k; L = link_buffers at n k L;
          L = upd (at k) (\<lambda>x. x\<lparr>bf_nMagic := BUFFER_MAGIC, bf_pNext := (if i = n then NULL else at i),
                bf_pPrev := (if i = 1 then NULL else at (k - 1)), nKey := BUFFER_NOSECTOR, nUseCount := 0\<rparr>) L
      in if i = 1 then L\<lparr>pFirst := at k\<rparr> else if i = n then L\<lparr>pLast := at k\<rparr> else L)"

definition elem_at :: "ptr \<Rightarrow> u32 \<Rightarrow> nat \<Rightarrow> ptr" where
  "elem_at base sz i = base + of_nat i * sz"

definition clear_cluster :: "TFATClusterBuffer \<Rightarrow> TFATClusterBuffer" where
  "clear_cluster b = b\<lparr>pBuf := NULL, nSectorNumPerCluster := 0\<rparr>"

definition FATCacheOpen :: "TPartition option \<Rightarrow> 'a fat_state_scheme \<Rightarrow> (u32 \<times> 'a fat_state_scheme) option" where
  "FATCacheOpen pPartition s = do {
     assert (m_pPartition (m_Cache s) = None);
     assert (pPartition \<noteq> None);
     s \<leftarrow> Some (s\<lparr>m_Cache := (m_Cache s)\<lparr>m_pPartition := pPartition\<rparr>\<rparr>);
     assert (m_pBufferMem (m_Cache s) = NULL);
     (p, h) \<leftarrow> Some (malloc (sizeof_TFATBuffer * of_nat FAT_BUFFERS) (mem s));
     s \<leftarrow> Some (s\<lparr>mem := h, m_Cache := (m_Cache s)\<lparr>m_pBufferMem := p\<rparr>\<rparr>);
     if p = NULL then Some (ENOMEM, s)
     else do {
       L \<leftarrow> Some (link_buffers (elem_at p sizeof_TFATBuffer) FAT_BUFFERS FAT_BUFFERS (m_BufferList (m_Cache s)));
       s \<leftarrow> Some (s\<lparr>m_Cache := (m_Cache s)\<lparr>m_BufferList := L\<rparr>\<rparr>);
       assert (m_pClusterBufferMem (m_Cache s) = NULL);
       (q, h) \<leftarrow> Some (malloc (sizeof_TFATClusterBuffer * of_nat FAT_CLUSER_BUFFERS) (mem s));
       s \<leftarrow> Some (s\<lparr>mem := h, m_Cache := (m_Cache s)\<lparr>m_pClusterBufferMem := q\<rparr>\<rparr>);
       if q = NULL then Some (ENOMEM, s)
       else do {
         L \<leftarrow> Some (link_buffers (elem_at q sizeof_TFATClusterBuffer) FAT_CLUSER_BUFFERS FAT_CLUSER_BUFFERS (m_ClusterBufList (m_Cache s)));
         L \<leftarrow> Some (fold (\<lambda>i. upd (elem_at q sizeof_TFATClusterBuffer i) clear_cluster) [0 ..< FAT_CLUSER_BUFFERS] L);
         Some (1, s\<lparr>m_Cache := (m_Cache s)\<lparr>m_ClusterBufList := L\<rparr>\<rparr>) } } }"

text \<open>The loop of \<open>FATCacheSetClusterBuff\<close>. \<open>raw\<close> is what the fresh memory of a buffer holds.\<close>

partial_function (option) set_cluster_loop ::
  "(ptr \<Rightarrow> u8 list) \<Rightarrow> u32 \<Rightarrow> u32 \<Rightarrow> ptr \<Rightarrow> TFATClusterBuffer TFATBufferList \<Rightarrow> alloc_state \<Rightarrow>
     (TFATClusterBuffer TFATBufferList \<times> alloc_state) option" where
  "set_cluster_loop raw spc fds p L h =
     (if p = NULL then Some (L, h)
      else do {
        assert (pBuf (buf L p) = NULL);
        (q, h) \<leftarrow> Some (malloc (spc * FAT_SECTOR_SIZE) h);
        L \<leftarrow> Some (upd p (\<lambda>x. x\<lparr>pBuf := q\<rparr>) L);
        if q = NULL then Some (L, h)
        else set_cluster_loop raw spc fds (bf_pNext (buf L p))
          (upd p (\<lambda>x. x\<lparr>Data := pad (unat (spc * FAT_SECTOR_SIZE)) (raw q), nSectorNumPerCluster := spc,
             cb_nFirstDataSector := fds\<rparr>) L) h })"

definition FATCacheSetClusterBuff :: "(ptr \<Rightarrow> u8 list) \<Rightarrow> u32 \<Rightarrow> u32 \<Rightarrow> 'a fat_state_scheme \<Rightarrow> 'a fat_state_scheme option" where
  "FATCacheSetClusterBuff raw nSectorPerCluster nFirstDataSector s = do {
     (L, h) \<leftarrow> set_cluster_loop raw nSectorPerCluster nFirstDataSector
       (pFirst (m_ClusterBufList (m_Cache s))) (m_ClusterBufList (m_Cache s)) (mem s);
     Some (s\<lparr>m_Cache := (m_Cache s)\<lparr>m_ClusterBufList := L\<rparr>, mem := h\<rparr>) }"

partial_function (option) free_cluster_loop ::
  "ptr \<Rightarrow> TFATClusterBuffer TFATBufferList \<Rightarrow> alloc_state \<Rightarrow> (TFATClusterBuffer TFATBufferList \<times> alloc_state) option" where
  "free_cluster_loop p L h =
     (if p = NULL then Some (L, h)
      else if pBuf (buf L p) \<noteq> NULL
      then free_cluster_loop (bf_pNext (buf L p)) (upd p (\<lambda>x. x\<lparr>pBuf := NULL\<rparr>) L) (free (pBuf (buf L p)) h)
      else free_cluster_loop (bf_pNext (buf L p)) L h)"

definition FATCacheClose :: "'a fat_state_scheme \<Rightarrow> 'a fat_state_scheme option" where
  "FATCacheClose s = do {
     s \<leftarrow> FATCacheFlush s;
     c \<leftarrow> Some (m_Cache s);
     assert (m_pBufferMem c \<noteq> NULL);
     c' \<leftarrow> Some (c\<lparr>m_BufferList := (m_BufferList c)\<lparr>pFirst := NULL, pLast := NULL\<rparr>, m_pBufferMem := NULL\<rparr>);
     (L, h) \<leftarrow> free_cluster_loop (pFirst (m_ClusterBufList c')) (m_ClusterBufList c') (free (m_pBufferMem c) (mem s));
     assert (m_pClusterBufferMem c' \<noteq> NULL);
     Some (s\<lparr>m_Cache := c'\<lparr>m_ClusterBufList := L, m_pClusterBufferMem := NULL\<rparr>,
             mem := free (m_pClusterBufferMem c') h\<rparr>) }"

end
