(* ===== verification/FatCacheProps.thy ===== *)
theory FatCacheProps
  imports FatCache
begin

text \<open>
  Correctness of the buffer cache. The doubly linked lists are shown to be lists with move-to-front and
  move-to-back; the contract of the device is the locale \<open>backing_store\<close>, in which the cache is shown to be
  transparent once for both kinds of buffers: \<open>view\<close> is what a reader sees, and getting, releasing and
  flushing buffers, with whatever evictions and device failures, do not change it.
\<close>

section \<open>Doubly linked lists\<close>

primrec lseg :: "(ptr \<Rightarrow> ptr) \<Rightarrow> ptr \<Rightarrow> ptr list \<Rightarrow> ptr \<Rightarrow> bool" where
  "lseg nx p [] q \<longleftrightarrow> p = q"
| "lseg nx p (a # as) q \<longleftrightarrow> p = a \<and> a \<noteq> NULL \<and> lseg nx (nx a) as q"

lemma linked_lseg: "linked nx p as \<longleftrightarrow> lseg nx p as NULL"
  by (induction as arbitrary: p) auto

lemma lseg_append [simp]: "lseg nx p (as @ bs) q \<longleftrightarrow> (\<exists>r. lseg nx p as r \<and> lseg nx r bs q)"
  by (induction as arbitrary: p) auto

lemma lseg_upd [simp]: "a \<notin> set as \<Longrightarrow> lseg (nx(a := x)) p as q \<longleftrightarrow> lseg nx p as q"
  by (induction as arbitrary: p) auto

lemma lseg_no_NULL: "lseg nx p as q \<Longrightarrow> NULL \<notin> set as"
  by (induction as arbitrary: p) auto

lemma lseg_hd: "lseg nx p as q \<Longrightarrow> as \<noteq> [] \<Longrightarrow> p = hd as"
  by (cases as) auto

text \<open>Moving an element to the front, on the link functions of both directions.\<close>

lemma dll_move:
  assumes nx: "linked nx f (ys @ b # zs)" and pv: "linked pv l (rev (ys @ b # zs))"
    and d: "distinct (ys @ b # zs)" and ys: "ys \<noteq> []"
  defines "nx2 \<equiv> (nx(pv b := nx b))(b := f)"
    and "pv2 \<equiv> ((if nx b \<noteq> NULL then pv(nx b := pv b) else pv)(f := b))(b := NULL)"
  shows "linked nx2 b (b # ys @ zs)" "linked pv2 (if nx b \<noteq> NULL then l else pv b) (rev (b # ys @ zs))"
    "pv b \<noteq> NULL" "f \<noteq> NULL" "f \<noteq> b" "pv b \<noteq> b" "nx b \<noteq> b" "nx b \<noteq> f"
proof -
  obtain us p where us: "ys = us @ [p]" using ys by (cases ys rule: rev_cases) simp_all
  obtain vs where vs: "ys = f # vs" using nx ys by (cases ys) auto
  have fp: "f \<in> set ys" "p \<in> set ys" using us vs by (metis list.set_intros(1), simp)
  then have n0: "b \<noteq> NULL" "p \<noteq> NULL" "f \<noteq> NULL"
    using linked_no_NULL [OF nx] by auto
  have pvb: "pv b = p" using pv us by (auto simp: linked_lseg)
  have nxb: "linked nx (nx b) zs" "lseg nx f us p" "nx p = b"
    using nx us by (auto simp: linked_lseg)
  have hz: "nx b = NULL \<and> zs = [] \<or> (\<exists>ws. zs = nx b # ws \<and> nx b \<noteq> NULL)"
    using nxb(1) by (cases zs) auto
  show "pv b \<noteq> NULL" "f \<noteq> NULL" "f \<noteq> b" "pv b \<noteq> b" "nx b \<noteq> b" "nx b \<noteq> f"
    using n0 pvb d fp hz by auto
  have nb: "b \<notin> set us" "p \<notin> set us" "b \<notin> set zs" "p \<notin> set zs" "p \<noteq> b" using d us by auto
  show "linked nx2 b (b # ys @ zs)"
    using n0 nxb nb by (simp add: nx2_def pvb linked_lseg us)
  have fv: "f \<notin> set vs" "b \<notin> set vs" "b \<noteq> f" "f \<notin> set zs" using d vs by auto
  have tail: "lseg pv p (rev vs) f" using pv unfolding pvb [symmetric] vs by (auto simp: linked_lseg)
  show "linked pv2 (if nx b \<noteq> NULL then l else pv b) (rev (b # ys @ zs))"
  proof (cases zs)
    case Nil
    with hz have "nx b = NULL" by auto
    with Nil show ?thesis using tail n0 fv by (simp add: pv2_def pvb linked_lseg vs)
  next
    case (Cons w ws)
    with hz have w: "nx b = w" "w \<noteq> NULL" by auto
    have "lseg pv l (rev ws) w" using pv Cons by (auto simp: linked_lseg)
    moreover have "w \<notin> set vs" "w \<noteq> f" "w \<noteq> b" "w \<notin> set ws" "b \<notin> set ws" "f \<notin> set ws"
      using d Cons vs by auto
    ultimately show ?thesis using tail n0 fv w by (simp add: pv2_def pvb linked_lseg vs Cons)
  qed
qed

definition dll :: "'a blist \<Rightarrow> ptr list \<Rightarrow> bool" where
  "dll L xs \<longleftrightarrow> distinct xs \<and> linked (\<lambda>a. bf_pNext (buf L a)) (pFirst L) xs \<and>
     linked (\<lambda>a. bf_pPrev (buf L a)) (pLast L) (rev xs)"

text \<open>Only the links differ.\<close>

definition relinked :: "'a blist \<Rightarrow> 'a blist \<Rightarrow> bool" where
  "relinked L L' \<longleftrightarrow> (\<forall>a. bf_nMagic (buf L' a) = bf_nMagic (buf L a) \<and> nKey (buf L' a) = nKey (buf L a) \<and>
     nUseCount (buf L' a) = nUseCount (buf L a) \<and> bDirty (buf L' a) = bDirty (buf L a) \<and>
     Data (buf L' a) = Data (buf L a) \<and> TFATBuffer.more (buf L' a) = TFATBuffer.more (buf L a))"

lemma relinked_refl [simp]: "relinked L L"
  by (simp add: relinked_def)

lemma relinked_fields:
  assumes "relinked L L'"
  shows "bf_nMagic (buf L' a) = bf_nMagic (buf L a)" "nKey (buf L' a) = nKey (buf L a)"
    "nUseCount (buf L' a) = nUseCount (buf L a)" "bDirty (buf L' a) = bDirty (buf L a)"
    "Data (buf L' a) = Data (buf L a)" "TFATBuffer.more (buf L' a) = TFATBuffer.more (buf L a)"
  using assms by (simp_all add: relinked_def)

lemma split_remove1:
  assumes "b \<in> set xs" "distinct xs"
  obtains ys zs where "xs = ys @ b # zs" "remove1 b xs = ys @ zs"
proof -
  obtain ys zs where x: "xs = ys @ b # zs" using assms(1) by (metis split_list)
  with assms(2) have "remove1 b xs = ys @ zs" by (simp add: remove1_append)
  with x show thesis by (rule that)
qed

lemma move_first_spec:
  assumes "dll L xs" "b \<in> set xs"
  shows "\<exists>L'. move_first b L = Some L' \<and> dll L' (b # remove1 b xs) \<and> relinked L L'"
proof -
  have d: "distinct xs" using assms(1) by (simp add: dll_def)
  obtain ys zs where x: "xs = ys @ b # zs" "remove1 b xs = ys @ zs" using split_remove1 [OF assms(2) d] .
  show ?thesis
  proof (cases ys)
    case Nil
    then show ?thesis using assms(1) x by (auto simp: move_first_def dll_def)
  next
    case (Cons y vs)
    let ?nx = "\<lambda>a. bf_pNext (buf L a)" and ?pv = "\<lambda>a. bf_pPrev (buf L a)"
    have nx: "linked ?nx (pFirst L) (ys @ b # zs)" and pv: "linked ?pv (pLast L) (rev (ys @ b # zs))"
      and d': "distinct (ys @ b # zs)" "ys \<noteq> []"
      using assms(1) x Cons by (simp_all add: dll_def)
    note M = dll_move [OF nx pv d']
    define pp pn f where "pp = ?pv b" and "pn = ?nx b" and "f = pFirst L"
    note M' = M [folded pp_def pn_def f_def]
    define L1 where "L1 = upd pp (\<lambda>x. x\<lparr>bf_pNext := pn\<rparr>) L"
    define L2 where "L2 = (if pn \<noteq> NULL then upd pn (\<lambda>x. x\<lparr>bf_pPrev := pp\<rparr>) L1 else L1\<lparr>pLast := pp\<rparr>)"
    define L3 where "L3 = upd f (\<lambda>x. x\<lparr>bf_pPrev := b\<rparr>) L2"
    define L4 where "L4 = upd b (\<lambda>x. x\<lparr>bf_pNext := f\<rparr>) L3"
    define L5 where "L5 = upd b (\<lambda>x. x\<lparr>bf_pPrev := NULL\<rparr>) (L4\<lparr>pFirst := b\<rparr>)"
    have run: "move_first b L = Some L5"
      using M(3,4,5)
      by (simp add: move_first_def Let_def L5_def L4_def L3_def L2_def L1_def pp_def pn_def f_def upd_def)
    have nx5: "(\<lambda>a. bf_pNext (buf L5 a)) = (?nx(pp := pn))(b := f)"
      using M'(3) M'(4) by (simp add: L5_def L4_def L3_def L2_def L1_def upd_def fun_eq_iff)
    have pv5: "(\<lambda>a. bf_pPrev (buf L5 a)) = ((if pn \<noteq> NULL then ?pv(pn := pp) else ?pv)(f := b))(b := NULL)"
      using M'(3) M'(4) by (simp add: L5_def L4_def L3_def L2_def L1_def upd_def fun_eq_iff)
    have ends: "pFirst L5 = b" "pLast L5 = (if pn \<noteq> NULL then pLast L else pp)"
      by (simp_all add: L5_def L4_def L3_def L2_def L1_def upd_def)
    have "dll L5 (b # ys @ zs)"
      unfolding dll_def nx5 pv5 ends using M'(1,2) d'(1) by auto
    moreover have "relinked L L5"
      by (simp add: relinked_def L5_def L4_def L3_def L2_def L1_def upd_def)
    ultimately show ?thesis using run x by auto
  qed
qed

lemma move_last_spec:
  assumes "dll L xs" "b \<in> set xs"
  shows "\<exists>L'. move_last b L = Some L' \<and> dll L' (remove1 b xs @ [b]) \<and> relinked L L'"
proof -
  have d: "distinct xs" using assms(1) by (simp add: dll_def)
  obtain ys zs where x: "xs = ys @ b # zs" "remove1 b xs = ys @ zs" using split_remove1 [OF assms(2) d] .
  show ?thesis
  proof (cases "zs = []")
    case True
    then show ?thesis using assms(1) x by (auto simp: move_last_def dll_def)
  next
    case False
    let ?nx = "\<lambda>a. bf_pNext (buf L a)" and ?pv = "\<lambda>a. bf_pPrev (buf L a)"
    have pv: "linked ?pv (pLast L) (rev zs @ b # rev ys)" and nx: "linked ?nx (pFirst L) (rev (rev zs @ b # rev ys))"
      and d': "distinct (rev zs @ b # rev ys)" "rev zs \<noteq> []"
      using assms(1) x False by (simp_all add: dll_def) auto
    note M = dll_move [OF pv nx d']
    define pp pn f where "pp = ?pv b" and "pn = ?nx b" and "f = pLast L"
    note M' = M [folded pp_def pn_def f_def]
    define L1 where "L1 = upd pn (\<lambda>x. x\<lparr>bf_pPrev := pp\<rparr>) L"
    define L2 where "L2 = (if pp \<noteq> NULL then upd pp (\<lambda>x. x\<lparr>bf_pNext := pn\<rparr>) L1 else L1\<lparr>pFirst := pn\<rparr>)"
    define L3 where "L3 = upd f (\<lambda>x. x\<lparr>bf_pNext := b\<rparr>) L2"
    define L4 where "L4 = upd b (\<lambda>x. x\<lparr>bf_pPrev := f\<rparr>) L3"
    define L5 where "L5 = upd b (\<lambda>x. x\<lparr>bf_pNext := NULL\<rparr>) (L4\<lparr>pLast := b\<rparr>)"
    have run: "move_last b L = Some L5"
      using M(3,4,5)
      by (simp add: move_last_def Let_def L5_def L4_def L3_def L2_def L1_def pp_def pn_def f_def upd_def)
    have pv5: "(\<lambda>a. bf_pPrev (buf L5 a)) = (?pv(pn := pp))(b := f)"
      using M'(3) M'(4) by (simp add: L5_def L4_def L3_def L2_def L1_def upd_def fun_eq_iff)
    have nx5: "(\<lambda>a. bf_pNext (buf L5 a)) = ((if pp \<noteq> NULL then ?nx(pp := pn) else ?nx)(f := b))(b := NULL)"
      using M'(3) M'(4) by (simp add: L5_def L4_def L3_def L2_def L1_def upd_def fun_eq_iff)
    have ends: "pLast L5 = b" "pFirst L5 = (if pp \<noteq> NULL then pFirst L else pn)"
      by (simp_all add: L5_def L4_def L3_def L2_def L1_def upd_def)
    have "dll L5 (ys @ zs @ [b])"
      unfolding dll_def nx5 pv5 ends using M'(1,2) d'(1) by auto
    moreover have "relinked L L5"
      by (simp add: relinked_def L5_def L4_def L3_def L2_def L1_def upd_def)
    ultimately show ?thesis using run x by auto
  qed
qed

lemma scan_next_spec:
  assumes "linked (\<lambda>a. bf_pNext (buf L a)) p xs" "\<forall>a\<in>set xs. bf_nMagic (buf L a) = BUFFER_MAGIC"
  shows "scan_next P p L = Some (case find (\<lambda>a. P (buf L a)) xs of None \<Rightarrow> NULL | Some a \<Rightarrow> a)"
  using assms by (induction xs arbitrary: p) (subst scan_next.simps, auto)+

lemma scan_prev_spec:
  assumes "linked (\<lambda>a. bf_pPrev (buf L a)) p xs" "\<forall>a\<in>set xs. bf_nMagic (buf L a) = BUFFER_MAGIC"
  shows "scan_prev P p L = Some (case find (\<lambda>a. P (buf L a)) xs of None \<Rightarrow> NULL | Some a \<Rightarrow> a)"
  using assms by (induction xs arbitrary: p) (subst scan_prev.simps, auto)+


section \<open>The contract of the backing store\<close>

text \<open>
  What the cache relies on: how a buffer with key \<open>k\<close> reads and writes the blocks \<open>rng k\<close> of the device.
  \<open>geo\<close> is what the fields behind the common ones have to satisfy, \<open>sz\<close> the size of the data.
\<close>

locale backing_store =
  fixes st :: "'a storer" and ld :: "'a loader" and content :: "mmc \<Rightarrow> u32 \<Rightarrow> u8 list"
    and rng :: "u32 \<Rightarrow> nat set" and valid :: "u32 \<Rightarrow> bool" and geo :: "'a \<Rightarrow> bool" and sz :: nat
    and good :: "mmc \<Rightarrow> bool"
  assumes load_law: "good m \<Longrightarrow> geo (TFATBuffer.more b) \<Longrightarrow> length (Data b) = sz \<Longrightarrow> valid (nKey b) \<Longrightarrow>
      \<exists>ok d m'. ld b m = Some (ok, d, m') \<and> good m' \<and> same_card m m' \<and> blocks m' = blocks m \<and> length d = sz \<and>
        (ok \<longrightarrow> d = content m (nKey b)) \<and> (card_healthy m \<longrightarrow> ok)"
    and store_law: "good m \<Longrightarrow> geo (TFATBuffer.more b) \<Longrightarrow> length (Data b) = sz \<Longrightarrow> valid (nKey b) \<Longrightarrow>
      \<exists>ok m'. st b m = Some (ok, m') \<and> good m' \<and> same_card m m' \<and> (\<forall>i. i \<notin> rng (nKey b) \<longrightarrow> blocks m' i = blocks m i) \<and>
        (ok \<longrightarrow> content m' (nKey b) = Data b) \<and> (card_healthy m \<longrightarrow> ok)"
    and content_cong: "(\<And>i. i \<in> rng k \<Longrightarrow> blocks m' i = blocks m i) \<Longrightarrow> content m' k = content m k"
    and rng_disjoint: "valid j \<Longrightarrow> valid k \<Longrightarrow> j \<noteq> k \<Longrightarrow> rng j \<inter> rng k = {}"
    and nosector_invalid: "\<not> valid BUFFER_NOSECTOR"
    and content_length: "good m \<Longrightarrow> valid k \<Longrightarrow> length (content m k) = sz"

text \<open>
  The state of a cache: the buffers \<open>xs\<close> in list order, and \<open>W\<close>, the buffers whose holders have changed the
  data, or promised to write all of it, without marking them dirty yet.
\<close>

definition buffer_ok :: "(u32 \<Rightarrow> bool) \<Rightarrow> ('a \<Rightarrow> bool) \<Rightarrow> nat \<Rightarrow> 'a TFATBuffer_scheme \<Rightarrow> bool" where
  "buffer_ok valid geo sz b \<longleftrightarrow> bf_nMagic b = BUFFER_MAGIC \<and> geo (TFATBuffer.more b) \<and> length (Data b) = sz \<and>
     (nKey b = BUFFER_NOSECTOR \<longrightarrow> nUseCount b = 0) \<and> (nKey b \<noteq> BUFFER_NOSECTOR \<longrightarrow> valid (nKey b))"

definition unique_keys :: "'a blist \<Rightarrow> ptr list \<Rightarrow> bool" where
  "unique_keys L xs \<longleftrightarrow> (\<forall>a\<in>set xs. \<forall>b\<in>set xs. nKey (buf L a) = nKey (buf L b) \<longrightarrow> nKey (buf L a) \<noteq> BUFFER_NOSECTOR \<longrightarrow> a = b)"

definition buffers_ok :: "(u32 \<Rightarrow> bool) \<Rightarrow> ('a \<Rightarrow> bool) \<Rightarrow> nat \<Rightarrow> ptr set \<Rightarrow> ptr list \<Rightarrow> 'a blist \<Rightarrow> bool" where
  "buffers_ok valid geo sz W xs L \<longleftrightarrow> dll L xs \<and> (\<forall>a\<in>set xs. buffer_ok valid geo sz (buf L a)) \<and> unique_keys L xs \<and>
     (\<forall>a\<in>W. nUseCount (buf L a) \<noteq> 0)"

definition clean_ok :: "(mmc \<Rightarrow> u32 \<Rightarrow> u8 list) \<Rightarrow> ptr set \<Rightarrow> ptr list \<Rightarrow> 'a blist \<Rightarrow> mmc \<Rightarrow> bool" where
  "clean_ok content W xs L m \<longleftrightarrow>
     (\<forall>a\<in>set xs - W. nKey (buf L a) \<noteq> BUFFER_NOSECTOR \<longrightarrow> bDirty (buf L a) \<or> Data (buf L a) = content m (nKey (buf L a)))"

definition cached :: "'a blist \<Rightarrow> ptr list \<Rightarrow> u32 \<Rightarrow> ptr option" where
  "cached L xs k = find (\<lambda>a. nKey (buf L a) = k) xs"

text \<open>What a reader of key \<open>k\<close> sees: the buffer if there is one, the device otherwise.\<close>

definition view :: "(mmc \<Rightarrow> u32 \<Rightarrow> u8 list) \<Rightarrow> 'a blist \<Rightarrow> ptr list \<Rightarrow> mmc \<Rightarrow> u32 \<Rightarrow> u8 list" where
  "view content L xs m k = (case cached L xs k of Some a \<Rightarrow> Data (buf L a) | None \<Rightarrow> content m k)"

definition uses :: "'a blist \<Rightarrow> ptr \<Rightarrow> u32" where
  "uses L a = nUseCount (buf L a)"

lemma find_Some_in: "find P xs = Some a \<Longrightarrow> a \<in> set xs \<and> P a"
  by (auto simp: find_Some_iff)

lemma find_unique:
  assumes "a \<in> set xs" "P a" "\<And>b. b \<in> set xs \<Longrightarrow> P b \<Longrightarrow> b = a"
  shows "find P xs = Some a"
proof (cases "find P xs")
  case None
  then show ?thesis using assms(1,2) by (auto simp: find_None_iff)
next
  case (Some b)
  then show ?thesis using assms(3) find_Some_in [OF Some] by simp
qed

lemma cached_iff:
  assumes "buffers_ok valid geo sz W xs L" "k \<noteq> BUFFER_NOSECTOR"
  shows "cached L xs k = Some a \<longleftrightarrow> a \<in> set xs \<and> nKey (buf L a) = k"
proof
  assume "cached L xs k = Some a"
  then show "a \<in> set xs \<and> nKey (buf L a) = k" unfolding cached_def by (rule find_Some_in)
next
  assume a: "a \<in> set xs \<and> nKey (buf L a) = k"
  show "cached L xs k = Some a" unfolding cached_def
    by (rule find_unique) (use a assms in \<open>auto simp: buffers_ok_def unique_keys_def\<close>)
qed

lemma view_eqI:
  assumes "buffers_ok valid geo sz W xs L" "k \<noteq> BUFFER_NOSECTOR"
    and "\<And>a. a \<in> set xs \<Longrightarrow> nKey (buf L a) = k \<Longrightarrow> v = Data (buf L a)"
    and "(\<And>a. a \<in> set xs \<Longrightarrow> nKey (buf L a) \<noteq> k) \<Longrightarrow> v = content m k"
  shows "view content L xs m k = v"
proof (cases "cached L xs k")
  case None
  then have "\<And>a. a \<in> set xs \<Longrightarrow> nKey (buf L a) \<noteq> k" by (auto simp: cached_def find_None_iff)
  with assms(4) None show ?thesis by (simp add: view_def)
next
  case (Some a)
  then have "a \<in> set xs" "nKey (buf L a) = k" using cached_iff [OF assms(1,2)] by blast+
  then have "v = Data (buf L a)" by (rule assms(3))
  with Some show ?thesis by (simp add: view_def)
qed

lemma view_hit:
  assumes "buffers_ok valid geo sz W xs L" "a \<in> set xs" "nKey (buf L a) = k" "k \<noteq> BUFFER_NOSECTOR"
  shows "view content L xs m k = Data (buf L a)"
  using cached_iff [OF assms(1,4), of a] assms(2,3) by (simp add: view_def)

lemma view_miss:
  assumes "\<And>a. a \<in> set xs \<Longrightarrow> nKey (buf L a) \<noteq> k"
  shows "view content L xs m k = content m k"
proof -
  have "cached L xs k = None" using assms by (auto simp: cached_def find_None_iff)
  then show ?thesis by (simp add: view_def)
qed

lemma view_cong:
  assumes "buffers_ok valid geo sz W xs L" "buffers_ok valid geo sz W' ys L'" "set ys = set xs" "k \<noteq> BUFFER_NOSECTOR"
    and "\<And>a. a \<in> set xs \<Longrightarrow> nKey (buf L' a) = k \<longleftrightarrow> nKey (buf L a) = k"
    and "\<And>a. a \<in> set xs \<Longrightarrow> nKey (buf L a) = k \<Longrightarrow> Data (buf L' a) = Data (buf L a)"
    and "(\<And>a. a \<in> set xs \<Longrightarrow> nKey (buf L a) \<noteq> k) \<Longrightarrow> content m' k = content m k"
  shows "view content L' ys m' k = view content L xs m k"
  using assms(2,4)
proof (rule view_eqI)
  fix a
  assume "a \<in> set ys" "nKey (buf L' a) = k"
  then show "view content L xs m k = Data (buf L' a)"
    using assms(3-6) view_hit [OF assms(1), of a] by simp
next
  assume n: "\<And>a. a \<in> set ys \<Longrightarrow> nKey (buf L' a) \<noteq> k"
  have "nKey (buf L a) \<noteq> k" if "a \<in> set xs" for a using n [of a] assms(3,5) that by simp
  then show "view content L xs m k = content m' k" using assms(7) view_miss by metis
qed

lemma buffers_ok_relinked:
  assumes "buffers_ok valid geo sz W xs L" "relinked L L'" "dll L' ys" "set ys = set xs"
  shows "buffers_ok valid geo sz W ys L'"
  using assms by (simp add: buffers_ok_def unique_keys_def buffer_ok_def relinked_fields)

lemma clean_ok_relinked:
  assumes "clean_ok content W xs L m" "relinked L L'" "set ys = set xs"
  shows "clean_ok content W ys L' m"
  using assms by (simp add: clean_ok_def relinked_fields)

lemma view_relinked:
  assumes "buffers_ok valid geo sz W xs L" "relinked L L'" "dll L' ys" "set ys = set xs" "k \<noteq> BUFFER_NOSECTOR"
  shows "view content L' ys m k = view content L xs m k"
  using buffers_ok_relinked [OF assms(1-4)] assms(5)
  by (rule view_eqI) (use assms in \<open>auto simp: relinked_fields view_hit view_miss\<close>)


lemma upd_simps [simp]:
  "buf (upd a f L) = (buf L)(a := f (buf L a))" "pFirst (upd a f L) = pFirst L" "pLast (upd a f L) = pLast L"
  by (simp_all add: upd_def)

text \<open>An update of one buffer that keeps its links.\<close>

lemma dll_upd:
  assumes "\<And>x. bf_pNext (f x) = bf_pNext x" "\<And>x. bf_pPrev (f x) = bf_pPrev x"
  shows "dll (upd p f L) xs \<longleftrightarrow> dll L xs"
proof -
  have "(\<lambda>a. bf_pNext (buf (upd p f L) a)) = (\<lambda>a. bf_pNext (buf L a))"
    "(\<lambda>a. bf_pPrev (buf (upd p f L) a)) = (\<lambda>a. bf_pPrev (buf L a))"
    using assms by auto
  then show ?thesis by (simp add: dll_def)
qed

lemma buffers_ok_dll: "buffers_ok valid geo sz W xs L \<Longrightarrow> dll L xs"
  by (simp add: buffers_ok_def)

lemma dll_NULL: "dll L xs \<Longrightarrow> NULL \<notin> set xs"
  by (auto simp: dll_def dest: linked_no_NULL)

lemma buffers_okD:
  assumes "buffers_ok valid geo sz W xs L" "a \<in> set xs"
  shows "bf_nMagic (buf L a) = BUFFER_MAGIC" "geo (TFATBuffer.more (buf L a))" "length (Data (buf L a)) = sz"
    "nKey (buf L a) = BUFFER_NOSECTOR \<Longrightarrow> nUseCount (buf L a) = 0"
    "nKey (buf L a) \<noteq> BUFFER_NOSECTOR \<Longrightarrow> valid (nKey (buf L a))" "buffer_ok valid geo sz (buf L a)"
  using assms by (auto simp: buffers_ok_def buffer_ok_def)

lemma buffers_ok_upd:
  assumes "buffers_ok valid geo sz W xs L" "p \<in> set xs"
    and "\<And>x. bf_pNext (f x) = bf_pNext x" "\<And>x. bf_pPrev (f x) = bf_pPrev x"
    and "buffer_ok valid geo sz (f (buf L p))"
    and "nKey (f (buf L p)) \<noteq> BUFFER_NOSECTOR \<Longrightarrow> nKey (f (buf L p)) \<noteq> nKey (buf L p) \<Longrightarrow>
      \<forall>a\<in>set xs. nKey (buf L a) \<noteq> nKey (f (buf L p))"
    and "W' \<subseteq> insert p W" "p \<in> W' \<Longrightarrow> nUseCount (f (buf L p)) \<noteq> 0"
  shows "buffers_ok valid geo sz W' xs (upd p f L)"
  unfolding buffers_ok_def
proof (intro conjI)
  show "dll (upd p f L) xs" using assms(1,3,4) by (simp add: dll_upd buffers_ok_def)
  show "\<forall>a\<in>set xs. buffer_ok valid geo sz (buf (upd p f L) a)" using assms(1,5) by (simp add: buffers_ok_def)
  have u: "unique_keys L xs" using assms(1) by (simp add: buffers_ok_def)
  show "unique_keys (upd p f L) xs"
    unfolding unique_keys_def
  proof (intro ballI impI)
    fix a b
    assume ab: "a \<in> set xs" "b \<in> set xs" "nKey (buf (upd p f L) a) = nKey (buf (upd p f L) b)"
      "nKey (buf (upd p f L) a) \<noteq> BUFFER_NOSECTOR"
    show "a = b"
    proof (cases "a = p \<longleftrightarrow> b = p")
      case True
      then show ?thesis using ab u by (cases "a = p") (simp_all add: unique_keys_def)
    next
      case False
      then obtain c where c: "c \<in> set xs" "c \<noteq> p" "nKey (buf L c) = nKey (f (buf L p))" "nKey (f (buf L p)) \<noteq> BUFFER_NOSECTOR"
        "{a, b} = {c, p}"
        using ab by (cases "a = p") auto
      then have "nKey (f (buf L p)) = nKey (buf L p)" using assms(6) by blast
      with c u assms(2) have "c = p" by (simp add: unique_keys_def)
      with c(2) show ?thesis by simp
    qed
  qed
  show "\<forall>a\<in>W'. nUseCount (buf (upd p f L) a) \<noteq> 0" using assms(1,7,8) by (auto simp: buffers_ok_def)
qed

lemma scan_key:
  assumes "buffers_ok valid geo sz W xs L"
  shows "scan_next P (pFirst L) L = Some (case find (\<lambda>a. P (buf L a)) xs of None \<Rightarrow> NULL | Some a \<Rightarrow> a)"
    "scan_prev P (pLast L) L = Some (case find (\<lambda>a. P (buf L a)) (rev xs) of None \<Rightarrow> NULL | Some a \<Rightarrow> a)"
  using assms by (auto simp: buffers_ok_def buffer_ok_def dll_def intro!: scan_next_spec scan_prev_spec)

context backing_store
begin

abbreviation "BOK \<equiv> buffers_ok valid geo sz"
abbreviation "CLN \<equiv> clean_ok content"
abbreviation "VIEW \<equiv> view content"

lemma valid_no: "valid k \<Longrightarrow> k \<noteq> BUFFER_NOSECTOR"
  using nosector_invalid by blast

text \<open>The result of a successful get.\<close>

definition got :: "ptr set \<Rightarrow> ptr list \<Rightarrow> 'a blist \<Rightarrow> mmc \<Rightarrow> u32 \<Rightarrow> bool \<Rightarrow> ptr \<Rightarrow> ptr list \<Rightarrow> 'a blist \<Rightarrow> mmc \<Rightarrow> bool" where
  "got W xs L m key wo p ys L' m' \<longleftrightarrow> p \<in> set xs \<and> set ys = set xs \<and>
     BOK (if wo then insert p W else W) ys L' \<and> CLN (if wo then insert p W else W) ys L' m' \<and>
     nKey (buf L' p) = key \<and> uses L' = (uses L)(p := uses L p + 1) \<and>
     (\<forall>k. valid k \<longrightarrow> k \<noteq> key \<longrightarrow> VIEW L' ys m' k = VIEW L xs m k) \<and>
     (\<not> wo \<longrightarrow> VIEW L' ys m' key = VIEW L xs m key)"

lemma got_hit:
  assumes ok: "BOK W xs L" "CLN W xs L m" and key: "valid key"
    and p: "p \<in> set xs" "nKey (buf L p) = key" and use: "uses L p + 1 \<noteq> 0"
    and mv: "dll L1 ys" "relinked L L1" "set ys = set xs"
  shows "got W xs L m key wo p ys (upd p (\<lambda>x. x\<lparr>nUseCount := nUseCount x + 1\<rparr>) L1) m"
proof -
  let ?L = "upd p (\<lambda>x. x\<lparr>nUseCount := nUseCount x + 1\<rparr>) L1"
  note r = relinked_fields [OF mv(2)]
  have no: "key \<noteq> BUFFER_NOSECTOR" using key by (rule valid_no)
  have b1: "BOK W ys L1" by (rule buffers_ok_relinked [OF ok(1) mv(2,1,3)])
  have b: "BOK W' ys ?L" if "W' \<subseteq> insert p W" for W'
    using b1 by (rule buffers_ok_upd)
      (use p mv(3) no use that buffers_okD(6) [OF b1, of p] in \<open>simp_all add: buffer_ok_def uses_def r\<close>)
  have c: "CLN W' ys ?L m" if "W \<subseteq> W'" for W' using ok(2) mv(3) that by (auto simp: clean_ok_def r)
  have v: "VIEW ?L ys m k = VIEW L xs m k" if "valid k" for k
    by (rule view_cong [OF ok(1) b [OF subset_insertI] mv(3) valid_no [OF that]]) (simp_all add: r)
  show ?thesis
    unfolding got_def using b [of W] b [of "insert p W"] c [of W] c [of "insert p W"] v p mv(3) key
    by (simp add: uses_def r fun_eq_iff subset_insertI)
qed

text \<open>A failed get changes nothing that a client can see.\<close>

definition kept :: "ptr set \<Rightarrow> ptr list \<Rightarrow> 'a blist \<Rightarrow> mmc \<Rightarrow> 'a blist \<Rightarrow> mmc \<Rightarrow> bool" where
  "kept W xs L m L' m' \<longleftrightarrow> BOK W xs L' \<and> CLN W xs L' m' \<and> uses L' = uses L \<and>
     (\<forall>k. valid k \<longrightarrow> VIEW L' xs m' k = VIEW L xs m k)"

lemma move_first_ok:
  assumes "BOK W xs L" "p \<in> set xs"
  obtains L' where "move_first p L = Some L'" "dll L' (p # remove1 p xs)" "relinked L L'"
    "set (p # remove1 p xs) = set xs" "BOK W (p # remove1 p xs) L'"
proof -
  have d: "dll L xs" using assms(1) by (simp add: buffers_ok_def)
  then have s: "set (p # remove1 p xs) = set xs" using assms(2) by (auto simp: dll_def)
  obtain L' where "move_first p L = Some L'" "dll L' (p # remove1 p xs)" "relinked L L'"
    using move_first_spec [OF d assms(2)] by blast
  with s buffers_ok_relinked [OF assms(1)] that show thesis by blast
qed

lemma fill_spec:
  assumes ok: "BOK W xs L" "CLN W xs L m" and m: "good m" and key: "valid key"
    and p: "p \<in> set xs" "nKey (buf L p) = BUFFER_NOSECTOR" and new: "\<And>a. a \<in> set xs \<Longrightarrow> nKey (buf L a) \<noteq> key"
  shows "\<exists>q L' m'. fill_buffer ld key wo p L m = Some (q, L', m') \<and> good m' \<and> same_card m m' \<and>
     (q = NULL \<and> \<not> card_healthy m \<and> kept W xs L m L' m' \<or> q = p \<and> got W xs L m key wo p (p # remove1 p xs) L' m')"
proof -
  have no: "key \<noteq> BUFFER_NOSECTOR" using key by (rule valid_no)
  have use0: "nUseCount (buf L p) = 0" using buffers_okD(4) [OF ok(1) p(1)] p(2) by simp
  have pW: "p \<notin> W" using ok(1) use0 by (auto simp: buffers_ok_def)
  have bp: "buffer_ok valid geo sz (buf L p)" by (rule buffers_okD(6) [OF ok(1) p(1)])
  let ?ys = "p # remove1 p xs"
  define f where "f x = x\<lparr>nUseCount := 1, nKey := key, bDirty := False\<rparr>" for x :: "'a TFATBuffer_scheme"
  have fill: "fill_buffer ld key wo p L m =
     (if \<not> wo then do {
        (ok, d, m) \<leftarrow> ld (f (buf L p)) m;
        L \<leftarrow> Some (upd p (\<lambda>x. (f x)\<lparr>Data := d\<rparr>) L);
        if \<not> ok then Some (NULL, upd p (\<lambda>x. x\<lparr>nUseCount := nUseCount x - 1, nKey := BUFFER_NOSECTOR\<rparr>) L, m)
        else do { L \<leftarrow> move_first p L; Some (p, L, m) } }
      else do { L \<leftarrow> move_first p (upd p f L); Some (p, L, m) })"
    by (simp add: fill_buffer_def upd_def p(2) f_def)
  show ?thesis
  proof (cases wo)
    case True
    have b: "BOK (insert p W) xs (upd p f L)"
      using ok(1) p(1) by (rule buffers_ok_upd)
        (use bp new key no p in \<open>auto simp: f_def buffer_ok_def\<close>)
    obtain L' where mv: "move_first p (upd p f L) = Some L'" "relinked (upd p f L) L'"
      "set ?ys = set xs" "BOK (insert p W) ?ys L'"
      using move_first_ok [OF b p(1)] by metis
    note r = relinked_fields [OF mv(2)]
    have v: "VIEW L' ?ys m k = VIEW L xs m k" if "valid k" "k \<noteq> key" for k
      by (rule view_cong [OF ok(1) mv(4,3) valid_no [OF that(1)]])
        (use that valid_no [OF that(1)] p(2) in \<open>auto simp: r f_def\<close>)
    have "got W xs L m key wo p ?ys L' m"
      unfolding got_def using True p(1) mv(3,4) v ok(2) use0
      by (auto simp: uses_def r f_def clean_ok_def fun_eq_iff)
    then show ?thesis using True fill mv(1) m by auto
  next
    case False
    obtain okk d m1 where l: "ld (f (buf L p)) m = Some (okk, d, m1)" "good m1" "same_card m m1" "blocks m1 = blocks m"
      "length d = sz" "okk \<Longrightarrow> d = content m key" "card_healthy m \<Longrightarrow> okk"
      using load_law [OF m, of "f (buf L p)"] bp key by (auto simp: f_def buffer_ok_def)
    have cm: "content m1 k = content m k" for k using l(4) by (intro content_cong) simp
    let ?g = "\<lambda>x. (f x)\<lparr>Data := d\<rparr>"
    show ?thesis
    proof (cases okk)
      case okk: True
      have b: "BOK W xs (upd p ?g L)"
        using ok(1) p(1) by (rule buffers_ok_upd)
          (use bp new key no p l(5) in \<open>auto simp: f_def buffer_ok_def\<close>)
      obtain L' where mv: "move_first p (upd p ?g L) = Some L'" "relinked (upd p ?g L) L'"
        "set ?ys = set xs" "BOK W ?ys L'"
        using move_first_ok [OF b p(1)] by metis
      note r = relinked_fields [OF mv(2)]
      have v: "VIEW L' ?ys m1 k = VIEW L xs m k" if "valid k" "k \<noteq> key" for k
        by (rule view_cong [OF ok(1) mv(4,3) valid_no [OF that(1)]])
          (use that valid_no [OF that(1)] p(2) cm in \<open>auto simp: r f_def\<close>)
      have "VIEW L xs m key = content m key" by (rule view_miss) (rule new)
      moreover have "VIEW L' ?ys m1 key = d"
        using view_hit [OF mv(4) _ _ no, of p] by (simp add: r f_def)
      moreover have "CLN W ?ys L' m1"
        using ok(2) mv(3) l(6) okk by (auto simp: clean_ok_def r f_def cm)
      ultimately have "got W xs L m key wo p ?ys L' m1"
        unfolding got_def using False p(1) mv(3,4) v l(6) okk use0
        by (auto simp: uses_def r f_def fun_eq_iff)
      then show ?thesis using False fill mv(1) l okk by auto
    next
      case nok: False
      let ?h = "\<lambda>x. (f x)\<lparr>Data := d, nUseCount := 0, nKey := BUFFER_NOSECTOR\<rparr>"
      have e: "upd p (\<lambda>x. x\<lparr>nUseCount := nUseCount x - 1, nKey := BUFFER_NOSECTOR\<rparr>) (upd p ?g L) = upd p ?h L"
        by (simp add: upd_def f_def)
      have b: "BOK W xs (upd p ?h L)"
        using ok(1) p(1) by (rule buffers_ok_upd) (use bp l(5) pW in \<open>auto simp: f_def buffer_ok_def\<close>)
      have "VIEW (upd p ?h L) xs m1 k = VIEW L xs m k" if "valid k" for k
        by (rule view_cong [OF ok(1) b refl valid_no [OF that]])
          (use valid_no [OF that] p(2) cm in \<open>auto simp: f_def\<close>)
      moreover have "CLN W xs (upd p ?h L) m1" using ok(2) by (auto simp: clean_ok_def f_def cm)
      ultimately have "kept W xs L m (upd p ?h L) m1"
        using b use0 by (auto simp: kept_def uses_def f_def fun_eq_iff)
      then show ?thesis using False fill nok l e by auto
    qed
  qed
qed

lemma kept_refl: "BOK W xs L \<Longrightarrow> CLN W xs L m \<Longrightarrow> kept W xs L m L m"
  by (simp add: kept_def)

lemma kept_trans: "kept W xs L m L1 m1 \<Longrightarrow> kept W xs L1 m1 L2 m2 \<Longrightarrow> kept W xs L m L2 m2"
  by (simp add: kept_def)

lemma kept_got:
  assumes "kept W xs L m L1 m1" "got W xs L1 m1 key wo p ys L2 m2" "valid key"
  shows "got W xs L m key wo p ys L2 m2"
  using assms unfolding got_def kept_def by metis

lemma store_frame:
  assumes ok: "BOK W xs L" "CLN W xs L m" and p: "p \<in> set xs" "nKey (buf L p) \<noteq> BUFFER_NOSECTOR" "bDirty (buf L p)" and m: "good m"
  obtains okk m' where "st (buf L p) m = Some (okk, m')" "good m'" "same_card m m'" "kept W xs L m L m'"
    "okk \<Longrightarrow> content m' (nKey (buf L p)) = Data (buf L p)" "card_healthy m \<Longrightarrow> okk"
    "\<And>k. valid k \<Longrightarrow> k \<noteq> nKey (buf L p) \<Longrightarrow> content m' k = content m k"
proof -
  note P = buffers_okD [OF ok(1) p(1)]
  obtain okk m' where s: "st (buf L p) m = Some (okk, m')" "good m'" "same_card m m'"
    "\<And>i. i \<notin> rng (nKey (buf L p)) \<Longrightarrow> blocks m' i = blocks m i"
    "okk \<Longrightarrow> content m' (nKey (buf L p)) = Data (buf L p)" "card_healthy m \<Longrightarrow> okk"
    using store_law [OF m P(2,3) P(5) [OF p(2)]] by blast
  have c: "content m' k = content m k" if "valid k" "k \<noteq> nKey (buf L p)" for k
    using rng_disjoint [OF that(1) P(5) [OF p(2)] that(2)] by (intro content_cong s(4)) blast
  have same: "a = p" if "a \<in> set xs" "nKey (buf L a) = nKey (buf L p)" for a
    using ok(1) p that by (simp add: buffers_ok_def unique_keys_def)
  have "CLN W xs L m'"
    unfolding clean_ok_def
  proof (intro ballI impI)
    fix a
    assume a: "a \<in> set xs - W" "nKey (buf L a) \<noteq> BUFFER_NOSECTOR"
    show "bDirty (buf L a) \<or> Data (buf L a) = content m' (nKey (buf L a))"
    proof (cases "nKey (buf L a) = nKey (buf L p)")
      case True
      then have "a = p" using same a(1) by blast
      then show ?thesis using p(3) by simp
    next
      case False
      moreover have "valid (nKey (buf L a))" using buffers_okD(5) [OF ok(1), of a] a by simp
      ultimately have "content m' (nKey (buf L a)) = content m (nKey (buf L a))" by (rule c [rotated])
      then show ?thesis using ok(2) a by (simp add: clean_ok_def)
    qed
  qed
  moreover have "VIEW L xs m' k = VIEW L xs m k" if "valid k" for k
  proof (rule view_cong [OF ok(1) ok(1) refl valid_no [OF that]])
    show "content m' k = content m k" if n: "\<And>a. a \<in> set xs \<Longrightarrow> nKey (buf L a) \<noteq> k"
      using n [OF p(1)] \<open>valid k\<close> by (intro c) auto
  qed simp_all
  ultimately have "kept W xs L m L m'" using ok(1) by (simp add: kept_def)
  with s c that show thesis by blast
qed

lemma evict_kept:
  assumes ok: "BOK W xs L" "CLN W xs L m" and p: "p \<in> set xs" "nKey (buf L p) \<noteq> BUFFER_NOSECTOR" "nUseCount (buf L p) = 0"
    and c: "content m (nKey (buf L p)) = Data (buf L p)"
  shows "kept W xs L m (upd p (\<lambda>x. x\<lparr>nKey := BUFFER_NOSECTOR\<rparr>) L) m"
proof -
  let ?L = "upd p (\<lambda>x. x\<lparr>nKey := BUFFER_NOSECTOR\<rparr>) L"
  have pW: "p \<notin> W" using ok(1) p(3) by (auto simp: buffers_ok_def)
  have b: "BOK W xs ?L"
    using ok(1) p(1) by (rule buffers_ok_upd) (use buffers_okD(6) [OF ok(1) p(1)] p(3) pW in \<open>auto simp: buffer_ok_def\<close>)
  have u: "a = p" if "a \<in> set xs" "nKey (buf L a) = nKey (buf L p)" for a
    using ok(1) p that by (simp add: buffers_ok_def unique_keys_def)
  have "VIEW ?L xs m k = VIEW L xs m k" if k: "valid k" for k
  proof (cases "k = nKey (buf L p)")
    case True
    have "VIEW ?L xs m k = content m k" by (rule view_miss) (use u True valid_no [OF k] in auto)
    moreover have "VIEW L xs m k = Data (buf L p)" by (rule view_hit [OF ok(1) p(1)]) (use True p in simp_all)
    ultimately show ?thesis using c True by simp
  next
    case False
    show ?thesis by (rule view_cong [OF ok(1) b refl valid_no [OF k]]) (use False valid_no [OF k] in auto)
  qed
  moreover have "CLN W xs ?L m" using ok(2) by (auto simp: clean_ok_def)
  ultimately show ?thesis using b by (auto simp: kept_def uses_def fun_eq_iff)
qed

text \<open>Getting a buffer: whatever the device does, readers of the cache see the same data.\<close>

lemma get_spec:
  assumes ok: "BOK W xs L" "CLN W xs L m" and m: "good m" and key: "valid key"
    and cnt: "\<And>a. a \<in> set xs \<Longrightarrow> uses L a + 1 \<noteq> 0"
  shows "\<exists>q L' m'. get_buffer st ld key wo L m = Some (q, L', m') \<and> good m' \<and> same_card m m' \<and>
     (q = NULL \<and> (card_healthy m \<longrightarrow> (\<forall>a\<in>set xs. uses L a \<noteq> 0)) \<and> kept W xs L m L' m' \<or>
      q \<in> set xs \<and> got W xs L m key wo q (q # remove1 q xs) L' m')"
proof (cases "find (\<lambda>a. nKey (buf L a) = key) xs")
  case (Some p)
  then have p: "p \<in> set xs" "nKey (buf L p) = key" by (auto dest: find_Some_in)
  obtain L1 where mv: "move_first p L = Some L1" "dll L1 (p # remove1 p xs)" "relinked L L1" "set (p # remove1 p xs) = set xs"
    using move_first_ok [OF ok(1) p(1)] by metis
  have "p \<noteq> NULL" using p(1) dll_NULL [OF buffers_ok_dll [OF ok(1)]] by blast
  then have run: "get_buffer st ld key wo L m = Some (p, upd p (\<lambda>x. x\<lparr>nUseCount := nUseCount x + 1\<rparr>) L1, m)"
    by (simp add: get_buffer_def scan_key [OF ok(1)] Some mv(1))
  show ?thesis using run got_hit [OF ok key p cnt [OF p(1)] mv(2-4)] p(1) m by auto
next
  case None
  then have new: "\<And>a. a \<in> set xs \<Longrightarrow> nKey (buf L a) \<noteq> key" by (auto simp: find_None_iff)
  have nn: "NULL \<notin> set xs" by (rule dll_NULL [OF buffers_ok_dll [OF ok(1)]])
  show ?thesis
  proof (cases "find (\<lambda>a. nKey (buf L a) = BUFFER_NOSECTOR) (rev xs)")
    case (Some p)
    then have p: "p \<in> set xs" "nKey (buf L p) = BUFFER_NOSECTOR" "p \<noteq> NULL" using nn by (auto dest: find_Some_in)
    have run: "get_buffer st ld key wo L m = fill_buffer ld key wo p L m"
      using p(3) by (simp add: get_buffer_def scan_key [OF ok(1)] None Some)
    show ?thesis unfolding run using fill_spec [OF ok m key p(1,2) new, of wo] p(1) by blast
  next
    case full: None
    then have occ: "\<And>a. a \<in> set xs \<Longrightarrow> nKey (buf L a) \<noteq> BUFFER_NOSECTOR" by (auto simp: find_None_iff)
    show ?thesis
    proof (cases "find (\<lambda>a. nUseCount (buf L a) = 0) (rev xs)")
      case None2: None
      then have "get_buffer st ld key wo L m = Some (NULL, L, m)"
        by (simp add: get_buffer_def scan_key [OF ok(1)] None full)
      moreover have "\<forall>a\<in>set xs. uses L a \<noteq> 0" using None2 by (auto simp: find_None_iff uses_def)
      ultimately show ?thesis using kept_refl [OF ok] m by auto
    next
      case (Some p)
      then have p: "p \<in> set xs" "nUseCount (buf L p) = 0" "p \<noteq> NULL" using nn by (auto dest: find_Some_in)
      note po = occ [OF p(1)]
      have pW: "p \<notin> W" using ok(1) p(2) by (auto simp: buffers_ok_def)
      obtain okk m1 where s: "(if bDirty (buf L p) then st (buf L p) m else Some (True, m)) = Some (okk, m1)"
        "good m1" "same_card m m1" "kept W xs L m L m1" "okk \<Longrightarrow> content m1 (nKey (buf L p)) = Data (buf L p)"
        "card_healthy m \<Longrightarrow> okk"
      proof (cases "bDirty (buf L p)")
        case True
        obtain okk m1 where "st (buf L p) m = Some (okk, m1)" "good m1" "same_card m m1" "kept W xs L m L m1"
          "okk \<Longrightarrow> content m1 (nKey (buf L p)) = Data (buf L p)" "card_healthy m \<Longrightarrow> okk"
          using store_frame [OF ok p(1) po True m] by metis
        then show thesis using True that [of okk m1] by simp
      next
        case False
        then have "Data (buf L p) = content m (nKey (buf L p))" using ok(2) p(1) pW po by (auto simp: clean_ok_def)
        with False kept_refl [OF ok] m show thesis using that [of True m] by simp
      qed
      let ?L = "upd p (\<lambda>x. x\<lparr>nKey := BUFFER_NOSECTOR\<rparr>) L"
      have run: "get_buffer st ld key wo L m =
          (if \<not> okk then Some (NULL, L, m1) else fill_buffer ld key wo p ?L m1)"
        using p(2,3) s(1) by (simp add: get_buffer_def scan_key [OF ok(1)] None full Some)
      show ?thesis
      proof (cases okk)
        case False
        then show ?thesis using run s by auto
      next
        case True
        have c1: "CLN W xs L m1" using s(4) by (simp add: kept_def)
        have k1: "kept W xs L m1 ?L m1" using evict_kept [OF ok(1) c1 p(1) po p(2) s(5) [OF True]] .
        have k: "kept W xs L m ?L m1" using kept_trans [OF s(4) k1] .
        have b2: "BOK W xs ?L" "CLN W xs ?L m1" using k1 by (simp_all add: kept_def)
        have new2: "\<And>a. a \<in> set xs \<Longrightarrow> nKey (buf ?L a) \<noteq> key" using new valid_no [OF key] by auto
        have p2: "nKey (buf ?L p) = BUFFER_NOSECTOR" by simp
        obtain q L' m' where F: "fill_buffer ld key wo p ?L m1 = Some (q, L', m')" "good m'" "same_card m1 m'"
          "q = NULL \<and> \<not> card_healthy m1 \<and> kept W xs ?L m1 L' m' \<or> q = p \<and> got W xs ?L m1 key wo p (p # remove1 p xs) L' m'"
          using fill_spec [OF b2 s(2) key p(1) p2 new2, of wo] by blast
        have "same_card m m'" using s(3) F(3) by (rule same_card_trans)
        moreover have "card_healthy m1 = card_healthy m" by (rule same_card_healthy [OF s(3)])
        moreover have "kept W xs ?L m1 L' m' \<Longrightarrow> kept W xs L m L' m'" using kept_trans [OF k] .
        moreover have "got W xs ?L m1 key wo p (p # remove1 p xs) L' m' \<Longrightarrow> got W xs L m key wo p (p # remove1 p xs) L' m'"
          using kept_got [OF k] key by blast
        ultimately show ?thesis using run True F p(1) by auto
      qed
    qed
  qed
qed

lemma write_data:
  assumes ok: "BOK W xs L" "CLN W xs L m" and p: "p \<in> set xs" "uses L p \<noteq> 0" and d: "length d = sz"
  defines "L' \<equiv> upd p (\<lambda>x. x\<lparr>Data := d\<rparr>) L"
  shows "BOK (insert p W) xs L'" "CLN (insert p W) xs L' m" "uses L' = uses L" "nKey (buf L' p) = nKey (buf L p)"
    "\<And>k. valid k \<Longrightarrow> VIEW L' xs m k = (if k = nKey (buf L p) then d else VIEW L xs m k)"
proof -
  have bp: "buffer_ok valid geo sz (buf L p)" by (rule buffers_okD(6) [OF ok(1) p(1)])
  show b: "BOK (insert p W) xs L'"
    unfolding L'_def using ok(1) p(1)
    by (rule buffers_ok_upd) (use bp d p(2) in \<open>auto simp: buffer_ok_def uses_def\<close>)
  show "CLN (insert p W) xs L' m" using ok(2) by (auto simp: clean_ok_def L'_def)
  show "uses L' = uses L" "nKey (buf L' p) = nKey (buf L p)" by (auto simp: uses_def L'_def fun_eq_iff)
  fix k
  assume k: "valid k"
  show "VIEW L' xs m k = (if k = nKey (buf L p) then d else VIEW L xs m k)"
  proof (cases "k = nKey (buf L p)")
    case True
    then have "VIEW L' xs m k = Data (buf L' p)"
      by (intro view_hit [OF b p(1) _ valid_no [OF k]]) (simp add: L'_def)
    with True show ?thesis by (simp add: L'_def)
  next
    case False
    have "VIEW L' xs m k = VIEW L xs m k"
      by (rule view_cong [OF ok(1) b refl valid_no [OF k]]) (use False in \<open>auto simp: L'_def\<close>)
    with False show ?thesis by simp
  qed
qed

lemma mark_spec:
  assumes ok: "BOK W xs L" "CLN W xs L m" and p: "p \<in> set xs" "uses L p \<noteq> 0"
  obtains L' where "mark_dirty p L = Some L'" "BOK (W - {p}) xs L'" "CLN (W - {p}) xs L' m" "uses L' = uses L"
    "nKey (buf L' p) = nKey (buf L p)" "Data (buf L' p) = Data (buf L p)" "\<And>k. valid k \<Longrightarrow> VIEW L' xs m k = VIEW L xs m k"
proof -
  let ?L = "upd p (\<lambda>x. x\<lparr>bDirty := True\<rparr>) L"
  note bp = buffers_okD [OF ok(1) p(1)]
  have nn: "p \<noteq> NULL" using p(1) dll_NULL [OF buffers_ok_dll [OF ok(1)]] by blast
  have b: "BOK (W - {p}) xs ?L"
    using ok(1) p(1) by (rule buffers_ok_upd) (use bp(6) in \<open>auto simp: buffer_ok_def\<close>)
  show thesis
  proof (rule that [of ?L])
    show "mark_dirty p L = Some ?L"
      using nn bp(1) p(2) by (simp add: mark_dirty_def uses_def word_gt_0)
    show "CLN (W - {p}) xs ?L m" using ok(2) by (auto simp: clean_ok_def)
    show "VIEW ?L xs m k = VIEW L xs m k" if "valid k" for k
      by (rule view_cong [OF ok(1) b refl valid_no [OF that]]) auto
  qed (use b in \<open>auto simp: uses_def fun_eq_iff\<close>)
qed

lemma free_ok:
  assumes ok: "BOK W xs L" "CLN W xs L m" and p: "p \<in> set xs" "uses L p \<noteq> 0" "p \<notin> W"
  obtains L' ys where "free_buffer p crit L = Some L'" "set ys = set xs" "BOK W ys L'" "CLN W ys L' m"
    "uses L' = (uses L)(p := uses L p - 1)" "\<And>k. valid k \<Longrightarrow> VIEW L' ys m k = VIEW L xs m k"
    "\<And>a. Data (buf L' a) = Data (buf L a)"
proof -
  let ?L = "upd p (\<lambda>x. x\<lparr>nUseCount := nUseCount x - 1\<rparr>) L"
  note bp = buffers_okD [OF ok(1) p(1)]
  have nn: "p \<noteq> NULL" using p(1) dll_NULL [OF buffers_ok_dll [OF ok(1)]] by blast
  have no: "nKey (buf L p) \<noteq> BUFFER_NOSECTOR" using bp(4) p(2) by (auto simp: uses_def)
  have b: "BOK W xs ?L"
    using ok(1) p(1) by (rule buffers_ok_upd) (use bp(6) no p(3) in \<open>auto simp: buffer_ok_def\<close>)
  have c: "CLN W xs ?L m" using ok(2) by (auto simp: clean_ok_def)
  have v: "VIEW ?L xs m k = VIEW L xs m k" if "valid k" for k
    by (rule view_cong [OF ok(1) b refl valid_no [OF that]]) auto
  have u: "uses ?L = (uses L)(p := uses L p - 1)" by (simp add: uses_def fun_eq_iff)
  have run: "free_buffer p crit L = (if nUseCount (buf ?L p) > 0 \<or> crit then Some ?L else move_last p ?L)"
    using nn bp(1) p(2) by (simp add: free_buffer_def uses_def word_gt_0)
  show thesis
  proof (cases "nUseCount (buf ?L p) > 0 \<or> crit")
    case True
    then show thesis using run b c v u by (intro that [of ?L xs]) auto
  next
    case False
    obtain L' where mv: "move_last p ?L = Some L'" "dll L' (remove1 p xs @ [p])" "relinked ?L L'"
      using move_last_spec [OF buffers_ok_dll [OF b] p(1)] by blast
    have s: "set (remove1 p xs @ [p]) = set xs" using p(1) ok(1) by (auto simp: buffers_ok_def dll_def)
    note r = relinked_fields [OF mv(3)]
    show thesis
    proof (rule that [of L' "remove1 p xs @ [p]"])
      show "free_buffer p crit L = Some L'" using run False mv(1) by simp
      show "BOK W (remove1 p xs @ [p]) L'" by (rule buffers_ok_relinked [OF b mv(3,2) s])
      show "CLN W (remove1 p xs @ [p]) L' m" by (rule clean_ok_relinked [OF c mv(3) s])
      show "uses L' = (uses L)(p := uses L p - 1)" using u r(3) by (simp add: uses_def fun_eq_iff)
      show "VIEW L' (remove1 p xs @ [p]) m k = VIEW L xs m k" if "valid k" for k
        using view_relinked [OF b mv(3,2) s valid_no [OF that]] v [OF that] by simp
      show "Data (buf L' a) = Data (buf L a)" for a using r(5) [of a] by simp
    qed (rule s)
  qed
qed

text \<open>Flushing on a device that works: every buffer is written back, and readers see the same data.\<close>

lemma flush_loop_spec:
  assumes "BOK W xs L" "CLN W xs L m" "good m" "card_healthy m"
    and "linked (\<lambda>a. bf_pNext (buf L a)) p zs" "set zs \<subseteq> set xs" "distinct zs"
  shows "\<exists>L' m'. flush_loop st p L m = Some (L', m') \<and> good m' \<and> same_card m m' \<and> kept W xs L m L' m' \<and>
     (\<forall>a\<in>set zs. nKey (buf L' a) \<noteq> BUFFER_NOSECTOR \<longrightarrow> \<not> bDirty (buf L' a)) \<and>
     (\<forall>a. buf L' a = buf L a \<or> a \<in> set zs \<and> buf L' a = (buf L a)\<lparr>bDirty := False\<rparr>) \<and> pFirst L' = pFirst L \<and> pLast L' = pLast L"
  using assms
proof (induction zs arbitrary: p L m)
  case Nil
  then show ?case by (subst flush_loop.simps) (auto intro: kept_refl)
next
  case (Cons a zs)
  have a: "p = a" "a \<noteq> NULL" "linked (\<lambda>a. bf_pNext (buf L a)) (bf_pNext (buf L a)) zs" "a \<in> set xs" "a \<notin> set zs"
    "distinct zs" "set zs \<subseteq> set xs"
    using Cons.prems(5-7) by auto
  note B = buffers_okD [OF Cons.prems(1) a(4)]
  show ?case
  proof (cases "nKey (buf L a) \<noteq> BUFFER_NOSECTOR \<and> bDirty (buf L a)")
    case False
    then have "flush_loop st p L m = flush_loop st (bf_pNext (buf L a)) L m"
      using a(1,2) B(1) by (subst flush_loop.simps) auto
    moreover obtain L' m' where "flush_loop st (bf_pNext (buf L a)) L m = Some (L', m')" "good m'" "same_card m m'"
      "kept W xs L m L' m'" "\<forall>a\<in>set zs. nKey (buf L' a) \<noteq> BUFFER_NOSECTOR \<longrightarrow> \<not> bDirty (buf L' a)"
      "\<forall>b. buf L' b = buf L b \<or> b \<in> set zs \<and> buf L' b = (buf L b)\<lparr>bDirty := False\<rparr>" "pFirst L' = pFirst L" "pLast L' = pLast L"
      using Cons.IH [OF Cons.prems(1-4) a(3,7,6)] by blast
    moreover have "buf L' a = buf L a" using calculation(7) a(5) by blast
    ultimately show ?thesis using False by auto
  next
    case True
    obtain okk m1 where s: "st (buf L a) m = Some (okk, m1)" "good m1" "same_card m m1" "kept W xs L m L m1"
      "okk \<Longrightarrow> content m1 (nKey (buf L a)) = Data (buf L a)" "card_healthy m \<Longrightarrow> okk"
      using store_frame [OF Cons.prems(1,2) a(4) _ _ Cons.prems(3)] True by metis
    have cm: "content m1 (nKey (buf L a)) = Data (buf L a)" using s(5,6) Cons.prems(4) by blast
    let ?L = "upd a (\<lambda>x. x\<lparr>bDirty := False\<rparr>) L"
    have run: "flush_loop st p L m = flush_loop st (bf_pNext (buf L a)) ?L m1"
      using a(1,2) B(1) s(1) True by (subst flush_loop.simps) simp
    have b: "BOK W xs ?L"
      using Cons.prems(1) a(4) by (rule buffers_ok_upd)
        (use B(6) Cons.prems(1) in \<open>auto simp: buffer_ok_def buffers_ok_def\<close>)
    have c: "CLN W xs ?L m1" using s(4) cm by (auto simp: kept_def clean_ok_def)
    have "VIEW ?L xs m1 k = VIEW L xs m1 k" if "valid k" for k
      by (rule view_cong [OF Cons.prems(1) b refl valid_no [OF that]]) auto
    then have "kept W xs L m1 ?L m1" using b c by (auto simp: kept_def uses_def fun_eq_iff)
    then have k1: "kept W xs L m ?L m1" using kept_trans [OF s(4)] by blast
    have h1: "card_healthy m1" using Cons.prems(4) same_card_healthy [OF s(3)] by simp
    have "(\<lambda>c. bf_pNext (buf ?L c)) = (\<lambda>c. bf_pNext (buf L c))" by auto
    then have l1: "linked (\<lambda>c. bf_pNext (buf ?L c)) (bf_pNext (buf L a)) zs" using a(3) by simp
    obtain L' m' where F: "flush_loop st (bf_pNext (buf L a)) ?L m1 = Some (L', m')" "good m'" "same_card m1 m'"
      "kept W xs ?L m1 L' m'" "\<forall>a\<in>set zs. nKey (buf L' a) \<noteq> BUFFER_NOSECTOR \<longrightarrow> \<not> bDirty (buf L' a)"
      "\<forall>b. buf L' b = buf ?L b \<or> b \<in> set zs \<and> buf L' b = (buf ?L b)\<lparr>bDirty := False\<rparr>" "pFirst L' = pFirst ?L" "pLast L' = pLast ?L"
      using Cons.IH [OF b c s(2) h1 l1 a(7,6)] by blast
    have "buf L' a = (buf L a)\<lparr>bDirty := False\<rparr>" using F(6) [rule_format, of a] a(5) by simp
    moreover have "\<forall>b. buf L' b = buf L b \<or> b \<in> set (a # zs) \<and> buf L' b = (buf L b)\<lparr>bDirty := False\<rparr>"
    proof
      fix b
      show "buf L' b = buf L b \<or> b \<in> set (a # zs) \<and> buf L' b = (buf L b)\<lparr>bDirty := False\<rparr>"
        using F(6) [rule_format, of b] by (cases "b = a") auto
    qed
    ultimately show ?thesis
      using run F kept_trans [OF k1 F(4)] same_card_trans [OF s(3) F(3)] by auto
  qed
qed

lemma flush_spec:
  assumes "BOK W xs L" "CLN W xs L m" "good m" "card_healthy m"
  obtains L' m' where "flush_loop st (pFirst L) L m = Some (L', m')" "good m'" "same_card m m'" "kept W xs L m L' m'"
    "\<And>a. a \<in> set xs \<Longrightarrow> nKey (buf L' a) \<noteq> BUFFER_NOSECTOR \<Longrightarrow> \<not> bDirty (buf L' a)"
proof -
  have "linked (\<lambda>a. bf_pNext (buf L a)) (pFirst L) xs" "distinct xs"
    using assms(1) by (simp_all add: buffers_ok_def dll_def)
  from flush_loop_spec [OF assms this(1) subset_refl this(2)] that show thesis by blast
qed

lemma flushed_content:
  assumes "kept {} xs L m L' m'" "\<And>a. a \<in> set xs \<Longrightarrow> nKey (buf L' a) \<noteq> BUFFER_NOSECTOR \<Longrightarrow> \<not> bDirty (buf L' a)" "valid k"
  shows "content m' k = VIEW L xs m k"
proof -
  have b: "BOK {} xs L'" "CLN {} xs L' m'" and v: "VIEW L' xs m' k = VIEW L xs m k" using assms(1,3) by (simp_all add: kept_def)
  have "VIEW L' xs m' k = content m' k"
    using b(1) valid_no [OF assms(3)]
    by (rule view_eqI) (use b(2) assms(2) valid_no [OF assms(3)] in \<open>auto simp: clean_ok_def\<close>)
  with v show ?thesis by simp
qed

end

section \<open>The two instances\<close>

definition sector_valid :: "TPartition \<Rightarrow> u32 \<Rightarrow> bool" where
  "sector_valid pt k \<longleftrightarrow> unat k < unat (m_nNumberOfSectors pt)"

definition sector_content :: "TPartition \<Rightarrow> mmc \<Rightarrow> u32 \<Rightarrow> u8 list" where
  "sector_content pt m k = blocks m (unat (m_nFirstSector pt) + unat k)"

definition sector_rng :: "TPartition \<Rightarrow> u32 \<Rightarrow> nat set" where
  "sector_rng pt k = {unat (m_nFirstSector pt) + unat k}"

lemma part_data_1: "part_data pt m k (Suc 0) = blocks m (unat (m_nFirstSector pt) + k)"
  by (simp add: part_data_def card_read_def)

interpretation sec: backing_store "sector_store pt" "sector_load pt" "sector_content pt" "sector_rng pt"
  "sector_valid pt" "\<lambda>_. True" 512 "part_ok pt" for pt :: TPartition
proof
  fix m and b :: TFATBuffer
  assume A: "part_ok pt m" "length (Data b) = 512" "sector_valid pt (nKey b)"
  have r: "unat (nKey b) + unat (1::u32) \<le> unat (m_nNumberOfSectors pt)" "length (Data b) = 512 * unat (1::u32)"
    using A by (simp_all add: sector_valid_def)
  obtain r1 d m1 where R: "PartitionRead pt (Data b) (nKey b) 1 m = Some (r1, d, m1)" "same_card m m1" "blocks m1 = blocks m"
    "length d = length (Data b)" "r1 = 1 \<longrightarrow> d = part_data pt m (unat (nKey b)) (unat (1::u32))" "card_healthy m \<longrightarrow> r1 = 1"
    using PartitionRead_spec [OF A(1) _ r] by auto
  have "card_ok m1" using A(1) R(2,3) by (auto simp: part_ok_def intro: same_blocks_ok)
  with R A(2) part_ok_same [OF A(1) R(2)]
  show "\<exists>ok d m'. sector_load pt b m = Some (ok, d, m') \<and> part_ok pt m' \<and> same_card m m' \<and> blocks m' = blocks m \<and>
      length d = 512 \<and> (ok \<longrightarrow> d = sector_content pt m (nKey b)) \<and> (card_healthy m \<longrightarrow> ok)"
    by (auto simp: sector_load_def sector_content_def part_data_1)
  obtain r2 m2 where W: "PartitionWrite pt (nKey b) 1 (Data b) m = Some (r2, m2)" "part_ok pt m2" "same_card m m2"
    "\<forall>i. i < unat (m_nFirstSector pt) + unat (nKey b) \<or> unat (m_nFirstSector pt) + unat (nKey b) + 1 \<le> i \<longrightarrow> blocks m2 i = blocks m i"
    "r2 = 1 \<longrightarrow> blocks m2 = put_blocks (unat (m_nFirstSector pt) + unat (nKey b)) 1 (Data b) (blocks m)" "card_healthy m \<longrightarrow> r2 = 1"
    using PartitionWrite_spec [OF A(1) _ r] by auto
  have "blocks m2 i = blocks m i" if "i \<notin> sector_rng pt (nKey b)" for i
    using W(4) that by (auto simp: sector_rng_def) (metis linorder_neqE_nat less_eq_Suc_le)
  moreover have "sector_content pt m2 (nKey b) = Data b" if "r2 = 1"
    using W(5) that A(2) by (simp add: sector_content_def put_blocks_def)
  ultimately show "\<exists>ok m'. sector_store pt b m = Some (ok, m') \<and> part_ok pt m' \<and> same_card m m' \<and>
      (\<forall>i. i \<notin> sector_rng pt (nKey b) \<longrightarrow> blocks m' i = blocks m i) \<and>
      (ok \<longrightarrow> sector_content pt m' (nKey b) = Data b) \<and> (card_healthy m \<longrightarrow> ok)"
    using W by (auto simp: sector_store_def)
next
  show "sector_content pt m' k = sector_content pt m k" if "\<And>i. i \<in> sector_rng pt k \<Longrightarrow> blocks m' i = blocks m i" for m m' k
    using that by (simp add: sector_content_def sector_rng_def)
  show "sector_rng pt j \<inter> sector_rng pt k = {}" if "j \<noteq> k" for j k
    using that by (auto simp: sector_rng_def word_unat_eq_iff)
  show "\<not> sector_valid pt BUFFER_NOSECTOR"
    using unat_u32_less [of "m_nNumberOfSectors pt"] by (simp add: sector_valid_def BUFFER_NOSECTOR_def)
  show "length (sector_content pt m k) = 512" if "part_ok pt m" for m k
    using that by (simp add: sector_content_def part_ok_def card_ok_def)
qed

definition cluster_valid :: "nat \<Rightarrow> u32 \<Rightarrow> bool" where
  "cluster_valid n k \<longleftrightarrow> 2 \<le> unat k \<and> unat k < n + 2 \<and> k \<noteq> BUFFER_NOSECTOR"

definition cluster_pos :: "u32 \<Rightarrow> u32 \<Rightarrow> u32 \<Rightarrow> nat" where
  "cluster_pos spc fds k = unat fds + (unat k - 2) * unat spc"

definition cluster_content :: "TPartition \<Rightarrow> u32 \<Rightarrow> u32 \<Rightarrow> mmc \<Rightarrow> u32 \<Rightarrow> u8 list" where
  "cluster_content pt spc fds m k = part_data pt m (cluster_pos spc fds k) (unat spc)"

definition cluster_rng :: "TPartition \<Rightarrow> u32 \<Rightarrow> u32 \<Rightarrow> u32 \<Rightarrow> nat set" where
  "cluster_rng pt spc fds k = (let a = unat (m_nFirstSector pt) + cluster_pos spc fds k in {a ..< a + unat spc})"

definition cluster_geo :: "u32 \<Rightarrow> u32 \<Rightarrow> unit TFATClusterBuffer_ext \<Rightarrow> bool" where
  "cluster_geo spc fds e \<longleftrightarrow> (\<exists>q. q \<noteq> NULL \<and> e = TFATClusterBuffer.fields spc fds q)"

definition cluster_good :: "TPartition \<Rightarrow> u32 \<Rightarrow> u32 \<Rightarrow> nat \<Rightarrow> mmc \<Rightarrow> bool" where
  "cluster_good pt spc fds n m \<longleftrightarrow> part_ok pt m \<and> 0 < spc \<and> unat fds + n * unat spc \<le> unat (m_nNumberOfSectors pt)"

lemma cluster_geoD:
  fixes b :: TFATClusterBuffer
  assumes "cluster_geo spc fds (TFATBuffer.more b)"
  shows "nSectorNumPerCluster b = spc" "cb_nFirstDataSector b = fds" "pBuf b \<noteq> NULL"
  using assms by (cases b; auto simp: cluster_geo_def TFATClusterBuffer.fields_def)+

lemma cluster_start_pos:
  assumes "cluster_geo spc fds (TFATBuffer.more b)" "cluster_valid n (nKey b)"
    "unat fds + n * unat spc \<le> unat (m_nNumberOfSectors pt)"
  shows "unat (cluster_start b) = cluster_pos spc fds (nKey b)"
    "unat (cluster_start b) + unat spc \<le> unat (m_nNumberOfSectors pt)"
proof -
  let ?k = "unat (nKey b) - 2"
  have k: "Suc ?k \<le> n" "2 \<le> unat (nKey b)" using assms(2) by (auto simp: cluster_valid_def)
  have u: "unat (nKey b - 2) = ?k" using k(2) by (subst unat_sub_no_wrap) simp_all
  have "Suc ?k * unat spc \<le> n * unat spc" using k(1) by (intro mult_le_mono1)
  then have le: "unat fds + ?k * unat spc + unat spc \<le> unat (m_nNumberOfSectors pt)" using assms(3) by simp
  then have lt: "unat fds + ?k * unat spc < 2 ^ 32" if "0 < unat spc"
    using unat_u32_less [of "m_nNumberOfSectors pt"] that by linarith
  have lt': "unat fds + ?k * unat spc < 2 ^ 32"
  proof (cases "unat spc = 0")
    case True
    then show ?thesis using unat_u32_less [of fds] by simp
  qed (use lt in simp)
  have m: "unat ((nKey b - 2) * spc) = ?k * unat spc"
    using lt' by (simp add: unat_word_ariths u)
  show p: "unat (cluster_start b) = cluster_pos spc fds (nKey b)"
    using lt' unfolding cluster_start_def cluster_geoD [OF assms(1)] cluster_pos_def
    by (subst unat_add_no_wrap) (simp_all add: m)
  show "unat (cluster_start b) + unat spc \<le> unat (m_nNumberOfSectors pt)"
    using le by (simp add: p cluster_pos_def)
qed

lemma part_data_put:
  assumes "length d = 512 * n" "blocks m' = put_blocks (unat (m_nFirstSector pt) + s) n d (blocks m)"
  shows "part_data pt m' s n = d"
proof -
  let ?b = "unat (m_nFirstSector pt) + s"
  have "concat (map (put_blocks ?b n d (blocks m)) [?b ..< ?b + j]) = take (512 * j) d" if "j \<le> n" for j
    using that
  proof (induction j)
    case 0
    then show ?case by simp
  next
    case (Suc j)
    then have "512 * Suc j \<le> length d" using assms(1) by simp
    have "put_blocks ?b n d (blocks m) (?b + j) = take 512 (drop (512 * j) d)" using Suc.prems by (simp add: put_blocks_def)
    moreover have "take (512 * Suc j) d = take (512 * j) d @ take 512 (drop (512 * j) d)"
      by (simp add: take_add [symmetric] add.commute)
    ultimately show ?case using Suc by simp
  qed
  from this [of n] show ?thesis using assms by (simp add: part_data_def card_read_def)
qed

interpretation clu: backing_store "cluster_store pt" "cluster_load pt" "cluster_content pt spc fds" "cluster_rng pt spc fds"
  "cluster_valid n" "cluster_geo spc fds" "512 * unat spc" "cluster_good pt spc fds n" for pt :: TPartition and spc fds n
proof
  fix m and b :: TFATClusterBuffer
  assume A: "cluster_good pt spc fds n m" "cluster_geo spc fds (TFATBuffer.more b)" "length (Data b) = 512 * unat spc"
    "cluster_valid n (nKey b)"
  have po: "part_ok pt m" "0 < spc" "unat fds + n * unat spc \<le> unat (m_nNumberOfSectors pt)"
    using A(1) by (simp_all add: cluster_good_def)
  note S = cluster_start_pos [OF A(2,4) po(3)] and G = cluster_geoD [OF A(2)]
  have k2: "2 \<le> unat (nKey b)" using A(4) by (simp add: cluster_valid_def)
  obtain r1 d m1 where R: "PartitionRead pt (Data b) (cluster_start b) spc m = Some (r1, d, m1)" "same_card m m1" "blocks m1 = blocks m"
    "length d = length (Data b)" "r1 = spc \<longrightarrow> d = part_data pt m (unat (cluster_start b)) (unat spc)" "card_healthy m \<longrightarrow> r1 = spc"
    using PartitionRead_spec [OF po(1,2) S(2) A(3)] by auto
  have "card_ok m1" using po(1) R(2,3) by (auto simp: part_ok_def intro: same_blocks_ok)
  then have "cluster_good pt spc fds n m1" using po part_ok_same [OF po(1) R(2)] by (simp add: cluster_good_def)
  then show "\<exists>ok d m'. cluster_load pt b m = Some (ok, d, m') \<and> cluster_good pt spc fds n m' \<and> same_card m m' \<and>
      blocks m' = blocks m \<and> length d = 512 * unat spc \<and>
      (ok \<longrightarrow> d = cluster_content pt spc fds m (nKey b)) \<and> (card_healthy m \<longrightarrow> ok)"
    using R A(3) G S(1) by (auto simp: cluster_load_def cluster_content_def)
  obtain r2 m2 where W: "PartitionWrite pt (cluster_start b) spc (Data b) m = Some (r2, m2)" "part_ok pt m2" "same_card m m2"
    "\<forall>i. i < unat (m_nFirstSector pt) + unat (cluster_start b) \<or>
       unat (m_nFirstSector pt) + unat (cluster_start b) + unat spc \<le> i \<longrightarrow> blocks m2 i = blocks m i"
    "r2 = spc \<longrightarrow> blocks m2 = put_blocks (unat (m_nFirstSector pt) + unat (cluster_start b)) (unat spc) (Data b) (blocks m)"
    "card_healthy m \<longrightarrow> r2 = spc"
    using PartitionWrite_spec [OF po(1,2) S(2) A(3)] by auto
  have "blocks m2 i = blocks m i" if "i \<notin> cluster_rng pt spc fds (nKey b)" for i
    using W(4) that unfolding S(1) cluster_rng_def Let_def by (auto simp: not_less)
  moreover have "cluster_content pt spc fds m2 (nKey b) = Data b" if "r2 = spc"
    using part_data_put [OF A(3), of m2 pt "cluster_pos spc fds (nKey b)" m] W(5) that
    by (simp add: cluster_content_def S(1))
  moreover have "cluster_good pt spc fds n m2" using W(2) po by (simp add: cluster_good_def)
  ultimately show "\<exists>ok m'. cluster_store pt b m = Some (ok, m') \<and> cluster_good pt spc fds n m' \<and> same_card m m' \<and>
      (\<forall>i. i \<notin> cluster_rng pt spc fds (nKey b) \<longrightarrow> blocks m' i = blocks m i) \<and>
      (ok \<longrightarrow> cluster_content pt spc fds m' (nKey b) = Data b) \<and> (card_healthy m \<longrightarrow> ok)"
    using W G by (auto simp: cluster_store_def)
next
  show "cluster_content pt spc fds m' k = cluster_content pt spc fds m k"
    if "\<And>i. i \<in> cluster_rng pt spc fds k \<Longrightarrow> blocks m' i = blocks m i" for m m' k
    using that unfolding cluster_content_def part_data_def card_read_def cluster_rng_def Let_def
    by (intro arg_cong [where f = concat] map_cong) (auto simp: add.assoc)
  show "cluster_rng pt spc fds j \<inter> cluster_rng pt spc fds k = {}"
    if "cluster_valid n j" "cluster_valid n k" "j \<noteq> k" for j k
  proof -
    have ne: "unat j - 2 \<noteq> unat k - 2" using that by (auto simp: cluster_valid_def word_unat_eq_iff)
    have "Suc (unat j - 2) * unat spc \<le> (unat k - 2) * unat spc \<or> Suc (unat k - 2) * unat spc \<le> (unat j - 2) * unat spc"
      using ne by (metis linorder_neqE_nat Suc_leI mult_le_mono1)
    then show ?thesis by (auto simp: cluster_rng_def cluster_pos_def Let_def)
  qed
  show "\<not> cluster_valid n BUFFER_NOSECTOR" by (simp add: cluster_valid_def)
  show "length (cluster_content pt spc fds m k) = 512 * unat spc" if "cluster_good pt spc fds n m" for m k
    using that by (simp add: cluster_content_def part_data_def length_card_read cluster_good_def part_ok_def)
qed

section \<open>The sector cache of a file system\<close>

definition sector_bufs :: "TFatCache \<Rightarrow> ptr list" where
  "sector_bufs c = map (elem_at (m_pBufferMem c) sizeof_TFATBuffer) [0 ..< FAT_BUFFERS]"

abbreviation "sbufs s \<equiv> sector_bufs (m_Cache s)"
abbreviation "sbuf s \<equiv> buf (m_BufferList (m_Cache s))"
abbreviation "cbuf s \<equiv> buf (m_ClusterBufList (m_Cache s))"

definition svalid :: "'a fat_state_scheme \<Rightarrow> u32 \<Rightarrow> bool" where
  "svalid s k = (case m_pPartition (m_Cache s) of None \<Rightarrow> False | Some pt \<Rightarrow> sector_valid pt k)"

definition scontent :: "'a fat_state_scheme \<Rightarrow> u32 \<Rightarrow> u8 list" where
  "scontent s k = (case m_pPartition (m_Cache s) of None \<Rightarrow> [] | Some pt \<Rightarrow> sector_content pt (mmc_dev s) k)"

text \<open>The sectors of the partition as the clients of the cache see them.\<close>

definition sview :: "'a fat_state_scheme \<Rightarrow> u32 \<Rightarrow> u8 list" where
  "sview s k = (case cached (m_BufferList (m_Cache s)) (sbufs s) k of
     Some a \<Rightarrow> Data (sbuf s a) | None \<Rightarrow> scontent s k)"

definition suses :: "'a fat_state_scheme \<Rightarrow> ptr \<Rightarrow> u32" where
  "suses s = uses (m_BufferList (m_Cache s))"

definition sec_inv :: "ptr set \<Rightarrow> 'a fat_state_scheme \<Rightarrow> bool" where
  "sec_inv W s \<longleftrightarrow> (\<exists>pt xs. m_pPartition (m_Cache s) = Some pt \<and> set xs = set (sbufs s) \<and>
     buffers_ok (sector_valid pt) (\<lambda>_. True) 512 W xs (m_BufferList (m_Cache s)) \<and>
     clean_ok (sector_content pt) W xs (m_BufferList (m_Cache s)) (mmc_dev s) \<and> part_ok pt (mmc_dev s))"

text \<open>What the operations on sectors leave alone.\<close>

definition same_rest :: "'a fat_state_scheme \<Rightarrow> 'a fat_state_scheme \<Rightarrow> bool" where
  "same_rest s s' \<longleftrightarrow> m_pPartition (m_Cache s') = m_pPartition (m_Cache s) \<and> m_pBufferMem (m_Cache s') = m_pBufferMem (m_Cache s) \<and>
     m_pClusterBufferMem (m_Cache s') = m_pClusterBufferMem (m_Cache s) \<and>
     m_ClusterBufList (m_Cache s') = m_ClusterBufList (m_Cache s) \<and> mem s' = mem s \<and> fat_state.more s' = fat_state.more s \<and>
     same_card (mmc_dev s) (mmc_dev s')"

lemma same_rest_refl [simp]: "same_rest s s"
  by (simp add: same_rest_def)

lemma same_rest_trans [trans]: "same_rest s t \<Longrightarrow> same_rest t u \<Longrightarrow> same_rest s u"
  by (auto simp: same_rest_def intro: same_card_trans)

lemma same_rest_set: "same_card (mmc_dev s) m \<Longrightarrow> same_rest s (set_sectors L m s)"
  by (simp add: same_rest_def)

lemma same_restD:
  assumes "same_rest s s'"
  shows "sbufs s' = sbufs s" "svalid s' = svalid s" "fat_state.more s' = fat_state.more s" "mem s' = mem s"
    "card_healthy (mmc_dev s') = card_healthy (mmc_dev s)"
  using assms by (auto simp: same_rest_def sector_bufs_def svalid_def fun_eq_iff same_card_healthy)

lemma cached_set:
  assumes "buffers_ok valid geo sz W xs L" "set ys = set xs" "k \<noteq> BUFFER_NOSECTOR"
  shows "cached L ys k = cached L xs k"
proof (cases "cached L xs k")
  case None
  then have "cached L ys k = None" using assms(2) by (simp add: cached_def find_None_iff)
  with None show ?thesis by simp
next
  case (Some a)
  then have a: "a \<in> set xs" "nKey (buf L a) = k" using cached_iff [OF assms(1,3)] by blast+
  have "cached L ys k = Some a"
    unfolding cached_def by (rule find_unique) (use a assms in \<open>auto simp: buffers_ok_def unique_keys_def\<close>)
  with Some show ?thesis by simp
qed

lemma sview_view:
  assumes "m_pPartition (m_Cache s) = Some pt" "set xs = set (sbufs s)"
    "buffers_ok (sector_valid pt) g n W xs (m_BufferList (m_Cache s))" "sector_valid pt k"
  shows "sview s k = view (sector_content pt) (m_BufferList (m_Cache s)) xs (mmc_dev s) k"
  using cached_set [OF assms(3) assms(2) [symmetric] sec.valid_no [OF assms(4)]] assms(1)
  by (simp add: sview_def view_def scontent_def split: option.split)

lemma get_sector:
  assumes "sec_inv W s" "svalid s k" and cnt: "\<forall>a\<in>set (sbufs s). suses s a + 1 \<noteq> 0"
  shows "\<exists>p s'. FATCacheGetSector k wo s = Some (p, s') \<and> same_rest s s' \<and>
     (p = NULL \<and> (card_healthy (mmc_dev s) \<longrightarrow> (\<forall>a\<in>set (sbufs s). suses s a \<noteq> 0)) \<and> sec_inv W s' \<and> suses s' = suses s \<and>
        (\<forall>j. svalid s j \<longrightarrow> sview s' j = sview s j) \<or>
      p \<noteq> NULL \<and> p \<in> set (sbufs s) \<and> sec_inv (if wo then insert p W else W) s' \<and> nKey (sbuf s' p) = k \<and>
        suses s' = (suses s)(p := suses s p + 1) \<and> sview s' k = Data (sbuf s' p) \<and> length (Data (sbuf s' p)) = 512 \<and>
        (\<forall>j. svalid s j \<longrightarrow> (wo \<longrightarrow> j \<noteq> k) \<longrightarrow> sview s' j = sview s j))"
proof -
  let ?L = "m_BufferList (m_Cache s)" and ?m = "mmc_dev s"
  obtain pt xs where I: "m_pPartition (m_Cache s) = Some pt" "set xs = set (sbufs s)"
    "buffers_ok (sector_valid pt) (\<lambda>_. True) 512 W xs ?L" "clean_ok (sector_content pt) W xs ?L ?m" "part_ok pt ?m"
    using assms(1) unfolding sec_inv_def by blast
  have k: "sector_valid pt k" using assms(2) I(1) by (simp add: svalid_def)
  have c: "\<And>a. a \<in> set xs \<Longrightarrow> uses ?L a + 1 \<noteq> 0" using cnt I(2) by (simp add: suses_def)
  obtain q L' m' where G: "get_buffer (sector_store pt) (sector_load pt) k wo ?L ?m = Some (q, L', m')" "part_ok pt m'"
    "same_card ?m m'"
    "q = NULL \<and> (card_healthy ?m \<longrightarrow> (\<forall>a\<in>set xs. uses ?L a \<noteq> 0)) \<and> sec.kept pt W xs ?L ?m L' m' \<or>
     q \<in> set xs \<and> sec.got pt W xs ?L ?m k wo q (q # remove1 q xs) L' m'"
    using sec.get_spec [OF I(3,4,5) k c, of wo] by blast
  let ?s = "set_sectors L' m' s"
  have run: "FATCacheGetSector k wo s = Some (q, ?s)" by (simp add: FATCacheGetSector_def I(1) G(1))
  have rest: "same_rest s ?s" by (rule same_rest_set [OF G(3)])
  have s': "m_pPartition (m_Cache ?s) = Some pt" "sbufs ?s = sbufs s" "suses ?s = uses L'"
    by (simp_all add: I(1) sector_bufs_def suses_def)
  have sv: "svalid s j \<longleftrightarrow> sector_valid pt j" for j by (simp add: svalid_def I(1))
  show ?thesis
  proof (cases "q \<in> set xs \<and> sec.got pt W xs ?L ?m k wo q (q # remove1 q xs) L' m'")
    case False
    then have K: "q = NULL" "card_healthy ?m \<longrightarrow> (\<forall>a\<in>set xs. uses ?L a \<noteq> 0)" "sec.kept pt W xs ?L ?m L' m'" using G(4) by blast+
    then have B: "buffers_ok (sector_valid pt) (\<lambda>_. True) 512 W xs L'" "clean_ok (sector_content pt) W xs L' m'"
      "uses L' = uses ?L" "\<And>j. sector_valid pt j \<Longrightarrow> view (sector_content pt) L' xs m' j = view (sector_content pt) ?L xs ?m j"
      by (simp_all add: sec.kept_def)
    have "sec_inv W ?s" unfolding sec_inv_def using s' B(1,2) G(2) I(2) by (intro exI [of _ pt] exI [of _ xs]) simp
    moreover have "sview ?s j = sview s j" if "svalid s j" for j
      using that B(1,4) I s' sv by (simp add: sview_view [of _ pt xs])
    ultimately show ?thesis using run rest K(1,2) B(3) I(2) by (auto simp: suses_def)
  next
    case True
    let ?ys = "q # remove1 q xs" and ?W = "if wo then insert q W else W"
    have B: "buffers_ok (sector_valid pt) (\<lambda>_. True) 512 ?W ?ys L'" "clean_ok (sector_content pt) ?W ?ys L' m'"
      "set ?ys = set xs" "nKey (buf L' q) = k" "uses L' = (uses ?L)(q := uses ?L q + 1)"
      "\<And>j. sector_valid pt j \<Longrightarrow> (wo \<longrightarrow> j \<noteq> k) \<Longrightarrow> view (sector_content pt) L' ?ys m' j = view (sector_content pt) ?L xs ?m j"
      using True unfolding sec.got_def by auto
    have inv: "sec_inv ?W ?s" unfolding sec_inv_def using s' B(1-3) G(2) I(2) by (intro exI [of _ pt] exI [of _ ?ys]) simp
    have sv': "sview ?s j = view (sector_content pt) L' ?ys m' j" if "sector_valid pt j" for j
      using that B(1,3) I(1,2) s' sview_view [of ?s pt ?ys _ _ ?W j] by simp
    have "sview ?s j = sview s j" if "svalid s j" "wo \<longrightarrow> j \<noteq> k" for j
      using that sv sv' B(6) sview_view [OF I(1,2,3)] by simp
    moreover have "sview ?s k = Data (buf L' q)"
      using sv' [OF k] view_hit [OF B(1) _ B(4) sec.valid_no [OF k]] by simp
    moreover have "length (Data (buf L' q)) = 512" using buffers_okD(3) [OF B(1), of q] by simp
    moreover have "q \<noteq> NULL" using True dll_NULL [OF buffers_ok_dll [OF I(3)]] by blast
    ultimately show ?thesis using run rest True I(2) B(4,5) inv by (auto simp: suses_def)
  qed
qed


lemma sec_invE:
  assumes "sec_inv W s"
  obtains pt xs where "m_pPartition (m_Cache s) = Some pt" "set xs = set (sbufs s)"
    "buffers_ok (sector_valid pt) (\<lambda>_. True) 512 W xs (m_BufferList (m_Cache s))"
    "clean_ok (sector_content pt) W xs (m_BufferList (m_Cache s)) (mmc_dev s)" "part_ok pt (mmc_dev s)"
  using assms unfolding sec_inv_def by blast

text \<open>Storing into the data of a buffer, and releasing and marking one.\<close>

definition set_data :: "ptr \<Rightarrow> u8 list \<Rightarrow> 'a fat_state_scheme \<Rightarrow> 'a fat_state_scheme" where
  "set_data p d s = set_sectors (upd p (\<lambda>x. x\<lparr>Data := d\<rparr>) (m_BufferList (m_Cache s))) (mmc_dev s) s"

lemma set_data_spec:
  assumes "sec_inv W s" "p \<in> set (sbufs s)" "suses s p \<noteq> 0" "length d = 512"
  shows "sec_inv (insert p W) (set_data p d s)" "same_rest s (set_data p d s)" "suses (set_data p d s) = suses s"
    "nKey (sbuf (set_data p d s) p) = nKey (sbuf s p)" "Data (sbuf (set_data p d s) p) = d"
    "svalid s k \<Longrightarrow> sview (set_data p d s) k = (if k = nKey (sbuf s p) then d else sview s k)"
proof -
  obtain pt xs where I: "m_pPartition (m_Cache s) = Some pt" "set xs = set (sbufs s)"
    "buffers_ok (sector_valid pt) (\<lambda>_. True) 512 W xs (m_BufferList (m_Cache s))"
    "clean_ok (sector_content pt) W xs (m_BufferList (m_Cache s)) (mmc_dev s)" "part_ok pt (mmc_dev s)"
    using assms(1) by (rule sec_invE)
  have p: "p \<in> set xs" "uses (m_BufferList (m_Cache s)) p \<noteq> 0" using assms(2,3) I(2) by (simp_all add: suses_def)
  note D = sec.write_data [OF I(3,4) p assms(4)]
  have b: "sbufs (set_data p d s) = sbufs s" by (simp add: set_data_def sector_bufs_def)
  show "sec_inv (insert p W) (set_data p d s)"
    unfolding sec_inv_def using D(1,2) I b by (intro exI [of _ pt] exI [of _ xs]) (simp add: set_data_def)
  show "same_rest s (set_data p d s)" by (simp add: set_data_def same_rest_def)
  show "suses (set_data p d s) = suses s" using D(3) by (simp add: suses_def set_data_def)
  show "nKey (sbuf (set_data p d s) p) = nKey (sbuf s p)" "Data (sbuf (set_data p d s) p) = d"
    by (simp_all add: set_data_def)
  show "sview (set_data p d s) k = (if k = nKey (sbuf s p) then d else sview s k)" if "svalid s k"
  proof -
    have k: "sector_valid pt k" using that I(1) by (simp add: svalid_def)
    show ?thesis
      using D(5) [OF k] D(1) k sview_view [OF I(1-3) k] I(1,2) b sview_view [of "set_data p d s" pt xs _ _ "insert p W" k]
      by (simp add: set_data_def)
  qed
qed

lemma mark_sector:
  assumes "sec_inv W s" "p \<in> set (sbufs s)" "suses s p \<noteq> 0"
  obtains s' where "FATCacheMarkDirty p s = Some s'" "sec_inv (W - {p}) s'" "same_rest s s'" "suses s' = suses s"
    "nKey (sbuf s' p) = nKey (sbuf s p)" "Data (sbuf s' p) = Data (sbuf s p)" "\<And>k. svalid s k \<Longrightarrow> sview s' k = sview s k"
proof -
  obtain pt xs where I: "m_pPartition (m_Cache s) = Some pt" "set xs = set (sbufs s)"
    "buffers_ok (sector_valid pt) (\<lambda>_. True) 512 W xs (m_BufferList (m_Cache s))"
    "clean_ok (sector_content pt) W xs (m_BufferList (m_Cache s)) (mmc_dev s)" "part_ok pt (mmc_dev s)"
    using assms(1) by (rule sec_invE)
  have p: "p \<in> set xs" "uses (m_BufferList (m_Cache s)) p \<noteq> 0" using assms(2,3) I(2) by (simp_all add: suses_def)
  obtain L' where M: "mark_dirty p (m_BufferList (m_Cache s)) = Some L'"
    "buffers_ok (sector_valid pt) (\<lambda>_. True) 512 (W - {p}) xs L'" "clean_ok (sector_content pt) (W - {p}) xs L' (mmc_dev s)"
    "uses L' = uses (m_BufferList (m_Cache s))" "nKey (buf L' p) = nKey (sbuf s p)" "Data (buf L' p) = Data (sbuf s p)"
    "\<And>k. sector_valid pt k \<Longrightarrow> view (sector_content pt) L' xs (mmc_dev s) k = view (sector_content pt) (m_BufferList (m_Cache s)) xs (mmc_dev s) k"
    using sec.mark_spec [OF I(3,4) p] by metis
  let ?s = "set_sectors L' (mmc_dev s) s"
  have b: "sbufs ?s = sbufs s" by (simp add: sector_bufs_def)
  show thesis
  proof (rule that [of ?s])
    show "FATCacheMarkDirty p s = Some ?s" by (simp add: FATCacheMarkDirty_def M(1))
    show "sec_inv (W - {p}) ?s"
      unfolding sec_inv_def using M I b by (intro exI [of _ pt] exI [of _ xs]) simp
    show "sview ?s k = sview s k" if "svalid s k" for k
      using that M(2,7) sview_view [OF I(1-3)] I(1,2) b sview_view [of ?s pt xs _ _ "W - {p}" k] by (simp add: svalid_def)
  qed (use M in \<open>simp_all add: same_rest_def suses_def\<close>)
qed

lemma free_sector:
  assumes "sec_inv W s" "p \<in> set (sbufs s)" "suses s p \<noteq> 0" "p \<notin> W"
  obtains s' where "FATCacheFreeSector p crit s = Some s'" "sec_inv W s'" "same_rest s s'"
    "suses s' = (suses s)(p := suses s p - 1)" "\<And>k. svalid s k \<Longrightarrow> sview s' k = sview s k"
proof -
  obtain pt xs where I: "m_pPartition (m_Cache s) = Some pt" "set xs = set (sbufs s)"
    "buffers_ok (sector_valid pt) (\<lambda>_. True) 512 W xs (m_BufferList (m_Cache s))"
    "clean_ok (sector_content pt) W xs (m_BufferList (m_Cache s)) (mmc_dev s)" "part_ok pt (mmc_dev s)"
    using assms(1) by (rule sec_invE)
  have p: "p \<in> set xs" "uses (m_BufferList (m_Cache s)) p \<noteq> 0" using assms(2,3) I(2) by (simp_all add: suses_def)
  obtain L' ys where F: "free_buffer p crit (m_BufferList (m_Cache s)) = Some L'" "set ys = set xs"
    "buffers_ok (sector_valid pt) (\<lambda>_. True) 512 W ys L'" "clean_ok (sector_content pt) W ys L' (mmc_dev s)"
    "uses L' = (uses (m_BufferList (m_Cache s)))(p := uses (m_BufferList (m_Cache s)) p - 1)"
    "\<And>k. sector_valid pt k \<Longrightarrow> view (sector_content pt) L' ys (mmc_dev s) k = view (sector_content pt) (m_BufferList (m_Cache s)) xs (mmc_dev s) k"
    using sec.free_ok [OF I(3,4) p assms(4)] by metis
  let ?s = "set_sectors L' (mmc_dev s) s"
  have b: "sbufs ?s = sbufs s" by (simp add: sector_bufs_def)
  show thesis
  proof (rule that [of ?s])
    show "FATCacheFreeSector p crit s = Some ?s" by (simp add: FATCacheFreeSector_def F(1))
    show "sec_inv W ?s"
      unfolding sec_inv_def using F I b by (intro exI [of _ pt] exI [of _ ys]) simp
    show "sview ?s k = sview s k" if "svalid s k" for k
      using that F(2,3,6) sview_view [OF I(1-3)] I(1,2) b sview_view [of ?s pt ys _ _ W k] by (simp add: svalid_def)
  qed (use F in \<open>simp_all add: same_rest_def suses_def\<close>)
qed

lemma flush_sectors:
  assumes "sec_inv {} s" "card_healthy (mmc_dev s)"
  obtains s' where "FATCacheFlush s = Some s'" "sec_inv {} s'" "same_rest s s'" "suses s' = suses s"
    "\<And>k. svalid s k \<Longrightarrow> sview s' k = sview s k \<and> scontent s' k = sview s k"
proof -
  obtain pt xs where I: "m_pPartition (m_Cache s) = Some pt" "set xs = set (sbufs s)"
    "buffers_ok (sector_valid pt) (\<lambda>_. True) 512 {} xs (m_BufferList (m_Cache s))"
    "clean_ok (sector_content pt) {} xs (m_BufferList (m_Cache s)) (mmc_dev s)" "part_ok pt (mmc_dev s)"
    using assms(1) by (rule sec_invE)
  obtain L' m' where F: "flush_loop (sector_store pt) (pFirst (m_BufferList (m_Cache s))) (m_BufferList (m_Cache s)) (mmc_dev s) = Some (L', m')"
    "part_ok pt m'" "same_card (mmc_dev s) m'" "sec.kept pt {} xs (m_BufferList (m_Cache s)) (mmc_dev s) L' m'"
    "\<And>a. a \<in> set xs \<Longrightarrow> nKey (buf L' a) \<noteq> BUFFER_NOSECTOR \<Longrightarrow> \<not> bDirty (buf L' a)"
    using sec.flush_spec [OF I(3,4,5) assms(2)] by blast
  have K: "buffers_ok (sector_valid pt) (\<lambda>_. True) 512 {} xs L'" "clean_ok (sector_content pt) {} xs L' m'"
    "uses L' = uses (m_BufferList (m_Cache s))"
    "\<And>k. sector_valid pt k \<Longrightarrow> view (sector_content pt) L' xs m' k = view (sector_content pt) (m_BufferList (m_Cache s)) xs (mmc_dev s) k"
    using F(4) by (simp_all add: sec.kept_def)
  let ?s = "set_sectors L' m' s"
  have b: "sbufs ?s = sbufs s" by (simp add: sector_bufs_def)
  show thesis
  proof (rule that [of ?s])
    show "FATCacheFlush s = Some ?s" by (simp add: FATCacheFlush_def I(1) F(1))
    show "sec_inv {} ?s"
      unfolding sec_inv_def using K I b F(2) by (intro exI [of _ pt] exI [of _ xs]) simp
    fix k
    assume "svalid s k"
    then have k: "sector_valid pt k" by (simp add: svalid_def I(1))
    have "sview ?s k = sview s k"
      using k K(1,4) sview_view [OF I(1-3) k] I(1,2) b sview_view [of ?s pt xs _ _ "{}" k] by simp
    moreover have "scontent ?s k = sview s k"
      using sec.flushed_content [OF F(4,5) k] sview_view [OF I(1-3) k] I(1) by (simp add: scontent_def)
    ultimately show "sview ?s k = sview s k \<and> scontent ?s k = sview s k" by simp
  qed (use K F(3) in \<open>simp_all add: same_rest_def suses_def\<close>)
qed

section \<open>Opening the cache\<close>

definition linked_buffer :: "(nat \<Rightarrow> ptr) \<Rightarrow> nat \<Rightarrow> nat \<Rightarrow> 'a TFATBuffer_scheme \<Rightarrow> 'a TFATBuffer_scheme" where
  "linked_buffer at n k x = x\<lparr>bf_nMagic := BUFFER_MAGIC, bf_pNext := (if Suc k = n then NULL else at (Suc k)),
     bf_pPrev := (if k = 0 then NULL else at (k - 1)), nKey := BUFFER_NOSECTOR, nUseCount := 0\<rparr>"

lemma link_buffers_buf:
  assumes "inj_on at {..<n}" "k \<le> n"
  shows "i < k \<Longrightarrow> buf (link_buffers at n k L) (at i) = linked_buffer at n i (buf L (at i))"
    and "a \<notin> at ` {..<k} \<Longrightarrow> buf (link_buffers at n k L) a = buf L a"
  using assms(2)
proof (induction k arbitrary: i a)
  case 0
  {
    case 1
    then show ?case by simp
  next
    case 2
    then show ?case by simp
  }
next
  case (Suc k)
  have step: "buf (link_buffers at n (Suc k) L) =
      (buf (link_buffers at n k L))(at k := linked_buffer at n k (buf (link_buffers at n k L) (at k)))"
    by (simp add: Let_def linked_buffer_def)
  {
    case 1
    have ne: "at x \<noteq> at k" if "x < k" for x using inj_onD [OF assms(1), of x k] that 1(2) by auto
    then have k: "at k \<notin> at ` {..<k}" by force
    show ?case
    proof (cases "i = k")
      case True
      then show ?thesis using Suc(2) [OF k] 1(2) by (simp add: step del: link_buffers.simps)
    next
      case False
      then have "i < k" using 1(1) by simp
      then show ?thesis using Suc(1) [of i] 1(2) ne [of i] by (simp add: step del: link_buffers.simps)
    qed
  next
    case 2
    then have "a \<noteq> at k" "a \<notin> at ` {..<k}" by auto
    then show ?case using Suc(2) [of a] 2(2) by (simp add: step del: link_buffers.simps)
  }
qed

lemma link_buffers_ends:
  "pFirst (link_buffers at n k L) = (if k = 0 then pFirst L else at 0)"
  "2 \<le> n \<Longrightarrow> pLast (link_buffers at n n L) = at (n - 1)"
proof -
  show "pFirst (link_buffers at n k L) = (if k = 0 then pFirst L else at 0)"
    by (induction k) (simp_all add: Let_def)
  show "2 \<le> n \<Longrightarrow> pLast (link_buffers at n n L) = at (n - 1)"
    by (cases n) (simp_all add: Let_def)
qed

lemma link_buffers_dll:
  assumes inj: "inj_on at {..<n}" and nn: "\<And>i. i < n \<Longrightarrow> at i \<noteq> NULL" and n: "2 \<le> n"
  shows "dll (link_buffers at n n L) (map at [0 ..< n])"
proof -
  let ?L = "link_buffers at n n L"
  note B = link_buffers_buf(1) [OF inj le_refl, of _ L]
  have nx: "bf_pNext (buf ?L (at i)) = (if Suc i = n then NULL else at (Suc i))" if "i < n" for i
    using B [OF that] by (simp add: linked_buffer_def)
  have pv: "bf_pPrev (buf ?L (at i)) = (if i = 0 then NULL else at (i - 1))" if "i < n" for i
    using B [OF that] by (simp add: linked_buffer_def)
  have f: "linked (\<lambda>a. bf_pNext (buf ?L a)) (at (n - Suc j)) (map at [n - Suc j ..< n])" if "j < n" for j
    using that
  proof (induction j)
    case 0
    then have "[n - Suc 0 ..< n] = [n - 1]" by (cases n) simp_all
    then show ?case using nn [of "n - 1"] nx [of "n - 1"] 0 by simp
  next
    case (Suc j)
    have "[n - Suc (Suc j) ..< n] = (n - Suc (Suc j)) # [n - Suc j ..< n]"
      using Suc.prems by (subst upt_conv_Cons) (simp_all add: Suc_diff_Suc)
    moreover have "bf_pNext (buf ?L (at (n - Suc (Suc j)))) = at (n - Suc j)"
    proof -
      have "Suc (n - Suc (Suc j)) = n - Suc j" "n - Suc j \<noteq> n" using Suc.prems by auto
      then show ?thesis using nx [of "n - Suc (Suc j)"] Suc.prems by simp
    qed
    ultimately show ?case using Suc nn [of "n - Suc (Suc j)"] by simp
  qed
  have g: "linked (\<lambda>a. bf_pPrev (buf ?L a)) (at j) (rev (map at [0 ..< Suc j]))" if "j < n" for j
    using that
  proof (induction j)
    case 0
    then show ?case using nn [of 0] pv [of 0] by simp
  next
    case (Suc j)
    then show ?case using nn [of "Suc j"] pv [of "Suc j"] by simp
  qed
  have "linked (\<lambda>a. bf_pNext (buf ?L a)) (pFirst ?L) (map at [0 ..< n])"
    using f [of "n - 1"] n link_buffers_ends(1) [of at n n L] by (simp add: Suc_diff_Suc)
  moreover have "linked (\<lambda>a. bf_pPrev (buf ?L a)) (pLast ?L) (rev (map at [0 ..< n]))"
    using g [of "n - 1"] n link_buffers_ends(2) [OF n, of at L] by (simp add: Suc_diff_Suc del: upt_Suc)
  moreover have "distinct (map at [0 ..< n])"
    using inj by (simp add: distinct_map atLeast_upt [symmetric] lessThan_atLeast0)
  ultimately show ?thesis by (simp add: dll_def)
qed

lemma link_buffers_ok:
  assumes "inj_on at {..<n}" "\<And>i. i < n \<Longrightarrow> at i \<noteq> NULL" "2 \<le> n"
    and "\<And>i. i < n \<Longrightarrow> length (Data (buf L (at i))) = sz \<and> geo (TFATBuffer.more (buf L (at i)))"
  shows "buffers_ok valid geo sz {} (map at [0 ..< n]) (link_buffers at n n L)"
    and "clean_ok content {} (map at [0 ..< n]) (link_buffers at n n L) m"
    and "a \<in> at ` {..<n} \<Longrightarrow> nKey (buf (link_buffers at n n L) a) = BUFFER_NOSECTOR \<and> uses (link_buffers at n n L) a = 0"
proof -
  note B = link_buffers_buf(1) [OF assms(1) le_refl, of _ L]
  show "buffers_ok valid geo sz {} (map at [0 ..< n]) (link_buffers at n n L)"
    using link_buffers_dll [OF assms(1-3)] assms(4) B
    by (auto simp: buffers_ok_def buffer_ok_def unique_keys_def linked_buffer_def)
  show "clean_ok content {} (map at [0 ..< n]) (link_buffers at n n L) m"
    using B by (auto simp: clean_ok_def linked_buffer_def)
  show "a \<in> at ` {..<n} \<Longrightarrow> nKey (buf (link_buffers at n n L) a) = BUFFER_NOSECTOR \<and> uses (link_buffers at n n L) a = 0"
    using B by (auto simp: uses_def linked_buffer_def)
qed

lemma elem_at_unat:
  assumes "unat base + n * unat sz < 2 ^ 32" "i < n"
  shows "unat (elem_at base sz i) = unat base + i * unat sz"
proof -
  have "i * unat sz \<le> n * unat sz" using assms(2) by (simp add: mult_le_mono1)
  then have b: "unat base + i * unat sz < 2 ^ 32" using assms(1) by linarith
  moreover have "unat (of_nat i * sz) = i * unat sz"
  proof (cases "sz = 0")
    case False
    then have "0 < unat sz" by (simp add: unat_gt_0)
    then have "i \<le> i * unat sz" by simp
    then have "i < 2 ^ 32" using b by linarith
    then have "unat (of_nat i :: u32) = i" by (intro unat_of_nat_small) simp
    then show ?thesis using b by (simp add: unat_word_ariths)
  qed simp
  ultimately show ?thesis unfolding elem_at_def by (subst unat_add_no_wrap) simp_all
qed

lemma elem_at_inj:
  assumes "unat base + n * unat sz < 2 ^ 32" "0 < unat sz"
  shows "inj_on (elem_at base sz) {..<n}"
  using elem_at_unat [OF assms(1)] assms(2) by (auto intro!: inj_onI dest!: arg_cong [where f = unat])


text \<open>Opening the cache on a partition: an empty cache, through which the partition is seen as it is.\<close>

lemma open_spec:
  assumes h: "heap_inv A (mem s)" and c: "m_pPartition (m_Cache s) = None" "m_pBufferMem (m_Cache s) = NULL" "m_pClusterBufferMem (m_Cache s) = NULL"
    and pt: "part_ok pt (mmc_dev s)" and d: "\<And>a. length (Data (sbuf s a)) = 512"
  shows "\<exists>r s'. FATCacheOpen (Some pt) s = Some (r, s') \<and>
     (r = ENOMEM \<or> r = 1 \<and> sec_inv {} s' \<and> (\<forall>a\<in>set (sbufs s'). suses s' a = 0 \<and> nKey (sbuf s' a) = BUFFER_NOSECTOR) \<and>
        (\<forall>k. sview s' k = sector_content pt (mmc_dev s) k \<or> k = BUFFER_NOSECTOR) \<and> mmc_dev s' = mmc_dev s \<and>
        fat_state.more s' = fat_state.more s \<and> m_pPartition (m_Cache s') = Some pt \<and> m_pBufferMem (m_Cache s') \<notin> A \<and>
        heap_inv (insert (m_pClusterBufferMem (m_Cache s')) (insert (m_pBufferMem (m_Cache s')) A)) (mem s'))"
proof -
  obtain p h1 where p: "malloc (sizeof_TFATBuffer * of_nat FAT_BUFFERS) (mem s) = (p, h1)"
    by (cases "malloc (sizeof_TFATBuffer * of_nat FAT_BUFFERS) (mem s)")
  obtain q h2 where q: "malloc (sizeof_TFATClusterBuffer * of_nat FAT_CLUSER_BUFFERS) h1 = (q, h2)"
    by (cases "malloc (sizeof_TFATClusterBuffer * of_nat FAT_CLUSER_BUFFERS) h1")
  show ?thesis
  proof (cases "p = NULL \<or> q = NULL")
    case True
    then show ?thesis using c by (auto simp: FATCacheOpen_def p q)
  next
    case False
    then have nn: "p \<noteq> NULL" "q \<noteq> NULL" by simp_all
    note M = malloc_spec [OF h p nn(1)]
    note M2 = malloc_spec [OF M(1) q nn(2)]
    let ?at = "elem_at p sizeof_TFATBuffer"
    let ?L = "link_buffers ?at FAT_BUFFERS FAT_BUFFERS (m_BufferList (m_Cache s))"
    have "sizeof_TFATBuffer * of_nat FAT_BUFFERS = (53600::u32)" by (simp add: sizeof_TFATBuffer_def FAT_BUFFERS_def)
    with M(3) have "53600 \<le> unat (nSize (blk h1 (p - 16)))" by (simp add: word_le_nat_alt)
    moreover have "unat p + unat (nSize (blk h1 (p - 16))) \<le> unat (s_pNextBlock h1)" using heap_inv_block(4) [OF M(1)] by simp
    ultimately have top: "unat p + FAT_BUFFERS * unat sizeof_TFATBuffer < 2 ^ 32"
      using heap_inv_bounds(3,4) [OF M(1)] by (simp add: FAT_BUFFERS_def sizeof_TFATBuffer_def)
    have inj: "inj_on ?at {..<FAT_BUFFERS}" by (rule elem_at_inj [OF top]) (simp add: sizeof_TFATBuffer_def)
    have at0: "?at i \<noteq> NULL" if "i < FAT_BUFFERS" for i
      using elem_at_unat [OF top that] nn(1) by (metis add_eq_0_iff_both_eq_0 unat_0 unat_eq_zero)
    have two: "2 \<le> FAT_BUFFERS" by (simp add: FAT_BUFFERS_def)
    note K = link_buffers_ok [OF inj at0 two, of "m_BufferList (m_Cache s)" 512 "\<lambda>_. True"]
    have B: "buffers_ok (sector_valid pt) (\<lambda>_. True) 512 {} (map ?at [0 ..< FAT_BUFFERS]) ?L"
      "clean_ok (sector_content pt) {} (map ?at [0 ..< FAT_BUFFERS]) ?L (mmc_dev s)"
      "\<And>a. a \<in> ?at ` {..<FAT_BUFFERS} \<Longrightarrow> nKey (buf ?L a) = BUFFER_NOSECTOR \<and> uses ?L a = 0"
      using K d by blast+
    obtain L2 where run: "FATCacheOpen (Some pt) s = Some (1, s\<lparr>mem := h2, m_Cache := (m_Cache s)\<lparr>m_pPartition := Some pt,
        m_pBufferMem := p, m_BufferList := ?L, m_pClusterBufferMem := q, m_ClusterBufList := L2\<rparr>\<rparr>)"
      using c nn by (simp add: FATCacheOpen_def p q)
    let ?s = "s\<lparr>mem := h2, m_Cache := (m_Cache s)\<lparr>m_pPartition := Some pt,
        m_pBufferMem := p, m_BufferList := ?L, m_pClusterBufferMem := q, m_ClusterBufList := L2\<rparr>\<rparr>"
    have sb: "sbufs ?s = map ?at [0 ..< FAT_BUFFERS]" by (simp add: sector_bufs_def)
    have "sec_inv {} ?s" unfolding sec_inv_def sb using B(1,2) pt by (intro exI [of _ pt] exI [of _ "map ?at [0 ..< FAT_BUFFERS]"]) simp
    moreover have "suses ?s a = 0 \<and> nKey (sbuf ?s a) = BUFFER_NOSECTOR" if "a \<in> set (sbufs ?s)" for a
      using that B(3) [of a] by (auto simp: sector_bufs_def suses_def)
    moreover have "sview ?s k = sector_content pt (mmc_dev s) k" if "k \<noteq> BUFFER_NOSECTOR" for k
    proof -
      have "cached ?L (map ?at [0 ..< FAT_BUFFERS]) k = None"
        using B(3) that by (auto simp: cached_def find_None_iff)
      then show ?thesis by (simp add: sview_def sector_bufs_def scontent_def)
    qed
    ultimately show ?thesis using run M2(1) M(2) by auto
  qed
qed


section \<open>A card for examples\<close>

definition demo_card :: "(nat \<Rightarrow> u8 list) \<Rightarrow> mmc" where
  "demo_card bs = \<lparr>blocks = bs, lba = 0x10000, b_max = 0xFFFF, high_capacity = True, ddr_52MHz = False, present = True,
     sent = 0, cmd_err = (\<lambda>_. 0), response = (\<lambda>_. 0x900), garbage = (\<lambda>_. [])\<rparr>"

definition demo_part :: TPartition where
  "demo_part = \<lparr>m_pPartitionName = [], m_nFirstSector = 63, m_nNumberOfSectors = 0x8000\<rparr>"

definition zero_block :: "u8 list" where "zero_block = replicate 512 0"

lemma demo_card_ok: "(\<And>n. length (bs n) = 512) \<Longrightarrow> part_ok demo_part (demo_card bs)"
  "card_healthy (demo_card bs)"
  by (simp_all add: part_ok_def card_ok_def demo_card_def demo_part_def card_healthy_def MMC_STATUS_RDY_FOR_DATA_def
      MMC_STATUS_CURR_STATE_def MMC_STATE_PRG_def MMC_STATUS_SWITCH_ERROR_def)

definition zero_buf :: TFATBuffer where
  "zero_buf = \<lparr>bf_nMagic = 0, bf_pNext = 0, bf_pPrev = 0, nKey = 0, nUseCount = 0, bDirty = False, Data = zero_block\<rparr>"

definition zero_cbuf :: TFATClusterBuffer where
  "zero_cbuf = \<lparr>bf_nMagic = 0, bf_pNext = 0, bf_pPrev = 0, nKey = 0, nUseCount = 0, bDirty = False, Data = [],
     nSectorNumPerCluster = 0, cb_nFirstDataSector = 0, pBuf = 0\<rparr>"

definition demo_unmounted :: "(nat \<Rightarrow> u8 list) \<Rightarrow> 'a \<Rightarrow> 'a fat_state_scheme" where
  "demo_unmounted bs x = \<lparr>m_Cache = CFATCache \<lparr>m_pPartition = None, m_pBufferMem = 0,
       m_BufferList = \<lparr>buf = \<lambda>_. zero_buf, pFirst = 0, pLast = 0\<rparr>, m_pClusterBufferMem = 0,
       m_ClusterBufList = \<lparr>buf = \<lambda>_. zero_cbuf, pFirst = 0, pLast = 0\<rparr>\<rparr>,
     mmc_dev = demo_card bs, mem = boot_heap, \<dots> = x\<rparr>"

definition demo_mounted :: "(nat \<Rightarrow> u8 list) \<Rightarrow> 'a \<Rightarrow> 'a fat_state_scheme" where
  "demo_mounted bs x = snd (the (FATCacheOpen (Some demo_part) (demo_unmounted bs x)))"

lemma demo_mallocs:
  "fst (malloc 53600 boot_heap) \<noteq> NULL" "fst (malloc 3600 (snd (malloc 53600 boot_heap))) \<noteq> NULL"
  by (simp_all add: malloc_def boot_heap_simps block_extent_def CONFIG_FB_ADDR_def FB_END_def block_sizes_def)

lemma demo_mounted_ok:
  assumes "\<And>n. length (bs n) = 512"
  shows "sec_inv {} (demo_mounted bs x)" "\<forall>a\<in>set (sbufs (demo_mounted bs x)). suses (demo_mounted bs x) a = 0"
    "k \<noteq> BUFFER_NOSECTOR \<Longrightarrow> sview (demo_mounted bs x) k = bs (63 + unat k)"
    "mmc_dev (demo_mounted bs x) = demo_card bs" "m_pPartition (m_Cache (demo_mounted bs x)) = Some demo_part"
    "svalid (demo_mounted bs x) k \<longleftrightarrow> unat k < 0x8000"
    "\<forall>a\<in>set (sbufs (demo_mounted bs x)). nKey (sbuf (demo_mounted bs x) a) = BUFFER_NOSECTOR"
    "fat_state.more (demo_mounted bs x) = x"
proof -
  let ?s = "demo_unmounted bs x"
  have A: "heap_inv {} (mem ?s)" "m_pPartition (m_Cache ?s) = None" "m_pBufferMem (m_Cache ?s) = NULL"
    "m_pClusterBufferMem (m_Cache ?s) = NULL" "part_ok demo_part (mmc_dev ?s)" "\<And>a. length (Data (sbuf ?s a)) = 512"
    using boot_heap_inv(1) demo_card_ok(1) [of bs] assms
    by (simp_all add: demo_unmounted_def CFATCache_def zero_buf_def zero_block_def)
  obtain p h1 where p: "malloc 53600 boot_heap = (p, h1)" by (cases "malloc 53600 boot_heap")
  obtain q h2 where q: "malloc 3600 h1 = (q, h2)" by (cases "malloc 3600 h1")
  have nn: "p \<noteq> NULL" "q \<noteq> NULL" using demo_mallocs by (simp_all add: p q)
  obtain s' where r: "FATCacheOpen (Some demo_part) ?s = Some (1, s')"
    using nn p q A(2-4) by (simp add: FATCacheOpen_def demo_unmounted_def sizeof_TFATBuffer_def FAT_BUFFERS_def
        sizeof_TFATClusterBuffer_def FAT_CLUSER_BUFFERS_def)
  then have s': "demo_mounted bs x = s'" by (simp add: demo_mounted_def)
  have "(1::u32) \<noteq> ENOMEM" by (simp add: ENOMEM_def)
  then have S: "sec_inv {} s'" "\<forall>a\<in>set (sbufs s'). suses s' a = 0 \<and> nKey (sbuf s' a) = BUFFER_NOSECTOR"
    "\<And>k. sview s' k = sector_content demo_part (mmc_dev ?s) k \<or> k = BUFFER_NOSECTOR" "mmc_dev s' = mmc_dev ?s"
    "m_pPartition (m_Cache s') = Some demo_part" "fat_state.more s' = fat_state.more ?s"
    using open_spec [OF A] r by auto
  then show "sec_inv {} (demo_mounted bs x)" "\<forall>a\<in>set (sbufs (demo_mounted bs x)). suses (demo_mounted bs x) a = 0"
    "mmc_dev (demo_mounted bs x) = demo_card bs" "m_pPartition (m_Cache (demo_mounted bs x)) = Some demo_part"
    "svalid (demo_mounted bs x) k \<longleftrightarrow> unat k < 0x8000"
    "\<forall>a\<in>set (sbufs (demo_mounted bs x)). nKey (sbuf (demo_mounted bs x) a) = BUFFER_NOSECTOR"
    "fat_state.more (demo_mounted bs x) = x"
    by (simp_all add: s' demo_unmounted_def svalid_def sector_valid_def demo_part_def)
  show "k \<noteq> BUFFER_NOSECTOR \<Longrightarrow> sview (demo_mounted bs x) k = bs (63 + unat k)"
    using S(3) [of k] by (simp add: s' demo_unmounted_def sector_content_def demo_part_def demo_card_def)
qed

section \<open>Properties\<close>

text \<open>A write through a partition followed by a read of the same sectors returns what was written,
  for every chunking the driver chooses, and changes no block outside the range. A transfer that reports the
  full count is exact even when other commands fail; on a card that works every transfer does.\<close>

lemma partition_write_read:
  assumes "part_ok p m" "0 < n" "unat start + unat n \<le> unat (m_nNumberOfSectors p)"
    and "length src = 512 * unat n" "length dst = 512 * unat n"
  shows "\<exists>w m1 r d m2. PartitionWrite p start n src m = Some (w, m1) \<and> PartitionRead p dst start n m1 = Some (r, d, m2) \<and>
     (w = n \<longrightarrow> r = n \<longrightarrow> d = src) \<and> (card_healthy m \<longrightarrow> w = n \<and> r = n) \<and>
     (\<forall>i. i < unat (m_nFirstSector p) + unat start \<or> unat (m_nFirstSector p) + unat start + unat n \<le> i \<longrightarrow> blocks m2 i = blocks m i)"
proof -
  obtain w m1 where W: "PartitionWrite p start n src m = Some (w, m1)" "part_ok p m1" "same_card m m1"
    "\<forall>i. i < unat (m_nFirstSector p) + unat start \<or> unat (m_nFirstSector p) + unat start + unat n \<le> i \<longrightarrow> blocks m1 i = blocks m i"
    "w = n \<longrightarrow> blocks m1 = put_blocks (unat (m_nFirstSector p) + unat start) (unat n) src (blocks m)" "card_healthy m \<longrightarrow> w = n"
    using PartitionWrite_spec [OF assms(1-4)] by blast
  obtain r d m2 where R: "PartitionRead p dst start n m1 = Some (r, d, m2)" "blocks m2 = blocks m1"
    "r = n \<longrightarrow> d = part_data p m1 (unat start) (unat n)" "card_healthy m1 \<longrightarrow> r = n"
    using PartitionRead_spec [OF W(2) assms(2,3,5)] by blast
  have "d = src" if "w = n" "r = n" using part_data_put [OF assms(4)] W(5) R(3) that by simp
  then show ?thesis using W R same_card_healthy [OF W(3)] by auto
qed

text \<open>C12: The sector cache is transparent. \<open>FATCacheGetSector\<close> returns a buffer that holds the sector as its
  clients last saw it, or \<open>NULL\<close>; whatever it evicts, writes back or fails to write back, every sector of the
  partition reads the same afterwards (except the requested one when it is only to be overwritten), and the
  cache invariant holds. It fails only if a card command fails or every buffer is in use.\<close>

theorem cache_get_transparent:
  assumes "sec_inv W s" "svalid s k" "\<forall>a\<in>set (sbufs s). suses s a + 1 \<noteq> 0"
  shows "\<exists>p s'. FATCacheGetSector k wo s = Some (p, s') \<and> same_rest s s' \<and>
     (p = NULL \<and> (card_healthy (mmc_dev s) \<longrightarrow> (\<forall>a\<in>set (sbufs s). suses s a \<noteq> 0)) \<and> sec_inv W s' \<and>
        (\<forall>j. svalid s j \<longrightarrow> sview s' j = sview s j) \<or>
      p \<in> set (sbufs s) \<and> sec_inv (if wo then insert p W else W) s' \<and> nKey (sbuf s' p) = k \<and>
        suses s' = (suses s)(p := suses s p + 1) \<and> (\<not> wo \<longrightarrow> Data (sbuf s' p) = sview s k) \<and>
        (\<forall>j. svalid s j \<longrightarrow> (wo \<longrightarrow> j \<noteq> k) \<longrightarrow> sview s' j = sview s j))"
proof -
  obtain p s' where G: "FATCacheGetSector k wo s = Some (p, s')" "same_rest s s'"
    "p = NULL \<and> (card_healthy (mmc_dev s) \<longrightarrow> (\<forall>a\<in>set (sbufs s). suses s a \<noteq> 0)) \<and> sec_inv W s' \<and> suses s' = suses s \<and>
        (\<forall>j. svalid s j \<longrightarrow> sview s' j = sview s j) \<or>
      p \<noteq> NULL \<and> p \<in> set (sbufs s) \<and> sec_inv (if wo then insert p W else W) s' \<and> nKey (sbuf s' p) = k \<and>
        suses s' = (suses s)(p := suses s p + 1) \<and> sview s' k = Data (sbuf s' p) \<and> length (Data (sbuf s' p)) = 512 \<and>
        (\<forall>j. svalid s j \<longrightarrow> (wo \<longrightarrow> j \<noteq> k) \<longrightarrow> sview s' j = sview s j)"
    using get_sector [OF assms, of wo] by blast
  moreover have "\<not> wo \<longrightarrow> (\<forall>j. svalid s j \<longrightarrow> (wo \<longrightarrow> j \<noteq> k) \<longrightarrow> sview s' j = sview s j) \<longrightarrow> sview s' k = sview s k"
    using assms(2) by simp
  ultimately show ?thesis by metis
qed

theorem cache_get_transparent_witness:
  "\<exists>p s'. FATCacheGetSector 7 False (demo_mounted (\<lambda>_. zero_block) ()) = Some (p, s') \<and> p \<noteq> NULL \<and>
     Data (sbuf s' p) = zero_block"
proof -
  let ?s = "demo_mounted (\<lambda>_. zero_block) ()"
  have z: "\<And>n::nat. length ((\<lambda>_. zero_block) n) = 512" by (simp add: zero_block_def)
  note D = demo_mounted_ok [OF z, where x = "()"]
  have v: "svalid ?s 7" "\<forall>a\<in>set (sbufs ?s). suses ?s a + 1 \<noteq> 0" using D(2,6) by simp_all
  have "elem_at (m_pBufferMem (m_Cache ?s)) sizeof_TFATBuffer 0 \<in> set (sbufs ?s)" by (simp add: sector_bufs_def FAT_BUFFERS_def)
  then have room: "\<not> (\<forall>a\<in>set (sbufs ?s). suses ?s a \<noteq> 0)" using D(2) by blast
  have nn: "NULL \<notin> set (sbufs ?s)" using D(1) by (auto elim!: sec_invE dest!: buffers_ok_dll dll_NULL)
  have "sview ?s 7 = zero_block" using D(3) [of 7] by (simp add: BUFFER_NOSECTOR_def)
  then show ?thesis
    using cache_get_transparent [OF D(1) v, of False] room nn demo_card_ok(2) D(4) by auto
qed

text \<open>C13: \<open>FATCacheFlush\<close> on a card that works makes the partition on the card equal to what the clients of the
  cache see, and changes nothing they see.\<close>

theorem cache_flush_writes_back:
  assumes "sec_inv {} s" "card_healthy (mmc_dev s)"
  shows "\<exists>s'. FATCacheFlush s = Some s' \<and> sec_inv {} s' \<and> suses s' = suses s \<and>
     (\<forall>k. svalid s k \<longrightarrow> sview s' k = sview s k \<and> scontent s' k = sview s k)"
  using flush_sectors [OF assms] by metis

theorem cache_flush_writes_back_witness:
  "\<exists>s'. FATCacheFlush (demo_mounted (\<lambda>_. zero_block) ()) = Some s' \<and> scontent s' 7 = zero_block"
proof -
  have z: "\<And>n::nat. length ((\<lambda>_. zero_block) n) = 512" by (simp add: zero_block_def)
  note D = demo_mounted_ok [OF z, where x = "()"]
  have "sview (demo_mounted (\<lambda>_. zero_block) ()) 7 = zero_block" using D(3) [of 7] by (simp add: BUFFER_NOSECTOR_def)
  then show ?thesis using cache_flush_writes_back [OF D(1)] demo_card_ok(2) D(4,6) by force
qed

text \<open>\<open>FATCacheOpen\<close> on a partition either runs out of memory or sets up two lists of empty, unused buffers
  in fresh memory; the partition is then seen through the cache exactly as it is on the card.\<close>

lemma cache_open_empty:
  assumes "heap_inv A (mem s)" "m_pPartition (m_Cache s) = None" "m_pBufferMem (m_Cache s) = NULL" "m_pClusterBufferMem (m_Cache s) = NULL"
    and "part_ok pt (mmc_dev s)" "\<And>a. length (Data (sbuf s a)) = 512"
  shows "\<exists>r s'. FATCacheOpen (Some pt) s = Some (r, s') \<and>
     (r = ENOMEM \<or> r = 1 \<and> sec_inv {} s' \<and> (\<forall>a\<in>set (sbufs s'). suses s' a = 0 \<and> nKey (sbuf s' a) = BUFFER_NOSECTOR) \<and>
        (\<forall>k. sview s' k = sector_content pt (mmc_dev s) k \<or> k = BUFFER_NOSECTOR) \<and> m_pBufferMem (m_Cache s') \<notin> A \<and>
        heap_inv (insert (m_pClusterBufferMem (m_Cache s')) (insert (m_pBufferMem (m_Cache s')) A)) (mem s'))"
  using open_spec [OF assms] by blast

text \<open>The number 0xFFFFFFFF marks an empty buffer, and the search of \<open>FATCacheGetSector\<close> does not exclude it: a
  request for sector 0xFFFFFFFF, which no partition has, succeeds on a freshly opened cache. It
  returns the first empty buffer without reading anything and leaves it in use but still marked empty.\<close>

lemma get_nosector_succeeds:
  "\<exists>p s'. FATCacheGetSector 0xFFFFFFFF False (demo_mounted (\<lambda>_. zero_block) ()) = Some (p, s') \<and> p \<noteq> NULL \<and>
     nKey (sbuf s' p) = BUFFER_NOSECTOR \<and> nUseCount (sbuf s' p) = 1 \<and> mmc_dev s' = mmc_dev (demo_mounted (\<lambda>_. zero_block) ())"
proof -
  let ?s = "demo_mounted (\<lambda>_. zero_block) ()"
  let ?L = "m_BufferList (m_Cache ?s)"
  have z: "\<And>n::nat. length ((\<lambda>_. zero_block) n) = 512" by (simp add: zero_block_def)
  note D = demo_mounted_ok [OF z, where x = "()"]
  obtain pt xs where I: "m_pPartition (m_Cache ?s) = Some pt" "set xs = set (sbufs ?s)"
    "buffers_ok (sector_valid pt) (\<lambda>_. True) 512 {} xs ?L" using D(1) by (rule sec_invE)
  have key: "nKey (buf ?L a) = BUFFER_NOSECTOR" "nUseCount (buf ?L a) = 0" if "a \<in> set xs" for a
    using D(2,7) that I(2) by (simp_all add: suses_def uses_def)
  obtain a as where xs: "xs = a # as" using I(2) by (cases xs) (simp_all add: sector_bufs_def FAT_BUFFERS_def)
  then have f: "find (\<lambda>a. nKey (buf ?L a) = 0xFFFFFFFF) xs = Some a" using key(1) [of a] by (simp add: BUFFER_NOSECTOR_def)
  obtain L' where mv: "move_first a ?L = Some L'" "relinked ?L L'"
    using move_first_spec [OF buffers_ok_dll [OF I(3)], of a] xs by auto
  have "a \<noteq> NULL" using xs dll_NULL [OF buffers_ok_dll [OF I(3)]] by auto
  then have "FATCacheGetSector 0xFFFFFFFF False ?s =
      Some (a, set_sectors (upd a (\<lambda>x. x\<lparr>nUseCount := nUseCount x + 1\<rparr>) L') (mmc_dev ?s) ?s)"
    by (simp add: FATCacheGetSector_def get_buffer_def scan_key [OF I(3)] f I(1) mv(1))
  then show ?thesis using key [of a] xs \<open>a \<noteq> NULL\<close> relinked_fields [OF mv(2), of a] by simp
qed

end
