(* ===== verification/FatInfo.thy ===== *)
theory FatInfo
  imports FatCacheProps
begin

text \<open>
  The description of a FAT volume, \<^verbatim>\<open>env/lib/fs/fatinfo.c\<close>: the boot sector is parsed and checked, and the
  count of free clusters and the hint where to look for one are kept up to date. The packed structures of
  \<^verbatim>\<open>fatfsdef.h\<close> are read from the bytes of a sector at their offsets, low byte first.
\<close>

section \<open>Packed little-endian fields\<close>

definition le16 :: "u8 list \<Rightarrow> nat \<Rightarrow> u16" where
  "le16 d i = ucast (d ! i) OR push_bit 8 (ucast (d ! Suc i))"

definition le32 :: "u8 list \<Rightarrow> nat \<Rightarrow> u32" where
  "le32 d i = ucast (d ! i) OR push_bit 8 (ucast (d ! (i + 1))) OR push_bit 16 (ucast (d ! (i + 2))) OR push_bit 24 (ucast (d ! (i + 3)))"

definition put32 :: "nat \<Rightarrow> u32 \<Rightarrow> u8 list \<Rightarrow> u8 list" where
  "put32 i w d = d[i := ucast w, i + 1 := ucast (drop_bit 8 w), i + 2 := ucast (drop_bit 16 w), i + 3 := ucast (drop_bit 24 w)]"

text \<open>The fields of \<open>TFATBootSector\<close> and of \<open>TFAT32FSInfoSector\<close>.\<close>

definition BPB_nBytesPerSector :: "u8 list \<Rightarrow> u16" where "BPB_nBytesPerSector d = le16 d 0x0B"
definition BPB_nSectorsPerCluster :: "u8 list \<Rightarrow> u8" where "BPB_nSectorsPerCluster d = d ! 0x0D"
definition BPB_nReservedSectors :: "u8 list \<Rightarrow> u16" where "BPB_nReservedSectors d = le16 d 0x0E"
definition BPB_nNumberOfFATs :: "u8 list \<Rightarrow> u8" where "BPB_nNumberOfFATs d = d ! 0x10"
definition BPB_nRootEntries :: "u8 list \<Rightarrow> u16" where "BPB_nRootEntries d = le16 d 0x11"
definition BPB_nTotalSectors16 :: "u8 list \<Rightarrow> u16" where "BPB_nTotalSectors16 d = le16 d 0x13"
definition BPB_nMedia :: "u8 list \<Rightarrow> u8" where "BPB_nMedia d = d ! 0x15"
definition BPB_nFATSize16 :: "u8 list \<Rightarrow> u16" where "BPB_nFATSize16 d = le16 d 0x16"
definition BPB_nTotalSectors32 :: "u8 list \<Rightarrow> u32" where "BPB_nTotalSectors32 d = le32 d 0x20"
definition FAT32_nFATSize32 :: "u8 list \<Rightarrow> u32" where "FAT32_nFATSize32 d = le32 d 0x24"
definition FAT32_nActiveFAT :: "u8 list \<Rightarrow> u16" where "FAT32_nActiveFAT d = le16 d 0x28 AND 0xF"
definition FAT32_nMirroringOff :: "u8 list \<Rightarrow> bool" where "FAT32_nMirroringOff d = bit (le16 d 0x28) 7"
definition FAT32_nFSVersion :: "u8 list \<Rightarrow> u16" where "FAT32_nFSVersion d = le16 d 0x2A"
definition FAT32_nRootCluster :: "u8 list \<Rightarrow> u32" where "FAT32_nRootCluster d = le32 d 0x2C"
definition FAT32_nFSInfoSector :: "u8 list \<Rightarrow> u16" where "FAT32_nFSInfoSector d = le16 d 0x30"
definition FAT32_nBootSignature :: "u8 list \<Rightarrow> u8" where "FAT32_nBootSignature d = d ! 0x42"
definition Boot_nBootSignature :: "u8 list \<Rightarrow> u16" where "Boot_nBootSignature d = le16 d 510"

definition FSInfo_signatures :: "u8 list \<Rightarrow> bool" where
  "FSInfo_signatures d \<longleftrightarrow> le32 d 0 = 0x41615252 \<and> le32 d 484 = 0x61417272 \<and> le32 d 508 = 0xAA550000"
definition FSInfo_nFreeCount :: "u8 list \<Rightarrow> u32" where "FSInfo_nFreeCount d = le32 d 488"
definition FSInfo_nNextFreeCluster :: "u8 list \<Rightarrow> u32" where "FSInfo_nNextFreeCluster d = le32 d 492"

section \<open>The volume\<close>

datatype TFATType = FAT16 | FAT32 | FATUnknown

record TFatInfo =
  m_FATType :: TFATType
  m_nSectorsPerCluster :: u32
  m_nReservedSectors :: u32
  m_nNumberOfFATs :: u32
  m_nRootEntries :: u32
  m_nFATSize :: u32
  m_nTotalSectors :: u32
  m_bFATMirroring :: bool
  m_nActiveFAT :: u32
  m_nRootCluster :: u32
  m_nFSInfoSector :: u32
  m_nRootSectors :: u32
  m_nFirstDataSector :: u32
  m_nDataSectors :: u32
  m_nClusters :: u32
  m_nFreeCount :: u32
  m_nNextFreeCluster :: u32

record fat_fs = fat_state +
  m_FATInfo :: TFatInfo

definition FREE_COUNT_UNKNOWN :: u32 where "FREE_COUNT_UNKNOWN = 0xFFFFFFFF"
definition NEXT_FREE_CLUSTER_UNKNOWN :: u32 where "NEXT_FREE_CLUSTER_UNKNOWN = 0xFFFFFFFF"
definition BOOT_SIGNATURE :: u16 where "BOOT_SIGNATURE = 0xAA55"

definition CFATInfo :: "'a fat_fs_scheme \<Rightarrow> 'a fat_fs_scheme" where
  "CFATInfo s = s\<lparr>m_FATInfo := (m_FATInfo s)\<lparr>m_FATType := FATUnknown\<rparr>\<rparr>"

text \<open>The destructor \<open>_CFATInfo\<close>; \<open>_CFATCache\<close>, which it calls, does nothing.\<close>

definition destroy_CFATInfo :: "'a fat_fs_scheme \<Rightarrow> 'a fat_fs_scheme" where
  "destroy_CFATInfo s = s\<lparr>m_FATInfo := (m_FATInfo s)\<lparr>m_FATType := FATUnknown\<rparr>\<rparr>"

text \<open>The checks of the boot sector, up to the point where its buffer is released. The flag is false where the code returns
  \<open>FALSE\<close>; the fields written before a failed check keep what was written.\<close>

definition parse_boot :: "u8 list \<Rightarrow> TFatInfo \<Rightarrow> bool \<times> TFatInfo" where
  "parse_boot d i =
     (if Boot_nBootSignature d \<noteq> BOOT_SIGNATURE \<or> BPB_nBytesPerSector d \<noteq> 512 \<or> BPB_nMedia d AND 0xF0 \<noteq> 0xF0
      then (False, i)
      else
        let i = i\<lparr>m_nSectorsPerCluster := ucast (BPB_nSectorsPerCluster d), m_nReservedSectors := ucast (BPB_nReservedSectors d),
               m_nNumberOfFATs := ucast (BPB_nNumberOfFATs d), m_nRootEntries := ucast (BPB_nRootEntries d),
               m_nFATSize := ucast (BPB_nFATSize16 d)\<rparr>;
            (ok, i) =
              (if m_nFATSize i \<noteq> 0 then (True, i\<lparr>m_FATType := FAT16, m_bFATMirroring := True\<rparr>)
               else let i = i\<lparr>m_FATType := FAT32\<rparr> in
                 if FAT32_nBootSignature d \<noteq> 0x29 \<or> FAT32_nFSVersion d \<noteq> 0 \<or> m_nRootEntries i \<noteq> 0 then (False, i)
                 else let i = i\<lparr>m_nFATSize := FAT32_nFATSize32 d, m_bFATMirroring := \<not> FAT32_nMirroringOff d\<rparr>;
                          i = (if m_bFATMirroring i then i\<lparr>m_nActiveFAT := ucast (FAT32_nActiveFAT d)\<rparr> else i)
                   in if m_bFATMirroring i \<and> m_nActiveFAT i \<ge> m_nNumberOfFATs i then (False, i)
                   else (True, i\<lparr>m_nRootCluster := FAT32_nRootCluster d, m_nFSInfoSector := ucast (FAT32_nFSInfoSector d)\<rparr>))
        in if \<not> ok then (False, i)
        else let i = i\<lparr>m_nTotalSectors := ucast (BPB_nTotalSectors16 d)\<rparr> in
          (True, if m_nTotalSectors i = 0 then i\<lparr>m_nTotalSectors := BPB_nTotalSectors32 d\<rparr> else i))"

definition FATInfo_layout :: "TFatInfo \<Rightarrow> TFatInfo" where
  "FATInfo_layout i =
     (let i = i\<lparr>m_nRootSectors := (m_nRootEntries i * 32 + (FAT_SECTOR_SIZE - 1)) div FAT_SECTOR_SIZE\<rparr>;
          i = i\<lparr>m_nFirstDataSector := m_nReservedSectors i + m_nNumberOfFATs i * m_nFATSize i + m_nRootSectors i\<rparr>;
          i = i\<lparr>m_nDataSectors := m_nTotalSectors i - m_nFirstDataSector i\<rparr>
      in i\<lparr>m_nClusters := m_nDataSectors i div m_nSectorsPerCluster i\<rparr>)"

text \<open>The type has to agree with the number of clusters, and FAT12 is not supported.\<close>

definition FATInfo_type_ok :: "TFatInfo \<Rightarrow> bool" where
  "FATInfo_type_ok i \<longleftrightarrow>
     (if m_nClusters i < 4085 then False
      else if m_nClusters i < 65525 then m_FATType i = FAT16
      else m_FATType i = FAT32)"

definition FATInfoInitialize :: "(ptr \<Rightarrow> u8 list) \<Rightarrow> 'a fat_fs_scheme \<Rightarrow> (bool \<times> 'a fat_fs_scheme) option" where
  "FATInfoInitialize raw s = do {
     (pBuffer, s) \<leftarrow> FATCacheGetSector 0 False s;
     assert (pBuffer \<noteq> NULL);
     (ok, i) \<leftarrow> Some (parse_boot (Data (sbuf s pBuffer)) (m_FATInfo s));
     s \<leftarrow> FATCacheFreeSector pBuffer False (s\<lparr>m_FATInfo := i\<rparr>);
     if \<not> ok then Some (False, s)
     else if m_nReservedSectors i = 0 \<or> m_nFATSize i = 0 then Some (False, s)
     else do {
       assert (m_nSectorsPerCluster i \<noteq> 0);
       i \<leftarrow> Some (FATInfo_layout i);
       s \<leftarrow> FATCacheSetClusterBuff raw (m_nSectorsPerCluster i) (m_nFirstDataSector i) (s\<lparr>m_FATInfo := i\<rparr>);
       if \<not> FATInfo_type_ok i then Some (False, s)
       else do {
         (ok, s) \<leftarrow>
           (if m_FATType i = FAT32 then
              (if m_nFSInfoSector i = 0 \<or> m_nFSInfoSector i \<ge> m_nReservedSectors i then Some (False, s)
               else do {
                 (pBuffer, s) \<leftarrow> FATCacheGetSector (m_nFSInfoSector i) False s;
                 assert (pBuffer \<noteq> NULL);
                 d \<leftarrow> Some (Data (sbuf s pBuffer));
                 if \<not> FSInfo_signatures d then do { s \<leftarrow> FATCacheFreeSector pBuffer False s; Some (False, s) }
                 else do {
                   s \<leftarrow> FATCacheFreeSector pBuffer False (s\<lparr>m_FATInfo := i\<lparr>m_nFreeCount := FSInfo_nFreeCount d,
                     m_nNextFreeCluster := FSInfo_nNextFreeCluster d\<rparr>\<rparr>);
                   Some (True, if m_nNextFreeCluster (m_FATInfo s) = NEXT_FREE_CLUSTER_UNKNOWN
                     then s\<lparr>m_FATInfo := (m_FATInfo s)\<lparr>m_nNextFreeCluster := 2\<rparr>\<rparr> else s) } })
            else Some (True, s\<lparr>m_FATInfo := i\<lparr>m_nFreeCount := FREE_COUNT_UNKNOWN, m_nNextFreeCluster := 2\<rparr>\<rparr>));
         if \<not> ok then Some (False, s)
         else do {
           (pBuffer, s) \<leftarrow> FATCacheGetSector (m_nFirstDataSector i + m_nDataSectors i - 1) False s;
           assert (pBuffer \<noteq> NULL);
           s \<leftarrow> FATCacheFreeSector pBuffer False s;
           Some (True, s) } } } }"

section \<open>Queries and updates\<close>

definition FATInfoGetFATType :: "TFatInfo \<Rightarrow> TFATType option" where
  "FATInfoGetFATType i = do { assert (m_FATType i \<noteq> FATUnknown); Some (m_FATType i) }"

definition FATInfoGetReadFAT :: "TFatInfo \<Rightarrow> u32" where
  "FATInfoGetReadFAT i = (if m_FATType i = FAT32 \<and> \<not> m_bFATMirroring i then m_nActiveFAT i else 0)"

definition FATInfoGetFirstWriteFAT :: "TFatInfo \<Rightarrow> u32" where
  "FATInfoGetFirstWriteFAT i = (if m_FATType i = FAT32 \<and> \<not> m_bFATMirroring i then m_nActiveFAT i else 0)"

definition FATInfoGetLastWriteFAT :: "TFatInfo \<Rightarrow> u32 option" where
  "FATInfoGetLastWriteFAT i =
     (if m_FATType i = FAT32 \<and> \<not> m_bFATMirroring i then Some (m_nActiveFAT i)
      else do { assert (m_nNumberOfFATs i > 0); Some (m_nNumberOfFATs i - 1) })"

definition FATInfoGetFirstRootSector :: "TFatInfo \<Rightarrow> u32 option" where
  "FATInfoGetFirstRootSector i = do { assert (m_FATType i = FAT16);
     Some (m_nReservedSectors i + m_nNumberOfFATs i * m_nFATSize i) }"

definition FATInfoGetRootSectorCount :: "TFatInfo \<Rightarrow> u32 option" where
  "FATInfoGetRootSectorCount i = do { assert (m_FATType i = FAT16); Some (m_nRootSectors i) }"

definition FATInfoGetRootEntries :: "TFatInfo \<Rightarrow> u32 option" where
  "FATInfoGetRootEntries i = do { assert (m_FATType i = FAT16); Some (m_nRootEntries i) }"

definition FATInfoGetRootCluster :: "TFatInfo \<Rightarrow> u32 option" where
  "FATInfoGetRootCluster i = do { assert (m_FATType i = FAT32); Some (m_nRootCluster i) }"

definition FATInfoGetFirstSector :: "TFatInfo \<Rightarrow> u32 \<Rightarrow> u32 option" where
  "FATInfoGetFirstSector i nCluster =
     (let nCluster = nCluster - 2 in
      do { assert (nCluster < m_nClusters i); Some (m_nFirstDataSector i + nCluster * m_nSectorsPerCluster i) })"

definition FATInfoUpdateFSInfo :: "'a fat_fs_scheme \<Rightarrow> 'a fat_fs_scheme option" where
  "FATInfoUpdateFSInfo s =
     (if m_FATType (m_FATInfo s) \<noteq> FAT32 then Some s
      else do {
        (pBuffer, s) \<leftarrow> FATCacheGetSector (m_nFSInfoSector (m_FATInfo s)) False s;
        assert (pBuffer \<noteq> NULL);
        d \<leftarrow> Some (Data (sbuf s pBuffer));
        if \<not> FSInfo_signatures d then FATCacheFreeSector pBuffer True s
        else do {
          s \<leftarrow> Some (set_data pBuffer (put32 492 (m_nNextFreeCluster (m_FATInfo s)) (put32 488 (m_nFreeCount (m_FATInfo s)) d)) s);
          s \<leftarrow> FATCacheMarkDirty pBuffer s;
          FATCacheFreeSector pBuffer True s } })"

definition FATInfoClusterAllocated :: "u32 \<Rightarrow> TFatInfo \<Rightarrow> TFatInfo" where
  "FATInfoClusterAllocated nCluster i =
     (let i = (if m_nFreeCount i \<noteq> FREE_COUNT_UNKNOWN \<and> m_nFreeCount i > 0 then i\<lparr>m_nFreeCount := m_nFreeCount i - 1\<rparr> else i) in
      if nCluster \<le> m_nClusters i then i\<lparr>m_nNextFreeCluster := nCluster + 1\<rparr> else i\<lparr>m_nNextFreeCluster := 2\<rparr>)"

definition FATInfoClusterFreed :: "u32 \<Rightarrow> TFatInfo \<Rightarrow> TFatInfo option" where
  "FATInfoClusterFreed nCluster i =
     (let i = (if m_nFreeCount i \<noteq> FREE_COUNT_UNKNOWN \<and> m_nFreeCount i < m_nClusters i then i\<lparr>m_nFreeCount := m_nFreeCount i + 1\<rparr> else i) in
      do { assert (m_nNextFreeCluster i \<noteq> NEXT_FREE_CLUSTER_UNKNOWN);
           assert (m_nNextFreeCluster i \<ge> 2);
           assert (m_nNextFreeCluster i \<le> m_nClusters i + 1);
           Some (if nCluster < m_nNextFreeCluster i then i\<lparr>m_nNextFreeCluster := nCluster\<rparr> else i) })"

definition FATInfoGetNextFreeCluster :: "TFatInfo \<Rightarrow> u32" where
  "FATInfoGetNextFreeCluster i = m_nNextFreeCluster i"

end
