(* ===== verification/Fat.thy ===== *)
theory Fat
  imports FatInfo
begin

text \<open>
  The file allocation table, \<^verbatim>\<open>env/lib/fs/fat.c\<close>: reading and writing its entries through the sector cache, allocating
  a cluster, following and freeing the chain of clusters of a file. A loop over a cyclic chain does not return.
\<close>

section \<open>Model\<close>

definition FATGetSector :: "u32 \<Rightarrow> u32 \<Rightarrow> 'a fat_fs_scheme \<Rightarrow> (ptr \<times> nat \<times> 'a fat_fs_scheme) option" where
  "FATGetSector nCluster nFAT s = do {
     assert (nCluster \<ge> 2);
     t \<leftarrow> FATInfoGetFATType (m_FATInfo s);
     nFATOffset \<leftarrow> Some (if t = FAT16 then nCluster * 2 else nCluster * 4);
     (p, s') \<leftarrow> FATCacheGetSector (m_nReservedSectors (m_FATInfo s) + nFAT * m_nFATSize (m_FATInfo s) + nFATOffset div FAT_SECTOR_SIZE) False s;
     Some (p, unat (nFATOffset mod FAT_SECTOR_SIZE), s') }"

definition FATGetEntry :: "ptr \<Rightarrow> nat \<Rightarrow> 'a fat_fs_scheme \<Rightarrow> u32 option" where
  "FATGetEntry p nSectorOffset s = do {
     t \<leftarrow> FATInfoGetFATType (m_FATInfo s);
     d \<leftarrow> Some (Data (sbuf s p));
     if t = FAT16 then do { assert (nSectorOffset \<le> 510); Some (ucast (le16 d nSectorOffset)) }
     else do { assert (nSectorOffset \<le> 508); Some (le32 d nSectorOffset AND 0x0FFFFFFF) } }"

definition FATSetEntry :: "ptr \<Rightarrow> nat \<Rightarrow> u32 \<Rightarrow> 'a fat_fs_scheme \<Rightarrow> 'a fat_fs_scheme option" where
  "FATSetEntry p i nEntry s = do {
     t \<leftarrow> FATInfoGetFATType (m_FATInfo s);
     d \<leftarrow> Some (Data (sbuf s p));
     if t = FAT16 then do {
       assert (i \<le> 510);
       assert (nEntry \<le> 0xFFFF);
       Some (set_data p (d[i := ucast (nEntry AND 0xFF), i + 1 := ucast (drop_bit 8 nEntry)]) s) }
     else do {
       assert (i \<le> 508);
       assert (nEntry \<le> 0x0FFFFFFF);
       Some (set_data p (d[i := ucast (nEntry AND 0xFF), i + 1 := ucast (drop_bit 8 nEntry AND 0xFF),
         i + 2 := ucast (drop_bit 16 nEntry AND 0xFF), i + 3 := (d ! (i + 3) AND 0xF0) OR ucast (drop_bit 24 nEntry AND 0x0F)]) s) } }"

definition FATGetClusterEntry :: "u32 \<Rightarrow> 'a fat_fs_scheme \<Rightarrow> (u32 \<times> 'a fat_fs_scheme) option" where
  "FATGetClusterEntry nCluster s = do {
     (p, off, s) \<leftarrow> FATGetSector nCluster (FATInfoGetReadFAT (m_FATInfo s)) s;
     assert (p \<noteq> NULL);
     e \<leftarrow> FATGetEntry p off s;
     s \<leftarrow> FATCacheFreeSector p True s;
     Some (e, s) }"

definition FATIsEOC :: "u32 \<Rightarrow> 'a fat_fs_scheme \<Rightarrow> bool option" where
  "FATIsEOC nClusterEntry s = do {
     t \<leftarrow> FATInfoGetFATType (m_FATInfo s);
     Some (if t = FAT16 then nClusterEntry \<ge> 0xFFF8 else nClusterEntry \<ge> 0x0FFFFFF8) }"

text \<open>The loop over the copies of the table, of \<open>FATSetClusterEntry\<close> and of \<open>FATAllocateCluster\<close>.\<close>

partial_function (option) set_entry_loop :: "u32 \<Rightarrow> u32 \<Rightarrow> u32 \<Rightarrow> 'a fat_fs_scheme \<Rightarrow> 'a fat_fs_scheme option" where
  "set_entry_loop nCluster nEntry nFAT s = do {
     l \<leftarrow> FATInfoGetLastWriteFAT (m_FATInfo s);
     if nFAT \<le> l then do {
       (p, off, s) \<leftarrow> FATGetSector nCluster nFAT s;
       assert (p \<noteq> NULL);
       s \<leftarrow> FATSetEntry p off nEntry s;
       s \<leftarrow> FATCacheMarkDirty p s;
       s \<leftarrow> FATCacheFreeSector p True s;
       set_entry_loop nCluster nEntry (nFAT + 1) s }
     else Some s }"

definition FATSetClusterEntry :: "u32 \<Rightarrow> u32 \<Rightarrow> 'a fat_fs_scheme \<Rightarrow> 'a fat_fs_scheme option" where
  "FATSetClusterEntry nCluster nEntry s =
     set_entry_loop nCluster nEntry (FATInfoGetFirstWriteFAT (m_FATInfo s)) s"

definition eoc_mark :: "TFatInfo \<Rightarrow> u32" where
  "eoc_mark i = (if m_FATType i = FAT16 then 0xFFFF else 0x0FFFFFFF)"

text \<open>The search of \<open>FATAllocateCluster\<close>, from the hint to the end of the volume; 0 means that no cluster was found.\<close>

partial_function (option) alloc_loop :: "u32 \<Rightarrow> 'a fat_fs_scheme \<Rightarrow> (u32 \<times> 'a fat_fs_scheme) option" where
  "alloc_loop nCluster s =
     (if nCluster < m_nClusters (m_FATInfo s) + 2 then do {
        (p, off, s) \<leftarrow> FATGetSector nCluster (FATInfoGetReadFAT (m_FATInfo s)) s;
        assert (p \<noteq> NULL);
        e \<leftarrow> FATGetEntry p off s;
        s \<leftarrow> FATCacheFreeSector p True s;
        if e = 0 then do {
          s \<leftarrow> set_entry_loop nCluster (eoc_mark (m_FATInfo s)) (FATInfoGetFirstWriteFAT (m_FATInfo s)) s;
          Some (nCluster, s\<lparr>m_FATInfo := FATInfoClusterAllocated nCluster (m_FATInfo s)\<rparr>) }
        else alloc_loop (nCluster + 1) s }
      else Some (0, s))"

definition FATAllocateCluster :: "'a fat_fs_scheme \<Rightarrow> (u32 \<times> 'a fat_fs_scheme) option" where
  "FATAllocateCluster s = alloc_loop (FATInfoGetNextFreeCluster (m_FATInfo s)) s"

partial_function (option) FATFreeClusterChain :: "u32 \<Rightarrow> 'a fat_fs_scheme \<Rightarrow> 'a fat_fs_scheme option" where
  "FATFreeClusterChain nFirstCluster s = do {
     (nNextCluster, s) \<leftarrow> FATGetClusterEntry nFirstCluster s;
     s \<leftarrow> FATSetClusterEntry nFirstCluster 0 s;
     i \<leftarrow> FATInfoClusterFreed nFirstCluster (m_FATInfo s);
     s \<leftarrow> Some (s\<lparr>m_FATInfo := i\<rparr>);
     e \<leftarrow> FATIsEOC nNextCluster s;
     if e then Some s else FATFreeClusterChain nNextCluster s }"

partial_function (option) last_cluster_loop :: "u32 \<Rightarrow> u32 \<Rightarrow> 'a fat_fs_scheme \<Rightarrow> (u32 \<times> 'a fat_fs_scheme) option" where
  "last_cluster_loop mCurCluster nNextCluster s = do {
     e \<leftarrow> FATIsEOC nNextCluster s;
     if e then Some (mCurCluster, s)
     else do { (n, s) \<leftarrow> FATGetClusterEntry nNextCluster s; last_cluster_loop nNextCluster n s } }"

definition FATGetFileLastCluster :: "u32 \<Rightarrow> 'a fat_fs_scheme \<Rightarrow> (u32 \<times> 'a fat_fs_scheme) option" where
  "FATGetFileLastCluster nFirstCluster s = do {
     (n, s) \<leftarrow> FATGetClusterEntry nFirstCluster s; last_cluster_loop nFirstCluster n s }"

partial_function (option) file_cluster_loop ::
  "u32 \<Rightarrow> u32 \<Rightarrow> u32 \<Rightarrow> u32 \<Rightarrow> 'a fat_fs_scheme \<Rightarrow> (u32 \<times> u32 \<times> 'a fat_fs_scheme) option" where
  "file_cluster_loop nClusterForCurFile nCount mCurCluster nNextCluster s = do {
     e \<leftarrow> FATIsEOC nNextCluster s;
     if e then Some (nCount, mCurCluster, s)
     else if nCount = nClusterForCurFile then Some (nCount, mCurCluster, s)
     else do { (n, s) \<leftarrow> FATGetClusterEntry nNextCluster s;
               file_cluster_loop nClusterForCurFile (nCount + 1) nNextCluster n s } }"

definition FATGetFileCluster :: "u32 \<Rightarrow> u32 \<Rightarrow> 'a fat_fs_scheme \<Rightarrow> (u32 \<times> 'a fat_fs_scheme) option" where
  "FATGetFileCluster nFirstCluster nOffset s = do {
     assert (m_nSectorsPerCluster (m_FATInfo s) \<noteq> 0);
     nClusterForCurFile \<leftarrow> Some (nOffset div FAT_SECTOR_SIZE div m_nSectorsPerCluster (m_FATInfo s));
     (n, s) \<leftarrow> FATGetClusterEntry nFirstCluster s;
     (nCount, c, s) \<leftarrow> file_cluster_loop nClusterForCurFile 0 nFirstCluster n s;
     Some (if nCount < nClusterForCurFile then 0 else c, s) }"

end
