(* ===== verification/FatProps.thy ===== *)
theory FatProps
  imports Fat
begin

text \<open>
  Correctness of the file allocation table. \<open>ready\<close> is a cache on a working card with a buffer to spare. The entries
  of the table are seen through the cache (\<open>fat_entry\<close>); reading one changes nothing, writing one changes it in every
  copy of the table and nothing else. From that follow allocation, the walk along a chain and its release.
\<close>

section \<open>A cache that is ready for use\<close>

definition ready :: "'a fat_state_scheme \<Rightarrow> bool" where
  "ready s \<longleftrightarrow> sec_inv {} s \<and> card_healthy (mmc_dev s) \<and> (\<forall>a\<in>set (sbufs s). suses s a + 1 \<noteq> 0) \<and>
     (\<exists>a\<in>set (sbufs s). suses s a = 0)"

text \<open>Nothing changes that a client can see.\<close>

definition stable :: "'a fat_state_scheme \<Rightarrow> 'a fat_state_scheme \<Rightarrow> bool" where
  "stable s s' \<longleftrightarrow> ready s' \<and> same_rest s s' \<and> suses s' = suses s \<and> (\<forall>j. svalid s j \<longrightarrow> sview s' j = sview s j)"

lemma stable_refl: "ready s \<Longrightarrow> stable s s"
  by (simp add: stable_def)

lemma stable_trans [trans]: "stable s t \<Longrightarrow> stable t u \<Longrightarrow> stable s u"
  unfolding stable_def using same_restD(2) by (metis same_rest_trans)

text \<open>A buffer in the hands of a client.\<close>

definition holds :: "ptr \<Rightarrow> u32 \<Rightarrow> ptr set \<Rightarrow> 'a fat_state_scheme \<Rightarrow> 'a fat_state_scheme \<Rightarrow> bool" where
  "holds p k W s s' \<longleftrightarrow> ready s \<and> p \<noteq> NULL \<and> p \<in> set (sbufs s) \<and> sec_inv W s' \<and> same_rest s s' \<and> nKey (sbuf s' p) = k \<and>
     suses s' = (suses s)(p := suses s p + 1)"

lemma get_ready:
  assumes "ready s" "svalid s k"
  obtains p s' where "FATCacheGetSector k False s = Some (p, s')" "holds p k {} s s'" "Data (sbuf s' p) = sview s k"
    "length (Data (sbuf s' p)) = 512" "\<And>j. svalid s j \<Longrightarrow> sview s' j = sview s j"
proof -
  have r: "sec_inv {} s" "card_healthy (mmc_dev s)" "\<forall>a\<in>set (sbufs s). suses s a + 1 \<noteq> 0" "\<not> (\<forall>a\<in>set (sbufs s). suses s a \<noteq> 0)"
    using assms(1) by (auto simp: ready_def)
  obtain p s' where G: "FATCacheGetSector k False s = Some (p, s')" "same_rest s s'"
    "p \<noteq> NULL" "p \<in> set (sbufs s)" "sec_inv {} s'" "nKey (sbuf s' p) = k" "suses s' = (suses s)(p := suses s p + 1)"
    "sview s' k = Data (sbuf s' p)" "length (Data (sbuf s' p)) = 512" "\<And>j. svalid s j \<Longrightarrow> sview s' j = sview s j"
    using get_sector [OF r(1) assms(2) r(3), of False] r(2,4) by auto
  then show thesis using that [of p s'] assms by (simp add: holds_def)
qed

lemma holds_uses: "holds p k W s s' \<Longrightarrow> suses s' p \<noteq> 0 \<and> p \<in> set (sbufs s') \<and> p \<noteq> NULL"
  by (auto simp: holds_def ready_def same_restD)

lemma holds_valid: "holds p k W s s' \<Longrightarrow> svalid s' = svalid s"
  using same_restD(2) unfolding holds_def by blast

lemma holds_data:
  assumes "holds p k W s s'" "length d = 512"
  shows "holds p k (insert p W) s (set_data p d s')" "svalid s j \<Longrightarrow> sview (set_data p d s') j = (if j = k then d else sview s' j)"
proof -
  have u: "suses s' p \<noteq> 0" "p \<in> set (sbufs s')" using holds_uses [OF assms(1)] by simp_all
  have i: "sec_inv W s'" using assms(1) by (simp add: holds_def)
  note D = set_data_spec [OF i u(2,1) assms(2)]
  show "holds p k (insert p W) s (set_data p d s')"
    using assms(1) D(1-4) by (auto simp: holds_def intro: same_rest_trans)
  show "sview (set_data p d s') j = (if j = k then d else sview s' j)" if "svalid s j"
    using D(6) [of j] that holds_valid [OF assms(1)] assms(1) by (simp add: holds_def)
qed

lemma holds_mark:
  assumes "holds p k W s s'"
  obtains t where "FATCacheMarkDirty p s' = Some t" "holds p k (W - {p}) s t" "\<And>j. svalid s j \<Longrightarrow> sview t j = sview s' j"
proof -
  have u: "suses s' p \<noteq> 0" "p \<in> set (sbufs s')" using holds_uses [OF assms(1)] by simp_all
  have i: "sec_inv W s'" using assms(1) by (simp add: holds_def)
  obtain t where t: "FATCacheMarkDirty p s' = Some t" "sec_inv (W - {p}) t" "same_rest s' t" "suses t = suses s'"
    "nKey (sbuf t p) = nKey (sbuf s' p)" "\<And>k. svalid s' k \<Longrightarrow> sview t k = sview s' k"
    using mark_sector [OF i u(2,1)] by metis
  have "holds p k (W - {p}) s t" using assms t(2-5) by (auto simp: holds_def intro: same_rest_trans)
  then show thesis using t(1,6) holds_valid [OF assms] by (intro that [of t]) simp_all
qed

lemma holds_release:
  assumes "holds p k {} s s'"
  obtains t where "FATCacheFreeSector p crit s' = Some t" "ready t" "same_rest s t" "suses t = suses s"
    "\<And>j. svalid s j \<Longrightarrow> sview t j = sview s' j"
proof -
  have u: "suses s' p \<noteq> 0" "p \<in> set (sbufs s')" using holds_uses [OF assms(1)] by simp_all
  have i: "sec_inv {} s'" "same_rest s s'" "suses s' = (suses s)(p := suses s p + 1)" "ready s"
    using assms(1) by (simp_all add: holds_def)
  obtain t where t: "FATCacheFreeSector p crit s' = Some t" "sec_inv {} t" "same_rest s' t"
    "suses t = (suses s')(p := suses s' p - 1)" "\<And>k. svalid s' k \<Longrightarrow> sview t k = sview s' k"
    using free_sector [OF i(1) u(2,1)] by auto
  have st: "same_rest s t" using same_rest_trans [OF i(2) t(3)] .
  have su: "suses t = suses s" using t(4) i(3) by simp
  have "ready t" using i(4) t(2) su same_restD [OF st] by (simp add: ready_def)
  with t(1,5) st su same_restD(2) [OF i(2)] that show thesis by simp
qed

lemma same_rest_info:
  fixes s s' :: "'a fat_fs_scheme"
  assumes "same_rest s s'"
  shows "m_FATInfo s' = m_FATInfo s" "fat_fs.more s' = fat_fs.more s"
  using assms by (cases s; cases s'; simp add: same_rest_def)+

text \<open>Reading a sector, and changing one.\<close>

lemma read_sector:
  assumes "ready s" "svalid s k"
  obtains p s1 where "FATCacheGetSector k False s = Some (p, s1)" "p \<noteq> NULL" "same_rest s s1" "Data (sbuf s1 p) = sview s k"
    "\<exists>s'. FATCacheFreeSector p crit s1 = Some s' \<and> stable s s'"
proof -
  obtain p s1 where G: "FATCacheGetSector k False s = Some (p, s1)" "holds p k {} s s1" "Data (sbuf s1 p) = sview s k"
    "\<And>j. svalid s j \<Longrightarrow> sview s1 j = sview s j"
    using get_ready [OF assms] by metis
  obtain t where "FATCacheFreeSector p crit s1 = Some t" "ready t" "same_rest s t" "suses t = suses s"
    "\<And>j. svalid s j \<Longrightarrow> sview t j = sview s1 j"
    using holds_release [OF G(2)] by metis
  then have "\<exists>s'. FATCacheFreeSector p crit s1 = Some s' \<and> stable s s'" using G(4) by (auto simp: stable_def)
  moreover have "p \<noteq> NULL" "same_rest s s1" using G(2) by (auto simp: holds_def)
  ultimately show thesis using that G(1,3) by blast
qed

definition changed :: "'a fat_state_scheme \<Rightarrow> (u32 \<Rightarrow> u8 list) \<Rightarrow> 'a fat_state_scheme \<Rightarrow> bool" where
  "changed s v s' \<longleftrightarrow> ready s' \<and> same_rest s s' \<and> suses s' = suses s \<and> (\<forall>j. svalid s j \<longrightarrow> sview s' j = v j)"

lemma change_sector:
  assumes "ready s" "svalid s k"
  obtains p s1 where "FATCacheGetSector k False s = Some (p, s1)" "p \<noteq> NULL" "same_rest s s1" "Data (sbuf s1 p) = sview s k"
    "length (sview s k) = 512"
    "\<And>d. length d = 512 \<Longrightarrow> \<exists>s2 s3. FATCacheMarkDirty p (set_data p d s1) = Some s2 \<and>
       FATCacheFreeSector p crit s2 = Some s3 \<and> changed s ((sview s)(k := d)) s3"
proof -
  obtain p s1 where G: "FATCacheGetSector k False s = Some (p, s1)" "holds p k {} s s1" "Data (sbuf s1 p) = sview s k"
    "length (Data (sbuf s1 p)) = 512" "\<And>j. svalid s j \<Longrightarrow> sview s1 j = sview s j"
    using get_ready [OF assms] by metis
  have "\<exists>s2 s3. FATCacheMarkDirty p (set_data p d s1) = Some s2 \<and> FATCacheFreeSector p crit s2 = Some s3 \<and>
      changed s ((sview s)(k := d)) s3" if d: "length d = 512" for d
  proof -
    note H = holds_data [OF G(2) d]
    obtain s2 where M: "FATCacheMarkDirty p (set_data p d s1) = Some s2" "holds p k {} s s2"
      "\<And>j. svalid s j \<Longrightarrow> sview s2 j = sview (set_data p d s1) j"
      using holds_mark [OF H(1)] by auto
    obtain s3 where F: "FATCacheFreeSector p crit s2 = Some s3" "ready s3" "same_rest s s3" "suses s3 = suses s"
      "\<And>j. svalid s j \<Longrightarrow> sview s3 j = sview s2 j"
      using holds_release [OF M(2)] by metis
    then show ?thesis using M H(2) G(5) by (auto simp: changed_def)
  qed
  moreover have "p \<noteq> NULL" "same_rest s s1" using G(2) by (auto simp: holds_def)
  ultimately show thesis using that G(1,3,4) by metis
qed


section \<open>Entries\<close>

definition entry_width :: "TFatInfo \<Rightarrow> nat" where
  "entry_width i = (if m_FATType i = FAT16 then 2 else 4)"

definition entry_of :: "TFatInfo \<Rightarrow> u8 list \<Rightarrow> nat \<Rightarrow> u32" where
  "entry_of i d off = (if m_FATType i = FAT16 then ucast (le16 d off) else le32 d off AND 0x0FFFFFFF)"

definition put_entry :: "TFatInfo \<Rightarrow> nat \<Rightarrow> u32 \<Rightarrow> u8 list \<Rightarrow> u8 list" where
  "put_entry i k e d =
     (if m_FATType i = FAT16 then d[k := ucast (e AND 0xFF), k + 1 := ucast (drop_bit 8 e)]
      else d[k := ucast (e AND 0xFF), k + 1 := ucast (drop_bit 8 e AND 0xFF),
         k + 2 := ucast (drop_bit 16 e AND 0xFF), k + 3 := (d ! (k + 3) AND 0xF0) OR ucast (drop_bit 24 e AND 0x0F)])"

definition max_entry :: "TFatInfo \<Rightarrow> u32" where
  "max_entry i = (if m_FATType i = FAT16 then 0xFFFF else 0x0FFFFFFF)"

lemma length_put_entry [simp]: "length (put_entry i k e d) = length d"
  by (simp add: put_entry_def)

lemma byte_masks: "(0xFF::u32) = mask 8" "(0x0FFFFFFF::u32) = mask 28" "(0x0F::u32) = mask 4" "(0xF0::u8) = push_bit 4 (mask 4)"
  by (simp_all add: mask_eq_exp_minus_1)

lemma le16_bytes:
  assumes "(e::u32) \<le> 0xFFFF"
  shows "(ucast (ucast (ucast (e AND 0xFF) :: u8) OR push_bit 8 (ucast (ucast (drop_bit 8 e) :: u8)) :: u16) :: u32) = e"
proof -
  have t: "take_bit 16 e = e" using assms by (intro take_bit_small) (simp add: word_le_nat_alt)
  show ?thesis unfolding byte_masks
  proof (rule bit_word_eqI)
    fix n
    have b: "bit e n \<Longrightarrow> n < 16" using t by (metis bit_take_bit_iff)
    consider "n < 8" | "8 \<le> n" by linarith
    then show "bit (ucast (ucast (ucast (e AND mask 8) :: u8) OR push_bit 8 (ucast (ucast (drop_bit 8 e) :: u8)) :: u16) :: u32) n = bit e n"
      by cases (use b in \<open>auto simp: bit_simps\<close>)
  qed
qed

lemma le32_bytes:
  assumes "(e::u32) \<le> 0x0FFFFFFF"
  shows "(ucast (ucast (e AND 0xFF) :: u8) OR push_bit 8 (ucast (ucast (drop_bit 8 e AND 0xFF) :: u8)) OR
     push_bit 16 (ucast (ucast (drop_bit 16 e AND 0xFF) :: u8)) OR
     push_bit 24 (ucast ((b AND 0xF0) OR ucast (drop_bit 24 e AND 0x0F) :: u8)) :: u32) AND 0x0FFFFFFF = e"
proof -
  have t: "take_bit 28 e = e" using assms by (intro take_bit_small) (simp add: word_le_nat_alt)
  show ?thesis unfolding byte_masks
  proof (rule bit_word_eqI)
    fix n
    assume n32: "n < LENGTH(32)"
    have b: "bit e n \<Longrightarrow> n < 28" using t by (metis bit_take_bit_iff)
    consider "n < 8" | "8 \<le> n" "n < 16" | "16 \<le> n" "n < 24" | "24 \<le> n" "n < 28" | "28 \<le> n" by linarith
    then show "bit ((ucast (ucast (e AND mask 8) :: u8) OR push_bit 8 (ucast (ucast (drop_bit 8 e AND mask 8) :: u8)) OR
     push_bit 16 (ucast (ucast (drop_bit 16 e AND mask 8) :: u8)) OR
     push_bit 24 (ucast ((b AND push_bit 4 (mask 4)) OR ucast (drop_bit 24 e AND mask 4) :: u8)) :: u32) AND mask 28) n = bit e n"
    proof cases
      case 1
      then show ?thesis by (simp add: bit_simps)
    next
      case 2
      then have "\<not> n - 8 \<ge> 8" by simp
      with 2 show ?thesis by (simp add: bit_simps)
    next
      case 3
      then have "\<not> n < 16" "n - 16 < 8" "\<not> n - 8 < 8" by simp_all
      with 3 show ?thesis by (simp add: bit_simps)
    next
      case 4
      then have "n - 24 < 4" "\<not> n - 16 < 8" "\<not> n - 8 < 8" by simp_all
      with 4 show ?thesis by (simp add: bit_simps)
    next
      case 5
      then show ?thesis using b by (auto simp: bit_simps)
    qed
  qed
qed

lemma entry_put_same:
  assumes "length d = 512" "k + entry_width i \<le> 512" "e \<le> max_entry i"
  shows "entry_of i (put_entry i k e d) k = e"
  using assms le16_bytes [of e] le32_bytes [of e "d ! (k + 3)"]
  by (auto simp: entry_of_def put_entry_def entry_width_def max_entry_def le16_def le32_def nth_list_update)

lemma entry_put_other:
  assumes "length d = 512" "k + entry_width i \<le> j \<or> j + entry_width i \<le> k"
  shows "entry_of i (put_entry i k e d) j = entry_of i d j"
  using assms by (auto simp: entry_of_def put_entry_def entry_width_def le16_def le32_def nth_list_update)


section \<open>Where the entries are\<close>

definition partition_sectors :: "'a fat_state_scheme \<Rightarrow> nat" where
  "partition_sectors s = (case m_pPartition (m_Cache s) of None \<Rightarrow> 0 | Some pt \<Rightarrow> unat (m_nNumberOfSectors pt))"

lemma svalid_sectors: "svalid s k \<longleftrightarrow> unat k < partition_sectors s"
  by (simp add: svalid_def partition_sectors_def sector_valid_def split: option.split)

lemma partition_sectors_bound: "partition_sectors s < 2 ^ 32"
  using unat_u32_less by (simp add: partition_sectors_def split: option.split)

lemma same_rest_sectors: "same_rest s s' \<Longrightarrow> partition_sectors s' = partition_sectors s"
  by (simp add: partition_sectors_def same_rest_def)

text \<open>A volume whose tables lie in the partition and have an entry for every cluster.\<close>

definition fat_ok :: "'a fat_fs_scheme \<Rightarrow> bool" where
  "fat_ok s \<longleftrightarrow> (let i = m_FATInfo s in m_FATType i \<noteq> FATUnknown \<and> 0 < m_nNumberOfFATs i \<and>
     unat (m_nReservedSectors i) + unat (m_nNumberOfFATs i) * unat (m_nFATSize i) \<le> partition_sectors s \<and>
     (unat (m_nClusters i) + 2) * entry_width i \<le> unat (m_nFATSize i) * 512 \<and>
     unat (m_nClusters i) + 2 < unat (max_entry i) - 7 \<and>
     (m_FATType i = FAT32 \<and> \<not> m_bFATMirroring i \<longrightarrow> m_nActiveFAT i < m_nNumberOfFATs i))"

definition cluster_ok :: "TFatInfo \<Rightarrow> u32 \<Rightarrow> bool" where
  "cluster_ok i c \<longleftrightarrow> 2 \<le> unat c \<and> unat c < unat (m_nClusters i) + 2"

definition fat_byte :: "TFatInfo \<Rightarrow> u32 \<Rightarrow> nat" where
  "fat_byte i c = unat c * entry_width i"

definition fat_sector :: "TFatInfo \<Rightarrow> u32 \<Rightarrow> u32 \<Rightarrow> u32" where
  "fat_sector i f c = m_nReservedSectors i + f * m_nFATSize i + of_nat (fat_byte i c div 512)"

text \<open>The entry of a cluster in copy \<open>f\<close> of the table.\<close>

definition fat_at :: "'a fat_fs_scheme \<Rightarrow> u32 \<Rightarrow> u32 \<Rightarrow> u32" where
  "fat_at s f c = entry_of (m_FATInfo s) (sview s (fat_sector (m_FATInfo s) f c)) (fat_byte (m_FATInfo s) c mod 512)"

lemma fat_okD:
  assumes "fat_ok s" and i: "i = m_FATInfo s"
  shows "m_FATType i \<noteq> FATUnknown" "0 < m_nNumberOfFATs i"
    "unat (m_nReservedSectors i) + unat (m_nNumberOfFATs i) * unat (m_nFATSize i) \<le> partition_sectors s"
    "(unat (m_nClusters i) + 2) * entry_width i \<le> unat (m_nFATSize i) * 512"
    "unat (m_nClusters i) + 2 < unat (max_entry i) - 7" "unat (m_nClusters i + 2) = unat (m_nClusters i) + 2"
    "m_FATType i = FAT32 \<and> \<not> m_bFATMirroring i \<Longrightarrow> m_nActiveFAT i < m_nNumberOfFATs i"
proof -
  show "m_FATType i \<noteq> FATUnknown" "0 < m_nNumberOfFATs i"
    "unat (m_nReservedSectors i) + unat (m_nNumberOfFATs i) * unat (m_nFATSize i) \<le> partition_sectors s"
    "(unat (m_nClusters i) + 2) * entry_width i \<le> unat (m_nFATSize i) * 512"
    "m_FATType i = FAT32 \<and> \<not> m_bFATMirroring i \<Longrightarrow> m_nActiveFAT i < m_nNumberOfFATs i"
    using assms by (simp_all add: fat_ok_def Let_def)
  show c: "unat (m_nClusters i) + 2 < unat (max_entry i) - 7" using assms by (simp add: fat_ok_def Let_def)
  then show "unat (m_nClusters i + 2) = unat (m_nClusters i) + 2"
    using unat_u32_less [of "max_entry i"] by (subst unat_add_no_wrap) simp_all
qed

lemma entry_width_cases: "entry_width i = 2 \<or> entry_width i = 4"
  by (simp add: entry_width_def)

lemma fat_byte_bound:
  assumes "fat_ok s" "cluster_ok (m_FATInfo s) c"
  shows "fat_byte (m_FATInfo s) c div 512 < unat (m_nFATSize (m_FATInfo s))"
    "fat_byte (m_FATInfo s) c mod 512 + entry_width (m_FATInfo s) \<le> 512" "fat_byte (m_FATInfo s) c < 2 ^ 32"
proof -
  let ?i = "m_FATInfo s"
  have "Suc (unat c) * entry_width ?i \<le> (unat (m_nClusters ?i) + 2) * entry_width ?i"
    using assms(2) by (intro mult_le_mono1) (simp add: cluster_ok_def)
  then have b: "fat_byte ?i c + entry_width ?i \<le> unat (m_nFATSize ?i) * 512"
    using fat_okD(4) [OF assms(1) refl] by (simp add: fat_byte_def add.commute)
  have "0 < entry_width ?i" using entry_width_cases [of ?i] by auto
  with b show "fat_byte ?i c div 512 < unat (m_nFATSize ?i)" by (simp add: less_mult_imp_div_less)
  have "entry_width ?i dvd fat_byte ?i c mod 512"
    using entry_width_cases [of ?i] by (auto simp: fat_byte_def dvd_mod_iff intro!: dvd_mod)
  moreover have "fat_byte ?i c mod 512 < 512" by simp
  ultimately show "fat_byte ?i c mod 512 + entry_width ?i \<le> 512"
    using entry_width_cases [of ?i] by (elim disjE dvdE) auto
  have "unat c < 2 ^ 28"
    using assms(2) fat_okD(5) [OF assms(1) refl] by (auto simp: cluster_ok_def max_entry_def split: if_splits)
  then show "fat_byte ?i c < 2 ^ 32" using entry_width_cases [of ?i] by (auto simp: fat_byte_def)
qed

lemma fat_sector_unat:
  assumes "fat_ok s" "cluster_ok (m_FATInfo s) c" "f < m_nNumberOfFATs (m_FATInfo s)"
  shows "unat (fat_sector (m_FATInfo s) f c) =
      unat (m_nReservedSectors (m_FATInfo s)) + unat f * unat (m_nFATSize (m_FATInfo s)) + fat_byte (m_FATInfo s) c div 512"
    "svalid s (fat_sector (m_FATInfo s) f c)"
proof -
  let ?i = "m_FATInfo s"
  let ?R = "unat (m_nReservedSectors ?i)" and ?S = "unat (m_nFATSize ?i)" and ?b = "fat_byte ?i c div 512"
  have "Suc (unat f) * ?S \<le> unat (m_nNumberOfFATs ?i) * ?S"
    using assms(3) by (intro mult_le_mono1) (simp add: word_less_nat_alt)
  then have lt: "?R + unat f * ?S + ?b < partition_sectors s"
    using fat_okD(3) [OF assms(1) refl] fat_byte_bound(1) [OF assms(1,2)] by simp
  note P = partition_sectors_bound [of s]
  have m: "unat (f * m_nFATSize ?i) = unat f * ?S" using lt P by (simp add: unat_word_ariths)
  have a: "unat (m_nReservedSectors ?i + f * m_nFATSize ?i) = ?R + unat f * ?S"
    using lt P by (subst unat_add_no_wrap) (simp_all add: m)
  have b: "unat (of_nat ?b :: u32) = ?b" using lt P by (intro unat_of_nat_small) simp
  show e: "unat (fat_sector ?i f c) = ?R + unat f * ?S + ?b"
    using lt P unfolding fat_sector_def by (subst unat_add_no_wrap) (simp_all add: a b)
  show "svalid s (fat_sector ?i f c)" using lt by (simp add: svalid_sectors e)
qed

text \<open>The offsets the code computes are these.\<close>

lemma fat_offset_code:
  assumes "fat_ok s" "cluster_ok (m_FATInfo s) c"
  defines "off \<equiv> if m_FATType (m_FATInfo s) = FAT16 then c * 2 else c * 4"
  shows "m_nReservedSectors (m_FATInfo s) + f * m_nFATSize (m_FATInfo s) + off div FAT_SECTOR_SIZE = fat_sector (m_FATInfo s) f c"
    "unat (off mod FAT_SECTOR_SIZE) = fat_byte (m_FATInfo s) c mod 512"
proof -
  let ?i = "m_FATInfo s"
  have u: "unat off = fat_byte ?i c"
    using fat_byte_bound(3) [OF assms(1,2)] by (auto simp: off_def fat_byte_def entry_width_def unat_word_ariths)
  then show "unat (off mod FAT_SECTOR_SIZE) = fat_byte ?i c mod 512"
    by (simp add: unat_mod FAT_SECTOR_SIZE_def)
  have "fat_byte ?i c div 512 < 2 ^ 32" using fat_byte_bound(3) [OF assms(1,2)] by (meson div_le_dividend le_less_trans)
  then have "off div FAT_SECTOR_SIZE = of_nat (fat_byte ?i c div 512)"
    by (simp add: word_unat_eq_iff unat_div u FAT_SECTOR_SIZE_def unat_of_nat_small)
  then show "m_nReservedSectors ?i + f * m_nFATSize ?i + off div FAT_SECTOR_SIZE = fat_sector ?i f c"
    by (simp add: fat_sector_def)
qed

lemma fat_sector_inj:
  assumes "fat_ok s" "cluster_ok (m_FATInfo s) c" "cluster_ok (m_FATInfo s) c'" "f < m_nNumberOfFATs (m_FATInfo s)" "f' < m_nNumberOfFATs (m_FATInfo s)"
    and e: "fat_sector (m_FATInfo s) f c = fat_sector (m_FATInfo s) f' c'"
  shows "f = f' \<and> fat_byte (m_FATInfo s) c div 512 = fat_byte (m_FATInfo s) c' div 512"
proof -
  let ?i = "m_FATInfo s" and ?S = "unat (m_nFATSize (m_FATInfo s))"
  have b: "fat_byte ?i c div 512 < ?S" "fat_byte ?i c' div 512 < ?S"
    using fat_byte_bound(1) [OF assms(1)] assms(2,3) by blast+
  have "unat f * ?S + fat_byte ?i c div 512 = unat f' * ?S + fat_byte ?i c' div 512"
    using arg_cong [OF e, of unat] fat_sector_unat(1) [OF assms(1)] assms(2-5) by simp
  then have "(fat_byte ?i c div 512 + ?S * unat f) div ?S = (fat_byte ?i c' div 512 + ?S * unat f') div ?S"
    "(fat_byte ?i c div 512 + ?S * unat f) mod ?S = (fat_byte ?i c' div 512 + ?S * unat f') mod ?S"
    by (simp_all add: algebra_simps)
  with b show ?thesis by (simp add: word_unat_eq_iff)
qed

lemma fat_byte_apart:
  assumes "unat c \<noteq> unat c'" "fat_byte i c div 512 = fat_byte i c' div 512"
  shows "fat_byte i c mod 512 + entry_width i \<le> fat_byte i c' mod 512 \<or> fat_byte i c' mod 512 + entry_width i \<le> fat_byte i c mod 512"
proof -
  let ?w = "entry_width i"
  have "unat c * ?w + ?w \<le> unat c' * ?w \<or> unat c' * ?w + ?w \<le> unat c * ?w"
    using assms(1) by (metis linorder_neqE_nat Suc_leI mult_le_mono1 mult_Suc add.commute)
  moreover have "fat_byte i c = 512 * (fat_byte i c div 512) + fat_byte i c mod 512"
    "fat_byte i c' = 512 * (fat_byte i c div 512) + fat_byte i c' mod 512"
    by (simp, simp add: assms(2))
  ultimately show ?thesis unfolding fat_byte_def by linarith
qed

section \<open>Reading and writing entries\<close>

definition fat_entry :: "'a fat_fs_scheme \<Rightarrow> u32 \<Rightarrow> u32" where
  "fat_entry s c = fat_at s (FATInfoGetReadFAT (m_FATInfo s)) c"

lemma same_rest_fat_ok: "same_rest s s' \<Longrightarrow> fat_ok s \<Longrightarrow> fat_ok (s' :: 'a fat_fs_scheme)"
  by (simp add: fat_ok_def same_rest_info same_rest_sectors)

lemma read_fat_ok: "fat_ok s \<Longrightarrow> FATInfoGetReadFAT (m_FATInfo s) < m_nNumberOfFATs (m_FATInfo s)"
  by (simp add: FATInfoGetReadFAT_def fat_ok_def Let_def)

lemma stable_fat_at:
  assumes "stable s s'" "fat_ok s" "cluster_ok (m_FATInfo s) c" "f < m_nNumberOfFATs (m_FATInfo s)"
  shows "fat_at s' f c = fat_at (s :: 'a fat_fs_scheme) f c"
  using assms(1) fat_sector_unat(2) [OF assms(2-4)] same_rest_info [of s s'] by (simp add: stable_def fat_at_def)

lemma stable_fat_entry:
  assumes "stable s s'" "fat_ok s" "cluster_ok (m_FATInfo s) c"
  shows "fat_entry s' c = fat_entry (s :: 'a fat_fs_scheme) c"
  using stable_fat_at [OF assms read_fat_ok [OF assms(2)]] assms(1) same_rest_info [of s s'] by (simp add: fat_entry_def stable_def)

lemma FATGetSector_code:
  assumes "fat_ok s" "cluster_ok (m_FATInfo s) c"
  shows "FATGetSector c f s = do { (p, s') \<leftarrow> FATCacheGetSector (fat_sector (m_FATInfo s) f c) False s;
     Some (p, fat_byte (m_FATInfo s) c mod 512, s') }"
proof -
  have "(2::u32) \<le> c" using assms(2) by (simp add: cluster_ok_def word_le_nat_alt)
  then show ?thesis
    using fat_okD(1) [OF assms(1) refl] fat_offset_code [OF assms]
    by (simp add: FATGetSector_def FATInfoGetFATType_def split: if_splits)
qed

lemma FATGetEntry_code:
  assumes "m_FATType (m_FATInfo s) \<noteq> FATUnknown" "off + entry_width (m_FATInfo s) \<le> 512"
  shows "FATGetEntry p off s = Some (entry_of (m_FATInfo s) (Data (sbuf s p)) off)"
  using assms by (auto simp: FATGetEntry_def FATInfoGetFATType_def entry_of_def entry_width_def)

lemma FATSetEntry_code:
  assumes "m_FATType (m_FATInfo s) \<noteq> FATUnknown" "off + entry_width (m_FATInfo s) \<le> 512" "e \<le> max_entry (m_FATInfo s)"
  shows "FATSetEntry p off e s = Some (set_data p (put_entry (m_FATInfo s) off e (Data (sbuf s p))) s)"
  using assms by (auto simp: FATSetEntry_def FATInfoGetFATType_def put_entry_def entry_width_def max_entry_def)

text \<open>The part that \<open>FATGetClusterEntry\<close> and \<open>FATAllocateCluster\<close> share.\<close>

lemma read_entry:
  assumes "ready s" "fat_ok s" "cluster_ok (m_FATInfo s) c"
  obtains p s1 s' where "FATGetSector c (FATInfoGetReadFAT (m_FATInfo s)) s = Some (p, fat_byte (m_FATInfo s) c mod 512, s1)"
    "p \<noteq> NULL" "FATGetEntry p (fat_byte (m_FATInfo s) c mod 512) s1 = Some (fat_entry s c)"
    "FATCacheFreeSector p True s1 = Some s'" "stable s s'" "m_FATInfo s1 = m_FATInfo s"
proof -
  let ?i = "m_FATInfo s" and ?f = "FATInfoGetReadFAT (m_FATInfo s)"
  obtain p s1 where R: "FATCacheGetSector (fat_sector ?i ?f c) False s = Some (p, s1)" "p \<noteq> NULL" "same_rest s s1"
    "Data (sbuf s1 p) = sview s (fat_sector ?i ?f c)" "\<exists>s'. FATCacheFreeSector p True s1 = Some s' \<and> stable s s'"
    using read_sector [OF assms(1) fat_sector_unat(2) [OF assms(2,3) read_fat_ok [OF assms(2)]], of True] by metis
  have i1: "m_FATInfo s1 = ?i" using same_rest_info [OF R(3)] by simp
  have "FATGetEntry p (fat_byte ?i c mod 512) s1 = Some (fat_entry s c)"
    using FATGetEntry_code [of s1 "fat_byte ?i c mod 512" p] fat_okD(1) [OF assms(2) refl] fat_byte_bound(2) [OF assms(2,3)]
    by (simp add: i1 R(4) fat_entry_def fat_at_def)
  moreover have "FATGetSector c ?f s = Some (p, fat_byte ?i c mod 512, s1)"
    by (simp add: FATGetSector_code [OF assms(2,3)] R(1))
  ultimately show thesis using that R(2,5) i1 by blast
qed

lemma FATGetClusterEntry_spec:
  assumes "ready s" "fat_ok s" "cluster_ok (m_FATInfo s) c"
  obtains s' where "FATGetClusterEntry c s = Some (fat_entry s c, s')" "stable s s'"
  using read_entry [OF assms] that by (fastforce simp: FATGetClusterEntry_def)


lemma changed_trans: "changed s v s1 \<Longrightarrow> changed s1 w s2 \<Longrightarrow> changed s w s2"
  unfolding changed_def using same_restD(2) same_rest_trans by metis

lemma changed_cong: "changed s v s' \<Longrightarrow> (\<And>j. svalid s j \<Longrightarrow> v j = w j) \<Longrightarrow> changed s w s'"
  by (simp add: changed_def)

definition write_fats :: "TFatInfo \<Rightarrow> u32 set" where
  "write_fats i = (if m_FATType i = FAT32 \<and> \<not> m_bFATMirroring i then {m_nActiveFAT i} else {f. f < m_nNumberOfFATs i})"

lemma last_write_fat:
  assumes "fat_ok s"
  obtains l where "FATInfoGetLastWriteFAT (m_FATInfo s) = Some l" "l < m_nNumberOfFATs (m_FATInfo s)"
    "{f. FATInfoGetFirstWriteFAT (m_FATInfo s) \<le> f \<and> f \<le> l} = write_fats (m_FATInfo s)"
proof (cases "m_FATType (m_FATInfo s) = FAT32 \<and> \<not> m_bFATMirroring (m_FATInfo s)")
  case True
  then show thesis using fat_okD(7) [OF assms refl]
    by (intro that [of "m_nActiveFAT (m_FATInfo s)"]) (auto simp: FATInfoGetLastWriteFAT_def FATInfoGetFirstWriteFAT_def write_fats_def)
next
  case False
  have n: "0 < m_nNumberOfFATs (m_FATInfo s)" by (rule fat_okD(2) [OF assms refl])
  then have "unat (m_nNumberOfFATs (m_FATInfo s) - 1) = unat (m_nNumberOfFATs (m_FATInfo s)) - 1"
    by (subst unat_sub_no_wrap) (simp_all add: word_less_nat_alt)
  then have "f \<le> m_nNumberOfFATs (m_FATInfo s) - 1 \<longleftrightarrow> f < m_nNumberOfFATs (m_FATInfo s)" for f
    using n by (auto simp: word_le_nat_alt word_less_nat_alt)
  then show thesis using False n
    by (intro that [of "m_nNumberOfFATs (m_FATInfo s) - 1"])
      (auto simp: FATInfoGetLastWriteFAT_def FATInfoGetFirstWriteFAT_def write_fats_def)
qed

definition put_view :: "TFatInfo \<Rightarrow> u32 set \<Rightarrow> u32 \<Rightarrow> u32 \<Rightarrow> (u32 \<Rightarrow> u8 list) \<Rightarrow> u32 \<Rightarrow> u8 list" where
  "put_view i F c e v j = (if \<exists>f\<in>F. j = fat_sector i f c then put_entry i (fat_byte i c mod 512) e (v j) else v j)"

lemma set_entry_loop_spec:
  assumes "ready s" "fat_ok s" "cluster_ok (m_FATInfo s) c" "e \<le> max_entry (m_FATInfo s)"
    and l: "FATInfoGetLastWriteFAT (m_FATInfo s) = Some l" "l < m_nNumberOfFATs (m_FATInfo s)"
  shows "\<exists>s'. set_entry_loop c e f s = Some s' \<and> changed s (put_view (m_FATInfo s) {g. f \<le> g \<and> g \<le> l} c e (sview s)) s'"
  using assms
proof (induction "Suc (unat l) - unat f" arbitrary: f s)
  case 0
  then have "\<not> f \<le> l" by (simp add: word_le_nat_alt)
  then show ?case using 0 by (subst set_entry_loop.simps) (auto simp: changed_def put_view_def)
next
  case (Suc n)
  let ?i = "m_FATInfo s" and ?off = "fat_byte (m_FATInfo s) c mod 512" and ?k = "fat_sector (m_FATInfo s) f c"
  have fl: "f \<le> l" using Suc.hyps(2) by (simp add: word_le_nat_alt)
  then have fn: "f < m_nNumberOfFATs ?i" using Suc.prems(6) by simp
  have "unat f < 2 ^ 32 - 1" using fn unat_u32_less [of "m_nNumberOfFATs ?i"] by (simp add: word_less_nat_alt)
  then have f1: "unat (f + 1) = Suc (unat f)" by (subst unat_add_no_wrap) simp_all
  obtain p s1 where C: "FATCacheGetSector ?k False s = Some (p, s1)" "p \<noteq> NULL" "same_rest s s1" "Data (sbuf s1 p) = sview s ?k"
    "length (sview s ?k) = 512"
    "\<And>d. length d = 512 \<Longrightarrow> \<exists>s2 s3. FATCacheMarkDirty p (set_data p d s1) = Some s2 \<and>
       FATCacheFreeSector p True s2 = Some s3 \<and> changed s ((sview s)(?k := d)) s3"
    using change_sector [OF Suc.prems(1) fat_sector_unat(2) [OF Suc.prems(2,3) fn], of True] by metis
  have i1: "m_FATInfo s1 = ?i" using same_rest_info [OF C(3)] by simp
  let ?d = "put_entry ?i ?off e (sview s ?k)"
  obtain s2 s3 where M: "FATCacheMarkDirty p (set_data p ?d s1) = Some s2" "FATCacheFreeSector p True s2 = Some s3"
    "changed s ((sview s)(?k := ?d)) s3"
    using C(6) [of ?d] C(5) by auto
  have E: "FATSetEntry p ?off e s1 = Some (set_data p ?d s1)"
    using FATSetEntry_code [of s1 ?off e p] fat_okD(1) [OF Suc.prems(2) refl] fat_byte_bound(2) [OF Suc.prems(2,3)] Suc.prems(4)
    by (simp add: i1 C(4))
  have run: "set_entry_loop c e f s = set_entry_loop c e (f + 1) s3"
    by (subst set_entry_loop.simps) (simp add: Suc.prems(5) fl FATGetSector_code [OF Suc.prems(2,3)] C(1,2) E M(1,2))
  have r3: "ready s3" "same_rest s s3" "\<And>j. svalid s j \<Longrightarrow> sview s3 j = ((sview s)(?k := ?d)) j"
    using M(3) by (simp_all add: changed_def)
  have i3: "m_FATInfo s3 = ?i" using same_rest_info [OF r3(2)] by simp
  have "\<exists>s'. set_entry_loop c e (f + 1) s3 = Some s' \<and> changed s3 (put_view (m_FATInfo s3) {g. f + 1 \<le> g \<and> g \<le> l} c e (sview s3)) s'"
    using Suc.hyps(2) Suc.prems(3-6) r3(1) same_rest_fat_ok [OF r3(2) Suc.prems(2)] by (intro Suc.hyps(1)) (simp_all add: f1 i3)
  then obtain s' where I: "set_entry_loop c e (f + 1) s3 = Some s'"
    "changed s3 (put_view ?i {g. f + 1 \<le> g \<and> g \<le> l} c e (sview s3)) s'" by (auto simp: i3)
  have "changed s (put_view ?i {g. f + 1 \<le> g \<and> g \<le> l} c e (sview s3)) s'" by (rule changed_trans [OF M(3) I(2)])
  then have "changed s (put_view ?i {g. f \<le> g \<and> g \<le> l} c e (sview s)) s'"
  proof (rule changed_cong)
    fix j
    assume j: "svalid s j"
    have split: "{g. f \<le> g \<and> g \<le> l} = insert f {g. f + 1 \<le> g \<and> g \<le> l}"
      using fl f1 by (auto simp: word_le_nat_alt word_unat_eq_iff)
    have ne: "?k \<noteq> fat_sector ?i g c" if "f + 1 \<le> g" "g \<le> l" for g
    proof
      assume "?k = fat_sector ?i g c"
      then have "f = g" using fat_sector_inj [OF Suc.prems(2,3,3) fn] that(2) Suc.prems(6) by auto
      then show False using that(1) f1 by (simp add: word_le_nat_alt)
    qed
    show "put_view ?i {g. f + 1 \<le> g \<and> g \<le> l} c e (sview s3) j = put_view ?i {g. f \<le> g \<and> g \<le> l} c e (sview s) j"
      using r3(3) [OF j] ne unfolding split by (auto simp: put_view_def)
  qed
  with run I(1) show ?case by auto
qed

lemma FATSetClusterEntry_spec:
  assumes "ready s" "fat_ok s" "cluster_ok (m_FATInfo s) c" "e \<le> max_entry (m_FATInfo s)"
  obtains s' where "FATSetClusterEntry c e s = Some s'" "changed s (put_view (m_FATInfo s) (write_fats (m_FATInfo s)) c e (sview s)) s'"
proof -
  obtain l where l: "FATInfoGetLastWriteFAT (m_FATInfo s) = Some l" "l < m_nNumberOfFATs (m_FATInfo s)"
    "{f. FATInfoGetFirstWriteFAT (m_FATInfo s) \<le> f \<and> f \<le> l} = write_fats (m_FATInfo s)"
    using last_write_fat [OF assms(2)] .
  from set_entry_loop_spec [OF assms l(1,2), of "FATInfoGetFirstWriteFAT (m_FATInfo s)"] l(3) that
  show thesis by (auto simp: FATSetClusterEntry_def)
qed

text \<open>What a change of one entry means for all of them.\<close>

lemma write_fats_bound: "fat_ok s \<Longrightarrow> f \<in> write_fats (m_FATInfo s) \<Longrightarrow> f < m_nNumberOfFATs (m_FATInfo s)"
  by (auto simp: write_fats_def fat_ok_def Let_def split: if_splits)

lemma read_in_write_fats: "fat_ok s \<Longrightarrow> FATInfoGetReadFAT (m_FATInfo s) \<in> write_fats (m_FATInfo s)"
  by (auto simp: write_fats_def FATInfoGetReadFAT_def fat_ok_def Let_def)

lemma changed_fat_at:
  fixes s :: "'a fat_fs_scheme"
  assumes "ready s" "fat_ok s" "cluster_ok (m_FATInfo s) c" "e \<le> max_entry (m_FATInfo s)"
    and ch: "changed s (put_view (m_FATInfo s) (write_fats (m_FATInfo s)) c e (sview s)) s'"
    and c': "cluster_ok (m_FATInfo s) c'" "f < m_nNumberOfFATs (m_FATInfo s)"
  shows "fat_at s' f c' = (if c' = c \<and> f \<in> write_fats (m_FATInfo s) then e else fat_at s f c')"
proof -
  let ?i = "m_FATInfo s" and ?k = "fat_sector (m_FATInfo s) f c'"
  have v: "svalid s ?k" by (rule fat_sector_unat(2) [OF assms(2) c'])
  have i': "m_FATInfo s' = ?i" using ch same_rest_info by (auto simp: changed_def)
  have sv: "sview s' ?k = put_view ?i (write_fats ?i) c e (sview s) ?k" using ch v by (simp add: changed_def)
  have len: "length (sview s ?k) = 512" using get_ready [OF assms(1) v] by metis
  show ?thesis
  proof (cases "\<exists>g\<in>write_fats ?i. ?k = fat_sector ?i g c")
    case False
    then have "\<not> (c' = c \<and> f \<in> write_fats ?i)" by auto
    then show ?thesis using sv False by (auto simp: fat_at_def i' put_view_def)
  next
    case True
    then obtain g where g: "g \<in> write_fats ?i" "?k = fat_sector ?i g c" by blast
    have J: "f = g" "fat_byte ?i c' div 512 = fat_byte ?i c div 512"
      using fat_sector_inj [OF assms(2) c'(1) assms(3) c'(2) write_fats_bound [OF assms(2) g(1)] g(2)] by simp_all
    have sv': "sview s' ?k = put_entry ?i (fat_byte ?i c mod 512) e (sview s ?k)" using sv True by (simp add: put_view_def)
    show ?thesis
    proof (cases "c' = c")
      case True
      then show ?thesis using sv' g J entry_put_same [OF len fat_byte_bound(2) [OF assms(2,3)] assms(4)]
        by (simp add: fat_at_def i')
    next
      case False
      then have "unat c \<noteq> unat c'" by (simp add: word_unat_eq_iff)
      from fat_byte_apart [OF this J(2) [symmetric]] False show ?thesis
        using sv' entry_put_other [OF len] by (simp add: fat_at_def i')
    qed
  qed
qed

lemma set_entry:
  fixes s :: "'a fat_fs_scheme"
  assumes "ready s" "fat_ok s" "cluster_ok (m_FATInfo s) c" "e \<le> max_entry (m_FATInfo s)"
  obtains s' where "FATSetClusterEntry c e s = Some s'" "ready s'" "same_rest s s'" "suses s' = suses s"
    "\<And>c'. cluster_ok (m_FATInfo s) c' \<Longrightarrow> fat_entry s' c' = (if c' = c then e else fat_entry s c')"
    "\<And>j. svalid s j \<Longrightarrow> (\<forall>f\<in>write_fats (m_FATInfo s). j \<noteq> fat_sector (m_FATInfo s) f c) \<Longrightarrow> sview s' j = sview s j"
    "\<And>f c'. cluster_ok (m_FATInfo s) c' \<Longrightarrow> f < m_nNumberOfFATs (m_FATInfo s) \<Longrightarrow>
       fat_at s' f c' = (if c' = c \<and> f \<in> write_fats (m_FATInfo s) then e else fat_at s f c')"
proof -
  obtain s' where S: "FATSetClusterEntry c e s = Some s'" "changed s (put_view (m_FATInfo s) (write_fats (m_FATInfo s)) c e (sview s)) s'"
    using FATSetClusterEntry_spec [OF assms] .
  have r: "same_rest s s'" using S(2) by (simp add: changed_def)
  note A = changed_fat_at [OF assms S(2)]
  show thesis
  proof (rule that [OF S(1)])
    show "ready s'" "same_rest s s'" "suses s' = suses s" using S(2) by (simp_all add: changed_def)
    show "fat_entry s' c' = (if c' = c then e else fat_entry s c')" if "cluster_ok (m_FATInfo s) c'" for c'
      using A [OF that read_fat_ok [OF assms(2)]] read_in_write_fats [OF assms(2)] same_rest_info(1) [OF r]
      by (simp add: fat_entry_def)
    show "sview s' j = sview s j" if "svalid s j" "\<forall>f\<in>write_fats (m_FATInfo s). j \<noteq> fat_sector (m_FATInfo s) f c" for j
      using S(2) that by (auto simp: changed_def put_view_def)
  qed (rule A)
qed


section \<open>The free count and the hint\<close>

text \<open>Only the free count and the hint differ.\<close>

definition same_geo :: "TFatInfo \<Rightarrow> TFatInfo \<Rightarrow> bool" where
  "same_geo i i' \<longleftrightarrow> (\<exists>x y. i' = i\<lparr>m_nFreeCount := x, m_nNextFreeCluster := y\<rparr>)"

lemma geo_upd [simp]:
  "fat_byte (i\<lparr>m_nFreeCount := x, m_nNextFreeCluster := y\<rparr>) = fat_byte i"
  "fat_sector (i\<lparr>m_nFreeCount := x, m_nNextFreeCluster := y\<rparr>) = fat_sector i"
  "entry_of (i\<lparr>m_nFreeCount := x, m_nNextFreeCluster := y\<rparr>) = entry_of i"
  "entry_width (i\<lparr>m_nFreeCount := x, m_nNextFreeCluster := y\<rparr>) = entry_width i"
  "max_entry (i\<lparr>m_nFreeCount := x, m_nNextFreeCluster := y\<rparr>) = max_entry i"
  "cluster_ok (i\<lparr>m_nFreeCount := x, m_nNextFreeCluster := y\<rparr>) = cluster_ok i"
  "write_fats (i\<lparr>m_nFreeCount := x, m_nNextFreeCluster := y\<rparr>) = write_fats i"
  "FATInfoGetReadFAT (i\<lparr>m_nFreeCount := x, m_nNextFreeCluster := y\<rparr>) = FATInfoGetReadFAT i"
  by (simp_all add: fun_eq_iff fat_byte_def fat_sector_def entry_of_def entry_width_def max_entry_def cluster_ok_def
      write_fats_def FATInfoGetReadFAT_def)

lemma same_geoD:
  assumes "same_geo i i'"
  shows "fat_byte i' = fat_byte i" "fat_sector i' = fat_sector i" "entry_of i' = entry_of i" "entry_width i' = entry_width i"
    "max_entry i' = max_entry i" "cluster_ok i' = cluster_ok i" "write_fats i' = write_fats i" "FATInfoGetReadFAT i' = FATInfoGetReadFAT i"
    "m_FATType i' = m_FATType i" "m_nClusters i' = m_nClusters i" "m_nSectorsPerCluster i' = m_nSectorsPerCluster i"
    "m_nNumberOfFATs i' = m_nNumberOfFATs i" "m_nReservedSectors i' = m_nReservedSectors i" "m_nFATSize i' = m_nFATSize i"
    "m_bFATMirroring i' = m_bFATMirroring i" "m_nActiveFAT i' = m_nActiveFAT i"
proof -
  obtain x y where e: "i' = i\<lparr>m_nFreeCount := x, m_nNextFreeCluster := y\<rparr>" using assms unfolding same_geo_def by blast
  show "fat_byte i' = fat_byte i" "fat_sector i' = fat_sector i" "entry_of i' = entry_of i" "entry_width i' = entry_width i"
    "max_entry i' = max_entry i" "cluster_ok i' = cluster_ok i" "write_fats i' = write_fats i" "FATInfoGetReadFAT i' = FATInfoGetReadFAT i"
    "m_FATType i' = m_FATType i" "m_nClusters i' = m_nClusters i" "m_nSectorsPerCluster i' = m_nSectorsPerCluster i"
    "m_nNumberOfFATs i' = m_nNumberOfFATs i" "m_nReservedSectors i' = m_nReservedSectors i" "m_nFATSize i' = m_nFATSize i"
    "m_bFATMirroring i' = m_bFATMirroring i" "m_nActiveFAT i' = m_nActiveFAT i"
    unfolding e by simp_all
qed

lemma same_geo_refl [simp]: "same_geo i i"
  unfolding same_geo_def by (intro exI [of _ "m_nFreeCount i"] exI [of _ "m_nNextFreeCluster i"]) simp

lemma same_geo_trans: "same_geo i j \<Longrightarrow> same_geo j k \<Longrightarrow> same_geo i k"
  by (auto simp: same_geo_def) blast

definition hint_ok :: "TFatInfo \<Rightarrow> bool" where
  "hint_ok i \<longleftrightarrow> 2 \<le> unat (m_nNextFreeCluster i) \<and> unat (m_nNextFreeCluster i) \<le> unat (m_nClusters i) + 1"

lemma info_upd [simp]:
  "sview (s\<lparr>m_FATInfo := i\<rparr>) = sview (s :: 'a fat_fs_scheme)" "suses (s\<lparr>m_FATInfo := i\<rparr>) = suses s"
  "sec_inv W (s\<lparr>m_FATInfo := i\<rparr>) = sec_inv W s" "ready (s\<lparr>m_FATInfo := i\<rparr>) = ready s" "svalid (s\<lparr>m_FATInfo := i\<rparr>) = svalid s"
  "partition_sectors (s\<lparr>m_FATInfo := i\<rparr>) = partition_sectors s"
  by (simp_all add: fun_eq_iff sview_def scontent_def suses_def sec_inv_def ready_def svalid_def partition_sectors_def split: option.split)

lemma geo_fat_at: "same_geo (m_FATInfo s) i \<Longrightarrow> fat_at (s\<lparr>m_FATInfo := i\<rparr>) = fat_at s"
  by (simp add: fun_eq_iff fat_at_def same_geoD)

lemma geo_fat_entry: "same_geo (m_FATInfo s) i \<Longrightarrow> fat_entry (s\<lparr>m_FATInfo := i\<rparr>) = fat_entry s"
  by (simp add: fun_eq_iff fat_entry_def geo_fat_at same_geoD)

lemma geo_fat_ok: "same_geo (m_FATInfo s) i \<Longrightarrow> fat_ok (s\<lparr>m_FATInfo := i\<rparr>) = fat_ok s"
  by (simp add: fat_ok_def same_geoD Let_def)

text \<open>A change of the volume that concerns its tables only.\<close>

definition vol_step :: "'a fat_fs_scheme \<Rightarrow> 'a fat_fs_scheme \<Rightarrow> bool" where
  "vol_step s s' \<longleftrightarrow> ready s' \<and> fat_ok s' \<and> same_rest s (s'\<lparr>m_FATInfo := m_FATInfo s\<rparr>) \<and> suses s' = suses s \<and>
     same_geo (m_FATInfo s) (m_FATInfo s') \<and>
     (\<forall>j. svalid s j \<longrightarrow> (\<forall>f c. f \<in> write_fats (m_FATInfo s) \<longrightarrow> cluster_ok (m_FATInfo s) c \<longrightarrow> j \<noteq> fat_sector (m_FATInfo s) f c) \<longrightarrow>
        sview s' j = sview s j)"

lemma same_rest_info_eq: "same_rest s s' \<Longrightarrow> same_rest s (s'\<lparr>m_FATInfo := m_FATInfo (s :: 'a fat_fs_scheme)\<rparr>)"
proof -
  assume r: "same_rest s s'"
  have "s'\<lparr>m_FATInfo := m_FATInfo s\<rparr> = s'" using same_rest_info(1) [OF r] by (metis fat_fs.surjective fat_fs.update_convs(1))
  with r show ?thesis by simp
qed

lemma stable_vol: "stable s s' \<Longrightarrow> fat_ok s \<Longrightarrow> vol_step s s'"
  by (auto simp: stable_def vol_step_def same_rest_info_eq same_rest_info same_rest_fat_ok)


lemma set_vol:
  fixes s :: "'a fat_fs_scheme"
  assumes "ready s" "fat_ok s" "cluster_ok (m_FATInfo s) c" "e \<le> max_entry (m_FATInfo s)"
  obtains s' where "FATSetClusterEntry c e s = Some s'" "vol_step s s'" "m_FATInfo s' = m_FATInfo s"
    "\<And>c'. cluster_ok (m_FATInfo s) c' \<Longrightarrow> fat_entry s' c' = (if c' = c then e else fat_entry s c')"
proof -
  obtain s' where S: "FATSetClusterEntry c e s = Some s'" "ready s'" "same_rest s s'" "suses s' = suses s"
    "\<And>c'. cluster_ok (m_FATInfo s) c' \<Longrightarrow> fat_entry s' c' = (if c' = c then e else fat_entry s c')"
    "\<And>j. svalid s j \<Longrightarrow> (\<forall>f\<in>write_fats (m_FATInfo s). j \<noteq> fat_sector (m_FATInfo s) f c) \<Longrightarrow> sview s' j = sview s j"
    using set_entry [OF assms] by metis
  have "vol_step s s'"
    using S(2-4,6) assms(3) same_rest_info_eq [OF S(3)] same_rest_info(1) [OF S(3)] same_rest_fat_ok [OF S(3) assms(2)]
    by (auto simp: vol_step_def)
  with S(1,5) same_rest_info(1) [OF S(3)] that show thesis by blast
qed

lemma vol_step_trans:
  assumes "vol_step s t" "vol_step t u"
  shows "vol_step s u"
proof -
  have g: "same_geo (m_FATInfo s) (m_FATInfo t)" "same_geo (m_FATInfo t) (m_FATInfo u)"
    using assms by (simp_all add: vol_step_def)
  have r1: "same_rest s (t\<lparr>m_FATInfo := m_FATInfo s\<rparr>)" and r2: "same_rest t (u\<lparr>m_FATInfo := m_FATInfo t\<rparr>)"
    using assms by (simp_all add: vol_step_def)
  have "same_rest (t\<lparr>m_FATInfo := m_FATInfo s\<rparr>) (u\<lparr>m_FATInfo := m_FATInfo s\<rparr>)"
    using r2 by (cases t; cases u) (simp add: same_rest_def)
  with r1 have r: "same_rest s (u\<lparr>m_FATInfo := m_FATInfo s\<rparr>)" by (rule same_rest_trans)
  have "svalid t = svalid s" using same_restD(2) [OF r1] by simp
  then show ?thesis
    using assms g r same_geo_trans [OF g] by (auto simp: vol_step_def same_geoD [OF g(1)])
qed

lemma vol_stepD:
  assumes "vol_step s s'"
  shows "ready s'" "fat_ok s'" "same_geo (m_FATInfo s) (m_FATInfo s')" "cluster_ok (m_FATInfo s') = cluster_ok (m_FATInfo s)"
    "max_entry (m_FATInfo s') = max_entry (m_FATInfo s)" "m_FATType (m_FATInfo s') = m_FATType (m_FATInfo s)"
    "m_nClusters (m_FATInfo s') = m_nClusters (m_FATInfo s)"
  using assms by (auto simp: vol_step_def same_geoD)

lemma vol_info:
  assumes "ready s" "fat_ok s" "same_geo (m_FATInfo s) i"
  shows "vol_step s (s\<lparr>m_FATInfo := i\<rparr>)"
proof -
  have "s\<lparr>m_FATInfo := m_FATInfo s\<rparr> = s" by simp
  then show ?thesis using assms by (simp add: vol_step_def geo_fat_ok)
qed

section \<open>Allocation\<close>

lemma same_geo_updI [simp]:
  "same_geo i (i\<lparr>m_nNextFreeCluster := y\<rparr>)" "same_geo i (i\<lparr>m_nFreeCount := x\<rparr>)"
  "same_geo i (i\<lparr>m_nFreeCount := x, m_nNextFreeCluster := y\<rparr>)"
proof -
  show "same_geo i (i\<lparr>m_nFreeCount := x, m_nNextFreeCluster := y\<rparr>)" by (auto simp: same_geo_def)
  show "same_geo i (i\<lparr>m_nNextFreeCluster := y\<rparr>)"
    unfolding same_geo_def by (intro exI [of _ "m_nFreeCount i"] exI [of _ y]) simp
  show "same_geo i (i\<lparr>m_nFreeCount := x\<rparr>)"
    unfolding same_geo_def by (intro exI [of _ x] exI [of _ "m_nNextFreeCluster i"]) simp
qed

lemma allocated_geo: "same_geo i (FATInfoClusterAllocated c i)"
  by (simp add: FATInfoClusterAllocated_def Let_def)

lemma allocated_hint:
  assumes "cluster_ok i c" "unat (m_nClusters i) + 2 < 2 ^ 32"
  shows "hint_ok (FATInfoClusterAllocated c i)"
proof -
  have c: "2 \<le> unat c" "unat c < unat (m_nClusters i) + 2" using assms by (simp_all add: cluster_ok_def)
  have "unat (c + 1) = Suc (unat c)" using c assms(2) by (subst unat_add_no_wrap) simp_all
  with c show ?thesis
    by (cases "c \<le> m_nClusters i") (simp_all add: FATInfoClusterAllocated_def hint_ok_def Let_def word_le_nat_alt)
qed

definition eoc_ge :: "TFatInfo \<Rightarrow> u32 \<Rightarrow> bool" where
  "eoc_ge i e \<longleftrightarrow> (if m_FATType i = FAT16 then e \<ge> 0xFFF8 else e \<ge> 0x0FFFFFF8)"

lemma FATIsEOC_code: "m_FATType (m_FATInfo s) \<noteq> FATUnknown \<Longrightarrow> FATIsEOC e s = Some (eoc_ge (m_FATInfo s) e)"
  by (simp add: FATIsEOC_def FATInfoGetFATType_def eoc_ge_def)

lemma cluster_not_eoc:
  assumes "fat_ok s" "cluster_ok (m_FATInfo s) c"
  shows "\<not> eoc_ge (m_FATInfo s) c"
  using fat_okD(5) [OF assms(1) refl] assms(2)
  by (auto simp: eoc_ge_def cluster_ok_def max_entry_def word_le_nat_alt split: if_splits)

lemma alloc_loop_spec:
  fixes s :: "'a fat_fs_scheme"
  assumes "ready s" "fat_ok s" "2 \<le> unat c" "unat c \<le> unat (m_nClusters (m_FATInfo s)) + 2"
  shows "\<exists>r s'. alloc_loop c s = Some (r, s') \<and> vol_step s s' \<and>
     (r = 0 \<and> (\<forall>d. cluster_ok (m_FATInfo s) d \<longrightarrow> c \<le> d \<longrightarrow> fat_entry s d \<noteq> 0) \<and> stable s s' \<or>
      cluster_ok (m_FATInfo s) r \<and> c \<le> r \<and> fat_entry s r = 0 \<and> (\<forall>d. c \<le> d \<longrightarrow> d < r \<longrightarrow> fat_entry s d \<noteq> 0) \<and>
      (\<forall>d. cluster_ok (m_FATInfo s) d \<longrightarrow> fat_entry s' d = (if d = r then eoc_mark (m_FATInfo s) else fat_entry s d)) \<and>
      m_FATInfo s' = FATInfoClusterAllocated r (m_FATInfo s))"
  using assms
proof (induction "unat (m_nClusters (m_FATInfo s)) + 2 - unat c" arbitrary: c s)
  case 0
  let ?i = "m_FATInfo s"
  have n: "unat (m_nClusters ?i + 2) = unat (m_nClusters ?i) + 2" by (rule fat_okD(6) [OF 0(3) refl])
  have ge: "unat c = unat (m_nClusters ?i) + 2" using 0 by simp
  then have "\<not> c < m_nClusters ?i + 2" using n by (simp add: word_less_nat_alt)
  then have "alloc_loop c s = Some (0, s)" by (subst alloc_loop.simps) simp
  moreover have "\<forall>d. cluster_ok ?i d \<longrightarrow> c \<le> d \<longrightarrow> fat_entry s d \<noteq> 0"
    using ge by (auto simp: cluster_ok_def word_le_nat_alt)
  ultimately show ?case using stable_refl [OF 0(2)] stable_vol [OF stable_refl [OF 0(2)] 0(3)] by auto
next
  case (Suc n)
  let ?i = "m_FATInfo s"
  have N: "unat (m_nClusters ?i + 2) = unat (m_nClusters ?i) + 2" by (rule fat_okD(6) [OF Suc.prems(2) refl])
  have co: "cluster_ok ?i c" using Suc.hyps(2) Suc.prems(3) by (simp add: cluster_ok_def)
  then have lt: "c < m_nClusters ?i + 2" using N by (simp add: cluster_ok_def word_less_nat_alt)
  obtain p s1 s2 where R: "FATGetSector c (FATInfoGetReadFAT ?i) s = Some (p, fat_byte ?i c mod 512, s1)"
    "p \<noteq> NULL" "FATGetEntry p (fat_byte ?i c mod 512) s1 = Some (fat_entry s c)"
    "FATCacheFreeSector p True s1 = Some s2" "stable s s2" "m_FATInfo s1 = ?i"
    using read_entry [OF Suc.prems(1,2) co] by metis
  have i2: "m_FATInfo s2 = ?i" using R(5) same_rest_info by (auto simp: stable_def)
  have r2: "ready s2" "fat_ok s2" "vol_step s s2"
    using R(5) stable_vol [OF R(5) Suc.prems(2)] by (auto simp: stable_def vol_step_def)
  have fe2: "\<And>d. cluster_ok ?i d \<Longrightarrow> fat_entry s2 d = fat_entry s d"
    using stable_fat_entry [OF R(5) Suc.prems(2)] by blast
  show ?case
  proof (cases "fat_entry s c = 0")
    case True
    have em: "eoc_mark ?i \<le> max_entry ?i" by (simp add: eoc_mark_def max_entry_def)
    obtain s3 where S: "FATSetClusterEntry c (eoc_mark ?i) s2 = Some s3" "vol_step s2 s3" "m_FATInfo s3 = ?i"
      "\<And>c'. cluster_ok ?i c' \<Longrightarrow> fat_entry s3 c' = (if c' = c then eoc_mark ?i else fat_entry s2 c')"
      using set_vol [OF r2(1,2), of c "eoc_mark ?i"] co em i2 by metis
    let ?j = "FATInfoClusterAllocated c ?i" and ?s = "s3\<lparr>m_FATInfo := FATInfoClusterAllocated c (m_FATInfo s3)\<rparr>"
    have run: "alloc_loop c s = Some (c, ?s)"
      using S(1) by (subst alloc_loop.simps) (simp add: lt R(1-4) True i2 FATSetClusterEntry_def)
    have g: "same_geo (m_FATInfo s3) (FATInfoClusterAllocated c (m_FATInfo s3))" by (rule allocated_geo)
    have "vol_step s ?s"
      using vol_step_trans [OF vol_step_trans [OF r2(3) S(2)] vol_info [OF vol_stepD(1,2) [OF S(2)] g]] .
    then show ?thesis using run True co fe2 S(3,4) geo_fat_entry [OF g] by auto
  next
    case False
    have c1: "unat (c + 1) = Suc (unat c)" using co N unat_u32_less [of "m_nClusters ?i + 2"] by (subst unat_add_no_wrap) (simp_all add: cluster_ok_def)
    have pre: "n = unat (m_nClusters ?i) + 2 - unat (c + 1)" "2 \<le> unat (c + 1)" "unat (c + 1) \<le> unat (m_nClusters ?i) + 2"
      using Suc.hyps(2) Suc.prems(3,4) c1 by simp_all
    have run: "alloc_loop c s = alloc_loop (c + 1) s2"
      by (subst alloc_loop.simps) (simp add: lt R(1-4) False)
    obtain r s' where I: "alloc_loop (c + 1) s2 = Some (r, s')" "vol_step s2 s'"
      "r = 0 \<and> (\<forall>d. cluster_ok ?i d \<longrightarrow> c + 1 \<le> d \<longrightarrow> fat_entry s2 d \<noteq> 0) \<and> stable s2 s' \<or>
       cluster_ok ?i r \<and> c + 1 \<le> r \<and> fat_entry s2 r = 0 \<and> (\<forall>d. c + 1 \<le> d \<longrightarrow> d < r \<longrightarrow> fat_entry s2 d \<noteq> 0) \<and>
       (\<forall>d. cluster_ok ?i d \<longrightarrow> fat_entry s' d = (if d = r then eoc_mark ?i else fat_entry s2 d)) \<and>
       m_FATInfo s' = FATInfoClusterAllocated r ?i"
      using Suc.hyps(1) [of s2 "c + 1", unfolded i2, OF pre(1) r2(1,2) pre(2,3)] by blast
    have step: "c \<le> d \<longleftrightarrow> d = c \<or> c + 1 \<le> d" for d
      using c1 by (auto simp: word_le_nat_alt word_unat_eq_iff)
    have v: "vol_step s s'" by (rule vol_step_trans [OF r2(3) I(2)])
    have lo: "cluster_ok ?i d" if "c \<le> d" "d < r" "cluster_ok ?i r" for d
      using that Suc.prems(3) by (simp add: cluster_ok_def word_le_nat_alt word_less_nat_alt)
    show ?thesis
    proof (cases "r = 0 \<and> (\<forall>d. cluster_ok ?i d \<longrightarrow> c + 1 \<le> d \<longrightarrow> fat_entry s2 d \<noteq> 0) \<and> stable s2 s'")
      case True
      then show ?thesis using run I(1) v step fe2 False stable_trans [OF R(5)] by auto
    next
      case f: False
      then have J: "cluster_ok ?i r" "c + 1 \<le> r" "fat_entry s2 r = 0" "\<And>d. c + 1 \<le> d \<Longrightarrow> d < r \<Longrightarrow> fat_entry s2 d \<noteq> 0"
        "\<And>d. cluster_ok ?i d \<Longrightarrow> fat_entry s' d = (if d = r then eoc_mark ?i else fat_entry s2 d)"
        "m_FATInfo s' = FATInfoClusterAllocated r ?i" using I(3) by blast+
      have "fat_entry s d \<noteq> 0" if "c \<le> d" "d < r" for d
        using step [of d] that(1) J(4) [of d] fe2 [OF lo [OF that J(1)]] that(2) False by auto
      then show ?thesis using run I(1) v J fe2 step by auto
    qed
  qed
qed

section \<open>Chains\<close>

fun chain :: "'a fat_fs_scheme \<Rightarrow> u32 list \<Rightarrow> bool" where
  "chain s [] = False"
| "chain s [c] \<longleftrightarrow> cluster_ok (m_FATInfo s) c \<and> eoc_ge (m_FATInfo s) (fat_entry s c)"
| "chain s (c # d # cs) \<longleftrightarrow> cluster_ok (m_FATInfo s) c \<and> fat_entry s c = d \<and> chain s (d # cs)"

lemma chain_hd: "chain s (c # cs) \<Longrightarrow> cluster_ok (m_FATInfo s) c"
  by (cases cs) auto

lemma chain_cluster_ok: "chain s cs \<Longrightarrow> c \<in> set cs \<Longrightarrow> cluster_ok (m_FATInfo s) c"
  by (induction cs rule: induct_list012) auto

lemma chain_cong:
  assumes "chain s cs" "m_FATType (m_FATInfo s') = m_FATType (m_FATInfo s)" "cluster_ok (m_FATInfo s') = cluster_ok (m_FATInfo s)"
    and "\<And>c. c \<in> set cs \<Longrightarrow> fat_entry s' c = fat_entry s c"
  shows "chain s' cs"
  using assms(1,4) by (induction cs rule: induct_list012) (auto simp: eoc_ge_def assms(2,3))

lemma chain_next:
  assumes "fat_ok s" "chain s (c # cs)"
  shows "eoc_ge (m_FATInfo s) (fat_entry s c) \<longleftrightarrow> cs = []" "cs \<noteq> [] \<Longrightarrow> fat_entry s c = hd cs \<and> chain s cs"
  using assms cluster_not_eoc [OF assms(1)] by (cases cs; auto dest: chain_hd)+

lemma chain_suffix: "chain s (xs @ c # ys) \<Longrightarrow> chain s (c # ys)"
proof (induction xs)
  case (Cons x xs)
  then show ?case by (cases xs) auto
qed simp

lemma chain_unique: "fat_ok s \<Longrightarrow> chain s (c # xs) \<Longrightarrow> chain s (c # ys) \<Longrightarrow> xs = ys"
proof (induction xs arbitrary: c ys)
  case Nil
  then have "eoc_ge (m_FATInfo s) (fat_entry s c)" by simp
  then show ?case using chain_next(1) [OF Nil(1,3)] by blast
next
  case (Cons x xs)
  have "\<not> eoc_ge (m_FATInfo s) (fat_entry s c)" using chain_next(1) [OF Cons.prems(1,2)] by blast
  then have "ys \<noteq> []" using chain_next(1) [OF Cons.prems(1,3)] by blast
  then obtain y zs where ys: "ys = y # zs" by (cases ys) auto
  then have "y = x" "chain s (x # xs)" "chain s (y # zs)" using Cons.prems by auto
  with Cons.IH Cons.prems(1) ys show ?case by blast
qed

lemma chain_distinct: "fat_ok s \<Longrightarrow> chain s cs \<Longrightarrow> distinct cs"
proof (induction cs)
  case (Cons c cs)
  have "c \<notin> set cs"
  proof
    assume "c \<in> set cs"
    then obtain us vs where cs: "cs = us @ c # vs" by (metis split_list)
    then have "chain s (c # vs)" using chain_suffix [of s "c # us" c vs] Cons.prems(2) by simp
    then have "cs = vs" using chain_unique Cons.prems by blast
    with cs show False by simp
  qed
  moreover have "distinct cs" using Cons by (cases cs) auto
  ultimately show ?case by simp
qed simp

lemma stable_chain:
  assumes "stable s s'" "fat_ok s" "chain s cs"
  shows "chain s' cs"
proof -
  have i: "m_FATInfo s' = m_FATInfo s" using assms(1) same_rest_info by (auto simp: stable_def)
  show ?thesis
    using assms(3) by (rule chain_cong) (auto simp: i intro: stable_fat_entry [OF assms(1,2)] chain_cluster_ok [OF assms(3)])
qed

lemma stable_fat_ok: "stable s s' \<Longrightarrow> fat_ok s \<Longrightarrow> fat_ok (s' :: 'a fat_fs_scheme)"
  by (auto simp: stable_def intro: same_rest_fat_ok)

lemma stable_info: "stable s s' \<Longrightarrow> m_FATInfo s' = m_FATInfo (s :: 'a fat_fs_scheme)"
  using same_rest_info by (auto simp: stable_def)

lemma last_cluster_loop_spec:
  assumes "ready s" "fat_ok s" "chain s (c # cs)"
  shows "\<exists>s'. last_cluster_loop c (fat_entry s c) s = Some (last (c # cs), s') \<and> stable s s'"
  using assms
proof (induction cs arbitrary: c s)
  case Nil
  then have "eoc_ge (m_FATInfo s) (fat_entry s c)" by simp
  then show ?case using FATIsEOC_code [OF fat_okD(1) [OF Nil(2) refl]] stable_refl [OF Nil(1)]
    by (subst last_cluster_loop.simps) simp
next
  case (Cons d cs)
  have e: "fat_entry s c = d" "chain s (d # cs)" "\<not> eoc_ge (m_FATInfo s) d"
    using Cons.prems chain_next [OF Cons.prems(2,3)] by auto
  obtain s1 where G: "FATGetClusterEntry d s = Some (fat_entry s d, s1)" "stable s s1"
    using FATGetClusterEntry_spec [OF Cons.prems(1,2) chain_hd [OF e(2)]] .
  have fe: "fat_entry s1 d = fat_entry s d" by (rule stable_fat_entry [OF G(2) Cons.prems(2) chain_hd [OF e(2)]])
  have r1: "ready s1" using G(2) by (simp add: stable_def)
  obtain s' where I: "last_cluster_loop d (fat_entry s1 d) s1 = Some (last (d # cs), s')" "stable s1 s'"
    using Cons.IH [OF r1 stable_fat_ok [OF G(2) Cons.prems(2)] stable_chain [OF G(2) Cons.prems(2) e(2)]] by blast
  have "last_cluster_loop c (fat_entry s c) s = last_cluster_loop d (fat_entry s1 d) s1"
    using FATIsEOC_code [OF fat_okD(1) [OF Cons.prems(2) refl]] e(1,3) G(1) fe by (subst last_cluster_loop.simps) simp
  with I stable_trans [OF G(2) I(2)] show ?case by auto
qed

lemma FATGetFileLastCluster_spec:
  assumes "ready s" "fat_ok s" "chain s (c # cs)"
  obtains s' where "FATGetFileLastCluster c s = Some (last (c # cs), s')" "stable s s'"
proof -
  have co: "cluster_ok (m_FATInfo s) c" by (rule chain_hd [OF assms(3)])
  obtain s1 where G: "FATGetClusterEntry c s = Some (fat_entry s c, s1)" "stable s s1"
    using FATGetClusterEntry_spec [OF assms(1,2) co] .
  have r1: "ready s1" using G(2) by (simp add: stable_def)
  obtain s' where "last_cluster_loop c (fat_entry s1 c) s1 = Some (last (c # cs), s')" "stable s1 s'"
    using last_cluster_loop_spec [OF r1 stable_fat_ok [OF G(2) assms(2)] stable_chain [OF G(2) assms(2,3)]] by blast
  then show thesis using that G stable_fat_entry [OF G(2) assms(2) co] stable_trans [OF G(2)]
    by (simp add: FATGetFileLastCluster_def)
qed

lemma file_cluster_loop_spec:
  assumes "ready s" "fat_ok s" "chain s (c # cs)" "unat n \<le> unat k" "unat n + length cs < 2 ^ 32"
  shows "\<exists>m x s'. file_cluster_loop k n c (fat_entry s c) s = Some (m, x, s') \<and> stable s s' \<and>
     (if unat k - unat n \<le> length cs then m = k \<and> x = (c # cs) ! (unat k - unat n) else m < k)"
  using assms
proof (induction cs arbitrary: c n s)
  case Nil
  then have "eoc_ge (m_FATInfo s) (fat_entry s c)" by simp
  then have "file_cluster_loop k n c (fat_entry s c) s = Some (n, c, s)"
    using FATIsEOC_code [OF fat_okD(1) [OF Nil(2) refl]] by (subst file_cluster_loop.simps) simp
  moreover have "if unat k - unat n \<le> length [] then n = k \<and> c = [c] ! (unat k - unat n) else n < k"
    using Nil(4) by (cases "n = k") (auto simp: word_less_nat_alt word_unat_eq_iff)
  ultimately show ?case using stable_refl [OF Nil(1)] by (intro exI [of _ n] exI [of _ c] exI [of _ s]) simp
next
  case (Cons d cs)
  have e: "fat_entry s c = d" "chain s (d # cs)" "\<not> eoc_ge (m_FATInfo s) d"
    using Cons.prems chain_next [OF Cons.prems(2,3)] by auto
  show ?case
  proof (cases "n = k")
    case True
    then have "file_cluster_loop k n c (fat_entry s c) s = Some (n, c, s)"
      using FATIsEOC_code [OF fat_okD(1) [OF Cons.prems(2) refl]] e by (subst file_cluster_loop.simps) simp
    then show ?thesis using stable_refl [OF Cons.prems(1)] True by auto
  next
    case False
    then have nk: "unat n < unat k" using Cons.prems(4) by (simp add: word_unat_eq_iff)
    have n1: "unat (n + 1) = Suc (unat n)" using Cons.prems(5) by (subst unat_add_no_wrap) simp_all
    obtain s1 where G: "FATGetClusterEntry d s = Some (fat_entry s d, s1)" "stable s s1"
      using FATGetClusterEntry_spec [OF Cons.prems(1,2) chain_hd [OF e(2)]] .
    have fe: "fat_entry s1 d = fat_entry s d" by (rule stable_fat_entry [OF G(2) Cons.prems(2) chain_hd [OF e(2)]])
    have r1: "ready s1" using G(2) by (simp add: stable_def)
    have pre: "unat (n + 1) \<le> unat k" "unat (n + 1) + length cs < 2 ^ 32" using nk n1 Cons.prems(5) by simp_all
    obtain m x s' where I: "file_cluster_loop k (n + 1) d (fat_entry s1 d) s1 = Some (m, x, s')" "stable s1 s'"
      "if unat k - unat (n + 1) \<le> length cs then m = k \<and> x = (d # cs) ! (unat k - unat (n + 1)) else m < k"
      using Cons.IH [OF r1 stable_fat_ok [OF G(2) Cons.prems(2)] stable_chain [OF G(2) Cons.prems(2) e(2)] pre] by blast
    have run: "file_cluster_loop k n c (fat_entry s c) s = file_cluster_loop k (n + 1) d (fat_entry s1 d) s1"
      using FATIsEOC_code [OF fat_okD(1) [OF Cons.prems(2) refl]] e(1,3) G(1) fe False by (subst file_cluster_loop.simps) simp
    have "unat k - unat n = Suc (unat k - unat (n + 1))" using nk n1 by simp
    then show ?thesis using run I stable_trans [OF G(2) I(2)] by (auto split: if_splits)
  qed
qed

lemma chain_short:
  assumes "fat_ok s" "chain s cs"
  shows "length cs < 2 ^ 28"
proof -
  have "length cs = card (set cs)" using chain_distinct [OF assms] by (simp add: distinct_card)
  also have "\<dots> = card (unat ` set cs)" by (rule card_image [symmetric]) (auto intro: inj_onI simp: word_unat_eq_iff)
  also have "\<dots> \<le> card {..< unat (m_nClusters (m_FATInfo s)) + 2}"
    using chain_cluster_ok [OF assms(2)] by (intro card_mono) (auto simp: cluster_ok_def)
  also have "\<dots> < 2 ^ 28" using fat_okD(5) [OF assms(1) refl] by (simp add: max_entry_def split: if_splits)
  finally show ?thesis .
qed

lemma FATGetFileCluster_spec:
  fixes off :: u32
  assumes "ready s" "fat_ok s" "chain s (c # cs)" and spc: "0 < m_nSectorsPerCluster (m_FATInfo s)"
  defines "k \<equiv> unat off div (512 * unat (m_nSectorsPerCluster (m_FATInfo s)))"
  obtains s' where "FATGetFileCluster c off s = Some (if k < length (c # cs) then (c # cs) ! k else 0, s')" "stable s s'"
proof -
  let ?n = "off div FAT_SECTOR_SIZE div m_nSectorsPerCluster (m_FATInfo s)"
  have k: "unat ?n = k" by (simp add: k_def unat_div FAT_SECTOR_SIZE_def div_mult2_eq)
  have co: "cluster_ok (m_FATInfo s) c" by (rule chain_hd [OF assms(3)])
  obtain s1 where G: "FATGetClusterEntry c s = Some (fat_entry s c, s1)" "stable s s1"
    using FATGetClusterEntry_spec [OF assms(1,2) co] .
  have r1: "ready s1" using G(2) by (simp add: stable_def)
  have ch: "chain s1 (c # cs)" by (rule stable_chain [OF G(2) assms(2,3)])
  have ok1: "fat_ok s1" by (rule stable_fat_ok [OF G(2) assms(2)])
  have "unat (0::u32) + length cs < 2 ^ 32" using chain_short [OF assms(2,3)] by simp
  then obtain m x s' where L: "file_cluster_loop ?n 0 c (fat_entry s1 c) s1 = Some (m, x, s')" "stable s1 s'"
    "if unat ?n \<le> length cs then m = ?n \<and> x = (c # cs) ! unat ?n else m < ?n"
    using file_cluster_loop_spec [OF r1 ok1 ch, of 0 ?n] by auto
  have "FATGetFileCluster c off s = Some (if m < ?n then 0 else x, s')"
    using spc G L(1) stable_fat_entry [OF G(2) assms(2) co] by (auto simp: FATGetFileCluster_def)
  moreover have "(if m < ?n then 0 else x) = (if k < length (c # cs) then (c # cs) ! k else 0)"
    using L(3) k by (auto split: if_splits)
  ultimately show thesis using that stable_trans [OF G(2) L(2)] by simp
qed


section \<open>Freeing a chain\<close>

lemma FATAllocateCluster_spec:
  assumes "ready s" "fat_ok s" "hint_ok (m_FATInfo s)"
  shows "\<exists>r s'. FATAllocateCluster s = Some (r, s') \<and> vol_step s s' \<and> hint_ok (m_FATInfo s') \<and>
     (r = 0 \<and> (\<forall>d. cluster_ok (m_FATInfo s) d \<longrightarrow> m_nNextFreeCluster (m_FATInfo s) \<le> d \<longrightarrow> fat_entry s d \<noteq> 0) \<and> stable s s' \<or>
      cluster_ok (m_FATInfo s) r \<and> m_nNextFreeCluster (m_FATInfo s) \<le> r \<and> fat_entry s r = 0 \<and>
      (\<forall>d. m_nNextFreeCluster (m_FATInfo s) \<le> d \<longrightarrow> d < r \<longrightarrow> fat_entry s d \<noteq> 0) \<and>
      (\<forall>d. cluster_ok (m_FATInfo s) d \<longrightarrow> fat_entry s' d = (if d = r then eoc_mark (m_FATInfo s) else fat_entry s d)))"
proof -
  let ?i = "m_FATInfo s" and ?c = "m_nNextFreeCluster (m_FATInfo s)"
  have c: "2 \<le> unat ?c" "unat ?c \<le> unat (m_nClusters ?i) + 2" using assms(3) by (simp_all add: hint_ok_def)
  have n: "unat (m_nClusters ?i) + 2 < 2 ^ 32" using fat_okD(5) [OF assms(2) refl] unat_u32_less [of "max_entry ?i"] by linarith
  obtain r s' where A: "alloc_loop ?c s = Some (r, s')" "vol_step s s'"
    "r = 0 \<and> (\<forall>d. cluster_ok ?i d \<longrightarrow> ?c \<le> d \<longrightarrow> fat_entry s d \<noteq> 0) \<and> stable s s' \<or>
      cluster_ok ?i r \<and> ?c \<le> r \<and> fat_entry s r = 0 \<and> (\<forall>d. ?c \<le> d \<longrightarrow> d < r \<longrightarrow> fat_entry s d \<noteq> 0) \<and>
      (\<forall>d. cluster_ok ?i d \<longrightarrow> fat_entry s' d = (if d = r then eoc_mark ?i else fat_entry s d)) \<and>
      m_FATInfo s' = FATInfoClusterAllocated r ?i"
    using alloc_loop_spec [OF assms(1,2) c] by blast
  have "hint_ok (m_FATInfo s')" using A(3) assms(3) allocated_hint [OF _ n] stable_info by metis
  with A show ?thesis unfolding FATAllocateCluster_def FATInfoGetNextFreeCluster_def by blast
qed





section \<open>A volume for examples\<close>

text \<open>A FAT16 volume of 5000 clusters in which cluster 2 is followed by 5 and 5 by 3.\<close>

definition demo_info :: TFatInfo where
  "demo_info = \<lparr>m_FATType = FAT16, m_nSectorsPerCluster = 4, m_nReservedSectors = 1, m_nNumberOfFATs = 2, m_nRootEntries = 512,
     m_nFATSize = 32, m_nTotalSectors = 20097, m_bFATMirroring = True, m_nActiveFAT = 0, m_nRootCluster = 0, m_nFSInfoSector = 0,
     m_nRootSectors = 32, m_nFirstDataSector = 97, m_nDataSectors = 20000, m_nClusters = 5000, m_nFreeCount = FREE_COUNT_UNKNOWN,
     m_nNextFreeCluster = 2\<rparr>"

definition demo_blocks :: "nat \<Rightarrow> u8 list" where
  "demo_blocks n = (if n = 64 \<or> n = 96 then zero_block[4 := 5, 6 := 0xFF, 7 := 0xFF, 10 := 3] else zero_block)"

definition demo_fs :: fat_fs where
  "demo_fs = demo_mounted demo_blocks (fat_fs.fields demo_info)"

lemma demo_blocks_length: "length (demo_blocks n) = 512"
  by (simp add: demo_blocks_def zero_block_def)

lemma demo_fs_ready: "ready demo_fs"
proof -
  note D = demo_mounted_ok [where bs = demo_blocks and x = "fat_fs.fields demo_info", OF demo_blocks_length, folded demo_fs_def]
  have "elem_at (m_pBufferMem (m_Cache demo_fs)) sizeof_TFATBuffer 0 \<in> set (sbufs demo_fs)"
    by (simp add: sector_bufs_def FAT_BUFFERS_def)
  then show ?thesis using D(1,2,4) demo_card_ok(2) by (auto simp: ready_def)
qed

lemma more_info: "fat_state.more (s :: fat_fs) = fat_fs.fields i \<Longrightarrow> m_FATInfo s = i"
  by (cases s) (simp add: fat_fs.fields_def)

lemma demo_fs_info [simp]: "m_FATInfo demo_fs = demo_info"
  using demo_mounted_ok(8) [where bs = demo_blocks, OF demo_blocks_length]
  unfolding demo_fs_def by (rule more_info)

lemma demo_fs_part: "m_pPartition (m_Cache demo_fs) = Some demo_part"
  using demo_mounted_ok(5) [where bs = demo_blocks, OF demo_blocks_length] by (simp add: demo_fs_def)

lemma demo_fs_ok: "fat_ok demo_fs"
  by (simp add: fat_ok_def demo_fs_part demo_info_def entry_width_def max_entry_def partition_sectors_def demo_part_def)

lemma demo_fs_entry:
  assumes "unat c < 256"
  shows "fat_entry demo_fs c = entry_of demo_info (zero_block[4 := 5, 6 := 0xFF, 7 := 0xFF, 10 := 3]) (2 * unat c)"
proof -
  have "fat_sector demo_info 0 c = 1" using assms by (simp add: fat_sector_def fat_byte_def demo_info_def entry_width_def)
  moreover have "sview demo_fs 1 = demo_blocks 64"
    using demo_mounted_ok(3) [where bs = demo_blocks and x = "fat_fs.fields demo_info" and k = 1, OF demo_blocks_length] by (simp add: demo_fs_def BUFFER_NOSECTOR_def)
  moreover have "fat_byte demo_info c mod 512 = 2 * unat c" using assms by (simp add: fat_byte_def entry_width_def demo_info_def)
  ultimately show ?thesis
    by (simp add: fat_entry_def fat_at_def FATInfoGetReadFAT_def demo_blocks_def)
     (simp add: demo_info_def fat_byte_def)
qed

lemma demo_entries:
  "fat_entry demo_fs 2 = 5" "fat_entry demo_fs 5 = 3" "fat_entry demo_fs 3 = 0xFFFF" "fat_entry demo_fs 4 = 0"
  by (simp_all add: demo_fs_entry entry_of_def demo_info_def le16_def zero_block_def nth_list_update)

lemma demo_clusters: "2 \<le> unat c \<Longrightarrow> unat c < 5002 \<Longrightarrow> cluster_ok demo_info c"
  by (simp add: cluster_ok_def demo_info_def)

lemma demo_chain: "chain demo_fs [2, 5, 3]"
proof -
  have "cluster_ok demo_info 2" "cluster_ok demo_info 5" "cluster_ok demo_info 3" by (simp_all add: demo_clusters)
  then show ?thesis by (simp add: demo_entries) (simp add: eoc_ge_def demo_info_def)
qed

section \<open>Properties\<close>

text \<open>C14: \<open>FATSetClusterEntry\<close> followed by \<open>FATGetClusterEntry\<close> returns the entry written. Every copy of the
  table that is in use gets the new entry, every other entry keeps its value, and so does every sector outside
  the sector of the entry.\<close>

theorem fat_set_get:
  assumes "ready s" "fat_ok s" "cluster_ok (m_FATInfo s) c" "e \<le> max_entry (m_FATInfo s)"
  shows "\<exists>s' s''. FATSetClusterEntry c e s = Some s' \<and> FATGetClusterEntry c s' = Some (e, s'') \<and> ready s'' \<and>
     (\<forall>f c'. cluster_ok (m_FATInfo s) c' \<longrightarrow> f < m_nNumberOfFATs (m_FATInfo s) \<longrightarrow>
        fat_at s' f c' = (if c' = c \<and> f \<in> write_fats (m_FATInfo s) then e else fat_at s f c')) \<and>
     (\<forall>j. svalid s j \<longrightarrow> (\<forall>f\<in>write_fats (m_FATInfo s). j \<noteq> fat_sector (m_FATInfo s) f c) \<longrightarrow> sview s' j = sview s j)"
proof (rule set_entry [OF assms], goal_cases)
  case (1 s')
  have "cluster_ok (m_FATInfo s') c" using assms(3) same_rest_info(1) [OF 1(3)] by simp
  then obtain s'' where "FATGetClusterEntry c s' = Some (fat_entry s' c, s'')" "stable s' s''"
    using FATGetClusterEntry_spec [OF 1(2) same_rest_fat_ok [OF 1(3) assms(2)]] by metis
  with 1(1,5-7) assms(3) show ?case by (auto simp: stable_def)
qed

theorem fat_set_get_witness:
  "\<exists>s' s''. FATSetClusterEntry 4 0x1234 demo_fs = Some s' \<and> FATGetClusterEntry 4 s' = Some (0x1234, s'') \<and>
     fat_at s' 1 4 = 0x1234"
proof -
  have "cluster_ok (m_FATInfo demo_fs) 4" "(0x1234::u32) \<le> max_entry (m_FATInfo demo_fs)"
    by (simp add: demo_clusters, simp add: max_entry_def demo_info_def)
  from fat_set_get [OF demo_fs_ready demo_fs_ok this] this(1) show ?thesis
    by (auto simp: write_fats_def demo_info_def)
qed

text \<open>\<open>FATAllocateCluster\<close> returns the first free cluster from the hint on, marks it as the end of a chain in every
  copy of the table, moves the hint behind it and changes no other entry and nothing outside the tables. It
  returns 0, changing nothing, if no cluster from the hint on is free; clusters below the hint are not considered.\<close>

lemma allocate_first_free:
  assumes "ready s" "fat_ok s" "hint_ok (m_FATInfo s)"
  shows "\<exists>r s'. FATAllocateCluster s = Some (r, s') \<and> vol_step s s' \<and> hint_ok (m_FATInfo s') \<and>
     (r = 0 \<and> (\<forall>d. cluster_ok (m_FATInfo s) d \<longrightarrow> m_nNextFreeCluster (m_FATInfo s) \<le> d \<longrightarrow> fat_entry s d \<noteq> 0) \<and> stable s s' \<or>
      cluster_ok (m_FATInfo s) r \<and> m_nNextFreeCluster (m_FATInfo s) \<le> r \<and> fat_entry s r = 0 \<and>
      (\<forall>d. m_nNextFreeCluster (m_FATInfo s) \<le> d \<longrightarrow> d < r \<longrightarrow> fat_entry s d \<noteq> 0) \<and>
      (\<forall>d. cluster_ok (m_FATInfo s) d \<longrightarrow> fat_entry s' d = (if d = r then eoc_mark (m_FATInfo s) else fat_entry s d)))"
  using assms by (rule FATAllocateCluster_spec)



text \<open>C16: On a chain that ends, \<open>FATGetFileCluster\<close> returns the cluster that holds the byte at the given
  offset of the file, or 0 behind the last cluster, and \<open>FATGetFileLastCluster\<close> returns the last cluster. Neither
  changes anything.\<close>

theorem chain_walk:
  assumes "ready s" "fat_ok s" "chain s (c # cs)" "0 < m_nSectorsPerCluster (m_FATInfo s)"
  shows "\<exists>s' s''. FATGetFileCluster c off s =
       Some (let k = unat off div (512 * unat (m_nSectorsPerCluster (m_FATInfo s))) in
             if k < length (c # cs) then (c # cs) ! k else 0, s') \<and> stable s s' \<and>
     FATGetFileLastCluster c s = Some (last (c # cs), s'') \<and> stable s s''"
proof -
  obtain s' where "FATGetFileCluster c off s =
       Some (let k = unat off div (512 * unat (m_nSectorsPerCluster (m_FATInfo s))) in
             if k < length (c # cs) then (c # cs) ! k else 0, s')" "stable s s'"
    using FATGetFileCluster_spec [OF assms, of off] unfolding Let_def by metis
  moreover obtain s'' where "FATGetFileLastCluster c s = Some (last (c # cs), s'')" "stable s s''"
    using FATGetFileLastCluster_spec [OF assms(1-3)] .
  ultimately show ?thesis by blast
qed

theorem chain_walk_witness:
  "\<exists>s' s''. FATGetFileCluster 2 3000 demo_fs = Some (5, s') \<and> FATGetFileLastCluster 2 demo_fs = Some (3, s'')"
proof -
  have "0 < m_nSectorsPerCluster (m_FATInfo demo_fs)" by (simp add: demo_info_def)
  from chain_walk [OF demo_fs_ready demo_fs_ok demo_chain this, of 3000] show ?thesis
    by (auto simp: demo_info_def)
qed

end
