(* ===== verification/FatFormal.thy ===== *)
theory FatFormal
  imports FatProps
begin

text \<open>
  Formatting a partition with FAT32, \<^verbatim>\<open>env/lib/fs/fatformal.c\<close> with the boot sector template of
  \<^verbatim>\<open>env/include/fs/bpb.h\<close>. The global structures \<open>tBootSector\<close>, \<open>tFSInfoSector\<close> and \<open>fatDirEntry\<close> are their bytes and
  are passed from step to step.
\<close>

section \<open>Model\<close>

definition bpb_data :: "u8 list" where
  "bpb_data =
    [0xEB, 0x00, 0x90, 0x20, 0x20, 0x20, 0x20, 0x20, 0x20, 0x20, 0x20, 0x00, 0x02, 0x40, 0x34, 0x11,
     0x02, 0x00, 0x00, 0x00, 0x00, 0xF8, 0x00, 0x00, 0x3F, 0x00, 0xFF, 0x00, 0x00, 0x20, 0x00, 0x00,
     0x00, 0xC0, 0xEC, 0x00, 0x66, 0x07, 0x00, 0x00, 0x00, 0x00, 0x00, 0x00, 0x02, 0x00, 0x00, 0x00,
     0x01, 0x00, 0x06, 0x00, 0x00, 0x00, 0x00, 0x00, 0x00, 0x00, 0x00, 0x00, 0x00, 0x00, 0x00, 0x00,
     0x80, 0x00, 0x29, 0xEF, 0xCE, 0x20, 0xF6, 0x4E, 0x4F, 0x20, 0x4E, 0x41, 0x4D, 0x45, 0x20, 0x20,
     0x20, 0x20, 0x46, 0x41, 0x54, 0x33, 0x32, 0x20, 0x20, 0x20] @ replicate 420 0 @ [0x55, 0xAA]"

definition FAT32_nBackupBootSector :: "u8 list \<Rightarrow> u16" where "FAT32_nBackupBootSector d = le16 d 0x32"

definition isFatFormalFin :: "'a fat_state_scheme \<Rightarrow> (bool \<times> 'a fat_state_scheme) option" where
  "isFatFormalFin s = do {
     (pBuffer, s) \<leftarrow> FATCacheGetSector 0 False s;
     assert (pBuffer \<noteq> NULL);
     d \<leftarrow> Some (Data (sbuf s pBuffer));
     if Boot_nBootSignature d \<noteq> BOOT_SIGNATURE \<or> BPB_nBytesPerSector d \<noteq> 512 \<or> BPB_nMedia d AND 0xF0 \<noteq> 0xF0
     then do { s \<leftarrow> FATCacheFreeSector pBuffer False s; Some (False, s) }
     else do { s \<leftarrow> FATCacheFreeSector pBuffer False s; Some (True, s) } }"

text \<open>The steps that write a whole sector: get a buffer without reading, store the bytes, mark and release it.\<close>

definition fill_sector :: "u32 \<Rightarrow> u8 list \<Rightarrow> 'a fat_state_scheme \<Rightarrow> 'a fat_state_scheme option" where
  "fill_sector nSector d s = do {
     (pBuffer, s) \<leftarrow> FATCacheGetSector nSector True s;
     assert (pBuffer \<noteq> NULL);
     s \<leftarrow> FATCacheMarkDirty pBuffer (set_data pBuffer d s);
     FATCacheFreeSector pBuffer True s }"

text \<open>The boot sector that \<open>SetBPB\<close> builds from the template, with 32-bit arithmetic.\<close>

definition format_boot :: "u32 \<Rightarrow> u8 list" where
  "format_boot numberOfSectors =
     (let b = put32 0x20 numberOfSectors bpb_data;
          SectorsNumOfData = numberOfSectors - ucast (BPB_nReservedSectors b);
          b = put32 0x24 (SectorsNumOfData div ucast (BPB_nSectorsPerCluster b) * 4 div 512) b
      in put32 0x24 ((SectorsNumOfData - 2 * FAT32_nFATSize32 b) div ucast (BPB_nSectorsPerCluster b) * 4 div 512) b)"

definition SetBPB :: "u32 \<Rightarrow> 'a fat_state_scheme \<Rightarrow> (u8 list \<times> 'a fat_state_scheme) option" where
  "SetBPB numberOfSectors s = do {
     (pBuffer, s) \<leftarrow> FATCacheGetSector 0 True s;
     assert (pBuffer \<noteq> NULL);
     tBootSector \<leftarrow> Some (format_boot numberOfSectors);
     s \<leftarrow> FATCacheMarkDirty pBuffer (set_data pBuffer tBootSector s);
     s \<leftarrow> FATCacheFreeSector pBuffer True s;
     s \<leftarrow> fill_sector (ucast (FAT32_nBackupBootSector tBootSector)) tBootSector s;
     Some (tBootSector, s) }"

text \<open>\<open>tFSInfoSector\<close>, which \<open>CFatFormal\<close> has cleared.\<close>

definition format_fsinfo :: "u8 list \<Rightarrow> u8 list" where
  "format_fsinfo tBootSector =
     put32 508 0xAA550000 (put32 492 3 (put32 488 (FAT32_nFATSize32 tBootSector * 512 div 4)
       (put32 484 0x61417272 (put32 0 0x41615252 (replicate 512 0)))))"

definition SetFSInfo :: "u8 list \<Rightarrow> 'a fat_state_scheme \<Rightarrow> 'a fat_state_scheme option" where
  "SetFSInfo tBootSector s = fill_sector (ucast (FAT32_nFSInfoSector tBootSector)) (format_fsinfo tBootSector) s"

text \<open>\<open>DtoS\<close> with type 4 is \<open>put32\<close>; the first sector of the table, the rest of which is cleared.\<close>

definition fat_head :: "u8 list" where
  "fat_head = put32 8 0x0FFFFFFF (put32 4 0xFFFFFFFF (put32 0 0x0FFFFFF8 (replicate 512 0)))"

text \<open>Both copies of the table start at \<open>nReservedSectors\<close> in the code.\<close>

primrec fat_tab_loop :: "nat \<Rightarrow> u32 \<Rightarrow> u32 \<Rightarrow> u32 \<Rightarrow> 'a fat_state_scheme \<Rightarrow> 'a fat_state_scheme option" where
  "fat_tab_loop 0 i fat1firstSector fat2firstSector s = Some s"
| "fat_tab_loop (Suc n) i fat1firstSector fat2firstSector s = do {
     s \<leftarrow> fill_sector (fat1firstSector + i) (replicate 512 0) s;
     s \<leftarrow> fill_sector (fat2firstSector + i) (replicate 512 0) s;
     fat_tab_loop n (i + 1) fat1firstSector fat2firstSector s }"

definition SetFatTab :: "u8 list \<Rightarrow> 'a fat_state_scheme \<Rightarrow> 'a fat_state_scheme option" where
  "SetFatTab tBootSector s =
     (let fat1firstSector = ucast (BPB_nReservedSectors tBootSector); fat2firstSector = ucast (BPB_nReservedSectors tBootSector) in
      do {
        s \<leftarrow> fill_sector fat1firstSector fat_head s;
        s \<leftarrow> fill_sector fat2firstSector fat_head s;
        fat_tab_loop (unat (FAT32_nFATSize32 tBootSector) - 1) 1 fat1firstSector fat2firstSector s })"

text \<open>The entry of the volume: the name \<open>root\<close> and its terminator, and the attribute at offset 11.\<close>

definition root_sector :: "u8 list" where
  "root_sector = (replicate 512 0)[0 := 0x72, 1 := 0x6F, 2 := 0x6F, 3 := 0x74, 11 := 0x08]"

primrec root_loop :: "nat \<Rightarrow> u32 \<Rightarrow> u32 \<Rightarrow> 'a fat_state_scheme \<Rightarrow> 'a fat_state_scheme option" where
  "root_loop 0 i rootDirEntrySector s = Some s"
| "root_loop (Suc n) i rootDirEntrySector s = do {
     s \<leftarrow> fill_sector (rootDirEntrySector + i) (replicate 512 0) s;
     root_loop n (i + 1) rootDirEntrySector s }"

definition SetRootDir :: "u8 list \<Rightarrow> 'a fat_state_scheme \<Rightarrow> 'a fat_state_scheme option" where
  "SetRootDir tBootSector s =
     (let rootDirEntrySector = ucast (BPB_nReservedSectors tBootSector) + 2 * FAT32_nFATSize32 tBootSector in
      do {
        s \<leftarrow> fill_sector rootDirEntrySector root_sector s;
        root_loop (unat (BPB_nSectorsPerCluster tBootSector) - 1) 1 rootDirEntrySector s })"

definition FormatFat32Disk :: "TPartition \<Rightarrow> 'a fat_state_scheme \<Rightarrow> 'a fat_state_scheme option" where
  "FormatFat32Disk pPartition s = do {
     (tBootSector, s) \<leftarrow> SetBPB (m_nNumberOfSectors pPartition) s;
     s \<leftarrow> SetFSInfo tBootSector s;
     s \<leftarrow> SetFatTab tBootSector s;
     s \<leftarrow> SetRootDir tBootSector s;
     FATCacheFlush s }"

section \<open>Writing whole sectors\<close>

lemma get_write_only:
  assumes "ready s" "svalid s k"
  obtains p s' where "FATCacheGetSector k True s = Some (p, s')" "holds p k {p} s s'" "p \<noteq> NULL"
    "\<And>j. svalid s j \<Longrightarrow> j \<noteq> k \<Longrightarrow> sview s' j = sview s j"
proof -
  have r: "sec_inv {} s" "card_healthy (mmc_dev s)" "\<forall>a\<in>set (sbufs s). suses s a + 1 \<noteq> 0" "\<not> (\<forall>a\<in>set (sbufs s). suses s a \<noteq> 0)"
    using assms(1) by (auto simp: ready_def)
  obtain p s' where G: "FATCacheGetSector k True s = Some (p, s')" "same_rest s s'"
    "p \<noteq> NULL" "p \<in> set (sbufs s)" "sec_inv {p} s'" "nKey (sbuf s' p) = k" "suses s' = (suses s)(p := suses s p + 1)"
    "\<And>j. svalid s j \<Longrightarrow> j \<noteq> k \<Longrightarrow> sview s' j = sview s j"
    using get_sector [OF r(1) assms(2) r(3), of True] r(2,4) by auto
  then show thesis using that [of p s'] assms by (simp add: holds_def)
qed

lemma fill_sector_spec:
  assumes "ready s" "svalid s k" "length d = 512"
  obtains s' where "fill_sector k d s = Some s'" "changed s ((sview s)(k := d)) s'"
proof -
  obtain p s1 where G: "FATCacheGetSector k True s = Some (p, s1)" "holds p k {p} s s1" "p \<noteq> NULL"
    "\<And>j. svalid s j \<Longrightarrow> j \<noteq> k \<Longrightarrow> sview s1 j = sview s j"
    using get_write_only [OF assms(1,2)] by metis
  note H = holds_data [OF G(2) assms(3)]
  obtain s2 where M: "FATCacheMarkDirty p (set_data p d s1) = Some s2" "holds p k {} s s2"
    "\<And>j. svalid s j \<Longrightarrow> sview s2 j = sview (set_data p d s1) j"
    using holds_mark [OF H(1)] by auto
  obtain s3 where F: "FATCacheFreeSector p True s2 = Some s3" "ready s3" "same_rest s s3" "suses s3 = suses s"
    "\<And>j. svalid s j \<Longrightarrow> sview s3 j = sview s2 j"
    using holds_release [OF M(2)] by metis
  have "changed s ((sview s)(k := d)) s3" using F M H(2) G(4) by (auto simp: changed_def)
  moreover have "fill_sector k d s = Some s3" using G(1,3) M(1) F(1) by (simp add: fill_sector_def)
  ultimately show thesis using that by blast
qed

lemma changed_valid: "changed s v s' \<Longrightarrow> ready s' \<and> svalid s' = svalid s"
  unfolding changed_def using same_restD(2) by blast

text \<open>A further change of one sector.\<close>

lemma changed_fill:
  assumes "changed s v s1" "svalid s k" "length d = 512"
  obtains s' where "fill_sector k d s1 = Some s'" "changed s (v(k := d)) s'"
proof -
  have r: "ready s1" "svalid s1 = svalid s" using changed_valid [OF assms(1)] by simp_all
  obtain s' where F: "fill_sector k d s1 = Some s'" "changed s1 ((sview s1)(k := d)) s'"
    using fill_sector_spec [OF r(1) _ assms(3), of k] assms(2) r(2) by metis
  have "changed s ((sview s1)(k := d)) s'" by (rule changed_trans [OF assms(1) F(2)])
  then have "changed s (v(k := d)) s'" using assms(1) by (elim changed_cong) (auto simp: changed_def)
  with F(1) that show thesis by blast
qed

text \<open>\<open>n\<close> sectors from \<open>a\<close> on are cleared.\<close>

definition zeroed :: "nat \<Rightarrow> nat \<Rightarrow> (u32 \<Rightarrow> u8 list) \<Rightarrow> u32 \<Rightarrow> u8 list" where
  "zeroed a n v j = (if a \<le> unat j \<and> unat j < a + n then replicate 512 0 else v j)"

lemma zeroed_simps: "zeroed a 0 v = v" "unat k = a \<Longrightarrow> zeroed (a + 1) n (v(k := replicate 512 0)) = zeroed a (Suc n) v"
  by (auto simp: zeroed_def fun_eq_iff word_unat_eq_iff)

lemma zero_step:
  assumes "changed s v s1" "unat f + unat i + Suc n \<le> partition_sectors s"
  obtains t where "fill_sector (f + i) (replicate 512 0) s1 = Some t" "changed s (v(f + i := replicate 512 0)) t"
    "unat (f + i) = unat f + unat i" "unat f + unat (i + 1) + n \<le> partition_sectors s" "unat (i + 1) = unat i + 1"
proof -
  have a: "unat (f + i) = unat f + unat i" "unat (i + 1) = unat i + 1"
    using assms(2) partition_sectors_bound [of s] by (simp_all add: unat_add_no_wrap unat_word_ariths)
  have "svalid s (f + i)" using assms(2) a(1) by (simp add: svalid_sectors)
  then obtain t where "fill_sector (f + i) (replicate 512 0) s1 = Some t" "changed s (v(f + i := replicate 512 0)) t"
    using changed_fill [OF assms(1)] by (metis length_replicate)
  then show thesis using that a assms(2) by simp
qed

lemma fat_tab_loop_spec:
  assumes "changed s v s1" "unat f + unat i + n \<le> partition_sectors s"
  shows "\<exists>s'. fat_tab_loop n i f f s1 = Some s' \<and> changed s (zeroed (unat f + unat i) n v) s'"
  using assms
proof (induction n arbitrary: i v s1)
  case (Suc n)
  obtain t where t: "fill_sector (f + i) (replicate 512 0) s1 = Some t" "changed s (v(f + i := replicate 512 0)) t"
    "unat (f + i) = unat f + unat i" "unat f + unat (i + 1) + n \<le> partition_sectors s" "unat (i + 1) = unat i + 1"
    using zero_step [OF Suc.prems] .
  obtain u where u: "fill_sector (f + i) (replicate 512 0) t = Some u" "changed s (v(f + i := replicate 512 0)) u"
    using zero_step [OF t(2) Suc.prems(2)] by auto
  show ?case using Suc.IH [OF u(2) t(4)] t u(1) zeroed_simps(2) [OF t(3), of n v] by (auto simp: fun_upd_def)
qed (simp add: zeroed_simps)

lemma root_loop_spec:
  assumes "changed s v s1" "unat f + unat i + n \<le> partition_sectors s"
  shows "\<exists>s'. root_loop n i f s1 = Some s' \<and> changed s (zeroed (unat f + unat i) n v) s'"
  using assms
proof (induction n arbitrary: i v s1)
  case (Suc n)
  obtain t where t: "fill_sector (f + i) (replicate 512 0) s1 = Some t" "changed s (v(f + i := replicate 512 0)) t"
    "unat (f + i) = unat f + unat i" "unat f + unat (i + 1) + n \<le> partition_sectors s" "unat (i + 1) = unat i + 1"
    using zero_step [OF Suc.prems] .
  show ?case using Suc.IH [OF t(2,4)] t zeroed_simps(2) [OF t(3), of n v] by (auto simp: fun_upd_def)
qed (simp add: zeroed_simps)

section \<open>The boot sector\<close>

lemma le16_put32: "length d = n \<Longrightarrow> i + 3 < n \<Longrightarrow> (k + 1 < i \<or> i + 3 < k) \<Longrightarrow> le16 (put32 i w d) k = le16 d k"
  by (auto simp: le16_def put32_def)

lemma nth_put32: "(k < i \<or> i + 3 < k) \<Longrightarrow> put32 i w d ! k = d ! k"
  by (auto simp: put32_def)

lemma le32_put32_other: "k + 3 < i \<or> i + 3 < k \<Longrightarrow> le32 (put32 i w d) k = le32 d k"
  by (auto simp: le32_def put32_def)

lemma le32_split: "(ucast (ucast w :: u8) OR push_bit 8 (ucast (ucast (drop_bit 8 w) :: u8)) OR
    push_bit 16 (ucast (ucast (drop_bit 16 w) :: u8)) OR push_bit 24 (ucast (ucast (drop_bit 24 w) :: u8)) :: u32) = w"
proof (rule bit_word_eqI)
  fix n
  assume n: "n < LENGTH(32)"
  consider "n < 8" | "8 \<le> n" "n < 16" "n - 8 < 8" | "16 \<le> n" "n < 24" "n - 16 < 8" "\<not> n - 8 < 8" | "24 \<le> n" "n - 24 < 8" "\<not> n - 16 < 8" "\<not> n - 8 < 8"
    using n by fastforce
  then show "bit (ucast (ucast w :: u8) OR push_bit 8 (ucast (ucast (drop_bit 8 w) :: u8)) OR
    push_bit 16 (ucast (ucast (drop_bit 16 w) :: u8)) OR push_bit 24 (ucast (ucast (drop_bit 24 w) :: u8)) :: u32) n = bit w n"
    by cases (use n in \<open>simp_all add: bit_simps\<close>)
qed

lemma le32_put32: "i + 3 < length d \<Longrightarrow> le32 (put32 i w d) i = w"
  using le32_split [of w] by (simp add: le32_def put32_def)

lemma length_put32 [simp]: "length (put32 i w d) = length d"
  by (simp add: put32_def)

lemma length_bpb [simp]: "length bpb_data = 512"
  by (simp add: bpb_data_def)

lemma bpb_bytes:
  "bpb_data ! 0x0B = 0" "bpb_data ! 0x0C = 2" "bpb_data ! 0x0D = 0x40" "bpb_data ! 0x0E = 0x34" "bpb_data ! 0x0F = 0x11"
  "bpb_data ! 0x10 = 2" "bpb_data ! 0x11 = 0" "bpb_data ! 0x12 = 0" "bpb_data ! 0x13 = 0" "bpb_data ! 0x14 = 0"
  "bpb_data ! 0x15 = 0xF8" "bpb_data ! 0x16 = 0" "bpb_data ! 0x17 = 0" "bpb_data ! 0x28 = 0" "bpb_data ! 0x29 = 0" "bpb_data ! 0x2A = 0"
  "bpb_data ! 0x2B = 0" "bpb_data ! 0x2C = 2" "bpb_data ! 0x2D = 0" "bpb_data ! 0x2E = 0" "bpb_data ! 0x2F = 0" "bpb_data ! 0x30 = 1"
  "bpb_data ! 0x31 = 0" "bpb_data ! 0x32 = 6" "bpb_data ! 0x33 = 0" "bpb_data ! 0x42 = 0x29" "bpb_data ! 510 = 0x55" "bpb_data ! 511 = 0xAA"
  by (simp_all add: bpb_data_def nth_append)

text \<open>The size of the table in sectors.\<close>

definition format_fat_size :: "u32 \<Rightarrow> u32" where
  "format_fat_size n = (let D = n - 0x1134 in (D - 2 * (D div 0x40 * 4 div 512)) div 0x40 * 4 div 512)"

lemma boot_byte: "k \<notin> {0x20, 0x21, 0x22, 0x23, 0x24, 0x25, 0x26, 0x27} \<Longrightarrow> format_boot n ! k = bpb_data ! k"
  by (simp add: format_boot_def Let_def put32_def)

lemma format_boot_fields:
  "length (format_boot n) = 512" "BPB_nBytesPerSector (format_boot n) = 512" "BPB_nSectorsPerCluster (format_boot n) = 0x40"
  "BPB_nReservedSectors (format_boot n) = 0x1134" "BPB_nNumberOfFATs (format_boot n) = 2" "BPB_nRootEntries (format_boot n) = 0"
  "BPB_nTotalSectors16 (format_boot n) = 0" "BPB_nMedia (format_boot n) = 0xF8" "BPB_nFATSize16 (format_boot n) = 0"
  "le16 (format_boot n) 0x28 = 0" "FAT32_nFSVersion (format_boot n) = 0"
  "FAT32_nRootCluster (format_boot n) = 2" "FAT32_nFSInfoSector (format_boot n) = 1" "FAT32_nBootSignature (format_boot n) = 0x29"
  "Boot_nBootSignature (format_boot n) = BOOT_SIGNATURE" "FAT32_nBackupBootSector (format_boot n) = 6"
  by (simp_all add: BPB_nBytesPerSector_def BPB_nSectorsPerCluster_def BPB_nReservedSectors_def BPB_nNumberOfFATs_def BPB_nRootEntries_def
    BPB_nTotalSectors16_def BPB_nMedia_def BPB_nFATSize16_def FAT32_nFSVersion_def FAT32_nRootCluster_def FAT32_nFSInfoSector_def
    FAT32_nBootSignature_def Boot_nBootSignature_def BOOT_SIGNATURE_def FAT32_nBackupBootSector_def le16_def le32_def boot_byte bpb_bytes)
    (simp add: format_boot_def Let_def)

lemma format_boot_total: "BPB_nTotalSectors32 (format_boot n) = n" "FAT32_nFATSize32 (format_boot n) = format_fat_size n"
proof -
  have r: "BPB_nReservedSectors (put32 0x20 n bpb_data) = 0x1134" "BPB_nSectorsPerCluster (put32 0x24 w (put32 0x20 n bpb_data)) = 0x40"
    "BPB_nSectorsPerCluster (put32 0x20 n bpb_data) = 0x40" for w
    by (simp_all add: BPB_nReservedSectors_def BPB_nSectorsPerCluster_def le16_def put32_def bpb_bytes)
  show "BPB_nTotalSectors32 (format_boot n) = n"
    by (simp add: BPB_nTotalSectors32_def format_boot_def Let_def le32_put32_other le32_put32)
  show "FAT32_nFATSize32 (format_boot n) = format_fat_size n"
    by (simp add: FAT32_nFATSize32_def format_boot_def Let_def le32_put32 r format_fat_size_def)
qed

section \<open>The formatted volume\<close>

lemma format_fat_size_unat:
  assumes "0x1134 \<le> unat n"
  defines "D \<equiv> unat n - 0x1134"
  shows "unat (format_fat_size n) = (D - 2 * (D div 64 div 128)) div 64 div 128"
proof -
  have n: "unat n < 2 ^ 32" by (rule unat_u32_less)
  have d: "unat (n - 0x1134) = D" using assms by (simp add: unat_sub_if')
  have q: "unat (x div 0x40 * 4 div 512) = unat x div 64 div 128" for x :: u32
  proof -
    have "unat (x div 0x40 * 4) = unat x div 64 * 4"
      using unat_u32_less [of x] by (simp add: unat_word_ariths unat_div)
    then show ?thesis by (simp add: unat_div div_mult2_eq [symmetric])
  qed
  have f: "2 * (D div 64 div 128) \<le> D" by linarith
  then have "unat (2 * ((n - 0x1134) div 0x40 * 4 div 512)) = 2 * (D div 64 div 128)"
    using q [of "n - 0x1134"] d n by (simp add: unat_word_ariths D_def)
  then have "unat (n - 0x1134 - 2 * ((n - 0x1134) div 0x40 * 4 div 512)) = D - 2 * (D div 64 div 128)"
    using d f by (simp add: unat_sub_if')
  then show ?thesis by (simp only: format_fat_size_def Let_def q)
qed

lemma format_fat_size_bound: "0x1134 \<le> unat n \<Longrightarrow> 0x1134 + 2 * unat (format_fat_size n) \<le> unat n"
  using format_fat_size_unat [of n] by linarith

lemma parse_formatted:
  "fst (parse_boot (format_boot n) i)"
  "snd (parse_boot (format_boot n) i) =
     i\<lparr>m_FATType := FAT32, m_nSectorsPerCluster := 0x40, m_nReservedSectors := 0x1134, m_nNumberOfFATs := 2, m_nRootEntries := 0,
       m_nFATSize := format_fat_size n, m_nTotalSectors := n, m_bFATMirroring := True, m_nActiveFAT := 0, m_nRootCluster := 2,
       m_nFSInfoSector := 1\<rparr>"
  by (simp_all add: parse_boot_def format_boot_fields format_boot_total FAT32_nMirroringOff_def FAT32_nActiveFAT_def)

text \<open>C24: The boot sector that the formatter writes is accepted by the parser of the mount, but the table is too small: for
  every size of the partition there are more clusters than the table has entries for, so the entries of the
  last clusters lie behind the table.\<close>

theorem format_table_too_small:
  assumes "0x1134 \<le> unat n"
  shows "\<exists>i. parse_boot (format_boot n) i0 = (True, i) \<and> m_FATType (FATInfo_layout i) = FAT32 \<and>
     m_nFATSize (FATInfo_layout i) = format_fat_size n \<and>
     unat (m_nFATSize (FATInfo_layout i)) * 512 < (unat (m_nClusters (FATInfo_layout i)) + 2) * entry_width (FATInfo_layout i)"
proof -
  let ?i = "snd (parse_boot (format_boot n) i0)" and ?F = "format_fat_size n"
  define D where "D = unat n - 0x1134"
  note P = parse_formatted [of n i0]
  have F: "unat ?F = (D - 2 * (D div 64 div 128)) div 64 div 128" "0x1134 + 2 * unat ?F \<le> unat n"
    using format_fat_size_unat [OF assms] format_fat_size_bound [OF assms] by (simp_all add: D_def)
  have l: "m_FATType (FATInfo_layout ?i) = FAT32" "m_nFATSize (FATInfo_layout ?i) = ?F"
    "m_nClusters (FATInfo_layout ?i) = (n - (0x1134 + 2 * ?F)) div 0x40"
    by (simp_all add: P(2) FATInfo_layout_def Let_def FAT_SECTOR_SIZE_def)
  have "unat (0x1134 + 2 * ?F) = 0x1134 + 2 * unat ?F"
    using F(2) unat_u32_less [of n] by (simp add: unat_word_ariths)
  then have c: "unat (m_nClusters (FATInfo_layout ?i)) = (D - 2 * unat ?F) div 64"
    using F(2) by (simp add: l(3) unat_div unat_sub_if' D_def)
  have "D - 2 * (D div 64 div 128) \<le> D" by simp
  then have "unat ?F \<le> D div 64 div 128" unfolding F(1) by (intro div_le_mono)
  then have "D - 2 * (D div 64 div 128) \<le> D - 2 * unat ?F" by simp
  then have "(D - 2 * (D div 64 div 128)) div 64 \<le> (D - 2 * unat ?F) div 64" by (rule div_le_mono)
  moreover have "unat ?F * 128 \<le> (D - 2 * (D div 64 div 128)) div 64" unfolding F(1) by simp
  ultimately have "unat ?F * 512 < (unat (m_nClusters (FATInfo_layout ?i)) + 2) * 4" using c by simp
  then show ?thesis using P(1) l by (intro exI [of _ ?i]) (simp add: entry_width_def prod_eq_iff)
qed

theorem format_table_too_small_witness:
  "\<exists>i. parse_boot (format_boot 0x800000) demo_info = (True, i) \<and> m_FATType (FATInfo_layout i) = FAT32 \<and>
     unat (m_nFATSize (FATInfo_layout i)) * 512 < (unat (m_nClusters (FATInfo_layout i)) + 2) * entry_width (FATInfo_layout i)"
  using format_table_too_small [of "0x800000" demo_info] by auto

text \<open>What the sectors of the partition hold after formatting.\<close>

definition format_image :: "u32 \<Rightarrow> (u32 \<Rightarrow> u8 list) \<Rightarrow> u32 \<Rightarrow> u8 list" where
  "format_image n v j =
     (let F = unat (format_fat_size n); k = unat j in
      if k = 0 \<or> k = 6 then format_boot n
      else if k = 1 then format_fsinfo (format_boot n)
      else if k = 0x1134 then fat_head
      else if 0x1134 < k \<and> k < 0x1134 + F then replicate 512 0
      else if k = 0x1134 + 2 * F then root_sector
      else if 0x1134 + 2 * F < k \<and> k < 0x1134 + 2 * F + 64 then replicate 512 0
      else v j)"

lemma format_lengths [simp]: "length (format_fsinfo b) = 512" "length fat_head = 512" "length root_sector = 512"
  by (simp_all add: format_fsinfo_def fat_head_def root_sector_def)

lemma SetBPB_spec:
  assumes "ready s" "6 < partition_sectors s"
  obtains s' where "SetBPB n s = Some (format_boot n, s')" "changed s ((sview s)(0 := format_boot n, 6 := format_boot n)) s'"
proof -
  obtain s1 where a: "fill_sector 0 (format_boot n) s = Some s1" "changed s ((sview s)(0 := format_boot n)) s1"
    using fill_sector_spec [of s 0 "format_boot n"] assms format_boot_fields(1) by (auto simp: svalid_sectors)
  obtain s2 where b: "fill_sector 6 (format_boot n) s1 = Some s2" "changed s ((sview s)(0 := format_boot n, 6 := format_boot n)) s2"
    using changed_fill [OF a(2), of 6 "format_boot n"] assms(2) format_boot_fields(1) by (auto simp: svalid_sectors)
  have "SetBPB n s = do { s \<leftarrow> fill_sector 0 (format_boot n) s; s \<leftarrow> fill_sector 6 (format_boot n) s; Some (format_boot n, s) }"
    by (simp add: SetBPB_def fill_sector_def format_boot_fields case_prod_unfold)
  with a(1) b that show thesis by simp
qed

text \<open>C23: Formatting a partition that is large enough returns; it writes the boot sector and its copy, the FSInfo sector, the
  first copy of the table and the cluster of the root directory to the card and leaves every other sector as it was. In
  particular the second copy of the table keeps what the card held.\<close>

theorem format_writes_image:
  assumes "ready s" "m_pPartition (m_Cache s) = Some pt" "0 < format_fat_size (m_nNumberOfSectors pt)"
    "0x1134 + 2 * unat (format_fat_size (m_nNumberOfSectors pt)) + 64 \<le> unat (m_nNumberOfSectors pt)"
  shows "\<exists>s'. FormatFat32Disk pt s = Some s' \<and> ready s' \<and>
    (\<forall>j. svalid s j \<longrightarrow> scontent s' j = format_image (m_nNumberOfSectors pt) (sview s) j)"
proof -
  let ?n = "m_nNumberOfSectors pt" and ?b = "format_boot (m_nNumberOfSectors pt)" and ?F = "format_fat_size (m_nNumberOfSectors pt)"
  let ?r = "0x1134 + 2 * ?F"
  have N: "partition_sectors s = unat ?n" using assms(2) by (simp add: partition_sectors_def)
  have r: "unat ?r = 0x1134 + 2 * unat ?F" "0 < unat ?F"
    using assms(3,4) unat_u32_less [of ?n] by (simp_all add: unat_word_ariths word_less_nat_alt)
  have six: "6 < partition_sectors s" using assms(4) N by simp
  obtain s1 where a: "SetBPB ?n s = Some (?b, s1)" "changed s ((sview s)(0 := ?b, 6 := ?b)) s1"
    using SetBPB_spec [OF assms(1) six] .
  obtain s2 where b: "SetFSInfo ?b s1 = Some s2" "changed s ((sview s)(0 := ?b, 6 := ?b, 1 := format_fsinfo ?b)) s2"
    using changed_fill [OF a(2), of 1 "format_fsinfo ?b"] assms(4) N by (auto simp: svalid_sectors SetFSInfo_def format_boot_fields)
  have v: "svalid s 0x1134" "svalid s ?r" using assms(4) N r by (simp_all add: svalid_sectors)
  obtain s3 where c: "fill_sector 0x1134 fat_head s2 = Some s3"
      "changed s ((sview s)(0 := ?b, 6 := ?b, 1 := format_fsinfo ?b, 0x1134 := fat_head)) s3"
    using changed_fill [OF b(2) v(1)] by (metis format_lengths(2))
  obtain s4 where d: "fill_sector 0x1134 fat_head s3 = Some s4"
      "changed s ((sview s)(0 := ?b, 6 := ?b, 1 := format_fsinfo ?b, 0x1134 := fat_head)) s4"
    using changed_fill [OF c(2) v(1)] by (metis format_lengths(2) fun_upd_upd)
  have lo: "unat (0x1134::u32) + unat (1::u32) + (unat ?F - 1) \<le> partition_sectors s"
    and hi: "unat ?r + unat (1::u32) + 63 \<le> partition_sectors s"
    using assms(4) N r by simp_all
  obtain s5 where e: "fat_tab_loop (unat ?F - 1) 1 0x1134 0x1134 s4 = Some s5"
      "changed s (zeroed (0x1134 + 1) (unat ?F - 1) ((sview s)(0 := ?b, 6 := ?b, 1 := format_fsinfo ?b, 0x1134 := fat_head))) s5"
    using fat_tab_loop_spec [OF d(2) lo] by auto
  let ?v = "zeroed (0x1134 + 1) (unat ?F - 1) ((sview s)(0 := ?b, 6 := ?b, 1 := format_fsinfo ?b, 0x1134 := fat_head))"
  obtain s6 where f: "fill_sector ?r root_sector s5 = Some s6" "changed s (?v(?r := root_sector)) s6"
    using changed_fill [OF e(2) v(2)] by (metis format_lengths(3))
  obtain s7 where g: "root_loop 63 1 ?r s6 = Some s7" "changed s (zeroed (unat ?r + 1) 63 (?v(?r := root_sector))) s7"
    using root_loop_spec [OF f(2) hi] by auto
  have r7: "sec_inv {} s7" "card_healthy (mmc_dev s7)" "svalid s7 = svalid s"
    using changed_valid [OF g(2)] by (auto simp: ready_def)
  obtain s8 where h: "FATCacheFlush s7 = Some s8" "sec_inv {} s8" "same_rest s7 s8" "suses s8 = suses s7"
    "\<And>k. svalid s7 k \<Longrightarrow> sview s8 k = sview s7 k \<and> scontent s8 k = sview s7 k"
    using flush_sectors [OF r7(1,2)] by blast
  have "ready s8" using changed_valid [OF g(2)] h(2,4) same_restD [OF h(3)] by (simp add: ready_def)
  moreover have "FormatFat32Disk pt s = Some s8"
    using a(1) b(1) c(1) d(1) e(1) f(1) g(1) h(1)
    by (simp add: FormatFat32Disk_def SetFatTab_def SetRootDir_def format_boot_fields format_boot_total Let_def)
  moreover have "scontent s8 j = format_image ?n (sview s) j" if "svalid s j" for j
    using that h(5) r7(3) g(2) r by (auto simp: changed_def format_image_def zeroed_def Let_def word_unat_eq_iff)
  ultimately show ?thesis by blast
qed

theorem format_writes_image_witness:
  "\<exists>s'. FormatFat32Disk demo_part demo_fs = Some s' \<and> scontent s' 0 = format_boot 0x8000 \<and> scontent s' 0x1134 = fat_head \<and>
     scontent s' (0x1134 + 3) = sview demo_fs (0x1134 + 3)"
proof -
  have n: "m_nNumberOfSectors demo_part = 0x8000" by (simp add: demo_part_def)
  have F: "unat (format_fat_size 0x8000) = 3" by (subst format_fat_size_unat) simp_all
  have v: "svalid demo_fs k \<longleftrightarrow> unat k < 0x8000" for k
    by (simp add: svalid_sectors partition_sectors_def demo_fs_part n)
  have "0 < format_fat_size (m_nNumberOfSectors demo_part)" using F n by (simp add: word_less_nat_alt)
  from format_writes_image [OF demo_fs_ready demo_fs_part this] F n obtain s' where
    s': "FormatFat32Disk demo_part demo_fs = Some s'"
    "\<And>j. svalid demo_fs j \<Longrightarrow> scontent s' j = format_image 0x8000 (sview demo_fs) j" by auto
  have "scontent s' 0 = format_boot 0x8000" "scontent s' 0x1134 = fat_head" "scontent s' (0x1134 + 3) = sview demo_fs (0x1134 + 3)"
    using s'(2) by (simp_all add: v format_image_def F)
  with s'(1) show ?thesis by blast
qed

end
