(* ===== verification/Stdlib.thy ===== *)
theory Stdlib
  imports Prelude
begin

text \<open>
  Conversion between numbers and text: \<^verbatim>\<open>env/lib/stdlib/\<close> (\<^verbatim>\<open>strtoul0.c\<close>, \<^verbatim>\<open>strtoul.c\<close>, \<^verbatim>\<open>strtol.c\<close>, \<^verbatim>\<open>atoi.c\<close>,
  \<^verbatim>\<open>abs.c\<close>, \<^verbatim>\<open>rand.c\<close>) and \<^verbatim>\<open>env/lib/stdio/vsprintf.c\<close>. A string is the list of its bytes before the
  terminator, a pointer into it the rest of the list from there on, and the terminator is read at the end of
  the list. \<open>long\<close> and \<open>size_t\<close> have 32 bits. The characters are written as numbers:
  \<open>0x20\<close> blank, \<open>0x25\<close> percent sign, \<open>0x2A\<close> asterisk, \<open>0x2D\<close> minus, \<open>0x2E\<close> period, \<open>0x30\<close>--\<open>0x39\<close> digits,
  \<open>0x41\<close>--\<open>0x5A\<close> and \<open>0x61\<close>--\<open>0x7A\<close> letters.
\<close>

type_synonym cstr = "u8 list"

section \<open>Model: parsing\<close>

text \<open>The byte at the start of the rest of a string.\<close>

definition ch :: "cstr \<Rightarrow> u8" where
  "ch s = (case s of [] \<Rightarrow> 0 | c # _ \<Rightarrow> c)"

definition ULONG_MAX :: u32 where "ULONG_MAX = 0xFFFFFFFF"
definition LONG_MAX :: u32 where "LONG_MAX = 0x7FFFFFFF"
definition LONG_MIN :: u32 where "LONG_MIN = - 0x7FFFFFFF"

definition prefix_base :: "u8 \<Rightarrow> int" where
  "prefix_base c =
     (let c = (if 0x61 \<le> c \<and> c \<le> 0x7A then c - 0x20 else c) in
      if c = 0x42 then 2 else if c = 0x44 then 10 else if c = 0x4F then 8 else if c = 0x58 then 16 else 0)"

definition digit_of :: "u8 \<Rightarrow> int" where
  "digit_of c =
     (if 0x30 \<le> c \<and> c \<le> 0x39 then uint c - 0x30
      else if 0x41 \<le> c \<and> c \<le> 0x5A then uint c - (0x41 - 10)
      else if 0x61 \<le> c \<and> c \<le> 0x7A then uint c - (0x61 - 10)
      else 99)"

text \<open>The loop over the digits. Bases above 99 make the code run over the terminator, which is the outcome
  \<^term>\<open>None\<close>.\<close>

fun digits_loop :: "int \<Rightarrow> u32 \<Rightarrow> u32 \<Rightarrow> bool \<Rightarrow> cstr \<Rightarrow> (u32 \<times> bool \<times> cstr) option" where
  "digits_loop base mx val err [] = (if digit_of 0 \<ge> base then Some (val, err, []) else None)"
| "digits_loop base mx val err (c # s) =
     (let digit = digit_of c in
      if digit \<ge> base then Some (val, err, c # s)
      else if val > mx then digits_loop base mx ULONG_MAX True s
      else
        let val = val * word_of_int base in
        if ULONG_MAX - val < word_of_int digit then digits_loop base mx ULONG_MAX True s
        else digits_loop base mx (val + word_of_int digit) err s)"

text \<open>The result is the value, the error flag and the rest of the string.\<close>

definition strtoul0 :: "cstr \<Rightarrow> int \<Rightarrow> (u32 \<times> bool \<times> cstr) option" where
  "strtoul0 s base =
     (let base = (if base = 0
                  then if ch s = 0x30
                       then let b = prefix_base (ch (tl s)) in if b = 0 then 8 else b
                       else 10
                  else base);
          s = (if ch s = 0x30 \<and> base = prefix_base (ch (tl s)) then drop 2 s else s)
      in digits_loop base (ULONG_MAX div word_of_int base) 0 False s)"

definition skip_space :: "cstr \<Rightarrow> cstr" where
  "skip_space s = dropWhile (\<lambda>c. c \<noteq> 0 \<and> c \<le> 0x20) s"

definition after_sign :: "cstr \<Rightarrow> bool \<times> cstr" where
  "after_sign s =
     (let s = skip_space s; sign = (ch s = 0x2D); s = (if sign then tl s else s) in (sign, skip_space s))"

text \<open>The value, the end pointer and whether \<open>errno\<close> is set to \<open>ERANGE\<close>.\<close>

definition strtol :: "cstr \<Rightarrow> int \<Rightarrow> (u32 \<times> cstr \<times> bool) option" where
  "strtol s0 base =
     (let (sign, s1) = after_sign s0 in
      do {
        (val, errflag, s) \<leftarrow> strtoul0 s1 base;
        s \<leftarrow> Some (if length s = length s1 then s0 else s);
        (val, errflag) \<leftarrow> Some (if val > LONG_MAX then (if sign then LONG_MIN else LONG_MAX, True) else (val, errflag));
        val \<leftarrow> Some (if \<not> errflag \<and> sign then - val else val);
        Some (val, s, errflag) })"

definition strtoul :: "cstr \<Rightarrow> int \<Rightarrow> (u32 \<times> cstr \<times> bool) option" where
  "strtoul s0 base =
     (let (sign, s1) = after_sign s0 in
      do {
        (val, errflag, s) \<leftarrow> strtoul0 s1 base;
        s \<leftarrow> Some (if length s = length s1 then s0 else s);
        val \<leftarrow> Some (if \<not> errflag \<and> sign then - val else val);
        Some (val, s, errflag) })"

definition atoi :: "cstr \<Rightarrow> u32 option" where
  "atoi s = do { (v, _, _) \<leftarrow> strtol s 10; Some v }"

definition abs32 :: "u32 \<Rightarrow> u32" where
  "abs32 n = (if sint n < 0 then - n else n)"

definition GO_rand :: "u32 \<Rightarrow> u32 \<times> u32" where
  "GO_rand seed = (let seed = seed * 1103515245 + 12345 in (drop_bit 16 seed AND 32767, seed))"

section \<open>Model: printing\<close>

text \<open>An argument of a call with a variable number of arguments.\<close>

datatype varg = VInt u32 | VStr cstr

text \<open>\<open>setdec\<close> writes the digits in front of what is already there.\<close>

function setdec :: "u32 \<Rightarrow> cstr \<Rightarrow> cstr" where
  "setdec ui s =
     (let s = (ucast (ui mod 10) + 0x30) # s; ui = ui div 10 in if ui = 0 then s else setdec ui s)"
  by pat_completeness auto
termination
  by (relation "measure (\<lambda>(ui, _). unat ui)") (auto simp: word_unat_eq_iff unat_div)

definition hextable_X :: cstr where
  "hextable_X = [0x30, 0x31, 0x32, 0x33, 0x34, 0x35, 0x36, 0x37, 0x38, 0x39, 0x41, 0x42, 0x43, 0x44, 0x45, 0x46]"

definition hextable_x :: cstr where
  "hextable_x = [0x30, 0x31, 0x32, 0x33, 0x34, 0x35, 0x36, 0x37, 0x38, 0x39, 0x61, 0x62, 0x63, 0x64, 0x65, 0x66]"

text \<open>The loops of \<open>x\<close>, \<open>X\<close> and \<open>o\<close>: \<open>k\<close> bits per digit.\<close>

function set_bits :: "cstr \<Rightarrow> nat \<Rightarrow> u32 \<Rightarrow> cstr \<Rightarrow> cstr" where
  "set_bits q k l s =
     (let s = q ! unat (l AND mask k) # s; l' = drop_bit k l in if l' = 0 \<or> k = 0 then s else set_bits q k l' s)"
  by pat_completeness auto
termination
proof (relation "measure (\<lambda>(_, _, l, _). unat l)", goal_cases)
  case (2 q k l s x xa)
  have e: "unat (drop_bit k l) = unat l div 2 ^ k"
    using unat_drop_bit_eq [of k l] by (simp only: drop_bit_eq_div [where 'a = nat])
  from 2 have n: "unat l div 2 ^ k \<noteq> 0" "0 < k" by (auto simp: e [symmetric] word_unat_eq_iff)
  then have "0 < unat l" by (metis div_0 gr0I)
  then have "unat l div 2 ^ k < unat l" using n(2) one_less_power [of "2::nat" k] by (intro div_less_dividend) simp_all
  with 2 show ?case by (simp add: e)
qed simp

text \<open>The eight digits of \<open>p\<close>.\<close>

primrec set_ptr :: "nat \<Rightarrow> u32 \<Rightarrow> cstr \<Rightarrow> cstr" where
  "set_ptr 0 i s = s"
| "set_ptr (Suc n) i s = set_ptr n (signed_drop_bit 4 i) (hextable_X ! unat (i AND 0xF) # s)"

text \<open>The label \<open>copy_p2t\<close>: the padding \<open>c\<close> on the left unless \<open>flag_left\<close>, the text, blanks on the right.\<close>

definition copy_p2t :: "u8 \<Rightarrow> bool \<Rightarrow> int \<Rightarrow> int \<Rightarrow> cstr \<Rightarrow> cstr" where
  "copy_p2t c flag_left field_min l p =
     (let pad = nat (field_min - l) in
      if flag_left then p @ replicate pad 0x20 else replicate pad c @ p)"

text \<open>The flags behind a percent sign.\<close>

primrec flags_loop :: "bool \<Rightarrow> bool \<Rightarrow> cstr \<Rightarrow> bool \<times> bool \<times> cstr" where
  "flags_loop left zero [] = (left, zero, [])"
| "flags_loop left zero (c # f) =
     (if c = 0x2D then flags_loop True zero f else if c = 0x30 then flags_loop left True f else (left, zero, c # f))"

definition va_int :: "varg list \<Rightarrow> (u32 \<times> varg list) option" where
  "va_int as = (case as of VInt i # as \<Rightarrow> Some (i, as) | _ \<Rightarrow> None)"

definition va_str :: "varg list \<Rightarrow> (cstr \<times> varg list) option" where
  "va_str as = (case as of VStr s # as \<Rightarrow> Some (s, as) | _ \<Rightarrow> None)"

definition INT_MAX :: int where "INT_MAX = 0x7FFFFFFF"

text \<open>The width and the part behind a period. A number there goes to \<open>field_min\<close> too.\<close>

definition parse_width :: "cstr \<Rightarrow> varg list \<Rightarrow> (int \<times> int \<times> cstr \<times> varg list) option" where
  "parse_width f as = do {
     (field_min, f, as) \<leftarrow>
       (if 0x31 \<le> ch f \<and> ch f \<le> 0x39 then do { (v, _, f) \<leftarrow> strtoul0 f 10; Some (sint v, f, as) }
        else if ch f = 0x2A then do { (v, as) \<leftarrow> va_int as; Some (sint v, tl f, as) }
        else Some (0, f, as));
     (if ch f = 0x2E then
        let f = tl f in
        if 0x31 \<le> ch f \<and> ch f \<le> 0x39 then do { (v, _, f) \<leftarrow> strtoul0 f 10; Some (sint v, INT_MAX, f, as) }
        else if ch f = 0x2A then do { (v, as) \<leftarrow> va_int as; Some (field_min, sint v, tl f, as) }
        else Some (field_min, INT_MAX, f, as)
      else Some (field_min, INT_MAX, f, as)) }"

text \<open>One conversion \<open>c\<close>, with \<open>f\<close> the format behind it: what is written, the rest of the format and of the
  arguments. The label \<open>mikan\<close>, an endless loop, is \<^term>\<open>None\<close>, as is an argument of the wrong kind.\<close>

definition convert_num :: "u8 \<Rightarrow> bool \<Rightarrow> bool \<Rightarrow> int \<Rightarrow> int \<Rightarrow> varg list \<Rightarrow> (cstr \<times> varg list) option" where
  "convert_num c left zero field_min field_max as =
     (if c = 0x75 \<or> c = 0x64 \<or> c = 0x69 then do {
        (l, as) \<leftarrow> va_int as;
        (sg, l, field_min) \<leftarrow> Some (if c \<noteq> 0x75 \<and> sint l < 0 then ([0x2D], - l, field_min - 1) else ([], l, field_min));
        assert (field_max = INT_MAX);
        p \<leftarrow> Some (setdec l []);
        Some (sg @ copy_p2t (if zero then 0x30 else 0x20) left (if field_min \<le> 0 then 1 else field_min) (int (length p)) p, as) }
      else if c = 0x25 then Some ([0x25], as)
      else if c = 0x78 \<or> c = 0x58 \<or> c = 0x6F then do {
        (l, as) \<leftarrow> va_int as;
        p \<leftarrow> Some (if c = 0x6F then set_bits hextable_x 3 l [] else set_bits (if c = 0x78 then hextable_x else hextable_X) 4 l []);
        Some (copy_p2t (if zero then 0x30 else 0x20) left field_min (int (length p)) p, as) }
      else if c = 0x70 then do {
        (i, as) \<leftarrow> va_int as;
        Some (copy_p2t 0x70 left field_min 8 (set_ptr 8 i []), as) }
      else if c = 0x66 then
        let field_max = (if field_max = INT_MAX then 6 else field_max);
            field_min = (if field_min < field_max + 2 then field_max + 2 else field_min)
        in do { assert (field_min > 0); Some (replicate (nat field_min) 0x23, as) }
      else None)"

definition convert :: "bool \<Rightarrow> bool \<Rightarrow> int \<Rightarrow> int \<Rightarrow> cstr \<Rightarrow> varg list \<Rightarrow> (cstr \<times> cstr \<times> varg list) option" where
  "convert left zero field_min field_max f as =
     (let c = ch f; f = tl f in
      if c = 0x73 then do {
        assert (field_max = INT_MAX);
        (p, as) \<leftarrow> va_str as;
        Some (if p = [] then replicate (nat field_min) 0x20 else copy_p2t 0x20 left field_min (int (length p)) p, f, as) }
      else do {
        (c, f) \<leftarrow> (if c = 0x6C then do { assert (ch f = 0x64 \<or> ch f = 0x78 \<or> ch f = 0x75); Some (ch f, tl f) } else Some (c, f));
        (out, as) \<leftarrow> convert_num c left zero field_min field_max as;
        Some (out, f, as) })"

text \<open>What follows a percent sign.\<close>

definition conversion :: "cstr \<Rightarrow> varg list \<Rightarrow> (cstr \<times> cstr \<times> varg list) option" where
  "conversion f as =
     (let (left, zero, f) = flags_loop False False f in do {
        (field_min, field_max, f, as) \<leftarrow> parse_width f as;
        convert left zero field_min field_max f as })"

text \<open>Every round of the loop over the format consumes a byte of it.\<close>

lemma digits_loop_length: "digits_loop base mx val err s = Some (v, e, s') \<Longrightarrow> length s' \<le> length s"
  by (induction s arbitrary: val err) (auto simp: Let_def le_SucI split: if_splits)

lemma strtoul0_length: "strtoul0 s base = Some (v, e, s') \<Longrightarrow> length s' \<le> length s"
  by (auto simp: strtoul0_def Let_def split: if_splits dest!: digits_loop_length)

lemma flags_loop_length: "flags_loop l z f = (l', z', f') \<Longrightarrow> length f' \<le> length f"
  by (induction f arbitrary: l z) (auto split: if_splits simp: le_SucI)

lemma parse_width_length: "parse_width f as = Some (a, b, f', as') \<Longrightarrow> length f' \<le> length f"
  by (auto simp: parse_width_def bind_conv Let_def split: if_splits dest!: strtoul0_length)

declare setdec.simps [simp del] set_bits.simps [simp del]

lemma convert_length: "convert l z a b f as = Some (out, f', as') \<Longrightarrow> length f' \<le> length f"
  by (auto simp: convert_def bind_conv Let_def split: if_splits)

lemma conversion_length: "conversion f as = Some (out, f', as') \<Longrightarrow> length f' \<le> length f"
  using flags_loop_length [of False False f] parse_width_length convert_length le_trans
  by (fastforce simp: conversion_def bind_conv split: prod.splits)

text \<open>The result is what is written before the terminator; \<open>vsprintf\<close> returns its length.\<close>

function vsprintf :: "cstr \<Rightarrow> varg list \<Rightarrow> cstr option" where
  "vsprintf [] as = Some []"
| "vsprintf (c # f) as =
     (if c \<noteq> 0x25 then do { t \<leftarrow> vsprintf f as; Some (c # t) }
      else case conversion f as of
        None \<Rightarrow> None
      | Some (out, f', as') \<Rightarrow> do { t \<leftarrow> vsprintf f' as'; Some (out @ t) })"
  by pat_completeness auto
termination
  by (relation "measure (\<lambda>(f, _). length f)") (auto dest: conversion_length)

section \<open>Parsing\<close>

text \<open>The value of a string of digits.\<close>

definition numval :: "int \<Rightarrow> int \<Rightarrow> cstr \<Rightarrow> int" where
  "numval base v s = foldl (\<lambda>v c. v * base + digit_of c) v s"

lemma numval_simps [simp]:
  "numval base v [] = v" "numval base v (c # s) = numval base (v * base + digit_of c) s"
  "numval base v (s @ t) = numval base (numval base v s) t"
  by (simp_all add: numval_def)

lemma digit_of_nonneg [simp]: "0 \<le> digit_of c"
  by (auto simp: digit_of_def word_le_def)

lemma numval_mono: "0 < base \<Longrightarrow> 0 \<le> v \<Longrightarrow> v \<le> numval base v s"
proof (induction s arbitrary: v)
  case (Cons c s)
  have "v \<le> v * base" using Cons.prems mult_left_mono [of 1 base v] by simp
  then have "v \<le> v * base + digit_of c" using digit_of_nonneg [of c] by linarith
  with Cons.IH [of "v * base + digit_of c"] Cons.prems show ?case by simp
qed simp

lemma uint_base: "0 \<le> b \<Longrightarrow> b < 100 \<Longrightarrow> uint (word_of_int b :: u32) = b"
  by (simp add: uint_word_of_int take_bit_int_eq_self)

lemma div_less_mult:
  fixes m v b :: int
  assumes "0 < b"
  shows "m div b < v \<longleftrightarrow> m < v * b"
proof
  assume "m div b < v"
  then have "(m div b + 1) * b \<le> v * b" using assms by (intro mult_right_mono) auto
  moreover have "m < (m div b + 1) * b" using pos_mod_bound [OF assms, of m] div_mult_mod_eq [of m b] by (simp only: distrib_right mult_1)
  ultimately show "m < v * b" by simp
next
  assume "m < v * b"
  moreover have "m div b * b \<le> m" using assms by (simp add: mult.commute pos_mod_sign minus_mod_eq_mult_div [symmetric])
  ultimately have "m div b * b < v * b" by simp
  then show "m div b < v" using assms mult_less_cancel_right_pos by blast
qed

lemma digit_step:
  fixes val :: u32
  assumes "2 \<le> base" "base \<le> 36" "0 \<le> d" "d < base"
  shows "val > ULONG_MAX div word_of_int base \<longleftrightarrow> uint val * base > 0xFFFFFFFF"
    and "uint val * base \<le> 0xFFFFFFFF \<Longrightarrow>
       ULONG_MAX - val * word_of_int base < word_of_int d \<longleftrightarrow> uint val * base + d > 0xFFFFFFFF"
    and "uint val * base + d \<le> 0xFFFFFFFF \<Longrightarrow>
       uint (val * word_of_int base + word_of_int d) = uint val * base + d"
proof -
  have b: "uint (word_of_int base :: u32) = base" "uint (word_of_int d :: u32) = d"
    using assms by (simp_all add: uint_base)
  show "val > ULONG_MAX div word_of_int base \<longleftrightarrow> uint val * base > 0xFFFFFFFF"
    unfolding word_less_def ULONG_MAX_def uint_div b using assms by (simp add: div_less_mult)
  have m: "uint (val * word_of_int base) = uint val * base" if "uint val * base \<le> 0xFFFFFFFF"
    using that assms by (simp add: uint_word_ariths b)
  show "ULONG_MAX - val * word_of_int base < word_of_int d \<longleftrightarrow> uint val * base + d > 0xFFFFFFFF" if "uint val * base \<le> 0xFFFFFFFF"
    using that by (auto simp: word_less_def ULONG_MAX_def uint_sub_if' m b)
  show "uint (val * word_of_int base + word_of_int d) = uint val * base + d" if "uint val * base + d \<le> 0xFFFFFFFF"
  proof -
    have "uint val * base \<le> 0xFFFFFFFF" using that assms(3) by linarith
    with that assms show ?thesis by (simp add: uint_word_ariths(1) m b)
  qed
qed

lemma digits_loop_spec:
  assumes "2 \<le> base" "base \<le> 36" "\<And>c. c \<in> set ds \<Longrightarrow> digit_of c < base" "base \<le> digit_of (ch rest)"
  shows "digits_loop base (ULONG_MAX div word_of_int base) val err (ds @ rest) =
     Some (let n = numval base (uint val) ds in
           if n \<le> 0xFFFFFFFF then (word_of_int n, err, rest) else (ULONG_MAX, True, rest))"
  using assms(3)
proof (induction ds arbitrary: val err)
  case Nil
  have "uint val \<le> 0xFFFFFFFF" using uint_bounded [of val] by simp
  then show ?case using assms(1,2,4) by (cases rest) (auto simp: Let_def ch_def)
next
  case (Cons c ds)
  let ?mx = "ULONG_MAX div word_of_int base :: u32" and ?v = "uint val * base + digit_of c"
  have d: "0 \<le> digit_of c" "digit_of c < base" using Cons.prems by auto
  note S = digit_step [OF assms(1,2) d]
  have IH: "digits_loop base ?mx v e (ds @ rest) =
     Some (let n = numval base (uint v) ds in if n \<le> 0xFFFFFFFF then (word_of_int n, e, rest) else (ULONG_MAX, True, rest))" for v e
    using Cons.IH Cons.prems by simp
  have up: "?v \<le> numval base ?v ds" using assms(1) d(1) by (intro numval_mono) auto
  have full: "digits_loop base ?mx ULONG_MAX True (ds @ rest) = Some (ULONG_MAX, True, rest)"
    using numval_mono [of base "0xFFFFFFFF" ds] assms(1) unfolding IH by (auto simp: Let_def ULONG_MAX_def)
  show ?case
  proof (cases "?v \<le> 0xFFFFFFFF")
    case True
    moreover have "uint val * base \<le> 0xFFFFFFFF" using True d(1) by linarith
    ultimately show ?thesis using d(2) S by (simp add: Let_def IH)
  next
    case False
    then have n: "\<not> numval base ?v ds \<le> 0xFFFFFFFF" using up by linarith
    show ?thesis
    proof (cases "uint val * base \<le> 0xFFFFFFFF")
      case True
      then show ?thesis using False n d(2) S(1,2) full by (simp add: Let_def)
    next
      case False
      then show ?thesis using n d(2) S(1) full by (simp add: Let_def)
    qed
  qed
qed

section \<open>Decimal numbers\<close>

definition decimal :: "cstr \<Rightarrow> bool" where
  "decimal ds \<longleftrightarrow> ds \<noteq> [] \<and> (\<forall>c\<in>set ds. 0x30 \<le> c \<and> c \<le> 0x39)"

lemma dec_digit: "uint (ucast (ui mod 10 :: u32) + 0x30 :: u8) = uint (ui mod 10) + 0x30"
proof -
  have "uint (ui mod 10) < 10" by (simp add: uint_mod)
  then show ?thesis by (simp add: uint_word_ariths unsigned_ucast_eq take_bit_int_eq_self)
qed

lemma setdec_spec:
  obtains ds where "setdec ui s = ds @ s" "decimal ds" "numval 10 0 ds = uint ui"
proof (induction ui s arbitrary: thesis rule: setdec.induct)
  case (1 ui s)
  let ?c = "ucast (ui mod 10) + 0x30 :: u8"
  have c: "uint ?c = uint (ui mod 10) + 0x30" by (rule dec_digit)
  have m: "uint (ui mod 10) = uint ui mod 10" "uint (ui div 10) = uint ui div 10" by (simp_all add: uint_mod uint_div)
  have r: "0x30 \<le> ?c" "?c \<le> 0x39" using pos_mod_bound [of 10 "uint ui"] pos_mod_sign [of 10 "uint ui"] by (simp_all add: word_le_def c m)
  have dc: "digit_of ?c = uint ui mod 10" using r by (simp add: digit_of_def c m)
  show ?case
  proof (cases "ui div 10 = 0")
    case True
    then have "uint ui div 10 = 0" using m(2) by simp
    then have "uint ui mod 10 = uint ui" by presburger
    with True r dc show ?thesis
      by (intro 1(2) [of "[?c]"]) (simp_all add: setdec.simps [of ui s] Let_def decimal_def)
  next
    case False
    obtain ds where ds: "setdec (ui div 10) (?c # s) = ds @ ?c # s" "decimal ds" "numval 10 0 ds = uint (ui div 10)"
      using 1(1) [OF refl refl] False by blast
    have "uint ui div 10 * 10 + uint ui mod 10 = uint ui" by simp
    with False r ds dc m(2) show ?thesis
      by (intro 1(2) [of "ds @ [?c]"]) (simp_all add: setdec.simps [of ui s] Let_def decimal_def)
  qed
qed

lemma decimal_digit: "decimal ds \<Longrightarrow> c \<in> set ds \<Longrightarrow> 0x30 \<le> c \<and> c \<le> 0x39 \<and> digit_of c < 10"
  by (auto simp: decimal_def digit_of_def word_le_def)

lemma decimal_ch: "decimal ds \<Longrightarrow> 0x30 \<le> ch ds \<and> ch ds \<le> 0x39"
  by (cases ds) (auto simp: decimal_def ch_def)

lemma decimal_skip: "decimal ds \<Longrightarrow> skip_space ds = ds"
  by (cases ds) (auto simp: decimal_def skip_space_def word_le_nat_alt)

lemma prefix_base_decimal: "c = 0 \<or> 0x30 \<le> c \<and> c \<le> 0x39 \<Longrightarrow> prefix_base c = 0"
  by (auto simp: prefix_base_def Let_def word_le_nat_alt word_unat_eq_iff)

lemma digit_of_0: "digit_of 0 = 99"
  by (simp add: digit_of_def)

lemma neg_limit:
  fixes n :: u32
  shows "\<not> sint n < 0 \<Longrightarrow> n \<le> LONG_MAX" and "sint n < 0 \<Longrightarrow> - n > LONG_MAX \<longleftrightarrow> n = 0x80000000"
proof -
  have n: "unat n < 2 ^ 32" by (rule unat_u32_less)
  show "n \<le> LONG_MAX" if "\<not> sint n < 0"
    using that by (simp add: sint_less_0_iff LONG_MAX_def word_le_nat_alt)
  assume "sint n < 0"
  then have n: "2 ^ 31 \<le> uint n" "uint n < 2 ^ 32" using uint_bounded [of n] by (auto simp: sint_u32 split: if_splits)
  then have "uint (- n) = 2 ^ 32 - uint n" by (simp add: uint_word_ariths zmod_zminus1_eq_if)
  with n show "- n > LONG_MAX \<longleftrightarrow> n = 0x80000000"
    by (auto simp: LONG_MAX_def word_less_def word_uint_eq_iff)
qed

lemma strtoul0_decimal:
  assumes "decimal ds" "numval 10 0 ds \<le> 0xFFFFFFFF"
  shows "strtoul0 ds 10 = Some (word_of_int (numval 10 0 ds), False, [])"
proof -
  have "ch (tl ds) = 0 \<or> 0x30 \<le> ch (tl ds) \<and> ch (tl ds) \<le> 0x39"
    using assms(1) by (cases ds; cases "tl ds") (auto simp: decimal_def ch_def)
  then have p: "prefix_base (ch (tl ds)) = 0" by (rule prefix_base_decimal)
  have "digits_loop 10 (ULONG_MAX div word_of_int 10) 0 False (ds @ []) = Some (word_of_int (numval 10 0 ds), False, [])"
    using digits_loop_spec [of 10 ds "[]" 0 False] decimal_digit [OF assms(1)] assms(2)
    by (simp add: ch_def digit_of_0 Let_def)
  then show ?thesis using p by (simp add: strtoul0_def Let_def)
qed

text \<open>C17: Printing a number with the conversion \<open>d\<close> and parsing the text with \<open>strtol\<close> or \<open>atoi\<close> gives the number back, \<open>strtol\<close> with
  nothing left over and no error. The one exception is the least number: \<open>LONG_MIN\<close> is defined as -2147483647, and
  both return that, \<open>strtol\<close> with \<open>errno\<close> set to \<open>ERANGE\<close>.\<close>

theorem print_parse_decimal:
  "\<exists>s. vsprintf (map of_char ''%d'') [VInt n] = Some s \<and>
     strtol s 10 = Some (if n = 0x80000000 then (- 0x7FFFFFFF, [], True) else (n, [], False)) \<and>
     atoi s = Some (if n = 0x80000000 then - 0x7FFFFFFF else n)"
proof -
  let ?m = "if sint n < 0 then - n else n"
  obtain ds where ds: "setdec ?m [] = ds" "decimal ds" "numval 10 0 ds = uint ?m" using setdec_spec [of ?m "[]"] by auto
  have l: "nat (1 - int (length ds)) = 0" using ds(2) by (cases ds) (simp_all add: decimal_def)
  have o: "vsprintf (map of_char ''%d'') [VInt n] = Some ((if sint n < 0 then [0x2D] else []) @ ds)"
    using ds(1) l by (simp add: conversion_def parse_width_def convert_def convert_num_def ch_def va_int_def copy_p2t_def
      INT_MAX_def split: if_splits)
  have "uint ?m \<le> 0xFFFFFFFF" using uint_bounded [of ?m] by simp
  then have p: "strtoul0 ds 10 = Some (?m, False, [])" using strtoul0_decimal [OF ds(2)] ds(3) by simp
  have a: "after_sign ((if sint n < 0 then [0x2D] else []) @ ds) = (sint n < 0, ds)"
    using decimal_skip [OF ds(2)] decimal_ch [OF ds(2)] by (auto simp: after_sign_def ch_def skip_space_def Let_def)
  have "strtol ((if sint n < 0 then [0x2D] else []) @ ds) 10 =
     Some (if n = 0x80000000 then (- 0x7FFFFFFF, [], True) else (n, [], False))"
  proof (cases "sint n < 0")
    case True
    then show ?thesis using a p ds(2) neg_limit(2) [OF True] by (auto simp: strtol_def LONG_MIN_def decimal_def)
  next
    case False
    then have "n \<noteq> 0x80000000" by (auto simp: sint_less_0_iff)
    with False show ?thesis using a p ds(2) neg_limit(1) [OF False] by (auto simp: strtol_def decimal_def not_less)
  qed
  with o show ?thesis by (auto simp: atoi_def)
qed

end
