(* ===== verification/FatName.thy ===== *)
theory FatName
  imports Timer Stdlib
begin

text \<open>
  The names and time stamps of directory entries, from \<^verbatim>\<open>env/lib/fs/fatdir.c\<close>: the time of the kernel timers
  is converted to the packed date and time of the FAT file system and printed, and a file name is converted to the
  eleven bytes of a directory entry and back.
\<close>

section \<open>Model: time stamps\<close>

text \<open>The loops that take off whole years and whole months.\<close>

function year_loop :: "u32 \<Rightarrow> u32 \<Rightarrow> u32 \<times> u32" where
  "year_loop nYear nTime =
     (let nDaysOfYear = (if IsLeapYear nYear then 366 else 365) in
      if nTime < nDaysOfYear then (nYear, nTime) else year_loop (nYear + 1) (nTime - nDaysOfYear))"
  by pat_completeness auto
termination
  by (relation "measure (\<lambda>(_, t). unat t)")
     (auto simp: word_less_nat_alt unat_sub_if' word_le_nat_alt not_less)

lemma GetDaysOfMonth_pos: "GetDaysOfMonth m y = Some d \<Longrightarrow> 28 \<le> unat d \<and> unat d \<le> 31"
proof -
  have "\<forall>d\<in>set s_nDaysOfMonth. 28 \<le> unat d \<and> unat d \<le> 31" by (simp add: s_nDaysOfMonth_def)
  then show "GetDaysOfMonth m y = Some d \<Longrightarrow> 28 \<le> unat d \<and> unat d \<le> 31"
    by (auto simp: GetDaysOfMonth_def split: if_splits)
qed

function month_loop :: "u32 \<Rightarrow> u32 \<Rightarrow> u32 \<Rightarrow> (u32 \<times> u32) option" where
  "month_loop nYear nMonth nTime =
     (case GetDaysOfMonth nMonth nYear of
        None \<Rightarrow> None
      | Some nDaysOfMonth \<Rightarrow>
          if nTime < nDaysOfMonth then Some (nMonth, nTime) else month_loop nYear (nMonth + 1) (nTime - nDaysOfMonth))"
  by pat_completeness auto
termination
  by (relation "measure (\<lambda>(_, _, t). unat t)")
     (auto simp: word_less_nat_alt unat_sub_if' word_le_nat_alt not_less dest!: GetDaysOfMonth_pos)

definition FATDirectoryTime2FAT :: "u32 \<Rightarrow> u32 option" where
  "FATDirectoryTime2FAT nTime =
     (if nTime = 0 then Some 0
      else
        let nSecond = nTime mod 60; nTime = nTime div 60;
            nMinute = nTime mod 60; nTime = nTime div 60;
            nHour = nTime mod 24; nTime = nTime div 24;
            (nYear, nTime) = year_loop 1970 nTime
        in if nYear < 1980 then Some 0
        else do {
          (nMonth, nTime) \<leftarrow> month_loop nYear 0 nTime;
          nMonthDay \<leftarrow> Some (nTime + 1);
          nFATDate \<leftarrow> Some (push_bit 9 (nYear - 1980) OR push_bit 5 (nMonth + 1) OR nMonthDay);
          nFATTime \<leftarrow> Some (push_bit 11 nHour OR push_bit 5 nMinute OR nSecond div 2);
          Some (push_bit 16 nFATDate OR nFATTime) })"

text \<open>The fields of a packed date and time that \<open>FATDirectoryFAT2Time\<close> passes to \<open>sprintf\<close>.\<close>

definition time_fields :: "u16 \<Rightarrow> u16 \<Rightarrow> u32 list" where
  "time_fields nCreatedDate nCreatedTime =
     [1980 + (ucast (drop_bit 9 nCreatedDate) AND 0x7F), ucast (drop_bit 5 nCreatedDate) AND 0xF, ucast nCreatedDate AND 0x1F,
      ucast (drop_bit 11 nCreatedTime) AND 0x1F, ucast (drop_bit 5 nCreatedTime) AND 0x3F, ucast nCreatedTime AND 0x1F]"

definition FATDirectoryFAT2Time :: "u16 \<Rightarrow> u16 \<Rightarrow> cstr option" where
  "FATDirectoryFAT2Time nCreatedDate nCreatedTime =
     vsprintf (map of_char ''%4d-%02d-%02d %02d:%02d:%02d'') (map VInt (time_fields nCreatedDate nCreatedTime))"

section \<open>Model: names\<close>

definition FAT_DIR_NAME_LENGTH :: nat where "FAT_DIR_NAME_LENGTH = 11"

definition s_pBadChars :: cstr where
  "s_pBadChars = [0x22, 0x2A, 0x2B, 0x2C, 0x2F, 0x3A, 0x3B, 0x3C, 0x3D, 0x3E, 0x3F, 0x5B, 0x5C, 0x5D, 0x7C]"

definition to_upper :: "u8 \<Rightarrow> u8" where
  "to_upper c = (if 0x61 \<le> c \<and> c \<le> 0x7A then c - 0x20 else c)"

text \<open>The loop over the characters of the name; \<open>pTo\<close> is the position in \<open>pFATName\<close>. The return of \<open>FALSE\<close> is
  \<^term>\<open>None\<close>.\<close>

primrec name_loop :: "cstr \<Rightarrow> u8 list \<Rightarrow> nat \<Rightarrow> nat \<Rightarrow> u8 list option" where
  "name_loop [] pFATName pTo nLength = Some pFATName"
| "name_loop (c # pFrom) pFATName pTo nLength =
     (if c \<le> 0x20 \<or> c \<in> set s_pBadChars then None
      else let c = to_upper c in
        if c = 0x2E then name_loop pFrom pFATName 8 3
        else if nLength > 0 then name_loop pFrom (pFATName[pTo := c]) (pTo + 1) (nLength - 1)
        else name_loop pFrom pFATName pTo nLength)"

definition blank_name :: "u8 list" where
  "blank_name = replicate FAT_DIR_NAME_LENGTH 0x20"

definition FATDirectoryName2FAT :: "cstr \<Rightarrow> u8 list option" where
  "FATDirectoryName2FAT pName =
     (if pName = [0x2E] \<or> pName = [0x2E, 0x2E] then Some (pName @ drop (length pName) blank_name)
      else case name_loop pName blank_name 0 8 of
        None \<Rightarrow> None
      | Some f \<Rightarrow> if f ! 0 = 0x20 then None else Some f)"

text \<open>\<open>strncpy\<close> of \<^verbatim>\<open>env/lib/string.c\<close> into the array \<open>d\<close>, which does not fill it up with zeros.\<close>

definition cstring :: "u8 list \<Rightarrow> cstr" where
  "cstring b = takeWhile (\<lambda>c. c \<noteq> 0) b"

definition array_strncpy :: "u8 list \<Rightarrow> u8 list \<Rightarrow> nat \<Rightarrow> u8 list" where
  "array_strncpy d s n =
     (let t = take n (cstring s) in
      if length t < n then t @ 0 # drop (length t + 1) d else t @ drop (length t) d)"

primrec lower_loop :: "u8 list \<Rightarrow> u8 list" where
  "lower_loop [] = []"
| "lower_loop (c # p) =
     (if c = 0 then c # p
      else (if c = 0x20 then 0 else if 0x41 \<le> c \<and> c \<le> 0x5A then c + 0x20 else c) # lower_loop p)"

text \<open>The local array is not initialised; \<open>stack\<close> is what its twelve bytes hold at the call.\<close>

definition FATDirectoryFAT2Name :: "u8 list \<Rightarrow> u8 list \<Rightarrow> cstr" where
  "FATDirectoryFAT2Name stack pFATName =
     (let FATName = (array_strncpy stack pFATName FAT_DIR_NAME_LENGTH)[FAT_DIR_NAME_LENGTH := 0];
          FATName = (if FATName ! 0 = 0x05 then FATName[0 := 0x5F] else FATName);
          FATName = lower_loop FATName;
          pName = cstring (take 8 FATName)
      in if FATName ! 8 \<noteq> 0 then pName @ [0x2E] @ cstring (drop 8 FATName) else pName)"

declare year_loop.simps [simp del] month_loop.simps [simp del]

section \<open>The calendar\<close>

text \<open>The reference: days and seconds since the start of 1970 in the Gregorian calendar.\<close>

definition leap :: "nat \<Rightarrow> bool" where
  "leap y \<longleftrightarrow> 4 dvd y \<and> (100 dvd y \<longrightarrow> 400 dvd y)"

definition year_days :: "nat \<Rightarrow> nat" where
  "year_days y = (if leap y then 366 else 365)"

definition month_days :: "nat \<Rightarrow> nat \<Rightarrow> nat" where
  "month_days y m = (if m = 2 then if leap y then 29 else 28 else if m \<in> {4, 6, 9, 11} then 30 else 31)"

definition civil_days :: "nat \<Rightarrow> nat \<Rightarrow> nat \<Rightarrow> nat" where
  "civil_days y m d = (\<Sum>k = 1970..<y. year_days k) + (\<Sum>k = 1..<m. month_days y k) + (d - 1)"

lemma IsLeapYear_leap: "IsLeapYear y = leap (unat y)"
proof -
  have m: "y mod 100 = 0 \<longleftrightarrow> 100 dvd unat y" "y mod 400 = 0 \<longleftrightarrow> 400 dvd unat y" "y mod 4 = 0 \<longleftrightarrow> 4 dvd unat y"
    by (simp_all add: word_unat_eq_iff unat_mod dvd_eq_mod_eq_0)
  have "100 dvd unat y \<Longrightarrow> 4 dvd unat y" by (rule dvd_trans) simp_all
  then show ?thesis unfolding IsLeapYear_def m leap_def by auto
qed

lemma div_365: "365 \<le> (d::nat) \<Longrightarrow> d \<le> t \<Longrightarrow> (t - d) div 365 + 1 \<le> t div 365"
  using div_le_mono [of "t - d + 365" t 365] by simp

lemma year_loop_spec:
  assumes "year_loop y t = (y', t')" "unat y + unat t div 365 < 2 ^ 32"
  shows "unat y \<le> unat y' \<and> unat t = (\<Sum>k = unat y..<unat y'. year_days k) + unat t' \<and> unat t' < year_days (unat y')"
  using assms
proof (induction y t rule: year_loop.induct)
  case (1 y t)
  let ?n = "if IsLeapYear y then 366 else 365 :: u32"
  have n: "unat ?n = year_days (unat y)" by (simp add: year_days_def IsLeapYear_leap)
  show ?case
  proof (cases "t < ?n")
    case True
    then have "y' = y" "t' = t" using 1(2) by (simp_all add: year_loop.simps [of y t])
    then show ?thesis using True n by (simp add: word_less_nat_alt)
  next
    case False
    then have le: "year_days (unat y) \<le> unat t" using n by (simp add: word_less_nat_alt)
    have d: "unat (t - ?n) = unat t - year_days (unat y)" using le n by (simp add: unat_sub_if')
    have dv: "(unat t - year_days (unat y)) div 365 + 1 \<le> unat t div 365" using le by (intro div_365) (simp_all add: year_days_def)
    have y1: "unat (y + 1) = unat y + 1" using 1(3) dv by (simp add: unat_word_ariths)
    have e: "year_loop (y + 1) (t - ?n) = (y', t')" using 1(2) False by (simp add: year_loop.simps [of y t])
    have "unat (y + 1) + unat (t - ?n) div 365 < 2 ^ 32" using 1(3) dv y1 d by simp
    note IH = 1(1) [OF refl False e this]
    have "(\<Sum>k = unat y..<unat y'. year_days k) = year_days (unat y) + (\<Sum>k = unat y + 1..<unat y'. year_days k)"
      using IH y1 by (simp add: sum.atLeast_Suc_lessThan)
    then show ?thesis using IH y1 d le by (simp, linarith)
  qed
qed

lemma GetDaysOfMonth_month_days:
  assumes "unat m < 12"
  obtains d where "GetDaysOfMonth m y = Some d" "unat d = month_days (unat y) (unat m + 1)"
proof -
  have "unat m \<in> set [0..<12]" using assms by simp
  then have "unat m \<in> {0, 1, 2, 3, 4, 5, 6, 7, 8, 9, 10, 11}" by (simp add: upt_rec eval_nat_numeral)
  then have "case GetDaysOfMonth m y of None \<Rightarrow> False | Some d \<Rightarrow> unat d = month_days (unat y) (unat m + 1)"
    by (auto simp: GetDaysOfMonth_def IsLeapYear_leap s_nDaysOfMonth_def month_days_def word_unat_eq_iff word_le_nat_alt)
  then show thesis using that by (auto split: option.splits)
qed

lemma month_loop_spec:
  assumes "unat m \<le> 11" "unat t < (\<Sum>k = unat m + 1..<13. month_days (unat y) k)"
  obtains m' t' where "month_loop y m t = Some (m', t')" "unat m \<le> unat m'" "unat m' \<le> 11"
    "unat t' < month_days (unat y) (unat m' + 1)"
    "unat t = (\<Sum>k = unat m + 1..<unat m' + 1. month_days (unat y) k) + unat t'"
  using assms
proof (induction "12 - unat m" arbitrary: m t thesis)
  case 0
  then show ?case by simp
next
  case (Suc n)
  obtain d where d: "GetDaysOfMonth m y = Some d" "unat d = month_days (unat y) (unat m + 1)"
    using GetDaysOfMonth_month_days [of m y] Suc.prems(2) by auto
  show ?case
  proof (cases "t < d")
    case True
    then show ?thesis using Suc.prems(1) [of m t] Suc.prems(2) d by (simp add: month_loop.simps [of y m t] word_less_nat_alt)
  next
    case False
    have s: "(\<Sum>k = unat m + 1..<13. month_days (unat y) k) = unat d + (\<Sum>k = unat m + 2..<13. month_days (unat y) k)"
      using Suc.prems(2) d(2) by (simp add: sum.atLeast_Suc_lessThan)
    have t: "unat (t - d) = unat t - unat d" "unat d \<le> unat t" using False by (simp_all add: unat_sub_if' word_less_nat_alt)
    have m11: "unat m < 11"
    proof (rule ccontr)
      assume "\<not> unat m < 11"
      then show False using s t(2) Suc.prems(2,3) by simp
    qed
    then have m1: "unat (m + 1) = unat m + 1" by (simp add: unat_word_ariths)
    have "unat (t - d) < (\<Sum>k = unat (m + 1) + 1..<13. month_days (unat y) k)" using Suc.prems(3) s t m1 by simp
    moreover have "n = 12 - unat (m + 1)" "unat (m + 1) \<le> 11" using Suc.hyps(2) m11 m1 by simp_all
    ultimately obtain m' t' where r: "month_loop y (m + 1) (t - d) = Some (m', t')" "unat (m + 1) \<le> unat m'" "unat m' \<le> 11"
      "unat t' < month_days (unat y) (unat m' + 1)"
      "unat (t - d) = (\<Sum>k = unat (m + 1) + 1..<unat m' + 1. month_days (unat y) k) + unat t'"
      using Suc.hyps(1) [of "m + 1" "t - d"] by blast
    have "(\<Sum>k = unat m + 1..<unat m' + 1. month_days (unat y) k) = unat d + (\<Sum>k = unat (m + 1) + 1..<unat m' + 1. month_days (unat y) k)"
      using r(2) m1 d(2) sum.atLeast_Suc_lessThan [of "unat m + 1" "unat m' + 1" "month_days (unat y)"] by simp
    then show ?thesis using Suc.prems(1) [of m' t'] r False d(1) t m1 by (simp add: month_loop.simps [of y m t])
  qed
qed

lemma sum_upt: "(\<Sum>k = m..<n. f k :: nat) = sum_list (map f [m..<n])"
  by (simp only: interv_sum_list_conv_sum_set_nat atLeastLessThan_upt)

lemma year_months: "(\<Sum>k = 1..<13. month_days y k) = year_days y"
  unfolding sum_upt by (simp add: upt_rec) (simp add: month_days_def year_days_def)

lemma first_decade: "(\<Sum>k = 1970..<1980. year_days k) = 3652"
  unfolding sum_upt by (simp add: upt_rec_numeral year_days_def leap_def)

section \<open>Packed fields\<close>

lemma bit_small: "unat (x::u32) < 2 ^ k \<Longrightarrow> bit x n \<Longrightarrow> n < k"
proof (rule ccontr)
  assume a: "unat x < 2 ^ k" "bit x n" "\<not> n < k"
  then have "unat x < 2 ^ n" by (meson less_le_trans not_less one_le_numeral power_increasing)
  then have "\<not> bit (unat x) n" by (simp add: bit_iff_odd)
  with a(2) show False by (simp add: bit_unsigned_iff)
qed

lemma fields_bits:
  "time_fields (ucast (drop_bit 16 r)) (ucast r) = [1980 + take_bit 7 (drop_bit 25 r), take_bit 4 (drop_bit 21 r),
     take_bit 5 (drop_bit 16 r), take_bit 5 (drop_bit 11 r), take_bit 6 (drop_bit 5 r), take_bit 5 r]"
proof -
  have k: "(0x7F::u32) = mask 7" "(0xF::u32) = mask 4" "(0x1F::u32) = mask 5" "(0x3F::u32) = mask 6"
    by (simp_all add: mask_eq_exp_minus_1)
  show ?thesis unfolding time_fields_def k take_bit_eq_mask [symmetric] by (auto intro!: bit_eqI simp: bit_simps)
qed

lemma fields_packed:
  assumes "unat y < 2 ^ 7" "unat m < 2 ^ 4" "unat d < 2 ^ 5" "unat h < 2 ^ 5" "unat i < 2 ^ 6" "unat s < 2 ^ 5"
    and r: "r = push_bit 16 (push_bit 9 y OR push_bit 5 m OR d) OR (push_bit 11 h OR push_bit 5 i OR s)"
  shows "time_fields (ucast (drop_bit 16 r)) (ucast r) = [1980 + y, m, d, h, i, s]"
proof -
  have B: "bit y n \<Longrightarrow> n < 7" "bit m n \<Longrightarrow> n < 4" "bit d n \<Longrightarrow> n < 5" "bit h n \<Longrightarrow> n < 5" "bit i n \<Longrightarrow> n < 6"
    "bit s n \<Longrightarrow> n < 5" for n
    using assms(1-6) bit_small by blast+
  have R: "bit r n \<longleftrightarrow> n < 32 \<and> (25 \<le> n \<and> bit y (n - 25) \<or> 21 \<le> n \<and> bit m (n - 21) \<or> 16 \<le> n \<and> bit d (n - 16) \<or>
     11 \<le> n \<and> bit h (n - 11) \<or> 5 \<le> n \<and> bit i (n - 5) \<or> bit s n)" for n
    unfolding r using bit_imp_le_length [of s n] by (auto simp: bit_simps)
  have "take_bit 7 (drop_bit 25 r) = y" by (rule bit_eqI) (auto simp: bit_simps R dest: B)
  moreover have "take_bit 4 (drop_bit 21 r) = m" by (rule bit_eqI) (auto simp: bit_simps R dest: B)
  moreover have "take_bit 5 (drop_bit 16 r) = d" by (rule bit_eqI) (auto simp: bit_simps R dest: B)
  moreover have "take_bit 5 (drop_bit 11 r) = h" by (rule bit_eqI) (auto simp: bit_simps R dest: B)
  moreover have "take_bit 6 (drop_bit 5 r) = i" by (rule bit_eqI) (auto simp: bit_simps R dest: B)
  moreover have "take_bit 5 r = s" by (rule bit_eqI) (auto simp: bit_simps R dest: B)
  ultimately show ?thesis by (simp add: fields_bits)
qed

section \<open>Time stamps are exact\<close>

lemma years_bound: "365 * (y - 1970) \<le> (\<Sum>k = 1970..<y. year_days k)"
  using sum_bounded_below [of "{1970..<y}" "365::nat" year_days] by (simp add: year_days_def mult.commute)

lemma years_mono: "a \<le> b \<Longrightarrow> (\<Sum>k = 1970..<a. year_days k) \<le> (\<Sum>k = 1970..<b. year_days k)"
  by (rule sum_mono2) auto

lemma year_1980:
  assumes "1970 \<le> y" "D = (\<Sum>k = 1970..<y. year_days k) + e" "e < year_days y"
  shows "y < 1980 \<longleftrightarrow> D < 3652"
proof
  assume "y < 1980"
  then have "(\<Sum>k = 1970..<y + 1. year_days k) \<le> 3652" using years_mono [of "y + 1" 1980] first_decade by simp
  moreover have "(\<Sum>k = 1970..<y + 1. year_days k) = (\<Sum>k = 1970..<y. year_days k) + year_days y" using assms(1) by simp
  ultimately show "D < 3652" using assms(2,3) by simp
next
  assume "D < 3652"
  then show "y < 1980" using years_mono [of 1980 y] first_decade assms(2) by (cases "y < 1980") auto
qed

lemma day_parts:
  fixes t :: u32
  defines "D \<equiv> unat t div 86400"
  shows "unat (t div 60 div 60 div 24) = D" "D \<le> 49710"
    "unat t = ((D * 24 + unat (t div 60 div 60 mod 24)) * 60 + unat (t div 60 mod 60)) * 60 + unat (t mod 60)"
    "unat (t div 60 div 60 mod 24) < 24" "unat (t div 60 mod 60) < 60" "unat (t mod 60) < 60" "unat (t mod 60 div 2) = unat (t mod 60) div 2"
proof -
  have e: "D = unat t div 60 div 60 div 24" by (simp add: D_def div_mult2_eq [symmetric])
  show "unat (t div 60 div 60 div 24) = D" by (simp add: e unat_div)
  show "D \<le> 49710" using unat_u32_less [of t] by (simp add: D_def)
  have "unat t = (((unat t div 60 div 60 div 24) * 24 + unat t div 60 div 60 mod 24) * 60 + unat t div 60 mod 60) * 60 + unat t mod 60"
    by simp
  then show "unat t = ((D * 24 + unat (t div 60 div 60 mod 24)) * 60 + unat (t div 60 mod 60)) * 60 + unat (t mod 60)"
    by (simp only: e unat_div unat_mod unat_numeral) simp
qed (simp_all add: unat_mod unat_div)

lemma even_part: "(t::nat) = x * 60 + s \<Longrightarrow> x * 60 + 2 * (s div 2) = t - t mod 2"
proof -
  assume t: "t = x * 60 + s"
  have "t = s + x * 30 * 2" using t by simp
  then have "t mod 2 = s mod 2" by (simp only: mod_mult_self1)
  then show ?thesis using t by (simp add: minus_mod_eq_mult_div [symmetric] mod_le_divisor)
qed

text \<open>C18: \<open>FATDirectoryTime2FAT\<close> agrees with the Gregorian calendar: for every time from 1980 on, the packed date and time
  unpack to a valid date and time of day that lie exactly the given number of seconds, rounded down to an even number,
  behind the start of 1970. Earlier times give 0.\<close>

theorem fat_time_exact:
  "\<exists>r. FATDirectoryTime2FAT t = Some r \<and>
     (if unat t < 315532800 then r = 0
      else \<exists>y m d h i s. map unat (time_fields (ucast (drop_bit 16 r)) (ucast r)) = [y, m, d, h, i, s] \<and>
        1 \<le> m \<and> m \<le> 12 \<and> 1 \<le> d \<and> d \<le> month_days y m \<and> h < 24 \<and> i < 60 \<and> s < 30 \<and>
        ((civil_days y m d * 24 + h) * 60 + i) * 60 + 2 * s = unat t - unat t mod 2)"
proof (cases "t = 0")
  case False
  define D where "D = unat t div 86400"
  note P = day_parts [of t, folded D_def]
  obtain y e where ye: "year_loop 1970 (t div 60 div 60 div 24) = (y, e)" by force
  have Y: "1970 \<le> unat y" "D = (\<Sum>k = 1970..<unat y. year_days k) + unat e" "unat e < year_days (unat y)"
    using year_loop_spec [OF ye] P(1,2) by simp_all
  have early: "unat y < 1980 \<longleftrightarrow> unat t < 315532800" using year_1980 [OF Y] by (simp add: D_def) linarith
  show ?thesis
  proof (cases "unat y < 1980")
    case True
    then show ?thesis using False ye early by (simp add: FATDirectoryTime2FAT_def word_less_nat_alt)
  next
    case late: False
    obtain m f where M: "month_loop y 0 e = Some (m, f)" "unat m \<le> 11" "unat f < month_days (unat y) (unat m + 1)"
      "unat e = (\<Sum>k = 1..<unat m + 1. month_days (unat y) k) + unat f"
    proof -
      have "unat (0::u32) \<le> 11" "unat e < (\<Sum>k = unat (0::u32) + 1..<13. month_days (unat y) k)"
        using year_months [of "unat y"] Y(3) by simp_all
      then show thesis using that by (rule month_loop_spec) simp_all
    qed
    have md: "month_days (unat y) (unat m + 1) \<le> 31" by (simp add: month_days_def)
    have u: "unat (m + 1) = unat m + 1" "unat (f + 1) = unat f + 1" "unat (y - 1980) = unat y - 1980"
      using M(2,3) md late by (simp_all add: unat_word_ariths unat_sub_if' word_le_nat_alt)
    have "365 * (unat y - 1970) \<le> 49710" using years_bound [of "unat y"] Y(2) P(2) by linarith
    then have y7: "unat (y - 1980) < 2 ^ 7" using u(3) by simp
    let ?s = "t mod 60 div 2"
    define r where "r = push_bit 16 (push_bit 9 (y - 1980) OR push_bit 5 (m + 1) OR (f + 1)) OR
      (push_bit 11 (t div 60 div 60 mod 24) OR push_bit 5 (t div 60 mod 60) OR ?s)"
    have res: "FATDirectoryTime2FAT t = Some r"
      using False ye late M(1) by (simp add: FATDirectoryTime2FAT_def Let_def word_less_nat_alt r_def)
    have F: "time_fields (ucast (drop_bit 16 r)) (ucast r) =
        [1980 + (y - 1980), m + 1, f + 1, t div 60 div 60 mod 24, t div 60 mod 60, ?s]"
      using y7 u M(2,3) md P(4-7) by (intro fields_packed [OF _ _ _ _ _ _ r_def]) simp_all
    have c: "civil_days (unat y) (unat m + 1) (unat f + 1) = D"
      using Y(2) M(4) by (simp add: civil_days_def)
    have "((D * 24 + unat (t div 60 div 60 mod 24)) * 60 + unat (t div 60 mod 60)) * 60 + 2 * unat ?s = unat t - unat t mod 2"
      using even_part [OF P(3)] P(7) by simp
    with res F c u M(2,3) P(4-7) early late show ?thesis by simp
  qed
qed (simp add: FATDirectoryTime2FAT_def)

section \<open>Names\<close>

definition name_char :: "u8 \<Rightarrow> bool" where
  "name_char c \<longleftrightarrow> 0x20 < c \<and> c \<notin> set s_pBadChars \<and> c \<noteq> 0x2E"

definition to_lower :: "u8 \<Rightarrow> u8" where
  "to_lower c = (if 0x41 \<le> c \<and> c \<le> 0x5A then c + 0x20 else c)"

text \<open>What the loop of \<open>FATDirectoryFAT2Name\<close> makes of a byte.\<close>

definition stored_lower :: "u8 \<Rightarrow> u8" where
  "stored_lower c = (if c = 0x20 then 0 else to_lower c)"

lemma upper_unat: "unat (to_upper c) = (if 0x61 \<le> unat c \<and> unat c \<le> 0x7A then unat c - 0x20 else unat c)"
  by (auto simp: to_upper_def word_le_nat_alt unat_sub_if')

lemma lower_unat: "unat (to_lower c) = (if 0x41 \<le> unat c \<and> unat c \<le> 0x5A then unat c + 0x20 else unat c)"
  by (auto simp: to_lower_def word_le_nat_alt unat_word_ariths)

lemma name_char_upper:
  assumes "name_char c"
  shows "to_upper c \<noteq> 0x2E" "to_upper c \<noteq> 0x20" "to_upper c \<noteq> 0" "to_upper c \<noteq> 5" "stored_lower (to_upper c) = to_lower c" "to_lower c \<noteq> 0"
proof -
  have c: "0x20 < unat c" "unat c \<noteq> 0x2E" using assms by (auto simp: name_char_def word_less_nat_alt word_unat_eq_iff)
  then show a: "to_upper c \<noteq> 0x2E" "to_upper c \<noteq> 0x20" "to_upper c \<noteq> 0" "to_upper c \<noteq> 5" "to_lower c \<noteq> 0"
    by (auto simp: word_unat_eq_iff upper_unat lower_unat)
  show "stored_lower (to_upper c) = to_lower c"
    using a(2) by (auto simp: stored_lower_def word_unat_eq_iff upper_unat lower_unat)
qed

lemma name_loop_chars:
  assumes "\<And>c. c \<in> set xs \<Longrightarrow> name_char c" "p + length xs \<le> length f" "length xs \<le> n"
  shows "name_loop (xs @ ys) f p n =
    name_loop ys (take p f @ map to_upper xs @ drop (p + length xs) f) (p + length xs) (n - length xs)"
  using assms
proof (induction xs arbitrary: f p n)
  case (Cons c xs)
  have c: "\<not> c \<le> 0x20" "c \<notin> set s_pBadChars" "to_upper c \<noteq> 0x2E"
    using Cons.prems(1) [of c] name_char_upper(1) [of c] by (auto simp: name_char_def)
  have "name_loop ((c # xs) @ ys) f p n = name_loop (xs @ ys) (f[p := to_upper c]) (p + 1) (n - 1)"
    using c Cons.prems(3) by (simp add: Let_def)
  also have "\<dots> = name_loop ys (take (p + 1) (f[p := to_upper c]) @ map to_upper xs @ drop (p + 1 + length xs) (f[p := to_upper c]))
      (p + 1 + length xs) (n - 1 - length xs)"
    using Cons.prems by (intro Cons.IH) auto
  also have "take (p + 1) (f[p := to_upper c]) = take p f @ [to_upper c]"
    using Cons.prems(2) by (simp add: take_Suc_conv_app_nth)
  finally show ?case using Cons.prems(2) by simp
qed simp

text \<open>The eleven bytes of a name with the extension \<open>e\<close>.\<close>

definition stored_name :: "cstr \<Rightarrow> cstr \<Rightarrow> u8 list" where
  "stored_name b e = map to_upper b @ replicate (8 - length b) 0x20 @ map to_upper e @ replicate (3 - length e) 0x20"

definition dotted :: "cstr \<Rightarrow> cstr \<Rightarrow> cstr" where
  "dotted b e = b @ (if e = [] then [] else 0x2E # e)"

lemma cstring_append: "0 \<notin> set a \<Longrightarrow> cstring (a @ b) = a @ cstring b"
  by (induction a) (auto simp: cstring_def)

lemma cstring_zeros [simp]: "cstring (replicate n 0) = []" "cstring (0 # b) = []"
  by (cases n; simp add: cstring_def)+

lemma Name2FAT_stored:
  assumes "\<And>c. c \<in> set b \<union> set e \<Longrightarrow> name_char c" "b \<noteq> []" "length b \<le> 8" "length e \<le> 3"
  shows "FATDirectoryName2FAT (dotted b e) = Some (stored_name b e)"
proof -
  have hd: "name_char (hd b)" using assms(1,2) by simp
  then have nd: "dotted b e \<noteq> [0x2E]" "dotted b e \<noteq> [0x2E, 0x2E]"
    using assms(2) by (cases b; auto simp: dotted_def name_char_def)+
  let ?f = "map to_upper b @ replicate (11 - length b) 0x20 :: u8 list"
  have f: "take 0 blank_name @ map to_upper b @ drop (0 + length b) blank_name = ?f"
    by (simp add: blank_name_def FAT_DIR_NAME_LENGTH_def)
  have "name_loop (b @ ys) blank_name 0 8 = name_loop ys ?f (length b) (8 - length b)" for ys
    using name_loop_chars [of b 0 blank_name 8 ys] assms f by (simp add: blank_name_def FAT_DIR_NAME_LENGTH_def)
  moreover have "name_loop (0x2E # e) ?f (length b) (8 - length b) = Some (take 8 ?f @ map to_upper e @ drop (8 + length e) ?f)"
  proof -
    have "\<not> (0x2E::u8) \<le> 0x20" "(0x2E::u8) \<notin> set s_pBadChars" "to_upper 0x2E = 0x2E"
      by (simp_all add: s_pBadChars_def to_upper_def)
    then show ?thesis
      using name_loop_chars [of e 8 ?f 3 "[]"] assms by (simp add: Let_def)
  qed
  ultimately have "name_loop (dotted b e) blank_name 0 8 = Some (stored_name b e)"
    using assms(3,4) by (auto simp: dotted_def stored_name_def replicate_add [symmetric])
  moreover have "stored_name b e ! 0 \<noteq> 0x20"
    using assms(2) hd name_char_upper(2) [OF hd] by (cases b) (auto simp: stored_name_def)
  ultimately show ?thesis using nd by (simp add: FATDirectoryName2FAT_def)
qed

lemma lower_loop_map: "0 \<notin> set f \<Longrightarrow> lower_loop (f @ [0]) = map stored_lower f @ [0]"
  by (induction f) (auto simp: stored_lower_def to_lower_def)

lemma FAT2Name_nonzero:
  assumes "length f = 11" "0 \<notin> set f" "f ! 0 \<noteq> 5" "length stack = 12"
  shows "FATDirectoryFAT2Name stack f =
    (let g = map stored_lower f in
     cstring (take 8 g) @ (if g ! 8 = 0 then [] else 0x2E # cstring (drop 8 g)))"
proof -
  have "cstring f = f" using cstring_append [OF assms(2), of "[]"] by (simp add: cstring_def)
  then have "(array_strncpy stack f 11)[11 := 0] = f @ [0]"
    using assms(1,4) by (simp add: array_strncpy_def list_update_append) (cases stack rule: rev_cases; simp)
  moreover have "(f @ [0]) ! 0 \<noteq> 5" using assms(1,3) by (simp add: nth_append)
  moreover have "cstring (drop 8 (map stored_lower f) @ [0]) = cstring (drop 8 (map stored_lower f))"
    unfolding cstring_def by (simp add: takeWhile_tail)
  ultimately show ?thesis using assms(1)
    by (simp add: FATDirectoryFAT2Name_def FAT_DIR_NAME_LENGTH_def lower_loop_map [OF assms(2)] Let_def nth_append)
qed

text \<open>C19: A name of up to eight characters with an extension of up to three is stored by \<open>FATDirectoryName2FAT\<close> in capitals,
  padded with blanks, and \<open>FATDirectoryFAT2Name\<close> reads it back in small letters.\<close>

theorem name_round_trip:
  assumes "\<forall>c\<in>set b \<union> set e. name_char c" "b \<noteq> []" "length b \<le> 8" "length e \<le> 3" "length stack = 12"
  shows "\<exists>f. FATDirectoryName2FAT (dotted b e) = Some f \<and> length f = 11 \<and>
    FATDirectoryFAT2Name stack f = map to_lower (dotted b e)"
proof -
  let ?f = "stored_name b e" and ?g = "map stored_lower (stored_name b e)"
  have len: "length ?f = 11" using assms(3,4) by (simp add: stored_name_def)
  have nz: "0 \<notin> set ?f" and f0: "?f ! 0 \<noteq> 5"
    using assms(1,2) name_char_upper(3,4) by (auto simp: stored_name_def nth_append)
  have g: "?g = map to_lower b @ replicate (8 - length b) 0 @ map to_lower e @ replicate (3 - length e) 0"
    using assms(1) name_char_upper(5) by (auto simp: stored_name_def stored_lower_def)
  have nzb: "0 \<notin> set (map to_lower b)" "0 \<notin> set (map to_lower e)" using assms(1) name_char_upper(6) by auto
  have "cstring (take 8 ?g) = map to_lower b" using nzb(1) assms(3) unfolding g by (simp add: cstring_append)
  moreover have "cstring (drop 8 ?g) = map to_lower e" using nzb(2) assms(3) unfolding g by (simp add: cstring_append)
  moreover have "?g ! 8 = 0 \<longleftrightarrow> e = []" using assms(3) nzb(2) unfolding g by (cases e) (auto simp: nth_append)
  ultimately have "FATDirectoryFAT2Name stack ?f = map to_lower (dotted b e)"
    using FAT2Name_nonzero [OF len nz f0 assms(5)] by (auto simp: dotted_def to_lower_def)
  then show ?thesis using Name2FAT_stored [of b e] assms(1-4) len by blast
qed

theorem name_round_trip_witness:
  "\<exists>f. FATDirectoryName2FAT (map of_char ''Boot.img'') = Some f \<and>
     FATDirectoryFAT2Name (replicate 12 0xFF) f = map of_char ''boot.img''"
proof -
  have "\<forall>c\<in>set (map of_char ''Boot'') \<union> set (map of_char ''img''). name_char c"
    by (simp add: name_char_def s_pBadChars_def)
  from name_round_trip [OF this, of "replicate 12 0xFF"] show ?thesis
    by (auto simp: dotted_def to_lower_def)
qed

text \<open>A byte of a stored name.\<close>

definition stored_char :: "u8 \<Rightarrow> bool" where
  "stored_char c \<longleftrightarrow> c = 0x20 \<or> name_char c \<and> \<not> (0x61 \<le> c \<and> c \<le> 0x7A)"

lemma upper_stored:
  assumes "\<not> c \<le> 0x20" "c \<notin> set s_pBadChars" "to_upper c \<noteq> 0x2E"
  shows "stored_char (to_upper c)"
proof (cases "0x61 \<le> c \<and> c \<le> 0x7A")
  case True
  then have "unat (to_upper c) = unat c - 0x20" "0x61 \<le> unat c" "unat c \<le> 0x7A"
    by (simp_all add: upper_unat word_le_nat_alt)
  then show ?thesis by (auto simp: stored_char_def name_char_def s_pBadChars_def word_le_nat_alt word_less_nat_alt word_unat_eq_iff)
next
  case False
  then show ?thesis using assms by (auto simp: stored_char_def name_char_def to_upper_def)
qed

lemma name_loop_stored:
  assumes "name_loop n f p k = Some g" "\<forall>c\<in>set f. stored_char c" "p + k \<le> 11" "length f = 11"
  shows "(\<forall>c\<in>set g. stored_char c) \<and> length g = 11"
  using assms
proof (induction n arbitrary: f p k)
  case (Cons c n)
  consider "to_upper c = 0x2E" "name_loop n f 8 3 = Some g"
    | "stored_char (to_upper c)" "k > 0" "name_loop n (f[p := to_upper c]) (p + 1) (k - 1) = Some g"
    | "name_loop n f p k = Some g"
    using Cons.prems(1) upper_stored [of c] by (auto simp: Let_def split: if_splits)
  then show ?case
  proof cases
    case 2
    then show ?thesis using Cons.prems(2-4) set_update_subset_insert [of f p "to_upper c"] by (intro Cons.IH [OF 2(3)]) auto
  qed (use Cons in auto)
qed simp

lemma name_loop_bytes: "name_loop n f p k = Some g \<Longrightarrow> set g \<subseteq> set f \<union> to_upper ` set n"
proof (induction n arbitrary: f p k)
  case (Cons c n)
  consider "name_loop n f 8 3 = Some g" | "name_loop n (f[p := to_upper c]) (p + 1) (k - 1) = Some g" | "name_loop n f p k = Some g"
    using Cons.prems by (auto simp: Let_def split: if_splits)
  then show ?case
  proof cases
    case 2
    then show ?thesis using Cons.IH [OF 2] set_update_subset_insert [of f p "to_upper c"] by auto
  qed (use Cons.IH in force)+
qed simp

lemma to_upper_E5: "to_upper c = 0xE5 \<Longrightarrow> c = 0xE5"
proof -
  assume a: "to_upper c = 0xE5"
  show "c = 0xE5"
  proof (cases "0x61 \<le> c \<and> c \<le> 0x7A")
    case True
    then have "unat (to_upper c) = unat c - 0x20" "unat c \<le> 0x7A" by (simp_all add: upper_unat word_le_nat_alt)
    then show ?thesis using a by simp
  next
    case False
    then show ?thesis using a by (auto simp: to_upper_def split: if_splits)
  qed
qed

text \<open>C20: Whatever name \<open>FATDirectoryName2FAT\<close> accepts, except for the two dot entries \<open>.\<close> and \<open>..\<close>, it yields eleven bytes without
  lower-case letters, control characters, dots or the characters that FAT forbids, and the first byte is not a blank. The first byte
  can be \<open>0xE5\<close>, the mark of a free entry, but only for a name that contains this byte.\<close>

theorem name2fat_type:
  assumes "FATDirectoryName2FAT n = Some f" "n \<noteq> [0x2E]" "n \<noteq> [0x2E, 0x2E]"
  shows "length f = 11 \<and> (\<forall>c\<in>set f. stored_char c) \<and> f ! 0 \<noteq> 0x20 \<and> (f ! 0 = 0xE5 \<longrightarrow> 0xE5 \<in> set n)"
proof -
  from assms have f: "name_loop n blank_name 0 8 = Some f" "f ! 0 \<noteq> 0x20"
    by (auto simp: FATDirectoryName2FAT_def split: option.splits if_splits)
  have b: "\<forall>c\<in>set blank_name. stored_char c" "length blank_name = 11" "set blank_name = {0x20}"
    by (simp_all add: blank_name_def stored_char_def FAT_DIR_NAME_LENGTH_def)
  have s: "\<forall>c\<in>set f. stored_char c" "length f = 11" using name_loop_stored [of n blank_name 0 8 f] f b by simp_all
  have "0xE5 \<in> set n" if "f ! 0 = 0xE5"
  proof -
    have "0xE5 \<in> set f" using that s(2) nth_mem [of 0 f] by simp
    then show ?thesis using name_loop_bytes [OF f(1)] b(3) to_upper_E5 by fastforce
  qed
  then show ?thesis using s f(2) by simp
qed

theorem name2fat_type_witness:
  "\<exists>f. FATDirectoryName2FAT (map of_char ''Boot'') = Some f \<and> length f = 11 \<and> (\<forall>c\<in>set f. stored_char c)"
proof -
  have "FATDirectoryName2FAT (dotted (map of_char ''Boot'') []) = Some (stored_name (map of_char ''Boot'') [])"
    by (rule Name2FAT_stored) (auto simp: name_char_def s_pBadChars_def)
  from name2fat_type [OF this] this show ?thesis by (simp add: dotted_def)
qed

end
