(* ===== verification/FatDir.thy ===== *)
theory FatDir
  imports FatProps FatName
begin

text \<open>
  Directories, \<^verbatim>\<open>env/lib/fs/fatdir.c\<close>: looking up, creating and listing the entries of a directory. The directory
  object keeps the buffer that holds the entry it has handed out, \<open>m_pBuffer\<close>; a pointer to an entry is its
  offset in the data of that buffer. The time stamp of a new entry is the argument \<open>nTime\<close>, the value that
  \<open>TimerGetTime (TimerGet (DO_TICK_CPU))\<close> returns.
\<close>

section \<open>Model\<close>

record fat_dir = fat_fs +
  m_pBuffer :: ptr

record TDirentry =
  cFileName :: cstr
  nSize :: u32
  nAttributes :: u32
  WriteTime :: cstr
  CreatedTime :: cstr

record TFindCurrentEntry =
  cur_nEntry :: u32
  cur_nCluster :: u32

definition CFATDirectory :: "'a fat_dir_scheme \<Rightarrow> 'a fat_dir_scheme" where
  "CFATDirectory s = s\<lparr>m_pBuffer := NULL\<rparr>"

subsection \<open>The fields of an entry\<close>

definition put16 :: "nat \<Rightarrow> u16 \<Rightarrow> u8 list \<Rightarrow> u8 list" where
  "put16 i w d = d[i := ucast w, i + 1 := ucast (drop_bit 8 w)]"

definition Dir_Name :: "u8 list \<Rightarrow> nat \<Rightarrow> u8 list" where "Dir_Name d i = take FAT_DIR_NAME_LENGTH (drop i d)"
definition Dir_nAttributes :: "u8 list \<Rightarrow> nat \<Rightarrow> u8" where "Dir_nAttributes d i = d ! (i + 11)"
definition Dir_nCreatedTime :: "u8 list \<Rightarrow> nat \<Rightarrow> u16" where "Dir_nCreatedTime d i = le16 d (i + 14)"
definition Dir_nCreatedDate :: "u8 list \<Rightarrow> nat \<Rightarrow> u16" where "Dir_nCreatedDate d i = le16 d (i + 16)"
definition Dir_nFirstClusterHigh :: "u8 list \<Rightarrow> nat \<Rightarrow> u16" where "Dir_nFirstClusterHigh d i = le16 d (i + 20)"
definition Dir_nWriteTime :: "u8 list \<Rightarrow> nat \<Rightarrow> u16" where "Dir_nWriteTime d i = le16 d (i + 22)"
definition Dir_nWriteDate :: "u8 list \<Rightarrow> nat \<Rightarrow> u16" where "Dir_nWriteDate d i = le16 d (i + 24)"
definition Dir_nFirstClusterLow :: "u8 list \<Rightarrow> nat \<Rightarrow> u16" where "Dir_nFirstClusterLow d i = le16 d (i + 26)"
definition Dir_nFileSize :: "u8 list \<Rightarrow> nat \<Rightarrow> u32" where "Dir_nFileSize d i = le32 d (i + 28)"

definition FAT_DIR_NAME0_LAST :: u8 where "FAT_DIR_NAME0_LAST = 0x00"
definition FAT_DIR_NAME0_FREE :: u8 where "FAT_DIR_NAME0_FREE = 0xE5"
definition FAT_DIR_ATTR_DIRECTORY :: u8 where "FAT_DIR_ATTR_DIRECTORY = 0x10"
definition FAT_DIR_ATTR_ARCHIVE :: u8 where "FAT_DIR_ATTR_ARCHIVE = 0x20"

subsection \<open>Positions\<close>

definition FAT_DIR_ENTRIES_PER_SECTOR :: u32 where "FAT_DIR_ENTRIES_PER_SECTOR = 16"

definition entries_per_cluster :: "TFatInfo \<Rightarrow> u32" where
  "entries_per_cluster i = (if m_FATType i = FAT32 then m_nSectorsPerCluster i * FAT_DIR_ENTRIES_PER_SECTOR else 0)"

text \<open>The conditions at the head of the loops, and the sector of an entry.\<close>

definition dir_at_end :: "u32 \<Rightarrow> u32 \<Rightarrow> 'a fat_fs_scheme \<Rightarrow> bool option" where
  "dir_at_end nEntry nCurDirCluster s =
     (if m_FATType (m_FATInfo s) = FAT16 then do { n \<leftarrow> FATInfoGetRootEntries (m_FATInfo s); Some (nEntry \<ge> n) }
      else FATIsEOC nCurDirCluster s)"

definition dir_sector :: "u32 \<Rightarrow> u32 \<Rightarrow> 'a fat_fs_scheme \<Rightarrow> u32 option" where
  "dir_sector nEntry nCurDirCluster s =
     (let i = m_FATInfo s in
      if m_FATType i = FAT16 then do { f \<leftarrow> FATInfoGetFirstRootSector i; Some (f + nEntry div FAT_DIR_ENTRIES_PER_SECTOR) }
      else do {
        f \<leftarrow> FATInfoGetFirstSector i nCurDirCluster;
        assert (entries_per_cluster i \<noteq> 0);
        Some (f + nEntry mod entries_per_cluster i div FAT_DIR_ENTRIES_PER_SECTOR) })"

definition dir_offset :: "u32 \<Rightarrow> nat" where
  "dir_offset nEntry = unat (nEntry * 32 mod FAT_SECTOR_SIZE)"

text \<open>Release of the buffer and the step to the next entry.\<close>

definition dir_release :: "'a fat_dir_scheme \<Rightarrow> 'a fat_dir_scheme option" where
  "dir_release s = do { s' \<leftarrow> FATCacheFreeSector (m_pBuffer s) True s; Some (s'\<lparr>m_pBuffer := NULL\<rparr>) }"

definition dir_load :: "u32 \<Rightarrow> u32 \<Rightarrow> 'a fat_dir_scheme \<Rightarrow> 'a fat_dir_scheme option" where
  "dir_load nEntry nCurDirCluster s = do {
     nSector \<leftarrow> dir_sector nEntry nCurDirCluster s;
     assert (m_pBuffer s = NULL);
     (p, s) \<leftarrow> FATCacheGetSector nSector False s;
     assert (p \<noteq> NULL);
     Some (s\<lparr>m_pBuffer := p\<rparr>) }"

definition dir_data :: "'a fat_dir_scheme \<Rightarrow> u8 list" where
  "dir_data s = Data (sbuf s (m_pBuffer s))"

definition next_cluster :: "u32 \<Rightarrow> u32 \<Rightarrow> 'a fat_fs_scheme \<Rightarrow> (u32 \<times> 'a fat_fs_scheme) option" where
  "next_cluster nEntry nCurDirCluster s =
     (if m_FATType (m_FATInfo s) = FAT32 \<and> nEntry mod entries_per_cluster (m_FATInfo s) = 0
      then FATGetClusterEntry nCurDirCluster s else Some (nCurDirCluster, s))"

subsection \<open>Operations\<close>

definition FATDirectoryGetRootEntry :: "'a fat_dir_scheme \<Rightarrow> (nat \<times> 'a fat_dir_scheme) option" where
  "FATDirectoryGetRootEntry s = do {
     nCluster \<leftarrow> FATInfoGetRootCluster (m_FATInfo s);
     nSector \<leftarrow> FATInfoGetFirstSector (m_FATInfo s) nCluster;
     assert (m_pBuffer s = NULL);
     (p, s) \<leftarrow> FATCacheGetSector nSector False s;
     assert (p \<noteq> NULL);
     Some (0, s\<lparr>m_pBuffer := p\<rparr>) }"

partial_function (option) get_entry_loop ::
  "u8 list \<Rightarrow> u32 \<Rightarrow> u32 \<Rightarrow> 'a fat_dir_scheme \<Rightarrow> (nat option \<times> 'a fat_dir_scheme) option" where
  "get_entry_loop FATName nEntry nCurDirCluster s = do {
     e \<leftarrow> dir_at_end nEntry nCurDirCluster s;
     if e then Some (None, s)
     else do {
       s \<leftarrow> dir_load nEntry nCurDirCluster s;
       nOffset \<leftarrow> Some (dir_offset nEntry);
       d \<leftarrow> Some (dir_data s);
       if d ! nOffset = FAT_DIR_NAME0_LAST then do { s \<leftarrow> dir_release s; Some (None, s) }
       else if d ! nOffset \<noteq> FAT_DIR_NAME0_FREE \<and>
          Dir_nAttributes d nOffset AND (FAT_DIR_ATTR_ARCHIVE OR FAT_DIR_ATTR_DIRECTORY) \<noteq> 0 \<and> Dir_Name d nOffset = FATName
       then Some (Some nOffset, s)
       else do {
         s \<leftarrow> dir_release s;
         (c, s) \<leftarrow> next_cluster (nEntry + 1) nCurDirCluster s;
         get_entry_loop FATName (nEntry + 1) c s } } }"

definition FATDirectoryGetEntry :: "u32 \<Rightarrow> cstr \<Rightarrow> 'a fat_dir_scheme \<Rightarrow> (nat option \<times> 'a fat_dir_scheme) option" where
  "FATDirectoryGetEntry nUpperFirstCluster pName s = do {
     assert (sint nUpperFirstCluster \<ge> 2);
     case FATDirectoryName2FAT pName of
       None \<Rightarrow> Some (None, s)
     | Some FATName \<Rightarrow> do {
         t \<leftarrow> FATInfoGetFATType (m_FATInfo s);
         get_entry_loop FATName 0 (if t = FAT32 then nUpperFirstCluster else 0) s } }"

text \<open>The loops that clear the sectors of a cluster.\<close>

primrec clear_loop :: "nat \<Rightarrow> u32 \<Rightarrow> 'a fat_state_scheme \<Rightarrow> 'a fat_state_scheme option" where
  "clear_loop 0 nSector s = Some s"
| "clear_loop (Suc n) nSector s = do {
     (p, s) \<leftarrow> FATCacheGetSector nSector True s;
     assert (p \<noteq> NULL);
     s \<leftarrow> FATCacheMarkDirty p (set_data p (replicate 512 0) s);
     s \<leftarrow> FATCacheFreeSector p True s;
     clear_loop n (nSector + 1) s }"

definition clear_cluster_sectors :: "u32 \<Rightarrow> 'a fat_fs_scheme \<Rightarrow> 'a fat_fs_scheme option" where
  "clear_cluster_sectors nCluster s = do {
     nSector \<leftarrow> FATInfoGetFirstSector (m_FATInfo s) nCluster;
     clear_loop (unat (m_nSectorsPerCluster (m_FATInfo s))) nSector s }"

text \<open>The bytes of a new entry, before its attributes and first cluster are set. The date and the time of the last
  write are stored in each other's field.\<close>

definition new_entry :: "u8 list \<Rightarrow> u32 \<Rightarrow> u8 list" where
  "new_entry FATName nDateTime =
     (let e = FATName @ replicate 21 0;
          e = put16 16 (ucast (drop_bit 16 nDateTime)) e;
          e = put16 14 (ucast nDateTime) e;
          e = put16 22 (ucast (drop_bit 16 nDateTime)) e;
          e = put16 24 (ucast nDateTime) e
      in put16 18 (ucast nDateTime) e)"

definition splice :: "nat \<Rightarrow> u8 list \<Rightarrow> u8 list \<Rightarrow> u8 list" where
  "splice i e d = take i d @ e @ drop (i + length e) d"

definition set_dir_data :: "(u8 list \<Rightarrow> u8 list) \<Rightarrow> 'a fat_dir_scheme \<Rightarrow> 'a fat_dir_scheme" where
  "set_dir_data f s = set_data (m_pBuffer s) (f (dir_data s)) s"

definition set_first_cluster :: "nat \<Rightarrow> u32 \<Rightarrow> u8 list \<Rightarrow> u8 list" where
  "set_first_cluster i nFirstCluster d =
     put16 (i + 26) (ucast nFirstCluster) (put16 (i + 20) (ucast (drop_bit 16 nFirstCluster)) d)"

text \<open>Filling in the free entry at an offset.\<close>

definition init_entry :: "u8 list \<Rightarrow> u32 \<Rightarrow> u32 \<Rightarrow> u32 \<Rightarrow> nat \<Rightarrow> 'a fat_dir_scheme \<Rightarrow> 'a fat_dir_scheme option" where
  "init_entry FATName nTime nFirstCluster createType nOffset s = do {
     nDateTime \<leftarrow> FATDirectoryTime2FAT nTime;
     s \<leftarrow> Some (set_dir_data (splice nOffset (new_entry FATName nDateTime)) s);
     if createType = 0 then do {
       s \<leftarrow> Some (set_dir_data (\<lambda>d. d[nOffset + 11 := FAT_DIR_ATTR_DIRECTORY]) s);
       s \<leftarrow> clear_cluster_sectors nFirstCluster s;
       Some (set_dir_data (set_first_cluster nOffset nFirstCluster) s) }
     else if createType = 1 then
       Some (set_dir_data (\<lambda>d. set_first_cluster nOffset nFirstCluster (d[nOffset + 11 := FAT_DIR_ATTR_DIRECTORY])) s)
     else Some (set_dir_data (\<lambda>d. d[nOffset + 11 := FAT_DIR_ATTR_ARCHIVE]) s) }"

text \<open>A directory that is full gets another cluster; the result is the cluster, 0 if there is none left.\<close>

definition grow_dir :: "u32 \<Rightarrow> 'a fat_dir_scheme \<Rightarrow> (u32 \<times> 'a fat_dir_scheme) option" where
  "grow_dir nPrevCluster s = do {
     (c, s) \<leftarrow> FATAllocateCluster s;
     if c = 0 then Some (0, s)
     else do {
       s \<leftarrow> clear_cluster_sectors c s;
       assert (nPrevCluster \<ge> 2);
       s \<leftarrow> FATSetClusterEntry nPrevCluster c s;
       Some (c, s) } }"

partial_function (option) create_entry_loop ::
  "u8 list \<Rightarrow> u32 \<Rightarrow> u32 \<Rightarrow> u32 \<Rightarrow> u32 \<Rightarrow> u32 \<Rightarrow> u32 \<Rightarrow> 'a fat_dir_scheme \<Rightarrow> (nat option \<times> 'a fat_dir_scheme) option" where
  "create_entry_loop FATName nTime nFirstCluster createType nEntry nCurDirCluster nPrevCluster s = do {
     e \<leftarrow> dir_at_end nEntry nCurDirCluster s;
     (full, c, nPrevCluster, s) \<leftarrow>
       (if \<not> e then Some (False, nCurDirCluster, nPrevCluster, s)
        else if m_FATType (m_FATInfo s) = FAT16 then Some (True, nCurDirCluster, nPrevCluster, s)
        else do { (c, s) \<leftarrow> grow_dir nPrevCluster s; Some (c = 0, c, 0, s) });
     if full then Some (None, s)
     else do {
       s \<leftarrow> dir_load nEntry c s;
       nOffset \<leftarrow> Some (dir_offset nEntry);
       if dir_data s ! nOffset = FAT_DIR_NAME0_LAST \<or> dir_data s ! nOffset = FAT_DIR_NAME0_FREE then do {
         s \<leftarrow> init_entry FATName nTime nFirstCluster createType nOffset s;
         Some (Some nOffset, s) }
       else do {
         s \<leftarrow> dir_release s;
         nPrevCluster \<leftarrow> Some (if m_FATType (m_FATInfo s) = FAT32 \<and> (nEntry + 1) mod entries_per_cluster (m_FATInfo s) = 0
                              then c else nPrevCluster);
         (c, s) \<leftarrow> next_cluster (nEntry + 1) c s;
         create_entry_loop FATName nTime nFirstCluster createType (nEntry + 1) c nPrevCluster s } } }"

definition FATDirectoryCreateEntry ::
  "u32 \<Rightarrow> u32 \<Rightarrow> u32 \<Rightarrow> u32 \<Rightarrow> cstr \<Rightarrow> 'a fat_dir_scheme \<Rightarrow> (nat option \<times> 'a fat_dir_scheme) option" where
  "FATDirectoryCreateEntry nTime nUpperFirstCluster nFirstCluster createType pName s = do {
     assert (sint nUpperFirstCluster \<ge> 2);
     case FATDirectoryName2FAT pName of
       None \<Rightarrow> Some (None, s)
     | Some FATName \<Rightarrow> do {
         t \<leftarrow> FATInfoGetFATType (m_FATInfo s);
         create_entry_loop FATName nTime nFirstCluster createType 0 (if t = FAT32 then nUpperFirstCluster else 0) 0 s } }"

definition FATDirectoryFreeEntry :: "bool \<Rightarrow> 'a fat_dir_scheme \<Rightarrow> 'a fat_dir_scheme option" where
  "FATDirectoryFreeEntry bChanged s = do {
     assert (m_pBuffer s \<noteq> NULL);
     s \<leftarrow> (if bChanged then FATCacheMarkDirty (m_pBuffer s) s else Some s);
     dir_release s }"

text \<open>What a listing returns of an entry. The times of creation and of the last write are exchanged.\<close>

definition list_entry :: "u8 list \<Rightarrow> u8 list \<Rightarrow> nat \<Rightarrow> TDirentry option" where
  "list_entry stack d i = do {
     w \<leftarrow> FATDirectoryFAT2Time (Dir_nCreatedDate d i) (Dir_nCreatedTime d i);
     c \<leftarrow> FATDirectoryFAT2Time (Dir_nWriteDate d i) (Dir_nWriteTime d i);
     Some \<lparr>cFileName = FATDirectoryFAT2Name stack (Dir_Name d i), nSize = Dir_nFileSize d i,
       nAttributes = ucast (Dir_nAttributes d i), WriteTime = w, CreatedTime = c\<rparr> }"

partial_function (option) find_next_loop ::
  "u8 list \<Rightarrow> TFindCurrentEntry \<Rightarrow> 'a fat_fs_scheme \<Rightarrow> (TDirentry option \<times> TFindCurrentEntry \<times> 'a fat_fs_scheme) option" where
  "find_next_loop stack cur s = do {
     e \<leftarrow> dir_at_end (cur_nEntry cur) (cur_nCluster cur) s;
     if e then Some (None, cur\<lparr>cur_nEntry := 0xFFFFFFFF\<rparr>, s)
     else do {
       nSector \<leftarrow> dir_sector (cur_nEntry cur) (cur_nCluster cur) s;
       (p, s) \<leftarrow> FATCacheGetSector nSector False s;
       assert (p \<noteq> NULL);
       nOffset \<leftarrow> Some (dir_offset (cur_nEntry cur));
       d \<leftarrow> Some (Data (sbuf s p));
       if d ! nOffset = FAT_DIR_NAME0_LAST then do {
         s \<leftarrow> FATCacheFreeSector p True s;
         Some (None, cur\<lparr>cur_nEntry := 0xFFFFFFFF\<rparr>, s) }
       else do {
         found \<leftarrow> (if d ! nOffset \<noteq> FAT_DIR_NAME0_FREE then do { x \<leftarrow> list_entry stack d nOffset; Some (Some x) } else Some None);
         s \<leftarrow> FATCacheFreeSector p True s;
         n \<leftarrow> Some (cur_nEntry cur + 1);
         (c, s) \<leftarrow> next_cluster n (cur_nCluster cur) s;
         cur \<leftarrow> Some (cur\<lparr>cur_nEntry := n, cur_nCluster := c\<rparr>);
         if found \<noteq> None then Some (found, cur, s) else find_next_loop stack cur s } } }"

definition FATDirectoryFindNext ::
  "u8 list \<Rightarrow> TFindCurrentEntry \<Rightarrow> 'a fat_fs_scheme \<Rightarrow> (TDirentry option \<times> TFindCurrentEntry \<times> 'a fat_fs_scheme) option" where
  "FATDirectoryFindNext stack cur s = do {
     assert (cur_nCluster cur \<ge> 2);
     if cur_nEntry cur = 0xFFFFFFFF then Some (None, cur, s)
     else do { t \<leftarrow> FATInfoGetFATType (m_FATInfo s); find_next_loop stack cur s } }"

definition FATDirectoryFindFirst ::
  "u8 list \<Rightarrow> TFindCurrentEntry \<Rightarrow> 'a fat_fs_scheme \<Rightarrow> (TDirentry option \<times> TFindCurrentEntry \<times> 'a fat_fs_scheme) option" where
  "FATDirectoryFindFirst stack cur s = FATDirectoryFindNext stack (cur\<lparr>cur_nEntry := 0\<rparr>) s"

end
