(* ===== verification/FatDirProps.thy ===== *)
theory FatDirProps
  imports FatDir
begin

text \<open>
  Proofs about the directories of \<^verbatim>\<open>FatDir\<close> on FAT32 volumes: the buffer that the directory object holds between its
  operations, the position of an entry in the chain of the directory, the refinement of the search loop by a search
  over the entries that the clients of the cache see, and the creation of an entry.
\<close>


section \<open>The buffer of the directory object\<close>

lemma dir_upd [simp]:
  fixes s :: "'a fat_dir_scheme"
  shows "sview (s\<lparr>m_pBuffer := q\<rparr>) = sview s" "suses (s\<lparr>m_pBuffer := q\<rparr>) = suses s" "sec_inv W (s\<lparr>m_pBuffer := q\<rparr>) = sec_inv W s"
    "ready (s\<lparr>m_pBuffer := q\<rparr>) = ready s" "svalid (s\<lparr>m_pBuffer := q\<rparr>) = svalid s"
    "partition_sectors (s\<lparr>m_pBuffer := q\<rparr>) = partition_sectors s"
  by (simp_all add: fun_eq_iff sview_def scontent_def suses_def sec_inv_def ready_def svalid_def partition_sectors_def split: option.split)

lemma free_dir_upd:
  fixes s :: "'a fat_dir_scheme"
  shows "FATCacheFreeSector p b (s\<lparr>m_pBuffer := q\<rparr>) = map_option (\<lambda>t. t\<lparr>m_pBuffer := q\<rparr>) (FATCacheFreeSector p b s)"
    and "FATCacheMarkDirty p (s\<lparr>m_pBuffer := q\<rparr>) = map_option (\<lambda>t. t\<lparr>m_pBuffer := q\<rparr>) (FATCacheMarkDirty p s)"
    and "set_data p d (s\<lparr>m_pBuffer := q\<rparr>) = (set_data p d s)\<lparr>m_pBuffer := q\<rparr>"
  by (simp_all add: FATCacheFreeSector_def FATCacheMarkDirty_def set_data_def split: Option.bind_split)

lemma same_rest_dir:
  fixes s t :: "'a fat_dir_scheme"
  assumes "same_rest s t"
  shows "m_pBuffer t = m_pBuffer s" "same_rest (s\<lparr>m_pBuffer := q\<rparr>) (t\<lparr>m_pBuffer := q\<rparr>)"
  using assms by (cases s; cases t; simp add: same_rest_def)+

lemma dir_upd_id: "m_pBuffer s = q \<Longrightarrow> s\<lparr>m_pBuffer := q\<rparr> = (s :: 'a fat_dir_scheme)"
  by (cases s) simp

text \<open>The directory object of \<open>s1\<close> holds the buffer of sector \<open>k\<close>; \<open>s\<close> is the state before it was fetched.\<close>

definition held :: "u32 \<Rightarrow> ptr set \<Rightarrow> 'a fat_dir_scheme \<Rightarrow> 'a fat_dir_scheme \<Rightarrow> bool" where
  "held k W s s1 \<longleftrightarrow> m_pBuffer s = NULL \<and> holds (m_pBuffer s1) k W s (s1\<lparr>m_pBuffer := NULL\<rparr>)"

lemma heldD:
  assumes "held k W s s1"
  shows "m_pBuffer s1 \<noteq> NULL" "m_FATInfo s1 = m_FATInfo s" "svalid s1 = svalid s"
proof -
  have h: "holds (m_pBuffer s1) k W s (s1\<lparr>m_pBuffer := NULL\<rparr>)" using assms by (simp add: held_def)
  then have r: "same_rest s (s1\<lparr>m_pBuffer := NULL\<rparr>)" by (simp add: holds_def)
  show "m_pBuffer s1 \<noteq> NULL" using h by (simp add: holds_def)
  show "m_FATInfo s1 = m_FATInfo s" using same_rest_info(1) [OF r] by simp
  show "svalid s1 = svalid s" using same_restD(2) [OF r] by simp
qed

lemma dir_load_spec:
  assumes "ready s" "m_pBuffer s = NULL" "dir_sector n c s = Some k" "svalid s k"
  obtains s1 where "dir_load n c s = Some s1" "held k {} s s1" "dir_data s1 = sview s k" "length (dir_data s1) = 512"
    "\<And>j. svalid s j \<Longrightarrow> sview s1 j = sview s j"
proof -
  obtain p t where G: "FATCacheGetSector k False s = Some (p, t)" "holds p k {} s t" "Data (sbuf t p) = sview s k"
    "length (Data (sbuf t p)) = 512" "\<And>j. svalid s j \<Longrightarrow> sview t j = sview s j"
    using get_ready [OF assms(1,4)] by metis
  have p: "p \<noteq> NULL" "same_rest s t" using G(2) by (auto simp: holds_def)
  have "t\<lparr>m_pBuffer := NULL\<rparr> = t" using same_rest_dir(1) [OF p(2)] assms(2) by (intro dir_upd_id) simp
  then have "held k {} s (t\<lparr>m_pBuffer := p\<rparr>)" using G(2) assms(2) by (simp add: held_def)
  moreover have "dir_load n c s = Some (t\<lparr>m_pBuffer := p\<rparr>)" using assms(2,3) G(1) p(1) by (simp add: dir_load_def)
  ultimately show thesis using that [of "t\<lparr>m_pBuffer := p\<rparr>"] G(3-5) by (simp add: dir_data_def)
qed

lemma held_release:
  assumes "held k {} s s1"
  obtains t where "dir_release s1 = Some t" "ready t" "same_rest s t" "suses t = suses s" "m_pBuffer t = NULL"
    "\<And>j. svalid s j \<Longrightarrow> sview t j = sview s1 j"
proof -
  let ?s1 = "s1\<lparr>m_pBuffer := NULL\<rparr>" and ?p = "m_pBuffer s1"
  have h: "holds ?p k {} s ?s1" "m_pBuffer s = NULL" using assms by (simp_all add: held_def)
  obtain t where t: "FATCacheFreeSector ?p True ?s1 = Some t" "ready t" "same_rest s t" "suses t = suses s"
    "\<And>j. svalid s j \<Longrightarrow> sview t j = sview ?s1 j"
    using holds_release [OF h(1)] by metis
  have "FATCacheFreeSector ?p True s1 = Some (t\<lparr>m_pBuffer := ?p\<rparr>)"
    using free_dir_upd(1) [where p = ?p and s = ?s1 and q = ?p] t(1) by (simp add: dir_upd_id)
  then have "dir_release s1 = Some (t\<lparr>m_pBuffer := NULL\<rparr>)" by (simp add: dir_release_def)
  moreover have n: "m_pBuffer t = NULL" using same_rest_dir(1) [OF t(3)] h(2) by simp
  ultimately show thesis using that t(2-5) by (simp add: dir_upd_id)
qed

lemma held_data:
  assumes "held k W s s1" "length (f (dir_data s1)) = 512"
  shows "held k (insert (m_pBuffer s1) W) s (set_dir_data f s1)" "dir_data (set_dir_data f s1) = f (dir_data s1)"
    "m_pBuffer (set_dir_data f s1) = m_pBuffer s1"
    "svalid s j \<Longrightarrow> sview (set_dir_data f s1) j = (if j = k then f (dir_data s1) else sview s1 j)"
proof -
  let ?s1 = "s1\<lparr>m_pBuffer := NULL\<rparr>" and ?p = "m_pBuffer s1" and ?d = "f (dir_data s1)"
  have h: "holds ?p k W s ?s1" "m_pBuffer s = NULL" using assms by (simp_all add: held_def)
  note H = holds_data [OF h(1) assms(2)]
  have e: "set_dir_data f s1 = (set_data ?p ?d ?s1)\<lparr>m_pBuffer := ?p\<rparr>"
    unfolding set_dir_data_def free_dir_upd(3) [symmetric] by simp
  have n: "m_pBuffer (set_data ?p ?d ?s1) = NULL"
  proof -
    have "same_rest s (set_data ?p ?d ?s1)" using H(1) by (simp add: holds_def)
    then show ?thesis using same_rest_dir(1) h(2) by metis
  qed
  show "held k (insert ?p W) s (set_dir_data f s1)" using H(1) h(2) n by (simp add: e held_def dir_upd_id)
  show "dir_data (set_dir_data f s1) = ?d" by (simp add: e dir_data_def set_data_def)
  show "m_pBuffer (set_dir_data f s1) = ?p" by (simp add: e)
  show "sview (set_dir_data f s1) j = (if j = k then ?d else sview s1 j)" if "svalid s j" using H(2) [OF that] by (simp add: e)
qed

lemma held_free:
  assumes "held k W s s1" "b \<or> W = {}" "W \<subseteq> {m_pBuffer s1}"
  obtains t where "FATDirectoryFreeEntry b s1 = Some t" "ready t" "same_rest s t" "suses t = suses s" "m_pBuffer t = NULL"
    "\<And>j. svalid s j \<Longrightarrow> sview t j = sview s1 j"
proof (cases b)
  case True
  let ?s1 = "s1\<lparr>m_pBuffer := NULL\<rparr>" and ?p = "m_pBuffer s1"
  have h: "holds ?p k W s ?s1" "m_pBuffer s = NULL" using assms by (simp_all add: held_def)
  obtain u where u: "FATCacheMarkDirty ?p ?s1 = Some u" "holds ?p k (W - {?p}) s u" "\<And>j. svalid s j \<Longrightarrow> sview u j = sview ?s1 j"
    using holds_mark [OF h(1)] by metis
  have n: "m_pBuffer u = NULL" using u(2) same_rest_dir(1) h(2) by (metis holds_def)
  have W: "W - {?p} = {}" using assms(3) by blast
  have m: "FATCacheMarkDirty ?p s1 = Some (u\<lparr>m_pBuffer := ?p\<rparr>)"
    using free_dir_upd(2) [where p = ?p and s = ?s1 and q = ?p] u(1) by (simp add: dir_upd_id)
  have "held k {} s (u\<lparr>m_pBuffer := ?p\<rparr>)" using u(2) W h(2) n by (simp add: held_def dir_upd_id)
  then obtain t where t: "dir_release (u\<lparr>m_pBuffer := ?p\<rparr>) = Some t" "ready t" "same_rest s t" "suses t = suses s" "m_pBuffer t = NULL"
    "\<And>j. svalid s j \<Longrightarrow> sview t j = sview (u\<lparr>m_pBuffer := ?p\<rparr>) j"
    using held_release by metis
  then show thesis using that [of t] True m u(3) heldD(1) [OF assms(1)] by (simp add: FATDirectoryFreeEntry_def)
next
  case False
  then have "held k {} s s1" using assms by simp
  then obtain t where "dir_release s1 = Some t" "ready t" "same_rest s t" "suses t = suses s" "m_pBuffer t = NULL"
    "\<And>j. svalid s j \<Longrightarrow> sview t j = sview s1 j"
    using held_release by metis
  then show thesis using that [of t] False heldD(1) [OF assms(1)] by (simp add: FATDirectoryFreeEntry_def)
qed

section \<open>Positions in a directory\<close>

text \<open>A FAT32 volume whose clusters lie in the partition, behind the tables.\<close>

definition data_ok :: "'a fat_fs_scheme \<Rightarrow> bool" where
  "data_ok s \<longleftrightarrow> fat_ok s \<and> (let i = m_FATInfo s in m_FATType i = FAT32 \<and> 0 < unat (m_nSectorsPerCluster i) \<and>
     unat (m_nSectorsPerCluster i) < 256 \<and>
     unat (m_nReservedSectors i) + unat (m_nNumberOfFATs i) * unat (m_nFATSize i) \<le> unat (m_nFirstDataSector i) \<and>
     unat (m_nFirstDataSector i) + unat (m_nClusters i) * unat (m_nSectorsPerCluster i) \<le> partition_sectors s)"

lemma data_okD:
  assumes "data_ok s" and i: "i = m_FATInfo s"
  shows "fat_ok s" "m_FATType i = FAT32" "0 < unat (m_nSectorsPerCluster i)" "unat (m_nSectorsPerCluster i) < 256"
    "unat (m_nReservedSectors i) + unat (m_nNumberOfFATs i) * unat (m_nFATSize i) \<le> unat (m_nFirstDataSector i)"
    "unat (m_nFirstDataSector i) + unat (m_nClusters i) * unat (m_nSectorsPerCluster i) \<le> partition_sectors s"
  using assms by (simp_all add: data_ok_def Let_def)

lemma same_rest_data_ok: "same_rest s s' \<Longrightarrow> data_ok s \<Longrightarrow> data_ok (s' :: 'a fat_fs_scheme)"
  using same_rest_fat_ok [of s s'] same_rest_info(1) [of s s'] same_rest_sectors [of s s'] by (simp add: data_ok_def)

definition slots :: "TFatInfo \<Rightarrow> nat" where
  "slots i = 16 * unat (m_nSectorsPerCluster i)"

definition first_sector :: "TFatInfo \<Rightarrow> u32 \<Rightarrow> u32" where
  "first_sector i c = m_nFirstDataSector i + (c - 2) * m_nSectorsPerCluster i"

definition cluster_at :: "'a fat_fs_scheme \<Rightarrow> u32 list \<Rightarrow> nat \<Rightarrow> u32" where
  "cluster_at s cs k = (if k div slots (m_FATInfo s) < length cs then cs ! (k div slots (m_FATInfo s)) else fat_entry s (last cs))"

definition slot_sector :: "TFatInfo \<Rightarrow> u32 list \<Rightarrow> nat \<Rightarrow> u32" where
  "slot_sector i cs k = first_sector i (cs ! (k div slots i)) + of_nat (k mod slots i div 16)"

definition slot_offset :: "nat \<Rightarrow> nat" where
  "slot_offset k = 32 * (k mod 16)"

lemma dir_offset_slot: "dir_offset (of_nat k) = slot_offset k"
proof -
  have "unat (of_nat k * 32 mod 512 :: u32) = k * 32 mod 2 ^ 32 mod 512"
    by (simp add: unat_mod unat_word_ariths unat_of_nat mod_mult_left_eq)
  also have "\<dots> = k * 32 mod 512" by (simp add: mod_mod_cancel)
  also have "\<dots> = 32 * (k mod 16)" using mult_mod_right [of 32 k 16] by (simp add: mult.commute)
  finally show ?thesis by (simp add: dir_offset_def FAT_SECTOR_SIZE_def slot_offset_def)
qed

lemma slot_offset_bound: "slot_offset k + 32 \<le> 512"
  by (simp add: slot_offset_def)

lemma first_sector_unat:
  assumes "data_ok s" "i = m_FATInfo s" "cluster_ok i c"
  shows "unat (first_sector i c) = unat (m_nFirstDataSector i) + (unat c - 2) * unat (m_nSectorsPerCluster i)"
    "FATInfoGetFirstSector i c = Some (first_sector i c)"
    "unat (first_sector i c) + unat (m_nSectorsPerCluster i) \<le> partition_sectors s"
proof -
  note D = data_okD [OF assms(1,2)]
  have c: "2 \<le> unat c" "unat c - 2 < unat (m_nClusters i)" using assms(3) by (auto simp: cluster_ok_def)
  have u: "unat (c - 2) = unat c - 2" using c(1) by (simp add: unat_sub_if')
  have le: "(unat c - 2) * unat (m_nSectorsPerCluster i) + unat (m_nSectorsPerCluster i) \<le> unat (m_nClusters i) * unat (m_nSectorsPerCluster i)"
    using c(2) mult_le_mono1 [of "unat c - 2 + 1" "unat (m_nClusters i)" "unat (m_nSectorsPerCluster i)"] by simp
  then have b: "unat (m_nFirstDataSector i) + (unat c - 2) * unat (m_nSectorsPerCluster i) < 2 ^ 32"
    using D(3,6) partition_sectors_bound [of s] by linarith
  then have "unat ((c - 2) * m_nSectorsPerCluster i) = (unat c - 2) * unat (m_nSectorsPerCluster i)"
    using u by (simp add: unat_word_ariths)
  then show *: "unat (first_sector i c) = unat (m_nFirstDataSector i) + (unat c - 2) * unat (m_nSectorsPerCluster i)"
    using b by (simp add: first_sector_def unat_word_ariths)
  show "FATInfoGetFirstSector i c = Some (first_sector i c)"
    using c(2) u by (simp add: FATInfoGetFirstSector_def first_sector_def word_less_nat_alt)
  show "unat (first_sector i c) + unat (m_nSectorsPerCluster i) \<le> partition_sectors s" using * le D(6) by linarith
qed

lemma chain_last_eoc: "chain s cs \<Longrightarrow> eoc_ge (m_FATInfo s) (fat_entry s (last cs))"
  by (induction cs rule: induct_list012) auto

lemma chain_step: "chain s cs \<Longrightarrow> Suc q < length cs \<Longrightarrow> fat_entry s (cs ! q) = cs ! Suc q"
proof (induction cs arbitrary: q rule: induct_list012)
  case (3 x y zs)
  then show ?case by (cases q) auto
qed auto

text \<open>A directory: a chain with fewer than \<open>2^32\<close> entries.\<close>

definition dir_chain :: "'a fat_fs_scheme \<Rightarrow> u32 list \<Rightarrow> bool" where
  "dir_chain s cs \<longleftrightarrow> data_ok s \<and> chain s cs \<and> slots (m_FATInfo s) * length cs < 2 ^ 32"

lemma dir_chainD:
  assumes "dir_chain s cs"
  shows "data_ok s" "fat_ok s" "chain s cs" "slots (m_FATInfo s) * length cs < 2 ^ 32" "0 < slots (m_FATInfo s)" "cs \<noteq> []"
    "k < slots (m_FATInfo s) * length cs \<Longrightarrow> k div slots (m_FATInfo s) < length cs"
    "k < slots (m_FATInfo s) * length cs \<Longrightarrow> cluster_ok (m_FATInfo s) (cs ! (k div slots (m_FATInfo s)))"
proof -
  show A: "data_ok s" "fat_ok s" "chain s cs" "slots (m_FATInfo s) * length cs < 2 ^ 32" "0 < slots (m_FATInfo s)" "cs \<noteq> []"
    using assms data_okD [OF _ refl, of s] by (auto simp: dir_chain_def slots_def)
  show l: "k div slots (m_FATInfo s) < length cs" if "k < slots (m_FATInfo s) * length cs"
    using that A(5) by (simp add: less_mult_imp_div_less mult.commute)
  show "cluster_ok (m_FATInfo s) (cs ! (k div slots (m_FATInfo s)))" if "k < slots (m_FATInfo s) * length cs"
    using l [OF that] A(3) by (intro chain_cluster_ok [of s cs]) auto
qed

lemma stable_dir_chain: "stable s s' \<Longrightarrow> dir_chain s cs \<Longrightarrow> dir_chain (s' :: 'a fat_fs_scheme) cs"
  using stable_chain [of s s' cs] same_rest_data_ok [of s s'] stable_info [of s s'] dir_chainD(2)
  by (auto simp: dir_chain_def stable_def)

lemma entries_per_cluster_slots: "data_ok s \<Longrightarrow> unat (entries_per_cluster (m_FATInfo s)) = slots (m_FATInfo s)"
  using data_okD [of s, OF _ refl]
  by (simp add: entries_per_cluster_def FAT_DIR_ENTRIES_PER_SECTOR_def slots_def unat_word_ariths mult.commute)

lemma dir_at_end_slot:
  assumes "dir_chain s cs" "k \<le> slots (m_FATInfo s) * length cs"
  shows "dir_at_end (of_nat k) (cluster_at s cs k) s = Some (k = slots (m_FATInfo s) * length cs)"
proof -
  note D = dir_chainD [OF assms(1)]
  have t: "m_FATType (m_FATInfo s) = FAT32" using data_okD(2) [OF D(1) refl] .
  have e: "dir_at_end n c s = Some (eoc_ge (m_FATInfo s) c)" for n c
    using FATIsEOC_code [of s c] t by (simp add: dir_at_end_def)
  show ?thesis
  proof (cases "k = slots (m_FATInfo s) * length cs")
    case True
    then have "cluster_at s cs k = fat_entry s (last cs)" using D(5) by (simp add: cluster_at_def)
    then show ?thesis using True chain_last_eoc [OF D(3)] by (simp add: e)
  next
    case False
    then have k: "k < slots (m_FATInfo s) * length cs" using assms(2) by simp
    then have "cluster_at s cs k = cs ! (k div slots (m_FATInfo s))" using D(7) by (simp add: cluster_at_def)
    then show ?thesis using False cluster_not_eoc [OF D(2) D(8) [OF k]] by (simp add: e)
  qed
qed

lemma slot_sector_ok:
  assumes "dir_chain s cs" "k < slots (m_FATInfo s) * length cs"
  shows "dir_sector (of_nat k) (cluster_at s cs k) s = Some (slot_sector (m_FATInfo s) cs k)"
    "svalid s (slot_sector (m_FATInfo s) cs k)"
    "unat (slot_sector (m_FATInfo s) cs k) = unat (first_sector (m_FATInfo s) (cs ! (k div slots (m_FATInfo s)))) + k mod slots (m_FATInfo s) div 16"
    "k mod slots (m_FATInfo s) div 16 < unat (m_nSectorsPerCluster (m_FATInfo s))"
proof -
  let ?i = "m_FATInfo s"
  let ?c = "cs ! (k div slots ?i)"
  note D = dir_chainD [OF assms(1)]
  note F = first_sector_unat [OF D(1) refl D(8) [OF assms(2)]]
  have t: "m_FATType ?i = FAT32" using data_okD(2) [OF D(1) refl] .
  have c: "cluster_at s cs k = ?c" using D(7) [OF assms(2)] by (simp add: cluster_at_def)
  have k32: "k < 2 ^ 32" using assms(2) D(4) by simp
  have E: "unat (entries_per_cluster ?i) = slots ?i" by (rule entries_per_cluster_slots [OF D(1)])
  have "unat (of_nat k mod entries_per_cluster ?i div FAT_DIR_ENTRIES_PER_SECTOR) = k mod slots ?i div 16"
    using k32 E by (simp add: unat_mod unat_div FAT_DIR_ENTRIES_PER_SECTOR_def unat_of_nat)
  moreover have "k mod slots ?i div 16 < 2 ^ 32"
    using k32 by (meson div_le_dividend le_less_trans mod_less_eq_dividend)
  ultimately have q: "of_nat k mod entries_per_cluster ?i div FAT_DIR_ENTRIES_PER_SECTOR = of_nat (k mod slots ?i div 16)"
    by (simp add: word_unat_eq_iff unat_of_nat)
  have "entries_per_cluster ?i \<noteq> 0" using E D(5) by auto
  then show "dir_sector (of_nat k) (cluster_at s cs k) s = Some (slot_sector ?i cs k)"
    using t c F(2) q by (simp add: dir_sector_def slot_sector_def Let_def)
  have "k mod slots ?i < 16 * unat (m_nSectorsPerCluster ?i)" using D(5) mod_less_divisor [of "slots ?i" k] by (simp add: slots_def)
  then show m: "k mod slots ?i div 16 < unat (m_nSectorsPerCluster ?i)" by linarith
  then have "unat (first_sector ?i ?c) + k mod slots ?i div 16 < partition_sectors s" using F(3) by linarith
  moreover from this show u: "unat (slot_sector ?i cs k) = unat (first_sector ?i ?c) + k mod slots ?i div 16"
    using partition_sectors_bound [of s] by (simp add: slot_sector_def unat_word_ariths unat_of_nat)
  ultimately show "svalid s (slot_sector ?i cs k)" by (simp add: svalid_sectors)
qed

lemma next_cluster_slot:
  assumes "ready s" "dir_chain s cs" "k < slots (m_FATInfo s) * length cs"
  shows "\<exists>s'. next_cluster (of_nat (k + 1)) (cluster_at s cs k) s = Some (cluster_at s cs (k + 1), s') \<and> stable s s'"
proof -
  let ?i = "m_FATInfo s"
  note D = dir_chainD [OF assms(2)]
  have t: "m_FATType ?i = FAT32" using data_okD(2) [OF D(1) refl] .
  have c: "cluster_at s cs k = cs ! (k div slots ?i)" using D(7) [OF assms(3)] by (simp add: cluster_at_def)
  have E: "unat (entries_per_cluster ?i) = slots ?i" by (rule entries_per_cluster_slots [OF D(1)])
  have "unat (of_nat (k + 1) mod entries_per_cluster ?i) = (k + 1) mod slots ?i"
    using assms(3) D(4) E by (simp add: unat_mod unat_of_nat del: of_nat_Suc of_nat_add)
  then have z: "of_nat (k + 1) mod entries_per_cluster ?i = 0 \<longleftrightarrow> (k + 1) mod slots ?i = 0" by (metis unat_eq_zero)
  show ?thesis
  proof (cases "(k + 1) mod slots ?i = 0")
    case True
    then have dv: "(k + 1) div slots ?i = k div slots ?i + 1" using D(5) by (simp add: div_Suc mod_Suc split: if_splits)
    obtain s' where s': "FATGetClusterEntry (cs ! (k div slots ?i)) s = Some (fat_entry s (cs ! (k div slots ?i)), s')" "stable s s'"
      using FATGetClusterEntry_spec [OF assms(1) D(2) D(8) [OF assms(3)]] by metis
    have "fat_entry s (cs ! (k div slots ?i)) = cluster_at s cs (k + 1)"
    proof (cases "Suc (k div slots ?i) < length cs")
      case True
      then show ?thesis using chain_step [OF D(3)] dv by (simp add: cluster_at_def)
    next
      case False
      then have "k div slots ?i = length cs - 1" using D(7) [OF assms(3)] by simp
      then show ?thesis using dv D(6) by (simp add: cluster_at_def last_conv_nth)
    qed
    with s' z True t c show ?thesis by (simp add: next_cluster_def)
  next
    case False
    then have "(k + 1) div slots ?i = k div slots ?i" using D(5) by (simp add: div_Suc)
    then have "cluster_at s cs (k + 1) = cluster_at s cs k" by (simp add: cluster_at_def)
    then show ?thesis using False z stable_refl [OF assms(1)] by (simp add: next_cluster_def)
  qed
qed


section \<open>Looking up an entry\<close>

text \<open>The entries of a directory as the clients of the cache see them.\<close>

definition slot :: "'a fat_fs_scheme \<Rightarrow> u32 list \<Rightarrow> nat \<Rightarrow> u8 list" where
  "slot s cs k = take 32 (drop (slot_offset k) (sview s (slot_sector (m_FATInfo s) cs k)))"

definition slot_matches :: "u8 list \<Rightarrow> u8 list \<Rightarrow> bool" where
  "slot_matches F e \<longleftrightarrow> e ! 0 \<noteq> 0xE5 \<and> e ! 11 AND 0x30 \<noteq> 0 \<and> take 11 e = F"

abbreviation "n_slots s cs \<equiv> slots (m_FATInfo s) * length cs"

text \<open>The search of the reference: the first entry from \<open>k\<close> on that has the name or ends the directory.\<close>

definition lookup_slot :: "u8 list \<Rightarrow> 'a fat_fs_scheme \<Rightarrow> u32 list \<Rightarrow> nat \<Rightarrow> nat option" where
  "lookup_slot F s cs k =
     (case find (\<lambda>q. slot s cs q ! 0 = 0 \<or> slot_matches F (slot s cs q)) [k ..< n_slots s cs] of
        None \<Rightarrow> None | Some q \<Rightarrow> if slot s cs q ! 0 = 0 then None else Some q)"

lemma slot_fields:
  assumes "length d = 512"
  shows "d ! slot_offset k = take 32 (drop (slot_offset k) d) ! 0" "Dir_nAttributes d (slot_offset k) = take 32 (drop (slot_offset k) d) ! 11"
    "Dir_Name d (slot_offset k) = take 11 (take 32 (drop (slot_offset k) d))"
  using assms slot_offset_bound [of k] by (simp_all add: Dir_nAttributes_def Dir_Name_def FAT_DIR_NAME_LENGTH_def min_def)

lemma stable_slot:
  assumes "stable s s'" "dir_chain s cs" "k < n_slots s cs"
  shows "slot s' cs k = slot s cs k"
  using assms(1) stable_info [OF assms(1)] slot_sector_ok(2) [OF assms(2,3)] by (simp add: slot_def stable_def)

lemma stable_cluster_at:
  assumes "stable s s'" "dir_chain s cs"
  shows "cluster_at s' cs k = cluster_at s cs k"
proof -
  have "fat_entry s' (last cs) = fat_entry s (last cs)"
    using dir_chainD [OF assms(2)] by (intro stable_fat_entry [OF assms(1)] chain_cluster_ok [of s cs]) auto
  then show ?thesis by (simp add: cluster_at_def stable_info [OF assms(1)])
qed

lemma find_cong': "(\<And>x. x \<in> set xs \<Longrightarrow> P x = Q x) \<Longrightarrow> find P xs = find Q xs"
  by (rule find_cong) auto

lemma stable_lookup:
  assumes "stable s s'" "dir_chain s cs"
  shows "lookup_slot F s' cs k = lookup_slot F s cs k"
proof -
  have e: "find (\<lambda>q. slot s' cs q ! 0 = 0 \<or> slot_matches F (slot s' cs q)) [k ..< n_slots s cs] =
        find (\<lambda>q. slot s cs q ! 0 = 0 \<or> slot_matches F (slot s cs q)) [k ..< n_slots s cs]" (is "_ = ?f")
    by (rule find_cong') (simp add: stable_slot [OF assms])
  have "slot s' cs q = slot s cs q" if "?f = Some q" for q
    using that stable_slot [OF assms] by (auto simp: find_Some_iff)
  then show ?thesis unfolding lookup_slot_def stable_info [OF assms(1)] e by (simp split: option.split)
qed

lemma lookup_slot_step:
  assumes "k < n_slots s cs"
  shows "lookup_slot F s cs k =
    (if slot s cs k ! 0 = 0 then None else if slot_matches F (slot s cs k) then Some k else lookup_slot F s cs (k + 1))"
  using assms by (simp add: lookup_slot_def upt_conv_Cons)

lemma held_stable:
  assumes "stable s t" "ready s" "m_pBuffer s = NULL" "held k W t u"
  shows "held k W s u"
proof -
  have r: "same_rest s t" "suses t = suses s" using assms(1) by (simp_all add: stable_def)
  have "sbufs t = sbufs s" using same_restD(1) [OF r(1)] .
  then show ?thesis using assms r by (auto simp: held_def holds_def intro: same_rest_trans)
qed

text \<open>What a lookup returns: nothing, or the entry in the buffer that the directory object now holds.\<close>

definition lookup_ok :: "'a fat_dir_scheme \<Rightarrow> u32 list \<Rightarrow> nat option \<Rightarrow> nat option \<Rightarrow> 'a fat_dir_scheme \<Rightarrow> bool" where
  "lookup_ok s cs q r s' \<longleftrightarrow>
     (case q of None \<Rightarrow> r = None \<and> stable s s'
      | Some q \<Rightarrow> r = Some (slot_offset q) \<and> held (slot_sector (m_FATInfo s) cs q) {} s s' \<and>
          dir_data s' = sview s (slot_sector (m_FATInfo s) cs q) \<and> length (dir_data s') = 512 \<and>
          (\<forall>j. svalid s j \<longrightarrow> sview s' j = sview s j))"

lemma lookup_ok_stable:
  assumes "stable s t" "ready s" "m_pBuffer s = NULL" "dir_chain s cs" "lookup_ok t cs q r s'" "case q of None \<Rightarrow> True | Some q \<Rightarrow> q < n_slots s cs"
  shows "lookup_ok s cs q r s'"
proof (cases q)
  case None
  then show ?thesis using assms(5) stable_trans [OF assms(1)] by (simp add: lookup_ok_def)
next
  case (Some k)
  have i: "m_FATInfo t = m_FATInfo s" by (rule stable_info [OF assms(1)])
  have v: "\<And>j. svalid s j \<Longrightarrow> svalid t j \<and> sview t j = sview s j"
    using assms(1) same_restD(2) [of s t] by (auto simp: stable_def)
  have "svalid s (slot_sector (m_FATInfo s) cs k)" using slot_sector_ok(2) [OF assms(4)] assms(6) Some by simp
  then show ?thesis using assms(5) Some v held_stable [OF assms(1-3)] by (auto simp: lookup_ok_def i)
qed

lemma lookup_bound: "lookup_slot F s cs k = Some q \<Longrightarrow> k \<le> q \<and> q < n_slots s cs"
  by (auto simp: lookup_slot_def find_Some_iff split: option.splits if_splits)

lemma load_slot:
  assumes "ready s" "m_pBuffer s = NULL" "dir_chain s cs" "k < n_slots s cs"
  obtains s1 where "dir_load (of_nat k) (cluster_at s cs k) s = Some s1" "held (slot_sector (m_FATInfo s) cs k) {} s s1"
    "dir_data s1 = sview s (slot_sector (m_FATInfo s) cs k)" "length (dir_data s1) = 512" "\<And>j. svalid s j \<Longrightarrow> sview s1 j = sview s j"
    "dir_data s1 ! slot_offset k = slot s cs k ! 0" "Dir_nAttributes (dir_data s1) (slot_offset k) = slot s cs k ! 11"
    "Dir_Name (dir_data s1) (slot_offset k) = take 11 (slot s cs k)"
proof -
  note S = slot_sector_ok [OF assms(3,4)]
  obtain s1 where L: "dir_load (of_nat k) (cluster_at s cs k) s = Some s1" "held (slot_sector (m_FATInfo s) cs k) {} s s1"
    "dir_data s1 = sview s (slot_sector (m_FATInfo s) cs k)" "length (dir_data s1) = 512" "\<And>j. svalid s j \<Longrightarrow> sview s1 j = sview s j"
    using dir_load_spec [OF assms(1,2) S(1,2)] by metis
  show thesis
  proof (rule that [OF L])
    show "dir_data s1 ! slot_offset k = slot s cs k ! 0" "Dir_nAttributes (dir_data s1) (slot_offset k) = slot s cs k ! 11"
      "Dir_Name (dir_data s1) (slot_offset k) = take 11 (slot s cs k)"
      using slot_fields [OF L(4), of k] L(3) by (simp_all only: slot_def)
  qed
qed

text \<open>Releasing the buffer and going on to the next entry.\<close>

lemma skip_slot:
  assumes "dir_chain s cs" "k < n_slots s cs" "held m {} s s1" "\<And>j. svalid s j \<Longrightarrow> sview s1 j = sview s j"
  obtains s2 s3 where "dir_release s1 = Some s2" "m_FATInfo s2 = m_FATInfo s"
    "next_cluster (of_nat (k + 1)) (cluster_at s cs k) s2 = Some (cluster_at s cs (k + 1), s3)" "stable s s3" "m_pBuffer s3 = NULL"
proof -
  obtain s2 where r: "dir_release s1 = Some s2" "ready s2" "same_rest s s2" "suses s2 = suses s" "m_pBuffer s2 = NULL"
    "\<And>j. svalid s j \<Longrightarrow> sview s2 j = sview s1 j"
    using held_release [OF assms(3)] by metis
  have st: "stable s s2" using r assms(4) by (simp add: stable_def)
  have i: "m_FATInfo s2 = m_FATInfo s" by (rule stable_info [OF st])
  obtain s3 where n: "next_cluster (of_nat (k + 1)) (cluster_at s2 cs k) s2 = Some (cluster_at s2 cs (k + 1), s3)" "stable s2 s3"
    using next_cluster_slot [OF r(2) stable_dir_chain [OF st assms(1)]] assms(2) i by auto
  have "m_pBuffer s3 = NULL" using n(2) r(5) same_rest_dir(1) by (metis stable_def)
  with that r(1) i n stable_trans [OF st n(2)] stable_cluster_at [OF st assms(1)] show thesis by simp
qed

lemma get_entry_loop_spec:
  assumes "ready s" "m_pBuffer s = NULL" "dir_chain s cs" "k \<le> n_slots s cs"
  shows "\<exists>r s'. get_entry_loop F (of_nat k) (cluster_at s cs k) s = Some (r, s') \<and> lookup_ok s cs (lookup_slot F s cs k) r s'"
  using assms
proof (induction "n_slots s cs - k" arbitrary: k s)
  case 0
  then show ?case using dir_at_end_slot [of s cs k] stable_refl [of s]
    by (subst get_entry_loop.simps) (simp add: lookup_slot_def lookup_ok_def)
next
  case (Suc n)
  have k: "k < n_slots s cs" "k \<noteq> n_slots s cs" using Suc.hyps(2) by simp_all
  obtain s1 where L: "dir_load (of_nat k) (cluster_at s cs k) s = Some s1" "held (slot_sector (m_FATInfo s) cs k) {} s s1"
    "dir_data s1 = sview s (slot_sector (m_FATInfo s) cs k)" "length (dir_data s1) = 512" "\<And>j. svalid s j \<Longrightarrow> sview s1 j = sview s j"
    "dir_data s1 ! slot_offset k = slot s cs k ! 0" "Dir_nAttributes (dir_data s1) (slot_offset k) = slot s cs k ! 11"
    "Dir_Name (dir_data s1) (slot_offset k) = take 11 (slot s cs k)"
    using load_slot [OF Suc.prems(1-3) k(1)] by metis
  have e: "dir_at_end (of_nat k) (cluster_at s cs k) s = Some False" using dir_at_end_slot [OF Suc.prems(3,4)] k(2) by simp
  have m: "(0x30::u8) = FAT_DIR_ATTR_ARCHIVE OR FAT_DIR_ATTR_DIRECTORY" by (simp add: FAT_DIR_ATTR_ARCHIVE_def FAT_DIR_ATTR_DIRECTORY_def)
  note run = get_entry_loop.simps [of F "of_nat k" "cluster_at s cs k" s]
  note C = e L(1,6-8) dir_offset_slot [of k] FAT_DIR_NAME0_LAST_def FAT_DIR_NAME0_FREE_def lookup_slot_step [OF k(1), of F]
  consider "slot s cs k ! 0 = 0" | "slot s cs k ! 0 \<noteq> 0" "slot_matches F (slot s cs k)" | "slot s cs k ! 0 \<noteq> 0" "\<not> slot_matches F (slot s cs k)"
    by blast
  then show ?case
  proof cases
    case 1
    obtain s2 where "dir_release s1 = Some s2" "ready s2" "same_rest s s2" "suses s2 = suses s" "\<And>j. svalid s j \<Longrightarrow> sview s2 j = sview s1 j"
      using held_release [OF L(2)] by metis
    with 1 L(5) show ?thesis unfolding run by (simp add: C lookup_ok_def stable_def)
  next
    case 2
    have "get_entry_loop F (of_nat k) (cluster_at s cs k) s = Some (Some (slot_offset k), s1)"
      unfolding run using 2 by (simp add: C slot_matches_def m)
    moreover have "lookup_ok s cs (Some k) (Some (slot_offset k)) s1" using L(2-5) by (simp add: lookup_ok_def)
    moreover have "lookup_slot F s cs k = Some k" using 2 by (simp add: lookup_slot_step [OF k(1), of F])
    ultimately show ?thesis by simp
  next
    case 3
    obtain s2 s3 where N: "dir_release s1 = Some s2" "m_FATInfo s2 = m_FATInfo s"
      "next_cluster (of_nat (k + 1)) (cluster_at s cs k) s2 = Some (cluster_at s cs (k + 1), s3)" "stable s s3" "m_pBuffer s3 = NULL"
      using skip_slot [OF Suc.prems(3) k(1) L(2,5)] by metis
    have i: "m_FATInfo s3 = m_FATInfo s" by (rule stable_info [OF N(4)])
    have r3: "ready s3" using N(4) by (simp add: stable_def)
    have n: "n = n_slots s3 cs - (k + 1)" "k + 1 \<le> n_slots s3 cs" using Suc.hyps(2) k(1) i by simp_all
    obtain r s' where R: "get_entry_loop F (of_nat (k + 1)) (cluster_at s3 cs (k + 1)) s3 = Some (r, s')"
      "lookup_ok s3 cs (lookup_slot F s3 cs (k + 1)) r s'"
      using Suc.hyps(1) [OF n(1) r3 N(5) stable_dir_chain [OF N(4) Suc.prems(3)] n(2)] by blast
    have "lookup_ok s cs (lookup_slot F s cs (k + 1)) r s'"
      using R(2) lookup_bound [of F s cs "k + 1"] unfolding stable_lookup [OF N(4) Suc.prems(3)]
      by (intro lookup_ok_stable [OF N(4) Suc.prems(1-3)]) (auto split: option.split)
    moreover have "get_entry_loop F (of_nat k) (cluster_at s cs k) s = Some (r, s')"
      unfolding run using 3 N(1,3) R(1) stable_cluster_at [OF N(4) Suc.prems(3)]
      by (auto simp add: C slot_matches_def m add.commute)
    ultimately show ?thesis using 3 by (simp add: lookup_slot_step [OF k(1), of F])
  qed
qed


section \<open>Creating an entry\<close>

lemma Time2FAT_total: "\<exists>r. FATDirectoryTime2FAT t = Some r"
proof (cases "t = 0")
  case False
  obtain y e where ye: "year_loop 1970 (t div 60 div 60 div 24) = (y, e)" by force
  have "unat e < year_days (unat y)" using year_loop_spec [OF ye] day_parts(1,2) [of t] by simp
  then have "unat (0::u32) \<le> 11" "unat e < (\<Sum>k = unat (0::u32) + 1..<13. month_days (unat y) k)"
    using year_months [of "unat y"] by simp_all
  then obtain m f where "month_loop y 0 e = Some (m, f)" by (rule month_loop_spec)
  with False ye show ?thesis by (simp add: FATDirectoryTime2FAT_def Let_def)
qed (simp add: FATDirectoryTime2FAT_def)

text \<open>The bytes of an entry that is neither a new directory with its own cluster to clear nor one that grows the chain.\<close>

definition stored_entry :: "u8 list \<Rightarrow> u32 \<Rightarrow> u32 \<Rightarrow> u32 \<Rightarrow> u8 list" where
  "stored_entry F dt nFirstCluster createType =
     (if createType = 1 then set_first_cluster 0 nFirstCluster ((new_entry F dt)[11 := FAT_DIR_ATTR_DIRECTORY])
      else (new_entry F dt)[11 := FAT_DIR_ATTR_ARCHIVE])"

lemma splice_length [simp]: "i + length e \<le> length d \<Longrightarrow> length (splice i e d) = length d"
  by (simp add: splice_def)

lemma splice_update: "o' + length e \<le> length d \<Longrightarrow> i < length e \<Longrightarrow> (splice o' e d)[o' + i := x] = splice o' (e[i := x]) d"
  by (simp add: splice_def list_update_append)

lemma splice_put16: "o' + length e \<le> length d \<Longrightarrow> i + 1 < length e \<Longrightarrow> put16 (o' + i) w (splice o' e d) = splice o' (put16 i w e) d"
  using splice_update [of o' e d i] splice_update [of o' "e[i := ucast w]" d "i + 1"] by (simp add: put16_def add.assoc)

lemma put16_length [simp]: "length (put16 i w e) = length e"
  by (simp add: put16_def)

lemma new_entry_length [simp]: "length F = 11 \<Longrightarrow> length (new_entry F dt) = 32"
  by (simp add: new_entry_def Let_def)

lemma stored_entry_length [simp]: "length F = 11 \<Longrightarrow> length (stored_entry F dt c ty) = 32"
  by (simp add: stored_entry_def set_first_cluster_def)

lemma splice_same: "i + length e \<le> length d \<Longrightarrow> take (length e) (drop i (splice i e d)) = e"
  by (simp add: splice_def)

lemma splice_other: "i + length e \<le> length d \<Longrightarrow> k + n \<le> i \<or> i + length e \<le> k \<Longrightarrow> take n (drop k (splice i e d)) = take n (drop k d)"
  by (auto simp: splice_def min_def drop_take)

lemma put16_take: "n \<le> i \<Longrightarrow> take n (put16 i w e) = take n e"
  by (simp add: put16_def)

lemma put16_nth: "n < i \<Longrightarrow> put16 i w e ! n = e ! n"
  by (simp add: put16_def)

lemma stored_entry_fields:
  assumes "length F = 11"
  shows "take 11 (stored_entry F dt c ty) = F" "stored_entry F dt c ty ! 0 = F ! 0"
    "stored_entry F dt c ty ! 11 = (if ty = 1 then FAT_DIR_ATTR_DIRECTORY else FAT_DIR_ATTR_ARCHIVE)"
proof -
  show t: "take 11 (stored_entry F dt c ty) = F"
    using assms by (simp add: stored_entry_def new_entry_def Let_def set_first_cluster_def put16_take)
  show "stored_entry F dt c ty ! 0 = F ! 0" using nth_take [of 0 11 "stored_entry F dt c ty"] t by simp
  show "stored_entry F dt c ty ! 11 = (if ty = 1 then FAT_DIR_ATTR_DIRECTORY else FAT_DIR_ATTR_ARCHIVE)"
    using assms by (simp add: stored_entry_def set_first_cluster_def put16_nth)
qed

text \<open>What creating an entry leaves behind: the buffer with the entry in it is held, not yet marked.\<close>

definition created :: "'a fat_dir_scheme \<Rightarrow> u32 list \<Rightarrow> nat \<Rightarrow> u8 list \<Rightarrow> 'a fat_dir_scheme \<Rightarrow> bool" where
  "created s cs q e s' \<longleftrightarrow> (let k = slot_sector (m_FATInfo s) cs q in held k {m_pBuffer s'} s s' \<and>
     dir_data s' = splice (slot_offset q) e (sview s k) \<and>
     (\<forall>j. svalid s j \<longrightarrow> sview s' j = (if j = k then splice (slot_offset q) e (sview s k) else sview s j)))"

lemma init_entry_spec:
  assumes "held k {} s s1" "dir_data s1 = sview s k" "length (sview s k) = 512" "\<And>j. svalid s j \<Longrightarrow> sview s1 j = sview s j"
    and "FATDirectoryTime2FAT t = Some dt" "length F = 11" "ty \<noteq> 0" "k = slot_sector (m_FATInfo s) cs q"
  shows "\<exists>s'. init_entry F t c ty (slot_offset q) s1 = Some s' \<and> created s cs q (stored_entry F dt c ty) s'"
proof -
  let ?o = "slot_offset q" and ?e = "new_entry F dt" and ?d = "sview s k"
  have o: "?o + 32 \<le> 512" by (rule slot_offset_bound)
  define s2 where "s2 = set_dir_data (splice ?o ?e) s1"
  define f where "f = (if ty = 1 then (\<lambda>d. set_first_cluster ?o c (d[?o + 11 := FAT_DIR_ATTR_DIRECTORY])) else (\<lambda>d. d[?o + 11 := FAT_DIR_ATTR_ARCHIVE]))"
  have run: "init_entry F t c ty ?o s1 = Some (set_dir_data f s2)" using assms(5,7) by (simp add: init_entry_def s2_def f_def)
  have l: "length (splice ?o ?e (dir_data s1)) = 512" using assms(2,3,6) o by simp
  note A = held_data [where f = "splice ?o ?e", OF assms(1) l, folded s2_def]
  have fd: "f (splice ?o ?e ?d) = splice ?o (stored_entry F dt c ty) ?d"
    using assms(3,6) o splice_put16 [of ?o _ ?d] splice_update [of ?o ?e ?d 11]
    by (simp add: f_def stored_entry_def set_first_cluster_def)
  have d2: "dir_data s2 = splice ?o ?e ?d" using A(2) assms(2) by simp
  have l2: "length (f (dir_data s2)) = 512" using assms(3,6) o by (simp add: d2 fd)
  have f2: "f (dir_data s2) = splice ?o (stored_entry F dt c ty) ?d" by (simp only: d2 fd)
  note B = held_data [where f = f, OF A(1) l2, unfolded A(3) insert_absorb2 f2]
  have "held k {m_pBuffer (set_dir_data f s2)} s (set_dir_data f s2)" using B(1,3) by simp
  moreover have "dir_data (set_dir_data f s2) = splice ?o (stored_entry F dt c ty) ?d" by (rule B(2))
  moreover have "sview (set_dir_data f s2) j = (if j = k then splice ?o (stored_entry F dt c ty) ?d else sview s j)" if "svalid s j" for j
    using B(4) [OF that] A(4) [OF that] assms(4) [OF that] by simp
  ultimately show ?thesis using run by (simp add: created_def Let_def assms(8))
qed

text \<open>The first free entry from \<open>k\<close> on.\<close>

definition free_slot :: "'a fat_fs_scheme \<Rightarrow> u32 list \<Rightarrow> nat \<Rightarrow> nat option" where
  "free_slot s cs k = find (\<lambda>q. slot s cs q ! 0 = 0 \<or> slot s cs q ! 0 = 0xE5) [k ..< n_slots s cs]"

lemma free_slot_step:
  "k < n_slots s cs \<Longrightarrow> free_slot s cs k = (if slot s cs k ! 0 = 0 \<or> slot s cs k ! 0 = 0xE5 then Some k else free_slot s cs (k + 1))"
  by (simp add: free_slot_def upt_conv_Cons)

lemma stable_free_slot: "stable s s' \<Longrightarrow> dir_chain s cs \<Longrightarrow> free_slot s' cs k = free_slot s cs k"
  unfolding free_slot_def stable_info [of s s'] by (rule find_cong') (simp add: stable_slot)

lemma free_slot_bound: "free_slot s cs k = Some q \<Longrightarrow> k \<le> q \<and> q < n_slots s cs \<and> (slot s cs q ! 0 = 0 \<or> slot s cs q ! 0 = 0xE5) \<and>
    (\<forall>j. k \<le> j \<longrightarrow> j < q \<longrightarrow> slot s cs j ! 0 \<noteq> 0 \<and> slot s cs j ! 0 \<noteq> 0xE5)"
  unfolding free_slot_def find_Some_iff by (auto simp: nth_upt) (metis add_diff_inverse_nat less_diff_conv2 not_le add_less_cancel_left)+

lemma created_stable:
  assumes "stable s t" "ready s" "m_pBuffer s = NULL" "dir_chain s cs" "created t cs q e s'" "q < n_slots s cs"
  shows "created s cs q e s'"
proof -
  have i: "m_FATInfo t = m_FATInfo s" by (rule stable_info [OF assms(1)])
  have v: "\<And>j. svalid s j \<Longrightarrow> svalid t j \<and> sview t j = sview s j"
    using assms(1) same_restD(2) [of s t] by (auto simp: stable_def)
  have "svalid s (slot_sector (m_FATInfo s) cs q)" by (rule slot_sector_ok(2) [OF assms(4,6)])
  then show ?thesis using assms(5) v held_stable [OF assms(1-3)] by (auto simp: created_def i Let_def)
qed

lemma create_entry_loop_spec:
  assumes "ready s" "m_pBuffer s = NULL" "dir_chain s cs" "free_slot s cs k = Some q"
    and "FATDirectoryTime2FAT t = Some dt" "length F = 11" "ty \<noteq> 0"
  shows "\<exists>s'. create_entry_loop F t c ty (of_nat k) (cluster_at s cs k) p s = Some (Some (slot_offset q), s') \<and>
    created s cs q (stored_entry F dt c ty) s'"
  using assms(1-4)
proof (induction "n_slots s cs - k" arbitrary: k s p)
  case 0
  then show ?case by (simp add: free_slot_def)
next
  case (Suc n)
  have k: "k < n_slots s cs" "k \<noteq> n_slots s cs" "k \<le> n_slots s cs" using Suc.hyps(2) by simp_all
  obtain s1 where L: "dir_load (of_nat k) (cluster_at s cs k) s = Some s1" "held (slot_sector (m_FATInfo s) cs k) {} s s1"
    "dir_data s1 = sview s (slot_sector (m_FATInfo s) cs k)" "length (dir_data s1) = 512" "\<And>j. svalid s j \<Longrightarrow> sview s1 j = sview s j"
    "dir_data s1 ! slot_offset k = slot s cs k ! 0"
    using load_slot [OF Suc.prems(1-3) k(1)] by metis
  have e: "dir_at_end (of_nat k) (cluster_at s cs k) s = Some False" using dir_at_end_slot [OF Suc.prems(3) k(3)] k(2) by simp
  note run = create_entry_loop.simps [of F t c ty "of_nat k" "cluster_at s cs k" p s]
  note C = e L(1,6) dir_offset_slot [of k] FAT_DIR_NAME0_LAST_def FAT_DIR_NAME0_FREE_def
  show ?case
  proof (cases "slot s cs k ! 0 = 0 \<or> slot s cs k ! 0 = 0xE5")
    case True
    then have q: "q = k" using Suc.prems(4) free_slot_step [OF k(1)] by simp
    have l: "length (sview s (slot_sector (m_FATInfo s) cs k)) = 512" using L(3,4) by simp
    obtain s' where s': "init_entry F t c ty (slot_offset k) s1 = Some s'" "created s cs k (stored_entry F dt c ty) s'"
      using init_entry_spec [OF L(2,3) l L(5) assms(5-7) refl] by blast
    then show ?thesis unfolding run q using True by (auto simp add: C)
  next
    case False
    obtain s2 s3 where N: "dir_release s1 = Some s2" "m_FATInfo s2 = m_FATInfo s"
      "next_cluster (of_nat (k + 1)) (cluster_at s cs k) s2 = Some (cluster_at s cs (k + 1), s3)" "stable s s3" "m_pBuffer s3 = NULL"
      using skip_slot [OF Suc.prems(3) k(1) L(2,5)] by metis
    have i: "m_FATInfo s3 = m_FATInfo s" by (rule stable_info [OF N(4)])
    have r3: "ready s3" using N(4) by (simp add: stable_def)
    have n: "n = n_slots s3 cs - (k + 1)" using Suc.hyps(2) k(1) i by simp
    have f: "free_slot s3 cs (k + 1) = Some q"
      using Suc.prems(4) False free_slot_step [OF k(1)] stable_free_slot [OF N(4) Suc.prems(3)] by simp
    obtain p' where p': "create_entry_loop F t c ty (of_nat k) (cluster_at s cs k) p s =
        create_entry_loop F t c ty (of_nat (k + 1)) (cluster_at s3 cs (k + 1)) p' s3"
      unfolding run using False N(1,3) stable_cluster_at [OF N(4) Suc.prems(3)] by (simp add: C add.commute)
    obtain s' where "create_entry_loop F t c ty (of_nat (k + 1)) (cluster_at s3 cs (k + 1)) p' s3 = Some (Some (slot_offset q), s')"
      "created s3 cs q (stored_entry F dt c ty) s'"
      using Suc.hyps(1) [OF n r3 N(5) stable_dir_chain [OF N(4) Suc.prems(3)] f] by blast
    then show ?thesis
      using p' created_stable [OF N(4) Suc.prems(1-3)] free_slot_bound [OF Suc.prems(4)] by auto
  qed
qed


lemma Name2FAT_form:
  assumes "FATDirectoryName2FAT n = Some F"
  shows "length F = 11 \<and> F ! 0 \<noteq> 0"
proof (cases "n = [0x2E] \<or> n = [0x2E, 0x2E]")
  case True
  then show ?thesis using assms by (auto simp: FATDirectoryName2FAT_def blank_name_def FAT_DIR_NAME_LENGTH_def)
next
  case False
  then have "name_loop n blank_name 0 8 = Some F" using assms by (auto simp: FATDirectoryName2FAT_def split: option.splits if_splits)
  moreover have "\<forall>c\<in>set blank_name. stored_char c" "length blank_name = 11"
    by (simp_all add: blank_name_def stored_char_def FAT_DIR_NAME_LENGTH_def)
  ultimately have "\<forall>c\<in>set F. stored_char c" "length F = 11" using name_loop_stored [of n blank_name 0 8 F] by simp_all
  then have "length F = 11" "stored_char (F ! 0)" by simp_all
  then show ?thesis by (auto simp: stored_char_def name_char_def)
qed

lemma chain_first:
  assumes "dir_chain s cs"
  shows "sint (hd cs) \<ge> 2" "cluster_at s cs 0 = hd cs"
proof -
  note D = dir_chainD [OF assms]
  have "cluster_ok (m_FATInfo s) (hd cs)" using D(3,6) by (intro chain_cluster_ok [of s cs]) simp_all
  then have "2 \<le> unat (hd cs)" "unat (hd cs) < 0x0FFFFFFF"
    using fat_okD(5) [OF D(2) refl] by (auto simp: cluster_ok_def max_entry_def split: if_splits)
  then have "nat (uint (hd cs)) < 2147483648" "2 \<le> nat (uint (hd cs))" by simp_all
  then have "uint (hd cs) < 2147483648 \<and> 2 \<le> uint (hd cs)" by linarith
  then show "sint (hd cs) \<ge> 2" unfolding sint_u32 by simp
  show "cluster_at s cs 0 = hd cs" using D(6) by (simp add: cluster_at_def hd_conv_nth)
qed

lemma mult_add_inj:
  fixes n :: nat
  assumes "a * n + r = b * n + t" "r < n" "t < n"
  shows "a = b \<and> r = t"
proof -
  have "(a * n + r) div n = a" "(b * n + t) div n = b" using assms(2,3) by simp_all
  then show ?thesis using assms(1) by simp
qed

text \<open>Distinct entries lie in distinct sectors or at distinct offsets.\<close>

lemma slot_inj:
  assumes "dir_chain s cs" "j < n_slots s cs" "k < n_slots s cs"
    and "slot_sector (m_FATInfo s) cs j = slot_sector (m_FATInfo s) cs k" "slot_offset j = slot_offset k"
  shows "j = k"
proof -
  let ?i = "m_FATInfo s" and ?S = "slots (m_FATInfo s)" and ?n = "unat (m_nSectorsPerCluster (m_FATInfo s))"
  note D = dir_chainD [OF assms(1)]
  note A = slot_sector_ok(3,4) [OF assms(1,2)] and B = slot_sector_ok(3,4) [OF assms(1,3)]
  let ?a = "cs ! (j div ?S)" and ?b = "cs ! (k div ?S)"
  note P = first_sector_unat(1) [OF D(1) refl D(8) [OF assms(2)]] and Q = first_sector_unat(1) [OF D(1) refl D(8) [OF assms(3)]]
  have "(unat ?a - 2) * ?n + j mod ?S div 16 = (unat ?b - 2) * ?n + k mod ?S div 16"
    using A(1) B(1) P Q assms(4) by simp
  then have e: "unat ?a - 2 = unat ?b - 2" "j mod ?S div 16 = k mod ?S div 16"
    using mult_add_inj [OF _ A(2) B(2)] by blast+
  then have "?a = ?b" unfolding word_unat_eq_iff using D(8) [OF assms(2)] D(8) [OF assms(3)] by (auto simp: cluster_ok_def)
  then have d: "j div ?S = k div ?S"
    using chain_distinct [OF D(2,3)] D(7) [OF assms(2)] D(7) [OF assms(3)] by (simp add: nth_eq_iff_index_eq)
  have "16 dvd ?S" by (simp add: slots_def)
  then have "j mod ?S mod 16 = k mod ?S mod 16" using assms(5) by (simp add: mod_mod_cancel slot_offset_def)
  then have "j mod ?S = k mod ?S" using e(2) by (metis div_mult_mod_eq)
  then show ?thesis using d by (metis div_mult_mod_eq)
qed

text \<open>A change outside the tables keeps the chains.\<close>

lemma data_write_chain:
  assumes "dir_chain s cs" "same_rest s s'" "\<And>j. svalid s j \<Longrightarrow> unat j < unat (m_nFirstDataSector (m_FATInfo s)) \<Longrightarrow> sview s' j = sview s j"
  shows "dir_chain s' cs"
proof -
  note D = dir_chainD [OF assms(1)]
  note O = data_okD [OF D(1) refl]
  have i: "m_FATInfo s' = m_FATInfo s" by (rule same_rest_info(1) [OF assms(2)])
  have "fat_entry s' c = fat_entry s c" if c: "cluster_ok (m_FATInfo s) c" for c
  proof -
    let ?f = "FATInfoGetReadFAT (m_FATInfo s)" and ?S = "unat (m_nFATSize (m_FATInfo s))"
    have f: "?f < m_nNumberOfFATs (m_FATInfo s)" by (rule read_fat_ok [OF D(2)])
    note F = fat_sector_unat [OF D(2) c f]
    have "unat ?f * ?S + ?S \<le> unat (m_nNumberOfFATs (m_FATInfo s)) * ?S"
      using f mult_le_mono1 [of "unat ?f + 1" "unat (m_nNumberOfFATs (m_FATInfo s))" ?S] by (simp add: word_less_nat_alt)
    then have "unat (fat_sector (m_FATInfo s) ?f c) < unat (m_nFirstDataSector (m_FATInfo s))"
      using F(1) O(5) fat_byte_bound(1) [OF D(2) c] by linarith
    then show ?thesis using assms(3) [OF F(2)] by (simp add: fat_entry_def fat_at_def i)
  qed
  then have "chain s' cs" using chain_cluster_ok [OF D(3)] by (intro chain_cong [OF D(3)]) (simp_all add: i)
  then show ?thesis using same_rest_data_ok [OF assms(2) D(1)] D(4) by (simp add: dir_chain_def i)
qed

text \<open>What is left when the created entry has been released.\<close>

lemma created_release:
  assumes "dir_chain s cs" "q < n_slots s cs" "created s cs q e s1" "length e = 32" "length (sview s (slot_sector (m_FATInfo s) cs q)) = 512"
  obtains s2 where "FATDirectoryFreeEntry True s1 = Some s2" "ready s2" "same_rest s s2" "m_pBuffer s2 = NULL" "dir_chain s2 cs"
    "\<And>j. j < n_slots s cs \<Longrightarrow> slot s2 cs j = (if j = q then e else slot s cs j)"
    "\<And>j. svalid s j \<Longrightarrow> j \<noteq> slot_sector (m_FATInfo s) cs q \<Longrightarrow> sview s2 j = sview s j"
proof -
  let ?k = "slot_sector (m_FATInfo s) cs q" and ?d = "splice (slot_offset q) e (sview s (slot_sector (m_FATInfo s) cs q))"
  note D = dir_chainD [OF assms(1)]
  have C: "held ?k {m_pBuffer s1} s s1" "\<And>j. svalid s j \<Longrightarrow> sview s1 j = (if j = ?k then ?d else sview s j)"
    using assms(3) by (auto simp: created_def Let_def)
  obtain s2 where s2: "FATDirectoryFreeEntry True s1 = Some s2" "ready s2" "same_rest s s2" "suses s2 = suses s" "m_pBuffer s2 = NULL"
    "\<And>j. svalid s j \<Longrightarrow> sview s2 j = sview s1 j"
    using held_free [OF C(1), of True] by (metis subset_refl)
  have v: "\<And>j. svalid s j \<Longrightarrow> sview s2 j = (if j = ?k then ?d else sview s j)" using s2(6) C(2) by simp
  have i: "m_FATInfo s2 = m_FATInfo s" by (rule same_rest_info(1) [OF s2(3)])
  have "unat (m_nFirstDataSector (m_FATInfo s)) \<le> unat ?k"
    using slot_sector_ok(3) [OF assms(1,2)] first_sector_unat(1) [OF D(1) refl D(8) [OF assms(2)]] by simp
  then have ch: "dir_chain s2 cs" using v by (intro data_write_chain [OF assms(1) s2(3)]) auto
  have "slot s2 cs j = (if j = q then e else slot s cs j)" if j: "j < n_slots s cs" for j
  proof (cases "j = q \<or> slot_sector (m_FATInfo s) cs j \<noteq> ?k")
    case True
    then show ?thesis using v [OF slot_sector_ok(2) [OF assms(1) j]] splice_same [of "slot_offset q" e] assms(4,5) slot_offset_bound [of q]
      by (auto simp: slot_def i)
  next
    case False
    then have "slot_offset j \<noteq> slot_offset q" using slot_inj [OF assms(1) j assms(2)] by auto
    then have "slot_offset j + 32 \<le> slot_offset q \<or> slot_offset q + 32 \<le> slot_offset j" by (auto simp: slot_offset_def)
    then show ?thesis using False v [OF slot_sector_ok(2) [OF assms(1,2)]] assms(4,5) slot_offset_bound [of q]
      by (auto simp: slot_def i intro!: splice_other)
  qed
  then show thesis using that [OF s2(1-3,5) ch] v by simp
qed

lemma lookup_created:
  assumes "free_slot s cs 0 = Some q" "lookup_slot F s cs 0 = None" "slot_matches F e" "e ! 0 \<noteq> 0"
    and "m_FATInfo s2 = m_FATInfo s" "\<And>j. j < n_slots s cs \<Longrightarrow> slot s2 cs j = (if j = q then e else slot s cs j)"
  shows "lookup_slot F s2 cs 0 = Some q"
proof -
  note Q = free_slot_bound [OF assms(1)]
  have "\<not> slot_matches F (slot s cs j)" if j: "j < q" for j
  proof
    assume m: "slot_matches F (slot s cs j)"
    let ?P = "\<lambda>q. slot s cs q ! 0 = 0 \<or> slot_matches F (slot s cs q)"
    have "j \<in> set [0..<n_slots s cs]" using j Q by simp
    then obtain p where p: "find ?P [0..<n_slots s cs] = Some p" using m by (cases "find ?P [0..<n_slots s cs]") (auto simp: find_None_iff)
    have z: "slot s cs p ! 0 = 0" using assms(2) by (simp add: lookup_slot_def p split: if_splits)
    have z2: "\<forall>i<p. \<not> ?P i" "p < n_slots s cs" using p by (auto simp: find_Some_iff)
    then have "q \<le> p" using z Q by (meson le0 not_le)
    then show False using z2(1) m j by auto
  qed
  then have "find (\<lambda>p. slot s2 cs p ! 0 = 0 \<or> slot_matches F (slot s2 cs p)) [0..<n_slots s2 cs] = Some q"
    unfolding find_Some_iff using Q assms(3,5,6) by (intro exI [of _ q]) auto
  then show ?thesis using assms(4,6) Q by (simp add: lookup_slot_def)
qed

section \<open>A FAT32 volume with one file\<close>

definition boot_name :: "u8 list" where "boot_name = [0x42, 0x4F, 0x4F, 0x54] @ replicate 7 0x20"

definition dir_info :: TFatInfo where
  "dir_info = \<lparr>m_FATType = FAT32, m_nSectorsPerCluster = 1, m_nReservedSectors = 32, m_nNumberOfFATs = 2, m_nRootEntries = 0,
     m_nFATSize = 32, m_nTotalSectors = 4096, m_bFATMirroring = True, m_nActiveFAT = 0, m_nRootCluster = 2, m_nFSInfoSector = 1,
     m_nRootSectors = 0, m_nFirstDataSector = 96, m_nDataSectors = 4000, m_nClusters = 4000, m_nFreeCount = FREE_COUNT_UNKNOWN,
     m_nNextFreeCluster = 3\<rparr>"

definition dir_blocks :: "nat \<Rightarrow> u8 list" where
  "dir_blocks n = (if n = 95 \<or> n = 127 then zero_block[8 := 0xFF, 9 := 0xFF, 10 := 0xFF, 11 := 0x0F]
     else if n = 159 then splice 0 (boot_name @ [0x20] @ replicate 20 0) zero_block else zero_block)"

definition dir_fs :: fat_dir where
  "dir_fs = demo_mounted dir_blocks \<lparr>m_FATInfo = dir_info, m_pBuffer = NULL\<rparr>"


lemma dir_blocks_length: "length (dir_blocks n) = 512"
  by (simp add: dir_blocks_def zero_block_def boot_name_def)

lemmas dir_mounted = demo_mounted_ok [where bs = dir_blocks and x = "\<lparr>m_FATInfo = dir_info, m_pBuffer = NULL\<rparr>", OF dir_blocks_length, folded dir_fs_def]

lemma dir_fs_ready: "ready dir_fs"
proof -
  have "elem_at (m_pBufferMem (m_Cache dir_fs)) sizeof_TFATBuffer 0 \<in> set (sbufs dir_fs)"
    by (simp add: sector_bufs_def FAT_BUFFERS_def)
  then show ?thesis using dir_mounted(1,2,4) demo_card_ok(2) by (auto simp: ready_def)
qed

lemma more_dir: "fat_state.more (s :: fat_dir) = \<lparr>m_FATInfo = i, m_pBuffer = p\<rparr> \<Longrightarrow> m_FATInfo s = i \<and> m_pBuffer s = p"
  by (cases s) simp

lemma dir_fs_info [simp]: "m_FATInfo dir_fs = dir_info" "m_pBuffer dir_fs = NULL"
  using more_dir [OF dir_mounted(8)] by simp_all

lemma dir_fs_view: "unat k < 0x8000 \<Longrightarrow> sview dir_fs k = dir_blocks (63 + unat k)"
  by (rule dir_mounted(3)) (auto simp: BUFFER_NOSECTOR_def)

lemma dir_fs_ok: "data_ok dir_fs"
  by (simp add: data_ok_def fat_ok_def dir_mounted(5) dir_info_def entry_width_def max_entry_def partition_sectors_def demo_part_def)

lemma dir_fs_chain: "dir_chain dir_fs [2]"
proof -
  have "fat_sector dir_info 0 2 = 32" by (simp add: fat_sector_def fat_byte_def dir_info_def entry_width_def)
  moreover have "sview dir_fs 32 = zero_block[8 := 0xFF, 9 := 0xFF, 10 := 0xFF, 11 := 0x0F]" by (simp add: dir_fs_view dir_blocks_def)
  ultimately have "fat_entry dir_fs 2 = 0x0FFFFFFF"
    by (simp add: fat_entry_def fat_at_def FATInfoGetReadFAT_def)
      (simp add: dir_info_def entry_of_def fat_byte_def entry_width_def le32_def zero_block_def nth_list_update)
  then show ?thesis using dir_fs_ok by (simp add: dir_chain_def slots_def) (simp add: dir_info_def cluster_ok_def eoc_ge_def)
qed

lemma dir_fs_slots: "slot dir_fs [2] 0 = boot_name @ [0x20] @ replicate 20 0" "k < 16 \<Longrightarrow> k \<noteq> 0 \<Longrightarrow> slot dir_fs [2] k = replicate 32 0"
proof -
  have "slot_sector dir_info [2] k = 96" if "k < 16" for k
    using that by (simp add: slot_sector_def first_sector_def slots_def dir_info_def)
  moreover have "sview dir_fs 96 = splice 0 (boot_name @ [0x20] @ replicate 20 0) zero_block" by (simp add: dir_fs_view dir_blocks_def)
  ultimately show "slot dir_fs [2] 0 = boot_name @ [0x20] @ replicate 20 0" "k < 16 \<Longrightarrow> k \<noteq> 0 \<Longrightarrow> slot dir_fs [2] k = replicate 32 0"
    using splice_same [of 0 "boot_name @ [0x20] @ replicate 20 0" zero_block]
      splice_other [of 0 "boot_name @ [0x20] @ replicate 20 0" zero_block "32 * k" 32]
    by (auto simp: slot_def slot_offset_def boot_name_def zero_block_def min_def)
qed

section \<open>Properties\<close>

text \<open>C21: \<open>FATDirectoryGetEntry\<close> on a FAT32 volume implements the search of the reference: it returns, whatever the length of the
  chain, and yields the first entry with the name that is not behind the end mark, in the buffer that the directory object
  then holds, or nothing. A name that cannot be stored is not searched for. Nothing a client can see changes.\<close>

theorem get_entry_finds:
  assumes "ready s" "m_pBuffer s = NULL" "dir_chain s cs"
  shows "\<exists>r s'. FATDirectoryGetEntry (hd cs) n s = Some (r, s') \<and>
    (case FATDirectoryName2FAT n of None \<Rightarrow> r = None \<and> s' = s | Some F \<Rightarrow> lookup_ok s cs (lookup_slot F s cs 0) r s')"
proof (cases "FATDirectoryName2FAT n")
  case (Some F)
  have t: "FATInfoGetFATType (m_FATInfo s) = Some FAT32"
    using data_okD(2) [OF dir_chainD(1) [OF assms(3)] refl] by (simp add: FATInfoGetFATType_def)
  show ?thesis using get_entry_loop_spec [OF assms, of 0 F] chain_first [OF assms(3)] Some t
    by (simp add: FATDirectoryGetEntry_def)
qed (use chain_first [OF assms(3)] in \<open>simp add: FATDirectoryGetEntry_def\<close>)

lemma boot_stored: "FATDirectoryName2FAT (map of_char ''boot'') = Some boot_name"
proof -
  have "FATDirectoryName2FAT (dotted (map of_char ''boot'') []) = Some (stored_name (map of_char ''boot'') [])"
    by (rule Name2FAT_stored) (auto simp: name_char_def s_pBadChars_def)
  then show ?thesis by (simp add: dotted_def stored_name_def boot_name_def to_upper_def replicate_add [symmetric])
qed

theorem get_entry_finds_witness:
  "\<exists>s'. FATDirectoryGetEntry 2 (map of_char ''boot'') dir_fs = Some (Some 0, s') \<and> Dir_Name (dir_data s') 0 = boot_name"
proof -
  have m: "lookup_slot boot_name dir_fs [2] 0 = Some 0"
    by (subst lookup_slot_step) (simp_all add: dir_fs_slots(1) slots_def dir_info_def slot_matches_def boot_name_def nth_append)
  have "sview dir_fs 96 = splice 0 (boot_name @ [0x20] @ replicate 20 0) zero_block" "slot_sector dir_info [2] 0 = 96"
    by (simp add: dir_fs_view dir_blocks_def, simp add: slot_sector_def first_sector_def slots_def dir_info_def)
  with get_entry_finds [OF dir_fs_ready _ dir_fs_chain, of "map of_char ''boot''"] m show ?thesis
    unfolding boot_stored by (auto simp: lookup_ok_def slot_offset_def Dir_Name_def splice_def FAT_DIR_NAME_LENGTH_def boot_name_def)
qed

text \<open>C22: An entry that \<open>FATDirectoryCreateEntry\<close> has put into a directory with a free entry, in which the name did not occur, and that has been
  released as changed, is found again by \<open>FATDirectoryGetEntry\<close> under the same name, with the bytes that were
  stored. The first free entry is used; no other entry and no other sector changes. The type is not 0, that of a new directory, for which
  the code also clears the sectors of its cluster; it is that of a file or of a dot entry. The first byte of the stored name
  must not be \<open>0xE5\<close>, the mark of a free entry, which the code stores as it is.\<close>

theorem create_then_get:
  assumes "ready s" "m_pBuffer s = NULL" "dir_chain s cs" "FATDirectoryName2FAT n = Some F" "F ! 0 \<noteq> 0xE5"
    and "lookup_slot F s cs 0 = None" "free_slot s cs 0 = Some q" "ty \<noteq> 0"
  shows "\<exists>dt s1 s2 s3. FATDirectoryTime2FAT t = Some dt \<and> FATDirectoryCreateEntry t (hd cs) c ty n s = Some (Some (slot_offset q), s1) \<and>
    FATDirectoryFreeEntry True s1 = Some s2 \<and> ready s2 \<and> m_pBuffer s2 = NULL \<and> dir_chain s2 cs \<and>
    FATDirectoryGetEntry (hd cs) n s2 = Some (Some (slot_offset q), s3) \<and>
    take 32 (drop (slot_offset q) (dir_data s3)) = stored_entry F dt c ty \<and>
    (\<forall>j < n_slots s cs. j \<noteq> q \<longrightarrow> slot s2 cs j = slot s cs j) \<and>
    (\<forall>j. svalid s j \<longrightarrow> j \<noteq> slot_sector (m_FATInfo s) cs q \<longrightarrow> sview s2 j = sview s j)"
proof -
  have F: "length F = 11" "F ! 0 \<noteq> 0" using Name2FAT_form [OF assms(4)] by simp_all
  have t: "FATInfoGetFATType (m_FATInfo s) = Some FAT32"
    using data_okD(2) [OF dir_chainD(1) [OF assms(3)] refl] by (simp add: FATInfoGetFATType_def)
  note Q = free_slot_bound [OF assms(7)]
  obtain dt where dt: "FATDirectoryTime2FAT t = Some dt" using Time2FAT_total by blast
  let ?e = "stored_entry F dt c ty"
  obtain s1 where s1: "create_entry_loop F t c ty 0 (hd cs) 0 s = Some (Some (slot_offset q), s1)" "created s cs q ?e s1"
    using create_entry_loop_spec [OF assms(1-3,7) dt F(1) assms(8)] chain_first(2) [OF assms(3)] by fastforce
  have l: "length (sview s (slot_sector (m_FATInfo s) cs q)) = 512"
    using load_slot [OF assms(1-3)] Q by metis
  obtain s2 where s2: "FATDirectoryFreeEntry True s1 = Some s2" "ready s2" "same_rest s s2" "m_pBuffer s2 = NULL" "dir_chain s2 cs"
    "\<And>j. j < n_slots s cs \<Longrightarrow> slot s2 cs j = (if j = q then ?e else slot s cs j)"
    "\<And>j. svalid s j \<Longrightarrow> j \<noteq> slot_sector (m_FATInfo s) cs q \<Longrightarrow> sview s2 j = sview s j"
    using created_release [OF assms(3) _ s1(2) stored_entry_length [OF F(1)] l] Q by metis
  have i: "m_FATInfo s2 = m_FATInfo s" by (rule same_rest_info(1) [OF s2(3)])
  have "slot_matches F ?e" "?e ! 0 \<noteq> 0"
    using stored_entry_fields [OF F(1), of dt c ty] F(2) assms(5)
    by (simp_all add: slot_matches_def FAT_DIR_ATTR_DIRECTORY_def FAT_DIR_ATTR_ARCHIVE_def)
  then have "lookup_slot F s2 cs 0 = Some q" by (rule lookup_created [OF assms(7,6) _ _ i s2(6)])
  then obtain s3 where s3: "get_entry_loop F 0 (hd cs) s2 = Some (Some (slot_offset q), s3)"
    "dir_data s3 = sview s2 (slot_sector (m_FATInfo s2) cs q)"
    using get_entry_loop_spec [OF s2(2,4,5), of 0 F] chain_first(2) [OF s2(5)] by (auto simp: lookup_ok_def)
  have "slot s2 cs q = ?e" using s2(6) Q by simp
  then have "take 32 (drop (slot_offset q) (dir_data s3)) = ?e" by (simp add: slot_def s3(2))
  with dt s1(1) s2 s3(1) t assms(4) chain_first(1) [OF assms(3)] show ?thesis
    by (intro exI conjI) (auto simp: FATDirectoryCreateEntry_def FATDirectoryGetEntry_def i)
qed

theorem create_then_get_witness:
  "\<exists>s1 s2 s3. FATDirectoryCreateEntry 0 2 0 2 (map of_char ''log'') dir_fs = Some (Some 32, s1) \<and>
     FATDirectoryFreeEntry True s1 = Some s2 \<and> FATDirectoryGetEntry 2 (map of_char ''log'') s2 = Some (Some 32, s3) \<and>
     slot s2 [2] 0 = boot_name @ [0x20] @ replicate 20 0"
proof -
  let ?F = "[0x4C, 0x4F, 0x47] @ replicate 8 (0x20::u8)"
  have "FATDirectoryName2FAT (dotted (map of_char ''log'') []) = Some (stored_name (map of_char ''log'') [])"
    by (rule Name2FAT_stored) (auto simp: name_char_def s_pBadChars_def)
  then have F: "FATDirectoryName2FAT (map of_char ''log'') = Some ?F"
    by (simp add: dotted_def stored_name_def to_upper_def replicate_add [symmetric])
  have n: "slots dir_info = 16" by (simp add: slots_def dir_info_def)
  have s: "lookup_slot ?F dir_fs [2] 0 = None" "free_slot dir_fs [2] 0 = Some 1"
    by (simp_all add: lookup_slot_step free_slot_step n dir_fs_slots slot_matches_def boot_name_def)
  have "slot_offset 1 = 32" by (simp add: slot_offset_def)
  with create_then_get [OF dir_fs_ready _ dir_fs_chain F _ s, of 2 0 0] n dir_fs_slots(1) show ?thesis by auto
qed

end
