(* ===== verification/Str.thy ===== *)
theory Str
  imports Alloc Stdlib "HOL-Library.Sublist"
begin

text \<open>
  The functions on memory and strings of \<^verbatim>\<open>env/lib/string.c\<close>, over the bytes of the address space. A pointer is a
  32-bit address and moves with wrap-around; \<open>s8\<close> is the unsigned \<open>char\<close> of the compiler. The loops that only end
  at a terminator are partial functions.
\<close>

section \<open>Model\<close>

type_synonym ram = "u32 \<Rightarrow> u8"

primrec memset_loop :: "nat \<Rightarrow> ptr \<Rightarrow> u8 \<Rightarrow> ram \<Rightarrow> ram" where
  "memset_loop 0 p v m = m"
| "memset_loop (Suc n) p v m = memset_loop n (p + 1) v (m(p := v))"

definition memset :: "ptr \<Rightarrow> u32 \<Rightarrow> u32 \<Rightarrow> ram \<Rightarrow> ptr \<times> ram" where
  "memset pBuffer nValue nLength m = (pBuffer, memset_loop (unat nLength) pBuffer (ucast nValue) m)"

primrec copy_up :: "nat \<Rightarrow> ptr \<Rightarrow> ptr \<Rightarrow> ram \<Rightarrow> ram" where
  "copy_up 0 pd ps m = m"
| "copy_up (Suc n) pd ps m = copy_up n (pd + 1) (ps + 1) (m(pd := m ps))"

definition memcpy :: "ptr \<Rightarrow> ptr \<Rightarrow> u32 \<Rightarrow> ram \<Rightarrow> ptr \<times> ram" where
  "memcpy pDest pSrc nLength m = (pDest, copy_up (unat nLength) pDest pSrc m)"

primrec memcmp_loop :: "nat \<Rightarrow> ptr \<Rightarrow> ptr \<Rightarrow> ram \<Rightarrow> int" where
  "memcmp_loop 0 p1 p2 m = 0"
| "memcmp_loop (Suc n) p1 p2 m =
     (if m p1 > m p2 then 1 else if m p1 < m p2 then -1 else memcmp_loop n (p1 + 1) (p2 + 1) m)"

definition memcmp :: "ptr \<Rightarrow> ptr \<Rightarrow> u32 \<Rightarrow> ram \<Rightarrow> int" where
  "memcmp pBuffer1 pBuffer2 nLength m = memcmp_loop (unat nLength) pBuffer1 pBuffer2 m"

partial_function (option) strlen_loop :: "ptr \<Rightarrow> u32 \<Rightarrow> ram \<Rightarrow> u32 option" where
  "strlen_loop pString nResult m = (if m pString = 0 then Some nResult else strlen_loop (pString + 1) (nResult + 1) m)"

definition strlen :: "ptr \<Rightarrow> ram \<Rightarrow> u32 option" where
  "strlen pString m = strlen_loop pString 0 m"

partial_function (option) strcmp :: "ptr \<Rightarrow> ptr \<Rightarrow> ram \<Rightarrow> int option" where
  "strcmp p1 p2 m =
     (if m p1 \<noteq> 0 \<and> m p2 \<noteq> 0
      then if m p1 > m p2 then Some 1 else if m p1 < m p2 then Some (-1) else strcmp (p1 + 1) (p2 + 1) m
      else Some (if m p1 > m p2 then 1 else if m p1 < m p2 then -1 else 0))"

partial_function (option) strcpy_loop :: "ptr \<Rightarrow> ptr \<Rightarrow> ram \<Rightarrow> ram option" where
  "strcpy_loop p pSrc m = (if m pSrc = 0 then Some (m(p := 0)) else strcpy_loop (p + 1) (pSrc + 1) (m(p := m pSrc)))"

definition strcpy :: "ptr \<Rightarrow> ptr \<Rightarrow> ram \<Rightarrow> (ptr \<times> ram) option" where
  "strcpy pDest pSrc m = do { m' \<leftarrow> strcpy_loop pDest pSrc m; Some (pDest, m') }"

text \<open>The loop of \<open>strncpy\<close>, and of \<open>strncat\<close> behind the end of the first string. No terminator is written when the
  count is used up.\<close>

primrec strncpy_loop :: "nat \<Rightarrow> ptr \<Rightarrow> ptr \<Rightarrow> ram \<Rightarrow> ram" where
  "strncpy_loop 0 pDest pSrc m = m"
| "strncpy_loop (Suc n) pDest pSrc m =
     (if m pSrc = 0 then m(pDest := 0) else strncpy_loop n (pDest + 1) (pSrc + 1) (m(pDest := m pSrc)))"

definition strncpy :: "ptr \<Rightarrow> ptr \<Rightarrow> u32 \<Rightarrow> ram \<Rightarrow> ptr \<times> ram" where
  "strncpy pDest pSrc nMaxLen m = (pDest, strncpy_loop (unat nMaxLen) pDest pSrc m)"

partial_function (option) str_end :: "ptr \<Rightarrow> ram \<Rightarrow> ptr option" where
  "str_end p m = (if m p = 0 then Some p else str_end (p + 1) m)"

definition strcat :: "ptr \<Rightarrow> ptr \<Rightarrow> ram \<Rightarrow> (ptr \<times> ram) option" where
  "strcat pDest pSrc m = do { p \<leftarrow> str_end pDest m; m' \<leftarrow> strcpy_loop p pSrc m; Some (pDest, m') }"

definition strncat :: "ptr \<Rightarrow> ptr \<Rightarrow> u32 \<Rightarrow> ram \<Rightarrow> (ptr \<times> ram) option" where
  "strncat d s sz m = do { p \<leftarrow> str_end d m; Some (d, strncpy_loop (unat sz) p s m) }"

definition char2int :: "u8 \<Rightarrow> u32" where
  "char2int chValue = (let nResult = ucast chValue in if nResult > 0x7F then nResult OR (- 0x100) else nResult)"

definition le2be16 :: "u16 \<Rightarrow> u16" where
  "le2be16 v = push_bit 8 (v AND 0x00FF) OR drop_bit 8 (v AND 0xFF00)"

definition le2be32 :: "u32 \<Rightarrow> u32" where
  "le2be32 v = push_bit 24 (v AND 0x000000FF) OR push_bit 8 (v AND 0x0000FF00) OR drop_bit 8 (v AND 0x00FF0000) OR
     drop_bit 24 (v AND 0xFF000000)"

primrec copy_down :: "nat \<Rightarrow> ptr \<Rightarrow> ptr \<Rightarrow> ram \<Rightarrow> ram" where
  "copy_down 0 dp sp m = m"
| "copy_down (Suc n) dp sp m = copy_down n (dp - 1) (sp - 1) (m(dp - 1 := m (sp - 1)))"

definition memmove :: "ptr \<Rightarrow> ptr \<Rightarrow> u32 \<Rightarrow> ram \<Rightarrow> ptr \<times> ram" where
  "memmove d s sz m = (d, if d > s then copy_down (unat sz) (d + sz) (s + sz) m else copy_up (unat sz) d s m)"

partial_function (option) strchr :: "ptr \<Rightarrow> u32 \<Rightarrow> ram \<Rightarrow> ptr option" where
  "strchr d c m = (if c = ucast (m d) then Some d else if m d = 0 then Some NULL else strchr (d + 1) c m)"

primrec strncmp_loop :: "nat \<Rightarrow> ptr \<Rightarrow> ptr \<Rightarrow> ram \<Rightarrow> int" where
  "strncmp_loop 0 d s m = 0"
| "strncmp_loop (Suc n) d s m =
     (if m d = 0 \<or> m d \<noteq> m s then uint (m d) - uint (m s) else strncmp_loop n (d + 1) (s + 1) m)"

definition strncmp :: "ptr \<Rightarrow> ptr \<Rightarrow> u32 \<Rightarrow> ram \<Rightarrow> int" where
  "strncmp d s sz m = strncmp_loop (unat sz) d s m"

partial_function (option) rchr_loop :: "ptr \<Rightarrow> ptr \<Rightarrow> u32 \<Rightarrow> ram \<Rightarrow> ptr option" where
  "rchr_loop tmp d c m =
     (if tmp \<le> d then if c = ucast (m d) then Some d else rchr_loop tmp (d - 1) c m else Some NULL)"

definition strrchr :: "ptr \<Rightarrow> u32 \<Rightarrow> ram \<Rightarrow> ptr option" where
  "strrchr d c m = do { e \<leftarrow> str_end d m; rchr_loop d e c m }"

text \<open>The inner loop of \<open>strstr\<close>: a match ends at the end of either string.\<close>

partial_function (option) match_loop :: "ptr \<Rightarrow> ptr \<Rightarrow> ram \<Rightarrow> bool option" where
  "match_loop d s m =
     (if m d = m s then if m (d + 1) = 0 \<or> m (s + 1) = 0 then Some True else match_loop (d + 1) (s + 1) m else Some False)"

partial_function (option) strstr :: "ptr \<Rightarrow> ptr \<Rightarrow> ram \<Rightarrow> ptr option" where
  "strstr d bgn m =
     (if m d = 0 then Some NULL else do { b \<leftarrow> match_loop d bgn m; if b then Some d else strstr (d + 1) bgn m })"

text \<open>\<open>strtok_r\<close>: the bit map of the delimiters and the terminator, the loops over the string, and \<open>last_str\<close>, the
  static variable.\<close>

definition map_bit :: "u8 list \<Rightarrow> u8 \<Rightarrow> bool" where
  "map_bit mp c \<longleftrightarrow> mp ! unat (drop_bit 3 c) AND push_bit (unat (c AND 7)) 1 \<noteq> 0"

partial_function (option) tok_map :: "ptr \<Rightarrow> u8 list \<Rightarrow> ram \<Rightarrow> u8 list option" where
  "tok_map ctrl mp m =
     (let c = m ctrl; i = unat (drop_bit 3 c); mp = mp[i := mp ! i OR push_bit (unat (c AND 7)) 1] in
      if c = 0 then Some mp else tok_map (ctrl + 1) mp m)"

partial_function (option) tok_skip :: "u8 list \<Rightarrow> ptr \<Rightarrow> ram \<Rightarrow> ptr option" where
  "tok_skip mp str m = (if map_bit mp (m str) \<and> m str \<noteq> 0 then tok_skip mp (str + 1) m else Some str)"

partial_function (option) tok_scan :: "u8 list \<Rightarrow> ptr \<Rightarrow> ram \<Rightarrow> (ptr \<times> ram) option" where
  "tok_scan mp str m =
     (if m str = 0 then Some (str, m)
      else if map_bit mp (m str) then Some (str + 1, m(str := 0))
      else tok_scan mp (str + 1) m)"

definition strtok_r :: "ptr \<Rightarrow> ptr \<Rightarrow> ptr \<Rightarrow> ram \<Rightarrow> (ptr \<times> ptr \<times> ram) option" where
  "strtok_r string_org demial last_str m = do {
     mp \<leftarrow> tok_map demial (replicate 32 0) m;
     str \<leftarrow> Some (if string_org \<noteq> NULL then string_org else last_str);
     string_org \<leftarrow> tok_skip mp str m;
     (str, m) \<leftarrow> tok_scan mp string_org m;
     Some (if string_org = str then NULL else string_org, str, m) }"

definition strdup :: "ptr \<Rightarrow> alloc_state \<Rightarrow> ram \<Rightarrow> (ptr \<times> alloc_state \<times> ram) option" where
  "strdup s h m =
     (if s = NULL then Some (NULL, h, m)
      else do {
        n \<leftarrow> strlen s m;
        (p, h) \<leftarrow> Some (malloc (n + 1) h);
        if p \<noteq> NULL then do { (q, m) \<leftarrow> strcpy p s m; Some (q, h, m) } else Some (NULL, h, m) })"

section \<open>Copying\<close>

lemma unat_plus_1: "unat (p::u32) + 1 < 2 ^ 32 \<Longrightarrow> unat (p + 1) = unat p + 1"
  by (simp add: unat_word_ariths)

text \<open>The range of \<open>n\<close> bytes from \<open>d\<close> on, which does not wrap.\<close>

definition in_range :: "u32 \<Rightarrow> nat \<Rightarrow> u32 \<Rightarrow> bool" where
  "in_range d n a \<longleftrightarrow> unat d \<le> unat a \<and> unat a < unat d + n"

lemma copy_up_spec:
  assumes "unat d + n \<le> 2 ^ 32" "unat s + n \<le> 2 ^ 32" "unat d \<le> unat s \<or> unat s + n \<le> unat d"
  shows "copy_up n d s m = (\<lambda>a. if in_range d n a then m (s + (a - d)) else m a)"
  using assms
proof (induction n arbitrary: d s m)
  case 0
  then show ?case by (auto simp: in_range_def fun_eq_iff)
next
  case (Suc n)
  show ?case
  proof (cases n)
    case 0
    moreover have "in_range d (Suc 0) a \<longleftrightarrow> a = d" for a by (auto simp: in_range_def word_unat_eq_iff)
    ultimately show ?thesis by (auto simp: fun_eq_iff)
  next
    case (Suc k)
    then have u: "unat (d + 1) = unat d + 1" "unat (s + 1) = unat s + 1" using Suc.prems(1,2) unat_plus_1 [of d] unat_plus_1 [of s] by simp_all
    have IH: "copy_up n (d + 1) (s + 1) (m(d := m s)) =
        (\<lambda>a. if in_range (d + 1) n a then (m(d := m s)) (s + 1 + (a - (d + 1))) else (m(d := m s)) a)"
      using Suc.prems u by (intro Suc.IH) auto
    have "(if in_range (d + 1) n a then (m(d := m s)) (s + 1 + (a - (d + 1))) else (m(d := m s)) a) =
        (if in_range d (Suc n) a then m (s + (a - d)) else m a)" for a
    proof -
      have "a = d \<or> in_range (d + 1) n a \<or> \<not> in_range d (Suc n) a \<and> a \<noteq> d \<and> \<not> in_range (d + 1) n a"
        unfolding in_range_def u word_unat_eq_iff [of a d] by linarith
      then consider "a = d" | "in_range (d + 1) n a" | "\<not> in_range d (Suc n) a" "a \<noteq> d" "\<not> in_range (d + 1) n a" by blast
      then show ?thesis
      proof cases
        case 2
        have ad: "unat (a - d) = unat a - unat d" "unat a - unat d < Suc n" using 2 u by (auto simp: in_range_def unat_sub_if')
        then have "unat (s + (a - d)) = unat s + (unat a - unat d)" using Suc.prems(2) by (simp add: unat_word_ariths)
        then have "s + (a - d) \<noteq> d" using Suc.prems(3) 2 u by (auto simp: in_range_def word_unat_eq_iff)
        then show ?thesis using 2 u by (auto simp: in_range_def)
      qed (auto simp: in_range_def u)
    qed
    then show ?thesis using IH by (simp add: fun_eq_iff)
  qed
qed

lemma copy_down_spec:
  assumes "unat d + n \<le> 2 ^ 32" "unat s + n \<le> 2 ^ 32" "unat s \<le> unat d"
  shows "copy_down n (d + of_nat n) (s + of_nat n) m = (\<lambda>a. if in_range d n a then m (s + (a - d)) else m a)"
  using assms
proof (induction n arbitrary: m)
  case 0
  then show ?case by (auto simp: in_range_def fun_eq_iff)
next
  case (Suc n)
  let ?m = "m(d + of_nat n := m (s + of_nat n))"
  have u: "unat (d + of_nat n) = unat d + n" "unat (s + of_nat n) = unat s + n"
    using Suc.prems(1,2) by (simp_all add: unat_word_ariths unat_of_nat)
  have IH: "copy_down n (d + of_nat n) (s + of_nat n) ?m = (\<lambda>a. if in_range d n a then ?m (s + (a - d)) else ?m a)"
    using Suc.prems by (intro Suc.IH) auto
  have "(if in_range d n a then ?m (s + (a - d)) else ?m a) = (if in_range d (Suc n) a then m (s + (a - d)) else m a)" for a
  proof (cases "in_range d n a")
    case True
    then have "unat (a - d) = unat a - unat d" "unat a - unat d < n" by (auto simp: in_range_def unat_sub_if')
    moreover from this have "unat (s + (a - d)) = unat s + (unat a - unat d)" using Suc.prems(2) by (simp add: unat_word_ariths)
    ultimately have "s + (a - d) \<noteq> d + of_nat n" using Suc.prems(3) u by (auto simp: word_unat_eq_iff)
    then show ?thesis using True by (auto simp: in_range_def)
  next
    case False
    have "in_range d (Suc n) a \<longleftrightarrow> a = d + of_nat n" using False u by (auto simp: in_range_def word_unat_eq_iff)
    then show ?thesis using False by auto
  qed
  then show ?case using IH by (simp add: fun_eq_iff algebra_simps)
qed

section \<open>Strings in memory\<close>

primrec str_at :: "ram \<Rightarrow> ptr \<Rightarrow> cstr \<Rightarrow> bool" where
  "str_at m p [] \<longleftrightarrow> m p = 0"
| "str_at m p (c # cs) \<longleftrightarrow> m p = c \<and> c \<noteq> 0 \<and> str_at m (p + 1) cs"

lemma strlen_spec: "str_at m p cs \<Longrightarrow> strlen_loop p n m = Some (n + of_nat (length cs))"
  by (induction cs arbitrary: p n) (subst strlen_loop.simps; simp add: algebra_simps)+

lemma str_end_spec: "str_at m p cs \<Longrightarrow> str_end p m = Some (p + of_nat (length cs))"
  by (induction cs arbitrary: p) (subst str_end.simps; simp add: algebra_simps)+

lemma match_loop_spec:
  "str_at m d xs \<Longrightarrow> str_at m s ys \<Longrightarrow> xs \<noteq> [] \<Longrightarrow>
    match_loop d s m = Some (ys \<noteq> [] \<and> (prefix ys xs \<or> prefix xs ys))"
proof (induction xs arbitrary: d s ys)
  case (Cons x xs)
  show ?case
  proof (cases ys)
    case Nil
    then show ?thesis using Cons.prems by (subst match_loop.simps) auto
  next
    case ys: (Cons y zs)
    have z: "m (d + 1) = 0 \<longleftrightarrow> xs = []" using Cons.prems(1) by (cases xs) auto
    have z': "m (s + 1) = 0 \<longleftrightarrow> zs = []" using Cons.prems(2) ys by (cases zs) auto
    show ?thesis
    proof (cases "xs = [] \<or> zs = []")
      case True
      then show ?thesis using Cons.prems z z' ys by (subst match_loop.simps) auto
    next
      case False
      then show ?thesis using Cons.prems z z' ys Cons.IH [of "d + 1" "s + 1" zs] by (subst match_loop.simps) auto
    qed
  qed
qed simp

definition partial_match :: "cstr \<Rightarrow> cstr \<Rightarrow> bool" where
  "partial_match n h \<longleftrightarrow> n \<noteq> [] \<and> (prefix n h \<or> prefix h n)"

lemma strstr_loop:
  "str_at m d xs \<Longrightarrow> str_at m s ys \<Longrightarrow>
    strstr d s m = Some (case find (\<lambda>i. partial_match ys (drop i xs)) [0..<length xs] of None \<Rightarrow> NULL | Some i \<Rightarrow> d + of_nat i)"
proof (induction xs arbitrary: d)
  case Nil
  then show ?case by (subst strstr.simps) simp
next
  case (Cons x xs)
  have f: "find (\<lambda>i. partial_match ys (drop i (x # xs))) [0..<length (x # xs)] =
      (if partial_match ys (x # xs) then Some 0 else map_option Suc (find (\<lambda>i. partial_match ys (drop i xs)) [0..<length xs]))"
  proof -
    have "find P (map Suc zs) = map_option Suc (find (P \<circ> Suc) zs)" for P and zs :: "nat list" by (induction zs) auto
    then show ?thesis by (simp add: upt_conv_Cons map_Suc_upt [symmetric] o_def del: upt_Suc)
  qed
  have "match_loop d s m = Some (partial_match ys (x # xs))"
    using match_loop_spec [OF Cons.prems] by (auto simp: partial_match_def)
  then show ?case using Cons.prems Cons.IH [of "d + 1"] unfolding f
    by (subst strstr.simps) (auto split: option.split simp: algebra_simps)
qed

lemma str_at_nth:
  "str_at m p xs \<longleftrightarrow> (\<forall>i<length xs. m (p + of_nat i) = xs ! i \<and> xs ! i \<noteq> 0) \<and> m (p + of_nat (length xs)) = 0"
proof (induction xs arbitrary: p)
  case (Cons x xs)
  have "(\<forall>i<length (x # xs). m (p + of_nat i) = (x # xs) ! i \<and> (x # xs) ! i \<noteq> 0) \<longleftrightarrow>
      m p = x \<and> x \<noteq> 0 \<and> (\<forall>i<length xs. m (p + 1 + of_nat i) = xs ! i \<and> xs ! i \<noteq> 0)"
    by (auto simp: less_Suc_eq_0_disj algebra_simps)
  then show ?case by (simp add: Cons.IH algebra_simps)
qed simp

lemma str_at_short: "str_at m p xs \<Longrightarrow> length xs < 2 ^ 32"
proof (rule ccontr)
  assume s: "str_at m p xs" and "\<not> length xs < 2 ^ 32"
  then have "length xs mod 2 ^ 32 < length xs" by (simp add: less_le_trans [OF mod_less_divisor])
  moreover have "(of_nat (length xs mod 2 ^ 32) :: u32) = of_nat (length xs)"
    by (simp add: word_unat_eq_iff unat_of_nat)
  ultimately show False using s by (auto simp: str_at_nth)
qed

lemma of_nat_eq_small: "i < 2 ^ 32 \<Longrightarrow> j < 2 ^ 32 \<Longrightarrow> (of_nat i :: u32) = of_nat j \<longleftrightarrow> i = j"
  by (auto simp: word_unat_eq_iff unat_of_nat)

lemma str_at_cut:
  assumes "str_at m p (t @ x # r)" and q: "q = p + of_nat (length t)"
  shows "str_at (m(q := 0)) p t" "str_at (m(q := 0)) (q + 1) r"
proof -
  have l: "length (t @ x # r) < 2 ^ 32" by (rule str_at_short [OF assms(1)])
  have N: "m (p + of_nat i) = (t @ x # r) ! i \<and> (t @ x # r) ! i \<noteq> 0" if "i < length t + Suc (length r)" for i
    using assms(1) that by (simp add: str_at_nth)
  have E: "m (p + of_nat (length t + Suc (length r))) = 0" using assms(1) by (simp add: str_at_nth)
  have ne: "p + of_nat i \<noteq> q" if "i \<noteq> length t" "i \<le> length t + Suc (length r)" "length t + Suc (length r) < 2 ^ 32" for i
    using that q by (simp add: of_nat_eq_small)
  show "str_at (m(q := 0)) p t"
    unfolding str_at_nth
  proof (intro conjI allI impI)
    fix i
    assume "i < length t"
    then show "(m(q := 0)) (p + of_nat i) = t ! i" "t ! i \<noteq> 0" using N [of i] ne [of i] l by (simp_all add: nth_append)
  qed (simp add: q)
  have "m (q + 1 + of_nat i) = r ! i \<and> r ! i \<noteq> 0 \<and> q + 1 + of_nat i \<noteq> q" if "i < length r" for i
    using N [of "length t + Suc i"] ne [of "length t + Suc i"] that l q by (simp add: nth_append algebra_simps)
  moreover have "m (q + 1 + of_nat (length r)) = 0 \<and> q + 1 + of_nat (length r) \<noteq> q"
    using E ne [of "length t + Suc (length r)"] l q by (simp add: algebra_simps)
  ultimately show "str_at (m(q := 0)) (q + 1) r" unfolding str_at_nth by auto
qed

section \<open>Tokens\<close>

lemma map_bit_bit: "map_bit mp c \<longleftrightarrow> bit (mp ! unat (drop_bit 3 c)) (unat (c AND 7))"
  by (simp add: map_bit_def bit_iff_and_push_bit_not_eq_0)

lemma byte_split: "c = c' \<longleftrightarrow> unat (drop_bit 3 c) = unat (drop_bit 3 c') \<and> unat (c AND 7) = unat (c' AND (7::u8))"
proof -
  have m: "(7::u8) = mask 3" by (simp add: mask_eq_exp_minus_1)
  have "unat (drop_bit 3 x) = unat x div 8" for x :: u8
    using unat_drop_bit_eq [of 3 x] by (simp add: drop_bit_eq_div)
  moreover have "unat (x AND 7) = unat x mod 8" for x :: u8
    using unat_and_mask [of 3 x] by (simp add: m)
  ultimately show ?thesis by (auto simp: word_unat_eq_iff) (metis div_mult_mod_eq)
qed

lemma byte_parts: "unat (drop_bit 3 (c::u8)) < 32" "unat (c AND (7::u8)) < 8"
proof -
  have "unat (drop_bit 3 c) = unat c div 8" using unat_drop_bit_eq [of 3 c] by (simp add: drop_bit_eq_div)
  moreover have "unat c < 256" using unsigned_less [of c, where ?'a = nat] by simp
  ultimately show "unat (drop_bit 3 c) < 32" by simp
  have "(7::u8) = mask 3" by (simp add: mask_eq_exp_minus_1)
  then show "unat (c AND (7::u8)) < 8"
    using unat_and_mask [of 3 c] by simp
qed

lemma map_bit_set:
  assumes "length mp = 32" and i: "i = unat (drop_bit 3 c)"
  shows "map_bit (mp[i := mp ! i OR push_bit (unat (c AND 7)) 1]) c' \<longleftrightarrow> map_bit mp c' \<or> c' = c"
  using assms byte_parts [of c] byte_parts [of c']
  by (auto simp: map_bit_bit nth_list_update bit_or_iff bit_push_bit_iff bit_exp_iff byte_split [of c' c])

lemma tok_map_spec:
  "str_at m p ds \<Longrightarrow> length mp = 32 \<Longrightarrow>
    \<exists>mp'. tok_map p mp m = Some mp' \<and> (\<forall>c. map_bit mp' c \<longleftrightarrow> map_bit mp c \<or> c \<in> set ds \<or> c = 0)"
proof (induction ds arbitrary: p mp)
  case Nil
  then show ?case using map_bit_set [OF Nil.prems(2) refl, of 0] by (subst tok_map.simps) (auto simp: Let_def)
next
  case (Cons d ds)
  let ?i = "unat (drop_bit 3 d)"
  obtain mp' where "tok_map (p + 1) (mp[?i := mp ! ?i OR push_bit (unat (d AND 7)) 1]) m = Some mp'"
    "\<forall>c. map_bit mp' c \<longleftrightarrow> map_bit (mp[?i := mp ! ?i OR push_bit (unat (d AND 7)) 1]) c \<or> c \<in> set ds \<or> c = 0"
    using Cons.IH [of "p + 1" "mp[?i := mp ! ?i OR push_bit (unat (d AND 7)) 1]"] Cons.prems by auto
  then show ?case using Cons.prems map_bit_set [OF Cons.prems(2) refl, of d] by (subst tok_map.simps) (auto simp: Let_def)
qed

lemma tok_skip_spec:
  "str_at m p xs \<Longrightarrow> \<forall>c. map_bit mp c \<longleftrightarrow> D c \<or> c = 0 \<Longrightarrow>
    tok_skip mp p m = Some (p + of_nat (length (takeWhile D xs))) \<and> str_at m (p + of_nat (length (takeWhile D xs))) (dropWhile D xs)"
proof (induction xs arbitrary: p)
  case (Cons x xs)
  then show ?case using Cons.IH [of "p + 1"] by (subst tok_skip.simps) (auto simp: algebra_simps)
qed (subst tok_skip.simps; simp)

lemma tok_scan_spec:
  "str_at m p xs \<Longrightarrow> \<forall>c. map_bit mp c \<longleftrightarrow> D c \<or> c = 0 \<Longrightarrow>
    tok_scan mp p m = Some (let q = p + of_nat (length (takeWhile (\<lambda>c. \<not> D c) xs)) in
      if dropWhile (\<lambda>c. \<not> D c) xs = [] then (q, m) else (q + 1, m(q := 0)))"
proof (induction xs arbitrary: p)
  case (Cons x xs)
  then show ?case using Cons.IH [of "p + 1"] by (subst tok_scan.simps) (auto simp: Let_def algebra_simps)
qed (subst tok_scan.simps; simp add: Let_def)

section \<open>Properties\<close>

text \<open>C25: \<open>memmove\<close> copies every byte of the source as it was before the call, however the two ranges overlap, and changes no
  byte outside the destination.\<close>

theorem memmove_exact:
  assumes "unat d + unat n \<le> 2 ^ 32" "unat s + unat n \<le> 2 ^ 32"
  shows "memmove d s n m = (d, \<lambda>a. if unat d \<le> unat a \<and> unat a < unat d + unat n then m (s + (a - d)) else m a)"
proof (cases "d > s")
  case True
  then have "copy_down (unat n) (d + of_nat (unat n)) (s + of_nat (unat n)) m = (\<lambda>a. if in_range d (unat n) a then m (s + (a - d)) else m a)"
    using assms by (intro copy_down_spec) (simp_all add: word_less_nat_alt)
  then show ?thesis using True by (simp add: memmove_def in_range_def)
next
  case False
  then have "copy_up (unat n) d s m = (\<lambda>a. if in_range d (unat n) a then m (s + (a - d)) else m a)"
    using assms by (intro copy_up_spec) (simp_all add: word_less_nat_alt)
  then show ?thesis using False by (simp add: memmove_def in_range_def)
qed

theorem memmove_exact_witness:
  "snd (memmove 0x1002 0x1000 5 (\<lambda>a. ucast a)) 0x1005 = 3 \<and> snd (memmove 0x1000 0x1002 5 (\<lambda>a. ucast a)) 0x1003 = 5"
  using memmove_exact [of "0x1002" 5 "0x1000" "\<lambda>a. ucast a"] memmove_exact [of "0x1000" 5 "0x1002" "\<lambda>a. ucast a"] by simp

text \<open>\<open>strcmp\<close> returns on every pair of strings and agrees with the lexicographic order of their bytes: 0 for equal strings,
  \<open>-1\<close> for a smaller and 1 for a greater first string.\<close>

lemma strcmp_order:
  assumes "str_at m p xs" "str_at m q ys"
  shows "strcmp p q m = Some (if xs = ys then 0 else if (xs, ys) \<in> lexord {(a, b). a < b} then -1 else 1)"
  using assms
proof (induction xs arbitrary: p q ys)
  case Nil
  then show ?case by (cases ys) (subst strcmp.simps; auto simp: word_greater_zero_iff)+
next
  case (Cons x xs)
  show ?case
  proof (cases ys)
    case Nil
    then show ?thesis using Cons.prems by (subst strcmp.simps) (auto simp: word_greater_zero_iff)
  next
    case (Cons y zs)
    then show ?thesis using Cons.prems Cons.IH [of "p + 1" "q + 1" zs] by (subst strcmp.simps) auto
  qed
qed

text \<open>A memory with the strings of a list one after the other.\<close>

definition ram_of :: "u8 list \<Rightarrow> ram" where
  "ram_of bs a = (if unat a < length bs then bs ! unat a else 0)"

text \<open>\<open>strstr\<close> returns the first position where the two strings agree up to the end of the shorter one. So it reports a match
  that is not one when the rest of the first string is a proper prefix of the second, and it finds no match for the
  empty string.\<close>

lemma strstr_first_partial:
  assumes "str_at m d xs" "str_at m s ys"
  shows "strstr d s m = Some (case find (\<lambda>i. ys \<noteq> [] \<and> (prefix ys (drop i xs) \<or> prefix (drop i xs) ys)) [0..<length xs] of
     None \<Rightarrow> NULL | Some i \<Rightarrow> d + of_nat i)"
  using strstr_loop [OF assms] by (simp add: partial_match_def)

text \<open>A call of \<open>strtok_r\<close>, on a string or on the rest left by the call before, skips the delimiters and returns the
  longest run of other characters as a terminated string, or \<open>NULL\<close> if there is none; the rest behind the delimiter is
  what the next call works on, and nothing outside the string changes.\<close>

lemma strtok_step:
  assumes "str_at m p xs" "str_at m q ds" "p = (if org \<noteq> NULL then org else prev)"
  defines "D \<equiv> \<lambda>c. c \<in> set ds"
  defines "r \<equiv> dropWhile D xs"
  defines "t \<equiv> takeWhile (\<lambda>c. \<not> D c) r"
  shows "\<exists>res prev' m'. strtok_r org q prev m = Some (res, prev', m') \<and> str_at m' prev' (drop (length t + 1) r) \<and>
     (if t = [] then res = NULL \<and> m' = m else res = p + of_nat (length (takeWhile D xs)) \<and> str_at m' res t) \<and>
     (\<forall>a. (\<forall>i < length xs. a \<noteq> p + of_nat i) \<longrightarrow> m' a = m a)"
proof -
  obtain mp where mp: "tok_map q (replicate 32 0) m = Some mp" "\<forall>c. map_bit mp c \<longleftrightarrow> D c \<or> c = 0"
    using tok_map_spec [OF assms(2), of "replicate 32 0"] byte_parts(1) by (auto simp: map_bit_bit D_def)
  let ?k = "length (takeWhile D xs)"
  define a where "a = p + of_nat ?k"
  have skip: "tok_skip mp p m = Some a" "str_at m a r" using tok_skip_spec [OF assms(1) mp(2)] by (simp_all add: a_def r_def)
  define b where "b = a + of_nat (length t)"
  have scan: "tok_scan mp a m = Some (if dropWhile (\<lambda>c. \<not> D c) r = [] then (b, m) else (b + 1, m(b := 0)))"
    using tok_scan_spec [OF skip(2) mp(2)] by (simp add: t_def b_def Let_def)
  have r: "r = t @ dropWhile (\<lambda>c. \<not> D c) r" by (simp add: t_def)
  have short: "length r < 2 ^ 32" by (rule str_at_short [OF skip(2)])
  note run = strtok_r_def mp(1) skip(1) scan assms(3) [symmetric]
  show ?thesis
  proof (cases "dropWhile (\<lambda>c. \<not> D c) r")
    case Nil
    then have "r = t" using r by (metis append_Nil2)
    then have s: "str_at m a t" "m b = 0" using skip(2) by (auto simp: b_def str_at_nth)
    have "a = b \<longleftrightarrow> t = []" using short of_nat_eq_small [of "length t" 0] \<open>r = t\<close> by (auto simp: b_def)
    moreover have "strtok_r org q prev m = Some (if a = b then NULL else a, b, m)" using Nil by (simp add: run)
    ultimately show ?thesis using s \<open>r = t\<close> by (simp add: a_def [symmetric])
  next
    case (Cons x u)
    then have rx: "r = t @ x # u" using r by simp
    have t0: "t \<noteq> []"
    proof
      assume "t = []"
      then have "D x" "r = x # u" using rx hd_dropWhile [of "\<lambda>c. \<not> D c" r] Cons by auto
      then show False using hd_dropWhile [of D xs] by (simp add: r_def)
    qed
    have l: "Suc (length t) < 2 ^ 32" using short rx by simp
    have ne: "a \<noteq> b + 1" using of_nat_eq_small [of "Suc (length t)" 0] l by (auto simp: b_def algebra_simps)
    note C = str_at_cut [OF skip(2) [unfolded rx], of b]
    have "length xs = ?k + length r" unfolding r_def by (metis length_append takeWhile_dropWhile_id)
    then have "?k + length t < length xs" using rx by simp
    moreover have "b = p + of_nat (?k + length t)" by (simp add: a_def b_def algebra_simps)
    ultimately have "\<forall>c. (\<forall>i < length xs. c \<noteq> p + of_nat i) \<longrightarrow> (m(b := 0)) c = m c" by auto
    moreover have "strtok_r org q prev m = Some (a, b + 1, m(b := 0))" using Cons ne by (simp add: run)
    ultimately show ?thesis using t0 C rx by (simp add: a_def [symmetric] b_def [symmetric])
  qed
qed

end
