(* ===== verification/PartMan.thy ===== *)
theory PartMan
  imports FatInfo Stdlib
begin

text \<open>
  The partition table, \<^verbatim>\<open>env/lib/fs/partitionmanager.c\<close> with the constructor of \<^verbatim>\<open>partition.c\<close>: the four entries of the
  master boot record become partitions with a name, which the file system looks up. A partition on the heap is
  its address with its contents.
\<close>

section \<open>Model\<close>

record TPartitionManager =
  m_DeviceName :: cstr
  pm_pPartition :: "(ptr \<times> TPartition) option list"

definition MAX_PARTITIONS :: nat where "MAX_PARTITIONS = 4"
definition PARTITION_NAME_LEN_MAX :: nat where "PARTITION_NAME_LEN_MAX = 20"
definition sizeof_TPartition :: u32 where "sizeof_TPartition = 28"

text \<open>The fields of entry \<open>i\<close> of the table in the boot record, and its signature.\<close>

definition MBR_Type :: "u8 list \<Rightarrow> nat \<Rightarrow> u8" where "MBR_Type d i = d ! (0x1BE + 16 * i + 4)"
definition MBR_LBAFirstSector :: "u8 list \<Rightarrow> nat \<Rightarrow> u32" where "MBR_LBAFirstSector d i = le32 d (0x1BE + 16 * i + 8)"
definition MBR_NumberOfSectors :: "u8 list \<Rightarrow> nat \<Rightarrow> u32" where "MBR_NumberOfSectors d i = le32 d (0x1BE + 16 * i + 12)"
definition MBR_BootSignature :: "u8 list \<Rightarrow> u16" where "MBR_BootSignature d = le16 d 0x1FE"

definition CPartition :: "u32 \<Rightarrow> u32 \<Rightarrow> cstr \<Rightarrow> TPartition" where
  "CPartition nFirstSector nNumberOfSectors pPartitionName =
     \<lparr>m_pPartitionName = pPartitionName, m_nFirstSector = nFirstSector, m_nNumberOfSectors = nNumberOfSectors\<rparr>"

definition CPartitionManager :: "cstr \<Rightarrow> TPartitionManager" where
  "CPartitionManager pDeviceName = \<lparr>m_DeviceName = pDeviceName, pm_pPartition = replicate MAX_PARTITIONS None\<rparr>"

primrec free_parts :: "(ptr \<times> TPartition) option list \<Rightarrow> alloc_state \<Rightarrow> alloc_state" where
  "free_parts [] h = h"
| "free_parts (p # ps) h = free_parts ps (case p of None \<Rightarrow> h | Some (a, _) \<Rightarrow> free a h)"

definition destroy_CPartitionManager :: "TPartitionManager \<Rightarrow> alloc_state \<Rightarrow> TPartitionManager \<times> alloc_state" where
  "destroy_CPartitionManager pThis h =
     (pThis\<lparr>pm_pPartition := replicate (length (pm_pPartition pThis)) None\<rparr>, free_parts (pm_pPartition pThis) h)"

text \<open>The name of a partition is written into an array of 20 bytes.\<close>

definition part_name :: "cstr \<Rightarrow> u32 \<Rightarrow> cstr option" where
  "part_name dev k = do {
     n \<leftarrow> vsprintf (map of_char ''%s-%u'') [VStr dev, VInt k];
     assert (length n < PARTITION_NAME_LEN_MAX);
     Some n }"

text \<open>The loop over the entries. The result is the value the function returns: 1, or \<open>ENOMEM\<close>, which is not 0 either.\<close>

primrec part_loop :: "nat \<Rightarrow> nat \<Rightarrow> u32 \<Rightarrow> u8 list \<Rightarrow> TPartitionManager \<Rightarrow> alloc_state \<Rightarrow> (u32 \<times> TPartitionManager \<times> alloc_state) option" where
  "part_loop 0 i nPartition MBR pThis h = Some (1, pThis, h)"
| "part_loop (Suc n) i nPartition MBR pThis h =
     (if MBR_Type MBR i \<noteq> 1 \<or> MBR_LBAFirstSector MBR i = 0 \<or> MBR_NumberOfSectors MBR i = 0
      then part_loop n (i + 1) nPartition MBR pThis h
      else do {
        q \<leftarrow> rd (pm_pPartition pThis) i;
        assert (q = None);
        (p, h) \<leftarrow> Some (malloc sizeof_TPartition h);
        if p = NULL then Some (ENOMEM, pThis, h)
        else do {
          nm \<leftarrow> part_name (m_DeviceName pThis) (nPartition + 1);
          ps \<leftarrow> wr (pm_pPartition pThis) i (Some (p, CPartition (MBR_LBAFirstSector MBR i) (MBR_NumberOfSectors MBR i) nm));
          part_loop n (i + 1) (nPartition + 1) MBR (pThis\<lparr>pm_pPartition := ps\<rparr>) h } })"

text \<open>\<open>stack\<close> is what the array for the boot record holds before it is read.\<close>

definition PartitionManagerInitialize ::
  "u8 list \<Rightarrow> TPartitionManager \<Rightarrow> alloc_state \<Rightarrow> mmc \<Rightarrow> (u32 \<times> TPartitionManager \<times> alloc_state \<times> mmc) option" where
  "PartitionManagerInitialize stack pThis h m = do {
     (r, MBR, m) \<leftarrow> mmc_bread 0 1 stack m;
     if r \<noteq> 1 then Some (0, pThis, h, m)
     else if MBR_BootSignature MBR \<noteq> BOOT_SIGNATURE then Some (1, pThis, h, m)
     else do {
       (r, pThis, h) \<leftarrow> part_loop MAX_PARTITIONS 0 0 MBR pThis h;
       Some (r, pThis, h, m) } }"

text \<open>The name of every entry is read, also where there is no partition: a dereference of \<open>NULL\<close>.\<close>

primrec get_part_loop :: "nat \<Rightarrow> nat \<Rightarrow> cstr \<Rightarrow> TPartitionManager \<Rightarrow> (ptr \<times> TPartition) option option" where
  "get_part_loop 0 i pName pThis = Some None"
| "get_part_loop (Suc n) i pName pThis = do {
     q \<leftarrow> rd (pm_pPartition pThis) i;
     p \<leftarrow> q;
     if pName = m_pPartitionName (snd p) then Some (Some p) else get_part_loop n (i + 1) pName pThis }"

definition PartitionManagerGetPartition :: "TPartitionManager \<Rightarrow> cstr \<Rightarrow> (ptr \<times> TPartition) option option" where
  "PartitionManagerGetPartition pThis pName = get_part_loop MAX_PARTITIONS 0 pName pThis"

section \<open>Proofs\<close>

definition emmc1 :: cstr where "emmc1 = map of_char ''emmc1''"

lemma part_names:
  "part_name emmc1 1 = Some (map of_char ''emmc1-1'')" "part_name emmc1 2 = Some (map of_char ''emmc1-2'')"
  "part_name emmc1 3 = Some (map of_char ''emmc1-3'')" "part_name emmc1 4 = Some (map of_char ''emmc1-4'')"
  by code_simp+

lemma part_name_total: "unat k < 4 \<Longrightarrow> \<exists>nm. part_name emmc1 (k + 1) = Some nm"
proof -
  assume "unat k < 4"
  then have "unat k = 0 \<or> unat k = 1 \<or> unat k = 2 \<or> unat k = 3" by arith
  then have "k = 0 \<or> k = 1 \<or> k = 2 \<or> k = 3" by (auto simp: word_unat_eq_iff)
  then show ?thesis using part_names by auto
qed

text \<open>The loop returns with a value that is taken for success, and changes only the entries it still has to visit.\<close>

lemma part_loop_spec:
  assumes "i + n \<le> 4" "unat k \<le> i" "length (pm_pPartition pm) = 4" "\<And>j. i \<le> j \<Longrightarrow> j < 4 \<Longrightarrow> pm_pPartition pm ! j = None"
    and "m_DeviceName pm = emmc1"
  shows "\<exists>r pm' h'. part_loop n i k MBR pm h = Some (r, pm', h') \<and> r \<noteq> 0 \<and> length (pm_pPartition pm') = 4 \<and>
     (\<forall>j<i. pm_pPartition pm' ! j = pm_pPartition pm ! j)"
  using assms
proof (induction n arbitrary: i k pm h)
  case 0
  then show ?case by simp
next
  case (Suc n)
  let ?skip = "MBR_Type MBR i \<noteq> 1 \<or> MBR_LBAFirstSector MBR i = 0 \<or> MBR_NumberOfSectors MBR i = 0"
  have i: "i < 4" "i + 1 + n \<le> 4" "pm_pPartition pm ! i = None" using Suc.prems(1,4) by auto
  show ?case
  proof (cases ?skip)
    case True
    have "\<exists>r pm' h'. part_loop n (i + 1) k MBR pm h = Some (r, pm', h') \<and> r \<noteq> 0 \<and> length (pm_pPartition pm') = 4 \<and>
      (\<forall>j<i + 1. pm_pPartition pm' ! j = pm_pPartition pm ! j)"
      using Suc.prems i by (intro Suc.IH) auto
    then show ?thesis using True by (auto simp: less_Suc_eq)
  next
    case False
    obtain p h1 where M: "malloc sizeof_TPartition h = (p, h1)" by (cases "malloc sizeof_TPartition h")
    have k1: "unat (k + 1) = Suc (unat k)" using Suc.prems(2) i(1) by (subst unat_add_no_wrap) simp_all
    obtain nm where nm: "part_name emmc1 (k + 1) = Some nm" using part_name_total [of k] Suc.prems(2) i(1) by auto
    let ?e = "Some (p, CPartition (MBR_LBAFirstSector MBR i) (MBR_NumberOfSectors MBR i) nm)"
    let ?pm = "pm\<lparr>pm_pPartition := (pm_pPartition pm)[i := ?e]\<rparr>"
    have run: "part_loop (Suc n) i k MBR pm h = (if p = NULL then Some (ENOMEM, pm, h1) else part_loop n (i + 1) (k + 1) MBR ?pm h1)"
      using False M nm Suc.prems(3,5) i by simp
    have "\<exists>r pm' h'. part_loop n (i + 1) (k + 1) MBR ?pm h1 = Some (r, pm', h') \<and> r \<noteq> 0 \<and> length (pm_pPartition pm') = 4 \<and>
      (\<forall>j<i + 1. pm_pPartition pm' ! j = pm_pPartition ?pm ! j)"
      using Suc.prems i k1 by (intro Suc.IH) auto
    then show ?thesis using run Suc.prems(3) by (auto simp: ENOMEM_def)
  qed
qed

lemma mmc_bread_first:
  assumes "card_ok m" "card_healthy m" "0 < lba m" "length stack = 512"
  obtains m' where "mmc_bread 0 1 stack m = Some (1, blocks m 0, m')"
proof -
  let ?p = "\<lparr>m_pPartitionName = [], m_nFirstSector = 0, m_nNumberOfSectors = 1\<rparr>"
  have "part_ok ?p m" using assms(1,3) by (simp add: part_ok_def word_less_nat_alt Suc_leI)
  then obtain d m' where "PartitionRead ?p stack 0 1 m = Some (1, d, m')" "d = part_data ?p m 0 1"
    using PartitionRead_spec [of ?p m 1 0 stack] assms(2,4) by auto
  then show thesis using that by (simp add: PartitionRead_def part_data_def card_read_def)
qed

section \<open>Properties\<close>

text \<open>C28: If the first entry of the partition table is usable, \<open>PartitionManagerInitialize\<close> succeeds and the partition that the
  file system asks for, \<open>emmc1-1\<close>, is the one that the entry describes, whatever the other entries are. If the first
  entry is not usable, looking for the partition dereferences a null pointer, also if another entry is.\<close>

theorem partition_found:
  assumes "card_ok m" "card_healthy m" "0 < lba m" "length stack = 512" "MBR_BootSignature (blocks m 0) = BOOT_SIGNATURE"
    and "malloc sizeof_TPartition h = (p, h1)" "p \<noteq> NULL"
  defines "MBR \<equiv> blocks m 0"
  shows "\<exists>r pm h' m'. PartitionManagerInitialize stack (CPartitionManager emmc1) h m = Some (r, pm, h', m') \<and> r \<noteq> 0 \<and>
     PartitionManagerGetPartition pm (map of_char ''emmc1-1'') =
       (if MBR_Type MBR 0 = 1 \<and> MBR_LBAFirstSector MBR 0 \<noteq> 0 \<and> MBR_NumberOfSectors MBR 0 \<noteq> 0
        then Some (Some (p, \<lparr>m_pPartitionName = map of_char ''emmc1-1'', m_nFirstSector = MBR_LBAFirstSector MBR 0,
          m_nNumberOfSectors = MBR_NumberOfSectors MBR 0\<rparr>))
        else None)"
proof -
  let ?pm = "CPartitionManager emmc1" and ?ok = "MBR_Type MBR 0 = 1 \<and> MBR_LBAFirstSector MBR 0 \<noteq> 0 \<and> MBR_NumberOfSectors MBR 0 \<noteq> 0"
  let ?e = "Some (p, CPartition (MBR_LBAFirstSector MBR 0) (MBR_NumberOfSectors MBR 0) (map of_char ''emmc1-1''))"
  let ?q = "if ?ok then ?pm\<lparr>pm_pPartition := (pm_pPartition ?pm)[0 := ?e]\<rparr> else ?pm"
  obtain m' where R: "mmc_bread 0 1 stack m = Some (1, MBR, m')" using mmc_bread_first [OF assms(1-4)] unfolding MBR_def .
  have pm: "length (pm_pPartition ?pm) = 4" "m_DeviceName ?pm = emmc1" "\<And>j. j < 4 \<Longrightarrow> pm_pPartition ?pm ! j = None"
    by (simp_all add: CPartitionManager_def MAX_PARTITIONS_def)
  have four: "(4::nat) = Suc 3" by simp
  have run: "part_loop 4 0 0 MBR ?pm h = part_loop 3 1 (if ?ok then 1 else 0) MBR ?q (if ?ok then h1 else h)"
    unfolding four part_loop.simps(2) using pm assms(6,7) part_names(1) by (simp del: part_loop.simps)
  have "\<exists>r pm' h'. part_loop 3 1 (if ?ok then 1 else 0) MBR ?q (if ?ok then h1 else h) = Some (r, pm', h') \<and> r \<noteq> 0 \<and>
    length (pm_pPartition pm') = 4 \<and> (\<forall>j<1. pm_pPartition pm' ! j = pm_pPartition ?q ! j)"
    using pm by (intro part_loop_spec) auto
  then obtain r pm' h' where L: "part_loop 4 0 0 MBR ?pm h = Some (r, pm', h')" "r \<noteq> 0" "length (pm_pPartition pm') = 4"
    "pm_pPartition pm' ! 0 = pm_pPartition ?q ! 0" unfolding run by auto
  have "pm_pPartition ?q ! 0 = (if ?ok then ?e else None)" using pm by simp
  then have "PartitionManagerGetPartition pm' (map of_char ''emmc1-1'') = (if ?ok then Some (Some (p, \<lparr>m_pPartitionName = map of_char ''emmc1-1'',
       m_nFirstSector = MBR_LBAFirstSector MBR 0, m_nNumberOfSectors = MBR_NumberOfSectors MBR 0\<rparr>)) else None)"
    using L(3,4) by (simp add: PartitionManagerGetPartition_def MAX_PARTITIONS_def numeral_eq_Suc CPartition_def)
  moreover have "PartitionManagerInitialize stack ?pm h m = Some (r, pm', h', m')"
    using R L(1) assms(5) by (simp add: PartitionManagerInitialize_def MBR_def MAX_PARTITIONS_def)
  ultimately show ?thesis using L(2) by blast
qed

text \<open>A card whose partition table has one entry, of the form that the file system asks for.\<close>

definition mbr_blocks :: "nat \<Rightarrow> u8 list" where
  "mbr_blocks n = (if n = 0 then zero_block[0x1C2 := 1, 0x1C6 := 63, 0x1CB := 0x80, 0x1FE := 0x55, 0x1FF := 0xAA] else zero_block)"

theorem partition_found_witness:
  "\<exists>r pm h' m'. PartitionManagerInitialize zero_block (CPartitionManager emmc1) boot_heap (demo_card mbr_blocks) = Some (r, pm, h', m') \<and>
     r \<noteq> 0 \<and> PartitionManagerGetPartition pm (map of_char ''emmc1-1'') = Some (Some (0x43000010,
       \<lparr>m_pPartitionName = map of_char ''emmc1-1'', m_nFirstSector = 63, m_nNumberOfSectors = 0x8000\<rparr>))"
proof -
  have "length (mbr_blocks n) = 512" for n by (simp add: mbr_blocks_def zero_block_def)
  then have c: "card_ok (demo_card mbr_blocks)" "card_healthy (demo_card mbr_blocks)" "0 < lba (demo_card mbr_blocks)"
    "length zero_block = 512" "blocks (demo_card mbr_blocks) = mbr_blocks"
    using demo_card_ok(1) [of mbr_blocks] demo_card_ok(2) [of mbr_blocks]
    by (simp_all add: part_ok_def demo_card_def zero_block_def)
  have p: "fst (malloc sizeof_TPartition boot_heap) = 0x43000010"
    by (simp add: malloc_def boot_heap_simps block_sizes_def block_extent_def Let_def CONFIG_FB_ADDR_def FB_END_def sizeof_TPartition_def)
  have e: "MBR_Type (mbr_blocks 0) 0 = 1" "MBR_LBAFirstSector (mbr_blocks 0) 0 = 63" "MBR_NumberOfSectors (mbr_blocks 0) 0 = 0x8000"
    "MBR_BootSignature (mbr_blocks 0) = BOOT_SIGNATURE"
    by (simp_all add: MBR_Type_def MBR_LBAFirstSector_def MBR_NumberOfSectors_def MBR_BootSignature_def mbr_blocks_def
        zero_block_def le32_def le16_def BOOT_SIGNATURE_def)
  have m: "malloc sizeof_TPartition boot_heap = (0x43000010, snd (malloc sizeof_TPartition boot_heap))"
    using p by (metis prod.collapse)
  show ?thesis
    using partition_found [OF c(1-4) _ m] by (simp add: c(5) e)
qed

end
