(* ===== verification/Path.thy ===== *)
theory Path
  imports Stdlib
begin

text \<open>
  Paths, \<^verbatim>\<open>env/lib/fs/path.c\<close> with the structures of \<^verbatim>\<open>env/include/fs/file_struct.h\<close>: splitting a path into the names of
  its directories and resolving it against the current directory. The array of a directory name has nine bytes and
  holds a string of at most eight; writing more is the outcome \<^term>\<open>None\<close>. The number of directories, a \<open>u32\<close>, is a natural number
  that is used as an index; the one sum that can wrap before an access to the array is written out.
\<close>

section \<open>Model\<close>

record TDirectory =
  cDirectoryName :: cstr
  nSeries :: u32
  nInitFlg :: u32
  nCurDirFirstCluster :: u32
  nUpperDirFirstCluster :: u32

record TPath =
  nPathType :: u32
  nSeriesNum :: nat
  aDirectory :: "TDirectory list"

definition FS_DIR_NAME_LEN :: nat where "FS_DIR_NAME_LEN = 8"
definition FS_PATH_TYPE_ALL :: u32 where "FS_PATH_TYPE_ALL = 0"
definition FS_PATH_TYPE_PART :: u32 where "FS_PATH_TYPE_PART = 1"
definition FS_PATH_SERIES_MAX_NUM :: nat where "FS_PATH_SERIES_MAX_NUM = 20"

text \<open>Structures filled with zeros.\<close>

definition zero_dir :: TDirectory where
  "zero_dir = \<lparr>cDirectoryName = [], nSeries = 0, nInitFlg = 0, nCurDirFirstCluster = 0, nUpperDirFirstCluster = 0\<rparr>"

definition zero_path :: TPath where
  "zero_path = \<lparr>nPathType = 0, nSeriesNum = 0, aDirectory = replicate FS_PATH_SERIES_MAX_NUM zero_dir\<rparr>"

text \<open>The copy of a component into the next entry, with its terminator.\<close>

definition add_name :: "cstr \<Rightarrow> TPath \<Rightarrow> TPath option" where
  "add_name n stPath = do {
     assert (length n \<le> FS_DIR_NAME_LEN);
     d \<leftarrow> rd (aDirectory stPath) (nSeriesNum stPath);
     a \<leftarrow> wr (aDirectory stPath) (nSeriesNum stPath) (d\<lparr>cDirectoryName := n\<rparr>);
     Some (stPath\<lparr>aDirectory := a, nSeriesNum := nSeriesNum stPath + 1\<rparr>) }"

text \<open>The loop of \<open>parserPath\<close> over the rest of the string from index \<open>i\<close> on. The return of \<open>FALSE\<close> is
  \<^term>\<open>Some None\<close>.\<close>

primrec parse_loop :: "cstr \<Rightarrow> nat \<Rightarrow> nat \<Rightarrow> nat \<Rightarrow> cstr \<Rightarrow> TPath \<Rightarrow> TPath option option" where
  "parse_loop [] i start ed pBuff stPath =
     (if start \<noteq> ed then do { p \<leftarrow> add_name (take (ed - start) (drop start pBuff)) stPath; Some (Some p) } else Some (Some stPath))"
| "parse_loop (c # cs) i start ed pBuff stPath =
     (if c = 0x2F then
        if i \<noteq> 0 then
          if start \<noteq> ed then
            if ed > start + 8 then Some None
            else do {
              p \<leftarrow> add_name (take (ed - start) (drop start pBuff)) stPath;
              if nSeriesNum p \<ge> FS_PATH_SERIES_MAX_NUM then Some None
              else parse_loop cs (i + 1) (i + 1) (i + 1) pBuff p }
          else Some None
        else parse_loop cs (i + 1) (i + 1) (i + 1) pBuff stPath
      else parse_loop cs (i + 1) start (ed + 1) pBuff stPath)"

definition parserPath :: "cstr \<Rightarrow> TPath option option" where
  "parserPath pathName =
     parse_loop pathName 0 0 0 pathName
       (zero_path\<lparr>nPathType := (if ch pathName = 0x2F then FS_PATH_TYPE_ALL else FS_PATH_TYPE_PART)\<rparr>)"

definition dot :: cstr where "dot = [0x2E]"
definition dotdot :: cstr where "dotdot = [0x2E, 0x2E]"

text \<open>The step of \<open>cleanUpPath\<close> and of \<open>mergePath\<close> for one directory.\<close>

definition path_step :: "TDirectory \<Rightarrow> TPath \<Rightarrow> TPath option option" where
  "path_step d result =
     (if cDirectoryName d = dotdot then
        if nSeriesNum result \<le> 1 then Some None
        else do {
          a \<leftarrow> wr (aDirectory result) (nSeriesNum result - 1) zero_dir;
          Some (Some (result\<lparr>aDirectory := a, nSeriesNum := nSeriesNum result - 1\<rparr>)) }
      else if cDirectoryName d = dot then Some (Some result)
      else if nSeriesNum result \<ge> FS_PATH_SERIES_MAX_NUM then Some None
      else do {
        a \<leftarrow> wr (aDirectory result) (nSeriesNum result) d;
        Some (Some (result\<lparr>aDirectory := a, nSeriesNum := nSeriesNum result + 1\<rparr>)) })"

primrec path_loop :: "nat \<Rightarrow> nat \<Rightarrow> TPath \<Rightarrow> TPath \<Rightarrow> TPath option option" where
  "path_loop 0 i pStPath result = Some (Some result)"
| "path_loop (Suc n) i pStPath result = do {
     d \<leftarrow> rd (aDirectory pStPath) i;
     r \<leftarrow> path_step d result;
     case r of None \<Rightarrow> Some None | Some result \<Rightarrow> path_loop n (i + 1) pStPath result }"

definition cleanUpPath :: "TPath \<Rightarrow> TPath \<Rightarrow> TPath option option" where
  "cleanUpPath pStPath result = path_loop (nSeriesNum pStPath) 0 pStPath (result\<lparr>nPathType := FS_PATH_TYPE_ALL\<rparr>)"

text \<open>The loops of \<open>mergePath\<close> for a full path.\<close>

primrec clear_dirs :: "nat \<Rightarrow> nat \<Rightarrow> TPath \<Rightarrow> TPath option" where
  "clear_dirs 0 i stPath = Some stPath"
| "clear_dirs (Suc n) i stPath = do {
     a \<leftarrow> wr (aDirectory stPath) i zero_dir; clear_dirs n (i + 1) (stPath\<lparr>aDirectory := a\<rparr>) }"

primrec copy_dirs :: "nat \<Rightarrow> nat \<Rightarrow> TPath \<Rightarrow> TPath \<Rightarrow> TPath option" where
  "copy_dirs 0 i pTargetPath stPath = Some stPath"
| "copy_dirs (Suc n) i pTargetPath stPath = do {
     d \<leftarrow> rd (aDirectory pTargetPath) i;
     a \<leftarrow> wr (aDirectory stPath) (i + 1) d;
     copy_dirs n (i + 1) pTargetPath (stPath\<lparr>aDirectory := a\<rparr>) }"

definition mergePath :: "TPath \<Rightarrow> TPath \<Rightarrow> TPath option option" where
  "mergePath pCurPath pTargetPath = do {
     assert (nSeriesNum pCurPath < FS_PATH_SERIES_MAX_NUM);
     assert ((nSeriesNum pTargetPath + 1) mod 2 ^ 32 < FS_PATH_SERIES_MAX_NUM);
     r \<leftarrow> (if nPathType pTargetPath = FS_PATH_TYPE_ALL then do {
             p \<leftarrow> clear_dirs (nSeriesNum pCurPath - 1) 1 pCurPath;
             p \<leftarrow> copy_dirs (nSeriesNum pTargetPath) 0 pTargetPath p;
             Some (Some (p\<lparr>nPathType := nPathType pTargetPath, nSeriesNum := nSeriesNum pTargetPath + 1\<rparr>)) }
           else path_loop (nSeriesNum pTargetPath) 0 pTargetPath pCurPath);
     case r of None \<Rightarrow> Some None | Some stPath \<Rightarrow> cleanUpPath stPath zero_path }"

section \<open>Paths as lists of directories\<close>

definition path_of :: "u32 \<Rightarrow> TDirectory list \<Rightarrow> TPath" where
  "path_of t ds = \<lparr>nPathType = t, nSeriesNum = length ds, aDirectory = ds @ replicate (20 - length ds) zero_dir\<rparr>"

lemma path_of_fields [simp]:
  "nPathType (path_of t ds) = t" "nSeriesNum (path_of t ds) = length ds" "(path_of t ds)\<lparr>nPathType := u\<rparr> = path_of u ds"
  "length ds \<le> 20 \<Longrightarrow> length (aDirectory (path_of t ds)) = 20" "take (length ds) (aDirectory (path_of t ds)) = ds"
  by (simp_all add: path_of_def)

lemma zero_path_of: "zero_path = path_of 0 []"
  by (simp add: zero_path_def path_of_def FS_PATH_SERIES_MAX_NUM_def)

lemma path_push:
  assumes "length ds < 20"
  shows "(path_of t ds)\<lparr>aDirectory := (aDirectory (path_of t ds))[length ds := d], nSeriesNum := length ds + 1\<rparr> = path_of t (ds @ [d])"
proof -
  obtain k where k: "20 - length ds = Suc k" using assms by (metis Suc_diff_Suc)
  then have "20 - Suc (length ds) = k" by simp
  with k show ?thesis by (simp add: path_of_def list_update_append)
qed

lemma path_pop:
  assumes "length ds \<le> 20" "ds \<noteq> []"
  shows "(path_of t ds)\<lparr>aDirectory := (aDirectory (path_of t ds))[length ds - 1 := zero_dir], nSeriesNum := length ds - 1\<rparr> = path_of t (butlast ds)"
proof -
  obtain es e where ds: "ds = es @ [e]" using assms(2) by (metis append_butlast_last_id)
  then have "20 - length es = Suc (20 - Suc (length es))" using assms(1) by simp
  then show ?thesis by (simp add: ds path_of_def list_update_append)
qed

text \<open>The reference: directories are pushed on a stack of at most 20, and a step up pops one, but not the root.\<close>

fun resolve :: "TDirectory list \<Rightarrow> TDirectory list \<Rightarrow> TDirectory list option" where
  "resolve st [] = Some st"
| "resolve st (d # ds) =
     (if cDirectoryName d = dotdot then if length st \<le> 1 then None else resolve (butlast st) ds
      else if cDirectoryName d = dot then resolve st ds
      else if length st \<ge> 20 then None else resolve (st @ [d]) ds)"

definition no_dots :: "TDirectory list \<Rightarrow> bool" where
  "no_dots ds \<longleftrightarrow> (\<forall>d\<in>set ds. cDirectoryName d \<noteq> dot \<and> cDirectoryName d \<noteq> dotdot)"

lemma path_step_of:
  assumes "length st \<le> 20"
  shows "path_step d (path_of t st) = Some (map_option (path_of t) (resolve st [d]))"
proof -
  have "path_step d (path_of t st) = Some (Some (path_of t (butlast st)))" if "cDirectoryName d = dotdot" "\<not> length st \<le> 1"
  proof -
    have "st \<noteq> []" using that(2) by auto
    then show ?thesis using that assms path_pop [OF assms, of t] by (simp add: path_step_def)
  qed
  moreover have "path_step d (path_of t st) = Some (Some (path_of t (st @ [d])))"
    if "cDirectoryName d \<noteq> dotdot" "cDirectoryName d \<noteq> dot" "\<not> 20 \<le> length st"
    using that assms path_push [of st t d] by (simp add: path_step_def FS_PATH_SERIES_MAX_NUM_def)
  ultimately show ?thesis by (auto simp: path_step_def FS_PATH_SERIES_MAX_NUM_def)
qed

lemma resolve_step:
  assumes "resolve st (d # ds) = Some r"
  obtains st' where "resolve st' ds = Some r" "st' = butlast st \<and> 1 < length st \<or> st' = st \<or> st' = st @ [d] \<and> length st < 20 \<and> no_dots [d]"
  using assms by (auto simp: no_dots_def split: if_splits)

lemma resolve_bound: "length st \<le> 20 \<Longrightarrow> resolve st ds = Some r \<Longrightarrow> length r \<le> 20"
proof (induction ds arbitrary: st)
  case (Cons d ds)
  obtain st' where s: "resolve st' ds = Some r" "st' = butlast st \<and> 1 < length st \<or> st' = st \<or> st' = st @ [d] \<and> length st < 20 \<and> no_dots [d]"
    by (rule resolve_step [OF Cons.prems(2)])
  then have "length st' \<le> 20" using Cons.prems(1) by auto
  then show ?case using Cons.IH s(1) by blast
qed simp

lemma resolve_no_dots: "no_dots st \<Longrightarrow> resolve st ds = Some r \<Longrightarrow> no_dots r"
proof (induction ds arbitrary: st)
  case (Cons d ds)
  obtain st' where s: "resolve st' ds = Some r" "st' = butlast st \<and> 1 < length st \<or> st' = st \<or> st' = st @ [d] \<and> length st < 20 \<and> no_dots [d]"
    by (rule resolve_step [OF Cons.prems(2)])
  then have "no_dots st'" using Cons.prems(1) by (auto simp: no_dots_def dest: in_set_butlastD)
  then show ?case using Cons.IH s(1) by blast
qed simp

lemma resolve_clean: "no_dots ds \<Longrightarrow> length st + length ds \<le> 20 \<Longrightarrow> resolve st ds = Some (st @ ds)"
  by (induction ds arbitrary: st) (auto simp: no_dots_def)

lemma resolve_root: "st \<noteq> [] \<Longrightarrow> resolve st ds = Some r \<Longrightarrow> r \<noteq> [] \<and> hd r = hd st"
proof (induction ds arbitrary: st)
  case (Cons d ds)
  obtain st' where s: "resolve st' ds = Some r" "st' = butlast st \<and> 1 < length st \<or> st' = st \<or> st' = st @ [d] \<and> length st < 20 \<and> no_dots [d]"
    by (rule resolve_step [OF Cons.prems(2)])
  have "hd (butlast st) = hd st" "butlast st \<noteq> []" if "1 < length st" using that by (cases st; auto)+
  then have "st' \<noteq> []" "hd st' = hd st" using s(2) Cons.prems(1) by auto
  then show ?case using Cons.IH s(1) by metis
qed simp

lemma resolve_Cons: "resolve st (d # ds) = Option.bind (resolve st [d]) (\<lambda>st. resolve st ds)"
  by simp

lemma path_loop_of:
  assumes "length st \<le> 20" "i + n \<le> length (aDirectory p)"
  shows "path_loop n i p (path_of t st) = Some (map_option (path_of t) (resolve st (take n (drop i (aDirectory p)))))"
  using assms
proof (induction n arbitrary: i st)
  case (Suc n)
  let ?d = "aDirectory p ! i"
  have e: "take (Suc n) (drop i (aDirectory p)) = ?d # take n (drop (i + 1) (aDirectory p))"
    using Suc.prems(2) by (simp add: Cons_nth_drop_Suc [symmetric])
  note R = resolve_Cons [of st ?d "take n (drop (i + 1) (aDirectory p))"]
  show ?case
  proof (cases "resolve st [?d]")
    case None
    then show ?thesis using Suc.prems path_step_of [OF Suc.prems(1), of ?d t] unfolding e R by (simp del: resolve.simps)
  next
    case (Some r)
    then show ?thesis
      using Suc.prems path_step_of [OF Suc.prems(1), of ?d t] Suc.IH [of r "i + 1"] resolve_bound [OF Suc.prems(1) Some]
      unfolding e R by (simp del: resolve.simps)
  qed
qed simp

lemma clear_dirs_dirs:
  "i + n \<le> length (aDirectory p) \<Longrightarrow>
    clear_dirs n i p = Some (p\<lparr>aDirectory := take i (aDirectory p) @ replicate n zero_dir @ drop (i + n) (aDirectory p)\<rparr>)"
proof (induction n arbitrary: i p)
  case (Suc n)
  let ?a = "(aDirectory p)[i := zero_dir]"
  have "take (Suc i) ?a = take i (aDirectory p) @ [zero_dir]" using Suc.prems by (simp add: take_Suc_conv_app_nth)
  then show ?case using Suc.prems Suc.IH [of "i + 1" "p\<lparr>aDirectory := ?a\<rparr>"] by simp
qed simp

lemma copy_dirs_dirs:
  "i + n \<le> length (aDirectory T) \<Longrightarrow> i + n < length (aDirectory p) \<Longrightarrow>
    copy_dirs n i T p = Some (p\<lparr>aDirectory := take (i + 1) (aDirectory p) @ take n (drop i (aDirectory T)) @ drop (i + 1 + n) (aDirectory p)\<rparr>)"
proof (induction n arbitrary: i p)
  case (Suc n)
  let ?a = "(aDirectory p)[Suc i := aDirectory T ! i]"
  have "take (Suc (Suc i)) ?a = take (Suc i) (aDirectory p) @ [aDirectory T ! i]" using Suc.prems by (simp add: take_Suc_conv_app_nth)
  moreover have "take (Suc n) (drop i (aDirectory T)) = aDirectory T ! i # take n (drop (Suc i) (aDirectory T))"
    using Suc.prems by (simp add: Cons_nth_drop_Suc [symmetric])
  ultimately show ?case using Suc.prems Suc.IH [of "i + 1" "p\<lparr>aDirectory := ?a\<rparr>"] by simp
qed simp

section \<open>Parsing\<close>

definition named :: "cstr \<Rightarrow> TDirectory" where "named n = zero_dir\<lparr>cDirectoryName := n\<rparr>"

lemma add_name_of:
  "length ds < 20 \<Longrightarrow> add_name n (path_of t ds) = (if length n \<le> 8 then Some (path_of t (ds @ [named n])) else None)"
proof -
  assume l: "length ds < 20"
  have "aDirectory (path_of t ds) ! length ds = zero_dir" using l by (simp add: path_of_def nth_append)
  then show ?thesis using l path_push [OF l, of t "named n"] by (simp add: add_name_def FS_DIR_NAME_LEN_def named_def)
qed

definition good_name :: "cstr \<Rightarrow> bool" where "good_name n \<longleftrightarrow> n \<noteq> [] \<and> 0x2F \<notin> set n"

fun join :: "cstr list \<Rightarrow> cstr" where
  "join [] = []"
| "join [n] = n"
| "join (n # ns) = n @ 0x2F # join ns"

lemma parse_name: "0x2F \<notin> set n \<Longrightarrow> parse_loop (n @ rest) i start ed b p = parse_loop rest (i + length n) start (ed + length n) b p"
  by (induction n arbitrary: i ed) auto

lemma parse_names:
  assumes "ns \<noteq> []" "\<forall>n\<in>set ns. good_name n" "\<forall>n\<in>set (butlast ns). length n \<le> 8" "length ds + length ns \<le> 20"
  shows "parse_loop (join ns) (length pre) (length pre) (length pre) (pre @ join ns) (path_of t ds) =
    (if length (last ns) \<le> 8 then Some (Some (path_of t (ds @ map named ns))) else None)"
  using assms
proof (induction ns arbitrary: pre ds rule: join.induct)
  case (2 n)
  then have "n \<noteq> []" "0x2F \<notin> set n" "length ds < 20" by (auto simp: good_name_def)
  then show ?case using parse_name [of n "[]" "length pre" "length pre" "length pre"] add_name_of [of ds n t] by simp
next
  case (3 n m ns)
  have n: "n \<noteq> []" "0x2F \<notin> set n" "length n \<le> 8" "length ds < 19" using 3(2-) by (auto simp: good_name_def)
  let ?b = "pre @ join (n # m # ns)"
  have IH: "parse_loop (join (m # ns)) (length pre + length n + 1) (length pre + length n + 1) (length pre + length n + 1) ?b (path_of t (ds @ [named n])) =
      (if length (last (m # ns)) \<le> 8 then Some (Some (path_of t (ds @ [named n] @ map named (m # ns)))) else None)"
    using 3(1) [of "ds @ [named n]" "pre @ n @ [0x2F]"] 3(2-) by simp
  have "parse_loop (join (n # m # ns)) (length pre) (length pre) (length pre) ?b (path_of t ds) =
      parse_loop (0x2F # join (m # ns)) (length pre + length n) (length pre) (length pre + length n) ?b (path_of t ds)"
    using parse_name [OF n(2), of "0x2F # join (m # ns)"] by simp
  also have "\<dots> = parse_loop (join (m # ns)) (length pre + length n + 1) (length pre + length n + 1) (length pre + length n + 1) ?b (path_of t (ds @ [named n]))"
    using n add_name_of [of ds n t] by (simp add: FS_PATH_SERIES_MAX_NUM_def)
  finally show ?case using IH by simp
qed simp

section \<open>Properties\<close>

text \<open>C26: \<open>parserPath\<close> inverts the printing of a path: names without a slash, joined by slashes, come back in order. The length of
  the last name is not checked: a last name of more than eight bytes is written behind the array for it.\<close>

theorem parse_printed_path:
  assumes "ns \<noteq> []" "\<forall>n\<in>set ns. n \<noteq> [] \<and> 0x2F \<notin> set n" "\<forall>n\<in>set (butlast ns). length n \<le> 8" "length ns \<le> 20"
  shows "parserPath ((if full then [0x2F] else []) @ join ns) =
    (if length (last ns) \<le> 8 then Some (Some (path_of (if full then FS_PATH_TYPE_ALL else FS_PATH_TYPE_PART) (map named ns))) else None)"
proof -
  have g: "\<forall>n\<in>set ns. good_name n" using assms(2) by (simp add: good_name_def)
  obtain n ms where ns: "ns = n # ms" using assms(1) by (cases ns) auto
  have "n \<noteq> []" "0x2F \<notin> set n" using assms(2) ns by auto
  then have c: "ch (join ns) \<noteq> 0x2F" unfolding ns by (cases n; cases ms) (auto simp: ch_def)
  have z: "zero_path\<lparr>nPathType := t\<rparr> = path_of t []" for t by (simp add: zero_path_of)
  show ?thesis
  proof (cases full)
    case True
    then show ?thesis using parse_names [OF assms(1) g assms(3), of "[]" "[0x2F]" FS_PATH_TYPE_ALL] assms(4)
      by (simp add: parserPath_def z ch_def)
  next
    case False
    then show ?thesis using parse_names [OF assms(1) g assms(3), of "[]" "[]" FS_PATH_TYPE_PART] assms(4) c
      by (simp add: parserPath_def z)
  qed
qed

theorem parse_printed_path_witness:
  "(\<exists>p. parserPath (map of_char ''/etc/rc'') = Some (Some p) \<and> map cDirectoryName (take 2 (aDirectory p)) = [map of_char ''etc'', map of_char ''rc'']) \<and>
   parserPath (map of_char ''boot/longfilename'') = None"
  using parse_printed_path [of "[map of_char ''etc'', map of_char ''rc'']" True]
    parse_printed_path [of "[map of_char ''boot'', map of_char ''longfilename'']" False]
  by (auto simp: path_of_def named_def)

text \<open>C27: \<open>mergePath\<close> refines the resolution of a path on a stack of directories: a full path starts at the root, another
  one at the current directory; a dot is skipped, two dots go one directory up, and the attempt to leave the root or to
  go deeper than twenty directories fails. The directories that are kept keep their fields, the result contains no dots
  and starts with the root.\<close>

theorem merge_resolves:
  assumes "length (r # ds) < 20" "no_dots (r # ds)" "length (aDirectory target) = 20" "nSeriesNum target + 1 < 20"
  defines "res \<equiv> resolve (if nPathType target = FS_PATH_TYPE_ALL then [r] else r # ds) (take (nSeriesNum target) (aDirectory target))"
  shows "mergePath (path_of t (r # ds)) target = Some (map_option (path_of FS_PATH_TYPE_ALL) res) \<and>
    (\<forall>rs. res = Some rs \<longrightarrow> no_dots rs \<and> rs \<noteq> [] \<and> hd rs = r)"
proof -
  let ?n = "nSeriesNum target" and ?T = "take (nSeriesNum target) (aDirectory target)"
  have d: "no_dots [r]" "no_dots (r # ds)" using assms(2) by (simp_all add: no_dots_def)
  have z: "zero_path\<lparr>nPathType := FS_PATH_TYPE_ALL\<rparr> = path_of FS_PATH_TYPE_ALL []" by (simp add: zero_path_of)
  have clean: "cleanUpPath p zero_path = Some (map_option (path_of FS_PATH_TYPE_ALL) (resolve [] (take (nSeriesNum p) (aDirectory p))))"
    if "nSeriesNum p \<le> length (aDirectory p)" for p
    using path_loop_of [of "[]" 0 "nSeriesNum p" p FS_PATH_TYPE_ALL] that by (simp add: cleanUpPath_def z)
  have post: "\<forall>rs. res = Some rs \<longrightarrow> no_dots rs \<and> rs \<noteq> [] \<and> hd rs = r"
    using resolve_no_dots [of "[r]" ?T] resolve_no_dots [of "r # ds" ?T] resolve_root [of "[r]" ?T] resolve_root [of "r # ds" ?T] d
    unfolding res_def by auto
  show ?thesis
  proof (cases "nPathType target = FS_PATH_TYPE_ALL")
    case True
    let ?p = "path_of t (r # ds)"
    define a where "a = take 1 (aDirectory ?p) @ replicate (length ds) zero_dir @ drop (1 + length ds) (aDirectory ?p)"
    have la: "length a = 20" "take 1 a = [r]" using assms(1) by (simp_all add: a_def path_of_def)
    have c: "clear_dirs (length (r # ds) - 1) 1 ?p = Some (?p\<lparr>aDirectory := a\<rparr>)"
      using clear_dirs_dirs [of 1 "length ds" ?p] assms(1) by (simp add: a_def)
    define b where "b = r # ?T @ drop (Suc ?n) a"
    have "copy_dirs ?n 0 target (?p\<lparr>aDirectory := a\<rparr>) = Some (?p\<lparr>aDirectory := b\<rparr>)"
      using copy_dirs_dirs [of 0 ?n target "?p\<lparr>aDirectory := a\<rparr>"] assms(3,4) la by (simp add: b_def)
    then have "mergePath ?p target = cleanUpPath (?p\<lparr>aDirectory := b, nPathType := FS_PATH_TYPE_ALL, nSeriesNum := ?n + 1\<rparr>) zero_path"
      using True c assms(1,4) by (simp add: mergePath_def FS_PATH_SERIES_MAX_NUM_def)
    also have "\<dots> = Some (map_option (path_of FS_PATH_TYPE_ALL) (resolve [] (r # ?T)))"
      using assms(3,4) la by (subst clean) (simp_all add: b_def)
    also have "resolve [] (r # ?T) = resolve [r] ?T" using d(1) by (simp add: no_dots_def)
    finally show ?thesis using True post by (simp add: res_def)
  next
    case False
    have res: "res = resolve (r # ds) ?T" using False by (simp add: res_def)
    have m: "mergePath (path_of t (r # ds)) target = (case res of None \<Rightarrow> Some None | Some rs \<Rightarrow> cleanUpPath (path_of t rs) zero_path)"
      using path_loop_of [of "r # ds" 0 ?n target t] False assms(1,3,4)
      by (simp add: mergePath_def FS_PATH_SERIES_MAX_NUM_def res split: option.split)
    show ?thesis
    proof (cases res)
      case None
      then show ?thesis using m by simp
    next
      case (Some rs)
      have "length rs \<le> 20" using resolve_bound [of "r # ds" ?T rs] Some res assms(1) by simp
      moreover have "no_dots rs" using post Some by blast
      ultimately show ?thesis using m Some post clean [of "path_of t rs"] resolve_clean [of rs "[]"] by simp
    qed
  qed
qed

theorem merge_resolves_witness:
  "\<exists>p. mergePath (path_of 0 [named (map of_char ''root''), named (map of_char ''a'')]) (path_of 1 [named dotdot, named dot, named (map of_char ''b'')]) =
     Some (Some p) \<and> map cDirectoryName (take (nSeriesNum p) (aDirectory p)) = [map of_char ''root'', map of_char ''b'']"
proof -
  let ?r = "named (map of_char ''root'')" and ?a = "named (map of_char ''a'')" and ?b = "named (map of_char ''b'')"
  let ?T = "path_of 1 [named dotdot, named dot, ?b]"
  have d: "no_dots [?r, ?a]" by (simp add: no_dots_def named_def dot_def dotdot_def)
  have "resolve [?r, ?a] [named dotdot, named dot, ?b] = Some [?r, ?b]" by (simp add: named_def dot_def dotdot_def)
  then have R: "resolve [?r, ?a] (take (nSeriesNum ?T) (aDirectory ?T)) = Some [?r, ?b]" by (simp only: path_of_fields)
  have "nPathType ?T \<noteq> FS_PATH_TYPE_ALL" by (simp add: FS_PATH_TYPE_ALL_def)
  then have "mergePath (path_of 0 [?r, ?a]) ?T = Some (Some (path_of FS_PATH_TYPE_ALL [?r, ?b]))"
    using merge_resolves [OF _ d, of ?T 0] R by simp
  then show ?thesis by (simp add: path_of_def named_def)
qed

end
