(* ===== verification/FatFs.thy ===== *)
theory FatFs
  imports FatDir FatFormal PartMan Path
begin

text \<open>
  The FAT file system, \<^verbatim>\<open>env/lib/fs/fatfs.c\<close>: mounting, directories, and the files that are open. A \<open>FILE\<close> is an entry of
  the table of the file system and a pointer to one is its index. The copy of the directory that an open file keeps on
  the heap is found in \<open>dir_heap\<close> under its address. The data that a client passes or receives are lists of bytes.
\<close>

section \<open>Files\<close>

record FILE =
  f_nUseCount :: u32
  f_cFileName :: cstr
  f_nSize :: u32
  f_nOffset :: u32
  f_nCluster :: u32
  f_nFirstCluster :: u32
  f_pBuffer :: ptr
  f_bWrite :: bool
  f_upperDir :: ptr

record fat_files = fat_dir +
  g_pFileSystem :: ptr
  m_PartitionManager :: TPartitionManager
  m_Files :: "FILE list"
  dir_heap :: "ptr \<Rightarrow> TDirectory"

definition FAT_FILES :: nat where "FAT_FILES = 40"
definition FAT_MAX_FILESIZE :: u32 where "FAT_MAX_FILESIZE = 0xFFFFFFFF"
definition FS_TITLE_LEN :: nat where "FS_TITLE_LEN = 12"
definition FS_ERROR :: u32 where "FS_ERROR = 0xFFFFFFFF"
definition FS_DIR_OPEN_SUCCESS :: u32 where "FS_DIR_OPEN_SUCCESS = 0"
definition FS_DIR_NOT_EXIST :: u32 where "FS_DIR_NOT_EXIST = 1"
definition FS_DIR_CREATE_SUCCESS :: u32 where "FS_DIR_CREATE_SUCCESS = 0"
definition FS_DIR_CREATE_EXISTED :: u32 where "FS_DIR_CREATE_EXISTED = 1"
definition FS_DIR_CREATE_FAILED :: u32 where "FS_DIR_CREATE_FAILED = 2"
definition FS_ROOT_UPPER_CLUSTER :: u32 where "FS_ROOT_UPPER_CLUSTER = 0xFFFFFFFF"
definition FAT_DIR_ATTR_READ_ONLY :: u8 where "FAT_DIR_ATTR_READ_ONLY = 0x01"
definition FAT_SEEK_SET :: u32 where "FAT_SEEK_SET = 0"
definition FAT_SEEK_END :: u32 where "FAT_SEEK_END = 2"
definition sizeof_TFATFileSystem :: u32 where "sizeof_TFATFileSystem = 2064"
definition sizeof_TDirectory :: u32 where "sizeof_TDirectory = 28"

definition zero_file :: FILE where
  "zero_file = \<lparr>f_nUseCount = 0, f_cFileName = [], f_nSize = 0, f_nOffset = 0, f_nCluster = 0, f_nFirstCluster = 0,
     f_pBuffer = NULL, f_bWrite = False, f_upperDir = NULL\<rparr>"

definition upd_file :: "nat \<Rightarrow> (FILE \<Rightarrow> FILE) \<Rightarrow> 'a fat_files_scheme \<Rightarrow> 'a fat_files_scheme option" where
  "upd_file h f s = do {
     x \<leftarrow> rd (m_Files s) h;
     fs \<leftarrow> wr (m_Files s) h (f x);
     Some (s\<lparr>m_Files := fs\<rparr>) }"

section \<open>Mounting\<close>

definition CFATFileSystem :: "'a fat_files_scheme \<Rightarrow> u32 \<times> 'a fat_files_scheme" where
  "CFATFileSystem s =
     (let (p, h) = malloc sizeof_TFATFileSystem (mem s); s = s\<lparr>mem := h, g_pFileSystem := p\<rparr> in
      if p = NULL then (ENOMEM, s)
      else
        let s = s\<lparr>m_PartitionManager := CPartitionManager (map of_char ''emmc1''), m_Cache := CFATCache (m_Cache s)\<rparr>;
            s = CFATDirectory (CFATInfo s)
        in (1, s\<lparr>m_Files := replicate FAT_FILES zero_file\<rparr>))"

definition destroy_CFATFileSystem :: "'a fat_files_scheme \<Rightarrow> 'a fat_files_scheme" where
  "destroy_CFATFileSystem s =
     (let s = destroy_CFATInfo s in s\<lparr>mem := free (g_pFileSystem s) (mem s), g_pFileSystem := NULL\<rparr>)"

text \<open>A failed allocation in \<open>CFATFileSystem\<close> is reported as \<open>ENOMEM\<close>, which the test takes for success; the structure is then
  accessed through \<open>NULL\<close>. \<open>raw\<close> is what the memory of the cluster buffers holds.\<close>

definition FATFileSystemMount :: "u8 list \<Rightarrow> (ptr \<Rightarrow> u8 list) \<Rightarrow> 'a fat_files_scheme \<Rightarrow> (u32 \<times> 'a fat_files_scheme) option" where
  "FATFileSystemMount stack raw s = do {
     (r, s) \<leftarrow> Some (CFATFileSystem s);
     if r = 0 then Some (0, s)
     else do {
       assert (g_pFileSystem s \<noteq> NULL);
       (r, pm, h, m) \<leftarrow> PartitionManagerInitialize stack (m_PartitionManager s) (mem s) (mmc_dev s);
       s \<leftarrow> Some (s\<lparr>m_PartitionManager := pm, mem := h, mmc_dev := m\<rparr>);
       if r = 0 then Some (0, s)
       else do {
         p \<leftarrow> PartitionManagerGetPartition pm (map of_char ''emmc1-1'');
         (r, s) \<leftarrow> FATCacheOpen (map_option snd p) s;
         if r = 0 then Some (0, s)
         else do {
           (fin, s) \<leftarrow> isFatFormalFin s;
           s \<leftarrow> (if \<not> fin then do { q \<leftarrow> p; FormatFat32Disk (snd q) s } else Some s);
           (ok, s) \<leftarrow> FATInfoInitialize raw s;
           if \<not> ok then do { s \<leftarrow> FATCacheClose s; Some (0, s) } else Some (1, s) } } } }"

definition FATFileSystemUnMount :: "'a fat_files_scheme \<Rightarrow> 'a fat_files_scheme option" where
  "FATFileSystemUnMount s = do {
     s \<leftarrow> FATInfoUpdateFSInfo s;
     s \<leftarrow> FATCacheClose s;
     Some (destroy_CFATFileSystem s) }"

definition FATFileSystemSynchronize :: "'a fat_files_scheme \<Rightarrow> 'a fat_files_scheme option" where
  "FATFileSystemSynchronize s = do {
     s \<leftarrow> FATInfoUpdateFSInfo s;
     s \<leftarrow> FATCacheFlush s;
     FATCacheClusterFlush s }"

section \<open>Directories\<close>

definition FATFileSystemDirFindFirst ::
  "u8 list \<Rightarrow> TDirectory \<Rightarrow> TFindCurrentEntry \<Rightarrow> 'a fat_files_scheme \<Rightarrow> (TDirentry option \<times> TFindCurrentEntry \<times> 'a fat_files_scheme) option" where
  "FATFileSystemDirFindFirst stack pUpperDir cur s =
     FATDirectoryFindFirst stack (cur\<lparr>cur_nCluster := nCurDirFirstCluster pUpperDir, cur_nEntry := 0\<rparr>) s"

definition FATFileSystemDirFindNext ::
  "u8 list \<Rightarrow> TDirectory \<Rightarrow> TFindCurrentEntry \<Rightarrow> 'a fat_files_scheme \<Rightarrow> (TDirentry option \<times> TFindCurrentEntry \<times> 'a fat_files_scheme) option" where
  "FATFileSystemDirFindNext stack pUpperDir cur s =
     FATDirectoryFindNext stack (if cur_nEntry cur = 0 then cur\<lparr>cur_nCluster := nCurDirFirstCluster pUpperDir\<rparr> else cur) s"

text \<open>The name of the root, written by \<open>FATDirectoryFAT2Name\<close>, must fit into the nine bytes of the directory name.\<close>

definition FATFileSystemRootDirOpen :: "u8 list \<Rightarrow> TDirectory \<Rightarrow> 'a fat_files_scheme \<Rightarrow> (u32 \<times> TDirectory \<times> 'a fat_files_scheme) option" where
  "FATFileSystemRootDirOpen stack pTargetDir s = do {
     (nOffset, s) \<leftarrow> FATDirectoryGetRootEntry s;
     c \<leftarrow> FATInfoGetRootCluster (m_FATInfo s);
     n \<leftarrow> Some (FATDirectoryFAT2Name stack (Dir_Name (dir_data s) nOffset));
     assert (length n \<le> FS_DIR_NAME_LEN);
     s \<leftarrow> FATDirectoryFreeEntry False s;
     Some (FS_DIR_OPEN_SUCCESS, pTargetDir\<lparr>nCurDirFirstCluster := c, nUpperDirFirstCluster := FS_ROOT_UPPER_CLUSTER,
       cDirectoryName := n, nInitFlg := 1\<rparr>, s) }"

definition entry_cluster :: "u8 list \<Rightarrow> nat \<Rightarrow> u32" where
  "entry_cluster d i = push_bit 16 (ucast (Dir_nFirstClusterHigh d i)) OR ucast (Dir_nFirstClusterLow d i)"

definition FATFileSystemDirOpen :: "TDirectory \<Rightarrow> TDirectory \<Rightarrow> 'a fat_files_scheme \<Rightarrow> (u32 \<times> TDirectory \<times> 'a fat_files_scheme) option" where
  "FATFileSystemDirOpen pUpperDir pTargetDir s = do {
     (e, s) \<leftarrow> FATDirectoryGetEntry (nCurDirFirstCluster pUpperDir) (cDirectoryName pTargetDir) s;
     case e of
       None \<Rightarrow> Some (FS_DIR_NOT_EXIST, pTargetDir, s)
     | Some i \<Rightarrow> do {
         c \<leftarrow> Some (entry_cluster (dir_data s) i);
         s \<leftarrow> FATDirectoryFreeEntry False s;
         Some (FS_DIR_OPEN_SUCCESS, pTargetDir\<lparr>nCurDirFirstCluster := c, nUpperDirFirstCluster := nCurDirFirstCluster pUpperDir,
           nInitFlg := 1\<rparr>, s) } }"

text \<open>The creation of the entry of a directory or of one of its two dot entries, with the write-back behind it.\<close>

definition make_entry :: "u32 \<Rightarrow> u32 \<Rightarrow> u32 \<Rightarrow> u32 \<Rightarrow> cstr \<Rightarrow> 'a fat_files_scheme \<Rightarrow> (bool \<times> 'a fat_files_scheme) option" where
  "make_entry nTime nUpper nFirst createType pName s = do {
     (e, s) \<leftarrow> FATDirectoryCreateEntry nTime nUpper nFirst createType pName s;
     case e of
       None \<Rightarrow> Some (False, s)
     | Some _ \<Rightarrow> do { s \<leftarrow> FATDirectoryFreeEntry True s; s \<leftarrow> FATFileSystemSynchronize s; Some (True, s) } }"

definition FATFileSystemDirCreate :: "u32 \<Rightarrow> TDirectory \<Rightarrow> cstr \<Rightarrow> 'a fat_files_scheme \<Rightarrow> (u32 \<times> 'a fat_files_scheme) option" where
  "FATFileSystemDirCreate nTime pUpperDir pDirName s = do {
     (e, s) \<leftarrow> FATDirectoryGetEntry (nCurDirFirstCluster pUpperDir) pDirName s;
     if e \<noteq> None then do { s \<leftarrow> FATDirectoryFreeEntry False s; Some (FS_DIR_CREATE_EXISTED, s) }
     else do {
       (nFirstCluster, s) \<leftarrow> FATAllocateCluster s;
       if nFirstCluster = 0 then Some (FS_ERROR, s)
       else do {
         (ok, s) \<leftarrow> make_entry nTime (nCurDirFirstCluster pUpperDir) nFirstCluster 0 pDirName s;
         if \<not> ok then Some (FS_DIR_CREATE_FAILED, s)
         else do {
           (ok, s) \<leftarrow> make_entry nTime nFirstCluster nFirstCluster 1 dot s;
           if \<not> ok then Some (FS_DIR_CREATE_FAILED, s)
           else do {
             (ok, s) \<leftarrow> make_entry nTime nFirstCluster (nCurDirFirstCluster pUpperDir) 1 dotdot s;
             Some (if ok then FS_DIR_CREATE_SUCCESS else FS_DIR_CREATE_FAILED, s) } } } } }"

section \<open>Opening, creating, deleting and closing files\<close>

text \<open>The search for a free entry of the table. Opening fails if an entry before the first free one has the name.\<close>

primrec open_slot :: "nat \<Rightarrow> nat \<Rightarrow> cstr \<Rightarrow> FILE list \<Rightarrow> nat option option" where
  "open_slot 0 h pTitle fs = Some None"
| "open_slot (Suc n) h pTitle fs = do {
     f \<leftarrow> rd fs h;
     if f_cFileName f = pTitle then Some None
     else if f_nUseCount f = 0 then Some (Some h)
     else open_slot n (h + 1) pTitle fs }"

primrec free_file :: "nat \<Rightarrow> nat \<Rightarrow> FILE list \<Rightarrow> nat option option" where
  "free_file 0 h fs = Some None"
| "free_file (Suc n) h fs = do { f \<leftarrow> rd fs h; if f_nUseCount f = 0 then Some (Some h) else free_file n (h + 1) fs }"

text \<open>The copy of the directory; without memory for it the code returns \<open>NULL\<close> and leaves the entry in use.\<close>

definition keep_dir :: "nat \<Rightarrow> TDirectory \<Rightarrow> 'a fat_files_scheme \<Rightarrow> (bool \<times> 'a fat_files_scheme) option" where
  "keep_dir h pUpperDir s = do {
     (p, a) \<leftarrow> Some (malloc sizeof_TDirectory (mem s));
     s \<leftarrow> upd_file h (\<lambda>f. f\<lparr>f_upperDir := p\<rparr>) (s\<lparr>mem := a\<rparr>);
     Some (p \<noteq> NULL, if p = NULL then s else s\<lparr>dir_heap := (dir_heap s)(p := pUpperDir)\<rparr>) }"

definition FATFileSystemFileOpen :: "TDirectory \<Rightarrow> cstr \<Rightarrow> u32 \<Rightarrow> 'a fat_files_scheme \<Rightarrow> (nat option \<times> 'a fat_files_scheme) option" where
  "FATFileSystemFileOpen pUpperDir pTitle mode s = do {
     r \<leftarrow> open_slot FAT_FILES 0 pTitle (m_Files s);
     case r of
       None \<Rightarrow> Some (None, s)
     | Some h \<Rightarrow> do {
         (e, s) \<leftarrow> FATDirectoryGetEntry (nCurDirFirstCluster pUpperDir) pTitle s;
         case e of
           None \<Rightarrow> Some (None, s)
         | Some i \<Rightarrow> do {
             d \<leftarrow> Some (dir_data s);
             s \<leftarrow> upd_file h (\<lambda>f. f\<lparr>f_nUseCount := 1, f_cFileName := take FS_TITLE_LEN pTitle, f_nSize := Dir_nFileSize d i\<rparr>) s;
             (ok, s) \<leftarrow> keep_dir h pUpperDir s;
             if \<not> ok then Some (None, s)
             else do {
               c \<leftarrow> Some (entry_cluster d i);
               s \<leftarrow> upd_file h (\<lambda>f. f\<lparr>f_nFirstCluster := c\<rparr>) s;
               (p, s) \<leftarrow>
                 (if mode = 0 then do {
                    s \<leftarrow> upd_file h (\<lambda>f. f\<lparr>f_nOffset := 0, f_bWrite := False, f_nCluster := c\<rparr>) s;
                    FATCacheGetCluster c False s }
                  else do {
                    s \<leftarrow> upd_file h (\<lambda>f. f\<lparr>f_nOffset := Dir_nFileSize d i, f_bWrite := True\<rparr>) s;
                    (l, s) \<leftarrow> FATGetFileLastCluster c s;
                    s \<leftarrow> upd_file h (\<lambda>f. f\<lparr>f_nCluster := l\<rparr>) s;
                    FATCacheGetCluster l True s });
               s \<leftarrow> upd_file h (\<lambda>f. f\<lparr>f_pBuffer := p\<rparr>) s;
               assert (p \<noteq> NULL);
               s \<leftarrow> FATDirectoryFreeEntry False s;
               Some (Some h, s) } } } }"

text \<open>The result is the value that the function returns, read as a signed integer.\<close>

definition FATFileSystemFileDelete :: "TDirectory \<Rightarrow> cstr \<Rightarrow> 'a fat_files_scheme \<Rightarrow> (int \<times> 'a fat_files_scheme) option" where
  "FATFileSystemFileDelete pUpperDir pTitle s = do {
     (e, s) \<leftarrow> FATDirectoryGetEntry (nCurDirFirstCluster pUpperDir) pTitle s;
     case e of
       None \<Rightarrow> Some (0, s)
     | Some i \<Rightarrow>
         if Dir_nAttributes (dir_data s) i AND FAT_DIR_ATTR_READ_ONLY \<noteq> 0
         then do { s \<leftarrow> FATDirectoryFreeEntry True s; Some (-1, s) }
         else do {
           c \<leftarrow> Some (entry_cluster (dir_data s) i);
           s \<leftarrow> (if c \<noteq> 0 then FATFreeClusterChain c s else Some s);
           s \<leftarrow> Some (set_dir_data (\<lambda>d. d[i := FAT_DIR_NAME0_FREE]) s);
           s \<leftarrow> FATDirectoryFreeEntry True s;
           Some (1, s) } }"

definition FATFileSystemFileCreate :: "u32 \<Rightarrow> TDirectory \<Rightarrow> cstr \<Rightarrow> 'a fat_files_scheme \<Rightarrow> (nat option \<times> 'a fat_files_scheme) option" where
  "FATFileSystemFileCreate nTime pUpperDir pFileName s = do {
     r \<leftarrow> free_file FAT_FILES 0 (m_Files s);
     case r of
       None \<Rightarrow> Some (None, s)
     | Some h \<Rightarrow> do {
         (r, s) \<leftarrow> FATFileSystemFileDelete pUpperDir pFileName s;
         if r < 0 then Some (None, s)
         else do {
           (ok, s) \<leftarrow> make_entry nTime (nCurDirFirstCluster pUpperDir) 0 2 pFileName s;
           if \<not> ok then Some (None, s)
           else do {
             s \<leftarrow> upd_file h (\<lambda>f. f\<lparr>f_nUseCount := 1, f_cFileName := take FS_TITLE_LEN pFileName, f_nSize := 0, f_nOffset := 0,
               f_nCluster := 0, f_nFirstCluster := 0, f_pBuffer := NULL, f_bWrite := True\<rparr>) s;
             (ok, s) \<leftarrow> keep_dir h pUpperDir s;
             Some (if ok then Some h else None, s) } } } }"

text \<open>What closing a file that was written stores in its entry.\<close>

definition close_entry :: "nat \<Rightarrow> u32 \<Rightarrow> u32 \<Rightarrow> u32 \<Rightarrow> u8 list \<Rightarrow> u8 list" where
  "close_entry i c sz nDateTime d =
     (let d = d[i + 11 := d ! (i + 11) OR FAT_DIR_ATTR_ARCHIVE];
          d = set_first_cluster i c d;
          d = put32 (i + 28) sz d;
          d = put16 (i + 24) (ucast (drop_bit 16 nDateTime)) d
      in put16 (i + 22) (ucast nDateTime) d)"

definition FATFileSystemFileClose :: "u32 \<Rightarrow> nat \<Rightarrow> 'a fat_files_scheme \<Rightarrow> (u32 \<times> 'a fat_files_scheme) option" where
  "FATFileSystemFileClose nTime h s = do {
     f \<leftarrow> rd (m_Files s) h;
     if f_nUseCount f = 0 then Some (0, s)
     else if f_nUseCount f > 1 then do { s \<leftarrow> upd_file h (\<lambda>f. f\<lparr>f_nUseCount := f_nUseCount f - 1\<rparr>) s; Some (1, s) }
     else do {
       s \<leftarrow> (if f_pBuffer f \<noteq> NULL then do {
              s \<leftarrow> FATCacheFreeCluster (f_pBuffer f) False s; upd_file h (\<lambda>f. f\<lparr>f_pBuffer := NULL\<rparr>) s } else Some s);
       s \<leftarrow> (if f_bWrite f then do {
              assert (f_upperDir f \<noteq> NULL);
              (e, s) \<leftarrow> FATDirectoryGetEntry (nCurDirFirstCluster (dir_heap s (f_upperDir f))) (f_cFileName f) s;
              s \<leftarrow> (case e of None \<Rightarrow> Some s
                    | Some i \<Rightarrow> do {
                        nDateTime \<leftarrow> FATDirectoryTime2FAT nTime;
                        FATDirectoryFreeEntry True (set_dir_data (close_entry i (f_nFirstCluster f) (f_nSize f) nDateTime) s) });
              FATFileSystemSynchronize s } else Some s);
       s \<leftarrow> Some (if f_upperDir f \<noteq> NULL then s\<lparr>mem := free (f_upperDir f) (mem s)\<rparr> else s);
       s \<leftarrow> upd_file h (\<lambda>_. zero_file) s;
       Some (1, s) } }"

section \<open>Reading, writing and seeking\<close>

definition cluster_size :: "'a fat_fs_scheme \<Rightarrow> u32" where
  "cluster_size s = FAT_SECTOR_SIZE * m_nSectorsPerCluster (m_FATInfo s)"

text \<open>How many bytes a round of the loops copies: not more than are left, than are asked for, and than fit into the
  cluster.\<close>

definition copy_bytes :: "u32 \<Rightarrow> u32 \<Rightarrow> u32 \<Rightarrow> u32 \<Rightarrow> u32" where
  "copy_bytes ulBytesLeft ulBytes uClusterSize nOffset =
     (let n = (if ulBytesLeft > uClusterSize then uClusterSize else ulBytesLeft);
          n = (if n > ulBytes then ulBytes else n);
          ulBlockOffset = nOffset mod uClusterSize
      in if n > uClusterSize - ulBlockOffset then uClusterSize - ulBlockOffset else n)"


definition set_cdata :: "ptr \<Rightarrow> u8 list \<Rightarrow> 'a fat_state_scheme \<Rightarrow> 'a fat_state_scheme" where
  "set_cdata p d s = s\<lparr>m_Cache := (m_Cache s)\<lparr>m_ClusterBufList := upd p (\<lambda>x. x\<lparr>Data := d\<rparr>) (m_ClusterBufList (m_Cache s))\<rparr>\<rparr>"

text \<open>The buffer of the next cluster; \<^term>\<open>False\<close> where the code returns \<open>FS_ERROR\<close>.\<close>

definition read_buffer :: "nat \<Rightarrow> 'a fat_files_scheme \<Rightarrow> (bool \<times> 'a fat_files_scheme) option" where
  "read_buffer h s = do {
     f \<leftarrow> rd (m_Files s) h;
     if f_pBuffer f \<noteq> NULL then Some (True, s)
     else do {
       (eoc, c, s) \<leftarrow>
         (if f_nOffset f > 0 then do {
            (c, s) \<leftarrow> FATGetClusterEntry (f_nCluster f) s;
            s \<leftarrow> upd_file h (\<lambda>f. f\<lparr>f_nCluster := c\<rparr>) s;
            e \<leftarrow> FATIsEOC c s;
            Some (e, c, s) }
          else Some (False, f_nCluster f, s));
       if eoc then Some (False, s)
       else do {
         (p, s) \<leftarrow> FATCacheGetCluster c False s;
         s \<leftarrow> upd_file h (\<lambda>f. f\<lparr>f_pBuffer := p\<rparr>) s;
         assert (p \<noteq> NULL);
         Some (True, s) } } }"

text \<open>The end of a round: at the end of a cluster its buffer is released.\<close>

definition advance :: "nat \<Rightarrow> u32 \<Rightarrow> 'a fat_files_scheme \<Rightarrow> 'a fat_files_scheme option" where
  "advance h n s = do {
     s \<leftarrow> upd_file h (\<lambda>f. f\<lparr>f_nOffset := f_nOffset f + n\<rparr>) s;
     f \<leftarrow> rd (m_Files s) h;
     if f_nOffset f mod cluster_size s = 0 then do {
       s \<leftarrow> FATCacheFreeCluster (f_pBuffer f) False s;
       upd_file h (\<lambda>f. f\<lparr>f_pBuffer := NULL\<rparr>) s }
     else Some s }"

partial_function (option) read_loop :: "nat \<Rightarrow> u32 \<Rightarrow> u32 \<Rightarrow> 'a fat_files_scheme \<Rightarrow> (u32 \<times> u8 list \<times> 'a fat_files_scheme) option" where
  "read_loop h ulBytes ulBytesRead s =
     (if ulBytes = 0 then Some (ulBytesRead, [], s)
      else do {
        f \<leftarrow> rd (m_Files s) h;
        assert (f_nSize f \<ge> f_nOffset f);
        ulBytesLeft \<leftarrow> Some (f_nSize f - f_nOffset f);
        if ulBytesLeft = 0 then Some (ulBytesRead, [], s)
        else do {
          (ok, s) \<leftarrow> read_buffer h s;
          if \<not> ok then Some (FS_ERROR, [], s)
          else do {
            f \<leftarrow> rd (m_Files s) h;
            assert (cluster_size s \<noteq> 0);
            n \<leftarrow> Some (copy_bytes ulBytesLeft ulBytes (cluster_size s) (f_nOffset f));
            assert (n > 0);
            d \<leftarrow> Some (take (unat n) (drop (unat (f_nOffset f mod cluster_size s)) (Data (cbuf s (f_pBuffer f)))));
            s \<leftarrow> advance h n s;
            (r, ds, s) \<leftarrow> read_loop h (ulBytes - n) (ulBytesRead + n) s;
            Some (r, d @ ds, s) } } })"

text \<open>The value returned, and the bytes stored in the buffer of the client.\<close>

definition FATFileSystemFileRead :: "nat \<Rightarrow> u32 \<Rightarrow> 'a fat_files_scheme \<Rightarrow> (u32 \<times> u8 list \<times> 'a fat_files_scheme) option" where
  "FATFileSystemFileRead h ulBytes s = do {
     f \<leftarrow> rd (m_Files s) h;
     if f_nUseCount f = 0 \<or> f_bWrite f \<or> ulBytes = 0 then Some (FS_ERROR, [], s) else read_loop h ulBytes 0 s }"

definition write_buffer :: "nat \<Rightarrow> 'a fat_files_scheme \<Rightarrow> (bool \<times> 'a fat_files_scheme) option" where
  "write_buffer h s = do {
     f \<leftarrow> rd (m_Files s) h;
     if f_pBuffer f \<noteq> NULL then Some (True, s)
     else do {
       assert (m_nSectorsPerCluster (m_FATInfo s) \<noteq> 0);
       (ok, s) \<leftarrow>
         (if f_nOffset f div FAT_SECTOR_SIZE mod m_nSectorsPerCluster (m_FATInfo s) = 0 then do {
            (c, s) \<leftarrow> FATAllocateCluster s;
            if c = 0 then Some (False, s)
            else do {
              s \<leftarrow> (if f_nFirstCluster f = 0 then upd_file h (\<lambda>f. f\<lparr>f_nFirstCluster := c\<rparr>) s
                    else FATSetClusterEntry (f_nCluster f) c s);
              s \<leftarrow> upd_file h (\<lambda>f. f\<lparr>f_nCluster := c\<rparr>) s;
              Some (True, s) } }
          else Some (True, s));
       if \<not> ok then Some (False, s)
       else do {
         f \<leftarrow> rd (m_Files s) h;
         (p, s) \<leftarrow> FATCacheGetCluster (f_nCluster f) True s;
         s \<leftarrow> upd_file h (\<lambda>f. f\<lparr>f_pBuffer := p\<rparr>) s;
         assert (p \<noteq> NULL);
         Some (True, s) } } }"

partial_function (option) write_loop :: "nat \<Rightarrow> u8 list \<Rightarrow> u32 \<Rightarrow> u32 \<Rightarrow> 'a fat_files_scheme \<Rightarrow> (u32 \<times> 'a fat_files_scheme) option" where
  "write_loop h src ulBytes ulBytesWritten s =
     (if ulBytes = 0 then Some (ulBytesWritten, s)
      else do {
        f \<leftarrow> rd (m_Files s) h;
        ulBytesLeft \<leftarrow> Some (FAT_MAX_FILESIZE - f_nSize f);
        if ulBytesLeft = 0 then Some (ulBytesWritten, s)
        else do {
          (ok, s) \<leftarrow> write_buffer h s;
          if \<not> ok then Some (FS_ERROR, s)
          else do {
            f \<leftarrow> rd (m_Files s) h;
            assert (cluster_size s \<noteq> 0);
            n \<leftarrow> Some (copy_bytes ulBytesLeft ulBytes (cluster_size s) (f_nOffset f));
            assert (n > 0);
            s \<leftarrow> Some (set_cdata (f_pBuffer f)
              (splice (unat (f_nOffset f mod cluster_size s)) (take (unat n) src) (Data (cbuf s (f_pBuffer f)))) s);
            s \<leftarrow> FATCacheMarkClusterDirty (f_pBuffer f) s;
            assert (f_nOffset f + n < FAT_MAX_FILESIZE);
            assert (f_nSize f + n = f_nOffset f + n);
            s \<leftarrow> upd_file h (\<lambda>f. f\<lparr>f_nSize := f_nSize f + n\<rparr>) s;
            s \<leftarrow> advance h n s;
            write_loop h (drop (unat n) src) (ulBytes - n) (ulBytesWritten + n) s } } })"

definition FATFileSystemFileWrite :: "nat \<Rightarrow> u8 list \<Rightarrow> u32 \<Rightarrow> 'a fat_files_scheme \<Rightarrow> (u32 \<times> 'a fat_files_scheme) option" where
  "FATFileSystemFileWrite h src ulBytes s = do {
     f \<leftarrow> rd (m_Files s) h;
     if f_nUseCount f = 0 \<or> \<not> f_bWrite f \<or> ulBytes = 0 then Some (FS_ERROR, s) else write_loop h src ulBytes 0 s }"

definition FATFileSystemGetSize :: "nat \<Rightarrow> 'a fat_files_scheme \<Rightarrow> u32 option" where
  "FATFileSystemGetSize h s = do { f \<leftarrow> rd (m_Files s) h; Some (f_nSize f) }"

text \<open>The position to seek to; \<^term>\<open>None\<close> where the code returns 0.\<close>

definition seek_offset :: "FILE \<Rightarrow> u32 \<Rightarrow> u32 \<Rightarrow> u32 option" where
  "seek_offset f offset fromwhere =
     (if fromwhere = FAT_SEEK_SET then
        if sint offset < 0 \<or> sint offset \<ge> sint (f_nSize f) then None else Some offset
      else if fromwhere = FAT_SEEK_END then
        if sint offset > 0 \<or> sint (f_nSize f + offset) < 0 then None else Some (f_nSize f + offset)
      else if sint (f_nOffset f + offset) \<ge> sint (f_nSize f) \<or> sint (f_nOffset f + offset) < 0 then None
      else Some (f_nOffset f + offset))"

definition FATFileSystemFileSeek :: "nat \<Rightarrow> u32 \<Rightarrow> u32 \<Rightarrow> 'a fat_files_scheme \<Rightarrow> (u32 \<times> 'a fat_files_scheme) option" where
  "FATFileSystemFileSeek h offset fromwhere s = do {
     f \<leftarrow> rd (m_Files s) h;
     case seek_offset f offset fromwhere of
       None \<Rightarrow> Some (0, s)
     | Some nSeekOffset \<Rightarrow> do {
         (c, s) \<leftarrow> FATGetFileCluster (f_nFirstCluster f) nSeekOffset s;
         if c = 0 then Some (0, s)
         else do {
           s \<leftarrow> upd_file h (\<lambda>f. f\<lparr>f_nOffset := nSeekOffset\<rparr>) s;
           if f_nCluster f = c then Some (1, s)
           else do {
             s \<leftarrow> upd_file h (\<lambda>f. f\<lparr>f_nCluster := c\<rparr>) s;
             s \<leftarrow> (if f_pBuffer f \<noteq> NULL then do {
                    s \<leftarrow> FATCacheFreeCluster (f_pBuffer f) False s; upd_file h (\<lambda>f. f\<lparr>f_pBuffer := NULL\<rparr>) s } else Some s);
             (p, s) \<leftarrow> FATCacheGetCluster c (f_bWrite f) s;
             s \<leftarrow> upd_file h (\<lambda>f. f\<lparr>f_pBuffer := p\<rparr>) s;
             assert (p \<noteq> NULL);
             Some (1, s) } } } }"

end
