(* ===== verification/ClusterCache.thy ===== *)
theory ClusterCache
  imports FatProps
begin

text \<open>
  The two caches of a volume together. They share the card, and writing a buffer of one back changes sectors of which the
  other may hold a copy: the caches are independent as long as no cached sector belongs to a cached cluster. Here
  is what each operation on one of them leaves alone of the other.
\<close>

section \<open>Which sectors an operation writes, and which keys it adds\<close>

definition keys :: "'a blist \<Rightarrow> ptr set \<Rightarrow> u32 set" where
  "keys L A = {k. k \<noteq> BUFFER_NOSECTOR \<and> (\<exists>a\<in>A. nKey (buf L a) = k)}"

lemma relinked_links:
  "relinked L (upd a (\<lambda>x. x\<lparr>bf_pNext := v\<rparr>) M) \<longleftrightarrow> relinked L M" "relinked L (upd a (\<lambda>x. x\<lparr>bf_pPrev := v\<rparr>) M) \<longleftrightarrow> relinked L M"
  "relinked L (M\<lparr>pFirst := v\<rparr>) \<longleftrightarrow> relinked L M" "relinked L (M\<lparr>pLast := v\<rparr>) \<longleftrightarrow> relinked L M"
  by (auto simp: relinked_def)

lemma move_first_relinked: "move_first p L = Some L' \<Longrightarrow> relinked L L'"
  by (auto simp: move_first_def Let_def relinked_links split: if_splits)

lemma move_last_relinked: "move_last p L = Some L' \<Longrightarrow> relinked L L'"
  by (auto simp: move_last_def Let_def relinked_links split: if_splits)

lemma free_buffer_key: "free_buffer p c L = Some L' \<Longrightarrow> nKey (buf L' a) = nKey (buf L a)"
  by (auto simp: free_buffer_def assert_def split: if_splits dest!: move_last_relinked relinked_fields(2) [where a = a])

lemma mark_dirty_key: "mark_dirty p L = Some L' \<Longrightarrow> nKey (buf L' a) = nKey (buf L a)"
  by (auto simp: mark_dirty_def assert_def split: if_splits)

context backing_store
begin

lemma fill_frame:
  assumes "BOK W xs L" "good m" "valid key" "p \<in> set xs" and run: "fill_buffer ld key wo p L m = Some (q, L', m')"
  shows "blocks m' = blocks m" "nKey (buf L' p) \<in> {key, BUFFER_NOSECTOR}" "a \<noteq> p \<Longrightarrow> nKey (buf L' a) = nKey (buf L a)"
proof -
  let ?b = "(buf L p)\<lparr>nUseCount := 1, nKey := key, bDirty := False\<rparr>"
  note B = buffers_okD [OF assms(1,4)]
  obtain ok d m1 where l: "ld ?b m = Some (ok, d, m1)" "blocks m1 = blocks m"
    using load_law [OF assms(2), of ?b] B(2,3) assms(3) by auto
  show "blocks m' = blocks m"
    using run l by (auto simp: fill_buffer_def assert_def split: if_splits option.splits bind_splits)
  show "nKey (buf L' p) \<in> {key, BUFFER_NOSECTOR}"
    using run l
    by (auto simp: fill_buffer_def assert_def split: if_splits option.splits bind_splits
      dest!: move_first_relinked relinked_fields(2) [where a = p])
  show "a \<noteq> p \<Longrightarrow> nKey (buf L' a) = nKey (buf L a)"
    using run l
    by (auto simp: fill_buffer_def assert_def split: if_splits option.splits bind_splits
      dest!: move_first_relinked relinked_fields(2) [where a = a])
qed

text \<open>Only sectors of keys that are in the cache are written, the key asked for is the only new one, and a buffer in use
  keeps its key.\<close>

definition framed :: "ptr list \<Rightarrow> 'a blist \<Rightarrow> mmc \<Rightarrow> u32 \<Rightarrow> 'a blist \<Rightarrow> mmc \<Rightarrow> bool" where
  "framed xs L m key L' m' \<longleftrightarrow> (\<forall>i. blocks m' i \<noteq> blocks m i \<longrightarrow> (\<exists>k\<in>keys L (set xs). i \<in> rng k)) \<and>
     keys L' (set xs) \<subseteq> insert key (keys L (set xs)) \<and>
     (\<forall>a\<in>set xs. uses L a \<noteq> 0 \<longrightarrow> nKey (buf L' a) = nKey (buf L a))"

lemma fill_framed:
  assumes "BOK W xs L" "good m" "valid key" "p \<in> set xs" "nUseCount (buf L p) = 0" "fill_buffer ld key wo p L m = Some (q, L', m')"
  shows "framed xs L m key L' m'"
  unfolding framed_def
proof (intro conjI ballI impI)
  note F = fill_frame [OF assms(1-4,6)]
  show "\<forall>i. blocks m' i \<noteq> blocks m i \<longrightarrow> (\<exists>k\<in>keys L (set xs). i \<in> rng k)" using F(1) by simp
  show "keys L' (set xs) \<subseteq> insert key (keys L (set xs))"
    using F(2,3) by (fastforce simp: keys_def)
  show "nKey (buf L' a) = nKey (buf L a)" if "uses L a \<noteq> 0" for a
    using F(3) [of a] that assms(5) by (cases "a = p") (auto simp: uses_def)
qed

lemma evicted_framed:
  assumes ok: "BOK W xs L" "CLN W xs L m" and m: "good m" and key: "valid key"
    and p: "p \<in> set xs" "nUseCount (buf L p) = 0" "nKey (buf L p) \<noteq> BUFFER_NOSECTOR"
    and run: "do { (okk, m) \<leftarrow> (if bDirty (buf L p) then st (buf L p) m else Some (True, m));
       if \<not> okk then Some (NULL, L, m)
       else do { L \<leftarrow> Some (upd p (\<lambda>x. x\<lparr>nKey := BUFFER_NOSECTOR\<rparr>) L);
         assert (nUseCount (buf L p) = 0);
         fill_buffer ld key wo p L m } } = Some (q, L', m')"
  shows "framed xs L m key L' m'"
proof -
  let ?L = "upd p (\<lambda>x. x\<lparr>nKey := BUFFER_NOSECTOR\<rparr>) L"
  note B = buffers_okD [OF ok(1) p(1)]
  obtain okk m1 where s: "(if bDirty (buf L p) then st (buf L p) m else Some (True, m)) = Some (okk, m1)" "good m1"
    "\<And>i. i \<notin> rng (nKey (buf L p)) \<Longrightarrow> blocks m1 i = blocks m i"
    using store_law [OF m B(2,3) B(5) [OF p(3)]] m by (cases "bDirty (buf L p)") auto
  have kp: "nKey (buf L p) \<in> keys L (set xs)" using p(1,3) by (auto simp: keys_def)
  show ?thesis
  proof (cases okk)
    case False
    then show ?thesis using run s kp by (auto simp: framed_def)
  next
    case True
    then have f: "fill_buffer ld key wo p ?L m1 = Some (q, L', m')" using run s(1) p(2) by simp
    have "BOK W xs ?L"
      using ok(1) p(1) by (rule buffers_ok_upd) (use B(6) p ok(1) in \<open>auto simp: buffer_ok_def buffers_ok_def\<close>)
    then have F: "framed xs ?L m1 key L' m'" using fill_framed [OF _ s(2) key p(1) _ f] p(2) by simp
    have sub: "keys ?L (set xs) \<subseteq> keys L (set xs)" by (auto simp: keys_def)
    show ?thesis
      unfolding framed_def
    proof (intro conjI allI impI ballI)
      show "\<exists>k\<in>keys L (set xs). i \<in> rng k" if "blocks m' i \<noteq> blocks m i" for i
      proof (cases "blocks m1 i = blocks m i")
        case True
        then show ?thesis using that F sub unfolding framed_def by (metis subsetD)
      next
        case False
        then show ?thesis using s(3) [of i] kp by blast
      qed
      show "keys L' (set xs) \<subseteq> insert key (keys L (set xs))" using F sub by (auto simp: framed_def)
      show "nKey (buf L' a) = nKey (buf L a)" if "a \<in> set xs" "uses L a \<noteq> 0" for a
        using that F p(2) by (cases "a = p") (auto simp: framed_def uses_def)
    qed
  qed
qed

lemma get_framed:
  assumes ok: "BOK W xs L" "CLN W xs L m" and m: "good m" and key: "valid key"
    and run: "get_buffer st ld key wo L m = Some (q, L', m')"
  shows "framed xs L m key L' m'"
proof -
  let ?hit = "find (\<lambda>a. nKey (buf L a) = key) xs" and ?no = "find (\<lambda>a. nKey (buf L a) = BUFFER_NOSECTOR) (rev xs)"
    and ?old = "find (\<lambda>a. nUseCount (buf L a) = 0) (rev xs)"
  have nn: "a \<noteq> NULL" if "a \<in> set xs" for a using that dll_NULL [OF buffers_ok_dll [OF ok(1)]] by blast
  note scan = scan_key [OF ok(1)]
  show ?thesis
  proof (cases ?hit)
    case (Some p)
    with nn have "relinked L L1 \<Longrightarrow> framed xs L m key (upd p (\<lambda>x. x\<lparr>nUseCount := nUseCount x + 1\<rparr>) L1) m" for L1
      by (auto simp: framed_def keys_def relinked_fields)
    then show ?thesis using run Some nn find_Some_in [OF Some]
      by (auto simp: get_buffer_def scan split: bind_splits dest!: move_first_relinked)
  next
    case hit: None
    show ?thesis
    proof (cases ?no)
      case (Some p)
      have p: "p \<in> set xs" "nKey (buf L p) = BUFFER_NOSECTOR" using find_Some_in [OF Some] by simp_all
      have "fill_buffer ld key wo p L m = Some (q, L', m')"
        using run hit Some nn [OF p(1)] by (simp add: get_buffer_def scan)
      then show ?thesis using fill_framed [OF ok(1) m key p(1) buffers_okD(4) [OF ok(1) p]] by blast
    next
      case no: None
      show ?thesis
      proof (cases ?old)
        case None
        then show ?thesis using run hit no by (auto simp: get_buffer_def scan framed_def)
      next
        case (Some p)
        have p: "p \<in> set xs" "nUseCount (buf L p) = 0" using find_Some_in [OF Some] by simp_all
        have k: "nKey (buf L p) \<noteq> BUFFER_NOSECTOR" using no p(1) by (auto simp: find_None_iff)
        show ?thesis using evicted_framed [OF ok m key p k] run hit no Some nn [OF p(1)] by (simp add: get_buffer_def scan)
      qed
    qed
  qed
qed

end

section \<open>Operations on sectors\<close>

definition sector_no :: "'a fat_state_scheme \<Rightarrow> u32 \<Rightarrow> nat" where
  "sector_no s k = (case m_pPartition (m_Cache s) of None \<Rightarrow> 0 | Some pt \<Rightarrow> unat (m_nFirstSector pt)) + unat k"

definition skeys :: "'a fat_state_scheme \<Rightarrow> u32 set" where
  "skeys s = keys (m_BufferList (m_Cache s)) (set (sbufs s))"

definition written :: "'a fat_state_scheme \<Rightarrow> 'a fat_state_scheme \<Rightarrow> nat set" where
  "written s s' = {i. blocks (mmc_dev s') i \<noteq> blocks (mmc_dev s) i}"

text \<open>An operation on the sectors of \<open>K\<close>.\<close>

definition sframe :: "u32 set \<Rightarrow> 'a fat_state_scheme \<Rightarrow> 'a fat_state_scheme \<Rightarrow> bool" where
  "sframe K s s' \<longleftrightarrow> same_rest s s' \<and> skeys s' \<subseteq> skeys s \<union> K \<and> written s s' \<subseteq> sector_no s ` (skeys s \<union> K)"

lemma sframe_refl: "sframe K s s"
  by (simp add: sframe_def written_def)

lemma same_rest_sector_no: "same_rest s s' \<Longrightarrow> sector_no s' = sector_no s"
  by (simp add: same_rest_def sector_no_def fun_eq_iff)

lemma sframe_trans [trans]: "sframe K s t \<Longrightarrow> sframe K t u \<Longrightarrow> sframe K s u"
proof -
  assume A: "sframe K s t" "sframe K t u"
  have "written s u \<subseteq> written s t \<union> written t u" by (auto simp: written_def)
  moreover have "sector_no t ` (skeys t \<union> K) \<subseteq> sector_no s ` (skeys s \<union> K)"
    using A(1) same_rest_sector_no [of s t] by (auto simp: sframe_def)
  ultimately show ?thesis using A same_rest_trans [of s t u] unfolding sframe_def by blast
qed

lemma sframe_mono: "sframe K s s' \<Longrightarrow> K \<subseteq> K' \<Longrightarrow> sframe K' s s'"
  unfolding sframe_def by blast

lemma get_sector_frame:
  assumes "sec_inv W s" "svalid s k" "FATCacheGetSector k wo s = Some (p, s')" "k \<in> K" "same_rest s s'"
  shows "sframe K s s'"
proof -
  obtain pt xs where I: "m_pPartition (m_Cache s) = Some pt" "set xs = set (sbufs s)"
    "buffers_ok (sector_valid pt) (\<lambda>_. True) 512 W xs (m_BufferList (m_Cache s))"
    "clean_ok (sector_content pt) W xs (m_BufferList (m_Cache s)) (mmc_dev s)" "part_ok pt (mmc_dev s)"
    using assms(1) by (rule sec_invE)
  have k: "sector_valid pt k" using assms(2) I(1) by (simp add: svalid_def)
  obtain L' m' where G: "get_buffer (sector_store pt) (sector_load pt) k wo (m_BufferList (m_Cache s)) (mmc_dev s) = Some (p, L', m')"
    and s': "s' = set_sectors L' m' s"
    using assms(3) I(1) by (auto simp: FATCacheGetSector_def split: bind_splits)
  have F: "sec.framed pt xs (m_BufferList (m_Cache s)) (mmc_dev s) k L' m'" by (rule sec.get_framed [OF I(3,4,5) k G])
  have "skeys s' = keys L' (set xs)" "skeys s = keys (m_BufferList (m_Cache s)) (set xs)"
    by (simp_all add: skeys_def s' I(2) sector_bufs_def)
  moreover have "written s s' = {i. blocks m' i \<noteq> blocks (mmc_dev s) i}" by (simp add: written_def s')
  ultimately show ?thesis
    using F assms(4,5) I(1) by (fastforce simp: sframe_def sec.framed_def sector_rng_def sector_no_def)
qed

lemma same_keys_frame:
  assumes "same_rest s s'" "mmc_dev s' = mmc_dev s" "\<And>a. nKey (sbuf s' a) = nKey (sbuf s a)"
  shows "sframe K s s'"
  using assms by (simp add: sframe_def skeys_def keys_def written_def same_restD)

lemma free_sector_frame:
  assumes "FATCacheFreeSector p c s = Some s'" shows "sframe K s s'"
  using assms by (intro same_keys_frame) (auto simp: FATCacheFreeSector_def same_rest_def free_buffer_key split: bind_splits)

lemma mark_sector_frame:
  assumes "FATCacheMarkDirty p s = Some s'" shows "sframe K s s'"
  using assms by (intro same_keys_frame) (auto simp: FATCacheMarkDirty_def same_rest_def mark_dirty_key split: bind_splits)

lemma set_data_frame: "sframe K s (set_data p d s)"
  by (intro same_keys_frame) (auto simp: set_data_def same_rest_def)

section \<open>Operations on the allocation table\<close>

definition fat_area :: "TFatInfo \<Rightarrow> u32 set" where
  "fat_area i = {fat_sector i f c |f c. f < m_nNumberOfFATs i \<and> cluster_ok i c}"

lemma ready_inv: "ready s \<Longrightarrow> sec_inv {} s"
  by (simp add: ready_def)

lemma read_entry_frame:
  assumes "ready s" "fat_ok s" "cluster_ok (m_FATInfo s) c"
    and run: "FATGetSector c (FATInfoGetReadFAT (m_FATInfo s)) s = Some (p, off, s1)" "FATCacheFreeSector p True s1 = Some s'"
  shows "sframe (fat_area (m_FATInfo s)) s s'"
proof -
  let ?k = "fat_sector (m_FATInfo s) (FATInfoGetReadFAT (m_FATInfo s)) c"
  have v: "svalid s ?k" by (rule fat_sector_unat(2) [OF assms(2,3) read_fat_ok [OF assms(2)]])
  have k: "?k \<in> fat_area (m_FATInfo s)" using read_fat_ok [OF assms(2)] assms(3) by (auto simp: fat_area_def)
  obtain q s2 where "FATCacheGetSector ?k False s = Some (q, s2)" "same_rest s s2"
    using read_sector [OF assms(1) v] by metis
  then have R: "FATCacheGetSector ?k False s = Some (p, s1)" "same_rest s s1"
    using run(1) by (auto simp: FATGetSector_code [OF assms(2,3)])
  show ?thesis
    using sframe_trans [OF get_sector_frame [OF ready_inv [OF assms(1)] v R(1) k R(2)]] free_sector_frame [OF run(2)] by blast
qed

lemma get_entry_frame:
  assumes "ready s" "fat_ok s" "cluster_ok (m_FATInfo s) c" "FATGetClusterEntry c s = Some (e, s')"
  shows "sframe (fat_area (m_FATInfo s)) s s'"
  using assms(4) read_entry_frame [OF assms(1-3)] by (auto simp: FATGetClusterEntry_def split: bind_splits)

lemma set_entry_frame:
  assumes "ready s" "fat_ok s" "cluster_ok (m_FATInfo s) c" "e \<le> max_entry (m_FATInfo s)"
    and l: "FATInfoGetLastWriteFAT (m_FATInfo s) = Some l" "l < m_nNumberOfFATs (m_FATInfo s)"
    and run: "set_entry_loop c e f s = Some s'"
  shows "sframe (fat_area (m_FATInfo s)) s s'"
  using assms
proof (induction "Suc (unat l) - unat f" arbitrary: f s)
  case 0
  then have "\<not> f \<le> l" by (simp add: word_le_nat_alt)
  then show ?case using 0 by (subst (asm) set_entry_loop.simps) (auto intro: sframe_refl)
next
  case (Suc n)
  let ?i = "m_FATInfo s" and ?k = "fat_sector (m_FATInfo s) f c" and ?off = "fat_byte (m_FATInfo s) c mod 512"
  have fl: "f \<le> l" using Suc.hyps(2) by (simp add: word_le_nat_alt)
  then have fn: "f < m_nNumberOfFATs ?i" using Suc.prems(6) by simp
  have "unat f < 2 ^ 32 - 1" using fn unat_u32_less [of "m_nNumberOfFATs ?i"] by (simp add: word_less_nat_alt)
  then have f1: "unat (f + 1) = Suc (unat f)" by (subst unat_add_no_wrap) simp_all
  have v: "svalid s ?k" by (rule fat_sector_unat(2) [OF Suc.prems(2,3) fn])
  obtain p s1 where C: "FATCacheGetSector ?k False s = Some (p, s1)" "p \<noteq> NULL" "same_rest s s1" "Data (sbuf s1 p) = sview s ?k"
    "length (sview s ?k) = 512"
    "\<And>d. length d = 512 \<Longrightarrow> \<exists>s2 s3. FATCacheMarkDirty p (set_data p d s1) = Some s2 \<and>
       FATCacheFreeSector p True s2 = Some s3 \<and> changed s ((sview s)(?k := d)) s3"
    using change_sector [OF Suc.prems(1) v, of True] by metis
  have i1: "m_FATInfo s1 = ?i" using same_rest_info [OF C(3)] by simp
  let ?d = "put_entry ?i ?off e (sview s ?k)"
  obtain s2 s3 where M: "FATCacheMarkDirty p (set_data p ?d s1) = Some s2" "FATCacheFreeSector p True s2 = Some s3"
    "changed s ((sview s)(?k := ?d)) s3"
    using C(6) [of ?d] C(5) by auto
  have E: "FATSetEntry p ?off e s1 = Some (set_data p ?d s1)"
    using FATSetEntry_code [of s1 ?off e p] fat_okD(1) [OF Suc.prems(2) refl] fat_byte_bound(2) [OF Suc.prems(2,3)] Suc.prems(4)
    by (simp add: i1 C(4))
  have r3: "ready s3" "same_rest s s3" using M(3) by (simp_all add: changed_def)
  have i3: "m_FATInfo s3 = ?i" using same_rest_info [OF r3(2)] by simp
  have "set_entry_loop c e (f + 1) s3 = Some s'"
    using Suc.prems(7)
    by (subst (asm) set_entry_loop.simps) (simp add: Suc.prems(5) fl FATGetSector_code [OF Suc.prems(2,3)] C(1,2) E M(1,2))
  then have "sframe (fat_area ?i) s3 s'"
    using Suc.hyps(1) [of "f + 1" s3] Suc.hyps(2) Suc.prems(3-6) r3(1) same_rest_fat_ok [OF r3(2) Suc.prems(2)] by (simp add: f1 i3)
  moreover have "sframe (fat_area ?i) s s1"
    by (rule get_sector_frame [OF ready_inv [OF Suc.prems(1)] v C(1) _ C(3)]) (use fn Suc.prems(3) in \<open>auto simp: fat_area_def\<close>)
  ultimately show ?case
    using set_data_frame mark_sector_frame [OF M(1)] free_sector_frame [OF M(2)] sframe_trans by metis
qed

lemma set_cluster_frame:
  assumes "ready s" "fat_ok s" "cluster_ok (m_FATInfo s) c" "e \<le> max_entry (m_FATInfo s)" "FATSetClusterEntry c e s = Some s'"
  shows "sframe (fat_area (m_FATInfo s)) s s'"
proof -
  obtain l where "FATInfoGetLastWriteFAT (m_FATInfo s) = Some l" "l < m_nNumberOfFATs (m_FATInfo s)"
    using last_write_fat [OF assms(2)] by metis
  from set_entry_frame [OF assms(1-4) this] assms(5) show ?thesis by (simp add: FATSetClusterEntry_def)
qed

lemma alloc_frame:
  fixes s :: "'a fat_fs_scheme"
  assumes "ready s" "fat_ok s" "2 \<le> unat c" "alloc_loop c s = Some (r, s')"
  shows "sframe (fat_area (m_FATInfo s)) s (s'\<lparr>m_FATInfo := m_FATInfo s\<rparr>)"
  using assms
proof (induction "unat (m_nClusters (m_FATInfo s)) + 2 - unat c" arbitrary: c s)
  case 0
  then have "\<not> c < m_nClusters (m_FATInfo s) + 2" using fat_okD(6) [OF 0(3) refl] by (simp add: word_less_nat_alt)
  then show ?case using 0(5) by (subst (asm) alloc_loop.simps) (auto intro: sframe_refl)
next
  case (Suc n)
  let ?i = "m_FATInfo s"
  have N: "unat (m_nClusters ?i + 2) = unat (m_nClusters ?i) + 2" by (rule fat_okD(6) [OF Suc.prems(2) refl])
  have co: "cluster_ok ?i c" using Suc.hyps(2) Suc.prems(3) by (simp add: cluster_ok_def)
  then have lt: "c < m_nClusters ?i + 2" using N by (simp add: cluster_ok_def word_less_nat_alt)
  obtain p s1 s2 where R: "FATGetSector c (FATInfoGetReadFAT ?i) s = Some (p, fat_byte ?i c mod 512, s1)"
    "p \<noteq> NULL" "FATGetEntry p (fat_byte ?i c mod 512) s1 = Some (fat_entry s c)"
    "FATCacheFreeSector p True s1 = Some s2" "stable s s2" "m_FATInfo s1 = ?i"
    using read_entry [OF Suc.prems(1,2) co] by metis
  have i2: "m_FATInfo s2 = ?i" using R(5) same_rest_info by (auto simp: stable_def)
  have r2: "ready s2" "fat_ok s2"
    using R(5) stable_vol [OF R(5) Suc.prems(2)] by (auto simp: stable_def vol_step_def)
  have f2: "sframe (fat_area ?i) s s2" by (rule read_entry_frame [OF Suc.prems(1,2) co R(1,4)])
  show ?case
  proof (cases "fat_entry s c = 0")
    case True
    then obtain s3 where S: "FATSetClusterEntry c (eoc_mark ?i) s2 = Some s3" "s'\<lparr>m_FATInfo := ?i\<rparr> = s3\<lparr>m_FATInfo := ?i\<rparr>"
      using Suc.prems(4) by (subst (asm) alloc_loop.simps) (auto simp: lt R(1-4) i2 FATSetClusterEntry_def split: bind_splits)
    have "eoc_mark ?i \<le> max_entry ?i" by (simp add: eoc_mark_def max_entry_def)
    then have f3: "sframe (fat_area ?i) s2 s3" using set_cluster_frame [OF r2 _ _ S(1)] co i2 by simp
    then have "m_FATInfo s3 = ?i" using same_rest_info [of s2 s3] i2 by (simp add: sframe_def)
    then have "s3\<lparr>m_FATInfo := ?i\<rparr> = s3" by simp
    then show ?thesis using sframe_trans [OF f2 f3] S(2) by simp
  next
    case False
    have "unat (c + 1) = Suc (unat c)" using co N unat_u32_less [of "m_nClusters ?i + 2"] by (subst unat_add_no_wrap) (simp_all add: cluster_ok_def)
    moreover have "alloc_loop (c + 1) s2 = Some (r, s')"
      using Suc.prems(4) by (subst (asm) alloc_loop.simps) (simp add: lt R(1-4) False)
    ultimately have "sframe (fat_area ?i) s2 (s'\<lparr>m_FATInfo := ?i\<rparr>)"
      using Suc.hyps(1) [of s2 "c + 1"] Suc.hyps(2) Suc.prems(3) r2 by (simp add: i2)
    then show ?thesis by (rule sframe_trans [OF f2])
  qed
qed

section \<open>Operations on clusters\<close>

definition cluster_bufs :: "TFatCache \<Rightarrow> ptr list" where
  "cluster_bufs c = map (elem_at (m_pClusterBufferMem c) sizeof_TFATClusterBuffer) [0 ..< FAT_CLUSER_BUFFERS]"

abbreviation "cbufs s \<equiv> cluster_bufs (m_Cache s)"
abbreviation "spc s \<equiv> m_nSectorsPerCluster (m_FATInfo s)"
abbreviation "fds s \<equiv> m_nFirstDataSector (m_FATInfo s)"
abbreviation "cvalid s \<equiv> cluster_valid (unat (m_nClusters (m_FATInfo s)))"

definition crange :: "'a fat_fs_scheme \<Rightarrow> u32 \<Rightarrow> nat set" where
  "crange s c = (case m_pPartition (m_Cache s) of None \<Rightarrow> {} | Some pt \<Rightarrow> cluster_rng pt (spc s) (fds s) c)"

definition ccontent :: "'a fat_fs_scheme \<Rightarrow> u32 \<Rightarrow> u8 list" where
  "ccontent s c = (case m_pPartition (m_Cache s) of None \<Rightarrow> [] | Some pt \<Rightarrow> cluster_content pt (spc s) (fds s) (mmc_dev s) c)"

text \<open>What a reader sees of a cluster: the cached copy, or what the card has.\<close>

definition cview :: "'a fat_fs_scheme \<Rightarrow> u32 \<Rightarrow> u8 list" where
  "cview s c = (case cached (m_ClusterBufList (m_Cache s)) (cbufs s) c of Some a \<Rightarrow> Data (cbuf s a) | None \<Rightarrow> ccontent s c)"

definition cuses :: "'a fat_state_scheme \<Rightarrow> ptr \<Rightarrow> u32" where
  "cuses s = uses (m_ClusterBufList (m_Cache s))"

definition ckeys :: "'a fat_state_scheme \<Rightarrow> u32 set" where
  "ckeys s = keys (m_ClusterBufList (m_Cache s)) (set (cbufs s))"

definition clu_inv :: "ptr set \<Rightarrow> 'a fat_fs_scheme \<Rightarrow> bool" where
  "clu_inv W s \<longleftrightarrow> (\<exists>pt xs. m_pPartition (m_Cache s) = Some pt \<and> set xs = set (cbufs s) \<and>
     buffers_ok (cvalid s) (cluster_geo (spc s) (fds s)) (512 * unat (spc s)) W xs (m_ClusterBufList (m_Cache s)) \<and>
     clean_ok (cluster_content pt (spc s) (fds s)) W xs (m_ClusterBufList (m_Cache s)) (mmc_dev s) \<and>
     cluster_good pt (spc s) (fds s) (unat (m_nClusters (m_FATInfo s))) (mmc_dev s))"

lemma clu_invE:
  assumes "clu_inv W s"
  obtains pt xs where "m_pPartition (m_Cache s) = Some pt" "set xs = set (cbufs s)"
    "buffers_ok (cvalid s) (cluster_geo (spc s) (fds s)) (512 * unat (spc s)) W xs (m_ClusterBufList (m_Cache s))"
    "clean_ok (cluster_content pt (spc s) (fds s)) W xs (m_ClusterBufList (m_Cache s)) (mmc_dev s)"
    "cluster_good pt (spc s) (fds s) (unat (m_nClusters (m_FATInfo s))) (mmc_dev s)"
  using assms unfolding clu_inv_def by blast

lemma cview_view:
  assumes "m_pPartition (m_Cache s) = Some pt" "set xs = set (cbufs s)"
    "buffers_ok (cvalid s) g n W xs (m_ClusterBufList (m_Cache s))" "cvalid s k"
  shows "cview s k = view (cluster_content pt (spc s) (fds s)) (m_ClusterBufList (m_Cache s)) xs (mmc_dev s) k"
  using cached_set [OF assms(3) assms(2) [symmetric] clu.valid_no [OF assms(4)]] assms(1)
  by (simp add: cview_def view_def ccontent_def split: option.split)

text \<open>What an operation on clusters leaves alone, and, of the rest, which clusters it writes and adds.\<close>

definition same_sec :: "'a fat_state_scheme \<Rightarrow> 'a fat_state_scheme \<Rightarrow> bool" where
  "same_sec s s' \<longleftrightarrow> m_pPartition (m_Cache s') = m_pPartition (m_Cache s) \<and> m_pBufferMem (m_Cache s') = m_pBufferMem (m_Cache s) \<and>
     m_pClusterBufferMem (m_Cache s') = m_pClusterBufferMem (m_Cache s) \<and> m_BufferList (m_Cache s') = m_BufferList (m_Cache s) \<and>
     mem s' = mem s \<and> fat_state.more s' = fat_state.more s \<and> same_card (mmc_dev s) (mmc_dev s')"

definition cframe :: "u32 set \<Rightarrow> 'a fat_fs_scheme \<Rightarrow> 'a fat_fs_scheme \<Rightarrow> bool" where
  "cframe C s s' \<longleftrightarrow> same_sec s s' \<and> ckeys s' \<subseteq> ckeys s \<union> C \<and> written s s' \<subseteq> (\<Union>c\<in>ckeys s. crange s c)"

lemma same_secD:
  assumes "same_sec s s'"
  shows "sbufs s' = sbufs s" "cbufs s' = cbufs s" "skeys s' = skeys s" "suses s' = suses s" "sector_no s' = sector_no s"
    "svalid s' = svalid s" "card_healthy (mmc_dev s') = card_healthy (mmc_dev s)"
    "m_pPartition (m_Cache s') = m_pPartition (m_Cache s)" "partition_sectors s' = partition_sectors s"
  using assms by (auto simp: same_sec_def sector_bufs_def cluster_bufs_def skeys_def suses_def sector_no_def svalid_def
    partition_sectors_def fun_eq_iff same_card_healthy)

lemma same_sec_info:
  fixes s s' :: "'a fat_fs_scheme"
  assumes "same_sec s s'"
  shows "m_FATInfo s' = m_FATInfo s" "fat_fs.more s' = fat_fs.more s"
  using assms by (cases s; cases s'; auto simp: same_sec_def)+

lemma clu_set:
  fixes s :: "'a fat_fs_scheme"
  assumes "same_card (mmc_dev s) m"
  shows "same_sec s (set_clusters L m s)" "cbufs (set_clusters L m s) = cbufs s" "m_FATInfo (set_clusters L m s) = m_FATInfo s"
    "crange (set_clusters L m s) = crange s"
  using assms by (auto simp: same_sec_def cluster_bufs_def crange_def fun_eq_iff split: option.splits)

lemma clu_inv_set:
  fixes s :: "'a fat_fs_scheme"
  assumes "m_pPartition (m_Cache s) = Some pt" "set ys = set (cbufs s)"
    "buffers_ok (cvalid s) (cluster_geo (spc s) (fds s)) (512 * unat (spc s)) W ys L"
    "clean_ok (cluster_content pt (spc s) (fds s)) W ys L m"
    "cluster_good pt (spc s) (fds s) (unat (m_nClusters (m_FATInfo s))) m"
  shows "clu_inv W (set_clusters L m s)"
    "cvalid s k \<Longrightarrow> cview (set_clusters L m s) k = view (cluster_content pt (spc s) (fds s)) L ys m k"
proof -
  show "clu_inv W (set_clusters L m s)"
    unfolding clu_inv_def using assms by (intro exI [of _ pt] exI [of _ ys]) (simp add: cluster_bufs_def)
  show "cview (set_clusters L m s) k = view (cluster_content pt (spc s) (fds s)) L ys m k" if "cvalid s k"
    using cview_view [of "set_clusters L m s" pt ys _ _ W k] assms that by (simp add: cluster_bufs_def)
qed

lemma get_cluster:
  fixes s :: "'a fat_fs_scheme"
  assumes "clu_inv W s" "cvalid s k" "\<forall>a\<in>set (cbufs s). cuses s a + 1 \<noteq> 0" "\<exists>a\<in>set (cbufs s). cuses s a = 0"
    "card_healthy (mmc_dev s)"
  obtains p s' where "FATCacheGetCluster k wo s = Some (p, s')" "cframe {k} s s'" "p \<noteq> NULL" "p \<in> set (cbufs s)"
    "clu_inv (if wo then insert p W else W) s'" "nKey (cbuf s' p) = k" "cuses s' = (cuses s)(p := cuses s p + 1)"
    "cview s' k = Data (cbuf s' p)" "length (Data (cbuf s' p)) = 512 * unat (spc s)"
    "\<And>j. cvalid s j \<Longrightarrow> (wo \<longrightarrow> j \<noteq> k) \<Longrightarrow> cview s' j = cview s j"
    "\<And>a. a \<in> set (cbufs s) \<Longrightarrow> cuses s a \<noteq> 0 \<Longrightarrow> nKey (cbuf s' a) = nKey (cbuf s a)"
proof -
  let ?L = "m_ClusterBufList (m_Cache s)" and ?m = "mmc_dev s"
  obtain pt xs where I: "m_pPartition (m_Cache s) = Some pt" "set xs = set (cbufs s)"
    "buffers_ok (cvalid s) (cluster_geo (spc s) (fds s)) (512 * unat (spc s)) W xs ?L"
    "clean_ok (cluster_content pt (spc s) (fds s)) W xs ?L ?m"
    "cluster_good pt (spc s) (fds s) (unat (m_nClusters (m_FATInfo s))) ?m"
    using assms(1) by (rule clu_invE)
  have c: "\<And>a. a \<in> set xs \<Longrightarrow> uses ?L a + 1 \<noteq> 0" using assms(3) I(2) by (simp add: cuses_def)
  obtain q L' m' where G: "get_buffer (cluster_store pt) (cluster_load pt) k wo ?L ?m = Some (q, L', m')"
    "cluster_good pt (spc s) (fds s) (unat (m_nClusters (m_FATInfo s))) m'" "same_card ?m m'"
    "q \<in> set xs \<and> clu.got pt (spc s) (fds s) (unat (m_nClusters (m_FATInfo s))) W xs ?L ?m k wo q (q # remove1 q xs) L' m'"
    using clu.get_spec [OF I(3,4,5) assms(2) c, of wo] assms(4,5) I(2) unfolding cuses_def by blast
  let ?s = "set_clusters L' m' s" and ?ys = "q # remove1 q xs" and ?W = "if wo then insert q W else W"
  have B: "buffers_ok (cvalid s) (cluster_geo (spc s) (fds s)) (512 * unat (spc s)) ?W ?ys L'"
    "clean_ok (cluster_content pt (spc s) (fds s)) ?W ?ys L' m'" "set ?ys = set xs" "nKey (buf L' q) = k"
    "uses L' = (uses ?L)(q := uses ?L q + 1)"
    "\<And>j. cvalid s j \<Longrightarrow> (wo \<longrightarrow> j \<noteq> k) \<Longrightarrow>
       view (cluster_content pt (spc s) (fds s)) L' ?ys m' j = view (cluster_content pt (spc s) (fds s)) ?L xs ?m j"
    using G(4) unfolding clu.got_def by auto
  have F: "clu.framed pt (spc s) (fds s) xs ?L ?m k L' m'" by (rule clu.get_framed [OF I(3,4,5) assms(2) G(1)])
  have ys: "set ?ys = set (cbufs s)" using B(3) I(2) by simp
  note S = clu_inv_set [OF I(1) ys B(1,2) G(2)]
  show thesis
  proof (rule that [of q ?s])
    show "FATCacheGetCluster k wo s = Some (q, ?s)" by (simp add: FATCacheGetCluster_def I(1) G(1))
    show "q \<noteq> NULL" using G(4) dll_NULL [OF buffers_ok_dll [OF I(3)]] by blast
    show "cframe {k} s ?s"
      using F clu_set(1,2) [OF G(3), of L'] I(1) unfolding cframe_def clu.framed_def ckeys_def I(2) written_def crange_def
      by (auto simp: cluster_bufs_def)
    show "cview ?s k = Data (cbuf ?s q)" using S(2) [OF assms(2)] view_hit [OF B(1) _ B(4) clu.valid_no [OF assms(2)]] by simp
    show "length (Data (cbuf ?s q)) = 512 * unat (spc s)" using buffers_okD(3) [OF B(1), of q] by simp
    show "cview ?s j = cview s j" if "cvalid s j" "wo \<longrightarrow> j \<noteq> k" for j
      using that S(2) B(6) cview_view [OF I(1-3)] by simp
    show "nKey (cbuf ?s a) = nKey (cbuf s a)" if "a \<in> set (cbufs s)" "cuses s a \<noteq> 0" for a
      using F that I(2) by (simp add: clu.framed_def cuses_def)
  qed (use S(1) B(4,5) G(4) I(2) in \<open>auto simp: cuses_def\<close>)
qed

lemma same_ckeys_frame:
  fixes s :: "'a fat_fs_scheme"
  assumes "\<And>a. nKey (buf L a) = nKey (cbuf s a)"
  shows "cframe C s (set_clusters L (mmc_dev s) s)"
  using assms clu_set(1,2) [of s "mmc_dev s" L] by (auto simp: cframe_def ckeys_def keys_def written_def)

lemma free_cluster:
  fixes s :: "'a fat_fs_scheme"
  assumes "clu_inv W s" "p \<in> set (cbufs s)" "cuses s p \<noteq> 0" "p \<notin> W"
  obtains s' where "FATCacheFreeCluster p crit s = Some s'" "clu_inv W s'" "cframe {} s s'"
    "cuses s' = (cuses s)(p := cuses s p - 1)" "\<And>k. cvalid s k \<Longrightarrow> cview s' k = cview s k"
    "\<And>a. nKey (cbuf s' a) = nKey (cbuf s a)" "mmc_dev s' = mmc_dev s"
proof -
  obtain pt xs where I: "m_pPartition (m_Cache s) = Some pt" "set xs = set (cbufs s)"
    "buffers_ok (cvalid s) (cluster_geo (spc s) (fds s)) (512 * unat (spc s)) W xs (m_ClusterBufList (m_Cache s))"
    "clean_ok (cluster_content pt (spc s) (fds s)) W xs (m_ClusterBufList (m_Cache s)) (mmc_dev s)"
    "cluster_good pt (spc s) (fds s) (unat (m_nClusters (m_FATInfo s))) (mmc_dev s)"
    using assms(1) by (rule clu_invE)
  have p: "p \<in> set xs" "uses (m_ClusterBufList (m_Cache s)) p \<noteq> 0" using assms(2,3) I(2) by (simp_all add: cuses_def)
  obtain L' ys where F: "free_buffer p crit (m_ClusterBufList (m_Cache s)) = Some L'" "set ys = set xs"
    "buffers_ok (cvalid s) (cluster_geo (spc s) (fds s)) (512 * unat (spc s)) W ys L'"
    "clean_ok (cluster_content pt (spc s) (fds s)) W ys L' (mmc_dev s)"
    "uses L' = (uses (m_ClusterBufList (m_Cache s)))(p := uses (m_ClusterBufList (m_Cache s)) p - 1)"
    "\<And>k. cvalid s k \<Longrightarrow> view (cluster_content pt (spc s) (fds s)) L' ys (mmc_dev s) k =
       view (cluster_content pt (spc s) (fds s)) (m_ClusterBufList (m_Cache s)) xs (mmc_dev s) k"
    using clu.free_ok [OF I(3,4) p assms(4)] by metis
  note S = clu_inv_set [OF I(1) trans [OF F(2) I(2)] F(3,4) I(5)]
  note key = free_buffer_key [OF F(1)]
  show thesis
  proof (rule that [of "set_clusters L' (mmc_dev s) s"])
    show "FATCacheFreeCluster p crit s = Some (set_clusters L' (mmc_dev s) s)" by (simp add: FATCacheFreeCluster_def F(1))
    show "cview (set_clusters L' (mmc_dev s) s) k = cview s k" if "cvalid s k" for k
      using that S(2) F(6) cview_view [OF I(1-3)] by simp
  qed (use S(1) F(5) key same_ckeys_frame [of L' s] in \<open>auto simp: cuses_def\<close>)
qed

text \<open>New data in a buffer, marked as to be written.\<close>

lemma change_cluster:
  fixes s :: "'a fat_fs_scheme"
  assumes "clu_inv W s" "p \<in> set (cbufs s)" "cuses s p \<noteq> 0" "length d = 512 * unat (spc s)"
  defines "s1 \<equiv> set_clusters (upd p (\<lambda>x. x\<lparr>Data := d\<rparr>) (m_ClusterBufList (m_Cache s))) (mmc_dev s) s"
  obtains s' where "FATCacheMarkClusterDirty p s1 = Some s'" "clu_inv (W - {p}) s'" "cframe {} s s'" "cuses s' = cuses s"
    "\<And>k. cvalid s k \<Longrightarrow> cview s' k = (if k = nKey (cbuf s p) then d else cview s k)"
    "\<And>a. nKey (cbuf s' a) = nKey (cbuf s a)" "mmc_dev s' = mmc_dev s"
proof -
  let ?L = "m_ClusterBufList (m_Cache s)" and ?L1 = "upd p (\<lambda>x. x\<lparr>Data := d\<rparr>) (m_ClusterBufList (m_Cache s))"
  obtain pt xs where I: "m_pPartition (m_Cache s) = Some pt" "set xs = set (cbufs s)"
    "buffers_ok (cvalid s) (cluster_geo (spc s) (fds s)) (512 * unat (spc s)) W xs ?L"
    "clean_ok (cluster_content pt (spc s) (fds s)) W xs ?L (mmc_dev s)"
    "cluster_good pt (spc s) (fds s) (unat (m_nClusters (m_FATInfo s))) (mmc_dev s)"
    using assms(1) by (rule clu_invE)
  have p: "p \<in> set xs" "uses ?L p \<noteq> 0" using assms(2,3) I(2) by (simp_all add: cuses_def)
  note D = clu.write_data [OF I(3,4) p assms(4)]
  have p1: "uses ?L1 p \<noteq> 0" using p(2) D(3) by simp
  obtain L' where M: "mark_dirty p ?L1 = Some L'"
    "buffers_ok (cvalid s) (cluster_geo (spc s) (fds s)) (512 * unat (spc s)) (insert p W - {p}) xs L'"
    "clean_ok (cluster_content pt (spc s) (fds s)) (insert p W - {p}) xs L' (mmc_dev s)" "uses L' = uses ?L1"
    "\<And>k. cvalid s k \<Longrightarrow> view (cluster_content pt (spc s) (fds s)) L' xs (mmc_dev s) k =
       view (cluster_content pt (spc s) (fds s)) ?L1 xs (mmc_dev s) k"
    using clu.mark_spec [OF D(1,2) p(1) p1] by metis
  note S = clu_inv_set [OF I(1,2) M(2,3) I(5)]
  have W: "insert p W - {p} = W - {p}" by blast
  have key: "nKey (buf L' a) = nKey (buf ?L a)" for a using mark_dirty_key [OF M(1), of a] by simp
  show thesis
  proof (rule that [of "set_clusters L' (mmc_dev s) s"])
    show "FATCacheMarkClusterDirty p s1 = Some (set_clusters L' (mmc_dev s) s)"
      by (simp add: FATCacheMarkClusterDirty_def s1_def M(1))
    show "cview (set_clusters L' (mmc_dev s) s) k = (if k = nKey (cbuf s p) then d else cview s k)" if "cvalid s k" for k
      using that S(2) M(5) D(5) cview_view [OF I(1-3)] by simp
  qed (use S(1) M(4) D(3) W key same_ckeys_frame [of L' s] in \<open>auto simp: cuses_def\<close>)
qed

section \<open>The two caches together\<close>

text \<open>No sector of the cluster is in the sector cache.\<close>

definition own :: "'a fat_fs_scheme \<Rightarrow> u32 \<Rightarrow> bool" where
  "own s c \<longleftrightarrow> sector_no s ` skeys s \<inter> crange s c = {}"

definition apart :: "'a fat_fs_scheme \<Rightarrow> bool" where
  "apart s \<longleftrightarrow> (\<forall>c\<in>ckeys s. own s c)"

lemma clu_valid_keys: "clu_inv W s \<Longrightarrow> c \<in> ckeys s \<Longrightarrow> cvalid s c"
  by (auto simp: clu_inv_def ckeys_def keys_def buffers_ok_def buffer_ok_def)

text \<open>An operation on sectors of which no cached cluster has a part.\<close>

lemma sector_step_gen:
  fixes s :: "'a fat_fs_scheme"
  assumes fr: "sframe K s s'" and inv: "clu_inv W s" "apart s" and sec: "sec_inv V s'"
    and K: "\<forall>c\<in>ckeys s. sector_no s ` K \<inter> crange s c = {}"
  shows "clu_inv W s'" "apart s'" "cuses s' = cuses s" "cbuf s' = cbuf s" "cbufs s' = cbufs s" "ckeys s' = ckeys s" "crange s' = crange s"
    "cvalid s c \<Longrightarrow> own s c \<Longrightarrow> sector_no s ` K \<inter> crange s c = {} \<Longrightarrow> own s' c \<and> cview s' c = cview s c"
proof -
  have r: "same_rest s s'" using fr by (simp add: sframe_def)
  have R: "m_pPartition (m_Cache s') = m_pPartition (m_Cache s)" "m_ClusterBufList (m_Cache s') = m_ClusterBufList (m_Cache s)"
    "m_pClusterBufferMem (m_Cache s') = m_pClusterBufferMem (m_Cache s)" "same_card (mmc_dev s) (mmc_dev s')"
    using r by (simp_all add: same_rest_def)
  note i = same_rest_info(1) [OF r]
  show cb: "cbufs s' = cbufs s" "cuses s' = cuses s" "cbuf s' = cbuf s" by (simp_all add: cluster_bufs_def cuses_def R)
  show cr: "crange s' = crange s" by (simp add: crange_def R i fun_eq_iff split: option.split)
  show ck: "ckeys s' = ckeys s" by (simp add: ckeys_def R cb)
  obtain pt xs where I: "m_pPartition (m_Cache s) = Some pt" "set xs = set (cbufs s)"
    "buffers_ok (cvalid s) (cluster_geo (spc s) (fds s)) (512 * unat (spc s)) W xs (m_ClusterBufList (m_Cache s))"
    "clean_ok (cluster_content pt (spc s) (fds s)) W xs (m_ClusterBufList (m_Cache s)) (mmc_dev s)"
    "cluster_good pt (spc s) (fds s) (unat (m_nClusters (m_FATInfo s))) (mmc_dev s)"
    using inv(1) by (rule clu_invE)
  have same: "cluster_content pt (spc s) (fds s) (mmc_dev s') c = cluster_content pt (spc s) (fds s) (mmc_dev s) c"
    if "own s c" "sector_no s ` K \<inter> crange s c = {}" for c
  proof (rule clu.content_cong)
    fix j
    assume "j \<in> cluster_rng pt (spc s) (fds s) c"
    then have j: "j \<in> crange s c" by (simp add: crange_def I(1))
    then have "j \<notin> sector_no s ` (skeys s \<union> K)" using that by (auto simp: own_def)
    then show "blocks (mmc_dev s') j = blocks (mmc_dev s) j" using fr by (auto simp: sframe_def written_def)
  qed
  have "sector_no s' ` skeys s' \<subseteq> sector_no s ` skeys s \<union> sector_no s ` K"
    using fr same_rest_sector_no [OF r] by (auto simp: sframe_def)
  then have own': "own s' c" if "own s c" "sector_no s ` K \<inter> crange s c = {}" for c
    using that unfolding own_def cr by blast
  show "apart s'" using inv(2) own' K by (simp add: apart_def ck)
  have "clean_ok (cluster_content pt (spc s) (fds s)) W xs (m_ClusterBufList (m_Cache s)) (mmc_dev s')"
    unfolding clean_ok_def
  proof (intro ballI impI)
    fix a
    assume a: "a \<in> set xs - W" "nKey (cbuf s a) \<noteq> BUFFER_NOSECTOR"
    then have k: "nKey (cbuf s a) \<in> ckeys s" using I(2) by (auto simp: ckeys_def keys_def)
    then have "own s (nKey (cbuf s a))" using inv(2) by (auto simp: apart_def)
    then show "bDirty (cbuf s a) \<or> Data (cbuf s a) = cluster_content pt (spc s) (fds s) (mmc_dev s') (nKey (cbuf s a))"
      using I(4) a same K k by (auto simp: clean_ok_def)
  qed
  moreover have "cluster_good pt (spc s) (fds s) (unat (m_nClusters (m_FATInfo s))) (mmc_dev s')"
    using I(1,5) R(1) sec by (auto simp: cluster_good_def sec_inv_def)
  ultimately show "clu_inv W s'"
    unfolding clu_inv_def using I by (intro exI [of _ pt] exI [of _ xs]) (simp add: i R cb)
  show "own s' c \<and> cview s' c = cview s c" if "own s c" "sector_no s ` K \<inter> crange s c = {}"
    using own' [OF that] same [OF that] by (simp add: cview_def ccontent_def cb R i I(1) split: option.split)
qed

lemma sector_step:
  fixes s :: "'a fat_fs_scheme"
  assumes "sframe K s s'" "clu_inv W s" "apart s" "sec_inv V s'" "\<And>c. cvalid s c \<Longrightarrow> sector_no s ` K \<inter> crange s c = {}"
  shows "clu_inv W s'" "apart s'" "cuses s' = cuses s" "cbuf s' = cbuf s" "cbufs s' = cbufs s"
    "cvalid s c \<Longrightarrow> own s c \<Longrightarrow> own s' c \<and> cview s' c = cview s c"
proof -
  have "\<forall>c\<in>ckeys s. sector_no s ` K \<inter> crange s c = {}" using assms(5) clu_valid_keys [OF assms(2)] by blast
  note S = sector_step_gen [OF assms(1-4) this]
  show "clu_inv W s'" "apart s'" "cuses s' = cuses s" "cbuf s' = cbuf s" "cbufs s' = cbufs s" using S by simp_all
  show "own s' c \<and> cview s' c = cview s c" if "cvalid s c" "own s c" using S(8) assms(5) that by blast
qed

lemma cluster_step:
  fixes s :: "'a fat_fs_scheme"
  assumes fr: "cframe C s s'" and inv: "sec_inv V s" "apart s" and clu: "clu_inv W s'" and C: "\<And>c. c \<in> C \<Longrightarrow> own s c"
  shows "sec_inv V s'" "apart s'" "own s' = own s"
    "svalid s j \<Longrightarrow> (\<And>c. c \<in> ckeys s \<Longrightarrow> sector_no s j \<notin> crange s c) \<Longrightarrow> sview s' j = sview s j"
proof -
  have r: "same_sec s s'" using fr by (simp add: cframe_def)
  have R: "m_pPartition (m_Cache s') = m_pPartition (m_Cache s)" "m_BufferList (m_Cache s') = m_BufferList (m_Cache s)"
    using r by (simp_all add: same_sec_def)
  note S = same_secD [OF r] and i = same_sec_info(1) [OF r]
  have cr: "crange s' = crange s" by (simp add: crange_def R i fun_eq_iff split: option.split)
  show own: "own s' = own s" by (simp add: own_def fun_eq_iff cr S)
  show "apart s'" using fr inv(2) C own by (auto simp: apart_def cframe_def)
  obtain pt xs where I: "m_pPartition (m_Cache s) = Some pt" "set xs = set (sbufs s)"
    "buffers_ok (sector_valid pt) (\<lambda>_. True) 512 V xs (m_BufferList (m_Cache s))"
    "clean_ok (sector_content pt) V xs (m_BufferList (m_Cache s)) (mmc_dev s)" "part_ok pt (mmc_dev s)"
    using inv(1) by (rule sec_invE)
  have no: "sector_no s k = unat (m_nFirstSector pt) + unat k" for k by (simp add: sector_no_def I(1))
  have same: "sector_content pt (mmc_dev s') k = sector_content pt (mmc_dev s) k"
    if "\<And>c. c \<in> ckeys s \<Longrightarrow> sector_no s k \<notin> crange s c" for k
  proof -
    have "sector_no s k \<notin> written s s'" using fr that by (auto simp: cframe_def)
    then show ?thesis by (simp add: written_def sector_content_def no)
  qed
  have out: "sector_no s k \<notin> crange s c" if "k \<in> skeys s" "c \<in> ckeys s" for k c
    using that inv(2) by (auto simp: apart_def own_def)
  have "clean_ok (sector_content pt) V xs (m_BufferList (m_Cache s)) (mmc_dev s')"
    unfolding clean_ok_def
  proof (intro ballI impI)
    fix a
    assume a: "a \<in> set xs - V" "nKey (sbuf s a) \<noteq> BUFFER_NOSECTOR"
    then have "nKey (sbuf s a) \<in> skeys s" using I(2) by (auto simp: skeys_def keys_def)
    then show "bDirty (sbuf s a) \<or> Data (sbuf s a) = sector_content pt (mmc_dev s') (nKey (sbuf s a))"
      using I(4) a same out by (auto simp: clean_ok_def)
  qed
  moreover have "part_ok pt (mmc_dev s')" using clu I(1) R(1) by (auto simp: clu_inv_def cluster_good_def)
  ultimately show "sec_inv V s'"
    unfolding sec_inv_def using I by (intro exI [of _ pt] exI [of _ xs]) (simp add: R S(1))
  show "sview s' j = sview s j" if "svalid s j" "\<And>c. c \<in> ckeys s \<Longrightarrow> sector_no s j \<notin> crange s c"
    using same [OF that(2)] by (simp add: sview_def scontent_def S(1) R I(1) split: option.split)
qed

text \<open>A volume in use: the invariants of its caches and of the layout. The buffers of \<open>W\<close> are being filled.\<close>

definition volume_w :: "ptr set \<Rightarrow> 'a fat_fs_scheme \<Rightarrow> bool" where
  "volume_w W s \<longleftrightarrow> ready s \<and> fat_ok s \<and> clu_inv W s \<and> apart s \<and>
     unat (m_nReservedSectors (m_FATInfo s)) + unat (m_nNumberOfFATs (m_FATInfo s)) * unat (m_nFATSize (m_FATInfo s)) \<le> unat (fds s)"

abbreviation "volume \<equiv> volume_w {}"

lemma fat_area_apart:
  assumes "fat_ok s" "unat (m_nReservedSectors (m_FATInfo s)) + unat (m_nNumberOfFATs (m_FATInfo s)) * unat (m_nFATSize (m_FATInfo s)) \<le> unat (fds s)"
    and "k \<in> fat_area (m_FATInfo s)"
  shows "sector_no s k \<notin> crange s c"
proof -
  let ?i = "m_FATInfo s"
  obtain f d where k: "k = fat_sector ?i f d" "f < m_nNumberOfFATs ?i" "cluster_ok ?i d" using assms(3) by (auto simp: fat_area_def)
  have "Suc (unat f) * unat (m_nFATSize ?i) \<le> unat (m_nNumberOfFATs ?i) * unat (m_nFATSize ?i)"
    using k(2) by (intro mult_le_mono1) (simp add: word_less_nat_alt)
  then have "unat k < unat (fds s)"
    using fat_sector_unat(1) [OF assms(1) k(3,2)] fat_byte_bound(1) [OF assms(1) k(3)] assms(2) by (simp add: k(1))
  then show ?thesis by (auto simp: crange_def sector_no_def cluster_rng_def cluster_pos_def Let_def split: option.split)
qed

lemma cvalid_ok: "fat_ok s \<Longrightarrow> cvalid s c \<longleftrightarrow> cluster_ok (m_FATInfo s) c"
proof -
  assume f: "fat_ok s"
  have "unat (m_nClusters (m_FATInfo s)) + 2 < 2 ^ 28"
    using fat_okD(5) [OF f refl] by (auto simp: max_entry_def split: if_splits)
  then show ?thesis by (auto simp: cluster_valid_def cluster_ok_def BUFFER_NOSECTOR_def)
qed

lemma volumeD:
  assumes "volume_w W s"
  shows "ready s" "sec_inv {} s" "card_healthy (mmc_dev s)" "fat_ok s" "clu_inv W s" "apart s"
    "k \<in> fat_area (m_FATInfo s) \<Longrightarrow> sector_no s k \<notin> crange s c"
    "sector_no s ` fat_area (m_FATInfo s) \<inter> crange s c = {}" "0 < spc s"
  using assms fat_area_apart [of s _ c] by (auto simp: volume_w_def ready_def clu_inv_def cluster_good_def)

text \<open>The steps that do not change what is on the volume. A cluster that is free of cached sectors remains so.\<close>

definition vsame :: "'a fat_fs_scheme \<Rightarrow> 'a fat_fs_scheme \<Rightarrow> bool" where
  "vsame s s' \<longleftrightarrow> volume s' \<and> m_FATInfo s' = m_FATInfo s \<and> cbufs s' = cbufs s \<and> mem s' = mem s \<and>
     (\<forall>c. cluster_ok (m_FATInfo s) c \<longrightarrow> fat_entry s' c = fat_entry s c) \<and>
     (\<forall>c. cluster_ok (m_FATInfo s) c \<longrightarrow> own s c \<longrightarrow> own s' c \<and> cview s' c = cview s c)"

lemma vsame_refl: "volume s \<Longrightarrow> vsame s s"
  by (simp add: vsame_def)

lemma vsame_trans [trans]: "vsame s t \<Longrightarrow> vsame t u \<Longrightarrow> vsame s u"
  by (simp add: vsame_def)

lemma vsame_chain: "vsame s s' \<Longrightarrow> chain s cs \<Longrightarrow> chain s' cs"
  by (rule chain_cong [of s cs s']) (auto simp: vsame_def dest: chain_cluster_ok)

lemma sector_volume:
  assumes "volume s" "sframe (fat_area (m_FATInfo s)) s s'" "stable s s'"
  shows "vsame s s'"
proof -
  note V = volumeD [OF assms(1)] and i = stable_info [OF assms(3)]
  have r: "ready s'" "fat_ok s'" "mem s' = mem s"
    using assms(3) stable_fat_ok [OF assms(3) V(4)] by (auto simp: stable_def same_rest_def)
  note S = sector_step [OF assms(2) V(5,6) ready_inv [OF r(1)] V(8)]
  have "volume s'" using assms(1) r S(1,2) i by (simp add: volume_w_def)
  then show ?thesis
    using S(5,6) r(3) i stable_fat_entry [OF assms(3) V(4)] cvalid_ok [OF V(4)] by (simp add: vsame_def)
qed

lemma cluster_volume:
  fixes s :: "'a fat_fs_scheme"
  assumes "volume_w W s" "cframe C s s'" "clu_inv W' s'" "\<And>c. c \<in> C \<Longrightarrow> own s c"
  shows "volume_w W' s'" "m_FATInfo s' = m_FATInfo s" "cbufs s' = cbufs s" "mem s' = mem s" "own s' = own s"
    "cluster_ok (m_FATInfo s) c \<Longrightarrow> fat_entry s' c = fat_entry s c"
proof -
  note V = volumeD [OF assms(1)]
  note S = cluster_step [OF assms(2) V(2,6) assms(3,4)]
  have r: "same_sec s s'" using assms(2) by (simp add: cframe_def)
  note R = same_secD [OF r]
  show i: "m_FATInfo s' = m_FATInfo s" by (rule same_sec_info(1) [OF r])
  show "cbufs s' = cbufs s" "mem s' = mem s" "own s' = own s" using R(2) r S(3) by (simp_all add: same_sec_def)
  have "ready s'" using assms(1) S(1) R by (simp add: volume_w_def ready_def)
  moreover have "fat_ok s'" using V(4) i R(9) by (simp add: fat_ok_def)
  ultimately show "volume_w W' s'" using assms(1,3) S(2) i by (simp add: volume_w_def)
  show "fat_entry s' c = fat_entry s c" if "cluster_ok (m_FATInfo s) c"
  proof -
    let ?k = "fat_sector (m_FATInfo s) (FATInfoGetReadFAT (m_FATInfo s)) c"
    have f: "FATInfoGetReadFAT (m_FATInfo s) < m_nNumberOfFATs (m_FATInfo s)" by (rule read_fat_ok [OF V(4)])
    have "?k \<in> fat_area (m_FATInfo s)" using that f by (auto simp: fat_area_def)
    then have "sview s' ?k = sview s ?k" using S(4) [OF _ fat_sector_unat(2) [OF V(4) that f]] V(7) by blast
    then show ?thesis by (simp add: fat_entry_def fat_at_def i)
  qed
qed

lemma vol_get_entry:
  assumes "volume s" "cluster_ok (m_FATInfo s) c"
  obtains s' where "FATGetClusterEntry c s = Some (fat_entry s c, s')" "vsame s s'" "cuses s' = cuses s" "cbuf s' = cbuf s"
    "fat_fs.more s' = fat_fs.more s"
proof -
  note V = volumeD [OF assms(1)]
  obtain s' where G: "FATGetClusterEntry c s = Some (fat_entry s c, s')" "stable s s'"
    using FATGetClusterEntry_spec [OF V(1,4) assms(2)] by blast
  have f: "sframe (fat_area (m_FATInfo s)) s s'" by (rule get_entry_frame [OF V(1,4) assms(2) G(1)])
  have r: "ready s'" "same_rest s s'" using G(2) by (simp_all add: stable_def)
  note S = sector_step [OF f V(5,6) ready_inv [OF r(1)] V(8)]
  show thesis using that [OF G(1) sector_volume [OF assms(1) f G(2)] S(3,4) same_rest_info(2) [OF r(2)]] .
qed

text \<open>Enough buffers: no count overflows, and one is free.\<close>

definition roomy :: "(ptr \<Rightarrow> u32) \<Rightarrow> ptr set \<Rightarrow> bool" where
  "roomy U A \<longleftrightarrow> (\<forall>a\<in>A. U a + 1 \<noteq> 0) \<and> (\<exists>a\<in>A. U a = 0)"

lemma vol_get_cluster:
  fixes s :: "'a fat_fs_scheme"
  assumes "volume s" "cluster_ok (m_FATInfo s) c" "own s c" "roomy (cuses s) (set (cbufs s))"
  obtains p s' where "FATCacheGetCluster c False s = Some (p, s')" "vsame s s'" "p \<noteq> NULL" "p \<in> set (cbufs s)"
    "nKey (cbuf s' p) = c" "cuses s' = (cuses s)(p := cuses s p + 1)" "Data (cbuf s' p) = cview s c"
    "length (cview s c) = 512 * unat (spc s)" "fat_fs.more s' = fat_fs.more s"
    "\<And>a. a \<in> set (cbufs s) \<Longrightarrow> cuses s a \<noteq> 0 \<Longrightarrow> nKey (cbuf s' a) = nKey (cbuf s a)"
proof -
  note V = volumeD [OF assms(1)]
  have cv: "cvalid s c" using cvalid_ok [OF V(4)] assms(2) by blast
  have pre: "\<forall>a\<in>set (cbufs s). cuses s a + 1 \<noteq> 0" "\<exists>a\<in>set (cbufs s). cuses s a = 0" using assms(4) by (simp_all add: roomy_def)
  obtain p s' where G: "FATCacheGetCluster c False s = Some (p, s')" "cframe {c} s s'" "p \<noteq> NULL" "p \<in> set (cbufs s)"
    "clu_inv {} s'" "nKey (cbuf s' p) = c" "cuses s' = (cuses s)(p := cuses s p + 1)"
    "cview s' c = Data (cbuf s' p)" "length (Data (cbuf s' p)) = 512 * unat (spc s)"
    "\<And>j. cvalid s j \<Longrightarrow> cview s' j = cview s j"
    "\<And>a. a \<in> set (cbufs s) \<Longrightarrow> cuses s a \<noteq> 0 \<Longrightarrow> nKey (cbuf s' a) = nKey (cbuf s a)"
    by (rule get_cluster [OF V(5) cv pre V(3), where wo = False, simplified], rule that)
  have ow: "\<And>d. d \<in> {c} \<Longrightarrow> own s d" using assms(3) by simp
  note S = cluster_volume [OF assms(1) G(2,5) ow]
  have "vsame s s'" using S G(10) cvalid_ok [OF V(4)] by (simp add: vsame_def)
  moreover have "fat_fs.more s' = fat_fs.more s" using G(2) same_sec_info(2) by (auto simp: cframe_def)
  ultimately show thesis using that G S(3) G(10) [OF cv] by metis
qed

lemma vol_free_cluster:
  fixes s :: "'a fat_fs_scheme"
  assumes "volume s" "p \<in> set (cbufs s)" "cuses s p \<noteq> 0"
  obtains s' where "FATCacheFreeCluster p crit s = Some s'" "vsame s s'" "cuses s' = (cuses s)(p := cuses s p - 1)"
    "\<And>a. nKey (cbuf s' a) = nKey (cbuf s a)" "fat_fs.more s' = fat_fs.more s"
proof -
  note V = volumeD [OF assms(1)]
  obtain s' where F: "FATCacheFreeCluster p crit s = Some s'" "clu_inv {} s'" "cframe {} s s'"
    "cuses s' = (cuses s)(p := cuses s p - 1)" "\<And>k. cvalid s k \<Longrightarrow> cview s' k = cview s k"
    "\<And>a. nKey (cbuf s' a) = nKey (cbuf s a)"
    using free_cluster [OF V(5) assms(2,3), of crit] by (metis empty_iff)
  note S = cluster_volume [OF assms(1) F(3,2)]
  have "vsame s s'" using S F(5) cvalid_ok [OF V(4)] by (simp add: vsame_def)
  moreover have "fat_fs.more s' = fat_fs.more s" using F(3) same_sec_info(2) by (auto simp: cframe_def)
  ultimately show thesis using that F by metis
qed

section \<open>Operations that change the volume\<close>

lemma info_geo:
  fixes s :: "'a fat_fs_scheme"
  assumes "same_geo (m_FATInfo s) i"
  shows "cview (s\<lparr>m_FATInfo := i\<rparr>) = cview s" "own (s\<lparr>m_FATInfo := i\<rparr>) = own s" "clu_inv W (s\<lparr>m_FATInfo := i\<rparr>) = clu_inv W s"
    "apart (s\<lparr>m_FATInfo := i\<rparr>) = apart s" "volume_w W (s\<lparr>m_FATInfo := i\<rparr>) = volume_w W s" "cuses (s\<lparr>m_FATInfo := i\<rparr>) = cuses s"
proof -
  obtain x y where i: "i = (m_FATInfo s)\<lparr>m_nFreeCount := x, m_nNextFreeCluster := y\<rparr>" using assms by (auto simp: same_geo_def)
  show c: "cview (s\<lparr>m_FATInfo := i\<rparr>) = cview s" and o: "own (s\<lparr>m_FATInfo := i\<rparr>) = own s"
    and v: "clu_inv W (s\<lparr>m_FATInfo := i\<rparr>) = clu_inv W s" and "cuses (s\<lparr>m_FATInfo := i\<rparr>) = cuses s"
    by (simp_all add: i fun_eq_iff cview_def ccontent_def own_def sector_no_def skeys_def crange_def clu_inv_def cuses_def
      split: option.split)
  show a: "apart (s\<lparr>m_FATInfo := i\<rparr>) = apart s" by (simp add: apart_def o ckeys_def)
  show "volume_w W (s\<lparr>m_FATInfo := i\<rparr>) = volume_w W s"
    using geo_fat_ok [OF assms] by (simp add: volume_w_def v a) (simp add: i)
qed

text \<open>Everything but the allocation table is as before.\<close>

definition tstep :: "'a fat_fs_scheme \<Rightarrow> 'a fat_fs_scheme \<Rightarrow> bool" where
  "tstep s s' \<longleftrightarrow> volume s' \<and> same_geo (m_FATInfo s) (m_FATInfo s') \<and> cbufs s' = cbufs s \<and> mem s' = mem s \<and> cuses s' = cuses s \<and>
     cbuf s' = cbuf s \<and> fat_fs.more s' = fat_fs.more s \<and>
     (\<forall>c. cluster_ok (m_FATInfo s) c \<longrightarrow> own s c \<longrightarrow> own s' c \<and> cview s' c = cview s c)"

lemma table_volume:
  fixes s :: "'a fat_fs_scheme"
  assumes "volume s" "vol_step s s'" "sframe (fat_area (m_FATInfo s)) s (s'\<lparr>m_FATInfo := m_FATInfo s\<rparr>)"
  shows "tstep s s'"
proof -
  let ?t = "s'\<lparr>m_FATInfo := m_FATInfo s\<rparr>"
  note V = volumeD [OF assms(1)] and S' = vol_stepD [OF assms(2)]
  obtain x y where i': "m_FATInfo s' = (m_FATInfo s)\<lparr>m_nFreeCount := x, m_nNextFreeCluster := y\<rparr>"
    using S'(3) by (auto simp: same_geo_def)
  have g: "same_geo (m_FATInfo ?t) (m_FATInfo s')" using S'(3) by simp
  have e: "?t\<lparr>m_FATInfo := m_FATInfo s'\<rparr> = s'" by simp
  have r: "same_rest s ?t" using assms(3) by (simp add: sframe_def)
  have "sec_inv {} ?t" using ready_inv [OF S'(1)] by simp
  note S = sector_step [OF assms(3) V(5,6) this V(8)]
  have "fat_ok ?t" using geo_fat_ok [OF g] e S'(2) by metis
  then have "volume ?t" using assms(1) S(1,2) S'(1) by (simp add: volume_w_def)
  then have "volume s'" using info_geo(5) [OF g] e by metis
  moreover have "cview s' = cview ?t" "own s' = own ?t" "cuses s' = cuses ?t" using info_geo(1,2,6) [OF g] e by metis+
  moreover have "fat_fs.more s' = fat_fs.more s" using same_rest_info(2) [OF r] by (cases s') simp
  ultimately show ?thesis
    using S(3-6) S'(3) r cvalid_ok [OF V(4)] by (simp add: tstep_def same_rest_def cluster_bufs_def)
qed

lemma vol_alloc:
  fixes s :: "'a fat_fs_scheme"
  assumes "volume s" "hint_ok (m_FATInfo s)"
  obtains r s' where "FATAllocateCluster s = Some (r, s')" "tstep s s'" "hint_ok (m_FATInfo s')"
    "r = 0 \<and> (\<forall>d. cluster_ok (m_FATInfo s) d \<longrightarrow> m_nNextFreeCluster (m_FATInfo s) \<le> d \<longrightarrow> fat_entry s d \<noteq> 0) \<and> stable s s' \<or>
     cluster_ok (m_FATInfo s) r \<and> fat_entry s r = 0 \<and>
     (\<forall>d. cluster_ok (m_FATInfo s) d \<longrightarrow> fat_entry s' d = (if d = r then eoc_mark (m_FATInfo s) else fat_entry s d))"
proof -
  note V = volumeD [OF assms(1)]
  obtain r s' where A: "FATAllocateCluster s = Some (r, s')" "vol_step s s'" "hint_ok (m_FATInfo s')"
    "r = 0 \<and> (\<forall>d. cluster_ok (m_FATInfo s) d \<longrightarrow> m_nNextFreeCluster (m_FATInfo s) \<le> d \<longrightarrow> fat_entry s d \<noteq> 0) \<and> stable s s' \<or>
     cluster_ok (m_FATInfo s) r \<and> fat_entry s r = 0 \<and>
     (\<forall>d. cluster_ok (m_FATInfo s) d \<longrightarrow> fat_entry s' d = (if d = r then eoc_mark (m_FATInfo s) else fat_entry s d))"
    using FATAllocateCluster_spec [OF V(1,4) assms(2)] by blast
  have "2 \<le> unat (m_nNextFreeCluster (m_FATInfo s))" using assms(2) by (simp add: hint_ok_def)
  then have "sframe (fat_area (m_FATInfo s)) s (s'\<lparr>m_FATInfo := m_FATInfo s\<rparr>)"
    using alloc_frame [OF V(1,4)] A(1) by (simp add: FATAllocateCluster_def FATInfoGetNextFreeCluster_def)
  then show thesis using that A table_volume [OF assms(1) A(2)] by blast
qed

lemma vol_set_entry:
  fixes s :: "'a fat_fs_scheme"
  assumes "volume s" "cluster_ok (m_FATInfo s) c" "e \<le> max_entry (m_FATInfo s)"
  obtains s' where "FATSetClusterEntry c e s = Some s'" "tstep s s'" "m_FATInfo s' = m_FATInfo s"
    "\<And>d. cluster_ok (m_FATInfo s) d \<Longrightarrow> fat_entry s' d = (if d = c then e else fat_entry s d)"
proof -
  note V = volumeD [OF assms(1)]
  obtain s' where S: "FATSetClusterEntry c e s = Some s'" "vol_step s s'" "m_FATInfo s' = m_FATInfo s"
    "\<And>d. cluster_ok (m_FATInfo s) d \<Longrightarrow> fat_entry s' d = (if d = c then e else fat_entry s d)"
    using set_vol [OF V(1,4) assms(2,3)] by metis
  have "s'\<lparr>m_FATInfo := m_FATInfo s\<rparr> = s'" using S(3) by simp
  then have "tstep s s'" using table_volume [OF assms(1) S(2)] set_cluster_frame [OF V(1,4) assms(2,3) S(1)] by simp
  then show thesis using that S by blast
qed

text \<open>A cluster that is about to be overwritten: its buffer \<open>p\<close> is the one being filled.\<close>

lemma vol_get_fresh:
  fixes s :: "'a fat_fs_scheme"
  assumes "volume s" "cluster_ok (m_FATInfo s) c" "own s c" "roomy (cuses s) (set (cbufs s))"
  obtains p s' where "FATCacheGetCluster c True s = Some (p, s')" "volume_w {p} s'" "p \<noteq> NULL" "p \<in> set (cbufs s)"
    "nKey (cbuf s' p) = c" "cuses s' = (cuses s)(p := cuses s p + 1)" "length (Data (cbuf s' p)) = 512 * unat (spc s)"
    "m_FATInfo s' = m_FATInfo s" "cbufs s' = cbufs s" "mem s' = mem s" "own s' = own s" "fat_fs.more s' = fat_fs.more s"
    "\<And>d. cluster_ok (m_FATInfo s) d \<Longrightarrow> fat_entry s' d = fat_entry s d"
    "\<And>d. cluster_ok (m_FATInfo s) d \<Longrightarrow> d \<noteq> c \<Longrightarrow> cview s' d = cview s d"
proof -
  note V = volumeD [OF assms(1)]
  have cv: "cvalid s c" using cvalid_ok [OF V(4)] assms(2) by blast
  have pre: "\<forall>a\<in>set (cbufs s). cuses s a + 1 \<noteq> 0" "\<exists>a\<in>set (cbufs s). cuses s a = 0" using assms(4) by (simp_all add: roomy_def)
  obtain p s' where G: "FATCacheGetCluster c True s = Some (p, s')" "cframe {c} s s'" "p \<noteq> NULL" "p \<in> set (cbufs s)"
    "clu_inv {p} s'" "nKey (cbuf s' p) = c" "cuses s' = (cuses s)(p := cuses s p + 1)"
    "cview s' c = Data (cbuf s' p)" "length (Data (cbuf s' p)) = 512 * unat (spc s)"
    "\<And>j. cvalid s j \<Longrightarrow> j \<noteq> c \<Longrightarrow> cview s' j = cview s j"
    "\<And>a. a \<in> set (cbufs s) \<Longrightarrow> cuses s a \<noteq> 0 \<Longrightarrow> nKey (cbuf s' a) = nKey (cbuf s a)"
    by (rule get_cluster [OF V(5) cv pre V(3), where wo = True, simplified], rule that)
  have ow: "\<And>d. d \<in> {c} \<Longrightarrow> own s d" using assms(3) by simp
  note S = cluster_volume [OF assms(1) G(2,5) ow]
  have "fat_fs.more s' = fat_fs.more s" using G(2) same_sec_info(2) by (auto simp: cframe_def)
  then show thesis using that [OF G(1)] G S cvalid_ok [OF V(4)] by simp
qed

lemma vol_change_cluster:
  fixes s :: "'a fat_fs_scheme"
  assumes "volume_w W s" "W \<subseteq> {p}" "p \<in> set (cbufs s)" "cuses s p \<noteq> 0" "length d = 512 * unat (spc s)"
  defines "s1 \<equiv> set_clusters (upd p (\<lambda>x. x\<lparr>Data := d\<rparr>) (m_ClusterBufList (m_Cache s))) (mmc_dev s) s"
  obtains s' where "FATCacheMarkClusterDirty p s1 = Some s'" "volume s'" "cuses s' = cuses s"
    "\<And>k. cluster_ok (m_FATInfo s) k \<Longrightarrow> cview s' k = (if k = nKey (cbuf s p) then d else cview s k)"
    "\<And>a. nKey (cbuf s' a) = nKey (cbuf s a)" "m_FATInfo s' = m_FATInfo s" "cbufs s' = cbufs s" "mem s' = mem s" "own s' = own s"
    "fat_fs.more s' = fat_fs.more s" "\<And>d. cluster_ok (m_FATInfo s) d \<Longrightarrow> fat_entry s' d = fat_entry s d"
proof -
  note V = volumeD [OF assms(1)]
  obtain s' where C: "FATCacheMarkClusterDirty p s1 = Some s'" "clu_inv (W - {p}) s'" "cframe {} s s'" "cuses s' = cuses s"
    "\<And>k. cvalid s k \<Longrightarrow> cview s' k = (if k = nKey (cbuf s p) then d else cview s k)" "\<And>a. nKey (cbuf s' a) = nKey (cbuf s a)"
    "mmc_dev s' = mmc_dev s"
    by (rule change_cluster [OF V(5) assms(3,4,5), folded s1_def], rule that)
  have "W - {p} = {}" using assms(2) by blast
  then have i: "clu_inv {} s'" using C(2) by (simp only:)
  note S = cluster_volume [OF assms(1) C(3) i]
  have "fat_fs.more s' = fat_fs.more s" using C(3) same_sec_info(2) by (auto simp: cframe_def)
  then show thesis using that [OF C(1)] C S cvalid_ok [OF V(4)] by simp
qed

end
