(* ===== verification/FatRead.thy ===== *)
theory FatRead
  imports FatFs ClusterCache
begin

text \<open>
  Reading files and seeking in them: what the loop of \<^verbatim>\<open>env/lib/fs/fatfs.c\<close> copies from the buffers of the clusters is a
  part of the contents of the file, the concatenation of the clusters of its chain.
\<close>

section \<open>Files and the volume\<close>

lemma files_upd [simp]:
  fixes s :: "'a fat_files_scheme"
  shows "sview (s\<lparr>m_Files := fs\<rparr>) = sview s" "cview (s\<lparr>m_Files := fs\<rparr>) = cview s" "own (s\<lparr>m_Files := fs\<rparr>) = own s"
    "cuses (s\<lparr>m_Files := fs\<rparr>) = cuses s" "volume_w W (s\<lparr>m_Files := fs\<rparr>) = volume_w W s" "fat_entry (s\<lparr>m_Files := fs\<rparr>) = fat_entry s"
    "cluster_size (s\<lparr>m_Files := fs\<rparr>) = cluster_size s"
proof -
  have 1: "sview (s\<lparr>m_Files := fs\<rparr>) = sview s" "cview (s\<lparr>m_Files := fs\<rparr>) = cview s" "own (s\<lparr>m_Files := fs\<rparr>) = own s"
    "cuses (s\<lparr>m_Files := fs\<rparr>) = cuses s" "cluster_size (s\<lparr>m_Files := fs\<rparr>) = cluster_size s"
    by (simp_all add: fun_eq_iff sview_def scontent_def cview_def ccontent_def own_def sector_no_def skeys_def crange_def cuses_def
      cluster_size_def split: option.split)
  have 2: "clu_inv W (s\<lparr>m_Files := fs\<rparr>) = clu_inv W s" "sec_inv W (s\<lparr>m_Files := fs\<rparr>) = sec_inv W s" for W
    by (simp_all add: clu_inv_def sec_inv_def)
  have 3: "ready (s\<lparr>m_Files := fs\<rparr>) = ready s" "fat_ok (s\<lparr>m_Files := fs\<rparr>) = fat_ok s" "apart (s\<lparr>m_Files := fs\<rparr>) = apart s"
    by (simp_all add: ready_def 2 suses_def fat_ok_def partition_sectors_def apart_def 1 ckeys_def)
  show "sview (s\<lparr>m_Files := fs\<rparr>) = sview s" "cview (s\<lparr>m_Files := fs\<rparr>) = cview s" "own (s\<lparr>m_Files := fs\<rparr>) = own s"
    "cuses (s\<lparr>m_Files := fs\<rparr>) = cuses s" "cluster_size (s\<lparr>m_Files := fs\<rparr>) = cluster_size s"
    by (rule 1)+
  show "volume_w W (s\<lparr>m_Files := fs\<rparr>) = volume_w W s" "fat_entry (s\<lparr>m_Files := fs\<rparr>) = fat_entry s"
    by (simp_all add: volume_w_def 2 3 fun_eq_iff fat_entry_def fat_at_def 1)
qed

lemma files_vsame: "vsame s t \<Longrightarrow> vsame s (t\<lparr>m_Files := fs\<rparr>)"
  by (simp add: vsame_def)

lemma upd_file_eq: "h < length (m_Files s) \<Longrightarrow> upd_file h g s = Some (s\<lparr>m_Files := (m_Files s)[h := g (m_Files s ! h)]\<rparr>)"
  by (simp add: upd_file_def)

lemma more_files: "fat_fs.more s' = fat_fs.more s \<Longrightarrow> m_Files s' = m_Files (s :: 'a fat_files_scheme)"
  by (cases s; cases s') simp

abbreviation csz :: "'a fat_fs_scheme \<Rightarrow> nat" where "csz s \<equiv> 512 * unat (spc s)"

definition file_data :: "'a fat_fs_scheme \<Rightarrow> u32 list \<Rightarrow> u8 list" where
  "file_data s cs = concat (map (cview s) cs)"

lemma cview_length:
  assumes "volume_w W s" "cluster_ok (m_FATInfo s) c"
  shows "length (cview s c) = csz s"
proof -
  note V = volumeD [OF assms(1)]
  have cv: "cvalid s c" using cvalid_ok [OF V(4)] assms(2) by blast
  obtain pt xs where I: "m_pPartition (m_Cache s) = Some pt" "set xs = set (cbufs s)"
    "buffers_ok (cvalid s) (cluster_geo (spc s) (fds s)) (512 * unat (spc s)) W xs (m_ClusterBufList (m_Cache s))"
    "clean_ok (cluster_content pt (spc s) (fds s)) W xs (m_ClusterBufList (m_Cache s)) (mmc_dev s)"
    "cluster_good pt (spc s) (fds s) (unat (m_nClusters (m_FATInfo s))) (mmc_dev s)"
    using V(5) by (rule clu_invE)
  have "length (view (cluster_content pt (spc s) (fds s)) (m_ClusterBufList (m_Cache s)) xs (mmc_dev s) c) = csz s"
    using clu.content_length [OF I(5) cv] buffers_okD(3) [OF I(3)] find_Some_in
    by (fastforce simp: view_def cached_def split: option.split)
  then show ?thesis using cview_view [OF I(1-3) cv] by simp
qed

lemma cview_hit:
  assumes "volume_w W s" "p \<in> set (cbufs s)" "cuses s p \<noteq> 0"
  shows "cview s (nKey (cbuf s p)) = Data (cbuf s p)" "cluster_ok (m_FATInfo s) (nKey (cbuf s p))"
    "length (Data (cbuf s p)) = csz s"
proof -
  note V = volumeD [OF assms(1)]
  obtain pt xs where I: "m_pPartition (m_Cache s) = Some pt" "set xs = set (cbufs s)"
    "buffers_ok (cvalid s) (cluster_geo (spc s) (fds s)) (512 * unat (spc s)) W xs (m_ClusterBufList (m_Cache s))"
    using V(5) by (rule clu_invE)
  have p: "p \<in> set xs" using assms(2) I(2) by simp
  then have no: "nKey (cbuf s p) \<noteq> BUFFER_NOSECTOR" using buffers_okD(4) [OF I(3)] assms(3) by (auto simp: cuses_def uses_def)
  then have cv: "cvalid s (nKey (cbuf s p))" using buffers_okD(5) [OF I(3) p] by blast
  then show "cluster_ok (m_FATInfo s) (nKey (cbuf s p))" using cvalid_ok [OF V(4)] by blast
  show "length (Data (cbuf s p)) = csz s" by (rule buffers_okD(3) [OF I(3) p])
  show "cview s (nKey (cbuf s p)) = Data (cbuf s p)"
    using cview_view [OF I(1-3) cv] view_hit [OF I(3) p refl no] by simp
qed

lemma concat_block:
  assumes "\<And>x. x \<in> set xs \<Longrightarrow> length x = m" "k < length xs" "j + n \<le> m"
  shows "take n (drop (k * m + j) (concat xs)) = take n (drop j (xs ! k))"
  using assms
proof (induction xs arbitrary: k)
  case (Cons x xs)
  then show ?case by (cases k) (auto simp: add.assoc)
qed simp

section \<open>Reading\<close>

text \<open>Where a file is: without a buffer at the end of the cluster before, or else with the buffer of the cluster of the
  offset. \<open>U\<close> are the use counts without this buffer.\<close>

definition positioned :: "(ptr \<Rightarrow> u32) \<Rightarrow> u32 list \<Rightarrow> FILE \<Rightarrow> 'a fat_fs_scheme \<Rightarrow> bool" where
  "positioned U cs f s \<longleftrightarrow> unat (f_nSize f) \<le> length cs * csz s \<and> f_nOffset f \<le> f_nSize f \<and>
     (let k = unat (f_nOffset f) div csz s; p = f_pBuffer f in
      if p = NULL then unat (f_nOffset f) mod csz s = 0 \<and> f_nCluster f = cs ! (k - 1) \<and> cuses s = U
      else k < length cs \<and> p \<in> set (cbufs s) \<and> nKey (cbuf s p) = f_nCluster f \<and> f_nCluster f = cs ! k \<and> cuses s = U(p := U p + 1))"

definition reading :: "(ptr \<Rightarrow> u32) \<Rightarrow> nat \<Rightarrow> u32 list \<Rightarrow> 'a fat_files_scheme \<Rightarrow> bool" where
  "reading U h cs s \<longleftrightarrow> volume s \<and> chain s cs \<and> (\<forall>c\<in>set cs. own s c) \<and> csz s < 2 ^ 32 \<and> roomy U (set (cbufs s)) \<and>
     h < length (m_Files s) \<and> positioned U cs (m_Files s ! h) s"

lemma readingD:
  assumes "reading U h cs s"
  shows "volume s" "chain s cs" "c \<in> set cs \<Longrightarrow> own s c" "c \<in> set cs \<Longrightarrow> cluster_ok (m_FATInfo s) c" "csz s < 2 ^ 32"
    "roomy U (set (cbufs s))" "h < length (m_Files s)" "positioned U cs (m_Files s ! h) s" "0 < csz s"
    "unat (cluster_size s) = csz s"
  using assms chain_cluster_ok [of s cs c] volumeD(9) [of "{}" s]
  by (auto simp: reading_def cluster_size_def FAT_SECTOR_SIZE_def unat_word_ariths word_less_nat_alt)

text \<open>A step that leaves the volume as it is and moves the file.\<close>

definition file_step :: "nat \<Rightarrow> 'a fat_files_scheme \<Rightarrow> FILE \<Rightarrow> 'a fat_files_scheme \<Rightarrow> bool" where
  "file_step h s f' s' \<longleftrightarrow> vsame s s' \<and> m_Files s' = (m_Files s)[h := f']"

lemma reading_step:
  assumes "reading U h cs s" "file_step h s f' s'" "positioned U cs f' s'"
  shows "reading U h cs s'" "file_data s' cs = file_data s cs"
proof -
  note R = readingD [OF assms(1)]
  have v: "vsame s s'" and m: "m_Files s' = (m_Files s)[h := f']" using assms(2) by (simp_all add: file_step_def)
  have "own s' c \<and> cview s' c = cview s c" if "c \<in> set cs" for c
    using v R(3,4) [OF that] by (simp add: vsame_def)
  moreover have "volume s'" "spc s' = spc s" "cbufs s' = cbufs s" using v by (simp_all add: vsame_def)
  ultimately show "reading U h cs s'" "file_data s' cs = file_data s cs"
    using assms(3) R(5-7) m vsame_chain [OF v R(2)] by (auto simp: reading_def file_data_def intro!: arg_cong [where f = concat])
qed

lemma file_data_part:
  assumes "reading U h cs s" "k < length cs" "j + n \<le> csz s"
  shows "take n (drop j (cview s (cs ! k))) = take n (drop (k * csz s + j) (file_data s cs))"
proof -
  have l: "\<And>x. x \<in> set (map (cview s) cs) \<Longrightarrow> length x = csz s"
    using cview_length readingD(1,4) [OF assms(1)] by auto
  show ?thesis using concat_block [of "map (cview s) cs" "csz s" k j n] l assms(2,3) by (simp add: file_data_def)
qed

lemma chain_nth_next:
  assumes "fat_ok s" "chain s cs" "Suc k < length cs"
  shows "fat_entry s (cs ! k) = cs ! Suc k"
proof -
  have "cs = take k cs @ cs ! k # drop (Suc k) cs" using assms(3) by (intro id_take_nth_drop) simp
  then have c: "chain s (cs ! k # drop (Suc k) cs)" using chain_suffix assms(2) by metis
  have "fat_entry s (cs ! k) = hd (drop (Suc k) cs)" using chain_next(2) [OF assms(1) c] assms(3) by simp
  then show ?thesis using assms(3) by (simp add: hd_drop_conv_nth)
qed

text \<open>The buffer of the cluster of the offset.\<close>

lemma read_buffer_spec:
  fixes s :: "'a fat_files_scheme"
  assumes "reading U h cs s" "f_nOffset (m_Files s ! h) < f_nSize (m_Files s ! h)"
  obtains c p s' where "read_buffer h s = Some (True, s')" "p \<noteq> NULL"
    "file_step h s ((m_Files s ! h)\<lparr>f_nCluster := c, f_pBuffer := p\<rparr>) s'"
    "positioned U cs ((m_Files s ! h)\<lparr>f_nCluster := c, f_pBuffer := p\<rparr>) s'"
proof (cases "f_pBuffer (m_Files s ! h) = NULL")
  case False
  have "(m_Files s)[h := m_Files s ! h] = m_Files s" by simp
  then show thesis using that [of s "f_pBuffer (m_Files s ! h)" "f_nCluster (m_Files s ! h)"] False readingD [OF assms(1)]
      vsame_refl [OF readingD(1) [OF assms(1)]]
    by (simp add: read_buffer_def file_step_def)
next
  case True
  let ?f = "m_Files s ! h" and ?k = "unat (f_nOffset (m_Files s ! h)) div csz s"
  note R = readingD [OF assms(1)] and V = volumeD [OF readingD(1) [OF assms(1)]]
  have P: "unat (f_nOffset ?f) mod csz s = 0" "f_nCluster ?f = cs ! (?k - 1)" "cuses s = U" "unat (f_nSize ?f) \<le> length cs * csz s"
    using R(8) True by (simp_all add: positioned_def Let_def)
  have "unat (f_nOffset ?f) < length cs * csz s" using P(4) assms(2) by (simp add: word_less_nat_alt)
  then have k: "?k < length cs" by (simp add: less_mult_imp_div_less)
  obtain s1 where N: "(if f_nOffset ?f > 0 then do {
            (c, s) \<leftarrow> FATGetClusterEntry (f_nCluster ?f) s;
            s \<leftarrow> upd_file h (\<lambda>f. f\<lparr>f_nCluster := c\<rparr>) s;
            e \<leftarrow> FATIsEOC c s;
            Some (e, c, s) }
          else Some (False, f_nCluster ?f, s)) = Some (False, cs ! ?k, s1)"
    "vsame s s1" "cuses s1 = U" "m_Files s1 = (m_Files s)[h := ?f\<lparr>f_nCluster := cs ! ?k\<rparr>]"
  proof (cases "f_nOffset ?f > 0")
    case False
    then have c: "f_nCluster ?f = cs ! ?k" using P(2) by (simp add: word_gt_0)
    have "?f\<lparr>f_nCluster := f_nCluster ?f\<rparr> = ?f" by simp
    then have "m_Files s = (m_Files s)[h := ?f\<lparr>f_nCluster := cs ! ?k\<rparr>]" unfolding c by simp
    then show thesis using that [of s] False c vsame_refl [OF R(1)] P(3) by (simp only: if_False)
  next
    case off: True
    then have "0 < unat (f_nOffset ?f)" by (simp add: word_less_nat_alt)
    then have k0: "0 < ?k" using P(1) by (metis gr0I mod_mult_div_eq mult_0_right add_0)
    have c: "cluster_ok (m_FATInfo s) (f_nCluster ?f)" using R(4) k P(2) by simp
    obtain s' where G: "FATGetClusterEntry (f_nCluster ?f) s = Some (fat_entry s (f_nCluster ?f), s')" "vsame s s'" "cuses s' = cuses s"
      "fat_fs.more s' = fat_fs.more s"
      using vol_get_entry [OF R(1) c] by metis
    have e: "fat_entry s (f_nCluster ?f) = cs ! ?k" using chain_nth_next [OF V(4) R(2), of "?k - 1"] k k0 P(2) by simp
    have i: "m_FATInfo s' = m_FATInfo s" using G(2) by (simp add: vsame_def)
    have "\<not> eoc_ge (m_FATInfo s) (cs ! ?k)" using cluster_not_eoc [OF V(4)] R(4) k by simp
    then have "FATIsEOC (cs ! ?k) (s'\<lparr>m_Files := fs\<rparr>) = Some False" for fs
      using FATIsEOC_code [of "s'\<lparr>m_Files := fs\<rparr>"] fat_okD(1) [OF V(4) refl] by (simp add: i)
    then show thesis
      using that [of "s'\<lparr>m_Files := (m_Files s)[h := ?f\<lparr>f_nCluster := cs ! ?k\<rparr>]\<rparr>"] off G e more_files [OF G(4)] R(7) P(3) files_vsame [OF G(2)]
      by (simp add: upd_file_eq)
  qed
  have s1: "volume s1" "m_FATInfo s1 = m_FATInfo s" "cbufs s1 = cbufs s" using N(2) by (simp_all add: vsame_def)
  have o1: "own s1 (cs ! ?k)" "cluster_ok (m_FATInfo s1) (cs ! ?k)" using N(2) R(3,4) k by (auto simp: vsame_def)
  obtain p s2 where G: "FATCacheGetCluster (cs ! ?k) False s1 = Some (p, s2)" "vsame s1 s2" "p \<noteq> NULL" "p \<in> set (cbufs s1)"
    "nKey (cbuf s2 p) = cs ! ?k" "cuses s2 = (cuses s1)(p := cuses s1 p + 1)" "fat_fs.more s2 = fat_fs.more s1"
    using vol_get_cluster [OF s1(1) o1(2,1)] R(6) N(3) s1(3) by metis
  let ?f2 = "?f\<lparr>f_nCluster := cs ! ?k, f_pBuffer := p\<rparr>"
  let ?s = "s2\<lparr>m_Files := (m_Files s)[h := ?f2]\<rparr>"
  have m2: "m_Files s2 = (m_Files s)[h := ?f\<lparr>f_nCluster := cs ! ?k\<rparr>]" using more_files [OF G(7)] N(4) by simp
  have s2: "m_FATInfo s2 = m_FATInfo s" "cbufs s2 = cbufs s" using G(2) s1 by (simp_all add: vsame_def)
  show thesis
  proof (rule that)
    show "read_buffer h s = Some (True, ?s)"
      using N(1) G(1,3) R(7) True by (simp add: read_buffer_def upd_file_eq m2)
    show "file_step h s ?f2 ?s" using files_vsame [OF vsame_trans [OF N(2) G(2)]] by (simp add: file_step_def)
    show "positioned U cs ?f2 ?s"
      using R(8) k G(3-6) s1(3) s2 N(3) by (simp add: positioned_def Let_def)
  qed (rule G(3))
qed

lemma copy_bytes_spec:
  assumes "0 < left" "0 < n" "0 < C"
  shows "unat (copy_bytes left n C off) = min (min (unat left) (unat n)) (unat C - unat off mod unat C)" "0 < copy_bytes left n C off"
proof -
  have m: "unat (off mod C) = unat off mod unat C" by (simp add: unat_mod)
  have "unat off mod unat C < unat C" using assms(3) by (simp add: word_less_nat_alt)
  then have d: "unat (C - off mod C) = unat C - unat off mod unat C" using m by (subst unat_sub_no_wrap) (simp_all add: word_le_nat_alt)
  show *: "unat (copy_bytes left n C off) = min (min (unat left) (unat n)) (unat C - unat off mod unat C)"
    by (auto simp: copy_bytes_def Let_def word_less_nat_alt d min_def)
  show "0 < copy_bytes left n C off"
    using * assms \<open>unat off mod unat C < unat C\<close> by (simp add: word_less_nat_alt)
qed

lemma block_end:
  fixes j n C :: nat
  assumes "0 < C" "0 < n" "j mod C + n \<le> C"
  shows "(j + n) mod C = 0 \<Longrightarrow> (j + n) div C - 1 = j div C" "(j + n) mod C \<noteq> 0 \<Longrightarrow> (j + n) div C = j div C"
proof -
  have e: "j + n = C * (j div C) + (j mod C + n)" by (metis add.assoc mult_div_mod_eq)
  have "(j + n) div C = (C * (j div C) + (j mod C + n)) div C" by (rule arg_cong [OF e])
  also have "\<dots> = j div C + (j mod C + n) div C" using assms(1) by (subst div_mult_self4) simp_all
  finally have m: "(j + n) mod C = (j mod C + n) mod C" "(j + n) div C = j div C + (j mod C + n) div C"
    by (simp_all only: mod_add_left_eq)
  show "(j + n) div C = j div C" if "(j + n) mod C \<noteq> 0"
    using that m assms(3) by (cases "j mod C + n = C") auto
  show "(j + n) div C - 1 = j div C" if "(j + n) mod C = 0"
    using that m assms by (cases "j mod C + n = C") auto
qed

text \<open>The end of a round, for a file that is read or written.\<close>

lemma advance_code:
  fixes s :: "'a fat_files_scheme"
  assumes "volume s" "h < length (m_Files s)" "csz s < 2 ^ 32"
    and p: "p = f_pBuffer (m_Files s ! h)" "p \<in> set (cbufs s)" "cuses s = U(p := U p + 1)" "U p + 1 \<noteq> 0"
    and o: "unat (f_nOffset (m_Files s ! h)) + unat n < 2 ^ 32"
  defines "f \<equiv> (m_Files s ! h)\<lparr>f_nOffset := f_nOffset (m_Files s ! h) + n\<rparr>"
  defines "q \<equiv> (if (unat (f_nOffset (m_Files s ! h)) + unat n) mod csz s = 0 then NULL else p)"
  obtains s' where "advance h n s = Some s'" "file_step h s (f\<lparr>f_pBuffer := q\<rparr>) s'" "\<And>a. nKey (cbuf s' a) = nKey (cbuf s a)"
    "cuses s' = (if (unat (f_nOffset (m_Files s ! h)) + unat n) mod csz s = 0 then U else U(p := U p + 1))"
    "unat (f_nOffset f) = unat (f_nOffset (m_Files s ! h)) + unat n"
proof -
  let ?f = "m_Files s ! h" and ?s1 = "s\<lparr>m_Files := (m_Files s)[h := f]\<rparr>"
  have u: "unat (f_nOffset ?f + n) = unat (f_nOffset ?f) + unat n" using o by (subst unat_add_no_wrap) simp_all
  have c: "unat (cluster_size s) = csz s" using assms(3) by (simp add: cluster_size_def FAT_SECTOR_SIZE_def unat_word_ariths)
  have mo: "f_nOffset f mod cluster_size s = 0 \<longleftrightarrow> (unat (f_nOffset ?f) + unat n) mod csz s = 0"
    by (simp add: f_def word_unat_eq_iff [where 'a = 32] unat_mod u c)
  have fp: "f_pBuffer f = p" "f\<lparr>f_pBuffer := p\<rparr> = f" "unat (f_nOffset f) = unat (f_nOffset ?f) + unat n"
    by (simp_all add: f_def p(1) u)
  note same = files_vsame [OF vsame_refl [OF assms(1)]]
  show thesis
  proof (cases "(unat (f_nOffset ?f) + unat n) mod csz s = 0")
    case False
    then have "advance h n s = Some ?s1" "q = p"
      using mo assms(2) by (simp_all add: advance_def upd_file_eq f_def q_def)
    then show thesis using that [of ?s1] False fp same p(3) by (simp add: file_step_def)
  next
    case True
    have pre: "volume ?s1" "p \<in> set (cbufs ?s1)" "cuses ?s1 p \<noteq> 0" using assms(1) p by simp_all
    obtain s2 where F: "FATCacheFreeCluster p False ?s1 = Some s2" "vsame ?s1 s2" "cuses s2 = (cuses ?s1)(p := cuses ?s1 p - 1)"
      "\<And>a. nKey (cbuf s2 a) = nKey (cbuf ?s1 a)" "fat_fs.more s2 = fat_fs.more ?s1"
      by (rule vol_free_cluster [OF pre, of False], rule that)
    let ?s = "s2\<lparr>m_Files := (m_Files s)[h := f\<lparr>f_pBuffer := NULL\<rparr>]\<rparr>"
    have m2: "m_Files s2 = (m_Files s)[h := f]" using more_files [OF F(5)] by simp
    have "advance h n s = Some ?s" "q = NULL"
      using True mo assms(2) F(1) fp(1) by (simp_all add: advance_def upd_file_eq m2 q_def flip: f_def)
    moreover have "vsame s ?s" using files_vsame [OF vsame_trans [OF same F(2)]] .
    moreover have "cuses ?s = U" using F(3) p(3) by (simp add: fun_eq_iff)
    ultimately show thesis using that [of ?s] True F(4) fp(3) by (simp add: file_step_def)
  qed
qed

lemma advance_spec:
  fixes s :: "'a fat_files_scheme"
  assumes "reading U h cs s" "f_pBuffer (m_Files s ! h) \<noteq> NULL" "0 < n"
    and "unat (f_nOffset (m_Files s ! h)) + unat n \<le> unat (f_nSize (m_Files s ! h))"
    and "unat (f_nOffset (m_Files s ! h)) mod csz s + unat n \<le> csz s"
  obtains p s' where "advance h n s = Some s'"
    "file_step h s ((m_Files s ! h)\<lparr>f_nOffset := f_nOffset (m_Files s ! h) + n, f_pBuffer := p\<rparr>) s'"
    "positioned U cs ((m_Files s ! h)\<lparr>f_nOffset := f_nOffset (m_Files s ! h) + n, f_pBuffer := p\<rparr>) s'"
proof -
  let ?f = "m_Files s ! h" and ?k = "unat (f_nOffset (m_Files s ! h)) div csz s"
  let ?p = "f_pBuffer ?f" and ?z = "(unat (f_nOffset (m_Files s ! h)) + unat n) mod csz s = 0"
  note R = readingD [OF assms(1)]
  have P: "?k < length cs" "?p \<in> set (cbufs s)" "nKey (cbuf s ?p) = f_nCluster ?f" "f_nCluster ?f = cs ! ?k" "cuses s = U(?p := U ?p + 1)"
    "unat (f_nSize ?f) \<le> length cs * csz s"
    using R(8) assms(2) by (simp_all add: positioned_def Let_def)
  have U1: "U ?p + 1 \<noteq> 0" using R(6) P(2) by (simp add: roomy_def)
  have lt: "unat (f_nOffset ?f) + unat n < 2 ^ 32" using assms(4) unat_u32_less [of "f_nSize ?f"] by simp
  obtain s' where A: "advance h n s = Some s'" "file_step h s (?f\<lparr>f_nOffset := f_nOffset ?f + n, f_pBuffer := (if ?z then NULL else ?p)\<rparr>) s'"
    "\<And>a. nKey (cbuf s' a) = nKey (cbuf s a)" "cuses s' = (if ?z then U else U(?p := U ?p + 1))"
    "unat (f_nOffset (?f\<lparr>f_nOffset := f_nOffset ?f + n\<rparr>)) = unat (f_nOffset ?f) + unat n"
    by (rule advance_code [OF R(1,7,5) refl P(2,5) U1 lt], rule that)
  have o: "unat (f_nOffset ?f + n) = unat (f_nOffset ?f) + unat n" using A(5) by simp
  have le: "f_nOffset ?f + n \<le> f_nSize ?f" using assms(4) by (simp add: word_le_nat_alt o)
  have i: "m_FATInfo s' = m_FATInfo s" "cbufs s' = cbufs s" using A(2) by (simp_all add: file_step_def vsame_def)
  note B = block_end [OF R(9) _ assms(5)]
  have "positioned U cs (?f\<lparr>f_nOffset := f_nOffset ?f + n, f_pBuffer := (if ?z then NULL else ?p)\<rparr>) s'"
    using B assms(2,3) P le A(3,4) i by (cases ?z) (simp_all add: positioned_def Let_def o word_less_nat_alt)
  then show thesis using that A(1,2) by blast
qed

lemma file_step_trans: "file_step h s f t \<Longrightarrow> file_step h t g u \<Longrightarrow> file_step h s g u"
  using vsame_trans by (auto simp: file_step_def)

text \<open>One round of the loop.\<close>

lemma read_round:
  fixes s :: "'a fat_files_scheme" and ulBytes :: u32
  assumes rd: "reading U h cs s" and lt: "f_nOffset (m_Files s ! h) < f_nSize (m_Files s ! h)" and ul: "0 < ulBytes"
  obtains n c p s' where "0 < n" "n \<le> ulBytes" "unat (f_nOffset (m_Files s ! h)) + unat n \<le> unat (f_nSize (m_Files s ! h))"
    "read_loop h ulBytes r s = do { (r', ds, t) \<leftarrow> read_loop h (ulBytes - n) (r + n) s';
       Some (r', take (unat n) (drop (unat (f_nOffset (m_Files s ! h))) (file_data s cs)) @ ds, t) }"
    "file_step h s ((m_Files s ! h)\<lparr>f_nCluster := c, f_nOffset := f_nOffset (m_Files s ! h) + n, f_pBuffer := p\<rparr>) s'"
    "reading U h cs s'" "file_data s' cs = file_data s cs"
proof -
  let ?f = "m_Files s ! h" and ?o = "unat (f_nOffset (m_Files s ! h))"
  note R = readingD [OF rd]
  obtain c p s1 where B: "read_buffer h s = Some (True, s1)" "p \<noteq> NULL" "file_step h s (?f\<lparr>f_nCluster := c, f_pBuffer := p\<rparr>) s1"
    "positioned U cs (?f\<lparr>f_nCluster := c, f_pBuffer := p\<rparr>) s1"
    using read_buffer_spec [OF rd lt] by metis
  have f1: "m_Files s1 ! h = ?f\<lparr>f_nCluster := c, f_pBuffer := p\<rparr>" "h < length (m_Files s1)"
    using B(3) R(7) by (simp_all add: file_step_def)
  have rd1: "reading U h cs s1" and d1: "file_data s1 cs = file_data s cs" using reading_step [OF rd B(3,4)] by blast+
  note R1 = readingD [OF rd1]
  have i: "csz s1 = csz s" "cluster_size s1 = cluster_size s" using B(3) by (simp_all add: file_step_def vsame_def cluster_size_def)
  have P: "?o div csz s < length cs" "p \<in> set (cbufs s1)" "nKey (cbuf s1 p) = cs ! (?o div csz s)" "cuses s1 = U(p := U p + 1)"
    using B(2,4) by (simp_all add: positioned_def Let_def i)
  define left where "left = f_nSize ?f - f_nOffset ?f"
  have le: "unat left = unat (f_nSize ?f) - ?o" "0 < left"
    using lt by (simp_all add: left_def unat_sub_no_wrap word_le_nat_alt word_less_nat_alt)
  define n where "n = copy_bytes left ulBytes (cluster_size s) (f_nOffset ?f)"
  have C: "0 < cluster_size s" using R(9,10) by (simp add: word_less_nat_alt)
  have n: "unat n = min (min (unat left) (unat ulBytes)) (csz s - ?o mod csz s)" "0 < n"
    using copy_bytes_spec [OF le(2) ul C] R(10) unfolding n_def by simp_all
  have "?o mod csz s < csz s" using R(9) by simp
  then have fit: "?o mod csz s + unat n \<le> csz s" "?o + unat n \<le> unat (f_nSize ?f)" "n \<le> ulBytes"
    using n(1) le lt by (simp_all add: word_le_nat_alt word_less_nat_alt)
  have "cuses s1 p \<noteq> 0" using P(2,4) R1(6) by (simp add: roomy_def)
  then have "Data (cbuf s1 p) = cview s1 (cs ! (?o div csz s))" using cview_hit(1) [OF R1(1) P(2)] P(3) by simp
  then have data: "take (unat n) (drop (?o mod csz s) (Data (cbuf s1 p))) = take (unat n) (drop ?o (file_data s cs))"
    using file_data_part [OF rd1 P(1), of "?o mod csz s" "unat n"] fit(1) by (simp add: i d1 div_mult_mod_eq del: mult.commute)
  obtain q s2 where A: "advance h n s1 = Some s2"
    "file_step h s1 ((m_Files s1 ! h)\<lparr>f_nOffset := f_nOffset (m_Files s1 ! h) + n, f_pBuffer := q\<rparr>) s2"
    "positioned U cs ((m_Files s1 ! h)\<lparr>f_nOffset := f_nOffset (m_Files s1 ! h) + n, f_pBuffer := q\<rparr>) s2"
    using advance_spec [OF rd1 _ n(2)] B(2) fit(1,2) by (simp add: f1 i; metis)
  have ne: "ulBytes \<noteq> 0" "left \<noteq> 0" "cluster_size s \<noteq> 0" "f_nOffset ?f \<le> f_nSize ?f" "f_nSize ?f \<noteq> f_nOffset ?f"
    using ul le(2) C lt by (simp_all add: word_gt_0 order_less_imp_le)
  have "unat (f_nOffset ?f mod cluster_size s) = ?o mod csz s" by (simp add: unat_mod R(10))
  then have run: "read_loop h ulBytes r s = do { (r', ds, t) \<leftarrow> read_loop h (ulBytes - n) (r + n) s2;
       Some (r', take (unat n) (drop ?o (file_data s cs)) @ ds, t) }"
    using ne R(7) B(1) n(2) A(1) data by (subst read_loop.simps) (simp add: f1 i n_def [symmetric] left_def [symmetric])
  have "file_step h s (?f\<lparr>f_nCluster := c, f_nOffset := f_nOffset ?f + n, f_pBuffer := q\<rparr>) s2"
    using file_step_trans [OF B(3) A(2)] by (simp add: f1)
  moreover have "reading U h cs s2" "file_data s2 cs = file_data s cs" using reading_step [OF rd1 A(2,3)] d1 by simp_all
  ultimately show thesis using that n(2) fit(2,3) run by blast
qed

lemma read_loop_spec:
  fixes s :: "'a fat_files_scheme" and ulBytes :: u32
  assumes "reading U h cs s"
  defines "f \<equiv> m_Files s ! h"
  defines "k \<equiv> min (unat ulBytes) (unat (f_nSize f) - unat (f_nOffset f))"
  shows "\<exists>c p s'. read_loop h ulBytes r s = Some (r + of_nat k, take k (drop (unat (f_nOffset f)) (file_data s cs)), s') \<and>
     file_step h s (f\<lparr>f_nCluster := c, f_nOffset := f_nOffset f + of_nat k, f_pBuffer := p\<rparr>) s' \<and>
     reading U h cs s' \<and> file_data s' cs = file_data s cs"
  using assms(1) unfolding f_def k_def
proof (induction "unat ulBytes" arbitrary: ulBytes r s rule: less_induct)
  case less
  let ?f = "m_Files s ! h" and ?k = "min (unat ulBytes) (unat (f_nSize (m_Files s ! h)) - unat (f_nOffset (m_Files s ! h)))"
  note R = readingD [OF less.prems]
  have le: "f_nOffset ?f \<le> f_nSize ?f" using R(8) by (simp add: positioned_def)
  show ?case
  proof (cases "ulBytes = 0 \<or> f_nSize ?f = f_nOffset ?f")
    case True
    then have k0: "?k = 0" by auto
    have "read_loop h ulBytes r s = Some (r, [], s)" using True R(7) le by (subst read_loop.simps) auto
    moreover have "(m_Files s)[h := ?f] = m_Files s" by simp
    ultimately show ?thesis unfolding k0
      using less.prems vsame_refl [OF R(1)] by (intro exI [of _ "f_nCluster ?f"] exI [of _ "f_pBuffer ?f"] exI [of _ s]) (simp add: file_step_def)
  next
    case False
    then have lt: "f_nOffset ?f < f_nSize ?f" "0 < ulBytes" using le by (auto simp: word_gt_0)
    obtain n c p s1 where N: "0 < n" "n \<le> ulBytes" "unat (f_nOffset ?f) + unat n \<le> unat (f_nSize ?f)"
      "read_loop h ulBytes r s = do { (r', ds, t) \<leftarrow> read_loop h (ulBytes - n) (r + n) s1;
         Some (r', take (unat n) (drop (unat (f_nOffset ?f)) (file_data s cs)) @ ds, t) }"
      "file_step h s (?f\<lparr>f_nCluster := c, f_nOffset := f_nOffset ?f + n, f_pBuffer := p\<rparr>) s1"
      "reading U h cs s1" "file_data s1 cs = file_data s cs"
      by (rule read_round [OF less.prems lt, where r = r])
    have f1: "m_Files s1 ! h = ?f\<lparr>f_nCluster := c, f_nOffset := f_nOffset ?f + n, f_pBuffer := p\<rparr>"
      using N(5) R(7) by (simp add: file_step_def)
    have o: "unat (f_nOffset ?f + n) = unat (f_nOffset ?f) + unat n"
      using N(3) unat_u32_less [of "f_nSize ?f"] by (subst unat_add_no_wrap) simp_all
    have u: "unat (ulBytes - n) = unat ulBytes - unat n" using N(2) by (simp add: unat_sub_no_wrap word_le_nat_alt)
    let ?j = "min (unat (ulBytes - n)) (unat (f_nSize ?f) - unat (f_nOffset ?f + n))"
    have "unat n \<le> unat ulBytes" using N(2) by (simp add: word_le_nat_alt)
    then have k: "?k = unat n + ?j" using N(3) unfolding u o by linarith
    have "unat (ulBytes - n) < unat ulBytes" using N(1,2) by (simp add: u word_less_nat_alt word_le_nat_alt)
    from less.hyps [OF this N(6), of "r + n"] obtain c' p' s' where I:
      "read_loop h (ulBytes - n) (r + n) s1 =
         Some (r + n + of_nat ?j, take ?j (drop (unat (f_nOffset ?f) + unat n) (file_data s cs)), s')"
      "file_step h s1 (?f\<lparr>f_nCluster := c', f_nOffset := f_nOffset ?f + n + of_nat ?j, f_pBuffer := p'\<rparr>) s'"
      "reading U h cs s'" "file_data s' cs = file_data s cs"
      by (auto simp: f1 N(7) o)
    have "take (unat n) (drop (unat (f_nOffset ?f)) (file_data s cs)) @ take ?j (drop (unat (f_nOffset ?f) + unat n) (file_data s cs)) =
      take ?k (drop (unat (f_nOffset ?f)) (file_data s cs))"
      unfolding k by (simp add: take_add add.commute)
    moreover have "of_nat ?k = n + of_nat ?j" unfolding k by simp
    ultimately show ?thesis
      using N(4) I file_step_trans [OF N(5) I(2)] by (auto simp: add.assoc)
  qed
qed

section \<open>Seeking\<close>

definition vread :: "'a fat_fs_scheme \<Rightarrow> 'a fat_fs_scheme \<Rightarrow> bool" where
  "vread s s' \<longleftrightarrow> vsame s s' \<and> cuses s' = cuses s \<and> cbuf s' = cbuf s \<and> fat_fs.more s' = fat_fs.more s"

lemma vread_trans: "vread s t \<Longrightarrow> vread t u \<Longrightarrow> vread s u"
  using vsame_trans by (auto simp: vread_def)

lemma file_cluster_loop_vread:
  assumes "volume s" "chain s (c # cs)" "file_cluster_loop k n c (fat_entry s c) s = Some (m, x, s')"
  shows "vread s s'"
  using assms
proof (induction cs arbitrary: c n s)
  case Nil
  then have "eoc_ge (m_FATInfo s) (fat_entry s c)" by simp
  then have "file_cluster_loop k n c (fat_entry s c) s = Some (n, c, s)"
    using FATIsEOC_code [of s] fat_okD(1) [OF volumeD(4) [OF Nil(1)] refl] by (subst file_cluster_loop.simps) simp
  then show ?case using Nil vsame_refl by (simp add: vread_def)
next
  case (Cons d cs)
  note V = volumeD [OF Cons.prems(1)]
  have d: "fat_entry s c = d" "chain s (d # cs)" "cluster_ok (m_FATInfo s) d" using Cons.prems(2) chain_hd [of s d cs] by auto
  have eoc: "FATIsEOC d s = Some False"
    using FATIsEOC_code [of s d] fat_okD(1) [OF V(4) refl] cluster_not_eoc [OF V(4) d(3)] by simp
  obtain s1 where G: "FATGetClusterEntry d s = Some (fat_entry s d, s1)" "vsame s s1" "cuses s1 = cuses s" "cbuf s1 = cbuf s"
    "fat_fs.more s1 = fat_fs.more s"
    by (rule vol_get_entry [OF Cons.prems(1) d(3)])
  show ?case
  proof (cases "n = k")
    case True
    then show ?thesis using Cons.prems d(1) eoc vsame_refl by (subst (asm) file_cluster_loop.simps) (auto simp: vread_def)
  next
    case False
    have e: "fat_entry s1 d = fat_entry s d" "volume s1" using G(2) d(3) by (auto simp: vsame_def)
    have "file_cluster_loop k (n + 1) d (fat_entry s1 d) s1 = Some (m, x, s')"
      using Cons.prems(3) False eoc G(1) d(1) e by (subst (asm) file_cluster_loop.simps) simp
    then have "vread s1 s'" using Cons.IH [OF e(2) vsame_chain [OF G(2) d(2)]] by blast
    then show ?thesis using vread_trans [of s s1] G by (simp add: vread_def)
  qed
qed

lemma vol_file_cluster:
  fixes s :: "'a fat_fs_scheme"
  assumes "volume s" "chain s (c # cs)" "unat off div csz s < length (c # cs)"
  obtains s' where "FATGetFileCluster c off s = Some ((c # cs) ! (unat off div csz s), s')" "vread s s'"
proof -
  note V = volumeD [OF assms(1)]
  obtain s' where F: "FATGetFileCluster c off s = Some ((c # cs) ! (unat off div csz s), s')"
    by (rule FATGetFileCluster_spec [OF V(1,4) assms(2) V(9), of off]) (use assms(3) in \<open>auto intro: that\<close>)
  have c: "cluster_ok (m_FATInfo s) c" by (rule chain_hd [OF assms(2)])
  obtain s1 where G: "FATGetClusterEntry c s = Some (fat_entry s c, s1)" "vsame s s1" "cuses s1 = cuses s" "cbuf s1 = cbuf s"
    "fat_fs.more s1 = fat_fs.more s"
    by (rule vol_get_entry [OF assms(1) c])
  have e: "fat_entry s1 c = fat_entry s c" "volume s1" using G(2) c by (auto simp: vsame_def)
  obtain m x where "file_cluster_loop (off div FAT_SECTOR_SIZE div spc s) 0 c (fat_entry s1 c) s1 = Some (m, x, s')"
    using F G(1) e V(9) by (auto simp: FATGetFileCluster_def word_gt_0 split: bind_splits)
  from file_cluster_loop_vread [OF e(2) vsame_chain [OF G(2) assms(2)] this] have "vread s1 s'" .
  then have "vread s s'" using vread_trans [of s s1] G by (simp add: vread_def)
  with F show thesis by (rule that)
qed

text \<open>Giving up the buffer of a file, and fetching that of another cluster.\<close>

lemma seek_release:
  fixes s :: "'a fat_files_scheme"
  assumes "volume s" "h < length (m_Files s)" "U = (if p = NULL then cuses s else (cuses s)(p := cuses s p - 1))"
    and "p = f_pBuffer (m_Files s ! h)" "p \<noteq> NULL \<Longrightarrow> p \<in> set (cbufs s) \<and> cuses s p \<noteq> 0"
  obtains s' where "(if p \<noteq> NULL then do { s \<leftarrow> FATCacheFreeCluster p False s; upd_file h (\<lambda>f. f\<lparr>f_pBuffer := NULL\<rparr>) s } else Some s) = Some s'"
    "file_step h s ((m_Files s ! h)\<lparr>f_pBuffer := NULL\<rparr>) s'" "cuses s' = U"
proof (cases "p = NULL")
  case True
  have "(m_Files s ! h)\<lparr>f_pBuffer := f_pBuffer (m_Files s ! h)\<rparr> = m_Files s ! h" by simp
  then have "(m_Files s ! h)\<lparr>f_pBuffer := NULL\<rparr> = m_Files s ! h" unfolding assms(4) [symmetric] True .
  then show thesis using that [of s] True assms(3) vsame_refl [OF assms(1)] by (simp add: file_step_def)
next
  case False
  then have pre: "p \<in> set (cbufs s)" "cuses s p \<noteq> 0" using assms(5) by blast+
  obtain s1 where F: "FATCacheFreeCluster p False s = Some s1" "vsame s s1" "cuses s1 = (cuses s)(p := cuses s p - 1)"
    "\<And>a. nKey (cbuf s1 a) = nKey (cbuf s a)" "fat_fs.more s1 = fat_fs.more s"
    by (rule vol_free_cluster [OF assms(1) pre, of False], rule that)
  have m: "m_Files s1 = m_Files s" by (rule more_files [OF F(5)])
  show thesis
    using that [of "s1\<lparr>m_Files := (m_Files s)[h := (m_Files s ! h)\<lparr>f_pBuffer := NULL\<rparr>]\<rparr>"] False F(1,3) assms(2,3) files_vsame [OF F(2)]
    by (simp add: upd_file_eq m file_step_def)
qed

end
