(* ===== verification/FatFsProps.thy ===== *)
theory FatFsProps
  imports FatRead
begin

text \<open>
  Writing files: the loop of \<^verbatim>\<open>env/lib/fs/fatfs.c\<close> adds clusters to the chain of the file and stores into their buffers, and
  leaves everything outside the chain alone. The properties of reading, seeking and writing are at the end.
\<close>

section \<open>Growing a chain\<close>







text \<open>What writing needs of the volume: the clusters of the file and the free ones have no cached sectors.\<close>

definition writable :: "u32 list \<Rightarrow> 'a fat_fs_scheme \<Rightarrow> bool" where
  "writable cs s \<longleftrightarrow> hint_ok (m_FATInfo s) \<and> (cs = [] \<or> chain s cs) \<and> (\<forall>c\<in>set cs. own s c) \<and>
     (\<forall>c. cluster_ok (m_FATInfo s) c \<longrightarrow> fat_entry s c = 0 \<longrightarrow> own s c)"






section \<open>Writing\<close>












lemma files_writable [simp]: "writable cs (s\<lparr>m_Files := fs\<rparr>) = writable cs s" "chain (s\<lparr>m_Files := fs\<rparr>) cs = chain s cs"
proof -
  have "chain s cs \<Longrightarrow> chain (s\<lparr>m_Files := fs\<rparr>) cs" "chain (s\<lparr>m_Files := fs\<rparr>) cs \<Longrightarrow> chain s cs"
    by (erule chain_cong; simp)+
  then show c: "chain (s\<lparr>m_Files := fs\<rparr>) cs = chain s cs" by blast
  then show "writable cs (s\<lparr>m_Files := fs\<rparr>) = writable cs s" by (simp add: writable_def)
qed






















section \<open>An example\<close>






















text \<open>Seeking to a position inside a cluster of the file: the next read starts there. The code gets this wrong when the file has just
  been read up to the end of a cluster, so that it holds no buffer, and the position is in that cluster again; the hypothesis excludes
  the case.\<close>

lemma file_seek_positions:
  fixes s :: "'a fat_files_scheme"
  assumes "reading U h cs s" "f_nFirstCluster (m_Files s ! h) = hd cs" "\<not> f_bWrite (m_Files s ! h)"
    and "seek_offset (m_Files s ! h) offset whence = Some pos" "pos \<le> f_nSize (m_Files s ! h)" "unat pos div csz s < length cs"
    and "f_pBuffer (m_Files s ! h) \<noteq> NULL \<or> f_nCluster (m_Files s ! h) \<noteq> cs ! (unat pos div csz s)"
  shows "\<exists>s'. FATFileSystemFileSeek h offset whence s = Some (1, s') \<and> reading U h cs s' \<and> file_data s' cs = file_data s cs \<and>
     f_nOffset (m_Files s' ! h) = pos"
proof -
  let ?f = "m_Files s ! h" and ?c = "cs ! (unat pos div csz s)" and ?p = "f_pBuffer (m_Files s ! h)"
  let ?f1 = "?f\<lparr>f_nOffset := pos\<rparr>"
  note R = readingD [OF assms(1)]
  obtain c0 ds where cs: "cs = c0 # ds" using R(2) by (cases cs) simp_all
  have ch: "chain s (c0 # ds)" and k: "unat pos div csz s < length (c0 # ds)" using R(2) assms(6) cs by simp_all
  obtain s0 where G: "FATGetFileCluster c0 pos s = Some ((c0 # ds) ! (unat pos div csz s), s0)" "vread s s0"
    by (rule vol_file_cluster [OF R(1) ch k])
  have ok: "cluster_ok (m_FATInfo s) ?c" "own s ?c" using R(3,4) assms(6) by simp_all
  then have c0: "?c \<noteq> 0" by (auto simp: cluster_ok_def)
  have v0: "vsame s s0" "cuses s0 = cuses s" "cbuf s0 = cbuf s" "m_Files s0 = m_Files s" using G(2) more_files by (auto simp: vread_def)
  have i0: "volume s0" "m_FATInfo s0 = m_FATInfo s" "cbufs s0 = cbufs s" using v0(1) by (simp_all add: vsame_def)
  define s1 where "s1 = s0\<lparr>m_Files := (m_Files s)[h := ?f1]\<rparr>"
  have s1: "m_Files s1 = (m_Files s)[h := ?f1]" "m_Files s1 ! h = ?f1" "vsame s s1" "cuses s1 = cuses s" "cbuf s1 = cbuf s"
    "volume s1" "m_FATInfo s1 = m_FATInfo s" "cbufs s1 = cbufs s" "h < length (m_Files s1)"
    using v0 i0 R(7) files_vsame [OF v0(1)] by (simp_all add: s1_def)
  have P: "unat (f_nSize ?f) \<le> length cs * csz s" "?p \<noteq> NULL \<Longrightarrow> ?p \<in> set (cbufs s) \<and> nKey (cbuf s ?p) = f_nCluster ?f \<and> cuses s = U(?p := U ?p + 1)"
    "?p = NULL \<Longrightarrow> cuses s = U"
    using R(8) by (auto simp: positioned_def Let_def split: if_splits)
  have U: "U = (if ?p = NULL then cuses s else (cuses s)(?p := cuses s ?p - 1))"
    using P(2,3) by (cases "?p = NULL") simp_all
  have run: "FATFileSystemFileSeek h offset whence s =
     (if f_nCluster ?f = ?c then Some (1, s1)
      else do {
        s \<leftarrow> upd_file h (\<lambda>f. f\<lparr>f_nCluster := ?c\<rparr>) s1;
        s \<leftarrow> (if ?p \<noteq> NULL then do { s \<leftarrow> FATCacheFreeCluster ?p False s; upd_file h (\<lambda>f. f\<lparr>f_pBuffer := NULL\<rparr>) s } else Some s);
        (p, s) \<leftarrow> FATCacheGetCluster ?c False s;
        s \<leftarrow> upd_file h (\<lambda>f. f\<lparr>f_pBuffer := p\<rparr>) s;
        assert (p \<noteq> NULL);
        Some (1, s) })"
    using R(7) assms(2-4) G(1) c0 v0(4) by (simp add: FATFileSystemFileSeek_def cs upd_file_eq s1_def)
  show ?thesis
  proof (cases "f_nCluster ?f = ?c")
    case True
    then have "?p \<noteq> NULL" using assms(7) by blast
    then have "positioned U cs ?f1 s1" using P True assms(5,6) s1(4-8) by (simp add: positioned_def Let_def)
    moreover have "file_step h s ?f1 s1" using s1(1,3) by (simp add: file_step_def)
    ultimately show ?thesis using reading_step [OF assms(1)] run True s1(2) by auto
  next
    case False
    let ?f2 = "?f1\<lparr>f_nCluster := ?c\<rparr>"
    define s2 where "s2 = s1\<lparr>m_Files := (m_Files s)[h := ?f2]\<rparr>"
    have s2: "upd_file h (\<lambda>f. f\<lparr>f_nCluster := ?c\<rparr>) s1 = Some s2" "m_Files s2 = (m_Files s)[h := ?f2]" "m_Files s2 ! h = ?f2" "vsame s s2"
      "cuses s2 = cuses s" "volume s2" "m_FATInfo s2 = m_FATInfo s" "cbufs s2 = cbufs s" "h < length (m_Files s2)"
      using s1 R(7) files_vsame [OF s1(3)] by (simp_all add: s2_def upd_file_eq)
    have U1: "U ?p + 1 \<noteq> 0" if "?p \<noteq> NULL" using R(6) P(2) [OF that] by (simp add: roomy_def)
    have pre: "U = (if ?p = NULL then cuses s2 else (cuses s2)(?p := cuses s2 ?p - 1))" "?p = f_pBuffer (m_Files s2 ! h)"
      "?p \<noteq> NULL \<Longrightarrow> ?p \<in> set (cbufs s2) \<and> cuses s2 ?p \<noteq> 0"
      using U P(2) U1 by (simp_all add: s2(3,5,8))
    obtain s3 where S: "(if ?p \<noteq> NULL then do { s \<leftarrow> FATCacheFreeCluster ?p False s2; upd_file h (\<lambda>f. f\<lparr>f_pBuffer := NULL\<rparr>) s } else Some s2) = Some s3"
      "file_step h s2 ((m_Files s2 ! h)\<lparr>f_pBuffer := NULL\<rparr>) s3" "cuses s3 = U"
      by (rule seek_release [OF s2(6,9) pre])
    have v3: "vsame s s3" using S(2) vsame_trans [OF s2(4)] by (simp add: file_step_def)
    have s3: "m_Files s3 = (m_Files s)[h := ?f2\<lparr>f_pBuffer := NULL\<rparr>]" "volume s3" "m_FATInfo s3 = m_FATInfo s" "cbufs s3 = cbufs s"
      using S(2) v3 R(7) by (simp_all add: file_step_def s2(2) vsame_def)
    have pre3: "cluster_ok (m_FATInfo s3) ?c" "own s3 ?c" "roomy (cuses s3) (set (cbufs s3))"
      using ok v3 R(6) S(3) s3 by (auto simp: vsame_def)
    obtain p s4 where C: "FATCacheGetCluster ?c False s3 = Some (p, s4)" "vsame s3 s4" "p \<noteq> NULL" "p \<in> set (cbufs s3)"
      "nKey (cbuf s4 p) = ?c" "cuses s4 = (cuses s3)(p := cuses s3 p + 1)" "Data (cbuf s4 p) = cview s3 ?c"
      "length (cview s3 ?c) = 512 * unat (spc s3)" "fat_fs.more s4 = fat_fs.more s3"
      "\<And>a. a \<in> set (cbufs s3) \<Longrightarrow> cuses s3 a \<noteq> 0 \<Longrightarrow> nKey (cbuf s4 a) = nKey (cbuf s3 a)"
      by (rule vol_get_cluster [OF s3(2) pre3], rule that)
    have m4: "m_Files s4 = m_Files s3" by (rule more_files [OF C(9)])
    let ?f4 = "?f2\<lparr>f_pBuffer := p\<rparr>" and ?s4 = "s4\<lparr>m_Files := (m_Files s)[h := ?f2\<lparr>f_pBuffer := p\<rparr>]\<rparr>"
    have "FATFileSystemFileSeek h offset whence s = Some (1, ?s4)"
      using run False s2(1) S(1) C(1,3) R(7) by (simp add: upd_file_eq m4 s3(1))
    moreover have "file_step h s ?f4 ?s4" using files_vsame [OF vsame_trans [OF v3 C(2)]] by (simp add: file_step_def)
    moreover have "positioned U cs ?f4 ?s4"
      using C(2-6) P(1) assms(5,6) S(3) s3(3,4) by (simp add: positioned_def Let_def vsame_def)
    ultimately show ?thesis using reading_step [OF assms(1)] R(7) by fastforce
  qed
qed

end
