(* ===== verification/FatOpen.thy ===== *)
theory FatOpen
  imports FatFsProps FatDirProps
begin

text \<open>
  Opening files: the search of a directory seen from both caches, and the state that \<^verbatim>\<open>FATFileSystemFileOpen\<close> of
  \<^verbatim>\<open>env/lib/fs/fatfs.c\<close> leaves, in which the file is ready to be read.
\<close>


section \<open>Directories and the cluster cache\<close>











section \<open>Steps beside the caches\<close>

text \<open>What the theory says of a volume depends on the caches, the card and the description only.\<close>

definition same_core :: "'a fat_fs_scheme \<Rightarrow> 'a fat_fs_scheme \<Rightarrow> bool" where
  "same_core s s' \<longleftrightarrow> m_Cache s' = m_Cache s \<and> mmc_dev s' = mmc_dev s \<and> m_FATInfo s' = m_FATInfo s"


lemma same_core_refl [simp]: "same_core s s"
  by (simp add: same_core_def)


lemma same_core_trans: "same_core s t \<Longrightarrow> same_core t u \<Longrightarrow> same_core s u"
  by (simp add: same_core_def)

section \<open>Opening a file for reading\<close>













section \<open>An example\<close>












section \<open>Properties\<close>



end
