(* ===== verification/File.thy ===== *)
theory File
  imports FatFsProps
begin

text \<open>
  The interface of the file system, \<^verbatim>\<open>env/lib/fs/file.c\<close>: paths as strings, directories and streams over the functions of
  \<^verbatim>\<open>fatfs.c\<close>. A string on the heap is its address with the bytes. \<open>stack\<close> is what the array of
  \<open>FATDirectoryFAT2Name\<close> holds, \<open>nTime\<close> the time of the kernel timers.
\<close>

section \<open>Model\<close>

definition FILE_SUCCESS :: u32 where "FILE_SUCCESS = 1"
definition FILE_FAILED :: u32 where "FILE_FAILED = 0"
definition FS_OPT_ERROR :: u32 where "FS_OPT_ERROR = 0xFFFFFFFF"
definition MODE_CREATE :: u32 where "MODE_CREATE = 0x01"
definition MODE_WRITE :: u32 where "MODE_WRITE = 0x02"
definition MODE_READ :: u32 where "MODE_READ = 0x04"

subsection \<open>Splitting a path\<close>

text \<open>The search from the end for a slash; without one the index of the loop ends below 0.\<close>

primrec last_slash :: "nat \<Rightarrow> cstr \<Rightarrow> nat option" where
  "last_slash 0 p = None"
| "last_slash (Suc i) p = (if p ! i = 0x2F then Some i else last_slash i p)"

text \<open>The two strings on the heap. After a failed allocation the rest is not done.\<close>

definition new_strings :: "cstr \<Rightarrow> cstr \<Rightarrow> alloc_state \<Rightarrow> (ptr \<times> cstr) \<times> (ptr \<times> cstr) \<times> alloc_state" where
  "new_strings d f h =
     (let (p, h) = malloc (of_nat (length d + 1)) h in
      if p = NULL then ((NULL, []), (NULL, []), h)
      else
        let (q, h) = malloc (of_nat (length f + 1)) h in
        ((p, d), (q, if q = NULL then [] else f), h))"

definition tool_separate_dir_and_file :: "cstr \<Rightarrow> alloc_state \<Rightarrow> (ptr \<times> cstr) \<times> (ptr \<times> cstr) \<times> alloc_state" where
  "tool_separate_dir_and_file pPathStr h =
     (case last_slash (length pPathStr) pPathStr of
        Some i \<Rightarrow>
          if i = length pPathStr - 1 then ((NULL, []), (NULL, []), h)
          else new_strings (take i pPathStr) (drop (i + 1) pPathStr) h
      | None \<Rightarrow> new_strings [0x2F] pPathStr h)"

subsection \<open>Directories\<close>

definition fmount :: "u8 list \<Rightarrow> (ptr \<Rightarrow> u8 list) \<Rightarrow> 'a fat_files_scheme \<Rightarrow> (bool \<times> 'a fat_files_scheme) option" where
  "fmount mbr raw s = do { (r, s) \<leftarrow> FATFileSystemMount mbr raw s; Some (r \<noteq> 0, s) }"

definition funmount :: "'a fat_files_scheme \<Rightarrow> 'a fat_files_scheme option" where
  "funmount s = FATFileSystemUnMount s"

text \<open>The last directory of a path.\<close>

definition upper_dir :: "TPath \<Rightarrow> TDirectory option" where
  "upper_dir pPath = do { assert (0 < nSeriesNum pPath); rd (aDirectory pPath) (nSeriesNum pPath - 1) }"

definition fcreateDir :: "u32 \<Rightarrow> TPath \<Rightarrow> cstr \<Rightarrow> 'a fat_files_scheme \<Rightarrow> (u32 \<times> 'a fat_files_scheme) option" where
  "fcreateDir nTime pPath pDirName s = do { d \<leftarrow> upper_dir pPath; FATFileSystemDirCreate nTime d pDirName s }"

text \<open>The directory at index \<open>i\<close> of the path is opened in the one before it.\<close>

definition open_at :: "nat \<Rightarrow> TPath \<Rightarrow> 'a fat_files_scheme \<Rightarrow> (u32 \<times> TPath \<times> 'a fat_files_scheme) option" where
  "open_at i curPath s = do {
     u \<leftarrow> rd (aDirectory curPath) (i - 1);
     t \<leftarrow> rd (aDirectory curPath) i;
     (r, t, s) \<leftarrow> FATFileSystemDirOpen u t s;
     a \<leftarrow> wr (aDirectory curPath) i t;
     Some (r, curPath\<lparr>aDirectory := a\<rparr>, s) }"

definition create_at :: "u32 \<Rightarrow> nat \<Rightarrow> TPath \<Rightarrow> 'a fat_files_scheme \<Rightarrow> (u32 \<times> 'a fat_files_scheme) option" where
  "create_at nTime i curPath s = do {
     u \<leftarrow> rd (aDirectory curPath) (i - 1);
     t \<leftarrow> rd (aDirectory curPath) i;
     FATFileSystemDirCreate nTime u (cDirectoryName t) s }"

text \<open>The loop of \<open>fcreateDirs\<close> over the indices from \<open>i\<close> on.\<close>

primrec create_dirs_loop :: "nat \<Rightarrow> u32 \<Rightarrow> nat \<Rightarrow> TPath \<Rightarrow> 'a fat_files_scheme \<Rightarrow> (bool \<times> 'a fat_files_scheme) option" where
  "create_dirs_loop 0 nTime i curPath s = Some (True, s)"
| "create_dirs_loop (Suc n) nTime i curPath s = do {
     t \<leftarrow> rd (aDirectory curPath) i;
     if nInitFlg t = 1 then create_dirs_loop n nTime (i + 1) curPath s
     else do {
       (r, curPath, s) \<leftarrow> open_at i curPath s;
       if r = FS_DIR_NOT_EXIST then do {
         (c, s) \<leftarrow> create_at nTime i curPath s;
         if c = FS_DIR_CREATE_FAILED then Some (False, s)
         else do {
           (r, curPath, s) \<leftarrow> open_at i curPath s;
           if r = FS_DIR_NOT_EXIST then Some (False, s) else create_dirs_loop n nTime (i + 1) curPath s } }
       else create_dirs_loop n nTime (i + 1) curPath s } }"

definition fcreateDirs :: "u32 \<Rightarrow> TPath \<Rightarrow> cstr \<Rightarrow> 'a fat_files_scheme \<Rightarrow> (bool \<times> 'a fat_files_scheme) option" where
  "fcreateDirs nTime pCurPath pCreatePath s = do {
     r \<leftarrow> parserPath pCreatePath;
     case r of
       None \<Rightarrow> Some (False, s)
     | Some targetPath \<Rightarrow> do {
         r \<leftarrow> mergePath pCurPath targetPath;
         case r of
           None \<Rightarrow> Some (False, s)
         | Some curPath \<Rightarrow> create_dirs_loop (nSeriesNum curPath - 1) nTime 1 curPath s } }"

definition fopenRootDir :: "u8 list \<Rightarrow> TPath \<Rightarrow> 'a fat_files_scheme \<Rightarrow> (bool \<times> TPath \<times> 'a fat_files_scheme) option" where
  "fopenRootDir stack pPath s = do {
     t \<leftarrow> rd (aDirectory pPath) 0;
     (r, t, s) \<leftarrow> FATFileSystemRootDirOpen stack t s;
     a \<leftarrow> wr (aDirectory pPath) 0 t;
     if r = FS_DIR_NOT_EXIST then Some (False, pPath\<lparr>aDirectory := a\<rparr>, s)
     else Some (True, pPath\<lparr>aDirectory := a, nSeriesNum := 1\<rparr>, s) }"

partial_function (option) is_dir_loop ::
  "u8 list \<Rightarrow> TDirectory \<Rightarrow> cstr \<Rightarrow> TDirentry option \<Rightarrow> TFindCurrentEntry \<Rightarrow> 'a fat_files_scheme \<Rightarrow> (bool \<times> 'a fat_files_scheme) option" where
  "is_dir_loop stack pUpperDir file e cur s =
     (case e of
        None \<Rightarrow> Some (False, s)
      | Some x \<Rightarrow>
          if cFileName x = file \<and> nAttributes x AND ucast FAT_DIR_ATTR_DIRECTORY \<noteq> 0 then Some (True, s)
          else do {
            (e, cur, s) \<leftarrow> FATFileSystemDirFindNext stack pUpperDir cur s;
            is_dir_loop stack pUpperDir file e cur s })"

definition isDirectory :: "u8 list \<Rightarrow> TDirectory \<Rightarrow> cstr \<Rightarrow> 'a fat_files_scheme \<Rightarrow> (bool \<times> 'a fat_files_scheme) option" where
  "isDirectory stack pUpperDir file s = do {
     (e, cur, s) \<leftarrow> FATFileSystemDirFindFirst stack pUpperDir \<lparr>cur_nEntry = 0, cur_nCluster = 0\<rparr> s;
     is_dir_loop stack pUpperDir file e cur s }"

text \<open>The loop of \<open>fopenDir\<close>, and of \<open>fswitchDir\<close>, which does not create.\<close>

primrec open_dirs_loop ::
  "nat \<Rightarrow> u8 list \<Rightarrow> u32 \<Rightarrow> bool \<Rightarrow> nat \<Rightarrow> TPath \<Rightarrow> 'a fat_files_scheme \<Rightarrow> (TPath option \<times> 'a fat_files_scheme) option" where
  "open_dirs_loop 0 stack nTime nCreateFlg i curPath s = Some (Some curPath, s)"
| "open_dirs_loop (Suc n) stack nTime nCreateFlg i curPath s = do {
     t \<leftarrow> rd (aDirectory curPath) i;
     if nInitFlg t = 1 then open_dirs_loop n stack nTime nCreateFlg (i + 1) curPath s
     else do {
       u \<leftarrow> rd (aDirectory curPath) (i - 1);
       (is, s) \<leftarrow> isDirectory stack u (cDirectoryName t) s;
       if \<not> is then Some (None, s)
       else do {
         (r, curPath, s) \<leftarrow> open_at i curPath s;
         if r \<noteq> FS_DIR_NOT_EXIST then open_dirs_loop n stack nTime nCreateFlg (i + 1) curPath s
         else if nCreateFlg then do {
           (c, s) \<leftarrow> create_at nTime i curPath s;
           if c = FS_DIR_CREATE_FAILED then Some (None, s)
           else do {
             (r, curPath, s) \<leftarrow> open_at i curPath s;
             if r = FS_DIR_NOT_EXIST then Some (None, s)
             else open_dirs_loop n stack nTime nCreateFlg (i + 1) curPath s } }
         else Some (None, s) } } }"

text \<open>The path is resolved against \<open>curPath\<close> and its directories are opened.\<close>

definition open_path ::
  "u8 list \<Rightarrow> u32 \<Rightarrow> bool \<Rightarrow> cstr \<Rightarrow> TPath \<Rightarrow> 'a fat_files_scheme \<Rightarrow> (TPath option \<times> 'a fat_files_scheme) option" where
  "open_path stack nTime nCreateFlg pPathStr curPath s = do {
     r \<leftarrow> parserPath pPathStr;
     case r of
       None \<Rightarrow> Some (None, s)
     | Some targetPath \<Rightarrow> do {
         r \<leftarrow> mergePath curPath targetPath;
         case r of
           None \<Rightarrow> Some (None, s)
         | Some curPath \<Rightarrow> open_dirs_loop (nSeriesNum curPath - 1) stack nTime nCreateFlg 1 curPath s } }"

definition fopenDir ::
  "u8 list \<Rightarrow> u32 \<Rightarrow> cstr option \<Rightarrow> bool \<Rightarrow> TPath \<Rightarrow> 'a fat_files_scheme \<Rightarrow> (bool \<times> TPath \<times> 'a fat_files_scheme) option" where
  "fopenDir stack nTime pPathStr nCreateFlg pPath s = do {
     (ok, pPath, s) \<leftarrow> fopenRootDir stack pPath s;
     if \<not> ok then Some (False, pPath, s)
     else case pPathStr of
       None \<Rightarrow> Some (True, pPath, s)
     | Some str \<Rightarrow> do {
         (r, s) \<leftarrow> open_path stack nTime nCreateFlg str pPath s;
         case r of None \<Rightarrow> Some (False, pPath, s) | Some curPath \<Rightarrow> Some (True, curPath, s) } }"

definition fswitchDir :: "u8 list \<Rightarrow> TPath \<Rightarrow> cstr \<Rightarrow> 'a fat_files_scheme \<Rightarrow> (bool \<times> TPath \<times> 'a fat_files_scheme) option" where
  "fswitchDir stack pCurPath pNewPathStr s = do {
     (r, s) \<leftarrow> open_path stack 0 False pNewPathStr pCurPath s;
     case r of None \<Rightarrow> Some (False, pCurPath, s) | Some curPath \<Rightarrow> Some (True, curPath, s) }"

definition findFirstDir ::
  "u8 list \<Rightarrow> TPath \<Rightarrow> TFindCurrentEntry \<Rightarrow> 'a fat_files_scheme \<Rightarrow> (TDirentry option \<times> TFindCurrentEntry \<times> 'a fat_files_scheme) option" where
  "findFirstDir stack pPath cur s = do { d \<leftarrow> upper_dir pPath; FATFileSystemDirFindFirst stack d cur s }"

definition findNextDir ::
  "u8 list \<Rightarrow> TPath \<Rightarrow> TFindCurrentEntry \<Rightarrow> 'a fat_files_scheme \<Rightarrow> (TDirentry option \<times> TFindCurrentEntry \<times> 'a fat_files_scheme) option" where
  "findNextDir stack pPath cur s = do { d \<leftarrow> upper_dir pPath; FATFileSystemDirFindNext stack d cur s }"

subsection \<open>Files\<close>

text \<open>The mode of a stream; 0 where the code returns \<open>NULL\<close>.\<close>

definition stream_mode :: "cstr \<Rightarrow> u32" where
  "stream_mode mode =
     (if length mode > 2 then 0
      else if ch mode = 0x61 then MODE_WRITE
      else if ch mode = 0x72 then MODE_READ
      else if ch mode = 0x77 then MODE_CREATE
      else 0)"

definition fopenCurFile ::
  "u8 list \<Rightarrow> u32 \<Rightarrow> TPath \<Rightarrow> cstr \<Rightarrow> cstr \<Rightarrow> 'a fat_files_scheme \<Rightarrow> (nat option \<times> 'a fat_files_scheme) option" where
  "fopenCurFile stack nTime pPath pFileName mode s = do {
     d \<leftarrow> upper_dir pPath;
     (is, s) \<leftarrow> isDirectory stack d pFileName s;
     if is then Some (None, s)
     else
       let nMode = stream_mode mode in
       if nMode AND MODE_CREATE \<noteq> 0 then FATFileSystemFileCreate nTime d pFileName s
       else if nMode AND MODE_WRITE \<noteq> 0 then FATFileSystemFileOpen d pFileName 1 s
       else if nMode AND MODE_READ \<noteq> 0 then FATFileSystemFileOpen d pFileName 0 s
       else Some (None, s) }"

definition fdelete :: "TPath \<Rightarrow> cstr \<Rightarrow> 'a fat_files_scheme \<Rightarrow> (u32 \<times> 'a fat_files_scheme) option" where
  "fdelete pPath file s = do {
     d \<leftarrow> upper_dir pPath;
     (r, s) \<leftarrow> FATFileSystemFileDelete d file s;
     Some (if r \<noteq> -1 then FILE_SUCCESS else FILE_FAILED, s) }"

text \<open>The early returns leave the strings allocated.\<close>

definition fopen :: "u8 list \<Rightarrow> u32 \<Rightarrow> cstr \<Rightarrow> cstr \<Rightarrow> 'a fat_files_scheme \<Rightarrow> (nat option \<times> 'a fat_files_scheme) option" where
  "fopen stack nTime filename mode s = do {
     ((p, dir), (q, name), h) \<leftarrow> Some (tool_separate_dir_and_file filename (mem s));
     s \<leftarrow> Some (s\<lparr>mem := h\<rparr>);
     if p = NULL \<or> q = NULL then Some (None, s)
     else do {
       (ok, wholePath, s) \<leftarrow> fopenDir stack nTime (Some dir) False zero_path s;
       if \<not> ok then Some (None, s)
       else do {
         (stream, s) \<leftarrow> fopenCurFile stack nTime wholePath name mode s;
         s \<leftarrow> Some (s\<lparr>mem := free q (free p (mem s))\<rparr>);
         Some (stream, s) } } }"

definition fclose :: "u32 \<Rightarrow> nat \<Rightarrow> 'a fat_files_scheme \<Rightarrow> (bool \<times> 'a fat_files_scheme) option" where
  "fclose nTime stream s = do { (r, s) \<leftarrow> FATFileSystemFileClose nTime stream s; Some (r \<noteq> 0, s) }"

definition fsize :: "nat \<Rightarrow> 'a fat_files_scheme \<Rightarrow> u32 option" where
  "fsize stream s = FATFileSystemGetSize stream s"

definition fwrite :: "u8 list \<Rightarrow> u32 \<Rightarrow> u32 \<Rightarrow> nat \<Rightarrow> 'a fat_files_scheme \<Rightarrow> (u32 \<times> 'a fat_files_scheme) option" where
  "fwrite p sz nmemb stream s = do {
     assert (sz \<noteq> 0);
     assert (nmemb \<noteq> 0);
     (r, s) \<leftarrow> FATFileSystemFileWrite stream p (sz * nmemb) s;
     Some (if r = FS_ERROR then FS_OPT_ERROR else r div sz, s) }"

definition fread :: "u32 \<Rightarrow> u32 \<Rightarrow> nat \<Rightarrow> 'a fat_files_scheme \<Rightarrow> (u32 \<times> u8 list \<times> 'a fat_files_scheme) option" where
  "fread sz nmemb stream s = do {
     assert (sz \<noteq> 0);
     assert (nmemb \<noteq> 0);
     (r, d, s) \<leftarrow> FATFileSystemFileRead stream (sz * nmemb) s;
     Some (if r = FS_ERROR then FS_OPT_ERROR else r div sz, d, s) }"

definition fseek :: "nat \<Rightarrow> u32 \<Rightarrow> u32 \<Rightarrow> 'a fat_files_scheme \<Rightarrow> (u32 \<times> 'a fat_files_scheme) option" where
  "fseek stream offset whence s = FATFileSystemFileSeek stream offset whence s"

definition feof :: "nat \<Rightarrow> 'a fat_files_scheme \<Rightarrow> bool option" where
  "feof stream s = do { f \<leftarrow> rd (m_Files s) stream; Some (f_nSize f = f_nOffset f) }"

definition ferror :: "nat \<Rightarrow> int" where "ferror stream = 1"

definition fflush :: "nat \<Rightarrow> int" where "fflush stream = 0"


section \<open>Splitting a path\<close>

lemma last_slash_none: "0x2F \<notin> set p \<Longrightarrow> n \<le> length p \<Longrightarrow> last_slash n p = None"
  by (induction n) (auto simp: in_set_conv_nth)

lemma last_slash_at: "0x2F \<notin> set f \<Longrightarrow> n \<le> length f \<Longrightarrow> last_slash (length d + Suc n) (d @ 0x2F # f) = Some (length d)"
  by (induction n) (auto simp: nth_append in_set_conv_nth)

text \<open>A path is split at its last slash; a path that ends with a slash names no file, and a path without one a file of the
  root directory.\<close>

lemma separate_path:
  assumes "0x2F \<notin> set f"
  shows "tool_separate_dir_and_file (d @ 0x2F # f) h = (if f = [] then ((NULL, []), (NULL, []), h) else new_strings d f h)"
    "tool_separate_dir_and_file f h = new_strings [0x2F] f h"
  using last_slash_at [OF assms, of "length f" d] last_slash_none [OF assms, of "length f"]
  by (simp_all add: tool_separate_dir_and_file_def)

section \<open>Properties\<close>

text \<open>\<open>fread\<close> delivers the next items of a file, or all bytes up to its end, and returns the number of complete items among
  them. Behind it, \<open>feof\<close> holds exactly if no fewer bytes were asked for than were left.\<close>

lemma fread_items:
  fixes s :: "'a fat_files_scheme" and sz nmemb :: u32
  assumes "reading U h cs s" "f_nUseCount (m_Files s ! h) \<noteq> 0" "\<not> f_bWrite (m_Files s ! h)"
    and "sz \<noteq> 0" "nmemb \<noteq> 0" "unat sz * unat nmemb < 2 ^ 32 - 1"
  defines "left \<equiv> unat (f_nSize (m_Files s ! h)) - unat (f_nOffset (m_Files s ! h))"
  defines "k \<equiv> min (unat sz * unat nmemb) left"
  shows "\<exists>s'. fread sz nmemb h s = Some (of_nat (k div unat sz), take k (drop (unat (f_nOffset (m_Files s ! h))) (file_data s cs)), s') \<and>
     reading U h cs s' \<and> file_data s' cs = file_data s cs \<and> feof h s' = Some (left \<le> unat sz * unat nmemb)"
proof -
  let ?f = "m_Files s ! h"
  note R = readingD [OF assms(1)]
  have u: "unat (sz * nmemb) = unat sz * unat nmemb" using assms(6) by (simp add: unat_word_ariths)
  have "0 < unat sz * unat nmemb" using assms(4,5) by (simp add: unat_gt_0)
  then have pos: "0 < sz * nmemb" using u by (simp add: word_less_nat_alt)
  have k: "k < 2 ^ 32 - 1" using assms(6) by (simp add: k_def)
  have le: "f_nOffset ?f \<le> f_nSize ?f" using R(8) by (simp add: positioned_def)
  obtain c p s' where L: "read_loop h (sz * nmemb) 0 s = Some (0 + of_nat k, take k (drop (unat (f_nOffset ?f)) (file_data s cs)), s')"
    "file_step h s (?f\<lparr>f_nCluster := c, f_nOffset := f_nOffset ?f + of_nat k, f_pBuffer := p\<rparr>) s'"
    "reading U h cs s'" "file_data s' cs = file_data s cs"
    using read_loop_spec [OF assms(1), of "sz * nmemb" 0] unfolding k_def left_def u by blast
  have f': "m_Files s' ! h = ?f\<lparr>f_nCluster := c, f_nOffset := f_nOffset ?f + of_nat k, f_pBuffer := p\<rparr>" "h < length (m_Files s')"
    using L(2) R(7) by (simp_all add: file_step_def)
  have n: "(of_nat k :: u32) \<noteq> FS_ERROR" "unat (of_nat k :: u32) = k" using k by (auto simp: FS_ERROR_def word_unat_eq_iff unat_of_nat)
  have "k div unat sz < 2 ^ 32" using k div_le_dividend [of k "unat sz"] by linarith
  then have "(of_nat k :: u32) div sz = of_nat (k div unat sz)" using n(2) by (simp add: word_unat_eq_iff unat_div unat_of_nat)
  then have "fread sz nmemb h s = Some (of_nat (k div unat sz), take k (drop (unat (f_nOffset ?f)) (file_data s cs)), s')"
    using assms(2-5) R(7) pos n(1) L(1) by (simp add: fread_def FATFileSystemFileRead_def word_gt_0)
  moreover have "feof h s' = Some (left \<le> unat sz * unat nmemb)"
  proof -
    have "unat (f_nOffset ?f) + k < 2 ^ 32"
      using le unsigned_less [of "f_nSize ?f", where ?'a = nat] by (simp add: k_def left_def word_le_nat_alt)
    then have "unat (f_nOffset ?f + of_nat k) = unat (f_nOffset ?f) + k" using n(2) by (simp add: unat_word_ariths)
    then have "f_nSize ?f = f_nOffset ?f + of_nat k \<longleftrightarrow> left \<le> unat sz * unat nmemb"
      using le by (auto simp: word_unat_eq_iff k_def left_def word_le_nat_alt)
    then show ?thesis using f' by (simp add: feof_def)
  qed
  ultimately show ?thesis using L(3,4) by blast
qed

end
