(* ===== verification/Sheet.thy ===== *)
theory Sheet
  imports Alloc
begin

text \<open>
  The windows on the screen, \<^verbatim>\<open>env/lib/graphic/graphic.c\<close>: sheets with a position and a height, the map of which sheet is
  visible at each pixel, and the frame buffer. A sheet is its index in \<open>sheets0\<close>; the array of its pixels is kept with it.
  The fields that describe the picture in a sheet are left out. The map and the frame buffer are arrays over their indices. A
  pointer that was never set, or an index outside the array of sheets, is the outcome \<^term>\<open>None\<close>. The screen is mounted horizontally (\<open>SCREEN_HORIZONTAL\<close>): a row of the picture is a
  column of the frame buffer.
\<close>

section \<open>Model\<close>

subsection \<open>Sheets\<close>

record SHEET =
  bufp :: ptr
  buf :: "u32 list"
  picBuf :: ptr
  bxsize :: int
  bysize :: int
  col_inv :: int
  height :: int
  flags :: int
  editFlag :: int
  current_status :: int
  zoom_status :: int
  cursorx :: int
  cursory :: int
  vx0 :: int
  vy0 :: int

record SHTCTL =
  vram :: "int \<Rightarrow> u32"
  sht_map :: "int \<Rightarrow> u32"
  xsize :: int
  ysize :: int
  ctl_top :: int
  sheets :: "nat \<Rightarrow> nat option"
  sheets0 :: "nat \<Rightarrow> SHEET"

definition MAX_SHEETS :: nat where "MAX_SHEETS = 256"

definition sheet_at :: "SHTCTL \<Rightarrow> int \<Rightarrow> nat option" where
  "sheet_at ctl h = do { assert (0 \<le> h \<and> h < int MAX_SHEETS); sheets ctl (nat h) }"

definition put_sheet :: "int \<Rightarrow> nat \<Rightarrow> SHTCTL \<Rightarrow> SHTCTL option" where
  "put_sheet h i ctl = do { assert (0 \<le> h \<and> h < int MAX_SHEETS); Some (ctl\<lparr>sheets := (sheets ctl)(nat h := Some i)\<rparr>) }"

definition upd_sheet :: "nat \<Rightarrow> (SHEET \<Rightarrow> SHEET) \<Rightarrow> SHTCTL \<Rightarrow> SHTCTL" where
  "upd_sheet i f ctl = ctl\<lparr>sheets0 := (sheets0 ctl)(i := f (sheets0 ctl i))\<rparr>"

primrec alloc_sheet_loop :: "nat \<Rightarrow> nat \<Rightarrow> SHTCTL \<Rightarrow> nat option \<times> SHTCTL" where
  "alloc_sheet_loop 0 i ctl = (None, ctl)"
| "alloc_sheet_loop (Suc n) i ctl =
     (if flags (sheets0 ctl i) = 0 then (Some i, upd_sheet i (\<lambda>s. s\<lparr>flags := 1, height := -1\<rparr>) ctl)
      else alloc_sheet_loop n (i + 1) ctl)"

definition sheet_alloc :: "SHTCTL \<Rightarrow> nat option \<times> SHTCTL" where
  "sheet_alloc ctl = alloc_sheet_loop MAX_SHEETS 0 ctl"

definition sheet_setbuf :: "nat \<Rightarrow> ptr \<Rightarrow> u32 list \<Rightarrow> int \<Rightarrow> int \<Rightarrow> int \<Rightarrow> SHTCTL \<Rightarrow> SHTCTL" where
  "sheet_setbuf sht p b xs ys ci ctl = upd_sheet sht (\<lambda>s. s\<lparr>bufp := p, buf := b, bxsize := xs, bysize := ys, col_inv := ci\<rparr>) ctl"

subsection \<open>The map and the frame buffer\<close>

text \<open>The part of a sheet inside of an area, in its own coordinates: the limits of the loops.\<close>

definition clip :: "int \<times> int \<times> int \<times> int \<Rightarrow> SHEET \<Rightarrow> int \<times> int \<times> int \<times> int" where
  "clip a s =
     (let (ax0, ay0, ax1, ay1) = a;
          bx0 = ax0 - vx0 s; by0 = ay0 - vy0 s; bx1 = ax1 - vx0 s; by1 = ay1 - vy0 s
      in (if bx0 < 0 then 0 else bx0, if by0 < 0 then 0 else by0,
          if bx1 > bxsize s then bxsize s else bx1, if by1 > bysize s then bysize s else by1))"

definition on_screen :: "SHTCTL \<Rightarrow> int \<Rightarrow> int \<Rightarrow> int \<Rightarrow> int \<Rightarrow> int \<times> int \<times> int \<times> int" where
  "on_screen ctl ax0 ay0 ax1 ay1 =
     (if ax0 < 0 then 0 else ax0, if ay0 < 0 then 0 else ay0,
      if ax1 > xsize ctl then xsize ctl else ax1, if ay1 > ysize ctl then ysize ctl else ay1)"

definition map_pixel :: "nat \<Rightarrow> int \<Rightarrow> int \<Rightarrow> SHTCTL \<Rightarrow> SHTCTL" where
  "map_pixel i by bx ctl =
     (let s = sheets0 ctl i in
      if col_inv s = -1 \<or> buf s ! nat (by * bxsize s + bx) \<noteq> word_of_int (col_inv s)
      then ctl\<lparr>sht_map := (sht_map ctl)((vy0 s + by) * xsize ctl + (vx0 s + bx) := of_nat i)\<rparr>
      else ctl)"

definition map_sheet :: "int \<times> int \<times> int \<times> int \<Rightarrow> nat \<Rightarrow> SHTCTL \<Rightarrow> SHTCTL" where
  "map_sheet a i ctl =
     (let (bx0, by0, bx1, by1) = clip a (sheets0 ctl i)
      in fold (\<lambda>by. fold (map_pixel i by) [bx0 .. bx1 - 1]) [by0 .. by1 - 1] ctl)"

primrec map_loop :: "nat \<Rightarrow> int \<Rightarrow> int \<times> int \<times> int \<times> int \<Rightarrow> SHTCTL \<Rightarrow> SHTCTL option" where
  "map_loop 0 h a ctl = Some ctl"
| "map_loop (Suc n) h a ctl = do { i \<leftarrow> sheet_at ctl h; map_loop n (h + 1) a (map_sheet a i ctl) }"

definition sheet_refreshmap :: "int \<Rightarrow> int \<Rightarrow> int \<Rightarrow> int \<Rightarrow> int \<Rightarrow> SHTCTL \<Rightarrow> SHTCTL option" where
  "sheet_refreshmap ax0 ay0 ax1 ay1 h0 ctl = map_loop (nat (ctl_top ctl - h0 + 1)) h0 (on_screen ctl ax0 ay0 ax1 ay1) ctl"

definition vram_at :: "SHTCTL \<Rightarrow> int \<Rightarrow> int \<Rightarrow> int" where
  "vram_at ctl vx vy = vx * ysize ctl + ysize ctl - vy"

definition draw_pixel :: "nat \<Rightarrow> int \<Rightarrow> int \<Rightarrow> SHTCTL \<Rightarrow> SHTCTL" where
  "draw_pixel i by bx ctl =
     (let s = sheets0 ctl i; vy = vy0 s + by; vx = vx0 s + bx in
      if sht_map ctl (vy * xsize ctl + vx) = of_nat i
      then ctl\<lparr>vram := (vram ctl)(vram_at ctl vx vy := buf s ! nat (by * bxsize s + bx))\<rparr>
      else ctl)"

definition draw_sheet :: "int \<times> int \<times> int \<times> int \<Rightarrow> nat \<Rightarrow> SHTCTL \<Rightarrow> SHTCTL" where
  "draw_sheet a i ctl =
     (let (bx0, by0, bx1, by1) = clip a (sheets0 ctl i)
      in fold (\<lambda>by. fold (draw_pixel i by) [bx0 .. bx1 - 1]) [by0 .. by1 - 1] ctl)"

primrec draw_loop :: "nat \<Rightarrow> int \<Rightarrow> int \<times> int \<times> int \<times> int \<Rightarrow> SHTCTL \<Rightarrow> SHTCTL option" where
  "draw_loop 0 h a ctl = Some ctl"
| "draw_loop (Suc n) h a ctl = do { i \<leftarrow> sheet_at ctl h; draw_loop n (h + 1) a (draw_sheet a i ctl) }"

definition sheet_refreshsub :: "int \<Rightarrow> int \<Rightarrow> int \<Rightarrow> int \<Rightarrow> int \<Rightarrow> int \<Rightarrow> SHTCTL \<Rightarrow> SHTCTL option" where
  "sheet_refreshsub ax0 ay0 ax1 ay1 h0 h1 ctl = draw_loop (nat (h1 - h0 + 1)) h0 (on_screen ctl ax0 ay0 ax1 ay1) ctl"

text \<open>The map and the frame buffer of an area, from one height on and between two heights.\<close>

definition refresh_area :: "int \<Rightarrow> int \<Rightarrow> int \<Rightarrow> int \<Rightarrow> int \<Rightarrow> int \<Rightarrow> int \<Rightarrow> SHTCTL \<Rightarrow> SHTCTL option" where
  "refresh_area ax0 ay0 ax1 ay1 h0 d0 d1 ctl = do {
     ctl \<leftarrow> sheet_refreshmap ax0 ay0 ax1 ay1 h0 ctl;
     sheet_refreshsub ax0 ay0 ax1 ay1 d0 d1 ctl }"

subsection \<open>Heights\<close>

text \<open>The loops that move the sheets between two heights one down or one up.\<close>

primrec shift_up :: "nat \<Rightarrow> int \<Rightarrow> SHTCTL \<Rightarrow> SHTCTL option" where
  "shift_up 0 h ctl = Some ctl"
| "shift_up (Suc n) h ctl = do {
     i \<leftarrow> sheet_at ctl (h - 1);
     ctl \<leftarrow> put_sheet h i ctl;
     shift_up n (h - 1) (upd_sheet i (\<lambda>s. s\<lparr>height := h\<rparr>) ctl) }"

primrec shift_down :: "nat \<Rightarrow> int \<Rightarrow> SHTCTL \<Rightarrow> SHTCTL option" where
  "shift_down 0 h ctl = Some ctl"
| "shift_down (Suc n) h ctl = do {
     i \<leftarrow> sheet_at ctl (h + 1);
     ctl \<leftarrow> put_sheet h i ctl;
     shift_down n (h + 1) (upd_sheet i (\<lambda>s. s\<lparr>height := h\<rparr>) ctl) }"

definition refresh_sheet :: "nat \<Rightarrow> int \<Rightarrow> int \<Rightarrow> int \<Rightarrow> SHTCTL \<Rightarrow> SHTCTL option" where
  "refresh_sheet sht h0 d0 d1 ctl =
     (let s = sheets0 ctl sht in refresh_area (vx0 s) (vy0 s) (vx0 s + bxsize s) (vy0 s + bysize s) h0 d0 d1 ctl)"

definition sheet_updown :: "nat \<Rightarrow> int \<Rightarrow> SHTCTL \<Rightarrow> SHTCTL option" where
  "sheet_updown sht h ctl =
     (let old = height (sheets0 ctl sht);
          h = (if h > ctl_top ctl + 1 then ctl_top ctl + 1 else h);
          h = (if h < -1 then -1 else h);
          ctl = upd_sheet sht (\<lambda>s. s\<lparr>height := h\<rparr>) ctl
      in
        if old > h then
          if h \<ge> 0 then do {
            ctl \<leftarrow> shift_up (nat (old - h)) old ctl;
            ctl \<leftarrow> put_sheet h sht ctl;
            refresh_sheet sht (h + 1) (h + 1) old ctl }
          else do {
            ctl \<leftarrow> (if ctl_top ctl > old then shift_down (nat (ctl_top ctl - old)) old ctl else Some ctl);
            refresh_sheet sht 0 0 (old - 1) (ctl\<lparr>ctl_top := ctl_top ctl - 1\<rparr>) }
        else if old < h then do {
          ctl \<leftarrow>
            (if old \<ge> 0 then do {
               ctl \<leftarrow> shift_down (nat (h - old)) old ctl;
               put_sheet h sht ctl }
             else do {
               ctl \<leftarrow> shift_up (nat (ctl_top ctl + 1 - h)) (ctl_top ctl + 1) ctl;
               ctl \<leftarrow> put_sheet h sht ctl;
               Some (ctl\<lparr>ctl_top := ctl_top ctl + 1\<rparr>) });
          refresh_sheet sht h h h ctl }
        else Some ctl)"

definition sheet_refresh :: "nat \<Rightarrow> int \<Rightarrow> int \<Rightarrow> int \<Rightarrow> int \<Rightarrow> SHTCTL \<Rightarrow> SHTCTL option" where
  "sheet_refresh sht bx0 by0 bx1 by1 ctl =
     (let s = sheets0 ctl sht in
      if height s \<ge> 0 then sheet_refreshsub (vx0 s + bx0) (vy0 s + by0) (vx0 s + bx1) (vy0 s + by1) (height s) (height s) ctl
      else Some ctl)"


subsection \<open>Positions\<close>

text \<open>The limits of a position: \<open>m\<close> pixels of the background stay to the right of it and below it.\<close>

definition limit :: "int \<Rightarrow> int \<Rightarrow> int \<Rightarrow> int" where
  "limit n m v = (let v = (if v < 0 then 0 else v) in if v > n - m then n - m else v)"

definition place :: "SHEET \<Rightarrow> int \<Rightarrow> int \<Rightarrow> int \<Rightarrow> SHEET \<Rightarrow> SHEET" where
  "place back m x y s = s\<lparr>vx0 := limit (bxsize back) m x, vy0 := limit (bysize back) m y\<rparr>"

text \<open>The parts of the old place of a sheet that have to be drawn again: what is left of it or right of it, and what is above or below,
  or the whole place.\<close>

definition old_areas :: "SHEET \<Rightarrow> int \<Rightarrow> int \<Rightarrow> (int \<times> int \<times> int \<times> int) option \<times> (int \<times> int \<times> int \<times> int) option" where
  "old_areas s old_win_x old_win_y =
     (let new_win_x = vx0 s; new_win_y = vy0 s; w = bxsize s; h = bysize s in
      if new_win_x - old_win_x \<ge> w \<or> old_win_x - new_win_x \<ge> w \<or> new_win_y - old_win_y \<ge> h \<or> old_win_y - new_win_y \<ge> h
      then (Some (old_win_x, old_win_y, old_win_x + w, old_win_y + h), None)
      else
        (if new_win_x > old_win_x then Some (old_win_x, old_win_y, new_win_x, old_win_y + h)
         else if new_win_x = old_win_x then None
         else Some (new_win_x + w, old_win_y, old_win_x + w, old_win_y + h),
         if new_win_y > old_win_y then Some (old_win_x, old_win_y, old_win_x + w, new_win_y)
         else if new_win_y = old_win_y then None
         else Some (old_win_x, new_win_y + h, old_win_x + w, old_win_y + h)))"

definition refresh_old :: "(int \<times> int \<times> int \<times> int) option \<Rightarrow> int \<Rightarrow> SHTCTL \<Rightarrow> SHTCTL option" where
  "refresh_old area h ctl =
     (case area of None \<Rightarrow> Some ctl | Some (ax0, ay0, ax1, ay1) \<Rightarrow> refresh_area ax0 ay0 ax1 ay1 0 0 (h - 1) ctl)"

definition sheet_slide_refresh :: "nat \<Rightarrow> int \<Rightarrow> int \<Rightarrow> SHTCTL \<Rightarrow> SHTCTL option" where
  "sheet_slide_refresh sht old_win_x old_win_y ctl =
     (let s = sheets0 ctl sht; (old_need_area1, old_need_area2) = old_areas s old_win_x old_win_y in do {
        ctl \<leftarrow> refresh_old old_need_area1 (height s) ctl;
        ctl \<leftarrow> refresh_old old_need_area2 (height s) ctl;
        refresh_sheet sht (height s) (height s) (height s) ctl })"

text \<open>\<open>sheet_slide\<close>, and \<open>sheet_slide_step\<close> without its first test; \<open>sht_back\<close> is the sheet of the background.\<close>

definition slide_to :: "nat \<Rightarrow> nat \<Rightarrow> int \<Rightarrow> int \<Rightarrow> SHTCTL \<Rightarrow> SHTCTL option" where
  "slide_to sht_back sht x y ctl =
     (let s = sheets0 ctl sht; ctl = upd_sheet sht (place (sheets0 ctl sht_back) 2 x y) ctl; s' = sheets0 ctl sht in
      if vx0 s = vx0 s' \<and> vy0 s = vy0 s' then Some ctl
      else if height s' \<ge> 0 then sheet_slide_refresh sht (vx0 s) (vy0 s) ctl
      else Some ctl)"

definition sheet_slide :: "nat \<Rightarrow> nat \<Rightarrow> int \<Rightarrow> int \<Rightarrow> SHTCTL \<Rightarrow> SHTCTL option" where
  "sheet_slide sht_back sht x y ctl = slide_to sht_back sht x y ctl"

definition sheet_slide_step :: "nat \<Rightarrow> nat option \<Rightarrow> nat \<Rightarrow> int \<Rightarrow> int \<Rightarrow> SHTCTL \<Rightarrow> SHTCTL option" where
  "sheet_slide_step sht_back m_tmp_sht_win sht dx dy ctl = do {
     w \<leftarrow> m_tmp_sht_win;
     if current_status (sheets0 ctl w) = 1 then Some ctl
     else slide_to sht_back sht (vx0 (sheets0 ctl sht) + dx) (vy0 (sheets0 ctl sht) + dy) ctl }"

definition mouse_sheet_slide :: "nat \<Rightarrow> nat \<Rightarrow> int \<Rightarrow> int \<Rightarrow> SHTCTL \<Rightarrow> SHTCTL option" where
  "mouse_sheet_slide sht_back sht nDisplacementX nDisplacementY ctl =
     (let s = sheets0 ctl sht;
          ctl = upd_sheet sht (place (sheets0 ctl sht_back) 1 (vx0 s + nDisplacementX) (vy0 s + nDisplacementY)) ctl;
          s' = sheets0 ctl sht
      in
        if height s' \<ge> 0 then do {
          ctl \<leftarrow> sheet_refreshmap (vx0 s) (vy0 s) (vx0 s + bxsize s') (vy0 s + bysize s') 0 ctl;
          ctl \<leftarrow> sheet_refreshmap (vx0 s') (vy0 s') (vx0 s' + bxsize s') (vy0 s' + bysize s') (height s') ctl;
          ctl \<leftarrow> sheet_refreshsub (vx0 s) (vy0 s) (vx0 s + bxsize s') (vy0 s + bysize s') 0 (height s' - 1) ctl;
          sheet_refreshsub (vx0 s') (vy0 s') (vx0 s' + bxsize s') (vy0 s' + bysize s') (height s') (height s') ctl }
        else Some ctl)"

end
