(* ===== verification/SheetProps.thy ===== *)
theory SheetProps
  imports Sheet
begin

text \<open>
  Correctness of the composition of the screen. The abstract state is the stack of the sheets that are shown, from the bottom to the
  top; the screen is \<open>composed\<close> if the map and the frame buffer have at every pixel the highest sheet that is not transparent
  there. A partial refresh establishes this in its area; changing the height of a sheet and moving a sheet keep it.
\<close>

section \<open>Pixels\<close>

definition inside :: "SHEET \<Rightarrow> int \<Rightarrow> int \<Rightarrow> bool" where
  "inside s x y \<longleftrightarrow> vx0 s \<le> x \<and> x < vx0 s + bxsize s \<and> vy0 s \<le> y \<and> y < vy0 s + bysize s"

definition colour :: "SHEET \<Rightarrow> int \<Rightarrow> int \<Rightarrow> u32" where
  "colour s x y = buf s ! nat ((y - vy0 s) * bxsize s + (x - vx0 s))"

definition covers :: "SHEET \<Rightarrow> int \<Rightarrow> int \<Rightarrow> bool" where
  "covers s x y \<longleftrightarrow> inside s x y \<and> (col_inv s = -1 \<or> colour s x y \<noteq> word_of_int (col_inv s))"

definition in_area :: "int \<times> int \<times> int \<times> int \<Rightarrow> int \<Rightarrow> int \<Rightarrow> bool" where
  "in_area a x y \<longleftrightarrow> (case a of (ax0, ay0, ax1, ay1) \<Rightarrow> ax0 \<le> x \<and> x < ax1 \<and> ay0 \<le> y \<and> y < ay1)"

abbreviation screen :: "SHTCTL \<Rightarrow> int \<times> int \<times> int \<times> int" where "screen ctl \<equiv> (0, 0, xsize ctl, ysize ctl)"

definition seen :: "SHTCTL \<Rightarrow> int \<Rightarrow> int \<Rightarrow> u32" where
  "seen ctl x y = sht_map ctl (y * xsize ctl + x)"

definition shown :: "SHTCTL \<Rightarrow> int \<Rightarrow> int \<Rightarrow> u32" where
  "shown ctl x y = vram ctl (vram_at ctl x y)"

lemma on_screen_area: "in_area (on_screen ctl ax0 ay0 ax1 ay1) x y \<longleftrightarrow> in_area (screen ctl) x y \<and> in_area (ax0, ay0, ax1, ay1) x y"
  by (auto simp: in_area_def on_screen_def)

lemma row_inj:
  fixes n :: int
  assumes "0 \<le> x" "x < n" "0 \<le> x'" "x' < n" "y * n + x = y' * n + x'"
  shows "y = y' \<and> x = x'"
proof -
  have "(y * n + x) div n = y" "(y' * n + x') div n = y'" using assms(1-4) by (simp_all add: div_pos_pos_trivial)
  then show ?thesis using assms(5) by simp
qed

lemma vram_at_upd [simp]: "vram_at (ctl\<lparr>vram := v\<rparr>) = vram_at ctl" "vram_at (ctl\<lparr>sht_map := m\<rparr>) = vram_at ctl"
  by (simp_all add: vram_at_def fun_eq_iff)

lemma vram_at_inj:
  assumes "in_area (screen ctl) x y" "in_area (screen ctl) x' y'"
  shows "vram_at ctl x y = vram_at ctl x' y' \<longleftrightarrow> x = x' \<and> y = y'"
proof
  assume "vram_at ctl x y = vram_at ctl x' y'"
  then have "x * ysize ctl + (ysize ctl - 1 - y) = x' * ysize ctl + (ysize ctl - 1 - y')" by (simp add: vram_at_def)
  then show "x = x' \<and> y = y'" using assms row_inj [of "ysize ctl - 1 - y" "ysize ctl" "ysize ctl - 1 - y'" x x'] by (auto simp: in_area_def)
qed simp

section \<open>The loops over pixels\<close>

lemma fold_nested: "fold (\<lambda>y. fold (f y) xs) ys s = fold (\<lambda>(y, x). f y x) (List.product ys xs) s"
proof (induction ys arbitrary: s)
  case (Cons y ys)
  have "fold (f y) xs t = fold (\<lambda>(y, x). f y x) (map (Pair y) xs) t" for t by (induction xs arbitrary: t) auto
  then show ?case using Cons by (simp add: fold_append)
qed simp

lemma fold_writes:
  assumes "\<And>p. p \<in> set ps \<Longrightarrow> P p \<Longrightarrow> g p = k \<Longrightarrow> v p = w"
  shows "fold (\<lambda>p m. if P p then m(g p := v p) else m) ps m k = (if \<exists>p\<in>set ps. P p \<and> g p = k then w else m k)"
  using assms by (induction ps arbitrary: m) auto

text \<open>A pixel of a sheet in the area, as a pixel of the screen.\<close>

definition pixels :: "int \<times> int \<times> int \<times> int \<Rightarrow> SHEET \<Rightarrow> (int \<times> int) list" where
  "pixels a s = (let (bx0, by0, bx1, by1) = clip a s in List.product [by0 .. by1 - 1] [bx0 .. bx1 - 1])"

lemma pixels_iff: "(by, bx) \<in> set (pixels a s) \<longleftrightarrow> inside s (vx0 s + bx) (vy0 s + by) \<and> in_area a (vx0 s + bx) (vy0 s + by)"
  by (cases a) (auto simp: pixels_def clip_def inside_def in_area_def Let_def)

lemma pixel_ex: "(\<exists>p\<in>set (pixels a s). Q p) \<longleftrightarrow> (\<exists>x y. inside s x y \<and> in_area a x y \<and> Q (y - vy0 s, x - vx0 s))"
proof
  assume "\<exists>p\<in>set (pixels a s). Q p"
  then obtain bx b where "(b, bx) \<in> set (pixels a s)" "Q (b, bx)" by auto
  then show "\<exists>x y. inside s x y \<and> in_area a x y \<and> Q (y - vy0 s, x - vx0 s)"
    by (intro exI [of _ "vx0 s + bx"] exI [of _ "vy0 s + b"]) (simp add: pixels_iff)
next
  assume "\<exists>x y. inside s x y \<and> in_area a x y \<and> Q (y - vy0 s, x - vx0 s)"
  then obtain x y where "inside s x y" "in_area a x y" "Q (y - vy0 s, x - vx0 s)" by blast
  then show "\<exists>p\<in>set (pixels a s). Q p" by (intro bexI [of _ "(y - vy0 s, x - vx0 s)"]) (simp_all add: pixels_iff)
qed

lemma fold_map_field:
  assumes "\<And>p c. f p c = c\<lparr>sht_map := G p (sheets0 c) (xsize c) (sht_map c)\<rparr>"
  shows "fold f ps ctl = ctl\<lparr>sht_map := fold (\<lambda>p. G p (sheets0 ctl) (xsize ctl)) ps (sht_map ctl)\<rparr>"
  by (induction ps arbitrary: ctl) (simp_all add: assms)

lemma fold_vram_field:
  assumes "\<And>p c. f p c = c\<lparr>vram := G p (sheets0 c) (xsize c) (ysize c) (sht_map c) (vram c)\<rparr>"
  shows "fold f ps ctl = ctl\<lparr>vram := fold (\<lambda>p. G p (sheets0 ctl) (xsize ctl) (ysize ctl) (sht_map ctl)) ps (vram ctl)\<rparr>"
  by (induction ps arbitrary: ctl) (simp_all add: assms)

lemma map_sheet_run:
  "map_sheet a i ctl = ctl\<lparr>sht_map := fold (\<lambda>p m. if col_inv (sheets0 ctl i) = -1 \<or>
       buf (sheets0 ctl i) ! nat (fst p * bxsize (sheets0 ctl i) + snd p) \<noteq> word_of_int (col_inv (sheets0 ctl i))
     then m((vy0 (sheets0 ctl i) + fst p) * xsize ctl + (vx0 (sheets0 ctl i) + snd p) := of_nat i) else m)
     (pixels a (sheets0 ctl i)) (sht_map ctl)\<rparr>"
proof -
  have "map_sheet a i ctl = fold (\<lambda>(by, bx). map_pixel i by bx) (pixels a (sheets0 ctl i)) ctl"
    by (simp add: map_sheet_def pixels_def Let_def fold_nested split: prod.split)
  also have "\<dots> = ctl\<lparr>sht_map := fold (\<lambda>p. (\<lambda>p S n m. if col_inv (S i) = -1 \<or>
       buf (S i) ! nat (fst p * bxsize (S i) + snd p) \<noteq> word_of_int (col_inv (S i))
     then m((vy0 (S i) + fst p) * n + (vx0 (S i) + snd p) := of_nat i) else m) p (sheets0 ctl) (xsize ctl))
     (pixels a (sheets0 ctl i)) (sht_map ctl)\<rparr>"
    by (rule fold_map_field) (simp add: map_pixel_def Let_def split: prod.split)
  finally show ?thesis .
qed

lemma draw_sheet_run:
  "draw_sheet a i ctl = ctl\<lparr>vram := fold (\<lambda>p v.
      if sht_map ctl ((vy0 (sheets0 ctl i) + fst p) * xsize ctl + (vx0 (sheets0 ctl i) + snd p)) = of_nat i
      then v(vram_at ctl (vx0 (sheets0 ctl i) + snd p) (vy0 (sheets0 ctl i) + fst p) :=
        buf (sheets0 ctl i) ! nat (fst p * bxsize (sheets0 ctl i) + snd p)) else v)
     (pixels a (sheets0 ctl i)) (vram ctl)\<rparr>"
proof -
  have "draw_sheet a i ctl = fold (\<lambda>(by, bx). draw_pixel i by bx) (pixels a (sheets0 ctl i)) ctl"
    by (simp add: draw_sheet_def pixels_def Let_def fold_nested split: prod.split)
  also have "\<dots> = ctl\<lparr>vram := fold (\<lambda>p. (\<lambda>p S n k m v. if m ((vy0 (S i) + fst p) * n + (vx0 (S i) + snd p)) = of_nat i
      then v((vx0 (S i) + snd p) * k + k - (vy0 (S i) + fst p) := buf (S i) ! nat (fst p * bxsize (S i) + snd p)) else v)
       p (sheets0 ctl) (xsize ctl) (ysize ctl) (sht_map ctl))
     (pixels a (sheets0 ctl i)) (vram ctl)\<rparr>"
    by (rule fold_vram_field) (simp add: draw_pixel_def Let_def vram_at_def split: prod.split)
  finally show ?thesis unfolding vram_at_def .
qed

text \<open>What the loops do to the pixels of the screen. The area lies on the screen.\<close>

definition sub_screen :: "SHTCTL \<Rightarrow> int \<times> int \<times> int \<times> int \<Rightarrow> bool" where
  "sub_screen ctl a \<longleftrightarrow> (\<forall>x y. in_area a x y \<longrightarrow> in_area (screen ctl) x y)"

lemma map_sheet_spec:
  assumes "sub_screen ctl a" "in_area (screen ctl) x y"
  shows "seen (map_sheet a i ctl) x y = (if in_area a x y \<and> covers (sheets0 ctl i) x y then of_nat i else seen ctl x y)"
proof -
  let ?s = "sheets0 ctl i"
  have key: "y' * xsize ctl + x' = y * xsize ctl + x \<longleftrightarrow> x' = x \<and> y' = y" if "in_area a x' y'" for x' y'
    using assms that row_inj [of x' "xsize ctl" x y' y] by (auto simp: sub_screen_def in_area_def)
  have "seen (map_sheet a i ctl) x y = (if \<exists>p\<in>set (pixels a ?s). (col_inv ?s = -1 \<or>
       buf ?s ! nat (fst p * bxsize ?s + snd p) \<noteq> word_of_int (col_inv ?s)) \<and>
       (vy0 ?s + fst p) * xsize ctl + (vx0 ?s + snd p) = y * xsize ctl + x then of_nat i else seen ctl x y)"
    unfolding map_sheet_run seen_def by (simp add: fold_writes)
  also have "\<dots> = (if in_area a x y \<and> covers ?s x y then of_nat i else seen ctl x y)"
    unfolding pixel_ex using key by (auto simp: covers_def colour_def)
  finally show ?thesis .
qed

lemma draw_sheet_spec:
  assumes "sub_screen ctl a" "in_area (screen ctl) x y"
  shows "shown (draw_sheet a i ctl) x y = (if in_area a x y \<and> inside (sheets0 ctl i) x y \<and> seen ctl x y = of_nat i
    then colour (sheets0 ctl i) x y else shown ctl x y)"
proof -
  let ?s = "sheets0 ctl i"
  have key: "vram_at ctl x' y' = vram_at ctl x y \<longleftrightarrow> x' = x \<and> y' = y" if "in_area a x' y'" for x' y'
    using assms that vram_at_inj by (auto simp: sub_screen_def)
  have v: "vram (ctl\<lparr>vram := w\<rparr>) = w" for w by simp
  have "shown (draw_sheet a i ctl) x y = (if \<exists>p\<in>set (pixels a ?s).
       sht_map ctl ((vy0 ?s + fst p) * xsize ctl + (vx0 ?s + snd p)) = of_nat i \<and>
       vram_at ctl (vx0 ?s + snd p) (vy0 ?s + fst p) = vram_at ctl x y then colour ?s x y else shown ctl x y)"
    unfolding draw_sheet_run shown_def vram_at_upd v
  proof (rule fold_writes)
    fix p
    assume p: "p \<in> set (pixels a ?s)" "vram_at ctl (vx0 ?s + snd p) (vy0 ?s + fst p) = vram_at ctl x y"
    then have "in_area a (vx0 ?s + snd p) (vy0 ?s + fst p)" using pixels_iff [of "fst p" "snd p" a ?s] by simp
    then have "vx0 ?s + snd p = x \<and> vy0 ?s + fst p = y" using key p(2) by simp
    then show "buf ?s ! nat (fst p * bxsize ?s + snd p) = colour ?s x y" by (auto simp: colour_def)
  qed
  also have "\<dots> = (if in_area a x y \<and> inside ?s x y \<and> seen ctl x y = of_nat i then colour ?s x y else shown ctl x y)"
    unfolding pixel_ex using key by (auto simp: seen_def)
  finally show ?thesis .
qed


section \<open>The loops over heights\<close>

definition topmost :: "(nat \<Rightarrow> SHEET) \<Rightarrow> nat list \<Rightarrow> int \<Rightarrow> int \<Rightarrow> nat option" where
  "topmost S zs x y = find (\<lambda>i. covers (S i) x y) (rev zs)"

lemma find_append: "find P (xs @ ys) = (case find P xs of None \<Rightarrow> find P ys | Some x \<Rightarrow> Some x)"
  by (induction xs) simp_all

lemma topmost_append: "topmost S (us @ vs) x y = (case topmost S vs x y of None \<Rightarrow> topmost S us x y | Some i \<Rightarrow> Some i)"
  by (simp add: topmost_def find_append split: option.split)

lemma topmost_simps [simp]: "topmost S [] x y = None" "topmost S [i] x y = (if covers (S i) x y then Some i else None)"
  by (simp_all add: topmost_def)

lemma topmost_Some: "topmost S zs x y = Some i \<Longrightarrow> i \<in> set zs \<and> covers (S i) x y"
  by (auto simp: topmost_def find_Some_iff in_set_conv_nth rev_nth) (metis diff_Suc_less length_greater_0_conv list.size(3) less_nat_zero_code)

text \<open>The sheets from height \<open>h\<close> on.\<close>

definition from_height :: "SHTCTL \<Rightarrow> int \<Rightarrow> nat list \<Rightarrow> bool" where
  "from_height ctl h ws \<longleftrightarrow> (\<forall>k<length ws. sheet_at ctl (h + int k) = Some (ws ! k))"

lemma from_height_Cons: "from_height ctl h (w # ws) \<longleftrightarrow> sheet_at ctl h = Some w \<and> from_height ctl (h + 1) ws"
  unfolding from_height_def by (auto simp: less_Suc_eq_0_disj nth_Cons' algebra_simps)

lemma map_loop_spec:
  assumes "from_height ctl h ws" "sub_screen ctl a"
  shows "\<exists>m. map_loop (length ws) h a ctl = Some (ctl\<lparr>sht_map := m\<rparr>) \<and>
    (\<forall>x y. in_area (screen ctl) x y \<longrightarrow> seen (ctl\<lparr>sht_map := m\<rparr>) x y =
       (case topmost (sheets0 ctl) ws x y of Some i \<Rightarrow> if in_area a x y then of_nat i else seen ctl x y | None \<Rightarrow> seen ctl x y))"
  using assms
proof (induction ws arbitrary: h ctl)
  case Nil
  then show ?case by (intro exI [of _ "sht_map ctl"]) simp
next
  case (Cons w ws)
  let ?c = "map_sheet a w ctl"
  obtain m0 where c: "?c = ctl\<lparr>sht_map := m0\<rparr>" using map_sheet_run by blast
  have w: "sheet_at ctl h = Some w" "from_height ctl (h + 1) ws" using Cons.prems(1) by (simp_all add: from_height_Cons)
  have pre: "from_height ?c (h + 1) ws" "sub_screen ?c a"
    using w(2) Cons.prems(2) by (simp_all add: from_height_def sheet_at_def sub_screen_def c)
  obtain m where L: "map_loop (length ws) (h + 1) a ?c = Some (?c\<lparr>sht_map := m\<rparr>)"
    "\<And>x y. in_area (screen ?c) x y \<Longrightarrow> seen (?c\<lparr>sht_map := m\<rparr>) x y =
       (case topmost (sheets0 ?c) ws x y of Some i \<Rightarrow> if in_area a x y then of_nat i else seen ?c x y | None \<Rightarrow> seen ?c x y)"
    using Cons.IH [OF pre] by blast
  have "seen (ctl\<lparr>sht_map := m\<rparr>) x y =
      (case topmost (sheets0 ctl) (w # ws) x y of Some i \<Rightarrow> if in_area a x y then of_nat i else seen ctl x y | None \<Rightarrow> seen ctl x y)"
    if "in_area (screen ctl) x y" for x y
    using L(2) [of x y] map_sheet_spec [OF Cons.prems(2) that, of w] that topmost_append [of _ "[w]" ws x y]
    by (simp add: c split: option.split if_splits)
  then show ?case using L(1) w(1) by (intro exI [of _ m]) (simp add: c)
qed

lemma draw_loop_spec:
  assumes "from_height ctl h ws" "sub_screen ctl a" "distinct ws" "\<And>w. w \<in> set ws \<Longrightarrow> w < MAX_SHEETS"
  shows "\<exists>v. draw_loop (length ws) h a ctl = Some (ctl\<lparr>vram := v\<rparr>) \<and>
    (\<forall>x y. in_area (screen ctl) x y \<longrightarrow>
       ((\<forall>i\<in>set ws. seen ctl x y = of_nat i \<and> inside (sheets0 ctl i) x y \<and> in_area a x y \<longrightarrow>
          shown (ctl\<lparr>vram := v\<rparr>) x y = colour (sheets0 ctl i) x y) \<and>
        ((\<nexists>i. i \<in> set ws \<and> seen ctl x y = of_nat i \<and> inside (sheets0 ctl i) x y \<and> in_area a x y) \<longrightarrow>
          shown (ctl\<lparr>vram := v\<rparr>) x y = shown ctl x y)))"
  using assms
proof (induction ws arbitrary: h ctl)
  case Nil
  then show ?case by (intro exI [of _ "vram ctl"]) simp
next
  case (Cons w ws)
  let ?c = "draw_sheet a w ctl"
  obtain v0 where c: "?c = ctl\<lparr>vram := v0\<rparr>" using draw_sheet_run by blast
  have w: "sheet_at ctl h = Some w" "from_height ctl (h + 1) ws" using Cons.prems(1) by (simp_all add: from_height_Cons)
  have pre: "from_height ?c (h + 1) ws" "sub_screen ?c a" "distinct ws" "\<And>w. w \<in> set ws \<Longrightarrow> w < MAX_SHEETS"
    using w(2) Cons.prems(2-4) by (simp_all add: from_height_def sheet_at_def sub_screen_def c)
  have se: "seen ?c = seen ctl" by (simp add: c seen_def fun_eq_iff)
  obtain v where L: "draw_loop (length ws) (h + 1) a ?c = Some (?c\<lparr>vram := v\<rparr>)"
    "\<And>x y i. in_area (screen ?c) x y \<Longrightarrow> i \<in> set ws \<Longrightarrow> seen ctl x y = of_nat i \<Longrightarrow> inside (sheets0 ?c i) x y \<Longrightarrow> in_area a x y \<Longrightarrow>
          shown (?c\<lparr>vram := v\<rparr>) x y = colour (sheets0 ?c i) x y"
    "\<And>x y. in_area (screen ?c) x y \<Longrightarrow> \<nexists>i. i \<in> set ws \<and> seen ctl x y = of_nat i \<and> inside (sheets0 ?c i) x y \<and> in_area a x y \<Longrightarrow>
          shown (?c\<lparr>vram := v\<rparr>) x y = shown ?c x y"
    using Cons.IH [OF pre] unfolding se by blast
  have inj: "i = w" if "i \<in> set (w # ws)" "of_nat i = (of_nat w :: u32)" for i
  proof -
    have "i < 2 ^ 32" "w < 2 ^ 32" using Cons.prems(4) [of i] Cons.prems(4) [of w] that(1) by (simp_all add: MAX_SHEETS_def)
    then show ?thesis using that(2) by (simp add: word_unat_eq_iff unat_of_nat)
  qed
  show ?case
  proof (intro exI [of _ v] conjI allI impI ballI)
    show "draw_loop (length (w # ws)) h a ctl = Some (ctl\<lparr>vram := v\<rparr>)" using L(1) w(1) by (simp add: c)
  next
    fix x y i
    assume xy: "in_area (screen ctl) x y" and i: "i \<in> set (w # ws)" "seen ctl x y = of_nat i \<and> inside (sheets0 ctl i) x y \<and> in_area a x y"
    show "shown (ctl\<lparr>vram := v\<rparr>) x y = colour (sheets0 ctl i) x y"
    proof (cases "i = w")
      case True
      have "\<nexists>j. j \<in> set ws \<and> seen ctl x y = of_nat j \<and> inside (sheets0 ?c j) x y \<and> in_area a x y"
        using inj i(2) True Cons.prems(3) by (metis distinct.simps(2) list.set_intros(2))
      then show ?thesis using L(3) [of x y] xy i(2) True draw_sheet_spec [OF Cons.prems(2) xy, of w] by (simp add: c)
    next
      case False
      then show ?thesis using L(2) [of x y i] xy i by (simp add: c)
    qed
  next
    fix x y
    assume xy: "in_area (screen ctl) x y"
      and n: "\<nexists>i. i \<in> set (w # ws) \<and> seen ctl x y = of_nat i \<and> inside (sheets0 ctl i) x y \<and> in_area a x y"
    show "shown (ctl\<lparr>vram := v\<rparr>) x y = shown ctl x y"
    proof -
      have "shown ?c x y = shown ctl x y" using n draw_sheet_spec [OF Cons.prems(2) xy, of w] by auto
      moreover have "shown (ctl\<lparr>vram := v\<rparr>) x y = shown ?c x y" using L(3) [of x y] xy n by (simp add: c) blast
      ultimately show ?thesis by simp
    qed
  qed
qed


section \<open>Composition\<close>

text \<open>The sheets that are shown, from the lowest to the highest.\<close>

definition stack :: "SHTCTL \<Rightarrow> nat list \<Rightarrow> bool" where
  "stack ctl zs \<longleftrightarrow> ctl_top ctl = int (length zs) - 1 \<and> length zs \<le> MAX_SHEETS \<and> distinct zs \<and> set zs \<subseteq> {..<MAX_SHEETS} \<and>
     (\<forall>k<length zs. sheets ctl k = Some (zs ! k) \<and> height (sheets0 ctl (zs ! k)) = int k)"

text \<open>What the map and the frame buffer should have for a pixel, the sheet on top at the pixel and its colour.\<close>

definition seen_ok :: "SHTCTL \<Rightarrow> nat list \<Rightarrow> int \<Rightarrow> int \<Rightarrow> bool" where
  "seen_ok ctl zs x y \<longleftrightarrow> (\<forall>i. topmost (sheets0 ctl) zs x y = Some i \<longrightarrow> seen ctl x y = of_nat i)"

definition shown_ok :: "SHTCTL \<Rightarrow> nat list \<Rightarrow> int \<Rightarrow> int \<Rightarrow> bool" where
  "shown_ok ctl zs x y \<longleftrightarrow> (\<forall>i. topmost (sheets0 ctl) zs x y = Some i \<longrightarrow> shown ctl x y = colour (sheets0 ctl i) x y)"

abbreviation pixel_ok :: "SHTCTL \<Rightarrow> nat list \<Rightarrow> int \<Rightarrow> int \<Rightarrow> bool" where
  "pixel_ok ctl zs x y \<equiv> seen_ok ctl zs x y \<and> shown_ok ctl zs x y"

text \<open>The map and the frame buffer agree with the picture that the sheets make up.\<close>

definition composed :: "SHTCTL \<Rightarrow> nat list \<Rightarrow> bool" where
  "composed ctl zs \<longleftrightarrow> (\<forall>x y. in_area (screen ctl) x y \<longrightarrow> pixel_ok ctl zs x y)"

lemma stackD:
  assumes "stack ctl zs"
  shows "ctl_top ctl = int (length zs) - 1" "length zs \<le> MAX_SHEETS" "distinct zs" "z \<in> set zs \<Longrightarrow> z < MAX_SHEETS"
    "k < length zs \<Longrightarrow> sheets ctl k = Some (zs ! k)" "k < length zs \<Longrightarrow> height (sheets0 ctl (zs ! k)) = int k"
    "k < length zs \<Longrightarrow> sheet_at ctl (int k) = Some (zs ! k)"
  using assms by (auto simp: stack_def sheet_at_def MAX_SHEETS_def)

lemma stack_from: "stack ctl zs \<Longrightarrow> k + n \<le> length zs \<Longrightarrow> from_height ctl (int k) (take n (drop k zs))"
  unfolding from_height_def using stackD(7) [of ctl zs] by (auto simp flip: of_nat_add)

lemma topmost_drop: "topmost S (drop k zs) x y = Some i \<Longrightarrow> topmost S zs x y = Some i"
  using topmost_append [of S "take k zs" "drop k zs" x y] by simp

lemma of_nat_sheet: "i < MAX_SHEETS \<Longrightarrow> j < MAX_SHEETS \<Longrightarrow> (of_nat i :: u32) = of_nat j \<longleftrightarrow> i = j"
  by (simp add: MAX_SHEETS_def word_unat_eq_iff unat_of_nat)

definition same_sheets :: "SHTCTL \<Rightarrow> SHTCTL \<Rightarrow> bool" where
  "same_sheets ctl ctl' \<longleftrightarrow> xsize ctl' = xsize ctl \<and> ysize ctl' = ysize ctl \<and> ctl_top ctl' = ctl_top ctl \<and>
     sheets ctl' = sheets ctl \<and> sheets0 ctl' = sheets0 ctl"

lemma same_sheetsD:
  assumes "same_sheets ctl ctl'"
  shows "screen ctl' = screen ctl" "stack ctl' zs = stack ctl zs" "sheets0 ctl' = sheets0 ctl" "ctl_top ctl' = ctl_top ctl"
  using assms by (simp_all add: same_sheets_def stack_def)

lemma same_sheets_trans: "same_sheets a b \<Longrightarrow> same_sheets b c \<Longrightarrow> same_sheets a c"
  by (simp add: same_sheets_def)

text \<open>A refresh of the map corrects it in the area where one of the sheets \<open>ws\<close>, those from a height on, is on top, and spoils it nowhere.
  Where the map is right, a refresh of the frame buffer shows the sheets \<open>ws\<close> in the area, and spoils nothing.\<close>

definition map_done :: "SHTCTL \<Rightarrow> nat list \<Rightarrow> int \<times> int \<times> int \<times> int \<Rightarrow> nat list \<Rightarrow> SHTCTL \<Rightarrow> int \<Rightarrow> int \<Rightarrow> bool" where
  "map_done ctl zs a ws c x y \<longleftrightarrow> shown c x y = shown ctl x y \<and>
     (seen_ok ctl zs x y \<or> in_area a x y \<and> topmost (sheets0 ctl) ws x y \<noteq> None \<longrightarrow> seen_ok c zs x y)"

definition draw_done :: "SHTCTL \<Rightarrow> nat list \<Rightarrow> int \<times> int \<times> int \<times> int \<Rightarrow> nat list \<Rightarrow> SHTCTL \<Rightarrow> int \<Rightarrow> int \<Rightarrow> bool" where
  "draw_done ctl zs a ws c x y \<longleftrightarrow> (seen_ok ctl zs x y \<longrightarrow> seen_ok c zs x y \<and>
     (shown_ok ctl zs x y \<or> in_area a x y \<and> (\<exists>i \<in> set ws. topmost (sheets0 ctl) zs x y = Some i) \<longrightarrow> shown_ok c zs x y))"

lemma refreshmap_spec:
  assumes st: "stack ctl zs" and h: "h0 \<le> length zs"
  shows "\<exists>ctl'. sheet_refreshmap ax0 ay0 ax1 ay1 (int h0) ctl = Some ctl' \<and> same_sheets ctl ctl' \<and>
    (\<forall>x y. in_area (screen ctl) x y \<longrightarrow> map_done ctl zs (ax0, ay0, ax1, ay1) (drop h0 zs) ctl' x y)"
proof -
  let ?a = "on_screen ctl ax0 ay0 ax1 ay1" and ?S = "sheets0 ctl"
  have sub: "sub_screen ctl ?a" by (simp add: sub_screen_def on_screen_area)
  have "from_height ctl (int h0) (drop h0 zs)" using stack_from [OF st, of h0 "length zs - h0"] h by simp
  from map_loop_spec [OF this sub] obtain mp where M:
    "map_loop (length (drop h0 zs)) (int h0) ?a ctl = Some (ctl\<lparr>sht_map := mp\<rparr>)"
    "\<And>x y. in_area (screen ctl) x y \<Longrightarrow> seen (ctl\<lparr>sht_map := mp\<rparr>) x y =
       (case topmost ?S (drop h0 zs) x y of Some i \<Rightarrow> if in_area ?a x y then of_nat i else seen ctl x y | None \<Rightarrow> seen ctl x y)" by blast
  have "seen_ok (ctl\<lparr>sht_map := mp\<rparr>) zs x y"
    if "in_area (screen ctl) x y" "seen_ok ctl zs x y \<or> in_area (ax0, ay0, ax1, ay1) x y \<and> topmost ?S (drop h0 zs) x y \<noteq> None" for x y
    using M(2) [OF that(1)] that topmost_drop [of ?S h0 zs x y] by (auto simp: seen_ok_def on_screen_area split: option.splits)
  moreover have "sheet_refreshmap ax0 ay0 ax1 ay1 (int h0) ctl = Some (ctl\<lparr>sht_map := mp\<rparr>)"
    using M(1) stackD(1) [OF st] h by (simp add: sheet_refreshmap_def nat_diff_distrib')
  ultimately show ?thesis by (auto simp: same_sheets_def shown_def map_done_def)
qed

lemma refreshsub_spec:
  assumes st: "stack ctl zs" and h: "d0 + n \<le> length zs"
  shows "\<exists>ctl'. sheet_refreshsub ax0 ay0 ax1 ay1 (int d0) (int (d0 + n) - 1) ctl = Some ctl' \<and> same_sheets ctl ctl' \<and>
    (\<forall>x y. in_area (screen ctl) x y \<longrightarrow> draw_done ctl zs (ax0, ay0, ax1, ay1) (take n (drop d0 zs)) ctl' x y)"
proof -
  let ?a = "on_screen ctl ax0 ay0 ax1 ay1" and ?S = "sheets0 ctl" and ?ws = "take n (drop d0 zs)"
  note Z = stackD [OF st]
  have pre: "from_height ctl (int d0) ?ws" "sub_screen ctl ?a" "distinct ?ws"
    using stack_from [OF st h] Z(3) by (simp_all add: sub_screen_def on_screen_area)
  have ws: "w < MAX_SHEETS" if "w \<in> set ?ws" for w using Z(4) that by (meson in_set_dropD in_set_takeD)
  from draw_loop_spec [OF pre ws] obtain w where D: "draw_loop (length ?ws) (int d0) ?a ctl = Some (ctl\<lparr>vram := w\<rparr>)"
    "\<And>x y i. in_area (screen ctl) x y \<Longrightarrow> i \<in> set ?ws \<Longrightarrow> seen ctl x y = of_nat i \<Longrightarrow> inside (?S i) x y \<Longrightarrow> in_area ?a x y \<Longrightarrow>
          shown (ctl\<lparr>vram := w\<rparr>) x y = colour (?S i) x y"
    "\<And>x y. in_area (screen ctl) x y \<Longrightarrow> \<nexists>i. i \<in> set ?ws \<and> seen ctl x y = of_nat i \<and> inside (?S i) x y \<and> in_area ?a x y \<Longrightarrow>
          shown (ctl\<lparr>vram := w\<rparr>) x y = shown ctl x y" by blast
  have run: "sheet_refreshsub ax0 ay0 ax1 ay1 (int d0) (int (d0 + n) - 1) ctl = Some (ctl\<lparr>vram := w\<rparr>)"
  proof -
    have "length ?ws = n" using h by simp
    then show ?thesis using D(1) by (simp add: sheet_refreshsub_def)
  qed
  have "shown (ctl\<lparr>vram := w\<rparr>) x y = colour (?S i) x y"
    if xy: "in_area (screen ctl) x y" and t: "topmost ?S zs x y = Some i" and s: "seen_ok ctl zs x y"
      and o: "shown_ok ctl zs x y \<or> in_area (ax0, ay0, ax1, ay1) x y \<and> i \<in> set ?ws" for x y i
  proof (cases "in_area ?a x y \<and> i \<in> set ?ws")
    case True
    then show ?thesis using D(2) [of x y i] xy s t topmost_Some [OF t] by (simp add: covers_def seen_ok_def)
  next
    case False
    have "j = i" if "j \<in> set ?ws" "seen ctl x y = of_nat j" for j
      using that s t of_nat_sheet [OF ws [OF that(1)] Z(4) [of i]] topmost_Some [OF t] by (simp add: seen_ok_def)
    then have "shown (ctl\<lparr>vram := w\<rparr>) x y = shown ctl x y" using D(3) [of x y] xy False by metis
    then show ?thesis using o t False xy by (auto simp: shown_ok_def on_screen_area)
  qed
  then show ?thesis using run by (auto simp: same_sheets_def seen_ok_def shown_ok_def seen_def draw_done_def)
qed

lemma refresh_spec:
  assumes st: "stack ctl zs" and h: "h0 \<le> length zs" "d0 + n \<le> length zs"
  shows "\<exists>ctl'. refresh_area ax0 ay0 ax1 ay1 (int h0) (int d0) (int (d0 + n) - 1) ctl = Some ctl' \<and> same_sheets ctl ctl' \<and>
    (\<forall>x y. in_area (screen ctl) x y \<longrightarrow> pixel_ok ctl zs x y \<or> in_area (ax0, ay0, ax1, ay1) x y \<and>
        (\<exists>i \<in> set (take n (drop d0 zs)). topmost (sheets0 ctl) (drop h0 zs) x y = Some i) \<longrightarrow> pixel_ok ctl' zs x y)"
proof -
  let ?a = "(ax0, ay0, ax1, ay1)" and ?ws = "take n (drop d0 zs)"
  obtain c where c: "sheet_refreshmap ax0 ay0 ax1 ay1 (int h0) ctl = Some c" "same_sheets ctl c"
    "\<And>x y. in_area (screen ctl) x y \<Longrightarrow> map_done ctl zs ?a (drop h0 zs) c x y"
    using refreshmap_spec [OF st h(1)] by blast
  note S = same_sheetsD [OF c(2)]
  obtain d where d: "sheet_refreshsub ax0 ay0 ax1 ay1 (int d0) (int (d0 + n) - 1) c = Some d" "same_sheets c d"
    "\<And>x y. in_area (screen c) x y \<Longrightarrow> draw_done c zs ?a ?ws d x y"
    using refreshsub_spec [OF st [folded S(2)] h(2)] by blast
  have "pixel_ok d zs x y" if xy: "in_area (screen ctl) x y"
      and o: "pixel_ok ctl zs x y \<or> in_area ?a x y \<and> (\<exists>i \<in> set ?ws. topmost (sheets0 ctl) (drop h0 zs) x y = Some i)" for x y
  proof -
    have s: "seen_ok c zs x y" using c(3) [OF xy] o by (auto simp: map_done_def)
    moreover have "shown_ok c zs x y \<or> in_area ?a x y \<and> (\<exists>i \<in> set ?ws. topmost (sheets0 c) zs x y = Some i)"
      using o c(3) [OF xy] topmost_drop [of "sheets0 ctl" h0 zs x y] by (auto simp: S(3) shown_ok_def map_done_def)
    ultimately show ?thesis using d(3) [of x y] xy unfolding S(1) draw_done_def by blast
  qed
  then show ?thesis using c(1,2) d(1,2) same_sheets_trans [of ctl c d] by (auto simp: refresh_area_def)
qed

section \<open>Moving a sheet up and down\<close>

text \<open>Sheets that differ in nothing but their heights, and a display that differs only in the order of the sheets.\<close>

definition reordered :: "SHTCTL \<Rightarrow> SHTCTL \<Rightarrow> bool" where
  "reordered ctl ctl' \<longleftrightarrow> xsize ctl' = xsize ctl \<and> ysize ctl' = ysize ctl \<and> vram ctl' = vram ctl \<and> sht_map ctl' = sht_map ctl \<and>
     (\<forall>i. \<exists>e. sheets0 ctl' i = (sheets0 ctl i)\<lparr>height := e\<rparr>)"

definition same_windows :: "SHTCTL \<Rightarrow> SHTCTL \<Rightarrow> bool" where
  "same_windows ctl ctl' \<longleftrightarrow> xsize ctl' = xsize ctl \<and> ysize ctl' = ysize ctl \<and> (\<forall>i. \<exists>e. sheets0 ctl' i = (sheets0 ctl i)\<lparr>height := e\<rparr>)"

lemma same_windows_refl: "same_windows ctl ctl"
  unfolding same_windows_def by (metis SHEET.surjective SHEET.update_convs(7))

definition levels :: "SHTCTL \<Rightarrow> nat \<Rightarrow> nat list \<Rightarrow> bool" where
  "levels ctl a ws \<longleftrightarrow> (\<forall>k<length ws. sheets ctl (a + k) = Some (ws ! k) \<and> height (sheets0 ctl (ws ! k)) = int (a + k))"

lemma levels_simps [simp]:
  "levels ctl a []" "levels ctl a (w # ws) \<longleftrightarrow> sheets ctl a = Some w \<and> height (sheets0 ctl w) = int a \<and> levels ctl (Suc a) ws"
  unfolding levels_def by (auto simp: less_Suc_eq_0_disj nth_Cons' algebra_simps)

lemma levels_append [simp]: "levels ctl a (us @ vs) \<longleftrightarrow> levels ctl a us \<and> levels ctl (a + length us) vs"
  by (induction us arbitrary: a) simp_all

lemma stack_levels: "stack ctl zs \<longleftrightarrow> ctl_top ctl = int (length zs) - 1 \<and> length zs \<le> MAX_SHEETS \<and> distinct zs \<and> set zs \<subseteq> {..<MAX_SHEETS} \<and> levels ctl 0 zs"
  by (simp add: stack_def levels_def)

lemma levels_cong:
  assumes "levels ctl a ws" "\<And>k. a \<le> k \<Longrightarrow> k < a + length ws \<Longrightarrow> sheets ctl' k = sheets ctl k" "\<And>i. i \<in> set ws \<Longrightarrow> sheets0 ctl' i = sheets0 ctl i"
  shows "levels ctl' a ws"
  using assms by (simp add: levels_def)

lemma reordered_refl: "reordered ctl ctl" by (simp add: reordered_def) (metis SHEET.surjective SHEET.update_convs(7))

lemma reordered_trans: "reordered a b \<Longrightarrow> reordered b c \<Longrightarrow> reordered a c"
  unfolding reordered_def by (metis SHEET.update_convs(7) SHEET.surjective)


definition shifted :: "SHTCTL \<Rightarrow> nat \<Rightarrow> nat list \<Rightarrow> SHTCTL \<Rightarrow> bool" where
  "shifted ctl a ws ctl' \<longleftrightarrow> reordered ctl ctl' \<and> ctl_top ctl' = ctl_top ctl \<and> levels ctl' a ws \<and>
     (\<forall>k. k < a \<or> a + length ws \<le> k \<longrightarrow> sheets ctl' k = sheets ctl k) \<and> (\<forall>i. i \<notin> set ws \<longrightarrow> sheets0 ctl' i = sheets0 ctl i)"

lemma put_level:
  assumes "k < MAX_SHEETS"
  shows "put_sheet (int k) i ctl = Some (ctl\<lparr>sheets := (sheets ctl)(k := Some i)\<rparr>)"
  using assms by (simp add: put_sheet_def)

lemma at_level: "k < MAX_SHEETS \<Longrightarrow> sheet_at ctl (int k) = sheets ctl k"
  by (simp add: sheet_at_def)

lemma reordered_upd: "reordered ctl (upd_sheet i (\<lambda>s. s\<lparr>height := e\<rparr>) (ctl\<lparr>sheets := f\<rparr>))"
  unfolding reordered_def upd_sheet_def by (simp add: fun_upd_def) (metis SHEET.surjective SHEET.update_convs(7))

lemma shift_down_spec:
  assumes "levels ctl (Suc a) ws" "distinct ws" "a + length ws < MAX_SHEETS"
  shows "\<exists>ctl'. shift_down (length ws) (int a) ctl = Some ctl' \<and> shifted ctl a ws ctl'"
  using assms
proof (induction ws arbitrary: ctl a)
  case Nil
  then show ?case by (simp add: shifted_def reordered_refl)
next
  case (Cons w ws)
  let ?c = "upd_sheet w (\<lambda>s. s\<lparr>height := int a\<rparr>) (ctl\<lparr>sheets := (sheets ctl)(a := Some w)\<rparr>)"
  have L: "levels ?c (Suc (Suc a)) ws"
    using Cons.prems(1,2) by (auto intro!: levels_cong [of ctl] simp: upd_sheet_def)
  obtain ctl' where C: "shift_down (length ws) (int (Suc a)) ?c = Some ctl'" "shifted ?c (Suc a) ws ctl'"
    using Cons.IH [OF L] Cons.prems(2,3) by auto
  have "sheet_at ctl (int a + 1) = Some w" using at_level [of "Suc a" ctl] Cons.prems(1,3) by (simp add: add.commute)
  then have "shift_down (length (w # ws)) (int a) ctl = Some ctl'" using C(1) put_level [of a w ctl] Cons.prems(3) by (simp add: add.commute)
  moreover have "reordered ctl ctl'" using C(2) reordered_trans [OF reordered_upd] unfolding shifted_def by blast
  then have "shifted ctl a (w # ws) ctl'"
    using C(2) Cons.prems(2) by (simp add: shifted_def) (simp add: upd_sheet_def)
  ultimately show ?case by blast
qed

lemma shift_up_spec:
  assumes "levels ctl a ws" "distinct ws" "a + length ws < MAX_SHEETS"
  shows "\<exists>ctl'. shift_up (length ws) (int (a + length ws)) ctl = Some ctl' \<and> shifted ctl (Suc a) ws ctl'"
  using assms
proof (induction ws arbitrary: ctl rule: rev_induct)
  case Nil
  then show ?case by (simp add: shifted_def reordered_refl)
next
  case (snoc w ws)
  let ?h = "Suc (a + length ws)"
  let ?c = "upd_sheet w (\<lambda>s. s\<lparr>height := int ?h\<rparr>) (ctl\<lparr>sheets := (sheets ctl)(?h := Some w)\<rparr>)"
  have L: "levels ?c a ws"
    using snoc.prems(1,2) by (auto intro!: levels_cong [of ctl] simp: upd_sheet_def)
  obtain ctl' where C: "shift_up (length ws) (int (a + length ws)) ?c = Some ctl'" "shifted ?c (Suc a) ws ctl'"
    using snoc.IH [OF L] snoc.prems(2,3) by auto
  have "sheet_at ctl (int ?h - 1) = Some w" using at_level [of "a + length ws" ctl] snoc.prems(1,3) by simp
  then have "shift_up (Suc (length ws)) (int ?h) ctl = Some ctl'" using C(1) put_level [of ?h w ctl] snoc.prems(3) by (simp add: add.commute)
  moreover have "reordered ctl ctl'" using C(2) reordered_trans [OF reordered_upd] unfolding shifted_def by blast
  then have "shifted ctl (Suc a) (ws @ [w]) ctl'"
    using C(2) snoc.prems(2) by (simp add: shifted_def) (simp add: upd_sheet_def)
  ultimately show ?case by auto
qed


lemma height_irrelevant [simp]: "inside (s\<lparr>height := e\<rparr>) = inside s" "colour (s\<lparr>height := e\<rparr>) = colour s" "covers (s\<lparr>height := e\<rparr>) = covers s"
  by (simp_all add: inside_def colour_def covers_def fun_eq_iff)

lemma reordered_picture:
  assumes "reordered ctl c"
  shows "inside (sheets0 c i) = inside (sheets0 ctl i)" "colour (sheets0 c i) = colour (sheets0 ctl i)" "topmost (sheets0 c) = topmost (sheets0 ctl)"
    "seen c = seen ctl" "shown c = shown ctl" "screen c = screen ctl"
    "vx0 (sheets0 c i) = vx0 (sheets0 ctl i)" "vy0 (sheets0 c i) = vy0 (sheets0 ctl i)"
    "bxsize (sheets0 c i) = bxsize (sheets0 ctl i)" "bysize (sheets0 c i) = bysize (sheets0 ctl i)"
proof -
  have e: "\<exists>e. sheets0 c j = (sheets0 ctl j)\<lparr>height := e\<rparr>" for j using assms by (simp add: reordered_def)
  have "covers (sheets0 c j) = covers (sheets0 ctl j)" for j using e [of j] by auto
  then show "topmost (sheets0 c) = topmost (sheets0 ctl)" by (simp add: topmost_def fun_eq_iff)
  show "seen c = seen ctl" "shown c = shown ctl" "screen c = screen ctl"
    using assms by (simp_all add: reordered_def seen_def shown_def vram_at_def fun_eq_iff)
qed (use assms in \<open>auto simp: reordered_def\<close>, (metis height_irrelevant SHEET.select_convs SHEET.surjective SHEET.update_convs(7))+)

lemma refresh_sheet_composes:
  assumes co: "composed ctl zs" and re: "reordered ctl c" and st: "stack c zs'" and h: "h0 \<le> length zs'" "d0 + n \<le> length zs'"
    and ch: "\<And>x y i. topmost (sheets0 ctl) zs' x y = Some i \<Longrightarrow> topmost (sheets0 ctl) zs x y \<noteq> Some i \<Longrightarrow>
      inside (sheets0 ctl z) x y \<and> i \<in> set (take n (drop d0 zs')) \<and> topmost (sheets0 ctl) (drop h0 zs') x y = Some i"
  shows "\<exists>ctl'. refresh_sheet z (int h0) (int d0) (int (d0 + n) - 1) c = Some ctl' \<and> stack ctl' zs' \<and> composed ctl' zs' \<and> same_windows ctl ctl'"
proof -
  let ?s = "sheets0 c z" and ?S = "sheets0 ctl"
  let ?a = "(vx0 ?s, vy0 ?s, vx0 ?s + bxsize ?s, vy0 ?s + bysize ?s)"
  note R = reordered_picture [OF re]
  obtain ctl' where C: "refresh_sheet z (int h0) (int d0) (int (d0 + n) - 1) c = Some ctl'" "same_sheets c ctl'"
    "\<And>x y. in_area (screen c) x y \<Longrightarrow> pixel_ok c zs' x y \<or> in_area ?a x y \<and>
        (\<exists>i \<in> set (take n (drop d0 zs')). topmost (sheets0 c) (drop h0 zs') x y = Some i) \<Longrightarrow> pixel_ok ctl' zs' x y"
    using refresh_spec [OF st h, of "vx0 ?s" "vy0 ?s" "vx0 ?s + bxsize ?s" "vy0 ?s + bysize ?s"] unfolding refresh_sheet_def Let_def by blast
  have "pixel_ok ctl' zs' x y" if xy: "in_area (screen ctl) x y" for x y
  proof (rule C(3))
    show "in_area (screen c) x y" using xy unfolding R(6) .
    have a: "in_area ?a x y \<longleftrightarrow> inside (?S z) x y" by (auto simp: in_area_def inside_def R)
    have ok: "pixel_ok ctl zs x y" using co xy by (simp add: composed_def)
    show "pixel_ok c zs' x y \<or> in_area ?a x y \<and> (\<exists>i \<in> set (take n (drop d0 zs')). topmost (sheets0 c) (drop h0 zs') x y = Some i)"
    proof (cases "\<exists>i. topmost ?S zs' x y = Some i \<and> topmost ?S zs x y \<noteq> Some i")
      case True
      then obtain i where i: "topmost ?S zs' x y = Some i" "topmost ?S zs x y \<noteq> Some i" by blast
      show ?thesis using ch [OF i] by (intro disjI2 conjI bexI [of _ i]) (simp_all only: a R(3))
    next
      case False
      then show ?thesis using ok unfolding seen_ok_def shown_ok_def R(2-5) by blast
    qed
  qed
  moreover have "same_windows ctl ctl'" using re same_sheetsD(1,3) [OF C(2)] by (simp add: same_windows_def reordered_def)
  ultimately show ?thesis using C(1) same_sheetsD [OF C(2)] st R(6) by (auto simp: composed_def)
qed


text \<open>The array of sheets after the loops of \<open>sheet_updown\<close>.\<close>

abbreviation with_height :: "nat \<Rightarrow> int \<Rightarrow> SHTCTL \<Rightarrow> SHTCTL" where
  "with_height z e ctl \<equiv> upd_sheet z (\<lambda>s. s\<lparr>height := e\<rparr>) ctl"

lemma with_height:
  "reordered ctl (with_height z e ctl)" "ctl_top (with_height z e ctl) = ctl_top ctl" "sheets (with_height z e ctl) = sheets ctl"
  "sheets0 (with_height z e ctl) z = (sheets0 ctl z)\<lparr>height := e\<rparr>" "i \<noteq> z \<Longrightarrow> sheets0 (with_height z e ctl) i = sheets0 ctl i"
  "z \<notin> set ws \<Longrightarrow> levels ctl a ws \<Longrightarrow> levels (with_height z e ctl) a ws"
  using reordered_upd [of ctl z e "sheets ctl"] by (auto simp: upd_sheet_def levels_def split: if_splits)

lemma same_height: "e = height (sheets0 ctl z) \<Longrightarrow> with_height z e ctl = ctl"
  by (simp add: upd_sheet_def)

lemma shiftedD:
  assumes "shifted ctl a ws ctl'"
  shows "reordered ctl ctl'" "ctl_top ctl' = ctl_top ctl" "levels ctl' a ws" "k < a \<or> a + length ws \<le> k \<Longrightarrow> sheets ctl' k = sheets ctl k"
    "i \<notin> set ws \<Longrightarrow> sheets0 ctl' i = sheets0 ctl i"
    "levels ctl b us \<Longrightarrow> b + length us \<le> a \<or> a + length ws \<le> b \<Longrightarrow> set us \<inter> set ws = {} \<Longrightarrow> levels ctl' b us"
proof -
  assume "levels ctl b us" "b + length us \<le> a \<or> a + length ws \<le> b" "set us \<inter> set ws = {}"
  then show "levels ctl' b us" using assms by (auto intro!: levels_cong [of ctl b us] simp: shifted_def)
qed (use assms in \<open>auto simp: shifted_def\<close>)

lemma put_levels:
  "levels c b us \<Longrightarrow> a < b \<or> b + length us \<le> a \<Longrightarrow> levels (c\<lparr>sheets := (sheets c)(a := Some z)\<rparr>) b us"
  "levels c b us \<Longrightarrow> levels (c\<lparr>ctl_top := e\<rparr>) b us"
  by (auto simp: levels_def)

lemma reordered_fields: "reordered ctl c \<Longrightarrow> reordered ctl (c\<lparr>sheets := f\<rparr>)" "reordered ctl c \<Longrightarrow> reordered ctl (c\<lparr>ctl_top := e\<rparr>)"
  by (simp_all add: reordered_def)

lemma lowered:
  assumes "stack ctl (us @ ws @ z # vs)"
  shows "\<exists>c. shift_up (length ws) (int (length us + length ws)) (with_height z (int (length us)) ctl) = Some c \<and>
    put_sheet (int (length us)) z c = Some (c\<lparr>sheets := (sheets c)(length us := Some z)\<rparr>) \<and>
    reordered ctl (c\<lparr>sheets := (sheets c)(length us := Some z)\<rparr>) \<and> stack (c\<lparr>sheets := (sheets c)(length us := Some z)\<rparr>) (us @ z # ws @ vs)"
proof -
  let ?c0 = "with_height z (int (length us)) ctl"
  have Z: "levels ctl 0 us" "levels ctl (length us) ws" "levels ctl (Suc (length us + length ws)) vs"
    "length us + length ws < MAX_SHEETS" "distinct (us @ ws @ z # vs)" using assms by (simp_all add: stack_levels add.assoc)
  have L: "levels ?c0 0 us" "levels ?c0 (length us) ws" "levels ?c0 (Suc (length us + length ws)) vs"
    using Z by (auto intro!: with_height(6))
  obtain c where C: "shift_up (length ws) (int (length us + length ws)) ?c0 = Some c" "shifted ?c0 (Suc (length us)) ws c"
    using shift_up_spec [OF L(2)] Z(4,5) by auto
  note S = shiftedD [OF C(2)]
  have "levels c 0 us" "levels c (Suc (length us + length ws)) vs" using S(6) [OF L(1)] S(6) [OF L(3)] Z(5) by auto
  then have "stack (c\<lparr>sheets := (sheets c)(length us := Some z)\<rparr>) (us @ z # ws @ vs)"
    using assms S(2,3) S(5) [of z] Z(5) with_height(2,4) put_levels(1) [of c]
    by (auto simp: stack_levels add.assoc) 
  then show ?thesis
    using C(1) Z(4) put_level reordered_fields(1) [OF reordered_trans [OF with_height(1) S(1)]] by simp
qed


lemma hidden:
  assumes "stack ctl (us @ z # vs)"
  shows "\<exists>c. shift_down (length vs) (int (length us)) (with_height z e ctl) = Some c \<and> reordered ctl (c\<lparr>ctl_top := ctl_top c - 1\<rparr>) \<and>
    ctl_top c = ctl_top ctl \<and> stack (c\<lparr>ctl_top := ctl_top c - 1\<rparr>) (us @ vs)"
proof -
  let ?c0 = "with_height z e ctl"
  have Z: "levels ctl 0 us" "levels ctl (Suc (length us)) vs" "length us + length vs < MAX_SHEETS" "distinct (us @ z # vs)"
    using assms by (simp_all add: stack_levels)
  have L: "levels ?c0 0 us" "levels ?c0 (Suc (length us)) vs" using Z by (auto intro!: with_height(6))
  obtain c where C: "shift_down (length vs) (int (length us)) ?c0 = Some c" "shifted ?c0 (length us) vs c"
    using shift_down_spec [OF L(2)] Z(3,4) by auto
  note S = shiftedD [OF C(2)]
  have "levels c 0 us" using S(6) [OF L(1)] Z(4) by auto
  then have "stack (c\<lparr>ctl_top := ctl_top c - 1\<rparr>) (us @ vs)"
    using assms S(2,3) with_height(2) put_levels(2) [of c] by (auto simp: stack_levels)
  then show ?thesis using C(1) S(2) with_height(2) reordered_fields(2) [OF reordered_trans [OF with_height(1) S(1)]] by simp
qed

lemma raised:
  assumes "stack ctl (us @ z # ws @ vs)"
  defines "k \<equiv> length us + length ws"
  shows "\<exists>c. shift_down (length ws) (int (length us)) (with_height z (int k) ctl) = Some c \<and>
    put_sheet (int k) z c = Some (c\<lparr>sheets := (sheets c)(k := Some z)\<rparr>) \<and>
    reordered ctl (c\<lparr>sheets := (sheets c)(k := Some z)\<rparr>) \<and> stack (c\<lparr>sheets := (sheets c)(k := Some z)\<rparr>) (us @ ws @ z # vs)"
proof -
  let ?c0 = "with_height z (int k) ctl"
  have Z: "levels ctl 0 us" "levels ctl (Suc (length us)) ws" "levels ctl (Suc k) vs" "k < MAX_SHEETS" "distinct (us @ z # ws @ vs)"
    using assms by (simp_all add: stack_levels)
  have L: "levels ?c0 0 us" "levels ?c0 (Suc (length us)) ws" "levels ?c0 (Suc k) vs" using Z by (auto intro!: with_height(6))
  obtain c where C: "shift_down (length ws) (int (length us)) ?c0 = Some c" "shifted ?c0 (length us) ws c"
    using shift_down_spec [OF L(2)] Z(4,5) by (auto simp: k_def)
  note S = shiftedD [OF C(2)]
  have "levels c 0 us" "levels c (Suc k) vs" using S(6) [OF L(1)] S(6) [OF L(3)] Z(5) by (auto simp: k_def)
  then have "stack (c\<lparr>sheets := (sheets c)(k := Some z)\<rparr>) (us @ ws @ z # vs)"
    using assms(1) S(2,3) S(5) [of z] Z(5) with_height(2,4) put_levels(1) [of c] by (auto simp: stack_levels k_def)
  then show ?thesis
    using C(1) Z(4) put_level reordered_fields(1) [OF reordered_trans [OF with_height(1) S(1)]] by simp
qed

lemma newly_shown:
  assumes "stack ctl (us @ vs)" "z \<notin> set (us @ vs)" "z < MAX_SHEETS" "length us + length vs < MAX_SHEETS"
  defines "c1 c \<equiv> c\<lparr>sheets := (sheets c)(length us := Some z)\<rparr>"
  shows "\<exists>c. shift_up (length vs) (int (length us + length vs)) (with_height z (int (length us)) ctl) = Some c \<and>
    put_sheet (int (length us)) z c = Some (c1 c) \<and> ctl_top c = ctl_top ctl \<and>
    reordered ctl ((c1 c)\<lparr>ctl_top := ctl_top (c1 c) + 1\<rparr>) \<and> stack ((c1 c)\<lparr>ctl_top := ctl_top (c1 c) + 1\<rparr>) (us @ z # vs) \<and>
    (\<forall>i. i \<noteq> z \<longrightarrow> i \<notin> set vs \<longrightarrow> sheets0 c i = sheets0 ctl i)"
proof -
  let ?c0 = "with_height z (int (length us)) ctl"
  have Z: "levels ctl 0 us" "levels ctl (length us) vs" "distinct (us @ vs)" using assms(1) by (simp_all add: stack_levels)
  have L: "levels ?c0 0 us" "levels ?c0 (length us) vs" using Z assms(2) by (auto intro!: with_height(6))
  obtain c where C: "shift_up (length vs) (int (length us + length vs)) ?c0 = Some c" "shifted ?c0 (Suc (length us)) vs c"
    using shift_up_spec [OF L(2)] Z(3) assms(4) by auto
  note S = shiftedD [OF C(2)]
  have "levels c 0 us" using S(6) [OF L(1)] Z(3) by auto
  then have "stack ((c1 c)\<lparr>ctl_top := ctl_top (c1 c) + 1\<rparr>) (us @ z # vs)"
    using assms(1-4) S(2,3) S(5) [of z] with_height(2,4) put_levels [of "c1 c"] put_levels(1) [of c] by (auto simp: stack_levels c1_def)
  then show ?thesis
    using C(1) assms(4) S(2,5) with_height(2,5) put_level reordered_fields(2) [OF reordered_fields(1) [OF reordered_trans [OF with_height(1) S(1)]]]
    by (simp add: c1_def)
qed


definition displayed :: "SHTCTL \<Rightarrow> nat list \<Rightarrow> bool" where
  "displayed ctl zs \<longleftrightarrow> stack ctl zs \<and> composed ctl zs"

lemma topmost_Cons: "topmost S (z # vs) x y = (case topmost S vs x y of None \<Rightarrow> if covers (S z) x y then Some z else None | Some i \<Rightarrow> Some i)"
  using topmost_append [of S "[z]" vs x y] by (simp split: option.split)

text \<open>The branches of \<open>sheet_updown\<close>, the height already within its limits.\<close>

lemma updown_cases:
  fixes z ctl
  defines "old \<equiv> height (sheets0 ctl z)"
  shows "0 \<le> h \<Longrightarrow> h \<le> ctl_top ctl \<Longrightarrow> h < old \<Longrightarrow> sheet_updown z h ctl = do {
      ctl \<leftarrow> shift_up (nat (old - h)) old (with_height z h ctl); ctl \<leftarrow> put_sheet h z ctl; refresh_sheet z (h + 1) (h + 1) old ctl }"
    "h < 0 \<Longrightarrow> 0 \<le> old \<Longrightarrow> old \<le> ctl_top ctl \<Longrightarrow> sheet_updown z h ctl = do {
      ctl \<leftarrow> shift_down (nat (ctl_top ctl - old)) old (with_height z (-1) ctl); refresh_sheet z 0 0 (old - 1) (ctl\<lparr>ctl_top := ctl_top ctl - 1\<rparr>) }"
    "0 \<le> old \<Longrightarrow> h \<le> ctl_top ctl \<Longrightarrow> old < h \<Longrightarrow> sheet_updown z h ctl = do {
      ctl \<leftarrow> shift_down (nat (h - old)) old (with_height z h ctl); ctl \<leftarrow> put_sheet h z ctl; refresh_sheet z h h h ctl }"
    "old = -1 \<Longrightarrow> 0 \<le> h \<Longrightarrow> 0 \<le> ctl_top ctl + 1 \<Longrightarrow> sheet_updown z h ctl =
      (let h = min h (ctl_top ctl + 1) in do {
        ctl \<leftarrow> shift_up (nat (ctl_top ctl + 1 - h)) (ctl_top ctl + 1) (with_height z h ctl);
        ctl \<leftarrow> put_sheet h z ctl;
        refresh_sheet z h h h (ctl\<lparr>ctl_top := ctl_top ctl + 1\<rparr>) })"
    "h = old \<or> h < -1 \<and> old = -1 \<Longrightarrow> -1 \<le> old \<Longrightarrow> old \<le> ctl_top ctl \<Longrightarrow> sheet_updown z h ctl = Some ctl"
  unfolding old_def by (auto simp: sheet_updown_def with_height(2) same_height min_def Let_def not_less) (cases "h = -1"; simp)+

lemma map_loop_sheets: "map_loop n h a ctl = Some ctl' \<Longrightarrow> sheets0 ctl' = sheets0 ctl"
  by (induction n arbitrary: h ctl) (force simp: bind_eq_Some_conv map_sheet_run)+

lemma draw_loop_sheets: "draw_loop n h a ctl = Some ctl' \<Longrightarrow> sheets0 ctl' = sheets0 ctl"
  by (induction n arbitrary: h ctl) (force simp: bind_eq_Some_conv draw_sheet_run)+

lemma refresh_sheets: "refresh_sheet z h d0 d1 ctl = Some ctl' \<Longrightarrow> sheets0 ctl' = sheets0 ctl"
  by (auto simp: refresh_sheet_def refresh_area_def sheet_refreshmap_def sheet_refreshsub_def Let_def bind_eq_Some_conv dest!: map_loop_sheets draw_loop_sheets)

lemma updown_lower:
  assumes "displayed ctl (us @ ws @ z # vs)" "ws \<noteq> []"
  shows "\<exists>ctl'. sheet_updown z (int (length us)) ctl = Some ctl' \<and> displayed ctl' (us @ z # ws @ vs) \<and> same_windows ctl ctl'"
proof -
  have st: "stack ctl (us @ ws @ z # vs)" "composed ctl (us @ ws @ z # vs)" using assms(1) by (simp_all add: displayed_def)
  have h: "height (sheets0 ctl z) = int (length us + length ws)" "ctl_top ctl = int (length us + length ws + length vs)"
    using st(1) by (simp_all add: stack_levels)
  obtain c where C: "shift_up (length ws) (int (length us + length ws)) (with_height z (int (length us)) ctl) = Some c"
    "put_sheet (int (length us)) z c = Some (c\<lparr>sheets := (sheets c)(length us := Some z)\<rparr>)"
    "reordered ctl (c\<lparr>sheets := (sheets c)(length us := Some z)\<rparr>)" "stack (c\<lparr>sheets := (sheets c)(length us := Some z)\<rparr>) (us @ z # ws @ vs)"
    using lowered [OF st(1)] by blast
  have "\<exists>ctl'. refresh_sheet z (int (Suc (length us))) (int (Suc (length us))) (int (Suc (length us) + length ws) - 1)
      (c\<lparr>sheets := (sheets c)(length us := Some z)\<rparr>) = Some ctl' \<and> stack ctl' (us @ z # ws @ vs) \<and> composed ctl' (us @ z # ws @ vs) \<and> same_windows ctl ctl'"
    by (rule refresh_sheet_composes [OF st(2) C(3,4)])
      (auto simp: topmost_append topmost_Cons covers_def split: option.splits if_splits dest: topmost_Some)
  moreover have "sheet_updown z (int (length us)) ctl = refresh_sheet z (int (Suc (length us))) (int (Suc (length us)))
      (int (Suc (length us) + length ws) - 1) (c\<lparr>sheets := (sheets c)(length us := Some z)\<rparr>)"
    using C(1,2) h assms(2) by (subst updown_cases(1)) (simp_all add: add.commute)
  ultimately show ?thesis by (simp add: displayed_def)
qed


lemma updown_hide:
  assumes "displayed ctl (us @ z # vs)" "h < 0"
  shows "\<exists>ctl'. sheet_updown z h ctl = Some ctl' \<and> displayed ctl' (us @ vs) \<and> same_windows ctl ctl'"
proof -
  have st: "stack ctl (us @ z # vs)" "composed ctl (us @ z # vs)" using assms(1) by (simp_all add: displayed_def)
  have h: "height (sheets0 ctl z) = int (length us)" "ctl_top ctl = int (length us + length vs)" using st(1) by (simp_all add: stack_levels)
  obtain c where C: "shift_down (length vs) (int (length us)) (with_height z (-1) ctl) = Some c" "reordered ctl (c\<lparr>ctl_top := ctl_top c - 1\<rparr>)"
    "ctl_top c = ctl_top ctl" "stack (c\<lparr>ctl_top := ctl_top c - 1\<rparr>) (us @ vs)"
    using hidden [OF st(1)] by blast
  have "\<exists>ctl'. refresh_sheet z (int 0) (int 0) (int (0 + length us) - 1) (c\<lparr>ctl_top := ctl_top c - 1\<rparr>) = Some ctl' \<and>
      stack ctl' (us @ vs) \<and> composed ctl' (us @ vs) \<and> same_windows ctl ctl'"
    by (rule refresh_sheet_composes [OF st(2) C(2,4)])
      (auto simp: topmost_append topmost_Cons covers_def split: option.splits if_splits dest: topmost_Some)
  moreover have "sheet_updown z h ctl = refresh_sheet z (int 0) (int 0) (int (0 + length us) - 1) (c\<lparr>ctl_top := ctl_top c - 1\<rparr>)"
    using C(1,3) h assms(2) by (subst updown_cases(2)) simp_all
  ultimately show ?thesis by (simp add: displayed_def)
qed

lemma updown_raise:
  assumes "displayed ctl (us @ z # ws @ vs)" "ws \<noteq> []"
  shows "\<exists>ctl'. sheet_updown z (int (length us + length ws)) ctl = Some ctl' \<and> displayed ctl' (us @ ws @ z # vs) \<and> same_windows ctl ctl'"
proof -
  let ?k = "length us + length ws"
  have st: "stack ctl (us @ z # ws @ vs)" "composed ctl (us @ z # ws @ vs)" using assms(1) by (simp_all add: displayed_def)
  have h: "height (sheets0 ctl z) = int (length us)" "ctl_top ctl = int (?k + length vs)" using st(1) by (simp_all add: stack_levels)
  obtain c where C: "shift_down (length ws) (int (length us)) (with_height z (int ?k) ctl) = Some c"
    "put_sheet (int ?k) z c = Some (c\<lparr>sheets := (sheets c)(?k := Some z)\<rparr>)"
    "reordered ctl (c\<lparr>sheets := (sheets c)(?k := Some z)\<rparr>)" "stack (c\<lparr>sheets := (sheets c)(?k := Some z)\<rparr>) (us @ ws @ z # vs)"
    using raised [OF st(1)] by blast
  have "\<exists>ctl'. refresh_sheet z (int ?k) (int ?k) (int (?k + 1) - 1) (c\<lparr>sheets := (sheets c)(?k := Some z)\<rparr>) = Some ctl' \<and>
      stack ctl' (us @ ws @ z # vs) \<and> composed ctl' (us @ ws @ z # vs) \<and> same_windows ctl ctl'"
    by (rule refresh_sheet_composes [OF st(2) C(3,4)])
      (auto simp: topmost_append topmost_Cons covers_def split: option.splits if_splits dest: topmost_Some)
  moreover have "sheet_updown z (int ?k) ctl = refresh_sheet z (int ?k) (int ?k) (int (?k + 1) - 1) (c\<lparr>sheets := (sheets c)(?k := Some z)\<rparr>)"
    using C(1,2) h assms(2) by (subst updown_cases(3)) simp_all
  ultimately show ?thesis by (simp add: displayed_def)
qed

lemma updown_show:
  assumes "displayed ctl (us @ vs)" "z \<notin> set (us @ vs)" "z < MAX_SHEETS" "length us + length vs < MAX_SHEETS" "height (sheets0 ctl z) = -1"
    and "h = int (length us) \<or> vs = [] \<and> int (length us) < h"
  shows "\<exists>ctl'. sheet_updown z h ctl = Some ctl' \<and> displayed ctl' (us @ z # vs) \<and> same_windows ctl ctl' \<and>
    (\<forall>i. i \<noteq> z \<longrightarrow> i \<notin> set vs \<longrightarrow> sheets0 ctl' i = sheets0 ctl i)"
proof -
  have st: "stack ctl (us @ vs)" "composed ctl (us @ vs)" using assms(1) by (simp_all add: displayed_def)
  have h: "ctl_top ctl + 1 = int (length us + length vs)" using st(1) by (simp_all add: stack_levels)
  then have m: "min h (ctl_top ctl + 1) = int (length us)" "0 \<le> h" using assms(6) by auto
  obtain c where C: "shift_up (length vs) (int (length us + length vs)) (with_height z (int (length us)) ctl) = Some c"
    "put_sheet (int (length us)) z c = Some (c\<lparr>sheets := (sheets c)(length us := Some z)\<rparr>)" "ctl_top c = ctl_top ctl"
    "reordered ctl (c\<lparr>sheets := (sheets c)(length us := Some z)\<rparr>\<lparr>ctl_top := ctl_top c + 1\<rparr>)"
    "stack (c\<lparr>sheets := (sheets c)(length us := Some z)\<rparr>\<lparr>ctl_top := ctl_top c + 1\<rparr>) (us @ z # vs)"
    "\<And>i. i \<noteq> z \<Longrightarrow> i \<notin> set vs \<Longrightarrow> sheets0 c i = sheets0 ctl i"
    using newly_shown [OF st(1) assms(2-4)] by auto
  let ?c = "c\<lparr>sheets := (sheets c)(length us := Some z)\<rparr>\<lparr>ctl_top := ctl_top c + 1\<rparr>"
  obtain ctl' where R: "refresh_sheet z (int (length us)) (int (length us)) (int (length us + 1) - 1) ?c = Some ctl'" "stack ctl' (us @ z # vs)"
    "composed ctl' (us @ z # vs)" "same_windows ctl ctl'"
  proof (rule exE [OF refresh_sheet_composes [where z = z and ?h0.0 = "length us" and ?d0.0 = "length us" and n = 1, OF st(2) C(4,5)]])
  qed (auto simp: topmost_append topmost_Cons covers_def split: option.splits if_splits dest: topmost_Some)
  have "sheet_updown z h ctl = refresh_sheet z (int (length us)) (int (length us)) (int (length us + 1) - 1) ?c"
    using updown_cases(4) [OF assms(5) m(2)] C(1,2) h m(1) by (simp add: Let_def)
  moreover have "sheets0 ctl' = sheets0 c" using refresh_sheets [OF R(1)] by simp
  ultimately show ?thesis using R C(6) by (simp add: displayed_def)
qed


definition insert_at :: "nat \<Rightarrow> 'a \<Rightarrow> 'a list \<Rightarrow> 'a list" where
  "insert_at n z xs = take n xs @ z # drop n xs"

lemma updown_shown:
  assumes "displayed ctl (us @ z # vs)" "0 \<le> h" "h \<le> ctl_top ctl"
  shows "\<exists>ctl'. sheet_updown z h ctl = Some ctl' \<and> displayed ctl' (insert_at (nat h) z (us @ vs)) \<and> same_windows ctl ctl'"
proof -
  have st: "height (sheets0 ctl z) = int (length us)" "ctl_top ctl = int (length us + length vs)"
    using assms(1) by (simp_all add: displayed_def stack_levels)
  define k where "k = nat h"
  have k: "h = int k" "k \<le> length us + length vs" using assms(2,3) st(2) by (simp_all add: k_def)
  consider "k < length us" | "k = length us" | "length us < k" by linarith
  then show ?thesis
  proof cases
    case 1
    then have "length (take k us) = k" "drop k us \<noteq> []" by simp_all
    moreover have "displayed ctl (take k us @ drop k us @ z # vs)" using assms(1) by (metis append_assoc append_take_drop_id)
    ultimately show ?thesis using updown_lower [of ctl "take k us" "drop k us" z vs] 1 by (simp add: k insert_at_def)
  next
    case 2
    then show ?thesis using updown_cases(5) [of h ctl z] assms(1) st by (simp add: k insert_at_def same_windows_refl)
  next
    case 3
    then have "length us + length (take (k - length us) vs) = k" "take (k - length us) vs \<noteq> []" using k(2) by auto
    then show ?thesis using updown_raise [of ctl us z "take (k - length us) vs" "drop (k - length us) vs"] assms(1) 3 by (simp add: k insert_at_def)
  qed
qed

lemma updown_spec:
  assumes "displayed ctl zs" "z < MAX_SHEETS"
    and "z \<in> set zs \<Longrightarrow> h \<le> ctl_top ctl" "z \<notin> set zs \<Longrightarrow> height (sheets0 ctl z) = -1 \<and> length zs < MAX_SHEETS"
  shows "\<exists>ctl'. sheet_updown z h ctl = Some ctl' \<and> displayed ctl' (if h < 0 then remove1 z zs else insert_at (nat h) z (remove1 z zs)) \<and> same_windows ctl ctl'"
proof (cases "z \<in> set zs")
  case True
  then obtain us vs where zs: "zs = us @ z # vs" "z \<notin> set us" by (meson split_list_first)
  then show ?thesis
    using updown_hide [of ctl us z vs h] updown_shown [of ctl us z vs h] assms(1) assms(3) [OF True] by (simp add: remove1_append)
next
  case False
  have st: "height (sheets0 ctl z) = -1" "length zs < MAX_SHEETS" "ctl_top ctl = int (length zs) - 1"
    using assms(1) assms(4) [OF False] by (simp_all add: displayed_def stack_def)
  show ?thesis
  proof (cases "h < 0")
    case True
    then show ?thesis using updown_cases(5) [of h ctl z] st assms(1) False by (cases "h = -1") (simp_all add: remove1_idem same_windows_refl)
  next
    case h: False
    have "h = int (length (take (nat h) zs)) \<or> drop (nat h) zs = [] \<and> int (length (take (nat h) zs)) < h" using h by auto
    moreover have "length (take (nat h) zs) + length (drop (nat h) zs) < MAX_SHEETS" using st(2) by simp
    ultimately obtain ctl' where "sheet_updown z h ctl = Some ctl'" "displayed ctl' (take (nat h) zs @ z # drop (nat h) zs)" "same_windows ctl ctl'"
      using updown_show [of ctl "take (nat h) zs" "drop (nat h) zs" z h] assms(1,2) False st(1) by auto
    then show ?thesis using False h by (simp add: remove1_idem insert_at_def)
  qed
qed


section \<open>Moving a sheet on the screen\<close>

lemma moved_stack:
  assumes "stack ctl zs"
  shows "stack (upd_sheet z (place b m x y) ctl) zs"
  using assms by (auto simp: stack_def upd_sheet_def place_def)

lemma moved_others:
  "i \<noteq> z \<Longrightarrow> sheets0 (upd_sheet z f ctl) i = sheets0 ctl i" "sheets0 (upd_sheet z f ctl) z = f (sheets0 ctl z)"
  "seen (upd_sheet z f ctl) = seen ctl" "shown (upd_sheet z f ctl) = shown ctl" "screen (upd_sheet z f ctl) = screen ctl"
  by (simp_all add: upd_sheet_def seen_def shown_def vram_at_def fun_eq_iff)

lemma topmost_cong: "(\<And>i. i \<in> set zs \<Longrightarrow> covers (S i) x y = covers (S' i) x y) \<Longrightarrow> topmost S zs x y = topmost S' zs x y"
  by (induction zs) (simp_all add: topmost_Cons)

lemma topmost_moved: "z \<notin> set ws \<Longrightarrow> topmost (sheets0 (upd_sheet z f ctl)) ws x y = topmost (sheets0 ctl) ws x y"
  by (rule topmost_cong) (metis moved_others(1))

text \<open>A pixel on which a move of \<open>z\<close> has no influence, since a sheet above it is on top or \<open>z\<close> is transparent there before and after.\<close>

lemma moved_pixel:
  assumes z: "zs = us @ z # vs" "distinct zs" and ok: "pixel_ok ctl zs x y"
    and i: "topmost (sheets0 (upd_sheet z f ctl)) zs x y = Some i" "i \<in> set vs \<or> \<not> covers (sheets0 ctl z) x y \<and> i \<noteq> z"
  shows "pixel_ok (upd_sheet z f ctl) zs x y"
proof -
  let ?S = "sheets0 ctl" and ?S' = "sheets0 (upd_sheet z f ctl)"
  have c: "topmost ?S' us x y = topmost ?S us x y" "topmost ?S' vs x y = topmost ?S vs x y"
    using z by (simp_all add: topmost_moved)
  have "i \<noteq> z" using i(2) z by auto
  moreover have "topmost ?S zs x y = Some i"
    using i z(2) c unfolding z(1) by (auto simp: topmost_append topmost_Cons split: option.splits if_splits dest: topmost_Some topmost_Some [OF sym])
  ultimately show ?thesis using ok i(1) by (simp add: seen_ok_def shown_ok_def moved_others)
qed


definition in_opt :: "(int \<times> int \<times> int \<times> int) option \<Rightarrow> int \<Rightarrow> int \<Rightarrow> bool" where
  "in_opt a x y \<longleftrightarrow> (case a of None \<Rightarrow> False | Some r \<Rightarrow> in_area r x y)"

lemma old_areas_cover:
  assumes "in_area (ox, oy, ox + bxsize s, oy + bysize s) x y" "\<not> inside s x y" "old_areas s ox oy = (a1, a2)"
  shows "in_opt a1 x y \<or> in_opt a2 x y"
  using assms by (auto simp: old_areas_def in_area_def inside_def in_opt_def Let_def split: if_splits)

lemma refresh_old_spec:
  assumes st: "stack ctl zs" and k: "k \<le> length zs"
  shows "\<exists>ctl'. refresh_old a (int k) ctl = Some ctl' \<and> same_sheets ctl ctl' \<and>
    (\<forall>x y. in_area (screen ctl) x y \<longrightarrow> pixel_ok ctl zs x y \<or> in_opt a x y \<and>
        (\<exists>i \<in> set (take k zs). topmost (sheets0 ctl) zs x y = Some i) \<longrightarrow> pixel_ok ctl' zs x y)"
proof (cases a)
  case None
  then show ?thesis by (simp add: refresh_old_def in_opt_def same_sheets_def)
next
  case (Some r)
  obtain ax0 ay0 ax1 ay1 where "r = (ax0, ay0, ax1, ay1)" by (metis prod_cases4)
  then show ?thesis using refresh_spec [OF st, of 0 0 k ax0 ay0 ax1 ay1] k Some by (simp add: refresh_old_def in_opt_def)
qed

lemma slide_refresh_composes:
  assumes zs: "zs = us @ z # vs" and st: "stack c zs" and ok: "\<And>x y i. in_area (screen c) x y \<Longrightarrow> topmost (sheets0 c) zs x y = Some i \<Longrightarrow>
      pixel_ok c zs x y \<or> i = z \<or> i \<in> set us \<and> in_area (ox, oy, ox + bxsize (sheets0 c z), oy + bysize (sheets0 c z)) x y \<and> \<not> inside (sheets0 c z) x y"
  shows "\<exists>ctl'. sheet_slide_refresh z ox oy c = Some ctl' \<and> same_sheets c ctl' \<and> composed ctl' zs"
proof -
  let ?s = "sheets0 c z" and ?k = "length us"
  have k: "height ?s = int ?k" "?k \<le> length zs" "?k + 1 \<le> length zs" using st by (simp_all add: zs stack_levels)
  obtain a1 a2 where A: "old_areas ?s ox oy = (a1, a2)" by fastforce
  obtain c1 where c1: "refresh_old a1 (int ?k) c = Some c1" "same_sheets c c1"
    "\<And>x y. in_area (screen c) x y \<Longrightarrow> pixel_ok c zs x y \<or> in_opt a1 x y \<and> (\<exists>i \<in> set (take ?k zs). topmost (sheets0 c) zs x y = Some i) \<Longrightarrow> pixel_ok c1 zs x y"
    using refresh_old_spec [OF st k(2), of a1] by blast
  note S1 = same_sheetsD [OF c1(2)]
  obtain c2 where c2: "refresh_old a2 (int ?k) c1 = Some c2" "same_sheets c1 c2"
    "\<And>x y. in_area (screen c1) x y \<Longrightarrow> pixel_ok c1 zs x y \<or> in_opt a2 x y \<and> (\<exists>i \<in> set (take ?k zs). topmost (sheets0 c1) zs x y = Some i) \<Longrightarrow> pixel_ok c2 zs x y"
    using refresh_old_spec [OF st [folded S1(2)] k(2), of a2] by blast
  note S2 = same_sheetsD [OF same_sheets_trans [OF c1(2) c2(2)]]
  let ?a = "(vx0 ?s, vy0 ?s, vx0 ?s + bxsize ?s, vy0 ?s + bysize ?s)"
  obtain c3 where c3: "refresh_sheet z (int ?k) (int ?k) (int ?k) c2 = Some c3" "same_sheets c2 c3"
    "\<And>x y. in_area (screen c2) x y \<Longrightarrow> pixel_ok c2 zs x y \<or> in_area ?a x y \<and>
       (\<exists>i \<in> set (take 1 (drop ?k zs)). topmost (sheets0 c2) (drop ?k zs) x y = Some i) \<Longrightarrow> pixel_ok c3 zs x y"
    using refresh_spec [OF st [folded S2(2)] k(2,3), of "vx0 ?s" "vy0 ?s" "vx0 ?s + bxsize ?s" "vy0 ?s + bysize ?s"]
    unfolding refresh_sheet_def Let_def S2(3) by auto
  have "pixel_ok c3 zs x y" if xy: "in_area (screen c) x y" for x y
  proof (cases "topmost (sheets0 c) zs x y")
    case None
    then show ?thesis using same_sheetsD(3) [OF c3(2)] by (simp add: seen_ok_def shown_ok_def S2(3))
  next
    case (Some i)
    have keep: "pixel_ok c3 zs x y" if "pixel_ok c2 zs x y" using c3(3) [of x y] that xy unfolding S2(1) by blast
    consider "pixel_ok c zs x y" | "i = z" | "i \<in> set us" "in_area (ox, oy, ox + bxsize ?s, oy + bysize ?s) x y" "\<not> inside ?s x y"
      using ok [OF xy Some] by blast
    then show ?thesis
    proof cases
      case 1
      then show ?thesis using c1(3) [OF xy] c2(3) [of x y] xy keep unfolding S1(1) by blast
    next
      case 2
      then have "topmost (sheets0 c) (z # vs) x y = Some z" "in_area ?a x y"
        using Some st topmost_Some [OF Some]
        by (auto simp: zs stack_def topmost_append covers_def inside_def in_area_def split: option.splits dest: topmost_Some)
      then show ?thesis using c3(3) [of x y] xy unfolding S2(1,3) by (simp add: zs)
    next
      case 3
      then have "\<exists>i \<in> set (take ?k zs). topmost (sheets0 c) zs x y = Some i" using Some by (simp add: zs)
      then show ?thesis using old_areas_cover [OF 3(2,3) A] c1(3) [OF xy] c2(3) [of x y] xy keep unfolding S1(1,3) by blast
    qed
  qed
  then have "composed c3 zs" using same_sheetsD(1) [OF c3(2)] unfolding composed_def S2(1) by simp
  moreover have "sheet_slide_refresh z ox oy c = Some c3" using c1(1) c2(1) c3(1) by (simp add: sheet_slide_refresh_def Let_def k(1) A)
  ultimately show ?thesis using same_sheets_trans [OF same_sheets_trans [OF c1(2) c2(2)] c3(2)] by blast
qed


lemma moved_sheet: "sheets0 (upd_sheet z (place b m x y) ctl) z =
    (sheets0 ctl z)\<lparr>vx0 := limit (bxsize b) m x, vy0 := limit (bysize b) m y\<rparr>"
  by (simp add: moved_others place_def)

lemma covers_opaque: "col_inv s = -1 \<Longrightarrow> covers s x y \<longleftrightarrow> inside s x y"
  by (simp add: covers_def)

lemma unmoved: "limit (bxsize b) m x = vx0 (sheets0 ctl z) \<Longrightarrow> limit (bysize b) m y = vy0 (sheets0 ctl z) \<Longrightarrow> upd_sheet z (place b m x y) ctl = ctl"
  by (simp add: upd_sheet_def place_def)

lemma slide_spec:
  assumes "displayed ctl zs" "z \<in> set zs" "col_inv (sheets0 ctl z) = -1"
  shows "\<exists>ctl'. sheet_slide b z x y ctl = Some ctl' \<and> displayed ctl' zs \<and>
    sheets0 ctl' = (sheets0 ctl)(z := place (sheets0 ctl b) 2 x y (sheets0 ctl z))"
proof -
  let ?c = "upd_sheet z (place (sheets0 ctl b) 2 x y) ctl" and ?s = "sheets0 ctl z"
  obtain us vs where zs: "zs = us @ z # vs" using assms(2) by (meson split_list)
  have st: "stack ctl zs" "composed ctl zs" "distinct zs" "stack ?c zs"
    using assms(1) moved_stack by (auto simp: displayed_def stack_def)
  have S: "sheets0 ?c = (sheets0 ctl)(z := place (sheets0 ctl b) 2 x y ?s)" by (simp add: upd_sheet_def)
  have size: "bxsize (sheets0 ?c z) = bxsize ?s" "bysize (sheets0 ?c z) = bysize ?s" "col_inv (sheets0 ?c z) = -1"
    using assms(3) by (simp_all add: moved_sheet)
  show ?thesis
  proof (cases "vx0 ?s = vx0 (sheets0 ?c z) \<and> vy0 ?s = vy0 (sheets0 ?c z)")
    case True
    then have "?c = ctl" using unmoved by (simp add: moved_sheet)
    then show ?thesis using True assms(1) S by (simp add: sheet_slide_def slide_to_def)
  next
    case False
    have "\<exists>ctl'. sheet_slide_refresh z (vx0 ?s) (vy0 ?s) ?c = Some ctl' \<and> same_sheets ?c ctl' \<and> composed ctl' zs"
    proof (rule slide_refresh_composes [OF zs st(4)], unfold size)
      fix px py i
      assume p: "in_area (screen ?c) px py" "topmost (sheets0 ?c) zs px py = Some i"
      have ok: "pixel_ok ctl zs px py" using st(2) p(1) unfolding composed_def moved_others(5) by blast
      have i: "i \<in> set vs \<or> i = z \<or> i \<in> set us \<and> \<not> covers (sheets0 ?c z) px py"
        using p(2) unfolding zs by (auto simp: topmost_append topmost_Cons split: option.splits if_splits dest: topmost_Some topmost_Some [OF sym])
      show "pixel_ok ?c zs px py \<or> i = z \<or> i \<in> set us \<and> in_area (vx0 ?s, vy0 ?s, vx0 ?s + bxsize ?s, vy0 ?s + bysize ?s) px py \<and>
          \<not> inside (sheets0 ?c z) px py"
        using moved_pixel [OF zs st(3) ok p(2)] i covers_opaque [OF size(3)] covers_opaque [OF assms(3)]
        by (auto simp: in_area_def inside_def)
    qed
    then obtain ctl' where C: "sheet_slide_refresh z (vx0 ?s) (vy0 ?s) ?c = Some ctl'" "same_sheets ?c ctl'" "composed ctl' zs" by blast
    have "0 \<le> height (sheets0 ?c z)" using st(4) by (simp add: zs stack_levels)
    then have "sheet_slide b z x y ctl = Some ctl'" using False C(1) by (auto simp: sheet_slide_def slide_to_def Let_def)
    then show ?thesis using C(3) same_sheetsD(2,3) [OF C(2)] st(4) S by (simp add: displayed_def)
  qed
qed


text \<open>The four refreshes of \<open>mouse_sheet_slide\<close> at a pixel.\<close>

lemma mouse_pixel:
  assumes zs: "zs = us @ z # vs" "distinct zs" and ok: "pixel_ok ctl zs x y"
    and c: "c = upd_sheet z f ctl" "sheets0 c1 = sheets0 c" "sheets0 c2 = sheets0 c" "sheets0 c3 = sheets0 c" "sheets0 c4 = sheets0 c"
    and m: "map_done c zs ol zs c1 x y" "map_done c1 zs nw (z # vs) c2 x y" "draw_done c2 zs ol us c3 x y" "draw_done c3 zs nw [z] c4 x y"
    and a: "in_area ol x y \<longleftrightarrow> inside (sheets0 ctl z) x y" "in_area nw x y \<longleftrightarrow> inside (sheets0 c z) x y"
  shows "pixel_ok c4 zs x y"
proof (cases "topmost (sheets0 c) zs x y")
  case None
  then show ?thesis by (simp add: seen_ok_def shown_ok_def c(5))
next
  case (Some i)
  let ?s = "sheets0 ctl z" and ?s' = "sheets0 c z"
  have i: "i \<in> set vs \<or> i = z \<and> inside ?s' x y \<or> i \<in> set us \<and> i \<noteq> z" "topmost (sheets0 c) (z # vs) x y = Some i \<or> i \<in> set us"
    using Some zs(2) unfolding zs(1)
    by (auto simp: topmost_append topmost_Cons covers_def split: option.splits if_splits dest: topmost_Some topmost_Some [OF sym])
  have same: "pixel_ok c zs x y" if "i \<in> set vs \<or> \<not> inside ?s x y \<and> i \<noteq> z"
    using moved_pixel [OF zs ok, of f i] Some that by (auto simp: covers_def c(1))
  have "seen_ok c2 zs x y"
  proof (cases "i = z \<and> \<not> inside ?s x y")
    case True
    then show ?thesis using m(2) i zs unfolding map_done_def a c(2) by auto
  next
    case False
    then show ?thesis using m(1,2) Some same unfolding map_done_def a by auto
  qed
  then have s: "seen_ok c2 zs x y" "seen_ok c3 zs x y" "seen_ok c4 zs x y" using m(3,4) by (simp_all add: draw_done_def)
  have sh: "shown_ok c2 zs x y \<longleftrightarrow> shown_ok c zs x y" using m(1,2) c(2,3) by (simp add: shown_ok_def map_done_def)
  consider "i = z" "inside ?s' x y" | "i \<in> set us" "inside ?s x y" | "shown_ok c2 zs x y" using i same sh by blast
  then have "shown_ok c4 zs x y"
  proof cases
    case 1
    then show ?thesis using m(4) s(2) Some unfolding draw_done_def a c(4) by simp
  next
    case 2
    then show ?thesis using m(3,4) s(1,2) Some unfolding draw_done_def a c(3) by simp
  next
    case 3
    then show ?thesis using m(3,4) s(1,2) unfolding draw_done_def by blast
  qed
  then show ?thesis using s(3) by blast
qed

lemma mouse_slide_spec:
  assumes "displayed ctl zs" "z \<in> set zs"
  shows "\<exists>ctl'. mouse_sheet_slide b z dx dy ctl = Some ctl' \<and> displayed ctl' zs \<and>
    sheets0 ctl' = (sheets0 ctl)(z := place (sheets0 ctl b) 1 (vx0 (sheets0 ctl z) + dx) (vy0 (sheets0 ctl z) + dy) (sheets0 ctl z))"
proof -
  let ?s = "sheets0 ctl z"
  let ?f = "place (sheets0 ctl b) 1 (vx0 ?s + dx) (vy0 ?s + dy)"
  let ?c = "upd_sheet z ?f ctl" and ?s' = "?f ?s"
  let ?w = "bxsize ?s" and ?h = "bysize ?s"
  let ?o = "(vx0 ?s, vy0 ?s, vx0 ?s + ?w, vy0 ?s + ?h)" and ?n = "(vx0 ?s', vy0 ?s', vx0 ?s' + ?w, vy0 ?s' + ?h)"
  obtain us vs where zs: "zs = us @ z # vs" using assms(2) by (meson split_list)
  let ?k = "length us"
  have st: "stack ctl zs" "composed ctl zs" "distinct zs" "stack ?c zs" using assms(1) moved_stack by (auto simp: displayed_def stack_def)
  have size: "bxsize ?s' = ?w" "bysize ?s' = ?h" "sheets0 ?c z = ?s'" by (simp_all add: place_def moved_others)
  have k: "height ?s' = int ?k" "0 \<le> length zs" "?k \<le> length zs" "0 + ?k \<le> length zs" "?k + 1 \<le> length zs"
    using st(4) size(3) by (simp_all add: zs stack_levels)
  have d: "drop 0 zs = zs" "drop ?k zs = z # vs" "take ?k zs = us" "take 1 (z # vs) = [z]" by (simp_all add: zs)
  obtain c1 where c1: "sheet_refreshmap (vx0 ?s) (vy0 ?s) (vx0 ?s + ?w) (vy0 ?s + ?h) (int 0) ?c = Some c1" "same_sheets ?c c1"
    "\<And>x y. in_area (screen ?c) x y \<Longrightarrow> map_done ?c zs ?o zs c1 x y"
    using refreshmap_spec [OF st(4) k(2)] unfolding d by blast
  note S1 = same_sheetsD [OF c1(2)]
  obtain c2 where c2: "sheet_refreshmap (vx0 ?s') (vy0 ?s') (vx0 ?s' + ?w) (vy0 ?s' + ?h) (int ?k) c1 = Some c2" "same_sheets c1 c2"
    "\<And>x y. in_area (screen ?c) x y \<Longrightarrow> map_done c1 zs ?n (z # vs) c2 x y"
    using refreshmap_spec [OF st(4) [folded S1(2)] k(3)] unfolding d S1(1) by blast
  note S2 = same_sheetsD [OF same_sheets_trans [OF c1(2) c2(2)]]
  obtain c3 where c3: "sheet_refreshsub (vx0 ?s) (vy0 ?s) (vx0 ?s + ?w) (vy0 ?s + ?h) (int 0) (int (0 + ?k) - 1) c2 = Some c3" "same_sheets c2 c3"
    "\<And>x y. in_area (screen ?c) x y \<Longrightarrow> draw_done c2 zs ?o us c3 x y"
    using refreshsub_spec [OF st(4) [folded S2(2)] k(4)] unfolding d S2(1) by blast
  note S3 = same_sheetsD [OF same_sheets_trans [OF same_sheets_trans [OF c1(2) c2(2)] c3(2)]]
  obtain c4 where c4: "sheet_refreshsub (vx0 ?s') (vy0 ?s') (vx0 ?s' + ?w) (vy0 ?s' + ?h) (int ?k) (int (?k + 1) - 1) c3 = Some c4" "same_sheets c3 c4"
    "\<And>x y. in_area (screen ?c) x y \<Longrightarrow> draw_done c3 zs ?n [z] c4 x y"
    using refreshsub_spec [OF st(4) [folded S3(2)] k(5)] unfolding d S3(1) by blast
  note S4 = same_sheetsD [OF same_sheets_trans [OF same_sheets_trans [OF same_sheets_trans [OF c1(2) c2(2)] c3(2)] c4(2)]]
  have "pixel_ok c4 zs x y" if xy: "in_area (screen ?c) x y" for x y
  proof (rule mouse_pixel [OF zs st(3) _ refl S1(3) S2(3) S3(3) S4(3) c1(3) c2(3) c3(3) c4(3)])
    show "pixel_ok ctl zs x y" using st(2) xy unfolding composed_def moved_others(5) by blast
  qed (use xy in \<open>auto simp: in_area_def inside_def moved_others place_def\<close>)
  then have "composed c4 zs" unfolding composed_def S4(1) by simp
  moreover have "mouse_sheet_slide b z dx dy ctl = Some c4"
    using c1(1) c2(1) c3(1) c4(1) by (simp add: mouse_sheet_slide_def Let_def size k(1))
  ultimately show ?thesis using S4(2,3) st(4) by (simp add: displayed_def upd_sheet_def)
qed


section \<open>An example\<close>

text \<open>A screen of 64 by 64 pixels with a background, a window and a mouse pointer of which no pixel is visible.\<close>

definition demo_sheet :: "int \<Rightarrow> int \<Rightarrow> int \<Rightarrow> int \<Rightarrow> int \<Rightarrow> int \<Rightarrow> u32 \<Rightarrow> SHEET" where
  "demo_sheet x y w n ci h c = \<lparr>bufp = 0x43000010, buf = replicate (nat (w * n)) c, picBuf = NULL, bxsize = w, bysize = n, col_inv = ci, height = h,
     flags = 1, editFlag = 0, current_status = 0, zoom_status = -1, cursorx = 3, cursory = 21, vx0 = x, vy0 = y\<rparr>"

definition demo_sheets :: "nat \<Rightarrow> SHEET" where
  "demo_sheets i = (if i = 0 then demo_sheet 0 0 64 64 (-1) 0 7 else if i = 1 then demo_sheet 10 10 38 39 (-1) 1 7
     else if i = 2 then demo_sheet 0 0 16 16 99 2 99 else (demo_sheet 0 0 0 0 0 (-1) 0)\<lparr>flags := 0\<rparr>)"

definition demo_ctl :: SHTCTL where
  "demo_ctl = \<lparr>vram = (\<lambda>_. 7), sht_map = (\<lambda>k. if inside (demo_sheets 1) (k mod 64) (k div 64) then 1 else 0), xsize = 64, ysize = 64, ctl_top = 2,
     sheets = (\<lambda>k. if k < 3 then Some k else None), sheets0 = demo_sheets\<rparr>"

lemma colour_demo:
  assumes "inside (demo_sheet vx vy w n ci h c) x y" 
  shows "colour (demo_sheet vx vy w n ci h c) x y = c"
proof -
  have h: "0 \<le> x - vx" "x - vx < w" "0 \<le> y - vy" "y - vy + 1 \<le> n" using assms by (simp_all add: inside_def demo_sheet_def)
  then have "(y - vy + 1) * w \<le> n * w" by (intro mult_right_mono) auto
  then have lt: "(y - vy) * w + (x - vx) < w * n" using h(2) by (simp add: distrib_left distrib_right mult.commute [of w])
  have "0 \<le> (y - vy) * w" using h by (intro mult_nonneg_nonneg) simp_all
  then have "nat ((y - vy) * w + (x - vx)) < nat (w * n)" using lt h(1) by (subst nat_less_eq_zless) simp_all
  then show ?thesis by (simp add: colour_def demo_sheet_def)
qed

lemma demo_displayed: "displayed demo_ctl [0, 1, 2]"
proof -
  have s: "demo_sheets 0 = demo_sheet 0 0 64 64 (-1) 0 7" "demo_sheets 1 = demo_sheet 10 10 38 39 (-1) 1 7" "demo_sheets 2 = demo_sheet 0 0 16 16 99 2 99"
    by (simp_all add: demo_sheets_def)
  have c: "covers (demo_sheets 0) x y = inside (demo_sheets 0) x y" "covers (demo_sheets 1) x y = inside (demo_sheets 1) x y" for x y
    by (simp_all add: covers_def s demo_sheet_def del: One_nat_def)
  have m: "\<not> covers (demo_sheets 2) x y" for x y
    using colour_demo [of 0 0 16 16 99 2 99 x y] by (auto simp: covers_def s) (simp_all add: demo_sheet_def)
  have t: "topmost demo_sheets [0, 1, 2] x y = (if inside (demo_sheets 1) x y then Some 1 else if inside (demo_sheets 0) x y then Some 0 else None)" for x y
    by (simp add: topmost_Cons c m del: One_nat_def)
  have "stack demo_ctl [0, 1, 2]"
    by (auto simp: stack_def demo_ctl_def MAX_SHEETS_def demo_sheets_def demo_sheet_def nth_Cons' less_Suc_eq numeral_3_eq_3)
  moreover have "pixel_ok demo_ctl [0, 1, 2] x y" if "in_area (screen demo_ctl) x y" for x y
  proof -
    have xy: "(y * 64 + x) mod 64 = x" "(y * 64 + x) div 64 = y" using that by (simp_all add: in_area_def demo_ctl_def)
    have se: "seen demo_ctl x y = (if inside (demo_sheets 1) x y then 1 else 0)" by (simp add: seen_def demo_ctl_def xy [unfolded mod_mult_self4] del: One_nat_def mod_mult_self4 mod_mult_self3)
    have "shown demo_ctl x y = 7" "sheets0 demo_ctl = demo_sheets" by (simp_all add: shown_def demo_ctl_def)
    moreover note se
    ultimately show ?thesis using colour_demo [of 10 10 38 39 "-1" 1 7 x y] colour_demo [of 0 0 64 64 "-1" 0 7 x y]
      by (auto simp: seen_ok_def shown_ok_def t s simp del: One_nat_def split: if_splits)
  qed
  ultimately show ?thesis by (simp add: displayed_def composed_def)
qed

section \<open>Properties\<close>

text \<open>C32: \<open>sheet_updown\<close> implements the moves of a stack of windows: the sheet is taken out of the stack and, unless the height is negative,
  put back at the height, a sheet that was not shown at most on top. If before the move every pixel of the screen had the colour of the
  highest sheet that is not transparent there, and the map named that sheet, then so it is afterwards: the partial
  refreshes are enough. A sheet that is already shown must not be moved higher than the top.\<close>

theorem updown_composes:
  assumes "stack ctl zs" "composed ctl zs" "z < MAX_SHEETS"
    and "z \<in> set zs \<longrightarrow> h \<le> ctl_top ctl" "z \<notin> set zs \<longrightarrow> height (sheets0 ctl z) = -1 \<and> length zs < MAX_SHEETS"
  defines "zs' \<equiv> if h < 0 then remove1 z zs else insert_at (nat h) z (remove1 z zs)"
  shows "\<exists>ctl'. sheet_updown z h ctl = Some ctl' \<and> stack ctl' zs' \<and> xsize ctl' = xsize ctl \<and> ysize ctl' = ysize ctl \<and>
    (\<forall>x y i. 0 \<le> x \<and> x < xsize ctl \<and> 0 \<le> y \<and> y < ysize ctl \<and> topmost (sheets0 ctl) zs' x y = Some i \<longrightarrow>
       sht_map ctl' (y * xsize ctl + x) = of_nat i \<and> vram ctl' (vram_at ctl' x y) = colour (sheets0 ctl i) x y)"
proof -
  have "displayed ctl zs" using assms(1,2) by (simp add: displayed_def)
  then obtain ctl' where c: "sheet_updown z h ctl = Some ctl'" "displayed ctl' zs'" "same_windows ctl ctl'"
    using updown_spec [OF _ assms(3), of ctl zs h] assms(4,5) by (auto simp: zs'_def)
  have e: "\<exists>e. sheets0 ctl' i = (sheets0 ctl i)\<lparr>height := e\<rparr>" for i using c(3) by (simp add: same_windows_def)
  have cl: "covers (sheets0 ctl' i) = covers (sheets0 ctl i)" "colour (sheets0 ctl' i) = colour (sheets0 ctl i)" for i using e [of i] by auto
  have "topmost (sheets0 ctl') zs' x y = topmost (sheets0 ctl) zs' x y" for x y by (rule topmost_cong) (simp add: cl(1))
  then show ?thesis using c cl(2)
    by (simp add: displayed_def composed_def seen_ok_def shown_ok_def seen_def shown_def in_area_def same_windows_def)
qed

theorem updown_composes_witness:
  "\<exists>ctl'. sheet_updown 1 (-1) demo_ctl = Some ctl' \<and> stack ctl' [0, 2] \<and> sht_map demo_ctl (20 * 64 + 20) = 1 \<and> sht_map ctl' (20 * 64 + 20) = 0"
proof -
  have d: "stack demo_ctl [0, 1, 2]" "composed demo_ctl [0, 1, 2]" using demo_displayed by (simp_all add: displayed_def)
  have t: "topmost (sheets0 demo_ctl) [0, 2] 20 20 = Some 0" by (simp add: topmost_def demo_ctl_def covers_def inside_def demo_sheets_def demo_sheet_def)
  have m: "sht_map demo_ctl (20 * 64 + 20) = 1" by (simp add: demo_ctl_def inside_def demo_sheets_def demo_sheet_def)
  obtain ctl' where c: "sheet_updown 1 (-1) demo_ctl = Some ctl'" "stack ctl' [0, 2]"
    "\<forall>x y i. 0 \<le> x \<and> x < xsize demo_ctl \<and> 0 \<le> y \<and> y < ysize demo_ctl \<and> topmost (sheets0 demo_ctl) [0, 2] x y = Some i \<longrightarrow>
       sht_map ctl' (y * xsize demo_ctl + x) = of_nat i \<and> vram ctl' (vram_at ctl' x y) = colour (sheets0 demo_ctl i) x y"
    using updown_composes [OF d, of 1 "-1"] stackD(1) [OF d(1)] by (auto simp: MAX_SHEETS_def simp del: One_nat_def)
  then have "sht_map ctl' (20 * 64 + 20) = 0" using t c(3) [rule_format, of 20 20 0] by (simp add: demo_ctl_def)
  with c(1,2) m show ?thesis by blast
qed

end
