(* ===== verification/Window.thy ===== *)
theory Window
  imports Sheet
begin

text \<open>
  The desktop of \<^verbatim>\<open>env/lib/graphic/graphic.c\<close>: the variables of the module, drawing into the array of a sheet, text output in a
  window, creating and closing windows, and the events of mouse and touch screen. \<open>font_data\<close> of \<^verbatim>\<open>env/include/font.h\<close> is an
  argument. An access outside the array of a sheet or outside the font is the outcome \<^term>\<open>None\<close>.
\<close>

section \<open>Model\<close>

record desktop =
  shtctl :: SHTCTL
  sht_back :: nat
  sht_mouse :: nat
  m_tmp_sht_win :: "nat option"
  s_total_line_num :: u32
  s_win_slide_flg :: bool
  s_win_close_flg :: bool
  g_nMousePosX :: u32
  g_nMousePosY :: u32
  g_nWinPosX :: u32
  g_nWinPosY :: u32
  g_nMouseMovTotalX :: int
  g_nMouseMovTotalY :: int
  g_nMouseMovMinX :: int
  g_nMouseMovMaxX :: int
  g_nMouseMovMinY :: int
  g_nMouseMovMaxY :: int
  nTouchOffsetXForWin :: u32
  nTouchOffsetYForWin :: u32
  heap :: alloc_state

datatype TMouseEvent = MouseEventMouseMove | MouseEventMouseDown | MouseEventMouseUp | MouseEventUnknown
datatype ESheetEvent = SheetSelected | SheetClosed | SheetInvalid
datatype ETouchScreenEvent = FingerDown | FingerUp | FingerMove | Unknown

definition MOUSE_BUTTON_LEFT :: u32 where "MOUSE_BUTTON_LEFT = 1"
definition edit_off :: int where "edit_off = 0"
definition edit_on :: int where "edit_on = 1"
definition WIN_TOP_PADDING :: int where "WIN_TOP_PADDING = 21"
definition WIN_LEFT_PADDING :: int where "WIN_LEFT_PADDING = 3"
definition WIN_RIGHT_PADDING :: int where "WIN_RIGHT_PADDING = 3"
definition WIN_BOTTOM_PADDING :: int where "WIN_BOTTOM_PADDING = 2"
definition WORD_WIDTH :: int where "WORD_WIDTH = 8"
definition WORD_HEIGHT :: int where "WORD_HEIGHT = 16"

definition COLOR32 :: "u32 \<Rightarrow> u32 \<Rightarrow> u32 \<Rightarrow> u32 \<Rightarrow> u32" where
  "COLOR32 red green blue alpha =
     (red AND 0xFF) OR push_bit 8 (green AND 0xFF) OR push_bit 16 (blue AND 0xFF) OR push_bit 24 (alpha AND 0xFF)"

definition s_COL8_000000 :: u32 where "s_COL8_000000 = COLOR32 0 0 0 255"
definition s_COL8_FFFFFF :: u32 where "s_COL8_FFFFFF = COLOR32 255 255 255 255"
definition s_COL8_C6C6C6 :: u32 where "s_COL8_C6C6C6 = COLOR32 198 198 198 255"
definition s_COL8_000084 :: u32 where "s_COL8_000084 = COLOR32 132 0 0 255"
definition s_COL8_008484 :: u32 where "s_COL8_008484 = COLOR32 132 132 0 255"
definition s_COL8_848484 :: u32 where "s_COL8_848484 = COLOR32 132 132 132 255"

subsection \<open>Drawing into an array\<close>

definition store :: "int \<Rightarrow> u32 \<Rightarrow> u32 list \<Rightarrow> u32 list option" where
  "store i c b = do { assert (0 \<le> i); wr b (nat i) c }"

definition fetch :: "int \<Rightarrow> u32 list \<Rightarrow> u32 option" where
  "fetch i b = do { assert (0 \<le> i); rd b (nat i) }"

text \<open>The stores of a loop, in order.\<close>

primrec stores :: "(int \<times> u32) list \<Rightarrow> u32 list \<Rightarrow> u32 list option" where
  "stores [] b = Some b"
| "stores (p # ps) b = do { b \<leftarrow> store (fst p) (snd p) b; stores ps b }"

definition boxfill :: "u32 list \<Rightarrow> int \<Rightarrow> u32 \<Rightarrow> int \<Rightarrow> int \<Rightarrow> int \<Rightarrow> int \<Rightarrow> u32 list option" where
  "boxfill v xs c x0 y0 x1 y1 = stores [(y * xs + x, c). y \<leftarrow> [y0 .. y1], x \<leftarrow> [x0 .. x1]] v"

definition GetPixel :: "u8 list list \<Rightarrow> u8 \<Rightarrow> nat \<Rightarrow> nat \<Rightarrow> bool option" where
  "GetPixel font_data chAscii nPosX nPosY = do {
     let nIndex = (ucast chAscii :: u32) - 0x21;
     row \<leftarrow> rd font_data (unat nIndex);
     b \<leftarrow> rd row nPosY;
     Some (b AND drop_bit nPosX 0x80 \<noteq> 0) }"

text \<open>A character of 8 by 16 pixels, blank or from the font.\<close>

primrec font_loop :: "u8 list list \<Rightarrow> (nat \<times> nat) list \<Rightarrow> int \<Rightarrow> int \<Rightarrow> int \<Rightarrow> u32 \<Rightarrow> u8 \<Rightarrow> u32 list \<Rightarrow> u32 list option" where
  "font_loop font_data [] xs x0 y0 c ch v = Some v"
| "font_loop font_data (p # ps) xs x0 y0 c ch v = do {
     f \<leftarrow> GetPixel font_data ch (snd p) (fst p);
     v \<leftarrow> store ((y0 + int (fst p)) * xs + x0 + int (snd p)) (if f then s_COL8_FFFFFF else c) v;
     font_loop font_data ps xs x0 y0 c ch v }"

definition putfont :: "u8 list list \<Rightarrow> u32 list \<Rightarrow> int \<Rightarrow> int \<Rightarrow> int \<Rightarrow> u32 \<Rightarrow> u8 \<Rightarrow> u32 list option" where
  "putfont font_data v xs x0 y0 c ch =
     (if ch = 0x20 then stores [((y0 + y) * xs + x0 + x, c). y \<leftarrow> [0 .. WORD_HEIGHT - 1], x \<leftarrow> [0 .. WORD_WIDTH - 1]] v
      else font_loop font_data (List.product [0..<nat WORD_HEIGHT] [0..<nat WORD_WIDTH]) xs x0 y0 c ch v)"

text \<open>The string up to its terminator.\<close>

primrec putfonts_asc :: "u8 list \<Rightarrow> u8 list list \<Rightarrow> u32 list \<Rightarrow> int \<Rightarrow> int \<Rightarrow> int \<Rightarrow> u32 \<Rightarrow> u32 list option" where
  "putfonts_asc [] font_data v xs x y c = Some v"
| "putfonts_asc (ch # s) font_data v xs x y c =
     (if ch = 0 then Some v
      else do { v \<leftarrow> putfont font_data v xs x y c ch; putfonts_asc s font_data v xs (x + WORD_WIDTH) y c })"

subsection \<open>Text in a window\<close>

definition set_buf :: "nat \<Rightarrow> u32 list \<Rightarrow> SHTCTL \<Rightarrow> SHTCTL" where
  "set_buf sht b ctl = upd_sheet sht (\<lambda>s. s\<lparr>buf := b\<rparr>) ctl"

definition set_cursor :: "nat \<Rightarrow> int \<Rightarrow> int \<Rightarrow> SHTCTL \<Rightarrow> SHTCTL" where
  "set_cursor sht x y ctl = upd_sheet sht (\<lambda>s. s\<lparr>cursorx := x, cursory := y\<rparr>) ctl"

definition draw_cursor :: "nat \<Rightarrow> u32 \<Rightarrow> int \<Rightarrow> int \<Rightarrow> int \<Rightarrow> int \<Rightarrow> SHTCTL \<Rightarrow> SHTCTL option" where
  "draw_cursor sht c x0 y0 x1 y1 ctl = do {
     b \<leftarrow> stores [(y * bxsize (sheets0 ctl sht) + x, c). y \<leftarrow> [y0 .. y1 - 1], x \<leftarrow> [x0 .. x1 - 1]] (buf (sheets0 ctl sht));
     sheet_refresh sht x0 y0 x1 y1 (set_buf sht b ctl) }"

primrec copy_loop :: "(int \<times> int) list \<Rightarrow> u32 list \<Rightarrow> u32 list option" where
  "copy_loop [] b = Some b"
| "copy_loop (p # ps) b = do { c \<leftarrow> fetch (snd p) b; b \<leftarrow> store (fst p) c b; copy_loop ps b }"

definition rollScreen :: "nat \<Rightarrow> SHTCTL \<Rightarrow> SHTCTL option" where
  "rollScreen sht ctl = do {
     let s = sheets0 ctl sht;
     let w = bxsize s;
     let xs = [WIN_LEFT_PADDING .. w - WIN_RIGHT_PADDING - 1];
     let bottom = bysize s - WIN_BOTTOM_PADDING - WORD_HEIGHT;
     b \<leftarrow> copy_loop [(x + y * w, x + (y + WORD_HEIGHT) * w). y \<leftarrow> [WIN_TOP_PADDING .. bottom - 1], x \<leftarrow> xs] (buf s);
     b \<leftarrow> stores [(x + y * w, s_COL8_000000). y \<leftarrow> [bottom .. bysize s - WIN_BOTTOM_PADDING - 1], x \<leftarrow> xs] b;
     ctl \<leftarrow> sheet_refresh sht WIN_LEFT_PADDING WIN_TOP_PADDING (w - WIN_RIGHT_PADDING) (bysize s - WIN_BOTTOM_PADDING) (set_buf sht b ctl);
     Some (set_cursor sht WIN_LEFT_PADDING bottom ctl) }"

text \<open>One character of \<open>write_text\<close>; the number is \<open>s_total_line_num\<close>.\<close>

definition write_char :: "u8 list list \<Rightarrow> nat \<Rightarrow> u32 \<Rightarrow> u8 \<Rightarrow> SHTCTL \<times> u32 \<Rightarrow> (SHTCTL \<times> u32) option" where
  "write_char font_data sht backColor ch st = do {
     let (ctl, n) = st;
     let s = sheets0 ctl sht;
     let x = cursorx s;
     let y = cursory s;
     if ch = 0x0A then do {
       ctl \<leftarrow> draw_cursor sht s_COL8_000000 x y (x + WORD_WIDTH) (y + WORD_HEIGHT) ctl;
       ctl \<leftarrow> sheet_refresh sht x y (x + WORD_WIDTH) (y + WORD_HEIGHT) ctl;
       ctl \<leftarrow> (if y = bysize s - (WIN_BOTTOM_PADDING + WORD_HEIGHT) then rollScreen sht ctl
              else Some (set_cursor sht WIN_LEFT_PADDING (y + WORD_HEIGHT) ctl));
       Some (ctl, 1) }
     else do {
       b \<leftarrow> putfonts_asc [ch, 0] font_data (buf s) (bxsize s) x y backColor;
       ctl \<leftarrow> sheet_refresh sht x y (x + WORD_WIDTH) (y + WORD_HEIGHT) (set_buf sht b ctl);
       if x + WORD_WIDTH = bxsize s - WIN_RIGHT_PADDING then do {
         ctl \<leftarrow> Some (set_cursor sht WIN_LEFT_PADDING (y + WORD_HEIGHT) ctl);
         ctl \<leftarrow> (if y + WORD_HEIGHT = bysize s - WIN_BOTTOM_PADDING then rollScreen sht ctl else Some ctl);
         Some (ctl, n + 1) }
       else Some (set_cursor sht (x + WORD_WIDTH) y ctl, n) } }"

primrec text_loop :: "u8 list list \<Rightarrow> nat \<Rightarrow> u32 \<Rightarrow> u8 list \<Rightarrow> SHTCTL \<times> u32 \<Rightarrow> (SHTCTL \<times> u32) option" where
  "text_loop font_data sht backColor [] st = Some st"
| "text_loop font_data sht backColor (ch # cs) st = do {
     st \<leftarrow> write_char font_data sht backColor ch st;
     text_loop font_data sht backColor cs st }"

definition write_text :: "u8 list list \<Rightarrow> nat \<Rightarrow> u8 list \<Rightarrow> desktop \<Rightarrow> desktop option" where
  "write_text font_data sht inp d =
     (let f = editFlag (sheets0 (shtctl d) sht) in
      if f = edit_off \<or> f = edit_on then do {
        (ctl, n) \<leftarrow> text_loop font_data sht (if f = edit_off then s_COL8_C6C6C6 else s_COL8_000000) inp (shtctl d, s_total_line_num d);
        Some (d\<lparr>shtctl := ctl, s_total_line_num := n\<rparr>) }
      else Some d)"

definition write_asc_position :: "u8 list list \<Rightarrow> nat \<Rightarrow> int \<Rightarrow> int \<Rightarrow> u8 list \<Rightarrow> desktop \<Rightarrow> desktop option" where
  "write_asc_position font_data sht x y inp d =
     write_text font_data sht inp (d\<lparr>shtctl := set_cursor sht (WIN_LEFT_PADDING + x) (WIN_TOP_PADDING + y) (shtctl d)\<rparr>)"

definition full_refresh :: "nat \<Rightarrow> SHTCTL \<Rightarrow> SHTCTL option" where
  "full_refresh sht ctl = do {
     let s = sheets0 ctl sht;
     b \<leftarrow> boxfill (buf s) (bxsize s) s_COL8_C6C6C6 WIN_LEFT_PADDING WIN_TOP_PADDING (bxsize s - WIN_LEFT_PADDING) (bysize s - WIN_TOP_PADDING);
     sheet_refresh sht WIN_LEFT_PADDING WIN_TOP_PADDING (bxsize s - WIN_LEFT_PADDING) (bysize s - WIN_TOP_PADDING) (set_buf sht b ctl) }"

text \<open>A delete, or the text.\<close>

definition keyboard :: "u8 list list \<Rightarrow> nat \<Rightarrow> u8 list \<Rightarrow> desktop \<Rightarrow> desktop option" where
  "keyboard font_data sht inp d =
     (let ctl = shtctl d; s = sheets0 ctl sht; x = cursorx s; y = cursory s in
      if editFlag s \<noteq> edit_on then Some d
      else if inp \<noteq> [] \<and> hd inp = 0x7F then
          if x = WIN_LEFT_PADDING \<and> s_total_line_num d = 1 then Some d
          else if x = WIN_LEFT_PADDING then do {
            ctl \<leftarrow> draw_cursor sht s_COL8_000000 x y (x + WORD_WIDTH) (y + WORD_HEIGHT) ctl;
            Some (d\<lparr>shtctl := set_cursor sht (bxsize s - WIN_RIGHT_PADDING - WORD_WIDTH) (y - WORD_HEIGHT) ctl,
                    s_total_line_num := s_total_line_num d - 1\<rparr>) }
          else do {
            ctl \<leftarrow> draw_cursor sht s_COL8_000000 (x - WORD_WIDTH) y (x + WORD_WIDTH) (y + WORD_HEIGHT) ctl;
            Some (d\<lparr>shtctl := set_cursor sht (x - WORD_WIDTH) y ctl\<rparr>) }
      else write_text font_data sht inp d)"


subsection \<open>Windows\<close>

text \<open>The loops that draw a picture of characters.\<close>

definition picture :: "string list \<Rightarrow> (nat \<times> nat \<times> char) list" where
  "picture rows = concat (map (\<lambda>(y, r). map (\<lambda>(x, c). (y, x, c)) (enumerate 0 r)) (enumerate 0 rows))"

definition mouse_rows :: "string list" where
  "mouse_rows = [
    ''**************..'', ''*OOOOOOOOOOO*...'', ''*OOOOOOOOOO*....'', ''*OOOOOOOOO*.....'',
    ''*OOOOOOOO*......'', ''*OOOOOOO*.......'', ''*OOOOOOO*.......'', ''*OOOOOOOO*......'',
    ''*OOOO**OOO*.....'', ''*OOO*..*OOO*....'', ''*OO*....*OOO*...'', ''*O*......*OOO*..'',
    ''**........*OOO*.'', ''*..........*OOO*'', ''............*OO*'', ''.............***'']"

definition init_mouse_cursor :: "u32 list \<Rightarrow> u32 list option" where
  "init_mouse_cursor mouse =
     stores (map (\<lambda>(y, x, c). (int y * 16 + int x,
       if c = CHR ''*'' then s_COL8_000000 else if c = CHR ''O'' then s_COL8_FFFFFF else 99)) (picture mouse_rows)) mouse"

definition hide_mouse_cursor :: "u32 list \<Rightarrow> u32 list option" where
  "hide_mouse_cursor mouse = stores [(y * 16 + x, 99). y \<leftarrow> [0 .. 15], x \<leftarrow> [0 .. 15]] mouse"

definition closebtn :: "string list" where
  "closebtn = [
    ''OOOOOOOOOOOOOOO@'', ''OQQQQQQQQQQQQQ$@'', ''OQQQQQQQQQQQQQ$@'', ''OQQQ@@QQQQ@@QQ$@'',
    ''OQQQQ@@QQ@@QQQ$@'', ''OQQQQQ@@@@QQQQ$@'', ''OQQQQQQ@@QQQQQ$@'', ''OQQQQQ@@@@QQQQ$@'',
    ''OQQQQ@@QQ@@QQQ$@'', ''OQQQ@@QQQQ@@QQ$@'', ''OQQQQQQQQQQQQQ$@'', ''OQQQQQQQQQQQQQ$@'',
    ''O$$$$$$$$$$$$$$@'', ''@@@@@@@@@@@@@@@@'']"

text \<open>The frame of a window, in the order of the calls of \<open>boxfill\<close>.\<close>

primrec boxes :: "int \<Rightarrow> (u32 \<times> int \<times> int \<times> int \<times> int) list \<Rightarrow> u32 list \<Rightarrow> u32 list option" where
  "boxes xs [] b = Some b"
| "boxes xs (p # ps) b = do { let (c, x0, y0, x1, y1) = p; b \<leftarrow> boxfill b xs c x0 y0 x1 y1; boxes xs ps b }"

definition window_frame :: "int \<Rightarrow> int \<Rightarrow> u32 \<Rightarrow> (u32 \<times> int \<times> int \<times> int \<times> int) list" where
  "window_frame xs ys c = [
     (s_COL8_C6C6C6, 0, 0, xs - 1, 0), (s_COL8_FFFFFF, 1, 1, xs - 2, 1),
     (s_COL8_C6C6C6, 0, 0, 0, ys - 1), (s_COL8_FFFFFF, 1, 1, 1, ys - 2),
     (s_COL8_848484, xs - 2, 1, xs - 2, ys - 2), (s_COL8_000000, xs - 1, 0, xs - 1, ys - 1),
     (c, 2, 2, xs - 3, ys - 3),
     (s_COL8_000084, 3, 3, xs - 4, 20),
     (s_COL8_848484, 1, ys - 2, xs - 2, ys - 2), (s_COL8_000000, 0, ys - 1, xs - 1, ys - 1)]"

definition make_window :: "u8 list list \<Rightarrow> u32 list \<Rightarrow> int \<Rightarrow> int \<Rightarrow> int \<Rightarrow> u8 list \<Rightarrow> u32 list option" where
  "make_window font_data b xs ys editFlg title = do {
     b \<leftarrow> boxes xs (window_frame xs ys (if editFlg = edit_on then s_COL8_000000 else s_COL8_C6C6C6)) b;
     b \<leftarrow> putfonts_asc title font_data b xs 3 3 s_COL8_000084;
     stores (map (\<lambda>(y, x, c). ((5 + int y) * xs + (xs - 21 + int x),
       if c = CHR ''@'' then s_COL8_000000 else if c = CHR ''$'' then s_COL8_848484
       else if c = CHR ''Q'' then s_COL8_C6C6C6 else s_COL8_FFFFFF)) (picture closebtn)) b }"

definition init_screen :: "u32 list \<Rightarrow> int \<Rightarrow> int \<Rightarrow> u32 list option" where
  "init_screen v x y = boxes x [
     (s_COL8_008484, 0, 0, x - 1, y - 29), (s_COL8_C6C6C6, 0, y - 28, x - 1, y - 28),
     (s_COL8_FFFFFF, 0, y - 27, x - 1, y - 27), (s_COL8_C6C6C6, 0, y - 26, x - 1, y - 1),
     (s_COL8_FFFFFF, 3, y - 24, 59, y - 24), (s_COL8_FFFFFF, 2, y - 24, 2, y - 4),
     (s_COL8_848484, 3, y - 4, 59, y - 4), (s_COL8_848484, 59, y - 23, 59, y - 5),
     (s_COL8_000000, 2, y - 3, 59, y - 3), (s_COL8_000000, 60, y - 24, 60, y - 3),
     (s_COL8_848484, x - 47, y - 24, x - 4, y - 24), (s_COL8_848484, x - 47, y - 23, x - 47, y - 4),
     (s_COL8_FFFFFF, x - 47, y - 3, x - 4, y - 3), (s_COL8_FFFFFF, x - 3, y - 24, x - 3, y - 3)] v"

definition get_max_top_sheet :: "SHTCTL \<Rightarrow> nat option" where
  "get_max_top_sheet ctl = sheet_at ctl (ctl_top ctl - 1)"

definition sheet_free :: "nat \<Rightarrow> desktop \<Rightarrow> desktop option" where
  "sheet_free sht d = do {
     ctl \<leftarrow> (if height (sheets0 (shtctl d) sht) \<ge> 0 then sheet_updown sht (-1) (shtctl d) else Some (shtctl d));
     ctl \<leftarrow> Some (upd_sheet sht (\<lambda>s. s\<lparr>flags := 0\<rparr>) ctl);
     let s = sheets0 ctl sht;
     let h = (if picBuf s \<noteq> NULL then free (picBuf s) (heap d) else heap d);
     w \<leftarrow> get_max_top_sheet ctl;
     Some (d\<lparr>shtctl := ctl, heap := free (bufp s) h, m_tmp_sht_win := Some w\<rparr>) }"

text \<open>The size of a text window is rounded up to whole characters; the arithmetic is unsigned.\<close>

definition whole_chars :: "u32 \<Rightarrow> u32 \<Rightarrow> u32 \<Rightarrow> u32" where
  "whole_chars n padding unit =
     (if n < unit + padding then unit + padding
      else let left = (n - padding) mod unit in if left \<noteq> 0 then n + unit - left else n)"

text \<open>\<open>raw\<close> is what the memory of an array of so many pixels holds. A window gets the height of the top sheet, the mouse pointer, and
  so comes to lie below it. There is no sheet to be had when \<open>sheet_alloc\<close> returns a null pointer, which is then dereferenced.\<close>

definition create_win ::
  "u8 list list \<Rightarrow> (nat \<Rightarrow> u32 list) \<Rightarrow> u32 \<Rightarrow> u32 \<Rightarrow> u32 \<Rightarrow> u32 \<Rightarrow> int \<Rightarrow> u8 list \<Rightarrow> desktop \<Rightarrow> (nat option \<times> desktop) option" where
  "create_win font_data raw x y xs ys editFlg title d = do {
     let (sht, ctl) = sheet_alloc (shtctl d);
     let txt = (editFlg = edit_on \<or> editFlg = edit_off);
     let xs = (if txt then whole_chars xs 6 8 else xs);
     let ys = (if txt then whole_chars ys 23 16 else ys);
     let (p, h) = malloc (xs * ys * 4) (heap d);
     if p = NULL then Some (None, d\<lparr>shtctl := ctl, heap := h\<rparr>)
     else do {
       z \<leftarrow> sht;
       let w = uint xs;
       let n = uint ys;
       b \<leftarrow> make_window font_data (raw (unat (xs * ys * 4) div 4)) w n editFlg title;
       let ctl = sheet_setbuf z p b w n (-1) ctl;
       let ctl = upd_sheet z (\<lambda>s. s\<lparr>editFlag := editFlg, cursorx := WIN_LEFT_PADDING, cursory := WIN_TOP_PADDING, picBuf := NULL, zoom_status := -1\<rparr>) ctl;
       ctl \<leftarrow> sheet_slide (sht_back d) z (sint x) (sint y) ctl;
       ctl \<leftarrow> sheet_updown z (ctl_top ctl) ctl;
       Some (Some z, d\<lparr>shtctl := ctl, heap := h, m_tmp_sht_win := Some z\<rparr>) } }"

subsection \<open>Events\<close>

definition isWindowCloseArea :: "SHEET \<Rightarrow> u32 \<Rightarrow> u32 \<Rightarrow> bool" where
  "isWindowCloseArea s nPosX nPosY \<longleftrightarrow>
     (let nMinX = word_of_int (vx0 s + bxsize s - 21); nMaxX = word_of_int (vx0 s + bxsize s - 6);
          nMinY = word_of_int (vy0 s + 5); nMaxY = word_of_int (vy0 s + 18)
      in nPosX \<ge> nMinX \<and> nPosX \<le> nMaxX \<and> nPosY \<ge> nMinY \<and> nPosY \<le> nMaxY)"

definition isWindowTitleArea :: "SHEET \<Rightarrow> u32 \<Rightarrow> int \<Rightarrow> bool" where
  "isWindowTitleArea s nPosX nPosY \<longleftrightarrow>
     (let nMinX = word_of_int (vx0 s); nMaxX = word_of_int (bxsize s) + nMinX - 22; nMinY = vy0 s; nMaxY = 20 + nMinY
      in nPosX \<ge> nMinX \<and> nPosX \<le> nMaxX \<and> nPosY \<ge> nMinY \<and> nPosY \<le> nMaxY)"

definition hit :: "SHEET \<Rightarrow> int \<Rightarrow> int \<Rightarrow> bool" where
  "hit s x y \<longleftrightarrow> x \<ge> vx0 s \<and> x < vx0 s + bxsize s \<and> y \<ge> vy0 s \<and> y < vy0 s + bysize s"

text \<open>The search from below the mouse pointer down to above the background; 0 is no window.\<close>

primrec find_layer :: "nat \<Rightarrow> int \<Rightarrow> int \<Rightarrow> SHTCTL \<Rightarrow> nat option" where
  "find_layer 0 x y ctl = Some 0"
| "find_layer (Suc i) x y ctl = do {
     z \<leftarrow> sheet_at ctl (int (Suc i));
     if hit (sheets0 ctl z) x y then Some (Suc i) else find_layer i x y ctl }"

definition get_current_sheet :: "int \<Rightarrow> int \<Rightarrow> desktop \<Rightarrow> (nat option \<times> desktop) option" where
  "get_current_sheet vmx0 vmy0 d = do {
     let ctl = shtctl d;
     layer \<leftarrow> find_layer (nat (ctl_top ctl - 1)) vmx0 vmy0 ctl;
     if layer \<noteq> 0 then do {
       z \<leftarrow> sheet_at ctl (int layer);
       ctl \<leftarrow> sheet_updown z (ctl_top ctl - 1) ctl;
       Some (Some z, d\<lparr>shtctl := ctl, m_tmp_sht_win := Some z\<rparr>) }
     else Some (None, d) }"

definition slide_sheet :: "nat \<Rightarrow> u32 \<Rightarrow> u32 \<Rightarrow> desktop \<Rightarrow> desktop option" where
  "slide_sheet z x y d = do { ctl \<leftarrow> sheet_slide (sht_back d) z (sint x) (sint y) (shtctl d); Some (d\<lparr>shtctl := ctl\<rparr>) }"

definition win_sheet_slide :: "desktop \<Rightarrow> desktop option" where
  "win_sheet_slide d =
     (let dx = word_of_int (g_nMouseMovTotalX d); dy = word_of_int (g_nMouseMovTotalY d) in
      if s_win_slide_flg d then do {
        d \<leftarrow> slide_sheet (sht_mouse d) (g_nMousePosX d + dx) (g_nMousePosY d + dy) d;
        w \<leftarrow> m_tmp_sht_win d;
        slide_sheet w (g_nWinPosX d + dx) (g_nWinPosY d + dy) d }
      else Some d)"

definition bounded :: "int \<Rightarrow> int \<Rightarrow> int \<Rightarrow> int" where
  "bounded lo hi v = (if v < lo then lo else if v > hi then hi else v)"

text \<open>The button is down on a window: the window can be dragged by its title or is about to be closed.\<close>

definition press :: "nat \<Rightarrow> int \<Rightarrow> int \<Rightarrow> desktop \<Rightarrow> desktop option" where
  "press z x y d = do {
     w \<leftarrow> m_tmp_sht_win d;
     let s = sheets0 (shtctl d) w;
     let px = word_of_int x;
     let py = word_of_int y;
     let t = sheets0 (shtctl d) z;
     let b = sheets0 (shtctl d) (sht_back d);
     let wx = word_of_int (vx0 t);
     let wy = word_of_int (vy0 t);
     Some (
       if isWindowTitleArea s px y then
         d\<lparr>s_win_slide_flg := True, g_nMousePosX := px, g_nMousePosY := py, g_nWinPosX := wx, g_nWinPosY := wy,
           g_nMouseMovMinX := sint (- wx), g_nMouseMovMaxX := sint (word_of_int (bxsize b - 2) - px),
           g_nMouseMovMinY := sint (- wy), g_nMouseMovMaxY := sint (word_of_int (bysize b - 2) - py),
           g_nMouseMovTotalX := 0, g_nMouseMovTotalY := 0\<rparr>
       else if isWindowCloseArea s px py then d\<lparr>s_win_close_flg := True\<rparr>
       else d) }"

text \<open>The button or the finger is up: whether a window is to be closed.\<close>

definition release :: "nat option \<Rightarrow> u32 \<Rightarrow> u32 \<Rightarrow> desktop \<Rightarrow> (nat option \<times> ESheetEvent \<times> desktop) option" where
  "release pTmpSheet px py d =
     (if pTmpSheet = m_tmp_sht_win d \<and> s_win_close_flg d then do {
        w \<leftarrow> m_tmp_sht_win d;
        if isWindowCloseArea (sheets0 (shtctl d) w) px py then Some (pTmpSheet, SheetClosed, d\<lparr>s_win_close_flg := False\<rparr>)
        else Some (None, SheetInvalid, d\<lparr>s_win_close_flg := False\<rparr>) }
      else Some (None, SheetInvalid, d\<lparr>s_win_close_flg := False\<rparr>))"

definition mouse_event ::
  "TMouseEvent \<Rightarrow> u32 \<Rightarrow> int \<Rightarrow> int \<Rightarrow> nat option \<Rightarrow> ESheetEvent \<Rightarrow> desktop \<Rightarrow> (nat option \<times> ESheetEvent \<times> desktop) option" where
  "mouse_event nEvent nButtons nDisplacementX nDisplacementY ppSheet pFlg d =
     (let m = sheets0 (shtctl d) (sht_mouse d) in
      case nEvent of
        MouseEventMouseMove \<Rightarrow>
          if s_win_slide_flg d then
            Some (ppSheet, SheetSelected, d\<lparr>
              g_nMouseMovTotalX := bounded (g_nMouseMovMinX d) (g_nMouseMovMaxX d) (g_nMouseMovTotalX d + nDisplacementX),
              g_nMouseMovTotalY := bounded (g_nMouseMovMinY d) (g_nMouseMovMaxY d) (g_nMouseMovTotalY d + nDisplacementY)\<rparr>)
          else do {
            ctl \<leftarrow> mouse_sheet_slide (sht_back d) (sht_mouse d) nDisplacementX nDisplacementY (shtctl d);
            Some (None, SheetInvalid, d\<lparr>shtctl := ctl\<rparr>) }
      | MouseEventMouseDown \<Rightarrow>
          if nButtons \<noteq> MOUSE_BUTTON_LEFT then Some (None, SheetInvalid, d)
          else do {
            (pTmpSheet, d) \<leftarrow> get_current_sheet (vx0 m) (vy0 m) d;
            case pTmpSheet of
              None \<Rightarrow> Some (None, SheetInvalid, d)
            | Some z \<Rightarrow> do { d \<leftarrow> press z (vx0 m) (vy0 m) d; Some (Some z, SheetSelected, d) } }
      | MouseEventMouseUp \<Rightarrow>
          if nButtons \<noteq> MOUSE_BUTTON_LEFT then Some (None, SheetInvalid, d)
          else do {
            d \<leftarrow> win_sheet_slide d;
            d \<leftarrow> Some (d\<lparr>s_win_slide_flg := False\<rparr>);
            let m = sheets0 (shtctl d) (sht_mouse d);
            (pTmpSheet, d) \<leftarrow> get_current_sheet (vx0 m) (vy0 m) d;
            release pTmpSheet (word_of_int (vx0 m)) (word_of_int (vy0 m)) d }
      | MouseEventUnknown \<Rightarrow> Some (ppSheet, pFlg, d))"

definition touchscreen_event ::
  "ETouchScreenEvent \<Rightarrow> u32 \<Rightarrow> u32 \<Rightarrow> nat option \<Rightarrow> ESheetEvent \<Rightarrow> desktop \<Rightarrow> (nat option \<times> ESheetEvent \<times> desktop) option" where
  "touchscreen_event nEvent nPosX nPosY ppSheet pFlg d =
     (case nEvent of
        FingerMove \<Rightarrow> do {
          w \<leftarrow> m_tmp_sht_win d;
          if current_status (sheets0 (shtctl d) w) = 1 then Some (ppSheet, pFlg, d)
          else if s_win_slide_flg d then do {
            z \<leftarrow> ppSheet;
            d \<leftarrow> slide_sheet z (nPosX - nTouchOffsetXForWin d) (nPosY - nTouchOffsetYForWin d) d;
            Some (ppSheet, pFlg, d) }
          else Some (ppSheet, pFlg, d) }
      | FingerDown \<Rightarrow> do {
          (pTmpSheet, d) \<leftarrow> get_current_sheet (sint nPosX) (sint nPosY) d;
          case pTmpSheet of
            None \<Rightarrow> Some (None, SheetInvalid, d)
          | Some z \<Rightarrow> do {
              w \<leftarrow> m_tmp_sht_win d;
              let s = sheets0 (shtctl d) w;
              Some (Some z, SheetSelected,
                if isWindowTitleArea s nPosX (sint nPosY) then
                  d\<lparr>s_win_slide_flg := True, nTouchOffsetXForWin := nPosX - word_of_int (vx0 s), nTouchOffsetYForWin := nPosY - word_of_int (vy0 s)\<rparr>
                else if isWindowCloseArea s nPosX nPosY then d\<lparr>s_win_close_flg := True\<rparr>
                else d) } }
      | FingerUp \<Rightarrow> do {
          d \<leftarrow> Some (d\<lparr>s_win_slide_flg := False, nTouchOffsetXForWin := 0, nTouchOffsetYForWin := 0\<rparr>);
          (pTmpSheet, d) \<leftarrow> get_current_sheet (sint nPosX) (sint nPosY) d;
          release pTmpSheet nPosX nPosY d }
      | Unknown \<Rightarrow> Some (ppSheet, pFlg, d))"

subsection \<open>Start\<close>

definition sizeof_SHTCTL :: u32 where "sizeof_SHTCTL = 40980"

text \<open>The memory that \<open>malloc\<close> returns is not cleared: the map, the array of pointers and the sheets are those of \<open>ctl\<close>, except for what
  the code sets.\<close>

definition shtctl_init :: "nat \<Rightarrow> nat \<Rightarrow> SHTCTL \<Rightarrow> alloc_state \<Rightarrow> SHTCTL option \<times> alloc_state" where
  "shtctl_init xs ys ctl h =
     (let (p, h) = malloc sizeof_SHTCTL h in
      if p = NULL then (None, h)
      else
        let (q, h) = malloc (of_nat (xs * ys * 4)) h in
        if q = NULL then (None, free p h)
        else (Some (ctl\<lparr>xsize := int xs, ysize := int ys, ctl_top := -1,
                sheets0 := \<lambda>i. if i < MAX_SHEETS then (sheets0 ctl i)\<lparr>flags := 0\<rparr> else sheets0 ctl i\<rparr>), h))"

definition graphic_init :: "bool \<Rightarrow> (nat \<Rightarrow> u32 list) \<Rightarrow> ptr \<Rightarrow> u32 list \<Rightarrow> SHTCTL \<Rightarrow> desktop \<Rightarrow> (bool \<times> desktop) option" where
  "graphic_init bWithMouse raw mouse_addr buf_mouse ctl d = do {
     let w = CFG_DISP_PRI_RESOL_WIDTH;
     let n = CFG_DISP_PRI_RESOL_HEIGHT;
     let (r, h) = shtctl_init w n ctl (heap d);
     ctl \<leftarrow> r;
     let (back, ctl) = sheet_alloc ctl;
     let (mouse, ctl) = sheet_alloc ctl;
     back \<leftarrow> back;
     mouse \<leftarrow> mouse;
     let (p, h) = malloc (of_nat (w * n * 4)) h;
     let d = d\<lparr>sht_back := back, sht_mouse := mouse, heap := h\<rparr>;
     if p = NULL then Some (False, d\<lparr>shtctl := ctl\<rparr>)
     else do {
       b \<leftarrow> init_screen (raw (w * n)) (int w) (int n);
       m \<leftarrow> init_mouse_cursor buf_mouse;
       m \<leftarrow> (if bWithMouse then Some m else hide_mouse_cursor m);
       let ctl = sheet_setbuf back p b (int w) (int n) (-1) ctl;
       let ctl = sheet_setbuf mouse mouse_addr m 16 16 99 ctl;
       let ctl = upd_sheet back (\<lambda>s. s\<lparr>editFlag := edit_off\<rparr>) ctl;
       ctl \<leftarrow> sheet_slide back back 0 0 ctl;
       ctl \<leftarrow> sheet_slide back mouse ((int w - 16) div 2) ((int n - 28 - 16) div 2) ctl;
       ctl \<leftarrow> sheet_updown back 0 ctl;
       ctl \<leftarrow> sheet_updown mouse 1 ctl;
       Some (True, d\<lparr>shtctl := ctl\<rparr>) } }"

end
