(* ===== verification/WindowProps.thy ===== *)
theory WindowProps
  imports SheetProps Window "HOL-Library.Multiset"
begin

text \<open>
  Correctness of the desktop: what is drawn into the array of a window stays inside of it, text output keeps the cursor on the grid of
  characters and the screen up to date, events move windows as the finger does, and the order of the windows is kept between the
  background and the mouse pointer.
\<close>

section \<open>Drawing\<close>

text \<open>Two arrays of pixels that differ only in a rectangle.\<close>

definition only_in :: "int \<Rightarrow> int \<times> int \<times> int \<times> int \<Rightarrow> u32 list \<Rightarrow> u32 list \<Rightarrow> bool" where
  "only_in w r b b' \<longleftrightarrow> length b' = length b \<and>
     (\<forall>x y. 0 \<le> x \<longrightarrow> x < w \<longrightarrow> 0 \<le> y \<longrightarrow> \<not> in_area r x y \<longrightarrow> b' ! nat (y * w + x) = b ! nat (y * w + x))"

text \<open>A rectangle inside of an array of \<open>w * n\<close> pixels.\<close>

definition rect_ok :: "int \<Rightarrow> int \<Rightarrow> int \<times> int \<times> int \<times> int \<Rightarrow> bool" where
  "rect_ok w n r \<longleftrightarrow> (case r of (x0, y0, x1, y1) \<Rightarrow> 0 \<le> x0 \<and> x1 \<le> w \<and> 0 \<le> y0 \<and> y1 \<le> n)"

lemma only_in_refl: "only_in w r b b" by (simp add: only_in_def)

lemma only_in_trans: "only_in w r a b \<Longrightarrow> only_in w r b c \<Longrightarrow> only_in w r a c" by (auto simp: only_in_def)

lemma only_in_length: "only_in w r a b \<Longrightarrow> length b = length a" by (simp add: only_in_def)

lemma only_inD: "only_in w r b b' \<Longrightarrow> 0 \<le> x \<Longrightarrow> x < w \<Longrightarrow> 0 \<le> y \<Longrightarrow> b' ! nat (y * w + x) \<noteq> b ! nat (y * w + x) \<Longrightarrow> in_area r x y"
  by (auto simp: only_in_def)

lemma pixel_index:
  fixes w :: int
  assumes "rect_ok w n r" "in_area r x y"
  shows "0 \<le> y * w + x" "y * w + x < w * n" "0 \<le> x" "x < w"
proof -
  have h: "0 \<le> x" "x < w" "0 \<le> y" "y + 1 \<le> n" using assms by (auto simp: rect_ok_def in_area_def)
  then have "(y + 1) * w \<le> n * w" by (intro mult_right_mono) auto
  then show "y * w + x < w * n" using h by (simp add: algebra_simps)
qed (use assms in \<open>auto simp: rect_ok_def in_area_def\<close>)

lemma store_in:
  assumes "rect_ok w n r" "in_area r x y" "length b = nat (w * n)"
  shows "\<exists>b'. store (y * w + x) c b = Some b' \<and> only_in w r b b'"
proof -
  note p = pixel_index [OF assms(1,2)]
  have "nat (y * w + x) < length b" using p(1,2) assms(3) by (simp add: nat_less_eq_zless)
  moreover have "nat (v * w + u) \<noteq> nat (y * w + x)" if "0 \<le> u" "u < w" "0 \<le> v" "\<not> in_area r u v" for u v
  proof
    assume "nat (v * w + u) = nat (y * w + x)"
    moreover have "0 \<le> v * w + u" using that(1,2,3) by simp
    ultimately have "v * w + u = y * w + x" using p(1) by simp
    then show False using row_inj [OF that(1,2) p(3,4)] assms(2) that(4) by blast
  qed
  ultimately show ?thesis using p(1) by (auto simp: store_def only_in_def) (metis nth_list_update_neq)
qed

lemma stores_in:
  assumes "rect_ok w n r" "length b = nat (w * n)" "\<And>p. p \<in> set ps \<Longrightarrow> \<exists>x y. in_area r x y \<and> fst p = y * w + x"
  shows "\<exists>b'. stores ps b = Some b' \<and> only_in w r b b'"
  using assms(2,3)
proof (induction ps arbitrary: b)
  case Nil
  then show ?case by (simp add: only_in_refl)
next
  case (Cons p ps)
  obtain x y where "in_area r x y" "fst p = y * w + x" using Cons.prems(2) [of p] by auto
  then obtain b1 where b1: "store (fst p) (snd p) b = Some b1" "only_in w r b b1" using store_in [OF assms(1) _ Cons.prems(1)] by metis
  have "length b1 = nat (w * n)" using only_in_length [OF b1(2)] Cons.prems(1) by simp
  then obtain b2 where "stores ps b1 = Some b2" "only_in w r b1 b2" using Cons.IH [of b1] Cons.prems(2) by auto
  then show ?case using b1 only_in_trans by auto
qed

lemma rows_in:
  "p \<in> set [(y * w + x, c). y \<leftarrow> [y0 .. y1 - 1], x \<leftarrow> [x0 .. x1 - 1]] \<Longrightarrow> \<exists>x y. in_area (x0, y0, x1, y1) x y \<and> fst p = y * w + x"
  "p \<in> set [(x + y * w, c). y \<leftarrow> [y0 .. y1 - 1], x \<leftarrow> [x0 .. x1 - 1]] \<Longrightarrow> \<exists>x y. in_area (x0, y0, x1, y1) x y \<and> fst p = y * w + x"
  by (auto simp: in_area_def) (metis add.commute)+

lemma fill_in:
  assumes "rect_ok w n (x0, y0, x1, y1)" "length b = nat (w * n)"
  shows "\<exists>b'. stores [(y * w + x, c). y \<leftarrow> [y0 .. y1 - 1], x \<leftarrow> [x0 .. x1 - 1]] b = Some b' \<and> only_in w (x0, y0, x1, y1) b b'"
  by (rule stores_in [OF assms]) (rule rows_in(1))

lemma copy_in:
  assumes "rect_ok w n r" "length b = nat (w * n)"
    "\<And>p. p \<in> set ps \<Longrightarrow> \<exists>x y. in_area r x y \<and> fst p = y * w + x \<and> 0 \<le> snd p \<and> snd p < w * n"
  shows "\<exists>b'. copy_loop ps b = Some b' \<and> only_in w r b b'"
  using assms(2,3)
proof (induction ps arbitrary: b)
  case Nil
  then show ?case by (simp add: only_in_refl)
next
  case (Cons p ps)
  obtain x y where p: "in_area r x y" "fst p = y * w + x" "0 \<le> snd p" "snd p < w * n" using Cons.prems(2) [of p] by auto
  have f: "fetch (snd p) b = Some (b ! nat (snd p))" using p(3,4) Cons.prems(1) by (simp add: fetch_def)
  obtain b1 where b1: "store (fst p) (b ! nat (snd p)) b = Some b1" "only_in w r b b1" using store_in [OF assms(1) p(1) Cons.prems(1)] p(2) by metis
  have "length b1 = nat (w * n)" using only_in_length [OF b1(2)] Cons.prems(1) by simp
  then obtain b2 where "copy_loop ps b1 = Some b2" "only_in w r b1 b2" using Cons.IH [of b1] Cons.prems(2) by auto
  then show ?case using b1 f only_in_trans by auto
qed


section \<open>Text\<close>

text \<open>The font has a row of sixteen bytes for each character from \<open>0x21\<close> on; there is no picture of the control characters.\<close>

definition font_ok :: "u8 list list \<Rightarrow> bool" where
  "font_ok font_data \<longleftrightarrow> length font_data = 223 \<and> (\<forall>row \<in> set font_data. length row = 16)"

definition printable :: "u8 \<Rightarrow> bool" where
  "printable ch \<longleftrightarrow> ch = 0 \<or> ch = 0x0A \<or> 0x20 \<le> ch"

lemma unat_char: "unat (ucast (ch :: u8) :: u32) = unat ch"
  using unsigned_less [of ch, where ?'a = nat] by (simp add: unsigned_ucast_eq take_bit_eq_mod)

lemma get_pixel_total:
  assumes "font_ok fd" "0x21 \<le> ch" "y < 16"
  shows "\<exists>f. GetPixel fd ch x y = Some f"
proof -
  have "unat ch < 256" using unsigned_less [of ch, where ?'a = nat] by simp
  moreover have "33 \<le> unat ch" using assms(2) by (simp add: word_le_nat_alt)
  ultimately have i: "unat ((ucast ch :: u32) - 0x21) = unat ch - 33" "unat ch - 33 < length fd"
    using assms(1) by (simp_all add: unat_sub word_le_nat_alt unat_char font_ok_def)
  then have "y < length (fd ! (unat ch - 33))" using assms(1,3) by (simp add: font_ok_def)
  then show ?thesis using i by (simp add: GetPixel_def)
qed

lemma get_pixel_control:
  assumes "font_ok fd" "ch < 0x21"
  shows "GetPixel fd ch x y = None"
proof -
  have "unat ch < 33" using assms(2) by (simp add: word_less_nat_alt)
  then have "\<not> unat ((ucast ch :: u32) - 0x21) < 223"
    by (simp add: word_le_nat_alt unat_char unat_sub_if_size word_size)
  then show ?thesis using assms(1) by (simp add: GetPixel_def font_ok_def rd_def)
qed

lemma font_in:
  assumes "rect_ok w n r" "font_ok fd" "0x21 \<le> ch" "length b = nat (w * n)"
    "\<And>p. p \<in> set ps \<Longrightarrow> fst p < 16 \<and> in_area r (x + int (snd p)) (y + int (fst p))"
  shows "\<exists>b'. font_loop fd ps w x y c ch b = Some b' \<and> only_in w r b b'"
  using assms(4,5)
proof (induction ps arbitrary: b)
  case Nil
  then show ?case by (simp add: only_in_refl)
next
  case (Cons p ps)
  obtain f where f: "GetPixel fd ch (snd p) (fst p) = Some f" using get_pixel_total [OF assms(2,3)] Cons.prems(2) by (metis list.set_intros(1))
  let ?i = "(y + int (fst p)) * w + x + int (snd p)" and ?c = "if f then s_COL8_FFFFFF else c"
  have "?i = (y + int (fst p)) * w + (x + int (snd p))" by simp
  then obtain b1 where b1: "store ?i ?c b = Some b1" "only_in w r b b1"
    using store_in [OF assms(1) _ Cons.prems(1)] Cons.prems(2) by (metis list.set_intros(1))
  have "length b1 = nat (w * n)" using only_in_length [OF b1(2)] Cons.prems(1) by simp
  then obtain b2 where "font_loop fd ps w x y c ch b1 = Some b2" "only_in w r b1 b2" using Cons.IH [of b1] Cons.prems(2) by auto
  then show ?case using b1 f only_in_trans by auto
qed

lemma putfont_in:
  assumes "rect_ok w n (x, y, x + 8, y + 16)" "font_ok fd" "0x20 \<le> ch" "length b = nat (w * n)"
  shows "\<exists>b'. putfont fd b w x y c ch = Some b' \<and> only_in w (x, y, x + 8, y + 16) b b'"
proof (cases "ch = 0x20")
  case True
  have "\<exists>b'. stores [((y + v) * w + x + u, c). v \<leftarrow> [0 .. 15], u \<leftarrow> [0 .. 7]] b = Some b' \<and> only_in w (x, y, x + 8, y + 16) b b'"
  proof (rule stores_in [OF assms(1,4)])
    fix p
    assume "p \<in> set [((y + v) * w + x + u, c). v \<leftarrow> [0 .. 15], u \<leftarrow> [0 .. 7]]"
    then obtain u v where "p = ((y + v) * w + x + u, c)" "0 \<le> v" "v \<le> 15" "0 \<le> u" "u \<le> 7" by auto
    then show "\<exists>u v. in_area (x, y, x + 8, y + 16) u v \<and> fst p = v * w + u"
      by (intro exI [of _ "x + u"] exI [of _ "y + v"]) (simp add: in_area_def)
  qed
  then show ?thesis using True by (simp add: putfont_def WORD_WIDTH_def WORD_HEIGHT_def)
next
  case False
  have "0x21 \<le> ch" using False assms(3) by (simp add: word_le_nat_alt word_unat_eq_iff)
  from font_in [OF assms(1,2) this assms(4), of "List.product [0..<16] [0..<8]" x y c] show ?thesis
    using False by (auto simp: putfont_def in_area_def WORD_WIDTH_def WORD_HEIGHT_def simp del: upt_rec)
qed


text \<open>After drawing into a rectangle of an opaque sheet, a refresh of the rectangle brings the screen up to date.\<close>

lemma redraw:
  assumes di: "displayed ctl zs" and z: "z \<in> set zs" "col_inv (sheets0 ctl z) = -1"
    and b: "only_in (bxsize (sheets0 ctl z)) (x0, y0, x1, y1) (buf (sheets0 ctl z)) b"
  shows "\<exists>ctl'. sheet_refresh z x0 y0 x1 y1 (set_buf z b ctl) = Some ctl' \<and> displayed ctl' zs \<and>
    sheets0 ctl' = (sheets0 ctl)(z := (sheets0 ctl z)\<lparr>buf := b\<rparr>)"
proof -
  let ?s = "sheets0 ctl z" and ?c = "set_buf z b ctl"
  let ?a = "(vx0 ?s + x0, vy0 ?s + y0, vx0 ?s + x1, vy0 ?s + y1)"
  obtain us vs where zs: "zs = us @ z # vs" using z(1) by (meson split_list)
  have S: "sheets0 ?c = (sheets0 ctl)(z := ?s\<lparr>buf := b\<rparr>)" by (simp add: set_buf_def upd_sheet_def)
  have st: "stack ?c zs" "composed ctl zs" using di by (auto simp: displayed_def stack_def set_buf_def upd_sheet_def)
  have k: "height ?s = int (length us)" "length us + 1 \<le> length zs" using di by (simp_all add: displayed_def zs stack_levels)
  obtain ctl' where C: "sheet_refreshsub (vx0 ?s + x0) (vy0 ?s + y0) (vx0 ?s + x1) (vy0 ?s + y1) (int (length us)) (int (length us + 1) - 1) ?c = Some ctl'"
    "same_sheets ?c ctl'" "\<And>x y. in_area (screen ?c) x y \<Longrightarrow> draw_done ?c zs ?a (take 1 (drop (length us) zs)) ctl' x y"
    using refreshsub_spec [OF st(1) k(2)] by blast
  have cov: "covers (sheets0 ?c i) x y = covers (sheets0 ctl i) x y" for i x y using z(2) by (simp add: S covers_def inside_def)
  have top: "topmost (sheets0 ?c) zs x y = topmost (sheets0 ctl) zs x y" for x y by (rule topmost_cong) (rule cov)
  note top' = top [unfolded S]
  have sn: "seen ?c = seen ctl" "shown ?c = shown ctl" "screen ?c = screen ctl" by (simp_all add: set_buf_def moved_others)
  have "pixel_ok ctl' zs x y" if xy: "in_area (screen ctl) x y" for x y
  proof -
    have ok: "pixel_ok ctl zs x y" using st(2) xy by (simp add: composed_def)
    have s: "seen_ok ?c zs x y" using ok by (simp add: seen_ok_def top sn)
    have "shown_ok ?c zs x y \<or> in_area ?a x y \<and> (\<exists>i \<in> set (take 1 (drop (length us) zs)). topmost (sheets0 ?c) zs x y = Some i)"
    proof (cases "topmost (sheets0 ctl) zs x y = Some z \<and> \<not> shown_ok ?c zs x y")
      case True
      then have i: "inside ?s x y" "colour (?s\<lparr>buf := b\<rparr>) x y \<noteq> colour ?s x y"
        using topmost_Some [of "sheets0 ctl" zs x y z] ok by (auto simp: covers_def shown_ok_def top' sn S)
      then have "in_area (x0, y0, x1, y1) (x - vx0 ?s) (y - vy0 ?s)" using only_inD [OF b, of "x - vx0 ?s" "y - vy0 ?s"] by (simp add: inside_def colour_def)
      moreover have "take 1 (drop (length us) zs) = [z]" by (simp add: zs)
      ultimately show ?thesis using True by (auto simp: in_area_def top' S)
    next
      case False
      then show ?thesis using ok by (auto simp: shown_ok_def top' sn S)
    qed
    then show ?thesis using C(3) [of x y] xy s unfolding sn(3) draw_done_def by blast
  qed
  then have "composed ctl' zs" using same_sheetsD(1) [OF C(2)] unfolding composed_def sn(3) by simp
  moreover have "sheet_refresh z x0 y0 x1 y1 ?c = Some ctl'" using C(1) k(1) by (simp add: sheet_refresh_def S Let_def)
  ultimately show ?thesis using same_sheetsD(2,3) [OF C(2)] st(1) S by (simp add: displayed_def)
qed

lemma redraw_same:
  assumes "displayed ctl zs" "z \<in> set zs" "col_inv (sheets0 ctl z) = -1"
  shows "\<exists>ctl'. sheet_refresh z x0 y0 x1 y1 ctl = Some ctl' \<and> displayed ctl' zs \<and> sheets0 ctl' = sheets0 ctl"
  using redraw [OF assms only_in_refl, of x0 y0 x1 y1] by (simp add: set_buf_def upd_sheet_def)

lemma cursor_displayed: "displayed ctl zs \<Longrightarrow> displayed (set_cursor z x y ctl) zs"
proof -
  have "topmost (sheets0 (set_cursor z x y ctl)) zs u v = topmost (sheets0 ctl) zs u v" for u v
    by (rule topmost_cong) (simp add: set_cursor_def upd_sheet_def covers_def inside_def colour_def)
  then show "displayed ctl zs \<Longrightarrow> displayed (set_cursor z x y ctl) zs"
    by (auto simp: displayed_def stack_def composed_def seen_ok_def shown_ok_def seen_def shown_def vram_at_def colour_def set_cursor_def upd_sheet_def)
qed

lemma cursor_sheet: "sheets0 (set_cursor z x y ctl) = (sheets0 ctl)(z := (sheets0 ctl z)\<lparr>cursorx := x, cursory := y\<rparr>)"
  by (simp add: set_cursor_def upd_sheet_def)

text \<open>A text window with its cursor on a place of the grid of characters, and the changes that writing may make to it.\<close>

definition text_win :: "SHEET \<Rightarrow> bool" where
  "text_win s \<longleftrightarrow> col_inv s = -1 \<and> length (buf s) = nat (bxsize s * bysize s) \<and> 8 dvd bxsize s - 6 \<and> 16 dvd bysize s - 23"

definition cursor_at :: "SHEET \<Rightarrow> int \<Rightarrow> int \<Rightarrow> bool" where
  "cursor_at s x y \<longleftrightarrow> 3 \<le> x \<and> x + 8 \<le> bxsize s - 3 \<and> 8 dvd x - 3 \<and> 21 \<le> y \<and> y + 16 \<le> bysize s - 2 \<and> 16 dvd y - 21"

definition text_step :: "nat \<Rightarrow> nat list \<Rightarrow> SHTCTL \<Rightarrow> SHTCTL \<Rightarrow> bool" where
  "text_step z zs ctl ctl' \<longleftrightarrow> displayed ctl' zs \<and> (\<exists>b x y. length b = length (buf (sheets0 ctl z)) \<and> cursor_at (sheets0 ctl z) x y \<and>
     sheets0 ctl' = (sheets0 ctl)(z := (sheets0 ctl z)\<lparr>buf := b, cursorx := x, cursory := y\<rparr>))"


lemmas paddings = WIN_TOP_PADDING_def WIN_LEFT_PADDING_def WIN_RIGHT_PADDING_def WIN_BOTTOM_PADDING_def WORD_WIDTH_def WORD_HEIGHT_def

lemma text_stepI:
  assumes "displayed ctl' zs" "sheets0 ctl' = (sheets0 ctl)(z := (sheets0 ctl z)\<lparr>buf := b\<rparr>)" "length b = length (buf (sheets0 ctl z))"
    "cursor_at (sheets0 ctl z) x y"
  shows "text_step z zs ctl (set_cursor z x y ctl')"
  using assms by (auto simp: text_step_def cursor_sheet intro!: cursor_displayed)

lemma draw_cursor_ok:
  assumes di: "displayed ctl zs" "z \<in> set zs" and t: "text_win (sheets0 ctl z)" "rect_ok (bxsize (sheets0 ctl z)) (bysize (sheets0 ctl z)) (x0, y0, x1, y1)"
  shows "\<exists>ctl' b. draw_cursor z c x0 y0 x1 y1 ctl = Some ctl' \<and> displayed ctl' zs \<and> length b = length (buf (sheets0 ctl z)) \<and>
    sheets0 ctl' = (sheets0 ctl)(z := (sheets0 ctl z)\<lparr>buf := b\<rparr>)"
proof -
  let ?s = "sheets0 ctl z"
  have "length (buf ?s) = nat (bxsize ?s * bysize ?s)" "col_inv ?s = -1" using t(1) by (simp_all add: text_win_def)
  then obtain b where b: "stores [(y * bxsize ?s + x, c). y \<leftarrow> [y0 .. y1 - 1], x \<leftarrow> [x0 .. x1 - 1]] (buf ?s) = Some b"
    "only_in (bxsize ?s) (x0, y0, x1, y1) (buf ?s) b" using fill_in [OF t(2)] by blast
  then show ?thesis using redraw [OF di _ b(2)] only_in_length [OF b(2)] t(1) unfolding draw_cursor_def text_win_def by fastforce
qed

lemma roll_ok:
  assumes di: "displayed ctl zs" "z \<in> set zs" and t: "text_win (sheets0 ctl z)" "14 \<le> bxsize (sheets0 ctl z)" "39 \<le> bysize (sheets0 ctl z)"
  shows "\<exists>ctl'. rollScreen z ctl = Some ctl' \<and> text_step z zs ctl ctl'"
proof -
  let ?s = "sheets0 ctl z" and ?w = "bxsize (sheets0 ctl z)" and ?n = "bysize (sheets0 ctl z)"
  let ?r = "(3, 21, ?w - 3, ?n - 2)" and ?xs = "[3 .. ?w - 3 - 1]"
  have l: "length (buf ?s) = nat (?w * ?n)" "col_inv ?s = -1" using t(1) by (simp_all add: text_win_def)
  have r: "rect_ok ?w ?n ?r" using t by (simp add: rect_ok_def)
  have "\<exists>b1. copy_loop [(x + y * ?w, x + (y + 16) * ?w). y \<leftarrow> [21 .. ?n - 2 - 16 - 1], x \<leftarrow> ?xs] (buf ?s) = Some b1 \<and> only_in ?w ?r (buf ?s) b1"
  proof (rule copy_in [OF r l(1)])
    fix p
    assume "p \<in> set [(x + y * ?w, x + (y + 16) * ?w). y \<leftarrow> [21 .. ?n - 2 - 16 - 1], x \<leftarrow> ?xs]"
    then obtain x y where p: "p = (x + y * ?w, x + (y + 16) * ?w)" "21 \<le> y" "y \<le> ?n - 19" "3 \<le> x" "x \<le> ?w - 4" by auto
    then have "in_area ?r x y" "in_area ?r x (y + 16)" by (simp_all add: in_area_def)
    then show "\<exists>x y. in_area ?r x y \<and> fst p = y * ?w + x \<and> 0 \<le> snd p \<and> snd p < ?w * ?n"
      using pixel_index [OF r, of x "y + 16"] p(1) by (intro exI [of _ x] exI [of _ y]) (simp add: add.commute)
  qed
  then obtain b1 where b1: "copy_loop [(x + y * ?w, x + (y + 16) * ?w). y \<leftarrow> [21 .. ?n - 2 - 16 - 1], x \<leftarrow> ?xs] (buf ?s) = Some b1"
    "only_in ?w ?r (buf ?s) b1" by blast
  have "\<exists>b2. stores [(x + y * ?w, s_COL8_000000). y \<leftarrow> [?n - 2 - 16 .. ?n - 2 - 1], x \<leftarrow> ?xs] b1 = Some b2 \<and> only_in ?w ?r b1 b2"
  proof (rule stores_in [OF r])
    fix p
    assume "p \<in> set [(x + y * ?w, s_COL8_000000). y \<leftarrow> [?n - 2 - 16 .. ?n - 2 - 1], x \<leftarrow> ?xs]"
    then have "\<exists>x y. in_area (3, ?n - 2 - 16, ?w - 3, ?n - 2) x y \<and> fst p = y * ?w + x" by (rule rows_in(2))
    then show "\<exists>x y. in_area ?r x y \<and> fst p = y * ?w + x" using t(3) by (auto simp: in_area_def)
  qed (simp add: only_in_length [OF b1(2)] l)
  then obtain b2 where b2: "stores [(x + y * ?w, s_COL8_000000). y \<leftarrow> [?n - 2 - 16 .. ?n - 2 - 1], x \<leftarrow> ?xs] b1 = Some b2" "only_in ?w ?r b1 b2" by blast
  obtain ctl' where c: "sheet_refresh z 3 21 (?w - 3) (?n - 2) (set_buf z b2 ctl) = Some ctl'" "displayed ctl' zs"
    "sheets0 ctl' = (sheets0 ctl)(z := ?s\<lparr>buf := b2\<rparr>)" using redraw [OF di l(2) only_in_trans [OF b1(2) b2(2)]] by blast
  have "16 dvd ?n - 23" using t(1) by (simp add: text_win_def)
  then have "16 dvd ?n - 2 - 16 - 21" by presburger
  then have "text_step z zs ctl (set_cursor z 3 (?n - 2 - 16) ctl')"
    using t only_in_length [OF b1(2)] only_in_length [OF b2(2)] by (intro text_stepI [OF c(2,3)]) (simp_all add: cursor_at_def)
  moreover have "rollScreen z ctl = Some (set_cursor z 3 (?n - 2 - 16) ctl')"
    using b1(1) b2(1) c(1) by (simp add: rollScreen_def paddings Let_def)
  ultimately show ?thesis by blast
qed


lemma text_step_after:
  assumes "sheets0 c = (sheets0 ctl)(z := (sheets0 ctl z)\<lparr>buf := b, cursorx := x, cursory := y\<rparr>)" "length b = length (buf (sheets0 ctl z))"
    "text_step z zs c ctl'"
  shows "text_step z zs ctl ctl'"
  using assms by (auto simp: text_step_def cursor_at_def)

lemma text_step_win:
  assumes "text_step z zs ctl ctl'" "text_win (sheets0 ctl z)"
  shows "text_win (sheets0 ctl' z)" "cursor_at (sheets0 ctl' z) (cursorx (sheets0 ctl' z)) (cursory (sheets0 ctl' z))" "displayed ctl' zs"
    "i \<noteq> z \<Longrightarrow> sheets0 ctl' i = sheets0 ctl i" "bxsize (sheets0 ctl' z) = bxsize (sheets0 ctl z)" "bysize (sheets0 ctl' z) = bysize (sheets0 ctl z)"
  using assms by (auto simp: text_step_def text_win_def cursor_at_def)

lemma newline_ok:
  assumes di: "displayed ctl zs" "z \<in> set zs" and t: "text_win (sheets0 ctl z)"
    and c: "cursor_at (sheets0 ctl z) (cursorx (sheets0 ctl z)) (cursory (sheets0 ctl z))"
  shows "\<exists>ctl' n'. write_char fd z back 0x0A (ctl, n) = Some (ctl', n') \<and> text_step z zs ctl ctl'"
proof -
  let ?s = "sheets0 ctl z" let ?x = "cursorx ?s" and ?y = "cursory ?s"
  have r: "rect_ok (bxsize ?s) (bysize ?s) (?x, ?y, ?x + 8, ?y + 16)" using c by (auto simp: cursor_at_def rect_ok_def)
  obtain c1 b where c1: "draw_cursor z s_COL8_000000 ?x ?y (?x + 8) (?y + 16) ctl = Some c1" "displayed c1 zs" "length b = length (buf ?s)"
    "sheets0 c1 = (sheets0 ctl)(z := ?s\<lparr>buf := b\<rparr>)" using draw_cursor_ok [OF di t r] by blast
  have "col_inv (sheets0 c1 z) = -1" using t by (simp add: c1(4) text_win_def)
  then obtain c2 where c2: "sheet_refresh z ?x ?y (?x + 8) (?y + 16) c1 = Some c2" "displayed c2 zs" "sheets0 c2 = sheets0 c1"
    using redraw_same [OF c1(2) di(2)] by blast
  have s2: "sheets0 c2 = (sheets0 ctl)(z := ?s\<lparr>buf := b, cursorx := ?x, cursory := ?y\<rparr>)" by (simp add: c2(3) c1(4))
  have t2: "text_win (sheets0 c2 z)" "14 \<le> bxsize (sheets0 c2 z)" "39 \<le> bysize (sheets0 c2 z)"
    using t c c1(3) by (simp_all add: s2 text_win_def cursor_at_def)
  show ?thesis
  proof (cases "?y = bysize ?s - 18")
    case True
    obtain c3 where "rollScreen z c2 = Some c3" "text_step z zs c2 c3" using roll_ok [OF c2(2) di(2) t2] by blast
    then show ?thesis using c1(1) c2(1) True text_step_after [OF s2 c1(3)] by (auto simp: write_char_def paddings Let_def)
  next
    case False
    have "16 dvd bysize ?s - 23" "16 dvd ?y - 21" "?y + 16 \<le> bysize ?s - 2" "21 \<le> ?y" using t c by (simp_all add: text_win_def cursor_at_def)
    then have "?y + 16 + 16 \<le> bysize ?s - 2" "16 dvd ?y + 16 - 21" using False by presburger+
    then have "cursor_at ?s 3 (?y + 16)" using t c by (simp add: cursor_at_def)
    then have "text_step z zs ctl (set_cursor z 3 (?y + 16) c2)" by (rule text_stepI [OF c2(2) c2(3) [unfolded c1(4)] c1(3)])
    then show ?thesis using c1(1) c2(1) False by (simp add: write_char_def paddings Let_def)
  qed
qed


lemma put_char_in:
  assumes "rect_ok w n (x, y, x + 8, y + 16)" "font_ok fd" "ch = 0 \<or> 0x20 \<le> ch" "length b = nat (w * n)"
  shows "\<exists>b'. putfonts_asc [ch, 0] fd b w x y c = Some b' \<and> only_in w (x, y, x + 8, y + 16) b b'"
proof (cases "ch = 0")
  case True
  then show ?thesis by (simp add: only_in_refl)
next
  case False
  then obtain b' where "putfont fd b w x y c ch = Some b'" "only_in w (x, y, x + 8, y + 16) b b'" using putfont_in [OF assms(1,2) _ assms(4)] assms(3) by blast
  then show ?thesis using False by simp
qed

lemma char_ok:
  assumes di: "displayed ctl zs" "z \<in> set zs" and t: "text_win (sheets0 ctl z)" and f: "font_ok fd" "ch = 0 \<or> 0x20 \<le> ch"
    and c: "cursor_at (sheets0 ctl z) (cursorx (sheets0 ctl z)) (cursory (sheets0 ctl z))"
  shows "\<exists>ctl' n'. write_char fd z back ch (ctl, n) = Some (ctl', n') \<and> text_step z zs ctl ctl'"
proof -
  let ?s = "sheets0 ctl z" let ?x = "cursorx ?s" and ?y = "cursory ?s"
  have l: "length (buf ?s) = nat (bxsize ?s * bysize ?s)" "col_inv ?s = -1" "ch \<noteq> 0x0A" using t f(2) by (auto simp: text_win_def)
  have r: "rect_ok (bxsize ?s) (bysize ?s) (?x, ?y, ?x + 8, ?y + 16)" using c by (auto simp: cursor_at_def rect_ok_def)
  obtain b where b: "putfonts_asc [ch, 0] fd (buf ?s) (bxsize ?s) ?x ?y back = Some b" "only_in (bxsize ?s) (?x, ?y, ?x + 8, ?y + 16) (buf ?s) b"
    using put_char_in [OF r f l(1)] by blast
  obtain c1 where c1: "sheet_refresh z ?x ?y (?x + 8) (?y + 16) (set_buf z b ctl) = Some c1" "displayed c1 zs"
    "sheets0 c1 = (sheets0 ctl)(z := ?s\<lparr>buf := b\<rparr>)" using redraw [OF di l(2) b(2)] by blast
  note lb = only_in_length [OF b(2)]
  have d: "8 dvd bxsize ?s - 6" "16 dvd bysize ?s - 23" "8 dvd ?x - 3" "16 dvd ?y - 21" "?x + 8 \<le> bxsize ?s - 3" "?y + 16 \<le> bysize ?s - 2" "3 \<le> ?x" "21 \<le> ?y"
    using t c by (simp_all add: text_win_def cursor_at_def)
  show ?thesis
  proof (cases "?x + 8 = bxsize ?s - 3")
    case False
    then have "?x + 8 + 8 \<le> bxsize ?s - 3" "8 dvd ?x + 8 - 3" using d(1,3,5) by presburger+
    then have "cursor_at ?s (?x + 8) ?y" using c by (simp add: cursor_at_def)
    then have "text_step z zs ctl (set_cursor z (?x + 8) ?y c1)" by (rule text_stepI [OF c1(2,3) lb])
    then show ?thesis using False b(1) c1(1) l(3) by (simp add: write_char_def paddings Let_def)
  next
    case x: True
    let ?c = "set_cursor z 3 (?y + 16) c1"
    have s2: "sheets0 ?c = (sheets0 ctl)(z := ?s\<lparr>buf := b, cursorx := 3, cursory := ?y + 16\<rparr>)" by (simp add: cursor_sheet c1(3))
    show ?thesis
    proof (cases "?y + 16 = bysize ?s - 2")
      case True
      have t2: "text_win (sheets0 ?c z)" "14 \<le> bxsize (sheets0 ?c z)" "39 \<le> bysize (sheets0 ?c z)"
        using t lb d by (simp_all add: s2 text_win_def)
      obtain c3 where c3: "rollScreen z ?c = Some c3" "text_step z zs ?c c3" using roll_ok [OF cursor_displayed [OF c1(2)] di(2) t2] by blast
      have "write_char fd z back ch (ctl, n) = Some (c3, n + 1)"
        using x True b(1) l(3) by (simp add: write_char_def paddings Let_def c1(1) c3(1))
      then show ?thesis using text_step_after [OF s2 lb c3(2)] by blast
    next
      case False
      then have "?y + 16 + 16 \<le> bysize ?s - 2" "16 dvd ?y + 16 - 21" using d(2,4,6) by presburger+
      then have "cursor_at ?s 3 (?y + 16)" using d by (simp add: cursor_at_def)
      then have "text_step z zs ctl ?c" by (rule text_stepI [OF c1(2,3) lb])
      then show ?thesis using x False b(1) c1(1) l(3) by (simp add: write_char_def paddings Let_def)
    qed
  qed
qed

lemma text_loop_ok:
  assumes "displayed ctl zs" "z \<in> set zs" "text_win (sheets0 ctl z)" "font_ok fd" "\<And>ch. ch \<in> set cs \<Longrightarrow> printable ch"
    and "cursor_at (sheets0 ctl z) (cursorx (sheets0 ctl z)) (cursory (sheets0 ctl z))"
  shows "\<exists>ctl' n'. text_loop fd z back cs (ctl, n) = Some (ctl', n') \<and> text_step z zs ctl ctl'"
  using assms(1,3,5,6)
proof (induction cs arbitrary: ctl n)
  case Nil
  then have "text_step z zs ctl ctl" unfolding text_step_def
    by (intro conjI exI [of _ "buf (sheets0 ctl z)"] exI [of _ "cursorx (sheets0 ctl z)"] exI [of _ "cursory (sheets0 ctl z)"]) simp_all
  then show ?case by simp
next
  case (Cons ch cs)
  have "ch = 0x0A \<or> ch = 0 \<or> 0x20 \<le> ch" using Cons.prems(3) [of ch] by (auto simp: printable_def)
  then obtain c1 n1 where c1: "write_char fd z back ch (ctl, n) = Some (c1, n1)" "text_step z zs ctl c1"
    using newline_ok [OF Cons.prems(1) assms(2) Cons.prems(2,4)] char_ok [OF Cons.prems(1) assms(2) Cons.prems(2) assms(4) _ Cons.prems(4)] by metis
  note T = text_step_win [OF c1(2) Cons.prems(2)]
  obtain c2 n2 where c2: "text_loop fd z back cs (c1, n1) = Some (c2, n2)" "text_step z zs c1 c2"
    using Cons.IH [OF T(3,1) _ T(2), of n1] Cons.prems(3) by auto
  obtain b x y where "sheets0 c1 = (sheets0 ctl)(z := (sheets0 ctl z)\<lparr>buf := b, cursorx := x, cursory := y\<rparr>)" "length b = length (buf (sheets0 ctl z))"
    using c1(2) unfolding text_step_def by blast
  then show ?case using c1(1) c2 text_step_after by auto
qed


text \<open>C35: Text output in a window: for every text of printable characters and newlines, \<open>write_text\<close> returns, so it never leaves the array
  of the window nor the font; the cursor stays on the grid of characters of the window; other windows are not changed; and the screen
  shows the new contents, whatever covers the window. (A control character other than a newline is looked up outside of the font.)\<close>

theorem text_stays_inside:
  assumes "displayed (shtctl d) zs" "z \<in> set zs" "text_win (sheets0 (shtctl d) z)" "font_ok fd" "\<forall>ch \<in> set inp. printable ch"
    and "cursor_at (sheets0 (shtctl d) z) (cursorx (sheets0 (shtctl d) z)) (cursory (sheets0 (shtctl d) z))"
  shows "\<exists>d'. write_text fd z inp d = Some d' \<and> displayed (shtctl d') zs \<and> text_win (sheets0 (shtctl d') z) \<and>
    cursor_at (sheets0 (shtctl d') z) (cursorx (sheets0 (shtctl d') z)) (cursory (sheets0 (shtctl d') z)) \<and>
    (\<forall>i. i \<noteq> z \<longrightarrow> sheets0 (shtctl d') i = sheets0 (shtctl d) i)"
proof (cases "editFlag (sheets0 (shtctl d) z) = edit_off \<or> editFlag (sheets0 (shtctl d) z) = edit_on")
  case True
  define bg where "bg = (if editFlag (sheets0 (shtctl d) z) = edit_off then s_COL8_C6C6C6 else s_COL8_000000)"
  obtain ctl n where c: "text_loop fd z bg inp (shtctl d, s_total_line_num d) = Some (ctl, n)" "text_step z zs (shtctl d) ctl"
    using text_loop_ok [OF assms(1-4) _ assms(6)] assms(5) by blast
  then have "write_text fd z inp d = Some (d\<lparr>shtctl := ctl, s_total_line_num := n\<rparr>)"
    using True by (simp add: write_text_def bg_def Let_def)
  then show ?thesis using text_step_win [OF c(2) assms(3)] by auto
next
  case False
  then show ?thesis using assms by (simp add: write_text_def)
qed


section \<open>Events\<close>

text \<open>The desktop: the windows lie between the background and the mouse pointer, and are opaque.\<close>

definition desk :: "desktop \<Rightarrow> nat list \<Rightarrow> bool" where
  "desk d ws \<longleftrightarrow> displayed (shtctl d) (sht_back d # ws @ [sht_mouse d]) \<and> (\<forall>z \<in> set ws. col_inv (sheets0 (shtctl d) z) = -1)"

lemma hit_inside: "hit s x y = inside s x y"
  by (simp add: hit_def inside_def)

lemma find_layer_spec:
  assumes "\<And>k. 0 < k \<Longrightarrow> k \<le> length ws \<Longrightarrow> sheet_at ctl (int k) = Some (ws ! (k - 1))"
  shows "(\<exists>us z vs. ws = us @ z # vs \<and> hit (sheets0 ctl z) x y \<and> (\<forall>v \<in> set vs. \<not> hit (sheets0 ctl v) x y) \<and>
      find_layer (length ws) x y ctl = Some (Suc (length us))) \<or>
    (\<forall>w \<in> set ws. \<not> hit (sheets0 ctl w) x y) \<and> find_layer (length ws) x y ctl = Some 0"
  using assms
proof (induction ws rule: rev_induct)
  case Nil
  then show ?case by simp
next
  case (snoc w ws)
  have w: "sheet_at ctl (int (Suc (length ws))) = Some w" using snoc.prems [of "Suc (length ws)"] by simp
  have "sheet_at ctl (int k) = Some (ws ! (k - 1))" if "0 < k" "k \<le> length ws" for k
    using snoc.prems [of k] that by (cases k) (simp_all add: nth_append)
  note IH = snoc.IH [OF this]
  show ?case
  proof (cases "hit (sheets0 ctl w) x y")
    case True
    then show ?thesis using w by (intro disjI1 exI [of _ ws] exI [of _ w] exI [of _ "[]"]) simp
  next
    case False
    from IH show ?thesis
    proof
      assume "\<exists>us z vs. ws = us @ z # vs \<and> hit (sheets0 ctl z) x y \<and> (\<forall>v \<in> set vs. \<not> hit (sheets0 ctl v) x y) \<and>
        find_layer (length ws) x y ctl = Some (Suc (length us))"
      then obtain us z vs where "ws = us @ z # vs" "hit (sheets0 ctl z) x y" "\<forall>v \<in> set vs. \<not> hit (sheets0 ctl v) x y"
        "find_layer (length ws) x y ctl = Some (Suc (length us))" by blast
      then show ?thesis using False w by (intro disjI1 exI [of _ us] exI [of _ z] exI [of _ "vs @ [w]"]) simp
    next
      assume "(\<forall>w \<in> set ws. \<not> hit (sheets0 ctl w) x y) \<and> find_layer (length ws) x y ctl = Some 0"
      then show ?thesis using False w by simp
    qed
  qed
qed

text \<open>The window under a point is the highest that contains it; it becomes the highest window.\<close>

lemma current_sheet_spec:
  assumes "desk d ws"
  shows "(\<forall>w \<in> set ws. \<not> inside (sheets0 (shtctl d) w) x y) \<and> get_current_sheet x y d = Some (None, d) \<or>
    (\<exists>us z vs ctl. ws = us @ z # vs \<and> inside (sheets0 (shtctl d) z) x y \<and> (\<forall>v \<in> set vs. \<not> inside (sheets0 (shtctl d) v) x y) \<and>
       get_current_sheet x y d = Some (Some z, d\<lparr>shtctl := ctl, m_tmp_sht_win := Some z\<rparr>) \<and>
       desk (d\<lparr>shtctl := ctl\<rparr>) (us @ vs @ [z]) \<and> (\<forall>i. \<exists>e. sheets0 ctl i = (sheets0 (shtctl d) i)\<lparr>height := e\<rparr>))"
proof -
  let ?c = "shtctl d" and ?zs = "sht_back d # ws @ [sht_mouse d]"
  have st: "stack ?c ?zs" "displayed ?c ?zs" using assms by (simp_all add: desk_def displayed_def)
  have top: "ctl_top ?c = int (length ws) + 1" using stackD(1) [OF st(1)] by simp
  have at: "sheet_at ?c (int k) = Some (ws ! (k - 1))" if "0 < k" "k \<le> length ws" for k
    using stackD(7) [OF st(1), of k] that by (cases k) (simp_all add: nth_append)
  have run: "get_current_sheet x y d = do { layer \<leftarrow> find_layer (length ws) x y ?c;
      if layer \<noteq> 0 then do {
        z \<leftarrow> sheet_at ?c (int layer);
        ctl \<leftarrow> sheet_updown z (int (length ws)) ?c;
        Some (Some z, d\<lparr>shtctl := ctl, m_tmp_sht_win := Some z\<rparr>) }
      else Some (None, d) }"
  proof -
    have e: "ctl_top ?c - 1 = int (length ws)" using top by simp
    show ?thesis unfolding get_current_sheet_def Let_def e by simp
  qed
  from find_layer_spec [where ws = ws and x = x and y = y, OF at] show ?thesis
  proof
    assume "(\<forall>w \<in> set ws. \<not> hit (sheets0 ?c w) x y) \<and> find_layer (length ws) x y ?c = Some 0"
    then show ?thesis using run by (simp add: hit_inside)
  next
    assume "\<exists>us z vs. ws = us @ z # vs \<and> hit (sheets0 ?c z) x y \<and> (\<forall>v \<in> set vs. \<not> hit (sheets0 ?c v) x y) \<and>
      find_layer (length ws) x y ?c = Some (Suc (length us))"
    then obtain us z vs where ws: "ws = us @ z # vs" and h: "inside (sheets0 ?c z) x y" "\<forall>v \<in> set vs. \<not> inside (sheets0 ?c v) x y"
      and f: "find_layer (length ws) x y ?c = Some (Suc (length us))" unfolding hit_inside by blast
    have ds: "distinct ?zs" "z \<in> set ?zs" "z < MAX_SHEETS" using st(1) by (auto simp: stack_def ws)
    obtain ctl where U: "sheet_updown z (int (length ws)) ?c = Some ctl"
      "displayed ctl (if int (length ws) < 0 then remove1 z ?zs else insert_at (nat (int (length ws))) z (remove1 z ?zs))" "same_windows ?c ctl"
      using updown_spec [OF st(2) ds(3), of "int (length ws)"] ds(2) top by auto
    have r: "remove1 z ?zs = sht_back d # us @ vs @ [sht_mouse d]" using ds(1) by (simp add: ws remove1_append)
    have "displayed ctl (sht_back d # (us @ vs @ [z]) @ [sht_mouse d])" using U(2) unfolding r nat_int by (simp add: insert_at_def ws)
    moreover have "col_inv (sheets0 ctl i) = col_inv (sheets0 ?c i)" for i using U(3) unfolding same_windows_def by (metis SHEET.select_convs(6) SHEET.surjective SHEET.update_convs(7))
    ultimately have "desk (d\<lparr>shtctl := ctl\<rparr>) (us @ vs @ [z])" using assms by (auto simp: desk_def ws)
    moreover have "get_current_sheet x y d = Some (Some z, d\<lparr>shtctl := ctl, m_tmp_sht_win := Some z\<rparr>)"
    proof -
      have "sheet_at ?c (int (Suc (length us))) = Some z" using at [of "Suc (length us)"] by (simp add: ws)
      then show ?thesis using run f U(1) by simp
    qed
    ultimately show ?thesis using ws h U(3) unfolding same_windows_def by blast
  qed
qed


lemma top_window:
  assumes "desk d (us @ z # vs)" "inside (sheets0 (shtctl d) z) x y" "\<forall>v \<in> set vs. \<not> inside (sheets0 (shtctl d) v) x y"
  shows "\<exists>ctl. get_current_sheet x y d = Some (Some z, d\<lparr>shtctl := ctl, m_tmp_sht_win := Some z\<rparr>) \<and> desk (d\<lparr>shtctl := ctl\<rparr>) (us @ vs @ [z]) \<and>
    (\<forall>i. \<exists>e. sheets0 ctl i = (sheets0 (shtctl d) i)\<lparr>height := e\<rparr>)"
proof -
  obtain us' z' vs' ctl where c: "us @ z # vs = us' @ z' # vs'" "inside (sheets0 (shtctl d) z') x y" "\<forall>v \<in> set vs'. \<not> inside (sheets0 (shtctl d) v) x y"
    "get_current_sheet x y d = Some (Some z', d\<lparr>shtctl := ctl, m_tmp_sht_win := Some z'\<rparr>)" "desk (d\<lparr>shtctl := ctl\<rparr>) (us' @ vs' @ [z'])"
    "\<forall>i. \<exists>e. sheets0 ctl i = (sheets0 (shtctl d) i)\<lparr>height := e\<rparr>"
    using current_sheet_spec [OF assms(1), of x y] assms(2) by auto
  have "us' = us \<and> z' = z \<and> vs' = vs" using c(1-3) assms(2,3) by (auto simp: append_eq_append_conv2 append_eq_Cons_conv Cons_eq_append_conv)
  then show ?thesis using c(4-6) by blast
qed

text \<open>What the touch screen relies on: there is a selected window, and a window that is dragged is one of the windows. \<open>down\<close> is
  whether the finger is on the screen.\<close>

definition touch_ok :: "bool \<Rightarrow> nat option \<Rightarrow> desktop \<Rightarrow> nat list \<Rightarrow> bool" where
  "touch_ok down pp d ws \<longleftrightarrow> desk d ws \<and> (\<exists>w \<in> set ws. m_tmp_sht_win d = Some w) \<and> (s_win_slide_flg d \<longrightarrow> down \<and> (\<exists>z \<in> set ws. pp = Some z))"

fun finger :: "bool \<Rightarrow> ETouchScreenEvent \<Rightarrow> bool" where
  "finger down FingerDown = True"
| "finger down FingerUp = False"
| "finger down e = down"

lemma desk_fields:
  "desk (d\<lparr>m_tmp_sht_win := w\<rparr>) ws = desk d ws" "desk (d\<lparr>s_win_slide_flg := a\<rparr>) ws = desk d ws" "desk (d\<lparr>s_win_close_flg := a\<rparr>) ws = desk d ws"
  "desk (d\<lparr>nTouchOffsetXForWin := x\<rparr>) ws = desk d ws" "desk (d\<lparr>nTouchOffsetYForWin := x\<rparr>) ws = desk d ws"
  by (simp_all add: desk_def)

lemma slide_desk:
  assumes "desk d ws" "z \<in> set ws"
  shows "\<exists>ctl. slide_sheet z x y d = Some (d\<lparr>shtctl := ctl\<rparr>) \<and> desk (d\<lparr>shtctl := ctl\<rparr>) ws \<and>
    sheets0 ctl = (sheets0 (shtctl d))(z := place (sheets0 (shtctl d) (sht_back d)) 2 (sint x) (sint y) (sheets0 (shtctl d) z))"
proof -
  have "displayed (shtctl d) (sht_back d # ws @ [sht_mouse d])" "z \<in> set (sht_back d # ws @ [sht_mouse d])" "col_inv (sheets0 (shtctl d) z) = -1"
    using assms by (auto simp: desk_def)
  then obtain ctl where "sheet_slide (sht_back d) z (sint x) (sint y) (shtctl d) = Some ctl" "displayed ctl (sht_back d # ws @ [sht_mouse d])"
    "sheets0 ctl = (sheets0 (shtctl d))(z := place (sheets0 (shtctl d) (sht_back d)) 2 (sint x) (sint y) (sheets0 (shtctl d) z))"
    using slide_spec by blast
  then show ?thesis using assms(1) by (intro exI [of _ ctl]) (simp add: slide_sheet_def desk_def place_def)
qed

lemma release_ok:
  assumes "desk d ws" "m_tmp_sht_win d = Some w" "w \<in> set ws" "\<not> s_win_slide_flg d"
  shows "\<exists>pp f d'. release p x y d = Some (pp, f, d') \<and> touch_ok down pp d' ws"
  using assms by (auto simp: release_def touch_ok_def desk_fields)

lemma down_ok:
  assumes "touch_ok False pp d ws"
  shows "\<exists>pp' f' d' ws'. touchscreen_event FingerDown x y pp f d = Some (pp', f', d') \<and> touch_ok True pp' d' ws' \<and> mset ws' = mset ws"
proof -
  have dk: "desk d ws" using assms by (simp add: touch_ok_def)
  from current_sheet_spec [OF dk, of "sint x" "sint y"] show ?thesis
  proof
    assume "(\<forall>w \<in> set ws. \<not> inside (sheets0 (shtctl d) w) (sint x) (sint y)) \<and> get_current_sheet (sint x) (sint y) d = Some (None, d)"
    then show ?thesis using assms by (auto simp: touchscreen_event_def touch_ok_def)
  next
    assume "\<exists>us z vs ctl. ws = us @ z # vs \<and> inside (sheets0 (shtctl d) z) (sint x) (sint y) \<and>
      (\<forall>v \<in> set vs. \<not> inside (sheets0 (shtctl d) v) (sint x) (sint y)) \<and>
      get_current_sheet (sint x) (sint y) d = Some (Some z, d\<lparr>shtctl := ctl, m_tmp_sht_win := Some z\<rparr>) \<and>
      desk (d\<lparr>shtctl := ctl\<rparr>) (us @ vs @ [z]) \<and> (\<forall>i. \<exists>e. sheets0 ctl i = (sheets0 (shtctl d) i)\<lparr>height := e\<rparr>)"
    then obtain us z vs ctl where z: "ws = us @ z # vs" "get_current_sheet (sint x) (sint y) d = Some (Some z, d\<lparr>shtctl := ctl, m_tmp_sht_win := Some z\<rparr>)"
      "desk (d\<lparr>shtctl := ctl\<rparr>) (us @ vs @ [z])" by blast
    let ?d = "d\<lparr>shtctl := ctl, m_tmp_sht_win := Some z\<rparr>" and ?s = "sheets0 ctl z"
    let ?d' = "if isWindowTitleArea ?s x (sint y) then
        ?d\<lparr>s_win_slide_flg := True, nTouchOffsetXForWin := x - word_of_int (vx0 ?s), nTouchOffsetYForWin := y - word_of_int (vy0 ?s)\<rparr>
      else if isWindowCloseArea ?s x y then ?d\<lparr>s_win_close_flg := True\<rparr> else ?d"
    have "touchscreen_event FingerDown x y pp f d = Some (Some z, SheetSelected, ?d')" using z(2) by (simp add: touchscreen_event_def Let_def)
    moreover have "touch_ok True (Some z) ?d' (us @ vs @ [z])" using z(3) by (simp add: touch_ok_def desk_fields)
    ultimately show ?thesis using z(1) by fastforce
  qed
qed

lemma up_ok:
  assumes "touch_ok down pp d ws"
  shows "\<exists>pp' f' d' ws'. touchscreen_event FingerUp x y pp f d = Some (pp', f', d') \<and> touch_ok False pp' d' ws' \<and> mset ws' = mset ws"
proof -
  let ?d = "d\<lparr>s_win_slide_flg := False, nTouchOffsetXForWin := 0, nTouchOffsetYForWin := 0\<rparr>"
  have dk: "desk ?d ws" using assms by (simp add: touch_ok_def desk_fields)
  obtain w where w: "w \<in> set ws" "m_tmp_sht_win d = Some w" using assms by (auto simp: touch_ok_def)
  have run: "touchscreen_event FingerUp x y pp f d = do { (p, d) \<leftarrow> get_current_sheet (sint x) (sint y) ?d; release p x y d }"
    by (simp add: touchscreen_event_def)
  from current_sheet_spec [OF dk, of "sint x" "sint y"] show ?thesis
  proof
    assume "(\<forall>w \<in> set ws. \<not> inside (sheets0 (shtctl ?d) w) (sint x) (sint y)) \<and> get_current_sheet (sint x) (sint y) ?d = Some (None, ?d)"
    then show ?thesis using run release_ok [OF dk, of w None x y False] w by auto
  next
    assume "\<exists>us z vs ctl. ws = us @ z # vs \<and> inside (sheets0 (shtctl ?d) z) (sint x) (sint y) \<and>
      (\<forall>v \<in> set vs. \<not> inside (sheets0 (shtctl ?d) v) (sint x) (sint y)) \<and>
      get_current_sheet (sint x) (sint y) ?d = Some (Some z, ?d\<lparr>shtctl := ctl, m_tmp_sht_win := Some z\<rparr>) \<and>
      desk (?d\<lparr>shtctl := ctl\<rparr>) (us @ vs @ [z]) \<and> (\<forall>i. \<exists>e. sheets0 ctl i = (sheets0 (shtctl ?d) i)\<lparr>height := e\<rparr>)"
    then obtain us z vs ctl where z: "ws = us @ z # vs" "get_current_sheet (sint x) (sint y) ?d = Some (Some z, ?d\<lparr>shtctl := ctl, m_tmp_sht_win := Some z\<rparr>)"
      "desk (?d\<lparr>shtctl := ctl, m_tmp_sht_win := Some z\<rparr>) (us @ vs @ [z])" unfolding desk_fields(1) by blast
    obtain pp' f' d' where "release (Some z) x y (?d\<lparr>shtctl := ctl, m_tmp_sht_win := Some z\<rparr>) = Some (pp', f', d')" "touch_ok False pp' d' (us @ vs @ [z])"
      using release_ok [OF z(3), of z "Some z" x y False] by auto
    then show ?thesis using run z(1,2) by (intro exI [of _ pp'] exI [of _ f'] exI [of _ d'] exI [of _ "us @ vs @ [z]"]) simp
  qed
qed

lemma move_ok:
  assumes "touch_ok down pp d ws"
  shows "\<exists>d'. touchscreen_event FingerMove x y pp f d = Some (pp, f, d') \<and> touch_ok down pp d' ws"
proof -
  obtain w where w: "w \<in> set ws" "m_tmp_sht_win d = Some w" using assms by (auto simp: touch_ok_def)
  show ?thesis
  proof (cases "current_status (sheets0 (shtctl d) w) = 1 \<or> \<not> s_win_slide_flg d")
    case True
    then show ?thesis using w assms by (auto simp: touchscreen_event_def)
  next
    case False
    then obtain z where z: "pp = Some z" "z \<in> set ws" "desk d ws" using assms by (auto simp: touch_ok_def)
    then show ?thesis
      using w False assms slide_desk [OF z(3,2), of "x - nTouchOffsetXForWin d" "y - nTouchOffsetYForWin d"]
      by (auto simp: touchscreen_event_def touch_ok_def)
  qed
qed

lemma touch_step:
  assumes "touch_ok down pp d ws" "e = FingerDown \<Longrightarrow> \<not> down"
  shows "\<exists>pp' f' d' ws'. touchscreen_event e x y pp f d = Some (pp', f', d') \<and> touch_ok (finger down e) pp' d' ws' \<and> mset ws' = mset ws"
proof (cases e)
  case FingerDown
  then show ?thesis using down_ok [of pp d ws x y f] assms by simp
next
  case FingerUp
  then show ?thesis using up_ok [OF assms(1), of x y f] by simp
next
  case FingerMove
  then show ?thesis using move_ok [OF assms(1), of x y f] by auto
next
  case Unknown
  then show ?thesis using assms(1) by (auto simp: touchscreen_event_def)
qed


text \<open>A sequence of touch events, in which the finger goes down only when it is up.\<close>

primrec touch_run ::
  "(ETouchScreenEvent \<times> u32 \<times> u32) list \<Rightarrow> nat option \<Rightarrow> ESheetEvent \<Rightarrow> desktop \<Rightarrow> (nat option \<times> ESheetEvent \<times> desktop) option" where
  "touch_run [] pp f d = Some (pp, f, d)"
| "touch_run (e # es) pp f d = do { (pp, f, d) \<leftarrow> touchscreen_event (fst e) (fst (snd e)) (snd (snd e)) pp f d; touch_run es pp f d }"

primrec one_finger :: "bool \<Rightarrow> (ETouchScreenEvent \<times> u32 \<times> u32) list \<Rightarrow> bool" where
  "one_finger down [] \<longleftrightarrow> True"
| "one_finger down (e # es) \<longleftrightarrow> (fst e = FingerDown \<longrightarrow> \<not> down) \<and> one_finger (finger down (fst e)) es"

text \<open>C33: However a finger moves on the screen, the screen shows what it should: after any sequence of touch events of one finger every
  pixel has the colour of the highest sheet there, the background is below and the mouse pointer above all windows, and the
  windows are those from before, in some order. No event dereferences a null pointer. The conditions are that a window has been selected
  before (\<open>m_tmp_sht_win\<close> names one of the windows: on a desktop without windows a move dereferences \<open>NULL\<close>), that a window which is being dragged
  is one of the windows, and that a finger does not go down while it is down.\<close>

theorem touch_keeps_desktop:
  assumes "touch_ok down pp d ws" "one_finger down es"
  shows "\<exists>pp' f' d' ws'. touch_run es pp f d = Some (pp', f', d') \<and> desk d' ws' \<and> mset ws' = mset ws"
  using assms
proof (induction es arbitrary: down pp f d ws)
  case Nil
  then show ?case by (auto simp: touch_ok_def)
next
  case (Cons e es)
  obtain pp1 f1 d1 ws1 where s: "touchscreen_event (fst e) (fst (snd e)) (snd (snd e)) pp f d = Some (pp1, f1, d1)"
    "touch_ok (finger down (fst e)) pp1 d1 ws1" "mset ws1 = mset ws"
  proof -
    have "fst e = FingerDown \<Longrightarrow> \<not> down" using Cons.prems(2) by simp
    from touch_step [OF Cons.prems(1) this, where x = "fst (snd e)" and y = "snd (snd e)" and f = f] show thesis using that by blast
  qed
  then show ?case using Cons.IH [OF s(2), of f1] Cons.prems(2) by auto
qed

lemma sint_moved:
  fixes x x' :: u32
  assumes "-(2 ^ 31) \<le> v + (sint x' - sint x)" "v + (sint x' - sint x) < 2 ^ 31"
  shows "sint (x' - (x - word_of_int v)) = v + (sint x' - sint x)"
proof -
  have "sint (word_of_int k :: u32) = k" if "-(2 ^ 31) \<le> k" "k < 2 ^ 31" for k
    using that by (simp add: signed_of_int signed_take_bit_int_eq_self)
  moreover have "x' - (x - word_of_int v) = word_of_int (v + (sint x' - sint x))" by simp
  ultimately show ?thesis using assms by metis
qed

text \<open>C34: Dragging: a finger that goes down on the title of a window, and moves on the screen, moves the window by the same distance, as far
  as the background reaches; the window comes to lie above all others, which stay where they are. The window is not enlarged to the whole
  screen (\<open>current_status\<close> 1): such a window is not dragged.\<close>

theorem drag_moves_window:
  fixes x y x' y' :: u32
  assumes "desk d (us @ z # vs)" "inside (sheets0 (shtctl d) z) (sint x) (sint y)" "\<forall>v \<in> set vs. \<not> inside (sheets0 (shtctl d) v) (sint x) (sint y)"
    and "isWindowTitleArea (sheets0 (shtctl d) z) x (sint y)" "current_status (sheets0 (shtctl d) z) \<noteq> 1"
  defines "px \<equiv> vx0 (sheets0 (shtctl d) z) + (sint x' - sint x)" and "py \<equiv> vy0 (sheets0 (shtctl d) z) + (sint y' - sint y)"
  assumes range: "-(2 ^ 31) \<le> px" "px < 2 ^ 31" "-(2 ^ 31) \<le> py" "py < 2 ^ 31"
  shows "\<exists>d'. touch_run [(FingerDown, x, y), (FingerMove, x', y')] pp f d = Some (Some z, SheetSelected, d') \<and> desk d' (us @ vs @ [z]) \<and>
    vx0 (sheets0 (shtctl d') z) = limit (bxsize (sheets0 (shtctl d) (sht_back d))) 2 px \<and>
    vy0 (sheets0 (shtctl d') z) = limit (bysize (sheets0 (shtctl d) (sht_back d))) 2 py \<and>
    (\<forall>i. i \<noteq> z \<longrightarrow> (\<exists>e. sheets0 (shtctl d') i = (sheets0 (shtctl d) i)\<lparr>height := e\<rparr>))"
proof -
  let ?c = "shtctl d"
  define s where "s = sheets0 ?c z"
  obtain ctl where c: "get_current_sheet (sint x) (sint y) d = Some (Some z, d\<lparr>shtctl := ctl, m_tmp_sht_win := Some z\<rparr>)"
    "desk (d\<lparr>shtctl := ctl\<rparr>) (us @ vs @ [z])" "\<And>i. \<exists>e. sheets0 ctl i = (sheets0 ?c i)\<lparr>height := e\<rparr>"
    using top_window [OF assms(1-3)] by blast
  obtain e0 eb where e: "sheets0 ctl z = s\<lparr>height := e0\<rparr>" "sheets0 ctl (sht_back d) = (sheets0 ?c (sht_back d))\<lparr>height := eb\<rparr>"
    using c(3) unfolding s_def by blast
  let ?d = "d\<lparr>shtctl := ctl, m_tmp_sht_win := Some z, s_win_slide_flg := True,
      nTouchOffsetXForWin := x - word_of_int (vx0 s), nTouchOffsetYForWin := y - word_of_int (vy0 s)\<rparr>"
  have "isWindowTitleArea (sheets0 ctl z) x (sint y)" using assms(4) by (simp add: e s_def isWindowTitleArea_def)
  then have down: "touchscreen_event FingerDown x y pp f d = Some (Some z, SheetSelected, ?d)" using c(1) e(1) by (simp add: touchscreen_event_def Let_def)
  have dk: "desk ?d (us @ vs @ [z])" using c(2) by (simp add: desk_fields)
  obtain ctl' where s': "slide_sheet z (x' - nTouchOffsetXForWin ?d) (y' - nTouchOffsetYForWin ?d) ?d = Some (?d\<lparr>shtctl := ctl'\<rparr>)"
    "desk (?d\<lparr>shtctl := ctl'\<rparr>) (us @ vs @ [z])"
    "sheets0 ctl' = (sheets0 ctl)(z := place (sheets0 ctl (sht_back d)) 2 (sint (x' - nTouchOffsetXForWin ?d)) (sint (y' - nTouchOffsetYForWin ?d)) (sheets0 ctl z))"
    using slide_desk [OF dk, of z] by auto
  have p: "sint (x' - (x - word_of_int (vx0 s))) = px" "sint (y' - (y - word_of_int (vy0 s))) = py"
    using sint_moved [of "vx0 s" x' x] sint_moved [of "vy0 s" y' y] range by (simp_all add: px_def py_def s_def)
  have "touchscreen_event FingerMove x' y' (Some z) SheetSelected ?d = Some (Some z, SheetSelected, ?d\<lparr>shtctl := ctl'\<rparr>)"
    using s'(1) assms(5) by (simp add: touchscreen_event_def e s_def)
  then show ?thesis using down s'(2) c(3) by (intro exI [of _ "?d\<lparr>shtctl := ctl'\<rparr>"]) (simp add: s'(3) p place_def e)
qed


section \<open>Creating a window\<close>

lemma stores_total:
  assumes "\<And>p. p \<in> set ps \<Longrightarrow> 0 \<le> fst p \<and> nat (fst p) < length b"
  shows "\<exists>b'. stores ps b = Some b' \<and> length b' = length b"
  using assms
proof (induction ps arbitrary: b)
  case (Cons p ps)
  have p: "0 \<le> fst p" "nat (fst p) < length b" using Cons.prems [of p] by simp_all
  have "\<exists>b'. stores ps (b[nat (fst p) := snd p]) = Some b' \<and> length b' = length (b[nat (fst p) := snd p])"
    using Cons.prems by (intro Cons.IH) simp
  then show ?case using p by (simp add: store_def)
qed simp

lemma boxfill_total:
  assumes "length b = nat (w * n)" "0 \<le> x0" "x1 < w" "0 \<le> y0" "y1 < n"
  shows "\<exists>b'. boxfill b w c x0 y0 x1 y1 = Some b' \<and> length b' = length b"
proof -
  have r: "rect_ok w n (x0, y0, x1 + 1, y1 + 1)" using assms by (simp add: rect_ok_def)
  from fill_in [OF this assms(1), of c] show ?thesis using only_in_length by (fastforce simp: boxfill_def)
qed

lemma boxes_total:
  assumes "list_all (\<lambda>(c, x0, y0, x1, y1). 0 \<le> x0 \<and> x1 < w \<and> 0 \<le> y0 \<and> y1 < n) ps" "length b = nat (w * n)"
  shows "\<exists>b'. boxes w ps b = Some b' \<and> length b' = length b"
  using assms
proof (induction ps arbitrary: b)
  case (Cons p ps)
  obtain c x0 y0 x1 y1 where p: "p = (c, x0, y0, x1, y1)" by (metis prod_cases5)
  then have "0 \<le> x0" "x1 < w" "0 \<le> y0" "y1 < n" using Cons.prems(1) by simp_all
  then obtain b1 where b1: "boxfill b w c x0 y0 x1 y1 = Some b1" "length b1 = length b" using boxfill_total [OF Cons.prems(2)] by blast
  have "\<exists>b'. boxes w ps b1 = Some b' \<and> length b' = length b1" using Cons.prems b1(2) by (intro Cons.IH) auto
  then show ?case using p b1 by simp
qed simp

lemma title_total:
  assumes "font_ok fd" "\<And>ch. ch \<in> set s \<Longrightarrow> 0x20 \<le> ch" "length b = nat (w * n)" "0 \<le> x" "x + 8 * int (length s) \<le> w" "0 \<le> y" "y + 16 \<le> n"
  shows "\<exists>b'. putfonts_asc s fd b w x y c = Some b' \<and> length b' = length b"
  using assms(2-5)
proof (induction s arbitrary: b x)
  case (Cons ch s)
  have r: "rect_ok w n (x, y, x + 8, y + 16)" using Cons.prems(3,4) assms(6,7) by (simp add: rect_ok_def)
  have ch: "0x20 \<le> ch" using Cons.prems(1) by simp
  then have "ch \<noteq> 0" by (auto simp: word_le_nat_alt)
  obtain b1 where b1: "putfont fd b w x y c ch = Some b1" "length b1 = length b"
    using putfont_in [OF r assms(1) ch Cons.prems(2)] only_in_length by metis
  have "\<exists>b'. putfonts_asc s fd b1 w (x + 8) y c = Some b' \<and> length b' = length b1"
    using Cons.prems b1(2) by (intro Cons.IH) auto
  then show ?case using b1 \<open>ch \<noteq> 0\<close> by (simp add: WORD_WIDTH_def)
qed simp

lemma closebtn_size: "(y, x, c) \<in> set (picture closebtn) \<Longrightarrow> y < 14 \<and> x < 16"
  unfolding picture_def closebtn_def by auto


lemma make_window_total:
  assumes "font_ok fd" "\<And>ch. ch \<in> set title \<Longrightarrow> 0x20 \<le> ch" "length b = nat (w * n)" "14 \<le> w" "39 \<le> n" "3 + 8 * int (length title) \<le> w"
  shows "\<exists>b'. make_window fd b w n ef title = Some b' \<and> length b' = nat (w * n)"
proof -
  obtain b1 where b1: "boxes w (window_frame w n (if ef = edit_on then s_COL8_000000 else s_COL8_C6C6C6)) b = Some b1" "length b1 = nat (w * n)"
  proof -
    have "list_all (\<lambda>(c, x0, y0, x1, y1). 0 \<le> x0 \<and> x1 < w \<and> 0 \<le> y0 \<and> y1 < n)
        (window_frame w n (if ef = edit_on then s_COL8_000000 else s_COL8_C6C6C6))" using assms(4,5) by (simp add: window_frame_def)
    from boxes_total [OF this assms(3)] show thesis using that assms(3) by metis
  qed
  obtain b2 where b2: "putfonts_asc title fd b1 w 3 3 s_COL8_000084 = Some b2" "length b2 = nat (w * n)"
    using title_total [where s = title and x = 3 and y = 3, OF assms(1,2) b1(2)] b1(2) assms(5,6) by auto
  let ?ps = "map (\<lambda>(y, x, c). ((5 + int y) * w + (w - 21 + int x),
       if c = CHR ''@'' then s_COL8_000000 else if c = CHR ''$'' then s_COL8_848484
       else if c = CHR ''Q'' then s_COL8_C6C6C6 else s_COL8_FFFFFF)) (picture closebtn)"
  have "\<exists>b'. stores ?ps b2 = Some b' \<and> length b' = length b2"
  proof (rule stores_total)
    fix p
    assume "p \<in> set ?ps"
    then obtain y x c where "(y, x, c) \<in> set (picture closebtn)" "fst p = (5 + int y) * w + (w - 21 + int x)" by auto
    then have p: "y < 14" "x < 16" "fst p = (6 + int y) * w - 21 + int x" using closebtn_size [of y x c] by (simp_all add: algebra_simps)
    have "6 * w \<le> (6 + int y) * w" "(6 + int y) * w \<le> 19 * w" "39 * w \<le> w * n" using p(1) assms(4,5) by (simp_all add: mult_right_mono)
    then have "0 \<le> fst p" "fst p < w * n" using p(2,3) assms(4) by linarith+
    then show "0 \<le> fst p \<and> nat (fst p) < length b2" using b2(2) by (simp add: nat_less_eq_zless)
  qed
  then show ?thesis using b1(1) b2 by (auto simp: make_window_def)
qed

text \<open>The size of a text window, and that a sheet that is not shown may be changed.\<close>

lemma whole_chars_spec:
  assumes "unat n < 2 ^ 16" "0 < unat u" "unat u + unat p < 2 ^ 16"
  shows "unat u dvd unat (whole_chars n p u) - unat p" "unat p + unat u \<le> unat (whole_chars n p u)" 
    "unat n \<le> unat (whole_chars n p u)" "unat (whole_chars n p u) \<le> unat n + unat u + unat p"
proof -
  have up: "unat (u + p) = unat u + unat p" using assms(3) by (simp add: unat_word_ariths)
  have "unat u dvd unat (whole_chars n p u) - unat p \<and> unat p + unat u \<le> unat (whole_chars n p u) \<and>
    unat n \<le> unat (whole_chars n p u) \<and> unat (whole_chars n p u) \<le> unat n + unat u + unat p"
  proof (cases "n < u + p")
    case True
    then show ?thesis using up by (auto simp: whole_chars_def word_less_nat_alt)
  next
    case False
    then have ge: "unat u + unat p \<le> unat n" using up by (simp add: word_less_nat_alt)
    define r where "r = (unat n - unat p) mod unat u"
    have "unat (n - p) = unat n - unat p" using ge by (simp add: unat_sub word_le_nat_alt)
    then have l: "unat ((n - p) mod u) = r" by (simp add: r_def unat_mod)
    have r: "r < unat u" using assms(2) by (simp add: r_def)
    have d: "unat u dvd unat n - unat p - r" unfolding r_def by (rule dvd_minus_mod)
    show ?thesis
    proof (cases "r = 0")
      case True
      then have "whole_chars n p u = n" using False l by (simp add: whole_chars_def Let_def unat_eq_zero)
      then show ?thesis using True d ge assms(1) by simp
    next
      case nz: False
      then have "(n - p) mod u \<noteq> 0" using l by (metis unsigned_0)
      then have e: "whole_chars n p u = n + u - (n - p) mod u" using False by (simp only: whole_chars_def Let_def if_False if_True simp_thms)
      have "unat (n + u) = unat n + unat u" using assms(1,3) by (simp add: unat_word_ariths)
      then have v: "unat (whole_chars n p u) = unat n + unat u - r" unfolding e using l r by (simp add: unat_sub word_le_nat_alt)
      have "unat n + unat u - r - unat p = (unat n - unat p - r) + unat u"
        using ge r mod_less_eq_dividend [of "unat n - unat p" "unat u"] unfolding r_def by linarith
      then have "unat u dvd unat (whole_chars n p u) - unat p" using v d by (metis dvd_add dvd_refl)
      then show ?thesis using v ge r by (intro conjI) linarith+
    qed
  qed
  then show "unat u dvd unat (whole_chars n p u) - unat p" "unat p + unat u \<le> unat (whole_chars n p u)"
    "unat n \<le> unat (whole_chars n p u)" "unat (whole_chars n p u) \<le> unat n + unat u + unat p" by simp_all
qed

lemma hidden_upd:
  assumes "displayed ctl zs" "z \<notin> set zs"
  shows "displayed (upd_sheet z f ctl) zs"
proof -
  have "stack (upd_sheet z f ctl) zs" using assms by (auto simp: displayed_def stack_def upd_sheet_def)
  moreover have "pixel_ok (upd_sheet z f ctl) zs x y" if "pixel_ok ctl zs x y" for x y
  proof -
    have "sheets0 (upd_sheet z f ctl) i = sheets0 ctl i" if "topmost (sheets0 ctl) zs x y = Some i" for i
      using topmost_Some [OF that] assms(2) by (metis moved_others(1))
    then show ?thesis using that by (simp add: seen_ok_def shown_ok_def topmost_moved [OF assms(2)] moved_others(3,4))
  qed
  ultimately show ?thesis using assms(1) by (simp add: displayed_def composed_def moved_others(5))
qed


lemma alloc_sheet_spec:
  assumes "\<exists>i<k + n. k \<le> i \<and> flags (sheets0 ctl i) = 0"
  shows "\<exists>i. k \<le> i \<and> i < k + n \<and> flags (sheets0 ctl i) = 0 \<and> alloc_sheet_loop n k ctl = (Some i, upd_sheet i (\<lambda>s. s\<lparr>flags := 1, height := -1\<rparr>) ctl)"
  using assms
proof (induction n arbitrary: k)
  case (Suc n)
  show ?case
  proof (cases "flags (sheets0 ctl k) = 0")
    case True
    then show ?thesis by (intro exI [of _ k]) simp
  next
    case False
    obtain i where "i < k + Suc n" "k \<le> i" "flags (sheets0 ctl i) = 0" using Suc.prems by blast
    moreover from this have "i \<noteq> k" using False by metis
    ultimately have "\<exists>i<Suc k + n. Suc k \<le> i \<and> flags (sheets0 ctl i) = 0" by (intro exI [of _ i]) simp
    from Suc.IH [OF this] obtain i' where "Suc k \<le> i'" "i' < Suc k + n" "flags (sheets0 ctl i') = 0"
      "alloc_sheet_loop n (Suc k) ctl = (Some i', upd_sheet i' (\<lambda>s. s\<lparr>flags := 1, height := -1\<rparr>) ctl)" by blast
    then show ?thesis using False by (intro exI [of _ i']) simp
  qed
qed auto

lemma hidden_slide:
  assumes "displayed ctl zs" "z \<notin> set zs" "height (sheets0 ctl z) = -1"
  shows "sheet_slide b z x y ctl = Some (upd_sheet z (place (sheets0 ctl b) 2 x y) ctl)"
    "displayed (upd_sheet z (place (sheets0 ctl b) 2 x y) ctl) zs" "height (sheets0 (upd_sheet z (place (sheets0 ctl b) 2 x y) ctl) z) = -1"
  using assms hidden_upd by (auto simp: sheet_slide_def slide_to_def Let_def moved_others place_def)

text \<open>A sheet that was hidden is put below the highest one.\<close>

lemma new_window:
  assumes "displayed c (bk # ws @ [m])" "z \<notin> set (bk # ws @ [m])" "z < MAX_SHEETS" "height (sheets0 c z) = -1" "length ws + 2 < MAX_SHEETS"
  shows "\<exists>c4 c5. sheet_slide bk z x y c = Some c4 \<and> sheet_updown z (ctl_top c4) c4 = Some c5 \<and> displayed c5 (bk # (ws @ [z]) @ [m]) \<and>
    (\<forall>i. \<exists>e. sheets0 c5 i = ((sheets0 c)(z := place (sheets0 c bk) 2 x y (sheets0 c z))) i\<lparr>height := e\<rparr>)"
proof -
  let ?zs = "bk # ws @ [m]"
  define c4 where "c4 = upd_sheet z (place (sheets0 c bk) 2 x y) c"
  note S = hidden_slide [OF assms(1,2,4), where b = bk and x = x and y = y, folded c4_def]
  have top: "ctl_top c4 = int (length ws) + 1" using S(2) by (simp add: displayed_def stack_def)
  have "length ?zs < MAX_SHEETS" using assms(5) by simp
  then obtain c5 where U: "sheet_updown z (ctl_top c4) c4 = Some c5" "displayed c5 (insert_at (nat (ctl_top c4)) z ?zs)" "same_windows c4 c5"
    using updown_spec [OF S(2) assms(3), of "ctl_top c4"] S(3) assms(2) top by (auto simp: remove1_idem)
  have "insert_at (nat (ctl_top c4)) z ?zs = bk # (ws @ [z]) @ [m]" unfolding top by (simp add: insert_at_def nat_add_distrib)
  moreover have "sheets0 c4 = (sheets0 c)(z := place (sheets0 c bk) 2 x y (sheets0 c z))" by (simp add: c4_def upd_sheet_def)
  ultimately show ?thesis using S(1) U unfolding same_windows_def by metis
qed

text \<open>C36: A new text window is shown: if there is memory, a free sheet and room in the stack, \<open>create_win\<close> returns a sheet that was free, of at
  least the size that was asked for, rounded up to whole characters, with the cursor on its first place; it lies above the other
  windows and below the mouse pointer, and the screen shows it. The title must fit into the window and have printable characters;
  the window has less than 4096 pixels in each direction.\<close>

theorem create_win_shown:
  fixes xs ys :: u32
  defines "w \<equiv> whole_chars xs 6 8" and "n \<equiv> whole_chars ys 23 16"
  assumes "desk d ws" "\<forall>z \<in> set (sht_back d # ws @ [sht_mouse d]). flags (sheets0 (shtctl d) z) \<noteq> 0"
    and "\<exists>i<MAX_SHEETS. flags (sheets0 (shtctl d) i) = 0" "length ws + 2 < MAX_SHEETS"
    and "font_ok fd" "\<forall>ch \<in> set title. 0x20 \<le> ch" "3 + 8 * length title \<le> unat w" "ef = edit_on \<or> ef = edit_off"
    and "unat xs < 2 ^ 12" "unat ys < 2 ^ 12" "fst (malloc (w * n * 4) (heap d)) \<noteq> NULL" "\<forall>k. length (raw k) = k"
  shows "\<exists>z d'. create_win fd raw x y xs ys ef title d = Some (Some z, d') \<and> flags (sheets0 (shtctl d) z) = 0 \<and> desk d' (ws @ [z]) \<and>
    text_win (sheets0 (shtctl d') z) \<and> cursor_at (sheets0 (shtctl d') z) 3 21 \<and>
    bxsize (sheets0 (shtctl d') z) = uint w \<and> bysize (sheets0 (shtctl d') z) = uint n \<and> xs \<le> w \<and> ys \<le> n"
proof -
  let ?zs = "sht_back d # ws @ [sht_mouse d]" and ?c = "shtctl d" and ?w = "uint w" and ?n = "uint n"
  have di: "displayed ?c ?zs" using assms(3) by (simp add: desk_def)
  have W: "8 dvd unat w - 6" "14 \<le> unat w" "unat xs \<le> unat w" "unat w \<le> unat xs + 14"
    and N: "16 dvd unat n - 23" "39 \<le> unat n" "unat ys \<le> unat n" "unat n \<le> unat ys + 39"
    using whole_chars_spec [of xs 8 6] whole_chars_spec [of ys 16 23] assms(11,12) by (simp_all add: w_def n_def)
  have u: "?w = int (unat w)" "?n = int (unat n)" by simp_all
  have size: "unat (w * n * 4) div 4 = nat (?w * ?n)"
  proof -
    have "unat w * unat n \<le> 8192 * 8192" using W(4) N(4) assms(11,12) by (intro mult_le_mono) simp_all
    then have "unat w * unat n * 4 \<le> 8192 * 8192 * 4" by linarith
    also have "\<dots> < 2 ^ 32" by simp
    finally have "unat w * unat n * 4 mod 2 ^ 32 = unat w * unat n * 4" by (rule mod_less)
    then show ?thesis unfolding u by (simp add: unat_word_ariths nat_mult_distrib)
  qed
  have dv: "8 dvd ?w - 6" "16 dvd ?n - 23" "14 \<le> ?w" "39 \<le> ?n" using W(1,2) N(1,2) unfolding u by presburger+
  obtain p h where m: "malloc (w * n * 4) (heap d) = (p, h)" "p \<noteq> NULL" using assms(13) by (metis prod.collapse)
  obtain z where z: "z < MAX_SHEETS" "flags (sheets0 ?c z) = 0" "sheet_alloc ?c = (Some z, upd_sheet z (\<lambda>s. s\<lparr>flags := 1, height := -1\<rparr>) ?c)"
    using alloc_sheet_spec [of 0 MAX_SHEETS ?c] assms(5) by (auto simp: sheet_alloc_def)
  have zn: "z \<notin> set ?zs" using z(2) assms(4) by auto
  have ti: "3 + 8 * int (length title) \<le> ?w" using assms(9) unfolding u by linarith
  obtain b where b: "make_window fd (raw (unat (w * n * 4) div 4)) ?w ?n ef title = Some b" "length b = nat (?w * ?n)"
    using make_window_total [OF assms(7), of title "raw (unat (w * n * 4) div 4)" ?w ?n ef] assms(8,14) ti dv size by auto
  define c3 where "c3 = upd_sheet z (\<lambda>s. s\<lparr>flags := 1, height := -1, bufp := p, buf := b, bxsize := ?w, bysize := ?n, col_inv := -1,
    editFlag := ef, cursorx := WIN_LEFT_PADDING, cursory := WIN_TOP_PADDING, picBuf := NULL, zoom_status := -1\<rparr>) ?c"
  have d3: "displayed c3 ?zs" "height (sheets0 c3 z) = -1" using hidden_upd [OF di zn] by (simp_all add: c3_def moved_others)
  let ?S = "(sheets0 c3)(z := place (sheets0 c3 (sht_back d)) 2 (sint x) (sint y) (sheets0 c3 z))"
  obtain c4 c5 where C: "sheet_slide (sht_back d) z (sint x) (sint y) c3 = Some c4" "sheet_updown z (ctl_top c4) c4 = Some c5"
    "displayed c5 (sht_back d # (ws @ [z]) @ [sht_mouse d])" "\<And>i. \<exists>e. sheets0 c5 i = (?S i)\<lparr>height := e\<rparr>"
    using new_window [OF d3(1) zn z(1) d3(2) assms(6)] by blast
  obtain e where e: "sheets0 c5 z = (?S z)\<lparr>height := e\<rparr>" using C(4) by blast
  let ?d = "d\<lparr>shtctl := c5, heap := h, m_tmp_sht_win := Some z\<rparr>"
  have "col_inv (sheets0 c5 i) = -1" if i: "i \<in> set ws" for i
  proof -
    have "i \<noteq> z" using i zn by auto
    moreover obtain e' where "sheets0 c5 i = (?S i)\<lparr>height := e'\<rparr>" using C(4) by blast
    ultimately show ?thesis using i assms(3) by (simp add: desk_def c3_def moved_others)
  qed
  then have "desk ?d (ws @ [z])" using C(3) by (simp add: desk_def e place_def c3_def moved_others)
  moreover have "text_win (sheets0 c5 z)" "cursor_at (sheets0 c5 z) 3 21" "bxsize (sheets0 c5 z) = ?w" "bysize (sheets0 c5 z) = ?n"
    using b(2) dv by (simp_all add: e place_def c3_def moved_others text_win_def cursor_at_def)
  moreover have "create_win fd raw x y xs ys ef title d = Some (Some z, ?d)"
  proof -
    let ?c1 = "upd_sheet z (\<lambda>s. s\<lparr>flags := 1, height := -1\<rparr>) ?c"
    have "upd_sheet z (\<lambda>s. s\<lparr>editFlag := ef, cursorx := WIN_LEFT_PADDING, cursory := WIN_TOP_PADDING, picBuf := NULL, zoom_status := -1\<rparr>)
        (sheet_setbuf z p b ?w ?n (-1) ?c1) = c3" by (simp add: sheet_setbuf_def upd_sheet_def c3_def)
    then show ?thesis
      using z(3) m b(1) C(1,2) assms(10) by (simp add: create_win_def Let_def w_def [symmetric] n_def [symmetric])
  qed
  ultimately show ?thesis using z(2) W(3) N(3) by (intro exI [of _ z] exI [of _ ?d]) (simp add: word_le_nat_alt)
qed

section \<open>An example desktop\<close>

definition demo_desk :: desktop where
  "demo_desk = \<lparr>shtctl = demo_ctl, sht_back = 0, sht_mouse = 2, m_tmp_sht_win = Some 1, s_total_line_num = 0, s_win_slide_flg = False, s_win_close_flg = False,
     g_nMousePosX = 0, g_nMousePosY = 0, g_nWinPosX = 0, g_nWinPosY = 0, g_nMouseMovTotalX = 0, g_nMouseMovTotalY = 0, g_nMouseMovMinX = 0, g_nMouseMovMaxX = 0,
     g_nMouseMovMinY = 0, g_nMouseMovMaxY = 0, nTouchOffsetXForWin = 0, nTouchOffsetYForWin = 0, heap = boot_heap\<rparr>"

lemma demo_simps [simp]:
  "shtctl demo_desk = demo_ctl" "sht_back demo_desk = 0" "sht_mouse demo_desk = 2" "m_tmp_sht_win demo_desk = Some 1" "s_win_slide_flg demo_desk = False"
  "heap demo_desk = boot_heap"
  "sheets0 demo_ctl 0 = demo_sheet 0 0 64 64 (-1) 0 7" "sheets0 demo_ctl (Suc 0) = demo_sheet 10 10 38 39 (-1) 1 7" "sheets0 demo_ctl 2 = demo_sheet 0 0 16 16 99 2 99"
  by (simp_all add: demo_desk_def demo_ctl_def demo_sheets_def)

lemma demo_desk_ok: "desk demo_desk [1]"
  using demo_displayed by (simp add: desk_def) (simp add: demo_sheet_def)

definition demo_font :: "u8 list list" where "demo_font = replicate 223 (replicate 16 0x18)"

lemma demo_font_ok: "font_ok demo_font" by (simp add: font_ok_def demo_font_def)

theorem text_stays_inside_witness:
  "\<exists>d'. write_text demo_font 1 [0x48, 0x69, 0x21, 0x0A, 0x48, 0x65, 0x6C, 0x6C, 0x6F] demo_desk = Some d' \<and> displayed (shtctl d') [0, 1, 2]"
  using text_stays_inside [where d = demo_desk and zs = "[0, 1, 2]" and z = 1 and fd = demo_font and inp = "[0x48, 0x69, 0x21, 0x0A, 0x48, 0x65, 0x6C, 0x6C, 0x6F]"]
    demo_displayed demo_font_ok
  by (force simp: text_win_def cursor_at_def printable_def demo_sheet_def)

theorem touch_keeps_desktop_witness:
  "\<exists>pp f d ws. touch_run [(FingerMove, 9, 9), (FingerDown, 15, 15), (FingerMove, 20, 18), (FingerUp, 20, 18), (FingerDown, 2, 2)] None SheetInvalid demo_desk = Some (pp, f, d) \<and> desk d ws \<and> mset ws = {#1#}"
  using touch_keeps_desktop [where down = False and pp = None and d = demo_desk and ws = "[1]" and f = SheetInvalid
      and es = "[(FingerMove, 9, 9), (FingerDown, 15, 15), (FingerMove, 20, 18), (FingerUp, 20, 18), (FingerDown, 2, 2)]"] demo_desk_ok
  by (simp add: touch_ok_def)

theorem drag_moves_window_witness:
  "\<exists>d'. touch_run [(FingerDown, 15, 15), (FingerMove, 20, 18)] None SheetInvalid demo_desk = Some (Some 1, SheetSelected, d') \<and>
     desk d' [1] \<and> vx0 (sheets0 (shtctl d') 1) = 15 \<and> vy0 (sheets0 (shtctl d') 1) = 13"
  using drag_moves_window [where d = demo_desk and us = "[]" and z = 1 and vs = "[]" and x = 15 and y = 15 and x' = 20 and y' = 18 and pp = None and f = SheetInvalid] demo_desk_ok
  by (force simp: inside_def isWindowTitleArea_def demo_sheet_def limit_def)

theorem create_win_shown_witness:
  "\<exists>z d'. create_win demo_font (\<lambda>k. replicate k 0) 4 4 30 30 edit_on [0x41, 0x42] demo_desk = Some (Some z, d') \<and> desk d' [1, z]"
proof -
  have w: "whole_chars 30 6 8 = (30 :: u32)" "whole_chars 30 23 16 = (39 :: u32)" by (simp_all add: whole_chars_def)
  have f: "flags (sheets0 demo_ctl 3) = 0" by (simp add: demo_ctl_def demo_sheets_def demo_sheet_def)
  have m: "fst (malloc 4680 boot_heap) \<noteq> NULL"
    by (simp add: malloc_def boot_heap_simps block_sizes_def block_extent_def Let_def CONFIG_FB_ADDR_def FB_END_def)
  have fl: "\<forall>z \<in> set (sht_back demo_desk # [1] @ [sht_mouse demo_desk]). flags (sheets0 (shtctl demo_desk) z) \<noteq> 0" by (simp) (simp add: demo_sheet_def)
  have fr: "\<exists>i<MAX_SHEETS. flags (sheets0 (shtctl demo_desk) i) = 0" using f by (auto simp: MAX_SHEETS_def intro!: exI [of _ 3])
  show ?thesis
    using create_win_shown [OF demo_desk_ok fl fr _ demo_font_ok, where xs = 30 and ys = 30 and title = "[0x41, 0x42]" and ef = edit_on and raw = "\<lambda>k. replicate k 0" and x = 4 and y = 4] m
    by (simp add: w MAX_SHEETS_def) blast
qed
end
