(* ===== verification/Touch.thy ===== *)
theory Touch
  imports MsgQueue Synchronize
begin

text \<open>
  The touch screen, \<^verbatim>\<open>env/lib/input/touchscreen.c\<close>: the reports of the touch controller, which list the points that are touched, are
  turned into an array of events, one for each of five fingers, that is allocated on the heap and passed to the gesture recogniser
  through the buffer of \<^verbatim>\<open>motioneventfifo.c\<close>. The state extends that of the message queues, with which the heap is shared. There is one
  device, so that \<open>pThis\<close> and \<open>s_pThis\<close> are the same. The memory of an array of events is found under its address. The
  screen is mounted horizontally.
\<close>

section \<open>Model\<close>

subsection \<open>Data\<close>

record TFT5406Point =
  xh :: u8
  xl :: u8
  yh :: u8
  yl :: u8

record TFT5406Buffer =
  DeviceMode :: u8
  GestureID :: u8
  NumPoints :: u8
  Point :: "TFT5406Point list"

datatype TTouchScreenEvent = TouchScreenEventFingerDown | TouchScreenEventFingerUp | TouchScreenEventFingerMove
  | TouchScreenEventFingerNoMove | TouchScreenEventUnknown

record TTouchScreenAction =
  nPosX :: u32
  nPosY :: u32
  nEvent :: TTouchScreenEvent

record TouchScreenDevice =
  m_pFT5406Buffer :: ptr
  m_pActionHandler :: ptr
  m_nKnownIDs :: u32
  m_nPosX :: "u32 list"
  m_nPosY :: "u32 list"

record touch_state = mq_state +
  touch_this :: ptr
  dev :: TouchScreenDevice
  ft :: TFT5406Buffer
  actions :: "ptr \<Rightarrow> TTouchScreenAction list"
  motion :: FIFO32
  sync :: sync_state

definition TOUCH_SCREEN_MAX_POINTS :: nat where "TOUCH_SCREEN_MAX_POINTS = 5"
definition sizeof_TFT5406Buffer :: u32 where "sizeof_TFT5406Buffer = 33"
definition sizeof_TTouchScreenAction :: u32 where "sizeof_TTouchScreenAction = 12"
definition ENOMEM :: int where "ENOMEM = 12"

subsection \<open>The device\<close>

definition CTouchScreenDevice :: "ptr \<Rightarrow> 'a touch_state_scheme \<Rightarrow> 'a touch_state_scheme option" where
  "CTouchScreenDevice pThis s = do {
     assert (pThis \<noteq> NULL);
     s \<leftarrow> Some (s\<lparr>dev := (dev s)\<lparr>m_pFT5406Buffer := NULL, m_nKnownIDs := 0\<rparr>\<rparr>);
     assert (touch_this s = NULL);
     Some (s\<lparr>touch_this := pThis\<rparr>) }"

definition DTouchScreenDevice :: "ptr \<Rightarrow> 'a touch_state_scheme \<Rightarrow> 'a touch_state_scheme option" where
  "DTouchScreenDevice pThis s = do {
     assert (pThis \<noteq> NULL);
     Some (s\<lparr>dev := (dev s)\<lparr>m_pFT5406Buffer := NULL\<rparr>\<rparr>) }"

definition TouchScreenDeviceGet :: "'a touch_state_scheme \<Rightarrow> ptr option" where
  "TouchScreenDeviceGet s = do { assert (touch_this s \<noteq> NULL); Some (touch_this s) }"

text \<open>\<open>bf\<close> is what the array of the buffer holds; the result is a \<open>boolean\<close>, for which \<open>ENOMEM\<close> is not \<open>FALSE\<close>.\<close>

definition TouchScreenInitialize :: "int list \<Rightarrow> 'a touch_state_scheme \<Rightarrow> (int \<times> 'a touch_state_scheme) option" where
  "TouchScreenInitialize bf s = do {
     assert (touch_this s \<noteq> NULL);
     let (p, s) = mq_malloc sizeof_TFT5406Buffer s;
     let s = s\<lparr>dev := (dev s)\<lparr>m_pFT5406Buffer := p\<rparr>\<rparr>;
     if p = NULL then Some (ENOMEM, s)
     else Some (1, s\<lparr>ft := (ft s)\<lparr>NumPoints := 99\<rparr>, motion := initMotionEventFifo bf\<rparr>) }"

definition TouchScreenRegisterActionHandler :: "ptr \<Rightarrow> ptr \<Rightarrow> 'a touch_state_scheme \<Rightarrow> 'a touch_state_scheme option" where
  "TouchScreenRegisterActionHandler pThis pActionHandler s = do {
     assert (pThis \<noteq> NULL);
     assert (m_pActionHandler (dev s) = NULL);
     assert (pActionHandler \<noteq> NULL);
     Some (s\<lparr>dev := (dev s)\<lparr>m_pActionHandler := pActionHandler\<rparr>\<rparr>) }"

subsection \<open>From a report to events\<close>

definition touch_pos :: "TFT5406Point \<Rightarrow> u32 \<times> u32" where
  "touch_pos pt =
     (let x = push_bit 8 (ucast (xh pt) AND 0xF) OR ucast (xl pt); y = push_bit 8 (ucast (yh pt) AND 0xF) OR ucast (yl pt)
      in (y, of_nat CFG_DISP_PRI_RESOL_HEIGHT - x))"

definition touch_id :: "TFT5406Point \<Rightarrow> nat" where
  "touch_id pt = unat (drop_bit 4 (yh pt) AND 0xF)"

text \<open>What the loops over a report change: the positions of the fingers, the events, the fingers that were seen, and whether there is
  anything to report.\<close>

record scan =
  sc_posX :: "u32 list"
  sc_posY :: "u32 list"
  sc_acts :: "TTouchScreenAction list"
  sc_ids :: u32
  addFlg :: bool

definition point_event :: "u32 \<Rightarrow> nat \<Rightarrow> u32 \<Rightarrow> u32 \<Rightarrow> scan \<Rightarrow> TTouchScreenEvent option" where
  "point_event known k x y sc =
     (if \<not> bit known k then Some TouchScreenEventFingerDown
      else do {
        px \<leftarrow> rd (sc_posX sc) k;
        py \<leftarrow> rd (sc_posY sc) k;
        let deltaX = sint (px - x);
        let deltaY = sint (py - y);
        Some (if deltaX * deltaX + deltaY * deltaY > 64 then TouchScreenEventFingerMove else TouchScreenEventFingerNoMove) })"

definition point_step :: "u32 \<Rightarrow> TFT5406Point \<Rightarrow> scan \<Rightarrow> scan option" where
  "point_step known pt sc = do {
     let (x, y) = touch_pos pt;
     let k = touch_id pt;
     e \<leftarrow> point_event known k x y sc;
     px \<leftarrow> wr (sc_posX sc) k x;
     py \<leftarrow> wr (sc_posY sc) k y;
     a \<leftarrow> wr (sc_acts sc) k \<lparr>nPosX = x, nPosY = y, nEvent = e\<rparr>;
     Some \<lparr>sc_posX = px, sc_posY = py, sc_acts = a, sc_ids = sc_ids sc OR push_bit k 1, addFlg = (addFlg sc \<or> e \<noteq> TouchScreenEventFingerNoMove)\<rparr> }"

text \<open>The flag says whether the loop was left because of an identifier out of range.\<close>

primrec points_loop :: "u32 \<Rightarrow> TFT5406Point list \<Rightarrow> scan \<Rightarrow> (bool \<times> scan) option" where
  "points_loop known [] sc = Some (False, sc)"
| "points_loop known (pt # pts) sc =
     (if touch_id pt \<ge> TOUCH_SCREEN_MAX_POINTS then Some (True, sc)
      else do { sc \<leftarrow> point_step known pt sc; points_loop known pts sc })"

definition release_step :: "u32 \<Rightarrow> nat \<Rightarrow> scan \<Rightarrow> scan option" where
  "release_step released i sc =
     (if bit released i then do {
        x \<leftarrow> rd (sc_posX sc) i;
        y \<leftarrow> rd (sc_posY sc) i;
        a \<leftarrow> wr (sc_acts sc) i \<lparr>nPosX = x, nPosY = y, nEvent = TouchScreenEventFingerUp\<rparr>;
        Some (sc\<lparr>sc_acts := a, sc_ids := sc_ids sc AND NOT (push_bit i 1), addFlg := True\<rparr>) }
      else Some sc)"

primrec release_loop :: "u32 \<Rightarrow> nat list \<Rightarrow> scan \<Rightarrow> scan option" where
  "release_loop released [] sc = Some sc"
| "release_loop released (i # is) sc = do { sc \<leftarrow> release_step released i sc; release_loop released is sc }"

definition store_scan :: "ptr \<Rightarrow> scan \<Rightarrow> 'a touch_state_scheme \<Rightarrow> 'a touch_state_scheme" where
  "store_scan p sc s = s\<lparr>dev := (dev s)\<lparr>m_nPosX := sc_posX sc, m_nPosY := sc_posY sc\<rparr>, actions := (actions s)(p := sc_acts sc)\<rparr>"

definition TouchUpdateMotionEvent :: "'a touch_state_scheme \<Rightarrow> 'a touch_state_scheme option" where
  "TouchUpdateMotionEvent s = do {
     assert (m_pFT5406Buffer (dev s) \<noteq> NULL);
     let Regs = ft s;
     let known = m_nKnownIDs (dev s);
     let s = s\<lparr>ft := Regs\<lparr>NumPoints := 99\<rparr>\<rparr>;
     if NumPoints Regs = 99 \<or> NumPoints Regs = 0 \<and> known = 0 then Some s
     else do {
       assert (unat (NumPoints Regs) \<le> TOUCH_SCREEN_MAX_POINTS);
       let (p, s) = mq_malloc (sizeof_TTouchScreenAction * of_nat TOUCH_SCREEN_MAX_POINTS) s;
       assert (p \<noteq> NULL);
       let acts = map (\<lambda>a. a\<lparr>nEvent := TouchScreenEventUnknown\<rparr>) (actions s p);
       (left, sc) \<leftarrow> points_loop known (take (unat (NumPoints Regs)) (Point Regs))
          \<lparr>sc_posX = m_nPosX (dev s), sc_posY = m_nPosY (dev s), sc_acts = acts, sc_ids = 0, addFlg = False\<rparr>;
       if left then Some (store_scan p sc s)
       else do {
         sc \<leftarrow> release_loop (known AND NOT (sc_ids sc)) [0..<TOUCH_SCREEN_MAX_POINTS] sc;
         let s = store_scan p sc s;
         let s = s\<lparr>dev := (dev s)\<lparr>m_nKnownIDs := sc_ids sc\<rparr>\<rparr>;
         if addFlg sc then do {
           (r, f, k) \<leftarrow> putMotionEventFifo (sint p) (motion s) (ks s);
           f \<leftarrow> f;
           Some (s\<lparr>motion := f, ks := k\<rparr>) }
         else Some s } } }"

text \<open>Handing the next array to the handler, which \<open>hnd\<close> describes.\<close>

definition TouchScreenUpdate ::
  "nat \<Rightarrow> (ptr \<Rightarrow> ptr \<Rightarrow> 'a touch_state_scheme \<Rightarrow> 'a touch_state_scheme option) \<Rightarrow> 'a touch_state_scheme \<Rightarrow> (bool \<times> 'a touch_state_scheme) option" where
  "TouchScreenUpdate cpuid hnd s =
     (if getMotionEventStatus (motion s) = 0 then Some (False, s)
      else do {
        c \<leftarrow> EnterCritical cpuid (sync s);
        let s = s\<lparr>sync := c\<rparr>;
        s \<leftarrow> (if m_pActionHandler (dev s) \<noteq> NULL then do {
                (v, f) \<leftarrow> getMotionEventFifo (motion s);
                let action = word_of_int v;
                s \<leftarrow> hnd (m_pActionHandler (dev s)) action (s\<lparr>motion := f\<rparr>);
                Some (mq_free action s) }
              else Some s);
        c \<leftarrow> LeaveCritical cpuid (sync s);
        Some (True, s\<lparr>sync := c\<rparr>) })"

end
