(* ===== verification/TouchProps.thy ===== *)
theory TouchProps
  imports Touch
begin

text \<open>
  What a report of the touch controller becomes: for every finger the event that its state before and in the report determines, and
  the new set of fingers.
\<close>

section \<open>Reports\<close>

text \<open>A report that the loops can handle, and the fingers that it lists.\<close>

definition report_ok :: "TFT5406Buffer \<Rightarrow> bool" where
  "report_ok R \<longleftrightarrow> unat (NumPoints R) \<le> TOUCH_SCREEN_MAX_POINTS \<and> length (Point R) = TOUCH_SCREEN_MAX_POINTS \<and>
     (\<forall>pt \<in> set (take (unat (NumPoints R)) (Point R)). touch_id pt < TOUCH_SCREEN_MAX_POINTS)"

definition fingers_of :: "TFT5406Buffer \<Rightarrow> nat set" where
  "fingers_of R = touch_id ` set (take (unat (NumPoints R)) (Point R))"

text \<open>The events that a finger may have, given whether it was on the screen and whether it is.\<close>

definition event_ok :: "bool \<Rightarrow> bool \<Rightarrow> TTouchScreenEvent \<Rightarrow> bool" where
  "event_ok was is e \<longleftrightarrow>
     (if is then (if was then e = TouchScreenEventFingerMove \<or> e = TouchScreenEventFingerNoMove else e = TouchScreenEventFingerDown)
      else e = (if was then TouchScreenEventFingerUp else TouchScreenEventUnknown))"

definition scan_ok :: "scan \<Rightarrow> bool" where
  "scan_ok sc \<longleftrightarrow> length (sc_posX sc) = TOUCH_SCREEN_MAX_POINTS \<and> length (sc_posY sc) = TOUCH_SCREEN_MAX_POINTS \<and>
     length (sc_acts sc) = TOUCH_SCREEN_MAX_POINTS"

lemma bit_push: "k < 32 \<Longrightarrow> bit (2 ^ k :: u32) i \<longleftrightarrow> i = k"
  by (auto simp: bit_exp_iff possible_bit_def)

text \<open>Events that change which fingers are known, or where they are, are reported.\<close>

definition told :: "scan \<Rightarrow> bool" where
  "told sc \<longleftrightarrow> (\<forall>k<TOUCH_SCREEN_MAX_POINTS. nEvent (sc_acts sc ! k) \<notin> {TouchScreenEventUnknown, TouchScreenEventFingerNoMove} \<longrightarrow> addFlg sc)"

lemma point_step_spec:
  assumes "scan_ok sc" "touch_id pt < TOUCH_SCREEN_MAX_POINTS"
  shows "\<exists>sc' e. point_step known pt sc = Some sc' \<and> scan_ok sc' \<and>
    (\<forall>i. bit (sc_ids sc') i \<longleftrightarrow> bit (sc_ids sc) i \<or> i = touch_id pt) \<and>
    sc_acts sc' = (sc_acts sc)[touch_id pt := \<lparr>nPosX = fst (touch_pos pt), nPosY = snd (touch_pos pt), nEvent = e\<rparr>] \<and>
    sc_posX sc' = (sc_posX sc)[touch_id pt := fst (touch_pos pt)] \<and> sc_posY sc' = (sc_posY sc)[touch_id pt := snd (touch_pos pt)] \<and>
    event_ok (bit known (touch_id pt)) True e \<and> (addFlg sc' \<longleftrightarrow> addFlg sc \<or> e \<noteq> TouchScreenEventFingerNoMove)"
  using assms bit_push [of "touch_id pt"]
  by (auto simp: point_step_def point_event_def scan_ok_def event_ok_def bit_or_iff TOUCH_SCREEN_MAX_POINTS_def case_prod_unfold Let_def)

lemma points_loop_spec:
  assumes "scan_ok sc" "\<forall>pt \<in> set pts. touch_id pt < TOUCH_SCREEN_MAX_POINTS"
  shows "\<exists>sc'. points_loop known pts sc = Some (False, sc') \<and> scan_ok sc' \<and>
    (\<forall>i. bit (sc_ids sc') i \<longleftrightarrow> bit (sc_ids sc) i \<or> i \<in> touch_id ` set pts) \<and>
    (\<forall>k<TOUCH_SCREEN_MAX_POINTS. if k \<in> touch_id ` set pts
       then event_ok (bit known k) True (nEvent (sc_acts sc' ! k)) \<and>
         nPosX (sc_acts sc' ! k) = sc_posX sc' ! k \<and> nPosY (sc_acts sc' ! k) = sc_posY sc' ! k
       else sc_acts sc' ! k = sc_acts sc ! k \<and> sc_posX sc' ! k = sc_posX sc ! k \<and> sc_posY sc' ! k = sc_posY sc ! k) \<and>
    (told sc \<longrightarrow> told sc') \<and> (addFlg sc \<longrightarrow> addFlg sc')"
  using assms
proof (induction pts arbitrary: sc)
  case Nil
  then show ?case by simp
next
  case (Cons pt pts)
  let ?t = "touch_id pt"
  obtain s1 e where s1: "point_step known pt sc = Some s1" "scan_ok s1" "\<forall>i. bit (sc_ids s1) i \<longleftrightarrow> bit (sc_ids sc) i \<or> i = ?t"
    "sc_acts s1 = (sc_acts sc)[?t := \<lparr>nPosX = fst (touch_pos pt), nPosY = snd (touch_pos pt), nEvent = e\<rparr>]"
    "sc_posX s1 = (sc_posX sc)[?t := fst (touch_pos pt)]" "sc_posY s1 = (sc_posY sc)[?t := snd (touch_pos pt)]"
    "event_ok (bit known ?t) True e" "addFlg s1 \<longleftrightarrow> addFlg sc \<or> e \<noteq> TouchScreenEventFingerNoMove"
    using point_step_spec [OF Cons.prems(1), of pt known] Cons.prems(2) by auto
  obtain sc' where S: "points_loop known pts s1 = Some (False, sc')" "scan_ok sc'"
    "\<forall>i. bit (sc_ids sc') i \<longleftrightarrow> bit (sc_ids s1) i \<or> i \<in> touch_id ` set pts"
    "\<forall>k<TOUCH_SCREEN_MAX_POINTS. if k \<in> touch_id ` set pts
       then event_ok (bit known k) True (nEvent (sc_acts sc' ! k)) \<and>
         nPosX (sc_acts sc' ! k) = sc_posX sc' ! k \<and> nPosY (sc_acts sc' ! k) = sc_posY sc' ! k
       else sc_acts sc' ! k = sc_acts s1 ! k \<and> sc_posX sc' ! k = sc_posX s1 ! k \<and> sc_posY sc' ! k = sc_posY s1 ! k"
    "told s1 \<longrightarrow> told sc'" "addFlg s1 \<longrightarrow> addFlg sc'" using Cons.IH [OF s1(2)] Cons.prems(2) by auto
  have t: "?t < TOUCH_SCREEN_MAX_POINTS" using Cons.prems(2) by simp
  have nth: "sc_acts s1 ! k = (if k = ?t then \<lparr>nPosX = fst (touch_pos pt), nPosY = snd (touch_pos pt), nEvent = e\<rparr> else sc_acts sc ! k)"
    "sc_posX s1 ! k = (if k = ?t then fst (touch_pos pt) else sc_posX sc ! k)" "sc_posY s1 ! k = (if k = ?t then snd (touch_pos pt) else sc_posY sc ! k)"
    if "k < TOUCH_SCREEN_MAX_POINTS" for k using that t Cons.prems(1) by (auto simp: s1(4-6) scan_ok_def)
  have "points_loop known (pt # pts) sc = Some (False, sc')" using s1(1) S(1) t by simp
  moreover have "told sc \<longrightarrow> told s1" using s1(8) nth(1) by (auto simp: told_def)
  moreover have "if k \<in> touch_id ` set (pt # pts)
       then event_ok (bit known k) True (nEvent (sc_acts sc' ! k)) \<and>
         nPosX (sc_acts sc' ! k) = sc_posX sc' ! k \<and> nPosY (sc_acts sc' ! k) = sc_posY sc' ! k
       else sc_acts sc' ! k = sc_acts sc ! k \<and> sc_posX sc' ! k = sc_posX sc ! k \<and> sc_posY sc' ! k = sc_posY sc ! k"
    if k: "k < TOUCH_SCREEN_MAX_POINTS" for k
    using S(4) [rule_format, OF k] nth [OF k] s1(7) by (cases "k = ?t") (auto split: if_splits)
  ultimately show ?case using S(2,3,5,6) s1(3,8) by (intro exI [of _ sc']) auto
qed

lemma release_loop_spec:
  assumes "scan_ok sc" "distinct is" "set is \<subseteq> {..<TOUCH_SCREEN_MAX_POINTS}"
  shows "\<exists>sc'. release_loop released is sc = Some sc' \<and> scan_ok sc' \<and> sc_posX sc' = sc_posX sc \<and> sc_posY sc' = sc_posY sc \<and>
    (\<forall>i. bit (sc_ids sc') i \<longleftrightarrow> bit (sc_ids sc) i \<and> \<not> (i \<in> set is \<and> bit released i)) \<and>
    (\<forall>k<TOUCH_SCREEN_MAX_POINTS. sc_acts sc' ! k = (if k \<in> set is \<and> bit released k
       then \<lparr>nPosX = sc_posX sc ! k, nPosY = sc_posY sc ! k, nEvent = TouchScreenEventFingerUp\<rparr> else sc_acts sc ! k)) \<and>
    (told sc \<longrightarrow> told sc')"
  using assms
proof (induction "is" arbitrary: sc)
  case Nil
  then show ?case by simp
next
  case (Cons i "is")
  have i: "i < TOUCH_SCREEN_MAX_POINTS" "i \<notin> set is" using Cons.prems by auto
  show ?case
  proof (cases "bit released i")
    case False
    then show ?thesis using Cons.IH [of sc] Cons.prems by (auto simp: release_step_def)
  next
    case True
    define s1 where "s1 = sc\<lparr>sc_acts := (sc_acts sc)[i := \<lparr>nPosX = sc_posX sc ! i, nPosY = sc_posY sc ! i, nEvent = TouchScreenEventFingerUp\<rparr>],
      sc_ids := sc_ids sc AND NOT (push_bit i 1), addFlg := True\<rparr>"
    have r: "release_step released i sc = Some s1" using True i(1) Cons.prems(1) by (simp add: release_step_def s1_def scan_ok_def)
    have ok: "scan_ok s1" using Cons.prems(1) by (simp add: scan_ok_def s1_def)
    have b: "bit (sc_ids s1) j \<longleftrightarrow> bit (sc_ids sc) j \<and> j \<noteq> i" for j
      using i(1) bit_imp_le_length [of "sc_ids sc" j] by (auto simp: s1_def bit_and_iff bit_not_iff bit_push TOUCH_SCREEN_MAX_POINTS_def)
    have a: "sc_acts s1 ! k = (if k = i then \<lparr>nPosX = sc_posX sc ! i, nPosY = sc_posY sc ! i, nEvent = TouchScreenEventFingerUp\<rparr> else sc_acts sc ! k)"
      if "k < TOUCH_SCREEN_MAX_POINTS" for k using that Cons.prems(1) by (simp add: s1_def scan_ok_def)
    obtain sc' where S: "release_loop released is s1 = Some sc'" "scan_ok sc'" "sc_posX sc' = sc_posX s1" "sc_posY sc' = sc_posY s1"
      "\<forall>i. bit (sc_ids sc') i \<longleftrightarrow> bit (sc_ids s1) i \<and> \<not> (i \<in> set is \<and> bit released i)"
      "\<forall>k<TOUCH_SCREEN_MAX_POINTS. sc_acts sc' ! k = (if k \<in> set is \<and> bit released k
       then \<lparr>nPosX = sc_posX s1 ! k, nPosY = sc_posY s1 ! k, nEvent = TouchScreenEventFingerUp\<rparr> else sc_acts s1 ! k)" "told s1 \<longrightarrow> told sc'"
      using Cons.IH [OF ok] Cons.prems by auto
    have p: "sc_posX s1 = sc_posX sc" "sc_posY s1 = sc_posY sc" "told s1" by (simp_all add: s1_def told_def)
    have "release_loop released (i # is) sc = Some sc'" using r S(1) by simp
    then show ?thesis using S p b a i True by (intro exI [of _ sc']) auto
  qed
qed


section \<open>Updates\<close>

text \<open>The device between two reports: there is a buffer, and the known fingers are among the five.\<close>

definition device_ok :: "'a touch_state_scheme \<Rightarrow> bool" where
  "device_ok s \<longleftrightarrow> m_pFT5406Buffer (dev s) \<noteq> NULL \<and> length (m_nPosX (dev s)) = TOUCH_SCREEN_MAX_POINTS \<and>
     length (m_nPosY (dev s)) = TOUCH_SCREEN_MAX_POINTS \<and> (\<forall>i. bit (m_nKnownIDs (dev s)) i \<longrightarrow> i < TOUCH_SCREEN_MAX_POINTS) \<and>
     (\<forall>p. length (actions s p) = TOUCH_SCREEN_MAX_POINTS)"

definition idle_report :: "'a touch_state_scheme \<Rightarrow> bool" where
  "idle_report s \<longleftrightarrow> NumPoints (ft s) = 99 \<or> NumPoints (ft s) = 0 \<and> m_nKnownIDs (dev s) = 0"

text \<open>The events of an array that are reported.\<close>

definition newsworthy :: "TTouchScreenAction list \<Rightarrow> bool" where
  "newsworthy acts \<longleftrightarrow> (\<exists>a \<in> set acts. nEvent a \<notin> {TouchScreenEventUnknown, TouchScreenEventFingerNoMove})"

lemma update_scan:
  assumes "device_ok s" "report_ok (ft s)" "length acts = TOUCH_SCREEN_MAX_POINTS" "\<forall>a \<in> set acts. nEvent a = TouchScreenEventUnknown"
  defines "known \<equiv> m_nKnownIDs (dev s)"
  shows "\<exists>sc sc'. points_loop known (take (unat (NumPoints (ft s))) (Point (ft s)))
      \<lparr>sc_posX = m_nPosX (dev s), sc_posY = m_nPosY (dev s), sc_acts = acts, sc_ids = 0, addFlg = False\<rparr> = Some (False, sc) \<and>
    release_loop (known AND NOT (sc_ids sc)) [0..<TOUCH_SCREEN_MAX_POINTS] sc = Some sc' \<and> scan_ok sc' \<and>
    (\<forall>i. bit (sc_ids sc') i \<longleftrightarrow> i \<in> fingers_of (ft s)) \<and>
    (\<forall>k<TOUCH_SCREEN_MAX_POINTS. event_ok (bit known k) (k \<in> fingers_of (ft s)) (nEvent (sc_acts sc' ! k)) \<and>
       (nEvent (sc_acts sc' ! k) \<noteq> TouchScreenEventUnknown \<longrightarrow> nPosX (sc_acts sc' ! k) = sc_posX sc' ! k \<and> nPosY (sc_acts sc' ! k) = sc_posY sc' ! k)) \<and>
    (newsworthy (sc_acts sc') \<longrightarrow> addFlg sc')"
proof -
  let ?s0 = "\<lparr>sc_posX = m_nPosX (dev s), sc_posY = m_nPosY (dev s), sc_acts = acts, sc_ids = 0, addFlg = False\<rparr>"
    and ?pts = "take (unat (NumPoints (ft s))) (Point (ft s))"
  have s0: "scan_ok ?s0" "told ?s0" using assms(1,3,4) by (auto simp: scan_ok_def device_ok_def told_def)
  obtain sc where P: "points_loop known ?pts ?s0 = Some (False, sc)" "scan_ok sc" "\<forall>i. bit (sc_ids sc) i \<longleftrightarrow> i \<in> fingers_of (ft s)"
    "\<forall>k<TOUCH_SCREEN_MAX_POINTS. if k \<in> fingers_of (ft s)
       then event_ok (bit known k) True (nEvent (sc_acts sc ! k)) \<and> nPosX (sc_acts sc ! k) = sc_posX sc ! k \<and> nPosY (sc_acts sc ! k) = sc_posY sc ! k
       else sc_acts sc ! k = acts ! k \<and> sc_posX sc ! k = m_nPosX (dev s) ! k \<and> sc_posY sc ! k = m_nPosY (dev s) ! k" "told sc"
    using points_loop_spec [OF s0(1), of ?pts known] assms(2) s0(2) by (auto simp: report_ok_def fingers_of_def)
  obtain sc' where R: "release_loop (known AND NOT (sc_ids sc)) [0..<TOUCH_SCREEN_MAX_POINTS] sc = Some sc'" "scan_ok sc'"
    "sc_posX sc' = sc_posX sc" "sc_posY sc' = sc_posY sc"
    "\<forall>i. bit (sc_ids sc') i \<longleftrightarrow> bit (sc_ids sc) i \<and> \<not> (i < TOUCH_SCREEN_MAX_POINTS \<and> bit (known AND NOT (sc_ids sc)) i)"
    "\<forall>k<TOUCH_SCREEN_MAX_POINTS. sc_acts sc' ! k = (if bit (known AND NOT (sc_ids sc)) k
       then \<lparr>nPosX = sc_posX sc ! k, nPosY = sc_posY sc ! k, nEvent = TouchScreenEventFingerUp\<rparr> else sc_acts sc ! k)" "told sc'"
    using release_loop_spec [OF P(2), of "[0..<TOUCH_SCREEN_MAX_POINTS]" "known AND NOT (sc_ids sc)"] P(5) by (auto simp: lessThan_atLeast0)
  have b: "bit (known AND NOT (sc_ids sc)) k \<longleftrightarrow> bit known k \<and> k \<notin> fingers_of (ft s)" for k
    using P(3) bit_imp_le_length [of known k] by (auto simp: bit_and_iff bit_not_iff possible_bit_def)
  have "event_ok (bit known k) (k \<in> fingers_of (ft s)) (nEvent (sc_acts sc' ! k)) \<and>
       (nEvent (sc_acts sc' ! k) \<noteq> TouchScreenEventUnknown \<longrightarrow> nPosX (sc_acts sc' ! k) = sc_posX sc' ! k \<and> nPosY (sc_acts sc' ! k) = sc_posY sc' ! k)"
    if k: "k < TOUCH_SCREEN_MAX_POINTS" for k
    using R(3,4) R(6) [rule_format, OF k] P(4) [rule_format, OF k] assms(3,4) k
    by (auto simp: b event_ok_def split: if_splits)
  moreover have "newsworthy (sc_acts sc') \<longrightarrow> addFlg sc'" using R(2,7) by (auto simp: newsworthy_def told_def scan_ok_def in_set_conv_nth)
  ultimately show ?thesis using P(1,3) R(1,2,5) b by blast
qed

lemma update_spec:
  assumes "device_ok s" "report_ok (ft s)" "\<not> idle_report s" "mq_malloc 60 s = (p, s1)" "p \<noteq> NULL"
  defines "known \<equiv> m_nKnownIDs (dev s)"
  shows "\<exists>acts w X Y. length acts = TOUCH_SCREEN_MAX_POINTS \<and> (\<forall>i. bit w i \<longleftrightarrow> i \<in> fingers_of (ft s)) \<and>
    (\<forall>k<TOUCH_SCREEN_MAX_POINTS. event_ok (bit known k) (k \<in> fingers_of (ft s)) (nEvent (acts ! k)) \<and>
       (nEvent (acts ! k) \<noteq> TouchScreenEventUnknown \<longrightarrow> nPosX (acts ! k) = X ! k \<and> nPosY (acts ! k) = Y ! k)) \<and>
    length X = TOUCH_SCREEN_MAX_POINTS \<and> length Y = TOUCH_SCREEN_MAX_POINTS \<and>
    (\<exists>tell. (newsworthy acts \<longrightarrow> tell) \<and> TouchUpdateMotionEvent s =
      (let s2 = s1\<lparr>ft := (ft s)\<lparr>NumPoints := 99\<rparr>, actions := (actions s)(p := acts), dev := (dev s)\<lparr>m_nPosX := X, m_nPosY := Y, m_nKnownIDs := w\<rparr>\<rparr>
       in if tell then do { (r, f, k) \<leftarrow> putMotionEventFifo (sint p) (motion s) (ks s1); f \<leftarrow> f; Some (s2\<lparr>motion := f, ks := k\<rparr>) } else Some s2))"
proof -
  let ?acts = "map (\<lambda>a. a\<lparr>nEvent := TouchScreenEventUnknown\<rparr>) (actions s p)"
  have l: "length ?acts = TOUCH_SCREEN_MAX_POINTS" "\<forall>a \<in> set ?acts. nEvent a = TouchScreenEventUnknown" using assms(1) by (auto simp: device_ok_def)
  obtain sc sc' where S: "points_loop known (take (unat (NumPoints (ft s))) (Point (ft s)))
      \<lparr>sc_posX = m_nPosX (dev s), sc_posY = m_nPosY (dev s), sc_acts = ?acts, sc_ids = 0, addFlg = False\<rparr> = Some (False, sc)"
    "release_loop (known AND NOT (sc_ids sc)) [0..<TOUCH_SCREEN_MAX_POINTS] sc = Some sc'" "scan_ok sc'"
    "\<forall>i. bit (sc_ids sc') i \<longleftrightarrow> i \<in> fingers_of (ft s)"
    "\<forall>k<TOUCH_SCREEN_MAX_POINTS. event_ok (bit known k) (k \<in> fingers_of (ft s)) (nEvent (sc_acts sc' ! k)) \<and>
       (nEvent (sc_acts sc' ! k) \<noteq> TouchScreenEventUnknown \<longrightarrow> nPosX (sc_acts sc' ! k) = sc_posX sc' ! k \<and> nPosY (sc_acts sc' ! k) = sc_posY sc' ! k)"
    "newsworthy (sc_acts sc') \<longrightarrow> addFlg sc'"
    using update_scan [OF assms(1,2) l] unfolding known_def by blast
  have m: "s1 = s\<lparr>ks := ks s1\<rparr>" "mq_malloc 60 (s\<lparr>ft := R\<rparr>) = (p, s1\<lparr>ft := R\<rparr>)" for R
    using assms(4) by (auto simp: mq_malloc_def case_prod_unfold Let_def)
  have f: "dev s1 = dev s" "actions s1 = actions s" "motion s1 = motion s" by (subst m(1), simp)+
  have ni: "(NumPoints (ft s) = 99 \<or> NumPoints (ft s) = 0 \<and> m_nKnownIDs (dev s) = 0) = False" using assms(3) by (simp add: idle_report_def)
  have sz: "sizeof_TTouchScreenAction * of_nat TOUCH_SCREEN_MAX_POINTS = 60" by (simp add: sizeof_TTouchScreenAction_def TOUCH_SCREEN_MAX_POINTS_def)
  have "TouchUpdateMotionEvent s =
      (let s2 = s1\<lparr>ft := (ft s)\<lparr>NumPoints := 99\<rparr>, actions := (actions s)(p := sc_acts sc'), dev := (dev s)\<lparr>m_nPosX := sc_posX sc', m_nPosY := sc_posY sc', m_nKnownIDs := sc_ids sc'\<rparr>\<rparr>
       in if addFlg sc' then do { (r, f, k) \<leftarrow> putMotionEventFifo (sint p) (motion s) (ks s1); f \<leftarrow> f; Some (s2\<lparr>motion := f, ks := k\<rparr>) } else Some s2)"
    using assms(1,2,5) S(1,2)
    by (simp add: TouchUpdateMotionEvent_def device_ok_def report_ok_def ni m(2) f known_def store_scan_def Let_def sz)
  moreover have "length (sc_acts sc') = TOUCH_SCREEN_MAX_POINTS" "length (sc_posX sc') = TOUCH_SCREEN_MAX_POINTS" "length (sc_posY sc') = TOUCH_SCREEN_MAX_POINTS"
    using S(3) by (simp_all add: scan_ok_def)
  ultimately show ?thesis using S(4-6) by blast
qed

end
