(* ===== verification/Gesture.thy ===== *)
theory Gesture
  imports Touch
begin

text \<open>
  The gesture recogniser, \<^verbatim>\<open>env/lib/input/gesturedetector.c\<close>, with the recogniser of scaling gestures,
  \<^verbatim>\<open>scalegesturedetector.c\<close>. The calls of the listeners are recorded in the state; the answers of the scaling listener are the argument \<open>answer\<close>.
  The arithmetic of the type \<open>float\<close> is an argument too, so that nothing depends on how it rounds. The indices of fingers are
  those of the loops over the events and so are in the range of the arrays. The clock is read at the start of
  \<open>TouchScreenActionHandler\<close> (\<open>t\<close>) and again when a message is sent (\<open>t'\<close>).
\<close>

section \<open>Model\<close>

subsection \<open>Floating point numbers\<close>

record 'f float_arith =
  f_of_u32 :: "u32 \<Rightarrow> 'f"
  f_of_u64 :: "u64 \<Rightarrow> 'f"
  f_of_int :: "int \<Rightarrow> 'f"
  f_trunc :: "'f \<Rightarrow> int"
  f_add :: "'f \<Rightarrow> 'f \<Rightarrow> 'f"
  f_sub :: "'f \<Rightarrow> 'f \<Rightarrow> 'f"
  f_mul :: "'f \<Rightarrow> 'f \<Rightarrow> 'f"
  f_div :: "'f \<Rightarrow> 'f \<Rightarrow> 'f"
  f_neg :: "'f \<Rightarrow> 'f"
  f_less :: "'f \<Rightarrow> 'f \<Rightarrow> bool"
  f_le :: "'f \<Rightarrow> 'f \<Rightarrow> bool"
  f_bits :: "'f \<Rightarrow> u32"
  f_of_bits :: "u32 \<Rightarrow> 'f"

subsection \<open>Data\<close>

record TMotionEvent =
  nEventTime :: u64
  nEventX :: int
  nEventY :: int

datatype TGestureActionType = GESTURE_ACTION_TYPE_ACTION_POINTER_DOWN | GESTURE_ACTION_TYPE_ACTION_POINTER_MOVE
  | GESTURE_ACTION_TYPE_ACTION_POINTER_UP | GESTURE_ACTION_TYPE_ACTION_DOWN | GESTURE_ACTION_TYPE_ACTION_MOVE
  | GESTURE_ACTION_TYPE_ACTION_UP | GESTURE_ACTION_TYPE_ACTION_CANCEL

definition GESTURE_MESSAGE_TYPE_SHOW_PRESS :: u32 where "GESTURE_MESSAGE_TYPE_SHOW_PRESS = 0"
definition GESTURE_MESSAGE_TYPE_LONG_PRESS :: u32 where "GESTURE_MESSAGE_TYPE_LONG_PRESS = 1"
definition GESTURE_MESSAGE_TYPE_TAP :: u32 where "GESTURE_MESSAGE_TYPE_TAP = 2"
definition GESTURE_MESSAGE_TYPE_MAX_NUMBER :: u32 where "GESTURE_MESSAGE_TYPE_MAX_NUMBER = 3"

definition TOUCH_SLOP :: int where "TOUCH_SLOP = 8"
definition DOUBLE_TAP_SLOP :: int where "DOUBLE_TAP_SLOP = 100"
definition DOUBLE_TAP_TIMEOUT :: u64 where "DOUBLE_TAP_TIMEOUT = 300000"
definition DOUBLE_TAP_MIN_TIME :: u64 where "DOUBLE_TAP_MIN_TIME = 40000"
definition TAP_TIMEOUT :: u64 where "TAP_TIMEOUT = 100000"
definition LONGPRESS_TIMEOUT :: u64 where "LONGPRESS_TIMEOUT = 500000"
definition MINIMUM_FLING_VELOCITY :: int where "MINIMUM_FLING_VELOCITY = 50"

record 'f TScaleGestureDetector =
  mInProgress :: bool
  mCurrTime :: u64
  sc_mListener :: ptr
  mInitialSpan :: 'f
  mFocusX :: 'f
  mFocusY :: 'f
  mMinSpan :: int
  mPrevSpanX :: 'f
  mPrevSpanY :: 'f
  mCurrSpanX :: 'f
  mCurrSpanY :: 'f
  mCurrSpan :: 'f
  mPrevSpan :: 'f
  mSpanSlop :: int
  mPrevTime :: u64

record 'f TGestureDetector =
  mTouchSlopSquare :: int
  mDoubleTapSlopSquare :: int
  mDoubleTapTouchSlopSquare :: int
  mMinimumFlingVelocity :: int
  mCurrentDownEvent :: TMotionEvent
  mPreviousUpEvent :: TMotionEvent
  mAlwaysInTapRegion :: bool
  mAlwaysInBiggerTapRegion :: bool
  mStillDown :: bool
  mInLongPress :: bool
  mDeferConfirmSingleTap :: bool
  mIsLongpressEnabled :: bool
  mIsDoubleTapping :: bool
  mInContextClick :: bool
  mIgnoreNextUpEvent :: bool
  mScrollingFlg :: bool
  mLastFocusX :: 'f
  mLastFocusY :: 'f
  mDownFocusX :: 'f
  mDownFocusY :: 'f
  mFingerStatus :: u32
  m_nDownPosX :: "u32 list"
  m_nDownPosY :: "u32 list"
  m_nDownTime :: "u64 list"
  mListener :: ptr
  mDoubleTapListener :: ptr
  mScaleGestureDetector :: "'f TScaleGestureDetector"

text \<open>The calls of the listeners; the coordinates that \<open>onUp\<close> gets are not initialised.\<close>

datatype 'f gesture_call = OnDown TMotionEvent | OnUp u64 | OnShowPress TMotionEvent | OnSingleTapUp TMotionEvent
  | OnScroll TMotionEvent TMotionEvent 'f 'f | OnLongPress TMotionEvent | OnFling TMotionEvent TMotionEvent 'f 'f
  | OnSingleTapConfirmed TMotionEvent | OnDoubleTap TMotionEvent | OnDoubleTapEvent TMotionEvent
  | OnScale "'f TScaleGestureDetector" | OnScaleBegin "'f TScaleGestureDetector" | OnScaleEnd "'f TScaleGestureDetector"

record 'f gesture_state = touch_state +
  gesture_this :: ptr
  scale_this :: ptr
  det :: "'f TGestureDetector"
  g_pMessageQueue :: ptr
  calls :: "'f gesture_call list"

type_synonym ('f, 'r) gesture_step = "('f, 'r) gesture_state_scheme \<Rightarrow> ('f, 'r) gesture_state_scheme option"

definition upd_det :: "('f TGestureDetector \<Rightarrow> 'f TGestureDetector) \<Rightarrow> ('f, 'r) gesture_state_scheme \<Rightarrow> ('f, 'r) gesture_state_scheme" where
  "upd_det h s = s\<lparr>det := h (det s)\<rparr>"

definition upd_scale :: "('f TScaleGestureDetector \<Rightarrow> 'f TScaleGestureDetector) \<Rightarrow> ('f, 'r) gesture_state_scheme \<Rightarrow> ('f, 'r) gesture_state_scheme" where
  "upd_scale h s = upd_det (\<lambda>d. d\<lparr>mScaleGestureDetector := h (mScaleGestureDetector d)\<rparr>) s"

abbreviation scale :: "('f, 'r) gesture_state_scheme \<Rightarrow> 'f TScaleGestureDetector" where
  "scale s \<equiv> mScaleGestureDetector (det s)"

definition notify :: "ptr \<Rightarrow> 'f gesture_call \<Rightarrow> ('f, 'r) gesture_step" where
  "notify listener c s = do { assert (listener \<noteq> NULL); Some (s\<lparr>calls := calls s @ [c]\<rparr>) }"

subsection \<open>Scaling\<close>

definition InvSqrt :: "'f float_arith \<Rightarrow> 'f \<Rightarrow> 'f" where
  "InvSqrt F x = (let xhalf = f_mul F (f_of_bits F 0x3F000000) x;
     x = f_of_bits F (0x5F375A86 - signed_drop_bit 1 (f_bits F x));
     newton = (\<lambda>x. f_mul F x (f_sub F (f_of_bits F 0x3FC00000) (f_mul F (f_mul F xhalf x) x)))
     in f_div F (f_of_int F 1) (newton (newton (newton x))))"

definition float_abs :: "'f float_arith \<Rightarrow> 'f \<Rightarrow> 'f" where
  "float_abs F number = (if f_le F (f_of_int F 0) number then number else f_neg F number)"

definition present :: "TTouchScreenAction \<Rightarrow> bool" where
  "present a \<longleftrightarrow> \<not> (nEvent a = TouchScreenEventUnknown \<or> nEvent a = TouchScreenEventFingerUp)"

text \<open>The centre of the fingers that are on the screen, and how many they are.\<close>

definition focus :: "'f float_arith \<Rightarrow> TTouchScreenAction list \<Rightarrow> 'f \<times> 'f \<times> 'f" where
  "focus F acts =
     (let as = filter present acts; n = f_of_u32 F (of_nat (length as));
        sumX = fold (\<lambda>a v. f_add F v (f_of_u32 F (nPosX a))) as (f_of_int F 0);
        sumY = fold (\<lambda>a v. f_add F v (f_of_u32 F (nPosY a))) as (f_of_int F 0)
      in (f_div F sumX n, f_div F sumY n, n))"

definition spans :: "'f float_arith \<Rightarrow> TTouchScreenAction list \<Rightarrow> 'f \<times> 'f \<times> 'f" where
  "spans F acts =
     (let (focusX, focusY, n) = focus F acts; as = filter present acts;
        devSumX = fold (\<lambda>a v. f_add F v (float_abs F (f_sub F (f_of_u32 F (nPosX a)) focusX))) as (f_of_int F 0);
        devSumY = fold (\<lambda>a v. f_add F v (float_abs F (f_sub F (f_of_u32 F (nPosY a)) focusY))) as (f_of_int F 0);
        spanX = f_mul F (f_div F devSumX n) (f_of_int F 2);
        spanY = f_mul F (f_div F devSumY n) (f_of_int F 2)
      in (spanX, spanY, InvSqrt F (f_add F (f_mul F spanX spanX) (f_mul F spanY spanY))))"

definition scale_end :: "'f \<Rightarrow> ('f, 'r) gesture_step" where
  "scale_end span s = do {
     s \<leftarrow> notify (sc_mListener (scale s)) (OnScaleEnd (scale s)) s;
     Some (upd_scale (\<lambda>d. d\<lparr>mInProgress := False, mInitialSpan := span\<rparr>) s) }"

definition scale_move :: "('f gesture_call \<Rightarrow> bool) \<Rightarrow> 'f \<Rightarrow> 'f \<Rightarrow> 'f \<Rightarrow> ('f, 'r) gesture_step" where
  "scale_move answer spanX spanY span s = do {
     let s = upd_scale (\<lambda>d. d\<lparr>mCurrSpanX := spanX, mCurrSpanY := spanY, mCurrSpan := span\<rparr>) s;
     let c = OnScale (scale s);
     let busy = mInProgress (scale s);
     s \<leftarrow> (if busy then notify (sc_mListener (scale s)) c s else Some s);
     Some (if \<not> busy \<or> answer c
           then upd_scale (\<lambda>d. d\<lparr>mPrevSpanX := mCurrSpanX d, mPrevSpanY := mCurrSpanY d, mPrevSpan := mCurrSpan d, mPrevTime := mCurrTime d\<rparr>) s
           else s) }"

definition ScaleGestureDetectorOnTouchEvent ::
  "'f float_arith \<Rightarrow> ('f gesture_call \<Rightarrow> bool) \<Rightarrow> TGestureActionType \<Rightarrow> u64 \<Rightarrow> TTouchScreenAction list \<Rightarrow> ('f, 'r) gesture_step" where
  "ScaleGestureDetectorOnTouchEvent F answer Event nClockTicks acts s = do {
     let s = upd_scale (\<lambda>d. d\<lparr>mCurrTime := nClockTicks\<rparr>) s;
     let streamComplete = Event = GESTURE_ACTION_TYPE_ACTION_UP \<or> Event = GESTURE_ACTION_TYPE_ACTION_CANCEL;
     s \<leftarrow> (if (Event = GESTURE_ACTION_TYPE_ACTION_DOWN \<or> streamComplete) \<and> mInProgress (scale s) then scale_end (f_of_int F 0) s else Some s);
     if streamComplete then Some s
     else do {
       let configChanged = Event \<in> {GESTURE_ACTION_TYPE_ACTION_DOWN, GESTURE_ACTION_TYPE_ACTION_POINTER_UP, GESTURE_ACTION_TYPE_ACTION_POINTER_DOWN};
       let (focusX, focusY, n) = focus F acts;
       let (spanX, spanY, span) = spans F acts;
       let wasInProgress = mInProgress (scale s);
       let s = upd_scale (\<lambda>d. d\<lparr>mFocusX := focusX, mFocusY := focusY\<rparr>) s;
       s \<leftarrow> (if mInProgress (scale s) \<and> (f_less F span (f_of_int F (mMinSpan (scale s))) \<or> configChanged) then scale_end span s else Some s);
       let s = (if configChanged
                then upd_scale (\<lambda>d. d\<lparr>mPrevSpanX := spanX, mCurrSpanX := spanX, mPrevSpanY := spanY, mCurrSpanY := spanY,
                       mInitialSpan := span, mPrevSpan := span, mCurrSpan := span\<rparr>) s
                else s);
       s \<leftarrow> (if \<not> mInProgress (scale s) \<and> f_le F (f_of_int F (mMinSpan (scale s))) span \<and>
                (wasInProgress \<or> f_less F (f_of_int F (mSpanSlop (scale s))) (float_abs F (f_sub F span (mInitialSpan (scale s)))))
             then do {
               let s = upd_scale (\<lambda>d. d\<lparr>mPrevSpanX := spanX, mCurrSpanX := spanX, mPrevSpanY := spanY, mCurrSpanY := spanY,
                         mPrevSpan := span, mCurrSpan := span, mPrevTime := mCurrTime d\<rparr>) s;
               let c = OnScaleBegin (scale s);
               s \<leftarrow> notify (sc_mListener (scale s)) c s;
               Some (upd_scale (\<lambda>d. d\<lparr>mInProgress := answer c\<rparr>) s) }
             else Some s);
       if Event = GESTURE_ACTION_TYPE_ACTION_POINTER_MOVE then scale_move answer spanX spanY span s else Some s } }"

definition CScaleGestureDetector :: "ptr \<Rightarrow> ('f, 'r) gesture_step" where
  "CScaleGestureDetector pThis s = do { assert (pThis \<noteq> NULL); assert (scale_this s = NULL); Some (s\<lparr>scale_this := pThis\<rparr>) }"

definition ScaleGestureDetectorInitialize :: "('f, 'r) gesture_state_scheme \<Rightarrow> ('f, 'r) gesture_state_scheme" where
  "ScaleGestureDetectorInitialize s = upd_scale (\<lambda>d. d\<lparr>mSpanSlop := TOUCH_SLOP * 2, mMinSpan := 140\<rparr>) s"

definition ScaleGestureDetectorGetScaleFactor :: "'f float_arith \<Rightarrow> ('f, 'r) gesture_state_scheme \<Rightarrow> 'f" where
  "ScaleGestureDetectorGetScaleFactor F s =
     (if f_less F (f_of_int F 0) (mPrevSpan (scale s)) then f_div F (mCurrSpan (scale s)) (mPrevSpan (scale s)) else f_of_int F 1)"

definition ScaleGestureIsInProgress :: "('f, 'r) gesture_state_scheme \<Rightarrow> bool" where
  "ScaleGestureIsInProgress s = mInProgress (scale s)"

subsection \<open>Messages\<close>

definition RemoveMessage :: "u32 \<Rightarrow> ('f, 'r) gesture_step" where
  "RemoveMessage msgType s = do { assert (msgType < GESTURE_MESSAGE_TYPE_MAX_NUMBER); removeMessages msgType (g_pMessageQueue s) s }"

definition sendMessageAtTime :: "u32 \<Rightarrow> u64 \<Rightarrow> ('f, 'r) gesture_step" where
  "sendMessageAtTime msgType uptimeMicros s = do {
     assert (msgType < GESTURE_MESSAGE_TYPE_MAX_NUMBER);
     enqueueMessage msgType uptimeMicros (g_pMessageQueue s) s }"

definition sendMessageDelayed :: "u64 \<Rightarrow> u32 \<Rightarrow> u64 \<Rightarrow> ('f, 'r) gesture_step" where
  "sendMessageDelayed nNowTime msgType delayMicros s = do {
     assert (msgType < GESTURE_MESSAGE_TYPE_MAX_NUMBER);
     enqueueMessage msgType (nNowTime + delayMicros) (g_pMessageQueue s) s }"

subsection \<open>Gestures\<close>

definition IsValidEvent :: "TMotionEvent \<Rightarrow> bool" where
  "IsValidEvent e \<longleftrightarrow> nEventTime e > 0"

definition cancelTaps :: "('f, 'r) gesture_step" where
  "cancelTaps s = do {
     s \<leftarrow> RemoveMessage GESTURE_MESSAGE_TYPE_SHOW_PRESS s;
     s \<leftarrow> RemoveMessage GESTURE_MESSAGE_TYPE_LONG_PRESS s;
     s \<leftarrow> RemoveMessage GESTURE_MESSAGE_TYPE_TAP s;
     Some (upd_det (\<lambda>d. d\<lparr>mIsDoubleTapping := False, mAlwaysInTapRegion := False, mAlwaysInBiggerTapRegion := False,
       mDeferConfirmSingleTap := False, mInLongPress := False, mInContextClick := False, mIgnoreNextUpEvent := False\<rparr>) s) }"

definition isConsideredDoubleTap :: "'f TGestureDetector \<Rightarrow> TMotionEvent \<Rightarrow> TMotionEvent \<Rightarrow> TMotionEvent \<Rightarrow> bool" where
  "isConsideredDoubleTap d firstDown firstUp secondDown \<longleftrightarrow>
     mAlwaysInBiggerTapRegion d \<and>
     (let deltaTime = nEventTime secondDown - nEventTime firstUp;
        deltaX = nEventX firstDown - nEventX secondDown; deltaY = nEventY firstDown - nEventY secondDown
      in \<not> (deltaTime > DOUBLE_TAP_TIMEOUT \<or> deltaTime < DOUBLE_TAP_MIN_TIME) \<and>
         deltaX * deltaX + deltaY * deltaY < mDoubleTapSlopSquare d)"

definition getVelocity :: "'f float_arith \<Rightarrow> 'f TGestureDetector \<Rightarrow> nat \<Rightarrow> u64 \<Rightarrow> u32 \<Rightarrow> u32 \<Rightarrow> 'f \<times> 'f" where
  "getVelocity F d nPointerId nClockTicks x y =
     (if m_nDownTime d ! nPointerId = 0 then (f_of_int F 0, f_of_int F 0)
      else let nDiffTime = f_of_u64 F (nClockTicks - m_nDownTime d ! nPointerId);
             nDiffPosX = f_sub F (f_of_u32 F x) (f_of_u32 F (m_nDownPosX d ! nPointerId));
             nDiffPosY = f_sub F (f_of_u32 F y) (f_of_u32 F (m_nDownPosY d ! nPointerId))
        in (f_div F (f_mul F nDiffPosX (f_of_int F 1000000)) nDiffTime, f_div F (f_mul F nDiffPosY (f_of_int F 1000000)) nDiffTime))"

definition is_fling :: "'f float_arith \<Rightarrow> 'f TGestureDetector \<Rightarrow> 'f \<times> 'f \<Rightarrow> bool" where
  "is_fling F d v \<longleftrightarrow>
     (let m = f_of_int F (mMinimumFlingVelocity d); n = f_of_int F (- mMinimumFlingVelocity d)
      in f_less F m (snd v) \<or> f_less F (snd v) n \<or> f_less F m (fst v) \<or> f_less F (fst v) n)"

definition fling :: "'f float_arith \<Rightarrow> nat \<Rightarrow> u64 \<Rightarrow> u32 \<Rightarrow> u32 \<Rightarrow> TMotionEvent \<Rightarrow> ('f, 'r) gesture_step" where
  "fling F nPointerId nClockTicks x y ev s =
     (let v = getVelocity F (det s) nPointerId nClockTicks x y
      in if is_fling F (det s) v then notify (mListener (det s)) (OnFling (mCurrentDownEvent (det s)) ev (fst v) (snd v)) s else Some s)"

definition clear_velocity :: "'f TGestureDetector \<Rightarrow> 'f TGestureDetector" where
  "clear_velocity d = d\<lparr>m_nDownTime := replicate TOUCH_SCREEN_MAX_POINTS 0\<rparr>"

definition set_focus :: "'f \<Rightarrow> 'f \<Rightarrow> 'f TGestureDetector \<Rightarrow> 'f TGestureDetector" where
  "set_focus focusX focusY d = d\<lparr>mDownFocusX := focusX, mLastFocusX := focusX, mDownFocusY := focusY, mLastFocusY := focusY\<rparr>"

text \<open>Whether another finger moves against the one that was lifted.\<close>

definition opposes :: "'f float_arith \<Rightarrow> 'f TGestureDetector \<Rightarrow> 'f \<times> 'f \<Rightarrow> u64 \<Rightarrow> nat \<Rightarrow> nat \<times> TTouchScreenAction \<Rightarrow> bool" where
  "opposes F d v1 nClockTicks nPointerId p \<longleftrightarrow>
     (case p of (i, a) \<Rightarrow> \<not> (i = nPointerId \<or> nEvent a = TouchScreenEventUnknown) \<and>
        (let v = getVelocity F d i nClockTicks (nPosX a) (nPosY a)
         in f_less F (f_add F (f_mul F (fst v1) (fst v)) (f_mul F (snd v1) (snd v))) (f_of_int F 0)))"

definition pointer_up :: "'f float_arith \<Rightarrow> nat \<Rightarrow> u64 \<Rightarrow> u32 \<Rightarrow> u32 \<Rightarrow> 'f \<Rightarrow> 'f \<Rightarrow> TTouchScreenAction list \<Rightarrow> ('f, 'r) gesture_state_scheme \<Rightarrow> ('f, 'r) gesture_state_scheme" where
  "pointer_up F nPointerId nClockTicks x y focusX focusY acts s =
     upd_det (\<lambda>d. let d = set_focus focusX focusY d; v1 = getVelocity F d nPointerId nClockTicks x y
       in if list_ex (opposes F d v1 nClockTicks nPointerId) (enumerate 0 acts) then clear_velocity d else d) s"

text \<open>A double tap, or a message that will turn the tap into a single one.\<close>

definition down_tap :: "u64 \<Rightarrow> TMotionEvent \<Rightarrow> ('f, 'r) gesture_step" where
  "down_tap t' ev s =
     (if mDoubleTapListener (det s) = NULL then Some s
      else do {
        hadTapMessage \<leftarrow> hasSpecificMessage GESTURE_MESSAGE_TYPE_TAP (g_pMessageQueue s) s;
        s \<leftarrow> (if hadTapMessage then RemoveMessage GESTURE_MESSAGE_TYPE_TAP s else Some s);
        if IsValidEvent (mCurrentDownEvent (det s)) \<and> IsValidEvent (mPreviousUpEvent (det s)) \<and> hadTapMessage \<and>
           isConsideredDoubleTap (det s) (mCurrentDownEvent (det s)) (mPreviousUpEvent (det s)) ev
        then do {
          let s = upd_det (\<lambda>d. d\<lparr>mIsDoubleTapping := True\<rparr>) s;
          s \<leftarrow> notify (mDoubleTapListener (det s)) (OnDoubleTap (mCurrentDownEvent (det s))) s;
          notify (mDoubleTapListener (det s)) (OnDoubleTapEvent ev) s }
        else sendMessageDelayed t' GESTURE_MESSAGE_TYPE_TAP DOUBLE_TAP_TIMEOUT s })"

definition action_down :: "u64 \<Rightarrow> 'f \<Rightarrow> 'f \<Rightarrow> TMotionEvent \<Rightarrow> ('f, 'r) gesture_step" where
  "action_down t' focusX focusY ev s = do {
     s \<leftarrow> down_tap t' ev s;
     let s = upd_det (\<lambda>d. (set_focus focusX focusY d)\<lparr>mCurrentDownEvent := ev, mAlwaysInTapRegion := True, mAlwaysInBiggerTapRegion := True,
               mStillDown := True, mInLongPress := False, mDeferConfirmSingleTap := False\<rparr>) s;
     s \<leftarrow> (if mIsLongpressEnabled (det s) then do {
             s \<leftarrow> RemoveMessage GESTURE_MESSAGE_TYPE_LONG_PRESS s;
             sendMessageAtTime GESTURE_MESSAGE_TYPE_LONG_PRESS (nEventTime (mCurrentDownEvent (det s)) + TAP_TIMEOUT + LONGPRESS_TIMEOUT) s }
           else Some s);
     s \<leftarrow> sendMessageAtTime GESTURE_MESSAGE_TYPE_SHOW_PRESS (nEventTime (mCurrentDownEvent (det s)) + TAP_TIMEOUT) s;
     notify (mListener (det s)) (OnDown ev) s }"

definition pointer_move :: "'f float_arith \<Rightarrow> nat \<Rightarrow> u64 \<Rightarrow> u32 \<Rightarrow> u32 \<Rightarrow> TMotionEvent \<Rightarrow> ('f, 'r) gesture_step" where
  "pointer_move F nPointerId nClockTicks x y ev s = do {
     let s = upd_det (\<lambda>d. d\<lparr>mAlwaysInTapRegion := False\<rparr>) s;
     s \<leftarrow> RemoveMessage GESTURE_MESSAGE_TYPE_SHOW_PRESS s;
     s \<leftarrow> RemoveMessage GESTURE_MESSAGE_TYPE_LONG_PRESS s;
     fling F nPointerId nClockTicks x y ev (upd_det (\<lambda>d. d\<lparr>mInLongPress := False, mScrollingFlg := False\<rparr>) s) }"

definition scroll :: "'f \<Rightarrow> 'f \<Rightarrow> TMotionEvent \<Rightarrow> ('f, 'r) gesture_step" where
  "scroll scrollX scrollY ev s = do {
     let s = upd_det (\<lambda>d. d\<lparr>mScrollingFlg := True\<rparr>) s;
     notify (mListener (det s)) (OnScroll (mCurrentDownEvent (det s)) ev scrollX scrollY) s }"

text \<open>A move of a finger that has stayed where it went down: far enough, it is no tap any more.\<close>

definition leave_tap_region :: "'f float_arith \<Rightarrow> 'f \<Rightarrow> 'f \<Rightarrow> 'f \<Rightarrow> 'f \<Rightarrow> TMotionEvent \<Rightarrow> ('f, 'r) gesture_step" where
  "leave_tap_region F focusX focusY scrollX scrollY ev s = do {
     let deltaX = f_trunc F (f_sub F focusX (mDownFocusX (det s)));
     let deltaY = f_trunc F (f_sub F focusY (mDownFocusY (det s)));
     let distance = deltaX * deltaX + deltaY * deltaY;
     s \<leftarrow> (if distance > mTouchSlopSquare (det s) then do {
             let s = upd_det (\<lambda>d. d\<lparr>mLastFocusX := focusX, mLastFocusY := focusY, mAlwaysInTapRegion := False\<rparr>) s;
             s \<leftarrow> RemoveMessage GESTURE_MESSAGE_TYPE_SHOW_PRESS s;
             s \<leftarrow> RemoveMessage GESTURE_MESSAGE_TYPE_LONG_PRESS s;
             scroll scrollX scrollY ev (upd_det (\<lambda>d. d\<lparr>mInLongPress := False\<rparr>) s) }
           else Some s);
     Some (if distance > mDoubleTapTouchSlopSquare (det s) then upd_det (\<lambda>d. d\<lparr>mAlwaysInBiggerTapRegion := False\<rparr>) s else s) }"

definition action_move :: "'f float_arith \<Rightarrow> 'f \<Rightarrow> 'f \<Rightarrow> TMotionEvent \<Rightarrow> ('f, 'r) gesture_step" where
  "action_move F focusX focusY ev s =
     (if mInLongPress (det s) \<or> mInContextClick (det s) then Some s
      else let scrollX = f_sub F (mLastFocusX (det s)) focusX; scrollY = f_sub F (mLastFocusY (det s)) focusY
        in if mIsDoubleTapping (det s) then notify (mDoubleTapListener (det s)) (OnDoubleTapEvent ev) s
           else if mAlwaysInTapRegion (det s) then leave_tap_region F focusX focusY scrollX scrollY ev s
           else if f_le F (f_of_int F 1) scrollX \<or> f_le F scrollX (f_of_int F (-1)) \<or> f_le F (f_of_int F 1) scrollY \<or> f_le F scrollY (f_of_int F (-1))
           then do {
             s \<leftarrow> scroll scrollX scrollY ev s;
             Some (upd_det (\<lambda>d. d\<lparr>mLastFocusX := focusX, mLastFocusY := focusY\<rparr>) s) }
           else Some s)"

definition up_gesture :: "'f float_arith \<Rightarrow> nat \<Rightarrow> u64 \<Rightarrow> u32 \<Rightarrow> u32 \<Rightarrow> TMotionEvent \<Rightarrow> ('f, 'r) gesture_step" where
  "up_gesture F nPointerId nClockTicks x y ev s =
     (if mIsDoubleTapping (det s) then notify (mDoubleTapListener (det s)) (OnDoubleTapEvent ev) s
      else if mInLongPress (det s) then do {
        s \<leftarrow> RemoveMessage GESTURE_MESSAGE_TYPE_TAP s;
        Some (upd_det (\<lambda>d. d\<lparr>mInLongPress := False\<rparr>) s) }
      else if mAlwaysInTapRegion (det s) \<and> \<not> mIgnoreNextUpEvent (det s) then do {
        s \<leftarrow> notify (mListener (det s)) (OnSingleTapUp ev) s;
        if mDeferConfirmSingleTap (det s) \<and> mDoubleTapListener (det s) \<noteq> NULL
        then notify (mDoubleTapListener (det s)) (OnSingleTapConfirmed ev) s else Some s }
      else if \<not> mIgnoreNextUpEvent (det s) then fling F nPointerId nClockTicks x y ev s
      else Some s)"

definition action_up :: "'f float_arith \<Rightarrow> nat \<Rightarrow> u64 \<Rightarrow> u32 \<Rightarrow> u32 \<Rightarrow> TMotionEvent \<Rightarrow> ('f, 'r) gesture_step" where
  "action_up F nPointerId nClockTicks x y ev s = do {
     s \<leftarrow> up_gesture F nPointerId nClockTicks x y ev (upd_det (\<lambda>d. d\<lparr>mStillDown := False\<rparr>) s);
     let s = upd_det (\<lambda>d. (clear_velocity d)\<lparr>mPreviousUpEvent := ev, mIsDoubleTapping := False, mDeferConfirmSingleTap := False,
               mIgnoreNextUpEvent := False, mScrollingFlg := False\<rparr>) s;
     s \<leftarrow> RemoveMessage GESTURE_MESSAGE_TYPE_SHOW_PRESS s;
     RemoveMessage GESTURE_MESSAGE_TYPE_LONG_PRESS s }"

definition TouchScreenEventHandler ::
  "'f float_arith \<Rightarrow> ('f gesture_call \<Rightarrow> bool) \<Rightarrow> u64 \<Rightarrow> TGestureActionType \<Rightarrow> nat \<Rightarrow> u64 \<Rightarrow> u32 \<Rightarrow> u32 \<Rightarrow> 'f \<Rightarrow> 'f \<Rightarrow> TTouchScreenAction list \<Rightarrow> ('f, 'r) gesture_step" where
  "TouchScreenEventHandler F answer t' Event nPointerId nClockTicks x y focusX focusY acts s = do {
     let ev = \<lparr>nEventTime = nClockTicks, nEventX = sint x, nEventY = sint y\<rparr>;
     s \<leftarrow> ScaleGestureDetectorOnTouchEvent F answer Event nClockTicks acts s;
     if ScaleGestureIsInProgress s then Some s
     else (case Event of
         GESTURE_ACTION_TYPE_ACTION_POINTER_DOWN \<Rightarrow> cancelTaps (upd_det (set_focus focusX focusY) s)
       | GESTURE_ACTION_TYPE_ACTION_POINTER_UP \<Rightarrow> Some (pointer_up F nPointerId nClockTicks x y focusX focusY acts s)
       | GESTURE_ACTION_TYPE_ACTION_DOWN \<Rightarrow> action_down t' focusX focusY ev s
       | GESTURE_ACTION_TYPE_ACTION_POINTER_MOVE \<Rightarrow> pointer_move F nPointerId nClockTicks x y ev s
       | GESTURE_ACTION_TYPE_ACTION_MOVE \<Rightarrow> action_move F focusX focusY ev s
       | GESTURE_ACTION_TYPE_ACTION_UP \<Rightarrow> action_up F nPointerId nClockTicks x y ev s
       | GESTURE_ACTION_TYPE_ACTION_CANCEL \<Rightarrow> Some s) }"

subsection \<open>The events of a report\<close>

definition note_down :: "u64 \<Rightarrow> nat \<times> TTouchScreenAction \<Rightarrow> 'f TGestureDetector \<Rightarrow> 'f TGestureDetector" where
  "note_down t p d = (case p of (i, a) \<Rightarrow>
     if nEvent a = TouchScreenEventFingerDown
     then d\<lparr>m_nDownPosX := (m_nDownPosX d)[i := nPosX a], m_nDownPosY := (m_nDownPosY d)[i := nPosY a], m_nDownTime := (m_nDownTime d)[i := t]\<rparr>
     else d)"

text \<open>Which of the actions of the recogniser an event is: it depends on whether other fingers are on the screen.\<close>

definition action_of :: "u32 \<Rightarrow> nat \<Rightarrow> TTouchScreenEvent \<Rightarrow> TGestureActionType option" where
  "action_of status i e = (case e of
     TouchScreenEventFingerDown \<Rightarrow> Some (if status = 0 then GESTURE_ACTION_TYPE_ACTION_DOWN else GESTURE_ACTION_TYPE_ACTION_POINTER_DOWN)
   | TouchScreenEventFingerUp \<Rightarrow> Some (if status = push_bit i 1 then GESTURE_ACTION_TYPE_ACTION_UP else GESTURE_ACTION_TYPE_ACTION_POINTER_UP)
   | TouchScreenEventFingerMove \<Rightarrow> Some (if status = push_bit i 1 then GESTURE_ACTION_TYPE_ACTION_MOVE else GESTURE_ACTION_TYPE_ACTION_POINTER_MOVE)
   | _ \<Rightarrow> None)"

definition finger_step :: "nat \<Rightarrow> TTouchScreenEvent \<Rightarrow> u32 \<Rightarrow> u32" where
  "finger_step i e status = (case e of
     TouchScreenEventFingerDown \<Rightarrow> status OR push_bit i 1
   | TouchScreenEventFingerUp \<Rightarrow> status AND NOT (push_bit i 1)
   | _ \<Rightarrow> status)"

definition handle_action ::
  "'f float_arith \<Rightarrow> ('f gesture_call \<Rightarrow> bool) \<Rightarrow> u64 \<Rightarrow> (nat \<Rightarrow> u64) \<Rightarrow> 'f \<Rightarrow> 'f \<Rightarrow> TTouchScreenAction list \<Rightarrow> nat \<Rightarrow> TTouchScreenAction \<Rightarrow> ('f, 'r) gesture_step" where
  "handle_action F answer t t' focusX focusY acts i a s = (case action_of (mFingerStatus (det s)) i (nEvent a) of
     None \<Rightarrow> Some s
   | Some Event \<Rightarrow> do {
       s \<leftarrow> TouchScreenEventHandler F answer (t' i) Event i t (nPosX a) (nPosY a) focusX focusY acts s;
       let s = upd_det (\<lambda>d. d\<lparr>mFingerStatus := finger_step i (nEvent a) (mFingerStatus d)\<rparr>) s;
       if nEvent a = TouchScreenEventFingerUp then notify (mListener (det s)) (OnUp t) s else Some s })"

primrec actions_loop ::
  "'f float_arith \<Rightarrow> ('f gesture_call \<Rightarrow> bool) \<Rightarrow> u64 \<Rightarrow> (nat \<Rightarrow> u64) \<Rightarrow> 'f \<Rightarrow> 'f \<Rightarrow> TTouchScreenAction list \<Rightarrow> (nat \<times> TTouchScreenAction) list \<Rightarrow> ('f, 'r) gesture_step" where
  "actions_loop F answer t t' focusX focusY acts [] s = Some s"
| "actions_loop F answer t t' focusX focusY acts (p # ps) s = do {
     s \<leftarrow> handle_action F answer t t' focusX focusY acts (fst p) (snd p) s;
     actions_loop F answer t t' focusX focusY acts ps s }"

definition TouchScreenActionHandler :: "'f float_arith \<Rightarrow> ('f gesture_call \<Rightarrow> bool) \<Rightarrow> u64 \<Rightarrow> (nat \<Rightarrow> u64) \<Rightarrow> ptr \<Rightarrow> ('f, 'r) gesture_step" where
  "TouchScreenActionHandler F answer t t' pMotionEvent s = do {
     assert (pMotionEvent \<noteq> NULL);
     let acts = actions s pMotionEvent;
     let s = upd_det (fold (note_down t) (enumerate 0 acts)) s;
     let (focusX, focusY, n) = focus F acts;
     actions_loop F answer t t' focusX focusY acts (enumerate 0 acts) s }"

subsection \<open>Set-up and messages\<close>

definition CGestureDetector :: "ptr \<Rightarrow> ptr \<Rightarrow> ('f, 'r) gesture_step" where
  "CGestureDetector pThis pScale s = do {
     assert (pThis \<noteq> NULL);
     assert (gesture_this s = NULL);
     CScaleGestureDetector pScale (s\<lparr>gesture_this := pThis\<rparr>) }"

definition GestureDetectorInitialize :: "ptr \<Rightarrow> ('f, 'r) gesture_step" where
  "GestureDetectorInitialize handler s = do {
     assert (gesture_this s \<noteq> NULL);
     let s = upd_det (\<lambda>d. d\<lparr>mTouchSlopSquare := TOUCH_SLOP * TOUCH_SLOP, mDoubleTapSlopSquare := DOUBLE_TAP_SLOP * DOUBLE_TAP_SLOP,
               mDoubleTapTouchSlopSquare := TOUCH_SLOP * TOUCH_SLOP, mMinimumFlingVelocity := MINIMUM_FLING_VELOCITY,
               mIsLongpressEnabled := True, mScrollingFlg := False\<rparr>) s;
     p \<leftarrow> TouchScreenDeviceGet s;
     s \<leftarrow> TouchScreenRegisterActionHandler p handler s;
     Some (ScaleGestureDetectorInitialize s) }"

definition GestureSetGestureListener :: "ptr \<Rightarrow> ('f, 'r) gesture_state_scheme \<Rightarrow> ('f, 'r) gesture_state_scheme" where
  "GestureSetGestureListener l s = upd_det (\<lambda>d. d\<lparr>mListener := l\<rparr>) s"

definition GestureSetDoubleTapListener :: "ptr \<Rightarrow> ('f, 'r) gesture_state_scheme \<Rightarrow> ('f, 'r) gesture_state_scheme" where
  "GestureSetDoubleTapListener l s = upd_det (\<lambda>d. d\<lparr>mDoubleTapListener := l\<rparr>) s"

definition GestureSetScaleGestureListener :: "ptr \<Rightarrow> ('f, 'r) gesture_state_scheme \<Rightarrow> ('f, 'r) gesture_state_scheme" where
  "GestureSetScaleGestureListener l s = upd_scale (\<lambda>d. d\<lparr>sc_mListener := l\<rparr>) s"

definition dispatchLongPress :: "('f, 'r) gesture_step" where
  "dispatchLongPress s = do {
     s \<leftarrow> RemoveMessage GESTURE_MESSAGE_TYPE_TAP s;
     let s = upd_det (\<lambda>d. d\<lparr>mDeferConfirmSingleTap := False, mInLongPress := True\<rparr>) s;
     notify (mListener (det s)) (OnLongPress (mCurrentDownEvent (det s))) s }"

definition GestureHandleMessage :: "u32 \<Rightarrow> ('f, 'r) gesture_step" where
  "GestureHandleMessage msgType s =
     (if msgType = GESTURE_MESSAGE_TYPE_SHOW_PRESS then notify (mListener (det s)) (OnShowPress (mCurrentDownEvent (det s))) s
      else if msgType = GESTURE_MESSAGE_TYPE_LONG_PRESS then dispatchLongPress s
      else if msgType = GESTURE_MESSAGE_TYPE_TAP then
        (if mDoubleTapListener (det s) \<noteq> NULL then
           (if \<not> mStillDown (det s) then notify (mDoubleTapListener (det s)) (OnSingleTapConfirmed (mCurrentDownEvent (det s))) s
            else Some (upd_det (\<lambda>d. d\<lparr>mDeferConfirmSingleTap := True\<rparr>) s))
         else Some s)
      else Some s)"

end
