(* ===== verification/GestureProps.thy ===== *)
theory GestureProps
  imports TouchProps Gesture
begin

text \<open>
  The steps of the gesture recogniser: each of them returns if the listeners are set and there is memory for its messages, keeps
  the message queue and the heap well-formed, and leaves the touch screen alone. The predicate \<open>ok\<close> says this of a computation, with
  the number of messages that it may send; the rules for it follow the way the code composes its steps. The set of fingers is
  changed by the events as \<open>finger_step\<close> says.
\<close>

section \<open>What the queue operations leave alone\<close>

lemma mq_frame [simp]:
  "mq_state.more (set_next a q s) = mq_state.more s" "mq_state.more (mq_free a s) = mq_state.more s"
  "mq_state.more (snd (createnode wt wn s)) = mq_state.more s" "mlist (snd (createnode wt wn s)) = mlist s"
  by (simp_all add: set_next_def mq_free_def createnode_def mq_malloc_def case_prod_unfold Let_def)

lemma enqueue_loop_frame:
  fixes s s' :: "'a mq_state_scheme"
  assumes "enqueue_loop wt wn a b s = Some s'"
  shows "mq_state.more s' = mq_state.more s"
proof (rule enqueue_loop.raw_induct [where P = "\<lambda>_ _ _ _ s s'. mq_state.more s' = mq_state.more s", OF _ assms])
  fix f :: "u32 \<Rightarrow> u64 \<Rightarrow> ptr \<Rightarrow> ptr \<Rightarrow> 'a mq_state_scheme \<Rightarrow> 'a mq_state_scheme option" and wt wn a b and s s' :: "'a mq_state_scheme"
  have "mq_state.more (snd (createnode wt wn s)) = mq_state.more s" by simp
  moreover assume "\<And>wt wn a b s s'. f wt wn a b s = Some s' \<Longrightarrow> mq_state.more s' = mq_state.more s"
    "(if b \<noteq> NULL then if wn < n_when (node s b) then let (t, s) = createnode wt wn s in do { assert (t \<noteq> NULL); Some (set_next t b (set_next a t s)) }
        else f wt wn b (n_pNext (node s b)) s else let (t, s) = createnode wt wn s in Some (set_next a t s)) = Some s'"
  ultimately show "mq_state.more s' = mq_state.more s" by (auto simp: case_prod_unfold Let_def split: if_splits)
qed

lemma enqueue_frame:
  assumes "enqueueMessage wt wn l s = Some s'"
  shows "mq_state.more s' = mq_state.more s"
  using assms by (auto simp: enqueueMessage_def Let_def bind_eq_Some_conv dest!: enqueue_loop_frame split: if_splits)

lemma remove_loop_frame:
  fixes s s' :: "'a mq_state_scheme"
  assumes "remove_loop wt a b s = Some s'"
  shows "mq_state.more s' = mq_state.more s"
proof (rule remove_loop.raw_induct [where P = "\<lambda>_ _ _ s s'. mq_state.more s' = mq_state.more s", OF _ assms])
  fix f :: "u32 \<Rightarrow> ptr \<Rightarrow> ptr \<Rightarrow> 'a mq_state_scheme \<Rightarrow> 'a mq_state_scheme option" and wt a b and s s' :: "'a mq_state_scheme"
  assume f: "\<And>wt a b s s'. f wt a b s = Some s' \<Longrightarrow> mq_state.more s' = mq_state.more s"
    and b: "(if b = NULL then Some s else if n_what (node s b) = wt then let s = mq_free b (set_next a (n_pNext (node s b)) s) in f wt a (n_pNext (node s a)) s
        else f wt b (n_pNext (node s b)) s) = Some s'"
  show "mq_state.more s' = mq_state.more s" using b by (auto simp: Let_def split: if_splits dest: f)
qed

lemma remove_frame: "removeMessages wt l s = Some s' \<Longrightarrow> mq_state.more s' = mq_state.more s"
  by (auto simp: removeMessages_def Let_def dest: remove_loop_frame split: if_splits)

lemma same_more:
  fixes s s' :: "('f, 'r) gesture_state_scheme"
  assumes "mq_state.more s' = mq_state.more s"
  shows "touch_this s' = touch_this s" "dev s' = dev s" "ft s' = ft s" "actions s' = actions s" "motion s' = motion s" "sync s' = sync s"
    "gesture_this s' = gesture_this s" "scale_this s' = scale_this s" "det s' = det s" "g_pMessageQueue s' = g_pMessageQueue s" "calls s' = calls s"
    "gesture_state.more s' = gesture_state.more s"
  using assms by (cases s; cases s'; simp)+


section \<open>Room on the heap\<close>

text \<open>Room for \<open>n\<close> more blocks of the smallest class, on one side of the frame buffer.\<close>

definition slack :: "nat \<Rightarrow> alloc_state \<Rightarrow> bool" where
  "slack n h \<longleftrightarrow> unat (s_pNextBlock h) + n * 80 \<le> unat (s_pBlockLimit h) \<and>
     (unat (s_pNextBlock h) + n * 80 \<le> unat CONFIG_FB_ADDR \<or> unat FB_END < unat (s_pNextBlock h))"

lemma slack_mono: "slack n h \<Longrightarrow> m \<le> n \<Longrightarrow> slack m h"
  unfolding slack_def using mult_le_mono1 [of m n 80] by linarith

lemma free_list_nonnull:
  assumes "heap_inv L h" "i < length (s_BlockBucket h)" "snd (s_BlockBucket h ! i) \<noteq> NULL"
  shows "snd (s_BlockBucket h ! i) + 16 \<noteq> NULL"
proof
  let ?q = "snd (s_BlockBucket h ! i)"
  assume e: "?q + 16 = NULL"
  obtain fl where ok: "pool_ok block_sizes (s_pNextBlock h) (s_BlockBucket h) (blk h) fl ((\<lambda>p. p - 16) ` L)"
    using assms(1) by (rule heap_inv_pool)
  have "linked (\<lambda>a. pNext (blk h a)) ?q (fl ! i)" "length fl = length (s_BlockBucket h)" using pool_okD(2,3) [OF ok] assms(2) by auto
  then have "?q \<in> set (concat fl)" using assms(2,3) by (cases "fl ! i") (auto intro!: bexI [of _ "fl ! i"] simp flip: in_set_conv_nth, metis nth_mem)
  then have "unat ?q + 16 \<le> unat (s_pNextBlock h)" using blocks_okD(3) [OF pool_okD(8) [OF ok], of ?q] by auto
  moreover have "unat (s_pNextBlock h) \<le> unat MAX_MEMORY" using assms(1) by (auto simp: heap_inv_def)
  moreover have "?q = - 16" using e by (simp add: eq_neg_iff_add_eq_0)
  ultimately show False by (simp add: MAX_MEMORY_def)
qed

lemma small_malloc:
  assumes "heap_inv L h" "slack (Suc k) h" "n \<le> 0x40"
  shows "\<exists>p h'. malloc n h = (p, h') \<and> p \<noteq> NULL \<and> slack k h'"
proof -
  have b: "map fst (s_BlockBucket h) = block_sizes" using assms(1) pool_okD(1) by (auto simp: heap_inv_def)
  then obtain q bs where q: "s_BlockBucket h = (0x40, q) # bs" by (cases "s_BlockBucket h") (auto simp: block_sizes_def)
  have f: "find_bucket n (s_BlockBucket h) = Some 0" using assms(3) by (simp add: q)
  have nz: "s_pNextBlock h \<noteq> 0" using assms(1) by (auto simp: heap_inv_def)
  show ?thesis
  proof (cases "q = NULL")
    case False
    then have "q + 16 \<noteq> NULL" using free_list_nonnull [OF assms(1), of 0] by (simp add: q)
    moreover have "slack k h" using slack_mono [OF assms(2)] by simp
    ultimately show ?thesis using nz f False by (simp add: malloc_def q Let_def slack_def)
  next
    case True
    have lim: "unat (s_pBlockLimit h) \<le> unat MAX_MEMORY" using assms(1) by (simp add: heap_inv_def)
    have u: "unat (s_pNextBlock h + 80) = unat (s_pNextBlock h) + 80"
      using assms(2) lim by (subst unat_add_no_wrap) (simp_all add: slack_def MAX_MEMORY_def)
    have "block_extent 0x40 = 80" by (simp add: block_extent_def)
    moreover have "(s_pNextBlock h + 80 > CONFIG_FB_ADDR \<and> s_pNextBlock h + 80 \<le> FB_END) = False" "\<not> s_pNextBlock h + 80 > s_pBlockLimit h"
      using assms(2) by (auto simp: slack_def word_less_nat_alt word_le_nat_alt u)
    moreover have "s_pNextBlock h + 16 \<noteq> NULL"
    proof -
      have "unat (s_pNextBlock h + 16) = unat (s_pNextBlock h) + 16"
        using assms(2) lim by (subst unat_add_no_wrap) (simp_all add: slack_def MAX_MEMORY_def)
      then show ?thesis by (metis add_gr_0 unat_eq_zero zero_less_numeral less_irrefl)
    qed
    moreover have "slack k (h\<lparr>s_pNextBlock := s_pNextBlock h + 80, blk := B\<rparr>)" for B using assms(2) by (auto simp: slack_def u)
    ultimately show ?thesis using nz assms(3) True by (simp only: malloc_def q) (auto simp: Let_def)
  qed
qed

lemma slack_free: "slack n (free p h) = slack n h"
  by (auto simp: slack_def free_def Let_def split: option.split prod.split)

lemma remove_loop_slack:
  fixes s s' :: "'a mq_state_scheme"
  assumes "remove_loop wt a b s = Some s'"
  shows "slack n (heap (ks s')) = slack n (heap (ks s))"
proof (rule remove_loop.raw_induct [where P = "\<lambda>_ _ _ s s'. slack n (heap (ks s')) = slack n (heap (ks s))", OF _ assms])
  fix f :: "u32 \<Rightarrow> ptr \<Rightarrow> ptr \<Rightarrow> 'a mq_state_scheme \<Rightarrow> 'a mq_state_scheme option" and wt a b and s s' :: "'a mq_state_scheme"
  assume f: "\<And>wt a b s s'. f wt a b s = Some s' \<Longrightarrow> slack n (heap (ks s')) = slack n (heap (ks s))"
    and b: "(if b = NULL then Some s else if n_what (node s b) = wt then let s = mq_free b (set_next a (n_pNext (node s b)) s) in f wt a (n_pNext (node s a)) s
        else f wt b (n_pNext (node s b)) s) = Some s'"
  show "slack n (heap (ks s')) = slack n (heap (ks s))" using b by (auto simp: Let_def slack_free split: if_splits dest: f)
qed

lemma has_loop_total:
  assumes "linked (\<lambda>a. n_pNext (node s a)) c as"
  shows "has_loop wt c s = Some (wt \<in> n_what ` node s ` set as)"
  using assms
proof (induction as arbitrary: c)
  case Nil
  then show ?case by (subst has_loop.simps) simp
next
  case (Cons a as)
  then show ?case by (subst has_loop.simps) auto
qed

section \<open>Steps of the recogniser\<close>

text \<open>The queue of the recogniser is well-formed, and \<open>X\<close> are other blocks in use.\<close>

definition others_live :: "ptr set \<Rightarrow> ('f, 'r) gesture_state_scheme \<Rightarrow> bool" where
  "others_live X s \<longleftrightarrow> (\<exists>L as. queue_at L (g_pMessageQueue s) as s \<and> X \<subseteq> L - insert (pHead (mlist s (g_pMessageQueue s))) (set as))"

definition heard :: "('f, 'r) gesture_state_scheme \<Rightarrow> bool" where
  "heard s \<longleftrightarrow> mListener (det s) \<noteq> NULL \<and> mDoubleTapListener (det s) \<noteq> NULL \<and> sc_mListener (scale s) \<noteq> NULL"

definition safe :: "ptr set \<Rightarrow> nat \<Rightarrow> ('f, 'r) gesture_state_scheme \<Rightarrow> bool" where
  "safe X m s \<longleftrightarrow> others_live X s \<and> slack m (heap (ks s)) \<and> heard s"

definition same_touch :: "('f, 'r) gesture_state_scheme \<Rightarrow> ('f, 'r) gesture_state_scheme \<Rightarrow> bool" where
  "same_touch s s' \<longleftrightarrow> dev s' = dev s \<and> ft s' = ft s \<and> actions s' = actions s \<and> motion s' = motion s \<and> sync s' = sync s \<and>
     g_pMessageQueue s' = g_pMessageQueue s \<and> mFingerStatus (det s') = mFingerStatus (det s)"

text \<open>A computation from \<open>s\<close> that returns if there is room for \<open>n\<close> messages, keeps the memory in order, and concerns neither the touch
  screen nor the set of fingers.\<close>

definition ok :: "nat \<Rightarrow> ('f, 'r) gesture_state_scheme \<Rightarrow> ('f, 'r) gesture_state_scheme option \<Rightarrow> bool" where
  "ok n s r \<longleftrightarrow> (\<forall>X m. safe X (n + m) s \<longrightarrow> (\<exists>s'. r = Some s' \<and> safe X m s' \<and> same_touch s s'))"

definition quiet :: "('f, 'r) gesture_state_scheme \<Rightarrow> ('f, 'r) gesture_state_scheme \<Rightarrow> bool" where
  "quiet s s' \<longleftrightarrow> same_touch s s' \<and> ks s' = ks s \<and> node s' = node s \<and> mlist s' = mlist s \<and> (heard s \<longrightarrow> heard s')"

lemma safe_slack: "safe X m s \<Longrightarrow> n \<le> m \<Longrightarrow> safe X n s"
  using slack_mono by (auto simp: safe_def)

lemma quiet_safe: "quiet s s' \<Longrightarrow> safe X m s \<Longrightarrow> safe X m s'"
  by (auto simp: quiet_def safe_def others_live_def same_touch_def queue_at_def)

lemma same_touch_trans: "same_touch s s1 \<Longrightarrow> same_touch s1 s2 \<Longrightarrow> same_touch s s2"
  by (simp add: same_touch_def)

lemma ok_Some: "quiet s s' \<Longrightarrow> ok 0 s (Some s')"
  by (auto simp: ok_def quiet_safe quiet_def intro: quiet_safe)

lemma ok_refl: "ok 0 s (Some s)"
  by (rule ok_Some) (simp add: quiet_def same_touch_def)

lemma ok_mono: "ok n s r \<Longrightarrow> n \<le> k \<Longrightarrow> ok k s r"
  unfolding ok_def using safe_slack by (meson add_le_mono1)

lemma ok_quiet: "quiet s s1 \<Longrightarrow> ok n s1 r \<Longrightarrow> ok n s r"
  unfolding ok_def using quiet_safe same_touch_trans by (metis quiet_def)

lemma ok_bind:
  assumes "ok n s r" "\<And>s'. ok k s' (g s')"
  shows "ok (n + k) s (r \<bind> g)"
  unfolding ok_def
proof (intro allI impI)
  fix X m assume "safe X (n + k + m) s"
  then obtain s1 where 1: "r = Some s1" "safe X (k + m) s1" "same_touch s s1" using assms(1) by (auto simp: ok_def add.assoc)
  then obtain s2 where "g s1 = Some s2" "safe X m s2" "same_touch s1 s2" using assms(2) [of s1] by (auto simp: ok_def)
  then show "\<exists>s'. r \<bind> g = Some s' \<and> safe X m s' \<and> same_touch s s'" using 1 same_touch_trans by auto
qed

lemma ok_bind0: "ok 0 s r \<Longrightarrow> (\<And>s'. ok k s' (g s')) \<Longrightarrow> ok k s (r \<bind> g)"
  using ok_bind [of 0 s r k g] by simp

lemma ok_then0: "ok n s r \<Longrightarrow> (\<And>s'. ok 0 s' (g s')) \<Longrightarrow> ok n s (r \<bind> g)"
  using ok_bind [of n s r 0 g] by simp

lemma ok_if: "(b \<Longrightarrow> ok n s r) \<Longrightarrow> (\<not> b \<Longrightarrow> ok n s r') \<Longrightarrow> ok n s (if b then r else r')"
  by simp

lemma quiet_det:
  "mFingerStatus (h (det s)) = mFingerStatus (det s) \<Longrightarrow> mListener (h (det s)) = mListener (det s) \<Longrightarrow>
   mDoubleTapListener (h (det s)) = mDoubleTapListener (det s) \<Longrightarrow> sc_mListener (mScaleGestureDetector (h (det s))) = sc_mListener (scale s) \<Longrightarrow>
   quiet s (upd_det h s)"
  by (simp add: quiet_def upd_det_def same_touch_def heard_def)

lemma quiet_scale: "sc_mListener (h (scale s)) = sc_mListener (scale s) \<Longrightarrow> quiet s (upd_scale h s)"
  unfolding upd_scale_def by (rule quiet_det) simp_all

lemma ok_notify: "(heard s \<Longrightarrow> l \<noteq> NULL) \<Longrightarrow> ok 0 s (notify l c s)"
  by (auto simp: ok_def safe_def notify_def same_touch_def heard_def others_live_def queue_at_def)

lemma ok_listeners:
  "ok 0 s (notify (mListener (det s)) c s)" "ok 0 s (notify (mDoubleTapListener (det s)) c s)" "ok 0 s (notify (sc_mListener (scale s)) c s)"
  by (rule ok_notify, simp add: heard_def)+

lemma ok_remove:
  assumes "t < GESTURE_MESSAGE_TYPE_MAX_NUMBER"
  shows "ok 0 s (RemoveMessage t s)"
  unfolding ok_def
proof (intro allI impI)
  fix X m assume s: "safe X (0 + m) s"
  let ?l = "g_pMessageQueue s"
  obtain L as where q: "queue_at L ?l as s" "X \<subseteq> L - insert (pHead (mlist s ?l)) (set as)" using s by (auto simp: safe_def others_live_def)
  obtain s' as' where r: "removeMessages t ?l s = Some s'" "queue_at (L - (set as - set as')) ?l as' s'" "set as' \<subseteq> set as" "mlist s' = mlist s"
    using remove_spec [OF q(1), of t] by blast
  note F = same_more [OF remove_frame [OF r(1)]]
  have "slack m (heap (ks s'))"
    using r(1) s queue_atD(1,3) [OF q(1) refl] by (auto simp: removeMessages_def Let_def safe_def dest: remove_loop_slack [of _ _ _ _ _ m])
  moreover have "others_live X s'" using r(2-4) q(2) F by (auto simp: others_live_def)
  moreover have "RemoveMessage t s = Some s'" using r(1) assms by (simp add: RemoveMessage_def)
  ultimately show "\<exists>s'. RemoveMessage t s = Some s' \<and> safe X m s' \<and> same_touch s s'"
    using s F by (auto simp: safe_def same_touch_def heard_def)
qed

lemma createnode_room:
  assumes "heap_inv L (heap (ks s))" "slack (Suc k) (heap (ks s))"
  shows "fst (createnode wt wn s) \<noteq> NULL" "slack k (heap (ks (snd (createnode wt wn s))))"
proof -
  obtain p h' where "malloc sizeof_TNode (heap (ks s)) = (p, h')" "p \<noteq> NULL" "slack k h'"
    using small_malloc [OF assms, of sizeof_TNode] by (auto simp: sizeof_TNode_def)
  then show "fst (createnode wt wn s) \<noteq> NULL" "slack k (heap (ks (snd (createnode wt wn s))))"
    by (simp_all add: createnode_def mq_malloc_def kmalloc_def)
qed

lemma ok_send:
  assumes "t < GESTURE_MESSAGE_TYPE_MAX_NUMBER"
  shows "ok 1 s (sendMessageAtTime t w s)"
  unfolding ok_def
proof (intro allI impI)
  fix X m assume s: "safe X (1 + m) s"
  let ?l = "g_pMessageQueue s"
  obtain L as where q: "queue_at L ?l as s" "X \<subseteq> L - insert (pHead (mlist s ?l)) (set as)" using s by (auto simp: safe_def others_live_def)
  have sl: "slack (Suc m) (heap (ks s))" using s by (simp add: safe_def)
  note R = createnode_room [OF queue_atD(2) [OF q(1) refl] sl]
  obtain s' p as' where r: "enqueueMessage t w ?l s = Some s'" "queue_at (insert p L) ?l as' s'" "p \<notin> L" "set as' = insert p (set as)" "mlist s' = mlist s"
    "heap (ks s') = heap (ks (snd (createnode t w s)))"
    using enqueue_spec [OF q(1) R(1), of t w] by blast
  note F = same_more [OF enqueue_frame [OF r(1)]]
  have "X \<subseteq> insert p L - insert (pHead (mlist s ?l)) (set as')" using r(3,4) q(2) by auto
  then have "others_live X s'" unfolding others_live_def F(10) r(5) using r(2) by blast
  moreover have "sendMessageAtTime t w s = Some s'" using r(1) assms by (simp add: sendMessageAtTime_def)
  ultimately show "\<exists>s'. sendMessageAtTime t w s = Some s' \<and> safe X m s' \<and> same_touch s s'"
    using s F r(6) R(2) by (auto simp: safe_def same_touch_def heard_def)
qed

lemma send_delayed: "sendMessageDelayed t' t d s = sendMessageAtTime t (t' + d) s"
  by (simp add: sendMessageDelayed_def sendMessageAtTime_def)

lemmas message_types = GESTURE_MESSAGE_TYPE_SHOW_PRESS_def GESTURE_MESSAGE_TYPE_LONG_PRESS_def GESTURE_MESSAGE_TYPE_TAP_def
  GESTURE_MESSAGE_TYPE_MAX_NUMBER_def

lemma ok_types [simp]: "GESTURE_MESSAGE_TYPE_SHOW_PRESS < GESTURE_MESSAGE_TYPE_MAX_NUMBER"
  "GESTURE_MESSAGE_TYPE_LONG_PRESS < GESTURE_MESSAGE_TYPE_MAX_NUMBER" "GESTURE_MESSAGE_TYPE_TAP < GESTURE_MESSAGE_TYPE_MAX_NUMBER"
  by (simp_all add: message_types)

lemma ok_det [intro]:
  assumes "\<And>d. mFingerStatus (h d) = mFingerStatus d \<and> mListener (h d) = mListener d \<and> mDoubleTapListener (h d) = mDoubleTapListener d \<and>
     sc_mListener (mScaleGestureDetector (h d)) = sc_mListener (mScaleGestureDetector d)"
  shows "ok 0 s (Some (upd_det h s))" "ok n (upd_det h s) r \<Longrightarrow> ok n s r"
proof -
  have "quiet s (upd_det h s)" by (rule quiet_det) (simp_all add: assms)
  then show "ok 0 s (Some (upd_det h s))" "ok n (upd_det h s) r \<Longrightarrow> ok n s r" using ok_Some ok_quiet by blast+
qed

lemma ok_scale:
  assumes "\<And>d. sc_mListener (h d) = sc_mListener d"
  shows "ok 0 s (Some (upd_scale h s))" "ok n (upd_scale h s) r \<Longrightarrow> ok n s r"
  unfolding upd_scale_def by (rule ok_det(1), simp add: assms) (erule ok_det(2) [rotated], simp add: assms)

lemma ok_cancelTaps: "ok 0 s (cancelTaps s)"
  unfolding cancelTaps_def by (intro ok_bind0 ok_remove ok_types ok_det(1)) simp_all

lemma ok_scale_end: "ok 0 s (scale_end v s)"
  unfolding scale_end_def by (intro ok_bind0 ok_notify ok_scale(1)) (simp_all add: heard_def)

lemma ok_scale_move: "ok 0 s (scale_move answer x y v s)"
proof -
  define s1 where "s1 = upd_scale (\<lambda>d. d\<lparr>mCurrSpanX := x, mCurrSpanY := y, mCurrSpan := v\<rparr>) s"
  have "ok 0 s1 (do { s \<leftarrow> (if mInProgress (scale s1) then notify (sc_mListener (scale s1)) (OnScale (scale s1)) s1 else Some s1);
     Some (if \<not> mInProgress (scale s1) \<or> answer (OnScale (scale s1))
           then upd_scale (\<lambda>d. d\<lparr>mPrevSpanX := mCurrSpanX d, mPrevSpanY := mCurrSpanY d, mPrevSpan := mCurrSpan d, mPrevTime := mCurrTime d\<rparr>) s
           else s) })"
    by (intro ok_bind0 ok_if ok_notify ok_refl) (auto simp: heard_def intro: ok_refl ok_scale(1))
  then show ?thesis unfolding s1_def scale_move_def Let_def by (rule ok_scale(2) [rotated]) simp
qed

lemma ok_let: "quiet s v \<Longrightarrow> (\<And>x. ok n x (R x)) \<Longrightarrow> ok n s (Let v R)"
  by (simp add: ok_quiet)

lemma ok_val: "(\<And>x. ok n s (R x)) \<Longrightarrow> ok n s (Let v R)"
  by simp

lemma ok_prod: "(\<And>x y. ok n s (R x y)) \<Longrightarrow> ok n s (case_prod R v)"
  by (simp add: case_prod_unfold)

lemma quiet_refl [simp]: "quiet s s" by (simp add: quiet_def same_touch_def)

lemma ok_scale_begin: "ok 0 s (do {
    s \<leftarrow> notify (sc_mListener (scale s)) (OnScaleBegin (scale s)) s; Some (upd_scale (\<lambda>d. d\<lparr>mInProgress := b\<rparr>) s) })"
  by (intro ok_bind0 ok_notify ok_scale(1)) (simp_all add: heard_def)

lemma quiet_if: "quiet s s1 \<Longrightarrow> quiet s (if b then s1 else s)" by simp

lemma ok_scale_event: "ok 0 s (ScaleGestureDetectorOnTouchEvent F answer Event t acts s)"
  unfolding ScaleGestureDetectorOnTouchEvent_def
  by ((rule ok_let ok_bind0 ok_if ok_refl ok_scale_end ok_scale_move ok_prod ok_scale(1) quiet_scale quiet_if ok_notify | rule ok_val | simp add: heard_def)+)

lemma ok_fling: "ok 0 s (fling F i t x y ev s)"
  unfolding fling_def by (rule ok_val, intro ok_if ok_refl ok_notify) (simp add: heard_def)

lemma quiet_focus: "quiet s (upd_det (set_focus x y) s)"
  by (rule quiet_det) (simp_all add: set_focus_def)

lemma ok_pointer_up: "ok 0 s (Some (pointer_up F i t x y fx fy acts s))"
  unfolding pointer_up_def by (rule ok_det(1)) (simp add: Let_def set_focus_def clear_velocity_def)

lemma ok_has:
  assumes "\<And>b. ok n s (g b)"
  shows "ok n s (hasSpecificMessage t (g_pMessageQueue s) s \<bind> g)"
  unfolding ok_def
proof (intro allI impI)
  fix X m assume s: "safe X (n + m) s"
  then obtain L as where q: "queue_at L (g_pMessageQueue s) as s" by (auto simp: safe_def others_live_def)
  note D = queue_atD [OF q refl]
  have "hasSpecificMessage t (g_pMessageQueue s) s = Some (t \<in> n_what ` node s ` set as)"
    using D(1,3) has_loop_total [OF D(8)] by (simp add: hasSpecificMessage_def)
  then show "\<exists>s'. hasSpecificMessage t (g_pMessageQueue s) s \<bind> g = Some s' \<and> safe X m s' \<and> same_touch s s'"
    using assms s by (simp add: ok_def)
qed

lemma ok_down_tap: "ok 1 s (down_tap t' ev s)"
proof -
  have "ok 1 s (do { s \<leftarrow> (if b then RemoveMessage GESTURE_MESSAGE_TYPE_TAP s else Some s);
      if IsValidEvent (mCurrentDownEvent (det s)) \<and> IsValidEvent (mPreviousUpEvent (det s)) \<and> b \<and>
           isConsideredDoubleTap (det s) (mCurrentDownEvent (det s)) (mPreviousUpEvent (det s)) ev
        then do {
          let s = upd_det (\<lambda>d. d\<lparr>mIsDoubleTapping := True\<rparr>) s;
          s \<leftarrow> notify (mDoubleTapListener (det s)) (OnDoubleTap (mCurrentDownEvent (det s))) s;
          notify (mDoubleTapListener (det s)) (OnDoubleTapEvent ev) s }
        else sendMessageDelayed t' GESTURE_MESSAGE_TYPE_TAP DOUBLE_TAP_TIMEOUT s })" for b
    by (rule ok_bind0, intro ok_if ok_remove ok_refl ok_types, rule ok_if, rule ok_mono [of 0])
      ((rule ok_let quiet_det ok_bind0 ok_notify | simp add: heard_def send_delayed ok_send del: One_nat_def)+)
  then show ?thesis unfolding down_tap_def by (intro ok_if ok_has ok_mono [OF ok_refl]) simp_all
qed

lemma ok_action_down: "ok 3 s (action_down t' fx fy ev s)"
proof -
  have long: "ok 1 s (if mIsLongpressEnabled (det s) then do { s \<leftarrow> RemoveMessage GESTURE_MESSAGE_TYPE_LONG_PRESS s;
     sendMessageAtTime GESTURE_MESSAGE_TYPE_LONG_PRESS (nEventTime (mCurrentDownEvent (det s)) + TAP_TIMEOUT + LONGPRESS_TIMEOUT) s } else Some s)" for s :: "('a, 'b) gesture_state_scheme"
    by (intro ok_if ok_bind0 ok_remove ok_send ok_types ok_mono [OF ok_refl]) simp
  have rest: "ok 1 s (do { s \<leftarrow> sendMessageAtTime GESTURE_MESSAGE_TYPE_SHOW_PRESS (nEventTime (mCurrentDownEvent (det s)) + TAP_TIMEOUT) s; notify (mListener (det s)) (OnDown ev) s })" for s :: "('a, 'b) gesture_state_scheme"
    by (intro ok_then0 ok_send ok_types ok_listeners)
  have "ok (1 + (1 + 1)) s (action_down t' fx fy ev s)"
    unfolding action_down_def by (rule ok_bind [OF ok_down_tap ok_let [OF quiet_det ok_bind [OF long rest]]]) (simp_all add: set_focus_def)
  then show ?thesis by (simp add: numeral_3_eq_3)
qed

lemma ok_pointer_move: "ok 0 s (pointer_move F i t x y ev s)"
  unfolding pointer_move_def
  by (rule ok_let [OF quiet_det], simp_all) (intro ok_bind0 ok_remove ok_types ok_quiet [OF quiet_det ok_fling], simp_all)

lemma ok_scroll: "ok 0 s (scroll x y ev s)"
  unfolding scroll_def by (rule ok_let [OF quiet_det], simp_all) (rule ok_listeners)

lemma ok_leave_tap_region: "ok 0 s (leave_tap_region F fx fy sx sy ev s)"
proof -
  have far: "ok 0 s (let s = upd_det (\<lambda>d. d\<lparr>mLastFocusX := fx, mLastFocusY := fy, mAlwaysInTapRegion := False\<rparr>) s
     in do { s \<leftarrow> RemoveMessage GESTURE_MESSAGE_TYPE_SHOW_PRESS s; s \<leftarrow> RemoveMessage GESTURE_MESSAGE_TYPE_LONG_PRESS s;
          scroll sx sy ev (upd_det (\<lambda>d. d\<lparr>mInLongPress := False\<rparr>) s) })" for s :: "('a, 'b) gesture_state_scheme"
    by (rule ok_let [OF quiet_det], simp_all) (intro ok_bind0 ok_remove ok_types ok_quiet [OF quiet_det ok_scroll], simp_all)
  have near: "ok 0 s (Some (if b then upd_det (\<lambda>d. d\<lparr>mAlwaysInBiggerTapRegion := False\<rparr>) s else s))" for b and s :: "('a, 'b) gesture_state_scheme"
    by (rule ok_Some, rule quiet_if, rule quiet_det) simp_all
  show ?thesis unfolding leave_tap_region_def by (intro ok_val ok_bind0 ok_if far near ok_refl)
qed

lemma ok_action_move: "ok 0 s (action_move F fx fy ev s)"
proof -
  have "ok 0 s (do { s \<leftarrow> scroll x y ev s; Some (upd_det (\<lambda>d. d\<lparr>mLastFocusX := fx, mLastFocusY := fy\<rparr>) s) })" for x y
    by (intro ok_bind0 ok_scroll ok_det(1)) simp
  then show ?thesis unfolding action_move_def by (intro ok_if ok_val ok_refl ok_listeners ok_leave_tap_region)
qed

lemma ok_up_gesture: "ok 0 s (up_gesture F i t x y ev s)"
  unfolding up_gesture_def by (intro ok_if ok_bind0 ok_refl ok_listeners ok_fling ok_remove ok_types ok_det(1)) simp

lemma ok_action_up: "ok 0 s (action_up F i t x y ev s)"
proof -
  have rest: "ok 0 s (let s = upd_det (\<lambda>d. (clear_velocity d)\<lparr>mPreviousUpEvent := ev, mIsDoubleTapping := False, mDeferConfirmSingleTap := False,
               mIgnoreNextUpEvent := False, mScrollingFlg := False\<rparr>) s
     in do { s \<leftarrow> RemoveMessage GESTURE_MESSAGE_TYPE_SHOW_PRESS s; RemoveMessage GESTURE_MESSAGE_TYPE_LONG_PRESS s })" for s :: "('a, 'b) gesture_state_scheme"
    by (rule ok_let [OF quiet_det], simp_all add: clear_velocity_def) (intro ok_bind0 ok_remove ok_types)
  show ?thesis unfolding action_up_def by (rule ok_bind0 [OF ok_quiet [OF quiet_det ok_up_gesture] rest]) simp_all
qed

lemma ok_event: "ok 3 s (TouchScreenEventHandler F answer t' Event i t x y fx fy acts s)"
proof -
  have "ok 3 s (case Event of
         GESTURE_ACTION_TYPE_ACTION_POINTER_DOWN \<Rightarrow> cancelTaps (upd_det (set_focus fx fy) s)
       | GESTURE_ACTION_TYPE_ACTION_POINTER_UP \<Rightarrow> Some (pointer_up F i t x y fx fy acts s)
       | GESTURE_ACTION_TYPE_ACTION_DOWN \<Rightarrow> action_down t' fx fy ev s
       | GESTURE_ACTION_TYPE_ACTION_POINTER_MOVE \<Rightarrow> pointer_move F i t x y ev s
       | GESTURE_ACTION_TYPE_ACTION_MOVE \<Rightarrow> action_move F fx fy ev s
       | GESTURE_ACTION_TYPE_ACTION_UP \<Rightarrow> action_up F i t x y ev s
       | GESTURE_ACTION_TYPE_ACTION_CANCEL \<Rightarrow> Some s)" for ev and s :: "('a, 'b) gesture_state_scheme"
    by (cases Event) (simp_all add: ok_mono [OF ok_pointer_up] ok_mono [OF ok_pointer_move] ok_mono [OF ok_action_move] ok_mono [OF ok_action_up]
      ok_mono [OF ok_refl] ok_action_down ok_mono [OF ok_quiet [OF quiet_focus ok_cancelTaps]])
  then show ?thesis unfolding TouchScreenEventHandler_def
    by (intro ok_val ok_bind0 ok_scale_event ok_if) (simp_all add: ok_mono [OF ok_refl])
qed

section \<open>The fingers\<close>

definition same_dev :: "('f, 'r) gesture_state_scheme \<Rightarrow> ('f, 'r) gesture_state_scheme \<Rightarrow> bool" where
  "same_dev s s' \<longleftrightarrow> dev s' = dev s \<and> ft s' = ft s \<and> actions s' = actions s \<and> motion s' = motion s \<and> sync s' = sync s \<and>
     g_pMessageQueue s' = g_pMessageQueue s"

text \<open>What the events of an array make of the set of fingers.\<close>

definition fingers_after :: "(nat \<times> TTouchScreenAction) list \<Rightarrow> u32 \<Rightarrow> u32" where
  "fingers_after ps st = fold (\<lambda>p. finger_step (fst p) (nEvent (snd p))) ps st"

lemma finger_step_bit:
  assumes "i < TOUCH_SCREEN_MAX_POINTS"
  shows "bit (finger_step i e st) k \<longleftrightarrow> (if k = i then e = TouchScreenEventFingerDown \<or> e \<noteq> TouchScreenEventFingerUp \<and> bit st k else bit st k)"
  using assms bit_imp_le_length [of st k] by (cases e) (auto simp: finger_step_def bit_or_iff bit_and_iff bit_not_iff bit_push TOUCH_SCREEN_MAX_POINTS_def)

lemma fingers_after_bit:
  assumes "n + length acts \<le> TOUCH_SCREEN_MAX_POINTS"
  shows "bit (fingers_after (enumerate n acts) st) k \<longleftrightarrow>
    (if n \<le> k \<and> k < n + length acts then nEvent (acts ! (k - n)) = TouchScreenEventFingerDown \<or> nEvent (acts ! (k - n)) \<noteq> TouchScreenEventFingerUp \<and> bit st k
     else bit st k)"
  using assms
proof (induction acts arbitrary: n st)
  case Nil
  then show ?case by (auto simp: fingers_after_def)
next
  case (Cons a acts)
  have "bit (fingers_after (enumerate n (a # acts)) st) k = bit (fingers_after (enumerate (Suc n) acts) (finger_step n (nEvent a) st)) k"
    by (simp add: fingers_after_def)
  also have "\<dots> \<longleftrightarrow> (if n \<le> k \<and> k < n + length (a # acts) then nEvent ((a # acts) ! (k - n)) = TouchScreenEventFingerDown \<or>
      nEvent ((a # acts) ! (k - n)) \<noteq> TouchScreenEventFingerUp \<and> bit st k else bit st k)"
    using Cons.prems Cons.IH [of "Suc n"] by (auto simp: finger_step_bit nth_Cons' Suc_diff_le)
  finally show ?case .
qed

lemma handle_action_ok:
  assumes "safe X (3 + m) s"
  shows "\<exists>s'. handle_action F answer t t' fx fy acts i a s = Some s' \<and> safe X m s' \<and> same_dev s s' \<and>
    mFingerStatus (det s') = finger_step i (nEvent a) (mFingerStatus (det s))"
proof (cases "action_of (mFingerStatus (det s)) i (nEvent a)")
  case None
  then have "finger_step i (nEvent a) (mFingerStatus (det s)) = mFingerStatus (det s)" by (auto simp: action_of_def finger_step_def split: TTouchScreenEvent.splits)
  then show ?thesis using None safe_slack [OF assms, of m] by (auto simp: handle_action_def same_dev_def)
next
  case (Some Event)
  obtain s1 where 1: "TouchScreenEventHandler F answer (t' i) Event i t (nPosX a) (nPosY a) fx fy acts s = Some s1" "safe X m s1" "same_touch s s1"
    using ok_event [of s F answer "t' i" Event i t "nPosX a" "nPosY a" fx fy acts, unfolded ok_def, rule_format, OF assms] by blast
  define s2 where "s2 = upd_det (\<lambda>d. d\<lparr>mFingerStatus := finger_step i (nEvent a) (mFingerStatus d)\<rparr>) s1"
  have 2: "safe X m s2" "same_dev s s2" "mFingerStatus (det s2) = finger_step i (nEvent a) (mFingerStatus (det s))"
    using 1(2,3) by (auto simp: s2_def upd_det_def safe_def others_live_def queue_at_def heard_def same_dev_def same_touch_def)
  have "ok 0 s2 (if nEvent a = TouchScreenEventFingerUp then notify (mListener (det s2)) (OnUp t) s2 else Some s2)" by (intro ok_if ok_listeners ok_refl)
  then obtain s3 where 3: "(if nEvent a = TouchScreenEventFingerUp then notify (mListener (det s2)) (OnUp t) s2 else Some s2) = Some s3" "safe X m s3" "same_touch s2 s3"
    using 2(1) unfolding ok_def by (metis add_0)
  then have "handle_action F answer t t' fx fy acts i a s = Some s3" using Some 1(1) by (simp only: handle_action_def option.case bind.bind_lunit Let_def s2_def)
  then show ?thesis using 2 3 by (auto simp: same_dev_def same_touch_def)
qed

lemma actions_loop_ok:
  assumes "safe X (3 * length ps + m) s"
  shows "\<exists>s'. actions_loop F answer t t' fx fy acts ps s = Some s' \<and> safe X m s' \<and> same_dev s s' \<and>
    mFingerStatus (det s') = fingers_after ps (mFingerStatus (det s))"
  using assms
proof (induction ps arbitrary: s)
  case Nil
  then show ?case by (auto simp: same_dev_def fingers_after_def)
next
  case (Cons p ps)
  have "safe X (3 + (3 * length ps + m)) s" using Cons.prems by (simp add: algebra_simps)
  then obtain s1 where 1: "handle_action F answer t t' fx fy acts (fst p) (snd p) s = Some s1" "safe X (3 * length ps + m) s1" "same_dev s s1"
    "mFingerStatus (det s1) = finger_step (fst p) (nEvent (snd p)) (mFingerStatus (det s))"
    using handle_action_ok [of X "3 * length ps + m" s F answer t t' fx fy acts "fst p" "snd p"] by blast
  then obtain s2 where "actions_loop F answer t t' fx fy acts ps s1 = Some s2" "safe X m s2" "same_dev s1 s2"
    "mFingerStatus (det s2) = fingers_after ps (mFingerStatus (det s1))" using Cons.IH by blast
  then show ?case using 1 by (auto simp: same_dev_def fingers_after_def)
qed

lemma note_down_fields:
  fixes ps :: "(nat \<times> TTouchScreenAction) list"
  shows "mFingerStatus (fold (note_down t) ps d) = mFingerStatus d" "mListener (fold (note_down t) ps d) = mListener d"
    "mDoubleTapListener (fold (note_down t) ps d) = mDoubleTapListener d" "mScaleGestureDetector (fold (note_down t) ps d) = mScaleGestureDetector d"
  by (induction ps arbitrary: d) (simp_all add: note_down_def split: prod.split)

lemma handler_ok:
  assumes "safe X (15 + m) s" "p \<noteq> NULL" "length (actions s p) = TOUCH_SCREEN_MAX_POINTS"
  shows "\<exists>s'. TouchScreenActionHandler F answer t t' p s = Some s' \<and> safe X m s' \<and> same_dev s s' \<and>
    mFingerStatus (det s') = fingers_after (enumerate 0 (actions s p)) (mFingerStatus (det s))"
proof -
  define s1 where "s1 = upd_det (fold (note_down t) (enumerate 0 (actions s p))) s"
  have q: "quiet s s1" unfolding s1_def by (rule quiet_det) (simp_all add: note_down_fields)
  obtain fx fy n where f: "focus F (actions s p) = (fx, fy, n)" by (cases "focus F (actions s p)")
  obtain s' where "actions_loop F answer t t' fx fy (actions s p) (enumerate 0 (actions s p)) s1 = Some s'" "safe X m s'" "same_dev s1 s'"
    "mFingerStatus (det s') = fingers_after (enumerate 0 (actions s p)) (mFingerStatus (det s1))"
    using actions_loop_ok [of X "enumerate 0 (actions s p)" m s1 F answer t t' fx fy "actions s p"] quiet_safe [OF q assms(1)] assms(3)
    by (auto simp: TOUCH_SCREEN_MAX_POINTS_def)
  then show ?thesis using q assms(2) f by (auto simp: TouchScreenActionHandler_def s1_def [symmetric] quiet_def same_dev_def same_touch_def)
qed

end
