(* ===== verification/InputProps.thy ===== *)
theory InputProps
  imports GestureProps
begin

text \<open>
  The path of a touch: reports of the controller become arrays of events in the ring buffer, which the recogniser handles one by
  one. The steps may come in any order; the set of fingers that the recogniser has, brought up to date with the arrays that are still in the buffer,
  is always the set that the touch screen knows.
\<close>

section \<open>The system\<close>

inductive input_step :: "'f float_arith \<Rightarrow> ('f gesture_call \<Rightarrow> bool) \<Rightarrow> ('f, 'r) gesture_state_scheme \<Rightarrow> ('f, 'r) gesture_state_scheme \<Rightarrow> bool"
  for F answer where
  report: "report_ok R \<Longrightarrow> length (fifo_items (motion s)) < length (f_buf (motion s)) \<Longrightarrow> slack 1 (heap (ks s)) \<Longrightarrow>
    TouchUpdateMotionEvent (s\<lparr>ft := R\<rparr>) = Some s' \<Longrightarrow> input_step F answer s s'"
| handle: "slack 15 (heap (ks s)) \<Longrightarrow> cpuid < 4 \<Longrightarrow>
    TouchScreenUpdate cpuid (\<lambda>h. TouchScreenActionHandler F answer t t') s = Some (b, s') \<Longrightarrow> input_step F answer s s'"

inductive_cases input_stepE: "input_step F answer s s'"

definition in_flight :: "(ptr \<Rightarrow> TTouchScreenAction list) \<Rightarrow> ptr list \<Rightarrow> u32 \<Rightarrow> u32" where
  "in_flight A ps st = fold (\<lambda>p. fingers_after (enumerate 0 (A p))) ps st"

definition input_inv :: "('f, 'r) gesture_state_scheme \<Rightarrow> ptr list \<Rightarrow> bool" where
  "input_inv s ps \<longleftrightarrow> device_ok s \<and> heard s \<and> fifo_inv (motion s) \<and> fifo_items (motion s) = map sint ps \<and> distinct ps \<and>
     others_live (set ps) s \<and> in_flight (actions s) ps (mFingerStatus (det s)) = m_nKnownIDs (dev s) \<and> (\<exists>irqs. crit_ok irqs (\<lambda>_. 0) (sync s))"

section \<open>Reports\<close>

lemma event_fingers:
  assumes "length acts = TOUCH_SCREEN_MAX_POINTS" "\<forall>i. bit w i \<longleftrightarrow> i \<in> I" "\<forall>i. bit known i \<longrightarrow> i < TOUCH_SCREEN_MAX_POINTS"
    and "I \<subseteq> {..<TOUCH_SCREEN_MAX_POINTS}" "\<forall>k<TOUCH_SCREEN_MAX_POINTS. event_ok (bit known k) (k \<in> I) (nEvent (acts ! k))"
  shows "fingers_after (enumerate 0 acts) known = w" "\<not> newsworthy acts \<Longrightarrow> w = known"
proof -
  have "bit (fingers_after (enumerate 0 acts) known) k = bit w k" for k
    using assms(2-4) assms(5) [rule_format, of k] fingers_after_bit [of 0 acts known k] assms(1)
    by (cases "k < TOUCH_SCREEN_MAX_POINTS") (auto simp: event_ok_def split: if_splits)
  then show "fingers_after (enumerate 0 acts) known = w" by (simp add: bit_eq_iff)
  assume n: "\<not> newsworthy acts"
  have "bit known k = bit w k" for k
  proof (cases "k < TOUCH_SCREEN_MAX_POINTS")
    case True
    then have "acts ! k \<in> set acts" using assms(1) by simp
    then show ?thesis using n assms(2) assms(5) [rule_format, OF True] by (auto simp: newsworthy_def event_ok_def split: if_splits)
  qed (use assms(2,3,4) in auto)
  then show "w = known" by (simp add: bit_eq_iff)
qed

lemma malloc_live:
  fixes s :: "('f, 'r) gesture_state_scheme"
  assumes "others_live X s" "slack (Suc m) (heap (ks s))"
  obtains p k where "mq_malloc 60 s = (p, s\<lparr>ks := k\<rparr>)" "p \<noteq> NULL" "p \<notin> X" "others_live (insert p X) (s\<lparr>ks := k\<rparr>)" "slack m (heap k)"
proof -
  let ?l = "g_pMessageQueue s"
  obtain L as where q: "queue_at L ?l as s" "X \<subseteq> L - insert (pHead (mlist s ?l)) (set as)" using assms(1) by (auto simp: others_live_def)
  note D = queue_atD [OF q(1) refl]
  obtain p h where m: "malloc 60 (heap (ks s)) = (p, h)" "p \<noteq> NULL" and sl: "slack m h" using small_malloc [OF D(2), of m 60] assms(2) by auto
  have h: "heap_inv (insert p L) h" "p \<notin> L" using heap.alloc_inv [OF D(2) m] heap.alloc_fresh [OF D(2) m] by simp_all
  have "queue_at (insert p L) ?l as (s\<lparr>ks := (ks s)\<lparr>heap := h\<rparr>\<rparr>)" using D h by (auto simp: queue_at_def Let_def)
  moreover have "insert p X \<subseteq> insert p L - insert (pHead (mlist s ?l)) (set as)" using q(2) h(2) D(4,7) by auto
  ultimately have "others_live (insert p X) (s\<lparr>ks := (ks s)\<lparr>heap := h\<rparr>\<rparr>)" by (auto simp: others_live_def)
  moreover have "mq_malloc 60 s = (p, s\<lparr>ks := (ks s)\<lparr>heap := h\<rparr>\<rparr>)" using m(1) by (simp add: mq_malloc_def kmalloc_def)
  moreover have "slack m (heap ((ks s)\<lparr>heap := h\<rparr>))" using sl by simp
  ultimately show thesis using that m(2) h(2) q(2) by blast
qed

lemma fingers_range: "report_ok R \<Longrightarrow> fingers_of R \<subseteq> {..<TOUCH_SCREEN_MAX_POINTS}"
  by (auto simp: report_ok_def fingers_of_def)

lemma in_flight_cong: "(\<And>p. p \<in> set ps \<Longrightarrow> A p = B p) \<Longrightarrow> in_flight A ps st = in_flight B ps st"
  unfolding in_flight_def by (rule fold_cong) simp_all

lemma others_live_cong:
  assumes "g_pMessageQueue s' = g_pMessageQueue s" "node s' = node s" "mlist s' = mlist s" "heap (ks s') = heap (ks s)" "others_live X s" "Y \<subseteq> X"
  shows "others_live Y s'"
  using assms by (auto simp: others_live_def queue_at_def)

lemma report_keeps:
  fixes s :: "('f, 'r) gesture_state_scheme"
  assumes "input_inv s ps" "report_ok R" "length (fifo_items (motion s)) < length (f_buf (motion s))" "slack (Suc m) (heap (ks s))"
  shows "\<exists>s' ps'. TouchUpdateMotionEvent (s\<lparr>ft := R\<rparr>) = Some s' \<and> input_inv s' ps' \<and> slack m (heap (ks s'))"
proof (cases "idle_report (s\<lparr>ft := R\<rparr>)")
  case True
  then have "TouchUpdateMotionEvent (s\<lparr>ft := R\<rparr>) = Some (s\<lparr>ft := R\<lparr>NumPoints := 99\<rparr>\<rparr>)"
    using assms(1) by (simp add: TouchUpdateMotionEvent_def input_inv_def device_ok_def idle_report_def Let_def)
  moreover have "input_inv (s\<lparr>ft := R\<lparr>NumPoints := 99\<rparr>\<rparr>) ps"
    using assms(1) others_live_cong [of "s\<lparr>ft := R\<lparr>NumPoints := 99\<rparr>\<rparr>" s] by (auto simp: input_inv_def device_ok_def heard_def)
  ultimately show ?thesis using slack_mono [OF assms(4), of m] by auto
next
  case False
  let ?s = "s\<lparr>ft := R\<rparr>"
  have I: "device_ok ?s" "heard s" "fifo_inv (motion s)" "fifo_items (motion s) = map sint ps" "distinct ps" "others_live (set ps) ?s"
    "in_flight (actions s) ps (mFingerStatus (det s)) = m_nKnownIDs (dev s)" "\<exists>irqs. crit_ok irqs (\<lambda>_. 0) (sync s)"
    using assms(1) others_live_cong [of ?s s] by (auto simp: input_inv_def device_ok_def)
  obtain p k where M: "mq_malloc 60 ?s = (p, ?s\<lparr>ks := k\<rparr>)" "p \<noteq> NULL" "p \<notin> set ps" "others_live (insert p (set ps)) (?s\<lparr>ks := k\<rparr>)" "slack m (heap k)"
    using malloc_live [OF I(6), of m] assms(4) by auto
  have ro: "report_ok (ft ?s)" using assms(2) by simp
  obtain acts w X Y tell where U0: "length acts = TOUCH_SCREEN_MAX_POINTS" "\<forall>i. bit w i \<longleftrightarrow> i \<in> fingers_of (ft ?s)"
    "\<forall>k<TOUCH_SCREEN_MAX_POINTS. event_ok (bit (m_nKnownIDs (dev ?s)) k) (k \<in> fingers_of (ft ?s)) (nEvent (acts ! k)) \<and>
       (nEvent (acts ! k) \<noteq> TouchScreenEventUnknown \<longrightarrow> nPosX (acts ! k) = X ! k \<and> nPosY (acts ! k) = Y ! k)"
    "length X = TOUCH_SCREEN_MAX_POINTS" "length Y = TOUCH_SCREEN_MAX_POINTS" "newsworthy acts \<longrightarrow> tell"
    "TouchUpdateMotionEvent ?s =
      (let s2 = (?s\<lparr>ks := k\<rparr>)\<lparr>ft := (ft ?s)\<lparr>NumPoints := 99\<rparr>, actions := (actions ?s)(p := acts), dev := (dev ?s)\<lparr>m_nPosX := X, m_nPosY := Y, m_nKnownIDs := w\<rparr>\<rparr>
       in if tell then do { (r, f, k) \<leftarrow> putMotionEventFifo (sint p) (motion ?s) (ks (?s\<lparr>ks := k\<rparr>)); f \<leftarrow> f; Some (s2\<lparr>motion := f, ks := k\<rparr>) } else Some s2)"
    using update_spec [OF I(1) ro False M(1,2)] by blast
  note U = U0(1) U0(2) [simplified] U0(3-7)
  have U3: "\<forall>k<TOUCH_SCREEN_MAX_POINTS. event_ok (bit (m_nKnownIDs (dev s)) k) (k \<in> fingers_of R) (nEvent (acts ! k))" using U0(3) by simp
  define s2 where "s2 = (?s\<lparr>ks := k\<rparr>)\<lparr>ft := R\<lparr>NumPoints := 99\<rparr>, actions := (actions s)(p := acts), dev := (dev s)\<lparr>m_nPosX := X, m_nPosY := Y, m_nKnownIDs := w\<rparr>\<rparr>"
  have kn: "\<forall>i. bit (m_nKnownIDs (dev s)) i \<longrightarrow> i < TOUCH_SCREEN_MAX_POINTS" using I(1) by (simp add: device_ok_def)
  note E = event_fingers [OF U(1,2) kn fingers_range [OF assms(2)] U3]
  have d: "device_ok s2" using I(1) U(1,2,4,5) fingers_range [OF assms(2)] by (auto simp: device_ok_def s2_def)
  have fl: "in_flight (actions s2) ps (mFingerStatus (det s2)) = m_nKnownIDs (dev s)"
  proof -
    have "in_flight (actions s2) ps st = in_flight (actions s) ps st" for st by (rule in_flight_cong) (use M(3) in \<open>auto simp: s2_def\<close>)
    then show ?thesis using I(7) by (simp add: s2_def)
  qed
  have ol: "others_live (insert p (set ps)) s2" by (rule others_live_cong [OF _ _ _ _ M(4)]) (simp_all add: s2_def)
  show ?thesis
  proof (cases tell)
    case False
    then have "TouchUpdateMotionEvent ?s = Some s2" using U(7) by (simp add: s2_def Let_def)
    moreover have "others_live (set ps) s2" by (rule others_live_cong [OF _ _ _ _ ol]) auto
    then have "input_inv s2 ps" using d fl E(2) False U(6) I(2-5,8)
      by (auto simp: input_inv_def s2_def heard_def)
    ultimately show ?thesis using M(5) by (auto simp: s2_def)
  next
    case True
    obtain f k' where f: "fifo32_put (Some (motion s)) (sint p) k = Some (0, Some f, k')" "heap k' = heap k" "fifo_inv f" "fifo_items f = map sint ps @ [sint p]"
      using fifo_put_room [OF I(3) assms(3), of "sint p" k] I(4) by auto
    let ?s3 = "s2\<lparr>motion := f, ks := k'\<rparr>"
    have "TouchUpdateMotionEvent ?s = Some ?s3" using True U(7) f(1) by (simp add: s2_def putMotionEventFifo_def Let_def)
    moreover have "others_live (set (ps @ [p])) ?s3" by (rule others_live_cong [OF _ _ _ _ ol]) (simp_all add: s2_def f(2))
    moreover have "in_flight (actions s2) (ps @ [p]) (mFingerStatus (det s2)) = w" using fl E(1) by (simp add: in_flight_def) (simp add: s2_def)
    ultimately have "input_inv ?s3 (ps @ [p])" using d f(3,4) I(2,5,8) M(3) by (auto simp: input_inv_def device_ok_def heard_def s2_def)
    then show ?thesis using \<open>TouchUpdateMotionEvent ?s = Some ?s3\<close> M(5) f(2) by auto
  qed
qed


section \<open>Handling\<close>

lemma live_pointer:
  assumes "others_live X s" "p \<in> X"
  shows "p \<noteq> NULL" "sint p \<noteq> - 1"
proof -
  obtain L where L: "heap_inv L (heap (ks s))" "p \<in> L" using assms by (auto simp: others_live_def queue_at_def)
  then have "unat p mod 16 = 0" "p \<noteq> NULL" using heap_inv_block(2) heap.live_nonnull by blast+
  then show "p \<noteq> NULL" by simp
  show "sint p \<noteq> - 1"
  proof
    assume "sint p = - 1"
    then have "word_of_int (sint p) = (word_of_int (- 1) :: u32)" by simp
    then have "p = 0xFFFFFFFF" by simp
    then show False using \<open>unat p mod 16 = 0\<close> by simp
  qed
qed

lemma free_live:
  assumes "others_live X s" "p \<in> X"
  shows "others_live (X - {p}) (mq_free p s)"
proof -
  let ?l = "g_pMessageQueue s"
  obtain L as where q: "queue_at L ?l as s" "X \<subseteq> L - insert (pHead (mlist s ?l)) (set as)" using assms(1) by (auto simp: others_live_def)
  note D = queue_atD [OF q(1) refl]
  have p: "p \<in> L" "p \<noteq> pHead (mlist s ?l)" "p \<notin> set as" using q(2) assms(2) by auto
  have "queue_at (L - {p}) ?l as (mq_free p s)" using D p heap.dealloc_inv [OF D(2) p(1)] by (auto simp: queue_at_def Let_def)
  moreover have "g_pMessageQueue (mq_free p s) = ?l" by (simp add: mq_free_def)
  ultimately show ?thesis using q(2) unfolding others_live_def by (intro exI [of _ "L - {p}"] exI [of _ as]) auto
qed

lemma fifo_status_items: "fifo_inv f \<Longrightarrow> getMotionEventStatus f = int (length (fifo_items f))"
  by (simp add: getMotionEventStatus_def fifo32_status_def fifo_items_def fifo_inv_def)

lemma handle_keeps:
  fixes s :: "('f, 'r) gesture_state_scheme"
  assumes "input_inv s ps" "slack 15 (heap (ks s))" "cpuid < 4"
  shows "\<exists>b s' ps'. TouchScreenUpdate cpuid (\<lambda>h. TouchScreenActionHandler F answer t t') s = Some (b, s') \<and> input_inv s' ps'"
proof (cases ps)
  case Nil
  then have "getMotionEventStatus (motion s) = 0" using assms(1) fifo_status_items by (simp add: input_inv_def)
  then show ?thesis using assms(1) by (auto simp: TouchScreenUpdate_def)
next
  case (Cons p qs)
  have I: "device_ok s" "heard s" "fifo_inv (motion s)" "fifo_items (motion s) = sint p # map sint qs" "p \<notin> set qs" "distinct qs" "others_live (set ps) s"
    "in_flight (actions s) ps (mFingerStatus (det s)) = m_nKnownIDs (dev s)" using assms(1) by (auto simp: input_inv_def Cons)
  have st: "getMotionEventStatus (motion s) \<noteq> 0" using fifo_status_items [OF I(3)] I(4) by simp
  obtain irqs where irqs: "crit_ok irqs (\<lambda>_. 0) (sync s)" using assms(1) by (auto simp: input_inv_def)
  obtain c where c: "EnterCritical cpuid (sync s) = Some c" "crit_ok irqs ((\<lambda>_. 0)(cpuid := 1)) c" using enter_ok [OF irqs assms(3)] by auto
  obtain c' where c': "LeaveCritical cpuid c = Some c'" "crit_ok irqs (\<lambda>_. 0) c'"
    using leave_ok [OF c(2) assms(3)] by (auto simp: fun_upd_idem)
  show ?thesis
  proof (cases "m_pActionHandler (dev s) = NULL")
    case True
    have "others_live (set ps) (s\<lparr>sync := c'\<rparr>)" by (rule others_live_cong [OF _ _ _ _ I(7)]) simp_all
    then have "input_inv (s\<lparr>sync := c'\<rparr>) ps" using assms(1) c'(2) by (auto simp: input_inv_def device_ok_def heard_def)
    then show ?thesis using st c c' True by (auto simp: TouchScreenUpdate_def)
  next
    case False
    obtain f where f: "fifo32_get (Some (motion s)) = Some (sint p, f)" "fifo_inv f" "fifo_items f = map sint qs"
      using fifo_get_item [OF I(3,4)] by auto
    have p: "p \<noteq> NULL" "sint p \<noteq> - 1" using live_pointer [OF I(7)] Cons by auto
    let ?s1 = "s\<lparr>sync := c, motion := f\<rparr>"
    have "others_live (set ps) ?s1" by (rule others_live_cong [OF _ _ _ _ I(7)]) simp_all
    then have "safe (set ps) (15 + 0) ?s1" using assms(2) I(2) by (simp add: safe_def heard_def)
    then obtain s2 where S: "TouchScreenActionHandler F answer t t' p ?s1 = Some s2" "safe (set ps) 0 s2" "same_dev ?s1 s2"
      "mFingerStatus (det s2) = fingers_after (enumerate 0 (actions s p)) (mFingerStatus (det s))"
      using handler_ok [of "set ps" 0 ?s1 p F answer t t'] p(1) I(1) by (auto simp: device_ok_def)
    let ?s3 = "(mq_free p s2)\<lparr>sync := c'\<rparr>"
    have fr: "dev (mq_free p s2) = dev s2" "actions (mq_free p s2) = actions s2" "motion (mq_free p s2) = motion s2" "sync (mq_free p s2) = sync s2"
      "det (mq_free p s2) = det s2" by (simp_all add: mq_free_def)
    have "others_live (set qs) (mq_free p s2)" using free_live [of "set ps" s2 p] S(2) I(5) by (auto simp: safe_def Cons)
    then have "others_live (set qs) ?s3" by (rule others_live_cong [rotated 4]) simp_all
    moreover have "in_flight (actions s) qs (mFingerStatus (det s2)) = m_nKnownIDs (dev s)" using I(8) S(4) by (simp add: in_flight_def Cons)
    ultimately have "input_inv ?s3 qs" using S(2,3) f(2,3) I(1,6) c'(2)
      by (auto simp: input_inv_def fr same_dev_def device_ok_def safe_def heard_def)
    moreover have "TouchScreenUpdate cpuid (\<lambda>h. TouchScreenActionHandler F answer t t') s = Some (True, ?s3)"
      using st c(1) c'(1) False f(1) p(2) S(1,3) by (simp add: TouchScreenUpdate_def getMotionEventFifo_def Let_def fr same_dev_def)
    ultimately show ?thesis by blast
  qed
qed


section \<open>Properties\<close>

lemma input_step_keeps:
  assumes "input_step F answer s s'" "input_inv s ps"
  shows "\<exists>ps'. input_inv s' ps'"
  using assms(1)
proof (cases rule: input_step.cases)
  case (report R)
  then show ?thesis using report_keeps [OF assms(2), of R 0] by auto
next
  case (handle cpuid t t' b)
  then show ?thesis using handle_keeps [OF assms(2), of cpuid F answer t t'] by auto
qed

lemma input_run_keeps: "(input_step F answer)\<^sup>*\<^sup>* s s' \<Longrightarrow> \<exists>ps. input_inv s ps \<Longrightarrow> \<exists>ps. input_inv s' ps"
  by (induction rule: rtranclp_induct) (use input_step_keeps in blast)+

text \<open>The start: no finger is known, no array waits, the message queue is well-formed, listeners are set.\<close>

definition input_start :: "('f, 'r) gesture_state_scheme \<Rightarrow> bool" where
  "input_start s \<longleftrightarrow> device_ok s \<and> heard s \<and> fifo_inv (motion s) \<and> getMotionEventStatus (motion s) = 0 \<and>
     (\<exists>L as. queue_at L (g_pMessageQueue s) as s) \<and> mFingerStatus (det s) = 0 \<and> m_nKnownIDs (dev s) = 0 \<and> sync s = sync_static [True, True, True, True]"

lemma input_start_inv: "input_start s \<Longrightarrow> input_inv s []"
proof -
  have "crit_ok [True, True, True, True] (\<lambda>_. 0) (sync_static [True, True, True, True])"
    by (auto simp: crit_ok_def sync_static_def less_Suc_eq numeral_eq_Suc)
  then show "input_start s \<Longrightarrow> input_inv s []"
    using fifo_status_items by (auto simp: input_start_def input_inv_def in_flight_def others_live_def)
qed

text \<open>An example: a queue on a fresh heap, and a report of one finger. Numbers stand for the floating point numbers.\<close>

definition demo_arith :: "int float_arith" where
  "demo_arith = \<lparr>f_of_u32 = uint, f_of_u64 = uint, f_of_int = (\<lambda>x. x), f_trunc = (\<lambda>x. x), f_add = (+), f_sub = (-), f_mul = (*), f_div = (div), f_neg = uminus,
     f_less = (<), f_le = (\<le>), f_bits = word_of_int, f_of_bits = uint\<rparr>"

definition demo_event :: TMotionEvent where "demo_event = \<lparr>nEventTime = 0, nEventX = 0, nEventY = 0\<rparr>"

definition demo_scale :: "int TScaleGestureDetector" where
  "demo_scale = \<lparr>mInProgress = False, mCurrTime = 0, sc_mListener = 0x30, mInitialSpan = 0, mFocusX = 0, mFocusY = 0, mMinSpan = 140, mPrevSpanX = 0, mPrevSpanY = 0,
     mCurrSpanX = 0, mCurrSpanY = 0, mCurrSpan = 0, mPrevSpan = 0, mSpanSlop = 16, mPrevTime = 0\<rparr>"

definition demo_det :: "int TGestureDetector" where
  "demo_det = \<lparr>mTouchSlopSquare = 64, mDoubleTapSlopSquare = 10000, mDoubleTapTouchSlopSquare = 64, mMinimumFlingVelocity = 50, mCurrentDownEvent = demo_event,
     mPreviousUpEvent = demo_event, mAlwaysInTapRegion = False, mAlwaysInBiggerTapRegion = False, mStillDown = False, mInLongPress = False,
     mDeferConfirmSingleTap = False, mIsLongpressEnabled = True, mIsDoubleTapping = False, mInContextClick = False, mIgnoreNextUpEvent = False,
     mScrollingFlg = False, mLastFocusX = 0, mLastFocusY = 0, mDownFocusX = 0, mDownFocusY = 0, mFingerStatus = 0, m_nDownPosX = replicate 5 0,
     m_nDownPosY = replicate 5 0, m_nDownTime = replicate 5 0, mListener = 0x10, mDoubleTapListener = 0x20, mScaleGestureDetector = demo_scale\<rparr>"

definition demo_point :: TFT5406Point where "demo_point = \<lparr>xh = 0, xl = 100, yh = 0, yl = 50\<rparr>"

definition one_touch :: TFT5406Buffer where
  "one_touch = \<lparr>DeviceMode = 0, GestureID = 0, NumPoints = 1, Point = replicate 5 demo_point\<rparr>"

definition demo_input :: "int gesture_state" where
  "demo_input = \<lparr>ks = ks mq_empty, node = node mq_empty, mlist = mlist mq_empty, touch_this = 0x40,
     dev = \<lparr>m_pFT5406Buffer = 0x50, m_pActionHandler = 0x60, m_nKnownIDs = 0, m_nPosX = replicate 5 0, m_nPosY = replicate 5 0\<rparr>,
     ft = one_touch, actions = (\<lambda>_. replicate 5 \<lparr>nPosX = 0, nPosY = 0, nEvent = TouchScreenEventUnknown\<rparr>), motion = initMotionEventFifo (replicate 1024 0),
     sync = sync_static [True, True, True, True], gesture_this = 0x70, scale_this = 0x80, det = demo_det, g_pMessageQueue = 0x43000010, calls = []\<rparr>"

lemma demo_queue: "queue_at {0x43000060, 0x43000010} 0x43000010 [] demo_input"
  using mq_empty_queue(1) by (simp add: queue_at_def demo_input_def)

lemma demo_slack: "slack 100 (heap (ks demo_input))"
  by (simp add: demo_input_def slack_def initMessageQueue_def mq_empty_def mq_boot_def malloc_eval)

lemma demo_start: "input_start demo_input"
proof -
  have "fifo_inv (initMotionEventFifo (replicate 1024 0))" "getMotionEventStatus (initMotionEventFifo (replicate 1024 0)) = 0"
    by (simp_all add: fifo_inv_def initMotionEventFifo_def fifo32_init_def MAX_TFT5406BUFFER_FIFO_SIZE_def getMotionEventStatus_def fifo32_status_def)
  then show ?thesis using demo_queue
    by (auto simp: input_start_def device_ok_def heard_def demo_input_def demo_det_def demo_scale_def TOUCH_SCREEN_MAX_POINTS_def)
qed

lemma one_touch_ok: "report_ok one_touch"
  by (simp add: report_ok_def one_touch_def demo_point_def touch_id_def TOUCH_SCREEN_MAX_POINTS_def)

text \<open>C37: The recogniser of gestures never loses track of the fingers. However reports of the controller and the handling of their
  events are interleaved, as long as the buffer of events is not full and there is memory: every report and every call of
  \<open>TouchScreenUpdate\<close> returns, so no assertion fails and no null pointer is dereferenced; and whenever all events are handled, the fingers that the
  recogniser takes to be on the screen are exactly those that the touch screen knows. This holds for any floating point arithmetic.\<close>

theorem fingers_agree:
  assumes "input_start s" "(input_step F answer)\<^sup>*\<^sup>* s s'"
  shows "(getMotionEventStatus (motion s') = 0 \<longrightarrow> mFingerStatus (det s') = m_nKnownIDs (dev s')) \<and>
    (\<forall>R. report_ok R \<and> length (fifo_items (motion s')) < length (f_buf (motion s')) \<and> slack 1 (heap (ks s')) \<longrightarrow>
       TouchUpdateMotionEvent (s'\<lparr>ft := R\<rparr>) \<noteq> None) \<and>
    (\<forall>cpuid t t'. cpuid < 4 \<and> slack 15 (heap (ks s')) \<longrightarrow> TouchScreenUpdate cpuid (\<lambda>h. TouchScreenActionHandler F answer t t') s' \<noteq> None)"
proof -
  obtain ps where I: "input_inv s' ps" using input_run_keeps [OF assms(2)] input_start_inv [OF assms(1)] by blast
  have "mFingerStatus (det s') = m_nKnownIDs (dev s')" if "getMotionEventStatus (motion s') = 0"
    using I that fifo_status_items [of "motion s'"] by (auto simp: input_inv_def in_flight_def)
  then show ?thesis using report_keeps [OF I, of _ 0] handle_keeps [OF I, of _ F answer] by fastforce
qed


theorem fingers_agree_witness:
  "\<exists>s'. TouchUpdateMotionEvent (demo_input\<lparr>ft := one_touch\<rparr>) = Some s' \<and>
     TouchScreenUpdate 0 (\<lambda>h. TouchScreenActionHandler demo_arith (\<lambda>_. True) 7 (\<lambda>_. 8)) s' \<noteq> None"
proof -
  have room: "length (fifo_items (motion demo_input)) < length (f_buf (motion demo_input))"
    by (simp add: demo_input_def fifo_items_def initMotionEventFifo_def fifo32_init_def MAX_TFT5406BUFFER_FIFO_SIZE_def)
  obtain s' where s': "TouchUpdateMotionEvent (demo_input\<lparr>ft := one_touch\<rparr>) = Some s'" "slack 99 (heap (ks s'))"
    using report_keeps [OF input_start_inv [OF demo_start] one_touch_ok room, of 99] demo_slack by auto
  have "input_step demo_arith (\<lambda>_. True) demo_input s'" by (rule report [OF one_touch_ok room slack_mono [OF demo_slack] s'(1)]) simp
  note A = fingers_agree [OF demo_start r_into_rtranclp [of "input_step demo_arith (\<lambda>_. True)", OF this]]
  have "slack 15 (heap (ks s'))" by (rule slack_mono [OF s'(2)]) simp
  then show ?thesis using A [THEN conjunct2, THEN conjunct2, rule_format, of 0 7 "\<lambda>_. 8"] s'(1) by (intro exI [of _ s']) simp
qed


section \<open>A finger that rests\<close>

text \<open>The same report, again and again.\<close>

primrec reports :: "TFT5406Buffer \<Rightarrow> nat \<Rightarrow> 'a touch_state_scheme \<Rightarrow> 'a touch_state_scheme option" where
  "reports R 0 s = Some s"
| "reports R (Suc n) s = do { s \<leftarrow> TouchUpdateMotionEvent (s\<lparr>ft := R\<rparr>); reports R n s }"

text \<open>One finger is known, and the report has it within eight pixels of where it was.\<close>

definition resting :: "TFT5406Buffer \<Rightarrow> 'a touch_state_scheme \<Rightarrow> bool" where
  "resting R s \<longleftrightarrow> (\<exists>pt k. NumPoints R = 1 \<and> Point R ! 0 = pt \<and> k = touch_id pt \<and> m_nKnownIDs (dev s) = 2 ^ k \<and>
     (let dx = sint (m_nPosX (dev s) ! k - fst (touch_pos pt)); dy = sint (m_nPosY (dev s) ! k - snd (touch_pos pt)) in dx * dx + dy * dy \<le> 64))"

lemma resting_report:
  fixes s :: "'a touch_state_scheme"
  assumes "device_ok s" "report_ok R" "resting R s" "heap_inv L (heap (ks s))" "slack (Suc m) (heap (ks s))"
  shows "\<exists>s' p. TouchUpdateMotionEvent (s\<lparr>ft := R\<rparr>) = Some s' \<and> device_ok s' \<and> resting R s' \<and> motion s' = motion s \<and>
    p \<notin> L \<and> heap_inv (insert p L) (heap (ks s')) \<and> slack m (heap (ks s'))"
proof -
  obtain pt k where P: "NumPoints R = 1" "Point R ! 0 = pt" "k = touch_id pt" "m_nKnownIDs (dev s) = 2 ^ k"
    "let dx = sint (m_nPosX (dev s) ! k - fst (touch_pos pt)); dy = sint (m_nPosY (dev s) ! k - snd (touch_pos pt)) in dx * dx + dy * dy \<le> 64"
    using assms(3) by (auto simp: resting_def)
  have lR: "length (Point R) = TOUCH_SCREEN_MAX_POINTS" using assms(2) by (simp add: report_ok_def)
  then have tk: "take 1 (Point R) = [pt]" using P(2) by (cases "Point R") (simp_all add: TOUCH_SCREEN_MAX_POINTS_def)
  have k: "k < TOUCH_SCREEN_MAX_POINTS" using assms(2) P(1,3) tk by (simp add: report_ok_def)
  have len: "length (m_nPosX (dev s)) = TOUCH_SCREEN_MAX_POINTS" "length (m_nPosY (dev s)) = TOUCH_SCREEN_MAX_POINTS" "\<And>p. length (actions s p) = TOUCH_SCREEN_MAX_POINTS"
    "m_pFT5406Buffer (dev s) \<noteq> NULL" using assms(1) by (auto simp: device_ok_def)
  obtain p h where m: "malloc 60 (heap (ks s)) = (p, h)" "p \<noteq> NULL" "slack m h" using small_malloc [OF assms(4,5), of 60] by auto
  have hp: "heap_inv (insert p L) h" "p \<notin> L" using heap.alloc_inv [OF assms(4) m(1,2)] heap.alloc_fresh [OF assms(4) m(1,2)] by simp_all
  have bk: "bit (2 ^ k :: u32) k" "(2 ^ k :: u32) AND NOT (2 ^ k) = 0" "(2 ^ k :: u32) \<noteq> 0" using bit_push [of k k] k by (auto simp: TOUCH_SCREEN_MAX_POINTS_def)
  define s' where "s' = s\<lparr>ks := (ks s)\<lparr>heap := h\<rparr>, ft := R\<lparr>NumPoints := 99\<rparr>, actions := (actions s)(p := (map (\<lambda>a. a\<lparr>nEvent := TouchScreenEventUnknown\<rparr>) (actions s p))
      [k := \<lparr>nPosX = fst (touch_pos pt), nPosY = snd (touch_pos pt), nEvent = TouchScreenEventFingerNoMove\<rparr>]),
    dev := (dev s)\<lparr>m_nPosX := (m_nPosX (dev s))[k := fst (touch_pos pt)], m_nPosY := (m_nPosY (dev s))[k := snd (touch_pos pt)]\<rparr>\<rparr>"
  have rel: "release_loop 0 is sc = Some sc" for "is" sc by (induction "is") (simp_all add: release_step_def)
  have "TouchUpdateMotionEvent (s\<lparr>ft := R\<rparr>) = Some s'"
    using P(5) k len m(1,2) bk
    by (simp add: TouchUpdateMotionEvent_def P(1,4) tk [unfolded One_nat_def] mq_malloc_def kmalloc_def sizeof_TTouchScreenAction_def Let_def case_prod_unfold
      point_step_def point_event_def P(3) [symmetric] rel store_scan_def s'_def TOUCH_SCREEN_MAX_POINTS_def)
  moreover have "device_ok s'" using assms(1) by (auto simp: device_ok_def s'_def)
  moreover have "resting R s'" using P k len(1,2) unfolding resting_def s'_def by (auto simp: Let_def)
  ultimately show ?thesis using hp m(3) by (auto simp: s'_def)
qed

text \<open>C40: A finger that rests on the screen uses up the memory: a report that has the finger within eight pixels of its last place allocates
  an array of events, but neither passes it to the recogniser nor frees it. After \<open>n\<close> such reports \<open>n\<close> blocks of the heap are in use that
  nothing points to.\<close>

theorem resting_finger_leaks:
  fixes s :: "'a touch_state_scheme"
  assumes "device_ok s" "report_ok R" "resting R s" "heap_inv L (heap (ks s))" "slack n (heap (ks s))"
  shows "\<exists>s' P. reports R n s = Some s' \<and> motion s' = motion s \<and> P \<inter> L = {} \<and> finite P \<and> card P = n \<and> heap_inv (L \<union> P) (heap (ks s'))"
  using assms
proof (induction n arbitrary: s L)
  case 0
  then show ?case by (intro exI [of _ s] exI [of _ "{}"]) simp
next
  case (Suc n)
  obtain s1 p where 1: "TouchUpdateMotionEvent (s\<lparr>ft := R\<rparr>) = Some s1" "device_ok s1" "resting R s1" "motion s1 = motion s" "p \<notin> L"
    "heap_inv (insert p L) (heap (ks s1))" "slack n (heap (ks s1))" using resting_report [OF Suc.prems] by blast
  obtain s' P where "reports R n s1 = Some s'" "motion s' = motion s1" "P \<inter> insert p L = {}" "finite P" "card P = n" "heap_inv (insert p L \<union> P) (heap (ks s'))"
    using Suc.IH [OF 1(2) Suc.prems(2) 1(3,6,7)] by blast
  then show ?case using 1(1,4,5) by (intro exI [of _ s'] exI [of _ "insert p P"]) auto
qed

theorem resting_finger_leaks_witness:
  "\<exists>s' P. reports one_touch 10 (demo_input\<lparr>dev := (dev demo_input)\<lparr>m_nKnownIDs := 1, m_nPosX := replicate 5 50, m_nPosY := replicate 5 700\<rparr>\<rparr>) = Some s' \<and>
     card P = 10 \<and> heap_inv ({0x43000060, 0x43000010} \<union> P) (heap (ks s'))"
proof -
  let ?s = "demo_input\<lparr>dev := (dev demo_input)\<lparr>m_nKnownIDs := 1, m_nPosX := replicate 5 50, m_nPosY := replicate 5 700\<rparr>\<rparr>"
  have d: "device_ok ?s" by (simp add: device_ok_def demo_input_def TOUCH_SCREEN_MAX_POINTS_def bit_1_iff)
  have r: "resting one_touch ?s"
    by (simp add: resting_def one_touch_def demo_point_def touch_id_def touch_pos_def demo_input_def CFG_DISP_PRI_RESOL_HEIGHT_def)
  have h: "heap_inv {0x43000060, 0x43000010} (heap (ks ?s))" using queue_atD(2) [OF demo_queue refl] by simp
  have "slack 10 (heap (ks ?s))" using slack_mono [OF demo_slack, of 10] by simp
  from resting_finger_leaks [OF d one_touch_ok r h this] show ?thesis by auto
qed

end
