(* ===== verification/TapProps.thy ===== *)
theory TapProps
  imports InputProps
begin

text \<open>
  The messages of the recogniser. Its handler keeps to the contract of \<open>message_handler\<close> unless a tap is queued with a long press, which gives
  what the listeners are told; then what they are told of a finger that goes down, is lifted again and is left up until the messages are due, and
  of one that stays down.
\<close>

section \<open>The handler of the recogniser\<close>

text \<open>What the listeners are told of a message, and what else delivering it does.\<close>

lemma remove_loop_none:
  "linked (\<lambda>a. n_pNext (node s a)) cur as \<Longrightarrow> wt \<notin> n_what ` node s ` set as \<Longrightarrow> remove_loop wt prev cur s = Some s"
proof (induction as arbitrary: prev cur)
  case Nil
  then show ?case by (subst remove_loop.simps) simp
next
  case (Cons a as)
  then show ?case by (subst remove_loop.simps) auto
qed

definition announced :: "TMotionEvent \<Rightarrow> bool \<Rightarrow> u32 \<Rightarrow> 'f gesture_call list" where
  "announced ev down w = (if w = GESTURE_MESSAGE_TYPE_SHOW_PRESS then [OnShowPress ev]
     else if w = GESTURE_MESSAGE_TYPE_LONG_PRESS then [OnLongPress ev]
     else if w = GESTURE_MESSAGE_TYPE_TAP \<and> \<not> down then [OnSingleTapConfirmed ev] else [])"

definition delivered :: "u32 \<Rightarrow> ('f, 'r) gesture_state_scheme \<Rightarrow> ('f, 'r) gesture_state_scheme" where
  "delivered w s = (upd_det (\<lambda>d. if w = GESTURE_MESSAGE_TYPE_LONG_PRESS then d\<lparr>mDeferConfirmSingleTap := False, mInLongPress := True\<rparr>
       else if w = GESTURE_MESSAGE_TYPE_TAP \<and> mStillDown d then d\<lparr>mDeferConfirmSingleTap := True\<rparr> else d) s)
     \<lparr>calls := calls s @ announced (mCurrentDownEvent (det s)) (mStillDown (det s)) w\<rparr>"

lemma delivered_handles:
  fixes s :: "('f, 'r) gesture_state_scheme"
  assumes "heard s" "listed (g_pMessageQueue s) as s" "w = GESTURE_MESSAGE_TYPE_LONG_PRESS \<longrightarrow> GESTURE_MESSAGE_TYPE_TAP \<notin> n_what ` node s ` set as"
  shows "GestureHandleMessage w s = Some (delivered w s)"
proof (cases "w = GESTURE_MESSAGE_TYPE_LONG_PRESS")
  case True
  then have "removeMessages GESTURE_MESSAGE_TYPE_TAP (g_pMessageQueue s) s = Some s"
    using assms(2,3) remove_loop_none by (auto simp: removeMessages_def listed_def Let_def)
  then show ?thesis
    using True assms(1)
    by (simp add: GestureHandleMessage_def dispatchLongPress_def RemoveMessage_def delivered_def announced_def message_types notify_def heard_def upd_det_def Let_def)
next
  case False
  then show ?thesis
    using assms(1) by (auto simp: GestureHandleMessage_def delivered_def announced_def message_types notify_def heard_def upd_det_def)
qed

interpretation gestures: message_handler "\<lambda>_. GestureHandleMessage" delivered
  "\<lambda>w ws. w = GESTURE_MESSAGE_TYPE_LONG_PRESS \<longrightarrow> GESTURE_MESSAGE_TYPE_TAP \<notin> ws" "\<lambda>l s. l = g_pMessageQueue s \<and> heard s"
proof unfold_locales
  fix l w p as and s s' :: "('f, 'r) gesture_state_scheme"
  show "GestureHandleMessage w s = Some (delivered w s)"
    if "l = g_pMessageQueue s \<and> heard s" "listed l as s" "w = GESTURE_MESSAGE_TYPE_LONG_PRESS \<longrightarrow> GESTURE_MESSAGE_TYPE_TAP \<notin> n_what ` node s ` set as"
    using delivered_handles that by blast
  show "same_lists s (delivered w s)" by (simp add: same_lists_def delivered_def upd_det_def)
  show "l = g_pMessageQueue (delivered w s) \<and> heard (delivered w s)" if "l = g_pMessageQueue s \<and> heard s"
    using that by (simp add: delivered_def upd_det_def heard_def)
  assume m: "mq_state.more s = mq_state.more s'"
  then have e: "det s = det s'" "calls s = calls s'" "g_pMessageQueue s = g_pMessageQueue s'" by (cases s; cases s'; simp)+
  show "mq_state.more (delivered w s) = mq_state.more (delivered w s')" using m e by (cases s; cases s') (simp add: delivered_def upd_det_def)
  show "(l = g_pMessageQueue s \<and> heard s) = (l = g_pMessageQueue s' \<and> heard s')" using e by (simp add: heard_def)
qed

lemma delivered_calls:
  fixes s :: "('f, 'r) gesture_state_scheme"
  shows "calls (fold (\<lambda>m. delivered (snd m)) ms s) = calls s @ concat (map (\<lambda>m. announced (mCurrentDownEvent (det s)) (mStillDown (det s)) (snd m)) ms)"
    "mInLongPress (det (fold (\<lambda>m. delivered (snd m)) ms s)) = (mInLongPress (det s) \<or> GESTURE_MESSAGE_TYPE_LONG_PRESS \<in> snd ` set ms)"
proof (induction ms arbitrary: s)
  case (Cons m ms)
  have d: "mCurrentDownEvent (det (delivered w s)) = mCurrentDownEvent (det s)" "mStillDown (det (delivered w s)) = mStillDown (det s)"
    "calls (delivered w s) = calls s @ announced (mCurrentDownEvent (det s)) (mStillDown (det s)) w"
    "mInLongPress (det (delivered w s)) = (mInLongPress (det s) \<or> w = GESTURE_MESSAGE_TYPE_LONG_PRESS)" for w and s :: "('f, 'r) gesture_state_scheme"
    by (auto simp: delivered_def upd_det_def)
  case 1 then show ?case using Cons by (simp add: d)
  case 2 then show ?case using Cons by (auto simp: d)
qed simp_all

section \<open>Messages\<close>

definition pending :: "msg list \<Rightarrow> nat \<Rightarrow> ('f, 'r) gesture_state_scheme \<Rightarrow> bool" where
  "pending ms m s \<longleftrightarrow> (\<exists>L as. queue_at L (g_pMessageQueue s) as s \<and> messages as s = ms) \<and> slack m (heap (ks s))"

lemma pending_cong:
  assumes "g_pMessageQueue s' = g_pMessageQueue s" "ks s' = ks s" "node s' = node s" "mlist s' = mlist s"
  shows "pending ms m s' = pending ms m s"
proof -
  have "msg_of s' = msg_of s" using assms(3) by (simp add: msg_of_def fun_eq_iff)
  then show ?thesis using assms by (simp add: pending_def queue_at_def messages_def)
qed

lemma pending_upd [simp]: "pending ms m (upd_det h s) = pending ms m s" "pending ms m (upd_scale g s) = pending ms m s"
  "pending ms m (s\<lparr>calls := cs\<rparr>) = pending ms m s"
  by (rule pending_cong; simp add: upd_det_def upd_scale_def)+

text \<open>Steps that change only the queue.\<close>

definition queue_only :: "('f, 'r) gesture_state_scheme \<Rightarrow> ('f, 'r) gesture_state_scheme \<Rightarrow> bool" where
  "queue_only s s' \<longleftrightarrow> dev s' = dev s \<and> actions s' = actions s \<and> det s' = det s \<and> calls s' = calls s \<and> g_pMessageQueue s' = g_pMessageQueue s"

lemma pending_remove:
  assumes "pending ms m s" "t < GESTURE_MESSAGE_TYPE_MAX_NUMBER"
  shows "\<exists>s'. RemoveMessage t s = Some s' \<and> pending (filter (\<lambda>x. snd x \<noteq> t) ms) m s' \<and> queue_only s s'"
proof -
  let ?l = "g_pMessageQueue s"
  obtain L as where q: "queue_at L ?l as s" "messages as s = ms" using assms(1) by (auto simp: pending_def)
  obtain s' as' where r: "removeMessages t ?l s = Some s'" "queue_at (L - (set as - set as')) ?l as' s'" "messages as' s' = filter (\<lambda>m. snd m \<noteq> t) ms"
    using remove_spec [OF q(1), of t] q(2) by blast
  note F = same_more [OF remove_frame [OF r(1)]]
  have "slack m (heap (ks s'))"
    using r(1) assms(1) queue_atD(1,3) [OF q(1) refl] by (auto simp: removeMessages_def Let_def pending_def dest: remove_loop_slack [of _ _ _ _ _ m])
  then show ?thesis using r assms(2) F by (auto simp: RemoveMessage_def pending_def queue_only_def)
qed

lemma pending_send:
  assumes "pending ms (Suc m) s" "t < GESTURE_MESSAGE_TYPE_MAX_NUMBER"
  shows "\<exists>s'. sendMessageAtTime t w s = Some s' \<and> pending (ins_msg (w, t) ms) m s' \<and> queue_only s s'"
proof -
  let ?l = "g_pMessageQueue s"
  obtain L as where q: "queue_at L ?l as s" "messages as s = ms" using assms(1) by (auto simp: pending_def)
  have sl: "slack (Suc m) (heap (ks s))" using assms(1) by (simp add: pending_def)
  note R = createnode_room [OF queue_atD(2) [OF q(1) refl] sl]
  obtain s' p as' where r: "enqueueMessage t w ?l s = Some s'" "queue_at (insert p L) ?l as' s'" "messages as' s' = ins_msg (w, t) ms"
    "heap (ks s') = heap (ks (snd (createnode t w s)))"
    using enqueue_spec [OF q(1) R(1), of t w] q(2) by blast
  note F = same_more [OF enqueue_frame [OF r(1)]]
  show ?thesis using r R(2) assms(2) F by (auto simp: sendMessageAtTime_def pending_def queue_only_def)
qed

lemma pending_has:
  assumes "pending ms m s"
  shows "hasSpecificMessage t (g_pMessageQueue s) s = Some (t \<in> snd ` set ms)"
proof -
  obtain L as where q: "queue_at L (g_pMessageQueue s) as s" "messages as s = ms" using assms by (auto simp: pending_def)
  note D = queue_atD [OF q(1) refl]
  have "n_what ` node s ` set as = snd ` set ms" unfolding q(2) [symmetric] by (force simp: messages_def msg_of_def)
  then show ?thesis using D(1,3) has_loop_total [OF D(8), of t] by (simp add: hasSpecificMessage_def)
qed

section \<open>One finger\<close>

lemma upd_scale_twice: "upd_scale g (upd_scale h s) = upd_scale (g \<circ> h) s" by (simp add: upd_scale_def upd_det_def)

lemma gesture_upd_simps [simp]:
  "det (upd_det h s) = h (det s)" "calls (upd_det h s) = calls s" "actions (upd_det h s) = actions s" "g_pMessageQueue (upd_det h s) = g_pMessageQueue s"
  "det (upd_scale g s) = (det s)\<lparr>mScaleGestureDetector := g (scale s)\<rparr>" "calls (upd_scale g s) = calls s" "actions (upd_scale g s) = actions s"
  "g_pMessageQueue (upd_scale g s) = g_pMessageQueue s"
  by (simp_all add: upd_det_def upd_scale_def)

lemma scale_up:
  assumes "\<not> mInProgress (scale s)"
  shows "\<exists>g. ScaleGestureDetectorOnTouchEvent F answer GESTURE_ACTION_TYPE_ACTION_UP t acts s = Some (upd_scale g s) \<and>
    \<not> mInProgress (g (scale s)) \<and> sc_mListener (g (scale s)) = sc_mListener (scale s)"
  using assms by (simp add: ScaleGestureDetectorOnTouchEvent_def) (rule exI [of _ "\<lambda>d. d\<lparr>mCurrTime := t\<rparr>"], simp)

lemma scale_down:
  assumes "\<not> mInProgress (scale s)" "\<not> f_le F (f_of_int F (mMinSpan (scale s))) (snd (snd (spans F acts)))"
  shows "\<exists>g. ScaleGestureDetectorOnTouchEvent F answer GESTURE_ACTION_TYPE_ACTION_DOWN t acts s = Some (upd_scale g s) \<and>
    \<not> mInProgress (g (scale s)) \<and> sc_mListener (g (scale s)) = sc_mListener (scale s) \<and> mMinSpan (g (scale s)) = mMinSpan (scale s)"
  using assms
  by (auto simp: ScaleGestureDetectorOnTouchEvent_def case_prod_unfold Let_def upd_scale_twice)


lemma action_down_exact:
  assumes "pending [] (Suc (Suc (Suc m))) s" "heard s" "mIsLongpressEnabled (det s)"
  shows "\<exists>s'. action_down t' fx fy ev s = Some s' \<and>
    pending (ins_msg (nEventTime ev + TAP_TIMEOUT, GESTURE_MESSAGE_TYPE_SHOW_PRESS)
      (ins_msg (nEventTime ev + TAP_TIMEOUT + LONGPRESS_TIMEOUT, GESTURE_MESSAGE_TYPE_LONG_PRESS)
        [(t' + DOUBLE_TAP_TIMEOUT, GESTURE_MESSAGE_TYPE_TAP)])) m s' \<and>
    det s' = (set_focus fx fy (det s))\<lparr>mCurrentDownEvent := ev, mAlwaysInTapRegion := True, mAlwaysInBiggerTapRegion := True,
               mStillDown := True, mInLongPress := False, mDeferConfirmSingleTap := False\<rparr> \<and>
    calls s' = calls s @ [OnDown ev] \<and> actions s' = actions s \<and> g_pMessageQueue s' = g_pMessageQueue s"
proof -
  have L: "mDoubleTapListener (det s) \<noteq> NULL" "mListener (det s) \<noteq> NULL" using assms(2) by (simp_all add: heard_def)
  obtain s1 where 1: "sendMessageAtTime GESTURE_MESSAGE_TYPE_TAP (t' + DOUBLE_TAP_TIMEOUT) s = Some s1"
    "pending [(t' + DOUBLE_TAP_TIMEOUT, GESTURE_MESSAGE_TYPE_TAP)] (Suc (Suc m)) s1" "queue_only s s1"
    using pending_send [OF assms(1) ok_types(3)] by fastforce
  have tap: "down_tap t' ev s = Some s1" using pending_has [OF assms(1)] L(1) 1(1) by (simp add: down_tap_def send_delayed)
  let ?h = "\<lambda>d. (set_focus fx fy d)\<lparr>mCurrentDownEvent := ev, mAlwaysInTapRegion := True, mAlwaysInBiggerTapRegion := True,
               mStillDown := True, mInLongPress := False, mDeferConfirmSingleTap := False\<rparr>"
  have lp: "mIsLongpressEnabled (det (upd_det ?h s1))" "nEventTime (mCurrentDownEvent (det (upd_det ?h s1))) = nEventTime ev"
    using 1(3) assms(3) by (simp_all add: queue_only_def set_focus_def)
  obtain s2 where 2: "RemoveMessage GESTURE_MESSAGE_TYPE_LONG_PRESS (upd_det ?h s1) = Some s2"
    "pending [(t' + DOUBLE_TAP_TIMEOUT, GESTURE_MESSAGE_TYPE_TAP)] (Suc (Suc m)) s2" "queue_only (upd_det ?h s1) s2"
    using pending_remove [of _ "Suc (Suc m)" "upd_det ?h s1", OF _ ok_types(2)] 1(2) by (fastforce simp: message_types)
  obtain s3 where 3: "sendMessageAtTime GESTURE_MESSAGE_TYPE_LONG_PRESS (nEventTime ev + TAP_TIMEOUT + LONGPRESS_TIMEOUT) s2 = Some s3"
    "pending (ins_msg (nEventTime ev + TAP_TIMEOUT + LONGPRESS_TIMEOUT, GESTURE_MESSAGE_TYPE_LONG_PRESS) [(t' + DOUBLE_TAP_TIMEOUT, GESTURE_MESSAGE_TYPE_TAP)]) (Suc m) s3"
    "queue_only s2 s3" using pending_send [OF 2(2) ok_types(2)] by blast
  obtain s4 where 4: "sendMessageAtTime GESTURE_MESSAGE_TYPE_SHOW_PRESS (nEventTime ev + TAP_TIMEOUT) s3 = Some s4"
    "pending (ins_msg (nEventTime ev + TAP_TIMEOUT, GESTURE_MESSAGE_TYPE_SHOW_PRESS)
      (ins_msg (nEventTime ev + TAP_TIMEOUT + LONGPRESS_TIMEOUT, GESTURE_MESSAGE_TYPE_LONG_PRESS) [(t' + DOUBLE_TAP_TIMEOUT, GESTURE_MESSAGE_TYPE_TAP)])) m s4"
    "queue_only s3 s4" using pending_send [OF 3(2) ok_types(1)] by blast
  have d: "det s4 = ?h (det s)" "det s3 = det s4" "det s2 = det s4" "calls s4 = calls s" "actions s4 = actions s" "g_pMessageQueue s4 = g_pMessageQueue s"
    using 1(3) 2(3) 3(3) 4(3) by (simp_all add: queue_only_def)
  have "action_down t' fx fy ev s = Some (s4\<lparr>calls := calls s4 @ [OnDown ev]\<rparr>)"
    using tap lp 2(1) 3(1) 4(1) d(1-3) L(2) by (simp add: action_down_def Let_def notify_def set_focus_def)
  then show ?thesis using 4(2) d by (intro exI [of _ "s4\<lparr>calls := calls s4 @ [OnDown ev]\<rparr>"]) simp
qed

lemma action_up_exact:
  assumes "pending ms m s" "heard s" "mAlwaysInTapRegion (det s)" "\<not> mIgnoreNextUpEvent (det s)" "\<not> mIsDoubleTapping (det s)" "\<not> mInLongPress (det s)"
    "\<not> mDeferConfirmSingleTap (det s)"
  shows "\<exists>s'. action_up F i t x y ev s = Some s' \<and>
    pending (filter (\<lambda>x. snd x \<noteq> GESTURE_MESSAGE_TYPE_LONG_PRESS) (filter (\<lambda>x. snd x \<noteq> GESTURE_MESSAGE_TYPE_SHOW_PRESS) ms)) m s' \<and>
    det s' = (clear_velocity (det s))\<lparr>mStillDown := False, mPreviousUpEvent := ev, mIsDoubleTapping := False, mDeferConfirmSingleTap := False,
               mIgnoreNextUpEvent := False, mScrollingFlg := False\<rparr> \<and>
    calls s' = calls s @ [OnSingleTapUp ev] \<and> actions s' = actions s \<and> g_pMessageQueue s' = g_pMessageQueue s"
proof -
  let ?s1 = "upd_det (\<lambda>d. d\<lparr>mStillDown := False\<rparr>) s"
  let ?s2 = "?s1\<lparr>calls := calls s @ [OnSingleTapUp ev]\<rparr>"
  let ?h = "\<lambda>d. (clear_velocity d)\<lparr>mPreviousUpEvent := ev, mIsDoubleTapping := False, mDeferConfirmSingleTap := False,
               mIgnoreNextUpEvent := False, mScrollingFlg := False\<rparr>"
  have g: "up_gesture F i t x y ev ?s1 = Some ?s2" using assms(2-7) by (simp add: up_gesture_def notify_def heard_def)
  obtain s3 where 3: "RemoveMessage GESTURE_MESSAGE_TYPE_SHOW_PRESS (upd_det ?h ?s2) = Some s3"
    "pending (filter (\<lambda>x. snd x \<noteq> GESTURE_MESSAGE_TYPE_SHOW_PRESS) ms) m s3" "queue_only (upd_det ?h ?s2) s3"
    using pending_remove [of ms m "upd_det ?h ?s2", OF _ ok_types(1)] assms(1) by auto
  obtain s4 where 4: "RemoveMessage GESTURE_MESSAGE_TYPE_LONG_PRESS s3 = Some s4"
    "pending (filter (\<lambda>x. snd x \<noteq> GESTURE_MESSAGE_TYPE_LONG_PRESS) (filter (\<lambda>x. snd x \<noteq> GESTURE_MESSAGE_TYPE_SHOW_PRESS) ms)) m s4" "queue_only s3 s4"
    using pending_remove [OF 3(2) ok_types(2)] by blast
  have "action_up F i t x y ev s = Some s4" using g 3(1) 4(1) by (simp add: action_up_def Let_def)
  then show ?thesis using 4(2,3) 3(3) by (intro exI [of _ s4]) (simp add: queue_only_def clear_velocity_def)
qed


text \<open>An array that has an event of one finger only.\<close>

definition lone :: "nat \<Rightarrow> TTouchScreenAction list \<Rightarrow> bool" where
  "lone i acts \<longleftrightarrow> length acts = TOUCH_SCREEN_MAX_POINTS \<and> i < TOUCH_SCREEN_MAX_POINTS \<and>
     (\<forall>k<TOUCH_SCREEN_MAX_POINTS. k \<noteq> i \<longrightarrow> nEvent (acts ! k) = TouchScreenEventUnknown)"

lemma actions_loop_append:
  "actions_loop F answer t t' fx fy acts (ps @ qs) s = actions_loop F answer t t' fx fy acts ps s \<bind> actions_loop F answer t t' fx fy acts qs"
  by (induction ps arbitrary: s) (simp_all add: Option.bind_assoc)

lemma actions_loop_unknown:
  "\<forall>p \<in> set ps. nEvent (snd p) = TouchScreenEventUnknown \<Longrightarrow> actions_loop F answer t t' fx fy acts ps s = Some s"
  by (induction ps) (simp_all add: handle_action_def action_of_def)

lemma actions_loop_lone:
  assumes "lone i acts"
  shows "actions_loop F answer t t' fx fy acts' (enumerate 0 acts) s = handle_action F answer t t' fx fy acts' i (acts ! i) s"
proof -
  have i: "i < length acts" using assms by (simp add: lone_def)
  have e: "enumerate 0 acts = enumerate 0 (take i acts) @ (i, acts ! i) # enumerate (Suc i) (drop (Suc i) acts)"
    using i arg_cong [OF id_take_nth_drop [OF i], of "enumerate 0"] by (simp add: enumerate_append_eq)
  have u: "nEvent (snd p) = TouchScreenEventUnknown" if "p \<in> set (enumerate 0 (take i acts)) \<union> set (enumerate (Suc i) (drop (Suc i) acts))" for p
    using that assms by (auto simp: lone_def in_set_enumerate_eq nth_take)
  have "actions_loop F answer t t' fx fy acts' (enumerate 0 (take i acts)) s = Some s"
    "\<And>s. actions_loop F answer t t' fx fy acts' (enumerate (Suc i) (drop (Suc i) acts)) s = Some s"
    by (rule actions_loop_unknown, use u in blast)+
  then show ?thesis unfolding e by (cases "handle_action F answer t t' fx fy acts' i (acts ! i) s") (simp_all add: actions_loop_append)
qed

text \<open>The detector between taps: no finger is on the screen.\<close>

definition at_rest :: "('f, 'r) gesture_state_scheme \<Rightarrow> bool" where
  "at_rest s \<longleftrightarrow> heard s \<and> mFingerStatus (det s) = 0 \<and> \<not> mInProgress (scale s) \<and> mIsLongpressEnabled (det s) \<and> \<not> mIgnoreNextUpEvent (det s) \<and>
     \<not> mIsDoubleTapping (det s)"

definition tap_down :: "nat \<Rightarrow> TMotionEvent \<Rightarrow> ('f, 'r) gesture_state_scheme \<Rightarrow> bool" where
  "tap_down i ev s \<longleftrightarrow> heard s \<and> mFingerStatus (det s) = 2 ^ i \<and> \<not> mInProgress (scale s) \<and> mAlwaysInTapRegion (det s) \<and> \<not> mIgnoreNextUpEvent (det s) \<and>
     \<not> mIsDoubleTapping (det s) \<and> \<not> mInLongPress (det s) \<and> \<not> mDeferConfirmSingleTap (det s) \<and> mCurrentDownEvent (det s) = ev \<and> mIsLongpressEnabled (det s) \<and> mStillDown (det s)"

definition event_at :: "u64 \<Rightarrow> TTouchScreenAction \<Rightarrow> TMotionEvent" where
  "event_at t a = \<lparr>nEventTime = t, nEventX = sint (nPosX a), nEventY = sint (nPosY a)\<rparr>"

lemma down_handled:
  assumes "at_rest s" "pending [] (Suc (Suc (Suc m))) s" "p \<noteq> NULL" "lone i (actions s p)" "nEvent (actions s p ! i) = TouchScreenEventFingerDown"
    and "\<not> f_le F (f_of_int F (mMinSpan (scale s))) (snd (snd (spans F (actions s p))))"
  shows "\<exists>s'. TouchScreenActionHandler F answer t t' p s = Some s' \<and> tap_down i (event_at t (actions s p ! i)) s' \<and>
    pending (ins_msg (t + TAP_TIMEOUT, GESTURE_MESSAGE_TYPE_SHOW_PRESS)
      (ins_msg (t + TAP_TIMEOUT + LONGPRESS_TIMEOUT, GESTURE_MESSAGE_TYPE_LONG_PRESS) [(t' i + DOUBLE_TAP_TIMEOUT, GESTURE_MESSAGE_TYPE_TAP)])) m s' \<and>
    calls s' = calls s @ [OnDown (event_at t (actions s p ! i))] \<and> actions s' = actions s \<and> g_pMessageQueue s' = g_pMessageQueue s"
proof -
  let ?acts = "actions s p" and ?a = "actions s p ! i" and ?D = GESTURE_ACTION_TYPE_ACTION_DOWN
  define s1 where "s1 = upd_det (fold (note_down t) (enumerate 0 ?acts)) s"
  obtain fx fy n where f: "focus F ?acts = (fx, fy, n)" by (cases "focus F ?acts")
  have R: "heard s1" "mFingerStatus (det s1) = 0" "\<not> mInProgress (scale s1)" "\<not> f_le F (f_of_int F (mMinSpan (scale s1))) (snd (snd (spans F ?acts)))"
    using assms(1,6) by (simp_all add: s1_def note_down_fields at_rest_def heard_def)
  obtain g where g: "ScaleGestureDetectorOnTouchEvent F answer ?D t ?acts s1 = Some (upd_scale g s1)" "\<not> mInProgress (g (scale s1))" "sc_mListener (g (scale s1)) = sc_mListener (scale s1)"
    using scale_down [OF R(3,4)] by blast
  have flags: "mIsLongpressEnabled (fold (note_down t) ps d) = mIsLongpressEnabled d" "mIgnoreNextUpEvent (fold (note_down t) ps d) = mIgnoreNextUpEvent d"
    "mIsDoubleTapping (fold (note_down t) ps d) = mIsDoubleTapping d" for ps and d :: "'a TGestureDetector"
    by (induction ps arbitrary: d) (simp_all add: note_down_def split: prod.split)
  obtain s2 where 2: "action_down (t' i) fx fy (event_at t ?a) (upd_scale g s1) = Some s2"
    "pending (ins_msg (t + TAP_TIMEOUT, GESTURE_MESSAGE_TYPE_SHOW_PRESS)
      (ins_msg (t + TAP_TIMEOUT + LONGPRESS_TIMEOUT, GESTURE_MESSAGE_TYPE_LONG_PRESS) [(t' i + DOUBLE_TAP_TIMEOUT, GESTURE_MESSAGE_TYPE_TAP)])) m s2"
    "det s2 = (set_focus fx fy (det (upd_scale g s1)))\<lparr>mCurrentDownEvent := event_at t ?a, mAlwaysInTapRegion := True, mAlwaysInBiggerTapRegion := True,
               mStillDown := True, mInLongPress := False, mDeferConfirmSingleTap := False\<rparr>"
    "calls s2 = calls s @ [OnDown (event_at t ?a)]" "actions s2 = actions s" "g_pMessageQueue s2 = g_pMessageQueue s"
    using action_down_exact [of m "upd_scale g s1" "t' i" fx fy "event_at t ?a"] assms(1,2) R(1) g(3) by (auto simp: s1_def event_at_def heard_def at_rest_def flags)
  let ?s3 = "upd_det (\<lambda>d. d\<lparr>mFingerStatus := finger_step i (nEvent ?a) (mFingerStatus d)\<rparr>) s2"
  have "TouchScreenEventHandler F answer (t' i) ?D i t (nPosX ?a) (nPosY ?a) fx fy ?acts s1 = Some s2"
    using g(1,2) 2(1) by (simp add: TouchScreenEventHandler_def ScaleGestureIsInProgress_def event_at_def Let_def)
  then have "TouchScreenActionHandler F answer t t' p s = Some ?s3"
    using assms(3,5) R(2) f by (simp add: TouchScreenActionHandler_def actions_loop_lone [OF assms(4)] s1_def [symmetric] handle_action_def action_of_def Let_def)
  moreover have "tap_down i (event_at t ?a) ?s3"
    using 2(3) R(1,2) g(2,3) assms(1,5) by (simp add: tap_down_def set_focus_def heard_def finger_step_def at_rest_def s1_def flags)
  ultimately show ?thesis using 2(2,4-6) by (intro exI [of _ ?s3]) simp
qed


lemma up_handled:
  assumes "tap_down i ev s" "pending ms m s" "p \<noteq> NULL" "lone i (actions s p)" "nEvent (actions s p ! i) = TouchScreenEventFingerUp"
  shows "\<exists>s'. TouchScreenActionHandler F answer t t' p s = Some s' \<and> at_rest s' \<and> \<not> mStillDown (det s') \<and> mCurrentDownEvent (det s') = ev \<and>
    pending (filter (\<lambda>x. snd x \<noteq> GESTURE_MESSAGE_TYPE_LONG_PRESS) (filter (\<lambda>x. snd x \<noteq> GESTURE_MESSAGE_TYPE_SHOW_PRESS) ms)) m s' \<and>
    calls s' = calls s @ [OnSingleTapUp (event_at t (actions s p ! i)), OnUp t] \<and> g_pMessageQueue s' = g_pMessageQueue s"
proof -
  let ?acts = "actions s p" and ?a = "actions s p ! i" and ?U = GESTURE_ACTION_TYPE_ACTION_UP
  have n: "fold (note_down t) (enumerate 0 ?acts) d = d" for d :: "'a TGestureDetector"
  proof (rule fold_invariant [where P = "\<lambda>x. x = d" and Q = "\<lambda>q. nEvent (snd q) \<noteq> TouchScreenEventFingerDown"])
    fix q assume "q \<in> set (enumerate 0 ?acts)"
    then have q: "fst q < TOUCH_SCREEN_MAX_POINTS" "snd q = ?acts ! fst q" using assms(4) by (auto simp: lone_def in_set_enumerate_eq)
    show "nEvent (snd q) \<noteq> TouchScreenEventFingerDown"
      using assms(4,5) q by (cases "fst q = i") (auto simp: lone_def)
  qed (auto simp: note_down_def)
  have s1: "upd_det (fold (note_down t) (enumerate 0 ?acts)) s = s" by (simp add: upd_det_def n)
  obtain fx fy k where f: "focus F ?acts = (fx, fy, k)" by (cases "focus F ?acts")
  note T = assms(1) [unfolded tap_down_def]
  obtain g where g: "ScaleGestureDetectorOnTouchEvent F answer ?U t ?acts s = Some (upd_scale g s)" "\<not> mInProgress (g (scale s))" "sc_mListener (g (scale s)) = sc_mListener (scale s)"
    using scale_up [of s] T by blast
  obtain s2 where 2: "action_up F i t (nPosX ?a) (nPosY ?a) (event_at t ?a) (upd_scale g s) = Some s2"
    "pending (filter (\<lambda>x. snd x \<noteq> GESTURE_MESSAGE_TYPE_LONG_PRESS) (filter (\<lambda>x. snd x \<noteq> GESTURE_MESSAGE_TYPE_SHOW_PRESS) ms)) m s2"
    "det s2 = (clear_velocity (det (upd_scale g s)))\<lparr>mStillDown := False, mPreviousUpEvent := event_at t ?a, mIsDoubleTapping := False, mDeferConfirmSingleTap := False,
               mIgnoreNextUpEvent := False, mScrollingFlg := False\<rparr>"
    "calls s2 = calls s @ [OnSingleTapUp (event_at t ?a)]" "g_pMessageQueue s2 = g_pMessageQueue s"
    using action_up_exact [of ms m "upd_scale g s" F i t "nPosX ?a" "nPosY ?a" "event_at t ?a"] assms(2) T g(3) by (auto simp: heard_def)
  let ?s3 = "upd_det (\<lambda>d. d\<lparr>mFingerStatus := finger_step i (nEvent ?a) (mFingerStatus d)\<rparr>) s2"
  let ?s4 = "?s3\<lparr>calls := calls s2 @ [OnUp t]\<rparr>"
  have "TouchScreenEventHandler F answer (t' i) ?U i t (nPosX ?a) (nPosY ?a) fx fy ?acts s = Some s2"
    using g(1,2) 2(1) by (simp add: TouchScreenEventHandler_def ScaleGestureIsInProgress_def event_at_def Let_def)
  moreover have "mListener (det s2) \<noteq> NULL" using 2(3) T by (simp add: clear_velocity_def heard_def)
  ultimately have "TouchScreenActionHandler F answer t t' p s = Some ?s4"
    using assms(3,5) T f
    by (simp add: TouchScreenActionHandler_def actions_loop_lone [OF assms(4)] s1 handle_action_def action_of_def Let_def notify_def)
  moreover have "at_rest ?s4 \<and> \<not> mStillDown (det ?s4) \<and> mCurrentDownEvent (det ?s4) = ev"
    using 2(3) T g(2,3) assms(5) by (simp add: at_rest_def clear_velocity_def heard_def finger_step_def)
  ultimately show ?thesis using 2(2,4,5) by (intro exI [of _ ?s4]) simp
qed

text \<open>The messages of the queue, handled by the recogniser: one tap that is due.\<close>

lemma tap_due:
  fixes s :: "('f, 'r) gesture_state_scheme"
  assumes "pending [(w, GESTURE_MESSAGE_TYPE_TAP)] m s" "w \<le> now" "\<not> mStillDown (det s)" "heard s"
  shows "\<exists>s'. handleTimeoutMessage (\<lambda>_. GestureHandleMessage) now (g_pMessageQueue s) s = Some s' \<and> pending [] m s' \<and> det s' = det s \<and>
    calls s' = calls s @ [OnSingleTapConfirmed (mCurrentDownEvent (det s))]"
proof -
  let ?l = "g_pMessageQueue s" and ?e = "OnSingleTapConfirmed (mCurrentDownEvent (det s))"
  obtain L a where q: "queue_at L ?l [a] s" "n_when (node s a) = w" "n_what (node s a) = GESTURE_MESSAGE_TYPE_TAP"
    using assms(1) by (auto simp: pending_def messages_def msg_of_def)
  define h where "h = pHead (mlist s ?l)"
  note D = queue_atD [OF q(1) h_def]
  define s1 where "s1 = mq_free a (s\<lparr>calls := calls s @ [?e]\<rparr>)"
  have m1: "mlist s1 = mlist s" "node s1 = node s" "det s1 = det s" "calls s1 = calls s @ [?e]" "g_pMessageQueue s1 = ?l" "heap (ks s1) = free a (heap (ks s))"
    by (simp_all add: s1_def mq_free_def kfree_def)
  have g: "GestureHandleMessage GESTURE_MESSAGE_TYPE_TAP s = Some (s\<lparr>calls := calls s @ [?e]\<rparr>)"
    using assms(3,4) by (simp add: GestureHandleMessage_def message_types notify_def heard_def)
  have nx: "n_pNext (node s h) = a" "a \<noteq> NULL" "n_pNext (node s a) = NULL" using D(8) by auto
  have "timeout_loop (\<lambda>_. GestureHandleMessage) now ?l a s = timeout_loop (\<lambda>_. GestureHandleMessage) now ?l NULL s1"
    using nx q(2,3) assms(2) g by (subst timeout_loop.simps) (simp add: s1_def)
  also have "\<dots> = Some (NULL, s1)" by (subst timeout_loop.simps) simp
  finally have r: "handleTimeoutMessage (\<lambda>_. GestureHandleMessage) now ?l s = Some (set_next h NULL s1)"
    using D(1,3) nx(1) m1(1) by (simp add: handleTimeoutMessage_def h_def)
  have hl: "heap_inv (L - {a}) (heap (ks s1))" using heap.dealloc_inv [OF D(2), of a] D(7) m1(6) by simp
  have "queue_at (L - {a}) ?l [] (set_next h NULL s1)"
    using D(1,3-5) hl m1(1) by (simp add: queue_at_def Let_def h_def)
  moreover have "slack m (heap (ks s1))" using assms(1) m1(6) slack_free by (simp add: pending_def)
  moreover have "g_pMessageQueue (set_next h NULL s1) = ?l" "det (set_next h NULL s1) = det s" "calls (set_next h NULL s1) = calls s @ [?e]"
    using m1 by (simp_all add: set_next_def)
  ultimately show ?thesis using r by (auto simp: pending_def messages_def)
qed





lemma remove_second:
  assumes "listed l [a, b, c] s" "n_what (node s a) \<noteq> wt" "n_what (node s b) = wt" "n_what (node s c) \<noteq> wt" "distinct [a, b, c]"
  shows "removeMessages wt l s = Some (mq_free b (set_next a c s))"
proof -
  let ?h = "pHead (mlist s l)"
  have N: "n_pNext (node s ?h) = a" "n_pNext (node s a) = b" "n_pNext (node s b) = c" "n_pNext (node s c) = NULL" "a \<noteq> NULL" "b \<noteq> NULL" "c \<noteq> NULL"
    using assms(1) by (auto simp: listed_def)
  have "remove_loop wt ?h a s = remove_loop wt a b s" using N assms(2) by (subst remove_loop.simps) simp
  also have "\<dots> = remove_loop wt a c (mq_free b (set_next a c s))" using N assms(3) by (subst remove_loop.simps) (simp add: Let_def)
  also have "\<dots> = Some (mq_free b (set_next a c s))"
    by (rule remove_loop_none [of _ _ "[c]"]) (use N assms(4,5) in auto)
  finally show ?thesis using assms(1) N(1) by (simp add: removeMessages_def listed_def Let_def)
qed

lemma late_long_press:
  fixes s :: "('f, 'r) gesture_state_scheme"
  assumes "pending [(w1, GESTURE_MESSAGE_TYPE_SHOW_PRESS), (w2, GESTURE_MESSAGE_TYPE_TAP), (w3, GESTURE_MESSAGE_TYPE_LONG_PRESS)] m s"
    and "w1 \<le> now" "w2 \<le> now" "w3 \<le> now" "mStillDown (det s)" "heard s"
  obtains L a b c s' where "handleTimeoutMessage (\<lambda>_. GestureHandleMessage) now (g_pMessageQueue s) s = Some s'"
    "heap_inv L (heap (ks s))" "distinct [a, b, c]" "{a, b, c} \<subseteq> L" "heap (ks s') = free c (free b (free b (free a (heap (ks s)))))"
    "calls s' = calls s @ [OnShowPress (mCurrentDownEvent (det s)), OnLongPress (mCurrentDownEvent (det s))]"
proof -
  let ?l = "g_pMessageQueue s" and ?e = "mCurrentDownEvent (det s)"
  obtain L a b c where q: "queue_at L ?l [a, b, c] s"
    and W: "n_when (node s a) \<le> now" "n_when (node s b) \<le> now" "n_when (node s c) \<le> now"
    and T: "n_what (node s a) = GESTURE_MESSAGE_TYPE_SHOW_PRESS" "n_what (node s b) = GESTURE_MESSAGE_TYPE_TAP" "n_what (node s c) = GESTURE_MESSAGE_TYPE_LONG_PRESS"
    using assms(1-4) by (auto simp: pending_def messages_def msg_of_def)
  define h where "h = pHead (mlist s ?l)"
  note D = queue_atD [OF q h_def]
  have N: "n_pNext (node s h) = a" "n_pNext (node s a) = b" "n_pNext (node s b) = c" "n_pNext (node s c) = NULL" "a \<noteq> NULL" "b \<noteq> NULL" "c \<noteq> NULL"
    using D(8) by auto
  have H: "mListener (det s) \<noteq> NULL" "mDoubleTapListener (det s) \<noteq> NULL" using assms(6) by (simp_all add: heard_def)
  define s1 where "s1 = mq_free a (s\<lparr>calls := calls s @ [OnShowPress ?e]\<rparr>)"
  define s2 where "s2 = mq_free b (upd_det (\<lambda>d. d\<lparr>mDeferConfirmSingleTap := True\<rparr>) s1)"
  define s3 where "s3 = upd_det (\<lambda>d. d\<lparr>mDeferConfirmSingleTap := False, mInLongPress := True\<rparr>) (mq_free b (set_next a c s2))"
  define s4 where "s4 = mq_free c (s3\<lparr>calls := calls s3 @ [OnLongPress ?e]\<rparr>)"
  have f1: "node s1 = node s" "mlist s1 = mlist s" "det s1 = det s" "calls s1 = calls s @ [OnShowPress ?e]" "g_pMessageQueue s1 = ?l" "heap (ks s1) = free a (heap (ks s))"
    by (simp_all add: s1_def mq_free_def kfree_def)
  have f2: "node s2 = node s" "mlist s2 = mlist s" "mStillDown (det s2)" "mCurrentDownEvent (det s2) = ?e" "mListener (det s2) = mListener (det s)"
    "calls s2 = calls s1" "g_pMessageQueue s2 = ?l" "heap (ks s2) = free b (heap (ks s1))"
    using f1 assms(5) by (simp_all add: s2_def mq_free_def kfree_def upd_det_def)
  have f3: "mlist s3 = mlist s" "mCurrentDownEvent (det s3) = ?e" "mListener (det s3) = mListener (det s)" "calls s3 = calls s1" "heap (ks s3) = free b (heap (ks s2))"
    "node s3 h = node s h"
    using f2 D(5) by (simp_all add: s3_def mq_free_def kfree_def upd_det_def set_next_def)
  have f4: "mlist s4 = mlist s" "calls s4 = calls s @ [OnShowPress ?e, OnLongPress ?e]" "heap (ks s4) = free c (heap (ks s3))"
    using f1(4) f3 by (simp_all add: s4_def mq_free_def kfree_def)
  have g1: "GestureHandleMessage GESTURE_MESSAGE_TYPE_SHOW_PRESS s = Some (s\<lparr>calls := calls s @ [OnShowPress ?e]\<rparr>)"
    using H by (simp add: GestureHandleMessage_def notify_def)
  have g2: "GestureHandleMessage GESTURE_MESSAGE_TYPE_TAP s1 = Some (upd_det (\<lambda>d. d\<lparr>mDeferConfirmSingleTap := True\<rparr>) s1)"
    using H assms(5) f1(3) by (simp add: GestureHandleMessage_def message_types)
  have "listed ?l [a, b, c] s2" using D(1,3,8) f2(1,2) by (simp add: listed_def h_def)
  then have "removeMessages GESTURE_MESSAGE_TYPE_TAP ?l s2 = Some (mq_free b (set_next a c s2))"
    by (rule remove_second) (use T D(6) f2(1) in \<open>auto simp: message_types\<close>)
  moreover have "det (mq_free b (set_next a c s2)) = det s2" "calls (mq_free b (set_next a c s2)) = calls s2" by (simp_all add: mq_free_def set_next_def)
  ultimately have g3: "GestureHandleMessage GESTURE_MESSAGE_TYPE_LONG_PRESS s2 = Some (s3\<lparr>calls := calls s3 @ [OnLongPress ?e]\<rparr>)"
    using H f2(4-7) f3(4) by (simp add: GestureHandleMessage_def dispatchLongPress_def RemoveMessage_def message_types notify_def s3_def [symmetric] Let_def)
  have "timeout_loop (\<lambda>_. GestureHandleMessage) now ?l a s = timeout_loop (\<lambda>_. GestureHandleMessage) now ?l b s1"
    using N W(1) T(1) g1 by (subst timeout_loop.simps) (simp add: s1_def)
  also have "\<dots> = timeout_loop (\<lambda>_. GestureHandleMessage) now ?l c s2"
    using N W(2) T(2) g2 f1(1) by (subst timeout_loop.simps) (simp add: s2_def)
  also have "\<dots> = timeout_loop (\<lambda>_. GestureHandleMessage) now ?l NULL s4"
    using N W(3) T(3) g3 f2(1) by (subst timeout_loop.simps) (simp add: s4_def)
  also have "\<dots> = Some (NULL, s4)" by (subst timeout_loop.simps) simp
  finally have "handleTimeoutMessage (\<lambda>_. GestureHandleMessage) now ?l s = Some (set_next h NULL s4)"
    using D(1,3) N(1) f4(1) by (simp add: handleTimeoutMessage_def h_def)
  moreover have "heap (ks (set_next h NULL s4)) = free c (free b (free b (free a (heap (ks s)))))" "calls (set_next h NULL s4) = calls s4"
    using f1(6) f2(8) f3(5) f4(3) by (simp_all add: set_next_def)
  ultimately show thesis using that [of "set_next h NULL s4" L a b c] D(2,6,7) f4(2) by simp
qed


section \<open>Properties\<close>

text \<open>C38: A tap is recognised: a finger goes down, at the time \<open>t\<close>, and is lifted without having moved, and no second tap follows until
  the messages are handled at a time \<open>now\<close>. Then the listeners are told of the finger going down, of the tap, of the finger being lifted and, once, of a
  confirmed single tap at the place where it went down, in this order, and of nothing else; no message is left, so there is neither a
  long press nor a second confirmation. This holds for any floating point arithmetic in which the span of one finger is less than the
  minimum for scaling.\<close>

theorem tap_recognised:
  fixes s :: "('f, 'r) gesture_state_scheme" and t u now :: u64
  assumes "at_rest s" "pending [] 3 s" "p \<noteq> NULL" "p' \<noteq> NULL" "lone i (actions s p)" "lone i (actions s p')"
    and "nEvent (actions s p ! i) = TouchScreenEventFingerDown" "nEvent (actions s p' ! i) = TouchScreenEventFingerUp"
    and "\<not> f_le F (f_of_int F (mMinSpan (scale s))) (snd (snd (spans F (actions s p))))" "t' i + DOUBLE_TAP_TIMEOUT \<le> now"
  defines "e \<equiv> event_at t (actions s p ! i)"
  shows "\<exists>s'. do { s \<leftarrow> TouchScreenActionHandler F answer t t' p s; s \<leftarrow> TouchScreenActionHandler F answer u u' p' s;
       handleTimeoutMessage (\<lambda>_. GestureHandleMessage) now (g_pMessageQueue s) s } = Some s' \<and>
    calls s' = calls s @ [OnDown e, OnSingleTapUp (event_at u (actions s p' ! i)), OnUp u, OnSingleTapConfirmed e] \<and> at_rest s' \<and> pending [] 0 s'"
proof -
  have "pending [] (Suc (Suc (Suc 0))) s" using assms(2) by (simp add: numeral_3_eq_3)
  then obtain s1 where 1: "TouchScreenActionHandler F answer t t' p s = Some s1" "tap_down i e s1"
    "pending (ins_msg (t + TAP_TIMEOUT, GESTURE_MESSAGE_TYPE_SHOW_PRESS)
      (ins_msg (t + TAP_TIMEOUT + LONGPRESS_TIMEOUT, GESTURE_MESSAGE_TYPE_LONG_PRESS) [(t' i + DOUBLE_TAP_TIMEOUT, GESTURE_MESSAGE_TYPE_TAP)])) 0 s1"
    "calls s1 = calls s @ [OnDown e]" "actions s1 = actions s"
    using down_handled [OF assms(1) _ assms(3,5,7,9), of 0 answer t t'] unfolding e_def by blast
  have ms: "filter (\<lambda>x. snd x \<noteq> GESTURE_MESSAGE_TYPE_LONG_PRESS) (filter (\<lambda>x. snd x \<noteq> GESTURE_MESSAGE_TYPE_SHOW_PRESS)
     (ins_msg (t + TAP_TIMEOUT, GESTURE_MESSAGE_TYPE_SHOW_PRESS)
      (ins_msg (t + TAP_TIMEOUT + LONGPRESS_TIMEOUT, GESTURE_MESSAGE_TYPE_LONG_PRESS) [(t' i + DOUBLE_TAP_TIMEOUT, GESTURE_MESSAGE_TYPE_TAP)]))) =
     [(t' i + DOUBLE_TAP_TIMEOUT, GESTURE_MESSAGE_TYPE_TAP)]" by (simp add: message_types)
  obtain s2 where 2: "TouchScreenActionHandler F answer u u' p' s1 = Some s2" "at_rest s2" "\<not> mStillDown (det s2)" "mCurrentDownEvent (det s2) = e"
    "pending [(t' i + DOUBLE_TAP_TIMEOUT, GESTURE_MESSAGE_TYPE_TAP)] 0 s2"
    "calls s2 = calls s @ [OnDown e, OnSingleTapUp (event_at u (actions s p' ! i)), OnUp u]"
    using up_handled [OF 1(2,3) assms(4), of F answer u u', unfolded ms] assms(6,8) 1(4,5) by auto
  have "heard s2" using 2(2) by (simp add: at_rest_def)
  then obtain s3 where 3: "handleTimeoutMessage (\<lambda>_. GestureHandleMessage) now (g_pMessageQueue s2) s2 = Some s3" "pending [] 0 s3" "det s3 = det s2"
    "calls s3 = calls s2 @ [OnSingleTapConfirmed e]" using tap_due [OF 2(5) assms(10) 2(3)] 2(4) by auto
  then show ?thesis using 1(1) 2 by (auto simp: at_rest_def heard_def)
qed

definition demo_tap :: "int gesture_state" where
  "demo_tap = demo_input\<lparr>actions := (\<lambda>p. (replicate 5 \<lparr>nPosX = 0, nPosY = 0, nEvent = TouchScreenEventUnknown\<rparr>)
     [0 := \<lparr>nPosX = 50, nPosY = 700, nEvent = (if p = 0x90 then TouchScreenEventFingerDown else TouchScreenEventFingerUp)\<rparr>])\<rparr>"

lemma demo_tap_facts:
  "at_rest demo_tap" "pending [] 3 demo_tap" "lone 0 (actions demo_tap p)"
  "\<not> f_le demo_arith (f_of_int demo_arith (mMinSpan (scale demo_tap))) (snd (snd (spans demo_arith (actions demo_tap 0x90))))"
  "event_at t (actions demo_tap p ! 0) = \<lparr>nEventTime = t, nEventX = 50, nEventY = 700\<rparr>"
  "nEvent (actions demo_tap p ! 0) = (if p = 0x90 then TouchScreenEventFingerDown else TouchScreenEventFingerUp)"
  "calls demo_tap = []"
proof -
  show "at_rest demo_tap" by (simp add: at_rest_def heard_def demo_tap_def demo_input_def demo_det_def demo_scale_def)
  have "queue_at {0x43000060, 0x43000010} 0x43000010 [] demo_tap" using demo_queue by (simp add: queue_at_def demo_tap_def)
  moreover have "slack 3 (heap (ks demo_tap))" using slack_mono [OF demo_slack, of 3] by (simp add: demo_tap_def)
  ultimately show "pending [] 3 demo_tap" by (auto simp: pending_def messages_def demo_tap_def demo_input_def)
  show "lone 0 (actions demo_tap p)" by (auto simp: lone_def demo_tap_def TOUCH_SCREEN_MAX_POINTS_def nth_Cons')
  let ?u = "\<lparr>nPosX = 0, nPosY = 0, nEvent = TouchScreenEventUnknown\<rparr>"
  have a: "actions demo_tap 0x90 = [\<lparr>nPosX = 50, nPosY = 700, nEvent = TouchScreenEventFingerDown\<rparr>, ?u, ?u, ?u, ?u]"
    by (simp add: demo_tap_def) (simp add: numeral_eq_Suc)
  show "\<not> f_le demo_arith (f_of_int demo_arith (mMinSpan (scale demo_tap))) (snd (snd (spans demo_arith (actions demo_tap 0x90))))"
    unfolding a
    by (simp add: spans_def focus_def present_def InvSqrt_def float_abs_def demo_arith_def demo_tap_def demo_input_def demo_det_def demo_scale_def Let_def)
  show "event_at t (actions demo_tap p ! 0) = \<lparr>nEventTime = t, nEventX = 50, nEventY = 700\<rparr>"
    "nEvent (actions demo_tap p ! 0) = (if p = 0x90 then TouchScreenEventFingerDown else TouchScreenEventFingerUp)"
    by (simp_all add: event_at_def demo_tap_def)
  show "calls demo_tap = []" by (simp add: demo_tap_def demo_input_def)
qed

theorem tap_recognised_witness:
  "\<exists>s'. do { s \<leftarrow> TouchScreenActionHandler demo_arith (\<lambda>_. True) 1000 (\<lambda>_. 1001) 0x90 demo_tap;
       s \<leftarrow> TouchScreenActionHandler demo_arith (\<lambda>_. True) 51000 (\<lambda>_. 51001) 0xA0 s;
       handleTimeoutMessage (\<lambda>_. GestureHandleMessage) 400000 (g_pMessageQueue s) s } = Some s' \<and>
    calls s' = [OnDown \<lparr>nEventTime = 1000, nEventX = 50, nEventY = 700\<rparr>, OnSingleTapUp \<lparr>nEventTime = 51000, nEventX = 50, nEventY = 700\<rparr>, OnUp 51000,
      OnSingleTapConfirmed \<lparr>nEventTime = 1000, nEventX = 50, nEventY = 700\<rparr>]"
  using tap_recognised [OF demo_tap_facts(1,2) _ _ demo_tap_facts(3,3) _ _ demo_tap_facts(4), of "0xA0" "\<lambda>_. 1001" 400000 "\<lambda>_. True" 1000 51000 "\<lambda>_. 51001"]
  by (simp add: DOUBLE_TAP_TIMEOUT_def demo_tap_facts(5-7)) blast

text \<open>C39: A long press can break the heap: a finger goes down and stays, and the messages are handled only when all of them are due, in one call. Then the
  handler of the long press removes the tap message, whose node the loop of \<open>handleTimeoutMessage\<close> has freed already but not yet unlinked, and
  frees it again; the listeners are told of a press and of a long press. The free list of the class of the node is then a cycle: of the next three allocations
  of this class, two in a row return the same block. This holds for any state without fingers and messages, for any clock readings
  by which the tap message is due after the press and before the long press, and for any floating point arithmetic in which the span
  of one finger is less than the minimum for scaling.\<close>

theorem long_press_double_free:
  fixes s :: "('f, 'r) gesture_state_scheme" and t now :: u64
  assumes "at_rest s" "pending [] 3 s" "p \<noteq> NULL" "lone i (actions s p)" "nEvent (actions s p ! i) = TouchScreenEventFingerDown"
    and "\<not> f_le F (f_of_int F (mMinSpan (scale s))) (snd (snd (spans F (actions s p))))"
    and "t + TAP_TIMEOUT < t' i + DOUBLE_TAP_TIMEOUT" "t' i + DOUBLE_TAP_TIMEOUT \<le> t + TAP_TIMEOUT + LONGPRESS_TIMEOUT"
    and "t + TAP_TIMEOUT + LONGPRESS_TIMEOUT \<le> now"
  defines "e \<equiv> event_at t (actions s p ! i)"
  shows "\<exists>s' a. do { s \<leftarrow> TouchScreenActionHandler F answer t t' p s; handleTimeoutMessage (\<lambda>_. GestureHandleMessage) now (g_pMessageQueue s) s } = Some s' \<and>
    calls s' = calls s @ [OnDown e, OnShowPress e, OnLongPress e] \<and> a \<noteq> NULL \<and>
    (let H = heap (ks s') in \<forall>n. find_bucket n (s_BlockBucket H) = find_bucket (nSize (blk H (a - 16))) (s_BlockBucket H) \<longrightarrow>
       (let (p1, h1) = malloc n H; (p2, h2) = malloc n h1; (p3, h3) = malloc n h2 in p1 = a \<and> p2 = a \<or> p2 = a \<and> p3 = a))"
proof -
  have "pending [] (Suc (Suc (Suc 0))) s" using assms(2) by (simp add: numeral_3_eq_3)
  then obtain s1 where 1: "TouchScreenActionHandler F answer t t' p s = Some s1" "tap_down i e s1"
    "pending (ins_msg (t + TAP_TIMEOUT, GESTURE_MESSAGE_TYPE_SHOW_PRESS)
      (ins_msg (t + TAP_TIMEOUT + LONGPRESS_TIMEOUT, GESTURE_MESSAGE_TYPE_LONG_PRESS) [(t' i + DOUBLE_TAP_TIMEOUT, GESTURE_MESSAGE_TYPE_TAP)])) 0 s1"
    "calls s1 = calls s @ [OnDown e]"
    using down_handled [OF assms(1) _ assms(3-6), of 0 answer t t'] unfolding e_def by blast
  have d: "mStillDown (det s1)" "heard s1" "mCurrentDownEvent (det s1) = e" using 1(2) by (simp_all add: tap_down_def)
  have ms: "ins_msg (t + TAP_TIMEOUT, GESTURE_MESSAGE_TYPE_SHOW_PRESS)
      (ins_msg (t + TAP_TIMEOUT + LONGPRESS_TIMEOUT, GESTURE_MESSAGE_TYPE_LONG_PRESS) [(t' i + DOUBLE_TAP_TIMEOUT, GESTURE_MESSAGE_TYPE_TAP)]) =
    [(t + TAP_TIMEOUT, GESTURE_MESSAGE_TYPE_SHOW_PRESS), (t' i + DOUBLE_TAP_TIMEOUT, GESTURE_MESSAGE_TYPE_TAP),
     (t + TAP_TIMEOUT + LONGPRESS_TIMEOUT, GESTURE_MESSAGE_TYPE_LONG_PRESS)]"
    using assms(7,8) by (simp add: leD)
  have le: "t' i + DOUBLE_TAP_TIMEOUT \<le> now" "t + TAP_TIMEOUT \<le> now" using assms(7-9) by auto
  obtain L a b c s' where Z: "handleTimeoutMessage (\<lambda>_. GestureHandleMessage) now (g_pMessageQueue s1) s1 = Some s'"
    "heap_inv L (heap (ks s1))" "distinct [a, b, c]" "{a, b, c} \<subseteq> L" "heap (ks s') = free c (free b (free b (free a (heap (ks s1)))))"
    "calls s' = calls s1 @ [OnShowPress e, OnLongPress e]"
    by (rule late_long_press [OF 1(3) [unfolded ms] le(2,1) assms(9) d(1,2), unfolded d(3)], rule that)
  have L: "heap_inv (L - {a}) (free a (heap (ks s1)))" using heap.dealloc_inv [OF Z(2), of a] Z(4) by simp
  have bc: "b \<in> L - {a}" "c \<in> L - {a}" "b \<noteq> c" using Z(3,4) by auto
  have "b \<noteq> NULL" using heap.live_nonnull [OF L] bc(1) by auto
  note F = double_free [OF L bc Z(5) _ prod.collapse [symmetric] prod.collapse [symmetric] prod.collapse [symmetric]]
  have "let H = heap (ks s') in \<forall>n. find_bucket n (s_BlockBucket H) = find_bucket (nSize (blk H (b - 16))) (s_BlockBucket H) \<longrightarrow>
       (let (p1, h1) = malloc n H; (p2, h2) = malloc n h1; (p3, h3) = malloc n h2 in p1 = b \<and> p2 = b \<or> p2 = b \<and> p3 = b)"
    unfolding Let_def case_prod_beta using F by blast
  moreover have "do { s \<leftarrow> TouchScreenActionHandler F answer t t' p s; handleTimeoutMessage (\<lambda>_. GestureHandleMessage) now (g_pMessageQueue s) s } = Some s'"
    using 1(1) Z(1) by simp
  moreover have "calls s' = calls s @ [OnDown e, OnShowPress e, OnLongPress e]" using 1(4) Z(6) by simp
  ultimately show ?thesis using \<open>b \<noteq> NULL\<close> by blast
qed

theorem long_press_double_free_witness:
  "\<exists>s' a n. do { s \<leftarrow> TouchScreenActionHandler demo_arith (\<lambda>_. True) 1000 (\<lambda>_. 1001) 0x90 demo_tap;
       handleTimeoutMessage (\<lambda>_. GestureHandleMessage) 700000 (g_pMessageQueue s) s } = Some s' \<and>
    calls s' = [OnDown \<lparr>nEventTime = 1000, nEventX = 50, nEventY = 700\<rparr>, OnShowPress \<lparr>nEventTime = 1000, nEventX = 50, nEventY = 700\<rparr>,
      OnLongPress \<lparr>nEventTime = 1000, nEventX = 50, nEventY = 700\<rparr>] \<and> a \<noteq> NULL \<and>
    (let (p1, h1) = malloc n (heap (ks s')); (p2, h2) = malloc n h1; (p3, h3) = malloc n h2 in p1 = a \<and> p2 = a \<or> p2 = a \<and> p3 = a)"
proof -
  let ?W = "\<lambda>s' a n. let (p1, h1) = malloc n (heap (ks s')); (p2, h2) = malloc n h1; (p3, h3) = malloc n h2 in p1 = a \<and> p2 = a \<or> p2 = a \<and> p3 = a"
  have t: "(1000 :: u64) + TAP_TIMEOUT < 1001 + DOUBLE_TAP_TIMEOUT" "(1001 :: u64) + DOUBLE_TAP_TIMEOUT \<le> 1000 + TAP_TIMEOUT + LONGPRESS_TIMEOUT"
    "(1000 :: u64) + TAP_TIMEOUT + LONGPRESS_TIMEOUT \<le> 700000"
    by (simp_all add: TAP_TIMEOUT_def DOUBLE_TAP_TIMEOUT_def LONGPRESS_TIMEOUT_def)
  obtain s' a where s': "do { s \<leftarrow> TouchScreenActionHandler demo_arith (\<lambda>_. True) 1000 (\<lambda>_. 1001) 0x90 demo_tap;
       handleTimeoutMessage (\<lambda>_. GestureHandleMessage) 700000 (g_pMessageQueue s) s } = Some s'"
    "calls s' = [OnDown \<lparr>nEventTime = 1000, nEventX = 50, nEventY = 700\<rparr>, OnShowPress \<lparr>nEventTime = 1000, nEventX = 50, nEventY = 700\<rparr>,
      OnLongPress \<lparr>nEventTime = 1000, nEventX = 50, nEventY = 700\<rparr>]" "a \<noteq> NULL"
    "let H = heap (ks s') in \<forall>n. find_bucket n (s_BlockBucket H) = find_bucket (nSize (blk H (a - 16))) (s_BlockBucket H) \<longrightarrow> ?W s' a n"
    using long_press_double_free [OF demo_tap_facts(1,2) _ demo_tap_facts(3) _ demo_tap_facts(4), of 1000 "\<lambda>_. 1001" 700000 "\<lambda>_. True"] t
    unfolding demo_tap_facts(5-7) Let_def by auto
  have "?W s' a (nSize (blk (heap (ks s')) (a - 16)))" using s'(4) [unfolded Let_def, THEN spec, THEN mp, OF refl] unfolding Let_def .
  then show ?thesis using s'(1-3) by (intro exI conjI)
qed

section \<open>Delivery\<close>

text \<open>C11: \<open>handleTimeoutMessage\<close> with the handler that the recogniser installs. On a sorted queue it delivers all messages that are due, each once and in
  order: the listeners are told of a press, of a long press and, if no finger is down, of a confirmed single tap, with the event of the
  finger that went down, and of nothing else. The delivered messages are taken out of the queue, which keeps the others in order, and exactly their nodes are returned to
  the heap. The condition is that no tap message is in the queue when a long press is due; without it a node can be freed twice.\<close>

theorem timeout_delivers_due:
  fixes s :: "('f, 'r) gesture_state_scheme"
  assumes "queue_at L (g_pMessageQueue s) as s" "heard s" "sorted (map fst (messages as s))"
    and "\<forall>m \<in> set (messages as s). fst m \<le> wn \<and> snd m = GESTURE_MESSAGE_TYPE_LONG_PRESS \<longrightarrow> GESTURE_MESSAGE_TYPE_TAP \<notin> snd ` set (messages as s)"
  shows "\<exists>s' as'. handleTimeoutMessage (\<lambda>_. GestureHandleMessage) wn (g_pMessageQueue s) s = Some s' \<and>
     queue_at (L - (set as - set as')) (g_pMessageQueue s') as' s' \<and> messages as' s' = filter (\<lambda>m. wn < fst m) (messages as s) \<and>
     calls s' = calls s @ concat (map (\<lambda>m. announced (mCurrentDownEvent (det s)) (mStillDown (det s)) (snd m)) (filter (\<lambda>m. fst m \<le> wn) (messages as s))) \<and>
     mInLongPress (det s') = (mInLongPress (det s) \<or> (\<exists>m \<in> set (messages as s). fst m \<le> wn \<and> snd m = GESTURE_MESSAGE_TYPE_LONG_PRESS))"
proof -
  let ?due = "filter (\<lambda>m. fst m \<le> wn) (messages as s)"
  obtain s' as' where D: "handleTimeoutMessage (\<lambda>_. GestureHandleMessage) wn (g_pMessageQueue s) s = Some s'"
    "queue_at (L - (set as - set as')) (g_pMessageQueue s) as' s'" "messages as' s' = filter (\<lambda>m. wn < fst m) (messages as s)"
    "mq_state.more s' = mq_state.more (fold (\<lambda>m. delivered (snd m)) ?due s)"
    using gestures.timeout_delivers [OF assms(1) _ assms(3), of wn] assms(2,4) by blast
  have g: "g_pMessageQueue (fold (\<lambda>m. delivered (snd m)) ms s) = g_pMessageQueue s" for ms
    by (induction ms arbitrary: s) (simp_all add: delivered_def upd_det_def)
  have "calls s' = calls (fold (\<lambda>m. delivered (snd m)) ?due s)" "det s' = det (fold (\<lambda>m. delivered (snd m)) ?due s)" "g_pMessageQueue s' = g_pMessageQueue s"
    using D(4) g [of ?due] by (cases s'; cases "fold (\<lambda>m. delivered (snd m)) ?due s"; simp)+
  moreover have "GESTURE_MESSAGE_TYPE_LONG_PRESS \<in> snd ` set ?due \<longleftrightarrow> (\<exists>m \<in> set (messages as s). fst m \<le> wn \<and> snd m = GESTURE_MESSAGE_TYPE_LONG_PRESS)"
    by force
  ultimately show ?thesis using D(1-3) delivered_calls [of ?due s] by (intro exI [of _ s'] exI [of _ as']) simp
qed

theorem timeout_delivers_due_witness:
  "\<exists>s1 s2 s'. sendMessageAtTime GESTURE_MESSAGE_TYPE_LONG_PRESS 8 demo_tap = Some s1 \<and> sendMessageAtTime GESTURE_MESSAGE_TYPE_SHOW_PRESS 6 s1 = Some s2 \<and>
     handleTimeoutMessage (\<lambda>_. GestureHandleMessage) 9 (g_pMessageQueue s2) s2 = Some s' \<and>
     calls s' = [OnShowPress (mCurrentDownEvent (det demo_tap)), OnLongPress (mCurrentDownEvent (det demo_tap))]"
proof -
  have "pending [] (Suc (Suc 1)) demo_tap" using demo_tap_facts(2) by (simp add: numeral_3_eq_3)
  from pending_send [OF this ok_types(2), of 8] obtain s1 where 1: "sendMessageAtTime GESTURE_MESSAGE_TYPE_LONG_PRESS 8 demo_tap = Some s1"
    "pending [(8, GESTURE_MESSAGE_TYPE_LONG_PRESS)] (Suc 1) s1" "queue_only demo_tap s1" by auto
  from pending_send [OF 1(2) ok_types(1), of 6] obtain s2 where 2: "sendMessageAtTime GESTURE_MESSAGE_TYPE_SHOW_PRESS 6 s1 = Some s2"
    "pending [(6, GESTURE_MESSAGE_TYPE_SHOW_PRESS), (8, GESTURE_MESSAGE_TYPE_LONG_PRESS)] 1 s2" "queue_only s1 s2" by auto
  obtain L as where q: "queue_at L (g_pMessageQueue s2) as s2" "messages as s2 = [(6, GESTURE_MESSAGE_TYPE_SHOW_PRESS), (8, GESTURE_MESSAGE_TYPE_LONG_PRESS)]"
    using 2(2) by (auto simp: pending_def)
  have d: "det s2 = det demo_tap" "calls s2 = []" using 1(3) 2(3) demo_tap_facts(7) by (simp_all add: queue_only_def)
  have "heard s2" using demo_tap_facts(1) d(1) by (simp add: at_rest_def heard_def)
  from timeout_delivers_due [OF q(1) this, of 9, unfolded q(2) d] 1(1) 2(1) show ?thesis by (auto simp: message_types announced_def)
qed

end
