(* ===== verification/Spec2Isabelle.thy ===== *)
theory Spec2Isabelle
  imports Alloc Synchronize Timer SchedProps MsgQueue FatFormal FatDirProps Str FatFsProps FatOpen File WindowProps TapProps
begin

text \<open>
  A model of walleos, a small operating system for the S5P4418 (four ARM processors), with the proofs that its core does what it is
  meant to. The code is C under \<^verbatim>\<open>src/\<close>; paths below are relative to it. The kernel proper is \<^verbatim>\<open>env/lib\<close> with its headers in
  \<^verbatim>\<open>env/include\<close> and \<^verbatim>\<open>include\<close>.

  \<^bold>\<open>The program.\<close> At start the memory allocator gets the free memory, the timers and the scheduler are set up, and every processor
  runs tasks. The timer interrupt counts ticks, polls the kernel timers and makes the scheduler yield. Interrupt handlers hand data to
  tasks through ring buffers; the input tasks turn touch events into messages that are due at a time. Files lie on a card with a
  partition table and FAT volumes: streams (\<^verbatim>\<open>file.c\<close>) use the file system (\<^verbatim>\<open>fatfs.c\<close>), which uses directories, the file allocation
  table and a cache of sectors and clusters, which reads and writes the card through a window of one partition. The screen is composed
  of sheets, one per window; tasks write text into their windows and the input events move and close windows. Everything allocates
  with \<open>malloc\<close>, and guards what it shares with critical sections.

  \<^bold>\<open>Conventions\<close> (\<^verbatim>\<open>Prelude\<close>). Integers keep their width where the code can wrap: \<open>u8\<close>, \<open>u16\<close>, \<open>u32\<close>, \<open>u64\<close> are words; the \<open>int\<close> of
  C is \<open>int\<close> where the values stay in range, and a word read with \<open>sint\<close> where the code mixes signs. A C structure is a record,
  an enumeration a datatype. State is passed explicitly. A failed \<open>assert\<close>, a null pointer that is dereferenced and an access outside
  of an array are the outcome \<^term>\<open>None\<close> of an option; the error codes of the code are values. Linked structures are
  stores from addresses to records, so that aliasing is the code's. A loop is a recursion over what it counts; a loop that follows
  pointers or scans for a terminator is a \<open>partial_function\<close> whose missing result is a loop that does not end, and the theorems
  show that it ends on the inputs in question. There is no fuel. What the code reads from hardware or from uninitialised memory (the card, the clock,
  an array on the stack) is an argument.

  \<^bold>\<open>Memory\<close> (\<^verbatim>\<open>Alloc\<close>: \<^verbatim>\<open>alloc.c\<close>). Three allocators: blocks by size class, blocks for DMA, pages. The locale \<open>allocator\<close> states
  the contract (a fresh block, aligned, disjoint from those in use, invariant kept) and is interpreted for all three. Its
  extension \<open>failing_allocator\<close> also says what a call that fails leaves behind, and is interpreted for the heap: scripts of requests are verified in it
  that go on after failed calls, as long as what they ask for together does not carry the heap pointer round the address space, which \<open>malloc\<close> does
  not exclude.

  \<^bold>\<open>Critical sections\<close> (\<^verbatim>\<open>Synchronize\<close>: \<^verbatim>\<open>synchronize.c\<close>). The nesting level per processor, and the sequence of cache operations
  on ranges. For every interleaving the interrupts of a processor are masked exactly inside of its sections, and restored behind them.

  \<^bold>\<open>Timers\<close> (\<^verbatim>\<open>Timer\<close>: \<^verbatim>\<open>timer.c\<close>, \<^verbatim>\<open>uspibind.c\<close>). The table of kernel timers, the tick interrupt and the calendar. A timer fires
  when its delay is over, also when the tick counter wraps. The locale \<open>timer_handler\<close> states what a handler may do during a poll (start timers, keep those that
  run), and which timers a poll then calls.

  \<^bold>\<open>Tasks\<close> (\<^verbatim>\<open>Sched\<close>, \<^verbatim>\<open>SchedProps\<close>: \<^verbatim>\<open>task.c\<close>, \<^verbatim>\<open>scheduler.c\<close>, \<^verbatim>\<open>taskswitchinterrupt.c\<close>, \<^verbatim>\<open>timeslicetimerhandler.c\<close>). The tables of
  tasks by processor and priority. The choice of the next task is the first runnable one in rotation order of the highest level;
  tasks of a level that stay ready are served in turn; \<open>timer_handler\<close> is interpreted for
  \<open>TimeSliceTimerHandler\<close>, which yields and restarts its timer inside of the poll; the operations refine operations on sets of tasks. A switch of stacks is the
  event \<open>SwitchTo\<close>, since the switch itself is assembly.

  \<^bold>\<open>Queues\<close> (\<^verbatim>\<open>Fifo\<close>: \<^verbatim>\<open>fifo.c\<close>, \<^verbatim>\<open>motioneventfifo.c\<close>; \<^verbatim>\<open>MsgQueue\<close>: \<^verbatim>\<open>messagequeue.c\<close>). Ring buffers implement the locale
  \<open>bounded_queue\<close>; message queues are sorted linked lists on the heap. The locale \<open>message_handler\<close> states what a handler must leave
  alone so that the messages that are due are delivered once, in order of time, and their nodes freed; it is interpreted for \<open>GestureHandleMessage\<close> on queues without a
  tap message when a long press is due. Without this condition a node is freed twice.

  \<^bold>\<open>Input\<close> (\<^verbatim>\<open>Touch\<close>, \<^verbatim>\<open>TouchProps\<close>: \<^verbatim>\<open>input/touchscreen.c\<close>; \<^verbatim>\<open>Gesture\<close>, \<^verbatim>\<open>GestureProps\<close>, \<^verbatim>\<open>InputProps\<close>, \<^verbatim>\<open>TapProps\<close>:
  \<^verbatim>\<open>input/gesturedetector.c\<close>, \<^verbatim>\<open>input/scalegesturedetector.c\<close>). The reports of the controller become motion events in the
  ring buffer, and the recogniser turns these into taps, long presses, scrolls, flings and scalings with the help of two message queues.
  Floating-point arithmetic is an argument, a record of operations of which no law is part of the model; the theorems about taps and long presses
  assume that the span of one finger comes out below the minimum for scaling. The calls of the listeners are recorded in
  order. The relation \<open>input_step\<close> interleaves reports of the controller and their handling, at any readings of the clock: for every interleaving,
  as long as the ring buffer and the heap have room, the fingers that the recogniser holds for down are the ones that went down, and no handler fails. A short touch is recognised as a tap. Two situations in which the code
  loses or frees twice a node on the heap are proved as well.

  \<^bold>\<open>Card and cache\<close> (\<^verbatim>\<open>Disk\<close>: \<^verbatim>\<open>drivers/mmc/mmc.c\<close>, \<^verbatim>\<open>mmc_write.c\<close>, \<^verbatim>\<open>fs/partition.c\<close>; \<^verbatim>\<open>PartMan\<close>: \<^verbatim>\<open>fs/partitionmanager.c\<close>;
  \<^verbatim>\<open>FatCache\<close>, \<^verbatim>\<open>FatCacheProps\<close>, \<^verbatim>\<open>ClusterCache\<close>: \<^verbatim>\<open>fs/fatcache.c\<close>). The card is a parameter: a function that answers commands, with
  the contract that a working card keeps what is written. Transfers are shown to move the right blocks. The cache is written once over
  the locale \<open>backing_store\<close>, which is interpreted for sectors and for clusters; it is transparent, and a flush writes everything back.

  \<^bold>\<open>FAT\<close> (\<^verbatim>\<open>FatInfo\<close>: \<^verbatim>\<open>fatinfo.c\<close>; \<^verbatim>\<open>Fat\<close>, \<^verbatim>\<open>FatProps\<close>: \<^verbatim>\<open>fat.c\<close>; \<^verbatim>\<open>FatName\<close>, \<^verbatim>\<open>FatDir\<close>, \<^verbatim>\<open>FatDirProps\<close>: \<^verbatim>\<open>fatdir.c\<close>; \<^verbatim>\<open>FatFormal\<close>:
  \<^verbatim>\<open>fatformal.c\<close>; \<^verbatim>\<open>FatFs\<close>, \<^verbatim>\<open>FatRead\<close>, \<^verbatim>\<open>FatFsProps\<close>, \<^verbatim>\<open>FatOpen\<close>: \<^verbatim>\<open>fatfs.c\<close>; \<^verbatim>\<open>Path\<close>: \<^verbatim>\<open>path.c\<close>; \<^verbatim>\<open>File\<close>: \<^verbatim>\<open>file.c\<close>). Entries of the table
  are read back as written in every copy; chains of clusters are walked, allocated and freed exactly; a lookup in a directory refines a
  search over the list of its entries; names and times survive the round trip; the formatter writes the stated image; a file opened by
  name delivers the bytes of its chain up to its size; writes to a file that is written from its beginning append. The proofs about directories and files are for FAT32.

  \<^bold>\<open>Text\<close> (\<^verbatim>\<open>Stdlib\<close>: \<^verbatim>\<open>stdlib/*.c\<close>, \<^verbatim>\<open>stdio/vsprintf.c\<close>; \<^verbatim>\<open>Str\<close>: \<^verbatim>\<open>string.c\<close>). Numbers are printed and parsed back; the functions on memory
  and strings agree with list functions.

  \<^bold>\<open>Screen\<close> (\<^verbatim>\<open>Sheet\<close>, \<^verbatim>\<open>SheetProps\<close>, \<^verbatim>\<open>Window\<close>, \<^verbatim>\<open>WindowProps\<close>: \<^verbatim>\<open>graphic/graphic.c\<close>). The sheets with their heights and places, the map of
  visible sheets, the frame buffer, text output, windows, and the events of mouse and touch screen. The abstract state is the stack of
  visible sheets: raising, hiding, showing and moving a sheet refine operations on it, and the partial refreshes leave at every pixel the colour of
  the highest sheet that is not transparent there. Touch events of one finger keep this in any order, once a window has been
  selected; text stays inside of its window.

  \<^bold>\<open>Not modelled.\<close> Drivers that only write registers (clocks, GPIO, PWM, display, serial port, I2C, Ethernet, interrupt controller,
  MMU, set-up of the card), assembly (start, context switch), the start of the other processors, pictures (floating
  point and the JPEG library), the network stack and the JPEG library, which are copies of other
  projects, and the sample programs. Memory is sequentially consistent: what the other processors see in which order is not
  modelled. The reasons are with the components of the manifest.
\<close>

end
